(* ===== verification/Prelude.thy ===== *)
theory Prelude
  imports Main "HOL-Library.Word" "HOL-Library.Char_ord" "HOL-Library.List_Lexorder"
begin

text \<open>
  Shared vocabulary of the development: \<open>size_t\<close> arithmetic with its wrap-around, the
  exceptions of the library as one error type, \<open>std::map\<close> as a key-sorted association list,
  and the list lemmas that several components use.

  \<^item> \<open>size_t\<close> values are naturals below \<open>SIZE_MOD\<close> = 2^64. Wherever the code adds or
    subtracts addresses or byte counts, the model uses \<open>add64\<close> and \<open>sub64\<close>, which wrap
    as the machine does; \<open>size_arith\<close> collects the rules that turn them into ordinary
    arithmetic where no wrap can happen.
  \<^item> An exception is an \<open>Inl\<close> of the sum type \<open>pothos_error + 'a\<close>.
\<close>

section \<open>Machine arithmetic on size\_t\<close>

named_theorems size_arith

type_synonym usize = nat

definition SIZE_MOD :: nat where
  "SIZE_MOD = 2 ^ 64"

definition add64 :: "usize \<Rightarrow> usize \<Rightarrow> usize" where
  "add64 a b = (a + b) mod SIZE_MOD"

definition sub64 :: "usize \<Rightarrow> usize \<Rightarrow> usize" where
  "sub64 a b = (a + (SIZE_MOD - b mod SIZE_MOD)) mod SIZE_MOD"

definition mul64 :: "usize \<Rightarrow> usize \<Rightarrow> usize" where
  "mul64 a b = (a * b) mod SIZE_MOD"

lemma SIZE_MOD_pos [simp]: "0 < SIZE_MOD"
  by (simp add: SIZE_MOD_def)

lemma SIZE_MOD_neq0 [simp]: "SIZE_MOD \<noteq> 0"
  by (simp add: SIZE_MOD_def)

lemma SIZE_MOD_gt1 [simp]: "Suc 0 < SIZE_MOD"
  by (simp add: SIZE_MOD_def)

lemma add64_exact [size_arith]: "a + b < SIZE_MOD \<Longrightarrow> add64 a b = a + b"
  by (simp add: add64_def)

lemma sub64_exact [size_arith]: "b \<le> a \<Longrightarrow> a < SIZE_MOD \<Longrightarrow> sub64 a b = a - b"
proof -
  assume "b \<le> a" "a < SIZE_MOD"
  then have "sub64 a b = (a - b + SIZE_MOD) mod SIZE_MOD"
    by (simp add: sub64_def)
  also have "\<dots> = a - b" using \<open>a < SIZE_MOD\<close> by simp
  finally show ?thesis .
qed

lemma mul64_exact [size_arith]: "a * b < SIZE_MOD \<Longrightarrow> mul64 a b = a * b"
  by (simp add: mul64_def)

lemma add64_lt [simp]: "add64 a b < SIZE_MOD"
  by (simp add: add64_def)

lemma sub64_lt [simp]: "sub64 a b < SIZE_MOD"
  by (simp add: sub64_def)

lemma mul64_lt [simp]: "mul64 a b < SIZE_MOD"
  by (simp add: mul64_def)

lemma add64_0 [simp]: "a < SIZE_MOD \<Longrightarrow> add64 a 0 = a" "a < SIZE_MOD \<Longrightarrow> add64 0 a = a"
  by (simp_all add: add64_def)

lemma sub64_0 [simp]: "a < SIZE_MOD \<Longrightarrow> sub64 a 0 = a"
  by (simp add: sub64_exact)

lemma sub64_self [simp]: "a < SIZE_MOD \<Longrightarrow> sub64 a a = 0"
  by (simp add: sub64_exact)

lemma sub64_wraps: "a < b \<Longrightarrow> b < SIZE_MOD \<Longrightarrow> sub64 a b = SIZE_MOD - (b - a)"
  by (simp add: sub64_def)

section \<open>Exceptions\<close>

text \<open>The exception classes thrown by the modelled code (the message texts are not modelled).\<close>

datatype pothos_error =
    SharedBufferError
  | DTypeUnknownError
  | BufferConvertError
  | BufferManagerFactoryError
  | PortAccessError
  | PortDomainError
  | PluginPathError
  | PluginRegistryError
  | PluginModuleError
  | TopologyConnectError
  | ThreadPoolError
  | BlockCallNotFound
  | InvalidArgumentException
  | RangeException
  | StdOutOfRange
  | OtherException

type_synonym 'a result = "pothos_error + 'a"

fun result_bind :: "'a result \<Rightarrow> ('a \<Rightarrow> 'b result) \<Rightarrow> 'b result" where
  "result_bind (Inl e) f = Inl e"
| "result_bind (Inr a) f = f a"

lemma result_bind_Inr_iff [simp]:
  "result_bind r f = Inr b \<longleftrightarrow> (\<exists>a. r = Inr a \<and> f a = Inr b)"
  by (cases r) auto

section \<open>std::map: key-sorted association lists\<close>

fun smap_find :: "'k \<Rightarrow> ('k \<times> 'v) list \<Rightarrow> 'v option" where
  "smap_find k [] = None"
| "smap_find k ((k', v) # m) = (if k = k' then Some v else smap_find k m)"

fun smap_set :: "('k::linorder) \<Rightarrow> 'v \<Rightarrow> ('k \<times> 'v) list \<Rightarrow> ('k \<times> 'v) list" where
  "smap_set k v [] = [(k, v)]"
| "smap_set k v ((k', v') # m) =
     (if k = k' then (k, v) # m
      else if k < k' then (k, v) # (k', v') # m
      else (k', v') # smap_set k v m)"

fun smap_erase :: "'k \<Rightarrow> ('k \<times> 'v) list \<Rightarrow> ('k \<times> 'v) list" where
  "smap_erase k [] = []"
| "smap_erase k ((k', v) # m) = (if k = k' then m else (k', v) # smap_erase k m)"

definition smap_ok :: "(('k::linorder) \<times> 'v) list \<Rightarrow> bool" where
  "smap_ok m \<longleftrightarrow> sorted (map fst m) \<and> distinct (map fst m)"

lemma smap_find_map_of: "smap_find k m = map_of m k"
  by (induction m) auto

text \<open>With this congruence the simplifier evaluates a lookup in a literal table entry by entry.\<close>

lemma smap_find_weak_cong: "k = k' \<Longrightarrow> smap_find k m = smap_find k' m"
  by simp

lemma smap_find_set: "smap_find k (smap_set k' v m) = (if k = k' then Some v else smap_find k m)"
  by (induction m) auto

lemma smap_find_set_same [simp]: "smap_find k (smap_set k v m) = Some v"
  by (simp add: smap_find_set)

lemma smap_find_set_other [simp]: "k \<noteq> k' \<Longrightarrow> smap_find k (smap_set k' v m) = smap_find k m"
  by (simp add: smap_find_set)

lemma smap_keys_set: "fst ` set (smap_set k v m) = insert k (fst ` set m)"
proof (induction m)
  case (Cons kv m)
  obtain k' v' where kv: "kv = (k', v')" by (cases kv)
  from Cons.IH show ?case unfolding kv by (simp add: insert_commute split: if_split)
qed simp

lemma smap_keys_erase: "distinct (map fst m) \<Longrightarrow> fst ` set (smap_erase k m) = fst ` set m - {k}"
proof (induction m)
  case (Cons kv m)
  obtain k' v' where kv: "kv = (k', v')" by (cases kv)
  from Cons show ?case unfolding kv by (cases "k = k'") (simp_all add: insert_Diff_if)
qed simp

lemma smap_ok_Nil [simp]: "smap_ok []"
  by (simp add: smap_ok_def)

lemma smap_ok_Cons:
  "smap_ok ((k, v) # m) \<longleftrightarrow> (\<forall>k' \<in> fst ` set m. k < k') \<and> smap_ok m"
  by (auto simp: smap_ok_def less_le)

lemma smap_ok_set [simp]: "smap_ok m \<Longrightarrow> smap_ok (smap_set k v m)"
proof (induction m)
  case (Cons kv m)
  obtain k' v' where kv: "kv = (k', v')" by (cases kv)
  from Cons show ?case
    unfolding kv by (simp add: smap_ok_Cons smap_keys_set) (metis not_less_iff_gr_or_eq order.strict_trans)
qed (simp add: smap_ok_def)

lemma smap_ok_erase [simp]: "smap_ok m \<Longrightarrow> smap_ok (smap_erase k m)"
proof (induction m)
  case (Cons kv m)
  obtain k' v' where kv: "kv = (k', v')" by (cases kv)
  from Cons.prems have "distinct (map fst m)" by (simp add: smap_ok_def)
  with Cons show ?case
    unfolding kv by (auto simp: smap_ok_Cons smap_keys_erase)
qed simp

lemma smap_find_None_iff: "smap_find k m = None \<longleftrightarrow> k \<notin> fst ` set m"
  by (simp add: smap_find_map_of map_of_eq_None_iff)

lemma smap_find_Some_in: "smap_find k m = Some v \<Longrightarrow> (k, v) \<in> set m"
  by (simp add: smap_find_map_of map_of_SomeD)

lemma smap_find_erase:
  "distinct (map fst m) \<Longrightarrow>
    smap_find k (smap_erase k' m) = (if k = k' then None else smap_find k m)"
proof (induction m)
  case (Cons kv m)
  obtain k'' v where kv: "kv = (k'', v)" by (cases kv)
  show ?case
  proof (cases "k' = k''")
    case True
    with Cons.prems have "smap_find k' m = None" by (simp add: kv smap_find_None_iff)
    with True show ?thesis by (simp add: kv)
  next
    case False
    with Cons show ?thesis by (cases "k = k'") (simp_all add: kv)
  qed
qed simp

section \<open>Lists\<close>

lemma list_update_Cons_numeral [simp]:
  "(x # xs)[numeral v := y] = x # xs[numeral v - 1 := y]"
  by (simp add: numeral_eq_Suc)

lemma sum_list_map_upt_nth: "sum_list (map f xs) = (\<Sum>i<length xs. f (xs ! i))"
  by (simp add: sum_list_sum_nth atLeast0LessThan)

lemma map_upt_update_shift:
  "j < n \<Longrightarrow> map (\<lambda>i. if i = j then x else f i) [0..<n] = (map f [0..<n])[j := x]"
  by (rule nth_equalityI) (auto simp: nth_list_update)

lemma filter_sorted_split:
  assumes "sorted (map f xs)"
  shows "filter (\<lambda>x. f x < k) xs = take (length (filter (\<lambda>x. f x < k) xs)) xs"
  using assms
proof (induction xs)
  case (Cons x xs)
  show ?case
  proof (cases "f x < k")
    case True
    with Cons show ?thesis by simp
  next
    case False
    with Cons.prems have "\<forall>y \<in> set xs. \<not> f y < k" by auto
    then have "filter (\<lambda>x. f x < k) xs = []" by simp
    with False show ?thesis by simp
  qed
qed simp

end
