(* ===== verification/RingDeque.thy ===== *)
theory RingDeque
  imports Prelude
begin

text \<open>
  \<^verbatim>\<open>Pothos::Util::RingDeque\<close> (pothos-library/include/Pothos/Util/RingDeque.hpp): a double
  ended queue over a vector used as a ring. The record holds the four fields of the class;
  every operation is translated with its index arithmetic. \<open>d\<close> is the value-initialised
  element \<open>T()\<close> that the constructors, \<open>pop_front\<close>, \<open>pop_back\<close> and \<open>set_capacity\<close> write
  into free slots. Container indices are naturals (a vector is always shorter than 2^63, so
  the index sums cannot wrap); \<open>_numElements\<close> is decremented with the wrap of \<open>size_t\<close>.

  \<open>rd_list\<close> is the abstraction to a list and \<open>rd_wf\<close> the representation invariant. The locale
  \<open>deque\<close> states the interface the clients use; it is interpreted on the operations below.
\<close>

section \<open>State and operations\<close>

record 'a ring_deque =
  rd_frontIndex :: nat
  rd_backIndex :: nat
  rd_numElements :: nat
  rd_container :: "'a list"

definition rd_new :: "'a \<Rightarrow> 'a ring_deque" where
  "rd_new d = \<lparr>rd_frontIndex = 0, rd_backIndex = 0, rd_numElements = 0, rd_container = [d]\<rparr>"

definition rd_new_capacity :: "'a \<Rightarrow> nat \<Rightarrow> 'a ring_deque" where
  "rd_new_capacity d cap =
     \<lparr>rd_frontIndex = 0, rd_backIndex = sub64 cap 1, rd_numElements = 0, rd_container = replicate cap d\<rparr>"

definition rd_at :: "'a ring_deque \<Rightarrow> nat \<Rightarrow> 'a" where
  "rd_at q offset = rd_container q ! ((rd_frontIndex q + offset) mod length (rd_container q))"

definition rd_set_at :: "nat \<Rightarrow> 'a \<Rightarrow> 'a ring_deque \<Rightarrow> 'a ring_deque" where
  "rd_set_at offset x q = q\<lparr>rd_container :=
     (rd_container q)[(rd_frontIndex q + offset) mod length (rd_container q) := x]\<rparr>"

definition rd_empty :: "'a ring_deque \<Rightarrow> bool" where
  "rd_empty q \<longleftrightarrow> rd_numElements q = 0"

definition rd_full :: "'a ring_deque \<Rightarrow> bool" where
  "rd_full q \<longleftrightarrow> rd_numElements q = length (rd_container q)"

definition rd_size :: "'a ring_deque \<Rightarrow> nat" where
  "rd_size q = rd_numElements q"

definition rd_capacity :: "'a ring_deque \<Rightarrow> nat" where
  "rd_capacity q = length (rd_container q)"

definition rd_push_front :: "'a \<Rightarrow> 'a ring_deque \<Rightarrow> 'a ring_deque" where
  "rd_push_front x q =
     (let n = length (rd_container q);
          fi = (rd_frontIndex q + n - 1) mod n
      in q\<lparr>rd_frontIndex := fi,
           rd_container := (rd_container q)[fi := x],
           rd_numElements := add64 (rd_numElements q) 1\<rparr>)"

definition rd_pop_front :: "'a \<Rightarrow> 'a ring_deque \<Rightarrow> 'a ring_deque" where
  "rd_pop_front d q =
     (let n = length (rd_container q)
      in q\<lparr>rd_container := (rd_container q)[rd_frontIndex q := d],
           rd_frontIndex := (rd_frontIndex q + 1) mod n,
           rd_numElements := sub64 (rd_numElements q) 1\<rparr>)"

definition rd_front :: "'a ring_deque \<Rightarrow> 'a" where
  "rd_front q = rd_container q ! rd_frontIndex q"

definition rd_push_back :: "'a \<Rightarrow> 'a ring_deque \<Rightarrow> 'a ring_deque" where
  "rd_push_back x q =
     (let n = length (rd_container q);
          bi = (rd_backIndex q + 1) mod n
      in q\<lparr>rd_backIndex := bi,
           rd_container := (rd_container q)[bi := x],
           rd_numElements := add64 (rd_numElements q) 1\<rparr>)"

definition rd_pop_back :: "'a \<Rightarrow> 'a ring_deque \<Rightarrow> 'a ring_deque" where
  "rd_pop_back d q =
     (let n = length (rd_container q)
      in q\<lparr>rd_container := (rd_container q)[rd_backIndex q := d],
           rd_backIndex := (rd_backIndex q + n - 1) mod n,
           rd_numElements := sub64 (rd_numElements q) 1\<rparr>)"

definition rd_back :: "'a ring_deque \<Rightarrow> 'a" where
  "rd_back q = rd_container q ! rd_backIndex q"

text \<open>
  The copy loop of \<open>set_capacity\<close> fills slot \<open>i\<close> of the new vector from the \<open>i\<close>-th element.
\<close>

definition rd_set_capacity :: "'a \<Rightarrow> nat \<Rightarrow> 'a ring_deque \<Rightarrow> 'a ring_deque" where
  "rd_set_capacity d cap q =
     (if rd_numElements q > cap then q
      else q\<lparr>rd_container :=
                fold (\<lambda>i c. c[i := rd_container q ! ((rd_frontIndex q + i) mod length (rd_container q))])
                     [0..<rd_numElements q] (replicate cap d),
             rd_frontIndex := 0,
             rd_backIndex := (rd_numElements q + cap - 1) mod cap\<rparr>)"

lemma rd_pop_front_less:
  assumes "\<not> rd_empty q"
  shows "rd_numElements (rd_pop_front d q) < rd_numElements q"
proof -
  have pos: "0 < rd_numElements q" using assms by (simp add: rd_empty_def)
  then have "rd_numElements q + (SIZE_MOD - 1 mod SIZE_MOD) = rd_numElements q - 1 + SIZE_MOD"
    by (simp add: SIZE_MOD_def)
  then have "sub64 (rd_numElements q) 1 = (rd_numElements q - 1) mod SIZE_MOD"
    by (simp add: sub64_def)
  also have "\<dots> \<le> rd_numElements q - 1" by (rule mod_less_eq_dividend)
  finally show ?thesis using pos by (simp add: rd_pop_front_def Let_def)
qed

function rd_clear :: "'a \<Rightarrow> 'a ring_deque \<Rightarrow> 'a ring_deque" where
  "rd_clear d q = (if rd_empty q then q else rd_clear d (rd_pop_front d q))"
  by pat_completeness auto
termination
  by (relation "measure (\<lambda>(d, q). rd_numElements q)") (simp_all add: rd_pop_front_less)

declare rd_clear.simps [simp del]

section \<open>Abstraction and representation invariant\<close>

definition rd_list :: "'a ring_deque \<Rightarrow> 'a list" where
  "rd_list q = map (rd_at q) [0..<rd_numElements q]"

definition rd_wf :: "'a ring_deque \<Rightarrow> bool" where
  "rd_wf q \<longleftrightarrow>
     0 < length (rd_container q) \<and> length (rd_container q) < SIZE_MOD \<and>
     rd_frontIndex q < length (rd_container q) \<and>
     rd_numElements q \<le> length (rd_container q) \<and>
     rd_backIndex q = (rd_frontIndex q + rd_numElements q + length (rd_container q) - 1)
                        mod length (rd_container q)"

lemma length_rd_list [simp]: "length (rd_list q) = rd_numElements q"
  by (simp add: rd_list_def)

lemma rd_list_nth [simp]: "i < rd_numElements q \<Longrightarrow> rd_list q ! i = rd_at q i"
  by (simp add: rd_list_def)

lemma rd_empty_list: "rd_empty q \<longleftrightarrow> rd_list q = []"
  by (simp add: rd_empty_def rd_list_def)

lemma rd_size_list: "rd_size q = length (rd_list q)"
  by (simp add: rd_size_def)

lemma rd_wfD:
  assumes "rd_wf q"
  shows "0 < length (rd_container q)" "rd_frontIndex q < length (rd_container q)"
    "rd_numElements q \<le> length (rd_container q)" "rd_numElements q < SIZE_MOD"
    "length (rd_container q) < SIZE_MOD"
  using assms by (auto simp: rd_wf_def)

section \<open>Ring arithmetic\<close>

lemma ring_mod_inj:
  fixes i j n :: nat
  assumes "(f + i) mod n = (f + j) mod n" "i < n" "j < n"
  shows "i = j"
proof -
  have wlog: "a = b" if "(f + a) mod n = (f + b) mod n" "a < n" "b < n" "a \<le> b" for a b
  proof -
    from that have "n dvd (f + b) - (f + a)" by (metis mod_eq_dvd_iff_nat add_le_cancel_left)
    then have "n dvd b - a" by simp
    with that show ?thesis by (metis dvd_imp_le diff_is_0_eq le_antisym less_imp_diff_less not_less zero_less_diff)
  qed
  from wlog[of i j] wlog[of j i] assms show ?thesis by (metis nat_le_linear)
qed

lemma ring_mod_eq_iff:
  fixes i j n :: nat
  shows "i < n \<Longrightarrow> j < n \<Longrightarrow> (f + i) mod n = (f + j) mod n \<longleftrightarrow> i = j"
  using ring_mod_inj by blast

lemma ring_succ_pred:
  fixes a n :: nat
  shows "0 < n \<Longrightarrow> ((a + n - 1) mod n + 1) mod n = a mod n"
  by (simp add: mod_simps)

lemma ring_pred:
  fixes f m n :: nat
  assumes "0 < m"
  shows "(f + m + n - 1) mod n = (f + (m - 1)) mod n"
proof -
  have "f + m + n - 1 = f + (m - 1) + n" using assms by simp
  then show ?thesis by simp
qed

lemma ring_back_of_succ:
  fixes f m n :: nat
  shows "0 < n \<Longrightarrow> (f + m) mod n = ((f + Suc m) + n - 1) mod n"
  by simp

lemma ring_shift:
  fixes f i n :: nat
  shows "((f + 1) mod n + i) mod n = (f + Suc i) mod n"
  by (simp add: mod_simps)

section \<open>Every operation is the list operation\<close>

lemma rd_list_eqI:
  "rd_numElements q = length xs \<Longrightarrow> (\<And>i. i < length xs \<Longrightarrow> rd_at q i = xs ! i) \<Longrightarrow> rd_list q = xs"
  by (rule nth_equalityI) simp_all

lemma rd_full_list: "rd_full q \<longleftrightarrow> length (rd_list q) = rd_capacity q"
  by (simp add: rd_full_def rd_capacity_def)

lemma rd_front_list: "rd_wf q \<Longrightarrow> rd_list q \<noteq> [] \<Longrightarrow> rd_front q = hd (rd_list q)"
  by (subst hd_conv_nth) (auto simp: rd_front_def rd_at_def rd_wf_def rd_list_def)

lemma rd_back_list: "rd_wf q \<Longrightarrow> rd_list q \<noteq> [] \<Longrightarrow> rd_back q = last (rd_list q)"
  by (subst last_conv_nth)
    (auto simp: rd_back_def rd_at_def rd_wf_def rd_list_def ring_pred simp del: One_nat_def)

lemma rd_at_list: "i < length (rd_list q) \<Longrightarrow> rd_at q i = rd_list q ! i"
  by simp

lemma rd_set_at_list:
  assumes wf: "rd_wf q" and i: "i < rd_numElements q"
  shows "rd_list (rd_set_at i x q) = (rd_list q)[i := x]"
proof (rule rd_list_eqI)
  fix j assume "j < length ((rd_list q)[i := x])"
  then have j: "j < rd_numElements q" by simp
  note lens = rd_wfD(1-3)[OF wf]
  show "rd_at (rd_set_at i x q) j = (rd_list q)[i := x] ! j"
    using lens i j ring_mod_eq_iff[of i "length (rd_container q)" j "rd_frontIndex q"]
    by (simp add: rd_at_def rd_set_at_def nth_list_update)
qed (simp add: rd_set_at_def)

lemma rd_set_at_wf [simp]: "rd_wf q \<Longrightarrow> rd_wf (rd_set_at i x q)"
  by (simp add: rd_wf_def rd_set_at_def)

lemma rd_push_back_index:
  assumes "rd_wf q"
  shows "(rd_backIndex q + 1) mod length (rd_container q)
          = (rd_frontIndex q + rd_numElements q) mod length (rd_container q)"
  using assms ring_succ_pred[of "length (rd_container q)" "rd_frontIndex q + rd_numElements q"]
  by (simp add: rd_wf_def)

lemma rd_push_back_list:
  assumes wf: "rd_wf q" and nf: "\<not> rd_full q"
  shows "rd_list (rd_push_back x q) = rd_list q @ [x]"
proof (rule rd_list_eqI)
  let ?n = "length (rd_container q)"
  note lens = rd_wfD[OF wf]
  have lt: "rd_numElements q < ?n" using lens nf by (simp add: rd_full_def)
  show "rd_numElements (rd_push_back x q) = length (rd_list q @ [x])"
    using lt lens by (simp add: rd_push_back_def Let_def size_arith)
  fix i assume "i < length (rd_list q @ [x])"
  then have i: "i < Suc (rd_numElements q)" by simp
  have "rd_at (rd_push_back x q) i =
      (if i = rd_numElements q then x else rd_at q i)"
    using lens lt i ring_mod_eq_iff[of i ?n "rd_numElements q" "rd_frontIndex q"]
    unfolding rd_push_back_def rd_push_back_index[OF wf] Let_def rd_at_def by (auto simp: nth_list_update)
  then show "rd_at (rd_push_back x q) i = (rd_list q @ [x]) ! i"
    using i by (simp add: nth_append)
qed

lemma rd_push_back_wf:
  assumes wf: "rd_wf q" and nf: "\<not> rd_full q"
  shows "rd_wf (rd_push_back x q)"
proof -
  have lt: "rd_numElements q < length (rd_container q)"
    using rd_wfD[OF wf] nf by (simp add: rd_full_def)
  show ?thesis
    using rd_wfD[OF wf] lt ring_back_of_succ[of "length (rd_container q)" "rd_frontIndex q" "rd_numElements q"]
    unfolding rd_push_back_def rd_push_back_index[OF wf] Let_def
    by (simp add: rd_wf_def size_arith)
qed

lemma rd_push_front_list:
  assumes wf: "rd_wf q" and nf: "\<not> rd_full q"
  shows "rd_list (rd_push_front x q) = x # rd_list q"
proof (rule rd_list_eqI)
  let ?n = "length (rd_container q)" and ?f = "rd_frontIndex q"
  let ?g = "(?f + ?n - 1) mod ?n"
  note lens = rd_wfD[OF wf]
  have lt: "rd_numElements q < ?n" using lens nf by (simp add: rd_full_def)
  show "rd_numElements (rd_push_front x q) = length (x # rd_list q)"
    using lt lens by (simp add: rd_push_front_def Let_def size_arith)
  have gf: "(?g + 1) mod ?n = ?f" using ring_succ_pred[of ?n ?f] lens by simp
  fix i assume i: "i < length (x # rd_list q)"
  show "rd_at (rd_push_front x q) i = (x # rd_list q) ! i"
  proof (cases i)
    case 0
    then show ?thesis using lens by (simp add: rd_at_def rd_push_front_def Let_def)
  next
    case (Suc j)
    have slot: "(?g + Suc j) mod ?n = (?f + j) mod ?n"
      using gf ring_shift[of ?g ?n j] by metis
    have "(?g + Suc j) mod ?n \<noteq> (?g + 0) mod ?n"
      using ring_mod_inj[of ?g "Suc j" ?n 0] i Suc lt lens by auto
    then have ne: "(?g + Suc j) mod ?n \<noteq> ?g" by simp
    have "rd_at (rd_push_front x q) (Suc j) = rd_at q j"
      using ne unfolding rd_at_def rd_push_front_def Let_def
      by (simp del: add_Suc_right One_nat_def add: slot)
    then show ?thesis using Suc i by simp
  qed
qed

lemma rd_push_front_wf:
  assumes wf: "rd_wf q" and nf: "\<not> rd_full q"
  shows "rd_wf (rd_push_front x q)"
proof -
  let ?n = "length (rd_container q)" and ?f = "rd_frontIndex q" and ?m = "rd_numElements q"
  note lens = rd_wfD[OF wf]
  have lt: "?m < ?n" using lens nf by (simp add: rd_full_def)
  have "((?f + ?n - 1) mod ?n + Suc ?m + ?n - 1) mod ?n = ((?f + ?n - 1) + ?m) mod ?n"
    by (simp add: mod_simps)
  also have "\<dots> = (?f + ?m + ?n - 1) mod ?n" using lens by (simp add: ac_simps)
  finally show ?thesis
    using lens lt wf by (simp add: rd_wf_def rd_push_front_def Let_def size_arith)
qed

lemma rd_pop_front_list:
  assumes wf: "rd_wf q" and ne: "\<not> rd_empty q"
  shows "rd_list (rd_pop_front d q) = tl (rd_list q)"
proof (rule rd_list_eqI)
  let ?n = "length (rd_container q)" and ?f = "rd_frontIndex q"
  note lens = rd_wfD[OF wf]
  have pos: "0 < rd_numElements q" using ne by (simp add: rd_empty_def)
  show "rd_numElements (rd_pop_front d q) = length (tl (rd_list q))"
    using pos lens by (simp add: rd_pop_front_def Let_def size_arith)
  fix i assume "i < length (tl (rd_list q))"
  then have i: "Suc i < rd_numElements q" by simp
  have "(?f + Suc i) mod ?n \<noteq> (?f + 0) mod ?n"
    using ring_mod_inj[of ?f "Suc i" ?n 0] i lens by auto
  then have ne: "(?f + Suc i) mod ?n \<noteq> ?f" using lens by simp
  have "((?f + 1) mod ?n + i) mod ?n = (?f + Suc i) mod ?n" by (rule ring_shift)
  then have "rd_at (rd_pop_front d q) i = rd_at q (Suc i)"
    using ne unfolding rd_at_def rd_pop_front_def Let_def by (simp add: nth_list_update)
  then show "rd_at (rd_pop_front d q) i = tl (rd_list q) ! i" using i by (simp add: nth_tl)
qed

lemma rd_pop_front_wf:
  assumes wf: "rd_wf q" and ne: "\<not> rd_empty q"
  shows "rd_wf (rd_pop_front d q)"
proof -
  let ?n = "length (rd_container q)" and ?f = "rd_frontIndex q" and ?m = "rd_numElements q"
  note lens = rd_wfD[OF wf]
  have pos: "0 < ?m" using ne by (simp add: rd_empty_def)
  have "(?f + 1) mod ?n + (?m - 1) + ?n - 1 = (?f + 1) mod ?n + (?m - 1 + ?n - 1)"
    using pos lens by simp
  then have "((?f + 1) mod ?n + (?m - 1) + ?n - 1) mod ?n = ((?f + 1) mod ?n + (?m - 1 + ?n - 1)) mod ?n"
    by simp
  also have "\<dots> = (?f + 1 + (?m - 1 + ?n - 1)) mod ?n" by (rule mod_add_left_eq)
  also have "?f + 1 + (?m - 1 + ?n - 1) = ?f + ?m + ?n - 1" using pos lens by simp
  finally show ?thesis
    using lens pos wf by (simp add: rd_wf_def rd_pop_front_def Let_def size_arith)
qed

lemma rd_pop_back_list:
  assumes wf: "rd_wf q" and ne: "\<not> rd_empty q"
  shows "rd_list (rd_pop_back d q) = butlast (rd_list q)"
proof (rule rd_list_eqI)
  let ?n = "length (rd_container q)" and ?f = "rd_frontIndex q" and ?m = "rd_numElements q"
  note lens = rd_wfD[OF wf]
  have pos: "0 < ?m" using ne by (simp add: rd_empty_def)
  show "rd_numElements (rd_pop_back d q) = length (butlast (rd_list q))"
    using pos lens by (simp add: rd_pop_back_def Let_def size_arith)
  fix i assume "i < length (butlast (rd_list q))"
  then have i: "i < ?m - 1" by simp
  have bi: "rd_backIndex q = (?f + (?m - 1)) mod ?n"
    using wf ring_pred[OF pos] by (simp only: rd_wf_def)
  have "(?f + i) mod ?n \<noteq> (?f + (?m - 1)) mod ?n"
    using ring_mod_inj[of ?f i ?n "?m - 1"] i pos lens(1,3) by linarith
  then have "rd_at (rd_pop_back d q) i = rd_at q i"
    unfolding rd_at_def rd_pop_back_def Let_def bi by (simp add: nth_list_update)
  then show "rd_at (rd_pop_back d q) i = butlast (rd_list q) ! i"
    using i by (simp add: nth_butlast)
qed

lemma rd_pop_back_wf:
  assumes wf: "rd_wf q" and ne: "\<not> rd_empty q"
  shows "rd_wf (rd_pop_back d q)"
proof -
  let ?n = "length (rd_container q)" and ?f = "rd_frontIndex q" and ?m = "rd_numElements q"
  note lens = rd_wfD[OF wf]
  have pos: "0 < ?m" using ne by (simp add: rd_empty_def)
  have "((?f + ?m + ?n - 1) mod ?n + ?n - 1) mod ?n = ((?f + ?m + ?n - 1) mod ?n + (?n - 1)) mod ?n"
    using lens by simp
  also have "\<dots> = (?f + ?m + ?n - 1 + (?n - 1)) mod ?n" by (rule mod_add_left_eq)
  also have "?f + ?m + ?n - 1 + (?n - 1) = ?f + (?m - 1) + ?n - 1 + ?n" using pos lens by simp
  also have "(?f + (?m - 1) + ?n - 1 + ?n) mod ?n = (?f + (?m - 1) + ?n - 1) mod ?n" by simp
  finally show ?thesis
    using lens pos wf by (simp add: rd_wf_def rd_pop_back_def Let_def size_arith)
qed

lemma fold_fill:
  "m \<le> length c \<Longrightarrow> fold (\<lambda>i c. c[i := g i]) [0..<m] c = map g [0..<m] @ drop m c"
proof (induction m)
  case (Suc m)
  then have "fold (\<lambda>i c. c[i := g i]) [0..<Suc m] c = (map g [0..<m] @ drop m c)[m := g m]" by simp
  also have "\<dots> = map g [0..<Suc m] @ drop (Suc m) c"
    using Suc.prems by (simp add: list_update_append Cons_nth_drop_Suc[symmetric])
  finally show ?case .
qed simp

lemma rd_set_capacity_container:
  "rd_numElements q \<le> cap \<Longrightarrow>
    rd_container (rd_set_capacity d cap q) = rd_list q @ replicate (cap - rd_numElements q) d"
  by (simp add: rd_set_capacity_def fold_fill rd_list_def rd_at_def)

lemma rd_set_capacity_list:
  assumes "0 < cap"
  shows "rd_list (rd_set_capacity d cap q) = rd_list q"
proof (cases "rd_numElements q \<le> cap")
  case True
  show ?thesis
  proof (rule rd_list_eqI)
    show "rd_numElements (rd_set_capacity d cap q) = length (rd_list q)"
      by (simp add: rd_set_capacity_def)
    have fi: "rd_frontIndex (rd_set_capacity d cap q) = 0"
      using True by (simp add: rd_set_capacity_def)
    fix i assume "i < length (rd_list q)"
    then have i: "i < rd_numElements q" by simp
    then show "rd_at (rd_set_capacity d cap q) i = rd_list q ! i"
      using True fi by (simp only: rd_at_def rd_set_capacity_container[OF True]) (simp add: nth_append rd_at_def)
  qed
qed (simp add: rd_set_capacity_def)

lemma rd_set_capacity_wf:
  "rd_wf q \<Longrightarrow> 0 < cap \<Longrightarrow> cap < SIZE_MOD \<Longrightarrow> rd_wf (rd_set_capacity d cap q)"
  by (cases "rd_numElements q \<le> cap")
    (simp_all add: rd_wf_def rd_set_capacity_container, simp_all add: rd_set_capacity_def)

lemma rd_set_capacity_capacity:
  "rd_capacity (rd_set_capacity d cap q) = (if rd_numElements q > cap then rd_capacity q else cap)"
  by (simp add: rd_capacity_def rd_set_capacity_def fold_fill)

lemma rd_clear_list:
  "rd_wf q \<Longrightarrow> rd_list (rd_clear d q) = [] \<and> rd_wf (rd_clear d q) \<and>
     rd_capacity (rd_clear d q) = rd_capacity q"
proof (induction d q rule: rd_clear.induct)
  case (1 d q)
  have "rd_capacity (rd_pop_front d q) = rd_capacity q"
    by (simp add: rd_capacity_def rd_pop_front_def Let_def)
  with 1 show ?case
    by (subst (1 2 3) rd_clear.simps) (auto simp: rd_empty_list rd_pop_front_wf)
qed

lemma rd_new_wf [simp]: "rd_wf (rd_new d)" "rd_list (rd_new d) = []"
  by (simp_all add: rd_wf_def rd_new_def rd_list_def)

lemma rd_new_capacity_wf:
  "0 < cap \<Longrightarrow> cap < SIZE_MOD \<Longrightarrow> rd_wf (rd_new_capacity d cap)" "rd_list (rd_new_capacity d cap) = []"
  by (simp_all add: rd_wf_def rd_new_capacity_def rd_list_def size_arith)

section \<open>The deque interface\<close>

text \<open>
  What the ports, the accumulator and the buffer managers need of a queue: an abstraction to a
  list, an invariant, and the four operations with their preconditions. The client idiom
  \<open>if (q.full()) q.set_capacity(q.size()*2); q.push_back(x);\<close> is verified once here.
\<close>

locale deque =
  fixes lst :: "'s \<Rightarrow> 'e list" and inv :: "'s \<Rightarrow> bool" and cap :: "'s \<Rightarrow> nat"
    and full :: "'s \<Rightarrow> bool" and push :: "'e \<Rightarrow> 's \<Rightarrow> 's" and pop :: "'s \<Rightarrow> 's"
    and front :: "'s \<Rightarrow> 'e" and resize :: "nat \<Rightarrow> 's \<Rightarrow> 's"
  assumes full_iff: "inv s \<Longrightarrow> full s \<longleftrightarrow> length (lst s) = cap s"
    and cap_pos: "inv s \<Longrightarrow> 0 < cap s"
    and push_list: "inv s \<Longrightarrow> \<not> full s \<Longrightarrow> lst (push x s) = lst s @ [x]"
    and push_inv: "inv s \<Longrightarrow> \<not> full s \<Longrightarrow> inv (push x s)"
    and pop_list: "inv s \<Longrightarrow> lst s \<noteq> [] \<Longrightarrow> lst (pop s) = tl (lst s)"
    and pop_inv: "inv s \<Longrightarrow> lst s \<noteq> [] \<Longrightarrow> inv (pop s)"
    and front_hd: "inv s \<Longrightarrow> lst s \<noteq> [] \<Longrightarrow> front s = hd (lst s)"
    and resize_list: "inv s \<Longrightarrow> 0 < n \<Longrightarrow> lst (resize n s) = lst s"
    and resize_inv: "inv s \<Longrightarrow> 0 < n \<Longrightarrow> n < SIZE_MOD \<Longrightarrow> inv (resize n s)"
    and resize_cap: "inv s \<Longrightarrow> length (lst s) \<le> n \<Longrightarrow> cap (resize n s) = n"
begin

lemma grow_not_full:
  assumes "inv s" "2 * length (lst s) < SIZE_MOD"
  defines "s' \<equiv> (if full s then resize (length (lst s) * 2) s else s)"
  shows "inv s'" "lst s' = lst s" "\<not> full s'"
proof -
  have "full s \<Longrightarrow> 0 < length (lst s)" using full_iff cap_pos assms(1) by force
  with assms(1,2) show i: "inv s'" and l: "lst s' = lst s"
    unfolding s'_def by (auto simp: resize_inv resize_list mult.commute)
  show "\<not> full s'"
  proof (cases "full s")
    case True
    then have "0 < length (lst s)" using full_iff[OF assms(1)] cap_pos[OF assms(1)] by simp
    moreover have "cap s' = length (lst s) * 2"
      using True assms(1) unfolding s'_def by (simp add: resize_cap)
    ultimately show ?thesis using full_iff[OF i] l by simp
  qed (simp add: s'_def)
qed

lemma grow_push:
  assumes "inv s" "2 * length (lst s) < SIZE_MOD"
  shows "lst (push x (if full s then resize (length (lst s) * 2) s else s)) = lst s @ [x]"
    and "inv (push x (if full s then resize (length (lst s) * 2) s else s))"
  using grow_not_full[OF assms] by (simp_all add: push_list push_inv)

lemma push_pop_fifo:
  assumes "inv s" "\<not> full s"
  shows "lst s = [] \<Longrightarrow> front (push x s) = x"
    and "lst s \<noteq> [] \<Longrightarrow> front (push x s) = front s"
  using assms by (simp_all add: front_hd push_inv push_list)

end

interpretation rd: deque rd_list rd_wf rd_capacity rd_full rd_push_back "rd_pop_front d" rd_front
  "rd_set_capacity d"
  by unfold_locales
    (simp_all add: rd_full_list rd_push_back_list rd_push_back_wf rd_pop_front_list rd_pop_front_wf
      rd_empty_list rd_front_list rd_set_capacity_list rd_set_capacity_wf rd_set_capacity_capacity
      del: length_rd_list, simp_all add: rd_capacity_def rd_wf_def)

definition rd_push_grow :: "'a \<Rightarrow> 'a \<Rightarrow> 'a ring_deque \<Rightarrow> 'a ring_deque" where
  "rd_push_grow d x q = rd_push_back x (if rd_full q then rd_set_capacity d (rd_size q * 2) q else q)"

lemma rd_push_grow_list:
  "rd_wf q \<Longrightarrow> 2 * length (rd_list q) < SIZE_MOD \<Longrightarrow> rd_list (rd_push_grow d x q) = rd_list q @ [x]"
  unfolding rd_push_grow_def rd_size_list by (rule rd.grow_push(1))

lemma rd_push_grow_wf:
  "rd_wf q \<Longrightarrow> 2 * length (rd_list q) < SIZE_MOD \<Longrightarrow> rd_wf (rd_push_grow d x q)"
  unfolding rd_push_grow_def rd_size_list by (rule rd.grow_push(2))

section \<open>Refinement of a bounded list\<close>

text \<open>
  The abstract deque is a list with a capacity; an operation whose precondition fails (pushing
  onto a full queue, popping an empty one, an index past the end, a zero capacity) has no
  abstract result. The concrete deque follows every defined run of it.
\<close>

datatype 'a rd_op =
    PushFront 'a | PushBack 'a | PopFront | PopBack | SetAt nat 'a | SetCapacity nat | Clear

fun rd_exec :: "'a \<Rightarrow> 'a rd_op \<Rightarrow> 'a ring_deque \<Rightarrow> 'a ring_deque" where
  "rd_exec d (PushFront x) q = rd_push_front x q"
| "rd_exec d (PushBack x) q = rd_push_back x q"
| "rd_exec d PopFront q = rd_pop_front d q"
| "rd_exec d PopBack q = rd_pop_back d q"
| "rd_exec d (SetAt i x) q = rd_set_at i x q"
| "rd_exec d (SetCapacity n) q = rd_set_capacity d n q"
| "rd_exec d Clear q = rd_clear d q"

fun blist_exec :: "'a rd_op \<Rightarrow> 'a list \<times> nat \<Rightarrow> ('a list \<times> nat) option" where
  "blist_exec (PushFront x) (xs, c) = (if length xs < c then Some (x # xs, c) else None)"
| "blist_exec (PushBack x) (xs, c) = (if length xs < c then Some (xs @ [x], c) else None)"
| "blist_exec PopFront (xs, c) = (if xs = [] then None else Some (tl xs, c))"
| "blist_exec PopBack (xs, c) = (if xs = [] then None else Some (butlast xs, c))"
| "blist_exec (SetAt i x) (xs, c) = (if i < length xs then Some (xs[i := x], c) else None)"
| "blist_exec (SetCapacity n) (xs, c) =
     (if 0 < n \<and> n < SIZE_MOD then Some (xs, if length xs > n then c else n) else None)"
| "blist_exec Clear (xs, c) = Some ([], c)"

fun blist_run :: "'a rd_op list \<Rightarrow> 'a list \<times> nat \<Rightarrow> ('a list \<times> nat) option" where
  "blist_run [] a = Some a"
| "blist_run (op # ops) a = (case blist_exec op a of None \<Rightarrow> None | Some a' \<Rightarrow> blist_run ops a')"

definition rd_abs :: "'a ring_deque \<Rightarrow> 'a list \<times> nat" where
  "rd_abs q = (rd_list q, rd_capacity q)"

lemma rd_push_pop_capacity [simp]:
  "rd_capacity (rd_push_front x q) = rd_capacity q"
  "rd_capacity (rd_push_back x q) = rd_capacity q"
  "rd_capacity (rd_pop_front d q) = rd_capacity q"
  "rd_capacity (rd_pop_back d q) = rd_capacity q"
  "rd_capacity (rd_set_at i x q) = rd_capacity q"
  by (simp_all add: rd_capacity_def rd_push_front_def rd_push_back_def rd_pop_front_def
      rd_pop_back_def rd_set_at_def Let_def)

lemma rd_exec_refines:
  assumes wf: "rd_wf q" and ex: "blist_exec op (rd_abs q) = Some a"
  shows "rd_wf (rd_exec d op q) \<and> rd_abs (rd_exec d op q) = a"
proof -
  have nf: "length (rd_list q) < rd_capacity q \<Longrightarrow> \<not> rd_full q"
    by (simp add: rd_full_list)
  show ?thesis
    using ex nf
    by (cases op)
      (auto simp: rd_abs_def wf rd_push_front_list rd_push_front_wf rd_push_back_list
        rd_push_back_wf rd_pop_front_list rd_pop_front_wf rd_pop_back_list rd_pop_back_wf
        rd_set_at_list rd_set_capacity_list rd_set_capacity_wf rd_set_capacity_capacity
        rd_clear_list rd_empty_list split: if_splits)
qed

text \<open>C34: every run of deque operations whose preconditions hold on the abstract bounded list
  leaves the ring buffer well formed and holding exactly the abstract list and capacity.\<close>

theorem rd_run_refines:
  assumes "rd_wf q" "blist_run ops (rd_abs q) = Some (xs, c)"
  shows "rd_wf (fold (rd_exec d) ops q) \<and> rd_list (fold (rd_exec d) ops q) = xs
    \<and> rd_capacity (fold (rd_exec d) ops q) = c"
proof -
  have "rd_wf (fold (rd_exec d) ops q) \<and> rd_abs (fold (rd_exec d) ops q) = (xs, c)"
    using assms
  proof (induction ops arbitrary: q)
    case (Cons op ops)
    then obtain a where a: "blist_exec op (rd_abs q) = Some a" "blist_run ops a = Some (xs, c)"
      by (auto split: option.splits)
    with rd_exec_refines[OF Cons.prems(1) a(1), of d] show ?case
      using Cons.IH by simp
  qed simp
  then show ?thesis by (simp add: rd_abs_def)
qed

text \<open>A wrapped run at capacity 2: push, push, pop, push, grow to 4, push in front.\<close>

theorem rd_run_refines_witness:
  "rd_list (fold (rd_exec 0) [PushBack 1, PushBack 2, PopFront, PushBack 3, SetCapacity 4, PushFront 9]
     (rd_new_capacity (0::nat) 2)) = [9, 2, 3]"
proof -
  have "rd_abs (rd_new_capacity (0::nat) 2) = ([], 2)"
    by (simp add: rd_abs_def rd_capacity_def rd_new_capacity_def rd_list_def)
  then have "blist_run [PushBack 1, PushBack 2, PopFront, PushBack 3, SetCapacity 4, PushFront 9]
      (rd_abs (rd_new_capacity (0::nat) 2)) = Some ([9, 2, 3], 4)"
    by (simp add: SIZE_MOD_def)
  from rd_run_refines[OF _ this] show ?thesis by (simp add: rd_new_capacity_wf SIZE_MOD_def)
qed

end
