(* ===== verification/OrderedQueue.thy ===== *)
theory OrderedQueue
  imports RingDeque "HOL-Library.Multiset"
begin

text \<open>
  \<^verbatim>\<open>Pothos::Util::OrderedQueue\<close> (pothos-library/include/Pothos/Util/OrderedQueue.hpp): elements
  are pushed with an index in any order and come out in index order. The buffer managers use it
  to hand out the buffers of a slab in order although the flow graph releases them in any order.

  The loop of \<open>push\<close> ends because each turn clears a flag. The theorem below numbers the pushes
  absolutely (element \<open>f s\<close> goes to index \<open>s mod N\<close>) and shows that the queue delivers
  \<open>f 0, f 1, f 2, ...\<close> whatever the order of the pushes, as long as an index is pushed again only
  after its last element was popped.
\<close>

section \<open>State and operations\<close>

record 'a ordered_queue =
  oq_indexToAck :: nat
  oq_pushedElems :: "'a list"
  oq_pushedElemsFlag :: "bool list"
  oq_readyElems :: "'a ring_deque"

definition oq_new :: "'a \<Rightarrow> 'a ordered_queue" where
  "oq_new d = \<lparr>oq_indexToAck = 0, oq_pushedElems = [], oq_pushedElemsFlag = [],
     oq_readyElems = rd_new d\<rparr>"

definition oq_new_capacity :: "'a \<Rightarrow> nat \<Rightarrow> 'a ordered_queue" where
  "oq_new_capacity d cap = \<lparr>oq_indexToAck = 0, oq_pushedElems = replicate cap d,
     oq_pushedElemsFlag = replicate cap False, oq_readyElems = rd_new_capacity d cap\<rparr>"

definition oq_empty :: "'a ordered_queue \<Rightarrow> bool" where
  "oq_empty q = rd_empty (oq_readyElems q)"

definition oq_flag_at_ack :: "'a ordered_queue \<Rightarrow> bool" where
  "oq_flag_at_ack q \<longleftrightarrow> oq_indexToAck q < length (oq_pushedElemsFlag q)
     \<and> oq_pushedElemsFlag q ! oq_indexToAck q"

text \<open>One turn of the loop in \<open>push\<close>.\<close>

definition oq_ack_one :: "'a \<Rightarrow> 'a ordered_queue \<Rightarrow> 'a ordered_queue" where
  "oq_ack_one d q =
     (let i = oq_indexToAck q
      in q\<lparr>oq_readyElems := rd_push_back (oq_pushedElems q ! i) (oq_readyElems q),
           oq_pushedElems := (oq_pushedElems q)[i := d],
           oq_pushedElemsFlag := (oq_pushedElemsFlag q)[i := False],
           oq_indexToAck := (if i + 1 = length (oq_pushedElems q) then 0 else i + 1)\<rparr>)"

lemma count_list_update_True:
  "i < length xs \<Longrightarrow> xs ! i \<Longrightarrow> count_list (xs[i := False]) True < count_list xs True"
proof (induction xs arbitrary: i)
  case (Cons x xs)
  then show ?case by (cases i) auto
qed simp

function oq_ack_loop :: "'a \<Rightarrow> 'a ordered_queue \<Rightarrow> 'a ordered_queue" where
  "oq_ack_loop d q = (if oq_flag_at_ack q then oq_ack_loop d (oq_ack_one d q) else q)"
  by pat_completeness auto
termination
  by (relation "measure (\<lambda>(d, q). count_list (oq_pushedElemsFlag q) True)")
    (auto simp: oq_flag_at_ack_def oq_ack_one_def Let_def count_list_update_True)

declare oq_ack_loop.simps [simp del]

lemma oq_ack_loop_True: "oq_flag_at_ack q \<Longrightarrow> oq_ack_loop d q = oq_ack_loop d (oq_ack_one d q)"
  by (subst oq_ack_loop.simps) simp

lemma oq_ack_loop_False: "\<not> oq_flag_at_ack q \<Longrightarrow> oq_ack_loop d q = q"
  by (subst oq_ack_loop.simps) simp

definition oq_push :: "'a \<Rightarrow> 'a \<Rightarrow> nat \<Rightarrow> 'a ordered_queue \<Rightarrow> 'a ordered_queue" where
  "oq_push d x index q =
     oq_ack_loop d (q\<lparr>oq_pushedElems := (oq_pushedElems q)[index := x],
                      oq_pushedElemsFlag := (oq_pushedElemsFlag q)[index := True]\<rparr>)"

definition oq_front :: "'a ordered_queue \<Rightarrow> 'a" where
  "oq_front q = rd_front (oq_readyElems q)"

definition oq_set_front :: "'a \<Rightarrow> 'a ordered_queue \<Rightarrow> 'a ordered_queue" where
  "oq_set_front x q = q\<lparr>oq_readyElems := rd_set_at 0 x (oq_readyElems q)\<rparr>"

definition oq_pop :: "'a \<Rightarrow> 'a ordered_queue \<Rightarrow> 'a ordered_queue" where
  "oq_pop d q = q\<lparr>oq_readyElems := rd_pop_front d (oq_readyElems q)\<rparr>"

definition oq_capacity :: "'a ordered_queue \<Rightarrow> nat" where
  "oq_capacity q = rd_capacity (oq_readyElems q)"

definition oq_list :: "'a ordered_queue \<Rightarrow> 'a list" where
  "oq_list q = rd_list (oq_readyElems q)"

section \<open>The relation to absolutely numbered pushes\<close>

text \<open>
  \<open>P\<close> is the set of numbers pushed so far, \<open>n\<close> the number of pops, \<open>b\<close> the next number to
  acknowledge.
\<close>

definition oq_rel :: "nat \<Rightarrow> (nat \<Rightarrow> 'a) \<Rightarrow> nat set \<Rightarrow> nat \<Rightarrow> nat \<Rightarrow> 'a ordered_queue \<Rightarrow> bool" where
  "oq_rel N f P n b q \<longleftrightarrow>
     0 < N \<and> N < SIZE_MOD \<and>
     length (oq_pushedElems q) = N \<and> length (oq_pushedElemsFlag q) = N \<and>
     rd_wf (oq_readyElems q) \<and> rd_capacity (oq_readyElems q) = N \<and>
     oq_indexToAck q = b mod N \<and> n \<le> b \<and> {..<b} \<subseteq> P \<and> (\<forall>s\<in>P. s < n + N) \<and>
     oq_list q = map f [n..<b] \<and>
     (\<forall>s. b \<le> s \<and> s < b + N \<longrightarrow> (oq_pushedElemsFlag q ! (s mod N) \<longleftrightarrow> s \<in> P)) \<and>
     (\<forall>s\<in>P. b \<le> s \<longrightarrow> oq_pushedElems q ! (s mod N) = f s)"

lemma oq_relD:
  assumes "oq_rel N f P n b q"
  shows "0 < N" "N < SIZE_MOD" "length (oq_pushedElems q) = N" "length (oq_pushedElemsFlag q) = N"
    "rd_wf (oq_readyElems q)" "rd_capacity (oq_readyElems q) = N" "oq_indexToAck q = b mod N"
    "n \<le> b" "{..<b} \<subseteq> P" "\<And>s. s \<in> P \<Longrightarrow> s < n + N" "oq_list q = map f [n..<b]"
    "\<And>s. b \<le> s \<Longrightarrow> s < b + N \<Longrightarrow> oq_pushedElemsFlag q ! (s mod N) \<longleftrightarrow> s \<in> P"
    "\<And>s. s \<in> P \<Longrightarrow> b \<le> s \<Longrightarrow> oq_pushedElems q ! (s mod N) = f s"
  using assms by (auto simp: oq_rel_def)

lemma mod_window_ne:
  fixes s b N :: nat
  assumes "b < s" "s < b + N"
  shows "s mod N \<noteq> b mod N"
proof
  assume "s mod N = b mod N"
  then have "(b + (s - b)) mod N = (b + 0) mod N" using assms by simp
  then have "s - b = 0" using assms by (intro ring_mod_inj[of b "s - b" N 0]) auto
  then show False using assms by simp
qed

lemma mod_succ_wrap:
  fixes b N :: nat
  shows "0 < N \<Longrightarrow> (if b mod N + 1 = N then 0 else b mod N + 1) = Suc b mod N"
  by (simp add: mod_Suc)

lemma oq_new_rel: "0 < N \<Longrightarrow> N < SIZE_MOD \<Longrightarrow> oq_rel N f {} 0 0 (oq_new_capacity d N)"
  by (simp add: oq_rel_def oq_new_capacity_def rd_new_capacity_wf oq_list_def)
    (simp add: rd_capacity_def rd_new_capacity_def)

lemma oq_flag_at_ack_rel:
  assumes "oq_rel N f P n b q"
  shows "oq_flag_at_ack q \<longleftrightarrow> b \<in> P"
  using oq_relD[OF assms] by (simp add: oq_flag_at_ack_def)

lemma oq_ack_one_rel:
  assumes R: "oq_rel N f P n b q" and bP: "b \<in> P"
  shows "oq_rel N f P n (Suc b) (oq_ack_one d q)"
proof -
  note r = oq_relD[OF R]
  have win: "b < n + N" using r(10) bP .
  have nf: "\<not> rd_full (oq_readyElems q)"
    using r(6,8,11) win by (simp add: rd_full_list oq_list_def del: length_rd_list)
  have elem: "oq_pushedElems q ! (b mod N) = f b" using r(13) bP by simp
  have list: "oq_list (oq_ack_one d q) = map f [n..<Suc b]"
    using r(5,7,8,11) nf elem by (simp add: oq_list_def oq_ack_one_def Let_def rd_push_back_list)
  have flags: "(oq_pushedElemsFlag q)[b mod N := False] ! (s mod N) \<longleftrightarrow> s \<in> P"
    if "Suc b \<le> s" "s < Suc b + N" for s
  proof (cases "s = b + N")
    case True
    have "b + N \<notin> P" using r(8) r(10)[of "b + N"] by auto
    with True r(1,4) show ?thesis by simp
  next
    case False
    with that mod_window_ne[of b s N] r(12)[of s] show ?thesis by simp
  qed
  have elems: "(oq_pushedElems q)[b mod N := d] ! (s mod N) = f s" if "s \<in> P" "Suc b \<le> s" for s
    using that r(8) r(10)[of s] mod_window_ne[of b s N] r(13)[of s] by simp
  show ?thesis
    unfolding oq_rel_def
    using r(1-10) bP list flags elems nf mod_succ_wrap[of N b]
    by (auto simp: oq_ack_one_def Let_def rd_push_back_wf lessThan_Suc)
qed

lemma oq_ack_loop_rel:
  "oq_rel N f P n b q \<Longrightarrow> \<exists>b'. b' \<notin> P \<and> oq_rel N f P n b' (oq_ack_loop d q)"
proof (induction d q arbitrary: b rule: oq_ack_loop.induct)
  case (1 d q)
  show ?case
  proof (cases "b \<in> P")
    case True
    with 1(2) have fl: "oq_flag_at_ack q" by (simp add: oq_flag_at_ack_rel)
    from 1(1)[OF fl oq_ack_one_rel[OF 1(2) True]] fl show ?thesis
      by (subst oq_ack_loop.simps) simp
  next
    case False
    with 1(2) show ?thesis by (subst oq_ack_loop.simps) (auto simp: oq_flag_at_ack_rel)
  qed
qed

lemma oq_push_rel:
  assumes R: "oq_rel N f P n b q" and new: "s \<notin> P" and win: "s < n + N"
  shows "\<exists>b'. b' \<notin> insert s P \<and> oq_rel N f (insert s P) n b' (oq_push d (f s) (s mod N) q)"
proof -
  note r = oq_relD[OF R]
  have bs: "b \<le> s" using r(9) new by (metis in_mono lessThan_iff not_less)
  let ?q = "q\<lparr>oq_pushedElems := (oq_pushedElems q)[s mod N := f s],
    oq_pushedElemsFlag := (oq_pushedElemsFlag q)[s mod N := True]\<rparr>"
  have same: "t = s" if "t mod N = s mod N" "b \<le> t" "t < b + N" for t
    using that bs win r(8) mod_window_ne[of s t N] mod_window_ne[of t s N]
    by (cases t s rule: linorder_cases) auto
  have "oq_rel N f (insert s P) n b ?q"
    unfolding oq_rel_def
  proof (intro conjI allI ballI impI, goal_cases)
    case (12 t)
    then show ?case using same[of t] r(1,4,12) by (auto simp: nth_list_update)
  next
    case (13 t)
    have "t < b + N" using 13 r(8,10) win by fastforce
    then have eq: "t mod N = s mod N \<longleftrightarrow> t = s" using same[of t] 13 by auto
    have "s mod N < length (oq_pushedElems q)" using r(1,3) by simp
    then show ?case using eq 13 r(13)[of t] by (auto simp: nth_list_update)
  qed (use r win in \<open>auto simp: oq_list_def\<close>)
  from oq_ack_loop_rel[OF this, of d] show ?thesis by (simp add: oq_push_def)
qed

lemma oq_pop_rel:
  assumes R: "oq_rel N f P n b q" and "n < b"
  shows "oq_rel N f P (Suc n) b (oq_pop d q)" "oq_front q = f n"
proof -
  note r = oq_relD[OF R]
  have ne: "rd_list (oq_readyElems q) \<noteq> []" using r(11) assms(2) by (simp add: oq_list_def)
  then have pop: "rd_list (rd_pop_front d (oq_readyElems q)) = map f [Suc n..<b]"
    "rd_wf (rd_pop_front d (oq_readyElems q))"
    using r(5,11) assms(2) by (simp_all add: oq_list_def rd.pop_list rd.pop_inv map_tl[symmetric])
  show "oq_front q = f n"
    using r(5,11) ne assms(2) by (simp add: oq_front_def oq_list_def rd.front_hd hd_map)
  show "oq_rel N f P (Suc n) b (oq_pop d q)"
    unfolding oq_rel_def using r assms(2) pop
    by (auto simp: oq_pop_def oq_list_def less_SucI)
qed

lemma oq_rel_cong:
  assumes R: "oq_rel N f P n b q" and eq: "\<And>s. s \<in> P \<Longrightarrow> f s = g s"
  shows "oq_rel N g P n b q"
proof -
  have "map f [n..<b] = map g [n..<b]"
    using oq_relD(9)[OF R] by (intro map_cong) (auto intro!: eq)
  with R eq show ?thesis unfolding oq_rel_def by auto
qed

lemma oq_set_front_rel:
  assumes R: "oq_rel N f P n b q" and nb: "n < b"
  shows "oq_rel N (f(n := x)) P n b (oq_set_front x q)"
proof -
  note r = oq_relD[OF R]
  have len: "0 < rd_numElements (oq_readyElems q)"
    using nb arg_cong[OF r(11), of length] by (simp add: oq_list_def)
  have "oq_list (oq_set_front x q) = (map f [n..<b])[0 := x]"
    using r(5,11) len by (simp add: oq_list_def oq_set_front_def rd_set_at_list)
  also have "\<dots> = map (f(n := x)) [n..<b]"
    using nb by (simp add: upt_conv_Cons)
  finally show ?thesis
    unfolding oq_rel_def using r nb by (auto simp: oq_set_front_def)
qed

text \<open>The elements pushed but not yet acknowledged.\<close>

definition oq_waiting :: "'a ordered_queue \<Rightarrow> 'a list" where
  "oq_waiting q = map (\<lambda>i. oq_pushedElems q ! i)
     (filter (\<lambda>i. oq_pushedElemsFlag q ! i) [0..<length (oq_pushedElemsFlag q)])"

lemma oq_waiting_rel:
  assumes R: "oq_rel N f P n b q"
  shows "mset (oq_waiting q) = image_mset f (mset_set {s \<in> P. b \<le> s})"
proof -
  note r = oq_relD[OF R]
  let ?W = "{s \<in> P. b \<le> s}" and ?I = "{i. i < N \<and> oq_pushedElemsFlag q ! i}"
  have win: "s < b + N" if "s \<in> P" for s using r(8) r(10)[OF that] by simp
  have inj: "inj_on (\<lambda>s. s mod N) ?W"
  proof (rule inj_onI)
    fix x y assume xy: "x \<in> ?W" "y \<in> ?W" and e: "x mod N = y mod N"
    show "x = y"
    proof (rule ccontr)
      assume "x \<noteq> y"
      then consider "x < y" | "y < x" by linarith
      then show False
        using xy e win[of x] win[of y] mod_window_ne[of x y N] mod_window_ne[of y x N]
        by cases (use xy in auto)
    qed
  qed
  have "?I = (\<lambda>s. s mod N) ` ?W"
  proof (intro set_eqI iffI)
    fix i assume i: "i \<in> ?I"
    let ?s = "b + (i + N - b mod N) mod N"
    have "?s mod N = (b mod N + (i + N - b mod N)) mod N" by (simp add: mod_simps)
    also have "b mod N + (i + N - b mod N) = i + N"
      using r(1) mod_less_divisor[of N b] by linarith
    finally have sm: "?s mod N = i" using i by simp
    have "?s < b + N" using r(1) by simp
    then have "?s \<in> P" using r(12)[of ?s] i sm by simp
    then show "i \<in> (\<lambda>s. s mod N) ` ?W" using sm by (intro image_eqI[of _ _ ?s]) auto
  next
    fix i assume "i \<in> (\<lambda>s. s mod N) ` ?W"
    then obtain s where "s \<in> P" "b \<le> s" "i = s mod N" by auto
    then show "i \<in> ?I" using r(1) r(12)[of s] win[of s] by simp
  qed
  moreover have "mset (filter (\<lambda>i. oq_pushedElemsFlag q ! i) [0..<N]) = mset_set ?I"
  proof -
    have "set (filter (\<lambda>i. oq_pushedElemsFlag q ! i) [0..<N]) = ?I" by auto
    then show ?thesis using mset_set_set[of "filter (\<lambda>i. oq_pushedElemsFlag q ! i) [0..<N]"] by simp
  qed
  ultimately have "mset (oq_waiting q) = image_mset ((!) (oq_pushedElems q)) (mset_set ((\<lambda>s. s mod N) ` ?W))"
    using r(4) by (simp add: oq_waiting_def)
  also have "\<dots> = image_mset (\<lambda>s. oq_pushedElems q ! (s mod N)) (mset_set ?W)"
    using inj by (simp add: image_mset_mset_set[symmetric] image_mset.compositionality comp_def)
  also have "\<dots> = image_mset f (mset_set ?W)"
  proof -
    have "finite ?W" by (rule finite_subset[of _ "{..<b + N}"]) (auto simp: win)
    then show ?thesis using r(13) by (intro image_mset_cong) (auto simp: elem_mset_set)
  qed
  finally show ?thesis .
qed

section \<open>In-order delivery\<close>

datatype oq_op = OqPush nat | OqPop

fun oq_exec :: "'a \<Rightarrow> nat \<Rightarrow> (nat \<Rightarrow> 'a) \<Rightarrow> oq_op \<Rightarrow> 'a ordered_queue \<Rightarrow> 'a ordered_queue" where
  "oq_exec d N f (OqPush s) q = oq_push d (f s) (s mod N) q"
| "oq_exec d N f OqPop q = oq_pop d q"

text \<open>
  A client may push the number \<open>s\<close> once, and only while fewer than \<open>N\<close> numbers from the last
  popped one are in use; it pops only from a queue that is not empty. The list holds the numbers
  pushed so far.
\<close>

fun oq_client :: "'a \<Rightarrow> nat \<Rightarrow> (nat \<Rightarrow> 'a) \<Rightarrow> nat list \<Rightarrow> nat \<Rightarrow> oq_op list \<Rightarrow> 'a ordered_queue \<Rightarrow> bool" where
  "oq_client d N f P n [] q = True"
| "oq_client d N f P n (OqPush s # ops) q \<longleftrightarrow>
     s \<notin> set P \<and> s < n + N \<and> oq_client d N f (s # P) n ops (oq_push d (f s) (s mod N) q)"
| "oq_client d N f P n (OqPop # ops) q \<longleftrightarrow>
     \<not> oq_empty q \<and> oq_client d N f P (Suc n) ops (oq_pop d q)"

fun oq_pops :: "oq_op list \<Rightarrow> nat" where
  "oq_pops [] = 0"
| "oq_pops (OqPush s # ops) = oq_pops ops"
| "oq_pops (OqPop # ops) = Suc (oq_pops ops)"

fun oq_pushed :: "oq_op list \<Rightarrow> nat set" where
  "oq_pushed [] = {}"
| "oq_pushed (OqPush s # ops) = insert s (oq_pushed ops)"
| "oq_pushed (OqPop # ops) = oq_pushed ops"

lemma oq_run_rel:
  "oq_client d N f P n ops q \<Longrightarrow> oq_rel N f (set P) n b q \<Longrightarrow> b \<notin> set P \<Longrightarrow>
    \<exists>b'. b' \<notin> set P \<union> oq_pushed ops \<and>
      oq_rel N f (set P \<union> oq_pushed ops) (n + oq_pops ops) b' (fold (oq_exec d N f) ops q)"
proof (induction ops arbitrary: P n b q)
  case (Cons op ops)
  show ?case
  proof (cases op)
    case (OqPush s)
    with Cons.prems oq_push_rel[of N f "set P" n b q s d] obtain b' where
      "b' \<notin> set (s # P)" "oq_rel N f (set (s # P)) n b' (oq_push d (f s) (s mod N) q)" by auto
    with Cons.IH[of "s # P" n "oq_push d (f s) (s mod N) q" b'] Cons.prems(1) OqPush
    show ?thesis by simp
  next
    case OqPop
    then have "n < b" using Cons.prems oq_relD(11)[OF Cons.prems(2)]
      by (auto simp: oq_empty_def oq_list_def rd_empty_list)
    with Cons.IH[of P "Suc n" "oq_pop d q" b] Cons.prems OqPop oq_pop_rel(1)[OF Cons.prems(2), of d]
    show ?thesis by simp
  qed
qed auto

text \<open>C25: whatever the order in which a client pushes the numbered elements (each index again only
  after its previous element was popped), the queue holds exactly the elements from the number of
  pops up to the first number not yet pushed, in order; so the next pop returns element number
  "pops so far", and the queue is empty exactly when that element has not been pushed.\<close>

theorem oq_in_order:
  assumes "0 < N" "N < SIZE_MOD" "oq_client d N f [] 0 ops (oq_new_capacity d N)"
  defines "q \<equiv> fold (oq_exec d N f) ops (oq_new_capacity d N)"
  shows "(\<exists>b. b \<notin> oq_pushed ops \<and> {..<b} \<subseteq> oq_pushed ops \<and> oq_list q = map f [oq_pops ops..<b])
    \<and> (oq_empty q \<longleftrightarrow> oq_pops ops \<notin> oq_pushed ops)
    \<and> (\<not> oq_empty q \<longrightarrow> oq_front q = f (oq_pops ops))"
proof -
  from oq_run_rel[OF assms(3)] oq_new_rel[OF assms(1,2), of f d] obtain b where
    b: "b \<notin> oq_pushed ops" "oq_rel N f (oq_pushed ops) (oq_pops ops) b q"
    unfolding q_def by auto
  note r = oq_relD[OF b(2)]
  have e: "oq_empty q \<longleftrightarrow> oq_pops ops = b"
    using r(8,11) by (auto simp: oq_empty_def rd_empty_list oq_list_def)
  moreover have "oq_pops ops = b \<longleftrightarrow> oq_pops ops \<notin> oq_pushed ops"
    using b(1) r(8,9) by (metis in_mono le_neq_implies_less lessThan_iff)
  moreover have "\<not> oq_empty q \<Longrightarrow> oq_front q = f (oq_pops ops)"
    using oq_pop_rel(2)[OF b(2)] e r(8) by simp
  ultimately show ?thesis using b(1) r(9,11) by auto
qed

text \<open>Three slots; the indices come back as 1, 0, 2, and slot 0 is reused after a pop.\<close>

theorem oq_in_order_witness:
  "oq_front (fold (oq_exec 0 3 (\<lambda>s. s + 10)) [OqPush 1, OqPush 0, OqPop, OqPush 2, OqPush 3]
     (oq_new_capacity (0::nat) 3)) = 11"
proof -
  have new: "oq_new_capacity (0::nat) 3 = \<lparr>oq_indexToAck = 0, oq_pushedElems = [0, 0, 0],
      oq_pushedElemsFlag = [False, False, False], oq_readyElems =
        \<lparr>rd_frontIndex = 0, rd_backIndex = 2, rd_numElements = 0, rd_container = [0, 0, 0]\<rparr>\<rparr>"
    by (simp add: oq_new_capacity_def rd_new_capacity_def numeral_3_eq_3 size_arith SIZE_MOD_def)
  have c: "oq_client (0::nat) 3 (\<lambda>s. s + 10) [] 0 [OqPush 1, OqPush 0, OqPop, OqPush 2, OqPush 3]
    (oq_new_capacity 0 3)"
    by (simp add: new oq_push_def oq_ack_loop_True oq_ack_loop_False oq_flag_at_ack_def
        oq_ack_one_def Let_def oq_empty_def oq_pop_def rd_empty_def
        rd_push_back_def rd_pop_front_def add64_def sub64_def SIZE_MOD_def)
  have "\<not> oq_empty (fold (oq_exec 0 3 (\<lambda>s. s + 10))
      [OqPush 1, OqPush 0, OqPop, OqPush 2, OqPush 3] (oq_new_capacity (0::nat) 3))"
    using oq_in_order[OF _ _ c] by (simp add: SIZE_MOD_def)
  with oq_in_order[OF _ _ c] show ?thesis by (simp add: SIZE_MOD_def)
qed

end
