(* ===== verification/DType.thy ===== *)
theory DType
  imports Prelude
begin

text \<open>
  \<^verbatim>\<open>Pothos::DType\<close> (pothos-library/lib/Framework/DType.cpp and the inline part of
  include/Pothos/Framework/DType.hpp): the element type codes, the lookup tables that the
  singleton \<open>ElementTypeSuperMap\<close> fills, the markup parser and the printers.

  The names that the compiler gives to the C++ types (\<open>typeid(T).name()\<close>, its demangled form and
  \<open>hash_code\<close>) are parameters \<open>tn\<close>, \<open>ts\<close>, \<open>hs\<close>; the table is the one of a 64 bit \<open>long\<close>
  (\<open>POCO_LONG_IS_64_BIT\<close>). The table keeps the latest assignment of a key in front, so that
  \<open>map_of\<close> finds what \<open>operator[]\<close> would.
\<close>

unbundle bit_operations_syntax

section \<open>Element type codes\<close>

definition f_Custom :: nat where "f_Custom = 1"
definition f_Signed :: nat where "f_Signed = 2"
definition f_Integer :: nat where "f_Integer = 4"
definition f_Float :: nat where "f_Float = 8"
definition f_Complex :: nat where "f_Complex = 16"
definition f_Bytes1 :: nat where "f_Bytes1 = 0"
definition f_Bytes2 :: nat where "f_Bytes2 = 32"
definition f_Bytes4 :: nat where "f_Bytes4 = 64"
definition f_Bytes8 :: nat where "f_Bytes8 = 96"

lemmas element_flag_defs = f_Custom_def f_Signed_def f_Integer_def f_Float_def f_Complex_def
  f_Bytes1_def f_Bytes2_def f_Bytes4_def f_Bytes8_def

datatype element_type =
    EmptyType | CustomType
  | Int8 | UInt8 | Int16 | UInt16 | Int32 | UInt32 | Int64 | UInt64
  | ComplexInt8 | ComplexUInt8 | ComplexInt16 | ComplexUInt16
  | ComplexInt32 | ComplexUInt32 | ComplexInt64 | ComplexUInt64
  | Float32 | Float64 | ComplexFloat32 | ComplexFloat64

fun et_code :: "element_type \<Rightarrow> nat" where
  "et_code EmptyType = 0"
| "et_code CustomType = f_Custom"
| "et_code Int8 = f_Signed OR f_Integer OR f_Bytes1"
| "et_code UInt8 = f_Integer OR f_Bytes1"
| "et_code Int16 = f_Signed OR f_Integer OR f_Bytes2"
| "et_code UInt16 = f_Integer OR f_Bytes2"
| "et_code Int32 = f_Signed OR f_Integer OR f_Bytes4"
| "et_code UInt32 = f_Integer OR f_Bytes4"
| "et_code Int64 = f_Signed OR f_Integer OR f_Bytes8"
| "et_code UInt64 = f_Integer OR f_Bytes8"
| "et_code ComplexInt8 = f_Complex OR f_Signed OR f_Integer OR f_Bytes1"
| "et_code ComplexUInt8 = f_Complex OR f_Integer OR f_Bytes1"
| "et_code ComplexInt16 = f_Complex OR f_Signed OR f_Integer OR f_Bytes2"
| "et_code ComplexUInt16 = f_Complex OR f_Integer OR f_Bytes2"
| "et_code ComplexInt32 = f_Complex OR f_Signed OR f_Integer OR f_Bytes4"
| "et_code ComplexUInt32 = f_Complex OR f_Integer OR f_Bytes4"
| "et_code ComplexInt64 = f_Complex OR f_Signed OR f_Integer OR f_Bytes8"
| "et_code ComplexUInt64 = f_Complex OR f_Integer OR f_Bytes8"
| "et_code Float32 = f_Float OR f_Bytes4"
| "et_code Float64 = f_Float OR f_Bytes8"
| "et_code ComplexFloat32 = f_Complex OR f_Float OR f_Bytes4"
| "et_code ComplexFloat64 = f_Complex OR f_Float OR f_Bytes8"

section \<open>The lookup tables\<close>

text \<open>The C++ types that are loaded, with their sizes.\<close>

datatype cprim =
    Char_t | SChar_t | UChar_t | Short_t | UShort_t | Int_t | UInt_t | Long_t | ULong_t
  | LLong_t | ULLong_t | Float_t | Double_t

datatype ctype = Prim cprim | Cplx cprim

fun prim_sizeof :: "cprim \<Rightarrow> nat" where
  "prim_sizeof Char_t = 1" | "prim_sizeof SChar_t = 1" | "prim_sizeof UChar_t = 1"
| "prim_sizeof Short_t = 2" | "prim_sizeof UShort_t = 2"
| "prim_sizeof Int_t = 4" | "prim_sizeof UInt_t = 4"
| "prim_sizeof Long_t = 8" | "prim_sizeof ULong_t = 8"
| "prim_sizeof LLong_t = 8" | "prim_sizeof ULLong_t = 8"
| "prim_sizeof Float_t = 4" | "prim_sizeof Double_t = 8"

fun ctype_sizeof :: "ctype \<Rightarrow> nat" where
  "ctype_sizeof (Prim p) = prim_sizeof p"
| "ctype_sizeof (Cplx p) = 2 * prim_sizeof p"

record elem_super_map =
  em_alias :: "(string \<times> nat) list"
  em_typeHash :: "(nat \<times> nat) list"
  em_size :: "(nat \<times> nat) list"
  em_name :: "(nat \<times> string) list"

definition em_loadType ::
  "(ctype \<Rightarrow> string) \<Rightarrow> (ctype \<Rightarrow> string) \<Rightarrow> (ctype \<Rightarrow> nat) \<Rightarrow> ctype \<times> element_type \<times> string
    \<Rightarrow> elem_super_map \<Rightarrow> elem_super_map" where
  "em_loadType tn ts hs row m = (case row of (T, et, name) \<Rightarrow>
     m\<lparr>em_alias := (ts T, et_code et) # (tn T, et_code et) # (name, et_code et) # em_alias m,
       em_typeHash := (hs T, et_code et) # em_typeHash m,
       em_size := (et_code et, ctype_sizeof T) # em_size m,
       em_name := (et_code et, name) # em_name m\<rparr>)"

text \<open>The macros \<open>loadNumericType\<close> and \<open>loadIntegerType\<close>, with their pasted tokens as arguments.\<close>

definition loadNumericType ::
  "cprim \<Rightarrow> element_type \<Rightarrow> element_type \<Rightarrow> string \<Rightarrow> (ctype \<times> element_type \<times> string) list" where
  "loadNumericType T code ccode name = [(Prim T, code, name), (Cplx T, ccode, ''complex_'' @ name)]"

definition loadIntegerType ::
  "cprim \<Rightarrow> cprim \<Rightarrow> element_type \<Rightarrow> element_type \<Rightarrow> element_type \<Rightarrow> element_type \<Rightarrow> string
    \<Rightarrow> (ctype \<times> element_type \<times> string) list" where
  "loadIntegerType sT uT code ccode ucode cucode name =
     loadNumericType sT code ccode (''s'' @ name) @
     loadNumericType sT code ccode name @
     loadNumericType uT ucode cucode (''u'' @ name)"

definition em_rows :: "(ctype \<times> element_type \<times> string) list" where
  "em_rows =
     loadNumericType Char_t Int8 ComplexInt8 ''int8'' @
     loadIntegerType SChar_t UChar_t Int8 ComplexInt8 UInt8 ComplexUInt8 ''int8'' @
     loadIntegerType Short_t UShort_t Int16 ComplexInt16 UInt16 ComplexUInt16 ''int16'' @
     loadIntegerType Int_t UInt_t Int32 ComplexInt32 UInt32 ComplexUInt32 ''int32'' @
     loadIntegerType Long_t ULong_t Int64 ComplexInt64 UInt64 ComplexUInt64 ''int64'' @
     loadIntegerType LLong_t ULLong_t Int64 ComplexInt64 UInt64 ComplexUInt64 ''int64'' @
     loadNumericType Float_t Float32 ComplexFloat32 ''float32'' @
     loadNumericType Double_t Float64 ComplexFloat64 ''float64''"

definition declareNativeAlias :: "element_type \<Rightarrow> element_type \<Rightarrow> string \<Rightarrow> (string \<times> nat) list" where
  "declareNativeAlias code ucode name =
     [(name, et_code code), (''s'' @ name, et_code code), (''u'' @ name, et_code ucode)]"

definition em_special_aliases :: "(string \<times> nat) list" where
  "em_special_aliases =
     [('''', et_code EmptyType), (''unspecified'', et_code EmptyType),
      (''custom'', et_code CustomType), (''custom'', et_code CustomType),
      (''byte'', et_code Int8), (''octet'', et_code Int8),
      (''float'', et_code Float32), (''double'', et_code Float64),
      (''complex64'', et_code ComplexFloat32), (''complex128'', et_code ComplexFloat64)] @
     declareNativeAlias Int8 UInt8 ''char'' @
     declareNativeAlias Int16 UInt16 ''short'' @
     declareNativeAlias Int32 UInt32 ''int'' @
     declareNativeAlias Int64 UInt64 ''long'' @
     declareNativeAlias Int64 UInt64 ''long long'' @
     declareNativeAlias Int64 UInt64 ''longlong'' @
     declareNativeAlias Int64 UInt64 ''llong''"

definition ElementTypeSuperMap ::
  "(ctype \<Rightarrow> string) \<Rightarrow> (ctype \<Rightarrow> string) \<Rightarrow> (ctype \<Rightarrow> nat) \<Rightarrow> elem_super_map" where
  "ElementTypeSuperMap tn ts hs =
     (let m = fold (em_loadType tn ts hs) em_rows \<lparr>em_alias = [], em_typeHash = [], em_size = [], em_name = []\<rparr>
      in m\<lparr>em_alias := rev em_special_aliases @ em_alias m,
           em_size := (et_code CustomType, 1) # (et_code EmptyType, 1) # em_size m,
           em_name := (et_code CustomType, ''custom'') # (et_code EmptyType, ''unspecified'') # em_name m\<rparr>)"

section \<open>String helpers of Poco and the standard library\<close>

definition ascii_toLower :: "char \<Rightarrow> char" where
  "ascii_toLower c = (if 65 \<le> (of_char c :: nat) \<and> (of_char c :: nat) \<le> 90
     then char_of ((of_char c :: nat) + 32) else c)"

definition toLower :: "string \<Rightarrow> string" where
  "toLower s = map ascii_toLower s"

definition is_space :: "char \<Rightarrow> bool" where
  "is_space c \<longleftrightarrow> (9 \<le> (of_char c :: nat) \<and> (of_char c :: nat) \<le> 13) \<or> (of_char c :: nat) = 32"

definition str_trim :: "string \<Rightarrow> string" where
  "str_trim s = rev (dropWhile is_space (rev (dropWhile is_space s)))"

definition is_digit :: "char \<Rightarrow> bool" where
  "is_digit c \<longleftrightarrow> 48 \<le> (of_char c :: nat) \<and> (of_char c :: nat) \<le> 57"

definition digits_value :: "string \<Rightarrow> nat" where
  "digits_value s = foldl (\<lambda>v c. 10 * v + ((of_char c :: nat) - 48)) 0 s"

text \<open>
  \<open>std::stoull\<close>: leading white space, an optional sign, decimal digits; the rest is ignored. No
  digit or a value past 2^64 throws (\<open>None\<close>); a minus sign negates modulo 2^64.
\<close>

definition stoull :: "string \<Rightarrow> nat option" where
  "stoull s =
     (let t = dropWhile is_space s;
          neg = (t \<noteq> [] \<and> hd t = CHR ''-'');
          u = (if t \<noteq> [] \<and> (hd t = CHR ''-'' \<or> hd t = CHR ''+'') then tl t else t);
          ds = takeWhile is_digit u;
          v = digits_value ds
      in if ds = [] \<or> v \<ge> SIZE_MOD then None
         else Some (if neg then sub64 0 v else v))"

fun to_string :: "nat \<Rightarrow> string" where
  "to_string n = (if n < 10 then [char_of (48 + n)] else to_string (n div 10) @ [char_of (48 + n mod 10)])"

declare to_string.simps [simp del]

section \<open>DType\<close>

record dtype =
  dt_elemType :: nat
  dt_elemSize :: nat
  dt_dimension :: nat

definition em_lookupAlias :: "elem_super_map \<Rightarrow> string \<Rightarrow> nat result" where
  "em_lookupAlias m alias = (case map_of (em_alias m) (toLower alias) of
     None \<Rightarrow> Inl DTypeUnknownError | Some et \<Rightarrow> Inr et)"

definition em_lookupElemType :: "elem_super_map \<Rightarrow> nat \<Rightarrow> nat result" where
  "em_lookupElemType m hash = (case map_of (em_typeHash m) hash of
     None \<Rightarrow> Inl DTypeUnknownError | Some et \<Rightarrow> Inr et)"

definition em_lookupElemSize :: "elem_super_map \<Rightarrow> nat \<Rightarrow> nat result" where
  "em_lookupElemSize m et = (case map_of (em_size m) et of
     None \<Rightarrow> Inl StdOutOfRange | Some n \<Rightarrow> Inr n)"

definition em_lookupElemName :: "elem_super_map \<Rightarrow> nat \<Rightarrow> string result" where
  "em_lookupElemName m et = (case map_of (em_name m) et of
     None \<Rightarrow> Inl StdOutOfRange | Some n \<Rightarrow> Inr n)"

text \<open>The result is the element type and the dimension (\<open>dim\<close> when the markup has no comma).\<close>

definition parseMarkupName :: "elem_super_map \<Rightarrow> string \<Rightarrow> nat \<Rightarrow> (nat \<times> nat) result" where
  "parseMarkupName m markup dim =
     (if CHR '','' \<notin> set markup then result_bind (em_lookupAlias m markup) (\<lambda>et. Inr (et, dim))
      else
        let alias = str_trim (takeWhile (\<lambda>c. c \<noteq> CHR '','') markup);
            dimStr = str_trim (tl (dropWhile (\<lambda>c. c \<noteq> CHR '','') markup))
        in case stoull dimStr of
             None \<Rightarrow> Inl DTypeUnknownError
           | Some n \<Rightarrow> result_bind (em_lookupAlias m alias) (\<lambda>et. Inr (et, n)))"

definition dtype_default :: dtype where
  "dtype_default = \<lparr>dt_elemType = 0, dt_elemSize = 1, dt_dimension = 1\<rparr>"

definition dtype_of_markup :: "elem_super_map \<Rightarrow> string \<Rightarrow> dtype result" where
  "dtype_of_markup m markup =
     result_bind (parseMarkupName m markup 1) (\<lambda>(et, dim).
     result_bind (em_lookupElemSize m et) (\<lambda>sz.
       Inr \<lparr>dt_elemType = et, dt_elemSize = sz, dt_dimension = dim\<rparr>))"

definition dtype_of_alias :: "elem_super_map \<Rightarrow> string \<Rightarrow> nat \<Rightarrow> dtype result" where
  "dtype_of_alias m alias dim =
     result_bind (em_lookupAlias m alias) (\<lambda>et.
     result_bind (em_lookupElemSize m et) (\<lambda>sz.
       Inr \<lparr>dt_elemType = et, dt_elemSize = sz, dt_dimension = dim\<rparr>))"

definition dtype_of_typeid :: "elem_super_map \<Rightarrow> nat \<Rightarrow> nat \<Rightarrow> dtype result" where
  "dtype_of_typeid m hash dim =
     result_bind (em_lookupElemType m hash) (\<lambda>et.
     result_bind (em_lookupElemSize m et) (\<lambda>sz.
       Inr \<lparr>dt_elemType = et, dt_elemSize = sz, dt_dimension = dim\<rparr>))"

definition dt_name :: "elem_super_map \<Rightarrow> dtype \<Rightarrow> string result" where
  "dt_name m dt = em_lookupElemName m (dt_elemType dt)"

definition dt_size :: "dtype \<Rightarrow> usize" where
  "dt_size dt = mul64 (dt_elemSize dt) (dt_dimension dt)"

definition dt_isCustom :: "dtype \<Rightarrow> bool" where
  "dt_isCustom dt \<longleftrightarrow> dt_elemType dt AND f_Custom \<noteq> 0"

definition dt_isFloat :: "dtype \<Rightarrow> bool" where
  "dt_isFloat dt \<longleftrightarrow> dt_elemType dt AND f_Float \<noteq> 0"

definition dt_isInteger :: "dtype \<Rightarrow> bool" where
  "dt_isInteger dt \<longleftrightarrow> dt_elemType dt AND f_Integer \<noteq> 0"

definition dt_isSigned :: "dtype \<Rightarrow> bool" where
  "dt_isSigned dt \<longleftrightarrow> dt_elemType dt AND f_Signed \<noteq> 0"

definition dt_isComplex :: "dtype \<Rightarrow> bool" where
  "dt_isComplex dt \<longleftrightarrow> dt_elemType dt AND f_Complex \<noteq> 0"

definition dt_bool :: "dtype \<Rightarrow> bool" where
  "dt_bool dt \<longleftrightarrow> dt_elemType dt \<noteq> 0"

definition dt_equal :: "dtype \<Rightarrow> dtype \<Rightarrow> bool" where
  "dt_equal l r \<longleftrightarrow> dt_elemType l = dt_elemType r \<and> dt_elemSize l = dt_elemSize r
     \<and> dt_dimension l = dt_dimension r"

definition dt_toString :: "elem_super_map \<Rightarrow> dtype \<Rightarrow> string result" where
  "dt_toString m dt = result_bind (dt_name m dt) (\<lambda>out.
     Inr (if dt_dimension dt \<noteq> 1 \<or> dt_isCustom dt
          then out @ ''['' @ to_string (dt_dimension dt) @ '']'' else out))"

definition dt_toMarkup :: "elem_super_map \<Rightarrow> dtype \<Rightarrow> string result" where
  "dt_toMarkup m dt = result_bind (dt_name m dt) (\<lambda>out.
     Inr (if dt_dimension dt \<noteq> 1 \<or> dt_isCustom dt
          then out @ '', '' @ to_string (dt_dimension dt) else out))"

section \<open>The tables after construction\<close>

abbreviation elem_map where "elem_map tn ts hs \<equiv> ElementTypeSuperMap tn ts hs"

definition all_element_types :: "element_type list" where
  "all_element_types = [EmptyType, CustomType, Int8, UInt8, Int16, UInt16, Int32, UInt32, Int64, UInt64,
     ComplexInt8, ComplexUInt8, ComplexInt16, ComplexUInt16, ComplexInt32, ComplexUInt32,
     ComplexInt64, ComplexUInt64, Float32, Float64, ComplexFloat32, ComplexFloat64]"

lemma all_element_types [simp]: "et \<in> set all_element_types"
  by (cases et) (simp_all add: all_element_types_def)

text \<open>The name and size tables do not depend on the compiler's names.\<close>

definition em_sizes :: "(nat \<times> nat) list" where
  "em_sizes = (et_code CustomType, 1) # (et_code EmptyType, 1) #
     rev (map (\<lambda>(T, et, name). (et_code et, ctype_sizeof T)) em_rows)"

definition em_names :: "(nat \<times> string) list" where
  "em_names = (et_code CustomType, ''custom'') # (et_code EmptyType, ''unspecified'') #
     rev (map (\<lambda>(T, et, name). (et_code et, name)) em_rows)"

definition em_official_aliases :: "(string \<times> nat) list" where
  "em_official_aliases = rev em_special_aliases @ rev (map (\<lambda>(T, et, name). (name, et_code et)) em_rows)"

lemma fold_em_loadType:
  "em_size (fold (em_loadType tn ts hs) rows m) =
     rev (map (\<lambda>(T, et, name). (et_code et, ctype_sizeof T)) rows) @ em_size m"
  "em_name (fold (em_loadType tn ts hs) rows m) =
     rev (map (\<lambda>(T, et, name). (et_code et, name)) rows) @ em_name m"
  "em_typeHash (fold (em_loadType tn ts hs) rows m) =
     rev (map (\<lambda>(T, et, name). (hs T, et_code et)) rows) @ em_typeHash m"
  by (induction rows arbitrary: m) (auto simp: em_loadType_def)

lemma fold_em_loadType_alias:
  "k \<notin> range tn \<union> range ts \<Longrightarrow>
    map_of (em_alias (fold (em_loadType tn ts hs) rows m)) k =
    map_of (rev (map (\<lambda>(T, et, name). (name, et_code et)) rows) @ em_alias m) k"
proof (induction rows arbitrary: m)
  case (Cons row rows)
  then show ?case by (cases row) (auto simp: em_loadType_def map_add_def split: option.splits)
qed simp

lemma elem_map_size: "em_size (elem_map tn ts hs) = em_sizes"
  by (simp add: ElementTypeSuperMap_def Let_def fold_em_loadType em_sizes_def)

lemma elem_map_name: "em_name (elem_map tn ts hs) = em_names"
  by (simp add: ElementTypeSuperMap_def Let_def fold_em_loadType em_names_def)

lemma elem_map_hash:
  "em_typeHash (elem_map tn ts hs) = rev (map (\<lambda>(T, et, name). (hs T, et_code et)) em_rows)"
  by (simp add: ElementTypeSuperMap_def Let_def fold_em_loadType)

lemma elem_map_alias:
  "k \<notin> range tn \<union> range ts \<Longrightarrow>
    map_of (em_alias (elem_map tn ts hs)) k = map_of em_official_aliases k"
  by (simp add: ElementTypeSuperMap_def Let_def fold_em_loadType_alias em_official_aliases_def map_add_def
      split: option.splits)

section \<open>Decimal numbers\<close>

lemma of_char_char_of_small: "n < 256 \<Longrightarrow> (of_char (char_of n) :: nat) = n"
  by (simp add: of_char_of)

lemma to_string_digits: "set (to_string n) \<subseteq> {c. is_digit c} \<and> to_string n \<noteq> []"
proof (induction n rule: to_string.induct)
  case (1 n)
  have "is_digit (char_of (48 + n mod 10))"
    by (simp add: is_digit_def of_char_char_of_small)
  moreover have "n < 10 \<Longrightarrow> is_digit (char_of (48 + n))"
    by (simp add: is_digit_def of_char_char_of_small)
  ultimately show ?case using 1 by (subst (1 2) to_string.simps) auto
qed

lemma digits_value_append:
  "digits_value (s @ [c]) = 10 * digits_value s + ((of_char c :: nat) - 48)"
  by (simp add: digits_value_def)

lemma digits_value_to_string: "digits_value (to_string n) = n"
proof (induction n rule: to_string.induct)
  case (1 n)
  show ?case
  proof (cases "n < 10")
    case True
    then show ?thesis
      by (subst to_string.simps) (simp add: digits_value_def of_char_char_of_small)
  next
    case False
    then show ?thesis using 1
      by (subst to_string.simps) (simp add: digits_value_append of_char_char_of_small)
  qed
qed

lemma digit_not_space: "is_digit c \<Longrightarrow> \<not> is_space c \<and> c \<noteq> CHR ''-'' \<and> c \<noteq> CHR ''+'' \<and> c \<noteq> CHR '',''"
  by (auto simp: is_digit_def is_space_def)

lemma takeWhile_all: "set xs \<subseteq> {x. P x} \<Longrightarrow> takeWhile P xs = xs"
  by (induction xs) auto

lemma dropWhile_none: "xs = [] \<or> \<not> P (hd xs) \<Longrightarrow> dropWhile P xs = xs"
  by (cases xs) auto

lemma str_trim_id:
  assumes "\<forall>c \<in> set s. \<not> is_space c"
  shows "str_trim s = s"
proof -
  have "dropWhile is_space t = t" if "set t = set s" for t
    using assms that by (intro dropWhile_none) (cases t; auto)
  then show ?thesis by (simp add: str_trim_def)
qed

lemma stoull_to_string:
  assumes "n < SIZE_MOD"
  shows "stoull (to_string n) = Some n"
proof -
  have dg: "set (to_string n) \<subseteq> {c. is_digit c}" and ne: "to_string n \<noteq> []"
    using to_string_digits by auto
  then have "is_digit (hd (to_string n))" by (meson hd_in_set in_mono mem_Collect_eq)
  note h = digit_not_space[OF this]
  have "dropWhile is_space (to_string n) = to_string n" using h by (intro dropWhile_none) auto
  then show ?thesis
    using h ne assms by (simp add: stoull_def Let_def takeWhile_all[OF dg] digits_value_to_string)
qed

section \<open>Round trip of the markup\<close>

text \<open>The value invariant of a \<open>DType\<close>, established by every constructor.\<close>

definition dt_valid :: "dtype \<Rightarrow> bool" where
  "dt_valid dt \<longleftrightarrow> (\<exists>et. dt_elemType dt = et_code et)
     \<and> map_of em_sizes (dt_elemType dt) = Some (dt_elemSize dt) \<and> dt_dimension dt < SIZE_MOD"

text \<open>The compiler's names never collide with the canonical element names.\<close>

definition canonical_names :: "string set" where
  "canonical_names = snd ` set em_names"

definition type_names_ok :: "(ctype \<Rightarrow> string) \<Rightarrow> (ctype \<Rightarrow> string) \<Rightarrow> bool" where
  "type_names_ok tn ts \<longleftrightarrow> canonical_names \<inter> (range tn \<union> range ts) = {}"

declare et_code.simps [simp del]

lemma et_code_values [simp]:
  "et_code EmptyType = 0" "et_code CustomType = 1" "et_code Int8 = 6" "et_code UInt8 = 4"
  "et_code Int16 = 38" "et_code UInt16 = 36" "et_code Int32 = 70" "et_code UInt32 = 68"
  "et_code Int64 = 102" "et_code UInt64 = 100" "et_code ComplexInt8 = 22" "et_code ComplexUInt8 = 20"
  "et_code ComplexInt16 = 54" "et_code ComplexUInt16 = 52" "et_code ComplexInt32 = 86"
  "et_code ComplexUInt32 = 84" "et_code ComplexInt64 = 118" "et_code ComplexUInt64 = 116"
  "et_code Float32 = 72" "et_code Float64 = 104" "et_code ComplexFloat32 = 88"
  "et_code ComplexFloat64 = 120"
  by (simp_all add: element_flag_defs et_code.simps)

lemmas em_row_defs = em_rows_def loadIntegerType_def loadNumericType_def

lemma em_names_eval: "em_names = [(1, ''custom''), (0, ''unspecified''),
   (120, ''complex_float64''), (104, ''float64''), (88, ''complex_float32''), (72, ''float32''),
   (116, ''complex_uint64''), (100, ''uint64''), (118, ''complex_int64''), (102, ''int64''),
   (118, ''complex_sint64''), (102, ''sint64''),
   (116, ''complex_uint64''), (100, ''uint64''), (118, ''complex_int64''), (102, ''int64''),
   (118, ''complex_sint64''), (102, ''sint64''),
   (84, ''complex_uint32''), (68, ''uint32''), (86, ''complex_int32''), (70, ''int32''),
   (86, ''complex_sint32''), (70, ''sint32''),
   (52, ''complex_uint16''), (36, ''uint16''), (54, ''complex_int16''), (38, ''int16''),
   (54, ''complex_sint16''), (38, ''sint16''),
   (20, ''complex_uint8''), (4, ''uint8''), (22, ''complex_int8''), (6, ''int8''),
   (22, ''complex_sint8''), (6, ''sint8''), (22, ''complex_int8''), (6, ''int8'')]"
  by (simp add: em_names_def em_row_defs)

lemma em_official_aliases_eval:
  "em_official_aliases =
   [(''ullong'', 100), (''sllong'', 102), (''llong'', 102), (''ulonglong'', 100), 
   (''slonglong'', 102), (''longlong'', 102), (''ulong long'', 100), (''slong long'', 102), 
   (''long long'', 102), (''ulong'', 100), (''slong'', 102), (''long'', 102), (''uint'', 68), 
   (''sint'', 70), (''int'', 70), (''ushort'', 36), (''sshort'', 38), (''short'', 38), 
   (''uchar'', 4), (''schar'', 6), (''char'', 6), (''complex128'', 120), (''complex64'', 88), 
   (''double'', 104), (''float'', 72), (''octet'', 6), (''byte'', 6), (''custom'', 1), 
   (''custom'', 1), (''unspecified'', 0), ('''', 0), (''complex_float64'', 120), 
   (''float64'', 104), (''complex_float32'', 88), (''float32'', 72), (''complex_uint64'', 116), 
   (''uint64'', 100), (''complex_int64'', 118), (''int64'', 102), (''complex_sint64'', 118), 
   (''sint64'', 102), (''complex_uint64'', 116), (''uint64'', 100), (''complex_int64'', 118), 
   (''int64'', 102), (''complex_sint64'', 118), (''sint64'', 102), (''complex_uint32'', 84), 
   (''uint32'', 68), (''complex_int32'', 86), (''int32'', 70), (''complex_sint32'', 86), 
   (''sint32'', 70), (''complex_uint16'', 52), (''uint16'', 36), (''complex_int16'', 54), 
   (''int16'', 38), (''complex_sint16'', 54), (''sint16'', 38), (''complex_uint8'', 20), 
   (''uint8'', 4), (''complex_int8'', 22), (''int8'', 6), (''complex_sint8'', 22), 
   (''sint8'', 6), (''complex_int8'', 22), (''int8'', 6)]"
  by (simp add: em_official_aliases_def em_special_aliases_def declareNativeAlias_def em_row_defs)

lemma em_sizes_eval:
  "em_sizes =
    [(1, 1), (0, 1), (120, 16), (104, 8), (88, 8), (72, 4), (116, 16), (100, 8), (118, 16),
     (102, 8), (118, 16), (102, 8), (116, 16), (100, 8), (118, 16), (102, 8), (118, 16),
     (102, 8), (84, 8), (68, 4), (86, 8), (70, 4), (86, 8), (70, 4), (52, 4), (36, 2), (54, 4),
     (38, 2), (54, 4), (38, 2), (20, 2), (4, 1), (22, 2), (6, 1), (22, 2), (6, 1), (22, 2),
     (6, 1)]"
  by (simp add: em_sizes_def em_row_defs)

definition em_type_codes :: "(ctype \<times> nat) list" where
  "em_type_codes = rev (map (\<lambda>(T, et, name). (T, et_code et)) em_rows)"

lemma em_type_codes_eval:
  "em_type_codes =
    [(Cplx Double_t, 120), (Prim Double_t, 104), (Cplx Float_t, 88), (Prim Float_t, 72),
     (Cplx ULLong_t, 116), (Prim ULLong_t, 100), (Cplx LLong_t, 118), (Prim LLong_t, 102),
     (Cplx LLong_t, 118), (Prim LLong_t, 102), (Cplx ULong_t, 116), (Prim ULong_t, 100),
     (Cplx Long_t, 118), (Prim Long_t, 102), (Cplx Long_t, 118), (Prim Long_t, 102),
     (Cplx UInt_t, 84), (Prim UInt_t, 68), (Cplx Int_t, 86), (Prim Int_t, 70), (Cplx Int_t, 86),
     (Prim Int_t, 70), (Cplx UShort_t, 52), (Prim UShort_t, 36), (Cplx Short_t, 54),
     (Prim Short_t, 38), (Cplx Short_t, 54), (Prim Short_t, 38), (Cplx UChar_t, 20),
     (Prim UChar_t, 4), (Cplx SChar_t, 22), (Prim SChar_t, 6), (Cplx SChar_t, 22),
     (Prim SChar_t, 6), (Cplx Char_t, 22), (Prim Char_t, 6)]"
  by (simp add: em_type_codes_def em_row_defs)

lemma name_chars:
  "list_all (\<lambda>c. ascii_toLower c = c \<and> \<not> is_space c \<and> c \<noteq> CHR '','')
     ''abcdefghijklmnopqrstuvwxyz0123456789_''"
  by code_simp

lemma canonical_chars:
  "list_all (\<lambda>(k, name). list_all (\<lambda>c. c \<in> set ''abcdefghijklmnopqrstuvwxyz0123456789_'') name) em_names"
  by (simp add: em_names_eval)

lemma canonical_lookup:
  "\<forall>et \<in> set all_element_types. (case map_of em_names (et_code et) of None \<Rightarrow> False
     | Some name \<Rightarrow> map_of em_official_aliases name = Some (et_code et))"
  unfolding smap_find_map_of[symmetric] em_names_eval em_official_aliases_eval
  by (simp add: all_element_types_def cong: smap_find_weak_cong)

lemma canonical_name:
  obtains name where "map_of em_names (et_code et) = Some name"
    "map_of em_official_aliases name = Some (et_code et)" "toLower name = name"
    "\<forall>c \<in> set name. \<not> is_space c \<and> c \<noteq> CHR '',''"
proof -
  obtain name where nm: "map_of em_names (et_code et) = Some name"
    "map_of em_official_aliases name = Some (et_code et)"
    using bspec[OF canonical_lookup, of et] by (auto split: option.splits)
  have cs: "\<forall>c \<in> set name. ascii_toLower c = c \<and> \<not> is_space c \<and> c \<noteq> CHR '',''"
    using canonical_chars name_chars map_of_SomeD[OF nm(1)] unfolding list_all_iff by blast
  then have "toLower name = name" by (auto simp: toLower_def intro: map_idI)
  with nm cs that show thesis by blast
qed

lemma lookup_canonical:
  assumes "type_names_ok tn ts" "map_of em_names (et_code et) = Some name"
    "map_of em_official_aliases name = Some (et_code et)" "toLower name = name"
  shows "em_lookupAlias (elem_map tn ts hs) name = Inr (et_code et)"
proof -
  have "name \<in> canonical_names"
    using assms(2) by (force simp: canonical_names_def dest: map_of_SomeD)
  with assms(1) have "name \<notin> range tn \<union> range ts" by (auto simp: type_names_ok_def)
  then show ?thesis using assms(3,4) by (simp add: em_lookupAlias_def elem_map_alias)
qed

text \<open>C30: Parsing the markup that \<open>toMarkup\<close> prints gives back the data type, for every data
  type a constructor can produce, whatever names the compiler gives to its types (as long as none
  of them is a canonical element name such as \<open>int8\<close>).\<close>

theorem dt_markup_roundtrip:
  assumes "type_names_ok tn ts" "dt_valid dt"
  shows "result_bind (dt_toMarkup (elem_map tn ts hs) dt) (dtype_of_markup (elem_map tn ts hs)) = Inr dt"
proof -
  obtain et where et: "dt_elemType dt = et_code et" using assms(2) by (auto simp: dt_valid_def)
  obtain name where nm: "map_of em_names (et_code et) = Some name"
    "map_of em_official_aliases name = Some (et_code et)" "toLower name = name"
    "\<forall>c \<in> set name. \<not> is_space c \<and> c \<noteq> CHR '',''" by (rule canonical_name)
  note lk = lookup_canonical[OF assms(1) nm(1-3), of hs]
  have size: "em_lookupElemSize (elem_map tn ts hs) (et_code et) = Inr (dt_elemSize dt)"
    using assms(2) et by (simp add: em_lookupElemSize_def elem_map_size dt_valid_def)
  have name: "dt_name (elem_map tn ts hs) dt = Inr name"
    by (simp add: dt_name_def em_lookupElemName_def elem_map_name et nm(1))
  have dt: "dt = \<lparr>dt_elemType = et_code et, dt_elemSize = dt_elemSize dt, dt_dimension = dt_dimension dt\<rparr>"
    using et by simp
  show ?thesis
  proof (cases "dt_dimension dt \<noteq> 1 \<or> dt_isCustom dt")
    case False
    have "CHR '','' \<notin> set name" using nm(4) by blast
    then show ?thesis using False
      by (simp add: dt_toMarkup_def name dtype_of_markup_def parseMarkupName_def lk size) (metis dt)
  next
    case True
    let ?t = "name @ '', '' @ to_string (dt_dimension dt)"
    have tw: "takeWhile (\<lambda>c. c \<noteq> CHR '','') ?t = name" "dropWhile (\<lambda>c. c \<noteq> CHR '','') ?t
        = '', '' @ to_string (dt_dimension dt)"
      using nm(4) by (simp_all add: takeWhile_append2 dropWhile_append2)
    have "\<forall>c \<in> set (to_string (dt_dimension dt)). \<not> is_space c"
      using to_string_digits digit_not_space by blast
    then have "str_trim (CHR '' '' # to_string (dt_dimension dt)) = to_string (dt_dimension dt)"
      using str_trim_id by (simp add: str_trim_def is_space_def)
    moreover have "str_trim name = name" using nm(4) by (simp add: str_trim_id)
    moreover have "stoull (to_string (dt_dimension dt)) = Some (dt_dimension dt)"
      using assms(2) by (simp add: stoull_to_string dt_valid_def)
    ultimately have "parseMarkupName (elem_map tn ts hs) ?t 1 = Inr (et_code et, dt_dimension dt)"
      unfolding parseMarkupName_def Let_def tw by (simp add: lk)
    then show ?thesis using True
      by (simp add: dt_toMarkup_def name dtype_of_markup_def size) (metis dt)
  qed
qed

text \<open>The names GCC prints never contain a digit width; here all types are called \<open>T\<close>.\<close>

theorem dt_markup_roundtrip_witness:
  "result_bind (dt_toMarkup (elem_map (\<lambda>_. ''T'') (\<lambda>_. ''T'') (\<lambda>_. 0))
       \<lparr>dt_elemType = 88, dt_elemSize = 8, dt_dimension = 17\<rparr>)
     (dtype_of_markup (elem_map (\<lambda>_. ''T'') (\<lambda>_. ''T'') (\<lambda>_. 0)))
   = Inr \<lparr>dt_elemType = 88, dt_elemSize = 8, dt_dimension = 17\<rparr>"
proof (rule dt_markup_roundtrip)
  show "type_names_ok (\<lambda>_. ''T'') (\<lambda>_. ''T'')"
    by (simp add: type_names_ok_def canonical_names_def em_names_eval)
  have "map_of em_sizes 88 = Some 8"
    unfolding em_sizes_eval smap_find_map_of[symmetric] by (simp cong: smap_find_weak_cong)
  moreover have "\<exists>et. 88 = et_code et" by (rule exI[of _ ComplexFloat32]) simp
  ultimately show "dt_valid \<lparr>dt_elemType = 88, dt_elemSize = 8, dt_dimension = 17\<rparr>"
    by (simp add: dt_valid_def SIZE_MOD_def)
qed

section \<open>Every constructor yields a valid data type\<close>

lemma aliases_are_codes:
  "(k, c) \<in> set (em_alias (elem_map tn ts hs)) \<Longrightarrow> \<exists>et. c = et_code et"
proof -
  have rows: "\<forall>(k, c) \<in> set (em_alias m). \<exists>et. c = et_code et \<Longrightarrow>
      \<forall>(k, c) \<in> set (em_alias (fold (em_loadType tn ts hs) rows m)). \<exists>et. c = et_code et"
    for rows m
  proof (induction rows arbitrary: m)
    case (Cons row rows)
    obtain T et name where "row = (T, et, name)" by (cases row)
    with Cons.prems have "\<forall>(k, c) \<in> set (em_alias (em_loadType tn ts hs row m)). \<exists>et. c = et_code et"
      by (auto simp: em_loadType_def)
    from Cons.IH[OF this] show ?case by simp
  qed simp
  have special: "\<forall>(k, c) \<in> set em_special_aliases. \<exists>et. c = et_code et"
    unfolding em_special_aliases_def declareNativeAlias_def
    by (simp del: et_code_values) blast
  assume "(k, c) \<in> set (em_alias (elem_map tn ts hs))"
  with special rows[of "\<lparr>em_alias = [], em_typeHash = [], em_size = [], em_name = []\<rparr>" em_rows]
  show ?thesis unfolding ElementTypeSuperMap_def Let_def by auto
qed

lemma code_has_size: "\<exists>n. map_of em_sizes (et_code et) = Some n"
proof -
  have "et_code et \<in> fst ` set em_sizes"
    by (cases et) (simp_all add: em_sizes_eval)
  then show ?thesis by (metis map_of_eq_None_iff not_None_eq)
qed

lemma stoull_lt: "stoull s = Some n \<Longrightarrow> n < SIZE_MOD"
  by (auto simp: stoull_def Let_def split: if_splits)

lemma lookupAlias_valid:
  assumes "em_lookupAlias (elem_map tn ts hs) alias = Inr et"
  shows "\<exists>e sz. et = et_code e \<and> map_of em_sizes et = Some sz"
proof -
  have "(toLower alias, et) \<in> set (em_alias (elem_map tn ts hs))"
    using assms by (auto simp: em_lookupAlias_def dest!: map_of_SomeD split: option.splits)
  with aliases_are_codes code_has_size show ?thesis by metis
qed

text \<open>a markup either is rejected with \<open>DTypeUnknownError\<close> or gives a valid data type
  (known element type, the size of that type, a dimension that fits); in particular the size
  lookup of the constructor never throws.\<close>

theorem dtype_of_markup_valid:
  "dtype_of_markup (elem_map tn ts hs) markup = Inl DTypeUnknownError
    \<or> (\<exists>dt. dtype_of_markup (elem_map tn ts hs) markup = Inr dt \<and> dt_valid dt)"
proof (cases "parseMarkupName (elem_map tn ts hs) markup 1")
  case (Inl e)
  then have "e = DTypeUnknownError"
    by (auto simp: parseMarkupName_def em_lookupAlias_def Let_def split: if_splits option.splits)
  with Inl show ?thesis by (simp add: dtype_of_markup_def)
next
  case (Inr r)
  obtain et dim where r: "r = (et, dim)" by (cases r)
  from Inr r have dim: "dim < SIZE_MOD"
    by (auto simp: parseMarkupName_def Let_def stoull_lt split: if_splits option.splits)
  from Inr r obtain a where "em_lookupAlias (elem_map tn ts hs) a = Inr et"
    by (auto simp: parseMarkupName_def Let_def split: if_splits option.splits)
  from lookupAlias_valid[OF this] obtain e sz where "et = et_code e" "map_of em_sizes et = Some sz"
    by blast
  with Inr r dim show ?thesis
    by (auto simp: dtype_of_markup_def em_lookupElemSize_def elem_map_size dt_valid_def)
qed

section \<open>The C++ types\<close>

lemma map_of_inj_keys: "inj f \<Longrightarrow> map_of (map (\<lambda>(k, v). (f k, v)) xs) (f k) = map_of xs k"
  by (induction xs) (auto simp: inj_eq)

fun prim_isFloat :: "cprim \<Rightarrow> bool" where
  "prim_isFloat Float_t = True" | "prim_isFloat Double_t = True" | "prim_isFloat _ = False"

fun prim_isUnsigned :: "cprim \<Rightarrow> bool" where
  "prim_isUnsigned UChar_t = True" | "prim_isUnsigned UShort_t = True" | "prim_isUnsigned UInt_t = True"
| "prim_isUnsigned ULong_t = True" | "prim_isUnsigned ULLong_t = True" | "prim_isUnsigned _ = False"

fun ctype_base :: "ctype \<Rightarrow> cprim" where
  "ctype_base (Prim p) = p"
| "ctype_base (Cplx p) = p"

definition dtype_matches :: "dtype \<Rightarrow> ctype \<Rightarrow> nat \<Rightarrow> bool" where
  "dtype_matches dt T dim \<longleftrightarrow>
     dt_elemSize dt = ctype_sizeof T \<and> dt_dimension dt = dim \<and>
     (dt_isComplex dt \<longleftrightarrow> T = Cplx (ctype_base T)) \<and>
     (dt_isFloat dt \<longleftrightarrow> prim_isFloat (ctype_base T)) \<and>
     (dt_isInteger dt \<longleftrightarrow> \<not> prim_isFloat (ctype_base T)) \<and>
     (dt_isSigned dt \<longleftrightarrow> \<not> prim_isFloat (ctype_base T) \<and> \<not> prim_isUnsigned (ctype_base T)) \<and>
     \<not> dt_isCustom dt \<and> dt_bool dt"

lemma em_row_of_type:
  "map_of em_type_codes T \<noteq> None \<and>
   (\<forall>c. map_of em_type_codes T = Some c \<longrightarrow>
     map_of em_sizes c = Some (ctype_sizeof T) \<and>
     dtype_matches \<lparr>dt_elemType = c, dt_elemSize = ctype_sizeof T, dt_dimension = dim\<rparr> T dim)"
proof (cases T)
  case (Prim p)
  show ?thesis unfolding Prim em_type_codes_eval em_sizes_eval smap_find_map_of[symmetric]
    by (cases p) (simp_all add: dtype_matches_def dt_isComplex_def dt_isFloat_def dt_isInteger_def
      dt_isSigned_def dt_isCustom_def dt_bool_def element_flag_defs cong: smap_find_weak_cong)
next
  case (Cplx p)
  show ?thesis unfolding Cplx em_type_codes_eval em_sizes_eval smap_find_map_of[symmetric]
    by (cases p) (simp_all add: dtype_matches_def dt_isComplex_def dt_isFloat_def dt_isInteger_def
      dt_isSigned_def dt_isCustom_def dt_bool_def element_flag_defs cong: smap_find_weak_cong)
qed

text \<open>constructing a data type from the \<open>type_info\<close> of any supported C++ type succeeds, with
  the size of that type and with predicates (complex, float, integer, signed) that describe it.\<close>

theorem dt_typeid_matches:
  assumes "inj hs"
  shows "\<exists>dt. dtype_of_typeid (elem_map tn ts hs) (hs T) dim = Inr dt \<and> dtype_matches dt T dim"
proof -
  have "em_typeHash (elem_map tn ts hs) = map (\<lambda>(k, v). (hs k, v)) em_type_codes"
    by (simp add: elem_map_hash em_type_codes_def rev_map comp_def case_prod_unfold)
  then have "map_of (em_typeHash (elem_map tn ts hs)) (hs T) = map_of em_type_codes T"
    using assms by (simp add: map_of_inj_keys)
  moreover obtain c where "map_of em_type_codes T = Some c" using em_row_of_type by fastforce
  ultimately show ?thesis using em_row_of_type[of T dim]
    by (simp add: dtype_of_typeid_def em_lookupElemType_def em_lookupElemSize_def elem_map_size)
qed

fun prim_index :: "cprim \<Rightarrow> nat" where
  "prim_index Char_t = 0" | "prim_index SChar_t = 1" | "prim_index UChar_t = 2"
| "prim_index Short_t = 3" | "prim_index UShort_t = 4" | "prim_index Int_t = 5"
| "prim_index UInt_t = 6" | "prim_index Long_t = 7" | "prim_index ULong_t = 8"
| "prim_index LLong_t = 9" | "prim_index ULLong_t = 10" | "prim_index Float_t = 11"
| "prim_index Double_t = 12"

fun ctype_index :: "ctype \<Rightarrow> nat" where
  "ctype_index (Prim p) = 2 * prim_index p"
| "ctype_index (Cplx p) = 2 * prim_index p + 1"

lemma inj_ctype_index: "inj ctype_index"
proof (rule injI)
  have p: "prim_index p = prim_index q \<Longrightarrow> p = q" for p q
    by (cases p; cases q) simp_all
  fix x y assume "ctype_index x = ctype_index y"
  then show "x = y" by (cases x; cases y) (auto simp: p double_not_eq_Suc_double Suc_double_not_eq_double)
qed

theorem dt_typeid_matches_witness:
  "\<exists>dt. dtype_of_typeid (elem_map (\<lambda>_. ''T'') (\<lambda>_. ''T'') ctype_index) (ctype_index (Cplx UShort_t)) 2
      = Inr dt \<and> dtype_matches dt (Cplx UShort_t) 2"
  by (rule dt_typeid_matches[OF inj_ctype_index])

section \<open>Divergences from the documentation\<close>

text \<open>The documentation promises size 0 for an empty data type.\<close>

lemma dtype_default_size: "dt_size dtype_default = 1 \<and> \<not> dt_bool dtype_default"
  by (simp add: dtype_default_def dt_size_def mul64_def dt_bool_def SIZE_MOD_def)

text \<open>A negative dimension is accepted and wraps.\<close>

lemma stoull_negative: "stoull ''-1'' = Some (SIZE_MOD - 1)"
  by (simp add: stoull_def is_space_def is_digit_def digits_value_def sub64_def Let_def SIZE_MOD_def)

end
