(* ===== verification/SharedBuf.thy ===== *)
theory SharedBuf
  imports Prelude
begin

text \<open>
  \<^verbatim>\<open>Pothos::SharedBuffer\<close> (include/Pothos/Framework/SharedBuffer.hpp, lib/Framework/SharedBuffer.cpp)
  and its allocators (lib/Framework/SharedBufferUnix.cpp) of pothos-library.

  A shared buffer is an address range with a reference to the container that owns the memory;
  containers are identified by numbers (\<open>None\<close> is the null shared pointer), and the number of
  copies of a container is an argument of the operations that ask for it. The results of the
  operating system calls and of \<open>new\<close> are arguments of the allocators.
\<close>

section \<open>State and operations\<close>

record shared_buffer =
  sb_address :: usize
  sb_length :: usize
  sb_alias :: usize
  sb_container :: "nat option"

definition sb_null :: shared_buffer where
  "sb_null = \<lparr>sb_address = 0, sb_length = 0, sb_alias = 0, sb_container = None\<rparr>"

definition sb_make_with :: "usize \<Rightarrow> usize \<Rightarrow> nat option \<Rightarrow> shared_buffer" where
  "sb_make_with a n c = \<lparr>sb_address = a, sb_length = n, sb_alias = 0, sb_container = c\<rparr>"

definition sb_sub :: "usize \<Rightarrow> usize \<Rightarrow> shared_buffer \<Rightarrow> shared_buffer result" where
  "sb_sub a n buffer =
     (let al = (if sb_alias buffer \<noteq> 0 then add64 (sb_alias buffer) (sub64 a (sb_address buffer))
                else sb_alias buffer);
          beginInRange = (a \<ge> sb_address buffer \<and> a < add64 (sb_address buffer) (sb_length buffer));
          endInRange = (add64 a n \<le> add64 (max (sb_alias buffer) (sb_address buffer)) (sb_length buffer))
      in if \<not> beginInRange \<or> \<not> endInRange then Inl SharedBufferError
         else Inr \<lparr>sb_address = a, sb_length = n, sb_alias = al, sb_container = sb_container buffer\<rparr>)"

definition sb_getEnd :: "shared_buffer \<Rightarrow> usize" where
  "sb_getEnd b = add64 (sb_address b) (sb_length b)"

definition sb_bool :: "shared_buffer \<Rightarrow> bool" where
  "sb_bool b \<longleftrightarrow> sb_container b \<noteq> None"

definition sb_equal :: "shared_buffer \<Rightarrow> shared_buffer \<Rightarrow> bool" where
  "sb_equal l r \<longleftrightarrow> sb_container l = sb_container r"

text \<open>\<open>refs\<close> gives the number of shared pointers to a container.\<close>

definition sb_useCount :: "(nat \<Rightarrow> nat) \<Rightarrow> shared_buffer \<Rightarrow> nat" where
  "sb_useCount refs b = (case sb_container b of None \<Rightarrow> 0 | Some c \<Rightarrow> refs c)"

definition sb_unique :: "(nat \<Rightarrow> nat) \<Rightarrow> shared_buffer \<Rightarrow> bool" where
  "sb_unique refs b \<longleftrightarrow> sb_useCount refs b = 1"

text \<open>
  \<open>makeCirc\<close> retries the unprotected factory, whose outcome in attempt \<open>i\<close> is \<open>attempt i\<close>. Only
  \<open>SharedBufferError\<close> is caught.
\<close>

function sb_makeCirc_from :: "nat \<Rightarrow> (nat \<Rightarrow> shared_buffer result) \<Rightarrow> shared_buffer result" where
  "sb_makeCirc_from i attempt =
     (if i \<ge> 7 then Inl SharedBufferError
      else case attempt i of
        Inr buff \<Rightarrow> Inr (buff\<lparr>sb_alias := add64 (sb_address buff) (sb_length buff)\<rparr>)
      | Inl e \<Rightarrow> if e = SharedBufferError \<and> i \<noteq> 6 then sb_makeCirc_from (i + 1) attempt else Inl e)"
  by pat_completeness auto
termination by (relation "measure (\<lambda>(i, _). 7 - i)") auto

declare sb_makeCirc_from.simps [simp del]

definition sb_makeCirc :: "(nat \<Rightarrow> shared_buffer result) \<Rightarrow> shared_buffer result" where
  "sb_makeCirc attempt = sb_makeCirc_from 0 attempt"

section \<open>Allocators\<close>

text \<open>The address that a generic container hands out for the memory \<open>mem\<close> returned by \<open>new\<close>.\<close>

definition gbc_allocBytes :: "usize \<Rightarrow> usize" where
  "gbc_allocBytes numBytes = sub64 (add64 numBytes 64) 1"

definition gbc_getAddress :: "usize \<Rightarrow> usize" where
  "gbc_getAddress mem = (let m = mem mod 64 in if m \<noteq> 0 then add64 mem (64 - m) else mem)"

text \<open>
  \<open>numa\<close> is the address that the NUMA allocator returns (0 when it is not compiled in or fails),
  \<open>c\<close> the identity of the container.
\<close>

definition sb_make :: "usize \<Rightarrow> int \<Rightarrow> usize \<Rightarrow> usize \<Rightarrow> nat \<Rightarrow> shared_buffer" where
  "sb_make numBytes nodeAffinity numa mem c =
     (let address = (if nodeAffinity \<ge> 0 then numa else 0);
          address = (if address = 0 then gbc_getAddress mem else address)
      in sb_make_with address numBytes (Some c))"

text \<open>The circular container: the calls it makes, in order, and what it keeps.\<close>

datatype syscall =
    Open | Ftruncate int usize | MmapReserve usize | MmapShared usize usize int
  | Munmap usize usize | Close int | Unlink

record os_results =
  os_open :: int
  os_ftruncate :: int
  os_mmap2x :: "usize option"
  os_munmap2x :: int
  os_map0 :: "usize option"
  os_map1 :: "usize option"

record circ_container =
  cc_numBytes :: usize
  cc_virtualAddr2X :: "usize option"
  cc_tmpFd :: int
  cc_mapPtr0 :: "usize option"
  cc_mapPtr1 :: "usize option"

definition cc_getAddress :: "circ_container \<Rightarrow> usize" where
  "cc_getAddress c = (case cc_virtualAddr2X c of None \<Rightarrow> SIZE_MOD - 1 | Some a \<Rightarrow> a)"

definition cc_cleanup :: "circ_container \<Rightarrow> syscall list \<times> circ_container" where
  "cc_cleanup c =
     ((case cc_mapPtr1 c of Some p \<Rightarrow> [Munmap p (cc_numBytes c)] | None \<Rightarrow> []) @
      (case cc_mapPtr0 c of Some p \<Rightarrow> [Munmap p (cc_numBytes c)] | None \<Rightarrow> []) @
      (if cc_tmpFd c < 0 then [Close (cc_tmpFd c), Unlink] else []),
      c\<lparr>cc_mapPtr1 := None, cc_mapPtr0 := None, cc_tmpFd := -1\<rparr>)"

definition cc_errorOut :: "syscall list \<Rightarrow> circ_container \<Rightarrow> syscall list \<times> circ_container result" where
  "cc_errorOut calls c = (calls @ fst (cc_cleanup c), Inl SharedBufferError)"

definition cc_new :: "os_results \<Rightarrow> usize \<Rightarrow> syscall list \<times> circ_container result" where
  "cc_new os numBytes =
     (let c = \<lparr>cc_numBytes = numBytes, cc_virtualAddr2X = Some 0, cc_tmpFd = -1, cc_mapPtr0 = None, cc_mapPtr1 = None\<rparr>;
          c = c\<lparr>cc_tmpFd := os_open os\<rparr>; t = [Open]
      in if cc_tmpFd c < 0 then cc_errorOut t c else
      let t = t @ [Ftruncate (cc_tmpFd c) (mul64 numBytes 2)]
      in if os_ftruncate os \<noteq> 0 then cc_errorOut t c else
      let c = c\<lparr>cc_virtualAddr2X := os_mmap2x os\<rparr>; t = t @ [MmapReserve (mul64 numBytes 2)]
      in if cc_virtualAddr2X c = None then cc_errorOut t c else
      let t = t @ [Munmap (cc_getAddress c) (mul64 numBytes 2)]
      in if os_munmap2x os \<noteq> 0 then cc_errorOut t c else
      let c = c\<lparr>cc_mapPtr0 := os_map0 os\<rparr>; t = t @ [MmapShared (cc_getAddress c) numBytes (cc_tmpFd c)]
      in if cc_mapPtr0 c = None then cc_errorOut t c else
      let c = c\<lparr>cc_mapPtr1 := os_map1 os\<rparr>; t = t @ [MmapShared (add64 (cc_getAddress c) numBytes) numBytes (cc_tmpFd c)]
      in if cc_mapPtr1 c = None then cc_errorOut t c else (t, Inr c))"

definition sb_makeCircUnprotected ::
  "os_results \<Rightarrow> usize \<Rightarrow> usize \<Rightarrow> nat \<Rightarrow> shared_buffer result" where
  "sb_makeCircUnprotected os pagesize numBytesIn c =
     (let numBytes = mul64 (sub64 (add64 numBytesIn pagesize) 1 div pagesize) pagesize
      in result_bind (snd (cc_new os numBytes)) (\<lambda>cc.
           Inr (sb_make_with (cc_getAddress cc) numBytes (Some c))))"

section \<open>Sub-buffers\<close>

text \<open>
  \<open>sb_ok\<close>: the range does not wrap; the alias of a circular buffer is the address one length further,
  and the doubly mapped range does not wrap.
\<close>

definition sb_plain :: "shared_buffer \<Rightarrow> bool" where
  "sb_plain b \<longleftrightarrow> sb_alias b = 0 \<and> sb_address b + sb_length b < SIZE_MOD"

definition sb_circ :: "shared_buffer \<Rightarrow> bool" where
  "sb_circ b \<longleftrightarrow> sb_alias b = sb_address b + sb_length b \<and> 0 < sb_length b
     \<and> sb_address b + 2 * sb_length b < SIZE_MOD"

text \<open>The bytes a buffer may touch: its range, or both mappings of a circular buffer.\<close>

definition sb_span :: "shared_buffer \<Rightarrow> nat set" where
  "sb_span b = {sb_address b ..< sb_address b + (if sb_alias b = 0 then 1 else 2) * sb_length b}"

lemma sb_sub_exact:
  assumes "sb_plain buffer \<or> sb_circ buffer" "a + n < SIZE_MOD"
  shows "(case sb_sub a n buffer of
      Inl e \<Rightarrow> e = SharedBufferError \<and>
        \<not> (a \<in> {sb_address buffer ..< sb_address buffer + sb_length buffer}
            \<and> {a ..< a + n} \<subseteq> sb_span buffer)
    | Inr b \<Rightarrow> a \<in> {sb_address buffer ..< sb_address buffer + sb_length buffer}
        \<and> {a ..< a + n} \<subseteq> sb_span buffer
        \<and> sb_address b = a \<and> sb_length b = n \<and> sb_container b = sb_container buffer
        \<and> sb_alias b = (if sb_alias buffer = 0 then 0 else a + sb_length buffer))"
proof -
  let ?A = "sb_address buffer" and ?L = "sb_length buffer"
  have base: "add64 ?A ?L = ?A + ?L" "add64 a n = a + n"
    "add64 (max (sb_alias buffer) ?A) ?L = ?A + (if sb_alias buffer = 0 then 1 else 2) * ?L"
    using assms by (auto simp: sb_plain_def sb_circ_def add64_exact)
  have sub: "?A \<le> a \<Longrightarrow> a < SIZE_MOD \<Longrightarrow> sub64 a ?A = a - ?A"
    by (simp add: sub64_exact)
  have al: "add64 (sb_alias buffer) (sub64 a ?A) = a + ?L"
    if "sb_circ buffer" "?A \<le> a" "a < ?A + ?L"
    using that assms(2) sub by (simp add: sb_circ_def add64_exact)
  have zero: "n = 0 \<Longrightarrow> a < ?A + ?L \<Longrightarrow> a + n \<le> ?A + (if sb_alias buffer = 0 then 1 else 2) * ?L"
    by (auto simp: sb_span_def)
  show ?thesis
    using assms al zero unfolding sb_sub_def base Let_def
    by (auto simp: sb_span_def sb_plain_def sb_circ_def)
qed

text \<open>a sub-buffer is accepted exactly when it begins inside the buffer and, for an ordinary
  buffer, ends inside it, for a circular one, ends inside the double mapping; the accepted sub-buffer
  keeps the container, and its alias stays one buffer length away from its address.\<close>

theorem sb_sub_bounds:
  assumes "sb_plain buffer \<or> sb_circ buffer" "a + n < SIZE_MOD"
  shows "(case sb_sub a n buffer of
      Inl e \<Rightarrow> e = SharedBufferError \<and>
        \<not> (a \<in> {sb_address buffer ..< sb_address buffer + sb_length buffer}
            \<and> {a ..< a + n} \<subseteq> sb_span buffer)
    | Inr b \<Rightarrow> a \<in> {sb_address buffer ..< sb_address buffer + sb_length buffer}
        \<and> {a ..< a + n} \<subseteq> sb_span buffer
        \<and> sb_address b = a \<and> sb_length b = n \<and> sb_container b = sb_container buffer
        \<and> sb_alias b = (if sb_alias buffer = 0 then 0 else a + sb_length buffer))"
  by (rule sb_sub_exact[OF assms])

theorem sb_sub_bounds_witness:
  "\<exists>b. sb_sub 60 8 \<lparr>sb_address = 48, sb_length = 16, sb_alias = 64, sb_container = Some 1\<rparr> = Inr b
     \<and> sb_alias b = 76"
proof -
  let ?buffer = "\<lparr>sb_address = 48, sb_length = 16, sb_alias = 64, sb_container = Some 1\<rparr>"
  have "sb_plain ?buffer \<or> sb_circ ?buffer" "60 + 8 < SIZE_MOD"
    by (simp_all add: sb_circ_def SIZE_MOD_def)
  from sb_sub_bounds[OF this] show ?thesis
    by (cases "sb_sub 60 8 ?buffer") (auto simp: sb_span_def)
qed

text \<open>Without the hypothesis on \<open>a + n\<close> the end check wraps and accepts a huge length.\<close>

lemma sb_sub_end_wraps:
  "sb_sub 16 (SIZE_MOD - 8) (sb_make_with 16 8 (Some 1))
    = Inr (sb_make_with 16 (SIZE_MOD - 8) (Some 1))"
  by (simp add: sb_sub_def sb_make_with_def add64_def SIZE_MOD_def)

text \<open>A sub-buffer of a sub-buffer of a circular buffer can leave the double mapping.\<close>

lemma sb_sub_sub_out_of_span:
  "result_bind (sb_sub 31 16 \<lparr>sb_address = 16, sb_length = 16, sb_alias = 32, sb_container = Some 1\<rparr>)
     (sb_sub 40 20) = Inr \<lparr>sb_address = 40, sb_length = 20, sb_alias = 56, sb_container = Some 1\<rparr>"
  by (simp add: sb_sub_def add64_def sub64_def SIZE_MOD_def)

section \<open>The circular factory\<close>

lemma sb_makeCirc_from_spec:
  assumes "i \<le> 6"
  shows "sb_makeCirc_from i attempt =
     (case find (\<lambda>j. attempt j \<noteq> Inl SharedBufferError) [i..<7] of
        None \<Rightarrow> Inl SharedBufferError
      | Some j \<Rightarrow> map_sum id (\<lambda>b. b\<lparr>sb_alias := add64 (sb_address b) (sb_length b)\<rparr>) (attempt j))"
  using assms
proof (induction i attempt rule: sb_makeCirc_from.induct)
  case (1 i attempt)
  have upt: "[i..<7] = i # [Suc i..<7]" using 1(2) by (simp add: upt_conv_Cons)
  show ?case
  proof (cases "attempt i = Inl SharedBufferError \<and> i \<noteq> 6")
    case True
    then show ?thesis using 1 by (subst sb_makeCirc_from.simps) (simp add: upt)
  next
    case False
    then show ?thesis using 1(2)
      by (subst sb_makeCirc_from.simps) (auto simp: upt split: sum.splits)
  qed
qed

text \<open>the circular factory returns the first of its seven attempts that does not end in a
  \<open>SharedBufferError\<close>, with the alias set one length past the address; it throws that error only
  when all seven attempts do.\<close>

theorem sb_makeCirc_first_success:
  "sb_makeCirc attempt =
     (case find (\<lambda>j. attempt j \<noteq> Inl SharedBufferError) [0..<7] of
        None \<Rightarrow> Inl SharedBufferError
      | Some j \<Rightarrow> map_sum id (\<lambda>b. b\<lparr>sb_alias := add64 (sb_address b) (sb_length b)\<rparr>) (attempt j))"
  by (simp add: sb_makeCirc_def sb_makeCirc_from_spec)

section \<open>Allocators\<close>

lemma gbc_getAddress_aligned:
  assumes "mem + 64 < SIZE_MOD"
  shows "gbc_getAddress mem mod 64 = 0" "mem \<le> gbc_getAddress mem"
    "gbc_getAddress mem + numBytes \<le> mem + (numBytes + 63)"
proof -
  let ?m = "mem mod 64"
  have m: "?m < 64" by simp
  have ad: "?m \<noteq> 0 \<Longrightarrow> gbc_getAddress mem = mem + (64 - ?m)"
    using assms by (simp add: gbc_getAddress_def add64_exact)
  have z: "?m = 0 \<Longrightarrow> gbc_getAddress mem = mem" by (simp add: gbc_getAddress_def)
  have "?m \<noteq> 0 \<Longrightarrow> mem + (64 - ?m) = 64 * (mem div 64) + 64"
    using m mult_div_mod_eq[of 64 mem] by linarith
  then show "gbc_getAddress mem mod 64 = 0"
    using ad z by (cases "?m = 0") simp_all
  show "mem \<le> gbc_getAddress mem" using ad z by (cases "?m = 0") simp_all
  show "gbc_getAddress mem + numBytes \<le> mem + (numBytes + 63)"
    using ad z by (cases "?m = 0") simp_all
qed

text \<open>without a NUMA node, \<open>make\<close> returns a buffer of the requested length whose address is
  aligned to 64 bytes and whose bytes lie inside the block obtained from \<open>new\<close>.\<close>

theorem sb_make_aligned:
  assumes "mem + gbc_allocBytes numBytes < SIZE_MOD" "numBytes + 64 < SIZE_MOD" "mem + 64 < SIZE_MOD"
    "nodeAffinity < 0"
  shows "sb_address (sb_make numBytes nodeAffinity numa mem c) mod 64 = 0
    \<and> sb_length (sb_make numBytes nodeAffinity numa mem c) = numBytes
    \<and> sb_span (sb_make numBytes nodeAffinity numa mem c) \<subseteq> {mem ..< mem + gbc_allocBytes numBytes}"
  using gbc_getAddress_aligned(1,2)[OF assms(3)] gbc_getAddress_aligned(3)[OF assms(3), of numBytes] assms
  by (auto simp: sb_make_def sb_make_with_def Let_def sb_span_def gbc_allocBytes_def size_arith)

theorem sb_make_aligned_witness:
  "sb_address (sb_make 100 (-1) 0 4097 7) mod 64 = 0
    \<and> sb_span (sb_make 100 (-1) 0 4097 7) \<subseteq> {4097 ..< 4097 + gbc_allocBytes 100}"
  using sb_make_aligned[where mem = 4097 and numBytes = 100 and nodeAffinity = "-1" and numa = 0 and c = 7] by (simp add: gbc_allocBytes_def size_arith SIZE_MOD_def)

text \<open>
  The destructor of the circular container tests \<open>tmpFd < 0\<close>: it closes the descriptor exactly when
  there is none.
\<close>

lemma cc_cleanup_leaks_fd:
  assumes "cc_new os numBytes = (t, Inr c)"
  shows "Close (os_open os) \<notin> set (fst (cc_cleanup c)) \<and> Unlink \<notin> set (fst (cc_cleanup c))"
  using assms
  by (auto simp: cc_new_def cc_errorOut_def cc_cleanup_def Let_def split: if_splits option.splits)

lemma cc_open_failure_unlinks:
  "os_open os < 0 \<Longrightarrow> cc_new os numBytes = ([Open, Close (os_open os), Unlink], Inl SharedBufferError)"
  by (simp add: cc_new_def cc_errorOut_def cc_cleanup_def Let_def)

text \<open>a circular buffer obtained from the operating system has a length that is a multiple of the
  page size and at least the request, and passes the invariant of circular buffers once \<open>makeCirc\<close>
  has set its alias.\<close>

theorem sb_makeCirc_page_rounded:
  assumes "0 < pagesize" "0 < n" "n + 2 * pagesize < SIZE_MOD"
    "sb_makeCircUnprotected os pagesize n c = Inr b" "sb_address b + 2 * (n + pagesize) < SIZE_MOD"
  shows "\<exists>b'. sb_makeCirc (\<lambda>_. sb_makeCircUnprotected os pagesize n c) = Inr b' \<and> sb_circ b'
    \<and> sb_length b' mod pagesize = 0 \<and> n \<le> sb_length b' \<and> sb_length b' < n + pagesize"
proof -
  let ?len = "(n + pagesize - 1) div pagesize * pagesize"
  have md: "?len = n + pagesize - 1 - (n + pagesize - 1) mod pagesize"
    by (simp add: minus_mod_eq_div_mult)
  have lt: "(n + pagesize - 1) mod pagesize < pagesize" using assms(1) by simp
  have len: "n \<le> ?len" "?len < n + pagesize"
    using md lt assms(1,2) by linarith+
  have "mul64 (sub64 (add64 n pagesize) 1 div pagesize) pagesize = ?len"
    using assms(1-3) len by (simp add: size_arith)
  then have b: "sb_length b = ?len" "sb_alias b = 0"
    using assms(4) by (auto simp: sb_makeCircUnprotected_def Let_def sb_make_with_def)
  have "sb_makeCirc (\<lambda>_. sb_makeCircUnprotected os pagesize n c)
      = Inr (b\<lparr>sb_alias := add64 (sb_address b) (sb_length b)\<rparr>)"
    using assms(4) by (simp add: sb_makeCirc_def sb_makeCirc_from_spec upt_conv_Cons)
  moreover have "sb_circ (b\<lparr>sb_alias := add64 (sb_address b) (sb_length b)\<rparr>)"
    using assms(2,5) len[folded b(1)] b(2) by (simp add: sb_circ_def add64_exact)
  ultimately show ?thesis using b len by auto
qed

definition os_ok :: os_results where
  "os_ok = \<lparr>os_open = 3, os_ftruncate = 0, os_mmap2x = Some 65536, os_munmap2x = 0,
     os_map0 = Some 65536, os_map1 = Some 69632\<rparr>"

theorem sb_makeCirc_page_rounded_witness:
  "\<exists>b'. sb_makeCirc (\<lambda>_. sb_makeCircUnprotected os_ok 4096 100 1) = Inr b' \<and> 100 \<le> sb_length b'"
proof -
  have b: "sb_makeCircUnprotected os_ok 4096 100 1 = Inr (sb_make_with 65536 4096 (Some 1))"
    by (simp add: sb_makeCircUnprotected_def os_ok_def cc_new_def Let_def cc_getAddress_def
        add64_def sub64_def mul64_def SIZE_MOD_def sb_make_with_def)
  have "sb_address (sb_make_with 65536 4096 (Some 1)) + 2 * (100 + 4096) < SIZE_MOD"
    by (simp add: sb_make_with_def SIZE_MOD_def)
  from sb_makeCirc_page_rounded[OF _ _ _ b this] show ?thesis by (auto simp: SIZE_MOD_def)
qed

end
