(* ===== verification/ManagedBuf.thy ===== *)
theory ManagedBuf
  imports SharedBuf
begin

text \<open>
  \<^verbatim>\<open>Pothos::ManagedBuffer\<close> (lib/Framework/ManagedBuffer.cpp and the inline part of
  include/Pothos/Framework/ManagedBuffer.hpp): an intrusively counted handle whose last reset
  returns the buffer to its manager, or frees it when the manager is gone.

  The state is a store of handle variables and a heap of \<open>Impl\<close> objects. A manager that receives a
  buffer through \<open>pushExternal\<close> keeps one copy of it (both managers of the library put it into
  their ready queue); \<open>slot m p\<close> is the handle variable of manager \<open>m\<close> that takes this copy, and
  \<open>live m\<close> tells whether the weak pointer to \<open>m\<close> can be locked. A handle method is called on a
  variable; \<open>None\<close> is the null handle.
\<close>

section \<open>State and operations\<close>

record mb_impl =
  mi_counter :: int
  mi_weakManager :: "nat option"
  mi_buffer :: shared_buffer
  mi_slabIndex :: nat

record mb_state =
  ms_vars :: "nat \<Rightarrow> nat option"
  ms_heap :: "nat \<Rightarrow> mb_impl option"

definition mb_null :: "nat option" where
  "mb_null = None"

definition mi_new :: mb_impl where
  "mi_new = \<lparr>mi_counter = 1, mi_weakManager = None, mi_buffer = sb_null, mi_slabIndex = 0\<rparr>"

definition mb_fetch_add :: "int \<Rightarrow> nat \<Rightarrow> mb_state \<Rightarrow> mb_state" where
  "mb_fetch_add k p st = st\<lparr>ms_heap := (ms_heap st)(p := map_option (\<lambda>i. i\<lparr>mi_counter := mi_counter i + k\<rparr>) (ms_heap st p))\<rparr>"

definition mb_set :: "nat \<Rightarrow> nat option \<Rightarrow> mb_state \<Rightarrow> mb_state" where
  "mb_set v x st = st\<lparr>ms_vars := (ms_vars st)(v := x)\<rparr>"

definition mb_counter :: "nat \<Rightarrow> mb_state \<Rightarrow> int" where
  "mb_counter p st = (case ms_heap st p of None \<Rightarrow> 0 | Some i \<Rightarrow> mi_counter i)"

definition mb_lock :: "(nat \<Rightarrow> bool) \<Rightarrow> nat \<Rightarrow> mb_state \<Rightarrow> nat option" where
  "mb_lock live p st = (case ms_heap st p of None \<Rightarrow> None
     | Some i \<Rightarrow> (case mi_weakManager i of None \<Rightarrow> None | Some m \<Rightarrow> if live m then Some m else None))"

text \<open>The manager's copy of a returned buffer: a copy construction into the (null) slot.\<close>

definition mb_pushExternal :: "(nat \<Rightarrow> nat \<Rightarrow> nat) \<Rightarrow> nat \<Rightarrow> nat \<Rightarrow> mb_state \<Rightarrow> mb_state" where
  "mb_pushExternal slot m p st = mb_fetch_add 1 p (mb_set (slot m p) (Some p) st)"

definition mb_reset :: "(nat \<Rightarrow> bool) \<Rightarrow> (nat \<Rightarrow> nat \<Rightarrow> nat) \<Rightarrow> nat \<Rightarrow> mb_state \<Rightarrow> mb_state" where
  "mb_reset live slot v st =
     mb_set v None
       (case ms_vars st v of
          None \<Rightarrow> st
        | Some p \<Rightarrow>
            let old = mb_counter p st; st1 = mb_fetch_add (-1) p st
            in if old = 1 then
                 (case mb_lock live p st1 of
                    Some m \<Rightarrow> mb_pushExternal slot m p st1
                  | None \<Rightarrow> st1\<lparr>ms_heap := (ms_heap st1)(p := None)\<rparr>)
               else st1)"

text \<open>\<open>p\<close> is the address that \<open>new Impl()\<close> returns when the handle is null.\<close>

definition mb_reset_with :: "nat \<Rightarrow> nat \<Rightarrow> shared_buffer \<Rightarrow> nat \<Rightarrow> nat \<Rightarrow> mb_state \<Rightarrow> mb_state" where
  "mb_reset_with v manager buff slabIndex p st =
     (let st1 = (if ms_vars st v = None
                 then mb_set v (Some p) (st\<lparr>ms_heap := (ms_heap st)(p := Some mi_new)\<rparr>) else st)
      in case ms_vars st1 v of None \<Rightarrow> st1 | Some q \<Rightarrow>
         st1\<lparr>ms_heap := (ms_heap st1)(q := map_option (\<lambda>i. i\<lparr>mi_buffer := buff, mi_slabIndex := slabIndex,
           mi_weakManager := Some manager\<rparr>) (ms_heap st1 q))\<rparr>)"

definition mb_assign :: "(nat \<Rightarrow> bool) \<Rightarrow> (nat \<Rightarrow> nat \<Rightarrow> nat) \<Rightarrow> nat \<Rightarrow> nat \<Rightarrow> mb_state \<Rightarrow> mb_state" where
  "mb_assign live slot v obj st =
     (let st1 = mb_reset live slot v st; st2 = mb_set v (ms_vars st1 obj) st1
      in case ms_vars st2 v of None \<Rightarrow> st2 | Some p \<Rightarrow> mb_fetch_add 1 p st2)"

definition mb_move :: "(nat \<Rightarrow> bool) \<Rightarrow> (nat \<Rightarrow> nat \<Rightarrow> nat) \<Rightarrow> nat \<Rightarrow> nat \<Rightarrow> mb_state \<Rightarrow> mb_state" where
  "mb_move live slot v obj st =
     (let st1 = mb_reset live slot v st in mb_set obj None (mb_set v (ms_vars st1 obj) st1))"

text \<open>Copy and move construction: a null handle, then the assignment. Note that the
  \<open>ManagedBuffer &&\<close> argument of the move constructor is a named lvalue, so \<open>*this = obj\<close> is the
  copy assignment.\<close>

definition mb_copy_construct :: "(nat \<Rightarrow> bool) \<Rightarrow> (nat \<Rightarrow> nat \<Rightarrow> nat) \<Rightarrow> nat \<Rightarrow> nat \<Rightarrow> mb_state \<Rightarrow> mb_state" where
  "mb_copy_construct live slot v obj st = mb_assign live slot v obj (mb_set v None st)"

definition mb_move_construct :: "(nat \<Rightarrow> bool) \<Rightarrow> (nat \<Rightarrow> nat \<Rightarrow> nat) \<Rightarrow> nat \<Rightarrow> nat \<Rightarrow> mb_state \<Rightarrow> mb_state" where
  "mb_move_construct live slot v obj st = mb_assign live slot v obj (mb_set v None st)"

definition mb_destroy :: "(nat \<Rightarrow> bool) \<Rightarrow> (nat \<Rightarrow> nat \<Rightarrow> nat) \<Rightarrow> nat \<Rightarrow> mb_state \<Rightarrow> mb_state" where
  "mb_destroy live slot v st = mb_reset live slot v st"

definition mb_getBuffer :: "nat \<Rightarrow> mb_state \<Rightarrow> shared_buffer option" where
  "mb_getBuffer v st = (case ms_vars st v of None \<Rightarrow> None | Some p \<Rightarrow> map_option mi_buffer (ms_heap st p))"

definition mb_getSlabIndex :: "nat \<Rightarrow> mb_state \<Rightarrow> nat option" where
  "mb_getSlabIndex v st = (case ms_vars st v of None \<Rightarrow> None | Some p \<Rightarrow> map_option mi_slabIndex (ms_heap st p))"

definition mb_getBufferManager :: "(nat \<Rightarrow> bool) \<Rightarrow> nat \<Rightarrow> mb_state \<Rightarrow> nat option" where
  "mb_getBufferManager live v st = (case ms_vars st v of None \<Rightarrow> None | Some p \<Rightarrow> mb_lock live p st)"

definition mb_useCount :: "nat \<Rightarrow> mb_state \<Rightarrow> int" where
  "mb_useCount v st = (case ms_vars st v of None \<Rightarrow> 0 | Some p \<Rightarrow> mb_counter p st)"

definition mb_bool :: "nat \<Rightarrow> mb_state \<Rightarrow> bool" where
  "mb_bool v st \<longleftrightarrow> ms_vars st v \<noteq> None"

definition mb_less :: "nat \<Rightarrow> nat \<Rightarrow> mb_state \<Rightarrow> bool" where
  "mb_less v w st \<longleftrightarrow> (case ms_vars st v of None \<Rightarrow> 0 | Some p \<Rightarrow> p + 1) < (case ms_vars st w of None \<Rightarrow> 0 | Some p \<Rightarrow> p + 1)"

definition mb_unique :: "nat \<Rightarrow> mb_state \<Rightarrow> bool" where
  "mb_unique v st \<longleftrightarrow> mb_useCount v st = 1"

definition mb_equal :: "nat \<Rightarrow> nat \<Rightarrow> mb_state \<Rightarrow> bool" where
  "mb_equal v w st \<longleftrightarrow> ms_vars st v = ms_vars st w"

section \<open>The counting invariant\<close>

definition mb_refs :: "nat \<Rightarrow> mb_state \<Rightarrow> nat set" where
  "mb_refs p st = {v. ms_vars st v = Some p}"

text \<open>Every live object is counted exactly, none is unreferenced, and no handle dangles.\<close>

definition mb_inv :: "mb_state \<Rightarrow> bool" where
  "mb_inv st \<longleftrightarrow> (\<forall>p. finite (mb_refs p st) \<and>
     (case ms_heap st p of None \<Rightarrow> mb_refs p st = {}
      | Some i \<Rightarrow> mi_counter i = int (card (mb_refs p st)) \<and> mb_refs p st \<noteq> {}))"

text \<open>A manager's slot only ever holds its own buffer; the clients do not reset it themselves.\<close>

definition mb_slot_inj :: "(nat \<Rightarrow> nat \<Rightarrow> nat) \<Rightarrow> bool" where
  "mb_slot_inj slot \<longleftrightarrow> (\<forall>m p m' p'. slot m p = slot m' p' \<longrightarrow> p = p')"

definition mb_slots_ok :: "(nat \<Rightarrow> nat \<Rightarrow> nat) \<Rightarrow> mb_state \<Rightarrow> bool" where
  "mb_slots_ok slot st \<longleftrightarrow> (\<forall>m p q. ms_vars st (slot m p) = Some q \<longrightarrow> q = p)"

lemma mb_refs_set: "mb_refs p (mb_set v x st) = (if x = Some p then insert v (mb_refs p st) else mb_refs p st - {v})"
  by (auto simp: mb_refs_def mb_set_def)

lemma mb_refs_fetch_add [simp]: "mb_refs p (mb_fetch_add k q st) = mb_refs p st"
  by (simp add: mb_refs_def mb_fetch_add_def)

lemma mb_refs_heap [simp]: "mb_refs p (st\<lparr>ms_heap := h\<rparr>) = mb_refs p st"
  by (simp add: mb_refs_def)

lemma ms_heap_set [simp]: "ms_heap (mb_set v x st) = ms_heap st"
  by (simp add: mb_set_def)

lemma ms_vars_fetch_add [simp]: "ms_vars (mb_fetch_add k p st) = ms_vars st"
  by (simp add: mb_fetch_add_def)

lemma ms_vars_set [simp]: "ms_vars (mb_set v x st) = (ms_vars st)(v := x)"
  by (simp add: mb_set_def)

lemma ms_heap_fetch_add:
  "ms_heap (mb_fetch_add k p st) q = (if q = p then map_option (\<lambda>i. i\<lparr>mi_counter := mi_counter i + k\<rparr>) (ms_heap st p) else ms_heap st q)"
  by (simp add: mb_fetch_add_def)

lemma mb_inv_counter:
  assumes "mb_inv st" "ms_vars st v = Some p"
  obtains i where "ms_heap st p = Some i" "mi_counter i = int (card (mb_refs p st))"
    "finite (mb_refs p st)" "v \<in> mb_refs p st" "1 \<le> mi_counter i"
proof -
  have v: "v \<in> mb_refs p st" using assms(2) by (simp add: mb_refs_def)
  with assms(1) obtain i where i: "ms_heap st p = Some i" "mi_counter i = int (card (mb_refs p st))"
    "finite (mb_refs p st)"
    unfolding mb_inv_def by (metis (mono_tags, lifting) empty_iff not_None_eq option.simps(4,5))
  with v have "1 \<le> mi_counter i" by (metis card_gt_0_iff empty_iff of_nat_1 of_nat_le_iff Suc_leI One_nat_def)
  with i v that show thesis by blast
qed

lemma mb_invD:
  assumes "mb_inv st"
  shows "finite (mb_refs q st)" "ms_heap st q = None \<Longrightarrow> mb_refs q st = {}"
    "ms_heap st q = Some i \<Longrightarrow> mi_counter i = int (card (mb_refs q st)) \<and> mb_refs q st \<noteq> {}"
  using assms[unfolded mb_inv_def, rule_format, of q] by auto

lemma mb_refs_other: "ms_vars st v = Some p \<Longrightarrow> q \<noteq> p \<Longrightarrow> v \<notin> mb_refs q st"
  by (simp add: mb_refs_def)

text \<open>What \<open>reset\<close> does to the counts: one reference of its object disappears, and the last one
  either frees the object or moves to the manager's slot.\<close>

lemma mb_reset_cases:
  assumes "ms_vars st v = Some p" "ms_heap st p = Some i"
  shows "mi_counter i \<noteq> 1 \<Longrightarrow> mb_reset live slot v st = mb_set v None (mb_fetch_add (-1) p st)"
    "mi_counter i = 1 \<Longrightarrow> mb_lock live p st = None \<Longrightarrow>
      mb_reset live slot v st = mb_set v None (st\<lparr>ms_heap := (ms_heap st)(p := None)\<rparr>)"
    "mi_counter i = 1 \<Longrightarrow> mb_lock live p st = Some m \<Longrightarrow>
      mb_reset live slot v st = mb_set v None (mb_set (slot m p) (Some p) st)"
  using assms
  by (auto simp: mb_reset_def Let_def mb_counter_def mb_lock_def mb_fetch_add_def mb_set_def
      mb_pushExternal_def split: option.splits if_splits intro!: mb_state.equality ext)

lemma mb_reset_inv:
  assumes inv: "mb_inv st" and sl: "mb_slots_ok slot st" and v: "v \<notin> range (case_prod slot)"
  shows "mb_inv (mb_reset live slot v st)" "ms_vars (mb_reset live slot v st) v = None"
proof -
  show "ms_vars (mb_reset live slot v st) v = None" by (simp add: mb_reset_def)
  show "mb_inv (mb_reset live slot v st)"
  proof (cases "ms_vars st v")
    case None
    then have "mb_reset live slot v st = st" by (simp add: mb_reset_def mb_set_def fun_upd_idem)
    with inv show ?thesis by simp
  next
    case (Some p)
    from mb_inv_counter[OF inv Some] obtain i where
      i: "ms_heap st p = Some i" "mi_counter i = int (card (mb_refs p st))"
        "finite (mb_refs p st)" "v \<in> mb_refs p st" "1 \<le> mi_counter i" .
    note cs = mb_reset_cases[OF Some i(1)]
    have oth: "q \<noteq> p \<Longrightarrow> mb_refs q st - {v} = mb_refs q st" for q
      using mb_refs_other[OF Some] by blast
    show ?thesis
    proof (cases "mi_counter i = 1")
      case False
      have ne: "mb_refs p st - {v} \<noteq> {}"
      proof
        assume "mb_refs p st - {v} = {}"
        then have "mb_refs p st = {v}" using i(4) by blast
        then show False using False i(2) by simp
      qed
      show ?thesis
        unfolding cs(1)[OF False] mb_inv_def
        using mb_invD[OF inv] i ne oth False
        by (auto simp: mb_refs_set ms_heap_fetch_add of_nat_diff split: option.splits)
    next
      case True
      then have "card (mb_refs p st) = 1" using i(2) by simp
      then have one: "mb_refs p st = {v}" using i(4) by (auto simp: card_1_singleton_iff)
      show ?thesis
      proof (cases "mb_lock live p st")
        case None
        show ?thesis
          unfolding cs(2)[OF True None] mb_inv_def
          using mb_invD[OF inv] one oth by (auto simp: mb_refs_set split: option.splits)
      next
        case (Some m)
        have ns: "slot m p \<noteq> v" using v by auto
        have nul: "ms_vars st (slot m p) = None"
          using sl ns one by (cases "ms_vars st (slot m p)") (auto simp: mb_slots_ok_def mb_refs_def)
        have refs: "mb_refs q (mb_set v None (mb_set (slot m p) (Some p) st))
            = (if q = p then {slot m p} else mb_refs q st)" for q
        proof (cases "q = p")
          case True
          then show ?thesis using one ns by (auto simp: mb_refs_set)
        next
          case False
          have "slot m p \<notin> mb_refs q st" using nul by (simp add: mb_refs_def)
          then show ?thesis using False oth[OF False] by (simp add: mb_refs_set)
        qed
        show ?thesis
          unfolding cs(3)[OF True Some] mb_inv_def refs
        proof
          fix q
          show "finite (if q = p then {slot m p} else mb_refs q st) \<and>
            (case ms_heap (mb_set v None (mb_set (slot m p) (Some p) st)) q of
               None \<Rightarrow> (if q = p then {slot m p} else mb_refs q st) = {}
             | Some i \<Rightarrow> mi_counter i = int (card (if q = p then {slot m p} else mb_refs q st))
                 \<and> (if q = p then {slot m p} else mb_refs q st) \<noteq> {})"
            using mb_invD[OF inv, of q] i(1) True by (cases "q = p") (auto split: option.splits)
        qed
      qed
    qed
  qed
qed

lemma mb_reset_slots:
  assumes "mb_slots_ok slot st" "mb_slot_inj slot"
  shows "mb_slots_ok slot (mb_reset live slot v st)"
  using assms
  by (fastforce simp: mb_reset_def mb_slots_ok_def mb_slot_inj_def Let_def mb_pushExternal_def
      split: option.splits)

lemma mb_store_inv:
  assumes inv: "mb_inv st" and v: "ms_vars st v = None" and p: "mb_refs p st \<noteq> {}"
  shows "mb_inv (mb_fetch_add 1 p (mb_set v (Some p) st))"
proof -
  have nv: "v \<notin> mb_refs q st" for q using v by (simp add: mb_refs_def)
  show ?thesis
    unfolding mb_inv_def using mb_invD[OF inv] nv p
    by (auto simp: mb_refs_set ms_heap_fetch_add split: option.splits)
qed

lemma mb_assign_inv:
  assumes "mb_inv st" "mb_slots_ok slot st" "v \<notin> range (case_prod slot)"
  shows "mb_inv (mb_assign live slot v obj st)"
proof -
  let ?s = "mb_reset live slot v st"
  note r = mb_reset_inv[OF assms, of live]
  show ?thesis
  proof (cases "ms_vars ?s obj")
    case None
    then have "mb_assign live slot v obj st = ?s"
      using r(2) by (simp add: mb_assign_def Let_def mb_set_def fun_upd_idem)
    with r(1) show ?thesis by simp
  next
    case (Some p)
    then have "mb_refs p ?s \<noteq> {}" by (auto simp: mb_refs_def)
    from mb_store_inv[OF r(1,2) this] Some show ?thesis by (simp add: mb_assign_def Let_def)
  qed
qed

lemma mb_move_inv:
  assumes "mb_inv st" "mb_slots_ok slot st" "v \<notin> range (case_prod slot)"
  shows "mb_inv (mb_move live slot v obj st)"
proof -
  let ?s = "mb_reset live slot v st"
  note r = mb_reset_inv[OF assms, of live]
  show ?thesis
  proof (cases "ms_vars ?s obj")
    case None
    then have "mb_move live slot v obj st = ?s"
      using r(2) by (simp add: mb_move_def Let_def mb_set_def fun_upd_idem)
    with r(1) show ?thesis by simp
  next
    case (Some p)
    then have ne: "v \<noteq> obj" and o: "obj \<in> mb_refs p ?s" using r(2) by (auto simp: mb_refs_def)
    have nv: "v \<notin> mb_refs q ?s" for q using r(2) by (simp add: mb_refs_def)
    have refs: "mb_refs p (mb_move live slot v obj st) = insert v (mb_refs p ?s - {obj})"
      using ne Some by (auto simp: mb_move_def Let_def mb_refs_set)
    have card: "card (insert v (mb_refs p ?s - {obj})) = card (mb_refs p ?s)"
      using mb_invD(1)[OF r(1)] o nv[of p]
      by (simp add: card_Diff_singleton) (metis Suc_pred card_gt_0_iff empty_iff)
    have rest: "mb_refs q (mb_move live slot v obj st) = mb_refs q ?s" if "q \<noteq> p" for q
      using that ne Some nv[of q] mb_refs_other[OF Some that]
      by (auto simp: mb_move_def Let_def mb_refs_set)
    have heap: "ms_heap (mb_move live slot v obj st) = ms_heap ?s" by (simp add: mb_move_def Let_def)
    show ?thesis
      unfolding mb_inv_def
    proof
      fix q
      show "finite (mb_refs q (mb_move live slot v obj st)) \<and>
        (case ms_heap (mb_move live slot v obj st) q of
           None \<Rightarrow> mb_refs q (mb_move live slot v obj st) = {}
         | Some i \<Rightarrow> mi_counter i = int (card (mb_refs q (mb_move live slot v obj st)))
             \<and> mb_refs q (mb_move live slot v obj st) \<noteq> {})"
        using mb_invD[OF r(1), of q] refs card rest[of q] heap o
        by (cases "q = p") (auto split: option.splits)
    qed
  qed
qed

lemma mb_reset_with_inv:
  assumes "mb_inv st" "ms_vars st v = None \<Longrightarrow> ms_heap st p = None"
  shows "mb_inv (mb_reset_with v m buff slab p st)"
proof (cases "ms_vars st v")
  case None
  with assms(2) have h: "ms_heap st p = None" by simp
  then have e: "mb_refs p st = {}" using mb_invD(2)[OF assms(1)] by simp
  have nv: "v \<notin> mb_refs q st" for q using None by (simp add: mb_refs_def)
  have "mb_refs q (mb_reset_with v m buff slab p st) = (if q = p then {v} else mb_refs q st)" for q
    using None e nv by (auto simp: mb_reset_with_def Let_def mb_refs_set)
  moreover have "ms_heap (mb_reset_with v m buff slab p st) q =
      (if q = p then Some (mi_new\<lparr>mi_buffer := buff, mi_slabIndex := slab, mi_weakManager := Some m\<rparr>)
       else ms_heap st q)" for q
    using None by (simp add: mb_reset_with_def Let_def)
  ultimately show ?thesis
    unfolding mb_inv_def using mb_invD[OF assms(1)] by (auto simp: mi_new_def split: option.splits)
next
  case (Some q)
  then show ?thesis
    unfolding mb_inv_def using mb_invD[OF assms(1)]
    by (auto simp: mb_reset_with_def Let_def split: option.splits)
qed

section \<open>Runs\<close>

datatype mb_op =
    MbReset nat | MbResetWith nat nat shared_buffer nat nat | MbAssign nat nat | MbMove nat nat

fun mb_step :: "(nat \<Rightarrow> bool) \<Rightarrow> (nat \<Rightarrow> nat \<Rightarrow> nat) \<Rightarrow> mb_op \<Rightarrow> mb_state \<Rightarrow> mb_state" where
  "mb_step live slot (MbReset v) st = mb_reset live slot v st"
| "mb_step live slot (MbResetWith v m buff slab p) st = mb_reset_with v m buff slab p st"
| "mb_step live slot (MbAssign v obj) st = mb_assign live slot v obj st"
| "mb_step live slot (MbMove v obj) st = mb_move live slot v obj st"

text \<open>The variable an operation writes is not a manager's slot, and \<open>new\<close> returns a fresh address.\<close>

fun mb_pre :: "(nat \<Rightarrow> nat \<Rightarrow> nat) \<Rightarrow> mb_op \<Rightarrow> mb_state \<Rightarrow> bool" where
  "mb_pre slot (MbReset v) st = (v \<notin> range (case_prod slot))"
| "mb_pre slot (MbResetWith v m buff slab p) st =
     (v \<notin> range (case_prod slot) \<and> (ms_vars st v = None \<longrightarrow> ms_heap st p = None))"
| "mb_pre slot (MbAssign v obj) st = (v \<notin> range (case_prod slot))"
| "mb_pre slot (MbMove v obj) st = (v \<notin> range (case_prod slot))"

definition mb_init :: mb_state where
  "mb_init = \<lparr>ms_vars = (\<lambda>_. None), ms_heap = (\<lambda>_. None)\<rparr>"

inductive mb_reachable :: "(nat \<Rightarrow> nat \<Rightarrow> nat) \<Rightarrow> mb_state \<Rightarrow> bool" for slot where
  mb_start: "mb_reachable slot mb_init"
| mb_next: "mb_reachable slot st \<Longrightarrow> mb_pre slot op st \<Longrightarrow> mb_reachable slot (mb_step live slot op st)"

lemma mb_step_slots:
  assumes "mb_slot_inj slot" "mb_slots_ok slot st" "mb_pre slot op st"
  shows "mb_slots_ok slot (mb_step live slot op st)"
proof (cases op)
  case (MbReset v)
  with assms mb_reset_slots show ?thesis by simp
next
  case (MbResetWith v m buff slab p)
  with assms show ?thesis
    by (fastforce simp: mb_slots_ok_def mb_reset_with_def Let_def split: option.splits)
next
  case (MbAssign v obj)
  have "mb_slots_ok slot (mb_reset live slot v st)" using assms mb_reset_slots by blast
  with MbAssign assms(3) show ?thesis
    by (fastforce simp: mb_slots_ok_def mb_assign_def Let_def split: option.splits)
next
  case (MbMove v obj)
  have "mb_slots_ok slot (mb_reset live slot v st)" using assms mb_reset_slots by blast
  with MbMove assms(3) show ?thesis
    by (fastforce simp: mb_slots_ok_def mb_move_def Let_def split: option.splits)
qed

text \<open>C8: in every reachable state, whatever managers have died in the meantime, the counter of each
  managed buffer is the number of handles that refer to it (those in the managers' ready queues
  included), every handle refers to a live object, and every live object has a handle: nothing is
  freed early, freed twice or leaked.\<close>

theorem mb_counting:
  assumes "mb_slot_inj slot" "mb_reachable slot st"
  shows "mb_inv st"
proof -
  from assms(2) have "mb_inv st \<and> mb_slots_ok slot st"
  proof (induction rule: mb_reachable.induct)
    case mb_start
    then show ?case by (simp add: mb_inv_def mb_init_def mb_refs_def mb_slots_ok_def)
  next
    case (mb_next st op live)
    then have "mb_inv (mb_step live slot op st)"
      by (cases op) (auto simp: mb_reset_inv mb_reset_with_inv mb_assign_inv mb_move_inv)
    with mb_next mb_step_slots[OF assms(1)] show ?case by blast
  qed
  then show ?thesis ..
qed

text \<open>Two copies of a buffer of manager 0, both dropped: the manager's slot 10 gets it back.\<close>

theorem mb_counting_witness:
  "mb_inv (mb_step (\<lambda>_. True) (\<lambda>m p. p + 10) (MbReset 3) (mb_step (\<lambda>_. True) (\<lambda>m p. p + 10) (MbReset 1)
     (mb_step (\<lambda>_. True) (\<lambda>m p. p + 10) (MbAssign 3 1)
       (mb_step (\<lambda>_. True) (\<lambda>m p. p + 10) (MbResetWith 1 0 sb_null 0 0) mb_init))))"
proof (rule mb_counting)
  let ?slot = "\<lambda>m p. p + 10 :: nat"
  show "mb_slot_inj ?slot" by (auto simp: mb_slot_inj_def)
  show "mb_reachable ?slot (mb_step (\<lambda>_. True) ?slot (MbReset 3) (mb_step (\<lambda>_. True) ?slot (MbReset 1)
     (mb_step (\<lambda>_. True) ?slot (MbAssign 3 1)
       (mb_step (\<lambda>_. True) ?slot (MbResetWith 1 0 sb_null 0 0) mb_init))))"
    by (intro mb_next mb_start) (auto simp: mb_init_def)
qed

text \<open>dropping the last handle of a buffer returns it to its manager while the manager lives
  (the manager's slot then holds the only reference), and frees it otherwise; dropping any other
  handle only decrements the counter.\<close>

theorem mb_reset_last:
  fixes live :: "nat \<Rightarrow> bool"
  assumes "mb_inv st" "mb_slots_ok slot st" "v \<notin> range (case_prod slot)" "ms_vars st v = Some p"
  defines "st' \<equiv> mb_reset live slot v st"
  shows "(case ms_heap st p of None \<Rightarrow> False | Some i \<Rightarrow>
      if mb_refs p st \<noteq> {v} then mb_refs p st' = mb_refs p st - {v} \<and> mb_counter p st' = mi_counter i - 1
      else (case mb_lock live p st of
              Some m \<Rightarrow> mb_refs p st' = {slot m p} \<and> mb_counter p st' = 1
            | None \<Rightarrow> ms_heap st' p = None))"
proof -
  from mb_inv_counter[OF assms(1,4)] obtain i where
    i: "ms_heap st p = Some i" "mi_counter i = int (card (mb_refs p st))"
      "finite (mb_refs p st)" "v \<in> mb_refs p st" "1 \<le> mi_counter i" .
  note cs = mb_reset_cases[OF assms(4) i(1)]
  have one: "mi_counter i = 1 \<longleftrightarrow> mb_refs p st = {v}"
    using i(2,4) by (auto simp: card_1_singleton_iff)
  show ?thesis
  proof (cases "mb_refs p st = {v}")
    case False
    with one cs(1) i(1) show ?thesis
      by (simp add: st'_def mb_refs_set mb_counter_def ms_heap_fetch_add)
  next
    case True
    with one have c: "mi_counter i = 1" by simp
    have ns: "slot m p \<noteq> v" for m using assms(3) by auto
    show ?thesis
    proof (cases "mb_lock live p st")
      case None
      then show ?thesis using cs(2)[OF c None] i(1) True by (simp add: st'_def)
    next
      case (Some m)
      then show ?thesis using cs(3)[OF c Some] i(1) True ns[of m] c
        by (auto simp: st'_def mb_refs_set mb_counter_def)
    qed
  qed
qed

text \<open>The last handle, in variable 1, of a buffer of the live manager 4.\<close>

theorem mb_reset_last_witness:
  "ms_heap (mb_reset (\<lambda>m. m = 4) (\<lambda>m p. 10 + p) 1
     \<lparr>ms_vars = (\<lambda>_. None)(1 := Some 0),
      ms_heap = (\<lambda>_. None)(0 := Some (mi_new\<lparr>mi_weakManager := Some 3\<rparr>))\<rparr>) 0 = None"
proof -
  let ?st = "\<lparr>ms_vars = (\<lambda>_. None)(1 := Some 0),
      ms_heap = (\<lambda>_. None)(0 := Some (mi_new\<lparr>mi_weakManager := Some 3\<rparr>))\<rparr>"
  have r: "mb_refs p ?st = (if p = 0 then {1} else {})" for p by (auto simp: mb_refs_def)
  then have "mb_inv ?st" by (simp add: mb_inv_def mi_new_def)
  moreover have "mb_slots_ok (\<lambda>m p. 10 + p) ?st" by (simp add: mb_slots_ok_def)
  moreover have "1 \<notin> range (case_prod (\<lambda>m p. 10 + p :: nat))" by auto
  moreover have "ms_vars ?st 1 = Some 0" by simp
  ultimately show ?thesis
    using mb_reset_last[of ?st "\<lambda>m p. 10 + p" 1 0 "\<lambda>m. m = 4"] r[of 0]
    by (simp add: mb_lock_def)
qed

text \<open>Assigning a handle to itself loses the buffer: \<open>reset\<close> clears \<open>obj._impl\<close> before it is read.\<close>

lemma mb_self_assign: "ms_vars (mb_assign live slot v v st) v = None"
  by (simp add: mb_assign_def Let_def mb_reset_def)

end
