(* ===== verification/BufferChunk.thy ===== *)
theory BufferChunk
  imports SharedBuf DType
begin

text \<open>
  \<^verbatim>\<open>Pothos::BufferChunk\<close> (include/Pothos/Framework/BufferChunk.hpp, lib/Framework/BufferChunk.cpp):
  an address range inside a shared buffer, tagged with a data type, and its serialization.

  Memory is a function from virtual addresses to bytes. A managed buffer appears here as the value
  of its handle: the identity of the \<open>Impl\<close> object with its fields (the counting is in theory
  ManagedBuf). \<open>SharedBuffer::make\<close> is the argument \<open>mk\<close> of the operations that allocate.
\<close>

section \<open>Memory\<close>

type_synonym byte = "8 word"
type_synonym memory = "nat \<Rightarrow> byte"

definition memcpy :: "usize \<Rightarrow> usize \<Rightarrow> usize \<Rightarrow> memory \<Rightarrow> memory" where
  "memcpy dst src n m = (\<lambda>a. if dst \<le> a \<and> a < dst + n then m (src + (a - dst)) else m a)"

definition mem_bytes :: "memory \<Rightarrow> usize \<Rightarrow> usize \<Rightarrow> byte list" where
  "mem_bytes m a n = map (\<lambda>i. m (a + i)) [0..<n]"

lemma length_mem_bytes [simp]: "length (mem_bytes m a n) = n"
  by (simp add: mem_bytes_def)

lemma mem_bytes_0 [simp]: "mem_bytes m a 0 = []"
  by (simp add: mem_bytes_def)

lemma mem_bytes_nth [simp]: "i < n \<Longrightarrow> mem_bytes m a n ! i = m (a + i)"
  by (simp add: mem_bytes_def)

lemma mem_bytes_append: "mem_bytes m a (n + k) = mem_bytes m a n @ mem_bytes m (a + n) k"
  by (rule nth_equalityI) (auto simp: nth_append)

lemma drop_mem_bytes: "drop k (mem_bytes m a n) = mem_bytes m (a + k) (n - k)"
  by (rule nth_equalityI) (auto simp: add.assoc)

lemma take_mem_bytes: "take k (mem_bytes m a n) = mem_bytes m a (min k n)"
  by (rule nth_equalityI) auto

lemma mem_bytes_cong: "(\<And>i. i < n \<Longrightarrow> m (a + i) = m' (a' + i)) \<Longrightarrow> mem_bytes m a n = mem_bytes m' a' n"
  by (rule nth_equalityI) auto

lemma mem_bytes_memcpy_dst: "mem_bytes (memcpy dst src n m) dst n = mem_bytes m src n"
  by (rule mem_bytes_cong) (simp add: memcpy_def)

lemma mem_bytes_memcpy_other:
  "{a ..< a + k} \<inter> {dst ..< dst + n} = {} \<Longrightarrow> mem_bytes (memcpy dst src n m) a k = mem_bytes m a k"
  by (rule mem_bytes_cong) (auto simp: memcpy_def disjoint_iff)

section \<open>State and operations\<close>

record managed_buffer =
  mr_impl :: nat
  mr_manager :: "nat option"
  mr_buffer :: shared_buffer
  mr_slabIndex :: nat

record buffer_chunk =
  bc_address :: usize
  bc_length :: usize
  bc_dtype :: dtype
  bc_buffer :: shared_buffer
  bc_managed :: "managed_buffer option"

definition bc_null :: buffer_chunk where
  "bc_null = \<lparr>bc_address = 0, bc_length = 0, bc_dtype = dtype_default, bc_buffer = sb_null, bc_managed = None\<rparr>"

definition bc_of_bytes :: "(usize \<Rightarrow> shared_buffer) \<Rightarrow> usize \<Rightarrow> buffer_chunk" where
  "bc_of_bytes mk numBytes = (let b = mk numBytes in
     \<lparr>bc_address = sb_address b, bc_length = numBytes, bc_dtype = dtype_default, bc_buffer = b, bc_managed = None\<rparr>)"

definition bc_of_dtype :: "(usize \<Rightarrow> shared_buffer) \<Rightarrow> dtype \<Rightarrow> usize \<Rightarrow> buffer_chunk" where
  "bc_of_dtype mk dt numElems = (let n = mul64 (dt_size dt) numElems; b = mk n in
     \<lparr>bc_address = sb_address b, bc_length = n, bc_dtype = dt, bc_buffer = b, bc_managed = None\<rparr>)"

definition bc_of_shared :: "shared_buffer \<Rightarrow> buffer_chunk" where
  "bc_of_shared b = \<lparr>bc_address = sb_address b, bc_length = sb_length b, bc_dtype = dtype_default,
     bc_buffer = b, bc_managed = None\<rparr>"

definition bc_of_managed :: "managed_buffer \<Rightarrow> buffer_chunk" where
  "bc_of_managed m = \<lparr>bc_address = sb_address (mr_buffer m), bc_length = sb_length (mr_buffer m),
     bc_dtype = dtype_default, bc_buffer = mr_buffer m, bc_managed = Some m\<rparr>"

definition bc_equal :: "buffer_chunk \<Rightarrow> buffer_chunk \<Rightarrow> bool" where
  "bc_equal l r \<longleftrightarrow> bc_address l = bc_address r \<and> bc_length l = bc_length r \<and> sb_equal (bc_buffer l) (bc_buffer r)"

text \<open>The division of the code is undefined for a data type of size 0 (dimension 0); HOL gives 0.\<close>

definition bc_elements :: "buffer_chunk \<Rightarrow> nat" where
  "bc_elements c = bc_length c div dt_size (bc_dtype c)"

definition bc_getAlias :: "buffer_chunk \<Rightarrow> usize" where
  "bc_getAlias c =
     (if sb_alias (bc_buffer c) = 0 then 0
      else if bc_address c > sb_alias (bc_buffer c) then sub64 (bc_address c) (sb_length (bc_buffer c))
      else add64 (bc_address c) (sb_length (bc_buffer c)))"

definition bc_getEnd :: "buffer_chunk \<Rightarrow> usize" where
  "bc_getEnd c = add64 (bc_address c) (bc_length c)"

definition bc_bool :: "buffer_chunk \<Rightarrow> bool" where
  "bc_bool c \<longleftrightarrow> bc_address c \<noteq> 0 \<or> sb_bool (bc_buffer c)"

definition bc_useCount :: "(nat \<Rightarrow> nat) \<Rightarrow> buffer_chunk \<Rightarrow> nat" where
  "bc_useCount refs c = (if bc_managed c \<noteq> None then sub64 (sb_useCount refs (bc_buffer c)) 1
     else sb_useCount refs (bc_buffer c))"

definition bc_unique :: "(nat \<Rightarrow> nat) \<Rightarrow> buffer_chunk \<Rightarrow> bool" where
  "bc_unique refs c \<longleftrightarrow> bc_useCount refs c = 1"

text \<open>Two managed handles are equal when they share the \<open>Impl\<close> object (or are both null).\<close>

definition mr_equal :: "managed_buffer option \<Rightarrow> managed_buffer option \<Rightarrow> bool" where
  "mr_equal l r \<longleftrightarrow> map_option mr_impl l = map_option mr_impl r"

definition bc_append :: "(usize \<Rightarrow> shared_buffer) \<Rightarrow> buffer_chunk \<Rightarrow> buffer_chunk \<times> memory \<Rightarrow> buffer_chunk \<times> memory" where
  "bc_append mk other st = (case st of (this, m) \<Rightarrow>
     if \<not> bc_bool this then (other, m)
     else
       let acc = (bc_of_bytes mk (add64 (bc_length this) (bc_length other)))\<lparr>bc_dtype := bc_dtype this\<rparr>;
           m1 = memcpy (bc_address acc) (bc_address this) (bc_length this) m;
           m2 = memcpy (add64 (bc_address acc) (bc_length this)) (bc_address other) (bc_length other) m1
       in (acc, m2))"

definition bc_bytes :: "memory \<Rightarrow> buffer_chunk \<Rightarrow> byte list" where
  "bc_bytes m c = mem_bytes m (bc_address c) (bc_length c)"

definition bc_range :: "buffer_chunk \<Rightarrow> nat set" where
  "bc_range c = {bc_address c ..< bc_address c + bc_length c}"

text \<open>What the memory allocator promises: the length asked for, no wrap, and bytes that are not in use.\<close>

definition alloc_ok :: "nat set \<Rightarrow> (usize \<Rightarrow> shared_buffer) \<Rightarrow> usize \<Rightarrow> bool" where
  "alloc_ok used mk n \<longleftrightarrow> sb_length (mk n) = n \<and> sb_alias (mk n) = 0 \<and> sb_container (mk n) \<noteq> None
     \<and> sb_address (mk n) + n < SIZE_MOD \<and> {sb_address (mk n) ..< sb_address (mk n) + n} \<inter> used = {}"

text \<open>appending to a chunk yields the bytes of both chunks one after the other, with the data type
  of the first, and changes no byte of either.\<close>

theorem bc_append_bytes:
  assumes "bc_bool this" "alloc_ok (bc_range this \<union> bc_range other) mk (bc_length this + bc_length other)"
    "bc_append mk other (this, m) = (res, m')"
  shows "bc_bytes m' res = bc_bytes m this @ bc_bytes m other \<and> bc_dtype res = bc_dtype this
    \<and> bc_bytes m' this = bc_bytes m this \<and> bc_bytes m' other = bc_bytes m other"
proof -
  let ?a = "bc_length this" and ?b = "bc_length other"
  let ?s = "mk (?a + ?b)"
  have lt: "sb_address ?s + (?a + ?b) < SIZE_MOD" using assms(2) by (simp add: alloc_ok_def)
  then have add: "add64 ?a ?b = ?a + ?b" "add64 (sb_address ?s) ?a = sb_address ?s + ?a"
    by (simp_all add: size_arith)
  have disj: "{sb_address ?s ..< sb_address ?s + (?a + ?b)} \<inter> bc_range this = {}"
    "{sb_address ?s ..< sb_address ?s + (?a + ?b)} \<inter> bc_range other = {}"
    using assms(2) by (auto simp: alloc_ok_def)
  let ?m1 = "memcpy (sb_address ?s) (bc_address this) ?a m"
  let ?m2 = "memcpy (sb_address ?s + ?a) (bc_address other) ?b ?m1"
  have res: "res = \<lparr>bc_address = sb_address ?s, bc_length = ?a + ?b, bc_dtype = bc_dtype this,
      bc_buffer = ?s, bc_managed = None\<rparr>" and m': "m' = ?m2"
    using assms(1,3) by (auto simp: bc_append_def bc_of_bytes_def Let_def add)
  have other1: "mem_bytes ?m1 (bc_address other) ?b = mem_bytes m (bc_address other) ?b"
    using disj(2) by (intro mem_bytes_memcpy_other) (auto simp: bc_range_def disjoint_iff)
  have first: "mem_bytes ?m2 (sb_address ?s) ?a = mem_bytes m (bc_address this) ?a"
    by (subst mem_bytes_memcpy_other) (auto simp: mem_bytes_memcpy_dst)
  have second: "mem_bytes ?m2 (sb_address ?s + ?a) ?b = mem_bytes m (bc_address other) ?b"
    using other1 by (simp add: mem_bytes_memcpy_dst)
  have kept: "mem_bytes ?m2 (bc_address c) (bc_length c) = mem_bytes m (bc_address c) (bc_length c)"
    if "{sb_address ?s ..< sb_address ?s + (?a + ?b)} \<inter> bc_range c = {}" for c
    using that by (intro mem_bytes_cong) (auto simp: memcpy_def bc_range_def disjoint_iff)
  show ?thesis
    using first second kept[OF disj(1)] kept[OF disj(2)]
    by (simp add: bc_bytes_def res m' mem_bytes_append)
qed

definition mk_at :: "nat \<Rightarrow> nat \<Rightarrow> usize \<Rightarrow> shared_buffer" where
  "mk_at a c n = sb_make_with a n (Some c)"

lemma alloc_ok_mk_at:
  "a + n < SIZE_MOD \<Longrightarrow> {a ..< a + n} \<inter> used = {} \<Longrightarrow> alloc_ok used (mk_at a c) n"
  by (simp add: alloc_ok_def mk_at_def sb_make_with_def)

theorem bc_append_bytes_witness:
  "bc_bytes (snd (bc_append (mk_at 1000 9) (bc_of_shared (sb_make_with 20 2 (Some 2)))
       (bc_of_shared (sb_make_with 10 3 (Some 1)), word_of_nat)))
     (fst (bc_append (mk_at 1000 9) (bc_of_shared (sb_make_with 20 2 (Some 2)))
       (bc_of_shared (sb_make_with 10 3 (Some 1)), word_of_nat))) = [10, 11, 12, 20, 21]"
proof -
  let ?x = "bc_of_shared (sb_make_with 10 3 (Some 1))" and ?y = "bc_of_shared (sb_make_with 20 2 (Some 2))"
  have "bc_bool ?x" by (simp add: bc_bool_def bc_of_shared_def sb_make_with_def)
  moreover have "alloc_ok (bc_range ?x \<union> bc_range ?y) (mk_at 1000 9) (bc_length ?x + bc_length ?y)"
    by (rule alloc_ok_mk_at) (auto simp: bc_of_shared_def sb_make_with_def SIZE_MOD_def bc_range_def)
  ultimately have "bc_bytes (snd (bc_append (mk_at 1000 9) ?y (?x, word_of_nat)))
      (fst (bc_append (mk_at 1000 9) ?y (?x, word_of_nat)))
    = bc_bytes word_of_nat ?x @ bc_bytes word_of_nat ?y"
    using bc_append_bytes[of ?x ?y "mk_at 1000 9" word_of_nat] by (metis prod.collapse)
  also have "\<dots> = [10, 11, 12, 20, 21]"
    by (simp add: bc_bytes_def bc_of_shared_def sb_make_with_def mem_bytes_def upt_rec)
  finally show ?thesis .
qed

section \<open>Serialization\<close>

text \<open>
  The archive is a sequence of primitive items; a binary object contributes its bytes one by one. The
  length is cast to 32 bits. Reading past the end or an item of another kind fails (\<open>None\<close>).
\<close>

datatype ar_item = ArBool bool | ArUInt32 nat | ArByte byte | ArDType dtype

definition bc_save :: "memory \<Rightarrow> buffer_chunk \<Rightarrow> ar_item list" where
  "bc_save m t =
     (if \<not> bc_bool t then [ArBool True]
      else [ArBool False, ArUInt32 (bc_length t mod 2 ^ 32)] @ map ArByte (bc_bytes m t) @ [ArDType (bc_dtype t)])"

fun ar_bytes :: "nat \<Rightarrow> ar_item list \<Rightarrow> (byte list \<times> ar_item list) option" where
  "ar_bytes 0 ar = Some ([], ar)"
| "ar_bytes (Suc n) (ArByte b # ar) =
     (case ar_bytes n ar of None \<Rightarrow> None | Some (bs, rest) \<Rightarrow> Some (b # bs, rest))"
| "ar_bytes (Suc n) _ = None"

definition mem_write :: "usize \<Rightarrow> byte list \<Rightarrow> memory \<Rightarrow> memory" where
  "mem_write a bs m = (\<lambda>x. if a \<le> x \<and> x < a + length bs then bs ! (x - a) else m x)"

definition bc_load :: "(usize \<Rightarrow> shared_buffer) \<Rightarrow> memory \<Rightarrow> ar_item list
    \<Rightarrow> (buffer_chunk \<times> memory \<times> ar_item list) option" where
  "bc_load mk m ar = (case ar of
     ArBool True # rest \<Rightarrow> Some (bc_null, m, rest)
   | ArBool False # ArUInt32 len # rest \<Rightarrow>
       (let t = bc_of_bytes mk len in
        case ar_bytes (bc_length t) rest of
          Some (bs, ArDType dt # rest') \<Rightarrow> Some (t\<lparr>bc_dtype := dt\<rparr>, mem_write (bc_address t) bs m, rest')
        | _ \<Rightarrow> None)
   | _ \<Rightarrow> None)"

lemma ar_bytes_map [simp]: "ar_bytes (length bs) (map ArByte bs @ ar) = Some (bs, ar)"
  by (induction bs) auto

lemma mem_bytes_write: "mem_bytes (mem_write a bs m) a (length bs) = bs"
  by (rule nth_equalityI) (auto simp: mem_write_def)

text \<open>loading a saved chunk of less than 4 GiB yields a chunk with the same bytes and data type
  (a null chunk for a null chunk) and consumes exactly what was written.\<close>

theorem bc_save_load:
  assumes "bc_length t < 2 ^ 32"
  shows "\<exists>t' m'. bc_load mk m (bc_save m0 t @ ar) = Some (t', m', ar)
    \<and> (if bc_bool t then bc_bytes m' t' = bc_bytes m0 t \<and> bc_dtype t' = bc_dtype t else t' = bc_null \<and> m' = m)"
proof (cases "bc_bool t")
  case True
  have len: "length (bc_bytes m0 t) = bc_length t" by (simp add: bc_bytes_def)
  have "ar_bytes (bc_length t) (map ArByte (bc_bytes m0 t) @ ArDType (bc_dtype t) # ar)
      = Some (bc_bytes m0 t, ArDType (bc_dtype t) # ar)"
    using ar_bytes_map[of "bc_bytes m0 t"] len by simp
  with True assms show ?thesis
    using mem_bytes_write[of _ "bc_bytes m0 t" m] len
    by (simp add: bc_save_def bc_load_def bc_of_bytes_def Let_def bc_bytes_def)
qed (simp add: bc_save_def bc_load_def)

theorem bc_save_load_witness:
  "\<exists>t' m'. bc_load (mk_at 1000 9) (\<lambda>_. 0) (bc_save word_of_nat (bc_of_shared (sb_make_with 10 3 (Some 1))) @ [])
      = Some (t', m', [])"
  using bc_save_load[of "bc_of_shared (sb_make_with 10 3 (Some 1))" "mk_at 1000 9" "\<lambda>_. 0" word_of_nat "[]"]
  by (auto simp: bc_of_shared_def sb_make_with_def)

text \<open>A longer chunk is saved with a truncated length, so loading fails on its own output.\<close>

lemma ar_bytes_prefix:
  "n \<le> length bs \<Longrightarrow> ar_bytes n (map ArByte bs @ ar) = Some (take n bs, map ArByte (drop n bs) @ ar)"
proof (induction bs arbitrary: n)
  case (Cons b bs)
  then show ?case by (cases n) auto
qed simp

lemma bc_save_truncates:
  assumes "bc_bool t" "bc_length t = 2 ^ 32 + k" "k < 2 ^ 32"
  shows "bc_load mk m (bc_save m0 t) = None"
proof -
  have len: "length (bc_bytes m0 t) = 2 ^ 32 + k" using assms(2) by (simp add: bc_bytes_def)
  then have "drop k (bc_bytes m0 t) \<noteq> []" by simp
  then obtain b bs where d: "drop k (bc_bytes m0 t) = b # bs" by (cases "drop k (bc_bytes m0 t)") auto
  have "(2 ^ 32 + k) mod 2 ^ 32 = k" using assms(3) by simp
  then show ?thesis
    using assms(1,2) ar_bytes_prefix[of k "bc_bytes m0 t" "[ArDType (bc_dtype t)]"] len d
    by (simp add: bc_save_def bc_load_def bc_of_bytes_def Let_def)
qed

section \<open>The alias of a chunk\<close>

text \<open>The documented double mapping of a circular buffer.\<close>

definition mem_mirrored :: "memory \<Rightarrow> shared_buffer \<Rightarrow> bool" where
  "mem_mirrored m b \<longleftrightarrow> (\<forall>i < sb_length b. m (sb_address b + i) = m (sb_address b + i + sb_length b))"

text \<open>for a chunk over a whole circular buffer that stays in one of the two mappings, the alias
  address reads the same bytes (the first byte of the second mapping excepted, where \<open>getAlias\<close>
  compares with \<open>>\<close>).\<close>

theorem bc_getAlias_mirrors:
  assumes "sb_circ b" "mem_mirrored m b" "bc_buffer c = b" "bc_address c \<noteq> sb_alias b"
    "sb_address b \<le> bc_address c" "bc_range c \<subseteq> {sb_address b ..< sb_alias b} \<or> bc_range c \<subseteq> {sb_alias b ..< sb_alias b + sb_length b}"
    "0 < bc_length c"
  shows "mem_bytes m (bc_getAlias c) (bc_length c) = bc_bytes m c"
proof -
  let ?A = "sb_address b" and ?L = "sb_length b"
  have al: "sb_alias b = ?A + ?L" "0 < ?L" "?A + 2 * ?L < SIZE_MOD" using assms(1) by (auto simp: sb_circ_def)
  have first: "bc_address c \<in> bc_range c" "bc_address c + (bc_length c - 1) \<in> bc_range c"
    using assms(7) by (auto simp: bc_range_def)
  show ?thesis
  proof (cases "bc_address c > sb_alias b")
    case True
    then have in2: "bc_address c + (bc_length c - 1) < ?A + ?L + ?L"
      using assms(6) first al by auto
    have "bc_getAlias c = bc_address c - ?L"
      using True al assms(3) in2 by (simp add: bc_getAlias_def sub64_exact)
    then show ?thesis unfolding bc_bytes_def
    proof (intro mem_bytes_cong)
      fix i assume i: "i < bc_length c" and ga: "bc_getAlias c = bc_address c - ?L"
      let ?k = "bc_address c - ?A - ?L + i"
      have "?k < ?L" using i in2 True al(1) by linarith
      then have "m (?A + ?k) = m (?A + ?k + ?L)" using assms(2) by (simp add: mem_mirrored_def)
      moreover have "?A + ?k = bc_getAlias c + i" "?A + ?k + ?L = bc_address c + i"
        using True al(1) ga by linarith+
      ultimately show "m (bc_getAlias c + i) = m (bc_address c + i)" by simp
    qed
  next
    case False
    then have lt: "bc_address c < ?A + ?L" using assms(4) al by simp
    then have in1: "bc_address c + (bc_length c - 1) < ?A + ?L" using assms(6) first al by auto
    have "bc_getAlias c = bc_address c + ?L"
      using False al assms(3) lt by (simp add: bc_getAlias_def add64_exact)
    then show ?thesis unfolding bc_bytes_def
    proof (intro mem_bytes_cong)
      fix i assume i: "i < bc_length c" and ga: "bc_getAlias c = bc_address c + ?L"
      let ?k = "bc_address c - ?A + i"
      have "?k < ?L" using i in1 assms(5) by linarith
      then have "m (?A + ?k) = m (?A + ?k + ?L)" using assms(2) by (simp add: mem_mirrored_def)
      moreover have "?A + ?k = bc_address c + i" "?A + ?k + ?L = bc_getAlias c + i"
        using assms(5) ga by linarith+
      ultimately show "m (bc_getAlias c + i) = m (bc_address c + i)" by metis
    qed
  qed
qed

theorem bc_getAlias_mirrors_witness:
  "mem_bytes (\<lambda>a. if even a then 1 else 0) (bc_getAlias
     \<lparr>bc_address = 68, bc_length = 4, bc_dtype = dtype_default,
      bc_buffer = \<lparr>sb_address = 48, sb_length = 16, sb_alias = 64, sb_container = Some 1\<rparr>, bc_managed = None\<rparr>) 4
   = bc_bytes (\<lambda>a. if even a then 1 else 0) \<lparr>bc_address = 68, bc_length = 4, bc_dtype = dtype_default,
      bc_buffer = \<lparr>sb_address = 48, sb_length = 16, sb_alias = 64, sb_container = Some 1\<rparr>, bc_managed = None\<rparr>"
proof -
  let ?b = "\<lparr>sb_address = 48, sb_length = 16, sb_alias = 64, sb_container = Some 1\<rparr>"
  let ?c = "\<lparr>bc_address = 68, bc_length = 4, bc_dtype = dtype_default, bc_buffer = ?b, bc_managed = None\<rparr>"
  have "sb_circ ?b" by (simp add: sb_circ_def SIZE_MOD_def)
  moreover have "mem_mirrored (\<lambda>a. if even a then 1 else 0) ?b" by (simp add: mem_mirrored_def)
  ultimately have "mem_bytes (\<lambda>a. if even a then 1 else 0) (bc_getAlias ?c) (bc_length ?c)
      = bc_bytes (\<lambda>a. if even a then 1 else 0) ?c"
    by (rule bc_getAlias_mirrors) (simp_all add: bc_range_def)
  then show ?thesis by (simp only: buffer_chunk.select_convs)
qed

text \<open>
  For a sub-buffer the alias is computed with the length of the sub-buffer instead of the length of
  the circular buffer: the second half of a chunk of a 32 byte ring, in a 16 byte sub-buffer, is
  reported to alias the address 16 bytes further, which holds other data.
\<close>

lemma bc_getAlias_sub_buffer:
  "result_bind (sb_sub 64 16 \<lparr>sb_address = 64, sb_length = 32, sb_alias = 96, sb_container = Some 1\<rparr>)
     (\<lambda>b. Inr (bc_getAlias (bc_of_shared b))) = Inr 80"
  by (simp add: sb_sub_def bc_getAlias_def bc_of_shared_def add64_def sub64_def SIZE_MOD_def)

end
