(* ===== verification/BufferAccumulator.thy ===== *)
theory BufferAccumulator
  imports RingDeque BufferChunk
begin

text \<open>
  \<^verbatim>\<open>Pothos::BufferAccumulator\<close> (lib/Framework/BufferAccumulator.cpp and the inline part of the
  header): the queue of buffer chunks behind every stream input. Pushed chunks that continue the
  previous one are amalgamated into it, \<open>pop\<close> removes bytes from the front, and \<open>require\<close> copies
  chunks together into a buffer of an internal pool until the front holds enough bytes.

  \<open>require\<close> is a function of the memory; \<open>mk\<close> is the allocator of the pool and \<open>ext\<close> counts the
  references to a container that are held outside the pool and the queue. The stream of an
  accumulator is the concatenation of the bytes of its chunks.
\<close>

section \<open>State and operations\<close>

record helper_pool =
  hp_minBuffSize :: usize
  hp_buffs :: "buffer_chunk list"

record accumulator =
  ac_queue :: "buffer_chunk ring_deque"
  ac_bytesAvailable :: usize
  ac_inPoolBuffer :: bool
  ac_pool :: helper_pool

definition hp_new :: helper_pool where
  "hp_new = \<lparr>hp_minBuffSize = 4096, hp_buffs = []\<rparr>"

text \<open>\<open>refs bs c\<close> is the use count of container \<open>c\<close> when the pool holds the chunks \<open>bs\<close>.\<close>

definition hp_get :: "(buffer_chunk list \<Rightarrow> nat \<Rightarrow> nat) \<Rightarrow> (usize \<Rightarrow> shared_buffer) \<Rightarrow> usize \<Rightarrow> helper_pool
    \<Rightarrow> buffer_chunk \<times> helper_pool" where
  "hp_get refs mk numBytes p0 =
     (let p = (if numBytes > hp_minBuffSize p0 then \<lparr>hp_minBuffSize = numBytes, hp_buffs = []\<rparr> else p0)
      in case find (\<lambda>b. sb_unique (refs (hp_buffs p)) (bc_buffer b)) (hp_buffs p) of
           Some b \<Rightarrow> (b, p)
         | None \<Rightarrow> let b = bc_of_shared (mk (hp_minBuffSize p)) in (b, p\<lparr>hp_buffs := hp_buffs p @ [b]\<rparr>))"

definition acc_new :: accumulator where
  "acc_new = \<lparr>ac_queue = rd_push_front bc_null (rd_new_capacity bc_null 64), ac_bytesAvailable = 0,
     ac_inPoolBuffer = False, ac_pool = hp_new\<rparr>"

definition acc_empty :: "accumulator \<Rightarrow> bool" where
  "acc_empty a \<longleftrightarrow> ac_bytesAvailable a = 0"

definition acc_front :: "accumulator \<Rightarrow> buffer_chunk" where
  "acc_front a = rd_front (ac_queue a)"

definition acc_getTotalBytesAvailable :: "accumulator \<Rightarrow> usize" where
  "acc_getTotalBytesAvailable a = ac_bytesAvailable a"

definition acc_contig :: "buffer_chunk \<Rightarrow> buffer_chunk \<Rightarrow> bool" where
  "acc_contig b f \<longleftrightarrow> bc_address b = bc_getEnd f \<or> bc_getAlias b = bc_getEnd f"

text \<open>The amalgamation loop of \<open>push\<close>, from index \<open>i\<close> towards the front.\<close>

fun acc_merge :: "nat \<Rightarrow> buffer_chunk ring_deque \<Rightarrow> buffer_chunk ring_deque" where
  "acc_merge 0 q = q"
| "acc_merge (Suc i) q =
     (let b = rd_at q (Suc i); f = rd_at q i in
      if acc_contig b f then
        acc_merge i
          (rd_set_at (Suc i) (b\<lparr>bc_address := add64 (bc_address b) (bc_length b), bc_length := 0\<rparr>)
            (rd_set_at i (f\<lparr>bc_length := add64 (bc_length f) (bc_length b)\<rparr>) q))
      else q)"

definition acc_push :: "buffer_chunk \<Rightarrow> accumulator \<Rightarrow> accumulator" where
  "acc_push buffer a =
     (let q = ac_queue a;
          q = (if bc_length (rd_front q) = 0 then rd_pop_front bc_null q else q);
          q = (if rd_full q then rd_set_capacity bc_null (rd_size q * 2) q else q);
          q = rd_push_back buffer q;
          q = (if rd_size q < 2 then q
               else let backIndex = rd_size q - 1;
                        q = acc_merge backIndex q;
                        b = rd_at q backIndex; f = rd_at q (backIndex - 1)
                    in if mr_equal (bc_managed b) (bc_managed f) \<and> bc_length b = 0
                       then rd_pop_back bc_null q else q)
      in a\<lparr>ac_bytesAvailable := add64 (ac_bytesAvailable a) (bc_length buffer), ac_queue := q\<rparr>)"

text \<open>The three clean-ups of \<open>pop\<close>. The assignment \<open>b.length =+ f.length\<close> of the code stores
  \<open>f.length\<close>.\<close>

definition acc_pop_queue :: "bool \<Rightarrow> buffer_chunk ring_deque \<Rightarrow> buffer_chunk ring_deque" where
  "acc_pop_queue inPool q =
     (let f = rd_front q; b = rd_at q 1 in
      if inPool \<and> rd_size q > 1 \<and> bc_length f \<le> sub64 (bc_address b) (sb_address (bc_buffer b))
      then rd_pop_front bc_null
             (rd_set_at 1 (b\<lparr>bc_address := sub64 (bc_address b) (bc_length f),
                            bc_length := add64 (bc_length b) (bc_length f)\<rparr>) q)
      else if bc_length f = 0 then rd_pop_front bc_null q
      else if rd_size q > 1 \<and> bc_address f \<ge> sb_getEnd (bc_buffer f) \<and> bc_getEnd f = bc_address b
      then rd_pop_front bc_null
             (rd_set_at 1 (b\<lparr>bc_address := sub64 (bc_address b) (bc_length f),
                            bc_length := bc_length f\<rparr>) q)
      else q)"

text \<open>A chunk after \<open>n\<close> bytes were taken from its front.\<close>

definition bc_advance :: "usize \<Rightarrow> buffer_chunk \<Rightarrow> buffer_chunk" where
  "bc_advance n c = c\<lparr>bc_address := add64 (bc_address c) n, bc_length := sub64 (bc_length c) n\<rparr>"

definition acc_pop :: "usize \<Rightarrow> accumulator \<Rightarrow> accumulator" where
  "acc_pop numBytes a =
     (let q = rd_set_at 0 (bc_advance numBytes (rd_front (ac_queue a))) (ac_queue a);
          q' = acc_pop_queue (ac_inPoolBuffer a) q
      in a\<lparr>ac_bytesAvailable := sub64 (ac_bytesAvailable a) numBytes,
           ac_inPoolBuffer := (if ac_inPoolBuffer a \<and> rd_size q \<noteq> rd_size q' then False else ac_inPoolBuffer a),
           ac_queue := (if rd_empty q' then rd_push_front bc_null q' else q')\<rparr>)"

text \<open>The copy loop of \<open>require\<close>: queue, memory, new buffer and the room left in it. One turn copies
  \<open>min room f.length\<close> bytes of the front \<open>f\<close> behind the bytes already in the new buffer.\<close>

definition acc_copyBytes :: "buffer_chunk ring_deque \<Rightarrow> usize \<Rightarrow> usize" where
  "acc_copyBytes q room = min room (bc_length (rd_front q))"

definition acc_copy_mem :: "buffer_chunk ring_deque \<Rightarrow> usize \<Rightarrow> buffer_chunk \<Rightarrow> memory \<Rightarrow> memory" where
  "acc_copy_mem q room nb m =
     memcpy (add64 (bc_address nb) (bc_length nb)) (bc_address (rd_front q)) (acc_copyBytes q room) m"

definition acc_copy_grow :: "buffer_chunk ring_deque \<Rightarrow> usize \<Rightarrow> buffer_chunk \<Rightarrow> buffer_chunk" where
  "acc_copy_grow q room nb = nb\<lparr>bc_length := add64 (bc_length nb) (acc_copyBytes q room)\<rparr>"

definition acc_copy_partial :: "buffer_chunk ring_deque \<Rightarrow> usize \<Rightarrow> buffer_chunk ring_deque" where
  "acc_copy_partial q room = (let f = rd_front q in
     rd_set_at 0 (bc_advance (acc_copyBytes q room) f) q)"

function acc_copy :: "buffer_chunk ring_deque \<Rightarrow> memory \<Rightarrow> buffer_chunk \<Rightarrow> usize
    \<Rightarrow> buffer_chunk ring_deque \<times> memory \<times> buffer_chunk" where
  "acc_copy q m nb room =
     (if rd_empty q then (q, m, nb)
      else if bc_length (rd_front q) = acc_copyBytes q room
      then acc_copy (rd_pop_front bc_null q) (acc_copy_mem q room nb m) (acc_copy_grow q room nb)
             (sub64 room (acc_copyBytes q room))
      else (acc_copy_partial q room, acc_copy_mem q room nb m, acc_copy_grow q room nb))"
  by pat_completeness auto
termination
  by (relation "measure (\<lambda>(q, m, nb, room). rd_numElements q)") (simp_all add: rd_pop_front_less)

declare acc_copy.simps [simp del]

definition acc_refs :: "(nat \<Rightarrow> nat) \<Rightarrow> buffer_chunk ring_deque \<Rightarrow> buffer_chunk list \<Rightarrow> nat \<Rightarrow> nat" where
  "acc_refs ext q bs c = ext c
     + count_list (map (\<lambda>b. sb_container (bc_buffer b)) bs) (Some c)
     + count_list (map (\<lambda>b. sb_container (bc_buffer b)) (rd_container q)) (Some c)"

definition acc_require :: "(nat \<Rightarrow> nat) \<Rightarrow> (usize \<Rightarrow> shared_buffer) \<Rightarrow> usize \<Rightarrow> accumulator \<times> memory
    \<Rightarrow> accumulator \<times> memory" where
  "acc_require ext mk numBytes st = (case st of (a, m) \<Rightarrow>
     let q = ac_queue a in
     if bc_length (rd_front q) \<ge> numBytes then (a, m)
     else if ac_bytesAvailable a < numBytes \<and> numBytes \<le> sb_length (bc_buffer (rd_front q)) then (a, m)
     else
       (let (nb0, pool) = hp_get (acc_refs ext q) mk numBytes (ac_pool a);
            nb = nb0\<lparr>bc_dtype := bc_dtype (rd_front q), bc_length := 0\<rparr>;
            (q', m', nb') = acc_copy q m nb (bc_length nb0)
        in (a\<lparr>ac_queue := rd_push_front nb' q', ac_inPoolBuffer := True, ac_pool := pool\<rparr>, m')))"

text \<open>The set of managed handles is a set of \<open>Impl\<close> pointers; the null handle counts as one.\<close>

definition acc_getUniqueManagedBufferCount :: "accumulator \<Rightarrow> nat" where
  "acc_getUniqueManagedBufferCount a =
     length (remdups (map (\<lambda>c. map_option mr_impl (bc_managed c))
       (filter bc_bool (map (rd_at (ac_queue a)) [0..<rd_size (ac_queue a)]))))"

section \<open>The stream and the invariant\<close>

definition chunks_bytes :: "memory \<Rightarrow> buffer_chunk list \<Rightarrow> byte list" where
  "chunks_bytes m xs = concat (map (bc_bytes m) xs)"

definition acc_list :: "accumulator \<Rightarrow> buffer_chunk list" where
  "acc_list a = rd_list (ac_queue a)"

definition acc_stream :: "memory \<Rightarrow> accumulator \<Rightarrow> byte list" where
  "acc_stream m a = chunks_bytes m (acc_list a)"

text \<open>A chunk of an ordinary (not circular) buffer.\<close>

definition chunk_ok :: "buffer_chunk \<Rightarrow> bool" where
  "chunk_ok c \<longleftrightarrow> 0 < bc_address c \<and> bc_address c + bc_length c < SIZE_MOD \<and> sb_alias (bc_buffer c) = 0"

text \<open>Neighbouring chunks that are contiguous have been amalgamated: the second one is empty.\<close>

definition sep_at :: "buffer_chunk list \<Rightarrow> nat \<Rightarrow> bool" where
  "sep_at xs j \<longleftrightarrow> (bc_getEnd (xs ! j) = bc_address (xs ! Suc j) \<longrightarrow> bc_length (xs ! Suc j) = 0)"

definition chunks_sep :: "buffer_chunk list \<Rightarrow> bool" where
  "chunks_sep xs \<longleftrightarrow> (\<forall>j. Suc j < length xs \<longrightarrow> sep_at xs j)"

definition acc_inv :: "accumulator \<Rightarrow> bool" where
  "acc_inv a \<longleftrightarrow>
     rd_wf (ac_queue a) \<and> acc_list a \<noteq> [] \<and>
     ((\<exists>c. acc_list a = [c] \<and> bc_length c = 0) \<or> (\<forall>c \<in> set (acc_list a). chunk_ok c)) \<and>
     chunks_sep (acc_list a) \<and>
     ac_bytesAvailable a = (\<Sum>c\<leftarrow>acc_list a. bc_length c) \<and> ac_bytesAvailable a < SIZE_MOD"

lemma length_chunks_bytes: "length (chunks_bytes m xs) = (\<Sum>c\<leftarrow>xs. bc_length c)"
  by (simp add: chunks_bytes_def length_concat comp_def bc_bytes_def)

lemma acc_bytesAvailable_stream: "acc_inv a \<Longrightarrow> ac_bytesAvailable a = length (acc_stream m a)"
  by (simp add: acc_inv_def acc_stream_def length_chunks_bytes)

lemma chunks_bytes_Nil [simp]: "chunks_bytes m [] = []"
  by (simp add: chunks_bytes_def)

lemma chunks_bytes_Cons [simp]: "chunks_bytes m (c # xs) = bc_bytes m c @ chunks_bytes m xs"
  by (simp add: chunks_bytes_def)

lemma chunks_bytes_append [simp]: "chunks_bytes m (xs @ ys) = chunks_bytes m xs @ chunks_bytes m ys"
  by (simp add: chunks_bytes_def)

lemma bc_bytes_empty [simp]: "bc_length c = 0 \<Longrightarrow> bc_bytes m c = []"
  by (simp add: bc_bytes_def)

lemma chunk_ok_end [simp]: "chunk_ok c \<Longrightarrow> bc_getEnd c = bc_address c + bc_length c"
  by (simp add: chunk_ok_def bc_getEnd_def add64_exact)

lemma chunk_ok_alias [simp]: "chunk_ok c \<Longrightarrow> bc_getAlias c = 0"
  by (simp add: chunk_ok_def bc_getAlias_def)

lemma chunk_ok_contig: "chunk_ok b \<Longrightarrow> chunk_ok f \<Longrightarrow> acc_contig b f \<longleftrightarrow> bc_address b = bc_address f + bc_length f"
  by (auto simp: acc_contig_def chunk_ok_def bc_getEnd_def bc_getAlias_def add64_exact)

section \<open>push\<close>

text \<open>The amalgamation loop on the list.\<close>

fun merge_list :: "nat \<Rightarrow> buffer_chunk list \<Rightarrow> buffer_chunk list" where
  "merge_list 0 xs = xs"
| "merge_list (Suc i) xs =
     (let b = xs ! Suc i; f = xs ! i in
      if acc_contig b f then
        merge_list i
          (xs[i := f\<lparr>bc_length := add64 (bc_length f) (bc_length b)\<rparr>,
              Suc i := b\<lparr>bc_address := add64 (bc_address b) (bc_length b), bc_length := 0\<rparr>])
      else xs)"

lemma acc_merge_list:
  "rd_wf q \<Longrightarrow> i < rd_numElements q \<Longrightarrow>
    rd_wf (acc_merge i q) \<and> rd_list (acc_merge i q) = merge_list i (rd_list q)"
proof (induction i arbitrary: q)
  case (Suc i)
  let ?b = "rd_at q (Suc i)" and ?f = "rd_at q i"
  let ?q1 = "rd_set_at i (?f\<lparr>bc_length := add64 (bc_length ?f) (bc_length ?b)\<rparr>) q"
  let ?q2 = "rd_set_at (Suc i) (?b\<lparr>bc_address := add64 (bc_address ?b) (bc_length ?b), bc_length := 0\<rparr>) ?q1"
  have n: "rd_numElements ?q1 = rd_numElements q" "rd_numElements ?q2 = rd_numElements q"
    by (simp_all add: rd_set_at_def)
  have "rd_list ?q2 = (rd_list q)[i := ?f\<lparr>bc_length := add64 (bc_length ?f) (bc_length ?b)\<rparr>,
      Suc i := ?b\<lparr>bc_address := add64 (bc_address ?b) (bc_length ?b), bc_length := 0\<rparr>]"
    using Suc.prems n by (simp add: rd_set_at_list)
  moreover have "rd_wf ?q2" using Suc.prems by simp
  ultimately show ?case
    using Suc.IH[of ?q2] Suc.prems n by (simp add: Let_def)
qed simp

lemma list_split2:
  assumes "Suc i < length xs"
  shows "xs = take i xs @ xs ! i # xs ! Suc i # drop (Suc (Suc i)) xs"
  using assms by (simp add: Cons_nth_drop_Suc)

lemma list_update2:
  assumes "Suc i < length xs"
  shows "xs[i := a, Suc i := b] = take i xs @ a # b # drop (Suc (Suc i)) xs"
proof -
  have "(take i xs @ xs ! i # xs ! Suc i # drop (Suc (Suc i)) xs)[i := a, Suc i := b]
      = take i xs @ a # b # drop (Suc (Suc i)) xs"
    using assms by (simp add: list_update_append)
  then show ?thesis using list_split2[OF assms] by simp
qed

lemma merge_step:
  assumes i: "Suc i < length xs" and ok: "\<forall>c \<in> set xs. chunk_ok c" and c: "acc_contig (xs ! Suc i) (xs ! i)"
  defines "xs' \<equiv> xs[i := (xs ! i)\<lparr>bc_length := add64 (bc_length (xs ! i)) (bc_length (xs ! Suc i))\<rparr>,
    Suc i := (xs ! Suc i)\<lparr>bc_address := add64 (bc_address (xs ! Suc i)) (bc_length (xs ! Suc i)), bc_length := 0\<rparr>]"
  shows "chunks_bytes m xs' = chunks_bytes m xs" "\<forall>c \<in> set xs'. chunk_ok c"
    "(\<Sum>c\<leftarrow>xs'. bc_length c) = (\<Sum>c\<leftarrow>xs. bc_length c)" "length xs' = length xs"
    "\<forall>j. Suc j < length xs \<and> Suc j \<noteq> Suc i \<longrightarrow> sep_at xs j \<Longrightarrow>
      \<forall>j. Suc j < length xs' \<and> Suc j \<noteq> i \<longrightarrow> sep_at xs' j"
proof -
  let ?f = "xs ! i" and ?b = "xs ! Suc i"
  have fb: "chunk_ok ?f" "chunk_ok ?b" using ok i by auto
  then have eq: "bc_address ?b = bc_address ?f + bc_length ?f" using c chunk_ok_contig by blast
  have add: "add64 (bc_length ?f) (bc_length ?b) = bc_length ?f + bc_length ?b"
    "add64 (bc_address ?b) (bc_length ?b) = bc_address ?b + bc_length ?b"
    using fb eq by (simp_all add: chunk_ok_def add64_exact)
  let ?f' = "?f\<lparr>bc_length := bc_length ?f + bc_length ?b\<rparr>"
  let ?b' = "?b\<lparr>bc_address := bc_address ?b + bc_length ?b, bc_length := 0\<rparr>"
  have xs': "xs' = take i xs @ ?f' # ?b' # drop (Suc (Suc i)) xs"
    unfolding xs'_def add using list_update2[OF i] .
  have xs: "xs = take i xs @ ?f # ?b # drop (Suc (Suc i)) xs" by (rule list_split2[OF i])
  have "bc_bytes m ?f' = bc_bytes m ?f @ bc_bytes m ?b"
    by (simp add: bc_bytes_def mem_bytes_append eq)
  then have "chunks_bytes m xs' = chunks_bytes m (take i xs @ ?f # ?b # drop (Suc (Suc i)) xs)"
    by (simp add: xs')
  with xs show "chunks_bytes m xs' = chunks_bytes m xs" by metis
  have ok': "chunk_ok ?f'" "chunk_ok ?b'" using fb eq by (auto simp: chunk_ok_def)
  then show "\<forall>c \<in> set xs'. chunk_ok c"
    using ok by (auto simp: xs' dest: in_set_takeD in_set_dropD)
  have "(\<Sum>c\<leftarrow>xs'. bc_length c) = (\<Sum>c\<leftarrow>take i xs @ ?f # ?b # drop (Suc (Suc i)) xs. bc_length c)"
    by (simp add: xs')
  with xs show "(\<Sum>c\<leftarrow>xs'. bc_length c) = (\<Sum>c\<leftarrow>xs. bc_length c)" by metis
  show len: "length xs' = length xs" by (simp add: xs'_def)
  assume sep: "\<forall>j. Suc j < length xs \<and> Suc j \<noteq> Suc i \<longrightarrow> sep_at xs j"
  have nth: "xs' ! j = (if j = i then ?f' else if j = Suc i then ?b' else xs ! j)" if "j < length xs" for j
    using that i unfolding xs'_def add by (simp add: nth_list_update)
  show "\<forall>j. Suc j < length xs' \<and> Suc j \<noteq> i \<longrightarrow> sep_at xs' j"
  proof (intro allI impI)
    fix j assume j: "Suc j < length xs' \<and> Suc j \<noteq> i"
    then have jl: "Suc j < length xs" "j < length xs" using len by auto
    show "sep_at xs' j"
    proof (cases "j = i")
      case True
      then show ?thesis using jl by (simp add: sep_at_def nth)
    next
      case ne: False
      show ?thesis
      proof (cases "j = Suc i")
        case True
        have "bc_getEnd ?b' = bc_getEnd ?b" using ok' fb by simp
        moreover have "sep_at xs j" using sep jl True by simp
        ultimately show ?thesis using True jl by (simp add: sep_at_def nth)
      next
        case False
        then have "sep_at xs j" using sep jl ne by simp
        then show ?thesis using False ne jl j by (simp add: sep_at_def nth)
      qed
    qed
  qed
qed

lemma merge_list_props:
  assumes "i < length xs" "\<forall>c \<in> set xs. chunk_ok c"
    "\<forall>j. Suc j < length xs \<and> Suc j \<noteq> i \<longrightarrow> sep_at xs j"
  shows "chunks_bytes m (merge_list i xs) = chunks_bytes m xs
    \<and> (\<forall>c \<in> set (merge_list i xs). chunk_ok c)
    \<and> (\<Sum>c\<leftarrow>merge_list i xs. bc_length c) = (\<Sum>c\<leftarrow>xs. bc_length c)
    \<and> length (merge_list i xs) = length xs \<and> chunks_sep (merge_list i xs)"
  using assms
proof (induction i arbitrary: xs)
  case 0
  then show ?case by (simp add: chunks_sep_def)
next
  case (Suc i)
  show ?case
  proof (cases "acc_contig (xs ! Suc i) (xs ! i)")
    case True
    note ms = merge_step[OF Suc.prems(1,2) True]
    have "i < length xs" using Suc.prems(1) by simp
    with Suc.IH[OF _ ms(2) ms(5)[OF Suc.prems(3)]] ms(1,3,4) True show ?thesis
      by (simp add: Let_def)
  next
    case False
    have "chunk_ok (xs ! Suc i)" "chunk_ok (xs ! i)" using Suc.prems by auto
    with False have "sep_at xs i" by (auto simp: sep_at_def chunk_ok_contig)
    with Suc.prems(3) have "\<forall>j. Suc j < length xs \<longrightarrow> sep_at xs j" by (metis Suc_inject)
    with False Suc.prems show ?thesis by (simp add: Let_def chunks_sep_def)
  qed
qed

lemma chunks_sep_tl: "chunks_sep xs \<Longrightarrow> chunks_sep (tl xs)"
  by (auto simp: chunks_sep_def sep_at_def nth_tl)

lemma chunks_sep_butlast: "chunks_sep xs \<Longrightarrow> chunks_sep (butlast xs)"
  by (auto simp: chunks_sep_def sep_at_def nth_butlast)

lemma chunks_sep_snoc: "chunks_sep xs \<Longrightarrow>
    \<forall>j. Suc j < length (xs @ [c]) \<and> Suc j \<noteq> length xs \<longrightarrow> sep_at (xs @ [c]) j"
  by (auto simp: chunks_sep_def sep_at_def nth_append)

lemma butlast_empty_last:
  assumes "xs \<noteq> []" "bc_length (last xs) = 0"
  shows "chunks_bytes m (butlast xs) = chunks_bytes m xs"
    "(\<Sum>c\<leftarrow>butlast xs. bc_length c) = (\<Sum>c\<leftarrow>xs. bc_length c)"
proof -
  have "chunks_bytes m (butlast xs @ [last xs]) = chunks_bytes m (butlast xs)"
    "(\<Sum>c\<leftarrow>butlast xs @ [last xs]. bc_length c) = (\<Sum>c\<leftarrow>butlast xs. bc_length c)"
    using assms(2) by simp_all
  with assms(1) show "chunks_bytes m (butlast xs) = chunks_bytes m xs"
    "(\<Sum>c\<leftarrow>butlast xs. bc_length c) = (\<Sum>c\<leftarrow>xs. bc_length c)" by simp_all
qed

text \<open>What the tail of \<open>push\<close> does to the queue after the new chunk is in.\<close>

definition acc_amalgamate :: "buffer_chunk ring_deque \<Rightarrow> buffer_chunk ring_deque" where
  "acc_amalgamate q =
     (if rd_size q < 2 then q
      else let backIndex = rd_size q - 1;
               q = acc_merge backIndex q;
               b = rd_at q backIndex; f = rd_at q (backIndex - 1)
           in if mr_equal (bc_managed b) (bc_managed f) \<and> bc_length b = 0
              then rd_pop_back bc_null q else q)"

definition acc_drop_dummy :: "buffer_chunk ring_deque \<Rightarrow> buffer_chunk ring_deque" where
  "acc_drop_dummy q = (if bc_length (rd_front q) = 0 then rd_pop_front bc_null q else q)"

lemma acc_push_eq:
  "acc_push c a = a\<lparr>ac_bytesAvailable := add64 (ac_bytesAvailable a) (bc_length c),
     ac_queue := acc_amalgamate (rd_push_grow bc_null c (acc_drop_dummy (ac_queue a)))\<rparr>"
  by (simp only: acc_push_def Let_def acc_amalgamate_def acc_drop_dummy_def rd_push_grow_def)

lemma acc_drop_dummy_props:
  assumes inv: "acc_inv a"
  defines "q1 \<equiv> acc_drop_dummy (ac_queue a)"
  shows "rd_wf q1" "\<forall>c \<in> set (rd_list q1). chunk_ok c" "chunks_sep (rd_list q1)"
    "chunks_bytes m (rd_list q1) = acc_stream m a"
    "(\<Sum>c\<leftarrow>rd_list q1. bc_length c) = ac_bytesAvailable a"
    "length (rd_list q1) \<le> length (acc_list a)"
proof -
  let ?q = "ac_queue a"
  have wf: "rd_wf ?q" and ne: "rd_list ?q \<noteq> []" and sep: "chunks_sep (rd_list ?q)"
    and bytes: "ac_bytesAvailable a = (\<Sum>c\<leftarrow>rd_list ?q. bc_length c)"
    and ok: "(\<exists>c. rd_list ?q = [c] \<and> bc_length c = 0) \<or> (\<forall>c \<in> set (rd_list ?q). chunk_ok c)"
    using inv by (auto simp: acc_inv_def acc_list_def)
  have fr: "rd_front ?q = hd (rd_list ?q)" using wf ne by (rule rd_front_list)
  obtain x xs where xs: "rd_list ?q = x # xs" using ne by (cases "rd_list ?q") auto
  have q1: "rd_wf q1 \<and> rd_list q1 = (if bc_length x = 0 then xs else x # xs)"
    unfolding q1_def acc_drop_dummy_def using wf ne fr xs
    by (simp add: rd_pop_front_list rd_pop_front_wf rd_empty_list)
  then show "rd_wf q1" ..
  show "\<forall>c \<in> set (rd_list q1). chunk_ok c" using q1 ok xs by auto
  show "chunks_sep (rd_list q1)" using q1 sep xs chunks_sep_tl[OF sep] by auto
  show "chunks_bytes m (rd_list q1) = acc_stream m a"
    using q1 xs by (simp add: acc_stream_def acc_list_def)
  show "(\<Sum>c\<leftarrow>rd_list q1. bc_length c) = ac_bytesAvailable a" using q1 xs bytes by auto
  show "length (rd_list q1) \<le> length (acc_list a)" using q1 xs by (auto simp: acc_list_def)
qed

lemma acc_amalgamate_props:
  assumes wf: "rd_wf q" and ok: "\<forall>c \<in> set (rd_list q). chunk_ok c" and ne: "rd_list q \<noteq> []"
    and sep: "\<forall>j. Suc j < length (rd_list q) \<and> Suc j \<noteq> length (rd_list q) - 1 \<longrightarrow> sep_at (rd_list q) j"
  defines "q' \<equiv> acc_amalgamate q"
  shows "rd_wf q' \<and> (\<forall>c \<in> set (rd_list q'). chunk_ok c) \<and> chunks_sep (rd_list q') \<and> rd_list q' \<noteq> []
    \<and> chunks_bytes m (rd_list q') = chunks_bytes m (rd_list q)
    \<and> (\<Sum>c\<leftarrow>rd_list q'. bc_length c) = (\<Sum>c\<leftarrow>rd_list q. bc_length c)
    \<and> length (rd_list q') \<le> length (rd_list q)"
proof (cases "rd_size q < 2")
  case True
  with ne have "chunks_sep (rd_list q)"
    by (auto simp: chunks_sep_def rd_size_list)
  with True assms show ?thesis by (simp add: acc_amalgamate_def)
next
  case False
  let ?k = "rd_size q - 1"
  let ?qm = "acc_merge ?k q" and ?xm = "merge_list ?k (rd_list q)"
  have k: "?k < rd_numElements q" "rd_size q = length (rd_list q)"
    using False by (simp_all add: rd_size_def)
  note am = acc_merge_list[OF wf k(1)]
  have mp: "chunks_bytes m ?xm = chunks_bytes m (rd_list q) \<and> (\<forall>c \<in> set ?xm. chunk_ok c)
      \<and> (\<Sum>c\<leftarrow>?xm. bc_length c) = (\<Sum>c\<leftarrow>rd_list q. bc_length c)
      \<and> length ?xm = length (rd_list q) \<and> chunks_sep ?xm"
    using merge_list_props[of ?k "rd_list q" m] ok sep k by simp
  have len: "2 \<le> length ?xm" using mp False k(2) by simp
  have last: "rd_at ?qm ?k = last ?xm"
  proof -
    have "rd_numElements ?qm = length ?xm" using am by (metis length_rd_list)
    then have "rd_at ?qm ?k = ?xm ! ?k" using am mp k len by (metis rd_list_nth length_rd_list)
    then show ?thesis using mp k len by (subst last_conv_nth) (auto simp: rd_size_def)
  qed
  show ?thesis
  proof (cases "mr_equal (bc_managed (rd_at ?qm ?k)) (bc_managed (rd_at ?qm (?k - 1))) \<and> bc_length (rd_at ?qm ?k) = 0")
    case True
    then have q': "q' = rd_pop_back bc_null ?qm"
      using False by (simp add: q'_def acc_amalgamate_def Let_def)
    have ne': "\<not> rd_empty ?qm" using am len by (auto simp: rd_empty_list)
    have xs': "rd_list q' = butlast ?xm" "rd_wf q'"
      using am ne' by (simp_all add: q' rd_pop_back_list rd_pop_back_wf)
    have "?xm \<noteq> []" "bc_length (last ?xm) = 0" using len True last by auto
    note be = butlast_empty_last[OF this]
    have "butlast ?xm \<noteq> []" using len by (cases ?xm) auto
    then show ?thesis
      using xs' mp be chunks_sep_butlast by (auto dest: in_set_butlastD)
  next
    case nopop: False
    then have "q' = ?qm" using False by (auto simp: q'_def acc_amalgamate_def Let_def)
    with am mp len show ?thesis by auto
  qed
qed

text \<open>Pushing a chunk appends its bytes to the stream: no byte is lost, duplicated or reordered by
  dropping the dummy front, growing the queue and amalgamating contiguous chunks; the byte count is
  the length of the stream and the invariant is kept.\<close>

lemma acc_push_stream:
  assumes "acc_inv a" "chunk_ok c" "ac_bytesAvailable a + bc_length c < SIZE_MOD"
    "2 * length (acc_list a) < SIZE_MOD"
  shows "acc_inv (acc_push c a) \<and> acc_stream m (acc_push c a) = acc_stream m a @ bc_bytes m c
    \<and> ac_bytesAvailable (acc_push c a) = ac_bytesAvailable a + bc_length c"
proof -
  let ?q1 = "acc_drop_dummy (ac_queue a)" and ?q3 = "rd_push_grow bc_null c (acc_drop_dummy (ac_queue a))"
  note d = acc_drop_dummy_props[OF assms(1)]
  have l3: "rd_list ?q3 = rd_list ?q1 @ [c]" "rd_wf ?q3"
    using d(1,6) assms(4) by (simp_all add: rd_push_grow_list rd_push_grow_wf del: length_rd_list)
  have ok3: "\<forall>x \<in> set (rd_list ?q3). chunk_ok x" using d(2) assms(2) l3 by auto
  have sep3: "\<forall>j. Suc j < length (rd_list ?q3) \<and> Suc j \<noteq> length (rd_list ?q3) - 1 \<longrightarrow> sep_at (rd_list ?q3) j"
    unfolding l3 using chunks_sep_snoc[OF d(3), of c] by simp
  have ne3: "rd_list ?q3 \<noteq> []" using l3 by simp
  note am = acc_amalgamate_props[OF l3(2) ok3 ne3 sep3, of m]
  have bytes: "add64 (ac_bytesAvailable a) (bc_length c) = ac_bytesAvailable a + bc_length c"
    using assms(3) by (rule add64_exact)
  show ?thesis
    using am d(4,5) l3 assms(3) bytes
    by (simp add: acc_push_eq acc_inv_def acc_stream_def acc_list_def)
qed

section \<open>pop\<close>

lemma chunks_sep_simps [simp]:
  "chunks_sep []" "chunks_sep [x]"
  "chunks_sep (x # y # zs) \<longleftrightarrow> (bc_getEnd x = bc_address y \<longrightarrow> bc_length y = 0) \<and> chunks_sep (y # zs)"
proof -
  show "chunks_sep []" "chunks_sep [x]" by (simp_all add: chunks_sep_def)
  have sh: "sep_at (x # ws) (Suc j) = sep_at ws j" for ws j by (simp add: sep_at_def)
  show "chunks_sep (x # y # zs) \<longleftrightarrow> (bc_getEnd x = bc_address y \<longrightarrow> bc_length y = 0) \<and> chunks_sep (y # zs)"
  proof
    assume L: "chunks_sep (x # y # zs)"
    then have "sep_at (x # y # zs) 0" by (simp add: chunks_sep_def)
    moreover have "sep_at (y # zs) j" if "Suc j < length (y # zs)" for j
      using L[unfolded chunks_sep_def, rule_format, of "Suc j"] that by (simp add: sh)
    ultimately show "(bc_getEnd x = bc_address y \<longrightarrow> bc_length y = 0) \<and> chunks_sep (y # zs)"
      by (simp add: sep_at_def chunks_sep_def)
  next
    assume R: "(bc_getEnd x = bc_address y \<longrightarrow> bc_length y = 0) \<and> chunks_sep (y # zs)"
    show "chunks_sep (x # y # zs)"
      unfolding chunks_sep_def
    proof (intro allI impI)
      fix j assume "Suc j < length (x # y # zs)"
      with R show "sep_at (x # y # zs) j" by (cases j) (simp_all add: sep_at_def chunks_sep_def)
    qed
  qed
qed

lemma chunks_sep_head: "bc_getEnd f = bc_getEnd x \<Longrightarrow> chunks_sep (f # ys) = chunks_sep (x # ys)"
  by (cases ys) simp_all

lemma bc_advance_ok:
  assumes "chunk_ok c" "n \<le> bc_length c"
  shows "chunk_ok (bc_advance n c)" "bc_getEnd (bc_advance n c) = bc_getEnd c"
    "bc_length (bc_advance n c) = bc_length c - n" "bc_address (bc_advance n c) = bc_address c + n"
    "bc_bytes m (bc_advance n c) = drop n (bc_bytes m c)" "bc_buffer (bc_advance n c) = bc_buffer c"
proof -
  have ar: "add64 (bc_address c) n = bc_address c + n" "sub64 (bc_length c) n = bc_length c - n"
    using assms by (simp_all add: chunk_ok_def size_arith)
  show ok: "chunk_ok (bc_advance n c)" using assms by (simp add: bc_advance_def ar chunk_ok_def)
  show "bc_getEnd (bc_advance n c) = bc_getEnd c"
    using assms ok by (simp add: bc_advance_def ar)
  show "bc_length (bc_advance n c) = bc_length c - n" "bc_address (bc_advance n c) = bc_address c + n"
    "bc_buffer (bc_advance n c) = bc_buffer c"
    by (simp_all add: bc_advance_def ar)
  show "bc_bytes m (bc_advance n c) = drop n (bc_bytes m c)"
    by (simp add: bc_advance_def ar bc_bytes_def drop_mem_bytes)
qed

text \<open>
  When the front is a buffer of the pool, \<open>pop\<close> steps the next chunk back over the bytes that are left
  in the front. This is right only if these bytes were copied from just before the next chunk.
\<close>

definition acc_pool_ok :: "memory \<Rightarrow> accumulator \<Rightarrow> usize \<Rightarrow> bool" where
  "acc_pool_ok m a n \<longleftrightarrow>
     (ac_inPoolBuffer a \<longrightarrow> 1 < length (acc_list a) \<longrightarrow>
      (let f = acc_list a ! 0; b = acc_list a ! 1; k = bc_length f - n; base = sb_address (bc_buffer b) in
       0 < base \<and> base \<le> bc_address b \<and>
       (k \<le> bc_address b - base \<longrightarrow>
          mem_bytes m (bc_address b - k) k = mem_bytes m (bc_address f + n) k)))"

lemma rd_set_at_1_pop:
  assumes "rd_wf q" "rd_list q = f # b # zs"
  shows "rd_list (rd_pop_front d (rd_set_at 1 b' q)) = b' # zs" "rd_wf (rd_pop_front d (rd_set_at 1 b' q))"
proof -
  have n: "1 < rd_numElements q" using arg_cong[OF assms(2), of length] by simp
  then have l: "rd_list (rd_set_at 1 b' q) = f # b' # zs"
    using assms by (simp add: rd_set_at_list)
  then have "\<not> rd_empty (rd_set_at 1 b' q)" by (simp add: rd_empty_list)
  with l assms(1) show "rd_list (rd_pop_front d (rd_set_at 1 b' q)) = b' # zs"
    "rd_wf (rd_pop_front d (rd_set_at 1 b' q))"
    by (simp_all add: rd_pop_front_list rd_pop_front_wf)
qed

lemma acc_pop_queue_props:
  assumes wf: "rd_wf q" and l: "rd_list q = f # ys" and ok: "\<forall>c \<in> set (f # ys). chunk_ok c"
    and sep: "chunks_sep (f # ys)"
    and pool: "\<And>b zs. inPool \<Longrightarrow> ys = b # zs \<Longrightarrow>
      0 < sb_address (bc_buffer b) \<and> sb_address (bc_buffer b) \<le> bc_address b \<and>
      (bc_length f \<le> bc_address b - sb_address (bc_buffer b) \<longrightarrow>
        mem_bytes m (bc_address b - bc_length f) (bc_length f) = bc_bytes m f)"
    and small: "(\<Sum>c\<leftarrow>f # ys. bc_length c) < SIZE_MOD"
  defines "q' \<equiv> acc_pop_queue inPool q"
  shows "rd_wf q' \<and> (\<forall>c \<in> set (rd_list q'). chunk_ok c) \<and> chunks_sep (rd_list q')
    \<and> chunks_bytes m (rd_list q') = chunks_bytes m (f # ys)"
proof -
  have at0: "rd_front q = f" using l rd_front_list[OF wf] by simp
  have size: "rd_size q = Suc (length ys)" using l by (simp add: rd_size_list)
  have fok: "chunk_ok f" using ok by simp
  show ?thesis
  proof (cases ys)
    case Nil
    have ne: "\<not> rd_empty q" using l by (simp add: rd_empty_list)
    show ?thesis
      using wf l ok ne size Nil at0
      by (auto simp: q'_def acc_pop_queue_def Let_def rd_pop_front_list rd_pop_front_wf)
  next
    case (Cons b zs)
    have at1: "rd_at q 1 = b"
      using rd_at_list[of 1 q] l Cons by (simp del: length_rd_list rd_list_nth)
    note sp = rd_set_at_1_pop[OF wf l[unfolded Cons], where d = bc_null]
    have bok: "chunk_ok b" using ok Cons by simp
    have zs: "\<forall>c \<in> set zs. chunk_ok c" using ok Cons by simp
    consider (pool) "inPool" "bc_length f \<le> sub64 (bc_address b) (sb_address (bc_buffer b))"
      | (drained) "\<not> (inPool \<and> bc_length f \<le> sub64 (bc_address b) (sb_address (bc_buffer b)))" "bc_length f = 0"
      | (over) "\<not> (inPool \<and> bc_length f \<le> sub64 (bc_address b) (sb_address (bc_buffer b)))" "bc_length f \<noteq> 0"
          "bc_address f \<ge> sb_getEnd (bc_buffer f)" "bc_getEnd f = bc_address b"
      | (same) "\<not> (inPool \<and> bc_length f \<le> sub64 (bc_address b) (sb_address (bc_buffer b)))" "bc_length f \<noteq> 0"
          "\<not> (bc_address f \<ge> sb_getEnd (bc_buffer f) \<and> bc_getEnd f = bc_address b)"
      by blast
    then show ?thesis
    proof cases
      case pool
      let ?k = "bc_length f" and ?base = "sb_address (bc_buffer b)"
      have p: "0 < ?base" "?base \<le> bc_address b" using assms(5)[OF pool(1) Cons] by auto
      then have k: "?k \<le> bc_address b - ?base"
        using pool(2) bok by (simp add: chunk_ok_def size_arith)
      have mem: "mem_bytes m (bc_address b - ?k) ?k = bc_bytes m f" using assms(5)[OF pool(1) Cons] k by simp
      let ?b' = "b\<lparr>bc_address := bc_address b - ?k, bc_length := bc_length b + ?k\<rparr>"
      have ar: "sub64 (bc_address b) ?k = bc_address b - ?k" "add64 (bc_length b) ?k = bc_length b + ?k"
        using k bok small Cons by (auto simp: chunk_ok_def size_arith)
      have q': "q' = rd_pop_front bc_null (rd_set_at 1 ?b' q)"
        using pool size Cons unfolding q'_def acc_pop_queue_def Let_def at0 at1 ar by simp
      have b'ok: "chunk_ok ?b'" using bok k p by (auto simp: chunk_ok_def)
      have "bc_getEnd ?b' = bc_getEnd b" using bok b'ok k p by simp
      from chunks_sep_head[OF this, of zs] have "chunks_sep (?b' # zs)" using sep Cons by simp
      moreover have "bc_bytes m ?b' = bc_bytes m f @ bc_bytes m b"
        using k mem mem_bytes_append[of m "bc_address b - ?k" ?k "bc_length b"]
        by (simp add: bc_bytes_def add.commute)
      ultimately show ?thesis using sp b'ok zs Cons q' by simp
    next
      case drained
      have "\<not> rd_empty q" using l by (simp add: rd_empty_list)
      moreover have "q' = rd_pop_front bc_null q"
        using drained size unfolding q'_def acc_pop_queue_def Let_def at0 at1 by auto
      ultimately show ?thesis
        using wf l ok sep drained Cons by (simp add: rd_pop_front_list rd_pop_front_wf)
    next
      case over
      let ?k = "bc_length f"
      have b0: "bc_length b = 0" using sep over(4) Cons by simp
      have ba: "bc_address b = bc_address f + ?k" using over(4) fok by simp
      let ?b' = "b\<lparr>bc_address := bc_address b - ?k, bc_length := ?k\<rparr>"
      have ar: "sub64 (bc_address b) ?k = bc_address b - ?k"
        using ba bok by (simp add: chunk_ok_def size_arith)
      have q': "q' = rd_pop_front bc_null (rd_set_at 1 ?b' q)"
        using over size Cons unfolding q'_def acc_pop_queue_def Let_def at0 at1 ar by auto
      have b'ok: "chunk_ok ?b'" using bok fok ba by (auto simp: chunk_ok_def)
      have "bc_getEnd ?b' = bc_getEnd b" using bok b'ok b0 ba by simp
      from chunks_sep_head[OF this, of zs] have "chunks_sep (?b' # zs)" using sep Cons by simp
      moreover have "bc_bytes m ?b' = bc_bytes m f @ bc_bytes m b"
        using b0 ba by (simp add: bc_bytes_def)
      ultimately show ?thesis using sp b'ok zs Cons q' by simp
    next
      case same
      have "q' = q"
        using same size Cons unfolding q'_def acc_pop_queue_def Let_def at0 at1 by auto
      then show ?thesis using wf l ok sep by simp
    qed
  qed
qed

text \<open>Popping \<open>n\<close> bytes of the front removes exactly the first \<open>n\<close> bytes of the stream and keeps
  the invariant, whichever of the clean-ups of \<open>pop\<close> runs; in particular the assignment
  \<open>b.length =+ f.length\<close> is harmless because the chunk it overwrites is empty. The step back of a
  pool buffer is covered under its assumption that the pool bytes precede the next chunk.\<close>

lemma acc_pop_stream:
  assumes "acc_inv a" "n \<le> bc_length (acc_front a)" "acc_pool_ok m a n"
  shows "acc_inv (acc_pop n a) \<and> acc_stream m (acc_pop n a) = drop n (acc_stream m a)
    \<and> ac_bytesAvailable (acc_pop n a) = ac_bytesAvailable a - n"
proof -
  let ?qa = "ac_queue a"
  have wf: "rd_wf ?qa" and ne: "rd_list ?qa \<noteq> []" using assms(1) by (auto simp: acc_inv_def acc_list_def)
  obtain x ys where l: "rd_list ?qa = x # ys" using ne by (cases "rd_list ?qa") auto
  have fr: "acc_front a = x" using rd_front_list[OF wf ne] l by (simp add: acc_front_def)
  let ?f = "bc_advance n x"
  let ?q = "rd_set_at 0 ?f ?qa"
  let ?q' = "acc_pop_queue (ac_inPoolBuffer a) ?q"
  have pos: "0 < rd_numElements ?qa" using arg_cong[OF l, of length] by simp
  have lq: "rd_list ?q = ?f # ys" "rd_wf ?q" using wf l pos by (simp_all add: rd_set_at_list)
  have small: "(\<Sum>c\<leftarrow>x # ys. bc_length c) = ac_bytesAvailable a" "ac_bytesAvailable a < SIZE_MOD"
    and sep: "chunks_sep (x # ys)"
    using assms(1) l by (auto simp: acc_inv_def acc_list_def)
  have n: "n \<le> bc_length x" using assms(2) fr by simp
  have props: "rd_wf ?q' \<and> ((\<forall>c \<in> set (rd_list ?q'). chunk_ok c)) \<and> chunks_sep (rd_list ?q')
    \<and> chunks_bytes m (rd_list ?q') = drop n (chunks_bytes m (x # ys))"
  proof (cases "\<forall>c \<in> set (x # ys). chunk_ok c")
    case True
    note ad = bc_advance_ok[OF _ n]
    have fok: "chunk_ok ?f" using True ad(1) by simp
    have "rd_wf ?q' \<and> (\<forall>c \<in> set (rd_list ?q'). chunk_ok c) \<and> chunks_sep (rd_list ?q')
        \<and> chunks_bytes m (rd_list ?q') = chunks_bytes m (?f # ys)"
    proof (rule acc_pop_queue_props[OF lq(2,1)])
      show "\<forall>c \<in> set (?f # ys). chunk_ok c" using True fok by simp
      show "chunks_sep (?f # ys)" using True sep chunks_sep_head[OF ad(2)] by simp
      show "(\<Sum>c\<leftarrow>?f # ys. bc_length c) < SIZE_MOD" using small True ad(3) by simp
      fix b zs assume "ac_inPoolBuffer a" "ys = b # zs"
      then show "0 < sb_address (bc_buffer b) \<and> sb_address (bc_buffer b) \<le> bc_address b \<and>
        (bc_length ?f \<le> bc_address b - sb_address (bc_buffer b) \<longrightarrow>
          mem_bytes m (bc_address b - bc_length ?f) (bc_length ?f) = bc_bytes m ?f)"
        using assms(3) l True ad(3,4) by (simp add: acc_pool_ok_def acc_list_def Let_def bc_bytes_def)
    qed
    moreover have "chunks_bytes m (?f # ys) = drop n (chunks_bytes m (x # ys))"
      using True ad(5)[of m] n by (simp add: bc_bytes_def)
    ultimately show ?thesis by simp
  next
    case False
    then have one: "ys = []" "bc_length x = 0" "n = 0"
      using assms(1) l n by (auto simp: acc_inv_def acc_list_def)
    then have "bc_length ?f = 0" by (simp add: bc_advance_def)
    moreover have "rd_front ?q = ?f" "rd_size ?q = 1"
      using lq rd_front_list[OF lq(2)] one by (simp_all add: rd_size_list del: length_rd_list)
    moreover have "\<not> rd_empty ?q" using lq by (simp add: rd_empty_list)
    ultimately have "rd_list ?q' = [] \<and> rd_wf ?q'"
      using lq one by (simp add: acc_pop_queue_def Let_def rd_pop_front_list rd_pop_front_wf)
    then show ?thesis using one by simp
  qed
  let ?q'' = "if rd_empty ?q' then rd_push_front bc_null ?q' else ?q'"
  have nf: "rd_empty ?q' \<Longrightarrow> \<not> rd_full ?q'"
    using props rd_wfD(1)[of ?q'] by (auto simp: rd_empty_def rd_full_def)
  have l'': "rd_wf ?q'' \<and> rd_list ?q'' = (if rd_empty ?q' then [bc_null] else rd_list ?q')"
    using props nf by (simp add: rd_push_front_wf rd_push_front_list rd_empty_list)
  have bn: "bc_length bc_null = 0" by (simp add: bc_null_def)
  have stream: "chunks_bytes m (rd_list ?q'') = drop n (chunks_bytes m (x # ys))"
    using props l'' bn by (auto simp: rd_empty_list)
  have sum: "(\<Sum>c\<leftarrow>rd_list ?q''. bc_length c) = ac_bytesAvailable a - n"
    using arg_cong[OF stream, of length] small by (simp only: length_chunks_bytes length_drop)
  have bytes: "sub64 (ac_bytesAvailable a) n = ac_bytesAvailable a - n"
    using small n by (simp add: size_arith)
  have pop: "ac_queue (acc_pop n a) = ?q''" "ac_bytesAvailable (acc_pop n a) = ac_bytesAvailable a - n"
    using fr by (simp_all add: acc_pop_def acc_front_def Let_def bytes)
  show ?thesis
    unfolding acc_inv_def acc_list_def acc_stream_def pop l
    using props l'' stream sum small bn by (simp add: rd_empty_list split: if_split)
qed

section \<open>require\<close>

lemma bc_bytes_cong: "(\<And>x. x \<in> bc_range c \<Longrightarrow> m x = m' x) \<Longrightarrow> bc_bytes m c = bc_bytes m' c"
  by (auto simp: bc_bytes_def bc_range_def intro!: mem_bytes_cong)

lemma chunks_bytes_cong:
  "(\<And>c x. c \<in> set xs \<Longrightarrow> x \<in> bc_range c \<Longrightarrow> m x = m' x) \<Longrightarrow> chunks_bytes m xs = chunks_bytes m' xs"
proof (induction xs)
  case (Cons c xs)
  have "bc_bytes m c = bc_bytes m' c" using Cons.prems[of c] by (intro bc_bytes_cong) auto
  moreover have "chunks_bytes m xs = chunks_bytes m' xs" using Cons.prems by (intro Cons.IH) auto
  ultimately show ?case by simp
qed simp

lemma rd_capacity_acc_copy_partial: "rd_capacity (acc_copy_partial q room) = rd_capacity q"
  by (simp add: acc_copy_partial_def Let_def)

text \<open>The bytes that the copy loop may write, and what it needs of them.\<close>

definition copy_dest :: "buffer_chunk \<Rightarrow> usize \<Rightarrow> nat set" where
  "copy_dest nb room = {bc_address nb + bc_length nb ..< bc_address nb + bc_length nb + room}"

definition copy_pre :: "buffer_chunk ring_deque \<Rightarrow> buffer_chunk \<Rightarrow> usize \<Rightarrow> bool" where
  "copy_pre q nb room \<longleftrightarrow> rd_wf q \<and> bc_address nb + bc_length nb + room < SIZE_MOD
     \<and> (\<forall>c \<in> set (rd_list q). (bc_length c = 0 \<or> chunk_ok c) \<and> copy_dest nb room \<inter> bc_range c = {})"

definition copy_post :: "buffer_chunk ring_deque \<Rightarrow> memory \<Rightarrow> buffer_chunk \<Rightarrow> usize
    \<Rightarrow> buffer_chunk ring_deque \<Rightarrow> memory \<Rightarrow> buffer_chunk \<Rightarrow> bool" where
  "copy_post q m nb room q' m' nb' \<longleftrightarrow>
     rd_wf q' \<and> rd_capacity q' = rd_capacity q
     \<and> nb' = nb\<lparr>bc_length := bc_length nb + min room (length (chunks_bytes m (rd_list q)))\<rparr>
     \<and> bc_bytes m' nb' = bc_bytes m nb @ take room (chunks_bytes m (rd_list q))
     \<and> chunks_bytes m' (rd_list q') = drop room (chunks_bytes m (rd_list q))
     \<and> (\<forall>x. x \<notin> copy_dest nb room \<longrightarrow> m' x = m x)
     \<and> (\<forall>c' \<in> set (rd_list q'). \<exists>c \<in> set (rd_list q). bc_range c' \<subseteq> bc_range c \<and> (chunk_ok c \<longrightarrow> chunk_ok c'))
     \<and> (chunks_sep (rd_list q) \<longrightarrow> chunks_sep (rd_list q'))
     \<and> length (rd_list q') \<le> length (rd_list q)
     \<and> (rd_list q \<noteq> [] \<longrightarrow> bc_length (hd (rd_list q)) \<le> room \<longrightarrow> length (rd_list q') < length (rd_list q))"

lemma copy_turn:
  assumes pre: "copy_pre q nb room" and l: "rd_list q = f # ys"
  shows "rd_front q = f" "acc_copyBytes q room = min room (bc_length f)"
    "acc_copy_grow q room nb = nb\<lparr>bc_length := bc_length nb + min room (bc_length f)\<rparr>"
    "x \<notin> {bc_address nb + bc_length nb ..< bc_address nb + bc_length nb + min room (bc_length f)}
      \<Longrightarrow> acc_copy_mem q room nb m x = m x"
    "bc_bytes (acc_copy_mem q room nb m) (acc_copy_grow q room nb)
      = bc_bytes m nb @ take room (bc_bytes m f)"
proof -
  let ?n = "min room (bc_length f)" and ?dst = "bc_address nb + bc_length nb"
  have wf: "rd_wf q" and lim: "?dst + room < SIZE_MOD" using pre by (auto simp: copy_pre_def)
  show fr: "rd_front q = f" using rd_front_list[OF wf] l by simp
  then show n: "acc_copyBytes q room = ?n" by (simp add: acc_copyBytes_def)
  have ar: "add64 (bc_length nb) ?n = bc_length nb + ?n" "add64 (bc_address nb) (bc_length nb) = ?dst"
    using lim by (simp_all add: add64_exact)
  show g: "acc_copy_grow q room nb = nb\<lparr>bc_length := bc_length nb + ?n\<rparr>"
    by (simp add: acc_copy_grow_def n ar)
  have mem: "acc_copy_mem q room nb m = memcpy ?dst (bc_address f) ?n m"
    by (simp add: acc_copy_mem_def fr n ar)
  show "x \<notin> {?dst ..< ?dst + ?n} \<Longrightarrow> acc_copy_mem q room nb m x = m x"
    by (auto simp: mem memcpy_def)
  have "mem_bytes (memcpy ?dst (bc_address f) ?n m) (bc_address nb) (bc_length nb) = bc_bytes m nb"
    unfolding bc_bytes_def by (rule mem_bytes_memcpy_other) auto
  then show "bc_bytes (acc_copy_mem q room nb m) (acc_copy_grow q room nb) = bc_bytes m nb @ take room (bc_bytes m f)"
    unfolding mem g by (simp add: bc_bytes_def mem_bytes_append mem_bytes_memcpy_dst take_mem_bytes)
qed

lemma acc_copy_props:
  "copy_pre q nb room \<Longrightarrow> acc_copy q m nb room = (q', m', nb') \<Longrightarrow> copy_post q m nb room q' m' nb'"
proof (induction q m nb room rule: acc_copy.induct)
  case (1 q m nb room)
  note pre = 1(2) and run = 1(3)
  have wf: "rd_wf q" using pre by (simp add: copy_pre_def)
  show ?case
  proof (cases "rd_list q")
    case Nil
    then have "rd_empty q" by (simp add: rd_empty_list)
    then have "q' = q" "m' = m" "nb' = nb" using run by (simp_all add: acc_copy.simps)
    with Nil wf show ?thesis by (simp add: copy_post_def)
  next
    case (Cons f ys)
    note t = copy_turn[OF pre Cons]
    let ?n = "min room (bc_length f)"
    let ?m1 = "acc_copy_mem q room nb m" and ?nb1 = "acc_copy_grow q room nb"
    have ne: "\<not> rd_empty q" using Cons by (simp add: rd_empty_list)
    have lim: "bc_address nb + bc_length nb + room < SIZE_MOD" using pre by (simp add: copy_pre_def)
    have dest: "copy_dest nb room \<inter> bc_range c = {}" if "c \<in> set (f # ys)" for c
      using pre Cons that by (auto simp: copy_pre_def)
    have ys: "chunks_bytes ?m1 ys = chunks_bytes m ys"
    proof (rule chunks_bytes_cong)
      fix c x assume "c \<in> set ys" "x \<in> bc_range c"
      with dest[of c] have "x \<notin> copy_dest nb room" by auto
      then show "?m1 x = m x" by (intro t(4)) (auto simp: copy_dest_def)
    qed
    have lenb: "length (bc_bytes m f) = bc_length f" by (simp add: bc_bytes_def)
    show ?thesis
    proof (cases "bc_length f \<le> room")
      case True
      let ?q1 = "rd_pop_front bc_null q" and ?room1 = "room - bc_length f"
      have n: "?n = bc_length f" using True by simp
      have q1: "rd_list ?q1 = ys" "rd_wf ?q1" "rd_capacity ?q1 = rd_capacity q"
        using wf ne Cons by (simp_all add: rd_pop_front_list rd_pop_front_wf)
      have room1: "sub64 room (acc_copyBytes q room) = ?room1"
        using True lim by (simp add: t(2) n sub64_exact)
      have drained: "bc_length (rd_front q) = acc_copyBytes q room" by (simp add: t(1,2) n)
      have dst1: "bc_address ?nb1 + bc_length ?nb1 + ?room1 = bc_address nb + bc_length nb + room"
        using True by (simp add: t(3) n)
      have sub: "copy_dest ?nb1 ?room1 \<subseteq> copy_dest nb room"
        using True by (auto simp: copy_dest_def t(3) n)
      have pre1: "copy_pre ?q1 ?nb1 ?room1"
        using pre q1 sub Cons dst1 by (auto simp: copy_pre_def)
      have run1: "acc_copy ?q1 ?m1 ?nb1 ?room1 = (q', m', nb')"
        using run ne drained room1 by (subst (asm) acc_copy.simps) simp
      have post: "copy_post ?q1 ?m1 ?nb1 ?room1 q' m' nb'"
        using 1(1)[OF ne drained] pre1 run1 by (simp only: room1)
      have dr: "drop room (bc_bytes m f @ zs) = drop ?room1 zs" for zs
        using True lenb by simp
      have tk: "take room (bc_bytes m f @ zs) = bc_bytes m f @ take ?room1 zs" for zs
        using True lenb by simp
      have outside: "\<forall>x. x \<notin> copy_dest nb room \<longrightarrow> m' x = m x"
      proof (intro allI impI)
        fix x assume x: "x \<notin> copy_dest nb room"
        with sub post have "m' x = ?m1 x" by (auto simp: copy_post_def)
        also have "\<dots> = m x" using x True by (intro t(4)) (auto simp: copy_dest_def n)
        finally show "m' x = m x" .
      qed
      have len: "min room (length (chunks_bytes m (rd_list q))) = bc_length f + min ?room1 (length (chunks_bytes m ys))"
        using True Cons lenb by simp
      show ?thesis
        unfolding copy_post_def
      proof (intro conjI)
        show "nb' = nb\<lparr>bc_length := bc_length nb + min room (length (chunks_bytes m (rd_list q)))\<rparr>"
          using post q1 ys unfolding len by (simp add: copy_post_def t(3) n add.assoc)
        show "bc_bytes m' nb' = bc_bytes m nb @ take room (chunks_bytes m (rd_list q))"
        proof -
          have "bc_bytes m' nb' = bc_bytes ?m1 ?nb1 @ take ?room1 (chunks_bytes ?m1 (rd_list ?q1))"
            using post unfolding copy_post_def by blast
          then show ?thesis using q1 ys t(5)[of m] Cons tk True lenb by simp
        qed
        show "chunks_bytes m' (rd_list q') = drop room (chunks_bytes m (rd_list q))"
          using post q1 ys Cons dr by (simp add: copy_post_def)
        show "chunks_sep (rd_list q) \<longrightarrow> chunks_sep (rd_list q')"
          using post q1 Cons chunks_sep_tl[of "rd_list q"] by (auto simp: copy_post_def)
        show "length (rd_list q') \<le> length (rd_list q)"
          using post q1(1) Cons unfolding copy_post_def by (metis le_SucI length_Cons)
        show "rd_list q \<noteq> [] \<longrightarrow> bc_length (hd (rd_list q)) \<le> room \<longrightarrow> length (rd_list q') < length (rd_list q)"
          using post q1(1) Cons unfolding copy_post_def by (metis less_Suc_eq_le length_Cons)
        show "\<forall>c' \<in> set (rd_list q'). \<exists>c \<in> set (rd_list q). bc_range c' \<subseteq> bc_range c \<and> (chunk_ok c \<longrightarrow> chunk_ok c')"
          using post q1(1) Cons unfolding copy_post_def by auto
      qed (use post q1 outside in \<open>auto simp: copy_post_def\<close>)
    next
      case False
      then have n: "?n = room" by simp
      have fok: "chunk_ok f" using pre Cons False by (auto simp: copy_pre_def)
      note ad = bc_advance_ok[OF fok, of room]
      have notdr: "bc_length (rd_front q) \<noteq> acc_copyBytes q room" using False by (simp add: t(1,2))
      have res: "q' = acc_copy_partial q room" "m' = ?m1" "nb' = ?nb1"
        using run ne notdr by (simp_all add: acc_copy.simps)
      have pos: "0 < rd_numElements q" using arg_cong[OF Cons, of length] by simp
      have q': "rd_list q' = bc_advance room f # ys" "rd_wf q'" "rd_capacity q' = rd_capacity q"
        using wf pos Cons by (simp_all add: res acc_copy_partial_def Let_def t(1,2) n rd_set_at_list)
      have fb: "bc_bytes ?m1 (bc_advance room f) = drop room (bc_bytes m f)"
      proof -
        have "bc_bytes ?m1 f = bc_bytes m f"
        proof (rule bc_bytes_cong)
          fix x assume "x \<in> bc_range f"
          with dest[of f] have "x \<notin> copy_dest nb room" by auto
          then show "?m1 x = m x" by (intro t(4)) (auto simp: copy_dest_def n)
        qed
        with ad(5)[of ?m1] False show ?thesis by simp
      qed
      have range: "bc_range (bc_advance room f) \<subseteq> bc_range f"
        using ad False by (auto simp: bc_range_def)
      show ?thesis
        unfolding copy_post_def
      proof (intro conjI)
        show "nb' = nb\<lparr>bc_length := bc_length nb + min room (length (chunks_bytes m (rd_list q)))\<rparr>"
          using res t(3) n False Cons lenb by simp
        show "bc_bytes m' nb' = bc_bytes m nb @ take room (chunks_bytes m (rd_list q))"
          using res t(5)[of m] Cons False lenb by simp
        show "chunks_bytes m' (rd_list q') = drop room (chunks_bytes m (rd_list q))"
          using res q' fb ys Cons False lenb by simp
        show "chunks_sep (rd_list q) \<longrightarrow> chunks_sep (rd_list q')"
          using q'(1) Cons ad(2) False chunks_sep_head[of "bc_advance room f" f ys] by simp
        show "length (rd_list q') \<le> length (rd_list q)" unfolding q'(1) Cons by simp
        show "rd_list q \<noteq> [] \<longrightarrow> bc_length (hd (rd_list q)) \<le> room \<longrightarrow> length (rd_list q') < length (rd_list q)"
          using False by (simp add: Cons)
        show "\<forall>x. x \<notin> copy_dest nb room \<longrightarrow> m' x = m x"
          using t(4)[of _ m] n by (simp add: res copy_dest_def)
        show "\<forall>c' \<in> set (rd_list q'). \<exists>c \<in> set (rd_list q). bc_range c' \<subseteq> bc_range c \<and> (chunk_ok c \<longrightarrow> chunk_ok c')"
          using range ad(1) False unfolding q'(1) Cons by auto
      qed (use q' in auto)
    qed
  qed
qed

text \<open>
  Buffers of different containers do not overlap, and are not even adjacent (the allocator puts the
  header of a block between two blocks).
\<close>

definition chunk_apart :: "buffer_chunk \<Rightarrow> buffer_chunk \<Rightarrow> bool" where
  "chunk_apart p c \<longleftrightarrow> {bc_address p .. bc_address p + bc_length p} \<inter> bc_range c = {}"

definition acc_pool_inv :: "accumulator \<Rightarrow> bool" where
  "acc_pool_inv a \<longleftrightarrow> (\<forall>b \<in> set (hp_buffs (ac_pool a)).
     bc_length b = hp_minBuffSize (ac_pool a) \<and> chunk_ok b \<and> sb_container (bc_buffer b) \<noteq> None \<and>
     (\<forall>c \<in> set (acc_list a). sb_container (bc_buffer b) \<noteq> sb_container (bc_buffer c) \<longrightarrow> chunk_apart b c))"

text \<open>The allocator gives the pool a block of the length asked for that is apart from the queue.\<close>

definition acc_alloc_ok :: "(usize \<Rightarrow> shared_buffer) \<Rightarrow> usize \<Rightarrow> accumulator \<Rightarrow> bool" where
  "acc_alloc_ok mk numBytes a \<longleftrightarrow>
     (let b = bc_of_shared (mk (max (hp_minBuffSize (ac_pool a)) numBytes)) in
      bc_length b = max (hp_minBuffSize (ac_pool a)) numBytes \<and> chunk_ok b \<and> (\<forall>c \<in> set (acc_list a). chunk_apart b c))"

lemma hp_get_cases:
  assumes "hp_get refs mk n p0 = (b, p)"
  shows "(b \<in> set (hp_buffs p0) \<and> n \<le> hp_minBuffSize p0 \<and> p = p0 \<and> sb_unique (refs (hp_buffs p0)) (bc_buffer b))
    \<or> b = bc_of_shared (mk (max (hp_minBuffSize p0) n))"
proof (cases "n > hp_minBuffSize p0")
  case True
  then show ?thesis using assms by (simp add: hp_get_def Let_def)
next
  case False
  then show ?thesis using assms
    by (auto simp: hp_get_def Let_def find_Some_iff max_def split: option.splits)
qed

lemma rd_list_subset_container: "rd_wf q \<Longrightarrow> set (rd_list q) \<subseteq> set (rd_container q)"
  using rd_wfD(1) by (fastforce simp: rd_list_def rd_at_def)

lemma count_list_pos: "x \<in> set xs \<Longrightarrow> 0 < count_list xs x"
  by (induction xs) auto

lemma unique_not_in_queue:
  assumes "rd_wf q" "b \<in> set bs" "sb_unique (acc_refs ext q bs) (bc_buffer b)" "sb_container (bc_buffer b) \<noteq> None"
    "c \<in> set (rd_list q)"
  shows "sb_container (bc_buffer b) \<noteq> sb_container (bc_buffer c)"
proof
  assume eq: "sb_container (bc_buffer b) = sb_container (bc_buffer c)"
  obtain k where k: "sb_container (bc_buffer b) = Some k" using assms(4) by auto
  have "Some k \<in> set (map (\<lambda>b. sb_container (bc_buffer b)) bs)" using assms(2) k by force
  then have "0 < count_list (map (\<lambda>b. sb_container (bc_buffer b)) bs) (Some k)" by (rule count_list_pos)
  moreover have "Some k \<in> set (map (\<lambda>b. sb_container (bc_buffer b)) (rd_container q))"
    using assms(1,5) k eq rd_list_subset_container by force
  then have "0 < count_list (map (\<lambda>b. sb_container (bc_buffer b)) (rd_container q)) (Some k)" by (rule count_list_pos)
  moreover have "acc_refs ext q bs k = 1" using assms(3) k by (simp add: sb_unique_def sb_useCount_def)
  ultimately show False by (simp add: acc_refs_def)
qed

lemma acc_require_copy_pre:
  assumes inv: "acc_inv a" and pool: "acc_pool_inv a" and alloc: "acc_alloc_ok mk n a"
    and get: "hp_get (acc_refs ext (ac_queue a)) mk n (ac_pool a) = (b, p)"
  shows "n \<le> bc_length b" "chunk_ok b" "\<forall>c \<in> set (acc_list a). chunk_apart b c"
    "copy_pre (ac_queue a) (b\<lparr>bc_dtype := dt, bc_length := 0\<rparr>) (bc_length b)"
proof -
  have wf: "rd_wf (ac_queue a)" using inv by (simp add: acc_inv_def)
  have all: "n \<le> bc_length b \<and> chunk_ok b \<and> (\<forall>c \<in> set (acc_list a). chunk_apart b c)"
    using hp_get_cases[OF get]
  proof
    assume h: "b \<in> set (hp_buffs (ac_pool a)) \<and> n \<le> hp_minBuffSize (ac_pool a) \<and> p = ac_pool a
      \<and> sb_unique (acc_refs ext (ac_queue a) (hp_buffs (ac_pool a))) (bc_buffer b)"
    then have b: "bc_length b = hp_minBuffSize (ac_pool a)" "chunk_ok b" "sb_container (bc_buffer b) \<noteq> None"
      "\<forall>c \<in> set (acc_list a). sb_container (bc_buffer b) \<noteq> sb_container (bc_buffer c) \<longrightarrow> chunk_apart b c"
      using pool by (auto simp: acc_pool_inv_def)
    then show ?thesis
      using h unique_not_in_queue[OF wf _ _ b(3)] by (auto simp: acc_list_def)
  next
    assume "b = bc_of_shared (mk (max (hp_minBuffSize (ac_pool a)) n))"
    then show ?thesis using alloc by (simp add: acc_alloc_ok_def Let_def)
  qed
  then show "n \<le> bc_length b" "chunk_ok b" "\<forall>c \<in> set (acc_list a). chunk_apart b c" by auto
  have len: "bc_length c = 0 \<or> chunk_ok c" if "c \<in> set (acc_list a)" for c
    using inv that by (auto simp: acc_inv_def)
  have "copy_dest (b\<lparr>bc_dtype := dt, bc_length := 0\<rparr>) (bc_length b) \<inter> bc_range c = {}"
    if "c \<in> set (acc_list a)" for c
  proof -
    have "{bc_address b .. bc_address b + bc_length b} \<inter> bc_range c = {}"
      using all that by (simp add: chunk_apart_def)
    moreover have "copy_dest (b\<lparr>bc_dtype := dt, bc_length := 0\<rparr>) (bc_length b)
        \<subseteq> {bc_address b .. bc_address b + bc_length b}" by (auto simp: copy_dest_def)
    ultimately show ?thesis by blast
  qed
  with all wf len show "copy_pre (ac_queue a) (b\<lparr>bc_dtype := dt, bc_length := 0\<rparr>) (bc_length b)"
    by (auto simp: copy_pre_def chunk_ok_def acc_list_def)
qed

text \<open>\<open>require\<close> on one accumulator and memory.\<close>

lemma acc_require_props:
  assumes inv: "acc_inv a" and pool: "acc_pool_inv a" and alloc: "acc_alloc_ok mk n a"
    and run: "acc_require ext mk n (a, m) = (a', m')"
  shows "acc_inv a' \<and> acc_stream m' a' = acc_stream m a \<and> ac_bytesAvailable a' = ac_bytesAvailable a
    \<and> (n \<le> ac_bytesAvailable a \<longrightarrow> n \<le> bc_length (acc_front a'))
    \<and> (m' = m \<or> (\<exists>b. (b \<in> set (hp_buffs (ac_pool a)) \<and>
            sb_unique (acc_refs ext (ac_queue a) (hp_buffs (ac_pool a))) (bc_buffer b)
          \<or> b = bc_of_shared (mk (max (hp_minBuffSize (ac_pool a)) n)))
        \<and> (\<forall>x. x \<notin> bc_range b \<longrightarrow> m' x = m x)))"
proof (cases "bc_length (acc_front a) \<ge> n \<or> (ac_bytesAvailable a < n \<and> n \<le> sb_length (bc_buffer (acc_front a)))")
  case True
  then have "a' = a" "m' = m" using run by (auto simp: acc_require_def acc_front_def Let_def split: if_splits)
  with True inv show ?thesis by auto
next
  case False
  let ?q = "ac_queue a"
  obtain b p where get: "hp_get (acc_refs ext ?q) mk n (ac_pool a) = (b, p)" by fastforce
  let ?nb = "b\<lparr>bc_dtype := bc_dtype (rd_front ?q), bc_length := 0\<rparr>"
  obtain q' m1 nb' where cp: "acc_copy ?q m ?nb (bc_length b) = (q', m1, nb')" by (metis prod.exhaust)
  have res: "a' = a\<lparr>ac_queue := rd_push_front nb' q', ac_inPoolBuffer := True, ac_pool := p\<rparr>" "m' = m1"
    using run False get cp by (auto simp: acc_require_def acc_front_def Let_def)
  note pre = acc_require_copy_pre[OF inv pool alloc get]
  note post = acc_copy_props[OF pre(4) cp, unfolded copy_post_def]
  have wf: "rd_wf ?q" and ne: "rd_list ?q \<noteq> []" and small: "ac_bytesAvailable a < SIZE_MOD"
    and sep: "chunks_sep (rd_list ?q)"
    and ok: "(\<exists>c. rd_list ?q = [c] \<and> bc_length c = 0) \<or> (\<forall>c \<in> set (rd_list ?q). chunk_ok c)"
    using inv by (auto simp: acc_inv_def acc_list_def)
  have total: "length (chunks_bytes m (rd_list ?q)) = ac_bytesAvailable a"
    using inv by (simp add: acc_inv_def acc_list_def length_chunks_bytes)
  have fr: "acc_front a = hd (rd_list ?q)" using rd_front_list[OF wf ne] by (simp add: acc_front_def)
  have drained: "length (rd_list q') < length (rd_list ?q)"
    using post ne False pre(1) fr by auto
  have nf: "\<not> rd_full q'"
  proof -
    have "length (rd_list ?q) \<le> rd_capacity ?q" using rd_wfD(3)[OF wf] by (simp add: rd_capacity_def)
    with drained post show ?thesis by (auto simp: rd_full_list)
  qed
  have l': "rd_list (ac_queue a') = nb' # rd_list q'" "rd_wf (ac_queue a')"
    using post nf by (simp_all add: res rd_push_front_list rd_push_front_wf)
  have nb': "nb' = ?nb\<lparr>bc_length := min (bc_length b) (ac_bytesAvailable a)\<rparr>" using post total by simp
  have nb'ok: "chunk_ok nb'" using pre(2) by (auto simp: nb' chunk_ok_def)
  have rest_ok: "\<forall>c \<in> set (rd_list q'). chunk_ok c"
    using ok
  proof
    assume "\<exists>c. rd_list ?q = [c] \<and> bc_length c = 0"
    then have "length (rd_list ?q) = 1" by (auto simp del: length_rd_list)
    then have "rd_list q' = []" using drained by (simp del: length_rd_list)
    then show ?thesis by simp
  next
    assume "\<forall>c \<in> set (rd_list ?q). chunk_ok c"
    with post show ?thesis by blast
  qed
  have "bc_bytes m1 nb' = bc_bytes m ?nb @ take (bc_length b) (chunks_bytes m (rd_list ?q))"
    and "chunks_bytes m1 (rd_list q') = drop (bc_length b) (chunks_bytes m (rd_list ?q))"
    using post by blast+
  then have stream: "chunks_bytes m' (nb' # rd_list q') = chunks_bytes m (rd_list ?q)"
    by (simp add: res(2))
  have sep': "chunks_sep (nb' # rd_list q')"
  proof (cases "rd_list q'")
    case (Cons h t)
    have "bc_length h = 0" if e: "bc_getEnd nb' = bc_address h"
    proof (rule ccontr)
      assume h: "bc_length h \<noteq> 0"
      have "h \<in> set (rd_list q')" using Cons by simp
      with post obtain c where c: "c \<in> set (rd_list ?q)" "bc_range h \<subseteq> bc_range c" by blast
      have "bc_address h \<in> bc_range c" using c(2) h by (auto simp: bc_range_def)
      moreover have "bc_address h \<in> {bc_address b .. bc_address b + bc_length b}"
        using e nb'ok by (auto simp: nb')
      moreover have "{bc_address b .. bc_address b + bc_length b} \<inter> bc_range c = {}"
        using pre(3) c(1) by (simp add: chunk_apart_def acc_list_def)
      ultimately show False by blast
    qed
    with post sep Cons show ?thesis by auto
  qed simp
  have sum: "ac_bytesAvailable a = (\<Sum>c\<leftarrow>nb' # rd_list q'. bc_length c)"
    using arg_cong[OF stream, of length] total by (simp only: length_chunks_bytes)
  have fr': "acc_front a' = nb'"
    using rd_front_list[OF l'(2)] l'(1) by (simp add: acc_front_def)
  have wr: "\<forall>x. x \<notin> bc_range b \<longrightarrow> m' x = m x"
    using post by (simp add: res(2) copy_dest_def bc_range_def)
  show ?thesis
  proof (intro conjI)
    show "acc_inv a'"
      using l' nb'ok rest_ok sep' sum small by (simp add: acc_inv_def acc_list_def res(1))
    show "acc_stream m' a' = acc_stream m a" using stream l' by (simp add: acc_stream_def acc_list_def)
    show "ac_bytesAvailable a' = ac_bytesAvailable a" by (simp add: res)
    show "n \<le> ac_bytesAvailable a \<longrightarrow> n \<le> bc_length (acc_front a')" using pre(1) by (simp add: fr' nb')
    show "m' = m \<or> (\<exists>b. (b \<in> set (hp_buffs (ac_pool a)) \<and>
            sb_unique (acc_refs ext (ac_queue a) (hp_buffs (ac_pool a))) (bc_buffer b)
          \<or> b = bc_of_shared (mk (max (hp_minBuffSize (ac_pool a)) n)))
        \<and> (\<forall>x. x \<notin> bc_range b \<longrightarrow> m' x = m x))"
      using hp_get_cases[OF get] wr by blast
  qed
qed

section \<open>Chunks that continue the stream\<close>

text \<open>
  The step back of \<open>pop\<close> tests how far the next chunk is into its buffer. It is right if the bytes before a chunk in
  its buffer, as far as there are that many, are the last bytes of the stream before the chunk. Producers that push the
  pieces of a buffer in order give such chunks, and all operations keep this for the chunks behind the front.
\<close>

definition backed :: "memory \<Rightarrow> byte list \<Rightarrow> buffer_chunk \<Rightarrow> bool" where
  "backed m pre c \<longleftrightarrow> (let base = sb_address (bc_buffer c) in
     0 < base \<and> base \<le> bc_address c \<and>
     (\<forall>j < length pre. base + j < bc_address c \<longrightarrow> m (bc_address c - Suc j) = rev pre ! j))"

fun chunks_backed :: "memory \<Rightarrow> byte list \<Rightarrow> buffer_chunk list \<Rightarrow> bool" where
  "chunks_backed m pre [] = True"
| "chunks_backed m pre (c # cs) = (backed m pre c \<and> chunks_backed m (pre @ bc_bytes m c) cs)"

fun queue_backed :: "memory \<Rightarrow> buffer_chunk list \<Rightarrow> bool" where
  "queue_backed m [] = True"
| "queue_backed m (f # cs) = chunks_backed m (bc_bytes m f) cs"

definition acc_backed :: "memory \<Rightarrow> accumulator \<Rightarrow> bool" where
  "acc_backed m a = queue_backed m (acc_list a)"

text \<open>The part of its buffer that a chunk has reached.\<close>

definition bc_extent :: "buffer_chunk \<Rightarrow> nat set" where
  "bc_extent c = {sb_address (bc_buffer c) ..< bc_address c} \<union> bc_range c"

lemma backed_first: "0 < sb_address (bc_buffer c) \<Longrightarrow> bc_address c = sb_address (bc_buffer c) \<Longrightarrow> backed m pre c"
  by (simp add: backed_def)

lemma backed_drop: "backed m pre c \<Longrightarrow> backed m (drop n pre) c"
  by (auto simp: backed_def Let_def rev_drop)

lemma backed_like: "backed m pre c \<Longrightarrow> bc_address c' = bc_address c \<Longrightarrow> bc_buffer c' = bc_buffer c \<Longrightarrow> backed m pre c'"
  by (simp add: backed_def)

lemma backed_iff:
  "backed m pre c \<longleftrightarrow> 0 < sb_address (bc_buffer c) \<and> sb_address (bc_buffer c) \<le> bc_address c \<and>
     (\<forall>j < length pre. sb_address (bc_buffer c) + j < bc_address c \<longrightarrow> m (bc_address c - Suc j) = rev pre ! j)"
  by (simp add: backed_def Let_def)

lemma backed_moved:
  assumes "backed m pre c" "n \<le> bc_length c" "bc_address c' = bc_address c + n" "bc_buffer c' = bc_buffer c"
  shows "backed m (pre @ take n (bc_bytes m c)) c'"
proof -
  let ?base = "sb_address (bc_buffer c)" and ?t = "take n (bc_bytes m c)"
  have b: "0 < ?base" "?base \<le> bc_address c"
    and bk: "\<And>j. j < length pre \<Longrightarrow> ?base + j < bc_address c \<Longrightarrow> m (bc_address c - Suc j) = rev pre ! j"
    using assms(1) by (auto simp: backed_iff)
  have len: "length ?t = n" using assms(2) by (simp add: bc_bytes_def)
  have new: "m (bc_address c + n - Suc j) = rev (pre @ ?t) ! j"
    if j: "j < length pre + n" "?base + j < bc_address c + n" for j
  proof (cases "j < n")
    case True
    then have "rev ?t ! j = m (bc_address c + (n - Suc j))"
      using assms(2) len by (simp add: rev_nth bc_bytes_def)
    then show ?thesis using True len by (simp add: nth_append)
  next
    case False
    have "j - n < length pre" "?base + (j - n) < bc_address c" using j False by linarith+
    from bk[OF this] have "m (bc_address c - Suc (j - n)) = rev pre ! (j - n)" .
    moreover have "bc_address c + n - Suc j = bc_address c - Suc (j - n)" using False by linarith
    moreover have "rev (pre @ ?t) ! j = rev pre ! (j - n)" using False len by (simp add: nth_append)
    ultimately show ?thesis by simp
  qed
  show ?thesis unfolding backed_iff assms(3,4) length_append len using b new by auto
qed

lemma backed_step_back:
  assumes "backed m pre c" "length pre \<le> bc_address c - sb_address (bc_buffer c)"
  shows "mem_bytes m (bc_address c - length pre) (length pre) = pre"
proof (rule nth_equalityI)
  fix i assume "i < length (mem_bytes m (bc_address c - length pre) (length pre))"
  then have i: "i < length pre" by simp
  let ?j = "length pre - Suc i"
  have "0 < sb_address (bc_buffer c)" "\<forall>j < length pre. sb_address (bc_buffer c) + j < bc_address c \<longrightarrow> m (bc_address c - Suc j) = rev pre ! j"
    using assms(1) by (simp_all add: backed_def Let_def)
  moreover have "?j < length pre" "sb_address (bc_buffer c) + ?j < bc_address c" using i assms(2) by linarith+
  ultimately have "m (bc_address c - Suc ?j) = rev pre ! ?j" by blast
  moreover have "bc_address c - Suc (length pre - Suc i) = bc_address c - length pre + i" using assms(2) i by linarith
  ultimately show "mem_bytes m (bc_address c - length pre) (length pre) ! i = pre ! i" using i by (simp add: rev_nth)
qed simp

lemma backed_mem:
  assumes "backed m pre c" "\<And>x. x \<in> bc_extent c \<Longrightarrow> m' x = m x"
  shows "backed m' pre c"
proof -
  have "m' (bc_address c - Suc j) = m (bc_address c - Suc j)" if "sb_address (bc_buffer c) + j < bc_address c" for j
    using that by (intro assms(2)) (auto simp: bc_extent_def)
  then show ?thesis using assms(1) by (simp add: backed_def Let_def)
qed

lemma chunks_backed_append [simp]:
  "chunks_backed m pre (xs @ ys) \<longleftrightarrow> chunks_backed m pre xs \<and> chunks_backed m (pre @ chunks_bytes m xs) ys"
  by (induction xs arbitrary: pre) simp_all

lemma queue_backed_append:
  "xs \<noteq> [] \<Longrightarrow> queue_backed m (xs @ ys) \<longleftrightarrow> queue_backed m xs \<and> chunks_backed m (chunks_bytes m xs) ys"
  by (cases xs) simp_all

lemma chunks_backed_drop: "chunks_backed m pre xs \<Longrightarrow> chunks_backed m (drop n pre) xs"
proof (induction xs arbitrary: pre n)
  case (Cons c xs)
  have "chunks_backed m (drop (min n (length pre)) (pre @ bc_bytes m c)) xs" using Cons.prems by (intro Cons.IH) simp
  moreover have "drop (min n (length pre)) (pre @ bc_bytes m c) = drop n pre @ bc_bytes m c" by (simp add: min_def)
  ultimately have "chunks_backed m (drop n pre @ bc_bytes m c) xs" by (simp only:)
  then show ?case using Cons.prems backed_drop by simp
qed simp

lemma extent_bytes: "(\<And>x. x \<in> bc_extent c \<Longrightarrow> m' x = m x) \<Longrightarrow> bc_bytes m' c = bc_bytes m c"
  by (rule bc_bytes_cong) (simp add: bc_extent_def)

lemma chunks_backed_mem:
  "chunks_backed m pre xs \<Longrightarrow> \<forall>c \<in> set xs. \<forall>x \<in> bc_extent c. m' x = m x \<Longrightarrow> chunks_backed m' pre xs"
proof (induction xs arbitrary: pre)
  case (Cons c xs)
  have "bc_bytes m' c = bc_bytes m c" using Cons.prems(2) by (intro extent_bytes) simp
  moreover have "backed m' pre c" using Cons.prems by (intro backed_mem[of m pre c m']) simp_all
  moreover have "chunks_backed m' (pre @ bc_bytes m c) xs" using Cons.prems by (intro Cons.IH) simp_all
  ultimately show ?case by simp
qed simp

lemma queue_backed_mem:
  assumes "queue_backed m xs" "\<forall>c \<in> set xs. \<forall>x \<in> bc_extent c. m' x = m x"
  shows "queue_backed m' xs"
proof (cases xs)
  case (Cons f cs)
  have "bc_bytes m' f = bc_bytes m f" using assms(2) Cons by (intro extent_bytes) simp
  moreover have "chunks_backed m' (bc_bytes m f) cs" using Cons assms by (intro chunks_backed_mem[of m _ cs m']) simp_all
  ultimately show ?thesis using Cons by simp
qed simp

subsection \<open>push\<close>

lemma merge_step_backed:
  assumes i: "Suc i < length xs" and ok: "\<forall>c \<in> set xs. chunk_ok c" and c: "acc_contig (xs ! Suc i) (xs ! i)" and b: "queue_backed m xs"
  defines "xs' \<equiv> xs[i := (xs ! i)\<lparr>bc_length := add64 (bc_length (xs ! i)) (bc_length (xs ! Suc i))\<rparr>,
    Suc i := (xs ! Suc i)\<lparr>bc_address := add64 (bc_address (xs ! Suc i)) (bc_length (xs ! Suc i)), bc_length := 0\<rparr>]"
  shows "queue_backed m xs'"
proof -
  let ?f = "xs ! i" and ?b = "xs ! Suc i" and ?p = "take i xs" and ?zs = "drop (Suc (Suc i)) xs"
  let ?f' = "?f\<lparr>bc_length := add64 (bc_length ?f) (bc_length ?b)\<rparr>"
  let ?b' = "?b\<lparr>bc_address := add64 (bc_address ?b) (bc_length ?b), bc_length := 0\<rparr>"
  have fb: "chunk_ok ?f" "chunk_ok ?b" using ok i by auto
  then have eq: "bc_address ?b = bc_address ?f + bc_length ?f" using c chunk_ok_contig by blast
  have add: "add64 (bc_length ?f) (bc_length ?b) = bc_length ?f + bc_length ?b"
    "add64 (bc_address ?b) (bc_length ?b) = bc_address ?b + bc_length ?b"
    using fb eq by (simp_all add: chunk_ok_def add64_exact)
  have xs': "xs' = ?p @ ?f' # ?b' # ?zs" unfolding xs'_def using list_update2[OF i] .
  have bytes: "bc_bytes m ?f' = bc_bytes m ?f @ bc_bytes m ?b" "bc_bytes m ?b' = []"
    by (simp_all add: bc_bytes_def mem_bytes_append eq add)
  have old: "queue_backed m (?p @ ?f # ?b # ?zs)" using b list_split2[OF i] by metis
  have moved: "backed m (pre @ bc_bytes m ?b) ?b'" if "backed m pre ?b" for pre
    using backed_moved[OF that, of "bc_length ?b" ?b'] by (simp add: add bc_bytes_def)
  show ?thesis
  proof (cases "?p = []")
    case True
    show ?thesis using old moved[of "bc_bytes m ?f"] bytes unfolding xs' True by simp
  next
    case False
    let ?pre = "chunks_bytes m ?p"
    have "queue_backed m ?p" "backed m ?pre ?f" "backed m (?pre @ bc_bytes m ?f) ?b"
      "chunks_backed m (?pre @ bc_bytes m ?f @ bc_bytes m ?b) ?zs"
      using old by (simp_all add: queue_backed_append[OF False])
    then show ?thesis
      using moved[of "?pre @ bc_bytes m ?f"] backed_like[of m ?pre ?f ?f'] bytes
      by (simp add: xs' queue_backed_append[OF False])
  qed
qed

lemma merge_list_backed:
  "i < length xs \<Longrightarrow> \<forall>c \<in> set xs. chunk_ok c \<Longrightarrow> queue_backed m xs \<Longrightarrow> queue_backed m (merge_list i xs)"
proof (induction i arbitrary: xs)
  case (Suc i)
  show ?case
  proof (cases "acc_contig (xs ! Suc i) (xs ! i)")
    case True
    then show ?thesis
      using Suc.IH merge_step(2,4)[OF Suc.prems(1,2) True] merge_step_backed[OF Suc.prems(1,2) True Suc.prems(3)] Suc.prems(1)
      by (simp add: Let_def)
  qed (use Suc.prems in \<open>simp add: Let_def\<close>)
qed simp

lemma length_merge_list [simp]: "length (merge_list i xs) = length xs"
  by (induction i arbitrary: xs) (simp_all add: Let_def)

lemma queue_backed_butlast: "queue_backed m xs \<Longrightarrow> queue_backed m (butlast xs)"
proof (cases "butlast xs = []")
  case False
  assume "queue_backed m xs"
  moreover have "xs = butlast xs @ [last xs]" using False by (metis append_butlast_last_id butlast.simps(1))
  ultimately show ?thesis using queue_backed_append[OF False] by metis
qed simp

lemma acc_amalgamate_backed:
  assumes wf: "rd_wf q" and ok: "\<forall>c \<in> set (rd_list q). chunk_ok c" and b: "queue_backed m (rd_list q)"
  shows "queue_backed m (rd_list (acc_amalgamate q))"
proof (cases "rd_size q < 2")
  case True
  then show ?thesis using b by (simp add: acc_amalgamate_def)
next
  case False
  let ?k = "rd_size q - 1"
  let ?qm = "acc_merge ?k q"
  have k: "?k < rd_numElements q" "?k < length (rd_list q)" using False by (simp_all add: rd_size_def)
  have m: "rd_wf ?qm" "queue_backed m (rd_list ?qm)"
    using acc_merge_list[OF wf k(1)] merge_list_backed[OF k(2) ok b] by auto
  have "queue_backed m (rd_list (rd_pop_back bc_null ?qm))" if "\<not> rd_empty ?qm"
    using queue_backed_butlast[OF m(2)] m(1) that by (simp add: rd_pop_back_list)
  moreover have "\<not> rd_empty ?qm"
    using arg_cong[OF conjunct2[OF acc_merge_list[OF wf k(1)]], of length] k(2) by (auto simp: rd_empty_list simp del: length_rd_list)
  ultimately show ?thesis using m(2) False by (simp add: acc_amalgamate_def Let_def)
qed

lemma acc_push_backed:
  assumes inv: "acc_inv a" and "chunk_ok c" "2 * length (acc_list a) < SIZE_MOD" "acc_backed m a" "backed m (acc_stream m a) c"
  shows "acc_backed m (acc_push c a)"
proof -
  let ?q1 = "acc_drop_dummy (ac_queue a)" and ?q3 = "rd_push_grow bc_null c (acc_drop_dummy (ac_queue a))"
  note d = acc_drop_dummy_props[OF inv]
  have l3: "rd_list ?q3 = rd_list ?q1 @ [c]" "rd_wf ?q3"
    using d(1,6) assms(3) by (simp_all add: rd_push_grow_list rd_push_grow_wf del: length_rd_list)
  have ok3: "\<forall>x \<in> set (rd_list ?q3). chunk_ok x" using d(2) assms(2) l3 by auto
  have wf: "rd_wf (ac_queue a)" and ne: "rd_list (ac_queue a) \<noteq> []" using inv by (auto simp: acc_inv_def acc_list_def)
  obtain x xs where xs: "rd_list (ac_queue a) = x # xs" using ne by (cases "rd_list (ac_queue a)") auto
  have q1: "rd_list ?q1 = (if bc_length x = 0 then xs else x # xs)"
    unfolding acc_drop_dummy_def using wf ne rd_front_list[OF wf ne] xs by (simp add: rd_pop_front_list rd_empty_list)
  have old: "chunks_backed m (bc_bytes m x) xs" using assms(4) xs by (simp add: acc_backed_def acc_list_def)
  have "queue_backed m (rd_list ?q1)"
    using old q1 by (cases xs) (auto simp: bc_bytes_def)
  moreover have "chunks_backed m (chunks_bytes m (rd_list ?q1)) [c]" using assms(5) d(4)[of m] by simp
  ultimately have "queue_backed m (rd_list ?q1 @ [c])"
    by (cases "rd_list ?q1 = []") (simp_all add: queue_backed_append)
  then have "queue_backed m (rd_list (acc_amalgamate ?q3))"
    using l3 by (intro acc_amalgamate_backed[OF l3(2) ok3]) simp
  then show ?thesis by (simp add: acc_backed_def acc_list_def acc_push_eq)
qed

subsection \<open>pop\<close>

lemma acc_pool_backed:
  assumes "acc_backed m a" "n \<le> bc_length (acc_front a)" "acc_inv a"
  shows "acc_pool_ok m a n"
proof (cases "1 < length (acc_list a)")
  case True
  then obtain f b zs where l: "acc_list a = f # b # zs"
    by (cases "acc_list a"; cases "tl (acc_list a)") auto
  have "acc_front a = f"
    using assms(3) l rd_front_list[of "ac_queue a"] by (simp add: acc_inv_def acc_front_def acc_list_def)
  then have n: "n \<le> bc_length f" using assms(2) by simp
  have b: "backed m (drop n (bc_bytes m f)) b" using assms(1) l backed_drop by (simp add: acc_backed_def)
  have len: "length (drop n (bc_bytes m f)) = bc_length f - n" by (simp add: bc_bytes_def)
  have "drop n (bc_bytes m f) = mem_bytes m (bc_address f + n) (bc_length f - n)" by (simp add: bc_bytes_def drop_mem_bytes)
  then show ?thesis
    using backed_step_back[OF b] b unfolding len by (simp add: acc_pool_ok_def l Let_def backed_def)
qed (simp add: acc_pool_ok_def)

lemma acc_pop_queue_shape:
  assumes wf: "rd_wf q" and l: "rd_list q = f # ys"
  shows "rd_list (acc_pop_queue inPool q) = f # ys
    \<or> bc_length f = 0 \<and> rd_list (acc_pop_queue inPool q) = ys
    \<or> (\<exists>b zs b'. ys = b # zs \<and> rd_list (acc_pop_queue inPool q) = b' # zs)"
proof -
  have ne: "\<not> rd_empty q" using l by (simp add: rd_empty_list)
  have f: "rd_front q = f" using l rd_front_list[OF wf] by simp
  have size: "rd_size q = Suc (length ys)" using l by (simp add: rd_size_list)
  have step: "\<exists>b zs b'. ys = b # zs \<and> rd_list (rd_pop_front bc_null (rd_set_at 1 c q)) = b' # zs" if "1 < rd_size q" for c
    using that size rd_set_at_1_pop(1)[OF wf] l by (cases ys) auto
  have pop: "rd_list (rd_pop_front bc_null q) = ys" using wf ne l by (simp add: rd_pop_front_list)
  show ?thesis
    unfolding acc_pop_queue_def Let_def f using step pop l by (auto split: if_splits)
qed

lemma acc_pop_queue_wf:
  assumes wf: "rd_wf q" and l: "rd_list q = f # ys"
  shows "rd_wf (acc_pop_queue inPool q)"
proof -
  have ne: "\<not> rd_empty q" using l by (simp add: rd_empty_list)
  have size: "rd_size q = Suc (length ys)" using l by (simp add: rd_size_list)
  have step: "rd_wf (rd_pop_front bc_null (rd_set_at 1 c q))" if "1 < rd_size q" for c
    using that size rd_set_at_1_pop(2)[OF wf] l by (cases ys) auto
  show ?thesis
    unfolding acc_pop_queue_def Let_def using step wf ne by (simp add: rd_pop_front_wf)
qed

lemma acc_pop_backed:
  assumes inv: "acc_inv a" and n: "n \<le> bc_length (acc_front a)" and pool: "acc_pool_ok m a n" and b: "acc_backed m a"
  shows "acc_backed m (acc_pop n a)"
proof -
  let ?qa = "ac_queue a"
  have wf: "rd_wf ?qa" and ne: "rd_list ?qa \<noteq> []" using inv by (auto simp: acc_inv_def acc_list_def)
  obtain x ys where l: "rd_list ?qa = x # ys" using ne by (cases "rd_list ?qa") auto
  have fr: "acc_front a = x" using rd_front_list[OF wf ne] l by (simp add: acc_front_def)
  let ?f = "bc_advance n x"
  let ?q = "rd_set_at 0 ?f ?qa"
  let ?q' = "acc_pop_queue (ac_inPoolBuffer a) ?q"
  have pos: "0 < rd_numElements ?qa" using arg_cong[OF l, of length] by simp
  have lq: "rd_list ?q = ?f # ys" "rd_wf ?q" using wf l pos by (simp_all add: rd_set_at_list)
  let ?q'' = "if rd_empty ?q' then rd_push_front bc_null ?q' else ?q'"
  have pop: "acc_list (acc_pop n a) = rd_list ?q''" using fr by (simp add: acc_pop_def acc_list_def acc_front_def Let_def)
  have bn: "n \<le> bc_length x" using n fr by simp
  have old: "chunks_backed m (bc_bytes m x) ys" using b l by (simp add: acc_backed_def acc_list_def)
  have shape: "rd_list ?q' = ?f # ys \<or> bc_length ?f = 0 \<and> rd_list ?q' = ys \<or> (\<exists>b zs b'. ys = b # zs \<and> rd_list ?q' = b' # zs)"
    by (rule acc_pop_queue_shape[OF lq(2,1)])
  show ?thesis
  proof (cases "ys = [] \<or> rd_empty ?q'")
    case True
    have wf': "rd_wf ?q'" if "rd_empty ?q'" using acc_pop_queue_wf[OF lq(2,1)] .
    have "acc_list (acc_pop n a) = [bc_null] \<or> (\<exists>c. acc_list (acc_pop n a) = [c])"
    proof (cases "rd_empty ?q'")
      case True
      then have "\<not> rd_full ?q'" using rd_wfD(1)[OF wf'] by (auto simp: rd_empty_def rd_full_def)
      then show ?thesis using True wf' by (simp add: pop rd_push_front_list rd_empty_list)
    next
      case False
      then show ?thesis using True shape pop by (auto simp: rd_empty_list)
    qed
    then show ?thesis by (auto simp: acc_backed_def)
  next
    case False
    then have L: "acc_list (acc_pop n a) = rd_list ?q'" by (simp add: pop)
    have ok: "chunk_ok x" using inv l False by (auto simp: acc_inv_def acc_list_def)
    note ad = bc_advance_ok[OF ok bn]
    have lenx: "length (bc_bytes m x) = bc_length x" by (simp add: bc_bytes_def)
    have stream: "chunks_bytes m (rd_list ?q') = drop n (bc_bytes m x) @ chunks_bytes m ys"
      using acc_pop_stream[OF inv n pool] bn lenx unfolding acc_stream_def L by (simp add: acc_list_def l)
    have dropped: "chunks_backed m (drop n (bc_bytes m x)) ys" by (rule chunks_backed_drop[OF old])
    consider "rd_list ?q' = ?f # ys" | "bc_length ?f = 0" "rd_list ?q' = ys" | b zs b' where "ys = b # zs" "rd_list ?q' = b' # zs"
      using shape by (elim disjE exE conjE)
    then have "queue_backed m (rd_list ?q')"
    proof cases
      case 1
      then show ?thesis using dropped ad(5)[of m] by simp
    next
      case 2
      then have "drop n (bc_bytes m x) = []" using ad(3) lenx by simp
      then show ?thesis using dropped 2(2) by (cases ys) simp_all
    next
      case 3
      then have "bc_bytes m b' = drop n (bc_bytes m x) @ bc_bytes m b" using stream by simp
      then show ?thesis using dropped 3 by simp
    qed
    then show ?thesis by (simp add: acc_backed_def L)
  qed
qed

subsection \<open>require\<close>

lemma chunks_backed_mem_bytes:
  assumes "chunks_backed m pre ys" "\<forall>c \<in> set ys. \<forall>x \<in> bc_extent c. m' x = m x"
  shows "chunks_backed m' pre ys" "chunks_bytes m' ys = chunks_bytes m ys"
proof -
  show "chunks_backed m' pre ys" by (rule chunks_backed_mem[OF assms])
  show "chunks_bytes m' ys = chunks_bytes m ys" by (rule chunks_bytes_cong) (use assms(2) in \<open>simp add: bc_extent_def\<close>)
qed

text \<open>The partial turn of the copy loop.\<close>

lemma advance_backed:
  assumes "chunk_ok f" "n \<le> bc_length f" "backed m pre f" "chunks_backed m (pre @ bc_bytes m f) ys"
  shows "chunks_backed m (pre @ take n (bc_bytes m f)) (bc_advance n f # ys)"
proof -
  note ad = bc_advance_ok[OF assms(1,2)]
  have "(pre @ take n (bc_bytes m f)) @ bc_bytes m (bc_advance n f) = pre @ bc_bytes m f" by (simp add: ad(5))
  then show ?thesis using backed_moved[OF assms(3,2) ad(4,6)] assms(4) by (simp only: chunks_backed.simps)
qed

text \<open>A turn of the copy loop changes no byte that a chunk has reached, and a turn that drains the front goes on with the rest.\<close>

lemma copy_turn_mem:
  assumes pre: "copy_pre q nb room" and l: "rd_list q = f # ys"
    and apart: "\<forall>c \<in> set (rd_list q). copy_dest nb room \<inter> bc_extent c = {}"
  shows "\<forall>c \<in> set (f # ys). \<forall>x \<in> bc_extent c. acc_copy_mem q room nb m x = m x"
proof (intro ballI)
  fix c x assume "c \<in> set (f # ys)" "x \<in> bc_extent c"
  then have "x \<notin> copy_dest nb room" using apart unfolding l by blast
  then show "acc_copy_mem q room nb m x = m x" by (intro copy_turn(4)[OF pre l]) (auto simp: copy_dest_def)
qed

lemma copy_drained:
  assumes pre: "copy_pre q nb room" and l: "rd_list q = f # ys" and le: "bc_length f \<le> room"
    and apart: "\<forall>c \<in> set (rd_list q). copy_dest nb room \<inter> bc_extent c = {}"
    and run: "acc_copy q m nb room = (q', m', nb')"
  defines "q1 \<equiv> rd_pop_front bc_null q" and "m1 \<equiv> acc_copy_mem q room nb m" and "nb1 \<equiv> acc_copy_grow q room nb"
    and "room1 \<equiv> room - bc_length f"
  shows "copy_pre q1 nb1 room1" "acc_copy q1 m1 nb1 room1 = (q', m', nb')" "rd_list q1 = ys"
    and "\<forall>c \<in> set (rd_list q1). copy_dest nb1 room1 \<inter> bc_extent c = {}"
    and "\<not> rd_empty q" "bc_length (rd_front q) = acc_copyBytes q room" "sub64 room (acc_copyBytes q room) = room1"
proof -
  note t = copy_turn[OF pre l]
  have wf: "rd_wf q" and lim: "bc_address nb + bc_length nb + room < SIZE_MOD" using pre by (auto simp: copy_pre_def)
  show ne: "\<not> rd_empty q" using l by (simp add: rd_empty_list)
  have n: "min room (bc_length f) = bc_length f" using le by simp
  have q1: "rd_list q1 = ys" "rd_wf q1" using wf ne l by (simp_all add: q1_def rd_pop_front_list rd_pop_front_wf)
  show r1: "sub64 room (acc_copyBytes q room) = room1" using le lim by (simp add: t(2) n sub64_exact room1_def)
  show d: "bc_length (rd_front q) = acc_copyBytes q room" by (simp add: t(1,2) n)
  have nb1: "nb1 = nb\<lparr>bc_length := bc_length nb + bc_length f\<rparr>" by (simp add: nb1_def t(3) n)
  have sub: "copy_dest nb1 room1 \<subseteq> copy_dest nb room" using le by (auto simp: copy_dest_def nb1 room1_def)
  have "bc_address nb1 + bc_length nb1 + room1 = bc_address nb + bc_length nb + room" using le by (simp add: nb1 room1_def)
  then show "copy_pre q1 nb1 room1" using pre q1 sub l by (auto simp: copy_pre_def)
  show "acc_copy q1 m1 nb1 room1 = (q', m', nb')"
    using run ne d r1 unfolding q1_def m1_def nb1_def by (subst (asm) acc_copy.simps) simp
  show "rd_list q1 = ys" by (rule q1(1))
  show "\<forall>c \<in> set (rd_list q1). copy_dest nb1 room1 \<inter> bc_extent c = {}"
    using apart sub unfolding q1(1) l by auto
qed

lemma acc_copy_backed:
  "copy_pre q nb room \<Longrightarrow> acc_copy q m nb room = (q', m', nb') \<Longrightarrow>
   \<forall>c \<in> set (rd_list q). copy_dest nb room \<inter> bc_extent c = {} \<Longrightarrow> chunks_backed m pre (rd_list q) \<Longrightarrow>
   chunks_backed m' (pre @ take room (chunks_bytes m (rd_list q))) (rd_list q')"
proof (induction q m nb room arbitrary: pre rule: acc_copy.induct)
  case (1 q m nb room)
  note pre = 1(2) and run = 1(3) and apart = 1(4) and old = 1(5)
  have wf: "rd_wf q" using pre by (simp add: copy_pre_def)
  show ?case
  proof (cases "rd_list q")
    case Nil
    then show ?thesis using run by (simp add: acc_copy.simps rd_empty_list)
  next
    case (Cons f ys)
    let ?m1 = "acc_copy_mem q room nb m"
    note mem = copy_turn_mem[OF pre Cons apart, of m]
    have lenb: "length (bc_bytes m f) = bc_length f" by (simp add: bc_bytes_def)
    have split: "backed m pre f" "chunks_backed m (pre @ bc_bytes m f) ys" using old unfolding Cons by simp_all
    have memys: "\<forall>c \<in> set ys. \<forall>x \<in> bc_extent c. ?m1 x = m x" using mem by simp
    note ys = chunks_backed_mem_bytes[OF split(2) memys]
    show ?thesis
    proof (cases "bc_length f \<le> room")
      case True
      note d = copy_drained[OF pre Cons True apart run]
      let ?room1 = "room - bc_length f"
      have h: "chunks_backed m' ((pre @ bc_bytes m f) @ take ?room1 (chunks_bytes ?m1 ys)) (rd_list q')"
        using 1(1)[OF d(5,6), of "pre @ bc_bytes m f"] d(1,2,4) ys(1) unfolding d(7) d(3) by blast
      have e: "take room (chunks_bytes m (rd_list q)) = bc_bytes m f @ take ?room1 (chunks_bytes ?m1 ys)"
        using True lenb ys(2) Cons by simp
      show ?thesis using h unfolding e append_assoc .
    next
      case False
      then have n: "min room (bc_length f) = room" and le: "room \<le> bc_length f" by simp_all
      note t = copy_turn[OF pre Cons]
      have fok: "chunk_ok f" using pre Cons False by (auto simp: copy_pre_def)
      have ne: "\<not> rd_empty q" using Cons by (simp add: rd_empty_list)
      have notdr: "bc_length (rd_front q) \<noteq> acc_copyBytes q room" using False by (simp add: t(1,2))
      have res: "q' = acc_copy_partial q room" "m' = ?m1" using run ne notdr by (simp_all add: acc_copy.simps)
      have pos: "0 < rd_numElements q" using arg_cong[OF Cons, of length] by simp
      have q': "rd_list q' = bc_advance room f # ys"
        using wf pos Cons by (simp_all add: res acc_copy_partial_def Let_def t(1,2) n rd_set_at_list)
      have fm: "bc_bytes ?m1 f = bc_bytes m f" using mem by (intro extent_bytes) simp
      have bf: "backed ?m1 pre f" by (rule backed_mem[OF split(1)]) (use mem in simp)
      have bys: "chunks_backed ?m1 (pre @ bc_bytes ?m1 f) ys" unfolding fm by (rule ys(1))
      note h = advance_backed[OF fok le bf bys]
      have e: "take room (chunks_bytes m (rd_list q)) = take room (bc_bytes ?m1 f)" unfolding fm using le lenb Cons by simp
      show ?thesis using h unfolding q' res(2) e .
    qed
  qed
qed

text \<open>The buffers that \<open>require\<close> may write are apart from the parts of their buffers that the chunks have reached.\<close>

definition acc_extents_apart :: "(usize \<Rightarrow> shared_buffer) \<Rightarrow> usize \<Rightarrow> accumulator \<Rightarrow> bool" where
  "acc_extents_apart mk numBytes a \<longleftrightarrow> (\<forall>c \<in> set (acc_list a).
     (\<forall>b \<in> set (hp_buffs (ac_pool a)). sb_container (bc_buffer b) \<noteq> sb_container (bc_buffer c) \<longrightarrow> bc_range b \<inter> bc_extent c = {}) \<and>
     bc_range (bc_of_shared (mk (max (hp_minBuffSize (ac_pool a)) numBytes))) \<inter> bc_extent c = {})"

lemma acc_require_backed:
  assumes inv: "acc_inv a" and pool: "acc_pool_inv a" and alloc: "acc_alloc_ok mk n a" and apart: "acc_extents_apart mk n a"
    and b: "acc_backed m a" and run: "acc_require ext mk n (a, m) = (a', m')"
  shows "acc_backed m' a' \<and> length (acc_list a') \<le> length (acc_list a)"
proof (cases "bc_length (acc_front a) \<ge> n \<or> (ac_bytesAvailable a < n \<and> n \<le> sb_length (bc_buffer (acc_front a)))")
  case True
  then have "a' = a" "m' = m" using run by (auto simp: acc_require_def acc_front_def Let_def split: if_splits)
  with b show ?thesis by simp
next
  case False
  let ?q = "ac_queue a"
  obtain bf p where get: "hp_get (acc_refs ext ?q) mk n (ac_pool a) = (bf, p)" by fastforce
  let ?nb = "bf\<lparr>bc_dtype := bc_dtype (rd_front ?q), bc_length := 0\<rparr>"
  obtain q' m1 nb' where cp: "acc_copy ?q m ?nb (bc_length bf) = (q', m1, nb')" by (metis prod.exhaust)
  have res: "a' = a\<lparr>ac_queue := rd_push_front nb' q', ac_inPoolBuffer := True, ac_pool := p\<rparr>" "m' = m1"
    using run False get cp by (auto simp: acc_require_def acc_front_def Let_def)
  note pre = acc_require_copy_pre[OF inv pool alloc get]
  note post = acc_copy_props[OF pre(4) cp, unfolded copy_post_def]
  have wf: "rd_wf ?q" and ne: "rd_list ?q \<noteq> []" using inv by (auto simp: acc_inv_def acc_list_def)
  obtain f ys where l: "rd_list ?q = f # ys" using ne by (cases "rd_list ?q") auto
  have fr: "acc_front a = f" using rd_front_list[OF wf ne] l by (simp add: acc_front_def)
  have "bc_range bf \<inter> bc_extent c = {}" if c: "c \<in> set (acc_list a)" for c
    using hp_get_cases[OF get]
  proof
    assume h: "bf \<in> set (hp_buffs (ac_pool a)) \<and> n \<le> hp_minBuffSize (ac_pool a) \<and> p = ac_pool a
      \<and> sb_unique (acc_refs ext ?q (hp_buffs (ac_pool a))) (bc_buffer bf)"
    then have "sb_container (bc_buffer bf) \<noteq> None" using pool by (auto simp: acc_pool_inv_def)
    then have "sb_container (bc_buffer bf) \<noteq> sb_container (bc_buffer c)"
      using unique_not_in_queue[OF wf, of bf "hp_buffs (ac_pool a)" ext c] h c by (simp add: acc_list_def)
    then show ?thesis using apart c h by (auto simp: acc_extents_apart_def)
  next
    assume "bf = bc_of_shared (mk (max (hp_minBuffSize (ac_pool a)) n))"
    then show ?thesis using apart c by (simp add: acc_extents_apart_def)
  qed
  then have dest: "\<forall>c \<in> set (rd_list ?q). copy_dest ?nb (bc_length bf) \<inter> bc_extent c = {}"
    by (simp add: copy_dest_def bc_range_def acc_list_def)
  have drained: "length (rd_list q') < length (rd_list ?q)" using post ne False pre(1) fr l by simp
  have nf: "\<not> rd_full q'"
  proof -
    have "length (rd_list ?q) \<le> rd_capacity ?q" using rd_wfD(3)[OF wf] by (simp add: rd_capacity_def)
    with drained post show ?thesis by (auto simp: rd_full_list)
  qed
  have l': "acc_list a' = nb' # rd_list q'" using post nf by (simp add: acc_list_def res rd_push_front_list)
  have le: "bc_length f \<le> bc_length bf" using False fr pre(1) by simp
  note d = copy_drained[OF pre(4) l le dest cp]
  let ?mc = "acc_copy_mem ?q (bc_length bf) ?nb m"
  have old: "chunks_backed m (bc_bytes m f) ys" using b l by (simp add: acc_backed_def acc_list_def)
  have "\<forall>c \<in> set ys. \<forall>x \<in> bc_extent c. ?mc x = m x" using copy_turn_mem[OF pre(4) l dest, of m] by simp
  note ys = chunks_backed_mem_bytes[OF old this]
  have h: "chunks_backed m1 (bc_bytes m f @ take (bc_length bf - bc_length f) (chunks_bytes ?mc ys)) (rd_list q')"
    using acc_copy_backed[OF d(1,2,4), of "bc_bytes m f"] ys(1) unfolding d(3) by blast
  have "bc_bytes m1 nb' = bc_bytes m ?nb @ take (bc_length bf) (chunks_bytes m (rd_list ?q))" using post by blast
  also have "\<dots> = bc_bytes m f @ take (bc_length bf - bc_length f) (chunks_bytes ?mc ys)"
    using le unfolding l ys(2) by (simp add: bc_bytes_def)
  finally show ?thesis using h drained by (simp add: acc_backed_def l' res(2)) (simp add: acc_list_def)
qed

section \<open>What goes in comes out\<close>

lemma acc_new_inv: "acc_inv acc_new" "acc_list acc_new = [bc_null]" "acc_stream m acc_new = []"
  "hp_buffs (ac_pool acc_new) = []" "ac_bytesAvailable acc_new = 0" "\<not> ac_inPoolBuffer acc_new"
proof -
  let ?q = "rd_new_capacity bc_null 64 :: buffer_chunk ring_deque"
  have wf: "rd_wf ?q" by (simp add: rd_new_capacity_wf SIZE_MOD_def)
  have nf: "\<not> rd_full ?q" by (simp add: rd_full_def rd_new_capacity_def)
  have l: "rd_list (ac_queue acc_new) = [bc_null]" "rd_wf (ac_queue acc_new)"
    using wf nf by (simp_all add: acc_new_def rd_push_front_list rd_push_front_wf rd_new_capacity_wf)
  then show "acc_inv acc_new" "acc_list acc_new = [bc_null]" "acc_stream m acc_new = []"
    by (simp_all add: acc_inv_def acc_list_def acc_stream_def acc_new_def bc_null_def)
  show "hp_buffs (ac_pool acc_new) = []" "ac_bytesAvailable acc_new = 0" "\<not> ac_inPoolBuffer acc_new"
    by (simp_all add: acc_new_def hp_new_def)
qed

lemma acc_push_new:
  assumes "chunk_ok c"
  shows "acc_list (acc_push c acc_new) = [c]" "ac_pool (acc_push c acc_new) = hp_new"
    "ac_inPoolBuffer (acc_push c acc_new) = False"
proof -
  let ?q = "acc_drop_dummy (ac_queue acc_new)"
  have wf: "rd_wf (ac_queue acc_new)" and l: "rd_list (ac_queue acc_new) = [bc_null]"
    using acc_new_inv(1,2) by (auto simp: acc_inv_def acc_list_def)
  have "rd_front (ac_queue acc_new) = bc_null" using rd_front_list[OF wf] l by simp
  then have "rd_list ?q = [] \<and> rd_wf ?q"
    using wf l by (simp add: acc_drop_dummy_def bc_null_def[THEN arg_cong[where f = bc_length]]
        rd_pop_front_list rd_pop_front_wf rd_empty_list)
  then have "rd_list (rd_push_grow bc_null c ?q) = [c]" by (simp add: rd_push_grow_list)
  then show "acc_list (acc_push c acc_new) = [c]"
    by (simp add: acc_push_eq acc_list_def acc_amalgamate_def rd_size_list del: length_rd_list)
  show "ac_pool (acc_push c acc_new) = hp_new" "ac_inPoolBuffer (acc_push c acc_new) = False"
    by (simp_all add: acc_push_eq acc_new_def)
qed

text \<open>
  A client pushes chunks, reads and pops the front, requires contiguity, and other threads write
  memory that no chunk of the queue covers. The log collects the bytes pushed (as they were at the push)
  and the bytes popped (as they were at the pop).
\<close>

datatype acc_op =
    AcPush buffer_chunk | AcPop usize
  | AcRequire "nat \<Rightarrow> nat" "usize \<Rightarrow> shared_buffer" usize
  | AcWrite memory

type_synonym acc_log = "accumulator \<times> memory \<times> byte list \<times> byte list"

fun acc_exec :: "acc_op \<Rightarrow> acc_log \<Rightarrow> acc_log" where
  "acc_exec (AcPush c) (a, m, ins, outs) = (acc_push c a, m, ins @ bc_bytes m c, outs)"
| "acc_exec (AcPop n) (a, m, ins, outs) = (acc_pop n a, m, ins, outs @ take n (bc_bytes m (acc_front a)))"
| "acc_exec (AcRequire ext mk n) (a, m, ins, outs) =
     (case acc_require ext mk n (a, m) of (a', m') \<Rightarrow> (a', m', ins, outs))"
| "acc_exec (AcWrite m') (a, m, ins, outs) = (a, m', ins, outs)"

text \<open>What a run needs of its environment. A pushed chunk is of an ordinary buffer (circular buffers are excluded, see
  \<open>acc_push_misreads_alias\<close>) and continues the stream if it is not at the start of its buffer (chunks that do not are
  excluded, see \<open>acc_pop_corrupts\<close>). A pop takes bytes of the front, as the code asserts. The allocator and the pool give
  buffers that nobody else uses, and nobody overwrites the bytes that queued chunks have reached.\<close>

fun acc_op_pre :: "acc_op \<Rightarrow> acc_log \<Rightarrow> bool" where
  "acc_op_pre (AcPush c) (a, m, ins, outs) \<longleftrightarrow>
     chunk_ok c \<and> backed m (acc_stream m a) c \<and> ac_bytesAvailable a + bc_length c < SIZE_MOD \<and> 2 * length (acc_list a) < SIZE_MOD"
| "acc_op_pre (AcPop n) (a, m, ins, outs) \<longleftrightarrow> n \<le> bc_length (acc_front a)"
| "acc_op_pre (AcRequire ext mk n) (a, m, ins, outs) \<longleftrightarrow> acc_pool_inv a \<and> acc_alloc_ok mk n a \<and> acc_extents_apart mk n a"
| "acc_op_pre (AcWrite m') (a, m, ins, outs) \<longleftrightarrow> (\<forall>c \<in> set (acc_list a). \<forall>x \<in> bc_extent c. m' x = m x)"

fun acc_ops_ok :: "acc_op list \<Rightarrow> acc_log \<Rightarrow> bool" where
  "acc_ops_ok [] s = True"
| "acc_ops_ok (op # ops) s \<longleftrightarrow> acc_op_pre op s \<and> acc_ops_ok ops (acc_exec op s)"

lemmas acc_operation_rules = acc_new_inv acc_push_new

lemma acc_front_list: "acc_inv a \<Longrightarrow> acc_front a = hd (acc_list a)"
  by (simp add: acc_inv_def acc_front_def acc_list_def rd_front_list)

text \<open>One operation of a run.\<close>

lemma acc_exec_step:
  assumes "acc_op_pre op (a, m, i, out)" "acc_exec op (a, m, i, out) = (a1, m1, i1, out1)"
    and inv: "acc_inv a" and b: "acc_backed m a" and io: "i = out @ acc_stream m a"
  shows "acc_inv a1 \<and> acc_backed m1 a1 \<and> i1 = out1 @ acc_stream m1 a1"
proof (cases op)
  case (AcPush c)
  then show ?thesis using assms acc_push_stream[of a c m] acc_push_backed[of a c m] by auto
next
  case (AcPop n)
  then have n: "n \<le> bc_length (acc_front a)" using assms(1) by simp
  note pool = acc_pool_backed[OF b n inv]
  obtain x ys where l: "acc_list a = x # ys"
    using inv by (cases "acc_list a") (auto simp: acc_inv_def)
  have "take n (bc_bytes m (acc_front a)) = take n (acc_stream m a)"
    using n l acc_front_list[OF inv] by (simp add: acc_stream_def bc_bytes_def)
  then show ?thesis
    using acc_pop_stream[OF inv n pool] acc_pop_backed[OF inv n pool b] AcPop assms(2) io by auto
next
  case (AcRequire ext mk n)
  obtain a2 m2 where r: "acc_require ext mk n (a, m) = (a2, m2)" by fastforce
  have p: "acc_pool_inv a" "acc_alloc_ok mk n a" "acc_extents_apart mk n a" using AcRequire assms(1) by simp_all
  have "a1 = a2" "m1 = m2" "i1 = i" "out1 = out" using AcRequire assms(2) r by simp_all
  then show ?thesis using acc_require_props[OF inv p(1,2) r] acc_require_backed[OF inv p b r] io by simp
next
  case (AcWrite w)
  then have w: "\<forall>c \<in> set (acc_list a). \<forall>x \<in> bc_extent c. w x = m x" using assms(1) by simp
  have "acc_stream w a = acc_stream m a"
    unfolding acc_stream_def by (rule chunks_bytes_cong) (use w in \<open>simp add: bc_extent_def\<close>)
  moreover have "acc_backed w a" using queue_backed_mem[OF _ w] b by (simp add: acc_backed_def)
  ultimately show ?thesis using AcWrite assms(2) inv io by auto
qed

text \<open>C1: For any sequence of pushes, pops, requires and unrelated memory writes in which every pushed chunk is of an ordinary
  (not circular) buffer and starts its buffer or continues the stream, and in which allocated and pool buffers are in nobody
  else's use (\<open>acc_op_pre\<close>): the bytes pushed are exactly the bytes popped followed by the bytes still in the stream. A pop
  needs no more than that the front has the bytes: stepping back from a pool buffer into the next chunk, which the code
  decides by an address, gives the right bytes for such chunks.\<close>

theorem acc_run_fifo:
  assumes "acc_ops_ok ops (acc_new, m, [], [])" "fold acc_exec ops (acc_new, m, [], []) = (a', m', ins, outs)"
  shows "acc_inv a' \<and> ins = outs @ acc_stream m' a'"
proof -
  have "acc_inv a' \<and> ins = outs @ acc_stream m' a'"
    if "acc_ops_ok ops (a, m, i, out)" "fold acc_exec ops (a, m, i, out) = (a', m', ins, outs)"
      "acc_inv a" "acc_backed m a" "i = out @ acc_stream m a" for a m i out
    using that
  proof (induction ops arbitrary: a m i out)
    case (Cons op ops)
    obtain a1 m1 i1 out1 where e: "acc_exec op (a, m, i, out) = (a1, m1, i1, out1)" by (metis prod.exhaust)
    have "acc_op_pre op (a, m, i, out)" using Cons.prems(1) by simp
    from acc_exec_step[OF this e Cons.prems(3-5)] show ?case
      using Cons.IH[of a1 m1 i1 out1] Cons.prems(1,2) e by simp
  qed simp
  from this[OF assms] show ?thesis by (simp add: acc_new_inv acc_backed_def)
qed

section \<open>Witnesses\<close>

definition chunk_at :: "nat \<Rightarrow> nat \<Rightarrow> nat \<Rightarrow> buffer_chunk" where
  "chunk_at a n c = bc_of_shared (sb_make_with a n (Some c))"

lemma chunk_at_simps [simp]:
  "bc_address (chunk_at a n c) = a" "bc_length (chunk_at a n c) = n"
  "bc_buffer (chunk_at a n c) = sb_make_with a n (Some c)" "bc_managed (chunk_at a n c) = None"
  "chunk_ok (chunk_at a n c) \<longleftrightarrow> 0 < a \<and> a + n < SIZE_MOD"
  by (simp_all add: chunk_at_def bc_of_shared_def sb_make_with_def chunk_ok_def)

lemma chunk_at_ok_small: "chunk_ok (chunk_at 10 3 1)" "chunk_ok (chunk_at 20 5 2)"
  by (simp_all add: SIZE_MOD_def)

lemma acc_alloc_small:
  "acc_alloc_ok (mk_at 10000 9) 4 (acc_push (chunk_at 10 3 1) acc_new)"
  "acc_pool_inv (acc_push (chunk_at 10 3 1) acc_new)"
  using acc_push_new[OF chunk_at_ok_small(1)]
  by (auto simp: acc_alloc_ok_def acc_pool_inv_def Let_def mk_at_def hp_new_def bc_of_shared_def
      sb_make_with_def chunk_ok_def SIZE_MOD_def chunk_apart_def bc_range_def)

text \<open>C3: \<open>require\<close> never changes the stream; when the stream has the bytes asked for, the front chunk
  holds them afterwards, contiguously; it writes only into one buffer, which is either fresh or a pool
  buffer that nothing but the pool refers to; and it keeps the invariant.\<close>

theorem acc_require_stream:
  assumes inv: "acc_inv a" and pool: "acc_pool_inv a" and alloc: "acc_alloc_ok mk n a"
    and run: "acc_require ext mk n (a, m) = (a', m')"
  shows "acc_inv a' \<and> acc_stream m' a' = acc_stream m a \<and> ac_bytesAvailable a' = ac_bytesAvailable a
    \<and> (n \<le> ac_bytesAvailable a \<longrightarrow> n \<le> bc_length (acc_front a'))
    \<and> (m' = m \<or> (\<exists>b. (b \<in> set (hp_buffs (ac_pool a)) \<and>
            sb_unique (acc_refs ext (ac_queue a) (hp_buffs (ac_pool a))) (bc_buffer b)
          \<or> b = bc_of_shared (mk (max (hp_minBuffSize (ac_pool a)) n)))
        \<and> (\<forall>x. x \<notin> bc_range b \<longrightarrow> m' x = m x)))"
  by (rule acc_require_props[OF assms])

theorem acc_require_stream_witness:
  "(case acc_require (\<lambda>_. 0) (mk_at 10000 9) 4 (acc_push (chunk_at 10 3 1) acc_new, word_of_nat) of
     (a', m') \<Rightarrow> acc_stream m' a') = [10, 11, 12]"
proof -
  let ?a = "acc_push (chunk_at 10 3 1) acc_new"
  have inv: "acc_inv ?a" "acc_stream word_of_nat ?a = bc_bytes word_of_nat (chunk_at 10 3 1)"
    using acc_push_stream[of acc_new "chunk_at 10 3 1" word_of_nat] by (simp_all add: acc_new_inv SIZE_MOD_def)
  obtain a' m' where r: "acc_require (\<lambda>_. 0) (mk_at 10000 9) 4 (?a, word_of_nat) = (a', m')" by fastforce
  from acc_require_stream[OF inv(1) acc_alloc_small(2,1) r] r inv(2) show ?thesis
    by (simp add: bc_bytes_def mem_bytes_def upt_rec)
qed

text \<open>Two chunks of different buffers are made contiguous in a pool buffer; a chunk that continues the second one is pushed
  behind it, and a pop steps back into this chunk.\<close>

definition part_at :: "nat \<Rightarrow> nat \<Rightarrow> buffer_chunk" where
  "part_at ofs n = (chunk_at 20 8 2)\<lparr>bc_address := 20 + ofs, bc_length := n\<rparr>"

lemma part_at_simps [simp]:
  "bc_address (part_at ofs n) = 20 + ofs" "bc_length (part_at ofs n) = n" "bc_managed (part_at ofs n) = None"
  "sb_address (bc_buffer (part_at ofs n)) = 20" "bc_buffer (part_at ofs n) = sb_make_with 20 8 (Some 2)"
  "chunk_ok (part_at ofs n) \<longleftrightarrow> 20 + ofs + n < SIZE_MOD"
  by (simp_all add: part_at_def sb_make_with_def chunk_ok_def)

lemma acc_push_pool: "ac_pool (acc_push c a) = ac_pool a"
  by (simp add: acc_push_eq)

lemma acc_push_second:
  assumes inv: "acc_inv a" and l: "acc_list a = [x]" and "bc_length x \<noteq> 0" "\<not> acc_contig c x" "bc_length c \<noteq> 0"
  shows "acc_list (acc_push c a) = [x, c]"
proof -
  let ?q = "rd_push_grow bc_null c (acc_drop_dummy (ac_queue a))"
  have wf: "rd_wf (ac_queue a)" "rd_list (ac_queue a) = [x]" using inv l by (auto simp: acc_inv_def acc_list_def)
  have "rd_front (ac_queue a) = x" using rd_front_list[OF wf(1)] wf(2) by simp
  then have d: "acc_drop_dummy (ac_queue a) = ac_queue a" using assms(3) by (simp add: acc_drop_dummy_def)
  have "2 * length [x] < SIZE_MOD" by (simp add: SIZE_MOD_def)
  then have q: "rd_wf ?q" "rd_list ?q = [x, c]"
    using wf by (simp_all add: d rd_push_grow_list rd_push_grow_wf del: length_rd_list)
  have n: "rd_numElements ?q = 2" "rd_size ?q = 2" using arg_cong[OF q(2), of length] by (simp_all add: rd_size_def)
  have at: "rd_at ?q 1 = c" "rd_at ?q 0 = x"
    using rd_at_list[of 1 ?q] rd_at_list[of 0 ?q] n q(2) by (simp_all del: rd_list_nth)
  have "acc_merge 1 ?q = ?q" using assms(4) at by (simp add: Let_def)
  then show ?thesis using q n at assms(5) by (simp add: acc_push_eq acc_list_def acc_amalgamate_def)
qed

text \<open>A push does not shorten the front.\<close>

lemma merge_list_head:
  "i < length xs \<Longrightarrow> \<forall>c \<in> set xs. chunk_ok c \<Longrightarrow> bc_length (xs ! 0) \<le> bc_length (merge_list i xs ! 0)"
proof (induction i arbitrary: xs)
  case (Suc i)
  show ?case
  proof (cases "acc_contig (xs ! Suc i) (xs ! i)")
    case True
    let ?xs' = "xs[i := (xs ! i)\<lparr>bc_length := add64 (bc_length (xs ! i)) (bc_length (xs ! Suc i))\<rparr>,
      Suc i := (xs ! Suc i)\<lparr>bc_address := add64 (bc_address (xs ! Suc i)) (bc_length (xs ! Suc i)), bc_length := 0\<rparr>]"
    have fb: "chunk_ok (xs ! i)" "chunk_ok (xs ! Suc i)" using Suc.prems by auto
    then have "add64 (bc_length (xs ! i)) (bc_length (xs ! Suc i)) = bc_length (xs ! i) + bc_length (xs ! Suc i)"
      using True by (auto simp: chunk_ok_contig chunk_ok_def add64_exact)
    then have "bc_length (xs ! 0) \<le> bc_length (?xs' ! 0)"
      using Suc_lessD[OF Suc.prems(1)] nth_list_update_eq[of 0 xs] by (cases "i = 0") (simp_all add: nth_list_update)
    also have "\<dots> \<le> bc_length (merge_list i ?xs' ! 0)"
      using Suc.prems(1) merge_step(2)[OF Suc.prems True] by (intro Suc.IH) simp_all
    finally show ?thesis using True by (simp add: Let_def)
  qed (simp add: Let_def)
qed simp

lemma acc_push_front_le:
  assumes inv: "acc_inv a" and "chunk_ok c" "2 * length (acc_list a) < SIZE_MOD" "bc_length (acc_front a) \<noteq> 0"
    and size: "ac_bytesAvailable a + bc_length c < SIZE_MOD"
  shows "bc_length (acc_front a) \<le> bc_length (acc_front (acc_push c a))"
proof -
  let ?q = "rd_push_grow bc_null c (ac_queue a)"
  have d: "acc_drop_dummy (ac_queue a) = ac_queue a" using assms(4) by (simp add: acc_drop_dummy_def acc_front_def)
  have wf: "rd_wf (ac_queue a)" and ne: "rd_list (ac_queue a) \<noteq> []" using inv by (auto simp: acc_inv_def acc_list_def)
  obtain x xs where l: "rd_list (ac_queue a) = x # xs" using ne by (cases "rd_list (ac_queue a)") auto
  have fr: "acc_front a = x" using rd_front_list[OF wf ne] l by (simp add: acc_front_def)
  have q: "rd_wf ?q" "rd_list ?q = x # xs @ [c]"
    using wf assms(3) l by (simp_all add: acc_list_def rd_push_grow_list rd_push_grow_wf del: length_rd_list)
  have ok: "\<forall>y \<in> set (rd_list ?q). chunk_ok y" using inv l assms(2,4) fr q(2) by (auto simp: acc_inv_def acc_list_def)
  have n: "rd_size ?q = Suc (Suc (length xs))" "rd_numElements ?q = Suc (Suc (length xs))"
    using arg_cong[OF q(2), of length] by (simp_all add: rd_size_def)
  let ?qm = "acc_merge (Suc (length xs)) ?q"
  have qm: "rd_wf ?qm" "rd_list ?qm = merge_list (Suc (length xs)) (rd_list ?q)"
    using acc_merge_list[OF q(1), of "Suc (length xs)"] n by (simp_all del: acc_merge.simps merge_list.simps)
  have le: "bc_length x \<le> bc_length (rd_list ?qm ! 0)" 
    using merge_list_head[of "Suc (length xs)" "rd_list ?q"] ok q(2) qm(2) by (simp del: merge_list.simps acc_merge.simps rd_list_nth)
  have len: "length (rd_list ?qm) = Suc (Suc (length xs))" using qm(2) q(2) by (simp del: length_rd_list merge_list.simps)
  have f1: "rd_front ?qm = rd_list ?qm ! 0" using rd_front_list[OF qm(1)] len by (metis hd_conv_nth list.size(3) nat.simps(3))
  have bl: "rd_list (rd_pop_back bc_null ?qm) = butlast (rd_list ?qm)" "rd_wf (rd_pop_back bc_null ?qm)"
    using qm(1) len by (simp_all add: rd_pop_back_list rd_pop_back_wf rd_empty_def del: rd_list_nth)
  have "butlast (rd_list ?qm) \<noteq> []" "butlast (rd_list ?qm) ! 0 = rd_list ?qm ! 0"
    using len by (cases "rd_list ?qm"; cases "tl (rd_list ?qm)"; simp del: length_rd_list)+
  then have f2: "rd_front (rd_pop_back bc_null ?qm) = rd_list ?qm ! 0" using rd_front_list[OF bl(2)] bl(1) by (simp add: hd_conv_nth)
  show ?thesis using le n unfolding fr by (auto simp: acc_front_def acc_push_eq d acc_amalgamate_def Let_def f1 f2 simp del: acc_merge.simps)
qed

text \<open>The run of the witness, one operation after the other.\<close>

lemma demo_run:
  assumes r: "acc_require (\<lambda>_. 0) (mk_at 10000 9) 4 (acc_push (part_at 0 5) (acc_push (chunk_at 10 3 1) acc_new), word_of_nat) = (a3, m3)"
  shows "acc_ops_ok [AcPush (chunk_at 10 3 1), AcPush (part_at 0 5), AcRequire (\<lambda>_. 0) (mk_at 10000 9) 4, AcPush (part_at 5 3), AcPop 4]
      (acc_new, word_of_nat, [], [])"
    and "fold acc_exec [AcPush (chunk_at 10 3 1), AcPush (part_at 0 5), AcRequire (\<lambda>_. 0) (mk_at 10000 9) 4, AcPush (part_at 5 3), AcPop 4]
        (acc_new, word_of_nat, [], [])
      = (acc_pop 4 (acc_push (part_at 5 3) a3), m3, [10, 11, 12, 20, 21, 22, 23, 24, 25, 26, 27], [10, 11, 12, 20])"
proof -
  let ?c = "chunk_at 10 3 1" and ?d = "part_at 0 5" and ?e = "part_at 5 3"
  let ?a1 = "acc_push ?c acc_new" and ?m = "word_of_nat :: memory"
  let ?a2 = "acc_push ?d ?a1"
  let ?a4 = "acc_push ?e a3"
  note n = acc_new_inv
  have s1: "acc_inv ?a1" "acc_stream ?m ?a1 = [10, 11, 12]" "ac_bytesAvailable ?a1 = 3" and l1: "acc_list ?a1 = [?c]"
    using acc_push_stream[OF n(1), of ?c ?m] acc_push_new[of ?c] n
    by (simp_all add: SIZE_MOD_def bc_bytes_def mem_bytes_def upt_rec)
  have s2: "acc_inv ?a2" "acc_stream ?m ?a2 = [10, 11, 12, 20, 21, 22, 23, 24]" "ac_bytesAvailable ?a2 = 8"
    using acc_push_stream[OF s1(1), of ?d ?m] s1 l1 by (simp_all add: SIZE_MOD_def bc_bytes_def mem_bytes_def upt_rec)
  have "\<not> acc_contig ?d ?c" by (simp add: chunk_ok_contig SIZE_MOD_def)
  then have l2: "acc_list ?a2 = [?c, ?d]" using acc_push_second[OF s1(1) l1] by simp
  have p2: "ac_pool ?a2 = hp_new" by (simp add: acc_push_pool acc_new_def)
  have mk: "bc_address (bc_of_shared (mk_at 10000 9 k)) = 10000" "bc_length (bc_of_shared (mk_at 10000 9 k)) = k"
    "sb_alias (bc_buffer (bc_of_shared (mk_at 10000 9 k))) = 0" for k
    by (simp_all add: mk_at_def bc_of_shared_def sb_make_with_def)
  have ra: "acc_pool_inv ?a2" "acc_alloc_ok (mk_at 10000 9) 4 ?a2" "acc_extents_apart (mk_at 10000 9) 4 ?a2"
    using l2 p2 mk by (auto simp: acc_pool_inv_def hp_new_def acc_alloc_ok_def Let_def chunk_ok_def chunk_apart_def bc_range_def
        acc_extents_apart_def bc_extent_def SIZE_MOD_def sb_make_with_def)
  have b2: "acc_backed ?m ?a2" unfolding acc_backed_def l2 by (simp add: backed_iff sb_make_with_def)
  note req = acc_require_props[OF s2(1) ra(1,2) r] acc_require_backed[OF s2(1) ra b2 r]
  have s3: "acc_inv a3" "acc_stream m3 a3 = [10, 11, 12, 20, 21, 22, 23, 24]" "ac_bytesAvailable a3 = 8" "4 \<le> bc_length (acc_front a3)"
    "length (acc_list a3) \<le> 2"
    using req s2 l2 by auto
  have m3: "m3 x = ?m x" if "x < 10000" for x
    using req(1) that p2 mk by (auto simp: hp_new_def bc_range_def)
  have b3: "backed m3 (acc_stream m3 a3) ?e"
  proof -
    have "m3 (25 - Suc j) = rev [10, 11, 12, 20, 21, 22, 23, 24] ! j" if "j < 5" for j
    proof -
      from that consider "j = 0" | "j = 1" | "j = 2" | "j = 3" | "j = 4" by linarith
      then show ?thesis by cases (simp_all add: m3)
    qed
    then show ?thesis unfolding s3(2) backed_iff by (simp add: sb_make_with_def)
  qed
  have size: "chunk_ok ?e" "ac_bytesAvailable a3 + bc_length ?e < SIZE_MOD" "2 * length (acc_list a3) < SIZE_MOD"
    using s3 by (simp_all add: SIZE_MOD_def)
  have eb: "bc_bytes m3 ?e = [25, 26, 27]" using m3 by (simp add: bc_bytes_def mem_bytes_def upt_rec)
  have s4: "acc_inv ?a4" "acc_stream m3 ?a4 = [10, 11, 12, 20, 21, 22, 23, 24, 25, 26, 27]"
    using acc_push_stream[OF s3(1) size, of m3] s3(2) eb by simp_all
  have f4: "4 \<le> bc_length (acc_front ?a4)" using acc_push_front_le[OF s3(1) size(1,3) _ size(2)] s3(4) by linarith
  have taken: "take 4 (bc_bytes m3 (acc_front ?a4)) = [10, 11, 12, 20]"
  proof -
    obtain x ys where l: "acc_list ?a4 = x # ys" using s4(1) by (cases "acc_list ?a4") (auto simp: acc_inv_def)
    then have "take 4 (bc_bytes m3 (acc_front ?a4)) = take 4 (acc_stream m3 ?a4)"
      using f4 acc_front_list[OF s4(1)] by (simp add: acc_stream_def bc_bytes_def)
    then show ?thesis by (simp add: s4(2))
  qed
  show "acc_ops_ok [AcPush ?c, AcPush ?d, AcRequire (\<lambda>_. 0) (mk_at 10000 9) 4, AcPush ?e, AcPop 4] (acc_new, ?m, [], [])"
    using l1 s1 s2 s3 ra r b3 size f4 n by (simp add: backed_iff sb_make_with_def SIZE_MOD_def)
  show "fold acc_exec [AcPush ?c, AcPush ?d, AcRequire (\<lambda>_. 0) (mk_at 10000 9) 4, AcPush ?e, AcPop 4] (acc_new, ?m, [], [])
      = (acc_pop 4 ?a4, m3, [10, 11, 12, 20, 21, 22, 23, 24, 25, 26, 27], [10, 11, 12, 20])"
    using r taken eb by (simp add: bc_bytes_def[of ?m] mem_bytes_def upt_rec)
qed

theorem acc_run_fifo_witness:
  "\<exists>a' m'. fold acc_exec [AcPush (chunk_at 10 3 1), AcPush (part_at 0 5), AcRequire (\<lambda>_. 0) (mk_at 10000 9) 4,
         AcPush (part_at 5 3), AcPop 4] (acc_new, word_of_nat, [], [])
       = (a', m', [10, 11, 12, 20, 21, 22, 23, 24, 25, 26, 27], [10, 11, 12, 20])
     \<and> acc_stream m' a' = [21, 22, 23, 24, 25, 26, 27]"
proof -
  obtain a3 m3 where "acc_require (\<lambda>_. 0) (mk_at 10000 9) 4 (acc_push (part_at 0 5) (acc_push (chunk_at 10 3 1) acc_new), word_of_nat) = (a3, m3)"
    by fastforce
  from acc_run_fifo[OF demo_run[OF this]] demo_run(2)[OF this] show ?thesis by auto
qed

section \<open>Where the code goes wrong\<close>

text \<open>
  The step back into the next chunk tests only how far this chunk is into its buffer, not how many of
  the pool's bytes came from there. A pool buffer in front (address 1000) followed by a chunk at offset
  8 of another buffer: popping one byte replaces the three pool bytes by bytes of the other buffer.
\<close>

definition pool_then_offset :: accumulator where
  "pool_then_offset = \<lparr>ac_queue = \<lparr>rd_frontIndex = 0, rd_backIndex = 1, rd_numElements = 2,
       rd_container = [chunk_at 1000 4 1,
         \<lparr>bc_address = 508, bc_length = 2, bc_dtype = dtype_default,
          bc_buffer = sb_make_with 500 16 (Some 2), bc_managed = None\<rparr>]\<rparr>,
     ac_bytesAvailable = 6, ac_inPoolBuffer = True, ac_pool = hp_new\<rparr>"

lemma acc_pop_corrupts:
  "acc_inv pool_then_offset" "acc_stream word_of_nat pool_then_offset = map word_of_nat [1000, 1001, 1002, 1003, 508, 509]"
  "acc_stream word_of_nat (acc_pop 1 pool_then_offset) = map word_of_nat [505, 506, 507, 508, 509]"
proof -
  have l: "acc_list pool_then_offset = [chunk_at 1000 4 1,
         \<lparr>bc_address = 508, bc_length = 2, bc_dtype = dtype_default,
          bc_buffer = sb_make_with 500 16 (Some 2), bc_managed = None\<rparr>]"
    by (simp add: acc_list_def pool_then_offset_def rd_list_def rd_at_def upt_rec)
  have wf: "rd_wf (ac_queue pool_then_offset)"
    by (simp add: pool_then_offset_def rd_wf_def SIZE_MOD_def mod_Suc)
  show "acc_inv pool_then_offset"
    using wf l by (simp add: acc_inv_def SIZE_MOD_def) (simp add: pool_then_offset_def chunk_ok_def
      sb_make_with_def SIZE_MOD_def bc_getEnd_def add64_def)
  show "acc_stream word_of_nat pool_then_offset = map word_of_nat [1000, 1001, 1002, 1003, 508, 509]"
    by (simp add: acc_stream_def l bc_bytes_def mem_bytes_def upt_rec)
  show "acc_stream word_of_nat (acc_pop 1 pool_then_offset) = map word_of_nat [505, 506, 507, 508, 509]"
    by (simp add: acc_stream_def acc_list_def acc_pop_def acc_pop_queue_def Let_def pool_then_offset_def
        bc_advance_def rd_front_def rd_at_def rd_set_at_def rd_size_def rd_empty_def rd_pop_front_def
        rd_list_def add64_def sub64_def SIZE_MOD_def bc_bytes_def mem_bytes_def upt_rec sb_make_with_def)
qed

text \<open>
  A sub-buffer of a circular buffer of 32 bytes, posted twice: \<open>getAlias\<close> uses the length 16 of the
  sub-buffer, so the second copy is amalgamated with the first, and the 32 bytes that the front now
  covers are not the bytes that were pushed.
\<close>

definition ring_half :: buffer_chunk where
  "ring_half = bc_of_shared \<lparr>sb_address = 64, sb_length = 16, sb_alias = 96, sb_container = Some 1\<rparr>"

definition ring_half_queue :: accumulator where
  "ring_half_queue = \<lparr>ac_queue = \<lparr>rd_frontIndex = 0, rd_backIndex = 0, rd_numElements = 1,
       rd_container = [ring_half, bc_null]\<rparr>,
     ac_bytesAvailable = 16, ac_inPoolBuffer = False, ac_pool = hp_new\<rparr>"

lemma acc_push_misreads_alias:
  "map (\<lambda>c. (bc_address c, bc_length c)) (acc_list (acc_push ring_half ring_half_queue)) = [(64, 32)]"
  by (simp add: ring_half_queue_def ring_half_def acc_push_def Let_def rd_front_def bc_of_shared_def rd_full_def
      rd_push_back_def rd_size_def rd_at_def rd_set_at_def acc_contig_def bc_getEnd_def bc_getAlias_def
      add64_def SIZE_MOD_def mr_equal_def rd_pop_back_def sub64_def acc_list_def rd_list_def)

end
