(* ===== verification/BufferManagers.thy ===== *)
theory BufferManagers
  imports OrderedQueue BufferChunk
begin

text \<open>
  \<^verbatim>\<open>Pothos::BufferManager\<close> (include/Pothos/Framework/BufferManager.hpp, lib/Framework/BufferManager.cpp)
  and its two implementations, the generic manager
  (lib/Framework/Builtin/GenericBufferManager.cpp) and the circular manager
  (lib/Framework/Builtin/CircularBufferManager.cpp) of pothos-library.

  A manager owns a number of managed buffers (tokens). \<open>front\<close> is a chunk of the first available
  token; \<open>pop\<close> takes bytes from it and moves on to the next token when little is left; \<open>push\<close> is the
  return of a token. A token is the value of its handle; one that lies in a ready queue has no other
  holder, so that resetting it in place is an update of the queue. The circular manager hands out
  pieces of one circular buffer; the theorem at the end shows that it never hands out memory that a
  client still holds.
\<close>

section \<open>The base class\<close>

record bm_args =
  ba_numBuffers :: nat
  ba_bufferSize :: usize
  ba_nodeAffinity :: int

definition bm_args_default :: bm_args where
  "bm_args_default = \<lparr>ba_numBuffers = 4, ba_bufferSize = 8 * 1024, ba_nodeAffinity = -1\<rparr>"

record bm_base =
  bm_initialized :: bool
  bm_frontBuffer :: buffer_chunk

definition bm_new :: bm_base where
  "bm_new = \<lparr>bm_initialized = False, bm_frontBuffer = bc_null\<rparr>"

definition bm_init :: "bm_base \<Rightarrow> bm_base result" where
  "bm_init b = (if bm_initialized b then Inl BufferManagerFactoryError
     else Inr (b\<lparr>bm_initialized := True\<rparr>))"

definition bm_isInitialized :: "bm_base \<Rightarrow> bool" where
  "bm_isInitialized b = bm_initialized b"

definition bm_front :: "bm_base \<Rightarrow> buffer_chunk" where
  "bm_front b = bm_frontBuffer b"

definition bm_setFrontBuffer :: "buffer_chunk \<Rightarrow> bm_base \<Rightarrow> bm_base" where
  "bm_setFrontBuffer c b = b\<lparr>bm_frontBuffer := c\<rparr>"

text \<open>The callback, when one is set, takes the buffer instead of \<open>push\<close>.\<close>

definition bm_pushExternal ::
  "(managed_buffer \<Rightarrow> 's \<Rightarrow> 's) option \<Rightarrow> (managed_buffer \<Rightarrow> 's \<Rightarrow> 's) \<Rightarrow> managed_buffer \<Rightarrow> 's \<Rightarrow> 's" where
  "bm_pushExternal callback push buff s = (case callback of Some f \<Rightarrow> f buff s | None \<Rightarrow> push buff s)"

text \<open>The factory: any exception of the plugin lookup or call becomes a factory error; the second
  overload initializes the manager.\<close>

definition bm_make :: "(string \<Rightarrow> 'm result) \<Rightarrow> string \<Rightarrow> 'm result" where
  "bm_make plugin name = (case plugin name of Inl e \<Rightarrow> Inl BufferManagerFactoryError | Inr m \<Rightarrow> Inr m)"

definition bm_make_args :: "(string \<Rightarrow> 'm result) \<Rightarrow> (bm_args \<Rightarrow> 'm \<Rightarrow> 'm result) \<Rightarrow> string \<Rightarrow> bm_args \<Rightarrow> 'm result" where
  "bm_make_args plugin init name args = result_bind (bm_make plugin name) (\<lambda>m. init args m)"

section \<open>The generic manager\<close>

record gbm =
  gm_base :: bm_base
  gm_ready :: "managed_buffer option ring_deque"

definition gm_new :: gbm where
  "gm_new = \<lparr>gm_base = bm_new, gm_ready = rd_new None\<rparr>"

definition gm_empty :: "gbm \<Rightarrow> bool" where
  "gm_empty g = rd_empty (gm_ready g)"

definition gm_front :: "gbm \<Rightarrow> buffer_chunk" where
  "gm_front g = bm_front (gm_base g)"

definition chunk_of_token :: "managed_buffer option \<Rightarrow> buffer_chunk" where
  "chunk_of_token t = (case t of None \<Rightarrow> bc_null | Some b \<Rightarrow> bc_of_managed b)"

definition gm_push :: "managed_buffer \<Rightarrow> gbm \<Rightarrow> gbm" where
  "gm_push buff g =
     (let base = (if rd_empty (gm_ready g) then bm_setFrontBuffer (bc_of_managed buff) (gm_base g) else gm_base g)
      in g\<lparr>gm_base := base, gm_ready := rd_push_back (Some buff) (gm_ready g)\<rparr>)"

text \<open>\<open>bc_take n c\<close>: the chunk with \<open>n\<close> bytes removed in front.\<close>

definition bc_take :: "usize \<Rightarrow> buffer_chunk \<Rightarrow> buffer_chunk" where
  "bc_take n c = c\<lparr>bc_address := add64 (bc_address c) n, bc_length := sub64 (bc_length c) n\<rparr>"

definition gm_pop :: "usize \<Rightarrow> gbm \<Rightarrow> gbm" where
  "gm_pop numBytes g =
     (let front = gm_front g in
      if bc_length front \<noteq> 0 \<and> bc_length front \<ge> mul64 numBytes 2
      then g\<lparr>gm_base := bm_setFrontBuffer (bc_take numBytes front) (gm_base g)\<rparr>
      else
        let ready = rd_pop_front None (gm_ready g);
            next = (if rd_empty ready then bc_null else chunk_of_token (rd_front ready))
        in g\<lparr>gm_ready := ready, gm_base := bm_setFrontBuffer next (gm_base g)\<rparr>)"

text \<open>
  \<open>init\<close> creates a token over a new buffer in every turn; the handle goes out of scope at once, which
  returns the token to the manager. \<open>mk i\<close> is the buffer allocated in turn \<open>i\<close>, \<open>tok i\<close> the identity
  of its token and \<open>self\<close> the manager.
\<close>

definition gm_init :: "(nat \<Rightarrow> shared_buffer) \<Rightarrow> (nat \<Rightarrow> nat) \<Rightarrow> nat \<Rightarrow> bm_args \<Rightarrow> gbm \<Rightarrow> gbm result" where
  "gm_init mk tok self args g = result_bind (bm_init (gm_base g)) (\<lambda>base.
     Inr (fold (\<lambda>i. gm_push \<lparr>mr_impl = tok i, mr_manager = Some self, mr_buffer = mk i, mr_slabIndex = 0\<rparr>)
            [0..<ba_numBuffers args]
            (g\<lparr>gm_base := base, gm_ready := rd_set_capacity None (ba_numBuffers args) (gm_ready g)\<rparr>)))"

section \<open>The circular manager\<close>

record cbm =
  cm_base :: bm_base
  cm_frontAddress :: usize
  cm_bufferSize :: usize
  cm_bytesToPop :: usize
  cm_circBuff :: shared_buffer
  cm_ready :: "managed_buffer option ordered_queue"

definition cm_new :: cbm where
  "cm_new = \<lparr>cm_base = bm_new, cm_frontAddress = 0, cm_bufferSize = 0, cm_bytesToPop = 0,
     cm_circBuff = sb_null, cm_ready = oq_new None\<rparr>"

definition cm_empty :: "cbm \<Rightarrow> bool" where
  "cm_empty c = oq_empty (cm_ready c)"

definition cm_front :: "cbm \<Rightarrow> buffer_chunk" where
  "cm_front c = bm_front (cm_base c)"

definition token_reset :: "nat \<Rightarrow> shared_buffer \<Rightarrow> managed_buffer \<Rightarrow> managed_buffer" where
  "token_reset self sbuff t = t\<lparr>mr_manager := Some self, mr_buffer := sbuff\<rparr>"

text \<open>The front token of the ready queue is reset to the next piece of the circular buffer.\<close>

definition cm_setCircFrontBuffer :: "nat \<Rightarrow> cbm \<Rightarrow> cbm result" where
  "cm_setCircFrontBuffer self c =
     result_bind (sb_sub (cm_frontAddress c) (cm_bufferSize c) (cm_circBuff c)) (\<lambda>sbuff.
       let t = map_option (token_reset self sbuff) (oq_front (cm_ready c))
       in Inr (c\<lparr>cm_ready := oq_set_front t (cm_ready c),
                 cm_base := bm_setFrontBuffer (chunk_of_token t) (cm_base c)\<rparr>))"

definition cm_push :: "nat \<Rightarrow> managed_buffer \<Rightarrow> cbm \<Rightarrow> cbm result" where
  "cm_push self buff c =
     (let wasEmpty = oq_empty (cm_ready c);
          c' = c\<lparr>cm_ready := oq_push None (Some buff) (mr_slabIndex buff) (cm_ready c)\<rparr>
      in if \<not> oq_empty (cm_ready c') \<and> wasEmpty then cm_setCircFrontBuffer self c' else Inr c')"

definition cm_pop :: "nat \<Rightarrow> usize \<Rightarrow> cbm \<Rightarrow> cbm result" where
  "cm_pop self numBytes c0 =
     (let c = c0\<lparr>cm_bytesToPop := add64 (cm_bytesToPop c0) numBytes\<rparr>; front = cm_front c in
      if bc_length front \<ge> mul64 numBytes 2
      then Inr (c\<lparr>cm_base := bm_setFrontBuffer (bc_take numBytes front) (cm_base c)\<rparr>)
      else
        let fa = add64 (cm_frontAddress c) (cm_bytesToPop c);
            circ = cm_circBuff c;
            fa = (if fa \<ge> add64 (sb_address circ) (sb_length circ) then sub64 fa (sb_length circ) else fa);
            c' = c\<lparr>cm_ready := oq_pop None (cm_ready c), cm_frontAddress := fa, cm_bytesToPop := 0\<rparr>
        in if oq_empty (cm_ready c') then Inr (c'\<lparr>cm_base := bm_setFrontBuffer bc_null (cm_base c')\<rparr>)
           else cm_setCircFrontBuffer self c')"

fun cm_init_loop :: "nat \<Rightarrow> (nat \<Rightarrow> nat) \<Rightarrow> nat list \<Rightarrow> cbm \<Rightarrow> cbm result" where
  "cm_init_loop self tok [] c = Inr c"
| "cm_init_loop self tok (i # is) c =
     result_bind (cm_push self \<lparr>mr_impl = tok i, mr_manager = Some self, mr_buffer = cm_circBuff c, mr_slabIndex = i\<rparr> c)
       (cm_init_loop self tok is)"

text \<open>\<open>circ\<close> is the outcome of \<open>makeCirc\<close> for \<open>bufferSize * numBuffers\<close> bytes.\<close>

definition cm_init :: "(usize \<Rightarrow> shared_buffer result) \<Rightarrow> (nat \<Rightarrow> nat) \<Rightarrow> nat \<Rightarrow> bm_args \<Rightarrow> cbm \<Rightarrow> cbm result" where
  "cm_init circ tok self args c = result_bind (bm_init (cm_base c)) (\<lambda>base.
     result_bind (circ (mul64 (ba_bufferSize args) (ba_numBuffers args))) (\<lambda>buff.
     cm_init_loop self tok [0..<ba_numBuffers args]
       (c\<lparr>cm_base := base, cm_circBuff := buff, cm_frontAddress := sb_address buff,
          cm_bufferSize := ba_bufferSize args,
          cm_ready := oq_new_capacity None (ba_numBuffers args)\<rparr>)))"

section \<open>The contract of a buffer manager\<close>

text \<open>
  A client sees the identities of the tokens that are available, in order; a token it returns may
  have to wait before it becomes available again. \<open>ok_push\<close> says which tokens may be returned.
  No operation throws, and no token is lost or duplicated.
\<close>

locale buffer_manager =
  fixes inv :: "'s \<Rightarrow> bool" and avail :: "'s \<Rightarrow> nat list" and waiting :: "'s \<Rightarrow> nat multiset"
    and is_empty :: "'s \<Rightarrow> bool" and front :: "'s \<Rightarrow> buffer_chunk"
    and pop :: "usize \<Rightarrow> 's \<Rightarrow> 's result" and push :: "managed_buffer \<Rightarrow> 's \<Rightarrow> 's result"
    and ok_push :: "managed_buffer \<Rightarrow> 's \<Rightarrow> bool"
  assumes empty_avail: "inv s \<Longrightarrow> is_empty s \<longleftrightarrow> avail s = []"
    and front_avail: "inv s \<Longrightarrow> avail s \<noteq> [] \<Longrightarrow> map_option mr_impl (bc_managed (front s)) = Some (hd (avail s))"
    and pop_avail: "inv s \<Longrightarrow> avail s \<noteq> [] \<Longrightarrow> n \<le> bc_length (front s) \<Longrightarrow>
      \<exists>s'. pop n s = Inr s' \<and> inv s' \<and> waiting s' = waiting s \<and> (avail s' = avail s \<or> avail s' = tl (avail s))"
    and push_avail: "inv s \<Longrightarrow> ok_push t s \<Longrightarrow>
      \<exists>s' moved. push t s = Inr s' \<and> inv s' \<and> avail s' = avail s @ moved \<and>
        mset moved + waiting s' = waiting s + {#mr_impl t#}"
begin

text \<open>The tokens that are inside the manager after a pop and after a push.\<close>

lemma pop_tokens:
  assumes "inv s" "\<not> is_empty s" "n \<le> bc_length (front s)"
  obtains s' where "pop n s = Inr s'" "inv s'"
    "mset (avail s) + waiting s = mset (avail s') + waiting s' \<or>
     mset (avail s) + waiting s = mset (avail s') + waiting s' + {#hd (avail s)#}"
proof -
  have ne: "avail s \<noteq> []" using assms empty_avail by blast
  from pop_avail[OF assms(1) ne assms(3)] obtain s' where s': "pop n s = Inr s'" "inv s'"
    "waiting s' = waiting s" "avail s' = avail s \<or> avail s' = tl (avail s)" by blast
  have "mset (avail s) = add_mset (hd (avail s)) (mset (tl (avail s)))"
    using ne by (cases "avail s") auto
  with s' that show thesis by force
qed

lemma push_tokens:
  assumes "inv s" "ok_push t s"
  obtains s' where "push t s = Inr s'" "inv s'"
    "mset (avail s') + waiting s' = mset (avail s) + waiting s + {#mr_impl t#}"
  using push_avail[OF assms] that by (metis (no_types, lifting) mset_append union_assoc)

end

section \<open>The generic manager is a buffer manager\<close>

definition gm_tokens :: "gbm \<Rightarrow> managed_buffer option list" where
  "gm_tokens g = rd_list (gm_ready g)"

text \<open>The front is a suffix of the buffer of the first token.\<close>

definition gm_front_ok :: "gbm \<Rightarrow> bool" where
  "gm_front_ok g \<longleftrightarrow>
     (case gm_tokens g of [] \<Rightarrow> gm_front g = bc_null
      | t # ts \<Rightarrow> bc_managed (gm_front g) = t \<and>
          (\<exists>b. t = Some b \<and> bc_buffer (gm_front g) = mr_buffer b
            \<and> sb_address (mr_buffer b) \<le> bc_address (gm_front g)
            \<and> bc_address (gm_front g) + bc_length (gm_front g) = sb_address (mr_buffer b) + sb_length (mr_buffer b)))"

definition gm_inv :: "gbm \<Rightarrow> bool" where
  "gm_inv g \<longleftrightarrow> rd_wf (gm_ready g) \<and> gm_front_ok g \<and>
     (\<forall>t \<in> set (gm_tokens g). \<exists>b. t = Some b \<and> sb_address (mr_buffer b) + sb_length (mr_buffer b) < SIZE_MOD
        \<and> 2 * sb_length (mr_buffer b) < SIZE_MOD)"

definition gm_ok_push :: "managed_buffer \<Rightarrow> gbm \<Rightarrow> bool" where
  "gm_ok_push t g \<longleftrightarrow> length (gm_tokens g) < rd_capacity (gm_ready g)
     \<and> sb_address (mr_buffer t) + sb_length (mr_buffer t) < SIZE_MOD \<and> 2 * sb_length (mr_buffer t) < SIZE_MOD"

definition token_id :: "managed_buffer option \<Rightarrow> nat" where
  "token_id t = (case t of None \<Rightarrow> 0 | Some b \<Rightarrow> mr_impl b)"

definition gm_avail :: "gbm \<Rightarrow> nat list" where
  "gm_avail g = map token_id (gm_tokens g)"

lemma gm_front_setFront [simp]:
  "gm_front (g\<lparr>gm_base := bm_setFrontBuffer c b\<rparr>) = c"
  "gm_tokens (g\<lparr>gm_base := x\<rparr>) = gm_tokens g"
  "gm_front (g\<lparr>gm_ready := r, gm_base := bm_setFrontBuffer c b\<rparr>) = c"
  by (simp_all add: gm_front_def bm_front_def bm_setFrontBuffer_def gm_tokens_def)

lemma gm_push_inv:
  assumes "gm_inv g" "gm_ok_push t g"
  shows "gm_inv (gm_push t g)" "gm_tokens (gm_push t g) = gm_tokens g @ [Some t]"
proof -
  have wf: "rd_wf (gm_ready g)" and nf: "\<not> rd_full (gm_ready g)"
    using assms by (auto simp: gm_inv_def gm_ok_push_def gm_tokens_def rd_full_list)
  show tk: "gm_tokens (gm_push t g) = gm_tokens g @ [Some t]"
    using wf nf by (simp add: gm_push_def Let_def gm_tokens_def rd_push_back_list)
  have "rd_wf (gm_ready (gm_push t g))" using wf nf by (simp add: gm_push_def Let_def rd_push_back_wf)
  moreover have "gm_front_ok (gm_push t g)"
  proof (cases "gm_tokens g")
    case Nil
    then have "rd_empty (gm_ready g)" by (simp add: gm_tokens_def rd_empty_list)
    then have "gm_front (gm_push t g) = bc_of_managed t"
      by (simp add: gm_push_def Let_def gm_front_def bm_front_def bm_setFrontBuffer_def)
    then show ?thesis using tk Nil by (simp add: gm_front_ok_def bc_of_managed_def)
  next
    case (Cons x xs)
    then have "\<not> rd_empty (gm_ready g)" by (simp add: gm_tokens_def rd_empty_list)
    then have "gm_front (gm_push t g) = gm_front g" by (simp add: gm_push_def Let_def gm_front_def)
    then show ?thesis using tk Cons assms(1) by (simp add: gm_front_ok_def gm_inv_def)
  qed
  ultimately show "gm_inv (gm_push t g)" using assms tk by (auto simp: gm_inv_def gm_ok_push_def)
qed

lemma gm_pop_inv:
  assumes inv: "gm_inv g" and ne: "gm_tokens g \<noteq> []" and n: "n \<le> bc_length (gm_front g)"
  shows "gm_inv (gm_pop n g) \<and> (gm_tokens (gm_pop n g) = gm_tokens g \<or> gm_tokens (gm_pop n g) = tl (gm_tokens g))"
proof -
  obtain t ts where t: "gm_tokens g = t # ts" using ne by (cases "gm_tokens g") auto
  from inv t obtain b where b: "t = Some b" "bc_managed (gm_front g) = Some b" "bc_buffer (gm_front g) = mr_buffer b"
    "sb_address (mr_buffer b) \<le> bc_address (gm_front g)"
    "bc_address (gm_front g) + bc_length (gm_front g) = sb_address (mr_buffer b) + sb_length (mr_buffer b)"
    "sb_address (mr_buffer b) + sb_length (mr_buffer b) < SIZE_MOD" "2 * sb_length (mr_buffer b) < SIZE_MOD"
    by (auto simp: gm_inv_def gm_front_ok_def)
  have wf: "rd_wf (gm_ready g)" and l: "rd_list (gm_ready g) = t # ts"
    using inv t by (auto simp: gm_inv_def gm_tokens_def)
  show ?thesis
  proof (cases "bc_length (gm_front g) \<noteq> 0 \<and> bc_length (gm_front g) \<ge> mul64 n 2")
    case True
    then have p: "gm_pop n g = g\<lparr>gm_base := bm_setFrontBuffer (bc_take n (gm_front g)) (gm_base g)\<rparr>"
      by (simp add: gm_pop_def Let_def)
    have "bc_address (bc_take n (gm_front g)) = bc_address (gm_front g) + n"
      "bc_length (bc_take n (gm_front g)) = bc_length (gm_front g) - n"
      using b n by (simp_all add: bc_take_def size_arith)
    then show ?thesis using inv b n t
      by (simp add: p gm_inv_def gm_front_ok_def bc_take_def)
  next
    case False
    let ?r = "rd_pop_front None (gm_ready g)"
    have r: "rd_list ?r = ts" "rd_wf ?r"
      using wf l by (simp_all add: rd_pop_front_list rd_pop_front_wf rd_empty_list)
    let ?next = "if rd_empty ?r then bc_null else chunk_of_token (rd_front ?r)"
    have p: "gm_pop n g = g\<lparr>gm_ready := ?r, gm_base := bm_setFrontBuffer ?next (gm_base g)\<rparr>"
      using False by (auto simp: gm_pop_def Let_def)
    have tk: "gm_tokens (gm_pop n g) = ts" using r by (simp add: p gm_tokens_def)
    have "gm_front_ok (gm_pop n g)"
    proof (cases ts)
      case Nil
      then show ?thesis using tk r by (simp add: gm_front_ok_def p rd_empty_list)
    next
      case (Cons u us)
      obtain b' where "u = Some b'" using inv t Cons by (auto simp: gm_inv_def)
      moreover have "rd_front ?r = u" using rd_front_list[OF r(2)] r(1) Cons by simp
      ultimately show ?thesis
        using tk r Cons by (simp add: gm_front_ok_def p rd_empty_list chunk_of_token_def bc_of_managed_def)
    qed
    moreover have "rd_wf (gm_ready (gm_pop n g))" using r by (simp add: p)
    ultimately show ?thesis using tk t inv by (auto simp: gm_inv_def)
  qed
qed

interpretation gm: buffer_manager gm_inv gm_avail "\<lambda>_. {#}" gm_empty gm_front "\<lambda>n g. Inr (gm_pop n g)"
  "\<lambda>t g. Inr (gm_push t g)" gm_ok_push
proof
  fix s n t
  show "gm_inv s \<Longrightarrow> gm_empty s \<longleftrightarrow> gm_avail s = []"
    by (simp add: gm_empty_def rd_empty_list gm_avail_def gm_tokens_def)
  show "gm_inv s \<Longrightarrow> gm_avail s \<noteq> [] \<Longrightarrow> map_option mr_impl (bc_managed (gm_front s)) = Some (hd (gm_avail s))"
    by (cases "gm_tokens s") (auto simp: gm_inv_def gm_front_ok_def gm_avail_def token_id_def)
  show "gm_inv s \<Longrightarrow> gm_avail s \<noteq> [] \<Longrightarrow> n \<le> bc_length (gm_front s) \<Longrightarrow>
      \<exists>s'. Inr (gm_pop n s) = Inr s' \<and> gm_inv s' \<and> {#} = {#} \<and> (gm_avail s' = gm_avail s \<or> gm_avail s' = tl (gm_avail s))"
    using gm_pop_inv[of s n] by (auto simp: gm_avail_def map_tl)
  show "gm_inv s \<Longrightarrow> gm_ok_push t s \<Longrightarrow>
      \<exists>s' moved. Inr (gm_push t s) = Inr s' \<and> gm_inv s' \<and> gm_avail s' = gm_avail s @ moved \<and>
        mset moved + {#} = {#} + {#mr_impl t#}"
    using gm_push_inv[of s t] by (auto simp: gm_avail_def token_id_def)
qed

section \<open>The circular manager: ghost state\<close>

text \<open>
  Tokens are numbered in the order of availability; \<open>f\<close>, \<open>P\<close>, \<open>n\<close>, \<open>b\<close> are those of the ordered
  queue. Bytes are counted absolutely: token \<open>t\<close> was opened at byte \<open>S t\<close>, and \<open>S n\<close> is where the
  current one starts; byte \<open>x\<close> lives at offset \<open>x mod L\<close> of the ring at address \<open>A\<close>.
\<close>

record ring_ghost =
  rg_f :: "nat \<Rightarrow> managed_buffer option"
  rg_P :: "nat set"
  rg_n :: nat
  rg_b :: nat
  rg_S :: "nat \<Rightarrow> nat"

definition cm_circ_ok :: "nat \<Rightarrow> cbm \<Rightarrow> bool" where
  "cm_circ_ok N c \<longleftrightarrow> sb_circ (cm_circBuff c) \<and> 0 < cm_bufferSize c
     \<and> N * cm_bufferSize c \<le> sb_length (cm_circBuff c) \<and> 0 < N"

definition cm_queue_ok :: "nat \<Rightarrow> ring_ghost \<Rightarrow> cbm \<Rightarrow> bool" where
  "cm_queue_ok N g c \<longleftrightarrow> oq_rel N (rg_f g) (rg_P g) (rg_n g) (rg_b g) (cm_ready c)
     \<and> (\<forall>s \<in> rg_P g. \<exists>t. rg_f g s = Some t \<and> mr_slabIndex t = s mod N)"

definition cm_pos_ok :: "ring_ghost \<Rightarrow> cbm \<Rightarrow> bool" where
  "cm_pos_ok g c \<longleftrightarrow> (\<forall>t < rg_n g. rg_S g t \<le> rg_S g (Suc t) \<and> rg_S g (Suc t) \<le> rg_S g t + cm_bufferSize c)
     \<and> cm_frontAddress c = sb_address (cm_circBuff c) + rg_S g (rg_n g) mod sb_length (cm_circBuff c)"

definition cm_front_ok :: "ring_ghost \<Rightarrow> cbm \<Rightarrow> bool" where
  "cm_front_ok g c \<longleftrightarrow>
     (if rg_n g < rg_b g
      then bc_managed (cm_front c) = rg_f g (rg_n g)
        \<and> bc_address (cm_front c) = cm_frontAddress c + cm_bytesToPop c
        \<and> bc_length (cm_front c) = cm_bufferSize c - cm_bytesToPop c \<and> cm_bytesToPop c \<le> cm_bufferSize c
      else cm_front c = bc_null \<and> cm_bytesToPop c = 0)"

definition cm_rel :: "nat \<Rightarrow> ring_ghost \<Rightarrow> cbm \<Rightarrow> bool" where
  "cm_rel N g c \<longleftrightarrow> cm_circ_ok N c \<and> cm_queue_ok N g c \<and> cm_pos_ok g c \<and> cm_front_ok g c"

lemma cm_circ_okD:
  assumes "cm_circ_ok N c"
  shows "sb_circ (cm_circBuff c)" "0 < cm_bufferSize c" "0 < N" "N * cm_bufferSize c \<le> sb_length (cm_circBuff c)"
    "cm_bufferSize c \<le> sb_length (cm_circBuff c)" "0 < sb_length (cm_circBuff c)"
    "sb_alias (cm_circBuff c) = sb_address (cm_circBuff c) + sb_length (cm_circBuff c)"
    "sb_address (cm_circBuff c) + 2 * sb_length (cm_circBuff c) < SIZE_MOD"
proof -
  show g: "sb_circ (cm_circBuff c)" "0 < cm_bufferSize c" "0 < N" "N * cm_bufferSize c \<le> sb_length (cm_circBuff c)"
    using assms by (auto simp: cm_circ_ok_def)
  have "cm_bufferSize c \<le> N * cm_bufferSize c" using g(3) by (cases N) auto
  from this g(4) show "cm_bufferSize c \<le> sb_length (cm_circBuff c)" by (rule order_trans)
  show "0 < sb_length (cm_circBuff c)" "sb_alias (cm_circBuff c) = sb_address (cm_circBuff c) + sb_length (cm_circBuff c)"
    "sb_address (cm_circBuff c) + 2 * sb_length (cm_circBuff c) < SIZE_MOD"
    using g(1) by (auto simp: sb_circ_def)
qed

lemma cm_queue_empty:
  assumes "cm_queue_ok N g c"
  shows "cm_empty c \<longleftrightarrow> rg_n g = rg_b g" "rg_n g \<le> rg_b g"
  using oq_relD(8,11)[of N "rg_f g" "rg_P g" "rg_n g" "rg_b g" "cm_ready c"] assms
  by (auto simp: cm_queue_ok_def cm_empty_def oq_empty_def rd_empty_list oq_list_def)

text \<open>Preparing the next front never throws: the piece lies inside the double mapping.\<close>

lemma cm_setCircFrontBuffer_rel:
  assumes circ: "cm_circ_ok N c" and que: "cm_queue_ok N g c" and pos: "cm_pos_ok g c"
    and lt: "rg_n g < rg_b g" and zero: "cm_bytesToPop c = 0"
  shows "\<exists>c' t t'. cm_setCircFrontBuffer self c = Inr c' \<and> rg_f g (rg_n g) = Some t
    \<and> mr_impl t' = mr_impl t \<and> cm_rel N (g\<lparr>rg_f := (rg_f g)(rg_n g := Some t')\<rparr>) c'
    \<and> cm_circBuff c' = cm_circBuff c \<and> cm_bufferSize c' = cm_bufferSize c
    \<and> cm_frontAddress c' = cm_frontAddress c \<and> cm_bytesToPop c' = 0"
proof -
  let ?b = "cm_circBuff c" and ?bs = "cm_bufferSize c" and ?fa = "cm_frontAddress c"
  note ci = cm_circ_okD[OF circ]
  define d where "d = rg_S g (rg_n g) mod sb_length ?b"
  have d: "d < sb_length ?b" using ci(6) by (simp add: d_def)
  have fa: "?fa = sb_address ?b + d" using pos by (simp add: cm_pos_ok_def d_def)
  have sm: "?fa + ?bs < SIZE_MOD" using fa d ci(5,8) by linarith
  have inb: "?fa \<in> {sb_address ?b ..< sb_address ?b + sb_length ?b}" using fa d by simp
  have "{?fa ..< ?fa + ?bs} \<subseteq> sb_span ?b" using fa d ci(5,6,7) by (auto simp: sb_span_def)
  with sb_sub_exact[OF disjI2[OF ci(1)] sm] inb obtain sb where
    sb: "sb_sub ?fa ?bs ?b = Inr sb" "sb_address sb = ?fa" "sb_length sb = ?bs"
    by (cases "sb_sub ?fa ?bs ?b") auto
  have nP: "rg_n g \<in> rg_P g" using que lt oq_relD(9) by (fastforce simp: cm_queue_ok_def)
  then obtain t where t: "rg_f g (rg_n g) = Some t" "mr_slabIndex t = rg_n g mod N"
    using que by (auto simp: cm_queue_ok_def)
  have R: "oq_rel N (rg_f g) (rg_P g) (rg_n g) (rg_b g) (cm_ready c)" using que by (simp add: cm_queue_ok_def)
  have fr: "oq_front (cm_ready c) = Some t" using oq_pop_rel(2)[OF R lt] t by simp
  let ?t' = "token_reset self sb t"
  let ?c' = "c\<lparr>cm_ready := oq_set_front (Some ?t') (cm_ready c), cm_base := bm_setFrontBuffer (bc_of_managed ?t') (cm_base c)\<rparr>"
  let ?g' = "g\<lparr>rg_f := (rg_f g)(rg_n g := Some ?t')\<rparr>"
  have run: "cm_setCircFrontBuffer self c = Inr ?c'"
    using sb(1) fr by (simp add: cm_setCircFrontBuffer_def chunk_of_token_def)
  have "cm_queue_ok N ?g' ?c'"
    using que oq_set_front_rel[OF R lt, of "Some ?t'"] t by (auto simp: cm_queue_ok_def token_reset_def)
  moreover have "cm_front_ok ?g' ?c'"
    using lt zero sb by (simp add: cm_front_ok_def cm_front_def bm_front_def bm_setFrontBuffer_def
        bc_of_managed_def token_reset_def)
  moreover have "cm_circ_ok N ?c'" "cm_pos_ok ?g' ?c'" using circ pos by (simp_all add: cm_circ_ok_def cm_pos_ok_def)
  ultimately have "cm_rel N ?g' ?c'" by (simp add: cm_rel_def)
  moreover have "mr_impl ?t' = mr_impl t" by (simp add: token_reset_def)
  ultimately show ?thesis
    using run t(1) zero by (intro exI[of _ ?c'] exI[of _ t] exI[of _ ?t']) simp
qed

lemma cm_front_update_ready [simp]: "cm_front (c\<lparr>cm_ready := r\<rparr>) = cm_front c"
  "cm_front (c\<lparr>cm_bytesToPop := k\<rparr>) = cm_front c"
  by (simp_all add: cm_front_def)

lemma token_id_upd:
  "f n = Some t0 \<Longrightarrow> mr_impl t' = mr_impl t0 \<Longrightarrow> \<forall>x. token_id ((f(n := Some t')) x) = token_id (f x)"
  by (simp add: token_id_def)

lemma cm_push_rel:
  assumes rel: "cm_rel N g c" and new: "s \<notin> rg_P g" and win: "s < rg_n g + N" and slab: "mr_slabIndex t = s mod N"
  shows "\<exists>c' g'. cm_push self t c = Inr c' \<and> cm_rel N g' c' \<and> rg_P g' = insert s (rg_P g) \<and> rg_n g' = rg_n g
    \<and> rg_b g \<le> rg_b g' \<and> rg_b g' \<notin> rg_P g' \<and> rg_S g' = rg_S g
    \<and> (\<forall>x \<in> rg_P g. token_id (rg_f g' x) = token_id (rg_f g x)) \<and> token_id (rg_f g' s) = mr_impl t
    \<and> cm_circBuff c' = cm_circBuff c \<and> cm_bufferSize c' = cm_bufferSize c
    \<and> (rg_n g < rg_b g \<longrightarrow> cm_front c' = cm_front c) \<and> cm_bytesToPop c' = cm_bytesToPop c"
proof -
  have parts: "cm_circ_ok N c" "cm_queue_ok N g c" "cm_pos_ok g c" "cm_front_ok g c" using rel by (auto simp: cm_rel_def)
  let ?f = "(rg_f g)(s := Some t)"
  have R: "oq_rel N (rg_f g) (rg_P g) (rg_n g) (rg_b g) (cm_ready c)" using parts(2) by (simp add: cm_queue_ok_def)
  have "oq_rel N ?f (rg_P g) (rg_n g) (rg_b g) (cm_ready c)" by (rule oq_rel_cong[OF R]) (use new in auto)
  from oq_push_rel[OF this new win, of None] obtain b' where
    b': "b' \<notin> insert s (rg_P g)" "oq_rel N ?f (insert s (rg_P g)) (rg_n g) b' (oq_push None (Some t) (s mod N) (cm_ready c))"
    by auto
  have bb: "rg_b g \<le> b'" using b'(1) oq_relD(9)[OF R] by (metis insertCI in_mono lessThan_iff not_less)
  let ?c1 = "c\<lparr>cm_ready := oq_push None (Some t) (s mod N) (cm_ready c)\<rparr>"
  let ?g1 = "g\<lparr>rg_f := ?f, rg_P := insert s (rg_P g), rg_b := b'\<rparr>"
  have que1: "cm_queue_ok N ?g1 ?c1" using b'(2) parts(2) slab by (auto simp: cm_queue_ok_def)
  have circ1: "cm_circ_ok N ?c1" and pos1: "cm_pos_ok ?g1 ?c1" using parts by (simp_all add: cm_circ_ok_def cm_pos_ok_def)
  have e0: "oq_empty (cm_ready c) \<longleftrightarrow> rg_n g = rg_b g" and e1: "oq_empty (cm_ready ?c1) \<longleftrightarrow> rg_n g = b'"
    using cm_queue_empty(1)[OF parts(2)] cm_queue_empty(1)[OF que1] by (simp_all add: cm_empty_def)
  have nb: "rg_n g \<le> rg_b g" using cm_queue_empty(2)[OF parts(2)] .
  have ids: "\<forall>x \<in> rg_P g. token_id (?f x) = token_id (rg_f g x)" using new by auto
  show ?thesis
  proof (cases "rg_n g = rg_b g \<and> rg_n g < b'")
    case True
    then have zero: "cm_bytesToPop ?c1 = 0" using parts(4) by (simp add: cm_front_ok_def)
    from cm_setCircFrontBuffer_rel[OF circ1 que1 pos1 _ zero, of self] True obtain c' t0 t' where
      c': "cm_setCircFrontBuffer self ?c1 = Inr c'" "?f (rg_n g) = Some t0" "mr_impl t' = mr_impl t0"
        "cm_rel N (?g1\<lparr>rg_f := ?f(rg_n g := Some t')\<rparr>) c'" "cm_circBuff c' = cm_circBuff c"
        "cm_bufferSize c' = cm_bufferSize c" "cm_bytesToPop c' = 0"
      by auto
    have "cm_push self t c = Inr c'" using c'(1) slab e0 e1 True by (simp add: cm_push_def Let_def)
    moreover have "\<forall>x. token_id ((?f(rg_n g := Some t')) x) = token_id (?f x)"
      by (rule token_id_upd[of ?f "rg_n g" t0 t', OF c'(2,3)])
    ultimately show ?thesis
      using c' ids bb b'(1) True parts(4)
      by (intro exI[of _ c'] exI[of _ "?g1\<lparr>rg_f := ?f(rg_n g := Some t')\<rparr>"])
        (auto simp: token_id_def cm_front_ok_def)
  next
    case False
    then have run: "cm_push self t c = Inr ?c1" using slab e0 e1 bb nb by (auto simp: cm_push_def Let_def)
    have "cm_front_ok ?g1 ?c1"
    proof (cases "rg_n g < rg_b g")
      case True
      then have "rg_n g \<in> rg_P g" using oq_relD(9)[OF R] by auto
      then show ?thesis using True bb parts(4) new by (auto simp: cm_front_ok_def)
    next
      case ge: False
      then have "rg_n g = b'" using False nb bb by auto
      then show ?thesis using ge parts(4) by (simp add: cm_front_ok_def)
    qed
    then have "cm_rel N ?g1 ?c1" using que1 circ1 pos1 by (simp add: cm_rel_def)
    then show ?thesis using run ids bb b'(1)
      by (intro exI[of _ ?c1] exI[of _ ?g1]) (simp add: token_id_def)
  qed
qed

lemma mod_wrap:
  fixes x y L :: nat
  assumes "y \<le> L" "0 < L"
  shows "(x + y) mod L = (if x mod L + y \<ge> L then x mod L + y - L else x mod L + y)"
proof -
  have lt: "x mod L < L" using assms by simp
  have "(x + y) mod L = (x mod L + y) mod L" by (simp add: mod_simps)
  also have "\<dots> = (if x mod L + y \<ge> L then x mod L + y - L else x mod L + y)"
  proof (cases "x mod L + y \<ge> L")
    case True
    moreover have "x mod L + y - L < L" using lt assms by linarith
    ultimately show ?thesis by (simp only: le_mod_geq if_True mod_less)
  qed simp
  finally show ?thesis .
qed

lemma cm_pop_rel:
  assumes rel: "cm_rel N g c" and lt: "rg_n g < rg_b g" and k: "k \<le> bc_length (cm_front c)"
  shows "\<exists>c' g'. cm_pop self k c = Inr c' \<and> cm_rel N g' c' \<and> rg_P g' = rg_P g \<and> rg_b g' = rg_b g
    \<and> (\<forall>x. token_id (rg_f g' x) = token_id (rg_f g x))
    \<and> cm_circBuff c' = cm_circBuff c \<and> cm_bufferSize c' = cm_bufferSize c
    \<and> (mul64 k 2 \<le> bc_length (cm_front c) \<and> rg_n g' = rg_n g \<and> rg_S g' = rg_S g
        \<and> cm_bytesToPop c' = cm_bytesToPop c + k
      \<or> \<not> mul64 k 2 \<le> bc_length (cm_front c) \<and> rg_n g' = Suc (rg_n g) \<and> cm_bytesToPop c' = 0
        \<and> rg_S g' = (rg_S g)(Suc (rg_n g) := rg_S g (rg_n g) + cm_bytesToPop c + k))"
proof -
  have parts: "cm_circ_ok N c" "cm_queue_ok N g c" "cm_pos_ok g c" "cm_front_ok g c" using rel by (auto simp: cm_rel_def)
  note ci = cm_circ_okD[OF parts(1)]
  let ?b = "cm_circBuff c" and ?bs = "cm_bufferSize c" and ?p = "cm_bytesToPop c" and ?n = "rg_n g"
  let ?A = "sb_address ?b" and ?L = "sb_length ?b"
  define d where "d = rg_S g ?n mod ?L"
  have d: "d < ?L" using ci(6) by (simp add: d_def)
  have fa: "cm_frontAddress c = ?A + d" using parts(3) by (simp add: cm_pos_ok_def d_def)
  have fr: "bc_managed (cm_front c) = rg_f g ?n" "bc_address (cm_front c) = cm_frontAddress c + ?p"
    "bc_length (cm_front c) = ?bs - ?p" "?p \<le> ?bs"
    using parts(4) lt by (auto simp: cm_front_ok_def)
  have kp: "?p + k \<le> ?bs" using k fr(3,4) by linarith
  have bsm: "2 * ?bs < SIZE_MOD" "?A + d + ?bs < SIZE_MOD" using ci(5,8) d by linarith+
  have ar: "add64 ?p k = ?p + k" "mul64 k 2 = k * 2" using kp bsm by (simp_all add: size_arith)
  let ?c1 = "c\<lparr>cm_bytesToPop := ?p + k\<rparr>"
  show ?thesis
  proof (cases "bc_length (cm_front c) \<ge> k * 2")
    case True
    let ?c' = "?c1\<lparr>cm_base := bm_setFrontBuffer (bc_take k (cm_front c)) (cm_base c)\<rparr>"
    have run: "cm_pop self k c = Inr ?c'" using True ar by (simp add: cm_pop_def Let_def)
    have take: "bc_address (bc_take k (cm_front c)) = cm_frontAddress c + (?p + k)"
      "bc_length (bc_take k (cm_front c)) = ?bs - (?p + k)" "bc_managed (bc_take k (cm_front c)) = rg_f g ?n"
      using fr k kp bsm fa by (simp_all add: bc_take_def size_arith)
    have "cm_front_ok g ?c'" using lt take kp
      by (simp add: cm_front_ok_def cm_front_def bm_front_def bm_setFrontBuffer_def)
    moreover have "cm_circ_ok N ?c'" "cm_queue_ok N g ?c'" "cm_pos_ok g ?c'"
      using parts by (simp_all add: cm_circ_ok_def cm_queue_ok_def cm_pos_ok_def)
    ultimately have "cm_rel N g ?c'" by (simp add: cm_rel_def)
    then show ?thesis using run True ar by (intro exI[of _ ?c'] exI[of _ g]) simp
  next
    case False
    let ?T = "rg_S g ?n + ?p + k"
    let ?g1 = "g\<lparr>rg_n := Suc ?n, rg_S := (rg_S g)(Suc ?n := ?T)\<rparr>"
    let ?fa = "if ?A + d + (?p + k) \<ge> ?A + ?L then ?A + d + (?p + k) - ?L else ?A + d + (?p + k)"
    have faq: "?fa = ?A + ?T mod ?L"
      using mod_wrap[of "?p + k" ?L "rg_S g ?n"] kp ci(5,6) by (simp add: add.assoc d_def[symmetric])
    have ar2: "add64 (?A + d) (?p + k) = ?A + d + (?p + k)" "add64 ?A ?L = ?A + ?L"
      "?A + d + (?p + k) \<ge> ?A + ?L \<Longrightarrow> sub64 (?A + d + (?p + k)) ?L = ?A + d + (?p + k) - ?L"
      using bsm kp ci(8) by (simp_all add: size_arith)
    let ?c2 = "c\<lparr>cm_ready := oq_pop None (cm_ready c), cm_frontAddress := ?fa, cm_bytesToPop := 0\<rparr>"
    have run: "cm_pop self k c = (if oq_empty (cm_ready ?c2)
        then Inr (?c2\<lparr>cm_base := bm_setFrontBuffer bc_null (cm_base ?c2)\<rparr>) else cm_setCircFrontBuffer self ?c2)"
      using False ar ar2 fa by (simp add: cm_pop_def Let_def)
    have R: "oq_rel N (rg_f g) (rg_P g) ?n (rg_b g) (cm_ready c)" using parts(2) by (simp add: cm_queue_ok_def)
    have que: "cm_queue_ok N ?g1 ?c2"
      using parts(2) oq_pop_rel(1)[OF R lt, of None] by (simp add: cm_queue_ok_def)
    have circ: "cm_circ_ok N ?c2" using parts(1) by (simp add: cm_circ_ok_def)
    have pos: "cm_pos_ok ?g1 ?c2"
      using parts(3) kp faq by (auto simp: cm_pos_ok_def less_Suc_eq)
    have emp: "oq_empty (cm_ready ?c2) \<longleftrightarrow> Suc ?n = rg_b g"
      using cm_queue_empty(1)[OF que] by (simp add: cm_empty_def)
    show ?thesis
    proof (cases "Suc ?n = rg_b g")
      case True
      let ?c' = "?c2\<lparr>cm_base := bm_setFrontBuffer bc_null (cm_base ?c2)\<rparr>"
      have "cm_front_ok ?g1 ?c'" using True by (simp add: cm_front_ok_def cm_front_def bm_front_def bm_setFrontBuffer_def)
      moreover have "cm_circ_ok N ?c'" "cm_queue_ok N ?g1 ?c'" "cm_pos_ok ?g1 ?c'"
        using circ que pos by (simp_all add: cm_circ_ok_def cm_queue_ok_def cm_pos_ok_def)
      ultimately have "cm_rel N ?g1 ?c'" by (simp add: cm_rel_def)
      then show ?thesis using run emp True False ar by (intro exI[of _ ?c'] exI[of _ ?g1]) simp
    next
      case more: False
      then have "rg_n ?g1 < rg_b ?g1" using lt by simp
      from cm_setCircFrontBuffer_rel[OF circ que pos this, of self] obtain c' t t' where
        c': "cm_setCircFrontBuffer self ?c2 = Inr c'" "rg_f g (Suc ?n) = Some t" "mr_impl t' = mr_impl t"
          "cm_rel N (?g1\<lparr>rg_f := (rg_f g)(Suc ?n := Some t')\<rparr>) c'" "cm_circBuff c' = cm_circBuff c"
          "cm_bufferSize c' = ?bs" "cm_bytesToPop c' = 0"
        by auto
      have "\<forall>x. token_id (((rg_f g)(Suc ?n := Some t')) x) = token_id (rg_f g x)"
        by (rule token_id_upd[of "rg_f g" "Suc ?n" t t', OF c'(2,3)])
      then show ?thesis using run emp more c' False ar
        by (intro exI[of _ c'] exI[of _ "?g1\<lparr>rg_f := (rg_f g)(Suc ?n := Some t')\<rparr>"]) simp
    qed
  qed
qed

section \<open>The circular manager is a buffer manager\<close>

definition cm_inv :: "cbm \<Rightarrow> bool" where
  "cm_inv c \<longleftrightarrow> (\<exists>N g. cm_rel N g c)"

definition cm_avail :: "cbm \<Rightarrow> nat list" where
  "cm_avail c = map token_id (oq_list (cm_ready c))"

definition cm_waiting :: "cbm \<Rightarrow> nat multiset" where
  "cm_waiting c = image_mset token_id (mset (oq_waiting (cm_ready c)))"

text \<open>A token may be returned when its slab is neither waiting nor available.\<close>

definition cm_ok_push :: "managed_buffer \<Rightarrow> cbm \<Rightarrow> bool" where
  "cm_ok_push t c \<longleftrightarrow> (let j = mr_slabIndex t; q = cm_ready c in
     j < oq_capacity q \<and> \<not> oq_pushedElemsFlag q ! j
     \<and> (\<forall>x \<in> set (oq_list q). \<forall>u. x = Some u \<longrightarrow> mr_slabIndex u \<noteq> j))"

lemma cm_ok_push_number:
  assumes rel: "cm_rel N g c" and ok: "cm_ok_push t c"
  obtains s where "s \<notin> rg_P g" "s < rg_n g + N" "mr_slabIndex t = s mod N"
proof -
  have R: "oq_rel N (rg_f g) (rg_P g) (rg_n g) (rg_b g) (cm_ready c)"
    and sl: "\<And>s. s \<in> rg_P g \<Longrightarrow> \<exists>u. rg_f g s = Some u \<and> mr_slabIndex u = s mod N"
    using rel by (auto simp: cm_rel_def cm_queue_ok_def)
  note r = oq_relD[OF R]
  let ?j = "mr_slabIndex t" and ?b = "rg_b g"
  have j: "?j < N" "\<not> oq_pushedElemsFlag (cm_ready c) ! ?j"
    using ok r(6) by (auto simp: cm_ok_push_def Let_def oq_capacity_def)
  let ?s = "?b + (?j + N - ?b mod N) mod N"
  have "?s mod N = (?b mod N + (?j + N - ?b mod N)) mod N" by (simp add: mod_simps)
  also have "?b mod N + (?j + N - ?b mod N) = ?j + N" using r(1) mod_less_divisor[of N ?b] by linarith
  finally have sm: "?s mod N = ?j" using j(1) by simp
  have lt: "?s < ?b + N" using r(1) by simp
  then have nP: "?s \<notin> rg_P g" using r(12)[of ?s] j(2) sm by simp
  have "?s < rg_n g + N"
  proof (rule ccontr)
    assume "\<not> ?s < rg_n g + N"
    then have w: "rg_n g \<le> ?s - N" "?s - N < ?b" "N \<le> ?s" using lt by auto
    then obtain u where u: "rg_f g (?s - N) = Some u" "mr_slabIndex u = (?s - N) mod N"
      using sl r(9) by (meson in_mono lessThan_iff)
    have "(?s - N) mod N = ?j" using sm w(3) by (metis le_mod_geq not_less)
    moreover have "Some u \<in> set (oq_list (cm_ready c))" using r(11) w u(1) by force
    ultimately show False using ok u(2) by (auto simp: cm_ok_push_def Let_def)
  qed
  with nP sm that show thesis by metis
qed

lemma cm_rel_queue:
  "cm_rel N g c \<Longrightarrow> oq_rel N (rg_f g) (rg_P g) (rg_n g) (rg_b g) (cm_ready c)"
  by (simp add: cm_rel_def cm_queue_ok_def)

lemma cm_avail_rel: "cm_rel N g c \<Longrightarrow> cm_avail c = map (\<lambda>x. token_id (rg_f g x)) [rg_n g..<rg_b g]"
  using oq_relD(11)[OF cm_rel_queue] by (simp add: cm_avail_def)

lemma cm_waiting_rel:
  "cm_rel N g c \<Longrightarrow> cm_waiting c = image_mset (\<lambda>x. token_id (rg_f g x)) (mset_set {s \<in> rg_P g. rg_b g \<le> s})"
  using oq_waiting_rel[OF cm_rel_queue] by (simp add: cm_waiting_def image_mset.compositionality comp_def)

lemma oq_rel_finite: "oq_rel N f P n b q \<Longrightarrow> finite P"
  by (rule finite_subset[of _ "{..<n + N}"]) (auto dest: oq_relD(10))

interpretation cm: buffer_manager cm_inv cm_avail cm_waiting cm_empty cm_front "cm_pop self" "cm_push self" cm_ok_push
proof
  fix s n t
  show "cm_inv s \<Longrightarrow> cm_empty s \<longleftrightarrow> cm_avail s = []"
    by (simp add: cm_empty_def oq_empty_def rd_empty_list cm_avail_def oq_list_def)
  show "cm_inv s \<Longrightarrow> cm_avail s \<noteq> [] \<Longrightarrow> map_option mr_impl (bc_managed (cm_front s)) = Some (hd (cm_avail s))"
  proof -
    assume "cm_inv s" "cm_avail s \<noteq> []"
    then obtain N g where rel: "cm_rel N g s" by (auto simp: cm_inv_def)
    then have a: "cm_avail s = map (\<lambda>x. token_id (rg_f g x)) [rg_n g..<rg_b g]" by (rule cm_avail_rel)
    with \<open>cm_avail s \<noteq> []\<close> have lt: "rg_n g < rg_b g" by simp
    have "rg_n g \<in> rg_P g" using rel lt oq_relD(9) by (fastforce simp: cm_rel_def cm_queue_ok_def)
    then obtain u where "rg_f g (rg_n g) = Some u" using rel by (auto simp: cm_rel_def cm_queue_ok_def)
    moreover have "bc_managed (cm_front s) = rg_f g (rg_n g)" using rel lt by (auto simp: cm_rel_def cm_front_ok_def)
    ultimately show ?thesis using a lt by (simp add: upt_conv_Cons token_id_def)
  qed
  show "\<exists>s'. cm_pop self n s = Inr s' \<and> cm_inv s' \<and> cm_waiting s' = cm_waiting s
      \<and> (cm_avail s' = cm_avail s \<or> cm_avail s' = tl (cm_avail s))"
    if asm: "cm_inv s" "cm_avail s \<noteq> []" "n \<le> bc_length (cm_front s)"
  proof -
    from asm(1) obtain N g where rel: "cm_rel N g s" by (auto simp: cm_inv_def)
    with asm(2) have lt: "rg_n g < rg_b g" by (simp add: cm_avail_rel)
    from cm_pop_rel[OF rel lt asm(3), of self] obtain c' g' where
      c': "cm_pop self n s = Inr c'" "cm_rel N g' c'" "rg_P g' = rg_P g" "rg_b g' = rg_b g"
        "\<And>x. token_id (rg_f g' x) = token_id (rg_f g x)" "rg_n g' = rg_n g \<or> rg_n g' = Suc (rg_n g)"
      by blast
    have "cm_avail c' = cm_avail s \<or> cm_avail c' = tl (cm_avail s)"
      using c' lt by (auto simp: cm_avail_rel[OF rel] cm_avail_rel[OF c'(2)] upt_conv_Cons)
    moreover have "cm_waiting c' = cm_waiting s"
      using c' by (simp add: cm_waiting_rel[OF rel] cm_waiting_rel[OF c'(2)])
    ultimately show ?thesis using c'(1,2) by (auto simp: cm_inv_def)
  qed
  show "\<exists>s' moved. cm_push self t s = Inr s' \<and> cm_inv s' \<and> cm_avail s' = cm_avail s @ moved \<and>
        mset moved + cm_waiting s' = cm_waiting s + {#mr_impl t#}"
    if asm: "cm_inv s" "cm_ok_push t s"
  proof -
    from asm(1) obtain N g where rel: "cm_rel N g s" by (auto simp: cm_inv_def)
    from cm_ok_push_number[OF rel asm(2)] obtain k where
      k: "k \<notin> rg_P g" "k < rg_n g + N" "mr_slabIndex t = k mod N" .
    from cm_push_rel[OF rel k, of self] obtain c' g' where
      c': "cm_push self t s = Inr c'" "cm_rel N g' c'" "rg_P g' = insert k (rg_P g)" "rg_n g' = rg_n g"
        "rg_b g \<le> rg_b g'" "\<And>x. x \<in> rg_P g \<Longrightarrow> token_id (rg_f g' x) = token_id (rg_f g x)"
        "token_id (rg_f g' k) = mr_impl t" by blast
    have R: "oq_rel N (rg_f g) (rg_P g) (rg_n g) (rg_b g) (cm_ready s)" and
      R': "oq_rel N (rg_f g') (rg_P g') (rg_n g') (rg_b g') (cm_ready c')"
      using rel c'(2) by (auto simp: cm_rel_def cm_queue_ok_def)
    have fin: "finite (rg_P g')" using oq_rel_finite[OF R'] .
    let ?id = "\<lambda>x. token_id (rg_f g' x)"
    let ?moved = "map ?id [rg_b g..<rg_b g']"
    have "[rg_n g..<rg_b g'] = [rg_n g..<rg_b g] @ [rg_b g..<rg_b g']"
      using oq_relD(8)[OF R] c'(5) by (metis le_iff_add upt_add_eq_append)
    moreover have "map ?id [rg_n g..<rg_b g] = cm_avail s"
      using oq_relD(9)[OF R] c'(6) by (auto simp: cm_avail_rel[OF rel])
    ultimately have av: "cm_avail c' = cm_avail s @ ?moved" by (simp add: cm_avail_rel[OF c'(2)] c'(4))
    have nk: "rg_b g \<le> k" using oq_relD(9)[OF R] k(1) by (metis in_mono lessThan_iff not_less)
    have "{x \<in> rg_P g'. rg_b g \<le> x} = {rg_b g..<rg_b g'} \<union> {x \<in> rg_P g'. rg_b g' \<le> x}"
      using oq_relD(9)[OF R'] c'(5) by fastforce
    moreover have "{x \<in> rg_P g'. rg_b g \<le> x} = insert k {x \<in> rg_P g. rg_b g \<le> x}" using c'(3) nk by auto
    moreover have "mset_set (insert k {x \<in> rg_P g. rg_b g \<le> x}) = add_mset k (mset_set {x \<in> rg_P g. rg_b g \<le> x})"
      using k(1) fin c'(3) by (intro mset_set.insert) auto
    moreover have "mset_set ({rg_b g..<rg_b g'} \<union> {x \<in> rg_P g'. rg_b g' \<le> x})
        = mset_set {rg_b g..<rg_b g'} + mset_set {x \<in> rg_P g'. rg_b g' \<le> x}"
      using fin by (intro mset_set_Union) auto
    ultimately have "mset_set {rg_b g..<rg_b g'} + mset_set {x \<in> rg_P g'. rg_b g' \<le> x}
        = add_mset k (mset_set {x \<in> rg_P g. rg_b g \<le> x})" by metis
    from arg_cong[OF this, of "image_mset ?id"]
    have "image_mset ?id (mset_set {rg_b g..<rg_b g'}) + image_mset ?id (mset_set {x \<in> rg_P g'. rg_b g' \<le> x})
        = add_mset (?id k) (image_mset ?id (mset_set {x \<in> rg_P g. rg_b g \<le> x}))"
      by (simp only: image_mset_union image_mset_add_mset)
    moreover have "image_mset ?id (mset_set {x \<in> rg_P g. rg_b g \<le> x}) = cm_waiting s"
      unfolding cm_waiting_rel[OF rel] using oq_rel_finite[OF R] c'(6) by (intro image_mset_cong) simp
    moreover have "mset ?moved = image_mset ?id (mset_set {rg_b g..<rg_b g'})"
      by (simp add: mset_upt)
    ultimately have "mset ?moved + cm_waiting c' = cm_waiting s + {#mr_impl t#}"
      unfolding cm_waiting_rel[OF c'(2)] c'(7) by simp
    with c'(1,2) av show ?thesis by (auto simp: cm_inv_def)
  qed
qed

section \<open>Initialization of the circular manager\<close>

lemma cm_init_loop_rel:
  assumes "cm_rel N g c" "rg_P g = {..<i}" "rg_n g = 0" "i \<le> N" "rg_S g = (\<lambda>_. 0)" "cm_bytesToPop c = 0"
    and "rg_b g \<notin> rg_P g"
  shows "\<exists>c' g'. cm_init_loop self tok [i..<N] c = Inr c' \<and> cm_rel N g' c' \<and> rg_P g' = {..<N} \<and> rg_b g' \<notin> rg_P g' \<and> rg_n g' = 0
    \<and> rg_S g' = (\<lambda>_. 0) \<and> cm_circBuff c' = cm_circBuff c \<and> cm_bufferSize c' = cm_bufferSize c \<and> cm_bytesToPop c' = 0"
  using assms
proof (induction "N - i" arbitrary: i c g)
  case 0
  then show ?case by (intro exI[of _ c] exI[of _ g]) auto
next
  case (Suc k)
  then have i: "i < N" by simp
  let ?t = "\<lparr>mr_impl = tok i, mr_manager = Some self, mr_buffer = cm_circBuff c, mr_slabIndex = i\<rparr>"
  have "i \<notin> rg_P g" "i < rg_n g + N" "mr_slabIndex ?t = i mod N" using Suc.prems i by auto
  from cm_push_rel[OF Suc.prems(1) this, of self] obtain c1 g1 where
    c1: "cm_push self ?t c = Inr c1" "cm_rel N g1 c1" "rg_P g1 = insert i (rg_P g)" "rg_n g1 = rg_n g" "rg_b g1 \<notin> rg_P g1"
      "rg_S g1 = rg_S g" "cm_circBuff c1 = cm_circBuff c" "cm_bufferSize c1 = cm_bufferSize c"
      "cm_bytesToPop c1 = cm_bytesToPop c" by blast
  have "k = N - Suc i" using Suc.hyps(2) by simp
  moreover have "rg_P g1 = {..<Suc i}" using c1(3) Suc.prems(2) by (auto simp: lessThan_Suc)
  moreover have "rg_n g1 = 0" "rg_S g1 = (\<lambda>_. 0)" "cm_bytesToPop c1 = 0" using c1 Suc.prems by simp_all
  ultimately have "\<exists>c' g'. cm_init_loop self tok [Suc i..<N] c1 = Inr c' \<and> cm_rel N g' c' \<and> rg_P g' = {..<N} \<and> rg_b g' \<notin> rg_P g' \<and> rg_n g' = 0
    \<and> rg_S g' = (\<lambda>_. 0) \<and> cm_circBuff c' = cm_circBuff c1 \<and> cm_bufferSize c' = cm_bufferSize c1 \<and> cm_bytesToPop c' = 0"
    using Suc.hyps(1)[of "Suc i", OF _ c1(2)] c1(5) i by simp
  moreover have "cm_init_loop self tok [i..<N] c = cm_init_loop self tok [Suc i..<N] c1"
    using c1(1) i by (simp add: upt_conv_Cons)
  ultimately show ?case unfolding c1(7,8) by metis
qed

definition cm_args_ok :: "(usize \<Rightarrow> shared_buffer result) \<Rightarrow> bm_args \<Rightarrow> bool" where
  "cm_args_ok circ args \<longleftrightarrow> 0 < ba_numBuffers args \<and> ba_numBuffers args < SIZE_MOD \<and> 0 < ba_bufferSize args
     \<and> (case circ (mul64 (ba_bufferSize args) (ba_numBuffers args)) of Inl e \<Rightarrow> False
        | Inr b \<Rightarrow> sb_circ b \<and> ba_numBuffers args * ba_bufferSize args \<le> sb_length b)"

lemma cm_init_rel:
  assumes "cm_args_ok circ args"
  shows "\<exists>c g. cm_init circ tok self args cm_new = Inr c \<and> cm_rel (ba_numBuffers args) g c
    \<and> rg_P g = {..<ba_numBuffers args} \<and> rg_b g \<notin> rg_P g \<and> rg_n g = 0 \<and> rg_S g = (\<lambda>_. 0) \<and> cm_bytesToPop c = 0
    \<and> cm_bufferSize c = ba_bufferSize args"
proof -
  let ?N = "ba_numBuffers args"
  obtain b where b: "circ (mul64 (ba_bufferSize args) ?N) = Inr b" "sb_circ b" "?N * ba_bufferSize args \<le> sb_length b"
    and pos: "0 < ?N" "?N < SIZE_MOD" "0 < ba_bufferSize args"
    using assms by (auto simp: cm_args_ok_def split: sum.splits)
  let ?base = "\<lparr>bm_initialized = True, bm_frontBuffer = bc_null\<rparr>"
  let ?c = "cm_new\<lparr>cm_base := ?base, cm_circBuff := b, cm_frontAddress := sb_address b,
    cm_bufferSize := ba_bufferSize args, cm_ready := oq_new_capacity None ?N\<rparr>"
  let ?g = "\<lparr>rg_f = (\<lambda>_. None), rg_P = {}, rg_n = 0, rg_b = 0, rg_S = (\<lambda>_. 0)\<rparr>"
  have "cm_rel ?N ?g ?c"
    using b pos oq_new_rel[OF pos(1,2), of "\<lambda>_. None" None]
    by (simp add: cm_rel_def cm_circ_ok_def cm_queue_ok_def cm_pos_ok_def cm_front_ok_def cm_front_def
        bm_front_def cm_new_def)
  from cm_init_loop_rel[OF this, of 0 self tok] obtain c' g' where
    "cm_init_loop self tok [0..<?N] ?c = Inr c'" "cm_rel ?N g' c'" "rg_P g' = {..<?N}" "rg_b g' \<notin> rg_P g'" "rg_n g' = 0"
    "rg_S g' = (\<lambda>_. 0)" "cm_bytesToPop c' = 0" "cm_bufferSize c' = ba_bufferSize args"
    by (auto simp: cm_new_def)
  then show ?thesis using b(1)
    by (intro exI[of _ c'] exI[of _ g']) (simp add: cm_init_def bm_init_def cm_new_def bm_new_def)
qed

section \<open>Memory in flight\<close>

text \<open>
  A run of the manager and its clients. A pop hands out a piece: the number of the current token, the
  address and the byte count. The numbers of the tokens returned so far are logged; number \<open>t + N\<close> is
  the return of the token that served number \<open>t\<close>.
\<close>

datatype cm_op = CmPop usize | CmReturn nat managed_buffer

record cm_client =
  cl_manager :: cbm
  cl_number :: nat
  cl_returned :: "nat list"
  cl_pieces :: "(nat \<times> usize \<times> usize) list"

definition cm_keeps :: "usize \<Rightarrow> cbm \<Rightarrow> bool" where
  "cm_keeps k c \<longleftrightarrow> bc_length (cm_front c) \<ge> mul64 k 2"

fun cm_exec :: "nat \<Rightarrow> cm_op \<Rightarrow> cm_client \<Rightarrow> cm_client result" where
  "cm_exec self (CmPop k) s = result_bind (cm_pop self k (cl_manager s)) (\<lambda>c.
     Inr (s\<lparr>cl_manager := c,
            cl_number := (if cm_keeps k (cl_manager s) then cl_number s else Suc (cl_number s)),
            cl_pieces := (cl_number s, bc_address (cm_front (cl_manager s)), k) # cl_pieces s\<rparr>))"
| "cm_exec self (CmReturn t buff) s = result_bind (cm_push self buff (cl_manager s)) (\<lambda>c.
     Inr (s\<lparr>cl_manager := c, cl_returned := t # cl_returned s\<rparr>))"

fun cm_op_pre :: "nat \<Rightarrow> cm_op \<Rightarrow> cm_client \<Rightarrow> bool" where
  "cm_op_pre N (CmPop k) s \<longleftrightarrow> \<not> cm_empty (cl_manager s) \<and> k \<le> bc_length (cm_front (cl_manager s))"
| "cm_op_pre N (CmReturn t buff) s \<longleftrightarrow>
     t \<notin> set (cl_returned s) \<and> t < cl_number s + N \<and> mr_slabIndex buff = t mod N"

text \<open>Every step of the run satisfies its precondition (as long as no step has thrown).\<close>

fun cm_run_ok :: "nat \<Rightarrow> nat \<Rightarrow> cm_op list \<Rightarrow> cm_client \<Rightarrow> bool" where
  "cm_run_ok self N [] s = True"
| "cm_run_ok self N (op # ops) s \<longleftrightarrow> cm_op_pre N op s \<and>
     (case cm_exec self op s of Inl e \<Rightarrow> True | Inr s' \<Rightarrow> cm_run_ok self N ops s')"

fun cm_run :: "nat \<Rightarrow> cm_op list \<Rightarrow> cm_client \<Rightarrow> cm_client result" where
  "cm_run self [] s = Inr s"
| "cm_run self (op # ops) s = result_bind (cm_exec self op s) (cm_run self ops)"

definition ring_cells :: "shared_buffer \<Rightarrow> usize \<Rightarrow> usize \<Rightarrow> nat set" where
  "ring_cells b a k = (\<lambda>x. (x - sb_address b) mod sb_length b) ` {a ..< a + k}"

definition piece_ok :: "ring_ghost \<Rightarrow> cbm \<Rightarrow> nat \<times> usize \<times> usize \<Rightarrow> bool" where
  "piece_ok g c p = (case p of (t, a, k) \<Rightarrow>
     sb_address (cm_circBuff c) \<le> a \<and> t \<le> rg_n g \<and>
     (\<exists>x. (a - sb_address (cm_circBuff c)) mod sb_length (cm_circBuff c) = x mod sb_length (cm_circBuff c)
        \<and> rg_S g t \<le> x \<and> x + k \<le> (if t < rg_n g then rg_S g (Suc t) else rg_S g t + cm_bytesToPop c)))"

definition cm_client_rel :: "nat \<Rightarrow> ring_ghost \<Rightarrow> cm_client \<Rightarrow> bool" where
  "cm_client_rel N g s \<longleftrightarrow> cm_rel N g (cl_manager s) \<and> rg_P g = set (cl_returned s) \<and> rg_n g = cl_number s
     \<and> (\<forall>p \<in> set (cl_pieces s). piece_ok g (cl_manager s) p)"

lemma cm_exec_rel:
  assumes rel: "cm_client_rel N g s" and pre: "cm_op_pre N op s"
  shows "\<exists>s' g'. cm_exec self op s = Inr s' \<and> cm_client_rel N g' s'"
proof (cases op)
  case (CmReturn t buff)
  let ?c = "cl_manager s"
  have "cm_rel N g ?c" "t \<notin> rg_P g" "t < rg_n g + N" "mr_slabIndex buff = t mod N"
    using rel pre CmReturn by (auto simp: cm_client_rel_def)
  from cm_push_rel[OF this, of self] obtain c' g' where
    c': "cm_push self buff ?c = Inr c'" "cm_rel N g' c'" "rg_P g' = insert t (rg_P g)" "rg_n g' = rg_n g"
      "rg_S g' = rg_S g" "cm_circBuff c' = cm_circBuff ?c" "cm_bytesToPop c' = cm_bytesToPop ?c" by blast
  then have "cm_client_rel N g' (s\<lparr>cl_manager := c', cl_returned := t # cl_returned s\<rparr>)"
    using rel by (fastforce simp: cm_client_rel_def piece_ok_def)
  with c'(1) CmReturn show ?thesis by auto
next
  case (CmPop k)
  let ?c = "cl_manager s"
  have cr: "cm_rel N g ?c" and ps: "\<forall>p \<in> set (cl_pieces s). piece_ok g ?c p"
    and gs: "rg_P g = set (cl_returned s)" "rg_n g = cl_number s" using rel by (auto simp: cm_client_rel_def)
  have que: "cm_queue_ok N g ?c" and pos: "cm_pos_ok g ?c" and frk: "cm_front_ok g ?c" using cr by (auto simp: cm_rel_def)
  have lt: "rg_n g < rg_b g" using pre CmPop cm_queue_empty[OF que] by auto
  have k: "k \<le> bc_length (cm_front ?c)" using pre CmPop by simp
  from cm_pop_rel[OF cr lt k, of self] obtain c' g' where
    c': "cm_pop self k ?c = Inr c'" "cm_rel N g' c'" "rg_P g' = rg_P g" "cm_circBuff c' = cm_circBuff ?c"
      "mul64 k 2 \<le> bc_length (cm_front ?c) \<and> rg_n g' = rg_n g \<and> rg_S g' = rg_S g
        \<and> cm_bytesToPop c' = cm_bytesToPop ?c + k
      \<or> \<not> mul64 k 2 \<le> bc_length (cm_front ?c) \<and> rg_n g' = Suc (rg_n g) \<and> cm_bytesToPop c' = 0
        \<and> rg_S g' = (rg_S g)(Suc (rg_n g) := rg_S g (rg_n g) + cm_bytesToPop ?c + k)" by blast
  let ?A = "sb_address (cm_circBuff ?c)" and ?L = "sb_length (cm_circBuff ?c)"
  have front: "bc_address (cm_front ?c) = ?A + rg_S g (rg_n g) mod ?L + cm_bytesToPop ?c"
    using lt pos frk by (simp add: cm_front_ok_def cm_pos_ok_def)
  have old: "piece_ok g' c' p" if "piece_ok g ?c p" for p
    using that c'(4,5) by (cases p) (fastforce simp: piece_ok_def)
  have new: "piece_ok g' c' (rg_n g, bc_address (cm_front ?c), k)"
    unfolding piece_ok_def prod.case
  proof (intro conjI exI[of _ "rg_S g (rg_n g) + cm_bytesToPop ?c"])
    show "(bc_address (cm_front ?c) - sb_address (cm_circBuff c')) mod sb_length (cm_circBuff c')
        = (rg_S g (rg_n g) + cm_bytesToPop ?c) mod sb_length (cm_circBuff c')"
      by (simp add: front c'(4) mod_simps)
  qed (use c'(4,5) front in auto)
  have keep: "cl_number s = rg_n g" "rg_n g' = (if cm_keeps k ?c then rg_n g else Suc (rg_n g))"
    using c'(5) gs(2) by (auto simp: cm_keeps_def)
  let ?s' = "s\<lparr>cl_manager := c', cl_number := (if cm_keeps k ?c then cl_number s else Suc (cl_number s)),
      cl_pieces := (cl_number s, bc_address (cm_front ?c), k) # cl_pieces s\<rparr>"
  have "cm_client_rel N g' ?s'"
    using c'(2,3) gs(1) keep old new ps by (auto simp: cm_client_rel_def)
  moreover have "cm_exec self op s = Inr ?s'" using CmPop c'(1) by simp
  ultimately show ?thesis by blast
qed

lemma cm_run_rel:
  "cm_client_rel N g s \<Longrightarrow> cm_run_ok self N ops s \<Longrightarrow> \<exists>s' g'. cm_run self ops s = Inr s' \<and> cm_client_rel N g' s'"
proof (induction ops arbitrary: g s)
  case Nil
  then show ?case by auto
next
  case (Cons op ops)
  from Cons.prems cm_exec_rel[of N g s op self] obtain s' g' where
    "cm_exec self op s = Inr s'" "cm_client_rel N g' s'" by auto
  with Cons.IH[of g' s'] Cons.prems show ?case by simp
qed

lemma cm_S_bounds:
  assumes "cm_pos_ok g c" "t \<le> m" "m \<le> rg_n g"
  shows "rg_S g t \<le> rg_S g m \<and> rg_S g m \<le> rg_S g t + (m - t) * cm_bufferSize c"
  using assms(2,3)
proof (induction "m - t" arbitrary: m)
  case 0
  then show ?case by simp
next
  case (Suc d)
  then obtain m' where m: "m = Suc m'" "t \<le> m'" by (cases m) auto
  then have "rg_S g t \<le> rg_S g m' \<and> rg_S g m' \<le> rg_S g t + (m' - t) * cm_bufferSize c" using Suc by auto
  moreover have "rg_S g m' \<le> rg_S g m \<and> rg_S g m \<le> rg_S g m' + cm_bufferSize c"
    using assms(1) Suc.prems m by (auto simp: cm_pos_ok_def)
  moreover have "(m - t) * cm_bufferSize c = (m' - t) * cm_bufferSize c + cm_bufferSize c"
    using m by (simp add: Suc_diff_le)
  ultimately show ?case by linarith
qed

lemma ring_cells_image:
  assumes "A \<le> a" "(a - A) mod L = x mod L"
  shows "(\<lambda>y. (y - A) mod L) ` {a ..< a + k} \<subseteq> (\<lambda>y. y mod L) ` {x ..< x + (k::nat)}"
proof
  fix z assume "z \<in> (\<lambda>y. (y - A) mod L) ` {a ..< a + k}"
  then obtain y where y: "a \<le> y" "y < a + k" "z = (y - A) mod L" by auto
  then have "y - A = (a - A) + (y - a)" using assms(1) by simp
  then have "z = (x + (y - a)) mod L" using y(3) assms(2) by (metis mod_add_left_eq)
  then show "z \<in> (\<lambda>y. y mod L) ` {x ..< x + k}" using y by (intro image_eqI[of _ _ "x + (y - a)"]) auto
qed

lemma mod_images_disjoint:
  assumes "x + k \<le> y" "y + m \<le> x + (L::nat)"
  shows "(\<lambda>z. z mod L) ` {x ..< x + k} \<inter> (\<lambda>z. z mod L) ` {y ..< y + m} = {}"
proof (rule ccontr)
  assume "\<not> ?thesis"
  then obtain u v where uv: "x \<le> u" "u < x + k" "y \<le> v" "v < y + m" "u mod L = v mod L"
    by (auto simp: set_eq_iff)
  then have "L dvd v - u" using assms(1) by (metis mod_eq_dvd_iff_nat le_trans less_imp_le)
  moreover have "0 < v - u" "v - u < L" using uv assms by linarith+
  ultimately show False by (meson dvd_imp_le not_le)
qed

lemma piece_front_disjoint:
  assumes rel: "cm_rel N g c" and ne: "\<not> cm_empty c" and p: "piece_ok g c (t, a, k)" and out: "t + N \<notin> rg_P g"
  shows "ring_cells (cm_circBuff c) a k
    \<inter> ring_cells (cm_circBuff c) (bc_address (cm_front c)) (bc_length (cm_front c)) = {}"
proof -
  have parts: "cm_circ_ok N c" "cm_queue_ok N g c" "cm_pos_ok g c" "cm_front_ok g c" using rel by (auto simp: cm_rel_def)
  let ?A = "sb_address (cm_circBuff c)" and ?L = "sb_length (cm_circBuff c)" and ?bs = "cm_bufferSize c"
  let ?n = "rg_n g" and ?p = "cm_bytesToPop c"
  have lt: "?n < rg_b g" using ne cm_queue_empty[OF parts(2)] by simp
  have "t + N \<ge> rg_b g" using out oq_relD(9)[OF cm_rel_queue[OF rel]] by (metis in_mono lessThan_iff not_less)
  then have nt: "Suc (?n - t) \<le> N" using lt cm_circ_okD(3)[OF parts(1)] by linarith
  obtain x where x: "?A \<le> a" "t \<le> ?n" "(a - ?A) mod ?L = x mod ?L" "rg_S g t \<le> x"
      "x + k \<le> (if t < ?n then rg_S g (Suc t) else rg_S g t + ?p)"
    using p by (auto simp: piece_ok_def)
  have fr: "bc_address (cm_front c) = ?A + rg_S g ?n mod ?L + ?p" "bc_length (cm_front c) = ?bs - ?p" "?p \<le> ?bs"
    using lt parts(3,4) by (simp_all add: cm_front_ok_def cm_pos_ok_def)
  let ?y = "rg_S g ?n + ?p"
  have "(bc_address (cm_front c) - ?A) mod ?L = ?y mod ?L" using fr(1) by (simp add: mod_simps)
  with fr(1) have fsub: "ring_cells (cm_circBuff c) (bc_address (cm_front c)) (bc_length (cm_front c))
      \<subseteq> (\<lambda>z. z mod ?L) ` {?y ..< ?y + (?bs - ?p)}"
    unfolding ring_cells_def fr(2) by (intro ring_cells_image) simp
  have psub: "ring_cells (cm_circBuff c) a k \<subseteq> (\<lambda>z. z mod ?L) ` {x ..< x + k}"
    unfolding ring_cells_def using ring_cells_image[OF x(1,3)] .
  have "x + k \<le> ?y"
  proof (cases "t < ?n")
    case True
    then show ?thesis using x(5) cm_S_bounds[OF parts(3), of "Suc t" ?n] by simp
  qed (use x in simp)
  moreover have "?y + (?bs - ?p) \<le> x + ?L"
  proof -
    have "rg_S g ?n \<le> rg_S g t + (?n - t) * ?bs" using cm_S_bounds[OF parts(3) x(2)] by simp
    moreover have "(?n - t) * ?bs + ?bs \<le> N * ?bs" using mult_le_mono1[OF nt, of ?bs] by simp
    ultimately show ?thesis using x(4) fr(3) cm_circ_okD(4)[OF parts(1)] by linarith
  qed
  ultimately have "(\<lambda>z. z mod ?L) ` {x ..< x + k} \<inter> (\<lambda>z. z mod ?L) ` {?y ..< ?y + (?bs - ?p)} = {}"
    by (rule mod_images_disjoint)
  then show ?thesis using fsub psub by (meson disjoint_iff subset_iff)
qed

definition cm_start :: "nat \<Rightarrow> cbm \<Rightarrow> cm_client" where
  "cm_start N c = \<lparr>cl_manager = c, cl_number = 0, cl_returned = [0..<N], cl_pieces = []\<rparr>"

definition cl_ring :: "cm_client \<Rightarrow> shared_buffer" where
  "cl_ring s = cm_circBuff (cl_manager s)"

text \<open>C5: No overlapping memory. The circular manager, initialized with a buffer that can hold all its
  tokens, hands out pieces of one ring. However pops of at most the front length and returns of tokens
  (in any order, each once) are interleaved, no operation throws, and while a token is available its
  front chunk shares no byte of the ring (both mappings counted) with any piece handed out earlier whose
  token has not come back.\<close>
theorem cm_no_overlap:
  assumes "cm_args_ok circ args" "N = ba_numBuffers args"
    and "cm_init circ tok self args cm_new = Inr c0" "cm_run_ok self N ops (cm_start N c0)"
  shows "\<exists>s. cm_run self ops (cm_start N c0) = Inr s
    \<and> (\<not> cm_empty (cl_manager s) \<longrightarrow>
        (\<forall>(t, a, k) \<in> set (cl_pieces s). t + N \<notin> set (cl_returned s) \<longrightarrow>
          ring_cells (cl_ring s) a k
          \<inter> ring_cells (cl_ring s) (bc_address (cm_front (cl_manager s))) (bc_length (cm_front (cl_manager s))) = {}))"
proof -
  from cm_init_rel[OF assms(1), of tok self] obtain c g where
    "cm_init circ tok self args cm_new = Inr c" "cm_rel N g c" "rg_P g = {..<N}" "rg_n g = 0"
    unfolding assms(2) by blast
  then have "cm_rel N g c0" "rg_P g = {..<N}" "rg_n g = 0" using assms(3) by simp_all
  then have "cm_client_rel N g (cm_start N c0)" by (simp add: cm_client_rel_def cm_start_def atLeast0LessThan)
  from cm_run_rel[OF this assms(4)] obtain s g' where
    s: "cm_run self ops (cm_start N c0) = Inr s" "cm_client_rel N g' s" by blast
  then show ?thesis
  proof (intro exI[of _ s] conjI impI ballI s(1))
    fix p assume ne: "\<not> cm_empty (cl_manager s)" and p: "p \<in> set (cl_pieces s)"
    obtain t a k where pt: "p = (t, a, k)" by (cases p)
    have "cm_rel N g' (cl_manager s)" "piece_ok g' (cl_manager s) (t, a, k)" "rg_P g' = set (cl_returned s)"
      using s(2) p pt by (simp_all add: cm_client_rel_def)
    from piece_front_disjoint[OF this(1) ne this(2)] this(3)
    show "case p of (t, a, k) \<Rightarrow> t + N \<notin> set (cl_returned s) \<longrightarrow> ring_cells (cl_ring s) a k
        \<inter> ring_cells (cl_ring s) (bc_address (cm_front (cl_manager s))) (bc_length (cm_front (cl_manager s))) = {}"
      unfolding cl_ring_def pt prod.case by simp
  qed
qed

theorem cm_no_overlap_witness:
  defines "circ \<equiv> \<lambda>n. Inr \<lparr>sb_address = 48, sb_length = n, sb_alias = 48 + n, sb_container = Some 0\<rparr>"
    and "args \<equiv> \<lparr>ba_numBuffers = 2, ba_bufferSize = 4, ba_nodeAffinity = -1\<rparr>"
  shows "\<exists>c0 s. cm_init circ id 7 args cm_new = Inr c0 \<and> cm_run 7 [CmPop 3] (cm_start 2 c0) = Inr s
    \<and> (\<not> cm_empty (cl_manager s) \<longrightarrow>
        (\<forall>(t, a, k) \<in> set (cl_pieces s). t + 2 \<notin> set (cl_returned s) \<longrightarrow>
          ring_cells (cl_ring s) a k
          \<inter> ring_cells (cl_ring s) (bc_address (cm_front (cl_manager s))) (bc_length (cm_front (cl_manager s))) = {}))"
proof -
  have ok: "cm_args_ok circ args" by (simp add: cm_args_ok_def circ_def args_def mul64_def sb_circ_def SIZE_MOD_def)
  have N: "2 = ba_numBuffers args" and bs: "ba_bufferSize args = 4" by (simp_all add: args_def)
  from cm_init_rel[OF ok, of id 7] obtain c0 g where
    c0: "cm_init circ id 7 args cm_new = Inr c0" "cm_rel 2 g c0" "rg_P g = {..<2}" "rg_n g = 0"
      "cm_bytesToPop c0 = 0" "cm_bufferSize c0 = 4" "rg_b g \<notin> rg_P g"
    unfolding N[symmetric] bs by blast
  have "rg_n g < rg_b g" using c0(3,4,7) by auto
  then have "\<not> cm_empty c0" "bc_length (cm_front c0) = 4"
    using c0 cm_queue_empty(1)[of 2 g c0] by (auto simp: cm_rel_def cm_front_ok_def)
  then have "cm_run_ok 7 2 [CmPop 3] (cm_start 2 c0)"
    by (simp add: cm_start_def split: sum.split)
  from cm_no_overlap[OF ok N c0(1) this] c0(1) show ?thesis by blast
qed

section \<open>Tokens are conserved\<close>

lemma gm_init_loop:
  fixes self :: nat and tok :: "nat \<Rightarrow> nat"
  assumes "gm_inv g" "length (gm_tokens g) + length js \<le> rd_capacity (gm_ready g)"
    and "\<And>i. sb_address (mk i) + sb_length (mk i) < SIZE_MOD \<and> 2 * sb_length (mk i) < SIZE_MOD"
  defines "push \<equiv> \<lambda>i. gm_push \<lparr>mr_impl = tok i, mr_manager = Some self, mr_buffer = mk i, mr_slabIndex = 0\<rparr>"
  shows "gm_inv (fold push js g) \<and> gm_avail (fold push js g) = gm_avail g @ map tok js"
  using assms(1,2)
proof (induction "js" arbitrary: g)
  case (Cons i js)
  let ?t = "\<lparr>mr_impl = tok i, mr_manager = Some self, mr_buffer = mk i, mr_slabIndex = 0\<rparr>"
  have ok: "gm_ok_push ?t g" using Cons.prems assms(3) by (simp add: gm_ok_push_def)
  have "gm_inv (push i g)" "gm_tokens (push i g) = gm_tokens g @ [Some ?t]"
    using gm_push_inv[OF Cons.prems(1) ok] by (simp_all add: push_def)
  moreover have "rd_capacity (gm_ready (push i g)) = rd_capacity (gm_ready g)"
    by (simp add: push_def gm_push_def Let_def)
  ultimately show ?case using Cons.IH[of "push i g"] Cons.prems by (simp add: gm_avail_def token_id_def)
qed simp

text \<open>the generic manager starts with all its tokens: after initialization with a positive number
  of buffers below \<open>2^64\<close>, the available tokens are exactly the created ones in order, and the
  invariant (the front is a suffix of the first token's buffer) holds; a second \<open>init\<close> throws.\<close>
theorem gm_init_tokens:
  assumes "0 < ba_numBuffers args" "ba_numBuffers args < SIZE_MOD"
    and "\<forall>i. sb_address (mk i) + sb_length (mk i) < SIZE_MOD \<and> 2 * sb_length (mk i) < SIZE_MOD"
  shows "\<exists>g. gm_init mk tok self args gm_new = Inr g \<and> gm_inv g
    \<and> gm_avail g = map tok [0..<ba_numBuffers args] \<and> gm_init mk tok self args g = Inl BufferManagerFactoryError"
proof -
  let ?N = "ba_numBuffers args"
  let ?g = "\<lparr>gm_base = bm_new\<lparr>bm_initialized := True\<rparr>, gm_ready = rd_set_capacity None ?N (rd_new None)\<rparr>"
  have wf: "rd_wf (rd_new None :: managed_buffer option ring_deque)" "rd_list (rd_new None :: managed_buffer option ring_deque) = []"
    by simp_all
  have "gm_inv ?g" "gm_tokens ?g = []" using wf assms
    by (simp_all add: gm_inv_def gm_front_ok_def gm_tokens_def gm_front_def bm_front_def bm_new_def
        rd_set_capacity_wf rd_set_capacity_list)
  moreover have "rd_capacity (gm_ready ?g) \<ge> ?N"
    using assms(1) rd_set_capacity_capacity[of "None :: managed_buffer option" ?N "rd_new None"] by (simp add: rd_new_def)
  ultimately have L: "gm_inv (fold (\<lambda>i. gm_push \<lparr>mr_impl = tok i, mr_manager = Some self, mr_buffer = mk i, mr_slabIndex = 0\<rparr>)
        [0..<?N] ?g)
    \<and> gm_avail (fold (\<lambda>i. gm_push \<lparr>mr_impl = tok i, mr_manager = Some self, mr_buffer = mk i, mr_slabIndex = 0\<rparr>)
        [0..<?N] ?g) = map tok [0..<?N]"
    using gm_init_loop[of ?g "[0..<?N]" mk tok self] assms(3) by (simp add: gm_avail_def)
  have "bm_initialized (gm_base (fold (\<lambda>i. gm_push \<lparr>mr_impl = tok i, mr_manager = Some self, mr_buffer = mk i, mr_slabIndex = 0\<rparr>)
        js h)) = bm_initialized (gm_base h)" for js h
    by (induction js arbitrary: h) (simp_all add: gm_push_def Let_def bm_setFrontBuffer_def)
  with L show ?thesis by (simp add: gm_init_def bm_init_def gm_new_def bm_new_def)
qed

theorem gm_init_tokens_witness:
  "\<exists>g. gm_init (\<lambda>i. sb_make_with 64 8 None) (\<lambda>i. i + 5) 7 bm_args_default gm_new = Inr g
    \<and> gm_avail g = [5, 6, 7, 8]"
  using gm_init_tokens[of bm_args_default "\<lambda>i. sb_make_with 64 8 None" "\<lambda>i. i + 5" 7]
  by (auto simp: bm_args_default_def SIZE_MOD_def sb_make_with_def upt_rec)

text \<open>returning a token to the circular manager never throws, keeps its invariant, and adds exactly
  that token to the tokens it holds (available ones and those that wait for an earlier one).\<close>
theorem cm_push_conserves:
  assumes "cm_inv c" "cm_ok_push t c"
  shows "\<exists>c'. cm_push self t c = Inr c' \<and> cm_inv c'
    \<and> mset (cm_avail c') + cm_waiting c' = mset (cm_avail c) + cm_waiting c + {#mr_impl t#}"
  using cm.push_tokens[OF assms, of self] by metis

theorem cm_push_conserves_witness:
  defines "args \<equiv> \<lparr>ba_numBuffers = 2, ba_bufferSize = 4, ba_nodeAffinity = -1\<rparr>"
    and "c0 \<equiv> cm_new\<lparr>cm_circBuff := \<lparr>sb_address = 48, sb_length = 8, sb_alias = 56, sb_container = Some 0\<rparr>,
      cm_frontAddress := 48, cm_bufferSize := 4, cm_ready := oq_new_capacity None 2\<rparr>"
    and "t \<equiv> \<lparr>mr_impl = 9, mr_manager = None, mr_buffer = sb_null, mr_slabIndex = 1\<rparr>"
  shows "\<exists>c'. cm_push 7 t c0 = Inr c' \<and> mset (cm_avail c') + cm_waiting c' = mset (cm_avail c0) + cm_waiting c0 + {#9#}"
proof -
  let ?g = "\<lparr>rg_f = (\<lambda>_. None), rg_P = {}, rg_n = 0, rg_b = 0, rg_S = (\<lambda>_. 0)\<rparr>"
  have R: "oq_rel 2 (\<lambda>_. None) {} 0 0 (oq_new_capacity (None :: managed_buffer option) 2)"
    by (rule oq_new_rel) (simp_all add: SIZE_MOD_def)
  then have "cm_rel 2 ?g c0"
    by (simp add: c0_def cm_rel_def cm_circ_ok_def cm_queue_ok_def cm_pos_ok_def cm_front_ok_def cm_front_def
        bm_front_def cm_new_def bm_new_def sb_circ_def SIZE_MOD_def)
  then have "cm_inv c0" by (auto simp: cm_inv_def)
  moreover have "cm_ok_push t c0"
    using oq_relD(6,11)[OF R] oq_relD(12)[OF R, of 1]
    by (simp add: cm_ok_push_def c0_def t_def Let_def oq_capacity_def)
  ultimately show ?thesis using cm_push_conserves[of c0 t 7] by (auto simp: t_def)
qed

end
