(* ===== verification/Ports.thy ===== *)
theory Ports
  imports BufferAccumulator BufferManagers
begin

text \<open>
  Labels (include/Pothos/Framework/Label.hpp, lib/Framework/Label.cpp), input ports
  (include/Pothos/Framework/InputPort.hpp and InputPortImpl.hpp, lib/Framework/InputPort.cpp) and
  output ports (OutputPort.hpp, OutputPortImpl.hpp, OutputPort.cpp) of pothos-library.

  Ports, buffer managers and the change flags of the actors live in a store: pointers to ports,
  managers and actors are numbers. Spin locks make each operation atomic, so an operation is one
  function of the store. A message object is opaque but for being null or an \<open>ObjectVector\<close>.
  Log messages are not modelled: an operation that logs an error and gives up returns the store
  as the code leaves it.
\<close>

section \<open>Labels\<close>

datatype pobject = ObNull | ObVector "pobject list" | ObOpaque nat

record label =
  lb_id :: string
  lb_data :: pobject
  lb_index :: usize
  lb_width :: usize

definition lb_default :: label where
  "lb_default = \<lparr>lb_id = [], lb_data = ObNull, lb_index = 0, lb_width = 1\<rparr>"

definition lb_new :: "string \<Rightarrow> pobject \<Rightarrow> usize \<Rightarrow> usize \<Rightarrow> label" where
  "lb_new ident data index width = \<lparr>lb_id = ident, lb_data = data, lb_index = index, lb_width = width\<rparr>"

text \<open>The integer instances of the template; both callers pass a size and 1.\<close>

definition lb_toAdjusted :: "usize \<Rightarrow> usize \<Rightarrow> label \<Rightarrow> label" where
  "lb_toAdjusted factor divisor l =
     l\<lparr>lb_index := mul64 (lb_index l) factor div divisor, lb_width := mul64 (lb_width l) factor div divisor\<rparr>"

definition lb_equal :: "label \<Rightarrow> label \<Rightarrow> bool" where
  "lb_equal r l \<longleftrightarrow> lb_index r = lb_index l \<and> lb_width r = lb_width l \<and> lb_id r = lb_id l \<and> lb_data r = lb_data l"

definition lb_less :: "label \<Rightarrow> label \<Rightarrow> bool" where
  "lb_less a b \<longleftrightarrow> lb_index a < lb_index b"

section \<open>Ports\<close>

type_synonym message = "pobject \<times> buffer_chunk"

abbreviation msg_null :: message where
  "msg_null \<equiv> (ObNull, bc_null)"

record in_port =
  ip_actor :: "nat option"
  ip_isSlot :: bool
  ip_index :: int
  ip_name :: string
  ip_dtype :: dtype
  ip_domain :: string
  ip_buffer :: buffer_chunk
  ip_elements :: usize
  ip_labelIter :: "label list"
  ip_totalElements :: usize
  ip_totalBuffers :: usize
  ip_totalLabels :: usize
  ip_totalMessages :: usize
  ip_pendingElements :: usize
  ip_reserveElements :: usize
  ip_workEvents :: usize
  ip_asyncMessages :: "message ring_deque"
  ip_slotCalls :: "message ring_deque"
  ip_inlineMessages :: "label list"
  ip_inputInlineMessages :: "label ring_deque"
  ip_bufferAccumulator :: accumulator
  ip_subscribers :: "nat list"

definition ip_new :: in_port where
  "ip_new = \<lparr>ip_actor = None, ip_isSlot = False, ip_index = -1, ip_name = [], ip_dtype = dtype_default,
     ip_domain = [], ip_buffer = bc_null, ip_elements = 0, ip_labelIter = [], ip_totalElements = 0,
     ip_totalBuffers = 0, ip_totalLabels = 0, ip_totalMessages = 0, ip_pendingElements = 0,
     ip_reserveElements = 0, ip_workEvents = 0, ip_asyncMessages = rd_new msg_null,
     ip_slotCalls = rd_new msg_null, ip_inlineMessages = [], ip_inputInlineMessages = rd_new lb_default,
     ip_bufferAccumulator = acc_new, ip_subscribers = []\<rparr>"

record out_port =
  op_actor :: "nat option"
  op_isSignal :: bool
  op_index :: int
  op_name :: string
  op_dtype :: dtype
  op_domain :: string
  op_buffer :: buffer_chunk
  op_elements :: usize
  op_totalElements :: usize
  op_totalBuffers :: usize
  op_totalLabels :: usize
  op_totalMessages :: usize
  op_pendingElements :: usize
  op_postedLabels :: "label list"
  op_postedBuffers :: "buffer_chunk ring_deque"
  op_workEvents :: usize
  op_bufferManager :: "nat option"
  op_tokenManager :: nat
  op_subscribers :: "nat list"
  op_readBeforeWritePort :: "nat option"
  op_bufferFromManager :: bool

section \<open>Buffer managers as objects\<close>

text \<open>The virtual calls on a manager, dispatched over the two built-in classes.\<close>

datatype bmgr = BmGeneric gbm | BmCircular cbm

fun bmgr_empty :: "bmgr \<Rightarrow> bool" where
  "bmgr_empty (BmGeneric g) = gm_empty g"
| "bmgr_empty (BmCircular c) = cm_empty c"

fun bmgr_front :: "bmgr \<Rightarrow> buffer_chunk" where
  "bmgr_front (BmGeneric g) = gm_front g"
| "bmgr_front (BmCircular c) = cm_front c"

fun bmgr_pop :: "nat \<Rightarrow> usize \<Rightarrow> bmgr \<Rightarrow> bmgr result" where
  "bmgr_pop self n (BmGeneric g) = Inr (BmGeneric (gm_pop n g))"
| "bmgr_pop self n (BmCircular c) = map_sum id BmCircular (cm_pop self n c)"

fun bmgr_push :: "nat \<Rightarrow> managed_buffer \<Rightarrow> bmgr \<Rightarrow> bmgr result" where
  "bmgr_push self t (BmGeneric g) = Inr (BmGeneric (gm_push t g))"
| "bmgr_push self t (BmCircular c) = map_sum id BmCircular (cm_push self t c)"

section \<open>The store\<close>

record ports =
  w_mem :: memory
  w_in :: "nat \<Rightarrow> in_port"
  w_out :: "nat \<Rightarrow> out_port"
  w_mgr :: "nat \<Rightarrow> bmgr"
  w_callback :: "nat \<Rightarrow> nat option"
  w_changed :: "nat \<Rightarrow> bool"

definition upd_in :: "nat \<Rightarrow> (in_port \<Rightarrow> in_port) \<Rightarrow> 'z ports_scheme \<Rightarrow> 'z ports_scheme" where
  "upd_in i f w = w\<lparr>w_in := (w_in w)(i := f (w_in w i))\<rparr>"

definition upd_out :: "nat \<Rightarrow> (out_port \<Rightarrow> out_port) \<Rightarrow> 'z ports_scheme \<Rightarrow> 'z ports_scheme" where
  "upd_out i f w = w\<lparr>w_out := (w_out w)(i := f (w_out w i))\<rparr>"

definition set_mgr :: "nat \<Rightarrow> bmgr \<Rightarrow> 'z ports_scheme \<Rightarrow> 'z ports_scheme" where
  "set_mgr i b w = w\<lparr>w_mgr := (w_mgr w)(i := b)\<rparr>"

text \<open>Marking an actor as changed (the waking of its thread is the business of theory ActorInterface).\<close>

definition flag_change :: "nat option \<Rightarrow> 'z ports_scheme \<Rightarrow> 'z ports_scheme" where
  "flag_change a w = (case a of None \<Rightarrow> w | Some k \<Rightarrow> w\<lparr>w_changed := (w_changed w)(k := True)\<rparr>)"

definition upd_in_flag :: "nat \<Rightarrow> (in_port \<Rightarrow> in_port) \<Rightarrow> 'z ports_scheme \<Rightarrow> 'z ports_scheme" where
  "upd_in_flag i f w = flag_change (ip_actor (w_in w i)) (upd_in i f w)"

section \<open>Operations of the input port\<close>

definition ip_getIndex :: "in_port \<Rightarrow> int" where
  "ip_getIndex p = ip_index p"

definition ip_labels :: "in_port \<Rightarrow> label list" where
  "ip_labels p = ip_labelIter p"

definition ip_consume :: "usize \<Rightarrow> in_port \<Rightarrow> in_port" where
  "ip_consume n p = p\<lparr>ip_pendingElements := add64 (ip_pendingElements p) n\<rparr>"

definition ip_setReserve :: "usize \<Rightarrow> in_port \<Rightarrow> in_port" where
  "ip_setReserve n p = p\<lparr>ip_reserveElements := n, ip_workEvents := add64 (ip_workEvents p) 1\<rparr>"

definition ip_asyncMessagesEmpty :: "in_port \<Rightarrow> bool" where
  "ip_asyncMessagesEmpty p = rd_empty (ip_asyncMessages p)"

definition ip_hasMessage :: "in_port \<Rightarrow> bool" where
  "ip_hasMessage p \<longleftrightarrow> \<not> ip_asyncMessagesEmpty p"

definition ip_asyncMessagesPop :: "in_port \<Rightarrow> pobject \<times> in_port" where
  "ip_asyncMessagesPop p =
     (if rd_empty (ip_asyncMessages p) then (ObNull, p)
      else (fst (rd_front (ip_asyncMessages p)),
            p\<lparr>ip_asyncMessages := rd_pop_front msg_null (ip_asyncMessages p)\<rparr>))"

definition ip_popMessage :: "in_port \<Rightarrow> pobject \<times> in_port" where
  "ip_popMessage p = (case ip_asyncMessagesPop p of (msg, p1) \<Rightarrow>
     (msg, p1\<lparr>ip_totalMessages := add64 (ip_totalMessages p1) 1, ip_workEvents := add64 (ip_workEvents p1) 1\<rparr>))"

fun lb_erase_first :: "label \<Rightarrow> label list \<Rightarrow> label list" where
  "lb_erase_first l [] = []"
| "lb_erase_first l (x # xs) = (if lb_equal x l then xs else x # lb_erase_first l xs)"

definition ip_removeLabel :: "label \<Rightarrow> in_port \<Rightarrow> in_port" where
  "ip_removeLabel l p =
     (if list_ex (\<lambda>x. lb_equal x l) (ip_inlineMessages p)
      then let xs = lb_erase_first l (ip_inlineMessages p)
           in p\<lparr>ip_inlineMessages := xs, ip_labelIter := xs, ip_totalLabels := add64 (ip_totalLabels p) 1,
                ip_workEvents := add64 (ip_workEvents p) 1\<rparr>
      else p)"

text \<open>The message queues double their capacity when full.\<close>

definition msg_push :: "message \<Rightarrow> message ring_deque \<Rightarrow> message ring_deque" where
  "msg_push x q = rd_push_back x (if rd_full q then rd_set_capacity msg_null (rd_capacity q * 2) q else q)"

definition in_asyncMessagesPush :: "nat \<Rightarrow> pobject \<Rightarrow> buffer_chunk \<Rightarrow> 'z ports_scheme \<Rightarrow> 'z ports_scheme" where
  "in_asyncMessagesPush i msg token =
     upd_in_flag i (\<lambda>p. p\<lparr>ip_asyncMessages := msg_push (msg, token) (ip_asyncMessages p)\<rparr>)"

definition ip_asyncMessagesClear :: "in_port \<Rightarrow> in_port" where
  "ip_asyncMessagesClear p = p\<lparr>ip_asyncMessages := rd_clear msg_null (ip_asyncMessages p)\<rparr>"

definition in_slotCallsPush :: "nat \<Rightarrow> pobject \<Rightarrow> buffer_chunk \<Rightarrow> 'z ports_scheme \<Rightarrow> 'z ports_scheme" where
  "in_slotCallsPush i args token =
     upd_in_flag i (\<lambda>p. p\<lparr>ip_slotCalls := msg_push (args, token) (ip_slotCalls p)\<rparr>)"

definition ip_slotCallsEmpty :: "in_port \<Rightarrow> bool" where
  "ip_slotCallsEmpty p = rd_empty (ip_slotCalls p)"

definition ip_slotCallsPop :: "in_port \<Rightarrow> pobject \<times> in_port" where
  "ip_slotCallsPop p = (fst (rd_front (ip_slotCalls p)),
     p\<lparr>ip_slotCalls := rd_pop_front msg_null (ip_slotCalls p)\<rparr>)"

definition ip_slotCallsClear :: "in_port \<Rightarrow> in_port" where
  "ip_slotCallsClear p = p\<lparr>ip_slotCalls := rd_clear msg_null (ip_slotCalls p)\<rparr>"

definition ip_inlineMessagesPush :: "label \<Rightarrow> in_port \<Rightarrow> in_port" where
  "ip_inlineMessagesPush l p =
     (let q = ip_inputInlineMessages p;
          q = (if rd_full q then rd_set_capacity lb_default (rd_capacity q * 2) q else q)
      in p\<lparr>ip_inputInlineMessages := rd_push_back l q\<rparr>)"

definition ip_inlineMessagesClear :: "in_port \<Rightarrow> in_port" where
  "ip_inlineMessagesClear p =
     p\<lparr>ip_inputInlineMessages := rd_clear lb_default (ip_inputInlineMessages p), ip_inlineMessages := []\<rparr>"

text \<open>\<open>bufferAccumulatorFront\<close> moves the queued labels to the user's list, from bytes to elements,
  and returns the front chunk.\<close>

function ip_move_labels :: "usize \<Rightarrow> label ring_deque \<Rightarrow> label list \<Rightarrow> label ring_deque \<times> label list" where
  "ip_move_labels sz q ls =
     (if rd_empty q then (q, ls)
      else ip_move_labels sz (rd_pop_front lb_default q) (ls @ [lb_toAdjusted 1 sz (rd_front q)]))"
  by pat_completeness auto
termination by (relation "measure (\<lambda>(_, q, _). rd_numElements q)") (auto simp: rd_pop_front_less)

declare ip_move_labels.simps [simp del]

definition ip_bufferAccumulatorFront :: "in_port \<Rightarrow> buffer_chunk \<times> in_port" where
  "ip_bufferAccumulatorFront p =
     (case ip_move_labels (dt_size (ip_dtype p)) (ip_inputInlineMessages p) (ip_inlineMessages p) of (q, ls) \<Rightarrow>
        (acc_front (ip_bufferAccumulator p), p\<lparr>ip_inputInlineMessages := q, ip_inlineMessages := ls\<rparr>))"

definition ip_bufferAccumulatorPushNoLock :: "buffer_chunk \<Rightarrow> in_port \<Rightarrow> in_port" where
  "ip_bufferAccumulatorPushNoLock buffer p =
     (if \<not> dt_bool (bc_dtype buffer) \<or> \<not> dt_bool (ip_dtype p) \<or> dt_size (ip_dtype p) = dt_size (bc_dtype buffer)
      then let buffer = (if \<not> dt_bool (bc_dtype buffer) then buffer\<lparr>bc_dtype := ip_dtype p\<rparr> else buffer)
           in p\<lparr>ip_bufferAccumulator := acc_push buffer (ip_bufferAccumulator p)\<rparr>
      else p)"

definition ip_bufferAccumulatorPush :: "buffer_chunk \<Rightarrow> in_port \<Rightarrow> in_port" where
  "ip_bufferAccumulatorPush buffer p =
     (let p = ip_bufferAccumulatorPushNoLock buffer p
      in p\<lparr>ip_totalBuffers := add64 (ip_totalBuffers p) 1\<rparr>)"

definition lb_shift_down :: "usize \<Rightarrow> label \<Rightarrow> label" where
  "lb_shift_down n l = l\<lparr>lb_index := sub64 (lb_index l) n\<rparr>"

definition ip_bufferAccumulatorPop :: "usize \<Rightarrow> in_port \<Rightarrow> in_port" where
  "ip_bufferAccumulatorPop numBytes p =
     (if numBytes > acc_getTotalBytesAvailable (ip_bufferAccumulator p) then p
      else p\<lparr>ip_bufferAccumulator := acc_pop numBytes (ip_bufferAccumulator p),
             ip_inputInlineMessages :=
               fold (\<lambda>i q. rd_set_at i (lb_shift_down numBytes (rd_at q i)) q)
                 [0..<rd_size (ip_inputInlineMessages p)] (ip_inputInlineMessages p),
             ip_workEvents := add64 (ip_workEvents p) 1\<rparr>)"

definition in_bufferAccumulatorRequire :: "(nat \<Rightarrow> nat) \<Rightarrow> (usize \<Rightarrow> shared_buffer) \<Rightarrow> usize \<Rightarrow> nat
    \<Rightarrow> 'z ports_scheme \<Rightarrow> 'z ports_scheme" where
  "in_bufferAccumulatorRequire ext mk numBytes i w =
     (case acc_require ext mk numBytes (ip_bufferAccumulator (w_in w i), w_mem w) of (a, m) \<Rightarrow>
        (upd_in i (\<lambda>p. p\<lparr>ip_bufferAccumulator := a\<rparr>) w)\<lparr>w_mem := m\<rparr>)"

definition ip_bufferAccumulatorClear :: "in_port \<Rightarrow> in_port" where
  "ip_bufferAccumulatorClear p = p\<lparr>ip_bufferAccumulator := acc_new\<rparr>"

definition lb_shift_up :: "usize \<Rightarrow> label \<Rightarrow> label" where
  "lb_shift_up n l = l\<lparr>lb_index := add64 (lb_index l) n\<rparr>"

text \<open>The labels of one post enter the queue with the number of bytes already enqueued as offset,
  then its buffers enter the accumulator.\<close>

definition ip_bufferLabelPush :: "label list \<Rightarrow> buffer_chunk ring_deque \<Rightarrow> in_port \<Rightarrow> in_port" where
  "ip_bufferLabelPush postedLabels postedBuffers p =
     (let currentBytes = acc_getTotalBytesAvailable (ip_bufferAccumulator p);
          q = ip_inputInlineMessages p;
          requiredLabelSize = rd_size q + length postedLabels;
          q = (if rd_capacity q < requiredLabelSize then rd_set_capacity lb_default requiredLabelSize q else q);
          q = fold (\<lambda>l q. rd_push_back (lb_shift_up currentBytes l) q) postedLabels q
      in fold (\<lambda>i. ip_bufferAccumulatorPushNoLock (rd_at postedBuffers i)) [0..<rd_size postedBuffers]
           (p\<lparr>ip_inputInlineMessages := q\<rparr>))"

definition in_bufferLabelPush :: "nat \<Rightarrow> label list \<Rightarrow> buffer_chunk ring_deque \<Rightarrow> 'z ports_scheme \<Rightarrow> 'z ports_scheme" where
  "in_bufferLabelPush i postedLabels postedBuffers = upd_in_flag i (ip_bufferLabelPush postedLabels postedBuffers)"

definition in_pushBuffer :: "nat \<Rightarrow> buffer_chunk \<Rightarrow> 'z ports_scheme \<Rightarrow> 'z ports_scheme" where
  "in_pushBuffer i buffer = upd_in_flag i (ip_bufferAccumulatorPush buffer)"

definition in_pushLabel :: "nat \<Rightarrow> label \<Rightarrow> 'z ports_scheme \<Rightarrow> 'z ports_scheme" where
  "in_pushLabel i l = upd_in_flag i (ip_inlineMessagesPush l)"

definition in_pushMessage :: "nat \<Rightarrow> pobject \<Rightarrow> 'z ports_scheme \<Rightarrow> 'z ports_scheme" where
  "in_pushMessage i msg w = (let w = in_asyncMessagesPush i msg bc_null w in flag_change (ip_actor (w_in w i)) w)"

definition ip_clear :: "in_port \<Rightarrow> in_port" where
  "ip_clear p = ip_slotCallsClear (ip_asyncMessagesClear (ip_inlineMessagesClear (ip_bufferAccumulatorClear p)))"

section \<open>Operations of the output port\<close>

definition op_new :: "nat \<Rightarrow> out_port" where
  "op_new tokenManager = \<lparr>op_actor = None, op_isSignal = False, op_index = -1, op_name = [], op_dtype = dtype_default,
     op_domain = [], op_buffer = bc_null, op_elements = 0, op_totalElements = 0, op_totalBuffers = 0,
     op_totalLabels = 0, op_totalMessages = 0, op_pendingElements = 0, op_postedLabels = [],
     op_postedBuffers = rd_new bc_null, op_workEvents = 0, op_bufferManager = None,
     op_tokenManager = tokenManager, op_subscribers = [], op_readBeforeWritePort = None,
     op_bufferFromManager = False\<rparr>"

text \<open>The constructor makes the token manager \<open>k\<close>: 16 tokens over empty buffers. Its callback is this port.\<close>

definition out_tokenManagerInit :: "(nat \<Rightarrow> shared_buffer) \<Rightarrow> (nat \<Rightarrow> nat) \<Rightarrow> nat \<Rightarrow> nat
    \<Rightarrow> 'z ports_scheme \<Rightarrow> 'z ports_scheme result" where
  "out_tokenManagerInit mk tok k i w =
     result_bind (gm_init mk tok k (bm_args_default\<lparr>ba_numBuffers := 16, ba_bufferSize := 0\<rparr>) gm_new) (\<lambda>g.
       Inr ((set_mgr k (BmGeneric g) w)\<lparr>w_callback := (w_callback w)(k := Some i)\<rparr>))"

definition op_produce :: "usize \<Rightarrow> out_port \<Rightarrow> out_port" where
  "op_produce n p = p\<lparr>op_pendingElements := add64 (op_pendingElements p) n\<rparr>"

definition op_setReadBeforeWrite :: "nat option \<Rightarrow> out_port \<Rightarrow> out_port" where
  "op_setReadBeforeWrite i p = p\<lparr>op_readBeforeWritePort := i\<rparr>"

definition op_postBuffer :: "buffer_chunk \<Rightarrow> out_port \<Rightarrow> out_port" where
  "op_postBuffer buffer p =
     (let q = op_postedBuffers p;
          q = (if rd_full q then rd_set_capacity bc_null (rd_size q * 2) q else q);
          b = (if \<not> dt_bool (bc_dtype buffer) then buffer\<lparr>bc_dtype := op_dtype p\<rparr> else buffer)
      in p\<lparr>op_postedBuffers := rd_push_back b q, op_totalBuffers := add64 (op_totalBuffers p) 1,
           op_workEvents := add64 (op_workEvents p) 1\<rparr>)"

definition op_postLabel :: "label \<Rightarrow> out_port \<Rightarrow> out_port" where
  "op_postLabel l p = p\<lparr>op_postedLabels := op_postedLabels p @ [lb_toAdjusted (dt_size (op_dtype p)) 1 l],
     op_totalLabels := add64 (op_totalLabels p) 1, op_workEvents := add64 (op_workEvents p) 1\<rparr>"

definition out_bufferManagerEmpty :: "nat \<Rightarrow> 'z ports_scheme \<Rightarrow> bool" where
  "out_bufferManagerEmpty i w =
     (case op_bufferManager (w_out w i) of None \<Rightarrow> True | Some k \<Rightarrow> bmgr_empty (w_mgr w k))"

text \<open>Without a manager these two dereference a null pointer; the callers in the library check first.\<close>

definition out_bufferManagerFront :: "nat \<Rightarrow> 'z ports_scheme \<Rightarrow> buffer_chunk" where
  "out_bufferManagerFront i w =
     (case op_bufferManager (w_out w i) of None \<Rightarrow> bc_null | Some k \<Rightarrow> bmgr_front (w_mgr w k))"

definition out_bufferManagerPop :: "nat \<Rightarrow> usize \<Rightarrow> 'z ports_scheme \<Rightarrow> 'z ports_scheme result" where
  "out_bufferManagerPop i n w =
     (case op_bufferManager (w_out w i) of None \<Rightarrow> Inl OtherException
      | Some k \<Rightarrow> map_sum id (\<lambda>b. set_mgr k b w) (bmgr_pop k n (w_mgr w k)))"

definition out_popBuffer :: "nat \<Rightarrow> usize \<Rightarrow> 'z ports_scheme \<Rightarrow> 'z ports_scheme result" where
  "out_popBuffer i n w = result_bind (out_bufferManagerPop i n w) (\<lambda>w.
     Inr (upd_out i (\<lambda>p. p\<lparr>op_workEvents := add64 (op_workEvents p) 1\<rparr>) w))"

definition out_tokenManagerEmpty :: "nat \<Rightarrow> 'z ports_scheme \<Rightarrow> bool" where
  "out_tokenManagerEmpty i w = bmgr_empty (w_mgr w (op_tokenManager (w_out w i)))"

definition out_tokenManagerPop :: "nat \<Rightarrow> 'z ports_scheme \<Rightarrow> (buffer_chunk \<times> 'z ports_scheme) result" where
  "out_tokenManagerPop i w =
     (let k = op_tokenManager (w_out w i); b = w_mgr w k in
      if bmgr_empty b then Inr (bc_null, w)
      else result_bind (bmgr_pop k 0 b) (\<lambda>b'. Inr (bmgr_front b, set_mgr k b' w)))"

definition out_tokenManagerPopBytes :: "nat \<Rightarrow> usize \<Rightarrow> 'z ports_scheme \<Rightarrow> 'z ports_scheme result" where
  "out_tokenManagerPopBytes i n w =
     (let k = op_tokenManager (w_out w i) in map_sum id (\<lambda>b. set_mgr k b w) (bmgr_pop k n (w_mgr w k)))"

definition ob_isVector :: "pobject \<Rightarrow> bool" where
  "ob_isVector x = (case x of ObVector _ \<Rightarrow> True | _ \<Rightarrow> False)"

definition in_deliver :: "pobject \<Rightarrow> buffer_chunk \<Rightarrow> nat \<Rightarrow> 'z ports_scheme \<Rightarrow> 'z ports_scheme" where
  "in_deliver async token s w =
     (if ip_isSlot (w_in w s) \<and> ob_isVector async then in_slotCallsPush s async token w
      else in_asyncMessagesPush s async token w)"

definition out_postMessage :: "nat \<Rightarrow> pobject \<Rightarrow> 'z ports_scheme \<Rightarrow> 'z ports_scheme result" where
  "out_postMessage i async w = result_bind (out_tokenManagerPop i w) (\<lambda>(token, w).
     Inr (upd_out i (\<lambda>p. p\<lparr>op_totalMessages := add64 (op_totalMessages p) 1,
                          op_workEvents := add64 (op_workEvents p) 1\<rparr>)
            (fold (in_deliver async token) (op_subscribers (w_out w i)) w)))"

text \<open>The return of a buffer: the callback of the manager is the port that uses it.\<close>

definition out_bufferManagerPush :: "nat \<Rightarrow> managed_buffer \<Rightarrow> 'z ports_scheme \<Rightarrow> 'z ports_scheme result" where
  "out_bufferManagerPush i buff w =
     (case mr_manager buff of None \<Rightarrow> Inr w
      | Some k \<Rightarrow> result_bind (bmgr_push k buff (w_mgr w k)) (\<lambda>b.
          Inr (flag_change (op_actor (w_out w i)) (set_mgr k b w))))"

definition mgr_pushExternal :: "nat \<Rightarrow> managed_buffer \<Rightarrow> 'z ports_scheme \<Rightarrow> 'z ports_scheme result" where
  "mgr_pushExternal k buff w =
     (case w_callback w k of Some i \<Rightarrow> out_bufferManagerPush i buff w
      | None \<Rightarrow> map_sum id (\<lambda>b. set_mgr k b w) (bmgr_push k buff (w_mgr w k)))"

definition out_bufferManagerSetup :: "nat \<Rightarrow> nat option \<Rightarrow> 'z ports_scheme \<Rightarrow> 'z ports_scheme" where
  "out_bufferManagerSetup i manager w =
     (let w = upd_out i (\<lambda>p. p\<lparr>op_bufferManager := manager\<rparr>) w in
      case manager of None \<Rightarrow> w | Some k \<Rightarrow> w\<lparr>w_callback := (w_callback w)(k := Some i)\<rparr>)"

section \<open>Queues of labels and messages\<close>

lemma ip_move_labels_list:
  "rd_wf q \<Longrightarrow> ip_move_labels n q ls = (q', ls') \<Longrightarrow>
    rd_wf q' \<and> rd_list q' = [] \<and> ls' = ls @ map (lb_toAdjusted 1 n) (rd_list q)"
proof (induction n q ls rule: ip_move_labels.induct)
  case (1 n q ls)
  show ?case
  proof (cases "rd_empty q")
    case True
    then show ?thesis using 1 by (simp add: ip_move_labels.simps rd_empty_list)
  next
    case False
    let ?q1 = "rd_pop_front lb_default q"
    have wf: "rd_wf ?q1" using 1(2) False by (simp add: rd_pop_front_wf)
    have l: "rd_list ?q1 = tl (rd_list q)" using 1(2) False by (simp add: rd_pop_front_list)
    have ne: "rd_list q \<noteq> []" using False by (simp add: rd_empty_list)
    then have fr: "rd_front q = hd (rd_list q)" using 1(2) by (simp add: rd_front_list)
    have "ip_move_labels n ?q1 (ls @ [lb_toAdjusted 1 n (rd_front q)]) = (q', ls')"
      using 1(3) False by (subst (asm) ip_move_labels.simps) simp
    from 1(1)[OF False wf this] l ne fr show ?thesis by (cases "rd_list q") auto
  qed
qed

lemma rd_update_loop:
  assumes "rd_wf q" "k \<le> length (rd_list q)"
  shows "rd_wf (fold (\<lambda>i q. rd_set_at i (f (rd_at q i)) q) [0..<k] q)
    \<and> rd_list (fold (\<lambda>i q. rd_set_at i (f (rd_at q i)) q) [0..<k] q)
      = map f (take k (rd_list q)) @ drop k (rd_list q)"
  using assms(2)
proof (induction k)
  case (Suc k)
  let ?q = "fold (\<lambda>i q. rd_set_at i (f (rd_at q i)) q) [0..<k] q"
  have IH: "rd_wf ?q" "rd_list ?q = map f (take k (rd_list q)) @ drop k (rd_list q)" using Suc by simp_all
  have "length (rd_list ?q) = length (rd_list q)" unfolding IH(2) using Suc.prems by (simp del: length_rd_list)
  then have k: "k < rd_numElements ?q" using Suc.prems by simp
  have at: "rd_at ?q k = rd_list q ! k"
    using rd_list_nth[of k ?q] k IH(2) Suc.prems by (simp add: nth_append del: length_rd_list)
  have "rd_list (rd_set_at k (f (rd_list q ! k)) ?q) = map f (take (Suc k) (rd_list q)) @ drop (Suc k) (rd_list q)"
    using IH k Suc.prems
    by (simp add: rd_set_at_list list_update_append take_Suc_conv_app_nth Cons_nth_drop_Suc[symmetric]
        del: length_rd_list)
  then show ?case using IH k at by simp
qed (use assms in simp)

lemma rd_push_all:
  assumes "rd_wf q" "length (rd_list q) + length xs \<le> rd_capacity q"
  shows "rd_wf (fold (\<lambda>x. rd_push_back (f x)) xs q) \<and> rd_list (fold (\<lambda>x. rd_push_back (f x)) xs q) = rd_list q @ map f xs"
  using assms
proof (induction xs arbitrary: q)
  case (Cons x xs)
  then have nf: "\<not> rd_full q" by (simp add: rd_full_list del: length_rd_list)
  with Cons.IH[of "rd_push_back (f x) q"] Cons.prems show ?case
    by (simp add: rd_push_back_list rd_push_back_wf del: length_rd_list)
qed simp

lemma msg_push_list:
  assumes "rd_wf q" "2 * rd_capacity q < SIZE_MOD"
  shows "rd_wf (msg_push x q) \<and> rd_list (msg_push x q) = rd_list q @ [x]"
proof -
  have c: "0 < rd_capacity q" "length (rd_list q) \<le> rd_capacity q" using assms(1) by (auto simp: rd_wf_def rd_capacity_def)
  then have "rd_numElements q \<le> rd_capacity q" by simp
  let ?q = "if rd_full q then rd_set_capacity msg_null (rd_capacity q * 2) q else q"
  have "rd_wf ?q \<and> rd_list ?q = rd_list q \<and> \<not> rd_full ?q"
    using assms c \<open>rd_numElements q \<le> rd_capacity q\<close> by (auto simp: rd_set_capacity_wf rd_set_capacity_list rd_full_list rd_set_capacity_capacity
        simp del: length_rd_list)
  then show ?thesis by (simp add: msg_push_def rd_push_back_list rd_push_back_wf)
qed

section \<open>Sinks of chunks\<close>

text \<open>What a port relies on when it hands a series of chunks to its accumulator.\<close>

locale byte_sink =
  fixes inv :: "'s \<Rightarrow> bool" and stream :: "'s \<Rightarrow> byte list" and slots :: "'s \<Rightarrow> nat"
    and push :: "buffer_chunk \<Rightarrow> 's \<Rightarrow> 's" and bytes :: "buffer_chunk \<Rightarrow> byte list" and ok :: "buffer_chunk \<Rightarrow> bool"
  assumes push_step: "inv s \<Longrightarrow> ok c \<Longrightarrow> length (stream s) + length (bytes c) < SIZE_MOD \<Longrightarrow> 2 * slots s < SIZE_MOD \<Longrightarrow>
      inv (push c s) \<and> stream (push c s) = stream s @ bytes c \<and> slots (push c s) \<le> Suc (slots s)"
begin

lemma push_all:
  assumes "inv s" "\<forall>c \<in> set cs. ok c" "length (stream s) + length (concat (map bytes cs)) < SIZE_MOD"
    "2 * (slots s + length cs) < SIZE_MOD"
  shows "inv (fold push cs s) \<and> stream (fold push cs s) = stream s @ concat (map bytes cs)
    \<and> slots (fold push cs s) \<le> slots s + length cs"
  using assms
proof (induction cs arbitrary: s)
  case (Cons c cs)
  have "inv (push c s) \<and> stream (push c s) = stream s @ bytes c \<and> slots (push c s) \<le> Suc (slots s)"
    by (rule push_step) (use Cons.prems in auto)
  with Cons.IH[of "push c s"] Cons.prems show ?case by auto
qed simp

end

lemma acc_push_slots: "acc_inv a \<Longrightarrow> chunk_ok c \<Longrightarrow> 2 * length (acc_list a) < SIZE_MOD \<Longrightarrow>
    length (acc_list (acc_push c a)) \<le> Suc (length (acc_list a))"
proof -
  assume asm: "acc_inv a" "chunk_ok c" "2 * length (acc_list a) < SIZE_MOD"
  let ?q1 = "acc_drop_dummy (ac_queue a)" and ?q3 = "rd_push_grow bc_null c (acc_drop_dummy (ac_queue a))"
  note d = acc_drop_dummy_props[OF asm(1)]
  have l3: "rd_list ?q3 = rd_list ?q1 @ [c]" "rd_wf ?q3"
    using d(1,6) asm(3) by (simp_all add: rd_push_grow_list rd_push_grow_wf del: length_rd_list)
  have "length (rd_list (acc_amalgamate ?q3)) \<le> length (rd_list ?q3)"
    by (rule acc_amalgamate_props[THEN conjunct2, THEN conjunct2, THEN conjunct2, THEN conjunct2, THEN conjunct2, THEN conjunct2])
      (use l3 d asm chunks_sep_snoc[OF d(3), of c] in \<open>auto simp del: length_rd_list\<close>)
  then show ?thesis using l3 d(6) by (simp add: acc_push_eq acc_list_def del: length_rd_list)
qed

interpretation acc_sink: byte_sink acc_inv "acc_stream m" "\<lambda>a. length (acc_list a)" acc_push "bc_bytes m" chunk_ok
proof
  fix s c
  assume a: "acc_inv s" "chunk_ok c" "length (acc_stream m s) + length (bc_bytes m c) < SIZE_MOD" "2 * length (acc_list s) < SIZE_MOD"
  have "ac_bytesAvailable s + bc_length c < SIZE_MOD"
    using a(3) acc_bytesAvailable_stream[OF a(1), of m] by (simp add: bc_bytes_def)
  with acc_push_stream[OF a(1,2) this a(4)] acc_push_slots[OF a(1,2,4)]
  show "acc_inv (acc_push c s) \<and> acc_stream m (acc_push c s) = acc_stream m s @ bc_bytes m c
    \<and> length (acc_list (acc_push c s)) \<le> Suc (length (acc_list s))" by blast
qed

section \<open>Delivery into an input port\<close>

definition ip_stream :: "memory \<Rightarrow> in_port \<Rightarrow> byte list" where
  "ip_stream m p = acc_stream m (ip_bufferAccumulator p)"

definition ip_queued_labels :: "in_port \<Rightarrow> label list" where
  "ip_queued_labels p = rd_list (ip_inputInlineMessages p)"

definition ip_ok :: "in_port \<Rightarrow> bool" where
  "ip_ok p \<longleftrightarrow> acc_inv (ip_bufferAccumulator p) \<and> rd_wf (ip_inputInlineMessages p)
     \<and> rd_wf (ip_asyncMessages p) \<and> rd_wf (ip_slotCalls p)"

definition ip_accepts :: "in_port \<Rightarrow> buffer_chunk \<Rightarrow> bool" where
  "ip_accepts p c \<longleftrightarrow> \<not> dt_bool (bc_dtype c) \<or> \<not> dt_bool (ip_dtype p) \<or> dt_size (ip_dtype p) = dt_size (bc_dtype c)"

definition retype :: "dtype \<Rightarrow> buffer_chunk \<Rightarrow> buffer_chunk" where
  "retype dt c = (if \<not> dt_bool (bc_dtype c) then c\<lparr>bc_dtype := dt\<rparr> else c)"

lemma retype_simps [simp]: "bc_bytes m (retype dt c) = bc_bytes m c" "chunk_ok (retype dt c) \<longleftrightarrow> chunk_ok c"
  by (simp_all add: retype_def bc_bytes_def chunk_ok_def)

text \<open>A port drops the chunks whose data type has another size than its own, and gives the others its type where they have none.\<close>

lemma push_fold:
  "fold ip_bufferAccumulatorPushNoLock cs p
    = p\<lparr>ip_bufferAccumulator := fold acc_push (map (retype (ip_dtype p)) (filter (ip_accepts p) cs)) (ip_bufferAccumulator p)\<rparr>"
proof (induction cs arbitrary: p)
  case (Cons c cs)
  let ?p = "p\<lparr>ip_bufferAccumulator := acc_push (retype (ip_dtype p) c) (ip_bufferAccumulator p)\<rparr>"
  have "ip_bufferAccumulatorPushNoLock c p = (if ip_accepts p c then ?p else p)"
    by (auto simp: ip_bufferAccumulatorPushNoLock_def ip_accepts_def retype_def Let_def)
  moreover have "ip_accepts ?p = ip_accepts p" by (simp add: fun_eq_iff ip_accepts_def)
  ultimately show ?case using Cons.IH[of p] Cons.IH[of ?p] by simp
qed simp

lemma rd_at_map: "rd_wf q \<Longrightarrow> map (rd_at q) [0..<rd_size q] = rd_list q"
  by (rule nth_equalityI) (auto simp: rd_list_nth rd_size_def)

lemma rd_set_capacity_numElements: "0 < cap \<Longrightarrow> rd_numElements (rd_set_capacity d cap q) = rd_numElements q"
  by (metis length_rd_list rd_set_capacity_list)

lemma ip_bufferLabelPush_eq:
  assumes ok: "ip_ok p" "rd_wf bufs"
    and cap: "length (ip_queued_labels p) + length ls < SIZE_MOD"
  defines "p' \<equiv> ip_bufferLabelPush ls bufs p"
  shows "ip_bufferAccumulator p' = fold acc_push (map (retype (ip_dtype p)) (filter (ip_accepts p) (rd_list bufs))) (ip_bufferAccumulator p)"
    "ip_queued_labels p' = ip_queued_labels p @ map (lb_shift_up (ac_bytesAvailable (ip_bufferAccumulator p))) ls"
    "rd_wf (ip_inputInlineMessages p')" "ip_totalBuffers p' = ip_totalBuffers p"
    "ip_inlineMessages p' = ip_inlineMessages p" "ip_asyncMessages p' = ip_asyncMessages p" "ip_slotCalls p' = ip_slotCalls p"
proof -
  let ?n = "ac_bytesAvailable (ip_bufferAccumulator p)" and ?q = "ip_inputInlineMessages p"
  let ?need = "rd_size ?q + length ls"
  let ?q1 = "if rd_capacity ?q < ?need then rd_set_capacity lb_default ?need ?q else ?q"
  let ?q2 = "fold (\<lambda>l. rd_push_back (lb_shift_up ?n l)) ls ?q1"
  have wf: "rd_wf ?q" using ok by (simp add: ip_ok_def)
  have sz: "rd_size ?q = length (rd_list ?q)" by (simp add: rd_size_def)
  have nn: "rd_numElements ?q \<le> rd_capacity ?q" using wf by (simp add: rd_wf_def rd_capacity_def)
  have need: "rd_capacity ?q < ?need \<Longrightarrow> 0 < ?need" "?need < SIZE_MOD"
    using cap by (auto simp: ip_queued_labels_def rd_size_def)
  have "rd_wf ?q1 \<and> rd_list ?q1 = rd_list ?q \<and> length (rd_list ?q1) + length ls \<le> rd_capacity ?q1"
    using wf nn need sz by (auto simp: rd_set_capacity_wf rd_set_capacity_list rd_set_capacity_capacity rd_size_def
        rd_set_capacity_numElements)
  then have q2: "rd_wf ?q2 \<and> rd_list ?q2 = rd_list ?q @ map (lb_shift_up ?n) ls"
    using rd_push_all[of ?q1 ls "lb_shift_up ?n"] by metis
  let ?p1 = "p\<lparr>ip_inputInlineMessages := ?q2\<rparr>"
  have "p' = fold ip_bufferAccumulatorPushNoLock (map (rd_at bufs) [0..<rd_size bufs]) ?p1"
    by (simp add: p'_def ip_bufferLabelPush_def Let_def acc_getTotalBytesAvailable_def fold_map comp_def)
  also have "\<dots> = ?p1\<lparr>ip_bufferAccumulator := fold acc_push (map (retype (ip_dtype p)) (filter (ip_accepts p) (rd_list bufs))) (ip_bufferAccumulator p)\<rparr>"
    unfolding rd_at_map[OF ok(2)] push_fold by (simp add: ip_accepts_def[abs_def])
  finally show "ip_bufferAccumulator p' = fold acc_push (map (retype (ip_dtype p)) (filter (ip_accepts p) (rd_list bufs))) (ip_bufferAccumulator p)"
    "ip_queued_labels p' = ip_queued_labels p @ map (lb_shift_up ?n) ls"
    "rd_wf (ip_inputInlineMessages p')" "ip_totalBuffers p' = ip_totalBuffers p" "ip_inlineMessages p' = ip_inlineMessages p"
    "ip_asyncMessages p' = ip_asyncMessages p" "ip_slotCalls p' = ip_slotCalls p"
    using q2 by (simp_all add: ip_queued_labels_def)
qed

definition ip_room :: "in_port \<Rightarrow> label list \<Rightarrow> buffer_chunk list \<Rightarrow> bool" where
  "ip_room p ls cs \<longleftrightarrow>
     ac_bytesAvailable (ip_bufferAccumulator p) + (\<Sum>c\<leftarrow>cs. bc_length c) < SIZE_MOD
     \<and> 2 * (length (acc_list (ip_bufferAccumulator p)) + length cs) < SIZE_MOD
     \<and> length (ip_queued_labels p) + length ls < SIZE_MOD
     \<and> (\<forall>l \<in> set ls. ac_bytesAvailable (ip_bufferAccumulator p) + lb_index l < SIZE_MOD)"

lemma sum_filter_le: "(\<Sum>c\<leftarrow>filter P cs. f c) \<le> (\<Sum>c\<leftarrow>cs. f c)" for f :: "'a \<Rightarrow> nat"
  by (induction cs) auto

lemma ip_bufferLabelPush_props:
  assumes ok: "ip_ok p" "rd_wf bufs" and cs: "\<forall>c \<in> set (rd_list bufs). chunk_ok c"
    and room: "ip_room p ls (rd_list bufs)"
  defines "p' \<equiv> ip_bufferLabelPush ls bufs p"
  shows "ip_ok p' \<and> ip_stream m p' = ip_stream m p @ chunks_bytes m (filter (ip_accepts p) (rd_list bufs))
    \<and> ip_queued_labels p' = ip_queued_labels p @ map (\<lambda>l. l\<lparr>lb_index := length (ip_stream m p) + lb_index l\<rparr>) ls"
proof -
  let ?a = "ip_bufferAccumulator p" and ?acc = "filter (ip_accepts p) (rd_list bufs)"
  let ?cs = "map (retype (ip_dtype p)) ?acc"
  have lab: "length (ip_queued_labels p) + length ls < SIZE_MOD" using room by (simp add: ip_room_def)
  note e = ip_bufferLabelPush_eq[OF ok lab, folded p'_def]
  have inv: "acc_inv ?a" using ok by (simp add: ip_ok_def)
  have cb: "concat (map (bc_bytes m) ?cs) = chunks_bytes m ?acc" by (simp add: chunks_bytes_def comp_def)
  have r: "ac_bytesAvailable ?a + (\<Sum>c\<leftarrow>rd_list bufs. bc_length c) < SIZE_MOD" "2 * (length (acc_list ?a) + length (rd_list bufs)) < SIZE_MOD"
    using room unfolding ip_room_def by blast+
  have "ac_bytesAvailable ?a + (\<Sum>c\<leftarrow>?acc. bc_length c) < SIZE_MOD" "2 * (length (acc_list ?a) + length ?acc) < SIZE_MOD"
    by (rule le_less_trans[OF add_left_mono[OF sum_filter_le] r(1)],
        rule le_less_trans[OF mult_le_mono2[OF add_left_mono[OF length_filter_le]] r(2)])
  then have "acc_inv (fold acc_push ?cs ?a) \<and> acc_stream m (fold acc_push ?cs ?a) = acc_stream m ?a @ concat (map (bc_bytes m) ?cs)"
    using acc_sink.push_all[OF inv, of ?cs m] cs acc_bytesAvailable_stream[OF inv, of m]
    unfolding cb by (simp add: length_chunks_bytes del: length_rd_list)
  moreover have "map (lb_shift_up (ac_bytesAvailable ?a)) ls = map (\<lambda>l. l\<lparr>lb_index := length (ip_stream m p) + lb_index l\<rparr>) ls"
    using room acc_bytesAvailable_stream[OF inv, of m]
    by (auto simp: lb_shift_up_def ip_room_def ip_stream_def add64_exact add.commute)
  ultimately show ?thesis
    using e ok unfolding cb by (simp add: ip_stream_def ip_ok_def)
qed

text \<open>C10: A post of chunks of ordinary (not circular) buffers, for which the sizes suffice, appends to the stream of an input port
  the bytes of the chunks that the port accepts, in order; a chunk whose data type has another size than that of the port is
  dropped. The labels follow the earlier ones, which are unchanged, with their names and data. Where no chunk is dropped every
  label that points into the posted bytes points at the same byte in the new stream. (Circular buffers are excluded because
  the amalgamation misreads their alias: \<open>acc_push_misreads_alias\<close>.)\<close>
theorem ip_bufferLabelPush_delivers:
  assumes "ip_ok p" "rd_wf bufs" "\<forall>c \<in> set (rd_list bufs). chunk_ok c" "ip_room p ls (rd_list bufs)"
  defines "p' \<equiv> ip_bufferLabelPush ls bufs p"
  shows "ip_ok p' \<and> ip_stream m p' = ip_stream m p @ chunks_bytes m (filter (ip_accepts p) (rd_list bufs))
    \<and> (\<exists>new. ip_queued_labels p' = ip_queued_labels p @ new \<and> length new = length ls
        \<and> (\<forall>i < length ls. lb_id (new ! i) = lb_id (ls ! i) \<and> lb_data (new ! i) = lb_data (ls ! i)
             \<and> (list_all (ip_accepts p) (rd_list bufs) \<longrightarrow> lb_index (ls ! i) < length (chunks_bytes m (rd_list bufs)) \<longrightarrow>
                ip_stream m p' ! lb_index (new ! i) = chunks_bytes m (rd_list bufs) ! lb_index (ls ! i))))"
proof -
  let ?new = "map (\<lambda>l. l\<lparr>lb_index := length (ip_stream m p) + lb_index l\<rparr>) ls"
  note q = ip_bufferLabelPush_props[OF assms(1-4), of m, folded p'_def]
  have "list_all (ip_accepts p) (rd_list bufs) \<Longrightarrow> filter (ip_accepts p) (rd_list bufs) = rd_list bufs"
    by (simp add: list_all_iff)
  with q show ?thesis
    by (intro conjI exI[of _ ?new]) (auto simp: nth_append)
qed

text \<open>Consuming bytes moves the queued labels that lie behind them, which keep their bytes.\<close>

lemma ip_bufferAccumulatorPop_labels:
  assumes "ip_ok p" "n \<le> ac_bytesAvailable (ip_bufferAccumulator p)"
  shows "rd_wf (ip_inputInlineMessages (ip_bufferAccumulatorPop n p))
    \<and> ip_queued_labels (ip_bufferAccumulatorPop n p) = map (lb_shift_down n) (ip_queued_labels p)"
  using rd_update_loop[of "ip_inputInlineMessages p" "rd_size (ip_inputInlineMessages p)" "lb_shift_down n"] assms
  by (simp add: ip_bufferAccumulatorPop_def ip_ok_def ip_queued_labels_def acc_getTotalBytesAvailable_def rd_size_def)

lemma ip_pop_props:
  assumes ok: "ip_ok p" and n: "n \<le> bc_length (acc_front (ip_bufferAccumulator p))"
    and pool: "acc_pool_ok m (ip_bufferAccumulator p) n"
    and ix: "\<forall>l \<in> set (ip_queued_labels p). n \<le> lb_index l \<and> lb_index l < SIZE_MOD"
  defines "p' \<equiv> ip_bufferAccumulatorPop n p"
  shows "ip_ok p' \<and> ip_stream m p' = drop n (ip_stream m p)
    \<and> ip_queued_labels p' = map (\<lambda>l. l\<lparr>lb_index := lb_index l - n\<rparr>) (ip_queued_labels p)"
proof -
  let ?a = "ip_bufferAccumulator p"
  have inv: "acc_inv ?a" using ok by (simp add: ip_ok_def)
  obtain x xs where l: "acc_list ?a = x # xs" using inv by (cases "acc_list ?a") (auto simp: acc_inv_def)
  have "bc_length (acc_front ?a) \<le> ac_bytesAvailable ?a"
    using inv l acc_front_list[OF inv] by (simp add: acc_inv_def)
  with n have le: "n \<le> ac_bytesAvailable ?a" by simp
  then have "ip_bufferAccumulator p' = acc_pop n ?a" "ip_asyncMessages p' = ip_asyncMessages p" "ip_slotCalls p' = ip_slotCalls p"
    by (simp_all add: p'_def ip_bufferAccumulatorPop_def acc_getTotalBytesAvailable_def)
  moreover have "map (lb_shift_down n) (ip_queued_labels p) = map (\<lambda>l. l\<lparr>lb_index := lb_index l - n\<rparr>) (ip_queued_labels p)"
    using ix by (auto simp: lb_shift_down_def sub64_exact)
  ultimately show ?thesis
    using acc_pop_stream[OF inv n pool] ip_bufferAccumulatorPop_labels[OF ok le] ok
    by (simp add: ip_ok_def ip_stream_def p'_def)
qed

text \<open>The buffers an upstream block posts are not counted, although \<open>totalBuffers\<close> is documented as the number
  of buffers posted to the port; only \<open>pushBuffer\<close> counts.\<close>

lemma push_fold_totalBuffers:
  "ip_totalBuffers (fold (\<lambda>i. ip_bufferAccumulatorPushNoLock (f i)) js p) = ip_totalBuffers p"
  by (induction js arbitrary: p) (simp_all add: ip_bufferAccumulatorPushNoLock_def Let_def)

lemma bufferLabelPush_not_counted: "ip_totalBuffers (ip_bufferLabelPush ls bufs p) = ip_totalBuffers p"
  by (simp add: ip_bufferLabelPush_def Let_def push_fold_totalBuffers)

lemma ip_new_ok: "ip_ok ip_new" "ip_stream m ip_new = []" "ip_queued_labels ip_new = []"
  by (simp_all add: ip_ok_def ip_new_def acc_new_inv ip_stream_def ip_queued_labels_def)

lemma rd_single: "rd_wf (rd_push_back x (rd_new d))" "rd_list (rd_push_back x (rd_new d)) = [x]"
proof -
  have "\<not> rd_full (rd_new d)" by (simp add: rd_full_def rd_new_def)
  then show "rd_wf (rd_push_back x (rd_new d))" "rd_list (rd_push_back x (rd_new d)) = [x]"
    by (simp_all add: rd_push_back_list rd_push_back_wf)
qed

text \<open>A port for elements of two bytes: the chunk of elements of four bytes is dropped, the other one is delivered.\<close>

theorem ip_bufferLabelPush_delivers_witness:
  "ip_stream word_of_nat (ip_bufferLabelPush [lb_new ''tag'' ObNull 1 1]
      (rd_push_back (chunk_at 10 4 1) (rd_new bc_null)) ip_new) = [10, 11, 12, 13] \<and>
   ip_stream word_of_nat (ip_bufferLabelPush []
      (rd_push_back ((chunk_at 10 4 1)\<lparr>bc_dtype := \<lparr>dt_elemType = 1, dt_elemSize = 4, dt_dimension = 1\<rparr>\<rparr>) (rd_new bc_null))
      (ip_new\<lparr>ip_dtype := \<lparr>dt_elemType = 2, dt_elemSize = 2, dt_dimension = 1\<rparr>\<rparr>)) = []"
proof -
  let ?q = "rd_push_back (chunk_at 10 4 1) (rd_new bc_null)" and ?l = "lb_new ''tag'' ObNull 1 1"
  let ?c = "(chunk_at 10 4 1)\<lparr>bc_dtype := \<lparr>dt_elemType = 1, dt_elemSize = 4, dt_dimension = 1\<rparr>\<rparr>"
  let ?p = "ip_new\<lparr>ip_dtype := \<lparr>dt_elemType = 2, dt_elemSize = 2, dt_dimension = 1\<rparr>\<rparr>"
  let ?r = "rd_push_back ?c (rd_new bc_null)"
  have ok: "\<forall>c \<in> set (rd_list ?q). chunk_ok c" "\<forall>c \<in> set (rd_list ?r). chunk_ok c"
    by (simp_all add: rd_single SIZE_MOD_def) (simp add: chunk_ok_def sb_make_with_def SIZE_MOD_def)
  have a: "ip_accepts ip_new (chunk_at 10 4 1)" "\<not> ip_accepts ?p ?c"
    by (simp_all add: chunk_at_def bc_of_shared_def ip_accepts_def ip_new_def dtype_default_def dt_bool_def dt_size_def mul64_def SIZE_MOD_def)
  have room: "ip_room ip_new [?l] (rd_list ?q)" "ip_room ?p [] (rd_list ?r)"
    by (simp add: ip_room_def ip_new_ok rd_single lb_new_def, simp add: ip_new_def acc_new_inv SIZE_MOD_def)
      (simp add: ip_room_def rd_single ip_queued_labels_def, simp add: ip_new_def acc_new_inv SIZE_MOD_def rd_new_def)
  have p: "ip_ok ?p" "ip_stream word_of_nat ?p = []" using ip_new_ok by (simp_all add: ip_ok_def ip_stream_def)
  have bytes: "chunks_bytes word_of_nat (filter (ip_accepts ip_new) (rd_list ?q)) = [10, 11, 12, 13]"
    by (simp add: rd_single a[simplified] bc_bytes_def mem_bytes_def upt_rec)
  have none: "chunks_bytes word_of_nat (filter (ip_accepts ?p) (rd_list ?r)) = []"
    using a(2) by (simp add: rd_single)
  show ?thesis
    using ip_bufferLabelPush_delivers[OF ip_new_ok(1) rd_single(1) ok(1) room(1), of word_of_nat]
      ip_bufferLabelPush_delivers[OF p(1) rd_single(1) ok(2) room(2), of word_of_nat] bytes none ip_new_ok(2) p(2) by simp
qed

section \<open>Messages\<close>

definition ip_messages :: "in_port \<Rightarrow> message list" where
  "ip_messages p = rd_list (ip_asyncMessages p)"

definition ip_calls :: "in_port \<Rightarrow> message list" where
  "ip_calls p = rd_list (ip_slotCalls p)"

definition msg_room :: "in_port \<Rightarrow> bool" where
  "msg_room p \<longleftrightarrow> ip_ok p \<and> 2 * rd_capacity (ip_asyncMessages p) < SIZE_MOD \<and> 2 * rd_capacity (ip_slotCalls p) < SIZE_MOD"

text \<open>A port got the message: as a slot call or as an asynchronous message, at the end of the queue.\<close>

definition got_message :: "pobject \<Rightarrow> buffer_chunk \<Rightarrow> in_port \<Rightarrow> in_port \<Rightarrow> bool" where
  "got_message async token p p' \<longleftrightarrow>
     (if ip_isSlot p \<and> ob_isVector async
      then ip_calls p' = ip_calls p @ [(async, token)] \<and> ip_messages p' = ip_messages p
      else ip_messages p' = ip_messages p @ [(async, token)] \<and> ip_calls p' = ip_calls p)"

lemma flag_change_in [simp]: "w_in (flag_change a w) = w_in w" "w_out (flag_change a w) = w_out w"
  "w_mgr (flag_change a w) = w_mgr w" "w_mem (flag_change a w) = w_mem w"
  by (simp_all add: flag_change_def split: option.split)

lemma in_deliver_props:
  assumes "msg_room (w_in w s)"
  shows "got_message async token (w_in w s) (w_in (in_deliver async token s w) s)"
    "s' \<noteq> s \<Longrightarrow> w_in (in_deliver async token s w) s' = w_in w s'"
    "w_out (in_deliver async token s w) = w_out w"
    "\<forall>a. ip_actor (w_in w s) = Some a \<longrightarrow> w_changed (in_deliver async token s w) a"
  using msg_push_list[of "ip_asyncMessages (w_in w s)" "(async, token)"]
    msg_push_list[of "ip_slotCalls (w_in w s)" "(async, token)"] assms
  by (auto simp: in_deliver_def in_slotCallsPush_def in_asyncMessagesPush_def upd_in_flag_def upd_in_def
      got_message_def ip_messages_def ip_calls_def msg_room_def ip_ok_def flag_change_def split: option.split)

lemma in_deliver_all:
  fixes async :: pobject and token :: buffer_chunk
  assumes "distinct ss" "\<forall>s \<in> set ss. msg_room (w_in w s)"
  defines "w' \<equiv> fold (in_deliver async token) ss w"
  shows "(\<forall>s \<in> set ss. got_message async token (w_in w s) (w_in w' s))
    \<and> (\<forall>s. s \<notin> set ss \<longrightarrow> w_in w' s = w_in w s) \<and> w_out w' = w_out w"
  using assms(1,2) unfolding w'_def
proof (induction ss arbitrary: w)
  case (Cons s ss)
  let ?w1 = "in_deliver async token s w"
  have other: "\<And>x. x \<noteq> s \<Longrightarrow> w_in ?w1 x = w_in w x" and out: "w_out ?w1 = w_out w"
    and got: "got_message async token (w_in w s) (w_in ?w1 s)"
    using in_deliver_props[of w s] Cons.prems by auto
  have "\<forall>x \<in> set ss. msg_room (w_in ?w1 x)" using Cons.prems other by (metis distinct.simps(2) list.set_intros(2))
  from Cons.IH[OF _ this] Cons.prems(1) have IH:
    "(\<forall>x \<in> set ss. got_message async token (w_in ?w1 x) (w_in (fold (in_deliver async token) ss ?w1) x))
      \<and> (\<forall>x. x \<notin> set ss \<longrightarrow> w_in (fold (in_deliver async token) ss ?w1) x = w_in ?w1 x)
      \<and> w_out (fold (in_deliver async token) ss ?w1) = w_out ?w1" by simp
  have "\<forall>x \<in> set ss. x \<noteq> s" using Cons.prems(1) by auto
  then show ?case using IH other out got Cons.prems(1) by simp
qed simp

lemma out_postMessage_props:
  assumes "distinct (op_subscribers (w_out w i))" "\<forall>s \<in> set (op_subscribers (w_out w i)). msg_room (w_in w s)"
    and "w_mgr w (op_tokenManager (w_out w i)) = BmGeneric g"
  shows "\<exists>w'. out_postMessage i async w = Inr w'
    \<and> (\<forall>s \<in> set (op_subscribers (w_out w i)).
         got_message async (if gm_empty g then bc_null else gm_front g) (w_in w s) (w_in w' s))
    \<and> (\<forall>s. s \<notin> set (op_subscribers (w_out w i)) \<longrightarrow> w_in w' s = w_in w s)
    \<and> op_totalMessages (w_out w' i) = add64 (op_totalMessages (w_out w i)) 1"
proof -
  define k where "k = op_tokenManager (w_out w i)"
  define w1 where "w1 = (if gm_empty g then w else set_mgr k (BmGeneric (gm_pop 0 g)) w)"
  let ?tok = "if gm_empty g then bc_null else gm_front g" and ?ss = "op_subscribers (w_out w i)"
  have pop: "out_tokenManagerPop i w = Inr (?tok, w1)"
    using assms(3) by (simp add: out_tokenManagerPop_def Let_def w1_def k_def)
  have in1: "w_in w1 = w_in w" "w_out w1 = w_out w" by (simp_all add: w1_def set_mgr_def)
  let ?w2 = "fold (in_deliver async ?tok) ?ss w1"
  have "\<forall>s \<in> set ?ss. msg_room (w_in w1 s)" using assms(2) in1 by simp
  note all = in_deliver_all[OF assms(1) this, of async ?tok]
  show ?thesis
    using pop all in1 by (simp add: out_postMessage_def upd_out_def)
qed

text \<open>a message posted to an output port reaches every subscriber exactly once: it is appended to the slot
  calls of a slot when it is an argument vector, and to the message queue otherwise. All subscribers
  share one token of the port's token manager, no other input port changes, and the post is counted.\<close>
theorem out_postMessage_delivers:
  assumes "distinct (op_subscribers (w_out w i))" "\<forall>s \<in> set (op_subscribers (w_out w i)). msg_room (w_in w s)"
    and "w_mgr w (op_tokenManager (w_out w i)) = BmGeneric g"
  shows "\<exists>w'. out_postMessage i async w = Inr w'
    \<and> (\<forall>s \<in> set (op_subscribers (w_out w i)).
         got_message async (if gm_empty g then bc_null else gm_front g) (w_in w s) (w_in w' s))
    \<and> (\<forall>s. s \<notin> set (op_subscribers (w_out w i)) \<longrightarrow> w_in w' s = w_in w s)
    \<and> op_totalMessages (w_out w' i) = add64 (op_totalMessages (w_out w i)) 1"
  by (rule out_postMessage_props[OF assms])

theorem out_postMessage_delivers_witness:
  defines "p \<equiv> (op_new 0)\<lparr>op_subscribers := [4, 6]\<rparr>"
  defines "w \<equiv> \<lparr>w_mem = (\<lambda>_. 0), w_in = (\<lambda>_. ip_new), w_out = (\<lambda>_. p), w_mgr = (\<lambda>_. BmGeneric gm_new),
      w_callback = (\<lambda>_. None), w_changed = (\<lambda>_. False)\<rparr>"
  shows "\<exists>w'. out_postMessage 1 (ObOpaque 5) w = Inr w' \<and> ip_messages (w_in w' 4) = [(ObOpaque 5, bc_null)]
    \<and> ip_messages (w_in w' 6) = [(ObOpaque 5, bc_null)] \<and> w_in w' 5 = ip_new"
proof -
  have s: "op_subscribers (w_out w 1) = [4, 6]" "w_in w s = ip_new" for s by (simp_all add: w_def p_def)
  have r: "msg_room ip_new"
    by (simp add: msg_room_def ip_new_ok, simp add: ip_new_def rd_new_def rd_capacity_def SIZE_MOD_def)
  have m: "ip_messages ip_new = []" by (simp add: ip_messages_def ip_new_def)
  have e: "gm_empty gm_new" by (simp add: gm_empty_def gm_new_def rd_empty_def rd_new_def)
  show ?thesis
    using out_postMessage_delivers[of w 1 gm_new "ObOpaque 5"] s r m e
    by (force simp: got_message_def w_def ob_isVector_def)
qed

end
