(* ===== verification/PortAllocation.thy ===== *)
theory PortAllocation
  imports Ports
begin

text \<open>
  The port tables of a worker (lib/Framework/WorkerActorPortAllocation.cpp of pothos-library): the map of
  the ports, the named ports and indexed ports that the block sees, and the order of allocation;
  allocation, automatic allocation and automatic deletion. The tables of the inputs and of the outputs
  have one model, as the code has one template. A port name that parses as an unsigned number is the
  index of the port; the parser is the one of Poco (Foundation/include/Poco/NumericString.h).
\<close>

section \<open>Port names\<close>

text \<open>\<open>strToInt\<close> for unsigned 32-bit integers, base 10 and the separator \<open>','\<close>. \<open>sig\<close> is the state of
  the loop (a significant digit was seen). The overflow test looks at the value before the digit is
  appended, so the last step can wrap.\<close>

definition is_suffix_char :: "char \<Rightarrow> bool" where
  "is_suffix_char c \<longleftrightarrow> c \<in> {CHR ''U'', CHR ''u'', CHR ''L'', CHR ''l''}"

definition digit_of :: "char \<Rightarrow> nat" where
  "digit_of c = (of_char c :: nat) - 48"

definition UINT_MOD :: nat where
  "UINT_MOD = 2 ^ 32"

fun strToInt_loop :: "bool \<Rightarrow> nat \<Rightarrow> string \<Rightarrow> nat option" where
  "strToInt_loop sig result [] = Some result"
| "strToInt_loop sig result (c # cs) =
     (if c = CHR ''0'' \<and> \<not> sig then strToInt_loop sig result cs
      else if is_digit c then
        (if result > (UINT_MOD - 1) div 10 then None
         else strToInt_loop True ((result * 10 + digit_of c) mod UINT_MOD) cs)
      else if is_suffix_char c then Some result
      else if c = CHR '','' then strToInt_loop sig result cs
      else if is_space c \<or> c = CHR 0x00 then Some result
      else None)"

definition strToInt :: "string \<Rightarrow> nat option" where
  "strToInt s =
     (case dropWhile is_space s of
        [] \<Rightarrow> None
      | c # cs \<Rightarrow>
          if c = CHR 0x00 \<or> c = CHR ''-'' then None
          else if c = CHR ''+'' then strToInt_loop False 0 cs
          else strToInt_loop False 0 (c # cs))"

definition tryParseUnsigned :: "string \<Rightarrow> nat option" where
  "tryParseUnsigned s = strToInt s"

text \<open>The unsigned value is converted to \<open>int\<close>: values from 2^31 on become negative.\<close>

definition portNameToIndex :: "string \<Rightarrow> int" where
  "portNameToIndex name =
     (case tryParseUnsigned name of
        None \<Rightarrow> -1
      | Some v \<Rightarrow> if v < 2 ^ 31 then int v else int v - 2 ^ 32)"

section \<open>The tables\<close>

record port_tables =
  pt_ports :: "(string \<times> nat) list"
  pt_named :: "(string \<times> nat) list"
  pt_indexed :: "nat option list"
  pt_names :: "string list"

definition pt_new :: port_tables where
  "pt_new = \<lparr>pt_ports = [], pt_named = [], pt_indexed = [], pt_names = []\<rparr>"

definition vec_resize :: "nat \<Rightarrow> 'a \<Rightarrow> 'a list \<Rightarrow> 'a list" where
  "vec_resize n d xs = take n xs @ replicate (n - length xs) d"

definition vec_put :: "nat \<Rightarrow> 'a \<Rightarrow> 'a option list \<Rightarrow> 'a option list" where
  "vec_put k x xs = (vec_resize (max (k + 1) (length xs)) None xs)[k := Some x]"

text \<open>The index as \<open>size_t\<close>: a negative one other than -1 is a huge number, and the resize throws.\<close>

definition pt_index_port :: "int \<Rightarrow> nat \<Rightarrow> nat option list \<Rightarrow> nat option list result" where
  "pt_index_port ix pid indexed =
     (if ix = -1 then Inr indexed
      else if ix < 0 then Inl OtherException
      else Inr (vec_put (nat ix) pid indexed))"

text \<open>\<open>pid\<close> is the new port object.\<close>

definition pt_allocate :: "string \<Rightarrow> nat \<Rightarrow> port_tables \<Rightarrow> port_tables result" where
  "pt_allocate name pid t = result_bind (pt_index_port (portNameToIndex name) pid (pt_indexed t)) (\<lambda>indexed.
     Inr \<lparr>pt_ports = smap_set name pid (pt_ports t), pt_named = smap_set name pid (pt_named t),
          pt_indexed = indexed, pt_names = pt_names t @ [name]\<rparr>)"

text \<open>The search of the automatic allocation: the nearest allocated port of lower index.\<close>

fun pt_lower :: "nat \<Rightarrow> port_tables \<Rightarrow> nat option" where
  "pt_lower 0 t = None"
| "pt_lower (Suc i) t = (if smap_find (to_string i) (pt_ports t) = None then pt_lower i t else Some i)"

definition pt_lower_of :: "string \<Rightarrow> port_tables \<Rightarrow> nat option" where
  "pt_lower_of name t =
     (let index = portNameToIndex name in
      if index = -1 \<or> smap_find name (pt_ports t) \<noteq> None then None else pt_lower (nat index) t)"

definition pt_strip :: "nat option list \<Rightarrow> nat option list" where
  "pt_strip xs = rev (dropWhile (\<lambda>x. x = None) (rev xs))"

text \<open>The removal of the port \<open>name\<close> with index \<open>ix\<close>: null entries at the end of the index are stripped.\<close>

definition pt_remove :: "string \<Rightarrow> int \<Rightarrow> port_tables \<Rightarrow> port_tables" where
  "pt_remove name ix t =
     \<lparr>pt_ports = smap_erase name (pt_ports t), pt_named = smap_erase name (pt_named t),
      pt_indexed = pt_strip (if ix \<ge> 0 \<and> ix < int (length (pt_indexed t))
                             then (pt_indexed t)[nat ix := None] else pt_indexed t),
      pt_names = remove1 name (pt_names t)\<rparr>"

section \<open>Numbers as port names\<close>

lemma char_digit: "n < 10 \<Longrightarrow> is_digit (char_of (48 + n))" "n < 10 \<Longrightarrow> digit_of (char_of (48 + n)) = n"
  "n < 10 \<Longrightarrow> char_of (48 + n) = CHR ''0'' \<longleftrightarrow> n = 0"
proof -
  assume n: "n < 10"
  have o: "(of_char (char_of (48 + n) :: char) :: nat) = 48 + n" using n by simp
  show "is_digit (char_of (48 + n))" using o n by (simp add: is_digit_def)
  show "digit_of (char_of (48 + n)) = n" using o by (simp add: digit_of_def)
  show "char_of (48 + n) = CHR ''0'' \<longleftrightarrow> n = 0"
  proof
    assume "char_of (48 + n) = CHR ''0''"
    then have "(of_char (char_of (48 + n) :: char) :: nat) = of_char CHR ''0''" by simp
    with o show "n = 0" by simp
  qed (simp add: char_of_eq_iff)
qed

lemma strToInt_loop_digits:
  "\<forall>c \<in> set s. is_digit c \<Longrightarrow> sig \<or> r = 0 \<Longrightarrow> foldl (\<lambda>v c. 10 * v + digit_of c) r s < UINT_MOD \<Longrightarrow>
    strToInt_loop sig r s = Some (foldl (\<lambda>v c. 10 * v + digit_of c) r s)"
proof (induction s arbitrary: sig r)
  case (Cons c s)
  have mono: "v \<le> foldl (\<lambda>v c. 10 * v + digit_of c) v xs" for v xs
    by (induction xs arbitrary: v) (simp, metis (no_types, lifting) add_leD1 foldl_Cons le_trans mult_le_mono1 nat_mult_1 one_le_numeral)
  from mono[of "10 * r + digit_of c" s] have b: "10 * r + digit_of c < UINT_MOD" using Cons.prems(3) by simp
  then have "r \<le> (UINT_MOD - 1) div 10" by (simp add: UINT_MOD_def)
  then have nl: "\<not> r > (UINT_MOD - 1) div 10" by simp
  show ?case
  proof (cases "c = CHR ''0'' \<and> \<not> sig")
    case True
    then have "digit_of c = 0" "r = 0" using Cons.prems by (auto simp: digit_of_def)
    then show ?thesis using True Cons.IH[of sig 0] Cons.prems by simp
  next
    case False
    then have "strToInt_loop sig r (c # s) = strToInt_loop True (10 * r + digit_of c) s"
      using Cons.prems(1) nl b by (cases sig) (auto simp: mult.commute)
    then show ?thesis using Cons.IH[of True "10 * r + digit_of c"] Cons.prems by simp
  qed
qed simp

lemma to_string_parse:
  "(\<forall>c \<in> set (to_string n). is_digit c) \<and> to_string n \<noteq> [] \<and> foldl (\<lambda>v c. 10 * v + digit_of c) 0 (to_string n) = n"
proof (induction n rule: to_string.induct)
  case (1 n)
  show ?case
  proof (cases "n < 10")
    case True
    then show ?thesis by (simp add: to_string.simps char_digit)
  next
    case False
    have "n mod 10 < 10" by simp
    note d = char_digit[OF this]
    have "to_string n = to_string (n div 10) @ [char_of (48 + n mod 10)]" using False by (simp add: to_string.simps)
    then show ?thesis using 1[OF False] d by simp
  qed
qed

text \<open>the name that \<open>std::to_string\<close> gives to an index below \<open>2^31\<close> is parsed back to that index, so the ports
  registered by index are found by index.\<close>
theorem portNameToIndex_to_string:
  assumes "i < 2 ^ 31"
  shows "portNameToIndex (to_string i) = int i"
proof -
  obtain c cs where s: "to_string i = c # cs" and c: "is_digit c"
    using to_string_parse[of i] by (cases "to_string i") auto
  have "\<not> is_space c" "c \<noteq> CHR ''-''" "c \<noteq> CHR ''+''" "c \<noteq> CHR 0x00"
    using c by (auto simp: is_digit_def is_space_def)
  then have "tryParseUnsigned (to_string i) = strToInt_loop False 0 (to_string i)"
    by (simp add: tryParseUnsigned_def strToInt_def s)
  also have "\<dots> = Some i"
    using strToInt_loop_digits[of "to_string i" False 0] to_string_parse[of i] assms by (simp add: UINT_MOD_def)
  finally show ?thesis using assms by (simp add: portNameToIndex_def)
qed

theorem portNameToIndex_to_string_witness: "portNameToIndex (to_string 42) = 42"
  using portNameToIndex_to_string[of 42] by simp

text \<open>Some names that are not numbers are taken for index 0, because the parser stops at an integer suffix.\<close>

lemma portNameToIndex_suffix: "portNameToIndex ''level'' = 0"
  by (simp add: portNameToIndex_def tryParseUnsigned_def strToInt_def is_space_def is_digit_def is_suffix_char_def)

text \<open>A number from \<open>2^31\<close> on has a negative index; 4294967295 has the index of an unindexed port.\<close>

lemma portNameToIndex_large: "portNameToIndex ''2147483648'' = - 2147483648"
  by (simp add: portNameToIndex_def tryParseUnsigned_def strToInt_def is_space_def is_digit_def digit_of_def UINT_MOD_def)

section \<open>The tables agree\<close>

definition pt_ok :: "port_tables \<Rightarrow> bool" where
  "pt_ok t \<longleftrightarrow> smap_ok (pt_ports t) \<and> pt_named t = pt_ports t \<and> distinct (pt_names t)
     \<and> set (pt_names t) = fst ` set (pt_ports t) \<and> (pt_indexed t \<noteq> [] \<longrightarrow> last (pt_indexed t) \<noteq> None)
     \<and> (\<forall>k pid. k < length (pt_indexed t) \<and> pt_indexed t ! k = Some pid \<longrightarrow>
          (\<exists>name. smap_find name (pt_ports t) = Some pid \<and> portNameToIndex name = int k))
     \<and> (\<forall>name pid. smap_find name (pt_ports t) = Some pid \<and> 0 \<le> portNameToIndex name \<longrightarrow>
          nat (portNameToIndex name) < length (pt_indexed t)
          \<and> pt_indexed t ! nat (portNameToIndex name) = Some pid)"

text \<open>What the callers check before an allocation, and the absence of a second name for the same index.\<close>

definition pt_fresh :: "string \<Rightarrow> port_tables \<Rightarrow> bool" where
  "pt_fresh name t \<longleftrightarrow> smap_find name (pt_ports t) = None \<and> -1 \<le> portNameToIndex name
     \<and> (\<forall>x \<in> fst ` set (pt_ports t). 0 \<le> portNameToIndex name \<longrightarrow> portNameToIndex x \<noteq> portNameToIndex name)"

lemma smap_ok_distinct: "smap_ok m \<Longrightarrow> distinct (map fst m)"
  by (simp add: smap_ok_def)

lemma length_vec_put: "length (vec_put k x xs) = max (Suc k) (length xs)"
  by (simp add: vec_put_def vec_resize_def)

lemma nth_vec_put: "j < max (Suc k) (length xs) \<Longrightarrow>
    vec_put k x xs ! j = (if j = k then Some x else if j < length xs then xs ! j else None)"
  by (auto simp: vec_put_def nth_list_update vec_resize_def nth_append)

lemma last_vec_put:
  assumes "xs \<noteq> [] \<longrightarrow> last xs \<noteq> None"
  shows "last (vec_put k x xs) \<noteq> None"
proof -
  have ne: "vec_put k x xs \<noteq> []" using length_vec_put[of k x xs] by auto
  have last: "last (vec_put k x xs) = vec_put k x xs ! (max (Suc k) (length xs) - 1)"
    using last_conv_nth[OF ne] by (simp add: length_vec_put)
  show ?thesis
  proof (cases "Suc k \<ge> length xs")
    case False
    then have "max (Suc k) (length xs) - 1 = length xs - 1" "xs \<noteq> []" "length xs - 1 \<noteq> k" by auto
    then show ?thesis using assms last by (simp add: nth_vec_put last_conv_nth)
  qed (simp add: last nth_vec_put)
qed

lemma pt_ok_indexed: "pt_ok t \<Longrightarrow> j < length (pt_indexed t) \<Longrightarrow> pt_indexed t ! j = Some q \<Longrightarrow>
    \<exists>x. smap_find x (pt_ports t) = Some q \<and> portNameToIndex x = int j"
  unfolding pt_ok_def by blast

lemma pt_allocate_ok:
  assumes ok: "pt_ok t" and fr: "pt_fresh name t"
  shows "\<exists>t'. pt_allocate name pid t = Inr t' \<and> pt_ok t'
    \<and> (\<forall>x. smap_find x (pt_ports t') = (if x = name then Some pid else smap_find x (pt_ports t)))"
proof -
  let ?ix = "portNameToIndex name" and ?xs = "pt_indexed t"
  let ?k = "nat ?ix"
  let ?xs' = "if ?ix = -1 then ?xs else vec_put ?k pid ?xs"
  let ?t' = "\<lparr>pt_ports = smap_set name pid (pt_ports t), pt_named = smap_set name pid (pt_named t),
     pt_indexed = ?xs', pt_names = pt_names t @ [name]\<rparr>"
  have f: "smap_find name (pt_ports t) = None" "-1 \<le> ?ix" using fr by (auto simp: pt_fresh_def)
  have run: "pt_allocate name pid t = Inr ?t'" using f(2) by (auto simp: pt_allocate_def pt_index_port_def Let_def)
  have other: "portNameToIndex x \<noteq> ?ix" if "smap_find x (pt_ports t) = Some q" "0 \<le> ?ix" for x q
    using fr that smap_find_Some_in[OF that(1)] by (force simp: pt_fresh_def)
  have sound: "\<exists>x. smap_find x (pt_ports ?t') = Some q \<and> portNameToIndex x = int j"
    if "j < length ?xs'" "?xs' ! j = Some q" for j q
  proof (cases "?ix \<noteq> -1 \<and> j = ?k")
    case True
    then have "q = pid" "portNameToIndex name = int j" using that f(2) by (simp_all add: nth_vec_put)
    then show ?thesis by (intro exI[of _ name]) simp
  next
    case False
    then have "j < length ?xs" "?xs ! j = Some q"
      using that by (auto simp: nth_vec_put length_vec_put split: if_splits)
    then obtain x where x: "smap_find x (pt_ports t) = Some q" "portNameToIndex x = int j"
      using pt_ok_indexed[OF ok] by blast
    then show ?thesis using f(1) by (intro exI[of _ x]) (auto simp: smap_find_set)
  qed
  have complete: "nat (portNameToIndex x) < length ?xs' \<and> ?xs' ! nat (portNameToIndex x) = Some q"
    if "smap_find x (pt_ports ?t') = Some q" "0 \<le> portNameToIndex x" for x q
  proof (cases "x = name")
    case True
    then show ?thesis using that by (simp add: nth_vec_put length_vec_put)
  next
    case False
    then have x: "smap_find x (pt_ports t) = Some q" using that(1) by simp
    then have old: "nat (portNameToIndex x) < length ?xs" "?xs ! nat (portNameToIndex x) = Some q"
      using ok that(2) by (auto simp: pt_ok_def)
    have "?ix \<noteq> -1 \<Longrightarrow> nat (portNameToIndex x) \<noteq> ?k" using other[OF x] f(2) that(2) by simp
    then show ?thesis using old by (simp add: nth_vec_put length_vec_put less_max_iff_disj)
  qed
  have "last ?xs' \<noteq> None" if "?xs' \<noteq> []"
    using that ok last_vec_put[of ?xs ?k pid] by (simp add: pt_ok_def split: if_splits)
  moreover have "name \<notin> set (pt_names t)" using ok f(1) by (simp add: pt_ok_def smap_find_None_iff)
  ultimately have "pt_ok ?t'"
    using ok sound complete unfolding pt_ok_def by (simp add: smap_keys_set insert_commute)
  then show ?thesis using run by (intro exI[of _ ?t']) (auto simp: smap_find_set)
qed

text \<open>What holds of the tables whatever the names are: the three tables by name agree, and every entry of the indexed vector is a
  port of that index. The other direction, that a port with an index is found there, is lost when two names have one index.\<close>

definition pt_sound :: "port_tables \<Rightarrow> bool" where
  "pt_sound t \<longleftrightarrow> smap_ok (pt_ports t) \<and> pt_named t = pt_ports t \<and> distinct (pt_names t)
     \<and> set (pt_names t) = fst ` set (pt_ports t) \<and> (pt_indexed t \<noteq> [] \<longrightarrow> last (pt_indexed t) \<noteq> None)
     \<and> (\<forall>k pid. k < length (pt_indexed t) \<and> pt_indexed t ! k = Some pid \<longrightarrow>
          (\<exists>name. smap_find name (pt_ports t) = Some pid \<and> portNameToIndex name = int k))"

lemma pt_sound_indexed: "pt_sound t \<Longrightarrow> j < length (pt_indexed t) \<Longrightarrow> pt_indexed t ! j = Some q \<Longrightarrow>
    \<exists>x. smap_find x (pt_ports t) = Some q \<and> portNameToIndex x = int j"
  unfolding pt_sound_def by blast

lemma pt_ok_sound: "pt_ok t \<Longrightarrow> pt_sound t"
  unfolding pt_ok_def pt_sound_def by blast

text \<open>The tables after the allocation of \<open>name\<close>, with the indexed vector \<open>xs\<close>.\<close>

definition pt_added :: "string \<Rightarrow> nat \<Rightarrow> nat option list \<Rightarrow> port_tables \<Rightarrow> port_tables" where
  "pt_added name pid xs t = \<lparr>pt_ports = smap_set name pid (pt_ports t), pt_named = smap_set name pid (pt_named t),
     pt_indexed = xs, pt_names = pt_names t @ [name]\<rparr>"

lemma pt_added_sound:
  assumes ok: "pt_sound t" and f: "smap_find name (pt_ports t) = None"
    and xs: "xs = pt_indexed t \<or> 0 \<le> portNameToIndex name \<and> xs = vec_put (nat (portNameToIndex name)) pid (pt_indexed t)"
  shows "pt_sound (pt_added name pid xs t)"
proof -
  let ?k = "nat (portNameToIndex name)"
  have sound: "\<exists>x. smap_find x (smap_set name pid (pt_ports t)) = Some q \<and> portNameToIndex x = int j"
    if "j < length xs" "xs ! j = Some q" for j q
  proof (cases "xs \<noteq> pt_indexed t \<and> j = ?k")
    case True
    then have "q = pid" "portNameToIndex name = int j" using that xs by (auto simp: nth_vec_put)
    then show ?thesis by (intro exI[of _ name]) simp
  next
    case False
    then have "j < length (pt_indexed t)" "pt_indexed t ! j = Some q"
      using that xs by (auto simp: nth_vec_put length_vec_put split: if_splits)
    then obtain x where "smap_find x (pt_ports t) = Some q" "portNameToIndex x = int j"
      using pt_sound_indexed[OF ok] by blast
    then show ?thesis using f by (intro exI[of _ x]) (auto simp: smap_find_set)
  qed
  have "last xs \<noteq> None" if "xs \<noteq> []" using that ok xs last_vec_put[of "pt_indexed t"] unfolding pt_sound_def by metis
  moreover have "name \<notin> set (pt_names t)" using ok f by (simp add: pt_sound_def smap_find_None_iff)
  ultimately show ?thesis
    using ok sound unfolding pt_sound_def pt_added_def by (simp add: smap_keys_set insert_commute)
qed

lemma pt_strip_nth: "k < length (pt_strip xs) \<Longrightarrow> pt_strip xs ! k = xs ! k"
  "k < length xs \<Longrightarrow> xs ! k \<noteq> None \<Longrightarrow> k < length (pt_strip xs)" "length (pt_strip xs) \<le> length xs"
  "pt_strip xs \<noteq> [] \<Longrightarrow> last (pt_strip xs) \<noteq> None"
proof -
  let ?d = "takeWhile (\<lambda>x. x = None) (rev xs)"
  have xs: "xs = pt_strip xs @ rev ?d"
    unfolding pt_strip_def by (metis rev_append rev_rev_ident takeWhile_dropWhile_id)
  show "k < length (pt_strip xs) \<Longrightarrow> pt_strip xs ! k = xs ! k" by (subst (2) xs) (simp add: nth_append)
  show "length (pt_strip xs) \<le> length xs" by (subst (2) xs) simp
  show "k < length xs \<Longrightarrow> xs ! k \<noteq> None \<Longrightarrow> k < length (pt_strip xs)"
  proof (rule ccontr)
    assume a: "k < length xs" "xs ! k \<noteq> None" "\<not> k < length (pt_strip xs)"
    have "xs ! k = rev ?d ! (k - length (pt_strip xs))" using a(3) by (subst xs) (simp add: nth_append)
    moreover have "k - length (pt_strip xs) < length (rev ?d)" using a(1,3) arg_cong[OF xs, of length] by simp
    ultimately have "xs ! k \<in> set (rev ?d)" by (metis nth_mem)
    then show False using a(2) by (auto dest: set_takeWhileD)
  qed
  show "last (pt_strip xs) \<noteq> None" if "pt_strip xs \<noteq> []"
  proof -
    have "dropWhile (\<lambda>x. x = None) (rev xs) \<noteq> []" using that by (simp add: pt_strip_def)
    from hd_dropWhile[OF this] this show ?thesis by (simp add: pt_strip_def last_rev)
  qed
qed

lemma pt_remove_ok:
  assumes ok: "pt_ok t" and p: "smap_find name (pt_ports t) = Some pid"
    and uniq: "\<forall>x \<in> fst ` set (pt_ports t). 0 \<le> portNameToIndex name \<and> portNameToIndex x = portNameToIndex name \<longrightarrow> x = name"
  defines "t' \<equiv> pt_remove name (portNameToIndex name) t"
  shows "pt_ok t' \<and> (\<forall>x. smap_find x (pt_ports t') = (if x = name then None else smap_find x (pt_ports t)))"
proof -
  let ?ix = "portNameToIndex name" and ?xs = "pt_indexed t"
  let ?ys = "if ?ix \<ge> 0 \<and> ?ix < int (length ?xs) then ?xs[nat ?ix := None] else ?xs"
  have dis: "distinct (map fst (pt_ports t))" using ok by (simp add: pt_ok_def smap_ok_distinct)
  have find: "smap_find x (pt_ports t') = (if x = name then None else smap_find x (pt_ports t))" for x
    using smap_find_erase[OF dis] by (simp add: t'_def pt_remove_def)
  have ix: "pt_indexed t' = pt_strip ?ys" by (simp add: t'_def pt_remove_def)
  have ly: "length ?ys = length ?xs" by simp
  have sound: "\<exists>x. smap_find x (pt_ports t') = Some q \<and> portNameToIndex x = int j"
    if "j < length (pt_indexed t')" "pt_indexed t' ! j = Some q" for j q
  proof -
    have "j < length ?ys" "?ys ! j = Some q" using that pt_strip_nth(1)[of j ?ys] pt_strip_nth(3)[of ?ys] unfolding ix by auto
    then have j: "j < length ?xs" "?xs ! j = Some q" "\<not> (?ix = int j)"
      by (auto simp: nth_list_update split: if_splits)
    then obtain x where x: "smap_find x (pt_ports t) = Some q" "portNameToIndex x = int j"
      using pt_ok_indexed[OF ok] by blast
    then have "x \<noteq> name" using j(3) by auto
    then show ?thesis using x find by auto
  qed
  have complete: "nat (portNameToIndex x) < length (pt_indexed t') \<and> pt_indexed t' ! nat (portNameToIndex x) = Some q"
    if "smap_find x (pt_ports t') = Some q" "0 \<le> portNameToIndex x" for x q
  proof -
    have x: "x \<noteq> name" "smap_find x (pt_ports t) = Some q" using that(1) find by (auto split: if_splits)
    then have old: "nat (portNameToIndex x) < length ?xs" "?xs ! nat (portNameToIndex x) = Some q"
      using ok that(2) by (auto simp: pt_ok_def)
    have "x \<in> fst ` set (pt_ports t)" using smap_find_Some_in[OF x(2)] by force
    then have "portNameToIndex x \<noteq> ?ix" using uniq x(1) that(2) by auto
    then have y: "nat (portNameToIndex x) < length ?ys" "?ys ! nat (portNameToIndex x) = Some q"
      using old that(2) by (auto simp: nth_list_update)
    then show ?thesis using pt_strip_nth(1,2)[of "nat (portNameToIndex x)" ?ys] unfolding ix by simp
  qed
  have "pt_indexed t' \<noteq> [] \<longrightarrow> last (pt_indexed t') \<noteq> None" unfolding ix using pt_strip_nth(4) by blast
  moreover have "set (pt_names t') = fst ` set (pt_ports t')" "distinct (pt_names t')"
    using ok smap_keys_erase[OF dis] by (auto simp: pt_ok_def t'_def pt_remove_def)
  ultimately show ?thesis
    using ok sound complete find unfolding pt_ok_def by (auto simp: t'_def pt_remove_def)
qed

lemma pt_remove_sound:
  fixes name :: string
  assumes ok: "pt_sound t"
  defines "t' \<equiv> pt_remove name (portNameToIndex name) t"
  shows "pt_sound t' \<and> (\<forall>x. smap_find x (pt_ports t') = (if x = name then None else smap_find x (pt_ports t)))"
proof -
  let ?ix = "portNameToIndex name" and ?xs = "pt_indexed t"
  let ?ys = "if ?ix \<ge> 0 \<and> ?ix < int (length ?xs) then ?xs[nat ?ix := None] else ?xs"
  have dis: "distinct (map fst (pt_ports t))" using ok by (simp add: pt_sound_def smap_ok_distinct)
  have find: "smap_find x (pt_ports t') = (if x = name then None else smap_find x (pt_ports t))" for x
    using smap_find_erase[OF dis] by (simp add: t'_def pt_remove_def)
  have ix: "pt_indexed t' = pt_strip ?ys" by (simp add: t'_def pt_remove_def)
  have sound: "\<exists>x. smap_find x (pt_ports t') = Some q \<and> portNameToIndex x = int j"
    if "j < length (pt_indexed t')" "pt_indexed t' ! j = Some q" for j q
  proof -
    have "j < length ?ys" "?ys ! j = Some q" using that pt_strip_nth(1)[of j ?ys] pt_strip_nth(3)[of ?ys] unfolding ix by auto
    then have j: "j < length ?xs" "?xs ! j = Some q" "\<not> (?ix = int j)"
      by (auto simp: nth_list_update split: if_splits)
    then obtain x where x: "smap_find x (pt_ports t) = Some q" "portNameToIndex x = int j"
      using pt_sound_indexed[OF ok] by blast
    then have "x \<noteq> name" using j(3) by auto
    then show ?thesis using x find by auto
  qed
  have "pt_indexed t' \<noteq> [] \<longrightarrow> last (pt_indexed t') \<noteq> None" unfolding ix using pt_strip_nth(4) by blast
  moreover have "set (pt_names t') = fst ` set (pt_ports t')" "distinct (pt_names t')"
    using ok smap_keys_erase[OF dis] by (auto simp: pt_sound_def t'_def pt_remove_def)
  ultimately show ?thesis
    using ok sound find unfolding pt_sound_def by (auto simp: t'_def pt_remove_def)
qed

text \<open>The histories of a table: guarded allocations and removals of ports that are there.\<close>

inductive pt_reach :: "port_tables \<Rightarrow> bool" where
  pt_start: "pt_reach pt_new"
| pt_alloc: "pt_reach t \<Longrightarrow> pt_fresh name t \<Longrightarrow> pt_allocate name pid t = Inr t' \<Longrightarrow> pt_reach t'"
| pt_delete: "pt_reach t \<Longrightarrow> smap_find name (pt_ports t) = Some pid \<Longrightarrow> pt_reach (pt_remove name (portNameToIndex name) t)"

text \<open>Two ports never share an index.\<close>

definition pt_unique :: "port_tables \<Rightarrow> bool" where
  "pt_unique t \<longleftrightarrow> (\<forall>x \<in> fst ` set (pt_ports t). \<forall>y \<in> fst ` set (pt_ports t).
     0 \<le> portNameToIndex x \<longrightarrow> portNameToIndex x = portNameToIndex y \<longrightarrow> x = y)"

lemma pt_unique_find: "pt_unique t \<longleftrightarrow> (\<forall>x y. smap_find x (pt_ports t) \<noteq> None \<longrightarrow> smap_find y (pt_ports t) \<noteq> None \<longrightarrow>
    0 \<le> portNameToIndex x \<longrightarrow> portNameToIndex x = portNameToIndex y \<longrightarrow> x = y)"
  by (simp add: pt_unique_def smap_find_None_iff Ball_def) blast

lemma pt_fresh_find: "pt_fresh name t \<Longrightarrow> smap_find x (pt_ports t) \<noteq> None \<Longrightarrow> 0 \<le> portNameToIndex name \<Longrightarrow>
    portNameToIndex x \<noteq> portNameToIndex name"
  by (auto simp: pt_fresh_def smap_find_None_iff)

lemma pt_reach_ok: "pt_reach t \<Longrightarrow> pt_ok t \<and> pt_unique t"
proof (induction rule: pt_reach.induct)
  case pt_start
  show ?case by (simp add: pt_ok_def pt_unique_def pt_new_def)
next
  case (pt_alloc t name pid t')
  from pt_allocate_ok[of t name pid] pt_alloc have ok: "pt_ok t'"
    and f: "\<And>x. smap_find x (pt_ports t') = (if x = name then Some pid else smap_find x (pt_ports t))" by auto
  have "pt_unique t'" using pt_alloc.IH pt_fresh_find[OF pt_alloc.hyps(2)] unfolding pt_unique_find f
    by metis
  with ok show ?case ..
next
  case (pt_delete t name pid)
  have mem: "name \<in> fst ` set (pt_ports t)" using smap_find_Some_in[OF pt_delete.hyps(2)] by force
  have u: "\<forall>x \<in> fst ` set (pt_ports t). 0 \<le> portNameToIndex name \<and> portNameToIndex x = portNameToIndex name \<longrightarrow> x = name"
    using pt_delete.IH mem by (metis pt_unique_def)
  note r = pt_remove_ok[OF _ pt_delete.hyps(2) u]
  have "pt_unique (pt_remove name (portNameToIndex name) t)"
    using r pt_delete.IH unfolding pt_unique_find by metis
  with r pt_delete.IH show ?case by blast
qed

section \<open>Every history of the tables\<close>

text \<open>The callers (\<open>setupInput\<close>, \<open>setupOutput\<close>, \<open>autoAllocatePort\<close>) check only that no port has the name. Where the index is
  too large for \<open>int\<close> the resize of the indexed vector throws, and the port stays in the other tables.\<close>

datatype pt_op = PtAllocate string nat | PtDelete string

fun pt_do :: "pt_op \<Rightarrow> port_tables \<Rightarrow> port_tables" where
  "pt_do (PtAllocate name pid) t =
     (if smap_find name (pt_named t) \<noteq> None then t
      else case pt_allocate name pid t of
        Inr t' \<Rightarrow> t'
      | Inl _ \<Rightarrow> pt_added name pid (pt_indexed t) t)"
| "pt_do (PtDelete name) t =
     (if smap_find name (pt_ports t) = None then t else pt_remove name (portNameToIndex name) t)"

definition pt_run :: "pt_op list \<Rightarrow> port_tables" where
  "pt_run ops = fold pt_do ops pt_new"

fun pt_op_name :: "pt_op \<Rightarrow> string" where
  "pt_op_name (PtAllocate name pid) = name"
| "pt_op_name (PtDelete name) = name"

text \<open>No two of the names stand for one index.\<close>

definition one_name_per_index :: "string set \<Rightarrow> bool" where
  "one_name_per_index S \<longleftrightarrow> (\<forall>x \<in> S. \<forall>y \<in> S. 0 \<le> portNameToIndex x \<longrightarrow> portNameToIndex x = portNameToIndex y \<longrightarrow> x = y)"

lemma pt_allocate_added: "pt_allocate name pid t = Inr t' \<Longrightarrow>
    \<exists>xs. t' = pt_added name pid xs t \<and> (xs = pt_indexed t
      \<or> 0 \<le> portNameToIndex name \<and> xs = vec_put (nat (portNameToIndex name)) pid (pt_indexed t))"
  by (auto simp: pt_allocate_def pt_index_port_def pt_added_def split: if_splits)

lemma pt_allocate_fails: "pt_allocate name pid t = Inl e \<longleftrightarrow> portNameToIndex name < -1 \<and> e = OtherException"
  by (auto simp: pt_allocate_def pt_index_port_def)

lemma pt_do_sound: "pt_sound t \<Longrightarrow> pt_sound (pt_do op t)"
proof (cases op)
  case (PtAllocate name pid)
  assume ok: "pt_sound t"
  then have n: "pt_named t = pt_ports t" by (simp add: pt_sound_def)
  show ?thesis
  proof (cases "smap_find name (pt_ports t) = None")
    case True
    show ?thesis
    proof (cases "pt_allocate name pid t")
      case (Inl e)
      then show ?thesis using pt_added_sound[OF ok True] True by (simp add: PtAllocate n)
    next
      case (Inr t')
      then show ?thesis using pt_added_sound[OF ok True] pt_allocate_added[OF Inr] True by (auto simp: PtAllocate n)
    qed
  qed (use ok in \<open>simp add: PtAllocate n\<close>)
next
  case (PtDelete name)
  then show "pt_sound t \<Longrightarrow> ?thesis" using pt_remove_sound by simp
qed

lemma pt_failed_ok:
  assumes "pt_ok t" "smap_find name (pt_ports t) = None" "portNameToIndex name < -1"
  shows "pt_ok (pt_added name pid (pt_indexed t) t)"
proof -
  have "pt_sound (pt_added name pid (pt_indexed t) t)" using pt_added_sound[OF pt_ok_sound[OF assms(1)] assms(2)] by blast
  moreover have "smap_find x (pt_ports t) = Some q"
    if "smap_find x (pt_ports (pt_added name pid (pt_indexed t) t)) = Some q" "0 \<le> portNameToIndex x" for x q
    using that assms(3) by (auto simp: pt_added_def smap_find_set split: if_splits)
  ultimately show ?thesis using assms(1) unfolding pt_ok_def pt_sound_def by (auto simp: pt_added_def)
qed

lemma pt_do_keys: "pt_sound t \<Longrightarrow> fst ` set (pt_ports (pt_do op t)) \<subseteq> insert (pt_op_name op) (fst ` set (pt_ports t))"
proof (cases op)
  case (PtAllocate name pid)
  have "pt_ports (pt_do op t) = pt_ports t \<or> pt_ports (pt_do op t) = smap_set name pid (pt_ports t)"
    by (auto simp: PtAllocate pt_added_def dest!: pt_allocate_added split: sum.split)
  then show ?thesis by (elim disjE) (simp_all only: PtAllocate smap_keys_set pt_op_name.simps subset_insertI order_refl)
next
  case (PtDelete name)
  assume "pt_sound t"
  then have "distinct (map fst (pt_ports t))" by (simp add: pt_sound_def smap_ok_distinct)
  then have "fst ` set (smap_erase name (pt_ports t)) \<subseteq> fst ` set (pt_ports t)" by (simp add: smap_keys_erase)
  then show ?thesis by (simp add: PtDelete pt_remove_def subset_insertI2 subset_insertI)
qed

lemma pt_do_ok:
  assumes ok: "pt_ok t" and one: "one_name_per_index (insert (pt_op_name op) (fst ` set (pt_ports t)))"
  shows "pt_ok (pt_do op t)"
proof (cases op)
  case (PtAllocate name pid)
  have n: "pt_named t = pt_ports t" using ok by (simp add: pt_ok_def)
  show ?thesis
  proof (cases "smap_find name (pt_ports t) = None")
    case True
    show ?thesis
    proof (cases "portNameToIndex name < -1")
      case True': True
      then have "pt_allocate name pid t = Inl OtherException" by (simp add: pt_allocate_fails)
      then show ?thesis using pt_failed_ok[OF ok True True'] True by (simp add: PtAllocate n)
    next
      case False
      have "name \<notin> fst ` set (pt_ports t)" using True by (simp add: smap_find_None_iff)
      then have "pt_fresh name t" using one False True by (auto simp: PtAllocate pt_fresh_def one_name_per_index_def)
      then show ?thesis using pt_allocate_ok[OF ok, of name pid] True by (auto simp: PtAllocate n)
    qed
  qed (use ok in \<open>simp add: PtAllocate n\<close>)
next
  case (PtDelete name)
  show ?thesis
  proof (cases "smap_find name (pt_ports t)")
    case (Some pid)
    then have "\<forall>x \<in> fst ` set (pt_ports t). 0 \<le> portNameToIndex name \<and> portNameToIndex x = portNameToIndex name \<longrightarrow> x = name"
      using one by (auto simp: PtDelete one_name_per_index_def)
    from pt_remove_ok[OF ok Some this] show ?thesis by (simp add: PtDelete Some)
  qed (use ok in \<open>simp add: PtDelete\<close>)
qed

lemma one_name_per_index_subset: "one_name_per_index S \<Longrightarrow> T \<subseteq> S \<Longrightarrow> one_name_per_index T"
  unfolding one_name_per_index_def by blast

lemma pt_run_props: "pt_sound (pt_run ops) \<and> fst ` set (pt_ports (pt_run ops)) \<subseteq> pt_op_name ` set ops
    \<and> (one_name_per_index (pt_op_name ` set ops) \<longrightarrow> pt_ok (pt_run ops))"
proof (induction ops rule: rev_induct)
  case Nil
  show ?case by (simp add: pt_run_def pt_sound_def pt_ok_def pt_new_def)
next
  case (snoc op ops)
  have r: "pt_run (ops @ [op]) = pt_do op (pt_run ops)" by (simp add: pt_run_def)
  have s: "pt_sound (pt_do op (pt_run ops))" using snoc.IH pt_do_sound by blast
  have k: "fst ` set (pt_ports (pt_do op (pt_run ops))) \<subseteq> pt_op_name ` set (ops @ [op])"
    using snoc.IH pt_do_keys[of "pt_run ops" op] by auto
  have "pt_ok (pt_do op (pt_run ops))" if one: "one_name_per_index (pt_op_name ` set (ops @ [op]))"
  proof (rule pt_do_ok)
    show "pt_ok (pt_run ops)" using snoc.IH one one_name_per_index_subset[OF one, of "pt_op_name ` set ops"] by auto
    show "one_name_per_index (insert (pt_op_name op) (fst ` set (pt_ports (pt_run ops))))"
      using snoc.IH by (intro one_name_per_index_subset[OF one]) auto
  qed
  then show ?case unfolding r using s k by blast
qed

text \<open>C19: After any sequence of allocations and deletions, whose callers check only that no port has the name, the ports and the
  block's named ports are the same, the name list has each name once, every entry of the indexed vector is a port whose name is
  that index, and the vector does not end in a null entry; an allocation throws only where the name is parsed as a value from 2^31 on
  (other than 2^32 - 1). Where no two of the names used stand for one index, every port whose name is an index is
  found at that index. (The code does not check this: \<open>level\<close> is parsed as index 0, so a port of this name and the port \<open>0\<close> take
  each other's place.)\<close>
theorem pt_tables_agree:
  "pt_sound (pt_run ops)
    \<and> (one_name_per_index (pt_op_name ` set ops) \<longrightarrow> pt_ok (pt_run ops))
    \<and> (pt_allocate name pid (pt_run ops) = Inl e \<longleftrightarrow> portNameToIndex name < -1 \<and> e = OtherException)"
  using pt_run_props[of ops] pt_allocate_fails[of name pid "pt_run ops" e] by blast

text \<open>Two indexed ports with a gap, and the deletion of the first.\<close>

definition demo_ports :: "pt_op list" where
  "demo_ports = [PtAllocate ''0'' 7, PtAllocate ''2'' 8, PtDelete ''0'']"

lemma demo_indexes: "portNameToIndex ''0'' = 0" "portNameToIndex ''2'' = 2"
  by (simp_all add: portNameToIndex_def tryParseUnsigned_def strToInt_def is_space_def is_digit_def digit_of_def UINT_MOD_def)

theorem pt_tables_agree_witness:
  "pt_ok (pt_run demo_ports) \<and> pt_indexed (pt_run demo_ports) = [None, None, Some 8]"
proof -
  have "one_name_per_index (pt_op_name ` set demo_ports)"
    by (simp add: one_name_per_index_def demo_ports_def demo_indexes)
  moreover have "pt_indexed (pt_run demo_ports) = [None, None, Some 8]"
    by (simp add: demo_ports_def pt_run_def demo_indexes pt_allocate_def pt_index_port_def pt_new_def vec_put_def vec_resize_def
        pt_remove_def pt_strip_def numeral_2_eq_2)
  ultimately show ?thesis using pt_tables_agree[of demo_ports] by blast
qed

text \<open>Without the condition: after \<open>level\<close> has taken the index of \<open>0\<close>, the deletion of \<open>0\<close> takes \<open>level\<close> out of the
  indexed vector.\<close>

lemma pt_shared_index_lost:
  "pt_indexed (pt_run [PtAllocate ''0'' 7, PtAllocate ''level'' 8, PtDelete ''0'']) = []
    \<and> pt_ports (pt_run [PtAllocate ''0'' 7, PtAllocate ''level'' 8, PtDelete ''0'']) = [(''level'', 8)]"
  by (simp add: pt_run_def demo_indexes portNameToIndex_suffix pt_allocate_def pt_index_port_def pt_new_def vec_put_def vec_resize_def
      pt_remove_def pt_strip_def)

end
