(* ===== verification/Worker.thy ===== *)
theory Worker
  imports PortAllocation
begin

text \<open>
  \<^verbatim>\<open>Pothos::WorkerActor\<close> (lib/Framework/WorkerActor.hpp, WorkerActor.cpp and
  WorkerActorPortAllocation.cpp) with \<^verbatim>\<open>WorkInfo\<close>: the allocation of ports in the store,
  subscriptions, activation, and the task of a worker: the preparation of the ports, the call of the
  user's \<open>work\<close>, and the delivery of what was consumed, produced and posted.

  What the block overrides (\<open>work\<close>, \<open>propagateLabels\<close>, the handler of slot calls, \<open>activate\<close>), the
  allocator, the reference counts and \<open>std::sort\<close> are the fields of an environment. An exception of
  these calls is logged and dropped by the worker, so each is a function of the whole state. Loops over
  the ports run over the port map as it is when the loop starts. Times are not modelled.
\<close>

section \<open>State\<close>

record work_info =
  wi_inputPointers :: "usize list"
  wi_outputPointers :: "usize list"
  wi_minElements :: usize
  wi_minInElements :: usize
  wi_minOutElements :: usize
  wi_minAllElements :: usize
  wi_minAllInElements :: usize
  wi_minAllOutElements :: usize
  wi_maxTimeoutNs :: int

definition wi_new :: work_info where
  "wi_new = \<lparr>wi_inputPointers = [], wi_outputPointers = [], wi_minElements = 0, wi_minInElements = 0,
     wi_minOutElements = 0, wi_minAllElements = 0, wi_minAllInElements = 0, wi_minAllOutElements = 0,
     wi_maxTimeoutNs = 0\<rparr>"

text \<open>Input and output ports have separate numberings, so the set of automatic ports holds a sum. The last two
  fields are the registered calls and probes of the block (theory BlockApi).\<close>

record worker =
  wa_activeState :: bool
  wa_activityIndicator :: "32 word"
  wa_in :: port_tables
  wa_out :: port_tables
  wa_automaticPorts :: "(nat + nat) list"
  wa_workInfo :: work_info
  wa_numTaskCalls :: usize
  wa_numWorkCalls :: usize
  wa_calls :: "(string \<times> nat) list"
  wa_probes :: "(string \<times> string \<times> string) list"

definition wa_new :: worker where
  "wa_new = \<lparr>wa_activeState = False, wa_activityIndicator = 0, wa_in = pt_new, wa_out = pt_new,
     wa_automaticPorts = [], wa_workInfo = wi_new, wa_numTaskCalls = 0, wa_numWorkCalls = 0,
     wa_calls = [], wa_probes = []\<rparr>"

record world = ports +
  w_worker :: "nat \<Rightarrow> worker"

definition upd_worker :: "nat \<Rightarrow> (worker \<Rightarrow> worker) \<Rightarrow> world \<Rightarrow> world" where
  "upd_worker a f w = w\<lparr>w_worker := (w_worker w)(a := f (w_worker w a))\<rparr>"

definition upd_info :: "nat \<Rightarrow> (work_info \<Rightarrow> work_info) \<Rightarrow> world \<Rightarrow> world" where
  "upd_info a f = upd_worker a (\<lambda>wk. wk\<lparr>wa_workInfo := f (wa_workInfo wk)\<rparr>)"

record env =
  en_refs :: "world \<Rightarrow> nat \<Rightarrow> nat"
  en_extRefs :: "nat \<Rightarrow> world \<Rightarrow> nat \<Rightarrow> nat"
  en_alloc :: "world \<Rightarrow> usize \<Rightarrow> shared_buffer"
  en_tokenBuffer :: "nat \<Rightarrow> shared_buffer"
  en_tokenId :: "nat \<Rightarrow> nat"
  en_circ :: "usize \<Rightarrow> shared_buffer result"
  en_sort :: "label list \<Rightarrow> label list"
  en_emptyDType :: dtype
  en_work :: "nat \<Rightarrow> world \<Rightarrow> world"
  en_propagate :: "nat \<Rightarrow> nat \<Rightarrow> world \<Rightarrow> world"
  en_call :: "nat \<Rightarrow> string \<Rightarrow> pobject list \<Rightarrow> world \<Rightarrow> world"
  en_activate :: "nat \<Rightarrow> world \<Rightarrow> world \<times> pothos_error option"
  en_deactivate :: "nat \<Rightarrow> world \<Rightarrow> world \<times> pothos_error option"
  en_inputManager :: "nat \<Rightarrow> string \<Rightarrow> string \<Rightarrow> nat option result"
  en_outputManager :: "nat \<Rightarrow> string \<Rightarrow> string \<Rightarrow> nat option result"

definition wa_inputs :: "nat \<Rightarrow> world \<Rightarrow> (string \<times> nat) list" where
  "wa_inputs a w = pt_ports (wa_in (w_worker w a))"

definition wa_outputs :: "nat \<Rightarrow> world \<Rightarrow> (string \<times> nat) list" where
  "wa_outputs a w = pt_ports (wa_out (w_worker w a))"

section \<open>Ports of a worker\<close>

definition wa_updatePorts :: "worker \<Rightarrow> worker" where
  "wa_updatePorts wk = wk\<lparr>wa_workInfo := (wa_workInfo wk)\<lparr>
     wi_inputPointers := vec_resize (length (pt_indexed (wa_in wk))) 0 (wi_inputPointers (wa_workInfo wk)),
     wi_outputPointers := vec_resize (length (pt_indexed (wa_out wk))) 0 (wi_outputPointers (wa_workInfo wk))\<rparr>\<rparr>"

definition ip_allocated :: "nat \<Rightarrow> string \<Rightarrow> dtype \<Rightarrow> string \<Rightarrow> in_port" where
  "ip_allocated a name dt domain = ip_new\<lparr>ip_actor := Some a, ip_dtype := dt, ip_domain := domain,
     ip_name := name, ip_index := portNameToIndex name\<rparr>"

definition op_allocated :: "nat \<Rightarrow> nat \<Rightarrow> string \<Rightarrow> dtype \<Rightarrow> string \<Rightarrow> out_port" where
  "op_allocated tokens a name dt domain = (op_new tokens)\<lparr>op_actor := Some a, op_dtype := dt, op_domain := domain,
     op_name := name, op_index := portNameToIndex name\<rparr>"

text \<open>\<open>pid\<close> is the address of the new port and \<open>mid\<close> that of the token manager its constructor makes.\<close>

definition wa_allocateInput :: "nat \<Rightarrow> string \<Rightarrow> dtype \<Rightarrow> string \<Rightarrow> bool \<Rightarrow> nat \<Rightarrow> world \<Rightarrow> world result" where
  "wa_allocateInput a name dt domain automatic pid w =
     result_bind (pt_allocate name pid (wa_in (w_worker w a))) (\<lambda>t.
       Inr (upd_worker a (\<lambda>wk. wa_updatePorts (wk\<lparr>wa_in := t,
              wa_automaticPorts := (if automatic then List.insert (Inl pid) (wa_automaticPorts wk)
                                    else wa_automaticPorts wk)\<rparr>))
            (upd_in pid (\<lambda>_. ip_allocated a name dt domain) w)))"

definition wa_allocateOutput :: "env \<Rightarrow> nat \<Rightarrow> string \<Rightarrow> dtype \<Rightarrow> string \<Rightarrow> bool \<Rightarrow> nat \<Rightarrow> nat \<Rightarrow> world \<Rightarrow> world result" where
  "wa_allocateOutput env a name dt domain automatic pid mid w =
     result_bind (out_tokenManagerInit (en_tokenBuffer env) (en_tokenId env) mid pid w) (\<lambda>w.
     result_bind (pt_allocate name pid (wa_out (w_worker w a))) (\<lambda>t.
       Inr (upd_worker a (\<lambda>wk. wa_updatePorts (wk\<lparr>wa_out := t,
              wa_automaticPorts := (if automatic then List.insert (Inr pid) (wa_automaticPorts wk)
                                    else wa_automaticPorts wk)\<rparr>))
            (upd_out pid (\<lambda>_. op_allocated mid a name dt domain) w))))"

definition wa_allocateSignal :: "env \<Rightarrow> nat \<Rightarrow> string \<Rightarrow> nat \<Rightarrow> nat \<Rightarrow> world \<Rightarrow> world result" where
  "wa_allocateSignal env a name pid mid w =
     result_bind (wa_allocateOutput env a name (en_emptyDType env) [] False pid mid w) (\<lambda>w.
       Inr (upd_out pid (\<lambda>p. p\<lparr>op_isSignal := True\<rparr>) w))"

definition wa_allocateSlot :: "env \<Rightarrow> nat \<Rightarrow> string \<Rightarrow> nat \<Rightarrow> world \<Rightarrow> world result" where
  "wa_allocateSlot env a name pid w =
     result_bind (wa_allocateInput a name (en_emptyDType env) [] False pid w) (\<lambda>w.
       Inr (upd_in pid (\<lambda>p. p\<lparr>ip_isSlot := True\<rparr>) w))"

text \<open>A null entry at the index of an allocated port would be dereferenced; the tables have none.\<close>

definition wa_autoAllocateInput :: "nat \<Rightarrow> string \<Rightarrow> nat \<Rightarrow> world \<Rightarrow> world result" where
  "wa_autoAllocateInput a name pid w =
     (let t = wa_in (w_worker w a) in
      case pt_lower_of name t of
        None \<Rightarrow> Inr w
      | Some i \<Rightarrow> (case pt_indexed t ! i of
            None \<Rightarrow> Inl OtherException
          | Some q \<Rightarrow> wa_allocateInput a name (ip_dtype (w_in w q)) (ip_domain (w_in w q)) True pid w))"

definition wa_autoAllocateOutput :: "env \<Rightarrow> nat \<Rightarrow> string \<Rightarrow> nat \<Rightarrow> nat \<Rightarrow> world \<Rightarrow> world result" where
  "wa_autoAllocateOutput env a name pid mid w =
     (let t = wa_out (w_worker w a) in
      case pt_lower_of name t of
        None \<Rightarrow> Inr w
      | Some i \<Rightarrow> (case pt_indexed t ! i of
            None \<Rightarrow> Inl OtherException
          | Some q \<Rightarrow> wa_allocateOutput env a name (op_dtype (w_out w q)) (op_domain (w_out w q)) True pid mid w))"

definition wa_autoDeleteInput :: "nat \<Rightarrow> string \<Rightarrow> world \<Rightarrow> world" where
  "wa_autoDeleteInput a name w =
     (let wk = w_worker w a in
      case smap_find name (pt_ports (wa_in wk)) of
        None \<Rightarrow> w
      | Some pid \<Rightarrow>
          if ip_subscribers (w_in w pid) \<noteq> [] \<or> Inl pid \<notin> set (wa_automaticPorts wk) then w
          else upd_worker a (\<lambda>wk. wk\<lparr>wa_automaticPorts := remove1 (Inl pid) (wa_automaticPorts wk),
                 wa_in := pt_remove name (ip_index (w_in w pid)) (wa_in wk)\<rparr>) w)"

definition wa_autoDeleteOutput :: "nat \<Rightarrow> string \<Rightarrow> world \<Rightarrow> world" where
  "wa_autoDeleteOutput a name w =
     (let wk = w_worker w a in
      case smap_find name (pt_ports (wa_out wk)) of
        None \<Rightarrow> w
      | Some pid \<Rightarrow>
          if op_subscribers (w_out w pid) \<noteq> [] \<or> Inr pid \<notin> set (wa_automaticPorts wk) then w
          else upd_worker a (\<lambda>wk. wk\<lparr>wa_automaticPorts := remove1 (Inr pid) (wa_automaticPorts wk),
                 wa_out := pt_remove name (op_index (w_out w pid)) (wa_out wk)\<rparr>) w)"

section \<open>Buffer managers of a worker\<close>

definition buffer_mode :: "nat option result \<Rightarrow> string result" where
  "buffer_mode r = (case r of
       Inr (Some _) \<Rightarrow> Inr ''CUSTOM'' | Inr None \<Rightarrow> Inr ''ABDICATE''
     | Inl e \<Rightarrow> if e = PortDomainError then Inr ''ERROR'' else Inl e)"

definition wa_getInputBufferMode :: "env \<Rightarrow> nat \<Rightarrow> string \<Rightarrow> string \<Rightarrow> string result" where
  "wa_getInputBufferMode env a name domain = buffer_mode (en_inputManager env a name domain)"

definition wa_getOutputBufferMode :: "env \<Rightarrow> nat \<Rightarrow> string \<Rightarrow> string \<Rightarrow> string result" where
  "wa_getOutputBufferMode env a name domain = buffer_mode (en_outputManager env a name domain)"

fun bmgr_isInitialized :: "bmgr \<Rightarrow> bool" where
  "bmgr_isInitialized (BmGeneric g) = bm_isInitialized (gm_base g)"
| "bmgr_isInitialized (BmCircular c) = bm_isInitialized (cm_base c)"

fun bmgr_init :: "env \<Rightarrow> nat \<Rightarrow> bm_args \<Rightarrow> bmgr \<Rightarrow> bmgr result" where
  "bmgr_init env self args (BmGeneric g) = map_sum id BmGeneric (gm_init (en_tokenBuffer env) (en_tokenId env) self args g)"
| "bmgr_init env self args (BmCircular c) = map_sum id BmCircular (cm_init (en_circ env) (en_tokenId env) self args c)"

text \<open>\<open>new\<close> is the address of the generic manager that is made when the block abdicates.\<close>

definition wa_getBufferManager :: "env \<Rightarrow> nat \<Rightarrow> string \<Rightarrow> string \<Rightarrow> bool \<Rightarrow> nat \<Rightarrow> world \<Rightarrow> (nat \<times> world) result" where
  "wa_getBufferManager env a name domain isInput new w =
     result_bind (if isInput then en_inputManager env a name domain else en_outputManager env a name domain) (\<lambda>m.
       case m of
         None \<Rightarrow> result_bind (bmgr_init env new bm_args_default (BmGeneric gm_new)) (\<lambda>b. Inr (new, set_mgr new b w))
       | Some k \<Rightarrow>
           if \<not> bmgr_isInitialized (w_mgr w k)
           then result_bind (bmgr_init env k bm_args_default (w_mgr w k)) (\<lambda>b. Inr (k, set_mgr k b w))
           else Inr (k, w))"

text \<open>The external calls lock the actor; releasing the lock flags a change.\<close>

definition with_lock :: "nat \<Rightarrow> world \<times> 'a \<Rightarrow> world \<times> 'a" where
  "with_lock a r = (case r of (w, x) \<Rightarrow> (flag_change (Some a) w, x))"

definition wa_setOutputBufferManager :: "nat \<Rightarrow> string \<Rightarrow> nat option \<Rightarrow> world \<Rightarrow> world \<times> pothos_error option" where
  "wa_setOutputBufferManager a name manager w = with_lock a
     (case smap_find name (wa_outputs a w) of
        None \<Rightarrow> (w, Some StdOutOfRange)
      | Some i \<Rightarrow> (out_bufferManagerSetup i manager w, None))"

section \<open>Subscriptions\<close>

text \<open>The subscriber list of a port after an action; both directions share the code.\<close>

definition subscribe :: "string \<Rightarrow> nat \<Rightarrow> nat list \<Rightarrow> nat list result" where
  "subscribe action i subscribers =
     (if action = ''add'' then (if i \<in> set subscribers then Inl PortAccessError else Inr (subscribers @ [i]))
      else if action = ''remove'' then (if i \<in> set subscribers then Inr (remove1 i subscribers) else Inl PortAccessError)
      else Inr subscribers)"

definition wa_subscribeInput :: "nat \<Rightarrow> string \<Rightarrow> string \<Rightarrow> nat \<Rightarrow> world \<Rightarrow> world \<times> pothos_error option" where
  "wa_subscribeInput a action myPortName inputPort w = with_lock a
     (case smap_find myPortName (wa_outputs a w) of
        None \<Rightarrow> (w, Some StdOutOfRange)
      | Some i \<Rightarrow> (case subscribe action inputPort (op_subscribers (w_out w i)) of
            Inl e \<Rightarrow> (w, Some e)
          | Inr xs \<Rightarrow> (upd_worker a wa_updatePorts (upd_out i (\<lambda>p. p\<lparr>op_subscribers := xs\<rparr>) w), None)))"

definition wa_subscribeOutput :: "nat \<Rightarrow> string \<Rightarrow> string \<Rightarrow> nat \<Rightarrow> world \<Rightarrow> world \<times> pothos_error option" where
  "wa_subscribeOutput a action myPortName outputPort w = with_lock a
     (case smap_find myPortName (wa_inputs a w) of
        None \<Rightarrow> (w, Some StdOutOfRange)
      | Some i \<Rightarrow> (case subscribe action outputPort (ip_subscribers (w_in w i)) of
            Inl e \<Rightarrow> (w, Some e)
          | Inr xs \<Rightarrow> (upd_worker a wa_updatePorts (upd_in i (\<lambda>p. p\<lparr>ip_subscribers := xs\<rparr>) w), None)))"

section \<open>Activation\<close>

definition wa_setActiveStateOn :: "env \<Rightarrow> nat \<Rightarrow> world \<Rightarrow> world \<times> pothos_error option" where
  "wa_setActiveStateOn env a w = with_lock a
     (case en_activate env a (upd_worker a (\<lambda>wk. wk\<lparr>wa_activeState := True\<rparr>) w) of
        (w, None) \<Rightarrow> (w, None)
      | (w, Some e) \<Rightarrow> (upd_worker a (\<lambda>wk. wk\<lparr>wa_activeState := False\<rparr>) w, Some e))"

definition wa_setActiveStateOff :: "env \<Rightarrow> nat \<Rightarrow> world \<Rightarrow> world \<times> pothos_error option" where
  "wa_setActiveStateOff env a w = with_lock a
     (if \<not> wa_activeState (w_worker w a) then (w, None)
      else en_deactivate env a (upd_worker a (\<lambda>wk. wk\<lparr>wa_activeState := False\<rparr>) w))"

section \<open>Pre-work\<close>

definition BIG :: usize where
  "BIG = 2 ^ 30"

definition out_tryRBW :: "nat \<Rightarrow> world \<Rightarrow> nat option" where
  "out_tryRBW y w = (case op_readBeforeWritePort (w_out w y) of
       None \<Rightarrow> None
     | Some i \<Rightarrow> if dt_size (op_dtype (w_out w y)) = dt_size (ip_dtype (w_in w i)) then Some i else None)"

text \<open>The buffer provided to an output port: the front of the read-before-write input when only the
  accumulator and this port use it, else the front of the manager, else none.\<close>

definition out_fetch :: "env \<Rightarrow> nat \<Rightarrow> world \<Rightarrow> world" where
  "out_fetch env y w0 =
     (let w1 = (case out_tryRBW y w0 of
            None \<Rightarrow> w0
          | Some i \<Rightarrow>
              (let w = upd_in i (\<lambda>p. p\<lparr>ip_buffer := bc_null\<rparr>) w0;
                   fp = ip_bufferAccumulatorFront (w_in w i)
               in upd_out y (\<lambda>p. p\<lparr>op_buffer := fst fp\<rparr>) (upd_in i (\<lambda>_. snd fp) w)));
          buffer_manager = (if out_tryRBW y w0 \<noteq> None \<and> bc_useCount (en_refs env w1) (op_buffer (w_out w1 y)) = 2
                 then (op_buffer (w_out w1 y), False)
                 else if out_bufferManagerEmpty y w1 then (bc_null, False)
                 else (out_bufferManagerFront y w1, True))
      in upd_out y (\<lambda>p. p\<lparr>op_buffer := (fst buffer_manager)\<lparr>bc_dtype := op_dtype p\<rparr>,
                          op_bufferFromManager := snd buffer_manager\<rparr>) w1)"

text \<open>The loop bodies thread the readiness flag: all outputs ready; all inputs ready and any message.\<close>

definition pre_output :: "env \<Rightarrow> nat \<Rightarrow> nat \<Rightarrow> world \<times> bool \<Rightarrow> world \<times> bool" where
  "pre_output env a y st = (case st of (w, ready) \<Rightarrow>
     let w = out_fetch env y (upd_out y (\<lambda>p. p\<lparr>op_workEvents := 0\<rparr>) w);
         n = bc_elements (op_buffer (w_out w y));
         w = upd_out y (\<lambda>p. p\<lparr>op_elements := n\<rparr>) w;
         ready = (ready \<and> \<not> (n = 0 \<and> \<not> op_isSignal (w_out w y)) \<and> \<not> out_tokenManagerEmpty y w);
         w = upd_out y (\<lambda>p. p\<lparr>op_pendingElements := 0\<rparr>) w;
         port = w_out w y;
         w = (if op_index port \<noteq> -1
              then upd_info a (\<lambda>wi. wi\<lparr>
                wi_outputPointers := (wi_outputPointers wi)[nat (op_index port) := bc_address (op_buffer port)],
                wi_minOutElements := min (wi_minOutElements wi) n\<rparr>) w
              else w)
     in (upd_info a (\<lambda>wi. wi\<lparr>wi_minAllOutElements := min (wi_minAllOutElements wi) n\<rparr>) w, ready))"

text \<open>At most one slot call per task; a call that is not an argument vector is dropped.\<close>

definition pre_slot :: "env \<Rightarrow> nat \<Rightarrow> nat \<Rightarrow> world \<Rightarrow> world" where
  "pre_slot env a i w =
     (if ip_slotCallsEmpty (w_in w i) then w
      else let mp = ip_slotCallsPop (w_in w i);
               w = upd_in i (\<lambda>_. snd mp) w
           in case fst mp of ObVector args \<Rightarrow> en_call env a (ip_name (w_in w i)) args w | _ \<Rightarrow> w)"

definition in_fetch :: "env \<Rightarrow> nat \<Rightarrow> world \<Rightarrow> world" where
  "in_fetch env i w =
     (let p = w_in w i;
          requireElems = max 1 (ip_reserveElements p);
          w = in_bufferAccumulatorRequire (en_extRefs env i w) (en_alloc env w)
                (mul64 requireElems (dt_size (ip_dtype p))) i w;
          fp = ip_bufferAccumulatorFront (w_in w i)
      in upd_in i (\<lambda>_. (snd fp)\<lparr>ip_buffer := fst fp,
                        ip_elements := bc_length (fst fp) div dt_size (ip_dtype (snd fp))\<rparr>) w)"

definition pre_input :: "env \<Rightarrow> nat \<Rightarrow> nat \<Rightarrow> world \<times> bool \<times> bool \<Rightarrow> world \<times> bool \<times> bool" where
  "pre_input env a i st = (case st of (w, ready, msg) \<Rightarrow>
     let w = in_fetch env i (pre_slot env a i (upd_in i (\<lambda>p. p\<lparr>ip_workEvents := 0\<rparr>) w));
         port = w_in w i;
         n = ip_elements port;
         ready = (ready \<and> \<not> n < ip_reserveElements port);
         msg = (msg \<or> \<not> ip_asyncMessagesEmpty port);
         w = upd_in i (\<lambda>p. p\<lparr>ip_pendingElements := 0, ip_labelIter := ip_inlineMessages p\<rparr>) w;
         w = (if ip_index port \<noteq> -1
              then upd_info a (\<lambda>wi. wi\<lparr>
                wi_inputPointers := (wi_inputPointers wi)[nat (ip_index port) := bc_address (ip_buffer port)],
                wi_minInElements := min (wi_minInElements wi) n\<rparr>) w
              else w)
     in (upd_info a (\<lambda>wi. wi\<lparr>wi_minAllInElements := min (wi_minAllInElements wi) n\<rparr>) w, ready, msg))"

definition pre_outputs :: "env \<Rightarrow> nat \<Rightarrow> world \<Rightarrow> world \<times> bool" where
  "pre_outputs env a w =
     (let w = upd_info a (\<lambda>wi. wi\<lparr>wi_minOutElements := BIG, wi_minAllOutElements := BIG\<rparr>) w
      in fold (pre_output env a) (map snd (wa_outputs a w)) (w, True))"

definition pre_inputs :: "env \<Rightarrow> nat \<Rightarrow> world \<Rightarrow> world \<times> bool \<times> bool" where
  "pre_inputs env a w =
     (let w = upd_info a (\<lambda>wi. wi\<lparr>wi_minInElements := BIG, wi_minAllInElements := BIG\<rparr>) w
      in fold (pre_input env a) (map snd (wa_inputs a w)) (w, True, False))"

definition wi_finish :: "work_info \<Rightarrow> work_info" where
  "wi_finish wi = wi\<lparr>wi_minElements := min (wi_minInElements wi) (wi_minOutElements wi),
     wi_minAllElements := min (wi_minAllInElements wi) (wi_minAllOutElements wi), wi_maxTimeoutNs := 1000000\<rparr>"

definition wa_preWorkTasks :: "env \<Rightarrow> nat \<Rightarrow> world \<Rightarrow> world \<times> bool" where
  "wa_preWorkTasks env a w =
     (case pre_outputs env a w of (w, allOutputsReady) \<Rightarrow>
      case pre_inputs env a w of (w, allInputsReady, hasInputMessage) \<Rightarrow>
        (upd_info a wi_finish w, allOutputsReady \<and> (allInputsReady \<or> hasInputMessage)))"

section \<open>Post-work\<close>

text \<open>Labels before the consumed elements are counted; the others get their new relative position.\<close>

definition split_labels :: "usize \<Rightarrow> label list \<Rightarrow> nat \<times> label list" where
  "split_labels pending ls =
     (length (filter (\<lambda>l. lb_index l < pending) ls),
      map (\<lambda>l. if lb_index l < pending then l else lb_shift_down pending l) ls)"

definition post_labels :: "env \<Rightarrow> nat \<Rightarrow> nat \<Rightarrow> world \<Rightarrow> world" where
  "post_labels env a i w =
     (let (numLabels, allLabels) = split_labels (ip_pendingElements (w_in w i)) (ip_inlineMessages (w_in w i));
          w = upd_in i (\<lambda>p. p\<lparr>ip_inlineMessages := allLabels\<rparr>) w
      in if numLabels = 0 then w
         else let w = en_propagate env a i (upd_in i (\<lambda>p. p\<lparr>ip_labelIter := take numLabels allLabels\<rparr>) w)
              in upd_in i (\<lambda>p. p\<lparr>ip_inlineMessages := drop numLabels (ip_inlineMessages p),
                                 ip_totalLabels := add64 (ip_totalLabels p) numLabels\<rparr>) w)"

definition post_input :: "env \<Rightarrow> nat \<Rightarrow> nat \<Rightarrow> world \<times> usize \<Rightarrow> world \<times> usize" where
  "post_input env a i st = (case st of (w, events) \<Rightarrow>
     let bytes = mul64 (ip_pendingElements (w_in w i)) (dt_size (ip_dtype (w_in w i)));
         w = post_labels env a i w;
         w = (if bytes \<noteq> 0 then upd_in i (ip_bufferAccumulatorPop bytes) w else w);
         w = upd_in i (\<lambda>p. p\<lparr>ip_buffer := bc_null,
               ip_totalElements := add64 (ip_totalElements p) (ip_pendingElements p)\<rparr>) w
     in (w, add64 events (ip_workEvents (w_in w i))))"

definition wa_react :: "nat \<Rightarrow> world \<times> usize \<Rightarrow> world" where
  "wa_react a st = (case st of (w, events) \<Rightarrow>
     if events \<noteq> 0
     then upd_worker a (\<lambda>wk. wk\<lparr>wa_activityIndicator := wa_activityIndicator wk + 1\<rparr>) (flag_change (Some a) w)
     else w)"

text \<open>What was produced into the port's buffer is popped from its manager and posted. An overproduction is
  noticed only past the end of the whole buffer; then nothing is popped, but the buffer is posted.\<close>

definition post_produced :: "nat \<Rightarrow> world \<Rightarrow> world result" where
  "post_produced y w =
     (let port = w_out w y;
          pendingBytes = mul64 (op_pendingElements port) (dt_size (bc_dtype (op_buffer port)))
      in if pendingBytes = 0 then Inr w
         else let buffer = (op_buffer port)\<lparr>bc_length := pendingBytes\<rparr>;
                  w = upd_out y (\<lambda>p. p\<lparr>op_buffer := buffer\<rparr>) w
              in result_bind
                   (if op_bufferFromManager port \<and> \<not> pendingBytes > sb_length (bc_buffer buffer)
                    then out_bufferManagerPop y pendingBytes w else Inr w)
                   (\<lambda>w. Inr (upd_out y (op_postBuffer buffer) w)))"

definition op_sortLabels :: "env \<Rightarrow> out_port \<Rightarrow> out_port" where
  "op_sortLabels env p =
     (if op_postedLabels p \<noteq> [] then p\<lparr>op_postedLabels := en_sort env (op_postedLabels p)\<rparr> else p)"

definition post_send :: "nat \<Rightarrow> world \<Rightarrow> world" where
  "post_send y w = fold (\<lambda>s w. in_bufferLabelPush s (op_postedLabels (w_out w y)) (op_postedBuffers (w_out w y)) w)
     (op_subscribers (w_out w y)) w"

text \<open>The posted buffers are dropped one by one; their elements are counted.\<close>

function op_drain :: "usize \<Rightarrow> buffer_chunk ring_deque \<Rightarrow> usize \<times> buffer_chunk ring_deque" where
  "op_drain elems q =
     (if rd_empty q then (elems, q)
      else op_drain (add64 elems (bc_elements (rd_front q))) (rd_pop_front bc_null q))"
  by pat_completeness auto
termination by (relation "measure (\<lambda>(_, q). rd_numElements q)") (auto simp: rd_pop_front_less)

declare op_drain.simps [simp del]

definition op_finish :: "out_port \<Rightarrow> out_port" where
  "op_finish p = (case op_drain 0 (op_postedBuffers p) of (elems, q) \<Rightarrow>
     p\<lparr>op_postedLabels := [], op_postedBuffers := q, op_totalElements := add64 (op_totalElements p) elems\<rparr>)"

definition post_output :: "env \<Rightarrow> nat \<Rightarrow> world \<times> usize \<Rightarrow> (world \<times> usize) result" where
  "post_output env y st = (case st of (w, events) \<Rightarrow>
     result_bind (post_produced y w) (\<lambda>w.
       let w = upd_out y (op_sortLabels env) (upd_out y (\<lambda>p. p\<lparr>op_buffer := bc_null\<rparr>) w);
           w = upd_out y op_finish (post_send y w)
       in Inr (w, add64 events (op_workEvents (w_out w y)))))"

fun post_outputs :: "env \<Rightarrow> nat list \<Rightarrow> world \<times> usize \<Rightarrow> (world \<times> usize) result" where
  "post_outputs env [] st = Inr st"
| "post_outputs env (y # ys) st = result_bind (post_output env y st) (post_outputs env ys)"

definition wa_postInputs :: "env \<Rightarrow> nat \<Rightarrow> world \<Rightarrow> world" where
  "wa_postInputs env a w = wa_react a (fold (post_input env a) (map snd (wa_inputs a w)) (w, 0))"

definition wa_postWorkTasks :: "env \<Rightarrow> nat \<Rightarrow> world \<Rightarrow> world result" where
  "wa_postWorkTasks env a w =
     (let w = wa_postInputs env a w
      in map_sum id (wa_react a) (post_outputs env (map snd (wa_outputs a w)) (w, 0)))"

definition wa_workTask :: "env \<Rightarrow> nat \<Rightarrow> world \<Rightarrow> world result" where
  "wa_workTask env a w =
     (if \<not> wa_activeState (w_worker w a) then Inr w
      else let w = upd_worker a (\<lambda>wk. wk\<lparr>wa_numTaskCalls := add64 (wa_numTaskCalls wk) 1\<rparr>) w in
        case wa_preWorkTasks env a w of (w, ready) \<Rightarrow>
          if \<not> ready then Inr w
          else wa_postWorkTasks env a
                 (en_work env a (upd_worker a (\<lambda>wk. wk\<lparr>wa_numWorkCalls := add64 (wa_numWorkCalls wk) 1\<rparr>) w)))"

text \<open>The default propagation: every label of the range is posted on every output port.\<close>

definition block_propagateLabels :: "nat \<Rightarrow> nat \<Rightarrow> world \<Rightarrow> world" where
  "block_propagateLabels a i w =
     fold (\<lambda>y w. fold (\<lambda>l. upd_out y (op_postLabel l)) (ip_labels (w_in w i)) w)
       (map snd (pt_named (wa_out (w_worker w a)))) w"

section \<open>The store under the loop bodies\<close>

lemma upd_simps [simp]:
  "w_in (upd_in i f w) = (w_in w)(i := f (w_in w i))" "w_out (upd_in i f w) = w_out w"
  "w_mgr (upd_in i f w) = w_mgr w" "w_mem (upd_in i f w) = w_mem w"
  "w_out (upd_out i g w) = (w_out w)(i := g (w_out w i))" "w_in (upd_out i g w) = w_in w"
  "w_mgr (upd_out i g w) = w_mgr w" "w_mem (upd_out i g w) = w_mem w"
  by (simp_all add: upd_in_def upd_out_def)

lemma upd_world_simps [simp]:
  "w_worker (upd_in i f w) = w_worker w" "w_worker (upd_out i g w) = w_worker w"
  "w_in (upd_worker a h w) = w_in w" "w_out (upd_worker a h w) = w_out w"
  "w_mgr (upd_worker a h w) = w_mgr w" "w_mem (upd_worker a h w) = w_mem w"
  "w_in (upd_info a k w) = w_in w" "w_out (upd_info a k w) = w_out w" "w_mgr (upd_info a k w) = w_mgr w"
  "w_mem (upd_info a k w) = w_mem w"
  "w_worker (upd_worker a h w) = (w_worker w)(a := h (w_worker w a))"
  "w_worker (flag_change x w) = w_worker w"
  by (simp_all add: upd_in_def upd_out_def upd_worker_def upd_info_def flag_change_def split: option.split)

lemma upd_info_worker [simp]:
  "w_worker (upd_info a k w) = (w_worker w)(a := (w_worker w a)\<lparr>wa_workInfo := k (wa_workInfo (w_worker w a))\<rparr>)"
  by (simp add: upd_info_def)

lemma tokenEmpty_upd [simp]:
  "out_tokenManagerEmpty y (upd_info a k w) = out_tokenManagerEmpty y w"
  "out_tokenManagerEmpty y (upd_in i f w) = out_tokenManagerEmpty y w"
  by (simp_all add: out_tokenManagerEmpty_def)

definition info :: "nat \<Rightarrow> world \<Rightarrow> work_info" where
  "info a w = wa_workInfo (w_worker w a)"

lemma ip_front_fields:
  "ip_slotCalls (snd (ip_bufferAccumulatorFront p)) = ip_slotCalls p"
  "ip_asyncMessages (snd (ip_bufferAccumulatorFront p)) = ip_asyncMessages p"
  "ip_reserveElements (snd (ip_bufferAccumulatorFront p)) = ip_reserveElements p"
  "ip_index (snd (ip_bufferAccumulatorFront p)) = ip_index p"
  "ip_dtype (snd (ip_bufferAccumulatorFront p)) = ip_dtype p"
  "ip_bufferAccumulator (snd (ip_bufferAccumulatorFront p)) = ip_bufferAccumulator p"
  by (simp_all add: ip_bufferAccumulatorFront_def split: prod.split)

section \<open>Readiness and minimums\<close>

definition in_ready :: "in_port \<Rightarrow> bool" where
  "in_ready p \<longleftrightarrow> ip_elements p \<ge> ip_reserveElements p"

definition out_ready :: "world \<Rightarrow> nat \<Rightarrow> bool" where
  "out_ready w y \<longleftrightarrow> (op_elements (w_out w y) \<noteq> 0 \<or> op_isSignal (w_out w y)) \<and> \<not> out_tokenManagerEmpty y w"

text \<open>The smallest element count over ports that satisfy a test, capped by \<open>BIG\<close>.\<close>

definition least_elements :: "nat list \<Rightarrow> (nat \<Rightarrow> bool) \<Rightarrow> (nat \<Rightarrow> usize) \<Rightarrow> usize" where
  "least_elements ids test n = Min (insert BIG (n ` {i \<in> set ids. test i}))"

lemma least_elements_Cons:
  "least_elements (i # is) test n = (if test i then min (n i) (least_elements is test n) else least_elements is test n)"
proof -
  have "{x \<in> set (i # is). test x} = (if test i then insert i {x \<in> set is. test x} else {x \<in> set is. test x})" by auto
  moreover have "Min (insert BIG (insert (n i) (n ` {x \<in> set is. test x}))) = min (n i) (Min (insert BIG (n ` {x \<in> set is. test x})))"
    by (subst insert_commute) (rule Min_insert, auto)
  ultimately show ?thesis by (simp add: least_elements_def)
qed

lemma least_elements_cong:
  "(\<And>i. i \<in> set ids \<Longrightarrow> test i = test' i \<and> n i = n' i) \<Longrightarrow> least_elements ids test n = least_elements ids test' n'"
  unfolding least_elements_def by (intro arg_cong[where f = Min] arg_cong2[where f = insert] image_cong) auto

lemma in_fetch_frame:
  "j \<noteq> i \<Longrightarrow> w_in (in_fetch env i w) j = w_in w j" "w_out (in_fetch env i w) = w_out w"
  "w_mgr (in_fetch env i w) = w_mgr w" "w_worker (in_fetch env i w) = w_worker w"
  "ip_index (w_in (in_fetch env i w) i) = ip_index (w_in w i)"
  "ip_slotCalls (w_in (in_fetch env i w) i) = ip_slotCalls (w_in w i)"
  "ip_reserveElements (w_in (in_fetch env i w) i) = ip_reserveElements (w_in w i)"
proof -
  let ?req = "mul64 (max 1 (ip_reserveElements (w_in w i))) (dt_size (ip_dtype (w_in w i)))"
  obtain a m where r: "acc_require (en_extRefs env i w) (en_alloc env w) ?req
      (ip_bufferAccumulator (w_in w i), w_mem w) = (a, m)" by fastforce
  note d = in_fetch_def Let_def in_bufferAccumulatorRequire_def r prod.case
  show "j \<noteq> i \<Longrightarrow> w_in (in_fetch env i w) j = w_in w j" "w_out (in_fetch env i w) = w_out w"
    "w_mgr (in_fetch env i w) = w_mgr w" "w_worker (in_fetch env i w) = w_worker w"
    "ip_index (w_in (in_fetch env i w) i) = ip_index (w_in w i)"
    "ip_slotCalls (w_in (in_fetch env i w) i) = ip_slotCalls (w_in w i)"
    "ip_reserveElements (w_in (in_fetch env i w) i) = ip_reserveElements (w_in w i)"
    unfolding d by (simp_all add: ip_front_fields)
qed

lemma pre_input_step:
  assumes e: "ip_slotCallsEmpty (w_in w i)" and run: "pre_input env a i (w, r, msg) = (w', r', msg')"
  shows "\<And>j. j \<noteq> i \<Longrightarrow> w_in w' j = w_in w j" "w_out w' = w_out w" "w_mgr w' = w_mgr w"
    "\<And>b. b \<noteq> a \<Longrightarrow> w_worker w' b = w_worker w b"
    "r' \<longleftrightarrow> r \<and> in_ready (w_in w' i)" "msg' \<longleftrightarrow> msg \<or> ip_hasMessage (w_in w' i)"
    "ip_index (w_in w' i) = ip_index (w_in w i)"
    "wi_minInElements (info a w') = (if ip_index (w_in w' i) \<noteq> -1
        then min (wi_minInElements (info a w)) (ip_elements (w_in w' i)) else wi_minInElements (info a w))"
    "wi_minAllInElements (info a w') = min (wi_minAllInElements (info a w)) (ip_elements (w_in w' i))"
    "wi_minOutElements (info a w') = wi_minOutElements (info a w)"
    "wi_minAllOutElements (info a w') = wi_minAllOutElements (info a w)"
    "wa_in (w_worker w' a) = wa_in (w_worker w a)" "wa_out (w_worker w' a) = wa_out (w_worker w a)"
proof -
  let ?w0 = "upd_in i (\<lambda>p. p\<lparr>ip_workEvents := 0\<rparr>) w"
  define w1 where "w1 = in_fetch env i ?w0"
  have e0: "pre_slot env a i ?w0 = ?w0" using e by (simp add: pre_slot_def ip_slotCallsEmpty_def)
  have f: "\<And>j. j \<noteq> i \<Longrightarrow> w_in w1 j = w_in w j" "w_out w1 = w_out w" "w_mgr w1 = w_mgr w" "w_worker w1 = w_worker w"
    "ip_index (w_in w1 i) = ip_index (w_in w i)"
    by (simp_all add: w1_def in_fetch_frame)
  define w2 where "w2 = upd_in i (\<lambda>p. p\<lparr>ip_pendingElements := 0, ip_labelIter := ip_inlineMessages p\<rparr>) w1"
  define w3 where "w3 = (if ip_index (w_in w1 i) \<noteq> -1
      then upd_info a (\<lambda>wi. wi\<lparr>
        wi_inputPointers := (wi_inputPointers wi)[nat (ip_index (w_in w1 i)) := bc_address (ip_buffer (w_in w1 i))],
        wi_minInElements := min (wi_minInElements wi) (ip_elements (w_in w1 i))\<rparr>) w2
      else w2)"
  have d: "w' = upd_info a (\<lambda>wi. wi\<lparr>wi_minAllInElements := min (wi_minAllInElements wi) (ip_elements (w_in w1 i))\<rparr>) w3"
    "r' = (r \<and> \<not> ip_elements (w_in w1 i) < ip_reserveElements (w_in w1 i))"
    "msg' = (msg \<or> \<not> ip_asyncMessagesEmpty (w_in w1 i))"
    using run unfolding pre_input_def prod.case e0 w1_def[symmetric] Let_def w2_def[symmetric] w3_def[symmetric] by blast+
  have w3: "\<And>j. w_in w3 j = w_in w2 j" "w_out w3 = w_out w" "w_mgr w3 = w_mgr w" "\<And>b. b \<noteq> a \<Longrightarrow> w_worker w3 b = w_worker w b"
    "wa_in (w_worker w3 a) = wa_in (w_worker w a)" "wa_out (w_worker w3 a) = wa_out (w_worker w a)"
    "wi_minInElements (info a w3) = (if ip_index (w_in w i) \<noteq> -1
       then min (wi_minInElements (info a w)) (ip_elements (w_in w1 i)) else wi_minInElements (info a w))"
    "wi_minAllInElements (info a w3) = wi_minAllInElements (info a w)" "wi_minOutElements (info a w3) = wi_minOutElements (info a w)"
    "wi_minAllOutElements (info a w3) = wi_minAllOutElements (info a w)"
    using f by (simp_all add: w3_def w2_def info_def)
  have w2: "\<And>j. j \<noteq> i \<Longrightarrow> w_in w2 j = w_in w j" "ip_index (w_in w2 i) = ip_index (w_in w i)"
    "ip_elements (w_in w2 i) = ip_elements (w_in w1 i)" "in_ready (w_in w2 i) = in_ready (w_in w1 i)"
    "ip_hasMessage (w_in w2 i) = ip_hasMessage (w_in w1 i)"
    using f by (simp_all add: w2_def in_ready_def ip_hasMessage_def ip_asyncMessagesEmpty_def)
  note d' = d(1) w3 w2
  show "\<And>j. j \<noteq> i \<Longrightarrow> w_in w' j = w_in w j" "w_out w' = w_out w" "w_mgr w' = w_mgr w" using d' by simp_all
  show "\<And>b. b \<noteq> a \<Longrightarrow> w_worker w' b = w_worker w b" using d' by simp
  show "r' \<longleftrightarrow> r \<and> in_ready (w_in w' i)" using d' d(2) by (simp add: in_ready_def not_less)
  show "msg' \<longleftrightarrow> msg \<or> ip_hasMessage (w_in w' i)" using d' d(3) by (simp add: ip_hasMessage_def)
  show "ip_index (w_in w' i) = ip_index (w_in w i)" using d' by simp
  show "wi_minInElements (info a w') = (if ip_index (w_in w' i) \<noteq> -1
        then min (wi_minInElements (info a w)) (ip_elements (w_in w' i)) else wi_minInElements (info a w))"
    using d' by (simp add: info_def)
  show "wi_minAllInElements (info a w') = min (wi_minAllInElements (info a w)) (ip_elements (w_in w' i))"
    "wi_minOutElements (info a w') = wi_minOutElements (info a w)"
    "wi_minAllOutElements (info a w') = wi_minAllOutElements (info a w)"
    "wa_in (w_worker w' a) = wa_in (w_worker w a)" "wa_out (w_worker w' a) = wa_out (w_worker w a)"
    using d' by (simp_all add: info_def)
qed

definition in_indexed :: "world \<Rightarrow> nat \<Rightarrow> bool" where
  "in_indexed w i \<longleftrightarrow> ip_index (w_in w i) \<noteq> -1"

definition out_indexed :: "world \<Rightarrow> nat \<Rightarrow> bool" where
  "out_indexed w y \<longleftrightarrow> op_index (w_out w y) \<noteq> -1"

lemma least_elements_Nil: "least_elements [] test n = BIG"
  by (simp add: least_elements_def)

lemma least_elements_le: "least_elements ids test n \<le> BIG"
  unfolding least_elements_def by (rule Min_le) auto

lemma pre_input_fold:
  assumes "distinct is" "\<forall>i \<in> set is. ip_slotCallsEmpty (w_in w i)"
    and "fold (pre_input env a) is (w, r, msg) = (w', r', msg')"
    and "wi_minInElements (info a w) \<le> BIG" "wi_minAllInElements (info a w) \<le> BIG"
  shows "(\<forall>j. j \<notin> set is \<longrightarrow> w_in w' j = w_in w j) \<and> w_out w' = w_out w \<and> w_mgr w' = w_mgr w
    \<and> (r' \<longleftrightarrow> r \<and> (\<forall>i \<in> set is. in_ready (w_in w' i)))
    \<and> (msg' \<longleftrightarrow> msg \<or> (\<exists>i \<in> set is. ip_hasMessage (w_in w' i)))
    \<and> wi_minInElements (info a w') = min (wi_minInElements (info a w))
        (least_elements is (in_indexed w') (\<lambda>i. ip_elements (w_in w' i)))
    \<and> wi_minAllInElements (info a w') = min (wi_minAllInElements (info a w))
        (least_elements is (\<lambda>_. True) (\<lambda>i. ip_elements (w_in w' i)))
    \<and> wi_minOutElements (info a w') = wi_minOutElements (info a w)
    \<and> wi_minAllOutElements (info a w') = wi_minAllOutElements (info a w)"
  using assms
proof (induction "is" arbitrary: w r msg)
  case Nil
  then show ?case by (simp add: least_elements_Nil)
next
  case (Cons i js)
  obtain w1 r1 msg1 where run: "pre_input env a i (w, r, msg) = (w1, r1, msg1)" by (metis prod_cases3)
  have e: "ip_slotCallsEmpty (w_in w i)" using Cons.prems(2) by simp
  note st = pre_input_step[OF e run]
  have dis: "i \<notin> set js" "distinct js" using Cons.prems(1) by auto
  have e1: "\<forall>j \<in> set js. ip_slotCallsEmpty (w_in w1 j)" using Cons.prems(2) st(1) dis by (metis list.set_intros(2))
  have b1: "wi_minInElements (info a w1) \<le> BIG" "wi_minAllInElements (info a w1) \<le> BIG"
    using st(8,9) Cons.prems(4,5) by auto
  have run': "fold (pre_input env a) js (w1, r1, msg1) = (w', r', msg')" using Cons.prems(3) run by simp
  from Cons.IH[OF dis(2) e1 run' b1] have IH:
    "\<forall>j. j \<notin> set js \<longrightarrow> w_in w' j = w_in w1 j" "w_out w' = w_out w1" "w_mgr w' = w_mgr w1"
    "r' \<longleftrightarrow> r1 \<and> (\<forall>i \<in> set js. in_ready (w_in w' i))" "msg' \<longleftrightarrow> msg1 \<or> (\<exists>i \<in> set js. ip_hasMessage (w_in w' i))"
    "wi_minInElements (info a w') = min (wi_minInElements (info a w1))
        (least_elements js (in_indexed w') (\<lambda>i. ip_elements (w_in w' i)))"
    "wi_minAllInElements (info a w') = min (wi_minAllInElements (info a w1))
        (least_elements js (\<lambda>_. True) (\<lambda>i. ip_elements (w_in w' i)))"
    "wi_minOutElements (info a w') = wi_minOutElements (info a w1)"
    "wi_minAllOutElements (info a w') = wi_minAllOutElements (info a w1)" by blast+
  have i': "w_in w' i = w_in w1 i" using IH(1) dis(1) by blast
  have A: "\<forall>j. j \<notin> set (i # js) \<longrightarrow> w_in w' j = w_in w j" using IH(1) st(1) by simp
  have B: "r' \<longleftrightarrow> r \<and> (\<forall>i \<in> set (i # js). in_ready (w_in w' i))" using IH(4) st(5) i' by auto
  have C: "msg' \<longleftrightarrow> msg \<or> (\<exists>i \<in> set (i # js). ip_hasMessage (w_in w' i))" using IH(5) st(6) i' by auto
  have D: "wi_minInElements (info a w') = min (wi_minInElements (info a w))
        (least_elements (i # js) (in_indexed w') (\<lambda>i. ip_elements (w_in w' i)))"
    using IH(6) st(8) i' by (simp add: least_elements_Cons in_indexed_def min.assoc)
  have E: "wi_minAllInElements (info a w') = min (wi_minAllInElements (info a w))
        (least_elements (i # js) (\<lambda>_. True) (\<lambda>i. ip_elements (w_in w' i)))"
    using IH(7) st(9) i' by (simp add: least_elements_Cons min.assoc)
  show ?case using A B C D E IH(2,3,8,9) st(2,3,10,11) by simp
qed

lemma out_fetch_frame:
  "x \<noteq> y \<Longrightarrow> w_out (out_fetch env y w) x = w_out w x" "w_mgr (out_fetch env y w) = w_mgr w"
  "w_worker (out_fetch env y w) = w_worker w" "ip_slotCalls (w_in (out_fetch env y w) j) = ip_slotCalls (w_in w j)"
  "op_index (w_out (out_fetch env y w) y) = op_index (w_out w y)"
  "op_isSignal (w_out (out_fetch env y w) y) = op_isSignal (w_out w y)"
  "op_tokenManager (w_out (out_fetch env y w) y) = op_tokenManager (w_out w y)"
  by (auto simp: out_fetch_def Let_def ip_front_fields split: option.split)

lemma pre_output_step:
  assumes run: "pre_output env a y (w, r) = (w', r')"
  shows "\<And>x. x \<noteq> y \<Longrightarrow> w_out w' x = w_out w x" "w_mgr w' = w_mgr w" "\<And>j. ip_slotCalls (w_in w' j) = ip_slotCalls (w_in w j)"
    "r' \<longleftrightarrow> r \<and> out_ready w' y"
    "wi_minOutElements (info a w') = (if out_indexed w' y
        then min (wi_minOutElements (info a w)) (op_elements (w_out w' y)) else wi_minOutElements (info a w))"
    "wi_minAllOutElements (info a w') = min (wi_minAllOutElements (info a w)) (op_elements (w_out w' y))"
    "wa_in (w_worker w' a) = wa_in (w_worker w a)" "wa_out (w_worker w' a) = wa_out (w_worker w a)"
proof -
  let ?w0 = "upd_out y (\<lambda>p. p\<lparr>op_workEvents := 0\<rparr>) w"
  define w1 where "w1 = out_fetch env y ?w0"
  have f: "\<And>x. x \<noteq> y \<Longrightarrow> w_out w1 x = w_out w x" "w_mgr w1 = w_mgr w" "w_worker w1 = w_worker w"
    "\<And>j. ip_slotCalls (w_in w1 j) = ip_slotCalls (w_in w j)"
    by (simp_all add: w1_def out_fetch_frame)
  have t: "out_tokenManagerEmpty y (upd_out y (\<lambda>p. p\<lparr>op_elements := n\<rparr>) w1) = out_tokenManagerEmpty y w1" for n
    by (simp add: out_tokenManagerEmpty_def)
  let ?n = "bc_elements (op_buffer (w_out w1 y))"
  define w2 where "w2 = upd_out y (\<lambda>p. p\<lparr>op_pendingElements := 0\<rparr>) (upd_out y (\<lambda>p. p\<lparr>op_elements := ?n\<rparr>) w1)"
  define w3 where "w3 = (if op_index (w_out w2 y) \<noteq> -1
      then upd_info a (\<lambda>wi. wi\<lparr>
        wi_outputPointers := (wi_outputPointers wi)[nat (op_index (w_out w2 y)) := bc_address (op_buffer (w_out w2 y))],
        wi_minOutElements := min (wi_minOutElements wi) ?n\<rparr>) w2
      else w2)"
  have d: "w' = upd_info a (\<lambda>wi. wi\<lparr>wi_minAllOutElements := min (wi_minAllOutElements wi) ?n\<rparr>) w3"
    "r' = (r \<and> \<not> (?n = 0 \<and> \<not> op_isSignal (w_out (upd_out y (\<lambda>p. p\<lparr>op_elements := ?n\<rparr>) w1) y)) \<and> \<not> out_tokenManagerEmpty y w1)"
    using run unfolding pre_output_def prod.case w1_def[symmetric] Let_def t w2_def[symmetric] w3_def[symmetric] by blast+
  have w2: "\<And>x. x \<noteq> y \<Longrightarrow> w_out w2 x = w_out w x" "w_mgr w2 = w_mgr w" "w_worker w2 = w_worker w"
    "\<And>j. ip_slotCalls (w_in w2 j) = ip_slotCalls (w_in w j)" "op_elements (w_out w2 y) = ?n"
    "op_isSignal (w_out w2 y) = op_isSignal (w_out w1 y)" "out_tokenManagerEmpty y w2 = out_tokenManagerEmpty y w1"
    using f by (simp_all add: w2_def out_tokenManagerEmpty_def)
  have w3: "w_out w3 = w_out w2" "w_mgr w3 = w_mgr w2" "w_in w3 = w_in w2"
    "wa_in (w_worker w3 a) = wa_in (w_worker w a)" "wa_out (w_worker w3 a) = wa_out (w_worker w a)"
    "wi_minOutElements (info a w3) = (if out_indexed w2 y then min (wi_minOutElements (info a w)) ?n else wi_minOutElements (info a w))"
    "wi_minAllOutElements (info a w3) = wi_minAllOutElements (info a w)"
    using w2 by (simp_all add: w3_def info_def out_indexed_def)
  note d' = d(1) w3 w2
  show "\<And>x. x \<noteq> y \<Longrightarrow> w_out w' x = w_out w x" "w_mgr w' = w_mgr w" "\<And>j. ip_slotCalls (w_in w' j) = ip_slotCalls (w_in w j)"
    using d' by simp_all
  show "r' \<longleftrightarrow> r \<and> out_ready w' y" using d' d(2) by (simp add: out_ready_def out_tokenManagerEmpty_def)
  show "wi_minOutElements (info a w') = (if out_indexed w' y
        then min (wi_minOutElements (info a w)) (op_elements (w_out w' y)) else wi_minOutElements (info a w))"
    using d' by (simp add: info_def out_indexed_def)
  show "wi_minAllOutElements (info a w') = min (wi_minAllOutElements (info a w)) (op_elements (w_out w' y))"
    "wa_in (w_worker w' a) = wa_in (w_worker w a)" "wa_out (w_worker w' a) = wa_out (w_worker w a)"
    using d' by (simp_all add: info_def)
qed

lemma out_ready_cong: "w_out w' y = w_out w y \<Longrightarrow> w_mgr w' = w_mgr w \<Longrightarrow> out_ready w' y = out_ready w y"
  by (simp add: out_ready_def out_tokenManagerEmpty_def)

lemma pre_output_fold:
  assumes "distinct ys" "fold (pre_output env a) ys (w, r) = (w', r')"
    and "wi_minOutElements (info a w) \<le> BIG" "wi_minAllOutElements (info a w) \<le> BIG"
  shows "(\<forall>x. x \<notin> set ys \<longrightarrow> w_out w' x = w_out w x) \<and> w_mgr w' = w_mgr w
    \<and> (\<forall>j. ip_slotCalls (w_in w' j) = ip_slotCalls (w_in w j))
    \<and> (r' \<longleftrightarrow> r \<and> (\<forall>y \<in> set ys. out_ready w' y))
    \<and> wi_minOutElements (info a w') = min (wi_minOutElements (info a w))
        (least_elements ys (out_indexed w') (\<lambda>y. op_elements (w_out w' y)))
    \<and> wi_minAllOutElements (info a w') = min (wi_minAllOutElements (info a w))
        (least_elements ys (\<lambda>_. True) (\<lambda>y. op_elements (w_out w' y)))
    \<and> wa_in (w_worker w' a) = wa_in (w_worker w a) \<and> wa_out (w_worker w' a) = wa_out (w_worker w a)"
  using assms
proof (induction ys arbitrary: w r)
  case Nil
  then show ?case by (simp add: least_elements_Nil)
next
  case (Cons y ys)
  obtain w1 r1 where run: "pre_output env a y (w, r) = (w1, r1)" by fastforce
  note st = pre_output_step[OF run]
  have dis: "y \<notin> set ys" "distinct ys" using Cons.prems(1) by auto
  have b1: "wi_minOutElements (info a w1) \<le> BIG" "wi_minAllOutElements (info a w1) \<le> BIG"
    using st(5,6) Cons.prems(3,4) by auto
  have run': "fold (pre_output env a) ys (w1, r1) = (w', r')" using Cons.prems(2) run by simp
  from Cons.IH[OF dis(2) run' b1] have IH:
    "\<forall>x. x \<notin> set ys \<longrightarrow> w_out w' x = w_out w1 x" "w_mgr w' = w_mgr w1"
    "\<forall>j. ip_slotCalls (w_in w' j) = ip_slotCalls (w_in w1 j)"
    "r' \<longleftrightarrow> r1 \<and> (\<forall>y \<in> set ys. out_ready w' y)"
    "wi_minOutElements (info a w') = min (wi_minOutElements (info a w1))
        (least_elements ys (out_indexed w') (\<lambda>y. op_elements (w_out w' y)))"
    "wi_minAllOutElements (info a w') = min (wi_minAllOutElements (info a w1))
        (least_elements ys (\<lambda>_. True) (\<lambda>y. op_elements (w_out w' y)))"
    "wa_in (w_worker w' a) = wa_in (w_worker w1 a)" "wa_out (w_worker w' a) = wa_out (w_worker w1 a)" by blast+
  have y': "w_out w' y = w_out w1 y" using IH(1) dis(1) by blast
  have rdy: "out_ready w' y = out_ready w1 y" using out_ready_cong[OF y' IH(2)] .
  have A: "\<forall>x. x \<notin> set (y # ys) \<longrightarrow> w_out w' x = w_out w x" using IH(1) st(1) by simp
  have B: "r' \<longleftrightarrow> r \<and> (\<forall>y \<in> set (y # ys). out_ready w' y)" using IH(4) st(4) rdy by auto
  have D: "wi_minOutElements (info a w') = min (wi_minOutElements (info a w))
        (least_elements (y # ys) (out_indexed w') (\<lambda>y. op_elements (w_out w' y)))"
    using IH(5) st(5) y' by (simp add: least_elements_Cons out_indexed_def min.assoc)
  have E: "wi_minAllOutElements (info a w') = min (wi_minAllOutElements (info a w))
        (least_elements (y # ys) (\<lambda>_. True) (\<lambda>y. op_elements (w_out w' y)))"
    using IH(6) st(6) y' by (simp add: least_elements_Cons min.assoc)
  show ?case using A B D E IH(2,3,7,8) st(2,3,7,8) by simp
qed

definition in_ids :: "nat \<Rightarrow> world \<Rightarrow> nat list" where
  "in_ids a w = map snd (wa_inputs a w)"

definition out_ids :: "nat \<Rightarrow> world \<Rightarrow> nat list" where
  "out_ids a w = map snd (wa_outputs a w)"


section \<open>Label propagation\<close>

lemma op_postLabel_fields:
  "op_postedLabels (op_postLabel l p) = op_postedLabels p @ [lb_toAdjusted (dt_size (op_dtype p)) 1 l]"
  "op_dtype (op_postLabel l p) = op_dtype p"
  by (simp_all add: op_postLabel_def)

lemma fold_postLabel:
  fixes w :: world
  defines "post \<equiv> \<lambda>y ls w. fold (\<lambda>l. upd_out y (op_postLabel l)) ls w"
  shows "w_in (post y ls w) = w_in w \<and> w_worker (post y ls w) = w_worker w
    \<and> (\<forall>x. x \<noteq> y \<longrightarrow> w_out (post y ls w) x = w_out w x)
    \<and> op_postedLabels (w_out (post y ls w) y)
        = op_postedLabels (w_out w y) @ map (lb_toAdjusted (dt_size (op_dtype (w_out w y))) 1) ls"
  unfolding post_def
proof (induction ls arbitrary: w)
  case (Cons l ls)
  from Cons.IH[of "upd_out y (op_postLabel l) w"] show ?case by (simp add: op_postLabel_fields)
qed simp

lemma propagate_all:
  fixes w :: world and i :: nat
  assumes "distinct ys"
  defines "w' \<equiv> fold (\<lambda>y w. fold (\<lambda>l. upd_out y (op_postLabel l)) (ip_labels (w_in w i)) w) ys w"
  shows "w_in w' = w_in w \<and> w_worker w' = w_worker w \<and> (\<forall>y. y \<notin> set ys \<longrightarrow> w_out w' y = w_out w y)
    \<and> (\<forall>y \<in> set ys. op_postedLabels (w_out w' y)
        = op_postedLabels (w_out w y) @ map (lb_toAdjusted (dt_size (op_dtype (w_out w y))) 1) (ip_labels (w_in w i)))"
  using assms(1) unfolding w'_def
proof (induction ys arbitrary: w)
  case (Cons y ys)
  let ?w1 = "fold (\<lambda>l. upd_out y (op_postLabel l)) (ip_labels (w_in w i)) w"
  note f = fold_postLabel[where y = y and ls = "ip_labels (w_in w i)" and w = w]
  from Cons.IH[of ?w1] Cons.prems f show ?case by (auto simp del: fold_simps simp add: fold_simps)
qed simp

lemma split_labels_sorted:
  assumes "sorted (map lb_index ls)" "split_labels n ls = (k, ls')"
  shows "take k ls' = filter (\<lambda>l. lb_index l < n) ls"
    "drop k ls' = map (lb_shift_down n) (filter (\<lambda>l. n \<le> lb_index l) ls)"
proof -
  let ?P = "\<lambda>l. lb_index l < n" and ?f = "\<lambda>l. if lb_index l < n then l else lb_shift_down n l"
  have k: "k = length (filter ?P ls)" "ls' = map ?f ls" using assms(2) by (auto simp: split_labels_def)
  have pre: "take k ls = filter ?P ls" using filter_sorted_split[OF assms(1), of n] k(1) by simp
  have "drop k ls = filter (\<lambda>l. \<not> ?P l) ls"
    using assms(1) unfolding k(1)
  proof (induction ls)
    case (Cons l ls)
    show ?case
    proof (cases "?P l")
      case True
      with Cons show ?thesis by simp
    next
      case False
      with Cons.prems have "\<forall>x \<in> set ls. \<not> ?P x" by auto
      then have "filter ?P ls = []" "filter (\<lambda>l. \<not> ?P l) ls = ls" by (simp_all add: filter_empty_conv)
      with False show ?thesis by simp
    qed
  qed simp
  then have post: "drop k ls = filter (\<lambda>l. n \<le> lb_index l) ls" by (simp add: not_less)
  show "take k ls' = filter ?P ls"
  proof -
    have "take k ls' = map ?f (filter ?P ls)" using pre by (simp add: k(2) take_map)
    also have "\<dots> = map (\<lambda>l. l) (filter ?P ls)" by (rule map_cong) auto
    finally show ?thesis by simp
  qed
  show "drop k ls' = map (lb_shift_down n) (filter (\<lambda>l. n \<le> lb_index l) ls)"
    using post by (simp add: k(2) drop_map)
qed


section \<open>Delivery to the subscribers\<close>

definition posted_list :: "out_port \<Rightarrow> buffer_chunk list" where
  "posted_list p = rd_list (op_postedBuffers p)"

text \<open>The chunk that a nonzero production adds to the posted ones.\<close>

definition produced_chunks :: "out_port \<Rightarrow> buffer_chunk list" where
  "produced_chunks p =
     (let n = mul64 (op_pendingElements p) (dt_size (bc_dtype (op_buffer p)))
      in if n = 0 then [] else [retype (op_dtype p) ((op_buffer p)\<lparr>bc_length := n\<rparr>)])"

lemma posted_list_buffer [simp]: "posted_list (p\<lparr>op_buffer := b\<rparr>) = posted_list p"
  by (simp add: posted_list_def)

lemma op_postBuffer_list:
  assumes "rd_wf (op_postedBuffers p)" "2 * length (posted_list p) < SIZE_MOD"
  shows "rd_wf (op_postedBuffers (op_postBuffer b p)) \<and> posted_list (op_postBuffer b p) = posted_list p @ [retype (op_dtype p) b]
    \<and> op_subscribers (op_postBuffer b p) = op_subscribers p \<and> op_postedLabels (op_postBuffer b p) = op_postedLabels p"
proof -
  let ?b = "retype (op_dtype p) b"
  have "op_postedBuffers (op_postBuffer b p) = rd_push_grow bc_null ?b (op_postedBuffers p)"
    by (simp add: op_postBuffer_def Let_def rd_push_grow_def retype_def)
  then show ?thesis
    using assms rd_push_grow_list[of "op_postedBuffers p" bc_null ?b] rd_push_grow_wf[of "op_postedBuffers p" bc_null ?b]
    by (simp add: posted_list_def) (simp add: op_postBuffer_def Let_def)
qed

lemma set_mgr_simps [simp]: "w_in (set_mgr k b w) = w_in w" "w_out (set_mgr k b w) = w_out w"
  by (simp_all add: set_mgr_def)

lemma out_bufferManagerPop_frame:
  assumes "out_bufferManagerPop y n w = Inr w'"
  shows "w_in w' = w_in w" "w_out w' = w_out w"
proof -
  from assms obtain k where k: "op_bufferManager (w_out w y) = Some k"
    by (cases "op_bufferManager (w_out w y)") (simp_all add: out_bufferManagerPop_def)
  with assms obtain b where "w' = set_mgr k b w"
    by (cases "bmgr_pop k n (w_mgr w k)") (auto simp: out_bufferManagerPop_def)
  then show "w_in w' = w_in w" "w_out w' = w_out w" by simp_all
qed

lemma post_produced_props:
  assumes "post_produced y w = Inr w1" "rd_wf (op_postedBuffers (w_out w y))" "2 * length (posted_list (w_out w y)) < SIZE_MOD"
  shows "w_in w1 = w_in w \<and> rd_wf (op_postedBuffers (w_out w1 y))
    \<and> posted_list (w_out w1 y) = posted_list (w_out w y) @ produced_chunks (w_out w y)
    \<and> op_subscribers (w_out w1 y) = op_subscribers (w_out w y) \<and> op_postedLabels (w_out w1 y) = op_postedLabels (w_out w y)"
proof -
  let ?p = "w_out w y"
  let ?n = "mul64 (op_pendingElements ?p) (dt_size (bc_dtype (op_buffer ?p)))"
  let ?b = "(op_buffer ?p)\<lparr>bc_length := ?n\<rparr>"
  let ?w0 = "upd_out y (\<lambda>p. p\<lparr>op_buffer := ?b\<rparr>) w"
  show ?thesis
  proof (cases "?n = 0")
    case True
    then show ?thesis using assms by (simp add: post_produced_def Let_def produced_chunks_def)
  next
    case False
    from assms(1) False obtain w2 where
      w2: "(if op_bufferFromManager ?p \<and> \<not> ?n > sb_length (bc_buffer ?b) then out_bufferManagerPop y ?n ?w0 else Inr ?w0) = Inr w2"
      and w1: "w1 = upd_out y (op_postBuffer ?b) w2"
      by (auto simp: post_produced_def Let_def)
    from w2 have fr: "w_in w2 = w_in w" "w_out w2 = w_out ?w0"
      using out_bufferManagerPop_frame[of y ?n ?w0 w2] by (auto split: if_splits)
    let ?p0 = "?p\<lparr>op_buffer := ?b\<rparr>"
    have p0: "w_out w2 y = ?p0" by (simp add: fr)
    have "rd_wf (op_postedBuffers ?p0)" "2 * length (posted_list ?p0) < SIZE_MOD"
      using assms by (simp_all add: posted_list_def)
    note pb = op_postBuffer_list[OF this, of ?b]
    show ?thesis using pb False
      by (simp add: w1 fr p0 produced_chunks_def Let_def)
  qed
qed

lemma post_send_props:
  fixes w :: world
  assumes "distinct ss" "w_out w y = p"
  defines "w' \<equiv> fold (\<lambda>s w. in_bufferLabelPush s (op_postedLabels (w_out w y)) (op_postedBuffers (w_out w y)) w) ss w"
  shows "w_out w' = w_out w \<and> (\<forall>s. s \<notin> set ss \<longrightarrow> w_in w' s = w_in w s)
    \<and> (\<forall>s \<in> set ss. w_in w' s = ip_bufferLabelPush (op_postedLabels p) (op_postedBuffers p) (w_in w s))"
  using assms(1,2) unfolding w'_def
proof (induction ss arbitrary: w)
  case (Cons s ss)
  let ?w1 = "in_bufferLabelPush s (op_postedLabels (w_out w y)) (op_postedBuffers (w_out w y)) w"
  have f: "w_out ?w1 = w_out w" "w_in ?w1 = (w_in w)(s := ip_bufferLabelPush (op_postedLabels p) (op_postedBuffers p) (w_in w s))"
    using Cons.prems(2) by (simp_all add: in_bufferLabelPush_def upd_in_flag_def)
  have p1: "w_out ?w1 y = p" using f Cons.prems(2) by simp
  have dis: "distinct ss" "s \<notin> set ss" using Cons.prems(1) by simp_all
  show ?case using Cons.IH[OF dis(1) p1] f dis(2) by auto
qed simp

lemma op_drain_empty: "rd_wf q \<Longrightarrow> op_drain e q = (e', q') \<Longrightarrow>
    rd_wf q' \<and> rd_list q' = [] \<and> e' = fold (\<lambda>c e. add64 e (bc_elements c)) (rd_list q) e"
proof (induction e q rule: op_drain.induct)
  case (1 e q)
  show ?case
  proof (cases "rd_empty q")
    case True
    then show ?thesis using 1 by (simp add: op_drain.simps rd_empty_list)
  next
    case False
    have wf: "rd_wf (rd_pop_front bc_null q)" and l: "rd_list (rd_pop_front bc_null q) = tl (rd_list q)"
      using 1(2) False by (simp_all add: rd_pop_front_wf rd_pop_front_list)
    have ne: "rd_list q \<noteq> []" using False by (simp add: rd_empty_list)
    have fr: "rd_front q = hd (rd_list q)" using ne 1(2) by (simp add: rd_front_list)
    have "op_drain (add64 e (bc_elements (rd_front q))) (rd_pop_front bc_null q) = (e', q')"
      using 1(3) False by (subst (asm) op_drain.simps) simp
    from 1(1)[OF False wf this] l ne fr show ?thesis by (cases "rd_list q") auto
  qed
qed

text \<open>What a port can take: the chunks and labels of the post fit, and the chunks are of ordinary buffers.\<close>

definition can_take :: "in_port \<Rightarrow> label list \<Rightarrow> buffer_chunk list \<Rightarrow> bool" where
  "can_take p ls cs \<longleftrightarrow> ip_ok p \<and> ip_room p ls cs \<and> (\<forall>c \<in> set cs. chunk_ok c)"

definition sorts_labels :: "(label list \<Rightarrow> label list) \<Rightarrow> bool" where
  "sorts_labels f \<longleftrightarrow> (\<forall>ls. mset (f ls) = mset ls \<and> sorted (map lb_index (f ls)))"

lemma can_take_perm:
  assumes "mset ls = mset ls'"
  shows "can_take p ls cs \<longleftrightarrow> can_take p ls' cs"
proof -
  have "set ls = set ls'" "length ls = length ls'" using assms by (rule mset_eq_setD, rule mset_eq_length)
  then show ?thesis by (simp add: can_take_def ip_room_def)
qed

text \<open>C12: After \<open>work\<close>, every subscriber of an output port gets the same post: the chunks that the block posted, in order, followed
  by what it produced. The bytes of the chunks whose data type the subscriber accepts are appended to its stream (a chunk whose
  type has another size than that of the input port is dropped there); the posted labels arrive sorted by position, each
  once, behind the earlier ones, at their positions relative to the bytes that the port had. The output port is left with
  nothing posted, so that nothing is sent twice, and no other input is touched. The chunks are of ordinary buffers (circular
  buffers are excluded, as in the delivery to one port), and the sizes and numbers fit \<open>size_t\<close>.\<close>
theorem post_output_delivers:
  assumes "post_output env y (w, e) = Inr (w', e')" "sorts_labels (en_sort env)"
    and "distinct (op_subscribers (w_out w y))" "rd_wf (op_postedBuffers (w_out w y))"
    and "2 * length (posted_list (w_out w y)) < SIZE_MOD"
    and "\<forall>s \<in> set (op_subscribers (w_out w y)).
      can_take (w_in w s) (op_postedLabels (w_out w y)) (posted_list (w_out w y) @ produced_chunks (w_out w y))"
  shows "(\<exists>ls. mset ls = mset (op_postedLabels (w_out w y)) \<and> sorted (map lb_index ls)
        \<and> (\<forall>s \<in> set (op_subscribers (w_out w y)). ip_ok (w_in w' s)
            \<and> ip_stream m (w_in w' s) = ip_stream m (w_in w s)
                @ chunks_bytes m (filter (ip_accepts (w_in w s)) (posted_list (w_out w y) @ produced_chunks (w_out w y)))
            \<and> ip_queued_labels (w_in w' s) = ip_queued_labels (w_in w s)
                @ map (\<lambda>l. l\<lparr>lb_index := length (ip_stream m (w_in w s)) + lb_index l\<rparr>) ls))
    \<and> (\<forall>s. s \<notin> set (op_subscribers (w_out w y)) \<longrightarrow> w_in w' s = w_in w s)
    \<and> posted_list (w_out w' y) = [] \<and> op_postedLabels (w_out w' y) = []"
proof -
  let ?p = "w_out w y" and ?cs = "posted_list (w_out w y) @ produced_chunks (w_out w y)"
  let ?ss = "op_subscribers ?p"
  obtain w1 where w1: "post_produced y w = Inr w1"
    using assms(1) by (cases "post_produced y w") (simp_all add: post_output_def)
  have w': "w' = upd_out y op_finish (post_send y (upd_out y (op_sortLabels env) (upd_out y (\<lambda>p. p\<lparr>op_buffer := bc_null\<rparr>) w1)))"
    using assms(1) by (simp add: post_output_def w1 Let_def)
  note pp = post_produced_props[OF w1 assms(4,5)]
  let ?w2 = "upd_out y (op_sortLabels env) (upd_out y (\<lambda>p. p\<lparr>op_buffer := bc_null\<rparr>) w1)"
  let ?p2 = "w_out ?w2 y"
  define ls where "ls = op_postedLabels ?p2"
  have sl: "mset ls = mset (op_postedLabels ?p)" "sorted (map lb_index ls)"
    using assms(2) pp by (auto simp: ls_def op_sortLabels_def sorts_labels_def)
  have p2: "posted_list ?p2 = ?cs" "rd_wf (op_postedBuffers ?p2)" "op_subscribers ?p2 = ?ss" "w_in ?w2 = w_in w"
    using pp by (auto simp: op_sortLabels_def posted_list_def)
  have send: "post_send y ?w2 = fold (\<lambda>s w. in_bufferLabelPush s (op_postedLabels (w_out w y)) (op_postedBuffers (w_out w y)) w) ?ss ?w2"
    by (simp only: post_send_def p2(3))
  note ps = post_send_props[OF assms(3), of ?w2 y ?p2, OF refl, folded send]
  have in': "w_in w' = w_in (post_send y ?w2)" and out': "w_out w' y = op_finish (w_out (post_send y ?w2) y)"
    by (simp_all add: w')
  have take: "can_take (w_in w s) ls ?cs" if "s \<in> set ?ss" for s
    using assms(6) that can_take_perm[OF sl(1)] by blast
  have A: "ip_ok (w_in w' s) \<and> ip_stream m (w_in w' s) = ip_stream m (w_in w s) @ chunks_bytes m (filter (ip_accepts (w_in w s)) ?cs)
      \<and> ip_queued_labels (w_in w' s) = ip_queued_labels (w_in w s)
          @ map (\<lambda>l. l\<lparr>lb_index := length (ip_stream m (w_in w s)) + lb_index l\<rparr>) ls"
    if s: "s \<in> set ?ss" for s
  proof -
    have "w_in w' s = ip_bufferLabelPush ls (op_postedBuffers ?p2) (w_in w s)"
      using ps s p2(4) by (simp add: in' ls_def)
    then show ?thesis
      using ip_bufferLabelPush_props[of "w_in w s" "op_postedBuffers ?p2" ls m] take[OF s] p2(1,2)
      by (simp add: can_take_def posted_list_def)
  qed
  have B: "posted_list (w_out w' y) = [] \<and> op_postedLabels (w_out w' y) = []"
    using op_drain_empty[OF p2(2), of 0] ps
    by (simp add: out' op_finish_def posted_list_def split: prod.split)
  have C: "\<forall>s. s \<notin> set ?ss \<longrightarrow> w_in w' s = w_in w s" using ps p2(4) by (simp add: in')
  show ?thesis
    by (intro conjI exI[of _ ls] ballI sl B[THEN conjunct1] B[THEN conjunct2] C) (use A in blast)+
qed

section \<open>Witnesses\<close>

text \<open>A worker with one input port (number 3, no actor set) and one output port (number 5) with that input as
  its subscriber; the block does nothing.\<close>

definition demo_env :: env where
  "demo_env = \<lparr>en_refs = (\<lambda>_ _. 1), en_extRefs = (\<lambda>_ _ _. 0), en_alloc = (\<lambda>_. mk_at 10000 9),
     en_tokenBuffer = (\<lambda>_. sb_make_with 64 0 None), en_tokenId = id, en_circ = (\<lambda>_. Inl SharedBufferError),
     en_sort = sort_key lb_index, en_emptyDType = dtype_default, en_work = (\<lambda>_ w. w),
     en_propagate = block_propagateLabels, en_call = (\<lambda>_ _ _ w. w), en_activate = (\<lambda>_ w. (w, None)),
     en_deactivate = (\<lambda>_ w. (w, None)), en_inputManager = (\<lambda>_ _ _. Inr None), en_outputManager = (\<lambda>_ _ _. Inr None)\<rparr>"

definition demo_tables :: "nat \<Rightarrow> port_tables" where
  "demo_tables i = \<lparr>pt_ports = [(''0'', i)], pt_named = [(''0'', i)], pt_indexed = [Some i], pt_names = [''0'']\<rparr>"

definition demo_out :: out_port where
  "demo_out = op_postBuffer (chunk_at 10 3 1) ((op_new 0)\<lparr>op_subscribers := [3]\<rparr>)"

definition demo_world :: world where
  "demo_world = \<lparr>w_mem = word_of_nat, w_in = (\<lambda>_. ip_new\<lparr>ip_pendingElements := 2,
       ip_inlineMessages := [lb_new ''a'' ObNull 1 1, lb_new ''b'' ObNull 4 1]\<rparr>),
     w_out = (\<lambda>_. demo_out), w_mgr = (\<lambda>_. BmGeneric gm_new), w_callback = (\<lambda>_. None), w_changed = (\<lambda>_. False),
     w_worker = (\<lambda>_. wa_new\<lparr>wa_in := demo_tables 3, wa_out := demo_tables 5\<rparr>)\<rparr>"

lemma demo_ids: "in_ids a demo_world = [3]" "out_ids a demo_world = [5]"
  by (simp_all add: in_ids_def out_ids_def wa_inputs_def wa_outputs_def demo_world_def demo_tables_def)



text \<open>The output port has posted a chunk and two labels, out of order, and has produced two more bytes of its buffer.\<close>

definition producing_out :: out_port where
  "producing_out = demo_out\<lparr>op_postedLabels := [lb_new ''b'' ObNull 4 1, lb_new ''a'' ObNull 1 1],
     op_buffer := chunk_at 50 8 4, op_pendingElements := 2\<rparr>"

definition producing_world :: world where
  "producing_world = demo_world\<lparr>w_out := (\<lambda>_. producing_out)\<rparr>"

theorem post_output_delivers_witness:
  "\<exists>w' e'. post_output demo_env 5 (producing_world, 0) = Inr (w', e')
     \<and> ip_stream word_of_nat (w_in w' 3) = [10, 11, 12, 50, 51]
     \<and> map (\<lambda>l. (lb_id l, lb_index l)) (ip_queued_labels (w_in w' 3)) = [(''a'', 1), (''b'', 4)]"
proof -
  let ?p = "w_out producing_world 5"
  have nw: "rd_wf (op_postedBuffers ((op_new 0)\<lparr>op_subscribers := [3]\<rparr>))" "posted_list ((op_new 0)\<lparr>op_subscribers := [3]\<rparr>) = []"
    by (simp_all add: op_new_def posted_list_def)
  have pb: "rd_wf (op_postedBuffers demo_out)" "posted_list demo_out = [retype dtype_default (chunk_at 10 3 1)]"
      "op_subscribers demo_out = [3]"
    using op_postBuffer_list[OF nw(1), of "chunk_at 10 3 1"] by (simp_all add: nw(2) demo_out_def) (simp_all add: op_new_def SIZE_MOD_def)
  have p: "op_subscribers ?p = [3]" "rd_wf (op_postedBuffers ?p)" "posted_list ?p = [retype dtype_default (chunk_at 10 3 1)]"
    using pb by (simp_all add: producing_world_def producing_out_def posted_list_def)
  have pl: "op_postedLabels ?p = [lb_new ''b'' ObNull 4 1, lb_new ''a'' ObNull 1 1]" "op_buffer ?p = chunk_at 50 8 4"
    "op_pendingElements ?p = 2" "op_dtype ?p = dtype_default" "\<not> op_bufferFromManager ?p"
    by (simp_all add: producing_world_def producing_out_def demo_out_def op_postBuffer_def Let_def op_new_def)
  have n: "mul64 (op_pendingElements ?p) (dt_size (bc_dtype (op_buffer ?p))) = 2"
    by (simp add: pl chunk_at_def bc_of_shared_def dtype_default_def dt_size_def mul64_def SIZE_MOD_def)
  have c: "produced_chunks ?p = [retype dtype_default ((chunk_at 50 8 4)\<lparr>bc_length := 2\<rparr>)]"
    unfolding produced_chunks_def Let_def n by (simp add: pl)
  have "\<exists>w1. post_produced 5 producing_world = Inr w1"
    unfolding post_produced_def Let_def n by (simp add: pl)
  then obtain w' e' where r: "post_output demo_env 5 (producing_world, 0) = Inr (w', e')"
    by (auto simp: post_output_def Let_def)
  have i: "ip_ok (w_in producing_world 3)" "ip_stream word_of_nat (w_in producing_world 3) = []"
    "ip_queued_labels (w_in producing_world 3) = []" "ip_dtype (w_in producing_world 3) = dtype_default"
    "ip_bufferAccumulator (w_in producing_world 3) = acc_new"
    using ip_new_ok by (simp_all add: producing_world_def demo_world_def ip_ok_def ip_stream_def ip_queued_labels_def) (simp_all add: ip_new_def)
  have acc: "ip_accepts (w_in producing_world 3) c" if "\<not> dt_bool (ip_dtype (w_in producing_world 3))" for c
    using that by (simp add: ip_accepts_def)
  have take: "\<forall>s \<in> set (op_subscribers ?p). can_take (w_in producing_world s) (op_postedLabels ?p) (posted_list ?p @ produced_chunks ?p)"
    using i by (simp add: p pl c can_take_def ip_room_def acc_new_inv SIZE_MOD_def lb_new_def retype_def) (simp add: chunk_ok_def sb_make_with_def SIZE_MOD_def)
  have srt: "sorts_labels (en_sort demo_env)" by (simp add: sorts_labels_def demo_env_def)
  have ok: "filter (ip_accepts (w_in producing_world 3)) (posted_list ?p @ produced_chunks ?p) = posted_list ?p @ produced_chunks ?p"
    using i(4) by (simp add: p c ip_accepts_def dtype_default_def dt_bool_def)
  have d: "distinct (op_subscribers ?p)" "2 * length (posted_list ?p) < SIZE_MOD" "3 \<in> set (op_subscribers ?p)"
    by (simp_all add: p SIZE_MOD_def)
  from post_output_delivers[OF r srt d(1) p(2) d(2) take, of word_of_nat] d(3)
  obtain ls where ls: "mset ls = mset (op_postedLabels ?p)" "sorted (map lb_index ls)"
      "ip_stream word_of_nat (w_in w' 3) = ip_stream word_of_nat (w_in producing_world 3)
        @ chunks_bytes word_of_nat (filter (ip_accepts (w_in producing_world 3)) (posted_list ?p @ produced_chunks ?p))"
      "ip_queued_labels (w_in w' 3) = ip_queued_labels (w_in producing_world 3)
        @ map (\<lambda>l. l\<lparr>lb_index := length (ip_stream word_of_nat (w_in producing_world 3)) + lb_index l\<rparr>) ls"
    by blast
  have "ls = [lb_new ''a'' ObNull 1 1, lb_new ''b'' ObNull 4 1]"
  proof -
    have "length ls = 2" using mset_eq_length[OF ls(1)] by (simp add: pl)
    then obtain x z where "ls = [x, z]" by (auto simp: length_Suc_conv numeral_2_eq_2)
    then show ?thesis using ls(1,2) by (auto simp: pl lb_new_def add_mset_eq_single add_eq_conv_ex)
  qed
  moreover have "chunks_bytes word_of_nat (posted_list ?p @ produced_chunks ?p) = [10, 11, 12, 50, 51]"
    by (simp add: p c bc_bytes_def mem_bytes_def upt_rec retype_def)
  ultimately show ?thesis using r ls(3,4) unfolding ok i(2,3) by (auto simp: lb_new_def)
qed

end
