(* ===== verification/BlockApi.thy ===== *)
theory BlockApi
  imports Worker
begin

text \<open>
  The framework side of \<^verbatim>\<open>Pothos::Block\<close> (lib/Framework/Block.cpp,
  include/Pothos/Framework/BlockImpl.hpp): the registration of ports, signals, slots, calls and probes,
  the access to ports, and the dispatch of opaque calls. A registered callable is a number; what the
  \<open>Callable\<close> object offers (its argument count, whether an argument converts, the call) is a record.
  The handler and the method call recurse through probes, which the code does not bound; both take
  fuel, and \<open>None\<close> stands for exhausted fuel.
\<close>

section \<open>Port access\<close>

definition named_port :: "string \<Rightarrow> port_tables \<Rightarrow> nat result" where
  "named_port name t = (case smap_find name (pt_named t) of None \<Rightarrow> Inl PortAccessError | Some i \<Rightarrow> Inr i)"

text \<open>An index below the size can hold a null pointer.\<close>

definition indexed_port :: "nat \<Rightarrow> port_tables \<Rightarrow> nat option result" where
  "indexed_port index t = (if index \<ge> length (pt_indexed t) then Inl PortAccessError else Inr (pt_indexed t ! index))"

definition blk_input :: "nat \<Rightarrow> string \<Rightarrow> world \<Rightarrow> nat result" where
  "blk_input a name w = named_port name (wa_in (w_worker w a))"

definition blk_output :: "nat \<Rightarrow> string \<Rightarrow> world \<Rightarrow> nat result" where
  "blk_output a name w = named_port name (wa_out (w_worker w a))"

definition blk_inputAt :: "nat \<Rightarrow> nat \<Rightarrow> world \<Rightarrow> nat option result" where
  "blk_inputAt a index w = indexed_port index (wa_in (w_worker w a))"

definition blk_outputAt :: "nat \<Rightarrow> nat \<Rightarrow> world \<Rightarrow> nat option result" where
  "blk_outputAt a index w = indexed_port index (wa_out (w_worker w a))"

definition blk_isActive :: "nat \<Rightarrow> world \<Rightarrow> bool" where
  "blk_isActive a w = wa_activeState (w_worker w a)"

definition blk_yield :: "nat \<Rightarrow> world \<Rightarrow> world" where
  "blk_yield a w = flag_change (Some a) w"

record port_info =
  pi_name :: string
  pi_isSigSlot :: bool
  pi_dtype :: dtype

fun port_infos :: "(string \<Rightarrow> port_info result) \<Rightarrow> string list \<Rightarrow> port_info list result" where
  "port_infos f [] = Inr []"
| "port_infos f (name # names) = result_bind (f name) (\<lambda>i. result_bind (port_infos f names) (\<lambda>is. Inr (i # is)))"

definition blk_inputPortInfo :: "nat \<Rightarrow> world \<Rightarrow> port_info list result" where
  "blk_inputPortInfo a w = port_infos (\<lambda>name. result_bind (blk_input a name w) (\<lambda>i.
     Inr \<lparr>pi_name = name, pi_isSigSlot = ip_isSlot (w_in w i), pi_dtype = ip_dtype (w_in w i)\<rparr>))
     (pt_names (wa_in (w_worker w a)))"

definition blk_outputPortInfo :: "nat \<Rightarrow> world \<Rightarrow> port_info list result" where
  "blk_outputPortInfo a w = port_infos (\<lambda>name. result_bind (blk_output a name w) (\<lambda>i.
     Inr \<lparr>pi_name = name, pi_isSigSlot = op_isSignal (w_out w i), pi_dtype = op_dtype (w_out w i)\<rparr>))
     (pt_names (wa_out (w_worker w a)))"

section \<open>Registration\<close>

definition free_name :: "string \<Rightarrow> port_tables \<Rightarrow> bool" where
  "free_name name t \<longleftrightarrow> name \<noteq> [] \<and> smap_find name (pt_named t) = None"

definition blk_setupInput :: "nat \<Rightarrow> string \<Rightarrow> dtype \<Rightarrow> string \<Rightarrow> nat \<Rightarrow> world \<Rightarrow> world result" where
  "blk_setupInput a name dt domain pid w =
     (if name = [] then Inl PortAccessError
      else if smap_find name (pt_named (wa_in (w_worker w a))) \<noteq> None then Inl PortAccessError
      else wa_allocateInput a name dt domain False pid w)"

definition blk_setupInputAt :: "nat \<Rightarrow> nat \<Rightarrow> dtype \<Rightarrow> string \<Rightarrow> nat \<Rightarrow> world \<Rightarrow> world result" where
  "blk_setupInputAt a index = blk_setupInput a (to_string index)"

definition blk_setupOutput :: "env \<Rightarrow> nat \<Rightarrow> string \<Rightarrow> dtype \<Rightarrow> string \<Rightarrow> nat \<Rightarrow> nat \<Rightarrow> world \<Rightarrow> world result" where
  "blk_setupOutput env a name dt domain pid mid w =
     (if name = [] then Inl PortAccessError
      else if smap_find name (pt_named (wa_out (w_worker w a))) \<noteq> None then Inl PortAccessError
      else wa_allocateOutput env a name dt domain False pid mid w)"

definition blk_setupOutputAt :: "env \<Rightarrow> nat \<Rightarrow> nat \<Rightarrow> dtype \<Rightarrow> string \<Rightarrow> nat \<Rightarrow> nat \<Rightarrow> world \<Rightarrow> world result" where
  "blk_setupOutputAt env a index = blk_setupOutput env a (to_string index)"

definition blk_registerSignal :: "env \<Rightarrow> nat \<Rightarrow> string \<Rightarrow> nat \<Rightarrow> nat \<Rightarrow> world \<Rightarrow> world result" where
  "blk_registerSignal env a name pid mid w =
     (if name = [] then Inl PortAccessError
      else if smap_find name (pt_named (wa_out (w_worker w a))) \<noteq> None then Inl PortAccessError
      else wa_allocateSignal env a name pid mid w)"

definition blk_registerSlot :: "env \<Rightarrow> nat \<Rightarrow> string \<Rightarrow> nat \<Rightarrow> world \<Rightarrow> world result" where
  "blk_registerSlot env a name pid w =
     (if name = [] then Inl PortAccessError
      else if smap_find name (pt_named (wa_in (w_worker w a))) \<noteq> None then Inl PortAccessError
      else wa_allocateSlot env a name pid w)"

text \<open>\<open>std::multimap::insert\<close>: behind the entries with the same key.\<close>

fun mmap_insert :: "('k::linorder) \<Rightarrow> 'v \<Rightarrow> ('k \<times> 'v) list \<Rightarrow> ('k \<times> 'v) list" where
  "mmap_insert k v [] = [(k, v)]"
| "mmap_insert k v ((k', v') # m) = (if k < k' then (k, v) # (k', v') # m else (k', v') # mmap_insert k v m)"

definition mmap_range :: "'k \<Rightarrow> ('k \<times> 'v) list \<Rightarrow> 'v list" where
  "mmap_range k m = map snd (filter (\<lambda>e. fst e = k) m)"

record callables =
  ca_numArgs :: "nat \<Rightarrow> nat"
  ca_canConvert :: "nat \<Rightarrow> nat \<Rightarrow> pobject \<Rightarrow> bool"
  ca_call :: "nat \<Rightarrow> pobject list \<Rightarrow> world \<Rightarrow> pobject result \<times> world"

definition blk_registerCallable :: "env \<Rightarrow> callables \<Rightarrow> nat \<Rightarrow> string \<Rightarrow> nat \<Rightarrow> nat \<Rightarrow> world \<Rightarrow> world result" where
  "blk_registerCallable env ca a name call pid w =
     (let w = upd_worker a (\<lambda>wk. wk\<lparr>wa_calls := mmap_insert name call (wa_calls wk)\<rparr>) w;
          isPrivate = (name \<noteq> [] \<and> hd name = CHR ''_'')
      in if ca_numArgs ca call > 0 \<and> \<not> isPrivate \<and> smap_find name (pt_named (wa_in (w_worker w a))) = None
         then blk_registerSlot env a name pid w else Inr w)"

definition ascii_toUpper :: "char \<Rightarrow> char" where
  "ascii_toUpper c = (let n = (of_char c :: nat) in if 97 \<le> n \<and> n \<le> 122 then char_of (n - 32) else c)"

definition probe_signal :: "string \<Rightarrow> string \<Rightarrow> string" where
  "probe_signal name signalName = (if signalName = [] then name @ ''Triggered'' else signalName)"

definition probe_slot :: "string \<Rightarrow> string \<Rightarrow> string" where
  "probe_slot name slotName =
     (if slotName = [] then ''probe'' @ map ascii_toUpper (take 1 name) @ drop 1 name else slotName)"

definition blk_registerProbe :: "env \<Rightarrow> nat \<Rightarrow> string \<Rightarrow> string \<Rightarrow> string \<Rightarrow> nat \<Rightarrow> nat \<Rightarrow> nat \<Rightarrow> world \<Rightarrow> world result" where
  "blk_registerProbe env a name signalName slotName ipid opid mid w =
     (if name = [] then Inl PortAccessError
      else let signal = probe_signal name signalName; slot = probe_slot name slotName in
        result_bind (blk_registerSlot env a slot ipid w) (\<lambda>w.
        result_bind (blk_registerSignal env a signal opid mid w) (\<lambda>w.
          Inr (upd_worker a (\<lambda>wk. wk\<lparr>wa_probes := smap_set slot (name, signal) (wa_probes wk)\<rparr>) w))))"

section \<open>Opaque calls\<close>

text \<open>The overload: the only one registered, or the first one whose arity and argument types match.\<close>

definition overload_matches :: "callables \<Rightarrow> pobject list \<Rightarrow> nat \<Rightarrow> bool" where
  "overload_matches ca args c \<longleftrightarrow>
     ca_numArgs ca c = length args \<and> (\<forall>i < length args. ca_canConvert ca c i (args ! i))"

definition pick_overload :: "callables \<Rightarrow> pobject list \<Rightarrow> nat list \<Rightarrow> nat option" where
  "pick_overload ca args cs = (case cs of [] \<Rightarrow> None | [c] \<Rightarrow> Some c | _ \<Rightarrow> find (overload_matches ca args) cs)"

fun blk_opaqueCallHandler :: "callables \<Rightarrow> nat \<Rightarrow> nat \<Rightarrow> string \<Rightarrow> pobject list \<Rightarrow> world \<Rightarrow> (pobject result \<times> world) option"
and blk_opaqueCallMethod :: "callables \<Rightarrow> nat \<Rightarrow> nat \<Rightarrow> string \<Rightarrow> pobject list \<Rightarrow> world \<Rightarrow> (pobject result \<times> world) option" where
  "blk_opaqueCallHandler ca 0 a name args w = None"
| "blk_opaqueCallHandler ca (Suc n) a name args w =
     (case smap_find name (wa_probes (w_worker w a)) of
        Some (callName, signalName) \<Rightarrow>
          (case blk_opaqueCallHandler ca n a callName args w of
             None \<Rightarrow> None
           | Some (Inl e, w) \<Rightarrow> Some (Inl e, w)
           | Some (Inr res, w) \<Rightarrow>
               (case blk_opaqueCallMethod ca n a signalName (if res \<noteq> ObNull then [res] else []) w of
                  None \<Rightarrow> None
                | Some (Inl e, w) \<Rightarrow> Some (Inl e, w)
                | Some (Inr _, w) \<Rightarrow> Some (Inr ObNull, w)))
      | None \<Rightarrow>
          (case pick_overload ca args (mmap_range name (wa_calls (w_worker w a))) of
             None \<Rightarrow> Some (Inl BlockCallNotFound, w)
           | Some c \<Rightarrow> Some (ca_call ca c args w)))"
| "blk_opaqueCallMethod ca 0 a name args w = None"
| "blk_opaqueCallMethod ca (Suc n) a name args w =
     (case smap_find name (wa_outputs a w) of
        Some y \<Rightarrow>
          if op_isSignal (w_out w y)
          then (case out_postMessage y (ObVector args) w of
                  Inl e \<Rightarrow> Some (Inl e, w) | Inr w' \<Rightarrow> Some (Inr ObNull, w'))
          else if mmap_range name (wa_calls (w_worker w a)) = [] then Some (Inl BlockCallNotFound, w)
          else map_option (\<lambda>(r, w). (r, flag_change (Some a) w)) (blk_opaqueCallHandler ca n a name args w)
      | None \<Rightarrow>
          if mmap_range name (wa_calls (w_worker w a)) = [] then Some (Inl BlockCallNotFound, w)
          else map_option (\<lambda>(r, w). (r, flag_change (Some a) w)) (blk_opaqueCallHandler ca n a name args w))"

section \<open>Registration keeps the tables\<close>

lemma vec_resize_length [simp]: "length (vec_resize n d xs) = n"
  by (simp add: vec_resize_def)

text \<open>registering an input port either throws \<open>PortAccessError\<close>, exactly when the name is empty or taken, or
  (for a name whose index is not in use) allocates the port: the block finds it by its name with the data
  type and index asked for, all other names resolve as before, the tables stay consistent, and the
  pointer array handed to \<open>work\<close> has one entry per index.\<close>
theorem blk_setupInput_spec:
  assumes "pt_reach (wa_in (w_worker w a))"
  defines "t \<equiv> wa_in (w_worker w a)"
  shows "(\<not> free_name name t \<longrightarrow> blk_setupInput a name dt domain pid w = Inl PortAccessError)
    \<and> (free_name name t \<and> pt_fresh name t \<longrightarrow>
        (\<exists>w'. blk_setupInput a name dt domain pid w = Inr w' \<and> pt_reach (wa_in (w_worker w' a))
          \<and> blk_input a name w' = Inr pid \<and> ip_dtype (w_in w' pid) = dt \<and> ip_name (w_in w' pid) = name
          \<and> ip_index (w_in w' pid) = portNameToIndex name
          \<and> (\<forall>x. x \<noteq> name \<longrightarrow> blk_input a x w' = blk_input a x w)
          \<and> length (wi_inputPointers (info a w')) = length (pt_indexed (wa_in (w_worker w' a)))))"
proof (intro conjI impI)
  assume "\<not> free_name name t"
  then show "blk_setupInput a name dt domain pid w = Inl PortAccessError"
    by (auto simp: free_name_def blk_setupInput_def t_def)
next
  assume asm: "free_name name t \<and> pt_fresh name t"
  have ok: "pt_ok t" using pt_reach_ok assms by blast
  from pt_allocate_ok[OF ok, of name pid] asm obtain t' where t': "pt_allocate name pid t = Inr t'" "pt_ok t'"
    "\<And>x. smap_find x (pt_ports t') = (if x = name then Some pid else smap_find x (pt_ports t))" by blast
  have r: "pt_reach t'" using pt_alloc[of t name pid t'] assms asm t'(1) by simp
  have n: "pt_named t' = pt_ports t'" "pt_named t = pt_ports t" using t'(2) ok by (simp_all add: pt_ok_def)
  let ?w' = "upd_worker a (\<lambda>wk. wa_updatePorts (wk\<lparr>wa_in := t'\<rparr>)) (upd_in pid (\<lambda>_. ip_allocated a name dt domain) w)"
  have run: "blk_setupInput a name dt domain pid w = Inr ?w'"
    using asm t'(1) by (simp add: blk_setupInput_def free_name_def t_def wa_allocateInput_def)
  show "\<exists>w'. blk_setupInput a name dt domain pid w = Inr w' \<and> pt_reach (wa_in (w_worker w' a))
          \<and> blk_input a name w' = Inr pid \<and> ip_dtype (w_in w' pid) = dt \<and> ip_name (w_in w' pid) = name
          \<and> ip_index (w_in w' pid) = portNameToIndex name
          \<and> (\<forall>x. x \<noteq> name \<longrightarrow> blk_input a x w' = blk_input a x w)
          \<and> length (wi_inputPointers (info a w')) = length (pt_indexed (wa_in (w_worker w' a)))"
    using r n t'(3) unfolding t_def
    by (intro exI[of _ ?w'] conjI run)
      (simp_all add: wa_updatePorts_def blk_input_def named_port_def ip_allocated_def ip_new_def info_def)
qed

theorem blk_setupInput_spec_witness:
  "\<exists>w'. blk_setupInput 0 ''in'' dtype_default [] 9 (demo_world\<lparr>w_worker := \<lambda>_. wa_new\<rparr>) = Inr w' \<and> blk_input 0 ''in'' w' = Inr 9"
proof -
  let ?w = "demo_world\<lparr>w_worker := \<lambda>_. wa_new\<rparr>"
  have t: "wa_in (w_worker ?w 0) = pt_new" by (simp add: wa_new_def)
  have r: "pt_reach (wa_in (w_worker ?w 0))" unfolding t by (rule pt_start)
  have "portNameToIndex ''in'' = -1"
    by (simp add: portNameToIndex_def tryParseUnsigned_def strToInt_def is_space_def is_digit_def is_suffix_char_def)
  then have "free_name ''in'' pt_new" "pt_fresh ''in'' pt_new" by (simp_all add: free_name_def pt_new_def pt_fresh_def)
  then show ?thesis using blk_setupInput_spec[OF r, of "''in''" dtype_default "[]" 9] unfolding t by blast
qed

section \<open>Dispatch\<close>

text \<open>an opaque call on a name with several registered overloads runs the first one whose argument count and
  argument types match, and throws \<open>BlockCallNotFound\<close> when there is none; a name with one registered call
  runs it whatever the arguments; an unknown name throws. No other state changes.\<close>
theorem overload_dispatch:
  assumes "smap_find name (wa_probes (w_worker w a)) = None"
  defines "cs \<equiv> mmap_range name (wa_calls (w_worker w a))"
  shows "(cs = [] \<longrightarrow> blk_opaqueCallHandler ca (Suc n) a name args w = Some (Inl BlockCallNotFound, w))
    \<and> (\<forall>c. cs = [c] \<longrightarrow> blk_opaqueCallHandler ca (Suc n) a name args w = Some (ca_call ca c args w))
    \<and> (1 < length cs \<longrightarrow>
        (case filter (overload_matches ca args) cs of
           [] \<Rightarrow> blk_opaqueCallHandler ca (Suc n) a name args w = Some (Inl BlockCallNotFound, w)
         | c # _ \<Rightarrow> blk_opaqueCallHandler ca (Suc n) a name args w = Some (ca_call ca c args w)))"
proof -
  have run: "blk_opaqueCallHandler ca (Suc n) a name args w =
      (case pick_overload ca args cs of None \<Rightarrow> Some (Inl BlockCallNotFound, w) | Some c \<Rightarrow> Some (ca_call ca c args w))"
    by (simp add: assms(1) cs_def)
  have find: "find P xs = (case filter P xs of [] \<Rightarrow> None | x # _ \<Rightarrow> Some x)" for P and xs :: "nat list"
    by (induction xs) auto
  show ?thesis
  proof (cases cs)
    case Nil
    then show ?thesis unfolding run by (simp add: pick_overload_def)
  next
    case (Cons c ds)
    show ?thesis
    proof (cases ds)
      case Nil
      then show ?thesis unfolding run by (simp add: Cons pick_overload_def)
    next
      case (Cons d es)
      then have "pick_overload ca args cs = find (overload_matches ca args) cs"
        using \<open>cs = c # ds\<close> by (simp add: pick_overload_def)
      then show ?thesis unfolding run find using \<open>cs = c # ds\<close> Cons by (simp split: list.split)
    qed
  qed
qed

definition demo_callables :: callables where
  "demo_callables = \<lparr>ca_numArgs = (\<lambda>c. c), ca_canConvert = (\<lambda>_ _ _. True), ca_call = (\<lambda>c args w. (Inr (ObOpaque c), w))\<rparr>"

theorem overload_dispatch_witness:
  "blk_opaqueCallHandler demo_callables 1 0 ''f'' [ObNull]
     (demo_world\<lparr>w_worker := \<lambda>_. wa_new\<lparr>wa_calls := [(''f'', 2), (''f'', 1)]\<rparr>\<rparr>)
   = Some (Inr (ObOpaque 1), demo_world\<lparr>w_worker := \<lambda>_. wa_new\<lparr>wa_calls := [(''f'', 2), (''f'', 1)]\<rparr>\<rparr>)"
proof -
  let ?w = "demo_world\<lparr>w_worker := \<lambda>_. wa_new\<lparr>wa_calls := [(''f'', 2), (''f'', 1)]\<rparr>\<rparr>"
  have "smap_find ''f'' (wa_probes (w_worker ?w 0)) = None" by (simp add: wa_new_def)
  from overload_dispatch[OF this, of demo_callables 0 "[ObNull]"] show ?thesis
    by (simp add: mmap_range_def overload_matches_def demo_callables_def One_nat_def del: blk_opaqueCallHandler.simps)
qed

text \<open>a call of a probe slot calls the probed method and reports its result: every subscriber of the probe's
  signal gets one message with the result (an empty argument vector for a null result), and the probe
  itself returns null. Two units of fuel or more suffice when the probed name is a plain call.\<close>
theorem probe_reports:
  assumes "smap_find slot (wa_probes (w_worker w a)) = Some (name, sig)" "smap_find name (wa_probes (w_worker w a)) = None"
    and "pick_overload ca args (mmap_range name (wa_calls (w_worker w a))) = Some c" "ca_call ca c args w = (Inr res, w1)"
    and "smap_find sig (wa_outputs a w1) = Some y" "op_isSignal (w_out w1 y)"
    and "distinct (op_subscribers (w_out w1 y))" "\<forall>s \<in> set (op_subscribers (w_out w1 y)). msg_room (w_in w1 s)"
    and "w_mgr w1 (op_tokenManager (w_out w1 y)) = BmGeneric g" "2 \<le> fuel"
  shows "\<exists>w2. blk_opaqueCallHandler ca fuel a slot args w = Some (Inr ObNull, w2)
    \<and> (\<forall>s \<in> set (op_subscribers (w_out w1 y)).
        got_message (ObVector (if res \<noteq> ObNull then [res] else [])) (if gm_empty g then bc_null else gm_front g)
          (w_in w1 s) (w_in w2 s))"
proof -
  obtain n where fuel: "fuel = Suc (Suc n)" using assms(10) by (metis add_2_eq_Suc le_Suc_ex)
  let ?v = "ObVector (if res \<noteq> ObNull then [res] else [])"
  from out_postMessage_props[OF assms(7,8,9), of ?v] obtain w2 where w2: "out_postMessage y ?v w1 = Inr w2"
    "\<forall>s \<in> set (op_subscribers (w_out w1 y)).
      got_message ?v (if gm_empty g then bc_null else gm_front g) (w_in w1 s) (w_in w2 s)" by blast
  have h: "blk_opaqueCallHandler ca (Suc n) a name args w = Some (Inr res, w1)" using assms(2,3,4) by simp
  have m: "blk_opaqueCallMethod ca (Suc n) a sig (if res \<noteq> ObNull then [res] else []) w1 = Some (Inr ObNull, w2)"
    using assms(5,6) w2(1) by simp
  have "blk_opaqueCallHandler ca fuel a slot args w = Some (Inr ObNull, w2)"
    unfolding fuel by (subst blk_opaqueCallHandler.simps(2)) (simp add: assms(1) h m del: blk_opaqueCallHandler.simps blk_opaqueCallMethod.simps)
  with w2(2) show ?thesis by blast
qed

theorem probe_reports_witness:
  defines "wk \<equiv> wa_new\<lparr>wa_calls := [(''gain'', 7)], wa_probes := [(''probeGain'', ''gain'', ''gainTriggered'')],
      wa_out := \<lparr>pt_ports = [(''gainTriggered'', 5)], pt_named = [(''gainTriggered'', 5)], pt_indexed = [],
        pt_names = [''gainTriggered'']\<rparr>\<rparr>"
  defines "w \<equiv> demo_world\<lparr>w_worker := \<lambda>_. wk, w_in := \<lambda>_. ip_new,
      w_out := \<lambda>_. (op_new 0)\<lparr>op_subscribers := [3], op_isSignal := True\<rparr>\<rparr>"
  shows "\<exists>w2. blk_opaqueCallHandler demo_callables 2 0 ''probeGain'' [] w = Some (Inr ObNull, w2)
    \<and> ip_messages (w_in w2 3) = [(ObVector [ObOpaque 7], bc_null)]"
proof -
  have pr: "smap_find ''probeGain'' (wa_probes (w_worker w 0)) = Some (''gain'', ''gainTriggered'')"
    "smap_find ''gain'' (wa_probes (w_worker w 0)) = None"
    "pick_overload demo_callables [] (mmap_range ''gain'' (wa_calls (w_worker w 0))) = Some 7"
    "ca_call demo_callables 7 [] w = (Inr (ObOpaque 7), w)"
    "smap_find ''gainTriggered'' (wa_outputs 0 w) = Some 5"
    by (simp_all add: w_def wk_def mmap_range_def pick_overload_def demo_callables_def wa_outputs_def)
  have out: "w_out w 5 = (op_new 0)\<lparr>op_subscribers := [3], op_isSignal := True\<rparr>" "w_in w 3 = ip_new"
    "w_mgr w 0 = BmGeneric gm_new" by (simp_all add: w_def demo_world_def)
  have r: "msg_room ip_new" "\<not> ip_isSlot ip_new" "ip_messages ip_new = []"
    by (simp add: msg_room_def ip_new_ok, simp add: ip_new_def rd_new_def rd_capacity_def SIZE_MOD_def)
      (simp_all add: ip_new_def ip_messages_def)
  have e: "gm_empty gm_new" by (simp add: gm_empty_def gm_new_def rd_empty_def rd_new_def)
  have "\<exists>w2. blk_opaqueCallHandler demo_callables 2 0 ''probeGain'' [] w = Some (Inr ObNull, w2)
    \<and> (\<forall>s \<in> set (op_subscribers (w_out w 5)).
        got_message (ObVector (if ObOpaque 7 \<noteq> ObNull then [ObOpaque 7] else [])) (if gm_empty gm_new then bc_null else gm_front gm_new)
          (w_in w s) (w_in w2 s))"
    by (rule probe_reports[OF pr]) (use out r in \<open>simp_all add: op_new_def\<close>)
  then show ?thesis using out r e by (auto simp: got_message_def)
qed

end
