(* ===== verification/ActorInterface.thy ===== *)
theory ActorInterface
  imports Prelude
begin

text \<open>
  The exclusive access to an actor (\<open>ActorInterface\<close> of lib/Framework/ActorInterface.hpp in
  pothos-library) as a state machine. One worker at a time runs the task of an actor (the thread of
  the task, or in pool mode the thread that took the task's flag); any number of external threads call
  \<open>externalCallAcquire\<close>/\<open>externalCallRelease\<close>, \<open>flagExternalChange\<close> and \<open>wakeNoChange\<close>.
  Each thread has a program counter with one value per atomic action of the code: a load, a
  \<open>test_and_set\<close>, a \<open>clear\<close>, the locking or unlocking of a mutex, the wait on the condition variable
  and its notification. \<open>x_next\<close> and \<open>w_next\<close> give the next action of a call in progress, and are
  \<open>None\<close> when the thread is idle or blocked on a mutex or on the condition variable.

  \<open>std::mutex::try_lock\<close> is taken not to fail spuriously, and memory is sequentially consistent. A
  thread that holds the context and flags a change of its own actor finds the context locked, so the
  attempt to wake ends at \<open>try_lock\<close>: this is the same as flagging an internal change.
\<close>

section \<open>The state\<close>

datatype owner = Worker_owner | External_owner nat

text \<open>The program counters of external callers; every name is the action that comes next.\<close>

datatype xpc = XIdle | XLock | XHold | XUnlock | XClear | XTry | XTryUnlock | XAcq | XNotify | XLeave

text \<open>The program counters of the worker; the flag is the argument \<open>waitEnabled\<close>.\<close>

datatype wpc = WIdle | WLoad bool | WBail | WBailUnlock | WFast bool | WCtx | WAcq | WTest2 | WWait
  | WSleep | WWoken | WTest3 | WFail | WCtx2 | WGot2 | WHold

text \<open>\<open>ai_changed\<close> is the negation of the \<open>atomic_flag\<close>: the flag is cleared to mark a change.\<close>

record actor =
  ai_waitMode :: bool
  ai_changed :: bool
  ai_external :: nat
  ai_context :: "owner option"
  ai_acquire :: "owner option"
  ai_xpc :: "nat \<Rightarrow> xpc"
  ai_wpc :: wpc

definition ai_new :: "bool \<Rightarrow> actor" where
  "ai_new waitMode = \<lparr>ai_waitMode = waitMode, ai_changed = False, ai_external = 0, ai_context = None,
     ai_acquire = None, ai_xpc = \<lambda>_. XIdle, ai_wpc = WIdle\<rparr>"

abbreviation x_goto :: "nat \<Rightarrow> xpc \<Rightarrow> actor \<Rightarrow> actor" where
  "x_goto x p s \<equiv> s\<lparr>ai_xpc := (ai_xpc s)(x := p)\<rparr>"

abbreviation w_goto :: "wpc \<Rightarrow> actor \<Rightarrow> actor" where
  "w_goto p s \<equiv> s\<lparr>ai_wpc := p\<rparr>"

section \<open>External callers\<close>

text \<open>The calls begin with an action of their own (\<open>externalCallAcquire\<close> counts itself).\<close>

definition externalCallAcquire :: "nat \<Rightarrow> actor \<Rightarrow> actor" where
  "externalCallAcquire x s = x_goto x XLock (s\<lparr>ai_external := ai_external s + 1\<rparr>)"

definition externalCallRelease :: "nat \<Rightarrow> actor \<Rightarrow> actor" where
  "externalCallRelease x s = x_goto x XUnlock (s\<lparr>ai_external := ai_external s - 1\<rparr>)"

definition flagExternalChange :: "nat \<Rightarrow> actor \<Rightarrow> actor" where
  "flagExternalChange x s = x_goto x (if ai_waitMode s then XTry else XIdle) (s\<lparr>ai_changed := True\<rparr>)"

definition flagInternalChange :: "actor \<Rightarrow> actor" where
  "flagInternalChange s = s\<lparr>ai_changed := True\<rparr>"

definition notify_one :: "actor \<Rightarrow> actor" where
  "notify_one s = (if ai_wpc s = WSleep then w_goto WWoken s else s)"

text \<open>\<open>wakeNoChange\<close> from its \<open>try_lock\<close> on.\<close>

definition wakeNoChange :: "nat \<Rightarrow> actor \<Rightarrow> actor option" where
  "wakeNoChange x s =
     (case ai_xpc s x of
        XTry \<Rightarrow>
          if ai_context s \<noteq> None then Some (x_goto x XIdle s)
          else Some (x_goto x XTryUnlock (s\<lparr>ai_context := Some (External_owner x)\<rparr>))
      | XTryUnlock \<Rightarrow> Some (x_goto x XAcq (s\<lparr>ai_context := None\<rparr>))
      | XAcq \<Rightarrow>
          if ai_acquire s \<noteq> None then None
          else Some (x_goto x XNotify (s\<lparr>ai_acquire := Some (External_owner x)\<rparr>))
      | XNotify \<Rightarrow> Some (x_goto x XLeave (notify_one s))
      | XLeave \<Rightarrow> Some (x_goto x XIdle (s\<lparr>ai_acquire := None\<rparr>))
      | _ \<Rightarrow> None)"

definition x_next :: "nat \<Rightarrow> actor \<Rightarrow> actor option" where
  "x_next x s =
     (case ai_xpc s x of
        XLock \<Rightarrow>
          if ai_context s \<noteq> None then None
          else Some (x_goto x XHold (s\<lparr>ai_context := Some (External_owner x)\<rparr>))
      | XHold \<Rightarrow> Some (externalCallRelease x s)
      | XUnlock \<Rightarrow> Some (x_goto x XClear (s\<lparr>ai_context := None\<rparr>))
      | XClear \<Rightarrow> Some (flagExternalChange x s)
      | _ \<Rightarrow> wakeNoChange x s)"

section \<open>The worker\<close>

text \<open>\<open>workerThreadAcquire\<close>; the states \<open>WIdle\<close> and \<open>WHold\<close> are its two results.\<close>

definition test_and_set :: "wpc \<Rightarrow> wpc \<Rightarrow> actor \<Rightarrow> actor" where
  "test_and_set yes no s = (if ai_changed s then w_goto yes (s\<lparr>ai_changed := False\<rparr>) else w_goto no s)"

definition w_lock_context :: "wpc \<Rightarrow> actor \<Rightarrow> actor option" where
  "w_lock_context p s =
     (if ai_context s \<noteq> None then None else Some (w_goto p (s\<lparr>ai_context := Some Worker_owner\<rparr>)))"

definition w_lock_acquire :: "wpc \<Rightarrow> actor \<Rightarrow> actor option" where
  "w_lock_acquire p s =
     (if ai_acquire s \<noteq> None then None else Some (w_goto p (s\<lparr>ai_acquire := Some Worker_owner\<rparr>)))"

definition workerThreadRelease :: "actor \<Rightarrow> actor" where
  "workerThreadRelease s = w_goto WIdle (s\<lparr>ai_context := None\<rparr>)"

definition workerThreadAcquire :: "actor \<Rightarrow> actor option" where
  "workerThreadAcquire s =
     (case ai_wpc s of
        WLoad waitEnabled \<Rightarrow> Some (w_goto (if ai_external s \<noteq> 0 then WBail else WFast waitEnabled) s)
      | WBail \<Rightarrow> w_lock_context WBailUnlock s
      | WBailUnlock \<Rightarrow> Some (w_goto WIdle (s\<lparr>ai_context := None\<rparr>))
      | WFast waitEnabled \<Rightarrow> Some (test_and_set WCtx (if waitEnabled then WAcq else WIdle) s)
      | WCtx \<Rightarrow> w_lock_context WHold s
      | WAcq \<Rightarrow> w_lock_acquire WTest2 s
      | WTest2 \<Rightarrow> Some (test_and_set WCtx2 WWait s)
      | WWait \<Rightarrow> Some (w_goto WSleep (s\<lparr>ai_acquire := None\<rparr>))
      | WWoken \<Rightarrow> w_lock_acquire WTest3 s
      | WTest3 \<Rightarrow> Some (test_and_set WCtx2 WFail s)
      | WFail \<Rightarrow> Some (w_goto WIdle (s\<lparr>ai_acquire := None\<rparr>))
      | WCtx2 \<Rightarrow> w_lock_context WGot2 s
      | WGot2 \<Rightarrow> Some (w_goto WHold (s\<lparr>ai_acquire := None\<rparr>))
      | _ \<Rightarrow> None)"

definition w_next :: "actor \<Rightarrow> actor option" where
  "w_next s = (if ai_wpc s = WHold then Some (workerThreadRelease s) else workerThreadAcquire s)"

section \<open>Steps\<close>

text \<open>The steps of calls in progress; the condition variable may also wake up spuriously.\<close>

inductive ai_go :: "actor \<Rightarrow> actor \<Rightarrow> bool" where
  go_x: "x_next x s = Some s' \<Longrightarrow> ai_go s s'"
| go_w: "w_next s = Some s' \<Longrightarrow> ai_go s s'"

inductive ai_cont :: "actor \<Rightarrow> actor \<Rightarrow> bool" where
  cont_go: "ai_go s s' \<Longrightarrow> ai_cont s s'"
| cont_spurious: "ai_wpc s = WSleep \<Longrightarrow> ai_cont s (w_goto WWoken s)"

text \<open>The start of a call. The worker waits only when waiting is enabled for the actor too
  (\<open>Block::setThreadPool\<close> sets the wait mode of the actor from its thread pool). A thread that owns
  the context may flag changes of its own actor.\<close>

inductive ai_start :: "actor \<Rightarrow> actor \<Rightarrow> bool" where
  start_acquire: "ai_xpc s x = XIdle \<Longrightarrow> ai_start s (externalCallAcquire x s)"
| start_flag: "ai_xpc s x = XIdle \<Longrightarrow> ai_start s (x_goto x XClear s)"
| start_wake: "ai_xpc s x = XIdle \<Longrightarrow> ai_start s (x_goto x XTry s)"
| start_worker: "ai_wpc s = WIdle \<Longrightarrow> waitEnabled \<longrightarrow> ai_waitMode s \<Longrightarrow> ai_start s (w_goto (WLoad waitEnabled) s)"
| own_worker: "ai_wpc s = WHold \<Longrightarrow> ai_start s (flagInternalChange s)"
| own_external: "ai_xpc s x = XHold \<Longrightarrow> ai_start s (flagInternalChange s)"

inductive ai_reach :: "actor \<Rightarrow> bool" where
  reach_new: "ai_reach (ai_new m)"
| reach_cont: "ai_reach s \<Longrightarrow> ai_cont s s' \<Longrightarrow> ai_reach s'"
| reach_start: "ai_reach s \<Longrightarrow> ai_start s s' \<Longrightarrow> ai_reach s'"

inductive_cases ai_goE: "ai_go s s'"
inductive_cases ai_contE: "ai_cont s s'"
inductive_cases ai_startE: "ai_start s s'"
inductive_simps ai_go_iff: "ai_go s s'"
inductive_simps ai_cont_iff: "ai_cont s s'"

text \<open>Every maximal run of the calls in progress comes to a state with \<open>P\<close>; no spurious wake-up is needed
  for it, and any may happen on the way.\<close>

inductive ai_inevitably :: "(actor \<Rightarrow> bool) \<Rightarrow> actor \<Rightarrow> bool" for P where
  inev_now: "P s \<Longrightarrow> ai_inevitably P s"
| inev_later: "ai_go s s1 \<Longrightarrow> (\<And>s'. ai_cont s s' \<Longrightarrow> ai_inevitably P s') \<Longrightarrow> ai_inevitably P s"

section \<open>The invariant\<close>

definition x_holds_context :: "xpc \<Rightarrow> bool" where
  "x_holds_context p \<longleftrightarrow> p \<in> {XHold, XUnlock, XTryUnlock}"

definition x_holds_acquire :: "xpc \<Rightarrow> bool" where
  "x_holds_acquire p \<longleftrightarrow> p \<in> {XNotify, XLeave}"

definition w_holds_context :: "wpc \<Rightarrow> bool" where
  "w_holds_context p \<longleftrightarrow> p \<in> {WBailUnlock, WGot2, WHold}"

definition w_holds_acquire :: "wpc \<Rightarrow> bool" where
  "w_holds_acquire p \<longleftrightarrow> p \<in> {WTest2, WWait, WTest3, WFail, WCtx2, WGot2}"

definition x_counted :: "xpc \<Rightarrow> bool" where
  "x_counted p \<longleftrightarrow> p \<in> {XLock, XHold}"

text \<open>A thread here has still to notify the condition variable.\<close>

definition x_will_notify :: "xpc \<Rightarrow> bool" where
  "x_will_notify p \<longleftrightarrow> p \<in> {XHold, XUnlock, XClear, XTry, XTryUnlock, XAcq, XNotify}"

definition w_may_wait :: "wpc \<Rightarrow> bool" where
  "w_may_wait p \<longleftrightarrow> p \<in> {WLoad True, WFast True, WAcq, WTest2, WWait, WSleep}"

definition ai_locks :: "actor \<Rightarrow> bool" where
  "ai_locks s \<longleftrightarrow>
     (\<forall>x. x_holds_context (ai_xpc s x) \<longleftrightarrow> ai_context s = Some (External_owner x))
     \<and> (w_holds_context (ai_wpc s) \<longleftrightarrow> ai_context s = Some Worker_owner)
     \<and> (\<forall>x. x_holds_acquire (ai_xpc s x) \<longleftrightarrow> ai_acquire s = Some (External_owner x))
     \<and> (w_holds_acquire (ai_wpc s) \<longleftrightarrow> ai_acquire s = Some Worker_owner)"

definition ai_counts :: "actor \<Rightarrow> bool" where
  "ai_counts s \<longleftrightarrow> finite {x. ai_xpc s x \<noteq> XIdle} \<and> ai_external s = card {x. x_counted (ai_xpc s x)}"

definition ai_awake :: "actor \<Rightarrow> bool" where
  "ai_awake s \<longleftrightarrow> (w_may_wait (ai_wpc s) \<longrightarrow> ai_waitMode s)
     \<and> (ai_wpc s \<in> {WWait, WSleep} \<and> ai_changed s \<longrightarrow> (\<exists>x. x_will_notify (ai_xpc s x)))"

definition ai_ok :: "actor \<Rightarrow> bool" where
  "ai_ok s \<longleftrightarrow> ai_locks s \<and> ai_counts s \<and> ai_awake s"

lemmas ai_sets = x_holds_context_def x_holds_acquire_def w_holds_context_def w_holds_acquire_def

lemmas x_steps = x_next_def wakeNoChange_def externalCallRelease_def flagExternalChange_def notify_one_def

lemmas w_steps = w_next_def workerThreadAcquire_def workerThreadRelease_def w_lock_context_def w_lock_acquire_def
  test_and_set_def

definition same_for_others :: "nat \<Rightarrow> owner option \<Rightarrow> owner option \<Rightarrow> bool" where
  "same_for_others x c c' \<longleftrightarrow> (\<forall>k. k \<noteq> External_owner x \<longrightarrow> (c' = Some k \<longleftrightarrow> c = Some k))"

lemma ai_locks_x:
  assumes "ai_locks s" "ai_xpc s' = (ai_xpc s)(x := p)"
    and "w_holds_context (ai_wpc s') = w_holds_context (ai_wpc s)"
    and "w_holds_acquire (ai_wpc s') = w_holds_acquire (ai_wpc s)"
    and "same_for_others x (ai_context s) (ai_context s')" "same_for_others x (ai_acquire s) (ai_acquire s')"
    and "x_holds_context p \<longleftrightarrow> ai_context s' = Some (External_owner x)"
    and "x_holds_acquire p \<longleftrightarrow> ai_acquire s' = Some (External_owner x)"
  shows "ai_locks s'"
  using assms by (simp add: ai_locks_def same_for_others_def)

lemma same_for_others_simps [simp]:
  "same_for_others x c c" "same_for_others x None (Some (External_owner x))"
  "same_for_others x (Some (External_owner x)) None"
  by (simp_all add: same_for_others_def)

lemma x_next_locks:
  assumes "ai_locks s" "x_next x s = Some s'"
  shows "ai_locks s'"
proof -
  have own: "x_holds_context (ai_xpc s x) \<longleftrightarrow> ai_context s = Some (External_owner x)"
    "x_holds_acquire (ai_xpc s x) \<longleftrightarrow> ai_acquire s = Some (External_owner x)"
    using assms(1) by (simp_all add: ai_locks_def)
  show ?thesis
    by (rule ai_locks_x[OF assms(1), of s' x "ai_xpc s' x"])
      (use own assms(2) in \<open>cases "ai_xpc s x"; simp add: x_steps ai_sets split: if_splits; force\<close>)+
qed

definition same_for_externals :: "owner option \<Rightarrow> owner option \<Rightarrow> bool" where
  "same_for_externals c c' \<longleftrightarrow> (\<forall>x. c' = Some (External_owner x) \<longleftrightarrow> c = Some (External_owner x))"

lemma same_for_externals_simps [simp]:
  "same_for_externals c c" "same_for_externals None (Some Worker_owner)" "same_for_externals (Some Worker_owner) None"
  by (simp_all add: same_for_externals_def)

lemma w_next_locks:
  assumes "ai_locks s" "w_next s = Some s'"
  shows "ai_locks s'"
proof -
  have own: "w_holds_context (ai_wpc s) \<longleftrightarrow> ai_context s = Some Worker_owner"
    "w_holds_acquire (ai_wpc s) \<longleftrightarrow> ai_acquire s = Some Worker_owner"
    using assms(1) unfolding ai_locks_def by blast+
  have "ai_xpc s' = ai_xpc s \<and> same_for_externals (ai_context s) (ai_context s') \<and> same_for_externals (ai_acquire s) (ai_acquire s')
    \<and> (w_holds_context (ai_wpc s') \<longleftrightarrow> ai_context s' = Some Worker_owner)
    \<and> (w_holds_acquire (ai_wpc s') \<longleftrightarrow> ai_acquire s' = Some Worker_owner)"
    using own assms(2) by (cases "ai_wpc s"; simp add: w_steps ai_sets split: if_splits; force)
  then show ?thesis using assms(1) unfolding ai_locks_def same_for_externals_def by simp
qed

lemma card_counted:
  assumes "finite {x. f x \<noteq> XIdle}"
  shows "card {y. x_counted ((f(x := p)) y)} + (if x_counted (f x) then 1 else 0)
    = card {y. x_counted (f y)} + (if x_counted p then 1 else (0::nat))"
    and "finite {y. (f(x := p)) y \<noteq> XIdle}"
proof -
  have sub: "{y. x_counted (f y)} \<subseteq> {x. f x \<noteq> XIdle}" by (auto simp: x_counted_def)
  then have fin: "finite {y. x_counted (f y)}" using assms finite_subset by blast
  have eq: "{y. x_counted ((f(x := p)) y)} = (if x_counted p then insert x else (\<lambda>A. A)) ({y. x_counted (f y)} - {x})"
    by auto
  have "card ({y. x_counted (f y)} - {x}) + (if x_counted (f x) then 1 else 0) = card {y. x_counted (f y)}"
    using fin by (auto simp: card_Diff_singleton card_gt_0_iff) (metis Suc_pred card_gt_0_iff empty_iff mem_Collect_eq)
  then show "card {y. x_counted ((f(x := p)) y)} + (if x_counted (f x) then 1 else 0)
    = card {y. x_counted (f y)} + (if x_counted p then 1 else (0::nat))"
    unfolding eq using fin by (auto simp: card_insert_if)
  have "{y. (f(x := p)) y \<noteq> XIdle} \<subseteq> insert x {x. f x \<noteq> XIdle}" by auto
  then show "finite {y. (f(x := p)) y \<noteq> XIdle}" using assms finite_subset by blast
qed

lemma x_goto_counts:
  assumes "ai_counts s"
    and "n + (if x_counted (ai_xpc s x) then 1 else 0) = ai_external s + (if x_counted p then 1 else 0)"
  shows "ai_counts (s\<lparr>ai_external := n, ai_xpc := (ai_xpc s)(x := p)\<rparr>)"
  using card_counted[of "ai_xpc s" x p] assms by (auto simp: ai_counts_def split: if_splits)

lemma ai_counts_only:
  "ai_counts s' \<longleftrightarrow> ai_counts s" if "ai_xpc s' = ai_xpc s" "ai_external s' = ai_external s"
  using that by (simp add: ai_counts_def)

lemma ai_external_pos:
  assumes "ai_counts s" "x_counted (ai_xpc s x)" shows "0 < ai_external s"
proof -
  have "{y. x_counted (ai_xpc s y)} \<subseteq> {x. ai_xpc s x \<noteq> XIdle}" by (auto simp: x_counted_def)
  then have "finite {y. x_counted (ai_xpc s y)}" using assms(1) finite_subset by (auto simp: ai_counts_def)
  then show ?thesis using assms by (auto simp: ai_counts_def card_gt_0_iff)
qed

lemma x_next_pc:
  assumes "x_next x s = Some s'"
  shows "\<exists>p. ai_xpc s' = (ai_xpc s)(x := p) \<and> (ai_xpc s x \<noteq> XHold \<longrightarrow> ai_external s' = ai_external s \<and> x_counted p = x_counted (ai_xpc s x))
    \<and> (ai_xpc s x = XHold \<longrightarrow> ai_external s' = ai_external s - 1 \<and> \<not> x_counted p)"
  using assms by (cases "ai_xpc s x") (auto simp: x_steps x_counted_def split: if_splits)

lemma x_next_counts:
  assumes "ai_counts s" "x_next x s = Some s'"
  shows "ai_counts s'"
proof -
  obtain p where p: "ai_xpc s' = (ai_xpc s)(x := p)"
    "ai_xpc s x \<noteq> XHold \<longrightarrow> ai_external s' = ai_external s \<and> x_counted p = x_counted (ai_xpc s x)"
    "ai_xpc s x = XHold \<longrightarrow> ai_external s' = ai_external s - 1 \<and> \<not> x_counted p"
    using x_next_pc[OF assms(2)] by blast
  have "ai_counts (s\<lparr>ai_external := ai_external s', ai_xpc := (ai_xpc s)(x := p)\<rparr>)"
  proof (rule x_goto_counts[OF assms(1)])
    show "ai_external s' + (if x_counted (ai_xpc s x) then 1 else 0) = ai_external s + (if x_counted p then 1 else 0)"
      using p(2,3) ai_external_pos[OF assms(1), of x] by (cases "ai_xpc s x = XHold") (auto simp: x_counted_def)
  qed
  then show ?thesis by (rule ai_counts_only[THEN iffD1, rotated 2]) (simp_all add: p(1))
qed

lemma w_next_x: "w_next s = Some s' \<Longrightarrow> ai_xpc s' = ai_xpc s \<and> ai_external s' = ai_external s \<and> ai_waitMode s' = ai_waitMode s"
  by (cases "ai_wpc s") (auto simp: w_steps split: if_splits)

lemma w_next_counts: "ai_counts s \<Longrightarrow> w_next s = Some s' \<Longrightarrow> ai_counts s'"
  using w_next_x[of s s'] by (simp add: ai_counts_def)

lemma w_next_awake:
  assumes "ai_awake s" "w_next s = Some s'"
  shows "ai_awake s'"
  using assms by (cases "ai_wpc s") (auto simp: w_steps ai_awake_def w_may_wait_def split: if_splits)

lemma x_next_wpc:
  assumes "x_next x s = Some s'"
  shows "ai_waitMode s' = ai_waitMode s \<and> (ai_changed s \<longrightarrow> ai_changed s')
    \<and> ai_wpc s' = (if ai_xpc s x = XNotify \<and> ai_wpc s = WSleep then WWoken else ai_wpc s)"
  using assms by (cases "ai_xpc s x") (auto simp: x_steps split: if_splits)

text \<open>A caller that still has to notify goes on to notify, or leaves the duty to the owner of the context.\<close>

lemma x_next_keeps_duty:
  assumes ok: "ai_locks s" "ai_awake s" and step: "x_next x s = Some s'"
    and wait: "ai_wpc s' \<in> {WWait, WSleep}" "ai_waitMode s" and duty: "x_will_notify (ai_xpc s y)"
  shows "\<exists>z. x_will_notify (ai_xpc s' z)"
proof (cases "y = x")
  case False
  then show ?thesis using duty x_next_pc[OF step] by (auto intro!: exI[of _ y])
next
  case True
  have w: "ai_wpc s = ai_wpc s'" "ai_xpc s x = XNotify \<longrightarrow> ai_wpc s \<noteq> WSleep"
    using x_next_wpc[OF step] wait(1) by (auto split: if_splits)
  show ?thesis
  proof (cases "ai_xpc s x = XTry \<and> ai_context s \<noteq> None")
    case True
    then obtain z where "ai_context s = Some (External_owner z)"
      using ok(1) wait(1) w(1) by (cases "the (ai_context s)") (auto simp: ai_locks_def w_holds_context_def)
    then have z: "x_holds_context (ai_xpc s z)" using ok(1) by (simp add: ai_locks_def)
    then have "z \<noteq> x" using True by (auto simp: x_holds_context_def)
    then show ?thesis using z x_next_pc[OF step]
      by (auto intro!: exI[of _ z] simp: x_holds_context_def x_will_notify_def)
  next
    case other: False
    have "ai_xpc s x \<noteq> XNotify"
    proof
      assume n: "ai_xpc s x = XNotify"
      then have "ai_wpc s = WWait" using w wait(1) by auto
      then have "ai_acquire s = Some Worker_owner" using ok(1) by (simp add: ai_locks_def w_holds_acquire_def)
      moreover have "x_holds_acquire (ai_xpc s x)" by (simp add: n x_holds_acquire_def)
      then have "ai_acquire s = Some (External_owner x)" using ok(1) by (simp add: ai_locks_def)
      ultimately show False by simp
    qed
    then show ?thesis using step duty True other wait(2)
      by (intro exI[of _ x], cases "ai_xpc s x") (auto simp: x_steps x_will_notify_def split: if_splits)
  qed
qed

lemma x_next_flags:
  assumes "x_next x s = Some s'" "ai_changed s'" "\<not> ai_changed s" "ai_waitMode s"
  shows "x_will_notify (ai_xpc s' x)"
  using assms by (cases "ai_xpc s x") (auto simp: x_steps x_will_notify_def split: if_splits)

lemma x_next_awake:
  assumes "ai_locks s" "ai_awake s" "x_next x s = Some s'"
  shows "ai_awake s'"
proof -
  have w: "ai_waitMode s' = ai_waitMode s"
    "ai_wpc s' = (if ai_xpc s x = XNotify \<and> ai_wpc s = WSleep then WWoken else ai_wpc s)"
    using x_next_wpc[OF assms(3)] by auto
  have mode: "w_may_wait (ai_wpc s') \<longrightarrow> ai_waitMode s"
    using w(2) assms(2) by (auto simp: ai_awake_def w_may_wait_def split: if_splits)
  have "\<exists>z. x_will_notify (ai_xpc s' z)" if p: "ai_wpc s' \<in> {WWait, WSleep}" and c: "ai_changed s'"
  proof -
    have m: "ai_waitMode s" using mode p by (auto simp: w_may_wait_def)
    have p': "ai_wpc s \<in> {WWait, WSleep}" using p w(2) by (auto split: if_splits)
    show ?thesis
    proof (cases "ai_changed s")
      case True
      then obtain y where "x_will_notify (ai_xpc s y)" using assms(2) p' by (auto simp: ai_awake_def)
      then show ?thesis using x_next_keeps_duty[OF assms p m] by blast
    next
      case False
      then show ?thesis using x_next_flags[OF assms(3) c _ m] by blast
    qed
  qed
  then show ?thesis using mode w(1) by (simp add: ai_awake_def)
qed

lemma ai_go_ok: "ai_go s s' \<Longrightarrow> ai_ok s \<Longrightarrow> ai_ok s'"
proof (erule ai_goE)
  fix x assume "ai_ok s" "x_next x s = Some s'"
  then show "ai_ok s'" using x_next_locks x_next_counts x_next_awake unfolding ai_ok_def by blast
next
  assume "ai_ok s" "w_next s = Some s'"
  then show "ai_ok s'" using w_next_locks w_next_counts w_next_awake unfolding ai_ok_def by blast
qed

lemma ai_cont_ok: "ai_cont s s' \<Longrightarrow> ai_ok s \<Longrightarrow> ai_ok s'"
proof (erule ai_contE)
  assume "ai_ok s" "s' = w_goto WWoken s" "ai_wpc s = WSleep"
  then show "ai_ok s'"
    by (simp add: ai_ok_def ai_locks_def ai_counts_def ai_awake_def ai_sets w_may_wait_def)
qed (simp add: ai_go_ok)

lemma goto_start_locks:
  "ai_locks s \<Longrightarrow> ai_xpc s x = XIdle \<Longrightarrow> p \<in> {XLock, XClear, XTry} \<Longrightarrow> ai_locks (x_goto x p (s\<lparr>ai_external := n\<rparr>))"
proof -
  assume l: "ai_locks s" and i: "ai_xpc s x = XIdle" and p: "p \<in> {XLock, XClear, XTry}"
  have "x_holds_context (ai_xpc s x) \<longleftrightarrow> ai_context s = Some (External_owner x)"
    "x_holds_acquire (ai_xpc s x) \<longleftrightarrow> ai_acquire s = Some (External_owner x)"
    using l by (simp_all add: ai_locks_def)
  then show "ai_locks (x_goto x p (s\<lparr>ai_external := n\<rparr>))"
    using i p by (intro ai_locks_x[OF l, of _ x p]) (auto simp: x_holds_context_def x_holds_acquire_def)
qed

lemma goto_start_awake:
  assumes "ai_awake s" "ai_xpc s x = XIdle"
  shows "ai_awake (x_goto x p (s\<lparr>ai_external := n\<rparr>))"
proof -
  have "\<exists>z. x_will_notify (((ai_xpc s)(x := p)) z)" if "x_will_notify (ai_xpc s y)" for y
    using that assms(2) by (intro exI[of _ y]) (auto simp: x_will_notify_def)
  then show ?thesis using assms(1) unfolding ai_awake_def by (simp split del: if_split) blast
qed

lemma ai_start_ok: "ai_start s s' \<Longrightarrow> ai_ok s \<Longrightarrow> ai_ok s'"
proof (erule ai_startE)
  fix x assume ok: "ai_ok s" and i: "ai_xpc s x = XIdle" and s': "s' = externalCallAcquire x s"
  have "ai_counts (s\<lparr>ai_external := ai_external s + 1, ai_xpc := (ai_xpc s)(x := XLock)\<rparr>)"
    using ok i by (intro x_goto_counts) (auto simp: ai_ok_def x_counted_def)
  then show "ai_ok s'" using ok goto_start_locks[OF _ i, of XLock] goto_start_awake[OF _ i]
    by (simp add: ai_ok_def s' externalCallAcquire_def)
next
  fix x assume ok: "ai_ok s" and i: "ai_xpc s x = XIdle" and s': "s' = x_goto x XClear s"
  have "ai_counts (s\<lparr>ai_external := ai_external s, ai_xpc := (ai_xpc s)(x := XClear)\<rparr>)"
    using ok i by (intro x_goto_counts) (auto simp: ai_ok_def x_counted_def)
  then show "ai_ok s'"
    using ok goto_start_locks[OF _ i, of XClear "ai_external s"] goto_start_awake[OF _ i, where p=XClear and n="ai_external s"]
    by (simp add: ai_ok_def s')
next
  fix x assume ok: "ai_ok s" and i: "ai_xpc s x = XIdle" and s': "s' = x_goto x XTry s"
  have "ai_counts (s\<lparr>ai_external := ai_external s, ai_xpc := (ai_xpc s)(x := XTry)\<rparr>)"
    using ok i by (intro x_goto_counts) (auto simp: ai_ok_def x_counted_def)
  then show "ai_ok s'"
    using ok goto_start_locks[OF _ i, of XTry "ai_external s"] goto_start_awake[OF _ i, where p=XTry and n="ai_external s"]
    by (simp add: ai_ok_def s')
next
  fix b assume "ai_ok s" "s' = w_goto (WLoad b) s" "ai_wpc s = WIdle" "b \<longrightarrow> ai_waitMode s"
  then show "ai_ok s'"
    by (auto simp: ai_ok_def ai_locks_def ai_counts_def ai_awake_def ai_sets w_may_wait_def)
next
  assume "ai_ok s" "s' = flagInternalChange s" "ai_wpc s = WHold"
  then show "ai_ok s'"
    by (auto simp: ai_ok_def ai_locks_def ai_counts_def ai_awake_def ai_sets w_may_wait_def flagInternalChange_def)
next
  fix x assume "ai_ok s" "s' = flagInternalChange s" "ai_xpc s x = XHold"
  then show "ai_ok s'"
    by (auto simp: ai_ok_def ai_locks_def ai_counts_def ai_awake_def flagInternalChange_def x_will_notify_def
        intro!: exI[of _ x])
qed

lemma ai_new_ok: "ai_ok (ai_new m)"
  by (simp add: ai_new_def ai_ok_def ai_locks_def ai_counts_def ai_awake_def ai_sets x_counted_def w_may_wait_def)

lemma ai_reach_ok: "ai_reach s \<Longrightarrow> ai_ok s"
  by (induction rule: ai_reach.induct) (auto intro: ai_new_ok ai_cont_ok ai_start_ok)

section \<open>Exclusive access\<close>

text \<open>C4: in every reachable state at most one thread is inside the actor: no two external callers hold it
  at once, none holds it while the worker runs its task; and the count of external callers is the number
  of callers between \<open>externalCallAcquire\<close> and \<open>externalCallRelease\<close>, so that it is zero when there is none.\<close>
theorem ai_exclusive:
  assumes "ai_reach s"
  shows "(ai_xpc s x = XHold \<and> ai_xpc s y = XHold \<longrightarrow> x = y)
    \<and> (ai_wpc s = WHold \<longrightarrow> ai_xpc s x \<noteq> XHold)
    \<and> ai_external s = card {z. ai_xpc s z \<in> {XLock, XHold}}"
proof -
  have ok: "ai_locks s" "ai_counts s" using ai_reach_ok[OF assms] by (simp_all add: ai_ok_def)
  have own: "ai_xpc s z = XHold \<longrightarrow> ai_context s = Some (External_owner z)" for z
    using ok(1) by (auto simp: ai_locks_def x_holds_context_def)
  note own[of x] own[of y]
  moreover have "ai_wpc s = WHold \<longrightarrow> ai_context s = Some Worker_owner"
    using ok(1) by (auto simp: ai_locks_def w_holds_context_def)
  moreover have "{z. ai_xpc s z = XLock \<or> ai_xpc s z = XHold} = {z. x_counted (ai_xpc s z)}"
    by (auto simp: x_counted_def)
  ultimately show ?thesis using ok(2) by (auto simp: ai_counts_def)
qed

section \<open>No change is lost\<close>

text \<open>Ranks of the program counters: the actions that a call has left.\<close>

primrec x_rank :: "xpc \<Rightarrow> nat" where
  "x_rank XIdle = 0" | "x_rank XLeave = 1" | "x_rank XNotify = 2" | "x_rank XAcq = 3" | "x_rank XTryUnlock = 4"
| "x_rank XTry = 5" | "x_rank XClear = 6" | "x_rank XUnlock = 7" | "x_rank XHold = 8" | "x_rank XLock = 9"

primrec w_rank :: "wpc \<Rightarrow> nat" where
  "w_rank WIdle = 0" | "w_rank WHold = 0" | "w_rank WGot2 = 1" | "w_rank WCtx = 1" | "w_rank WCtx2 = 2"
| "w_rank WTest3 = 3" | "w_rank WWoken = 4" | "w_rank WSleep = 5" | "w_rank WWait = 6" | "w_rank WTest2 = 7"
| "w_rank WAcq = 8" | "w_rank (WFast b) = 9" | "w_rank (WLoad b) = 10" | "w_rank WBail = 2" | "w_rank WBailUnlock = 1"
| "w_rank WFail = 1"

definition ai_rank :: "actor \<Rightarrow> nat" where
  "ai_rank s = (\<Sum>x \<in> {x. ai_xpc s x \<noteq> XIdle}. x_rank (ai_xpc s x)) + w_rank (ai_wpc s)"

text \<open>The worker is past its look at the external callers, and a change is flagged or already taken.\<close>

definition ai_due :: "actor \<Rightarrow> bool" where
  "ai_due s \<longleftrightarrow> (ai_changed s \<and> ai_wpc s \<in> {WFast True, WFast False, WAcq, WTest2, WWait, WSleep, WWoken, WTest3})
     \<or> ai_wpc s \<in> {WCtx, WCtx2, WGot2, WHold}"

lemma x_rank_sum:
  assumes "finite {x. f x \<noteq> XIdle}" "x_rank p < x_rank (f x)"
  shows "(\<Sum>y \<in> {y. (f(x := p)) y \<noteq> XIdle}. x_rank ((f(x := p)) y)) < (\<Sum>y \<in> {y. f y \<noteq> XIdle}. x_rank (f y))"
proof -
  let ?A = "{y. f y \<noteq> XIdle}" and ?g = "f(x := p)"
  have x: "x \<in> ?A" using assms(2) by auto
  have "(\<Sum>y \<in> {y. ?g y \<noteq> XIdle}. x_rank (?g y)) = (\<Sum>y \<in> ?A. x_rank (?g y))"
    using assms(1) x by (intro sum.mono_neutral_left) (auto split: if_splits)
  also have "\<dots> < (\<Sum>y \<in> ?A. x_rank (f y))"
    using assms x by (intro sum_strict_mono_ex1) auto
  finally show ?thesis .
qed

lemma x_next_rank:
  assumes "x_next x s = Some s'" "ai_counts s"
  shows "ai_rank s' < ai_rank s"
proof -
  obtain p where p: "ai_xpc s' = (ai_xpc s)(x := p)" using x_next_pc[OF assms(1)] by blast
  then have pc: "p = ai_xpc s' x" by simp
  have "x_rank p < x_rank (ai_xpc s x)"
    unfolding pc using assms(1) by (cases "ai_xpc s x") (auto simp: x_steps split: if_splits)
  moreover have "w_rank (ai_wpc s') \<le> w_rank (ai_wpc s)" using x_next_wpc[OF assms(1)] by auto
  ultimately show ?thesis
    using x_rank_sum[of "ai_xpc s" p x] assms(2) unfolding ai_rank_def p ai_counts_def by linarith
qed

lemma w_next_rank:
  assumes "w_next s = Some s'" "ai_due s" "ai_wpc s \<noteq> WHold"
  shows "ai_rank s' < ai_rank s" "ai_due s'"
  using assms by (cases "ai_wpc s"; simp add: w_steps ai_due_def ai_rank_def split: if_splits; force)+

lemma x_next_due: "x_next x s = Some s' \<Longrightarrow> ai_due s \<Longrightarrow> ai_due s'"
  using x_next_wpc[of x s s'] by (auto simp: ai_due_def split: if_splits)

lemma blocked_externals:
  assumes "ai_locks s" "\<And>x. x_next x s = None"
  shows "ai_context s = None \<or> ai_context s = Some Worker_owner"
    and "ai_acquire s = None \<or> ai_acquire s = Some Worker_owner"
proof -
  have "\<not> x_holds_context (ai_xpc s x)" "\<not> x_holds_acquire (ai_xpc s x)" for x
    using assms(2)[of x] by (cases "ai_xpc s x"; simp add: x_steps ai_sets split: if_splits)+
  then have "ai_context s \<noteq> Some (External_owner x)" "ai_acquire s \<noteq> Some (External_owner x)" for x
    using assms(1) unfolding ai_locks_def by metis+
  then show "ai_context s = None \<or> ai_context s = Some Worker_owner"
    "ai_acquire s = None \<or> ai_acquire s = Some Worker_owner"
    by (metis owner.exhaust option.exhaust)+
qed

lemma ai_due_goes:
  assumes ok: "ai_ok s" and due: "ai_due s"
  shows "\<exists>s'. ai_go s s'"
proof (cases "\<exists>x. x_next x s \<noteq> None")
  case True
  then show ?thesis by (auto intro: go_x)
next
  case False
  then have none: "\<And>x. x_next x s = None" by auto
  have locks: "ai_locks s" using ok by (simp add: ai_ok_def)
  note free = blocked_externals[OF locks none]
  have w: "w_holds_context (ai_wpc s) \<longleftrightarrow> ai_context s = Some Worker_owner"
    "w_holds_acquire (ai_wpc s) \<longleftrightarrow> ai_acquire s = Some Worker_owner"
    using locks by (simp_all add: ai_locks_def)
  have "ai_wpc s \<noteq> WSleep"
  proof
    assume sl: "ai_wpc s = WSleep"
    then have f: "ai_context s = None" "ai_acquire s = None"
      using free w by (auto simp: w_holds_context_def w_holds_acquire_def)
    obtain x where "x_will_notify (ai_xpc s x)"
      using ok due sl by (auto simp: ai_ok_def ai_awake_def ai_due_def)
    then show False using none[of x] f
      by (cases "ai_xpc s x") (auto simp: x_steps x_will_notify_def split: if_splits)
  qed
  then have "w_next s \<noteq> None" using due free w
    by (cases "ai_wpc s") (auto simp: w_steps ai_due_def w_holds_context_def w_holds_acquire_def)
  then show ?thesis by (auto intro: go_w)
qed

lemma ai_due_inevitable:
  "ai_ok s \<Longrightarrow> ai_due s \<Longrightarrow> ai_inevitably (\<lambda>s. ai_wpc s = WHold) s"
proof (induction "ai_rank s" arbitrary: s rule: less_induct)
  case less
  show ?case
  proof (cases "ai_wpc s = WHold")
    case False
    obtain s1 where "ai_go s s1" using ai_due_goes[OF less.prems] by blast
    then show ?thesis
    proof (rule inev_later)
      fix s' assume c: "ai_cont s s'"
      have "ai_rank s' < ai_rank s \<and> ai_due s'" using c
      proof (rule ai_contE)
        assume "ai_go s s'"
        then show ?thesis using less.prems False x_next_rank x_next_due w_next_rank
          unfolding ai_go_iff ai_ok_def by blast
      next
        assume "s' = w_goto WWoken s" "ai_wpc s = WSleep"
        then show ?thesis using less.prems by (simp add: ai_rank_def ai_due_def)
      qed
      then show "ai_inevitably (\<lambda>s. ai_wpc s = WHold) s'" using less.hyps ai_cont_ok[OF c less.prems(1)] by blast
    qed
  qed (rule inev_now)
qed

text \<open>C2: a flagged change is never lost. When a change is flagged (from inside or outside) and the worker is past
  its look at the external callers - even asleep on the condition variable - then in every run of the calls
  in progress, with no further call and no spurious wake-up to help, the worker comes to own the context
  and to run its task.\<close>
theorem ai_change_handled:
  assumes "ai_reach s" "ai_changed s"
    and "ai_wpc s \<in> {WFast True, WFast False, WAcq, WTest2, WWait, WSleep, WWoken, WTest3}"
  shows "ai_inevitably (\<lambda>t. ai_wpc t = WHold) s"
  using assms by (intro ai_due_inevitable ai_reach_ok) (auto simp: ai_due_def)

text \<open>A worker that fell asleep, and an external thread that has just flagged a change.\<close>

definition ai_demo :: actor where
  "ai_demo = (ai_new True)\<lparr>ai_wpc := WSleep, ai_changed := True, ai_xpc := (\<lambda>_. XIdle)(7 := XTry)\<rparr>"

lemma ai_demo_reach: "ai_reach ai_demo"
proof -
  let ?w = "\<lambda>p. w_goto p (ai_new True)"
  have "ai_reach (?w (WLoad True))" by (rule reach_start[OF reach_new start_worker]) (simp_all add: ai_new_def)
  then have "ai_reach (?w (WFast True))"
    by (rule reach_cont) (rule cont_go, rule go_w, simp add: w_steps ai_new_def)
  then have "ai_reach (?w WAcq)" by (rule reach_cont) (rule cont_go, rule go_w, simp add: w_steps ai_new_def)
  then have "ai_reach (?w WTest2\<lparr>ai_acquire := Some Worker_owner\<rparr>)"
    by (rule reach_cont) (rule cont_go, rule go_w, simp add: w_steps ai_new_def)
  then have "ai_reach (?w WWait\<lparr>ai_acquire := Some Worker_owner\<rparr>)"
    by (rule reach_cont) (rule cont_go, rule go_w, simp add: w_steps ai_new_def)
  then have "ai_reach (?w WSleep)" by (rule reach_cont) (rule cont_go, rule go_w, simp add: w_steps ai_new_def)
  then have "ai_reach (x_goto 7 XClear (?w WSleep))" by (rule reach_start) (rule start_flag, simp add: ai_new_def)
  then show ?thesis
    by (rule reach_cont) (rule cont_go, rule go_x[of 7], simp add: x_steps ai_new_def ai_demo_def)
qed

theorem ai_exclusive_witness: "ai_external ai_demo = card {z. ai_xpc ai_demo z \<in> {XLock, XHold}}"
  using ai_exclusive[OF ai_demo_reach] by blast

theorem ai_change_handled_witness: "ai_inevitably (\<lambda>t. ai_wpc t = WHold) ai_demo"
  by (rule ai_change_handled[OF ai_demo_reach]) (simp_all add: ai_demo_def)

end
