(* ===== verification/BufferConvert.thy ===== *)
theory BufferConvert
  imports BufferChunk
begin

text \<open>
  The conversion of buffers between element types (lib/Framework/BufferConvert.cpp of pothos-library).
  Elements lie in memory as the host keeps them: little-endian two's complement integers, a complex
  number as its real and then its imaginary part. A cast between integer types takes the value
  modulo the size of the target. A cast from or to a floating point type is done by the floating point
  unit of the platform, the parameter \<open>fpu\<close> (source type, target type, bytes of the value).
\<close>

unbundle bit_operations_syntax

section \<open>Elements in memory\<close>

fun le_nat :: "byte list \<Rightarrow> nat" where
  "le_nat [] = 0"
| "le_nat (b # bs) = unat b + 256 * le_nat bs"

fun le_bytes :: "nat \<Rightarrow> nat \<Rightarrow> byte list" where
  "le_bytes 0 v = []"
| "le_bytes (Suc n) v = word_of_nat v # le_bytes n (v div 256)"

definition int_value :: "cprim \<Rightarrow> byte list \<Rightarrow> int" where
  "int_value T bs =
     (if prim_isUnsigned T \<or> 2 * le_nat bs < 256 ^ prim_sizeof T then int (le_nat bs)
      else int (le_nat bs) - 256 ^ prim_sizeof T)"

definition int_bytes :: "cprim \<Rightarrow> int \<Rightarrow> byte list" where
  "int_bytes T v = le_bytes (prim_sizeof T) (nat (v mod 256 ^ prim_sizeof T))"

type_synonym fpu = "cprim \<Rightarrow> cprim \<Rightarrow> byte list \<Rightarrow> byte list"

text \<open>The cast \<open>OutType(x)\<close>.\<close>

definition prim_cast :: "fpu \<Rightarrow> cprim \<Rightarrow> cprim \<Rightarrow> byte list \<Rightarrow> byte list" where
  "prim_cast fpu InType OutType bs =
     (if prim_isFloat InType \<or> prim_isFloat OutType then fpu InType OutType bs
      else int_bytes OutType (int_value InType bs))"

section \<open>The conversion loops\<close>

text \<open>Element \<open>i\<close> of an array of \<open>T\<close> at an address.\<close>

definition get_elem :: "nat \<Rightarrow> usize \<Rightarrow> nat \<Rightarrow> memory \<Rightarrow> byte list" where
  "get_elem sz a i m = mem_bytes m (a + i * sz) sz"

definition put_elem :: "nat \<Rightarrow> usize \<Rightarrow> nat \<Rightarrow> byte list \<Rightarrow> memory \<Rightarrow> memory" where
  "put_elem sz a i bs = mem_write (a + i * sz) bs"

definition rawConvert :: "fpu \<Rightarrow> cprim \<Rightarrow> cprim \<Rightarrow> usize \<Rightarrow> usize \<Rightarrow> nat \<Rightarrow> memory \<Rightarrow> memory" where
  "rawConvert fpu InType OutType inA outA num m =
     fold (\<lambda>i m. put_elem (prim_sizeof OutType) outA i
                   (prim_cast fpu InType OutType (get_elem (prim_sizeof InType) inA i m)) m) [0..<num] m"

text \<open>The imaginary part is value-initialized: zero, whose bytes are zero for every type.\<close>

definition rawConvertRealToComplex :: "fpu \<Rightarrow> cprim \<Rightarrow> cprim \<Rightarrow> usize \<Rightarrow> usize \<Rightarrow> nat \<Rightarrow> memory \<Rightarrow> memory" where
  "rawConvertRealToComplex fpu InType OutType inA outA num m =
     fold (\<lambda>i m. put_elem (2 * prim_sizeof OutType) outA i
                   (prim_cast fpu InType OutType (get_elem (prim_sizeof InType) inA i m)
                    @ replicate (prim_sizeof OutType) 0) m) [0..<num] m"

definition c_real :: "cprim \<Rightarrow> byte list \<Rightarrow> byte list" where
  "c_real T bs = take (prim_sizeof T) bs"

definition c_imag :: "cprim \<Rightarrow> byte list \<Rightarrow> byte list" where
  "c_imag T bs = drop (prim_sizeof T) bs"

definition rawConvertComplex :: "fpu \<Rightarrow> cprim \<Rightarrow> cprim \<Rightarrow> usize \<Rightarrow> usize \<Rightarrow> nat \<Rightarrow> memory \<Rightarrow> memory" where
  "rawConvertComplex fpu InType OutType inA outA num m =
     fold (\<lambda>i m. let x = get_elem (2 * prim_sizeof InType) inA i m in
                 put_elem (2 * prim_sizeof OutType) outA i
                   (prim_cast fpu InType OutType (c_real InType x) @ prim_cast fpu InType OutType (c_imag InType x)) m)
       [0..<num] m"

definition rawConvertComponents ::
  "fpu \<Rightarrow> cprim \<Rightarrow> cprim \<Rightarrow> usize \<Rightarrow> usize \<Rightarrow> usize \<Rightarrow> nat \<Rightarrow> memory \<Rightarrow> memory" where
  "rawConvertComponents fpu InType OutType inA outRe outIm num m =
     fold (\<lambda>i m.
         let m = put_elem (prim_sizeof OutType) outRe i
                   (prim_cast fpu InType OutType (c_real InType (get_elem (2 * prim_sizeof InType) inA i m))) m in
         put_elem (prim_sizeof OutType) outIm i
           (prim_cast fpu InType OutType (c_imag InType (get_elem (2 * prim_sizeof InType) inA i m))) m)
       [0..<num] m"

section \<open>The tables of converters\<close>

text \<open>The element type of \<open>DType(typeid(T))\<close>, by the table of the element types.\<close>

definition typeid_code :: "ctype \<Rightarrow> nat" where
  "typeid_code T = (case smap_find T em_type_codes of Some c \<Rightarrow> c | None \<Rightarrow> 0)"

definition dtypeIOToHash :: "nat \<Rightarrow> nat \<Rightarrow> nat" where
  "dtypeIOToHash inElemType outElemType = inElemType OR push_bit 16 outElemType"

datatype converter = RawConvert cprim cprim | RealToComplex cprim cprim | ComplexToComplex cprim cprim

record convert_impl =
  convertMap :: "(nat \<times> converter) list"
  convertComplexMap :: "(nat \<times> cprim \<times> cprim) list"

definition registerConverter :: "cprim \<Rightarrow> cprim \<Rightarrow> convert_impl \<Rightarrow> convert_impl" where
  "registerConverter InType OutType c =
     c\<lparr>convertMap :=
         (dtypeIOToHash (typeid_code (Cplx InType)) (typeid_code (Cplx OutType)), ComplexToComplex InType OutType)
         # (dtypeIOToHash (typeid_code (Prim InType)) (typeid_code (Cplx OutType)), RealToComplex InType OutType)
         # (dtypeIOToHash (typeid_code (Prim InType)) (typeid_code (Prim OutType)), RawConvert InType OutType)
         # convertMap c,
       convertComplexMap :=
         (dtypeIOToHash (typeid_code (Cplx InType)) (typeid_code (Prim OutType)), (InType, OutType))
         # convertComplexMap c\<rparr>"

text \<open>\<open>int8_t\<close> to \<open>int64_t\<close> with their unsigned types, \<open>float\<close> and \<open>double\<close>.\<close>

definition convert_types :: "cprim list" where
  "convert_types = [SChar_t, UChar_t, Short_t, UShort_t, Int_t, UInt_t, Long_t, ULong_t, Float_t, Double_t]"

definition registerConverters :: convert_impl where
  "registerConverters =
     fold (\<lambda>InType. fold (registerConverter InType) convert_types) convert_types
       \<lparr>convertMap = [], convertComplexMap = []\<rparr>"

fun run_converter :: "fpu \<Rightarrow> converter \<Rightarrow> usize \<Rightarrow> usize \<Rightarrow> nat \<Rightarrow> memory \<Rightarrow> memory" where
  "run_converter fpu (RawConvert i q) = rawConvert fpu i q"
| "run_converter fpu (RealToComplex i q) = rawConvertRealToComplex fpu i q"
| "run_converter fpu (ComplexToComplex i q) = rawConvertComplex fpu i q"

section \<open>Conversion of a chunk\<close>

definition conv_primElems :: "buffer_chunk \<Rightarrow> usize \<Rightarrow> nat" where
  "conv_primElems this numElems =
     mul64 (if numElems = 0 then bc_elements this else numElems) (dt_size (bc_dtype this)) div dt_elemSize (bc_dtype this)"

definition conv_outElems :: "dtype \<Rightarrow> nat \<Rightarrow> nat" where
  "conv_outElems outDType primElems = mul64 primElems (dt_size outDType) div dt_elemSize outDType"

definition same_elements :: "dtype \<Rightarrow> dtype \<Rightarrow> bool" where
  "same_elements outDType dt \<longleftrightarrow> dt_elemType outDType = dt_elemType dt
     \<or> (dt_elemSize outDType = dt_elemSize dt \<and> dt_isInteger outDType = dt_isInteger dt
        \<and> dt_isComplex outDType = dt_isComplex dt)"

definition bc_convert :: "(usize \<Rightarrow> shared_buffer) \<Rightarrow> fpu \<Rightarrow> dtype \<Rightarrow> usize \<Rightarrow> buffer_chunk \<Rightarrow> memory
    \<Rightarrow> (buffer_chunk \<times> memory) result" where
  "bc_convert mk fpu outDType numElems this m =
     (let primElems = conv_primElems this numElems;
          outElems = conv_outElems outDType primElems
      in if same_elements outDType (bc_dtype this)
         then Inr (this\<lparr>bc_dtype := outDType, bc_length := mul64 (dt_size outDType) outElems\<rparr>, m)
         else case smap_find (dtypeIOToHash (dt_elemType (bc_dtype this)) (dt_elemType outDType))
                     (convertMap registerConverters) of
           None \<Rightarrow> Inl BufferConvertError
         | Some conv \<Rightarrow>
             let out = bc_of_dtype mk outDType outElems
             in Inr (out, run_converter fpu conv (bc_address this) (bc_address out) primElems m))"

text \<open>\<open>mkRe\<close> and \<open>mkIm\<close> are the allocations of the two results.\<close>

definition bc_convertComplex ::
  "(usize \<Rightarrow> shared_buffer) \<Rightarrow> (usize \<Rightarrow> shared_buffer) \<Rightarrow> fpu \<Rightarrow> dtype \<Rightarrow> usize \<Rightarrow> buffer_chunk \<Rightarrow> memory
    \<Rightarrow> (buffer_chunk \<times> buffer_chunk \<times> memory) result" where
  "bc_convertComplex mkRe mkIm fpu outDType numElems this m =
     (let primElems = conv_primElems this numElems;
          outElems = conv_outElems outDType primElems
      in case smap_find (dtypeIOToHash (dt_elemType (bc_dtype this)) (dt_elemType outDType))
                (convertComplexMap registerConverters) of
           None \<Rightarrow> Inl BufferConvertError
         | Some (InType, OutType) \<Rightarrow>
             let outRe = bc_of_dtype mkRe outDType outElems;
                 outIm = bc_of_dtype mkIm outDType outElems
             in Inr (outRe, outIm,
                  rawConvertComponents fpu InType OutType (bc_address this) (bc_address outRe) (bc_address outIm) primElems m))"

section \<open>Integers\<close>

lemma length_le_bytes [simp]: "length (le_bytes n v) = n"
  by (induction n arbitrary: v) auto

lemma unat_byte_lt: "unat (b :: byte) < 256"
  using unsigned_less[of b, where ?'a = nat] by simp

lemma le_bytes_numeral [simp]: "le_bytes (numeral k) v = word_of_nat v # le_bytes (pred_numeral k) (v div 256)"
  by (simp only: numeral_eq_Suc[of k] le_bytes.simps)

lemma le_nat_bytes: "le_nat (le_bytes n v) = v mod 256 ^ n"
proof (induction n arbitrary: v)
  case (Suc n)
  have "unat (word_of_nat v :: byte) = v mod 256" by (simp add: unat_of_nat)
  then show ?case using Suc by (simp add: mod_mult2_eq)
qed simp

lemma le_bytes_nat: "le_bytes (length bs) (le_nat bs) = bs"
proof (induction bs)
  case (Cons b bs)
  have "unat b < 256" by (rule unat_byte_lt)
  then have "(unat b + 256 * le_nat bs) div 256 = le_nat bs" by simp
  moreover have "word_of_nat (unat b + 256 * le_nat bs) = b"
    using \<open>unat b < 256\<close> unfolding word_unat_eq_iff unat_of_nat by simp
  ultimately show ?case using Cons by (simp del: of_nat_add)
qed simp

lemma le_nat_lt: "le_nat bs < 256 ^ length bs"
proof (induction bs)
  case (Cons b bs)
  then show ?case using unat_byte_lt[of b] by simp
qed simp

lemma prim_sizeof_pos [simp]: "0 < prim_sizeof T"
  by (cases T) simp_all

lemma int_value_cong:
  assumes "length bs = prim_sizeof T"
  shows "int_value T bs mod 256 ^ prim_sizeof T = int (le_nat bs)"
proof -
  have "int (le_nat bs) < 256 ^ prim_sizeof T" using le_nat_lt[of bs] assms by (simp flip: of_nat_less_iff)
  then show ?thesis by (simp add: int_value_def)
qed

lemma int_bytes_value: "length bs = prim_sizeof T \<Longrightarrow> int_bytes T (int_value T bs) = bs"
  using le_bytes_nat[of bs] by (simp add: int_bytes_def int_value_cong)

lemma int_value_bytes_mod:
  "int_value T (int_bytes T v) mod 256 ^ prim_sizeof T = v mod 256 ^ prim_sizeof T"
proof -
  have "int_value T (int_bytes T v) mod 256 ^ prim_sizeof T = int (le_nat (int_bytes T v))"
    by (rule int_value_cong) (simp add: int_bytes_def)
  also have "\<dots> = v mod 256 ^ prim_sizeof T"
    by (simp add: int_bytes_def le_nat_bytes)
  finally show ?thesis .
qed

text \<open>casting an integer to an integer type that is at least as wide, of whatever signedness, and back
  gives the same bytes.\<close>
theorem prim_cast_roundtrip:
  assumes "\<not> prim_isFloat T" "\<not> prim_isFloat U" "prim_sizeof T \<le> prim_sizeof U" "length bs = prim_sizeof T"
  shows "prim_cast fpu U T (prim_cast fpu T U bs) = bs"
proof -
  obtain k where k: "prim_sizeof U = prim_sizeof T + k" using assms(3) le_Suc_ex by blast
  have dvd: "(256::int) ^ prim_sizeof T dvd 256 ^ prim_sizeof U" by (simp add: k power_add)
  let ?v = "int_value T bs" and ?w = "int_value U (int_bytes U (int_value T bs))"
  have "?w mod 256 ^ prim_sizeof T = ?w mod 256 ^ prim_sizeof U mod 256 ^ prim_sizeof T"
    using dvd by (simp add: mod_mod_cancel)
  also have "\<dots> = ?v mod 256 ^ prim_sizeof T"
    unfolding int_value_bytes_mod using dvd by (simp add: mod_mod_cancel)
  finally have "int_bytes T ?w = int_bytes T ?v" by (simp add: int_bytes_def)
  then show ?thesis using assms by (simp add: prim_cast_def int_bytes_value)
qed

theorem prim_cast_roundtrip_witness: "prim_cast (\<lambda>_ _ bs. bs) UInt_t SChar_t (prim_cast (\<lambda>_ _ bs. bs) SChar_t UInt_t [200]) = [200]"
  by (rule prim_cast_roundtrip) simp_all

section \<open>The tables\<close>

definition supported :: "ctype \<Rightarrow> bool" where
  "supported T \<longleftrightarrow> ctype_base T \<in> set convert_types"

definition converter_for :: "ctype \<Rightarrow> ctype \<Rightarrow> converter option" where
  "converter_for X Y = (case (X, Y) of
     (Prim i, Prim q) \<Rightarrow> Some (RawConvert i q)
   | (Prim i, Cplx q) \<Rightarrow> Some (RealToComplex i q)
   | (Cplx i, Cplx q) \<Rightarrow> Some (ComplexToComplex i q)
   | (Cplx i, Prim q) \<Rightarrow> None)"

lemma typeid_code_prim:
  "typeid_code (Prim SChar_t) = 6" "typeid_code (Prim UChar_t) = 4" "typeid_code (Prim Short_t) = 38"
  "typeid_code (Prim UShort_t) = 36" "typeid_code (Prim Int_t) = 70" "typeid_code (Prim UInt_t) = 68"
  "typeid_code (Prim Long_t) = 102" "typeid_code (Prim ULong_t) = 100" "typeid_code (Prim Float_t) = 72"
  "typeid_code (Prim Double_t) = 104"
  unfolding typeid_code_def em_type_codes_eval by (simp_all cong: smap_find_weak_cong)

lemma typeid_code_cplx:
  "typeid_code (Cplx SChar_t) = 22" "typeid_code (Cplx UChar_t) = 20" "typeid_code (Cplx Short_t) = 54"
  "typeid_code (Cplx UShort_t) = 52" "typeid_code (Cplx Int_t) = 86" "typeid_code (Cplx UInt_t) = 84"
  "typeid_code (Cplx Long_t) = 118" "typeid_code (Cplx ULong_t) = 116" "typeid_code (Cplx Float_t) = 88"
  "typeid_code (Cplx Double_t) = 120"
  unfolding typeid_code_def em_type_codes_eval by (simp_all cong: smap_find_weak_cong)

lemmas typeid_codes = typeid_code_prim typeid_code_cplx

lemma supported_cases:
  assumes "supported X"
  shows "X \<in> set (map Prim convert_types @ map Cplx convert_types)"
  using assms by (cases X) (auto simp: supported_def)

lemma typeid_code_inj: "supported X \<Longrightarrow> supported Y \<Longrightarrow> typeid_code X = typeid_code Y \<Longrightarrow> X = Y"
  by (drule supported_cases, drule supported_cases) (auto simp: convert_types_def typeid_codes)

lemma typeid_code_lt: "supported X \<Longrightarrow> typeid_code X < 2 ^ 16"
  by (drule supported_cases) (auto simp: convert_types_def typeid_codes)

lemma hash_inj:
  assumes "a < 2 ^ 16" "c < 2 ^ 16" "dtypeIOToHash a b = dtypeIOToHash c d"
  shows "a = c \<and> b = d"
proof -
  have low: "take_bit 16 (dtypeIOToHash x y) = x" if "x < 2 ^ 16" for x y
    using that by (simp add: dtypeIOToHash_def take_bit_or take_bit_push_bit) (simp add: take_bit_nat_eq_self)
  have high: "drop_bit 16 (dtypeIOToHash x y) = y" if "x < 2 ^ 16" for x y
  proof -
    have "drop_bit 16 x = 0" using that by (simp add: drop_bit_eq_div)
    then show ?thesis by (simp add: dtypeIOToHash_def drop_bit_push_bit)
  qed
  show ?thesis using low[of a b] low[of c d] high[of a b] high[of c d] assms by simp
qed

lemma smap_find_unique:
  assumes "(k, v) \<in> set m" "\<And>w. (k, w) \<in> set m \<Longrightarrow> w = v"
  shows "smap_find k m = Some v"
proof (cases "smap_find k m")
  case None
  then have "k \<notin> fst ` set m" by (simp add: smap_find_None_iff)
  moreover have "k \<in> fst ` set m" using assms(1) by (metis fst_conv image_eqI)
  ultimately show ?thesis by contradiction
next
  case (Some w)
  then show ?thesis using assms(2)[OF smap_find_Some_in] by simp
qed

lemma smap_find_none: "(\<And>w. (k, w) \<notin> set m) \<Longrightarrow> smap_find k m = None"
  using smap_find_Some_in[of k m] by (cases "smap_find k m") auto

abbreviation type_hash :: "ctype \<Rightarrow> ctype \<Rightarrow> nat" where
  "type_hash X Y \<equiv> dtypeIOToHash (typeid_code X) (typeid_code Y)"

lemma type_hash_inj:
  "supported X \<Longrightarrow> supported Y \<Longrightarrow> supported X' \<Longrightarrow> supported Y' \<Longrightarrow> type_hash X Y = type_hash X' Y'
    \<longleftrightarrow> X = X' \<and> Y = Y'"
  using hash_inj typeid_code_lt typeid_code_inj by metis

lemma set_convertMap_inner:
  "set (convertMap (fold (registerConverter i) os c)) = set (convertMap c) \<union>
     (\<Union>q \<in> set os. {(type_hash (Cplx i) (Cplx q), ComplexToComplex i q), (type_hash (Prim i) (Cplx q), RealToComplex i q),
        (type_hash (Prim i) (Prim q), RawConvert i q)})"
  by (induction os arbitrary: c) (auto simp: registerConverter_def)

lemma set_convertComplexMap_inner:
  "set (convertComplexMap (fold (registerConverter i) os c)) = set (convertComplexMap c) \<union>
     (\<Union>q \<in> set os. {(type_hash (Cplx i) (Prim q), (i, q))})"
  by (induction os arbitrary: c) (auto simp: registerConverter_def)

lemma set_maps_outer:
  "set (convertMap (fold (\<lambda>i. fold (registerConverter i) os) is c)) = set (convertMap c) \<union>
     (\<Union>i \<in> set is. \<Union>q \<in> set os. {(type_hash (Cplx i) (Cplx q), ComplexToComplex i q),
        (type_hash (Prim i) (Cplx q), RealToComplex i q), (type_hash (Prim i) (Prim q), RawConvert i q)})"
  "set (convertComplexMap (fold (\<lambda>i. fold (registerConverter i) os) is c)) = set (convertComplexMap c) \<union>
     (\<Union>i \<in> set is. \<Union>q \<in> set os. {(type_hash (Cplx i) (Prim q), (i, q))})"
  by (induction "is" arbitrary: c) (simp_all add: set_convertMap_inner set_convertComplexMap_inner Un_ac)

lemma convertMap_set:
  "(k, v) \<in> set (convertMap registerConverters) \<longleftrightarrow>
     (\<exists>X Y. supported X \<and> supported Y \<and> k = type_hash X Y \<and> converter_for X Y = Some v)"
proof
  assume "(k, v) \<in> set (convertMap registerConverters)"
  then obtain i q where "i \<in> set convert_types" "q \<in> set convert_types"
    "(k, v) \<in> {(type_hash (Cplx i) (Cplx q), ComplexToComplex i q), (type_hash (Prim i) (Cplx q), RealToComplex i q),
        (type_hash (Prim i) (Prim q), RawConvert i q)}"
    unfolding registerConverters_def set_maps_outer by auto
  then show "\<exists>X Y. supported X \<and> supported Y \<and> k = type_hash X Y \<and> converter_for X Y = Some v"
    by (auto simp: supported_def converter_for_def intro: exI[of _ "Cplx i"] exI[of _ "Prim i"])
      (metis (no_types, lifting) converter_for_def ctype.simps(5) ctype.simps(6) ctype_base.simps old.prod.case)+
next
  assume "\<exists>X Y. supported X \<and> supported Y \<and> k = type_hash X Y \<and> converter_for X Y = Some v"
  then obtain X Y where h: "supported X" "supported Y" "k = type_hash X Y" "converter_for X Y = Some v" by blast
  show "(k, v) \<in> set (convertMap registerConverters)"
    using h by (cases X; cases Y) (auto simp: registerConverters_def set_maps_outer supported_def converter_for_def)
qed

lemma find_converter:
  assumes "supported X" "supported Y"
  shows "smap_find (type_hash X Y) (convertMap registerConverters) = converter_for X Y"
proof (cases "converter_for X Y")
  case (Some v)
  have "w = v" if "(type_hash X Y, w) \<in> set (convertMap registerConverters)" for w
    using that assms Some unfolding convertMap_set by (auto simp: type_hash_inj)
  then show ?thesis using Some assms by (intro trans[OF smap_find_unique[of _ v]]) (auto simp: convertMap_set)
next
  case None
  have "(type_hash X Y, w) \<notin> set (convertMap registerConverters)" for w
    using assms None unfolding convertMap_set by (auto simp: type_hash_inj)
  then show ?thesis using None by (simp add: smap_find_none)
qed

section \<open>The loops\<close>

lemma mem_write_outside: "x \<notin> {a ..< a + length bs} \<Longrightarrow> mem_write a bs m x = m x"
  by (auto simp: mem_write_def)

text \<open>A loop that stores element after element, each computed from memory that the loop does not write.\<close>

lemma store_loop:
  assumes "\<And>i m'. i < n \<Longrightarrow> (\<And>x. x \<notin> {a ..< a + n * sz} \<Longrightarrow> m' x = m x) \<Longrightarrow> g i m' = g i m"
    and "\<And>i. i < n \<Longrightarrow> length (g i m) = sz"
  shows "k \<le> n \<Longrightarrow> mem_bytes (fold (\<lambda>i m. put_elem sz a i (g i m) m) [0..<k] m) a (k * sz)
      = concat (map (\<lambda>i. g i m) [0..<k])
    \<and> (\<forall>x. x \<notin> {a ..< a + k * sz} \<longrightarrow> fold (\<lambda>i m. put_elem sz a i (g i m) m) [0..<k] m x = m x)"
proof (induction k)
  case (Suc k)
  let ?M = "fold (\<lambda>i m. put_elem sz a i (g i m) m) [0..<k] m"
  have le: "k * sz \<le> n * sz" "Suc k * sz \<le> n * sz"
    using Suc.prems by (simp, intro mult_le_mono1, simp)
  have g: "g k ?M = g k m" using Suc le by (intro assms(1)) auto
  have len: "length (g k m) = sz" using assms(2) Suc.prems by simp
  have step: "fold (\<lambda>i m. put_elem sz a i (g i m) m) [0..<Suc k] m = mem_write (a + k * sz) (g k m) ?M"
    by (simp add: g) (simp add: put_elem_def)
  have "mem_bytes (mem_write (a + k * sz) (g k m) ?M) a (k * sz) = mem_bytes ?M a (k * sz)"
    by (rule mem_bytes_cong) (auto intro!: mem_write_outside)
  moreover have "mem_bytes (mem_write (a + k * sz) (g k m) ?M) (a + k * sz) sz = g k m"
    using mem_bytes_write[of "a + k * sz" "g k m"] len by simp
  ultimately have "mem_bytes (mem_write (a + k * sz) (g k m) ?M) a (Suc k * sz) = concat (map (\<lambda>i. g i m) [0..<Suc k])"
    using Suc mem_bytes_append[of _ a "k * sz" sz] by (simp add: add.commute)
  moreover have "mem_write (a + k * sz) (g k m) ?M x = m x" if "x \<notin> {a ..< a + Suc k * sz}" for x
    using that Suc len by (subst mem_write_outside) auto
  ultimately show ?case unfolding step by blast
qed simp

section \<open>Conversion element by element\<close>

text \<open>What the platform's floating point unit promises: values of the target type.\<close>

definition fpu_ok :: "fpu \<Rightarrow> bool" where
  "fpu_ok fpu \<longleftrightarrow> (\<forall>i q bs. length (fpu i q bs) = prim_sizeof q)"

fun elem_cast :: "fpu \<Rightarrow> ctype \<Rightarrow> ctype \<Rightarrow> byte list \<Rightarrow> byte list" where
  "elem_cast fpu (Prim i) (Prim q) bs = prim_cast fpu i q bs"
| "elem_cast fpu (Prim i) (Cplx q) bs = prim_cast fpu i q bs @ replicate (prim_sizeof q) 0"
| "elem_cast fpu (Cplx i) (Cplx q) bs = prim_cast fpu i q (c_real i bs) @ prim_cast fpu i q (c_imag i bs)"
| "elem_cast fpu (Cplx i) (Prim q) bs = prim_cast fpu i q (c_real i bs)"

definition elems :: "nat \<Rightarrow> byte list \<Rightarrow> byte list list" where
  "elems sz bs = map (\<lambda>i. take sz (drop (i * sz) bs)) [0..<length bs div sz]"

lemma elems_mem_bytes:
  assumes "0 < sz"
  shows "elems sz (mem_bytes m a (n * sz)) = map (\<lambda>i. get_elem sz a i m) [0..<n]"
proof -
  have "take sz (drop (i * sz) (mem_bytes m a (n * sz))) = get_elem sz a i m" if "i < n" for i
  proof -
    have "i * sz + sz \<le> n * sz" using that by (metis Suc_leI add.commute mult_Suc mult_le_mono1)
    then show ?thesis by (simp add: drop_mem_bytes take_mem_bytes get_elem_def)
  qed
  then show ?thesis using assms by (simp add: elems_def)
qed

lemma length_prim_cast: "fpu_ok fpu \<Longrightarrow> length (prim_cast fpu i q bs) = prim_sizeof q"
  by (simp add: prim_cast_def fpu_ok_def int_bytes_def)

lemma length_elem_cast: "fpu_ok fpu \<Longrightarrow> converter_for X Y \<noteq> None \<Longrightarrow> length (elem_cast fpu X Y bs) = ctype_sizeof Y"
  by (cases X; cases Y) (simp_all add: length_prim_cast converter_for_def)

text \<open>Every converter is the same loop over its cast of one element.\<close>

lemma run_converter_loop:
  assumes "converter_for X Y = Some conv"
  shows "run_converter fpu conv inA outA n m =
    fold (\<lambda>i m. put_elem (ctype_sizeof Y) outA i (elem_cast fpu X Y (get_elem (ctype_sizeof X) inA i m)) m) [0..<n] m"
  using assms by (cases X; cases Y) (auto simp: converter_for_def rawConvert_def rawConvertRealToComplex_def
      rawConvertComplex_def Let_def)

lemma get_elem_cong:
  assumes "\<And>x. x \<in> {a ..< a + n * sz} \<Longrightarrow> m' x = m x" "i < n"
  shows "get_elem sz a i m' = get_elem sz a i m"
proof -
  have "i * sz + sz \<le> n * sz" using assms(2) by (metis Suc_leI add.commute mult_Suc mult_le_mono1)
  then show ?thesis unfolding get_elem_def by (intro mem_bytes_cong assms(1)) auto
qed

lemma run_converter_elements:
  assumes conv: "converter_for X Y = Some conv" and fpu: "fpu_ok fpu"
    and disj: "{outA ..< outA + n * ctype_sizeof Y} \<inter> {inA ..< inA + n * ctype_sizeof X} = {}"
  shows "mem_bytes (run_converter fpu conv inA outA n m) outA (n * ctype_sizeof Y)
      = concat (map (elem_cast fpu X Y) (elems (ctype_sizeof X) (mem_bytes m inA (n * ctype_sizeof X))))
    \<and> (\<forall>x. x \<notin> {outA ..< outA + n * ctype_sizeof Y} \<longrightarrow> run_converter fpu conv inA outA n m x = m x)"
proof -
  let ?g = "\<lambda>i m. elem_cast fpu X Y (get_elem (ctype_sizeof X) inA i m)"
  have pos: "0 < ctype_sizeof X" by (cases X) simp_all
  have g: "?g i m' = ?g i m" if "i < n" "\<And>x. x \<notin> {outA ..< outA + n * ctype_sizeof Y} \<Longrightarrow> m' x = m x" for i m'
  proof -
    have "get_elem (ctype_sizeof X) inA i m' = get_elem (ctype_sizeof X) inA i m"
      by (rule get_elem_cong[OF _ that(1)]) (use that(2) disj in \<open>auto simp: disjoint_iff\<close>)
    then show ?thesis by simp
  qed
  have "\<And>i. i < n \<Longrightarrow> length (?g i m) = ctype_sizeof Y" using fpu conv by (simp add: length_elem_cast)
  note loop = store_loop[where g = ?g and sz = "ctype_sizeof Y" and a = outA and n = n and k = n and m = m,
      OF g this order_refl]
  show ?thesis unfolding run_converter_loop[OF conv] elems_mem_bytes[OF pos] map_map comp_def by (rule loop)
qed

lemma typed_code_same:
  assumes "supported X" "supported Y"
  shows "same_elements \<lparr>dt_elemType = typeid_code Y, dt_elemSize = ctype_sizeof Y, dt_dimension = d'\<rparr>
      \<lparr>dt_elemType = typeid_code X, dt_elemSize = ctype_sizeof X, dt_dimension = d\<rparr>
    \<longleftrightarrow> ctype_sizeof X = ctype_sizeof Y \<and> prim_isFloat (ctype_base X) = prim_isFloat (ctype_base Y)
      \<and> (X = Prim (ctype_base X) \<longleftrightarrow> Y = Prim (ctype_base Y))"
proof -
  have "dtype_matches \<lparr>dt_elemType = typeid_code T, dt_elemSize = ctype_sizeof T, dt_dimension = e\<rparr> T e" for T e
    using em_row_of_type[of T e] by (auto simp: typeid_code_def smap_find_map_of)
  from this[of X d] this[of Y d'] have "same_elements \<lparr>dt_elemType = typeid_code Y, dt_elemSize = ctype_sizeof Y, dt_dimension = d'\<rparr>
      \<lparr>dt_elemType = typeid_code X, dt_elemSize = ctype_sizeof X, dt_dimension = d\<rparr>
    \<longleftrightarrow> Y = X \<or> (ctype_sizeof Y = ctype_sizeof X \<and> (\<not> prim_isFloat (ctype_base Y)) = (\<not> prim_isFloat (ctype_base X))
        \<and> (Y = Cplx (ctype_base Y)) = (X = Cplx (ctype_base X)))"
    using typeid_code_inj[OF assms(2,1)] unfolding same_elements_def dtype_matches_def by (simp add: dt_isInteger_def dt_isComplex_def) blast
  then show ?thesis by (cases X; cases Y) auto
qed

abbreviation typed :: "ctype \<Rightarrow> nat \<Rightarrow> dtype" where
  "typed T dim \<equiv> \<lparr>dt_elemType = typeid_code T, dt_elemSize = ctype_sizeof T, dt_dimension = dim\<rparr>"

lemma ctype_sizeof_pos [simp]: "0 < ctype_sizeof T" "ctype_sizeof T \<noteq> 0"
  by (cases T; simp)+

lemma ctype_sizeof_lt [simp]: "ctype_sizeof T < SIZE_MOD"
proof -
  have "prim_sizeof p \<le> 8" for p by (cases p) simp_all
  then have "ctype_sizeof T \<le> 16" by (cases T) (simp_all add: order_trans[of _ 8])
  then show ?thesis by (simp add: SIZE_MOD_def)
qed

text \<open>The elements that a call converts: all whole elements of the chunk, or the number that the caller gives.\<close>

definition converted_elements :: "ctype \<Rightarrow> nat \<Rightarrow> usize \<Rightarrow> buffer_chunk \<Rightarrow> nat" where
  "converted_elements X d numElems this = (if numElems = 0 then bc_length this div (ctype_sizeof X * d) else numElems)"

lemma conv_sizes:
  assumes "bc_dtype this = typed X d" "ctype_sizeof X * d < SIZE_MOD" "0 < d" "bc_length this < SIZE_MOD"
    and "k = converted_elements X d numElems this" "k * (ctype_sizeof X * d) \<le> bc_length this" "k * d * ctype_sizeof Y < SIZE_MOD"
  shows "conv_primElems this numElems = k * d" "conv_outElems (typed Y 1) (k * d) = k * d"
proof -
  have "dt_size (bc_dtype this) = ctype_sizeof X * d" "(if numElems = 0 then bc_elements this else numElems) = k"
    using assms(1-3,5) by (auto simp: dt_size_def mul64_def bc_elements_def converted_elements_def)
  moreover have "mul64 k (ctype_sizeof X * d) = k * (ctype_sizeof X * d)" using assms(4,6) by (simp add: mul64_def)
  ultimately show "conv_primElems this numElems = k * d" using assms(1) by (simp add: conv_primElems_def)
  show "conv_outElems (typed Y 1) (k * d) = k * d"
    using assms(7) by (simp add: conv_outElems_def dt_size_def mul64_def)
qed

lemma mem_bytes_take: "n \<le> len \<Longrightarrow> take n (mem_bytes m a len) = mem_bytes m a n"
  by (simp add: mem_bytes_def take_map)

text \<open>C32: For a chunk of a supported type \<open>X\<close> of any dimension and a supported scalar target \<open>Y\<close> (dimension 1; for vector targets
  the length is wrong: \<open>convert_vector_too_long\<close>), and a number of elements that the chunk holds (0 for all its whole
  elements): converting gives a new chunk whose bytes are the casts of these elements one after the other, and changes no byte
  of the source; when the types are the same or integers of one size it gives the source itself, cut to these elements,
  with the new data type; and it throws \<open>BufferConvertError\<close> exactly for complex to real.\<close>
theorem bc_convert_elements:
  assumes "supported X" "supported Y" "fpu_ok fpu"
    and "bc_dtype this = typed X d" "ctype_sizeof X * d < SIZE_MOD" "0 < d" "bc_length this < SIZE_MOD"
    and "k = converted_elements X d numElems this" "k * (ctype_sizeof X * d) \<le> bc_length this"
    and "alloc_ok (bc_range this) mk (k * d * ctype_sizeof Y)"
  shows "case bc_convert mk fpu (typed Y 1) numElems this m of
      Inl e \<Rightarrow> e = BufferConvertError \<and> X \<noteq> Prim (ctype_base X) \<and> Y = Prim (ctype_base Y)
    | Inr (res, m') \<Rightarrow> bc_dtype res = typed Y 1 \<and> bc_bytes m' this = bc_bytes m this
        \<and> (Y = Prim (ctype_base Y) \<longrightarrow> X = Prim (ctype_base X))
        \<and> bc_bytes m' res =
            (let src = take (k * d * ctype_sizeof X) (bc_bytes m this)
             in if same_elements (typed Y 1) (typed X d) then src
                else concat (map (elem_cast fpu X Y) (elems (ctype_sizeof X) src)))"
proof -
  let ?n = "k * d"
  have lt: "?n * ctype_sizeof Y < SIZE_MOD" using assms(10) by (simp add: alloc_ok_def)
  note sizes = conv_sizes[OF assms(4-9) lt]
  have Y: "dt_size (typed Y 1) = ctype_sizeof Y" "mul64 (ctype_sizeof Y) ?n = ?n * ctype_sizeof Y"
    using lt by (simp_all add: dt_size_def mul64_def mult.commute)
  have len: "?n * ctype_sizeof X \<le> bc_length this" using assms(9) by (simp add: ac_simps)
  have src: "take (?n * ctype_sizeof X) (bc_bytes m this) = mem_bytes m (bc_address this) (?n * ctype_sizeof X)"
    unfolding bc_bytes_def by (rule mem_bytes_take[OF len])
  show ?thesis
  proof (cases "same_elements (typed Y 1) (typed X d)")
    case True
    then have "ctype_sizeof X = ctype_sizeof Y \<and> (X = Prim (ctype_base X) \<longleftrightarrow> Y = Prim (ctype_base Y))"
      using typed_code_same[OF assms(1,2)] by blast
    then show ?thesis using True sizes Y src assms(4) by (simp add: bc_convert_def bc_bytes_def)
  next
    case False
    show ?thesis
    proof (cases "converter_for X Y")
      case None
      then show ?thesis using False sizes assms(4) find_converter[OF assms(1,2)]
        by (cases X; cases Y) (simp_all add: bc_convert_def converter_for_def)
    next
      case (Some conv)
      let ?res = "bc_of_dtype mk (typed Y 1) ?n"
      let ?m = "run_converter fpu conv (bc_address this) (bc_address ?res) ?n m"
      have run: "bc_convert mk fpu (typed Y 1) numElems this m = Inr (?res, ?m)"
        using False Some sizes assms(4) find_converter[OF assms(1,2)] by (simp add: bc_convert_def Let_def)
      have res: "bc_length ?res = ?n * ctype_sizeof Y" "bc_dtype ?res = typed Y 1"
        "bc_address ?res = sb_address (mk (?n * ctype_sizeof Y))"
        using Y by (simp_all add: bc_of_dtype_def Let_def)
      have range: "{bc_address ?res ..< bc_address ?res + ?n * ctype_sizeof Y} \<inter> bc_range this = {}"
        using assms(10) unfolding res(3) by (simp add: alloc_ok_def)
      then have disj: "{bc_address ?res ..< bc_address ?res + ?n * ctype_sizeof Y}
          \<inter> {bc_address this ..< bc_address this + ?n * ctype_sizeof X} = {}"
        using len by (auto simp: bc_range_def disjoint_iff)
      note el = run_converter_elements[OF Some assms(3) disj, of m]
      have keep: "bc_bytes ?m this = bc_bytes m this"
        unfolding bc_bytes_def using el range by (intro mem_bytes_cong) (auto simp: disjoint_iff bc_range_def)
      have real: "Y = Prim (ctype_base Y) \<longrightarrow> X = Prim (ctype_base X)"
        using Some by (cases X; cases Y) (simp_all add: converter_for_def)
      show ?thesis unfolding run using False el keep real res src by (simp add: bc_bytes_def)
    qed
  qed
qed

text \<open>Two of the three bytes of a chunk, as signed 8-bit integers, become 16-bit integers.\<close>

theorem bc_convert_elements_witness:
  "\<exists>res m'. bc_convert (mk_at 4096 2) (\<lambda>_ q _. replicate (prim_sizeof q) 0) (typed (Prim Short_t) 1) 2
       ((bc_of_shared (sb_make_with 254 3 (Some 1)))\<lparr>bc_dtype := typed (Prim SChar_t) 1\<rparr>) word_of_nat = Inr (res, m')
     \<and> bc_bytes m' res = [254, 255, 255, 255]"
proof -
  let ?f = "\<lambda>_ q _. replicate (prim_sizeof q) (0 :: byte)"
  let ?c = "(bc_of_shared (sb_make_with 254 3 (Some 1)))\<lparr>bc_dtype := typed (Prim SChar_t) 1\<rparr>"
  have "alloc_ok (bc_range ?c) (mk_at 4096 2) (2 * 1 * ctype_sizeof (Prim Short_t))"
    by (rule alloc_ok_mk_at) (auto simp: bc_range_def bc_of_shared_def sb_make_with_def SIZE_MOD_def)
  note th = bc_convert_elements[of "Prim SChar_t" "Prim Short_t" ?f ?c 1 2 2 "mk_at 4096 2" word_of_nat, OF _ _ _ _ _ _ _ _ _ this]
  have "\<not> same_elements (typed (Prim Short_t) 1) (typed (Prim SChar_t) 1)"
    using typed_code_same[of "Prim SChar_t" "Prim Short_t" 1 1] by (simp add: supported_def convert_types_def)
  moreover have "concat (map (elem_cast ?f (Prim SChar_t) (Prim Short_t)) (elems 1 (take 2 (bc_bytes word_of_nat ?c)))) = [254, 255, 255, 255]"
    by (simp add: bc_bytes_def bc_of_shared_def sb_make_with_def mem_bytes_def elems_def upt_rec prim_cast_def int_value_def
        int_bytes_def)
  ultimately show ?thesis using th
    by (auto simp: supported_def convert_types_def fpu_ok_def bc_of_shared_def sb_make_with_def SIZE_MOD_def converted_elements_def Let_def
        split: sum.splits)
qed

section \<open>Vectors\<close>

text \<open>For a vector the number of output elements is multiplied by its dimension and not divided: retyping four
  bytes as one vector of four bytes yields a chunk of 64 bytes over the buffer of four.\<close>

lemma convert_vector_too_long:
  "bc_convert mk fpu (typed (Prim UChar_t) 4) 0
     ((bc_of_shared (sb_make_with 64 4 (Some 1)))\<lparr>bc_dtype := typed (Prim UChar_t) 1\<rparr>) m
   = Inr ((bc_of_shared (sb_make_with 64 4 (Some 1)))\<lparr>bc_dtype := typed (Prim UChar_t) 4, bc_length := 64\<rparr>, m)"
  by (simp add: bc_convert_def same_elements_def conv_primElems_def conv_outElems_def bc_elements_def dt_size_def
      bc_of_shared_def sb_make_with_def mul64_def SIZE_MOD_def)

end
