(* ===== verification/Topology.thy ===== *)
theory Topology
  imports BlockApi
begin

text \<open>
  \<^verbatim>\<open>Pothos::Topology\<close> (lib/Framework/Topology.cpp, TopologyImpl.hpp and PortsAndFlows.hpp): ports
  and flows, the ports of a topology itself, connection and disconnection. Objects are known by their
  unique id; an object is a topology when \<open>n_topo\<close> has one for its id, and else a block whose
  actor has that number. A port whose object is the topology itself holds a null object, as in the
  code. All objects live in one process, where the internal block of a block is the block. The display
  names of objects and the text of messages are not modelled. \<open>waitInactive\<close> reads clocks and is not
  modelled.

  An operation that throws after it has changed the topology returns the changed state with the error.
\<close>

section \<open>Ports and flows\<close>

record port =
  po_obj :: "nat option"
  po_name :: string
  po_uid :: nat

definition port_eq :: "port \<Rightarrow> port \<Rightarrow> bool" where
  "port_eq l r \<longleftrightarrow> po_uid l = po_uid r \<and> po_name l = po_name r"

record flow =
  fl_src :: port
  fl_dst :: port

definition flow_eq :: "flow \<Rightarrow> flow \<Rightarrow> bool" where
  "flow_eq l r \<longleftrightarrow> port_eq (fl_src r) (fl_src l) \<and> port_eq (fl_dst r) (fl_dst l)"

text \<open>\<open>std::find\<close> on a vector of flows.\<close>

definition has_flow :: "flow \<Rightarrow> flow list \<Rightarrow> bool" where
  "has_flow f fs \<longleftrightarrow> (\<exists>g \<in> set fs. flow_eq g f)"

fun erase_flow :: "flow \<Rightarrow> flow list \<Rightarrow> flow list" where
  "erase_flow f [] = []"
| "erase_flow f (g # fs) = (if flow_eq g f then fs else g # erase_flow f fs)"

section \<open>The state\<close>

record topology =
  tp_flows :: "flow list"
  tp_activeFlatFlows :: "flow list"
  tp_inputPortNames :: "string list"
  tp_outputPortNames :: "string list"
  tp_inputPortInfo :: "(string \<times> port_info) list"
  tp_outputPortInfo :: "(string \<times> port_info) list"
  tp_calls :: "(string \<times> nat) list"

definition tp_new :: topology where
  "tp_new = \<lparr>tp_flows = [], tp_activeFlatFlows = [], tp_inputPortNames = [], tp_outputPortNames = [],
     tp_inputPortInfo = [], tp_outputPortInfo = [], tp_calls = []\<rparr>"

record net =
  n_world :: world
  n_topo :: "nat \<Rightarrow> topology option"

definition upd_topo :: "nat \<Rightarrow> (topology \<Rightarrow> topology) \<Rightarrow> net \<Rightarrow> net" where
  "upd_topo t f n = n\<lparr>n_topo := (n_topo n)(t := map_option f (n_topo n t))\<rparr>"

definition the_topo :: "nat \<Rightarrow> net \<Rightarrow> topology" where
  "the_topo t n = (case n_topo n t of None \<Rightarrow> tp_new | Some tp \<Rightarrow> tp)"

definition makePort :: "nat \<Rightarrow> nat \<Rightarrow> string \<Rightarrow> port" where
  "makePort self uid name = \<lparr>po_obj = (if uid \<noteq> self then Some uid else None), po_name = name, po_uid = uid\<rparr>"

section \<open>Port information\<close>

text \<open>The names in order of connection, each once; \<open>at\<close> throws for a name without an entry.\<close>

fun tp_portInfos :: "(string \<times> port_info) list \<Rightarrow> string list \<Rightarrow> string list \<Rightarrow> port_info list result" where
  "tp_portInfos infos seen [] = Inr []"
| "tp_portInfos infos seen (name # names) =
     (if name \<in> set seen then tp_portInfos infos seen names
      else case smap_find name infos of
        None \<Rightarrow> Inl StdOutOfRange
      | Some i \<Rightarrow> result_bind (tp_portInfos infos (name # seen) names) (\<lambda>is. Inr (i # is)))"

definition tp_inputInfos :: "topology \<Rightarrow> port_info list result" where
  "tp_inputInfos t = tp_portInfos (tp_inputPortInfo t) [] (tp_inputPortNames t)"

definition tp_outputInfos :: "topology \<Rightarrow> port_info list result" where
  "tp_outputInfos t = tp_portInfos (tp_outputPortInfo t) [] (tp_outputPortNames t)"

text \<open>The calls on a connectable object, block or topology.\<close>

definition inputInfos :: "nat \<Rightarrow> net \<Rightarrow> port_info list result" where
  "inputInfos uid n = (case n_topo n uid of Some t \<Rightarrow> tp_inputInfos t | None \<Rightarrow> blk_inputPortInfo uid (n_world n))"

definition outputInfos :: "nat \<Rightarrow> net \<Rightarrow> port_info list result" where
  "outputInfos uid n = (case n_topo n uid of Some t \<Rightarrow> tp_outputInfos t | None \<Rightarrow> blk_outputPortInfo uid (n_world n))"

definition inputPortNames :: "nat \<Rightarrow> net \<Rightarrow> string list result" where
  "inputPortNames uid n = result_bind (inputInfos uid n) (\<lambda>is. Inr (map pi_name is))"

definition outputPortNames :: "nat \<Rightarrow> net \<Rightarrow> string list result" where
  "outputPortNames uid n = result_bind (outputInfos uid n) (\<lambda>is. Inr (map pi_name is))"

section \<open>Automatic ports\<close>

text \<open>The call on the actor throws on a topology, and every exception of it is dropped; \<open>pid\<close> and \<open>mid\<close>
  are the addresses of a new port and of its token manager.\<close>

definition try_autoAllocateOutput :: "env \<Rightarrow> nat \<Rightarrow> string \<Rightarrow> nat \<Rightarrow> nat \<Rightarrow> net \<Rightarrow> net" where
  "try_autoAllocateOutput env uid name pid mid n =
     (if n_topo n uid \<noteq> None then n
      else case wa_autoAllocateOutput env uid name pid mid (n_world n) of Inl e \<Rightarrow> n | Inr w \<Rightarrow> n\<lparr>n_world := w\<rparr>)"

definition try_autoAllocateInput :: "nat \<Rightarrow> string \<Rightarrow> nat \<Rightarrow> net \<Rightarrow> net" where
  "try_autoAllocateInput uid name pid n =
     (if n_topo n uid \<noteq> None then n
      else case wa_autoAllocateInput uid name pid (n_world n) of Inl e \<Rightarrow> n | Inr w \<Rightarrow> n\<lparr>n_world := w\<rparr>)"

definition try_autoDeleteOutput :: "nat \<Rightarrow> string \<Rightarrow> net \<Rightarrow> net" where
  "try_autoDeleteOutput uid name n =
     (if n_topo n uid \<noteq> None then n else n\<lparr>n_world := wa_autoDeleteOutput uid name (n_world n)\<rparr>)"

definition try_autoDeleteInput :: "nat \<Rightarrow> string \<Rightarrow> net \<Rightarrow> net" where
  "try_autoDeleteInput uid name n =
     (if n_topo n uid \<noteq> None then n else n\<lparr>n_world := wa_autoDeleteInput uid name (n_world n)\<rparr>)"

section \<open>Connection\<close>

text \<open>The loop over the port information of the inner object: the last match wins.\<close>

definition copy_info :: "string \<Rightarrow> string \<Rightarrow> port_info list \<Rightarrow> (string \<times> port_info) list \<Rightarrow> (string \<times> port_info) list" where
  "copy_info from to infos m =
     fold (\<lambda>i m. if pi_name i = from then smap_set to (i\<lparr>pi_name := to\<rparr>) m else m) infos m"

text \<open>\<open>map[name].name = name\<close> makes a default entry when there is none.\<close>

definition name_info :: "dtype \<Rightarrow> string \<Rightarrow> (string \<times> port_info) list \<Rightarrow> (string \<times> port_info) list" where
  "name_info emptyDType name m =
     smap_set name ((case smap_find name m of
         Some i \<Rightarrow> i | None \<Rightarrow> \<lparr>pi_name = [], pi_isSigSlot = False, pi_dtype = emptyDType\<rparr>)\<lparr>pi_name := name\<rparr>) m"

text \<open>The ports of the hierarchy that a flow makes; the port information of the inner end is at hand.\<close>

definition hier_ports :: "env \<Rightarrow> flow \<Rightarrow> port_info list \<Rightarrow> port_info list \<Rightarrow> topology \<Rightarrow> topology" where
  "hier_ports env f srcOuts dstIns t =
     (case (po_obj (fl_src f), po_obj (fl_dst f)) of
        (None, Some _) \<Rightarrow> t\<lparr>tp_inputPortNames := tp_inputPortNames t @ [po_name (fl_src f)],
            tp_inputPortInfo := copy_info (po_name (fl_dst f)) (po_name (fl_src f)) dstIns (tp_inputPortInfo t)\<rparr>
      | (Some _, None) \<Rightarrow> t\<lparr>tp_outputPortNames := tp_outputPortNames t @ [po_name (fl_dst f)],
            tp_outputPortInfo := copy_info (po_name (fl_src f)) (po_name (fl_dst f)) srcOuts (tp_outputPortInfo t)\<rparr>
      | (None, None) \<Rightarrow> t\<lparr>tp_inputPortNames := tp_inputPortNames t @ [po_name (fl_src f)],
            tp_inputPortInfo := name_info (en_emptyDType env) (po_name (fl_src f)) (tp_inputPortInfo t),
            tp_outputPortNames := tp_outputPortNames t @ [po_name (fl_dst f)],
            tp_outputPortInfo := name_info (en_emptyDType env) (po_name (fl_dst f)) (tp_outputPortInfo t)\<rparr>
      | (Some _, Some _) \<Rightarrow> t)"

definition port_check :: "string \<Rightarrow> port_info list result \<Rightarrow> port_info list result" where
  "port_check name r = result_bind r (\<lambda>is. if name \<in> pi_name ` set is then Inr is else Inl TopologyConnectError)"

text \<open>\<open>src\<close> and \<open>dst\<close> are \<open>None\<close> for an object without a unique id.\<close>

definition tp_connect :: "env \<Rightarrow> nat \<Rightarrow> nat option \<Rightarrow> string \<Rightarrow> nat option \<Rightarrow> string \<Rightarrow> nat \<Rightarrow> nat \<Rightarrow> nat \<Rightarrow> net
    \<Rightarrow> net \<times> pothos_error option" where
  "tp_connect env self src srcName dst dstName pidOut midOut pidIn n =
     (case (src, dst) of
        (Some s, Some d) \<Rightarrow>
          (let f = \<lparr>fl_src = makePort self s srcName, fl_dst = makePort self d dstName\<rparr>;
               n = try_autoAllocateOutput env s srcName pidOut midOut n;
               n = try_autoAllocateInput d dstName pidIn n;
               outs = (if po_obj (fl_src f) \<noteq> None then port_check srcName (outputInfos s n) else Inr []);
               ins = (if po_obj (fl_dst f) \<noteq> None then port_check dstName (inputInfos d n) else Inr [])
           in case outs of Inl e \<Rightarrow> (n, Some e) | Inr outs \<Rightarrow>
             (case ins of Inl e \<Rightarrow> (n, Some e) | Inr ins \<Rightarrow>
               (let n = upd_topo self (hier_ports env f outs ins) n
                in if has_flow f (tp_flows (the_topo self n)) then (n, Some TopologyConnectError)
                   else (upd_topo self (\<lambda>t. t\<lparr>tp_flows := tp_flows t @ [f]\<rparr>) n, None))))
      | _ \<Rightarrow> (n, Some TopologyConnectError))"

text \<open>The port names are looked up in the object itself, also for the topology's own ports.\<close>

definition tp_disconnect :: "nat \<Rightarrow> nat option \<Rightarrow> string \<Rightarrow> nat option \<Rightarrow> string \<Rightarrow> net \<Rightarrow> net \<times> pothos_error option" where
  "tp_disconnect self src srcName dst dstName n =
     (case (src, dst) of
        (Some s, Some d) \<Rightarrow>
          (let f = \<lparr>fl_src = makePort self s srcName, fl_dst = makePort self d dstName\<rparr>
           in case port_check srcName (outputInfos s n) of Inl e \<Rightarrow> (n, Some e) | Inr _ \<Rightarrow>
             (case port_check dstName (inputInfos d n) of Inl e \<Rightarrow> (n, Some e) | Inr _ \<Rightarrow>
               (let n = upd_topo self (\<lambda>t. t\<lparr>
                      tp_outputPortNames := (if po_obj (fl_src f) = None then remove1 srcName (tp_outputPortNames t)
                                             else tp_outputPortNames t),
                      tp_inputPortNames := (if po_obj (fl_dst f) = None then remove1 dstName (tp_inputPortNames t)
                                            else tp_inputPortNames t)\<rparr>) n
                in if \<not> has_flow f (tp_flows (the_topo self n)) then (n, Some TopologyConnectError)
                   else (upd_topo self (\<lambda>t. t\<lparr>tp_flows := erase_flow f (tp_flows t)\<rparr>)
                          (try_autoDeleteInput d dstName (try_autoDeleteOutput s srcName n)), None))))
      | _ \<Rightarrow> (n, Some TopologyConnectError))"

text \<open>The call without an argument, as the sub-topologies receive it, is not recursive.\<close>

definition disconnect_own :: "nat \<Rightarrow> net \<Rightarrow> net" where
  "disconnect_own self n =
     upd_topo self (\<lambda>t. t\<lparr>tp_flows := []\<rparr>)
       (fold (\<lambda>f n.
            let n = (case po_obj (fl_src f) of None \<Rightarrow> n | Some s \<Rightarrow> try_autoDeleteOutput s (po_name (fl_src f)) n)
            in (case po_obj (fl_dst f) of None \<Rightarrow> n | Some d \<Rightarrow> try_autoDeleteInput d (po_name (fl_dst f)) n))
          (tp_flows (the_topo self n)) n)"

definition try_disconnect_sub :: "nat option \<Rightarrow> net \<Rightarrow> net" where
  "try_disconnect_sub uid n = (case uid of None \<Rightarrow> n | Some u \<Rightarrow> if n_topo n u \<noteq> None then disconnect_own u n else n)"

definition tp_disconnectAll :: "bool \<Rightarrow> nat \<Rightarrow> net \<Rightarrow> net" where
  "tp_disconnectAll recursive self n =
     disconnect_own self
       (if recursive
        then fold (\<lambda>f n. try_disconnect_sub (po_obj (fl_dst f)) (try_disconnect_sub (po_obj (fl_src f)) n))
               (tp_flows (the_topo self n)) n
        else n)"

section \<open>Calls\<close>

definition tp_registerCallable :: "string \<Rightarrow> nat \<Rightarrow> topology \<Rightarrow> topology" where
  "tp_registerCallable name call t = t\<lparr>tp_calls := smap_set name call (tp_calls t)\<rparr>"

definition tp_opaqueCallHandler :: "(nat \<Rightarrow> 'a \<Rightarrow> 'b result) \<Rightarrow> string \<Rightarrow> 'a \<Rightarrow> topology \<Rightarrow> 'b result" where
  "tp_opaqueCallHandler run name args t =
     (case smap_find name (tp_calls t) of None \<Rightarrow> Inl BlockCallNotFound | Some c \<Rightarrow> run c args)"

section \<open>The state of a topology stays consistent\<close>

definition infos_ok :: "string list \<Rightarrow> (string \<times> port_info) list \<Rightarrow> bool" where
  "infos_ok names m \<longleftrightarrow> (\<forall>x \<in> set names. smap_find x m \<noteq> None) \<and> (\<forall>x i. smap_find x m = Some i \<longrightarrow> pi_name i = x)"

fun flows_distinct :: "flow list \<Rightarrow> bool" where
  "flows_distinct [] \<longleftrightarrow> True"
| "flows_distinct (f # fs) \<longleftrightarrow> \<not> has_flow f fs \<and> flows_distinct fs"

definition tp_ok :: "topology \<Rightarrow> bool" where
  "tp_ok t \<longleftrightarrow> infos_ok (tp_inputPortNames t) (tp_inputPortInfo t) \<and> infos_ok (tp_outputPortNames t) (tp_outputPortInfo t)
     \<and> flows_distinct (tp_flows t)"

definition net_ok :: "net \<Rightarrow> bool" where
  "net_ok n \<longleftrightarrow> (\<forall>u t. n_topo n u = Some t \<longrightarrow> tp_ok t)"

text \<open>The operations that change the topologies of a process, with any result.\<close>

inductive net_step :: "net \<Rightarrow> net \<Rightarrow> bool" where
  step_make: "n_topo n u = None \<Longrightarrow> net_step n (n\<lparr>n_topo := (n_topo n)(u := Some tp_new)\<rparr>)"
| step_connect: "tp_connect env u src srcName dst dstName pidOut midOut pidIn n = (n', e) \<Longrightarrow> net_step n n'"
| step_disconnect: "tp_disconnect u src srcName dst dstName n = (n', e) \<Longrightarrow> net_step n n'"
| step_disconnectAll: "net_step n (tp_disconnectAll recursive u n)"
| step_blocks: "net_step n (n\<lparr>n_world := w\<rparr>)"

inductive net_reach :: "net \<Rightarrow> bool" where
  net_start: "(\<And>u. n_topo n u = None) \<Longrightarrow> net_reach n"
| net_next: "net_reach n \<Longrightarrow> net_step n n' \<Longrightarrow> net_reach n'"

inductive_cases net_stepE: "net_step n n'"

lemma flow_eq_iff: "flow_eq f g \<longleftrightarrow> (po_uid (fl_src f), po_name (fl_src f), po_uid (fl_dst f), po_name (fl_dst f))
    = (po_uid (fl_src g), po_name (fl_src g), po_uid (fl_dst g), po_name (fl_dst g))"
  by (auto simp: flow_eq_def port_eq_def)

lemma has_flow_append [simp]: "has_flow f (xs @ ys) \<longleftrightarrow> has_flow f xs \<or> has_flow f ys"
  by (auto simp: has_flow_def)

lemma has_flow_Cons [simp]: "has_flow f (g # fs) \<longleftrightarrow> flow_eq g f \<or> has_flow f fs" "\<not> has_flow f []"
  by (simp_all add: has_flow_def)

lemma flows_distinct_snoc: "flows_distinct (fs @ [f]) \<longleftrightarrow> flows_distinct fs \<and> \<not> has_flow f fs"
  by (induction fs) (auto simp: flow_eq_iff)

lemma has_flow_erase: "has_flow g (erase_flow f fs) \<Longrightarrow> has_flow g fs"
  by (induction fs) (auto split: if_splits)

lemma flows_distinct_erase: "flows_distinct fs \<Longrightarrow> flows_distinct (erase_flow f fs)"
  by (induction fs) (auto dest: has_flow_erase)

lemma erase_flow_snoc: "\<not> has_flow f fs \<Longrightarrow> erase_flow f (fs @ [f]) = fs"
  by (induction fs) (auto simp: flow_eq_iff)

lemma infos_ok_set:
  assumes "infos_ok names m" "pi_name i = k"
  shows "infos_ok (names @ [k]) (smap_set k i m)" "infos_ok names (smap_set k i m)"
  using assms by (auto simp: infos_ok_def smap_find_set)

lemma copy_info_find:
  assumes "from \<in> pi_name ` set is" "infos_ok names m"
  shows "infos_ok (names @ [to]) (copy_info from to is m)"
proof -
  let ?step = "\<lambda>i m. if pi_name i = from then smap_set to (i\<lparr>pi_name := to\<rparr>) m else m"
  have keep: "infos_ok (names @ [to]) (fold ?step xs m)" if "infos_ok (names @ [to]) m" for xs m
    using that
  proof (induction xs arbitrary: m)
    case (Cons i xs)
    have "infos_ok (names @ [to]) (?step i m)" using Cons.prems infos_ok_set(2)[OF Cons.prems, of "i\<lparr>pi_name := to\<rparr>" to] by simp
    then show ?case using Cons.IH by simp
  qed simp
  have "infos_ok (names @ [to]) (fold ?step is m)" using assms
  proof (induction "is" arbitrary: m)
    case (Cons i js)
    show ?case
    proof (cases "pi_name i = from")
      case True
      then show ?thesis using keep[of "?step i m" js] infos_ok_set(1)[OF Cons.prems(2)] by simp
    next
      case False
      then show ?thesis using Cons by auto
    qed
  qed simp
  then show ?thesis by (simp add: copy_info_def)
qed

lemma name_info_ok: "infos_ok names m \<Longrightarrow> infos_ok (names @ [k]) (name_info dt k m)"
  by (simp add: name_info_def infos_ok_set(1) split: option.split)

lemma hier_ports_ok:
  assumes "tp_ok t"
    and "po_obj (fl_src f) \<noteq> None \<longrightarrow> po_name (fl_src f) \<in> pi_name ` set outs"
    and "po_obj (fl_dst f) \<noteq> None \<longrightarrow> po_name (fl_dst f) \<in> pi_name ` set ins"
  shows "tp_ok (hier_ports env f outs ins t)" "tp_flows (hier_ports env f outs ins t) = tp_flows t"
  using assms by (cases "po_obj (fl_src f)"; cases "po_obj (fl_dst f)";
      simp add: hier_ports_def tp_ok_def copy_info_find name_info_ok)+

lemma net_ok_upd:
  assumes "net_ok n" "\<And>t. n_topo n u = Some t \<Longrightarrow> tp_ok t \<Longrightarrow> tp_ok (f t)"
  shows "net_ok (upd_topo u f n)"
  using assms by (auto simp: net_ok_def upd_topo_def split: if_splits)

lemma net_ok_world [simp]: "net_ok (n\<lparr>n_world := w\<rparr>) = net_ok n"
  by (simp add: net_ok_def)

lemma try_auto_topo [simp]:
  "n_topo (try_autoAllocateOutput env u x pid mid n) = n_topo n" "n_topo (try_autoAllocateInput u x pid n) = n_topo n"
  "n_topo (try_autoDeleteOutput u x n) = n_topo n" "n_topo (try_autoDeleteInput u x n) = n_topo n"
  by (simp_all add: try_autoAllocateOutput_def try_autoAllocateInput_def try_autoDeleteOutput_def try_autoDeleteInput_def
      split: sum.split)

lemma net_ok_cong: "n_topo n' = n_topo n \<Longrightarrow> net_ok n \<Longrightarrow> net_ok n'"
  by (simp add: net_ok_def)

lemma port_check_Inr: "port_check name r = Inr is \<longleftrightarrow> r = Inr is \<and> name \<in> pi_name ` set is"
  by (cases r) (auto simp: port_check_def)

lemma upd_topo_simps [simp]:
  "the_topo u (upd_topo u f n) = (if n_topo n u = None then tp_new else f (the_topo u n))"
  "u' \<noteq> u \<Longrightarrow> n_topo (upd_topo u f n) u' = n_topo n u'"
  "n_world (upd_topo u f n) = n_world n"
  by (auto simp: the_topo_def upd_topo_def split: option.split)

lemma tp_connect_ok:
  assumes "net_ok n" "tp_connect env u src srcName dst dstName pidOut midOut pidIn n = (n', e)"
  shows "net_ok n'"
proof (cases "src = None \<or> dst = None")
  case True
  then show ?thesis using assms by (auto simp: tp_connect_def split: option.splits)
next
  case False
  then obtain s d where sd: "src = Some s" "dst = Some d" by auto
  let ?f = "\<lparr>fl_src = makePort u s srcName, fl_dst = makePort u d dstName\<rparr>"
  let ?n = "try_autoAllocateInput d dstName pidIn (try_autoAllocateOutput env s srcName pidOut midOut n)"
  let ?outs = "if po_obj (fl_src ?f) \<noteq> None then port_check srcName (outputInfos s ?n) else Inr []"
  let ?ins = "if po_obj (fl_dst ?f) \<noteq> None then port_check dstName (inputInfos d ?n) else Inr []"
  have n: "net_ok ?n" by (rule net_ok_cong[OF _ assms(1)]) simp
  show ?thesis
  proof (cases "\<exists>a b. ?outs = Inr a \<and> ?ins = Inr b")
    case False
    then have "n' = ?n" using assms(2) unfolding tp_connect_def sd Let_def
      by (cases ?outs; cases ?ins) auto
    then show ?thesis using n by simp
  next
    case True
    then obtain a b where ab: "?outs = Inr a" "?ins = Inr b" by blast
    let ?m = "upd_topo u (hier_ports env ?f a b) ?n"
    have m: "net_ok ?m"
    proof (rule net_ok_upd[OF n])
      fix t assume "tp_ok t"
      then show "tp_ok (hier_ports env ?f a b t)"
        using ab by (intro hier_ports_ok) (auto simp: port_check_Inr makePort_def split: if_splits)
    qed
    have res: "(n', e) = (if has_flow ?f (tp_flows (the_topo u ?m)) then (?m, Some TopologyConnectError)
        else (upd_topo u (\<lambda>t. t\<lparr>tp_flows := tp_flows t @ [?f]\<rparr>) ?m, None))"
      using assms(2) ab unfolding tp_connect_def sd Let_def by simp
    show ?thesis
    proof (cases "has_flow ?f (tp_flows (the_topo u ?m))")
      case False
      have "net_ok (upd_topo u (\<lambda>t. t\<lparr>tp_flows := tp_flows t @ [?f]\<rparr>) ?m)"
        by (rule net_ok_upd[OF m]) (use False in \<open>auto simp: tp_ok_def flows_distinct_snoc the_topo_def\<close>)
      then show ?thesis using res False by simp
    qed (use res m in simp)
  qed
qed

lemma infos_ok_remove: "infos_ok names m \<Longrightarrow> infos_ok (remove1 x names) m"
  by (auto simp: infos_ok_def dest: notin_set_remove1)

lemma tp_disconnect_ok:
  assumes "net_ok n" "tp_disconnect u src srcName dst dstName n = (n', e)"
  shows "net_ok n'"
proof (cases "src = None \<or> dst = None")
  case True
  then show ?thesis using assms by (auto simp: tp_disconnect_def split: option.splits)
next
  case False
  then obtain s d where sd: "src = Some s" "dst = Some d" by auto
  let ?f = "\<lparr>fl_src = makePort u s srcName, fl_dst = makePort u d dstName\<rparr>"
  let ?m = "upd_topo u (\<lambda>t. t\<lparr>
      tp_outputPortNames := (if po_obj (fl_src ?f) = None then remove1 srcName (tp_outputPortNames t) else tp_outputPortNames t),
      tp_inputPortNames := (if po_obj (fl_dst ?f) = None then remove1 dstName (tp_inputPortNames t) else tp_inputPortNames t)\<rparr>) n"
  let ?k = "try_autoDeleteInput d dstName (try_autoDeleteOutput s srcName ?m)"
  have m: "net_ok ?m" by (rule net_ok_upd[OF assms(1)]) (simp add: tp_ok_def infos_ok_remove)
  have k: "net_ok ?k" by (rule net_ok_cong[OF _ m]) simp
  have "net_ok (upd_topo u (\<lambda>t. t\<lparr>tp_flows := erase_flow ?f (tp_flows t)\<rparr>) ?k)"
    by (rule net_ok_upd[OF k]) (simp add: tp_ok_def flows_distinct_erase)
  then show ?thesis using assms m unfolding tp_disconnect_def sd Let_def
    by (cases "port_check srcName (outputInfos s n)"; cases "port_check dstName (inputInfos d n)")
      (auto split: if_splits)
qed

lemma disconnect_own_ok: "net_ok n \<Longrightarrow> net_ok (disconnect_own u n)"
proof -
  assume n: "net_ok n"
  let ?step = "\<lambda>f n. let n = (case po_obj (fl_src f) of None \<Rightarrow> n | Some s \<Rightarrow> try_autoDeleteOutput s (po_name (fl_src f)) n)
            in (case po_obj (fl_dst f) of None \<Rightarrow> n | Some d \<Rightarrow> try_autoDeleteInput d (po_name (fl_dst f)) n)"
  have "n_topo (fold ?step fs m) = n_topo m" for fs m
    by (induction fs arbitrary: m) (simp_all add: Let_def split: option.split)
  then have "net_ok (fold ?step (tp_flows (the_topo u n)) n)" by (rule net_ok_cong[OF _ n])
  then show ?thesis unfolding disconnect_own_def by (rule net_ok_upd) (simp add: tp_ok_def)
qed

lemma tp_disconnectAll_ok:
  assumes "net_ok n" shows "net_ok (tp_disconnectAll recursive u n)"
proof -
  have sub: "net_ok m \<Longrightarrow> net_ok (try_disconnect_sub x m)" for x m
    by (simp add: try_disconnect_sub_def disconnect_own_ok split: option.split)
  have all: "net_ok m \<Longrightarrow> net_ok (fold (\<lambda>(f :: flow) n. try_disconnect_sub (po_obj (fl_dst f)) (try_disconnect_sub (po_obj (fl_src f)) n)) fs m)"
    for fs m by (induction fs arbitrary: m) (simp_all add: sub)
  show ?thesis unfolding tp_disconnectAll_def
    by (rule disconnect_own_ok) (use all[OF assms] assms in simp)
qed

lemma tp_new_ok: "tp_ok tp_new"
  by (simp add: tp_ok_def tp_new_def infos_ok_def)

lemma net_reach_ok: "net_reach n \<Longrightarrow> net_ok n"
proof (induction rule: net_reach.induct)
  case (net_next n n')
  from net_next(2) show ?case
  proof (rule net_stepE)
    fix u assume "n' = n\<lparr>n_topo := (n_topo n)(u \<mapsto> tp_new)\<rparr>"
    then show ?thesis using net_next(3) tp_new_ok by (simp add: net_ok_def)
  next
    fix env u src srcName dst dstName pidOut midOut pidIn e
    assume "tp_connect env u src srcName dst dstName pidOut midOut pidIn n = (n', e)"
    then show ?thesis by (rule tp_connect_ok[OF net_next(3)])
  next
    fix u src srcName dst dstName e
    assume "tp_disconnect u src srcName dst dstName n = (n', e)"
    then show ?thesis by (rule tp_disconnect_ok[OF net_next(3)])
  qed (simp_all add: tp_disconnectAll_ok net_next(3))
qed (simp add: net_ok_def)

lemma tp_portInfos_ok:
  assumes "infos_ok names m"
  shows "\<exists>is. tp_portInfos m seen names = Inr is \<and> set (map pi_name is) = set names - set seen \<and> distinct (map pi_name is)"
  using assms
proof (induction m seen names rule: tp_portInfos.induct)
  case (2 infos seen name names)
  have rest: "infos_ok names infos" using 2(3) by (simp add: infos_ok_def)
  show ?case
  proof (cases "name \<in> set seen")
    case True
    then show ?thesis using 2(1)[OF True rest] by auto
  next
    case False
    obtain i where i: "smap_find name infos = Some i" "pi_name i = name"
      using 2(3) by (auto simp: infos_ok_def)
    from 2(2)[OF False i(1) rest] obtain js where "tp_portInfos infos (name # seen) names = Inr js"
      "set (map pi_name js) = set names - set (name # seen)" "distinct (map pi_name js)" by blast
    then show ?thesis using False i by (intro exI[of _ "i # js"]) auto
  qed
qed simp

text \<open>C35: in every state that connections and disconnections (failed ones too) lead to, asking a topology for
  its ports never throws and names each of its hierarchy ports exactly once, and no flow is stored twice.\<close>
theorem topology_ports_ok:
  assumes "net_reach n" "n_topo n u = Some t"
  shows "\<exists>ins outs. inputPortNames u n = Inr ins \<and> set ins = set (tp_inputPortNames t) \<and> distinct ins
    \<and> outputPortNames u n = Inr outs \<and> set outs = set (tp_outputPortNames t) \<and> distinct outs
    \<and> flows_distinct (tp_flows t)"
proof -
  have ok: "tp_ok t" using net_reach_ok[OF assms(1)] assms(2) by (simp add: net_ok_def)
  obtain ks js where
    "tp_inputInfos t = Inr ks" "set (map pi_name ks) = set (tp_inputPortNames t)" "distinct (map pi_name ks)"
    "tp_outputInfos t = Inr js" "set (map pi_name js) = set (tp_outputPortNames t)" "distinct (map pi_name js)"
    using ok tp_portInfos_ok[of "tp_inputPortNames t" "tp_inputPortInfo t" "[]"]
      tp_portInfos_ok[of "tp_outputPortNames t" "tp_outputPortInfo t" "[]"]
    by (auto simp: tp_ok_def tp_inputInfos_def tp_outputInfos_def)
  then show ?thesis using assms(2) ok
    by (intro exI[of _ "map pi_name ks"] exI[of _ "map pi_name js"])
      (simp add: inputPortNames_def outputPortNames_def inputInfos_def outputInfos_def tp_ok_def)
qed

text \<open>A topology that connects its input straight to its output.\<close>

definition demo_net :: net where
  "demo_net = \<lparr>n_world = demo_world, n_topo = (\<lambda>_. None)(5 := Some tp_new)\<rparr>"

definition demo_through :: "net \<times> pothos_error option" where
  "demo_through = tp_connect demo_env 5 (Some 5) ''in'' (Some 5) ''out'' 0 0 0 demo_net"

lemma demo_through_eval:
  "n_topo (fst demo_through) 5 = Some (tp_new\<lparr>
     tp_flows := [\<lparr>fl_src = \<lparr>po_obj = None, po_name = ''in'', po_uid = 5\<rparr>, fl_dst = \<lparr>po_obj = None, po_name = ''out'', po_uid = 5\<rparr>\<rparr>],
     tp_inputPortNames := [''in''], tp_outputPortNames := [''out''],
     tp_inputPortInfo := [(''in'', \<lparr>pi_name = ''in'', pi_isSigSlot = False, pi_dtype = en_emptyDType demo_env\<rparr>)],
     tp_outputPortInfo := [(''out'', \<lparr>pi_name = ''out'', pi_isSigSlot = False, pi_dtype = en_emptyDType demo_env\<rparr>)]\<rparr>)"
  "snd demo_through = None"
  by (simp_all add: demo_through_def demo_net_def tp_connect_def Let_def makePort_def try_autoAllocateOutput_def
      try_autoAllocateInput_def hier_ports_def upd_topo_def the_topo_def tp_new_def name_info_def)

lemma demo_through_reach: "net_reach (fst demo_through)"
proof -
  have "net_reach \<lparr>n_world = demo_world, n_topo = \<lambda>_. None\<rparr>" by (rule net_start) simp
  then have "net_reach demo_net"
    by (rule net_next) (use step_make[of "\<lparr>n_world = demo_world, n_topo = \<lambda>_. None\<rparr>" 5] in \<open>simp add: demo_net_def\<close>)
  then show ?thesis
    by (rule net_next) (rule step_connect[of demo_env 5 "Some 5" "''in''" "Some 5" "''out''" 0 0 0 _ _ "snd demo_through"],
        simp add: demo_through_def)
qed

theorem topology_ports_ok_witness:
  "\<exists>ins outs. inputPortNames 5 (fst demo_through) = Inr ins \<and> set ins = {''in''}
     \<and> outputPortNames 5 (fst demo_through) = Inr outs \<and> set outs = {''out''}"
  using topology_ports_ok[OF demo_through_reach demo_through_eval(1)] by (auto simp: tp_new_def)

section \<open>Connection and disconnection\<close>

lemma the_topo_cong: "n_topo n = n_topo m \<Longrightarrow> the_topo u n = the_topo u m"
  by (simp add: the_topo_def)

text \<open>connecting two objects stores their flow once, or throws and stores nothing; the flow between the same
  ports cannot be stored a second time; and disconnecting it succeeds and gives the flows that there were
  before the connection.\<close>
theorem tp_connect_disconnect:
  assumes "n_topo n u = Some t" "s \<noteq> u" "d \<noteq> u"
    and "tp_connect env u (Some s) srcName (Some d) dstName p m q n = (n1, e)"
  defines "f \<equiv> \<lparr>fl_src = makePort u s srcName, fl_dst = makePort u d dstName\<rparr>"
  shows "case e of
      Some err \<Rightarrow> tp_flows (the_topo u n1) = tp_flows t
    | None \<Rightarrow> tp_flows (the_topo u n1) = tp_flows t @ [f] \<and> \<not> has_flow f (tp_flows t)
        \<and> snd (tp_connect env u (Some s) srcName (Some d) dstName p' m' q' n1) \<noteq> None
        \<and> (\<exists>n2. tp_disconnect u (Some s) srcName (Some d) dstName n1 = (n2, None) \<and> tp_flows (the_topo u n2) = tp_flows t)"
proof -
  let ?n = "try_autoAllocateInput d dstName q (try_autoAllocateOutput env s srcName p m n)"
  have obj: "po_obj (fl_src f) = Some s" "po_obj (fl_dst f) = Some d" using assms(2,3) by (simp_all add: f_def makePort_def)
  have t: "the_topo u ?n = t" "n_topo ?n u = Some t" using assms(1) by (simp_all add: the_topo_def)
  have hier: "hier_ports env f a b x = x" for a b x using obj by (simp add: hier_ports_def)
  have hier_fun: "hier_ports env f a b = (\<lambda>x. x)" for a b using hier by blast
  have id: "upd_topo u (\<lambda>x. x) k = k" for k by (simp add: upd_topo_def option.map_ident)
  have con: "tp_connect env u (Some s) srcName (Some d) dstName p m q k =
      (let k' = try_autoAllocateInput d dstName q (try_autoAllocateOutput env s srcName p m k)
       in case port_check srcName (outputInfos s k') of Inl e \<Rightarrow> (k', Some e) | Inr outs \<Rightarrow>
         (case port_check dstName (inputInfos d k') of Inl e \<Rightarrow> (k', Some e) | Inr ins \<Rightarrow>
           (if has_flow f (tp_flows (the_topo u k')) then (upd_topo u (\<lambda>x. x) k', Some TopologyConnectError)
            else (upd_topo u (\<lambda>t. t\<lparr>tp_flows := tp_flows t @ [f]\<rparr>) (upd_topo u (\<lambda>x. x) k'), None))))"
    if "n_topo k u \<noteq> None" for p m q k
    using that obj hier_fun unfolding tp_connect_def Let_def prod.case option.case f_def[symmetric]
    by (simp add: id split: sum.split)
  have "n_topo n u \<noteq> None" using assms(1) by simp
  note run = assms(4)[unfolded con[OF this] Let_def id t]
  show ?thesis
  proof (cases e)
    case None
    then obtain outs ins where pc: "port_check srcName (outputInfos s ?n) = Inr outs" "port_check dstName (inputInfos d ?n) = Inr ins"
      and new: "\<not> has_flow f (tp_flows t)" and n1: "n1 = upd_topo u (\<lambda>t. t\<lparr>tp_flows := tp_flows t @ [f]\<rparr>) ?n"
      using run by (auto split: sum.splits if_splits)
    have fl: "tp_flows (the_topo u n1) = tp_flows t @ [f]" "n_topo n1 u \<noteq> None"
      using t by (simp_all add: n1) (simp add: upd_topo_def)
    have again: "snd (tp_connect env u (Some s) srcName (Some d) dstName p' m' q' n1) \<noteq> None"
      using fl by (auto simp: con Let_def the_topo_def flow_eq_iff split: sum.split)
    have same: "outputInfos s n1 = outputInfos s ?n" "inputInfos d n1 = inputInfos d ?n"
      using assms(2,3) by (simp_all add: n1 inputInfos_def outputInfos_def split: option.split)
    let ?k = "try_autoDeleteInput d dstName (try_autoDeleteOutput s srcName (upd_topo u (\<lambda>x. x) n1))"
    have "tp_disconnect u (Some s) srcName (Some d) dstName n1
        = (upd_topo u (\<lambda>t. t\<lparr>tp_flows := erase_flow f (tp_flows t)\<rparr>) ?k, None)"
      using pc obj fl unfolding tp_disconnect_def Let_def prod.case option.case f_def[symmetric]
      by (simp add: same id flow_eq_iff split: sum.split)
    moreover have "tp_flows (the_topo u (upd_topo u (\<lambda>t. t\<lparr>tp_flows := erase_flow f (tp_flows t)\<rparr>) ?k)) = tp_flows t"
    proof -
      have "n_topo ?k = n_topo n1" by (simp add: id)
      then have "the_topo u ?k = the_topo u n1" "n_topo ?k u \<noteq> None" using fl(2) by (simp_all add: the_topo_def)
      then show ?thesis using fl(1) new by (auto simp: erase_flow_snoc)
    qed
    ultimately show ?thesis using None fl new again by auto
  next
    case (Some err)
    then have "n1 = ?n" using run by (auto split: sum.splits if_splits)
    then show ?thesis using Some t by simp
  qed
qed

definition demo_connected :: "net \<times> pothos_error option" where
  "demo_connected = tp_connect demo_env 5 (Some 1) ''0'' (Some 2) ''0'' 0 0 0 demo_net"

lemma demo_connected_ok: "snd demo_connected = None"
proof -
  have i: "portNameToIndex ''0'' = 0"
    by (simp add: portNameToIndex_def tryParseUnsigned_def strToInt_def is_space_def is_digit_def is_suffix_char_def
        digit_of_def UINT_MOD_def)
  show ?thesis
    by (simp add: demo_connected_def demo_net_def tp_connect_def Let_def makePort_def try_autoAllocateOutput_def
        try_autoAllocateInput_def hier_ports_def upd_topo_def the_topo_def tp_new_def port_check_def inputInfos_def
        outputInfos_def blk_outputPortInfo_def blk_inputPortInfo_def blk_output_def blk_input_def named_port_def
        demo_world_def demo_tables_def wa_autoAllocateOutput_def wa_autoAllocateInput_def pt_lower_of_def i)
qed

theorem tp_connect_disconnect_witness:
  "length (tp_flows (the_topo 5 (fst demo_connected))) = 1
    \<and> (\<exists>n2. tp_disconnect 5 (Some 1) ''0'' (Some 2) ''0'' (fst demo_connected) = (n2, None) \<and> tp_flows (the_topo 5 n2) = [])"
proof -
  have t: "n_topo demo_net 5 = Some tp_new" by (simp add: demo_net_def)
  have run: "tp_connect demo_env 5 (Some 1) ''0'' (Some 2) ''0'' 0 0 0 demo_net = (fst demo_connected, None)"
    using demo_connected_ok by (simp add: demo_connected_def prod_eq_iff)
  show ?thesis using tp_connect_disconnect[OF t _ _ run] by (auto simp: tp_new_def)
qed

section \<open>Divergences\<close>

text \<open>A flow from the topology's own input port cannot be disconnected: the name is looked up among the outputs.\<close>

lemma hier_disconnect_fails:
  assumes "outputPortNames u n = Inr names" "name \<notin> set names"
  shows "tp_disconnect u (Some u) name (Some d) dstName n = (n, Some TopologyConnectError)"
proof -
  obtain ks where "outputInfos u n = Inr ks" "names = map pi_name ks"
    using assms(1) by (cases "outputInfos u n") (auto simp: outputPortNames_def)
  then show ?thesis using assms(2) by (simp add: tp_disconnect_def port_check_def)
qed

text \<open>Connecting a second time throws and still adds the name of the hierarchy port again.\<close>

lemma duplicate_connect_adds_name:
  "snd (tp_connect demo_env 5 (Some 5) ''in'' (Some 5) ''out'' 0 0 0 (fst demo_through)) = Some TopologyConnectError
    \<and> tp_inputPortNames (the_topo 5 (fst (tp_connect demo_env 5 (Some 5) ''in'' (Some 5) ''out'' 0 0 0 (fst demo_through))))
      = [''in'', ''in'']"
  by (simp add: demo_through_def demo_net_def tp_connect_def Let_def makePort_def try_autoAllocateOutput_def
      try_autoAllocateInput_def hier_ports_def upd_topo_def the_topo_def tp_new_def name_info_def flow_eq_iff)

end
