(* ===== verification/TopologyFlows.thy ===== *)
theory TopologyFlows
  imports Topology
begin

text \<open>
  The flattening of a hierarchy of topologies to flows between blocks: lib/Framework/TopologySquashFlows.cpp
  and \<open>completePassThroughFlows\<close> of TopologyCommit.cpp. The recursion into the sub-topologies takes fuel
  (\<open>None\<close> is exhausted fuel; the code would not return from a topology that contains itself); more fuel
  than the depth of the hierarchy is enough. The futures of the code compute functions of the flows, so their
  results are taken in the order in which the code reads them.
\<close>

section \<open>Resolution of ports\<close>

fun opt_concat :: "('a \<Rightarrow> 'b list option) \<Rightarrow> 'a list \<Rightarrow> 'b list option" where
  "opt_concat f [] = Some []"
| "opt_concat f (x # xs) = (case f x of None \<Rightarrow> None | Some ys \<Rightarrow>
     (case opt_concat f xs of None \<Rightarrow> None | Some zs \<Rightarrow> Some (ys @ zs)))"

text \<open>The loop body of \<open>resolvePortsFromTopology\<close>; \<open>resolve\<close> is the recursion.\<close>

definition resolve_flow :: "(port \<Rightarrow> port list option) \<Rightarrow> bool \<Rightarrow> string \<Rightarrow> flow \<Rightarrow> port list option" where
  "resolve_flow resolve isSource portName f =
     (if isSource \<and> po_name (fl_dst f) = portName \<and> po_obj (fl_dst f) = None
      then (if po_obj (fl_src f) \<noteq> None then resolve (fl_src f) else Some [fl_src f])
      else if \<not> isSource \<and> po_name (fl_src f) = portName \<and> po_obj (fl_src f) = None
      then (if po_obj (fl_dst f) \<noteq> None then resolve (fl_dst f) else Some [fl_dst f])
      else Some [])"

definition resolvePortsFromTopology :: "(port \<Rightarrow> port list option) \<Rightarrow> topology \<Rightarrow> string \<Rightarrow> bool \<Rightarrow> port list option" where
  "resolvePortsFromTopology resolve t portName isSource = opt_concat (resolve_flow resolve isSource portName) (tp_flows t)"

text \<open>The call on a null object or on a block throws, and the port stands for itself.\<close>

primrec resolvePorts :: "nat \<Rightarrow> net \<Rightarrow> bool \<Rightarrow> port \<Rightarrow> port list option" where
  "resolvePorts 0 n isSource p = None"
| "resolvePorts (Suc k) n isSource p =
     (case po_obj p of
        None \<Rightarrow> Some [p]
      | Some u \<Rightarrow> (case n_topo n u of
            None \<Rightarrow> Some [p]
          | Some t \<Rightarrow> resolvePortsFromTopology (resolvePorts k n isSource) t (po_name p) isSource))"

section \<open>Squashing\<close>

definition is_inner :: "flow \<Rightarrow> bool" where
  "is_inner f \<longleftrightarrow> po_obj (fl_src f) \<noteq> None \<and> po_obj (fl_dst f) \<noteq> None"

definition is_pass :: "flow \<Rightarrow> bool" where
  "is_pass f \<longleftrightarrow> po_obj (fl_src f) = None \<and> po_obj (fl_dst f) = None"

definition add_uid :: "port \<Rightarrow> (nat \<times> nat) list \<Rightarrow> (nat \<times> nat) list" where
  "add_uid p m = (case po_obj p of None \<Rightarrow> m | Some u \<Rightarrow> smap_set (po_uid p) u m)"

definition uidToObj :: "flow list \<Rightarrow> (nat \<times> nat) list" where
  "uidToObj fs = fold (\<lambda>f m. add_uid (fl_dst f) (add_uid (fl_src f) m)) fs []"

definition flow_pairs :: "port list \<Rightarrow> port list \<Rightarrow> flow list" where
  "flow_pairs srcs dsts = concat (map (\<lambda>s. map (\<lambda>d. \<lparr>fl_src = s, fl_dst = d\<rparr>) dsts) srcs)"

primrec squashFlows :: "nat \<Rightarrow> net \<Rightarrow> flow list \<Rightarrow> flow list option" where
  "squashFlows 0 n fs = None"
| "squashFlows (Suc k) n fs =
     (case opt_concat (\<lambda>f.
             case (resolvePorts k n True (fl_src f), resolvePorts k n False (fl_dst f)) of
               (Some srcs, Some dsts) \<Rightarrow> Some (flow_pairs srcs dsts) | _ \<Rightarrow> None) (filter is_inner fs) of
        None \<Rightarrow> None
      | Some flatFlows \<Rightarrow>
          (case opt_concat (\<lambda>(uid, u). case n_topo n u of None \<Rightarrow> Some [] | Some t \<Rightarrow> squashFlows k n (tp_flows t))
                  (uidToObj fs) of
             None \<Rightarrow> None
           | Some subFlows \<Rightarrow> Some (flatFlows @ subFlows @ filter is_pass fs)))"

section \<open>Completion\<close>

definition completePassThroughFlows :: "flow list \<Rightarrow> flow list" where
  "completePassThroughFlows flows =
     concat (map (\<lambda>flow.
       if po_obj (fl_src flow) \<noteq> None \<or> po_obj (fl_dst flow) \<noteq> None then [] else
       concat (map (\<lambda>flowTail.
         if po_obj (fl_dst flowTail) = None then [] else
         concat (map (\<lambda>flowHead.
           if po_obj (fl_src flowHead) = None then [] else
           if port_eq (fl_src flow) (fl_src flowTail) \<and> port_eq (fl_dst flow) (fl_dst flowHead)
           then [\<lparr>fl_src = fl_src flowHead, fl_dst = fl_dst flowTail\<rparr>] else []) flows)) flows)) flows)
     @ filter is_inner flows"

section \<open>What the hierarchy means\<close>

text \<open>The topologies below \<open>r\<close>.\<close>

inductive below :: "net \<Rightarrow> nat \<Rightarrow> nat \<Rightarrow> bool" for n r where
  below_refl: "n_topo n r = Some t \<Longrightarrow> below n r r"
| below_sub: "below n r u \<Longrightarrow> n_topo n u = Some t \<Longrightarrow> f \<in> set (tp_flows t)
    \<Longrightarrow> po_obj (fl_src f) = Some v \<or> po_obj (fl_dst f) = Some v \<Longrightarrow> n_topo n v = Some t' \<Longrightarrow> below n r v"

definition hier_flow :: "net \<Rightarrow> nat \<Rightarrow> nat \<Rightarrow> flow \<Rightarrow> bool" where
  "hier_flow n r u f \<longleftrightarrow> below n r u \<and> (\<exists>t. n_topo n u = Some t \<and> f \<in> set (tp_flows t))"

text \<open>The points that data passes: outputs and inputs of blocks and topologies. A flow takes data from its source
  to its destination; inside of a topology its inputs are sources and its outputs are destinations. \<open>wired\<close>
  counts the pass-through flows on the way.\<close>

datatype point = OutOf nat string | InTo nat string

definition src_point :: "flow \<Rightarrow> point" where
  "src_point f = (case po_obj (fl_src f) of Some v \<Rightarrow> OutOf v (po_name (fl_src f))
     | None \<Rightarrow> InTo (po_uid (fl_src f)) (po_name (fl_src f)))"

definition dst_point :: "flow \<Rightarrow> point" where
  "dst_point f = (case po_obj (fl_dst f) of Some v \<Rightarrow> InTo v (po_name (fl_dst f))
     | None \<Rightarrow> OutOf (po_uid (fl_dst f)) (po_name (fl_dst f)))"

inductive wired :: "net \<Rightarrow> nat \<Rightarrow> nat \<Rightarrow> point \<Rightarrow> point \<Rightarrow> bool" for n r where
  wired_refl: "wired n r 0 a a"
| wired_step: "wired n r j a (src_point f) \<Longrightarrow> hier_flow n r u f
    \<Longrightarrow> wired n r (if is_pass f then Suc j else j) a (dst_point f)"

text \<open>What a port resolves to, as a relation.\<close>

inductive leads :: "net \<Rightarrow> bool \<Rightarrow> port \<Rightarrow> port \<Rightarrow> bool" for n where
  leads_end: "po_obj p = None \<or> (po_obj p = Some u \<and> n_topo n u = None) \<Longrightarrow> leads n isSource p p"
| leads_src: "po_obj p = Some u \<Longrightarrow> n_topo n u = Some t \<Longrightarrow> f \<in> set (tp_flows t) \<Longrightarrow> po_obj (fl_dst f) = None
    \<Longrightarrow> po_name (fl_dst f) = po_name p \<Longrightarrow> leads n True (fl_src f) q \<Longrightarrow> leads n True p q"
| leads_dst: "po_obj p = Some u \<Longrightarrow> n_topo n u = Some t \<Longrightarrow> f \<in> set (tp_flows t) \<Longrightarrow> po_obj (fl_src f) = None
    \<Longrightarrow> po_name (fl_src f) = po_name p \<Longrightarrow> leads n False (fl_dst f) q \<Longrightarrow> leads n False p q"

inductive_cases leads_cases: "leads n isSource p q"
inductive_simps leads_iff: "leads n isSource p q"

text \<open>Flows as \<open>connect\<close> makes them in a topology \<open>u\<close>.\<close>

definition port_wf :: "nat \<Rightarrow> port \<Rightarrow> bool" where
  "port_wf u p \<longleftrightarrow> p = \<lparr>po_obj = (if po_uid p \<noteq> u then Some (po_uid p) else None), po_name = po_name p, po_uid = po_uid p\<rparr>"

definition net_wf :: "net \<Rightarrow> bool" where
  "net_wf n \<longleftrightarrow> (\<forall>u t f. n_topo n u = Some t \<longrightarrow> f \<in> set (tp_flows t) \<longrightarrow> port_wf u (fl_src f) \<and> port_wf u (fl_dst f))"

section \<open>Squashing is exact\<close>

lemma opt_concat_Some: "opt_concat f xs = Some ys \<Longrightarrow> x \<in> set xs \<Longrightarrow> \<exists>zs. f x = Some zs"
  by (induction xs arbitrary: ys) (auto split: option.splits)

lemma opt_concat_set:
  "opt_concat f xs = Some ys \<Longrightarrow> y \<in> set ys \<longleftrightarrow> (\<exists>x \<in> set xs. \<exists>zs. f x = Some zs \<and> y \<in> set zs)"
  by (induction xs arbitrary: ys) (auto split: option.splits)

lemma opt_concat_total: "(\<And>x. x \<in> set xs \<Longrightarrow> f x \<noteq> None) \<Longrightarrow> opt_concat f xs \<noteq> None"
proof (induction xs)
  case (Cons x xs)
  have "f x \<noteq> None" "opt_concat f xs \<noteq> None" using Cons by simp_all
  then show ?case by (auto split: option.split)
qed simp

lemma leads_null: "po_obj p = None \<Longrightarrow> leads n isSource p q \<longleftrightarrow> q = p"
  by (auto elim: leads_cases intro: leads_end)

lemma resolvePorts_leads:
  "resolvePorts k n isSource p = Some qs \<Longrightarrow> q \<in> set qs \<longleftrightarrow> leads n isSource p q"
proof (induction k arbitrary: p qs q)
  case (Suc k)
  show ?case
  proof (cases "\<exists>u t. po_obj p = Some u \<and> n_topo n u = Some t")
    case False
    then have "qs = [p]" using Suc.prems by (auto split: option.splits)
    moreover have "leads n isSource p q \<longleftrightarrow> q = p" using False by (cases "po_obj p") (auto elim: leads_cases intro: leads_end)
    ultimately show ?thesis by auto
  next
    case True
    then obtain u t where p: "po_obj p = Some u" "n_topo n u = Some t" by blast
    have qs: "opt_concat (resolve_flow (resolvePorts k n isSource) isSource (po_name p)) (tp_flows t) = Some qs"
      using Suc.prems p by (simp add: resolvePortsFromTopology_def)
    have one: "(\<exists>zs. resolve_flow (resolvePorts k n isSource) isSource (po_name p) f = Some zs \<and> q \<in> set zs)
      \<longleftrightarrow> (isSource \<and> po_name (fl_dst f) = po_name p \<and> po_obj (fl_dst f) = None \<and> leads n isSource (fl_src f) q)
        \<or> (\<not> isSource \<and> po_name (fl_src f) = po_name p \<and> po_obj (fl_src f) = None \<and> leads n isSource (fl_dst f) q)"
      if f: "f \<in> set (tp_flows t)" for f
    proof -
      obtain zs where z: "resolve_flow (resolvePorts k n isSource) isSource (po_name p) f = Some zs"
        using opt_concat_Some[OF qs f] by blast
      have null: "leads n isSource x q \<longleftrightarrow> q = x" if "po_obj x = None" for x
        using that by (auto elim: leads_cases intro: leads_end)
      show ?thesis using z Suc.IH null
        by (auto simp: resolve_flow_def split: if_splits)
    qed
    have "q \<in> set qs \<longleftrightarrow> (\<exists>f \<in> set (tp_flows t).
        (isSource \<and> po_name (fl_dst f) = po_name p \<and> po_obj (fl_dst f) = None \<and> leads n isSource (fl_src f) q)
        \<or> (\<not> isSource \<and> po_name (fl_src f) = po_name p \<and> po_obj (fl_src f) = None \<and> leads n isSource (fl_dst f) q))"
      unfolding opt_concat_set[OF qs] using one by blast
    also have "\<dots> \<longleftrightarrow> leads n isSource p q"
      unfolding leads_iff[of n isSource p q] using p by auto
    finally show ?thesis .
  qed
qed simp

lemma uidToObj_set:
  assumes "\<And>f. f \<in> set fs \<Longrightarrow> port_wf u (fl_src f) \<and> port_wf u (fl_dst f)"
  shows "(\<exists>x. (x, v) \<in> set (uidToObj fs)) \<longleftrightarrow> (\<exists>f \<in> set fs. po_obj (fl_src f) = Some v \<or> po_obj (fl_dst f) = Some v)"
proof -
  let ?step = "\<lambda>f m. add_uid (fl_dst f) (add_uid (fl_src f) m)"
  define same :: "(nat \<times> nat) list \<Rightarrow> bool" where "same m \<longleftrightarrow> (\<forall>(x, w) \<in> set m. x = w)" for m
  have set1: "set (smap_set x x m) = insert (x, x) (set m)" if "same m" for x :: nat and m
    using that unfolding same_def by (induction m) (auto split: if_splits)
  have add: "same (add_uid p m)" "(v, v) \<in> set (add_uid p m) \<longleftrightarrow> (v, v) \<in> set m \<or> po_obj p = Some v"
    if "same m" "port_wf u p" for p m v
  proof -
    have "po_uid p = w" if "po_obj p = Some w" for w
      using \<open>port_wf u p\<close> that unfolding port_wf_def
      by (metis option.distinct(1) option.inject port.select_convs(1))
    then have "same (add_uid p m) \<and> ((v, v) \<in> set (add_uid p m) \<longleftrightarrow> (v, v) \<in> set m \<or> po_obj p = Some v)"
      using that(1) set1[OF that(1)] by (cases "po_obj p") (auto simp: add_uid_def same_def)
    then show "same (add_uid p m)" "(v, v) \<in> set (add_uid p m) \<longleftrightarrow> (v, v) \<in> set m \<or> po_obj p = Some v" by auto
  qed
  have "same (fold ?step fs m) \<and> ((v, v) \<in> set (fold ?step fs m)
      \<longleftrightarrow> (v, v) \<in> set m \<or> (\<exists>f \<in> set fs. po_obj (fl_src f) = Some v \<or> po_obj (fl_dst f) = Some v))"
    if "same m" for m v using that assms
  proof (induction fs arbitrary: m)
    case (Cons f fs)
    have wf: "port_wf u (fl_src f)" "port_wf u (fl_dst f)" using Cons.prems(2) by auto
    note m1 = add[OF Cons.prems(1) wf(1)]
    note m2 = add[OF m1(1) wf(2)]
    show ?case using Cons.IH[OF m2(1)] Cons.prems(2) m1(2) m2(2) by auto
  qed simp
  moreover have "same []" by (simp add: same_def)
  ultimately have "same (fold ?step fs [])"
    "(v, v) \<in> set (fold ?step fs []) \<longleftrightarrow> (v, v) \<in> set [] \<or> (\<exists>f \<in> set fs. po_obj (fl_src f) = Some v \<or> po_obj (fl_dst f) = Some v)"
    by blast+
  then have "same (uidToObj fs)"
    "(v, v) \<in> set (uidToObj fs) \<longleftrightarrow> (\<exists>f \<in> set fs. po_obj (fl_src f) = Some v \<or> po_obj (fl_dst f) = Some v)"
    by (simp_all add: uidToObj_def)
  moreover have "(\<exists>x. (x, v) \<in> set (uidToObj fs)) \<longleftrightarrow> (v, v) \<in> set (uidToObj fs)"
    using \<open>same (uidToObj fs)\<close> unfolding same_def by fastforce
  ultimately show ?thesis by argo
qed

lemma flow_pairs_set: "f \<in> set (flow_pairs ss ds) \<longleftrightarrow> fl_src f \<in> set ss \<and> fl_dst f \<in> set ds"
  by (cases f) (auto simp: flow_pairs_def)

text \<open>The flows that squashing gives, relative to the flow of the hierarchy that each comes from.\<close>

definition squashed :: "net \<Rightarrow> flow \<Rightarrow> flow \<Rightarrow> bool" where
  "squashed n g f \<longleftrightarrow> (is_inner g \<and> leads n True (fl_src g) (fl_src f) \<and> leads n False (fl_dst g) (fl_dst f))
     \<or> (is_pass g \<and> f = g)"

lemma below_trans: "below n u v \<Longrightarrow> below n r u \<Longrightarrow> below n r v"
  by (induction rule: below.induct) (auto intro: below_sub)

lemma below_unfold:
  assumes "n_topo n r = Some t"
  shows "below n r v \<longleftrightarrow> v = r \<or> (\<exists>f \<in> set (tp_flows t). \<exists>w t'. (po_obj (fl_src f) = Some w \<or> po_obj (fl_dst f) = Some w)
      \<and> n_topo n w = Some t' \<and> below n w v)"
proof
  assume "below n r v"
  then show "v = r \<or> (\<exists>f \<in> set (tp_flows t). \<exists>w t'. (po_obj (fl_src f) = Some w \<or> po_obj (fl_dst f) = Some w)
      \<and> n_topo n w = Some t' \<and> below n w v)"
  proof (induction rule: below.induct)
    case (below_sub u tu f v t')
    from below_sub.IH show ?case
    proof
      assume "u = r"
      then have "f \<in> set (tp_flows t)" using below_sub(2,3) assms by simp
      then show ?thesis using below_sub(4,5) below_refl by blast
    qed (use below_sub in \<open>blast intro: below.below_sub\<close>)
  qed simp
next
  assume "v = r \<or> (\<exists>f \<in> set (tp_flows t). \<exists>w t'. (po_obj (fl_src f) = Some w \<or> po_obj (fl_dst f) = Some w)
      \<and> n_topo n w = Some t' \<and> below n w v)"
  then show "below n r v" using assms below_refl below_sub below_trans by blast
qed

lemma hier_flow_unfold:
  assumes "n_topo n r = Some t"
  shows "hier_flow n r v g \<longleftrightarrow> (v = r \<and> g \<in> set (tp_flows t))
    \<or> (\<exists>f \<in> set (tp_flows t). \<exists>w t'. (po_obj (fl_src f) = Some w \<or> po_obj (fl_dst f) = Some w)
        \<and> n_topo n w = Some t' \<and> hier_flow n w v g)"
proof -
  have "hier_flow n r v g \<longleftrightarrow> (v = r \<and> (\<exists>t. n_topo n v = Some t \<and> g \<in> set (tp_flows t)))
    \<or> (\<exists>f \<in> set (tp_flows t). \<exists>w t'. (po_obj (fl_src f) = Some w \<or> po_obj (fl_dst f) = Some w)
        \<and> n_topo n w = Some t' \<and> hier_flow n w v g)"
    unfolding hier_flow_def below_unfold[OF assms] by blast
  then show ?thesis using assms by auto
qed

lemma squashFlows_exact:
  assumes "net_wf n"
  shows "n_topo n r = Some t \<Longrightarrow> squashFlows k n (tp_flows t) = Some out
    \<Longrightarrow> f \<in> set out \<longleftrightarrow> (\<exists>u g. hier_flow n r u g \<and> squashed n g f)"
proof (induction k arbitrary: r t out f)
  case (Suc k)
  let ?one = "\<lambda>g. case (resolvePorts k n True (fl_src g), resolvePorts k n False (fl_dst g)) of
               (Some srcs, Some dsts) \<Rightarrow> Some (flow_pairs srcs dsts) | _ \<Rightarrow> None"
  let ?sub = "\<lambda>(uid, u). case n_topo n u of None \<Rightarrow> Some [] | Some t \<Rightarrow> squashFlows k n (tp_flows t)"
  obtain a b where a: "opt_concat ?one (filter is_inner (tp_flows t)) = Some a"
    and b: "opt_concat ?sub (uidToObj (tp_flows t)) = Some b" and out: "out = a @ b @ filter is_pass (tp_flows t)"
    using Suc.prems(2) by (auto split: option.splits)
  have wf: "\<And>g. g \<in> set (tp_flows t) \<Longrightarrow> port_wf r (fl_src g) \<and> port_wf r (fl_dst g)"
    using assms Suc.prems(1) by (auto simp: net_wf_def)
  have "f \<in> set a \<longleftrightarrow> (\<exists>g \<in> set (tp_flows t). is_inner g \<and> (\<exists>zs. ?one g = Some zs \<and> f \<in> set zs))"
    unfolding opt_concat_set[OF a] by auto
  also have "\<dots> \<longleftrightarrow> (\<exists>g \<in> set (tp_flows t). is_inner g \<and> leads n True (fl_src g) (fl_src f) \<and> leads n False (fl_dst g) (fl_dst f))"
  proof (intro bex_cong refl conj_cong)
    fix g assume g: "g \<in> set (tp_flows t)" "is_inner g"
    obtain zs where "?one g = Some zs" using opt_concat_Some[OF a, of g] g by auto
    then show "(\<exists>zs. ?one g = Some zs \<and> f \<in> set zs)
        \<longleftrightarrow> leads n True (fl_src g) (fl_src f) \<and> leads n False (fl_dst g) (fl_dst f)"
      by (auto simp: flow_pairs_set resolvePorts_leads split: option.splits)
  qed
  finally have ina: "f \<in> set a \<longleftrightarrow> (\<exists>g \<in> set (tp_flows t). is_inner g \<and> squashed n g f)"
    by (auto simp: squashed_def is_inner_def is_pass_def)
  have "f \<in> set b \<longleftrightarrow> (\<exists>x w. (x, w) \<in> set (uidToObj (tp_flows t)) \<and> (\<exists>zs. ?sub (x, w) = Some zs \<and> f \<in> set zs))"
    unfolding opt_concat_set[OF b] Bex_def split_paired_Ex by (rule refl)
  also have "\<dots> \<longleftrightarrow> (\<exists>x w t'. (x, w) \<in> set (uidToObj (tp_flows t)) \<and> n_topo n w = Some t'
      \<and> (\<exists>u g. hier_flow n w u g \<and> squashed n g f))"
  proof -
    have "(\<exists>zs. ?sub (x, w) = Some zs \<and> f \<in> set zs) \<longleftrightarrow> (\<exists>t'. n_topo n w = Some t' \<and> (\<exists>u g. hier_flow n w u g \<and> squashed n g f))"
      if mem: "(x, w) \<in> set (uidToObj (tp_flows t))" for x w
    proof -
      obtain zs where z: "?sub (x, w) = Some zs" using opt_concat_Some[OF b mem] by blast
      show ?thesis
      proof (cases "n_topo n w")
        case (Some t')
        then have "squashFlows k n (tp_flows t') = Some zs" using z by simp
        from Suc.IH[OF Some this, of f] show ?thesis using z Some by simp
      qed (use z in simp)
    qed
    then show ?thesis by blast
  qed
  finally have inb: "f \<in> set b \<longleftrightarrow> (\<exists>w t'. (\<exists>h \<in> set (tp_flows t). po_obj (fl_src h) = Some w \<or> po_obj (fl_dst h) = Some w)
      \<and> n_topo n w = Some t' \<and> (\<exists>u g. hier_flow n w u g \<and> squashed n g f))"
    using uidToObj_set[OF wf, of "tp_flows t"] by blast
  have pass: "f \<in> set (filter is_pass (tp_flows t)) \<longleftrightarrow> (\<exists>g \<in> set (tp_flows t). is_pass g \<and> squashed n g f)"
    by (auto simp: squashed_def is_inner_def is_pass_def)
  have own: "(\<exists>g \<in> set (tp_flows t). is_inner g \<and> squashed n g f) \<or> (\<exists>g \<in> set (tp_flows t). is_pass g \<and> squashed n g f)
      \<longleftrightarrow> (\<exists>g \<in> set (tp_flows t). squashed n g f)"
    by (auto simp: squashed_def)
  have "f \<in> set out \<longleftrightarrow> (\<exists>g \<in> set (tp_flows t). squashed n g f) \<or> f \<in> set b"
    unfolding out set_append Un_iff using ina pass own by blast
  also have "\<dots> \<longleftrightarrow> (\<exists>u g. hier_flow n r u g \<and> squashed n g f)"
    unfolding inb hier_flow_unfold[OF Suc.prems(1)] by blast
  finally show ?case .
qed simp

section \<open>Squashing returns\<close>

text \<open>Hierarchies without a cycle, by a rank on the objects.\<close>

definition ranked :: "(nat \<Rightarrow> nat) \<Rightarrow> net \<Rightarrow> bool" where
  "ranked rank n \<longleftrightarrow> (\<forall>u t f v. n_topo n u = Some t \<longrightarrow> f \<in> set (tp_flows t)
     \<longrightarrow> po_obj (fl_src f) = Some v \<or> po_obj (fl_dst f) = Some v \<longrightarrow> rank v < rank u)"

lemma resolvePorts_total:
  assumes "ranked rank n"
  shows "(\<And>u. po_obj p = Some u \<Longrightarrow> rank u < k) \<Longrightarrow> 0 < k \<Longrightarrow> resolvePorts k n isSource p \<noteq> None"
proof (induction k arbitrary: p)
  case (Suc k)
  show ?case
  proof (cases "\<exists>u t. po_obj p = Some u \<and> n_topo n u = Some t")
    case True
    then obtain u t where p: "po_obj p = Some u" "n_topo n u = Some t" by blast
    have "resolve_flow (resolvePorts k n isSource) isSource (po_name p) f \<noteq> None" if f: "f \<in> set (tp_flows t)" for f
    proof -
      have "resolvePorts k n isSource e \<noteq> None" if "e \<in> {fl_src f, fl_dst f}" "po_obj e \<noteq> None" for e
      proof -
        have "rank v < k" if "po_obj e = Some v" for v
          using assms p f \<open>e \<in> _\<close> that Suc.prems(1)[OF p(1)] unfolding ranked_def
          by (metis empty_iff insert_iff less_Suc_eq_le order_less_le_trans)
        moreover from this \<open>po_obj e \<noteq> None\<close> have "0 < k" by auto
        ultimately show ?thesis using Suc.IH by blast
      qed
      then show ?thesis by (auto simp: resolve_flow_def)
    qed
    then have "opt_concat (resolve_flow (resolvePorts k n isSource) isSource (po_name p)) (tp_flows t) \<noteq> None"
      by (rule opt_concat_total)
    then show ?thesis using p by (simp add: resolvePortsFromTopology_def)
  qed (auto split: option.splits)
qed simp

lemma squashFlows_total:
  assumes "ranked rank n" "net_wf n"
  shows "n_topo n u = Some t \<Longrightarrow> rank u < k \<Longrightarrow> squashFlows (Suc k) n (tp_flows t) \<noteq> None"
proof (induction k arbitrary: u t)
  case (Suc k)
  have less: "rank v < rank u" if "f \<in> set (tp_flows t)" "po_obj (fl_src f) = Some v \<or> po_obj (fl_dst f) = Some v" for f v
    using assms(1) Suc.prems(1) that unfolding ranked_def by blast
  have wf: "\<And>g. g \<in> set (tp_flows t) \<Longrightarrow> port_wf u (fl_src g) \<and> port_wf u (fl_dst g)"
    using assms(2) Suc.prems(1) by (auto simp: net_wf_def)
  let ?one = "\<lambda>g. case (resolvePorts (Suc k) n True (fl_src g), resolvePorts (Suc k) n False (fl_dst g)) of
               (Some srcs, Some dsts) \<Rightarrow> Some (flow_pairs srcs dsts) | _ \<Rightarrow> None"
  let ?sub = "\<lambda>(uid, u). case n_topo n u of None \<Rightarrow> Some [] | Some t \<Rightarrow> squashFlows (Suc k) n (tp_flows t)"
  have "opt_concat ?one (filter is_inner (tp_flows t)) \<noteq> None"
  proof (rule opt_concat_total)
    fix g assume "g \<in> set (filter is_inner (tp_flows t))"
    then have "\<And>v. po_obj (fl_src g) = Some v \<or> po_obj (fl_dst g) = Some v \<Longrightarrow> rank v < Suc k"
      using less[of g] Suc.prems(2) by fastforce
    then have "resolvePorts (Suc k) n True (fl_src g) \<noteq> None" "resolvePorts (Suc k) n False (fl_dst g) \<noteq> None"
      by (intro resolvePorts_total[OF assms(1)]; simp)+
    then show "?one g \<noteq> None" by (auto simp del: resolvePorts.simps)
  qed
  moreover have "opt_concat ?sub (uidToObj (tp_flows t)) \<noteq> None"
  proof (rule opt_concat_total)
    fix xv assume "xv \<in> set (uidToObj (tp_flows t))"
    moreover obtain x v where "xv = (x, v)" by (cases xv)
    ultimately have xv: "xv = (x, v)" "(x, v) \<in> set (uidToObj (tp_flows t))" by simp_all
    then have "\<exists>f \<in> set (tp_flows t). po_obj (fl_src f) = Some v \<or> po_obj (fl_dst f) = Some v"
      using uidToObj_set[OF wf] by blast
    then have "rank v < k" using less Suc.prems(2) by fastforce
    then show "?sub xv \<noteq> None" using Suc.IH xv(1) by (auto split: option.split)
  qed
  ultimately obtain a b where "opt_concat ?one (filter is_inner (tp_flows t)) = Some a"
    "opt_concat ?sub (uidToObj (tp_flows t)) = Some b" by blast
  then have "squashFlows (Suc (Suc k)) n (tp_flows t) = Some (a @ b @ filter is_pass (tp_flows t))"
    by (subst squashFlows.simps(2)) simp
  then show ?case by simp
qed simp

section \<open>Flattening is exact\<close>

definition bport :: "nat \<Rightarrow> string \<Rightarrow> port" where
  "bport v x = \<lparr>po_obj = Some v, po_name = x, po_uid = v\<rparr>"

lemma wired_trans: "wired n r j b c \<Longrightarrow> wired n r i a b \<Longrightarrow> wired n r (i + j) a c"
proof (induction rule: wired.induct)
  case (wired_step j f u)
  from wired.wired_step[OF wired_step.IH[OF wired_step.prems] wired_step.hyps(2)]
  show ?case by (simp split: if_splits)
qed simp

lemma wired_one: "hier_flow n r u f \<Longrightarrow> wired n r (if is_pass f then 1 else 0) (src_point f) (dst_point f)"
  using wired_step[OF wired_refl] by (metis One_nat_def)

lemma port_wf_obj: "port_wf u p \<Longrightarrow> po_obj p = Some v \<Longrightarrow> p = bport v (po_name p)"
  unfolding port_wf_def bport_def by (metis option.distinct(1) option.inject port.select_convs(1))

lemma port_wf_null: "port_wf u p \<Longrightarrow> po_obj p = None \<Longrightarrow> p = \<lparr>po_obj = None, po_name = po_name p, po_uid = u\<rparr>"
  unfolding port_wf_def by (metis option.distinct(1) port.select_convs(1))

lemma hier_flow_wf: "net_wf n \<Longrightarrow> hier_flow n r u f \<Longrightarrow> port_wf u (fl_src f) \<and> port_wf u (fl_dst f)"
  unfolding hier_flow_def net_wf_def by blast

lemma hier_flow_sub:
  assumes "hier_flow n r u f" "po_obj (fl_src f) = Some v \<or> po_obj (fl_dst f) = Some v" "n_topo n v = Some t" "g \<in> set (tp_flows t)"
  shows "hier_flow n r v g"
  using assms below_sub unfolding hier_flow_def by blast

text \<open>Paths that follow a resolution: from the resolved source, or from the pass-through flow that ends it.\<close>

lemma leads_src_wired:
  assumes wf: "net_wf n"
  shows "leads n True p q \<Longrightarrow> p = bport v x \<Longrightarrow> (n_topo n v \<noteq> None \<longrightarrow> below n r v)
    \<Longrightarrow> (case po_obj q of
          Some w \<Rightarrow> n_topo n w = None \<and> q = bport w (po_name q) \<and> wired n r 0 (OutOf w (po_name q)) (OutOf v x)
        | None \<Rightarrow> \<exists>u' g. hier_flow n r u' g \<and> is_pass g \<and> fl_src g = q \<and> wired n r 0 (dst_point g) (OutOf v x))"
proof (induction "True" p q arbitrary: v x rule: leads.induct)
  case (leads_end p w)
  then show ?case by (auto simp: bport_def intro: wired_refl)
next
  case (leads_src p w t f q)
  have p: "w = v" "po_name p = x" using leads_src by (simp_all add: bport_def)
  have f: "hier_flow n r v f" using leads_src(2,3,9) p by (auto simp: hier_flow_def)
  then have fw: "port_wf v (fl_src f)" "port_wf v (fl_dst f)" using hier_flow_wf[OF wf] by auto
  have "fl_dst f = \<lparr>po_obj = None, po_name = x, po_uid = v\<rparr>"
    using port_wf_null[OF fw(2)] leads_src(4,5) p(2) by metis
  then have dst: "dst_point f = OutOf v x" by (simp add: dst_point_def)
  show ?case
  proof (cases "po_obj (fl_src f)")
    case None
    then have "q = fl_src f" using leads_src(6) by (simp add: leads_null)
    moreover have "is_pass f" using None leads_src(4) by (simp add: is_pass_def)
    moreover have "wired n r 0 (dst_point f) (OutOf v x)" unfolding dst by (rule wired_refl)
    ultimately show ?thesis using None f by auto
  next
    case (Some y)
    have src: "fl_src f = bport y (po_name (fl_src f))" using port_wf_obj[OF fw(1) Some] .
    have one: "wired n r 0 (OutOf y (po_name (fl_src f))) (OutOf v x)"
      using wired_one[OF f] Some dst by (simp add: src_point_def is_pass_def)
    have "n_topo n y \<noteq> None \<longrightarrow> below n r y"
      using f Some unfolding hier_flow_def by (auto intro: below_sub)
    note IH = leads_src(7)[OF src this]
    have ext: "wired n r 0 a (OutOf y (po_name (fl_src f))) \<Longrightarrow> wired n r 0 a (OutOf v x)" for a
      using wired_trans[OF one, of 0 a] by simp
    show ?thesis
    proof (cases "po_obj q")
      case None
      then show ?thesis using IH ext by auto
    next
      case (Some z)
      then show ?thesis using IH ext by auto
    qed
  qed
qed auto

lemma leads_dst_wired:
  assumes wf: "net_wf n"
  shows "leads n False p q \<Longrightarrow> p = bport v x \<Longrightarrow> (n_topo n v \<noteq> None \<longrightarrow> below n r v)
    \<Longrightarrow> (case po_obj q of
          Some w \<Rightarrow> n_topo n w = None \<and> q = bport w (po_name q) \<and> wired n r 0 (InTo v x) (InTo w (po_name q))
        | None \<Rightarrow> \<exists>u' g. hier_flow n r u' g \<and> is_pass g \<and> fl_dst g = q \<and> wired n r 0 (InTo v x) (src_point g))"
proof (induction "False" p q arbitrary: v x rule: leads.induct)
  case (leads_end p w)
  then show ?case by (auto simp: bport_def intro: wired_refl)
next
  case (leads_dst p w t f q)
  have p: "w = v" "po_name p = x" using leads_dst by (simp_all add: bport_def)
  have f: "hier_flow n r v f" using leads_dst(2,3,9) p by (auto simp: hier_flow_def)
  then have fw: "port_wf v (fl_src f)" "port_wf v (fl_dst f)" using hier_flow_wf[OF wf] by auto
  have "fl_src f = \<lparr>po_obj = None, po_name = x, po_uid = v\<rparr>"
    using port_wf_null[OF fw(1)] leads_dst(4,5) p(2) by metis
  then have src: "src_point f = InTo v x" by (simp add: src_point_def)
  show ?case
  proof (cases "po_obj (fl_dst f)")
    case None
    then have "q = fl_dst f" using leads_dst(6) by (simp add: leads_null)
    moreover have "is_pass f" using None leads_dst(4) by (simp add: is_pass_def)
    moreover have "wired n r 0 (InTo v x) (src_point f)" unfolding src by (rule wired_refl)
    ultimately show ?thesis using None f by auto
  next
    case (Some y)
    have dst: "fl_dst f = bport y (po_name (fl_dst f))" using port_wf_obj[OF fw(2) Some] .
    have one: "wired n r 0 (InTo v x) (InTo y (po_name (fl_dst f)))"
      using wired_one[OF f] Some src by (simp add: dst_point_def is_pass_def)
    have "n_topo n y \<noteq> None \<longrightarrow> below n r y"
      using f Some unfolding hier_flow_def by (auto intro: below_sub)
    note IH = leads_dst(7)[OF dst this]
    have ext: "wired n r 0 (InTo y (po_name (fl_dst f))) b \<Longrightarrow> wired n r 0 (InTo v x) b" for b
      using wired_trans[OF _ one, of 0 b] by simp
    show ?thesis
    proof (cases "po_obj q")
      case None
      then show ?thesis using IH ext by auto
    next
      case (Some z)
      then show ?thesis using IH ext by auto
    qed
  qed
qed auto

text \<open>And back: a path gives a resolution.\<close>

inductive dpath :: "net \<Rightarrow> port \<Rightarrow> port \<Rightarrow> bool" for n where
  dpath_refl: "dpath n p p"
| dpath_step: "dpath n p q \<Longrightarrow> po_obj q = Some u \<Longrightarrow> n_topo n u = Some t \<Longrightarrow> f \<in> set (tp_flows t)
    \<Longrightarrow> po_obj (fl_src f) = None \<Longrightarrow> po_name (fl_src f) = po_name q \<Longrightarrow> dpath n p (fl_dst f)"

lemma dpath_leads: "dpath n p m \<Longrightarrow> leads n False m q \<Longrightarrow> leads n False p q"
  by (induction rule: dpath.induct) (auto intro: leads_dst)

lemma src_point_wf:
  assumes "port_wf u (fl_src f)"
  shows "src_point f = OutOf w y \<Longrightarrow> fl_src f = bport w y"
    and "src_point f = InTo w y \<Longrightarrow> w = u \<and> po_obj (fl_src f) = None \<and> po_name (fl_src f) = y"
proof -
  show "src_point f = OutOf w y \<Longrightarrow> fl_src f = bport w y"
    using port_wf_obj[OF assms, of w] by (auto simp: src_point_def split: option.splits)
  assume "src_point f = InTo w y"
  then have "po_obj (fl_src f) = None" "po_uid (fl_src f) = w" "po_name (fl_src f) = y"
    by (auto simp: src_point_def split: option.splits)
  moreover from this(1) have "po_uid (fl_src f) = u" using port_wf_null[OF assms] by (metis port.select_convs(3))
  ultimately show "w = u \<and> po_obj (fl_src f) = None \<and> po_name (fl_src f) = y" by simp
qed

lemma dst_point_wf:
  assumes "port_wf u (fl_dst f)"
  shows "dst_point f = InTo w y \<Longrightarrow> fl_dst f = bport w y"
    and "dst_point f = OutOf w y \<Longrightarrow> w = u \<and> po_obj (fl_dst f) = None \<and> po_name (fl_dst f) = y"
proof -
  show "dst_point f = InTo w y \<Longrightarrow> fl_dst f = bport w y"
    using port_wf_obj[OF assms, of w] by (auto simp: dst_point_def split: option.splits)
  assume "dst_point f = OutOf w y"
  then have "po_obj (fl_dst f) = None" "po_uid (fl_dst f) = w" "po_name (fl_dst f) = y"
    by (auto simp: dst_point_def split: option.splits)
  moreover from this(1) have "po_uid (fl_dst f) = u" using port_wf_null[OF assms] by (metis port.select_convs(3))
  ultimately show "w = u \<and> po_obj (fl_dst f) = None \<and> po_name (fl_dst f) = y" by simp
qed

lemma bport_simps [simp]: "po_obj (bport v x) = Some v" "po_name (bport v x) = x" "po_uid (bport v x) = v"
  by (simp_all add: bport_def)

lemma wired_up:
  assumes wf: "net_wf n" and start: "leads n True (bport a x) q"
  shows "wired n r j s b \<Longrightarrow> j = 0 \<Longrightarrow> s = OutOf a x \<Longrightarrow> b = OutOf v z \<Longrightarrow> leads n True (bport v z) q"
proof (induction arbitrary: v z rule: wired.induct)
  case (wired_step j s f u)
  have np: "\<not> is_pass f" "j = 0" using wired_step.prems(1) by (auto split: if_splits)
  have fw: "port_wf u (fl_src f)" "port_wf u (fl_dst f)" using hier_flow_wf[OF wf wired_step.hyps(2)] by auto
  have dst: "v = u" "po_obj (fl_dst f) = None" "po_name (fl_dst f) = z"
    using dst_point_wf(2)[OF fw(2) wired_step.prems(3)] by auto
  obtain w where w: "po_obj (fl_src f) = Some w" using np dst by (auto simp: is_pass_def)
  then have "src_point f = OutOf w (po_name (fl_src f))" by (simp add: src_point_def)
  from wired_step.IH[OF np(2) wired_step.prems(2) this] have "leads n True (fl_src f) q"
    using port_wf_obj[OF fw(1) w] by simp
  moreover obtain t where "n_topo n u = Some t" "f \<in> set (tp_flows t)" using wired_step.hyps(2) by (auto simp: hier_flow_def)
  ultimately show ?case using dst by (intro leads_src[where p = "bport v z" and u = u and t = t and f = f]) simp_all
qed (use start in simp)

lemma wired_in:
  assumes wf: "net_wf n" and start: "leads n True (bport a x) q"
  shows "wired n r j s b \<Longrightarrow> j = 0 \<Longrightarrow> s = OutOf a x \<Longrightarrow> b = InTo v z
    \<Longrightarrow> \<exists>u g. hier_flow n r u g \<and> is_inner g \<and> leads n True (fl_src g) q \<and> dpath n (fl_dst g) (bport v z)"
proof (induction arbitrary: v z rule: wired.induct)
  case (wired_step j s f u)
  have np: "\<not> is_pass f" "j = 0" using wired_step.prems(1) by (auto split: if_splits)
  have fw: "port_wf u (fl_src f)" "port_wf u (fl_dst f)" using hier_flow_wf[OF wf wired_step.hyps(2)] by auto
  have dst: "fl_dst f = bport v z" using dst_point_wf(1)[OF fw(2) wired_step.prems(3)] .
  show ?case
  proof (cases "src_point f")
    case (OutOf w y)
    have src: "fl_src f = bport w y" using src_point_wf(1)[OF fw(1) OutOf] .
    have "leads n True (bport w y) q"
      by (rule wired_up[OF wf start wired_step.hyps(1) np(2) wired_step.prems(2) OutOf])
    moreover have "dpath n (fl_dst f) (bport v z)" unfolding dst by (rule dpath_refl)
    ultimately show ?thesis using wired_step.hyps(2) src dst unfolding is_inner_def by (metis bport_simps(1) option.distinct(1))
  next
    case (InTo w y)
    have src: "w = u" "po_obj (fl_src f) = None" "po_name (fl_src f) = y" using src_point_wf(2)[OF fw(1) InTo] by auto
    obtain u' g where g: "hier_flow n r u' g" "is_inner g" "leads n True (fl_src g) q" "dpath n (fl_dst g) (bport w y)"
      using wired_step.IH[OF np(2) wired_step.prems(2) InTo] by blast
    obtain t where t: "n_topo n u = Some t" "f \<in> set (tp_flows t)" using wired_step.hyps(2) by (auto simp: hier_flow_def)
    have "dpath n (fl_dst g) (fl_dst f)" by (rule dpath_step[OF g(4) _ t]) (simp_all add: src)
    then show ?thesis using g dst by auto
  qed
qed simp

lemma wired_split:
  "wired n r j a b \<Longrightarrow> j = Suc 0 \<Longrightarrow> \<exists>u P. hier_flow n r u P \<and> is_pass P \<and> wired n r 0 a (src_point P) \<and> wired n r 0 (dst_point P) b"
proof (induction rule: wired.induct)
  case (wired_step j a f u)
  show ?case
  proof (cases "is_pass f")
    case True
    then have "wired n r 0 a (src_point f)" using wired_step by simp
    then show ?thesis using True wired_step.hyps(2) wired_refl by blast
  next
    case False
    then obtain u' P where P: "hier_flow n r u' P" "is_pass P" "wired n r 0 a (src_point P)" "wired n r 0 (dst_point P) (src_point f)"
      using wired_step by auto
    have "wired n r 0 (dst_point P) (dst_point f)" using wired.wired_step[OF P(4) wired_step.hyps(2)] False by simp
    then show ?thesis using P by blast
  qed
qed simp

text \<open>Each pass-through input of a topology feeds one output, that output is fed by it alone, and no
  pass-through flow leads to another.\<close>

definition simple_pass :: "net \<Rightarrow> nat \<Rightarrow> bool" where
  "simple_pass n r \<longleftrightarrow> (\<forall>u v f g. hier_flow n r u f \<longrightarrow> hier_flow n r v g \<longrightarrow> is_pass f \<longrightarrow> is_pass g
     \<longrightarrow> port_eq (fl_src f) (fl_src g) = port_eq (fl_dst f) (fl_dst g) \<and> \<not> wired n r 0 (dst_point f) (src_point g))"

lemma wired_passes:
  "wired n r j a b \<Longrightarrow> simple_pass n r \<Longrightarrow> j \<le> Suc 0
    \<and> (j = Suc 0 \<longrightarrow> (\<exists>u P. hier_flow n r u P \<and> is_pass P \<and> wired n r 0 (dst_point P) b))"
proof (induction rule: wired.induct)
  case (wired_step j a f u)
  show ?case
  proof (cases "is_pass f")
    case True
    have "j = 0" using wired_step True unfolding simple_pass_def by (metis le_Suc_eq le_zero_eq)
    moreover have "\<exists>u P. hier_flow n r u P \<and> is_pass P \<and> wired n r 0 (dst_point P) (dst_point f)"
      using True wired_step.hyps(2) wired_refl by blast
    ultimately show ?thesis using True by simp
  next
    case False
    then show ?thesis using wired_step wired.wired_step[OF _ wired_step.hyps(2), of 0] by fastforce
  qed
qed simp

lemma complete_set:
  "f \<in> set (completePassThroughFlows fs) \<longleftrightarrow> (f \<in> set fs \<and> is_inner f)
     \<or> (\<exists>p \<in> set fs. \<exists>tl \<in> set fs. \<exists>hd \<in> set fs. is_pass p \<and> po_obj (fl_dst tl) \<noteq> None \<and> po_obj (fl_src hd) \<noteq> None
          \<and> port_eq (fl_src p) (fl_src tl) \<and> port_eq (fl_dst p) (fl_dst hd) \<and> f = \<lparr>fl_src = fl_src hd, fl_dst = fl_dst tl\<rparr>)"
  by (auto simp: completePassThroughFlows_def is_pass_def split: if_splits)

lemma point_of_null:
  "po_obj (fl_src f) = None \<Longrightarrow> src_point f = InTo (po_uid (fl_src f)) (po_name (fl_src f))"
  "po_obj (fl_dst f) = None \<Longrightarrow> dst_point f = OutOf (po_uid (fl_dst f)) (po_name (fl_dst f))"
  by (simp_all add: src_point_def dst_point_def)

lemma hier_end_below:
  assumes "hier_flow n r u g" "po_obj (fl_src g) = Some v \<or> po_obj (fl_dst g) = Some v"
  shows "n_topo n v \<noteq> None \<longrightarrow> below n r v"
  using assms unfolding hier_flow_def by (auto intro: below_sub)

text \<open>The paths behind a squashed flow, by what its two ends are.\<close>

lemma squashed_wired:
  assumes wf: "net_wf n" and "hier_flow n r u g" "squashed n g f" "is_inner g"
  shows "wired n r 0 (src_point g) (dst_point g)"
    and "case po_obj (fl_src f) of
       Some w \<Rightarrow> n_topo n w = None \<and> fl_src f = bport w (po_name (fl_src f)) \<and> wired n r 0 (OutOf w (po_name (fl_src f))) (src_point g)
     | None \<Rightarrow> \<exists>u' h. hier_flow n r u' h \<and> is_pass h \<and> fl_src h = fl_src f \<and> wired n r 0 (dst_point h) (src_point g)"
    and "case po_obj (fl_dst f) of
       Some w \<Rightarrow> n_topo n w = None \<and> fl_dst f = bport w (po_name (fl_dst f)) \<and> wired n r 0 (dst_point g) (InTo w (po_name (fl_dst f)))
     | None \<Rightarrow> \<exists>u' h. hier_flow n r u' h \<and> is_pass h \<and> fl_dst h = fl_dst f \<and> wired n r 0 (dst_point g) (src_point h)"
proof -
  obtain v w where vw: "po_obj (fl_src g) = Some v" "po_obj (fl_dst g) = Some w" using assms(4) by (auto simp: is_inner_def)
  have gw: "port_wf u (fl_src g)" "port_wf u (fl_dst g)" using hier_flow_wf[OF wf assms(2)] by auto
  have np: "\<not> is_pass g" using vw by (simp add: is_pass_def)
  have l: "leads n True (fl_src g) (fl_src f)" "leads n False (fl_dst g) (fl_dst f)"
    using assms(3) np by (auto simp: squashed_def)
  have p: "src_point g = OutOf v (po_name (fl_src g))" "dst_point g = InTo w (po_name (fl_dst g))"
    using vw by (simp_all add: src_point_def dst_point_def)
  show "wired n r 0 (src_point g) (dst_point g)" using wired_one[OF assms(2)] np by simp
  have ends: "n_topo n v \<noteq> None \<longrightarrow> below n r v" "n_topo n w \<noteq> None \<longrightarrow> below n r w"
    using hier_end_below[OF assms(2)] vw by blast+
  show "case po_obj (fl_src f) of
       Some w \<Rightarrow> n_topo n w = None \<and> fl_src f = bport w (po_name (fl_src f)) \<and> wired n r 0 (OutOf w (po_name (fl_src f))) (src_point g)
     | None \<Rightarrow> \<exists>u' h. hier_flow n r u' h \<and> is_pass h \<and> fl_src h = fl_src f \<and> wired n r 0 (dst_point h) (src_point g)"
    by (rule leads_src_wired[OF wf l(1) port_wf_obj[OF gw(1) vw(1)] ends(1), folded p(1)])
  show "case po_obj (fl_dst f) of
       Some w \<Rightarrow> n_topo n w = None \<and> fl_dst f = bport w (po_name (fl_dst f)) \<and> wired n r 0 (dst_point g) (InTo w (po_name (fl_dst f)))
     | None \<Rightarrow> \<exists>u' h. hier_flow n r u' h \<and> is_pass h \<and> fl_dst h = fl_dst f \<and> wired n r 0 (dst_point g) (src_point h)"
    by (rule leads_dst_wired[OF wf l(2) port_wf_obj[OF gw(2) vw(2)] ends(2), folded p(2)])
qed

lemma squashed_cases:
  assumes "net_wf n" "hier_flow n r u g" "squashed n g f"
  shows "is_pass f \<and> f = g \<or> is_inner g"
  using assms by (auto simp: squashed_def)

text \<open>A squashed flow from an input of a topology, and one to an output, lies behind a pass-through flow.\<close>

lemma wired0_trans: "wired n r 0 a b \<Longrightarrow> wired n r 0 b c \<Longrightarrow> wired n r 0 a c"
  using wired_trans[of n r 0 b c 0 a] by simp

lemma squashed_tail:
  assumes wf: "net_wf n" and g: "hier_flow n r u g" "squashed n g f" and d: "po_obj (fl_dst f) = Some b" and s: "po_obj (fl_src f) = None"
  shows "\<exists>u' h. hier_flow n r u' h \<and> is_pass h \<and> fl_src h = fl_src f \<and> n_topo n b = None
    \<and> fl_dst f = bport b (po_name (fl_dst f)) \<and> wired n r 0 (dst_point h) (InTo b (po_name (fl_dst f)))"
proof -
  have "is_inner g" using squashed_cases[OF wf g] d by (auto simp: is_pass_def)
  note w = squashed_wired[OF wf g this, unfolded d s option.case]
  show ?thesis using w(2,3) wired0_trans[OF _ wired0_trans[OF w(1)]] by blast
qed

lemma squashed_head:
  assumes wf: "net_wf n" and g: "hier_flow n r u g" "squashed n g f" and d: "po_obj (fl_dst f) = None" and s: "po_obj (fl_src f) = Some a"
  shows "\<exists>u' h. hier_flow n r u' h \<and> is_pass h \<and> fl_dst h = fl_dst f \<and> n_topo n a = None
    \<and> fl_src f = bport a (po_name (fl_src f)) \<and> wired n r 0 (OutOf a (po_name (fl_src f))) (src_point h)"
proof -
  have "is_inner g" using squashed_cases[OF wf g] s by (auto simp: is_pass_def)
  note w = squashed_wired[OF wf g this, unfolded d s option.case]
  show ?thesis using w(2,3) wired0_trans[OF _ wired0_trans[OF w(1)]] by blast
qed

lemma squashed_direct:
  assumes wf: "net_wf n" and g: "hier_flow n r u g" "squashed n g f" and d: "po_obj (fl_dst f) = Some b" and s: "po_obj (fl_src f) = Some a"
  shows "wired n r 0 (OutOf a (po_name (fl_src f))) (InTo b (po_name (fl_dst f)))"
proof -
  have "is_inner g" using squashed_cases[OF wf g] s by (auto simp: is_pass_def)
  note w = squashed_wired[OF wf g this, unfolded d s option.case]
  show ?thesis using w(2,3) wired0_trans[OF _ wired0_trans[OF w(1)]] by blast
qed

lemma squashed_topo_end:
  assumes wf: "net_wf n" and g: "hier_flow n r u g" "squashed n g f"
  shows "n_topo n (po_uid (fl_src f)) \<noteq> None \<Longrightarrow> po_obj (fl_src f) = None"
    and "n_topo n (po_uid (fl_dst f)) \<noteq> None \<Longrightarrow> po_obj (fl_dst f) = None"
proof -
  have c: "is_pass f \<or> is_inner g" using squashed_cases[OF wf g] by blast
  show "po_obj (fl_src f) = None" if t: "n_topo n (po_uid (fl_src f)) \<noteq> None"
  proof (rule ccontr)
    assume "po_obj (fl_src f) \<noteq> None"
    then obtain w where w: "po_obj (fl_src f) = Some w" by blast
    then have "is_inner g" using c by (simp add: is_pass_def)
    from squashed_wired(2)[OF wf g this, unfolded w option.case] have "n_topo n w = None" "fl_src f = bport w (po_name (fl_src f))"
      by auto
    then show False using t by (metis bport_simps(3))
  qed
  show "po_obj (fl_dst f) = None" if t: "n_topo n (po_uid (fl_dst f)) \<noteq> None"
  proof (rule ccontr)
    assume "po_obj (fl_dst f) \<noteq> None"
    then obtain w where w: "po_obj (fl_dst f) = Some w" by blast
    then have "is_inner g" using c by (simp add: is_pass_def)
    from squashed_wired(3)[OF wf g this, unfolded w option.case] have "n_topo n w = None" "fl_dst f = bport w (po_name (fl_dst f))"
      by auto
    then show False using t by (metis bport_simps(3))
  qed
qed

lemma makePort_wf [simp]: "port_wf u (makePort u v x)"
  by (simp add: port_wf_def makePort_def)

lemma net_wf_upd:
  assumes "net_wf n"
    and "\<And>t f. n_topo n u = Some t \<Longrightarrow> f \<in> set (tp_flows (F t)) \<Longrightarrow> f \<in> set (tp_flows t) \<or> (port_wf u (fl_src f) \<and> port_wf u (fl_dst f))"
  shows "net_wf (upd_topo u F n)"
  using assms unfolding net_wf_def upd_topo_def by (auto split: if_splits) blast+

lemma net_wf_cong: "n_topo n' = n_topo n \<Longrightarrow> net_wf n \<Longrightarrow> net_wf n'"
  by (simp add: net_wf_def)

lemma hier_ports_flows [simp]: "tp_flows (hier_ports env f a b t) = tp_flows t"
  by (simp add: hier_ports_def split: option.split)

lemma tp_connect_wf:
  assumes "net_wf n" "tp_connect env u src srcName dst dstName pidOut midOut pidIn n = (n', e)"
  shows "net_wf n'"
proof (cases "src = None \<or> dst = None")
  case True
  then show ?thesis using assms by (auto simp: tp_connect_def split: option.splits)
next
  case False
  then obtain s d where sd: "src = Some s" "dst = Some d" by auto
  let ?f = "\<lparr>fl_src = makePort u s srcName, fl_dst = makePort u d dstName\<rparr>"
  let ?n = "try_autoAllocateInput d dstName pidIn (try_autoAllocateOutput env s srcName pidOut midOut n)"
  let ?m = "\<lambda>a b. upd_topo u (hier_ports env ?f a b) ?n"
  have n: "net_wf ?n" by (rule net_wf_cong[OF _ assms(1)]) simp
  have m: "net_wf (?m a b)" for a b by (rule net_wf_upd[OF n]) simp
  have k: "net_wf (upd_topo u (\<lambda>t. t\<lparr>tp_flows := tp_flows t @ [?f]\<rparr>) (?m a b))" for a b
    by (rule net_wf_upd[OF m]) auto
  show ?thesis using assms(2) n m k unfolding tp_connect_def Let_def sd prod.case option.case
    by (auto split: sum.splits if_splits)
qed

lemma erase_flow_subset: "set (erase_flow f fs) \<subseteq> set fs"
  by (induction fs) auto

lemma tp_disconnect_wf:
  assumes "net_wf n" "tp_disconnect u src srcName dst dstName n = (n', e)"
  shows "net_wf n'"
proof (cases "src = None \<or> dst = None")
  case True
  then show ?thesis using assms by (auto simp: tp_disconnect_def split: option.splits)
next
  case False
  then obtain s d where sd: "src = Some s" "dst = Some d" by auto
  let ?f = "\<lparr>fl_src = makePort u s srcName, fl_dst = makePort u d dstName\<rparr>"
  let ?m = "upd_topo u (\<lambda>t. t\<lparr>
      tp_outputPortNames := (if po_obj (fl_src ?f) = None then remove1 srcName (tp_outputPortNames t) else tp_outputPortNames t),
      tp_inputPortNames := (if po_obj (fl_dst ?f) = None then remove1 dstName (tp_inputPortNames t) else tp_inputPortNames t)\<rparr>) n"
  let ?k = "try_autoDeleteInput d dstName (try_autoDeleteOutput s srcName ?m)"
  have m: "net_wf ?m" by (rule net_wf_upd[OF assms(1)]) simp
  have k: "net_wf ?k" by (rule net_wf_cong[OF _ m]) simp
  have "net_wf (upd_topo u (\<lambda>t. t\<lparr>tp_flows := erase_flow ?f (tp_flows t)\<rparr>) ?k)"
    by (rule net_wf_upd[OF k]) (use erase_flow_subset in auto)
  then show ?thesis using assms m unfolding tp_disconnect_def sd Let_def
    by (cases "port_check srcName (outputInfos s n)"; cases "port_check dstName (inputInfos d n)")
      (auto split: if_splits)
qed

lemma disconnect_own_wf: "net_wf n \<Longrightarrow> net_wf (disconnect_own u n)"
proof -
  assume n: "net_wf n"
  let ?step = "\<lambda>f n. let n = (case po_obj (fl_src f) of None \<Rightarrow> n | Some s \<Rightarrow> try_autoDeleteOutput s (po_name (fl_src f)) n)
            in (case po_obj (fl_dst f) of None \<Rightarrow> n | Some d \<Rightarrow> try_autoDeleteInput d (po_name (fl_dst f)) n)"
  have "n_topo (fold ?step fs m) = n_topo m" for fs m
    by (induction fs arbitrary: m) (simp_all add: Let_def split: option.split)
  then have "net_wf (fold ?step (tp_flows (the_topo u n)) n)" by (rule net_wf_cong[OF _ n])
  then show ?thesis unfolding disconnect_own_def by (rule net_wf_upd) simp
qed

lemma tp_disconnectAll_wf:
  assumes "net_wf n" shows "net_wf (tp_disconnectAll recursive u n)"
proof -
  have sub: "net_wf m \<Longrightarrow> net_wf (try_disconnect_sub x m)" for x m
    by (simp add: try_disconnect_sub_def disconnect_own_wf split: option.split)
  have all: "net_wf m \<Longrightarrow> net_wf (fold (\<lambda>(f :: flow) n. try_disconnect_sub (po_obj (fl_dst f)) (try_disconnect_sub (po_obj (fl_src f)) n)) fs m)"
    for fs m by (induction fs arbitrary: m) (simp_all add: sub)
  show ?thesis unfolding tp_disconnectAll_def
    by (rule disconnect_own_wf) (use all[OF assms] assms in simp)
qed

lemma net_reach_wf: "net_reach n \<Longrightarrow> net_wf n"
proof (induction rule: net_reach.induct)
  case (net_next n n')
  from net_next(2) show ?case
  proof (rule net_stepE)
    fix u assume "n' = n\<lparr>n_topo := (n_topo n)(u \<mapsto> tp_new)\<rparr>"
    then show ?thesis using net_next(3) by (auto simp: net_wf_def tp_new_def)
  next
    fix env u src srcName dst dstName pidOut midOut pidIn e
    assume "tp_connect env u src srcName dst dstName pidOut midOut pidIn n = (n', e)"
    then show ?thesis by (rule tp_connect_wf[OF net_next(3)])
  next
    fix u src srcName dst dstName e
    assume "tp_disconnect u src srcName dst dstName n = (n', e)"
    then show ?thesis by (rule tp_disconnect_wf[OF net_next(3)])
  next
    fix w assume "n' = n\<lparr>n_world := w\<rparr>"
    then show ?thesis using net_next(3) by (simp add: net_wf_def)
  qed (simp add: tp_disconnectAll_wf net_next(3))
qed (simp add: net_wf_def)

lemma squashed_pass:
  assumes wf: "net_wf n" and g: "hier_flow n r u g" "squashed n g p" and "is_pass p" "simple_pass n r"
  shows "g = p"
proof (rule ccontr)
  assume "g \<noteq> p"
  then have "is_inner g" using squashed_cases[OF wf g] by auto
  have null: "po_obj (fl_src p) = None" "po_obj (fl_dst p) = None" using assms(4) by (simp_all add: is_pass_def)
  note w = squashed_wired[OF wf g \<open>is_inner g\<close>, unfolded null option.case]
  from w(2,3) obtain u1 h1 u2 h2 where h: "hier_flow n r u1 h1" "is_pass h1" "wired n r 0 (dst_point h1) (src_point g)"
    "hier_flow n r u2 h2" "is_pass h2" "wired n r 0 (dst_point g) (src_point h2)" by blast
  have "wired n r 0 (dst_point h1) (src_point h2)" using wired0_trans[OF h(3) wired0_trans[OF w(1) h(6)]] .
  then show False using assms(5) h unfolding simple_pass_def by blast
qed

lemma completed_wired:
  assumes wf: "net_wf n" and simple: "simple_pass n r"
    and p: "hier_flow n r u p" "is_pass p"
    and tl: "hier_flow n r ut g1" "squashed n g1 ft" "port_eq (fl_src p) (fl_src ft)" "fl_dst ft = bport b y"
    and hd: "hier_flow n r uh g2" "squashed n g2 fh" "port_eq (fl_dst p) (fl_dst fh)" "fl_src fh = bport a x"
  shows "wired n r 1 (OutOf a x) (InTo b y)"
proof -
  have null: "po_obj (fl_src p) = None" "po_obj (fl_dst p) = None" using p(2) by (simp_all add: is_pass_def)
  have "port_wf u (fl_src p)" "port_wf u (fl_dst p)" using hier_flow_wf[OF wf p(1)] by auto
  then have uid: "po_uid (fl_src p) = u" "po_uid (fl_dst p) = u"
    using port_wf_null null by (metis port.select_convs(3))+
  have topo: "n_topo n u \<noteq> None" using p(1) by (auto simp: hier_flow_def)
  have t0: "po_obj (fl_src ft) = None" using squashed_topo_end(1)[OF wf tl(1,2)] topo uid tl(3) by (simp add: port_eq_def)
  have h0: "po_obj (fl_dst fh) = None" using squashed_topo_end(2)[OF wf hd(1,2)] topo uid hd(3) by (simp add: port_eq_def)
  obtain u1 h1 where h1: "hier_flow n r u1 h1" "is_pass h1" "fl_src h1 = fl_src ft" "wired n r 0 (dst_point h1) (InTo b y)"
    using squashed_tail[OF wf tl(1,2) _ t0, of b] tl(4) by auto
  obtain u2 h2 where h2: "hier_flow n r u2 h2" "is_pass h2" "fl_dst h2 = fl_dst fh" "wired n r 0 (OutOf a x) (src_point h2)"
    using squashed_head[OF wf hd(1,2) h0, of a] hd(4) by auto
  have e: "port_eq (fl_dst p) (fl_dst h1)" "port_eq (fl_src p) (fl_src h2)"
    using simple p h1(1-3) h2(1-3) tl(3) hd(3) unfolding simple_pass_def by metis+
  have pts: "dst_point p = dst_point h1" "src_point p = src_point h2"
    using e null h1(2) h2(2) by (simp_all add: point_of_null is_pass_def port_eq_def)
  have "wired n r 1 (src_point p) (dst_point p)" using wired_one[OF p(1)] p(2) by simp
  from wired_trans[OF this, of 0 "OutOf a x"] have "wired n r 1 (OutOf a x) (dst_point p)" using h2(4) pts by simp
  from wired_trans[OF _ this, of 0 "InTo b y"] show ?thesis using h1(4) pts by simp
qed

text \<open>The flow from an output of a block to an input of a block.\<close>

definition bflow :: "nat \<Rightarrow> string \<Rightarrow> nat \<Rightarrow> string \<Rightarrow> flow" where
  "bflow s x d y = \<lparr>fl_src = bport s x, fl_dst = bport d y\<rparr>"

text \<open>A flow between blocks that the squashing gives is a path without pass-through flows, and the completion adds every path
  through one pass-through flow: this needs no assumption on how the pass-through flows are connected.\<close>

lemma flatten_direct:
  assumes wf: "net_wf n" and "n_topo n r = Some t" "squashFlows k n (tp_flows t) = Some out"
    and "n_topo n a = None" "n_topo n b = None"
  shows "bflow a x b y \<in> set out \<longleftrightarrow> wired n r 0 (OutOf a x) (InTo b y)"
    and "wired n r j (OutOf a x) (InTo b y) \<Longrightarrow> j \<le> 1 \<Longrightarrow> bflow a x b y \<in> set (completePassThroughFlows out)"
proof -
  let ?f = "\<lparr>fl_src = bport a x, fl_dst = bport b y\<rparr>"
  note mem = squashFlows_exact[OF wf assms(2,3)]
  have l: "leads n True (bport a x) (bport a x)" "leads n False (bport b y) (bport b y)"
    using assms(4,5) by (auto intro: leads_end)
  have inner: "?f \<in> set out \<longleftrightarrow> wired n r 0 (OutOf a x) (InTo b y)"
  proof
    assume "?f \<in> set out"
    then show "wired n r 0 (OutOf a x) (InTo b y)" using squashed_direct[OF wf] unfolding mem by fastforce
  next
    assume w: "wired n r 0 (OutOf a x) (InTo b y)"
    obtain u g where "hier_flow n r u g" "is_inner g" "leads n True (fl_src g) (bport a x)" "dpath n (fl_dst g) (bport b y)"
      using wired_in[OF wf l(1) w] by blast
    then show "?f \<in> set out" using dpath_leads l(2) unfolding mem squashed_def by fastforce
  qed
  then show "bflow a x b y \<in> set out \<longleftrightarrow> wired n r 0 (OutOf a x) (InTo b y)" by (simp add: bflow_def)
  assume w: "wired n r j (OutOf a x) (InTo b y)" and j: "j \<le> 1"
  have "?f \<in> set (completePassThroughFlows out)"
  proof (cases "j = 0")
    case True
    then show ?thesis using inner w by (simp add: complete_set is_inner_def)
  next
    case False
    then have "wired n r (Suc 0) (OutOf a x) (InTo b y)" using w j by (simp add: le_Suc_eq)
    then obtain u P where P: "hier_flow n r u P" "is_pass P" "wired n r 0 (OutOf a x) (src_point P)"
      "wired n r 0 (dst_point P) (InTo b y)" using wired_split by blast
    obtain t' where t': "n_topo n u = Some t'" "P \<in> set (tp_flows t')" using P(1) by (auto simp: hier_flow_def)
    have null: "po_obj (fl_src P) = None" "po_obj (fl_dst P) = None" using P(2) by (simp_all add: is_pass_def)
    have "port_wf u (fl_src P)" "port_wf u (fl_dst P)" using hier_flow_wf[OF wf P(1)] by auto
    then have "po_uid (fl_src P) = u" "po_uid (fl_dst P) = u" using port_wf_null null by (metis port.select_convs(3))+
    then have pts: "src_point P = InTo u (po_name (fl_src P))" "dst_point P = OutOf u (po_name (fl_dst P))"
      by (simp_all add: point_of_null null)
    have lp1: "leads n False (bport u (po_name (fl_src P))) (fl_dst P)"
      by (rule leads_dst[where u = u and t = t' and f = P]) (simp_all add: t' null leads_null)
    have lp2: "leads n True (bport u (po_name (fl_dst P))) (fl_src P)"
      by (rule leads_src[where u = u and t = t' and f = P]) (simp_all add: t' null leads_null)
    obtain u1 g1 where g1: "hier_flow n r u1 g1" "is_inner g1" "leads n True (fl_src g1) (bport a x)"
      "dpath n (fl_dst g1) (bport u (po_name (fl_src P)))" using wired_in[OF wf l(1) P(3)] pts by blast
    have hd: "\<lparr>fl_src = bport a x, fl_dst = fl_dst P\<rparr> \<in> set out"
      using g1 dpath_leads[OF g1(4) lp1] unfolding mem squashed_def by fastforce
    obtain u2 g2 where g2: "hier_flow n r u2 g2" "is_inner g2" "leads n True (fl_src g2) (fl_src P)"
      "dpath n (fl_dst g2) (bport b y)" using wired_in[OF wf lp2 P(4)] pts by blast
    have tl: "\<lparr>fl_src = fl_src P, fl_dst = bport b y\<rparr> \<in> set out"
      using g2 dpath_leads[OF g2(4) l(2)] unfolding mem squashed_def by fastforce
    have "P \<in> set out" using P(1,2) unfolding mem squashed_def by blast
    then show ?thesis unfolding complete_set using hd tl P(2) by (intro disjI2 bexI[OF _ tl] bexI[OF _ hd] bexI) (auto simp: port_eq_def)
  qed
  then show "bflow a x b y \<in> set (completePassThroughFlows out)" by (simp add: bflow_def)
qed

text \<open>C6: flattening, for topologies whose flows are as \<open>connect\<close> makes them (in every state that \<open>net_reach\<close> describes,
  lemma \<open>net_reach_wf\<close>). Squashing gives a flow between two blocks exactly when a path of flows through the ports of the
  hierarchy without pass-through flows connects them; the completion keeps these and adds every path through one pass-through
  flow. Where the pass-through flows are simple (\<open>simple_pass\<close>: none fans out, none fans in and none leads to another), the flat
  flows between blocks are exactly the paths; chained or fanned pass-through flows are excluded there, because the
  completion loses or invents connections for them (\<open>flatten_chain_lost\<close>, \<open>flatten_chain_spurious\<close>).\<close>
theorem flatten_exact:
  assumes wf: "net_wf n" and "n_topo n r = Some t" "squashFlows k n (tp_flows t) = Some out"
    and "n_topo n a = None" "n_topo n b = None"
  shows "(bflow a x b y \<in> set out \<longleftrightarrow> wired n r 0 (OutOf a x) (InTo b y)) \<and>
    (\<forall>j \<le> 1. wired n r j (OutOf a x) (InTo b y) \<longrightarrow> bflow a x b y \<in> set (completePassThroughFlows out)) \<and>
    (simple_pass n r \<longrightarrow>
      (bflow a x b y \<in> set (completePassThroughFlows out) \<longleftrightarrow> (\<exists>j. wired n r j (OutOf a x) (InTo b y))))"
proof -
  let ?f = "bflow a x b y"
  note mem = squashFlows_exact[OF wf assms(2,3)] and direct = flatten_direct[OF assms]
  have "?f \<in> set (completePassThroughFlows out) \<longleftrightarrow> (\<exists>j. wired n r j (OutOf a x) (InTo b y))" if simple: "simple_pass n r"
  proof
    assume "?f \<in> set (completePassThroughFlows out)"
    then consider "?f \<in> set out" | p ft fh where "p \<in> set out" "ft \<in> set out" "fh \<in> set out" "is_pass p"
        "port_eq (fl_src p) (fl_src ft)" "port_eq (fl_dst p) (fl_dst fh)" "fl_src fh = bport a x" "fl_dst ft = bport b y"
      unfolding complete_set by (auto simp: is_inner_def bflow_def)
    then show "\<exists>j. wired n r j (OutOf a x) (InTo b y)"
    proof cases
      case 2
      then show ?thesis using squashed_pass[OF wf] completed_wired[OF wf simple] simple unfolding mem by metis
    qed (use direct(1) in auto)
  next
    assume "\<exists>j. wired n r j (OutOf a x) (InTo b y)"
    then show "?f \<in> set (completePassThroughFlows out)" using wired_passes[OF _ simple] direct(2) by (metis One_nat_def)
  qed
  then show ?thesis using direct by blast
qed

text \<open>C22: in a hierarchy without cycles, fuel above the rank of a topology is enough to squash its flows, and the
  result is the flows between the ends that the flows of the hierarchy resolve to, with the pass-through flows.\<close>
theorem squash_returns:
  assumes "net_wf n" "ranked rank n" "n_topo n u = Some t" "rank u < k"
  shows "\<exists>out. squashFlows (Suc k) n (tp_flows t) = Some out
    \<and> (\<forall>f. f \<in> set out \<longleftrightarrow> (\<exists>v g. hier_flow n u v g \<and> squashed n g f))"
  using squashFlows_total[OF assms(2,1,3,4)] squashFlows_exact[OF assms(1,3)] by blast

section \<open>Examples\<close>

text \<open>Block 1 feeds block 2 through topology 6, whose input is connected to its output.\<close>

definition thru :: "nat \<Rightarrow> flow" where
  "thru u = \<lparr>fl_src = \<lparr>po_obj = None, po_name = ''in'', po_uid = u\<rparr>, fl_dst = \<lparr>po_obj = None, po_name = ''out'', po_uid = u\<rparr>\<rparr>"

definition net_of :: "(nat \<times> flow list) list \<Rightarrow> net" where
  "net_of ts = \<lparr>n_world = demo_world, n_topo = \<lambda>u. case smap_find u ts of None \<Rightarrow> None | Some fs \<Rightarrow> Some (tp_new\<lparr>tp_flows := fs\<rparr>)\<rparr>"

text \<open>What the two steps of the flattening give.\<close>

definition flatten :: "nat \<Rightarrow> net \<Rightarrow> nat \<Rightarrow> flow list option" where
  "flatten k n r = map_option completePassThroughFlows (squashFlows k n (tp_flows (the_topo r n)))"

lemmas flatten_eval = flatten_def net_of_def the_topo_def tp_new_def thru_def bflow_def bport_def resolvePortsFromTopology_def
  resolve_flow_def is_inner_def is_pass_def uidToObj_def add_uid_def flow_pairs_def completePassThroughFlows_def port_eq_def
  numeral_eq_Suc

lemma flatten_through:
  "flatten 4 (net_of [(5, [bflow 1 ''0'' 6 ''in'', bflow 6 ''out'' 2 ''0'']), (6, [thru 6])]) 5 = Some [bflow 1 ''0'' 2 ''0'']"
  by (simp add: flatten_eval)

definition demo_hier :: net where
  "demo_hier = net_of [(5, [bflow 1 ''0'' 6 ''in'', bflow 6 ''out'' 2 ''0'']), (6, [thru 6])]"

lemma demo_hier_topo:
  "n_topo demo_hier u = (if u = 5 then Some (tp_new\<lparr>tp_flows := [bflow 1 ''0'' 6 ''in'', bflow 6 ''out'' 2 ''0'']\<rparr>)
     else if u = 6 then Some (tp_new\<lparr>tp_flows := [thru 6]\<rparr>) else None)"
  by (simp add: demo_hier_def net_of_def)

lemma demo_hier_wf: "net_wf demo_hier"
  by (auto simp: net_wf_def demo_hier_topo thru_def bflow_def port_wf_def bport_def split: if_splits)

lemma demo_hier_flow: "hier_flow demo_hier 5 u f \<Longrightarrow> f \<in> {bflow 1 ''0'' 6 ''in'', bflow 6 ''out'' 2 ''0'', thru 6}"
  by (auto simp: hier_flow_def demo_hier_topo split: if_splits)

lemma demo_points:
  "dst_point (bflow s x d y) = InTo d y" "src_point (bflow s x d y) = OutOf s x" "\<not> is_pass (bflow s x d y)"
  "dst_point (thru u) = OutOf u ''out''" "src_point (thru u) = InTo u ''in''" "is_pass (thru u)"
  by (simp_all add: dst_point_def src_point_def bflow_def bport_def thru_def is_pass_def)

lemma demo_hier_simple: "simple_pass demo_hier 5"
proof -
  have "wired demo_hier 5 j a b \<Longrightarrow> j = 0 \<Longrightarrow> a = OutOf 6 ''out'' \<Longrightarrow> b \<in> {OutOf 6 ''out'', InTo 2 ''0''}" for j a b
  proof (induction rule: wired.induct)
    case (wired_step j a f u)
    have "f \<in> {bflow 1 ''0'' 6 ''in'', bflow 6 ''out'' 2 ''0'', thru 6}" using demo_hier_flow wired_step by blast
    then show ?case using wired_step by (auto simp: demo_points split: if_splits)
  qed simp
  then have "\<not> wired demo_hier 5 0 (dst_point (thru 6)) (src_point (thru 6))" by (auto simp: demo_points)
  moreover have "hier_flow demo_hier 5 u f \<Longrightarrow> is_pass f \<Longrightarrow> f = thru 6" for u f
    using demo_hier_flow[of u f] by (auto simp: demo_points)
  ultimately show ?thesis unfolding simple_pass_def by (metis port_eq_def)
qed

lemma demo_hier_squash:
  "\<exists>out. squashFlows 4 demo_hier [bflow 1 ''0'' 6 ''in'', bflow 6 ''out'' 2 ''0''] = Some out
    \<and> bflow 1 ''0'' 2 ''0'' \<in> set (completePassThroughFlows out)"
proof -
  have "tp_flows (the_topo 5 demo_hier) = [bflow 1 ''0'' 6 ''in'', bflow 6 ''out'' 2 ''0'']"
    by (simp add: demo_hier_topo the_topo_def)
  then show ?thesis using flatten_through unfolding flatten_def demo_hier_def[symmetric] by auto
qed

theorem flatten_exact_witness: "\<exists>j. wired demo_hier 5 j (OutOf 1 ''0'') (InTo 2 ''0'')"
proof -
  obtain out where "squashFlows 4 demo_hier [bflow 1 ''0'' 6 ''in'', bflow 6 ''out'' 2 ''0''] = Some out"
    "bflow 1 ''0'' 2 ''0'' \<in> set (completePassThroughFlows out)" using demo_hier_squash by blast
  then show ?thesis
    using flatten_exact[OF demo_hier_wf, of 5 _ 4 out 1 2 "''0''" "''0''"] demo_hier_simple by (simp add: demo_hier_topo bflow_def)
qed

theorem squash_returns_witness: "\<exists>out. squashFlows 4 demo_hier [bflow 1 ''0'' 6 ''in'', bflow 6 ''out'' 2 ''0''] = Some out"
proof -
  have "ranked (\<lambda>u. if u = 5 then 2 else if u = 6 then 1 else 0) demo_hier"
    by (auto simp: ranked_def demo_hier_topo thru_def bflow_def bport_def split: if_splits)
  from squash_returns[OF demo_hier_wf this, of 5 _ 3] show ?thesis
    by (auto simp: demo_hier_topo numeral_eq_Suc simp del: squashFlows.simps)
qed

section \<open>Divergences\<close>

text \<open>Two pass-through topologies in a row: the flow is lost.\<close>

lemma flatten_chain_lost:
  "flatten 4 (net_of [(5, [bflow 1 ''0'' 6 ''in'', bflow 6 ''out'' 7 ''in'', bflow 7 ''out'' 2 ''0'']), (6, [thru 6]), (7, [thru 7])]) 5
    = Some []"
  by (simp add: flatten_eval)

text \<open>An input that passes through to two outputs: every flow twice, so that the commit of the flows throws.\<close>

lemma flatten_fan_out_twice:
  "flatten 4 (net_of [(5, [bflow 1 ''0'' 6 ''in'', bflow 6 ''out'' 2 ''0'', bflow 6 ''aux'' 3 ''0'']),
      (6, [thru 6, (thru 6)\<lparr>fl_dst := \<lparr>po_obj = None, po_name = ''aux'', po_uid = 6\<rparr>\<rparr>])]) 5
    = Some [bflow 1 ''0'' 2 ''0'', bflow 1 ''0'' 3 ''0'', bflow 1 ''0'' 2 ''0'', bflow 1 ''0'' 3 ''0'']"
  by (simp add: flatten_eval)

text \<open>The output of a pass-through topology feeds block 2 and, with block 3, another one that feeds block 4: a flow
  from 3 to 2 that nobody connected, and none from 1 to 4.\<close>

lemma flatten_chain_spurious:
  "flatten 4 (net_of [(5, [bflow 1 ''0'' 6 ''in'', bflow 6 ''out'' 2 ''0'', bflow 6 ''out'' 7 ''in'', bflow 3 ''0'' 7 ''in'', bflow 7 ''out'' 4 ''0'']),
      (6, [thru 6]), (7, [thru 7])]) 5
    = Some [bflow 3 ''0'' 2 ''0'', bflow 1 ''0'' 2 ''0'', bflow 3 ''0'' 4 ''0'']"
  by (simp add: flatten_eval)

end
