(* ===== verification/TopologyCommit.thy ===== *)
theory TopologyCommit
  imports TopologyFlows
begin

text \<open>
  The commit of a topology (lib/Framework/TopologyCommit.cpp, TopologyDomainFlows.cpp and the helpers of
  TopologyImpl.hpp): crossings of buffer domains, subscriptions of the ports, buffer managers and
  activation, on the workers of theory Worker. All blocks live in one process, so the network flows
  (TopologyNetworkFlows.cpp) are the flows themselves and there is one sub-topology, whose id is
  \<open>remote\<close>. Futures run in the order in which they are made. The iteration order of a hash map is the
  order in which its keys first occur. New objects get the addresses that the parameters give:
  \<open>copier\<close> for the copier of a port, \<open>ids\<close> for the ports that a connection makes, \<open>mgr\<close> for
  the managers.
\<close>

section \<open>Objects of flows\<close>

definition obj_map :: "flow list \<Rightarrow> (nat \<times> nat option) list" where
  "obj_map fs = fold (\<lambda>f m. smap_set (po_uid (fl_dst f)) (po_obj (fl_dst f)) (smap_set (po_uid (fl_src f)) (po_obj (fl_src f)) m)) fs []"

definition getObjSetFromFlowList :: "flow list \<Rightarrow> flow list \<Rightarrow> nat option list" where
  "getObjSetFromFlowList flows excludes =
     map snd (fold (\<lambda>f m. smap_erase (po_uid (fl_dst f)) (smap_erase (po_uid (fl_src f)) m)) excludes (obj_map flows))"

section \<open>Domains\<close>

definition getDomain :: "port \<Rightarrow> bool \<Rightarrow> world \<Rightarrow> string result" where
  "getDomain p isInput w =
     (case po_obj p of None \<Rightarrow> Inl OtherException
      | Some a \<Rightarrow> if isInput then result_bind (blk_input a (po_name p) w) (\<lambda>i. Inr (ip_domain (w_in w i)))
                 else result_bind (blk_output a (po_name p) w) (\<lambda>i. Inr (op_domain (w_out w i))))"

definition getBufferMode :: "env \<Rightarrow> port \<Rightarrow> bool \<Rightarrow> string \<Rightarrow> string result" where
  "getBufferMode env p isInput domain =
     (case po_obj p of None \<Rightarrow> Inl OtherException
      | Some a \<Rightarrow> if isInput then wa_getInputBufferMode env a (po_name p) domain
                 else wa_getOutputBufferMode env a (po_name p) domain)"

text \<open>The loop over the ports at the other end: the set of their domains and whether all of them abdicate.\<close>

fun inspect_subs :: "env \<Rightarrow> bool \<Rightarrow> string \<Rightarrow> port list \<Rightarrow> world \<Rightarrow> (string list \<times> bool) result" where
  "inspect_subs env isInput mainDomain [] w = Inr ([], True)"
| "inspect_subs env isInput mainDomain (p # ps) w =
     result_bind (getDomain p (\<not> isInput) w) (\<lambda>d.
     result_bind (getBufferMode env p (\<not> isInput) mainDomain) (\<lambda>mode.
     result_bind (inspect_subs env isInput mainDomain ps w) (\<lambda>(ds, allAbdicate).
       Inr (List.insert d ds, mode = ''ABDICATE'' \<and> allAbdicate))))"

definition isDomainCrossingAcceptable :: "env \<Rightarrow> port \<Rightarrow> port list \<Rightarrow> bool \<Rightarrow> world \<Rightarrow> bool result" where
  "isDomainCrossingAcceptable env mainPort subPorts isInput w =
     result_bind (getDomain mainPort isInput w) (\<lambda>mainDomain.
     result_bind (inspect_subs env isInput mainDomain subPorts w) (\<lambda>(subDomains, allOthersAbdicate).
       if length subDomains > 1 then Inr False
       else result_bind (getBufferMode env mainPort isInput (hd subDomains)) (\<lambda>mainMode.
         Inr (if mainMode = ''ERROR'' then False
              else if mainMode = ''ABDICATE'' then True
              else if isInput \<and> mainMode = ''CUSTOM'' \<and> length subPorts > 1 then False
              else if mainMode = ''CUSTOM'' \<and> \<not> allOthersAbdicate then False
              else True))))"

text \<open>The entries of the maps \<open>srcs\<close> and \<open>dsts\<close> at a port, as the double loop fills them.\<close>

definition dsts_of :: "flow list \<Rightarrow> port \<Rightarrow> port list" where
  "dsts_of fs p = concat (map (\<lambda>f. if port_eq (fl_src f) p
     then map fl_dst (filter (\<lambda>g. port_eq (fl_src g) (fl_src f)) fs) else []) fs)"

definition srcs_of :: "flow list \<Rightarrow> port \<Rightarrow> port list" where
  "srcs_of fs p = concat (map (\<lambda>f. if port_eq (fl_dst f) p
     then map fl_src (filter (\<lambda>g. port_eq (fl_dst g) (fl_dst f)) fs) else []) fs)"

definition add_new_flow :: "flow \<Rightarrow> flow list \<Rightarrow> flow list" where
  "add_new_flow f fs = (if has_flow f fs then fs else fs @ [f])"

definition bridge_flows :: "nat \<Rightarrow> nat \<Rightarrow> flow \<Rightarrow> flow list \<Rightarrow> flow list" where
  "bridge_flows self c f safe =
     add_new_flow \<lparr>fl_src = makePort self c ''0'', fl_dst = fl_dst f\<rparr>
       (add_new_flow \<lparr>fl_src = fl_src f, fl_dst = makePort self c ''0''\<rparr> safe)"

fun rectify_loop :: "env \<Rightarrow> (bool \<Rightarrow> port \<Rightarrow> nat) \<Rightarrow> nat \<Rightarrow> flow list \<Rightarrow> world \<Rightarrow> flow list \<Rightarrow> flow list \<Rightarrow> flow list result" where
  "rectify_loop env copier self flatFlows w [] safe = Inr safe"
| "rectify_loop env copier self flatFlows w (f # fs) safe =
     result_bind (isDomainCrossingAcceptable env (fl_src f) (dsts_of flatFlows (fl_src f)) False w) (\<lambda>srcOk.
     result_bind (isDomainCrossingAcceptable env (fl_dst f) (srcs_of flatFlows (fl_dst f)) True w) (\<lambda>dstOk.
       rectify_loop env copier self flatFlows w fs
         (if \<not> dstOk then bridge_flows self (copier True (fl_dst f)) f safe
          else if \<not> srcOk then bridge_flows self (copier False (fl_src f)) f safe
          else safe @ [f])))"

definition rectifyDomainFlows :: "env \<Rightarrow> (bool \<Rightarrow> port \<Rightarrow> nat) \<Rightarrow> nat \<Rightarrow> flow list \<Rightarrow> world \<Rightarrow> flow list result" where
  "rectifyDomainFlows env copier self flatFlows w = rectify_loop env copier self flatFlows w flatFlows []"

section \<open>Subscriptions\<close>

definition subscribePort :: "port \<Rightarrow> port \<Rightarrow> string \<Rightarrow> world \<Rightarrow> world \<times> pothos_error option" where
  "subscribePort src dst action w =
     (case (po_obj src, po_obj dst) of
        (Some s, Some d) \<Rightarrow>
          (case blk_input d (po_name dst) w of
             Inl e \<Rightarrow> (w, Some e)
           | Inr i \<Rightarrow>
               (case wa_subscribeInput s action (po_name src) i w of
                  (w, Some e) \<Rightarrow> (w, Some e)
                | (w, None) \<Rightarrow>
                    (case blk_output s (po_name src) w of
                       Inl e \<Rightarrow> (w, Some e)
                     | Inr q \<Rightarrow> wa_subscribeOutput d action (po_name dst) q w)))
      | _ \<Rightarrow> (w, Some OtherException))"

text \<open>Tasks that all run, and whose errors are collected.\<close>

fun run_all :: "('a \<Rightarrow> world \<Rightarrow> world \<times> pothos_error option) \<Rightarrow> 'a list \<Rightarrow> world \<Rightarrow> world \<times> pothos_error list" where
  "run_all task [] w = (w, [])"
| "run_all task (x # xs) w =
     (case task x w of (w, e) \<Rightarrow>
       (case run_all task xs w of (w, errs) \<Rightarrow> (w, (case e of None \<Rightarrow> errs | Some e \<Rightarrow> e # errs))))"

definition throw_errors :: "world \<times> pothos_error list \<Rightarrow> world \<times> pothos_error option" where
  "throw_errors r = (fst r, if snd r = [] then None else Some TopologyConnectError)"

definition updateFlows :: "flow list \<Rightarrow> string \<Rightarrow> world \<Rightarrow> world \<times> pothos_error option" where
  "updateFlows flows action w = throw_errors (run_all (\<lambda>f. subscribePort (fl_src f) (fl_dst f) action) flows w)"

section \<open>Buffer managers\<close>

fun port_keys :: "port list \<Rightarrow> port list \<Rightarrow> port list" where
  "port_keys seen [] = []"
| "port_keys seen (p # ps) =
     (if \<exists>q \<in> set seen. port_eq q p then port_keys seen ps else p # port_keys (p # seen) ps)"

text \<open>The check of the other destinations; the mode is asked for the name of the first destination's port.\<close>

fun others_abdicate :: "env \<Rightarrow> port \<Rightarrow> string \<Rightarrow> port list \<Rightarrow> pothos_error option" where
  "others_abdicate env dst srcDomain [] = None"
| "others_abdicate env dst srcDomain (q # qs) =
     (if port_eq q dst then others_abdicate env dst srcDomain qs
      else case getBufferMode env (q\<lparr>po_name := po_name dst\<rparr>) True srcDomain of
        Inl e \<Rightarrow> Some e
      | Inr mode \<Rightarrow> if mode \<noteq> ''ABDICATE'' then Some OtherException else others_abdicate env dst srcDomain qs)"

text \<open>The manager for a source port with its destinations.\<close>

definition pick_manager :: "env \<Rightarrow> nat \<Rightarrow> port \<Rightarrow> port list \<Rightarrow> world \<Rightarrow> (nat \<times> world) result" where
  "pick_manager env new src dsts w =
     (let dst = hd dsts in
      result_bind (getDomain src False w) (\<lambda>srcDomain.
      result_bind (getDomain dst True w) (\<lambda>dstDomain.
      result_bind (getBufferMode env src False dstDomain) (\<lambda>srcMode.
      result_bind (getBufferMode env dst True srcDomain) (\<lambda>dstMode.
        case (po_obj src, po_obj dst) of
          (Some s, Some d) \<Rightarrow>
            if srcMode = ''CUSTOM'' then wa_getBufferManager env s (po_name src) dstDomain False new w
            else if dstMode = ''CUSTOM'' then
              (case others_abdicate env dst srcDomain dsts of
                 Some e \<Rightarrow> Inl e
               | None \<Rightarrow> wa_getBufferManager env d (po_name dst) srcDomain True new w)
            else wa_getBufferManager env s (po_name src) dstDomain False new w
        | _ \<Rightarrow> Inl OtherException)))))"

text \<open>An error of the choice of a manager is thrown at once; those of the installation are collected.\<close>

fun install_loop :: "env \<Rightarrow> (port \<Rightarrow> nat) \<Rightarrow> flow list \<Rightarrow> port list \<Rightarrow> world \<times> pothos_error list \<Rightarrow> (world \<times> pothos_error list) \<times> pothos_error option" where
  "install_loop env mgr fs [] st = (st, None)"
| "install_loop env mgr fs (p # ps) st = (case st of (w, errs) \<Rightarrow>
     (case pick_manager env (mgr p) p (dsts_of fs p) w of
        Inl e \<Rightarrow> ((w, errs), Some e)
      | Inr (k, w) \<Rightarrow>
          (case wa_setOutputBufferManager (the (po_obj p)) (po_name p) (Some k) w of
             (w, None) \<Rightarrow> install_loop env mgr fs ps (w, errs)
           | (w, Some e) \<Rightarrow> install_loop env mgr fs ps (w, errs @ [e]))))"

definition installBufferManagers :: "env \<Rightarrow> (port \<Rightarrow> nat) \<Rightarrow> flow list \<Rightarrow> world \<Rightarrow> world \<times> pothos_error option" where
  "installBufferManagers env mgr flatFlows w =
     (case install_loop env mgr flatFlows (port_keys [] (map fl_src flatFlows)) (w, []) of
        ((w, errs), Some e) \<Rightarrow> (w, Some e)
      | ((w, errs), None) \<Rightarrow> throw_errors (w, errs))"

section \<open>Sub-commit\<close>

definition setActiveState :: "env \<Rightarrow> bool \<Rightarrow> nat option \<Rightarrow> world \<Rightarrow> world \<times> pothos_error option" where
  "setActiveState env state block w =
     (case block of None \<Rightarrow> (w, Some OtherException)
      | Some a \<Rightarrow> if state then wa_setActiveStateOn env a w else wa_setActiveStateOff env a w)"

text \<open>The result is the new list of active flows, the blocks and the error, if any.\<close>

definition topologySubCommit :: "env \<Rightarrow> (port \<Rightarrow> nat) \<Rightarrow> flow list \<Rightarrow> flow list \<Rightarrow> world \<Rightarrow> flow list \<times> world \<times> pothos_error option" where
  "topologySubCommit env mgr flatFlows activeFlatFlows w =
     (let newFlows = filter (\<lambda>f. \<not> has_flow f activeFlatFlows) flatFlows;
          oldFlows = filter (\<lambda>f. \<not> has_flow f flatFlows) activeFlatFlows
      in case updateFlows newFlows ''add'' w of (w, Some e) \<Rightarrow> (activeFlatFlows, w, Some e) | (w, None) \<Rightarrow>
        (case updateFlows oldFlows ''remove'' w of (w, Some e) \<Rightarrow> (activeFlatFlows, w, Some e) | (w, None) \<Rightarrow>
          (case installBufferManagers env mgr newFlows w of (w, Some e) \<Rightarrow> (activeFlatFlows, w, Some e) | (w, None) \<Rightarrow>
            (let r1 = run_all (setActiveState env True) (getObjSetFromFlowList newFlows activeFlatFlows) w;
                 r2 = run_all (setActiveState env False) (getObjSetFromFlowList oldFlows flatFlows) (fst r1)
             in (flatFlows, fst r2, if snd r1 @ snd r2 = [] then None else Some TopologyConnectError)))))"

definition commit_sub :: "env \<Rightarrow> (port \<Rightarrow> nat) \<Rightarrow> nat \<Rightarrow> net \<Rightarrow> net \<times> pothos_error option" where
  "commit_sub env mgr u n =
     (case topologySubCommit env mgr (tp_flows (the_topo u n)) (tp_activeFlatFlows (the_topo u n)) (n_world n) of
        (active, w, e) \<Rightarrow> (upd_topo u (\<lambda>t. t\<lparr>tp_activeFlatFlows := active\<rparr>) (n\<lparr>n_world := w\<rparr>), e))"

section \<open>Commit\<close>

text \<open>The connections of the sub-topology; the first error is thrown.\<close>

fun connect_all :: "env \<Rightarrow> (flow \<Rightarrow> nat \<times> nat \<times> nat) \<Rightarrow> nat \<Rightarrow> flow list \<Rightarrow> net \<Rightarrow> net \<times> pothos_error option" where
  "connect_all env ids u [] n = (n, None)"
| "connect_all env ids u (f # fs) n =
     (case ids f of (pidOut, midOut, pidIn) \<Rightarrow>
       (case tp_connect env u (po_obj (fl_src f)) (po_name (fl_src f)) (po_obj (fl_dst f)) (po_name (fl_dst f)) pidOut midOut pidIn n of
          (n, Some e) \<Rightarrow> (n, Some e)
        | (n, None) \<Rightarrow> connect_all env ids u fs n))"

definition tp_commit :: "env \<Rightarrow> (bool \<Rightarrow> port \<Rightarrow> nat) \<Rightarrow> (flow \<Rightarrow> nat \<times> nat \<times> nat) \<Rightarrow> (port \<Rightarrow> nat) \<Rightarrow> nat \<Rightarrow> nat \<Rightarrow> nat \<Rightarrow> net
    \<Rightarrow> (net \<times> pothos_error option) option" where
  "tp_commit env copier ids mgr fuel self remote n =
     (case squashFlows fuel n (tp_flows (the_topo self n)) of
        None \<Rightarrow> None
      | Some squashedFlows \<Rightarrow>
          Some (case rectifyDomainFlows env copier self (completePassThroughFlows squashedFlows) (n_world n) of
            Inl e \<Rightarrow> (n, Some e)
          | Inr flatFlows \<Rightarrow>
              (let n = (if n_topo n remote = None \<and> flatFlows \<noteq> [] then n\<lparr>n_topo := (n_topo n)(remote := Some tp_new)\<rparr> else n);
                   n = tp_disconnectAll False remote n
               in case connect_all env ids remote flatFlows n of
                    (n, Some e) \<Rightarrow> (n, Some e)
                  | (n, None) \<Rightarrow>
                      (case commit_sub env mgr remote n of
                         (n, Some e) \<Rightarrow> (n, Some TopologyConnectError)
                       | (n, None) \<Rightarrow> (upd_topo self (\<lambda>t. t\<lparr>tp_activeFlatFlows := flatFlows\<rparr>) n, None)))))"

section \<open>What the commit sees of the workers\<close>

definition subs_out :: "world \<Rightarrow> nat \<Rightarrow> nat list" where
  "subs_out w = (\<lambda>i. op_subscribers (w_out w i))"

definition subs_in :: "world \<Rightarrow> nat \<Rightarrow> nat list" where
  "subs_in w = (\<lambda>j. ip_subscribers (w_in w j))"

definition tabs :: "world \<Rightarrow> nat \<Rightarrow> port_tables \<times> port_tables" where
  "tabs w = (\<lambda>a. (wa_in (w_worker w a), wa_out (w_worker w a)))"

definition act :: "world \<Rightarrow> nat \<Rightarrow> bool" where
  "act w = (\<lambda>a. wa_activeState (w_worker w a))"

definition keeps :: "world \<Rightarrow> world \<Rightarrow> bool" where
  "keeps w w' \<longleftrightarrow> subs_out w' = subs_out w \<and> subs_in w' = subs_in w \<and> tabs w' = tabs w \<and> act w' = act w"

lemma keeps_refl [simp]: "keeps w w"
  by (simp add: keeps_def)

lemma keeps_trans: "keeps w w1 \<Longrightarrow> keeps w1 w2 \<Longrightarrow> keeps w w2"
  by (simp add: keeps_def)

lemma view_simps [simp]:
  "subs_out (flag_change x w) = subs_out w" "subs_in (flag_change x w) = subs_in w" "tabs (flag_change x w) = tabs w"
  "act (flag_change x w) = act w"
  "subs_out (set_mgr k b w) = subs_out w" "subs_in (set_mgr k b w) = subs_in w" "tabs (set_mgr k b w) = tabs w"
  "act (set_mgr k b w) = act w"
  "subs_out (upd_worker a h w) = subs_out w" "subs_in (upd_worker a h w) = subs_in w"
  by (simp_all add: subs_out_def subs_in_def tabs_def act_def set_mgr_def)

lemma view_updatePorts [simp]: "tabs (upd_worker a wa_updatePorts w) = tabs w" "act (upd_worker a wa_updatePorts w) = act w"
  by (auto simp: tabs_def act_def wa_updatePorts_def fun_eq_iff)

lemma view_upd_out:
  "subs_out (upd_out i (\<lambda>p. p\<lparr>op_subscribers := xs\<rparr>) w) = (subs_out w)(i := xs)"
  "subs_in (upd_out i g w) = subs_in w" "tabs (upd_out i g w) = tabs w" "act (upd_out i g w) = act w"
  by (simp_all add: subs_out_def subs_in_def tabs_def act_def upd_out_def fun_eq_iff)

lemma view_upd_in:
  "subs_in (upd_in i (\<lambda>p. p\<lparr>ip_subscribers := xs\<rparr>) w) = (subs_in w)(i := xs)"
  "subs_out (upd_in i g w) = subs_out w" "tabs (upd_in i g w) = tabs w" "act (upd_in i g w) = act w"
  by (simp_all add: subs_out_def subs_in_def tabs_def act_def upd_in_def fun_eq_iff)

lemma view_managerSetup [simp]:
  "subs_out (out_bufferManagerSetup i m w) = subs_out w" "subs_in (out_bufferManagerSetup i m w) = subs_in w"
  "tabs (out_bufferManagerSetup i m w) = tabs w" "act (out_bufferManagerSetup i m w) = act w"
  by (cases m; simp add: out_bufferManagerSetup_def Let_def subs_out_def subs_in_def tabs_def act_def upd_out_def fun_eq_iff)+

lemma setOutputBufferManager_keeps: "wa_setOutputBufferManager a x m w = (w', e) \<Longrightarrow> keeps w w'"
  by (auto simp: wa_setOutputBufferManager_def with_lock_def keeps_def split: option.splits)

lemma getBufferManager_keeps:
  assumes "wa_getBufferManager env a x d b new w = Inr (k, w')" shows "keeps w w'"
proof -
  obtain m where m: "(if b then en_inputManager env a x d else en_outputManager env a x d) = Inr m"
    using assms unfolding wa_getBufferManager_def result_bind_Inr_iff by blast
  show ?thesis
  proof (cases m)
    case None
    then show ?thesis using assms m unfolding wa_getBufferManager_def m by (auto simp: keeps_def)
  next
    case (Some q)
    then show ?thesis using assms unfolding wa_getBufferManager_def m by (auto simp: keeps_def split: if_splits)
  qed
qed

lemma pick_manager_keeps:
  assumes "pick_manager env new src dsts w = Inr (k, w')" shows "keeps w w'"
proof -
  obtain sd dd sm dm where bind: "getDomain src False w = Inr sd" "getDomain (hd dsts) True w = Inr dd"
    "getBufferMode env src False dd = Inr sm" "getBufferMode env (hd dsts) True sd = Inr dm"
    using assms unfolding pick_manager_def Let_def result_bind_Inr_iff by blast
  note run = assms[unfolded pick_manager_def Let_def bind result_bind.simps]
  then obtain s d where sd: "po_obj src = Some s" "po_obj (hd dsts) = Some d" by (auto split: option.splits)
  have upto: "(if sm = ''CUSTOM'' then wa_getBufferManager env s (po_name src) dd False new w
      else if dm = ''CUSTOM'' then
        (case others_abdicate env (hd dsts) sd dsts of
           Some e \<Rightarrow> Inl e
         | None \<Rightarrow> wa_getBufferManager env d (po_name (hd dsts)) sd True new w)
      else wa_getBufferManager env s (po_name src) dd False new w) = Inr (k, w')"
    using run unfolding sd prod.case option.case .
  have "\<exists>a x y b. wa_getBufferManager env a x y b new w = Inr (k, w')"
  proof (cases "sm \<noteq> ''CUSTOM'' \<and> dm = ''CUSTOM''")
    case True
    then show ?thesis using upto by (cases "others_abdicate env (hd dsts) sd dsts") auto
  next
    case False
    then show ?thesis using upto by (auto split: if_splits)
  qed
  then show ?thesis using getBufferManager_keeps by blast
qed

lemma install_loop_keeps:
  "install_loop env mgr fs ps (w, errs) = ((w', errs'), e) \<Longrightarrow> keeps w w'"
proof (induction ps arbitrary: w errs)
  case (Cons p ps)
  show ?case
  proof (cases "pick_manager env (mgr p) p (dsts_of fs p) w")
    case (Inr r)
    obtain k w1 where r: "r = (k, w1)" by (cases r)
    obtain w2 e2 where set2: "wa_setOutputBufferManager (the (po_obj p)) (po_name p) (Some k) w1 = (w2, e2)" by fastforce
    have "keeps w w2" using keeps_trans pick_manager_keeps Inr r setOutputBufferManager_keeps[OF set2] by blast
    moreover have "\<exists>errs2. install_loop env mgr fs ps (w2, errs2) = ((w', errs'), e)"
      using Cons.prems Inr r set2 by (cases e2) auto
    ultimately show ?thesis using Cons.IH keeps_trans by blast
  qed (use Cons.prems in simp)
qed simp

lemma install_keeps: "installBufferManagers env mgr fs w = (w', e) \<Longrightarrow> keeps w w'"
  by (auto simp: installBufferManagers_def throw_errors_def split: prod.splits option.splits dest: install_loop_keeps)

section \<open>Tasks without errors\<close>

lemma run_all_Cons_ok:
  "run_all task (x # xs) w = (w', []) \<longleftrightarrow> (\<exists>w1. task x w = (w1, None) \<and> run_all task xs w1 = (w', []))"
  by (auto split: prod.splits option.splits)

section \<open>Subscriptions of flows\<close>

text \<open>The ports that a flow joins: the identities of its output port and its input port.\<close>

definition edge :: "(nat \<Rightarrow> port_tables \<times> port_tables) \<Rightarrow> flow \<Rightarrow> (nat \<times> nat) option" where
  "edge T f = (case (po_obj (fl_src f), po_obj (fl_dst f)) of
       (Some s, Some d) \<Rightarrow>
         (case (smap_find (po_name (fl_src f)) (pt_ports (snd (T s))), smap_find (po_name (fl_dst f)) (pt_ports (fst (T d)))) of
            (Some i, Some j) \<Rightarrow> Some (i, j)
          | _ \<Rightarrow> None)
     | _ \<Rightarrow> None)"

text \<open>Named and allocated ports agree, and a port belongs to one worker under one name.\<close>

definition tables_ok :: "(nat \<Rightarrow> port_tables \<times> port_tables) \<Rightarrow> bool" where
  "tables_ok T \<longleftrightarrow> (\<forall>a. pt_named (fst (T a)) = pt_ports (fst (T a)) \<and> pt_named (snd (T a)) = pt_ports (snd (T a)))
     \<and> (\<forall>a b x y i. smap_find x (pt_ports (fst (T a))) = Some i \<longrightarrow> smap_find y (pt_ports (fst (T b))) = Some i \<longrightarrow> a = b \<and> x = y)
     \<and> (\<forall>a b x y i. smap_find x (pt_ports (snd (T a))) = Some i \<longrightarrow> smap_find y (pt_ports (snd (T b))) = Some i \<longrightarrow> a = b \<and> x = y)"

text \<open>The subscriptions are exactly the pairs of a set, each once, on both sides.\<close>

definition subs_are :: "(nat \<times> nat) set \<Rightarrow> world \<Rightarrow> bool" where
  "subs_are E w \<longleftrightarrow> (\<forall>i. distinct (subs_out w i) \<and> distinct (subs_in w i))
     \<and> (\<forall>i j. (j \<in> set (subs_out w i) \<longleftrightarrow> (i, j) \<in> E) \<and> (i \<in> set (subs_in w j) \<longleftrightarrow> (i, j) \<in> E))"

lemma edge_Some_iff:
  "edge T f = Some (i, j) \<longleftrightarrow> (\<exists>s d. po_obj (fl_src f) = Some s \<and> po_obj (fl_dst f) = Some d
     \<and> smap_find (po_name (fl_src f)) (pt_ports (snd (T s))) = Some i \<and> smap_find (po_name (fl_dst f)) (pt_ports (fst (T d))) = Some j)"
  by (auto simp: edge_def split: option.splits)

lemma subscribeInput_None_iff:
  "wa_subscribeInput a action x j w = (w', None) \<longleftrightarrow> (\<exists>i xs. smap_find x (pt_ports (snd (tabs w a))) = Some i
     \<and> subscribe action j (subs_out w i) = Inr xs
     \<and> w' = flag_change (Some a) (upd_worker a wa_updatePorts (upd_out i (\<lambda>p. p\<lparr>op_subscribers := xs\<rparr>) w)))"
  by (auto simp: wa_subscribeInput_def with_lock_def wa_outputs_def tabs_def subs_out_def split: option.splits sum.splits)

lemma subscribeOutput_None_iff:
  "wa_subscribeOutput a action x i w = (w', None) \<longleftrightarrow> (\<exists>j xs. smap_find x (pt_ports (fst (tabs w a))) = Some j
     \<and> subscribe action i (subs_in w j) = Inr xs
     \<and> w' = flag_change (Some a) (upd_worker a wa_updatePorts (upd_in j (\<lambda>p. p\<lparr>ip_subscribers := xs\<rparr>) w)))"
  by (auto simp: wa_subscribeOutput_def with_lock_def wa_inputs_def tabs_def subs_in_def split: option.splits sum.splits)

lemma blk_input_Inr_iff: "tables_ok (tabs w) \<Longrightarrow> blk_input a x w = Inr j \<longleftrightarrow> smap_find x (pt_ports (fst (tabs w a))) = Some j"
  by (auto simp: blk_input_def named_port_def tables_ok_def tabs_def split: option.splits)

lemma blk_output_Inr_iff: "tables_ok (tabs w) \<Longrightarrow> blk_output a x w = Inr i \<longleftrightarrow> smap_find x (pt_ports (snd (tabs w a))) = Some i"
  by (auto simp: blk_output_def named_port_def tables_ok_def tabs_def split: option.splits)

lemma subscribePort_None:
  assumes "tables_ok (tabs w)" "subscribePort (fl_src f) (fl_dst f) action w = (w', None)"
  shows "\<exists>i j xs ys. edge (tabs w) f = Some (i, j) \<and> subscribe action j (subs_out w i) = Inr xs
    \<and> subscribe action i (subs_in w j) = Inr ys \<and> subs_out w' = (subs_out w)(i := xs) \<and> subs_in w' = (subs_in w)(j := ys)
    \<and> tabs w' = tabs w \<and> act w' = act w"
proof -
  obtain s d where sd: "po_obj (fl_src f) = Some s" "po_obj (fl_dst f) = Some d"
    using assms(2) by (auto simp: subscribePort_def split: option.splits)
  obtain j where j: "blk_input d (po_name (fl_dst f)) w = Inr j"
    using assms(2) unfolding subscribePort_def sd by (cases "blk_input d (po_name (fl_dst f)) w") auto
  obtain w1 e1 where in1: "wa_subscribeInput s action (po_name (fl_src f)) j w = (w1, e1)" by fastforce
  have e1: "e1 = None" using assms(2) unfolding subscribePort_def sd j in1 by (cases e1) (auto simp: j in1)
  from in1[unfolded e1] obtain i xs where i: "smap_find (po_name (fl_src f)) (pt_ports (snd (tabs w s))) = Some i"
    "subscribe action j (subs_out w i) = Inr xs"
    and w1: "w1 = flag_change (Some s) (upd_worker s wa_updatePorts (upd_out i (\<lambda>p. p\<lparr>op_subscribers := xs\<rparr>) w))"
    unfolding subscribeInput_None_iff by blast
  have v1: "subs_out w1 = (subs_out w)(i := xs)" "subs_in w1 = subs_in w" "tabs w1 = tabs w" "act w1 = act w"
    by (simp_all add: w1 view_upd_out)
  have q: "blk_output s (po_name (fl_src f)) w1 = Inr i" using i(1) assms(1) v1 by (simp add: blk_output_Inr_iff)
  have out1: "wa_subscribeOutput d action (po_name (fl_dst f)) i w1 = (w', None)"
    using assms(2) by (simp add: subscribePort_def sd j in1 e1 q)
  then obtain j' ys where j': "smap_find (po_name (fl_dst f)) (pt_ports (fst (tabs w1 d))) = Some j'"
    "subscribe action i (subs_in w1 j') = Inr ys"
    and w': "w' = flag_change (Some d) (upd_worker d wa_updatePorts (upd_in j' (\<lambda>p. p\<lparr>ip_subscribers := ys\<rparr>) w1))"
    unfolding subscribeOutput_None_iff by blast
  have "j' = j" using j j'(1) assms(1) v1 by (simp add: blk_input_Inr_iff)
  moreover have "edge (tabs w) f = Some (i, j)" using i(1) j sd assms(1) by (auto simp: edge_Some_iff blk_input_Inr_iff)
  ultimately show ?thesis using i(2) j'(2) v1 w' by (auto simp: view_upd_in)
qed

lemma subscribe_Inr_iff:
  "subscribe ''add'' i xs = Inr ys \<longleftrightarrow> i \<notin> set xs \<and> ys = xs @ [i]"
  "subscribe ''remove'' i xs = Inr ys \<longleftrightarrow> i \<in> set xs \<and> ys = remove1 i xs"
  by (auto simp: subscribe_def)

lemma subs_are_add:
  assumes "subs_are E w" "subs_out w' = (subs_out w)(i := subs_out w i @ [j])" "subs_in w' = (subs_in w)(j := subs_in w j @ [i])"
    "(i, j) \<notin> E"
  shows "subs_are (insert (i, j) E) w'"
  using assms by (auto simp: subs_are_def)

lemma subs_are_remove:
  assumes "subs_are E w" "subs_out w' = (subs_out w)(i := remove1 j (subs_out w i))" "subs_in w' = (subs_in w)(j := remove1 i (subs_in w j))"
  shows "subs_are (E - {(i, j)}) w'"
  using assms by (auto simp: subs_are_def)

lemma add_flows:
  assumes "run_all (\<lambda>f. subscribePort (fl_src f) (fl_dst f) ''add'') fs w = (w', [])" "tables_ok (tabs w)" "subs_are E w"
  shows "tabs w' = tabs w \<and> act w' = act w \<and> (\<forall>f \<in> set fs. edge (tabs w) f \<noteq> None)
    \<and> subs_are (E \<union> {e. Some e \<in> edge (tabs w) ` set fs}) w' \<and> (\<forall>e \<in> E. Some e \<notin> edge (tabs w) ` set fs)"
  using assms
proof (induction fs arbitrary: w E)
  case (Cons f fs)
  from Cons.prems(1) obtain w1 where w1: "subscribePort (fl_src f) (fl_dst f) ''add'' w = (w1, None)"
    and rest: "run_all (\<lambda>f. subscribePort (fl_src f) (fl_dst f) ''add'') fs w1 = (w', [])"
    unfolding run_all_Cons_ok by blast
  from subscribePort_None[OF Cons.prems(2) w1] obtain i j where e: "edge (tabs w) f = Some (i, j)"
    and new: "j \<notin> set (subs_out w i)" and subs: "subs_out w1 = (subs_out w)(i := subs_out w i @ [j])"
      "subs_in w1 = (subs_in w)(j := subs_in w j @ [i])" "tabs w1 = tabs w" "act w1 = act w"
    unfolding subscribe_Inr_iff by auto
  have fresh: "(i, j) \<notin> E" using new Cons.prems(3) by (simp add: subs_are_def)
  have "subs_are (insert (i, j) E) w1" by (rule subs_are_add[OF Cons.prems(3) subs(1,2) fresh])
  from Cons.IH[OF rest _ this] Cons.prems(2) subs(3,4)
  have IH: "tabs w' = tabs w" "act w' = act w" "\<forall>f \<in> set fs. edge (tabs w) f \<noteq> None"
    "subs_are (insert (i, j) E \<union> {e. Some e \<in> edge (tabs w) ` set fs}) w'"
    "\<forall>e \<in> insert (i, j) E. Some e \<notin> edge (tabs w) ` set fs" by auto
  have "insert (i, j) E \<union> {e. Some e \<in> edge (tabs w) ` set fs} = E \<union> {x. Some x \<in> edge (tabs w) ` set (f # fs)}"
    using e by auto
  then show ?case using IH e fresh by auto
qed simp

lemma remove_flows:
  assumes "run_all (\<lambda>f. subscribePort (fl_src f) (fl_dst f) ''remove'') fs w = (w', [])" "tables_ok (tabs w)" "subs_are E w"
  shows "tabs w' = tabs w \<and> act w' = act w \<and> (\<forall>f \<in> set fs. edge (tabs w) f \<noteq> None)
    \<and> subs_are (E - {e. Some e \<in> edge (tabs w) ` set fs}) w'"
  using assms
proof (induction fs arbitrary: w E)
  case (Cons f fs)
  from Cons.prems(1) obtain w1 where w1: "subscribePort (fl_src f) (fl_dst f) ''remove'' w = (w1, None)"
    and rest: "run_all (\<lambda>f. subscribePort (fl_src f) (fl_dst f) ''remove'') fs w1 = (w', [])"
    unfolding run_all_Cons_ok by blast
  from subscribePort_None[OF Cons.prems(2) w1] obtain i j where e: "edge (tabs w) f = Some (i, j)"
    and subs: "subs_out w1 = (subs_out w)(i := remove1 j (subs_out w i))"
      "subs_in w1 = (subs_in w)(j := remove1 i (subs_in w j))" "tabs w1 = tabs w" "act w1 = act w"
    unfolding subscribe_Inr_iff by auto
  have "subs_are (E - {(i, j)}) w1" by (rule subs_are_remove[OF Cons.prems(3) subs(1,2)])
  from Cons.IH[OF rest _ this] Cons.prems(2) subs(3,4)
  have IH: "tabs w' = tabs w" "act w' = act w" "\<forall>f \<in> set fs. edge (tabs w) f \<noteq> None"
    "subs_are (E - {(i, j)} - {e. Some e \<in> edge (tabs w) ` set fs}) w'" by auto
  have "E - {(i, j)} - {e. Some e \<in> edge (tabs w) ` set fs} = E - {x. Some x \<in> edge (tabs w) ` set (f # fs)}"
    using e by auto
  then show ?case using IH e by auto
qed simp

section \<open>Activation of the blocks of flows\<close>

definition flows_ok :: "flow list \<Rightarrow> bool" where
  "flows_ok fs \<longleftrightarrow> (\<forall>f \<in> set fs. po_obj (fl_src f) = Some (po_uid (fl_src f)) \<and> po_obj (fl_dst f) = Some (po_uid (fl_dst f)))"

definition ends :: "flow list \<Rightarrow> nat set" where
  "ends fs = (\<lambda>f. po_uid (fl_src f)) ` set fs \<union> (\<lambda>f. po_uid (fl_dst f)) ` set fs"

text \<open>A map from unique ids to objects that are these ids.\<close>

definition uid_map :: "(nat \<times> nat option) list \<Rightarrow> nat set \<Rightarrow> bool" where
  "uid_map m U \<longleftrightarrow> smap_ok m \<and> fst ` set m = U \<and> (\<forall>(k, v) \<in> set m. v = Some k)"

lemma uid_map_set: "uid_map m U \<Longrightarrow> uid_map (smap_set k (Some k) m) (insert k U)"
proof -
  assume m: "uid_map m U"
  have "set (smap_set k (Some k) m) \<subseteq> insert (k, Some k) (set m)" by (induction m) (auto split: if_splits)
  then show ?thesis using m unfolding uid_map_def smap_keys_set by auto
qed

lemma uid_map_erase: "uid_map m U \<Longrightarrow> uid_map (smap_erase k m) (U - {k})"
proof -
  assume m: "uid_map m U"
  have "set (smap_erase k m) \<subseteq> set m" by (induction m) (auto split: if_splits)
  then show ?thesis using m by (auto simp: uid_map_def smap_keys_erase smap_ok_distinct)
qed

lemma uid_map_objs:
  assumes "uid_map m U" shows "snd ` set m = Some ` U"
proof -
  have "snd p = Some (fst p)" if "p \<in> set m" for p using assms that by (cases p) (auto simp: uid_map_def)
  then have "snd ` set m = (\<lambda>p. Some (fst p)) ` set m" by (rule image_cong[OF refl])
  then show ?thesis using assms by (simp add: uid_map_def image_image[symmetric])
qed

lemma uid_map_obj: "flows_ok fs \<Longrightarrow> uid_map (obj_map fs) (ends fs)"
proof -
  have "uid_map (fold (\<lambda>f m. smap_set (po_uid (fl_dst f)) (po_obj (fl_dst f)) (smap_set (po_uid (fl_src f)) (po_obj (fl_src f)) m)) fs m) (U \<union> ends fs)"
    if "flows_ok fs" "uid_map m U" for m U
    using that
  proof (induction fs arbitrary: m U)
    case (Cons f fs)
    have "uid_map (smap_set (po_uid (fl_dst f)) (po_obj (fl_dst f)) (smap_set (po_uid (fl_src f)) (po_obj (fl_src f)) m))
        (insert (po_uid (fl_dst f)) (insert (po_uid (fl_src f)) U))"
      using Cons.prems by (simp add: flows_ok_def uid_map_set)
    from Cons.IH[OF _ this] Cons.prems(1) show ?case by (simp add: flows_ok_def ends_def Un_ac insert_commute)
  qed (simp add: ends_def)
  from this[of "[]" "{}"] show "flows_ok fs \<Longrightarrow> ?thesis" by (simp add: obj_map_def uid_map_def)
qed

lemma getObjSet_eq:
  assumes "flows_ok fs" shows "set (getObjSetFromFlowList fs excludes) = Some ` (ends fs - ends excludes)"
proof -
  have "uid_map (fold (\<lambda>f m. smap_erase (po_uid (fl_dst f)) (smap_erase (po_uid (fl_src f)) m)) es m) (U - ends es)"
    if "uid_map m U" for m U es
    using that
  proof (induction es arbitrary: m U)
    case (Cons f es)
    have U: "U - {po_uid (fl_src f)} - {po_uid (fl_dst f)} - ends es = U - ends (f # es)" by (auto simp: ends_def)
    from Cons.IH[OF uid_map_erase[OF uid_map_erase[OF Cons.prems]], of "po_uid (fl_dst f)" "po_uid (fl_src f)"]
    show ?case unfolding U by simp
  qed (simp add: ends_def)
  from this[OF uid_map_obj[OF assms], of excludes]
  show ?thesis unfolding getObjSetFromFlowList_def set_map by (rule uid_map_objs)
qed

text \<open>The user's activate and deactivate change neither subscriptions nor ports nor active states.\<close>

definition activation_keeps :: "env \<Rightarrow> bool" where
  "activation_keeps env \<longleftrightarrow> (\<forall>a w w' e. en_activate env a w = (w', e) \<longrightarrow> keeps w w')
     \<and> (\<forall>a w w' e. en_deactivate env a w = (w', e) \<longrightarrow> keeps w w')"

lemma activation_keepsD:
  assumes "activation_keeps env"
  shows "en_activate env a w = (w', e) \<Longrightarrow> keeps w w'" "en_deactivate env a w = (w', e) \<Longrightarrow> keeps w w'"
  using assms unfolding activation_keeps_def by metis+

lemma view_active [simp]:
  "tabs (upd_worker a (\<lambda>wk. wk\<lparr>wa_activeState := b\<rparr>) w) = tabs w"
  "act (upd_worker a (\<lambda>wk. wk\<lparr>wa_activeState := b\<rparr>) w) = (act w)(a := b)"
  by (auto simp: tabs_def act_def fun_eq_iff)

lemma setActiveState_None:
  assumes "activation_keeps env" "setActiveState env b block w = (w', None)"
  shows "\<exists>a. block = Some a \<and> subs_out w' = subs_out w \<and> subs_in w' = subs_in w \<and> tabs w' = tabs w \<and> act w' = (act w)(a := b)"
proof -
  obtain a where a: "block = Some a" using assms(2) by (auto simp: setActiveState_def split: option.splits)
  show ?thesis
  proof (cases b)
    case True
    obtain w1 e where r: "en_activate env a (upd_worker a (\<lambda>wk. wk\<lparr>wa_activeState := True\<rparr>) w) = (w1, e)" by fastforce
    have "e = None" "w' = flag_change (Some a) w1"
      using assms(2) a True r by (cases e; simp add: setActiveState_def wa_setActiveStateOn_def with_lock_def)+
    moreover have "keeps (upd_worker a (\<lambda>wk. wk\<lparr>wa_activeState := True\<rparr>) w) w1" using activation_keepsD assms(1) r by metis
    ultimately show ?thesis using a True by (simp add: keeps_def)
  next
    case off: False
    obtain w1 e where r: "en_deactivate env a (upd_worker a (\<lambda>wk. wk\<lparr>wa_activeState := False\<rparr>) w) = (w1, e)" by fastforce
    have k: "keeps (upd_worker a (\<lambda>wk. wk\<lparr>wa_activeState := False\<rparr>) w) w1" using activation_keepsD assms(1) r by metis
    show ?thesis
    proof (cases "wa_activeState (w_worker w a)")
      case True
      then have "w' = flag_change (Some a) w1"
        using assms(2) a off r by (simp add: setActiveState_def wa_setActiveStateOff_def with_lock_def)
      then show ?thesis using a off k by (simp add: keeps_def)
    next
      case False
      then have "w' = flag_change (Some a) w" "act w a = False"
        using assms(2) a off by (simp_all add: setActiveState_def wa_setActiveStateOff_def with_lock_def act_def)
      then show ?thesis using a off by (simp add: fun_upd_idem)
    qed
  qed
qed

lemma set_active_all:
  assumes "activation_keeps env" "run_all (setActiveState env b) bs w = (w', [])"
  shows "subs_out w' = subs_out w \<and> subs_in w' = subs_in w \<and> tabs w' = tabs w
    \<and> act w' = (\<lambda>a. if Some a \<in> set bs then b else act w a)"
  using assms(2)
proof (induction bs arbitrary: w)
  case (Cons x bs)
  from Cons.prems obtain w1 where w1: "setActiveState env b x w = (w1, None)" and rest: "run_all (setActiveState env b) bs w1 = (w', [])"
    unfolding run_all_Cons_ok by blast
  from setActiveState_None[OF assms(1) w1] Cons.IH[OF rest] show ?case by (auto simp: fun_eq_iff)
qed simp

section \<open>The sub-commit\<close>

text \<open>The workers agree with a list of flows: the subscriptions are its edges and the blocks at its ends are active.\<close>

definition agrees :: "flow list \<Rightarrow> world \<Rightarrow> bool" where
  "agrees fs w \<longleftrightarrow> (\<forall>f \<in> set fs. edge (tabs w) f \<noteq> None) \<and> subs_are {e. Some e \<in> edge (tabs w) ` set fs} w
     \<and> act w = (\<lambda>a. a \<in> ends fs)"

lemma flow_eq_edge: "flows_ok [f, g] \<Longrightarrow> flow_eq f g \<Longrightarrow> edge T f = edge T g"
  by (auto simp: flows_ok_def flow_eq_iff edge_def)

lemma edge_inj: "tables_ok T \<Longrightarrow> flows_ok [f, g] \<Longrightarrow> edge T f = Some e \<Longrightarrow> edge T g = Some e \<Longrightarrow> flow_eq f g"
  by (cases e) (clarsimp simp: flows_ok_def flow_eq_iff edge_Some_iff tables_ok_def; metis)

lemma has_flow_edge: "flows_ok fs \<Longrightarrow> flows_ok [f] \<Longrightarrow> has_flow f fs \<Longrightarrow> edge T f \<in> edge T ` set fs"
proof -
  assume "flows_ok fs" "flows_ok [f]" "has_flow f fs"
  then obtain g where "g \<in> set fs" "flow_eq g f" "flows_ok [g, f]" by (auto simp: has_flow_def flows_ok_def)
  then show "edge T f \<in> edge T ` set fs" using flow_eq_edge[of g f T] by (metis image_eqI)
qed

lemma has_flow_ends: "has_flow f fs \<Longrightarrow> po_uid (fl_src f) \<in> ends fs \<and> po_uid (fl_dst f) \<in> ends fs"
  unfolding has_flow_def flow_eq_iff ends_def by (auto simp: image_iff) metis+

lemma ends_subset: "(\<And>f. f \<in> set fs \<Longrightarrow> po_uid (fl_src f) \<in> U \<and> po_uid (fl_dst f) \<in> U) \<Longrightarrow> ends fs \<subseteq> U"
  by (auto simp: ends_def)


definition demo_table :: "nat \<Rightarrow> port_tables" where
  "demo_table i = \<lparr>pt_ports = [(''0'', i)], pt_named = [(''0'', i)], pt_indexed = [Some i], pt_names = [''0'']\<rparr>"

text \<open>The output port 10 of block 1 feeds the input port 20 of block 2; the input port 30 of block 3 is free.\<close>

definition commit_world :: world where
  "commit_world = demo_world\<lparr>
     w_worker := (\<lambda>_. wa_new)(1 := wa_new\<lparr>wa_out := demo_table 10, wa_activeState := True\<rparr>,
       2 := wa_new\<lparr>wa_in := demo_table 20, wa_activeState := True\<rparr>, 3 := wa_new\<lparr>wa_in := demo_table 30\<rparr>),
     w_out := (\<lambda>_. op_new 0)(10 := (op_new 0)\<lparr>op_subscribers := [20]\<rparr>),
     w_in := (\<lambda>_. ip_new)(20 := ip_new\<lparr>ip_subscribers := [10]\<rparr>),
     w_mgr := (\<lambda>_. BmGeneric (gm_new\<lparr>gm_base := (gm_base gm_new)\<lparr>bm_initialized := True\<rparr>\<rparr>))\<rparr>"

definition commit_env :: env where
  "commit_env = demo_env\<lparr>en_outputManager := \<lambda>_ _ _. Inr (Some 0), en_inputManager := \<lambda>_ _ _. Inr None\<rparr>"

definition flow_1_to :: "nat \<Rightarrow> flow" where
  "flow_1_to d = \<lparr>fl_src = makePort 9 1 ''0'', fl_dst = makePort 9 d ''0''\<rparr>"

definition commit_demo :: "flow list \<times> world \<times> pothos_error option" where
  "commit_demo = topologySubCommit commit_env (\<lambda>_. 0) [flow_1_to 3] [flow_1_to 2] commit_world"

lemma commit_demo_ok: "snd (snd commit_demo) = None"
  by (simp add: commit_demo_def topologySubCommit_def commit_env_def flow_1_to_def makePort_def flow_eq_iff updateFlows_def
    subscribePort_def blk_input_def blk_output_def named_port_def commit_world_def demo_world_def demo_table_def demo_env_def wa_new_def
    wa_subscribeInput_def wa_subscribeOutput_def with_lock_def flag_change_def wa_outputs_def wa_inputs_def subscribe_def throw_errors_def
    wa_updatePorts_def upd_out_def upd_in_def upd_worker_def installBufferManagers_def port_eq_def pick_manager_def getDomain_def
    getBufferMode_def wa_getOutputBufferMode_def wa_getInputBufferMode_def buffer_mode_def dsts_of_def wa_getBufferManager_def
    wa_setOutputBufferManager_def out_bufferManagerSetup_def op_new_def ip_new_def Let_def getObjSetFromFlowList_def obj_map_def
    setActiveState_def wa_setActiveStateOn_def wa_setActiveStateOff_def bm_isInitialized_def)


section \<open>Crossings of domains\<close>

text \<open>The port whose copier takes a flow, if any: the destination's before the source's.\<close>

definition crossing :: "env \<Rightarrow> flow list \<Rightarrow> world \<Rightarrow> flow \<Rightarrow> (bool \<times> port) option" where
  "crossing env flat w f =
     (if isDomainCrossingAcceptable env (fl_dst f) (srcs_of flat (fl_dst f)) True w \<noteq> Inr True then Some (True, fl_dst f)
      else if isDomainCrossingAcceptable env (fl_src f) (dsts_of flat (fl_src f)) False w \<noteq> Inr True then Some (False, fl_src f)
      else None)"

definition pieces :: "env \<Rightarrow> (bool \<Rightarrow> port \<Rightarrow> nat) \<Rightarrow> nat \<Rightarrow> flow list \<Rightarrow> world \<Rightarrow> flow \<Rightarrow> flow list" where
  "pieces env copier self flat w f =
     (case crossing env flat w f of None \<Rightarrow> [f] | Some (b, p) \<Rightarrow> bridge_flows self (copier b p) f [])"

lemma has_flow_bridge: "has_flow g (bridge_flows self c f safe) \<longleftrightarrow> has_flow g safe \<or> has_flow g (bridge_flows self c f [])"
  by (auto simp: bridge_flows_def add_new_flow_def flow_eq_iff has_flow_def)

lemma rectify_loop_flows:
  "rectify_loop env copier self flat w fs safe = Inr r \<Longrightarrow>
     has_flow g r \<longleftrightarrow> has_flow g safe \<or> (\<exists>f \<in> set fs. has_flow g (pieces env copier self flat w f))"
proof (induction fs arbitrary: safe)
  case (Cons f fs)
  from Cons.prems obtain srcOk dstOk where
    a: "isDomainCrossingAcceptable env (fl_src f) (dsts_of flat (fl_src f)) False w = Inr srcOk"
       "isDomainCrossingAcceptable env (fl_dst f) (srcs_of flat (fl_dst f)) True w = Inr dstOk"
    and rest: "rectify_loop env copier self flat w fs
         (if \<not> dstOk then bridge_flows self (copier True (fl_dst f)) f safe
          else if \<not> srcOk then bridge_flows self (copier False (fl_src f)) f safe
          else safe @ [f]) = Inr r" by auto
  have "has_flow g (if \<not> dstOk then bridge_flows self (copier True (fl_dst f)) f safe
          else if \<not> srcOk then bridge_flows self (copier False (fl_src f)) f safe
          else safe @ [f]) \<longleftrightarrow> has_flow g safe \<or> has_flow g (pieces env copier self flat w f)"
    using a by (cases dstOk; cases srcOk)
      (simp_all add: pieces_def crossing_def has_flow_bridge[of g _ _ _ safe])
  then show ?case using Cons.IH[OF rest] by auto
qed simp

definition flow_ports :: "flow list \<Rightarrow> port set" where
  "flow_ports fs = fl_src ` set fs \<union> fl_dst ` set fs"

text \<open>Every port with a problem has a copier block of its own that is not in the topology.\<close>

definition copiers_ok :: "(bool \<Rightarrow> port \<Rightarrow> nat) \<Rightarrow> flow list \<Rightarrow> bool" where
  "copiers_ok copier flat \<longleftrightarrow> (\<forall>p \<in> flow_ports flat. \<forall>b. copier b p \<notin> ends flat)
     \<and> (\<forall>p \<in> flow_ports flat. \<forall>q \<in> flow_ports flat. \<forall>b c. copier b p = copier c q \<longrightarrow> b = c \<and> port_eq p q)"

lemma flow_eq_ends: "flow_eq f g \<longleftrightarrow> port_eq (fl_src f) (fl_src g) \<and> port_eq (fl_dst f) (fl_dst g)"
  by (auto simp: flow_eq_iff port_eq_def)

lemma port_eq_sym: "port_eq p q \<Longrightarrow> port_eq q p"
  by (simp add: port_eq_def)

lemma port_eq_trans: "port_eq p q \<Longrightarrow> port_eq q r \<Longrightarrow> port_eq p r"
  by (simp add: port_eq_def)

lemma has_flow_bridge_iff:
  "has_flow g (bridge_flows self c f []) \<longleftrightarrow>
     port_eq (fl_src g) (fl_src f) \<and> port_eq (fl_dst g) (makePort self c ''0'')
     \<or> port_eq (fl_src g) (makePort self c ''0'') \<and> port_eq (fl_dst g) (fl_dst f)"
  by (auto simp: bridge_flows_def add_new_flow_def flow_eq_ends port_eq_def)

lemma crossing_port: "crossing env flat w f = Some (b, p) \<Longrightarrow> p = (if b then fl_dst f else fl_src f)"
  by (auto simp: crossing_def split: if_splits)

abbreviation copier_port :: "nat \<Rightarrow> (bool \<Rightarrow> port \<Rightarrow> nat) \<Rightarrow> bool \<Rightarrow> port \<Rightarrow> port" where
  "copier_port self copier b p \<equiv> makePort self (copier b p) ''0''"

lemma copier_port_fresh:
  assumes "copiers_ok copier flat" "p \<in> flow_ports flat" "po_uid x \<in> ends flat"
  shows "\<not> port_eq x (copier_port self copier b p)" "\<not> port_eq (copier_port self copier b p) x"
proof -
  have "copier b p \<notin> ends flat" using assms(1,2) unfolding copiers_ok_def by blast
  then have "copier b p \<noteq> po_uid x" using assms(3) by metis
  then show "\<not> port_eq x (copier_port self copier b p)" "\<not> port_eq (copier_port self copier b p) x"
    by (auto simp: port_eq_def makePort_def)
qed

lemma copier_port_inj:
  assumes "copiers_ok copier flat" "p \<in> flow_ports flat" "q \<in> flow_ports flat"
    "port_eq (copier_port self copier b p) (copier_port self copier c q)"
  shows "b = c \<and> port_eq p q"
proof -
  have "copier b p = copier c q" using assms(4) by (simp add: port_eq_def makePort_def)
  then show ?thesis using assms(1-3) unfolding copiers_ok_def by blast
qed

lemma flow_uids: "f \<in> set flat \<Longrightarrow> po_uid (fl_src f) \<in> ends flat \<and> po_uid (fl_dst f) \<in> ends flat"
  by (simp add: ends_def)

lemma pieces_cases:
  assumes "f \<in> set flat"
  obtains (direct) "crossing env flat w f = None" "pieces env copier self flat w f = [f]"
  | (bridge) b p where "crossing env flat w f = Some (b, p)" "p \<in> flow_ports flat" "p = (if b then fl_dst f else fl_src f)"
      "pieces env copier self flat w f = bridge_flows self (copier b p) f []"
proof (cases "crossing env flat w f")
  case None
  then show ?thesis using direct by (simp add: pieces_def)
next
  case (Some x)
  obtain b p where x: "x = (b, p)" by (cases x)
  have p: "p = (if b then fl_dst f else fl_src f)" using crossing_port Some x by blast
  show ?thesis
  proof (rule bridge)
    show "crossing env flat w f = Some (b, p)" using Some x by simp
    show "p \<in> flow_ports flat" using p assms by (simp add: flow_ports_def)
    show "pieces env copier self flat w f = bridge_flows self (copier b p) f []" using Some x by (simp add: pieces_def)
  qed (rule p)
qed

lemma pieces_direct:
  assumes ok: "copiers_ok copier flat" and s: "po_uid s \<in> ends flat" and d: "po_uid d \<in> ends flat" and f: "f \<in> set flat"
  shows "has_flow \<lparr>fl_src = s, fl_dst = d\<rparr> (pieces env copier self flat w f)
    \<longleftrightarrow> crossing env flat w f = None \<and> flow_eq f \<lparr>fl_src = s, fl_dst = d\<rparr>"
  using f
proof (cases rule: pieces_cases[of f flat env w copier self])
  case (bridge b p)
  then show ?thesis using copier_port_fresh[OF ok bridge(2)] s d by (simp add: has_flow_bridge_iff)
qed simp

lemma pieces_into:
  assumes ok: "copiers_ok copier flat" and s: "po_uid s \<in> ends flat" and f: "f \<in> set flat" and p: "p \<in> flow_ports flat"
    and h: "has_flow \<lparr>fl_src = s, fl_dst = copier_port self copier b p\<rparr> (pieces env copier self flat w f)"
  shows "\<exists>q. crossing env flat w f = Some (b, q) \<and> q = (if b then fl_dst f else fl_src f) \<and> port_eq p q \<and> port_eq s (fl_src f)"
  using f
proof (cases rule: pieces_cases[of f flat env w copier self])
  case direct
  then show ?thesis using h copier_port_fresh(1)[OF ok p] flow_uids[OF f] by (simp add: flow_eq_ends)
next
  case (bridge c q)
  then have "port_eq s (fl_src f) \<and> port_eq (copier_port self copier b p) (copier_port self copier c q)"
    using h copier_port_fresh(1)[OF ok bridge(2) s] by (simp add: has_flow_bridge_iff)
  then show ?thesis using copier_port_inj[OF ok p bridge(2)] bridge(1,3) by blast
qed

lemma pieces_outof:
  assumes ok: "copiers_ok copier flat" and d: "po_uid d \<in> ends flat" and f: "f \<in> set flat" and p: "p \<in> flow_ports flat"
    and h: "has_flow \<lparr>fl_src = copier_port self copier b p, fl_dst = d\<rparr> (pieces env copier self flat w f)"
  shows "\<exists>q. crossing env flat w f = Some (b, q) \<and> q = (if b then fl_dst f else fl_src f) \<and> port_eq p q \<and> port_eq d (fl_dst f)"
  using f
proof (cases rule: pieces_cases[of f flat env w copier self])
  case direct
  then show ?thesis using h copier_port_fresh(1)[OF ok p] flow_uids[OF f] by (simp add: flow_eq_ends)
next
  case (bridge c q)
  then have "port_eq d (fl_dst f) \<and> port_eq (copier_port self copier b p) (copier_port self copier c q)"
    using h copier_port_fresh(1)[OF ok bridge(2) d] by (simp add: has_flow_bridge_iff)
  then show ?thesis using copier_port_inj[OF ok p bridge(2)] bridge(1,3) by blast
qed

lemma pieces_through:
  assumes ok: "copiers_ok copier flat" and s: "po_uid s \<in> ends flat" and d: "po_uid d \<in> ends flat" and p: "p \<in> flow_ports flat"
    and f: "f \<in> set flat" "has_flow \<lparr>fl_src = s, fl_dst = copier_port self copier b p\<rparr> (pieces env copier self flat w f)"
    and g: "g \<in> set flat" "has_flow \<lparr>fl_src = copier_port self copier b p, fl_dst = d\<rparr> (pieces env copier self flat w g)"
  shows "has_flow \<lparr>fl_src = s, fl_dst = d\<rparr> flat"
proof -
  have "flow_eq (if b then f else g) \<lparr>fl_src = s, fl_dst = d\<rparr>"
    using pieces_into[OF ok s f(1) p f(2)] pieces_outof[OF ok d g(1) p g(2)] by (auto simp: flow_eq_ends port_eq_def)
  then show ?thesis using f(1) g(1) unfolding has_flow_def by metis
qed

lemma pieces_back:
  assumes "f \<in> set flat" "flow_eq f \<lparr>fl_src = s, fl_dst = d\<rparr>"
  shows "has_flow \<lparr>fl_src = s, fl_dst = d\<rparr> (pieces env copier self flat w f)
    \<or> (\<exists>p \<in> flow_ports flat. \<exists>b. has_flow \<lparr>fl_src = s, fl_dst = copier_port self copier b p\<rparr> (pieces env copier self flat w f)
        \<and> has_flow \<lparr>fl_src = copier_port self copier b p, fl_dst = d\<rparr> (pieces env copier self flat w f))"
  using assms(1)
proof (cases rule: pieces_cases[of f flat env w copier self])
  case (bridge b p)
  then show ?thesis using assms(2) by (auto simp: has_flow_bridge_iff flow_eq_ends port_eq_def)
qed (use assms in simp)

lemma crossing_None_iff:
  "crossing env flat w f = None \<longleftrightarrow>
     isDomainCrossingAcceptable env (fl_src f) (dsts_of flat (fl_src f)) False w = Inr True
     \<and> isDomainCrossingAcceptable env (fl_dst f) (srcs_of flat (fl_dst f)) True w = Inr True"
  by (auto simp: crossing_def)

text \<open>C26: The insertion of copiers keeps what is connected: an output port of the topology reaches an input port
  directly or through one copier exactly when a flow joined them before, and a flow is direct exactly when
  the crossing of domains is acceptable at both of its ports.\<close>

theorem rectify_connects:
  assumes run: "rectifyDomainFlows env copier self flat w = Inr safe" and ok: "copiers_ok copier flat"
    and s: "po_uid s \<in> ends flat" and d: "po_uid d \<in> ends flat"
  shows "(has_flow \<lparr>fl_src = s, fl_dst = d\<rparr> safe
      \<or> (\<exists>p \<in> flow_ports flat. \<exists>b. has_flow \<lparr>fl_src = s, fl_dst = copier_port self copier b p\<rparr> safe
           \<and> has_flow \<lparr>fl_src = copier_port self copier b p, fl_dst = d\<rparr> safe))
      = has_flow \<lparr>fl_src = s, fl_dst = d\<rparr> flat
    \<and> has_flow \<lparr>fl_src = s, fl_dst = d\<rparr> safe = (\<exists>f \<in> set flat. flow_eq f \<lparr>fl_src = s, fl_dst = d\<rparr>
         \<and> isDomainCrossingAcceptable env (fl_src f) (dsts_of flat (fl_src f)) False w = Inr True
         \<and> isDomainCrossingAcceptable env (fl_dst f) (srcs_of flat (fl_dst f)) True w = Inr True)"
proof -
  have flows: "has_flow g safe \<longleftrightarrow> (\<exists>f \<in> set flat. has_flow g (pieces env copier self flat w f))" for g
    using rectify_loop_flows[of env copier self flat w flat "[]" safe g] run by (simp add: rectifyDomainFlows_def)
  have direct: "has_flow \<lparr>fl_src = s, fl_dst = d\<rparr> safe =
      (\<exists>f \<in> set flat. crossing env flat w f = None \<and> flow_eq f \<lparr>fl_src = s, fl_dst = d\<rparr>)"
    unfolding flows using pieces_direct[OF ok s d] by blast
  have through: "has_flow \<lparr>fl_src = s, fl_dst = d\<rparr> flat"
    if "p \<in> flow_ports flat" "has_flow \<lparr>fl_src = s, fl_dst = copier_port self copier b p\<rparr> safe"
      "has_flow \<lparr>fl_src = copier_port self copier b p, fl_dst = d\<rparr> safe" for b p
    using that pieces_through[OF ok s d that(1)] unfolding flows by blast
  have backward: "has_flow \<lparr>fl_src = s, fl_dst = d\<rparr> flat \<Longrightarrow> has_flow \<lparr>fl_src = s, fl_dst = d\<rparr> safe
      \<or> (\<exists>p \<in> flow_ports flat. \<exists>b. has_flow \<lparr>fl_src = s, fl_dst = copier_port self copier b p\<rparr> safe
           \<and> has_flow \<lparr>fl_src = copier_port self copier b p, fl_dst = d\<rparr> safe)"
    unfolding flows has_flow_def[of _ flat] using pieces_back[of _ flat s d env copier self w] by blast
  have "has_flow \<lparr>fl_src = s, fl_dst = d\<rparr> safe \<Longrightarrow> has_flow \<lparr>fl_src = s, fl_dst = d\<rparr> flat"
    using direct unfolding has_flow_def[of _ flat] by blast
  with through backward direct show ?thesis unfolding crossing_None_iff by blast
qed

text \<open>Block 1 cannot provide buffers for its output in the domain of block 2.\<close>

definition domain_env :: env where
  "domain_env = demo_env\<lparr>en_outputManager := \<lambda>_ _ _. Inl PortDomainError\<rparr>"

definition demo_copier :: "bool \<Rightarrow> port \<Rightarrow> nat" where
  "demo_copier b p = 100 + 10 * po_uid p + (if b then 1 else 0)"

lemma domain_run: "rectifyDomainFlows domain_env demo_copier 9 [flow_1_to 2] commit_world
    = Inr [\<lparr>fl_src = makePort 9 1 ''0'', fl_dst = makePort 9 110 ''0''\<rparr>, \<lparr>fl_src = makePort 9 110 ''0'', fl_dst = makePort 9 2 ''0''\<rparr>]"
  by (simp add: rectifyDomainFlows_def isDomainCrossingAcceptable_def dsts_of_def srcs_of_def getDomain_def getBufferMode_def
      flow_1_to_def makePort_def port_eq_def blk_input_def blk_output_def named_port_def commit_world_def demo_world_def demo_table_def
      demo_env_def domain_env_def wa_getOutputBufferMode_def wa_getInputBufferMode_def buffer_mode_def bridge_flows_def add_new_flow_def
      flow_eq_iff demo_copier_def op_new_def ip_new_def wa_new_def)

theorem rectify_connects_witness:
  "\<not> has_flow (flow_1_to 2) [flow_1_to 110, \<lparr>fl_src = makePort 9 110 ''0'', fl_dst = makePort 9 2 ''0''\<rparr>]
    \<and> (\<exists>p \<in> flow_ports [flow_1_to 2]. \<exists>b. has_flow \<lparr>fl_src = makePort 9 1 ''0'', fl_dst = copier_port 9 demo_copier b p\<rparr>
         [flow_1_to 110, \<lparr>fl_src = makePort 9 110 ''0'', fl_dst = makePort 9 2 ''0''\<rparr>])"
proof -
  have ok: "copiers_ok demo_copier [flow_1_to 2]"
    by (auto simp: copiers_ok_def flow_ports_def ends_def flow_1_to_def makePort_def demo_copier_def port_eq_def)
  have e: "po_uid (makePort 9 1 ''0'') \<in> ends [flow_1_to 2]" "po_uid (makePort 9 2 ''0'') \<in> ends [flow_1_to 2]"
    by (simp_all add: ends_def flow_1_to_def makePort_def)
  have run: "rectifyDomainFlows domain_env demo_copier 9 [flow_1_to 2] commit_world
    = Inr [flow_1_to 110, \<lparr>fl_src = makePort 9 110 ''0'', fl_dst = makePort 9 2 ''0''\<rparr>]"
    using domain_run unfolding flow_1_to_def .
  have "has_flow \<lparr>fl_src = makePort 9 1 ''0'', fl_dst = makePort 9 2 ''0''\<rparr> [flow_1_to 2]"
    by (simp add: flow_1_to_def flow_eq_iff)
  moreover have "\<not> has_flow (flow_1_to 2) [flow_1_to 110, \<lparr>fl_src = makePort 9 110 ''0'', fl_dst = makePort 9 2 ''0''\<rparr>]"
    by (simp add: flow_1_to_def flow_eq_iff makePort_def)
  ultimately show ?thesis using rectify_connects[OF run ok e] unfolding flow_1_to_def by blast
qed

end
