(* ===== verification/PluginRegistry.thy ===== *)
theory PluginRegistry
  imports Prelude "HOL-Library.Sublist"
begin

text \<open>
  Plugin paths and the plugin registry (pothos-library, lib/Plugin): the validation of paths with the
  tokenizer of Poco (StringTokenizer.cpp, without trimming), the tree of registry entries with its
  operations, the events sent to handler plugins, and the association of modules with plugin paths.
  The registry refines a finite map from lists of node names to plugins.

  A handler's effect is unknown code; the model records the calls of handlers in order (\<open>rg_events\<close>),
  and handlers do not call the registry again. Modules are their file paths, and types are their names.
\<close>

section \<open>Tokenizer\<close>

fun tok_loop :: "bool \<Rightarrow> string \<Rightarrow> string \<Rightarrow> string \<Rightarrow> bool \<Rightarrow> string list" where
  "tok_loop ignoreEmpty separators [] token lastToken =
     (if token \<noteq> [] then [token] else if lastToken then [''''] else [])"
| "tok_loop ignoreEmpty separators (c # cs) token lastToken =
     (if c \<in> set separators
      then (if token \<noteq> [] \<or> \<not> ignoreEmpty then [token] else [])
           @ tok_loop ignoreEmpty separators cs [] (if \<not> ignoreEmpty then True else lastToken)
      else tok_loop ignoreEmpty separators cs (token @ [c]) False)"

definition tokenize :: "bool \<Rightarrow> string \<Rightarrow> string \<Rightarrow> string list" where
  "tokenize ignoreEmpty separators s = tok_loop ignoreEmpty separators s [] False"

section \<open>Plugin paths\<close>

definition path_char :: "char \<Rightarrow> bool" where
  "path_char c \<longleftrightarrow> CHR ''A'' \<le> c \<and> c \<le> CHR ''Z'' \<or> CHR ''a'' \<le> c \<and> c \<le> CHR ''z''
     \<or> CHR ''0'' \<le> c \<and> c \<le> CHR ''9'' \<or> c = CHR ''_'' \<or> c = CHR ''-''"

fun validate_names :: "bool \<Rightarrow> string list \<Rightarrow> bool" where
  "validate_names first [] = True"
| "validate_names first (name # names) =
     (if first \<and> name \<noteq> [] then False
      else if \<not> first \<and> name = [] then False
      else if \<not> list_all path_char name then False
      else validate_names False names)"

definition validatePathString :: "string \<Rightarrow> bool" where
  "validatePathString path \<longleftrightarrow> path = ''/'' \<or> validate_names True (tokenize False ''/'' path)"

definition path_make :: "string \<Rightarrow> string result" where
  "path_make path = (if validatePathString path then Inr path else Inl PluginPathError)"

definition path_join :: "string \<Rightarrow> string \<Rightarrow> string result" where
  "path_join path subPath = path_make (path @ (if path = ''/'' then '''' else ''/'') @ subPath)"

definition path_listNodes :: "string \<Rightarrow> string list" where
  "path_listNodes path = tokenize True ''/'' path"

section \<open>Plugins\<close>

text \<open>An object is empty, a callable (possibly null) with its return and argument types, or a value of a type.\<close>

datatype plugin_object =
    PlNull
  | PlCallable bool string "string list"
  | PlValue string

record plugin =
  pl_path :: string
  pl_object :: plugin_object
  pl_module :: string

definition plugin_null :: plugin where
  "plugin_null = \<lparr>pl_path = ''/'', pl_object = PlNull, pl_module = ''''\<rparr>"

definition canObjectHandleEvent :: "plugin_object \<Rightarrow> bool" where
  "canObjectHandleEvent obj =
     (case obj of
        PlCallable valid ret args \<Rightarrow>
          if \<not> valid then False
          else if ret \<noteq> ''void'' then False
          else if length args \<noteq> 2 then False
          else if args ! 0 \<noteq> ''Pothos::Plugin'' then False
          else if args ! 1 \<noteq> ''std::string'' then False
          else True
      | _ \<Rightarrow> False)"

section \<open>The tree\<close>

datatype registry_entry =
  RegistryEntry (re_plugin: plugin) (re_hasPlugin: bool) (re_nodeNamesOrdered: "string list")
    (re_nodes: "(string \<times> registry_entry) list")

definition entry_new :: registry_entry where
  "entry_new = RegistryEntry plugin_null False [] []"

fun getNumPlugins :: "registry_entry \<Rightarrow> nat" where
  "getNumPlugins (RegistryEntry plugin hasPlugin names nodes) =
     (if hasPlugin then 1 else 0) + sum_list (map (\<lambda>entry. getNumPlugins (snd entry)) nodes)"

text \<open>The entry of a map under a key, made when it is missing.\<close>

definition node_of :: "string \<Rightarrow> (string \<times> registry_entry) list \<Rightarrow> registry_entry" where
  "node_of name nodes = (case smap_find name nodes of None \<Rightarrow> entry_new | Some e \<Rightarrow> e)"

text \<open>
  The walk from the root along the names of a path; every operation makes the missing nodes on its way,
  and \<open>add\<close> also records the names in their order. The action at the end gives a result and the
  entry it leaves.
\<close>

fun at_nodes :: "bool \<Rightarrow> string list \<Rightarrow> (registry_entry \<Rightarrow> 'a \<times> registry_entry) \<Rightarrow> registry_entry \<Rightarrow> 'a \<times> registry_entry" where
  "at_nodes adding [] act root = act root"
| "at_nodes adding (name # path) act (RegistryEntry plugin hasPlugin names nodes) =
     (case at_nodes adding path act (node_of name nodes) of (a, sub) \<Rightarrow>
        (a, RegistryEntry plugin hasPlugin (if adding \<and> name \<notin> set names then names @ [name] else names)
              (smap_set name sub nodes)))"

section \<open>The registry\<close>

record registry =
  rg_root :: registry_entry
  rg_active :: string
  rg_modulePaths :: "string \<Rightarrow> string list"
  rg_events :: "(plugin_object \<times> plugin \<times> string) list"

definition registry_new :: registry where
  "registry_new = \<lparr>rg_root = entry_new, rg_active = '''', rg_modulePaths = \<lambda>_. [], rg_events = []\<rparr>"

definition updatePluginAssociation :: "string \<Rightarrow> plugin \<Rightarrow> registry \<Rightarrow> registry" where
  "updatePluginAssociation action plugin r =
     (let v = rg_modulePaths r (pl_module plugin);
          v = (if action = ''add'' then v @ [pl_path plugin] else v);
          v = (if action = ''remove'' then remove1 (pl_path plugin) v else v)
      in r\<lparr>rg_modulePaths := (rg_modulePaths r)(pl_module plugin := v)\<rparr>)"

definition getPluginPaths :: "string \<Rightarrow> registry \<Rightarrow> string list" where
  "getPluginPaths module r = rg_modulePaths r module"

definition registrySetActiveModuleLoading :: "string \<Rightarrow> registry \<Rightarrow> registry" where
  "registrySetActiveModuleLoading module r = r\<lparr>rg_active := module\<rparr>"

definition callPluginEventHandler :: "plugin_object \<Rightarrow> plugin \<Rightarrow> string \<Rightarrow> registry \<Rightarrow> registry" where
  "callPluginEventHandler handler plugin event r =
     (if \<not> canObjectHandleEvent handler then r else r\<lparr>rg_events := rg_events r @ [(handler, plugin, event)]\<rparr>)"

text \<open>The plugins of the nodes above a path, the nearest first; missing nodes are made on the way.\<close>

fun parent_plugins :: "string list \<Rightarrow> registry_entry \<Rightarrow> plugin list \<Rightarrow> plugin list \<times> registry_entry" where
  "parent_plugins (name # next # path) (RegistryEntry plugin hasPlugin names nodes) parents =
     (case parent_plugins (next # path) (node_of name nodes) (plugin # parents) of (ps, sub) \<Rightarrow>
        (ps, RegistryEntry plugin hasPlugin names (smap_set name sub nodes)))"
| "parent_plugins path (RegistryEntry plugin hasPlugin names nodes) parents =
     (plugin # parents, RegistryEntry plugin hasPlugin names nodes)"

definition handlePluginEvent :: "plugin \<Rightarrow> string \<Rightarrow> registry \<Rightarrow> registry" where
  "handlePluginEvent plugin event r =
     (case parent_plugins (path_listNodes (pl_path plugin)) (rg_root r) [] of (ps, root) \<Rightarrow>
        fold (\<lambda>p. callPluginEventHandler (pl_object p) plugin event) ps (r\<lparr>rg_root := root\<rparr>))"

definition rg_get :: "string \<Rightarrow> registry \<Rightarrow> plugin result \<times> registry" where
  "rg_get path r =
     (case at_nodes False (path_listNodes path)
            (\<lambda>e. (if \<not> re_hasPlugin e then Inl PluginRegistryError else Inr (re_plugin e), e)) (rg_root r) of
        (p, root) \<Rightarrow> (p, r\<lparr>rg_root := root\<rparr>))"

definition rg_empty :: "string \<Rightarrow> registry \<Rightarrow> bool \<times> registry" where
  "rg_empty path r =
     (case at_nodes False (path_listNodes path) (\<lambda>e. (\<not> re_hasPlugin e, e)) (rg_root r) of
        (b, root) \<Rightarrow> (b, r\<lparr>rg_root := root\<rparr>))"

definition rg_exists :: "string \<Rightarrow> registry \<Rightarrow> bool \<times> registry" where
  "rg_exists path r =
     (case at_nodes False (path_listNodes path) (\<lambda>e. (getNumPlugins e \<noteq> 0, e)) (rg_root r) of
        (b, root) \<Rightarrow> (b, r\<lparr>rg_root := root\<rparr>))"

text \<open>The ordered names whose nodes have plugins; the subscript makes a missing node.\<close>

fun list_nodes :: "registry_entry \<Rightarrow> string list \<times> registry_entry" where
  "list_nodes (RegistryEntry plugin hasPlugin names nodes) =
     (filter (\<lambda>name. getNumPlugins (node_of name nodes) \<noteq> 0) names,
      RegistryEntry plugin hasPlugin names (fold (\<lambda>name m. smap_set name (node_of name m) m) names nodes))"

definition rg_list :: "string \<Rightarrow> registry \<Rightarrow> string list \<times> registry" where
  "rg_list path r =
     (case at_nodes False (path_listNodes path) list_nodes (rg_root r) of
        (names, root) \<Rightarrow> (names, r\<lparr>rg_root := root\<rparr>))"

text \<open>
  The events of the sub-tree that a new handler has missed. Every call goes one level down the tree, so the
  height of the tree is enough fuel.
\<close>

fun missed_events :: "nat \<Rightarrow> plugin_object \<Rightarrow> string \<Rightarrow> registry \<Rightarrow> registry" where
  "missed_events 0 handler path r = r"
| "missed_events (Suc fuel) handler path r =
     (case rg_list path r of (subdirs, r) \<Rightarrow>
        fold (\<lambda>subdir r.
          (case path_join path subdir of
             Inl _ \<Rightarrow> r
           | Inr subPath \<Rightarrow>
               (case rg_get subPath r of
                  (Inl _, r) \<Rightarrow> missed_events fuel handler subPath r
                | (Inr p, r) \<Rightarrow> missed_events fuel handler subPath (callPluginEventHandler handler p ''add'' r))))
          subdirs r)"

fun entry_height :: "registry_entry \<Rightarrow> nat" where
  "entry_height (RegistryEntry plugin hasPlugin names nodes) =
     Suc (fold (\<lambda>entry. max (entry_height (snd entry))) nodes 0)"

definition handleMissedSubTreeEvents :: "plugin_object \<Rightarrow> string \<Rightarrow> registry \<Rightarrow> registry" where
  "handleMissedSubTreeEvents handler path r = missed_events (entry_height (rg_root r)) handler path r"

definition rg_add :: "plugin \<Rightarrow> registry \<Rightarrow> registry \<times> pothos_error option" where
  "rg_add plugin0 r =
     (let plugin = plugin0\<lparr>pl_module := rg_active r\<rparr> in
      case at_nodes True (path_listNodes (pl_path plugin0))
             (\<lambda>e. if re_hasPlugin e then (False, e)
                  else (True, RegistryEntry plugin True (re_nodeNamesOrdered e) (re_nodes e))) (rg_root r) of
        (False, root) \<Rightarrow> (r\<lparr>rg_root := root\<rparr>, Some PluginRegistryError)
      | (True, root) \<Rightarrow>
          (handleMissedSubTreeEvents (pl_object plugin) (pl_path plugin)
             (handlePluginEvent plugin ''add'' (updatePluginAssociation ''add'' plugin (r\<lparr>rg_root := root\<rparr>))), None))"

definition rg_remove :: "string \<Rightarrow> registry \<Rightarrow> plugin result \<times> registry" where
  "rg_remove path r =
     (case at_nodes False (path_listNodes path)
            (\<lambda>e. if \<not> re_hasPlugin e then (Inl PluginRegistryError, e)
                 else (Inr (re_plugin e), RegistryEntry plugin_null False (re_nodeNamesOrdered e) (re_nodes e))) (rg_root r) of
        (Inl e, root) \<Rightarrow> (Inl e, r\<lparr>rg_root := root\<rparr>)
      | (Inr plugin, root) \<Rightarrow>
          (Inr plugin, handlePluginEvent plugin ''remove'' (updatePluginAssociation ''remove'' plugin (r\<lparr>rg_root := root\<rparr>))))"

section \<open>The dump of the registry\<close>

datatype info_dump = InfoDump (id_pluginPath: string) (id_objectType: string) (id_modulePath: string) (id_subInfo: "info_dump list")

fun collect_results :: "'a result list \<Rightarrow> 'a list result" where
  "collect_results [] = Inr []"
| "collect_results (r # rs) = result_bind r (\<lambda>x. result_bind (collect_results rs) (\<lambda>xs. Inr (x # xs)))"

text \<open>\<open>objStr\<close> is the conversion of an object to a string.\<close>

fun loadInfoDump :: "(plugin_object \<Rightarrow> string) \<Rightarrow> string \<Rightarrow> registry_entry \<Rightarrow> info_dump result" where
  "loadInfoDump objStr path (RegistryEntry plugin hasPlugin names nodes) =
     (let subs = map (\<lambda>entry. (fst entry, result_bind (path_join path (fst entry)) (\<lambda>p. loadInfoDump objStr p (snd entry)))) nodes
      in result_bind (collect_results (map (\<lambda>name. case smap_find name subs of None \<Rightarrow> Inl StdOutOfRange | Some d \<Rightarrow> d) names))
           (\<lambda>subInfo. Inr (InfoDump path
             (if hasPlugin \<and> pl_object plugin \<noteq> PlNull then objStr (pl_object plugin) else '''')
             (if hasPlugin then pl_module plugin else '''') subInfo)))"

definition rg_dump :: "(plugin_object \<Rightarrow> string) \<Rightarrow> registry \<Rightarrow> info_dump result" where
  "rg_dump objStr r = loadInfoDump objStr ''/'' (rg_root r)"

section \<open>Modules\<close>

text \<open>Loading a module; \<open>load\<close> is the loader of shared libraries with the registrations that the library runs.\<close>

definition module_load :: "(registry \<Rightarrow> registry \<times> pothos_error option) \<Rightarrow> string \<Rightarrow> registry \<Rightarrow> registry \<times> pothos_error option" where
  "module_load load path r =
     (case load (registrySetActiveModuleLoading path r) of
        (r, None) \<Rightarrow> (registrySetActiveModuleLoading '''' r, None)
      | (r, Some e) \<Rightarrow> (r, Some PluginModuleError))"

section \<open>Paths: validation and node names\<close>

fun join_slash :: "string list \<Rightarrow> string" where
  "join_slash [] = []"
| "join_slash [t] = t"
| "join_slash (t # ts) = t @ CHR ''/'' # join_slash ts"

text \<open>The path of a list of node names.\<close>

definition path_of :: "string list \<Rightarrow> string" where
  "path_of ns = (if ns = [] then ''/'' else concat (map (\<lambda>n. CHR ''/'' # n) ns))"

definition name_ok :: "string \<Rightarrow> bool" where
  "name_ok n \<longleftrightarrow> n \<noteq> [] \<and> list_all path_char n"

lemma slash_not_path_char: "\<not> path_char CHR ''/''"
  by (simp add: path_char_def less_eq_char_def)

lemma join_slash_Cons: "ts \<noteq> [] \<Longrightarrow> join_slash (t # ts) = t @ CHR ''/'' # join_slash ts"
  by (cases ts) auto

lemma tok_loop_join:
  "if token @ s = [] \<and> \<not> lt then tok_loop False ''/'' s token lt = []
   else tok_loop False ''/'' s token lt \<noteq> [] \<and> join_slash (tok_loop False ''/'' s token lt) = token @ s"
proof (induction s arbitrary: token lt)
  case (Cons c s)
  show ?case
  proof (cases "c = CHR ''/''")
    case True
    have "tok_loop False ''/'' s [] True \<noteq> []" "join_slash (tok_loop False ''/'' s [] True) = s"
      using Cons.IH[of "[]" True] by auto
    then show ?thesis using True by (simp add: join_slash_Cons)
  next
    case False
    then show ?thesis using Cons.IH[of "token @ [c]" False] by simp
  qed
qed auto

lemma tok_loop_names:
  "CHR ''/'' \<notin> set n \<Longrightarrow> tok_loop ign ''/'' (n @ s) token lt =
     (if n = [] then tok_loop ign ''/'' s token lt else tok_loop ign ''/'' s (token @ n) False)"
  by (induction n arbitrary: token lt) auto

lemma concat_slash_join: "ns \<noteq> [] \<Longrightarrow> concat (map (\<lambda>n. CHR ''/'' # n) ns) = CHR ''/'' # join_slash ns"
proof (induction ns)
  case (Cons n ns)
  then show ?case by (cases ns) auto
qed simp

lemma name_ok_no_slash: "name_ok n \<Longrightarrow> CHR ''/'' \<notin> set n"
  using slash_not_path_char by (auto simp: name_ok_def list_all_iff)

lemma tok_loop_path:
  "\<forall>n \<in> set ns. name_ok n \<Longrightarrow> ns \<noteq> [] \<or> token \<noteq> [] \<Longrightarrow>
     tok_loop ign ''/'' (concat (map (\<lambda>n. CHR ''/'' # n) ns)) token lt
       = (if token \<noteq> [] \<or> \<not> ign then [token] else []) @ ns"
proof (induction ns arbitrary: token lt)
  case (Cons n ns)
  have n: "CHR ''/'' \<notin> set n" "n \<noteq> []" using Cons.prems name_ok_no_slash by (auto simp: name_ok_def)
  show ?case using Cons.IH[of n False] Cons.prems n by (simp add: tok_loop_names)
qed simp

lemma listNodes_path_of: "\<forall>n \<in> set ns. name_ok n \<Longrightarrow> path_listNodes (path_of ns) = ns"
  by (cases "ns = []") (simp_all add: path_listNodes_def tokenize_def path_of_def tok_loop_path)

lemma validate_names_iff:
  "validate_names False ns \<longleftrightarrow> (\<forall>n \<in> set ns. name_ok n)"
  by (induction ns) (auto simp: name_ok_def)

lemma valid_path_names:
  assumes v: "validatePathString path" "path \<noteq> ''''"
  shows "\<exists>ns. (\<forall>n \<in> set ns. name_ok n) \<and> path = path_of ns"
proof (cases "path = ''/''")
  case True
  then show ?thesis by (intro exI[of _ "[]"]) (simp add: path_of_def)
next
  case False
  have j: "tokenize False ''/'' path \<noteq> []" "join_slash (tokenize False ''/'' path) = path"
    using tok_loop_join[of "[]" path False] v(2) by (auto simp: tokenize_def)
  obtain t ns where t: "tokenize False ''/'' path = t # ns" using j(1) by (cases "tokenize False ''/'' path") auto
  have tn: "t = []" "\<forall>n \<in> set ns. name_ok n" using v(1) False t by (auto simp: validatePathString_def validate_names_iff split: if_splits)
  have "ns \<noteq> []" using j(2) t tn(1) v(2) by auto
  then show ?thesis using j(2) t tn by (intro exI[of _ ns]) (simp add: join_slash_Cons path_of_def concat_slash_join)
qed

lemma path_of_valid: "\<forall>n \<in> set ns. name_ok n \<Longrightarrow> validatePathString (path_of ns)"
  by (cases "ns = []") (auto simp: validatePathString_def path_of_def tokenize_def tok_loop_path validate_names_iff)

lemma valid_path_iff:
  "validatePathString path \<longleftrightarrow> path = [] \<or> (\<exists>ns. list_all name_ok ns \<and> path = path_of ns \<and> path_listNodes path = ns)"
proof -
  have "validatePathString []" by (simp add: validatePathString_def tokenize_def)
  then show ?thesis using valid_path_names[of path] path_of_valid listNodes_path_of unfolding list_all_iff by metis
qed

text \<open>A path is accepted exactly when it is the empty string or the path of a list of valid node names, and
  the listed nodes of such a path are these names.\<close>

theorem path_make_iff:
  "path_make path = Inr p \<longleftrightarrow> p = path \<and> (path = '''' \<or> (\<exists>ns. list_all name_ok ns \<and> path = path_of ns \<and> path_listNodes path = ns))"
  by (auto simp: path_make_def valid_path_iff)

section \<open>The registry as a map\<close>

text \<open>The plugin at a list of names, below an entry.\<close>

fun plugin_at :: "registry_entry \<Rightarrow> string list \<Rightarrow> plugin option" where
  "plugin_at (RegistryEntry plugin hasPlugin names nodes) [] = (if hasPlugin then Some plugin else None)"
| "plugin_at (RegistryEntry plugin hasPlugin names nodes) (name # path) =
     (case smap_find name nodes of None \<Rightarrow> None | Some e \<Rightarrow> plugin_at e path)"

fun entry_at :: "registry_entry \<Rightarrow> string list \<Rightarrow> registry_entry" where
  "entry_at e [] = e"
| "entry_at (RegistryEntry plugin hasPlugin names nodes) (name # path) = entry_at (node_of name nodes) path"

declare plugin_at.simps(2) [simp del] at_nodes.simps(2) [simp del]

text \<open>Keys are sorted, recorded names are distinct nodes and cover the nodes with plugins, and an entry without
  plugin holds the null plugin.\<close>

inductive entry_ok :: "registry_entry \<Rightarrow> bool" where
  "smap_ok nodes \<Longrightarrow> (\<And>name e. smap_find name nodes = Some e \<Longrightarrow> entry_ok e) \<Longrightarrow> distinct names \<Longrightarrow>
   (\<And>name e. smap_find name nodes = Some e \<Longrightarrow> getNumPlugins e \<noteq> 0 \<Longrightarrow> name \<in> set names) \<Longrightarrow>
   (\<not> hasPlugin \<Longrightarrow> plugin = plugin_null) \<Longrightarrow>
   entry_ok (RegistryEntry plugin hasPlugin names nodes)"

inductive_simps entry_ok_simps: "entry_ok (RegistryEntry plugin hasPlugin names nodes)"

lemma plugin_at_new [simp]: "plugin_at entry_new path = None"
  by (cases path) (simp_all add: entry_new_def plugin_at.simps(2))

lemma entry_new_ok [simp]: "entry_ok entry_new"
  unfolding entry_new_def entry_ok_simps by simp

lemma plugin_at_Cons: "plugin_at (RegistryEntry plugin hasPlugin names nodes) (name # path) = plugin_at (node_of name nodes) path"
  by (simp add: node_of_def plugin_at.simps(2) split: option.split)

lemma getNumPlugins_new [simp]: "getNumPlugins entry_new = 0"
  by (simp add: entry_new_def)

lemma node_of_set: "node_of name (smap_set name' e nodes) = (if name = name' then e else node_of name nodes)"
  by (simp add: node_of_def smap_find_set)

lemma node_of_ok: "(\<And>name e. smap_find name nodes = Some e \<Longrightarrow> entry_ok e) \<Longrightarrow> entry_ok (node_of name nodes)"
  by (simp add: node_of_def split: option.split)

lemma plugin_at_append: "plugin_at e (p @ q) = plugin_at (entry_at e p) q"
  by (induction e p rule: entry_at.induct) (simp_all add: plugin_at_Cons)

lemma at_nodes_Cons:
  "at_nodes adding (name # path) act (RegistryEntry plugin hasPlugin names nodes) =
     (fst (at_nodes adding path act (node_of name nodes)),
      RegistryEntry plugin hasPlugin (if adding \<and> name \<notin> set names then names @ [name] else names)
        (smap_set name (snd (at_nodes adding path act (node_of name nodes))) nodes))"
  by (simp add: at_nodes.simps(2) split: prod.split)

lemmas walk = plugin_at_Cons at_nodes_Cons node_of_set

lemma at_nodes_result: "fst (at_nodes adding path act e) = fst (act (entry_at e path))"
  by (induction adding path act e rule: at_nodes.induct) (auto simp: walk)

lemma at_nodes_entry: "entry_at (snd (at_nodes adding path act e)) path = snd (act (entry_at e path))"
  by (induction adding path act e rule: at_nodes.induct) (auto simp: walk)

lemma at_nodes_other:
  "(\<And>q. path \<noteq> [] \<Longrightarrow> p \<noteq> path @ q) \<Longrightarrow> path \<noteq> [] \<Longrightarrow> plugin_at (snd (at_nodes adding path act e)) p = plugin_at e p"
proof (induction adding path act e arbitrary: p rule: at_nodes.induct)
  case (2 adding name path act plugin hasPlugin names nodes)
  show ?case
  proof (cases p)
    case (Cons n p')
    show ?thesis
    proof (cases "n = name \<and> path \<noteq> []")
      case True
      then have "plugin_at (snd (at_nodes adding path act (node_of name nodes))) p' = plugin_at (node_of name nodes) p'"
        using 2 Cons by auto
      then show ?thesis using True Cons by (simp add: walk)
    next
      case False
      then have "n \<noteq> name" using "2.prems"(1)[of p'] Cons by auto
      then show ?thesis using Cons by (simp add: walk)
    qed
  qed (simp add: walk)
qed simp

lemma at_nodes_map:
  assumes "\<And>q. q \<noteq> [] \<Longrightarrow> plugin_at (snd (act (entry_at e path))) q = plugin_at (entry_at e path) q"
  shows "plugin_at (snd (at_nodes adding path act e)) = (plugin_at e)(path := plugin_at (snd (act (entry_at e path))) [])"
proof (rule ext)
  fix p
  show "plugin_at (snd (at_nodes adding path act e)) p = ((plugin_at e)(path := plugin_at (snd (act (entry_at e path))) [])) p"
  proof (cases "\<exists>q. p = path @ q")
    case True
    then obtain q where q: "p = path @ q" by blast
    show ?thesis
    proof (cases "q = []")
      case True
      then show ?thesis using q plugin_at_append[of "snd (at_nodes adding path act e)" path "[]"] by (simp add: at_nodes_entry)
    next
      case False
      then show ?thesis using q assms by (simp add: plugin_at_append at_nodes_entry)
    qed
  next
    case False
    then have "path \<noteq> []" "p \<noteq> path" by auto
    then show ?thesis using False at_nodes_other[of path p adding act e] by auto
  qed
qed

lemma sum_list_nonzero_iff: "sum_list (xs :: nat list) \<noteq> 0 \<longleftrightarrow> (\<exists>x \<in> set xs. x \<noteq> 0)"
  by (induction xs) auto

lemma smap_find_iff: "smap_ok m \<Longrightarrow> smap_find k m = Some v \<longleftrightarrow> (k, v) \<in> set m"
  by (auto simp: smap_find_map_of smap_ok_def map_of_eq_Some_iff)

lemma plugin_at_nonempty:
  "(\<exists>q. plugin_at (RegistryEntry plugin hasPlugin names nodes) q \<noteq> None)
     \<longleftrightarrow> hasPlugin \<or> (\<exists>name e. smap_find name nodes = Some e \<and> (\<exists>q. plugin_at e q \<noteq> None))"
proof -
  have "(\<exists>q. plugin_at (RegistryEntry plugin hasPlugin names nodes) q \<noteq> None)
      \<longleftrightarrow> plugin_at (RegistryEntry plugin hasPlugin names nodes) [] \<noteq> None
        \<or> (\<exists>name q. plugin_at (RegistryEntry plugin hasPlugin names nodes) (name # q) \<noteq> None)"
    by (metis neq_Nil_conv)
  also have "\<dots> \<longleftrightarrow> hasPlugin \<or> (\<exists>name e. smap_find name nodes = Some e \<and> (\<exists>q. plugin_at e q \<noteq> None))"
  proof -
    have "plugin_at (RegistryEntry plugin hasPlugin names nodes) (name # q) \<noteq> None
        \<longleftrightarrow> (\<exists>e. smap_find name nodes = Some e \<and> plugin_at e q \<noteq> None)" for name q
      by (cases "smap_find name nodes") (simp_all add: plugin_at.simps(2))
    then show ?thesis by (simp only: plugin_at.simps(1)) auto
  qed
  finally show ?thesis .
qed

lemma getNumPlugins_iff: "entry_ok e \<Longrightarrow> getNumPlugins e \<noteq> 0 \<longleftrightarrow> (\<exists>q. plugin_at e q \<noteq> None)"
proof (induction rule: entry_ok.induct)
  case (1 nodes names hasPlugin plugin)
  have "getNumPlugins (RegistryEntry plugin hasPlugin names nodes) \<noteq> 0
      \<longleftrightarrow> hasPlugin \<or> (\<exists>entry \<in> set nodes. getNumPlugins (snd entry) \<noteq> 0)"
    using sum_list_nonzero_iff[of "map (\<lambda>entry. getNumPlugins (snd entry)) nodes"] by simp
  also have "\<dots> \<longleftrightarrow> hasPlugin \<or> (\<exists>name e. smap_find name nodes = Some e \<and> getNumPlugins e \<noteq> 0)"
    using smap_find_iff[OF 1(1)] by force
  also have "\<dots> \<longleftrightarrow> hasPlugin \<or> (\<exists>name e. smap_find name nodes = Some e \<and> (\<exists>q. plugin_at e q \<noteq> None))"
    using "1.IH" by blast
  finally show ?case unfolding plugin_at_nonempty .
qed

lemma entry_at_ok: "entry_ok e \<Longrightarrow> entry_ok (entry_at e path)"
proof (induction e path rule: entry_at.induct)
  case (2 plugin hasPlugin names nodes name path)
  then show ?case by (simp add: entry_ok_simps node_of_ok)
qed simp

lemma at_nodes_ok:
  assumes "entry_ok e" "\<And>x. entry_ok x \<Longrightarrow> entry_ok (snd (act x))"
    "adding \<or> (\<forall>x q. plugin_at (snd (act x)) q \<noteq> None \<longrightarrow> plugin_at x q \<noteq> None)"
  shows "entry_ok (snd (at_nodes adding path act e))"
  using assms
proof (induction adding path act e rule: at_nodes.induct)
  case (2 adding name path act plugin hasPlugin names nodes)
  let ?sub = "snd (at_nodes adding path act (node_of name nodes))"
  let ?names = "if adding \<and> name \<notin> set names then names @ [name] else names"
  have ok: "smap_ok nodes" "\<And>name e. smap_find name nodes = Some e \<Longrightarrow> entry_ok e" "distinct names"
    "\<And>name e. smap_find name nodes = Some e \<Longrightarrow> getNumPlugins e \<noteq> 0 \<Longrightarrow> name \<in> set names" "\<not> hasPlugin \<Longrightarrow> plugin = plugin_null"
    using "2.prems"(1) unfolding entry_ok_simps by auto
  have sub: "entry_ok (node_of name nodes)" using ok(2) by (rule node_of_ok)
  have sub': "entry_ok ?sub" using "2.IH"[OF sub "2.prems"(2,3)] by simp
  have mem: "name \<in> set ?names" if n: "getNumPlugins ?sub \<noteq> 0"
  proof (cases adding)
    case False
    then have fewer: "\<forall>x q. plugin_at (snd (act x)) q \<noteq> None \<longrightarrow> plugin_at x q \<noteq> None" using "2.prems"(3) by simp
    have keep: "plugin_at (node_of name nodes) q \<noteq> None" if "plugin_at ?sub q \<noteq> None" for q
    proof (cases "\<exists>r. q = path @ r")
      case True
      then show ?thesis using that fewer by (auto simp: plugin_at_append at_nodes_entry)
    next
      case False
      then show ?thesis using that at_nodes_other[of path q adding act] by (cases "path = []") auto
    qed
    have "getNumPlugins (node_of name nodes) \<noteq> 0"
      using n keep unfolding getNumPlugins_iff[OF sub'] getNumPlugins_iff[OF sub] by blast
    then show ?thesis using ok(4)[of name] False by (auto simp: node_of_def entry_new_def split: option.splits)
  qed simp
  show ?case unfolding at_nodes_Cons snd_conv entry_ok_simps
    using ok sub' mem by (auto simp: smap_find_set split: if_splits)
qed simp

section \<open>What the operations keep\<close>

definition reg_view :: "registry \<Rightarrow> string list \<Rightarrow> plugin option" where
  "reg_view r = plugin_at (rg_root r)"

definition reg_ok :: "registry \<Rightarrow> bool" where
  "reg_ok r \<longleftrightarrow> entry_ok (rg_root r)"

text \<open>Nothing but the handler calls and empty nodes has changed.\<close>

definition reg_same :: "registry \<Rightarrow> registry \<Rightarrow> bool" where
  "reg_same r r' \<longleftrightarrow> reg_view r' = reg_view r \<and> (reg_ok r \<longrightarrow> reg_ok r') \<and> rg_active r' = rg_active r
     \<and> rg_modulePaths r' = rg_modulePaths r"

lemma reg_same_refl [simp]: "reg_same r r"
  by (simp add: reg_same_def)

lemma reg_same_trans: "reg_same r s \<Longrightarrow> reg_same s t \<Longrightarrow> reg_same r t"
  by (auto simp: reg_same_def)

lemma fold_same: "(\<And>x r. reg_same r (f x r)) \<Longrightarrow> reg_same r (fold f xs r)"
  by (induction xs arbitrary: r) (auto intro: reg_same_trans)

lemma callPluginEventHandler_same [simp]: "reg_same r (callPluginEventHandler h p e r)"
  by (simp add: callPluginEventHandler_def reg_same_def reg_view_def reg_ok_def)

lemma at_nodes_read:
  assumes "\<And>x. plugin_at (snd (act x)) = plugin_at x" "\<And>x. entry_ok x \<Longrightarrow> entry_ok (snd (act x))"
  shows "plugin_at (snd (at_nodes adding path act e)) = plugin_at e" "entry_ok e \<Longrightarrow> entry_ok (snd (at_nodes adding path act e))"
proof -
  show "plugin_at (snd (at_nodes adding path act e)) = plugin_at e"
    using at_nodes_map[of act e path adding] assms(1) plugin_at_append[of e path "[]"] by (auto simp: fun_eq_iff)
  show "entry_ok e \<Longrightarrow> entry_ok (snd (at_nodes adding path act e))"
    by (rule at_nodes_ok) (use assms in auto)
qed

lemma node_touch: "node_of n (smap_set name (node_of name m) m) = node_of n m"
  by (simp add: node_of_set)

lemma node_touch_all: "node_of n (fold (\<lambda>name m. smap_set name (node_of name m) m) names m) = node_of n m"
  by (induction names arbitrary: m) (simp_all add: node_touch)

lemma smap_find_touch: "smap_find n (smap_set name (node_of name m) m) = Some e \<Longrightarrow> smap_find n m = Some e \<or> e = entry_new"
  by (auto simp: smap_find_set node_of_def split: if_splits option.splits)

lemma smap_find_touch_all:
  "smap_find n (fold (\<lambda>name m. smap_set name (node_of name m) m) names m) = Some e \<Longrightarrow> smap_find n m = Some e \<or> e = entry_new"
proof (induction names arbitrary: m)
  case (Cons name names)
  then show ?case using smap_find_touch by fastforce
qed simp

lemma smap_ok_touch_all: "smap_ok m \<Longrightarrow> smap_ok (fold (\<lambda>name m. smap_set name (node_of name m) m) names m)"
  by (induction names arbitrary: m) simp_all

lemma list_nodes_keeps:
  "plugin_at (snd (list_nodes e)) = plugin_at e" "entry_ok e \<Longrightarrow> entry_ok (snd (list_nodes e))"
proof -
  obtain plugin hasPlugin names nodes where RegistryEntry: "e = RegistryEntry plugin hasPlugin names nodes" by (cases e)
  let ?m = "fold (\<lambda>name m. smap_set name (node_of name m) m) names nodes"
  show "plugin_at (snd (list_nodes e)) = plugin_at e"
  proof (rule ext)
    fix p show "plugin_at (snd (list_nodes e)) p = plugin_at e p"
      by (cases p) (simp_all add: RegistryEntry plugin_at_Cons node_touch_all)
  qed
  assume "entry_ok e"
  then have ok: "smap_ok nodes" "\<And>name e. smap_find name nodes = Some e \<Longrightarrow> entry_ok e" "distinct names"
    "\<And>name e. smap_find name nodes = Some e \<Longrightarrow> getNumPlugins e \<noteq> 0 \<Longrightarrow> name \<in> set names" "\<not> hasPlugin \<Longrightarrow> plugin = plugin_null"
    unfolding RegistryEntry entry_ok_simps by auto
  have "entry_ok x \<and> (getNumPlugins x \<noteq> 0 \<longrightarrow> name \<in> set names)" if "smap_find name ?m = Some x" for name x
    using smap_find_touch_all[OF that] ok(2,4) by (auto simp: getNumPlugins_iff)
  then show "entry_ok (snd (list_nodes e))"
    using ok smap_ok_touch_all[OF ok(1)] by (simp add: RegistryEntry entry_ok_simps)
qed

lemma rg_list_same [simp]: "reg_same r (snd (rg_list path r))"
  using at_nodes_read[where act = list_nodes and adding = False and path = "path_listNodes path" and e = "rg_root r"] list_nodes_keeps
  by (auto simp: rg_list_def reg_same_def reg_view_def reg_ok_def split: prod.split)

lemma at_nodes_peek:
  "plugin_at (snd (at_nodes adding path (\<lambda>e. (f e, e)) e)) = plugin_at e"
  "entry_ok e \<Longrightarrow> entry_ok (snd (at_nodes adding path (\<lambda>e. (f e, e)) e))"
  by (rule at_nodes_read; simp)+

lemma peek_same:
  assumes "at_nodes False path (\<lambda>e. (f e, e)) (rg_root r) = (a, root)"
  shows "reg_same r (r\<lparr>rg_root := root\<rparr>)" "a = f (entry_at (rg_root r) path)"
  using at_nodes_peek[where adding = False and path = path and f = f and e = "rg_root r"] at_nodes_result[of False path "\<lambda>e. (f e, e)" "rg_root r"] assms
  by (simp_all add: reg_same_def reg_view_def reg_ok_def)

lemma entry_plugin: "plugin_at e [] = (if re_hasPlugin e then Some (re_plugin e) else None)"
  by (cases e) simp

lemma rg_get_spec: "rg_get path r = (a, r') \<Longrightarrow> reg_same r r'
    \<and> a = (case reg_view r (path_listNodes path) of None \<Rightarrow> Inl PluginRegistryError | Some p \<Rightarrow> Inr p)"
proof -
  assume run: "rg_get path r = (a, r')"
  obtain b root where at: "at_nodes False (path_listNodes path)
      (\<lambda>e. (if \<not> re_hasPlugin e then Inl PluginRegistryError else Inr (re_plugin e), e)) (rg_root r) = (b, root)" by fastforce
  have "r' = r\<lparr>rg_root := root\<rparr>" "a = b" using run at by (simp_all add: rg_get_def)
  then show ?thesis using peek_same[OF at] plugin_at_append[of "rg_root r" "path_listNodes path" "[]"]
    by (simp add: reg_view_def entry_plugin)
qed

lemma rg_empty_spec: "rg_empty path r = (a, r') \<Longrightarrow> reg_same r r' \<and> a = (reg_view r (path_listNodes path) = None)"
proof -
  assume run: "rg_empty path r = (a, r')"
  obtain b root where at: "at_nodes False (path_listNodes path) (\<lambda>e. (\<not> re_hasPlugin e, e)) (rg_root r) = (b, root)" by fastforce
  have "r' = r\<lparr>rg_root := root\<rparr>" "a = b" using run at by (simp_all add: rg_empty_def)
  then show ?thesis using peek_same[OF at] plugin_at_append[of "rg_root r" "path_listNodes path" "[]"]
    by (simp add: reg_view_def entry_plugin)
qed

lemma rg_exists_spec:
  "reg_ok r \<Longrightarrow> rg_exists path r = (a, r') \<Longrightarrow> reg_same r r' \<and> a = (\<exists>q. reg_view r (path_listNodes path @ q) \<noteq> None)"
proof -
  assume ok: "reg_ok r" and run: "rg_exists path r = (a, r')"
  obtain b root where at: "at_nodes False (path_listNodes path) (\<lambda>e. (getNumPlugins e \<noteq> 0, e)) (rg_root r) = (b, root)" by fastforce
  have "r' = r\<lparr>rg_root := root\<rparr>" "a = b" using run at by (simp_all add: rg_exists_def)
  then show ?thesis using peek_same[OF at] getNumPlugins_iff[OF entry_at_ok] ok
    by (simp add: reg_view_def reg_ok_def plugin_at_append)
qed

lemma parent_plugins_cases:
  "parent_plugins (name # next # path) (RegistryEntry plugin hasPlugin names nodes) parents =
     (fst (parent_plugins (next # path) (node_of name nodes) (plugin # parents)),
      RegistryEntry plugin hasPlugin names (smap_set name (snd (parent_plugins (next # path) (node_of name nodes) (plugin # parents))) nodes))"
  by (simp split: prod.split)

declare parent_plugins.simps(1) [simp del]

lemma parent_plugins_keeps:
  "plugin_at (snd (parent_plugins path e parents)) = plugin_at e
    \<and> (entry_ok e \<longrightarrow> entry_ok (snd (parent_plugins path e parents)))"
proof (induction path e parents rule: parent_plugins.induct)
  case (1 name "next" path plugin hasPlugin names nodes parents)
  let ?sub = "snd (parent_plugins (next # path) (node_of name nodes) (plugin # parents))"
  let ?e = "RegistryEntry plugin hasPlugin names nodes"
  have sub: "plugin_at ?sub = plugin_at (node_of name nodes)" "entry_ok (node_of name nodes) \<longrightarrow> entry_ok ?sub"
    using "1.IH" by auto
  have "plugin_at (RegistryEntry plugin hasPlugin names (smap_set name ?sub nodes)) p = plugin_at ?e p" for p
    by (cases p) (simp_all add: walk sub(1))
  moreover have "entry_ok (RegistryEntry plugin hasPlugin names (smap_set name ?sub nodes))" if "entry_ok ?e"
  proof -
    have ok: "smap_ok nodes" "\<And>name e. smap_find name nodes = Some e \<Longrightarrow> entry_ok e" "distinct names"
      "\<And>name e. smap_find name nodes = Some e \<Longrightarrow> getNumPlugins e \<noteq> 0 \<Longrightarrow> name \<in> set names" "\<not> hasPlugin \<Longrightarrow> plugin = plugin_null"
      using that unfolding entry_ok_simps by auto
    have n: "entry_ok (node_of name nodes)" using ok(2) by (rule node_of_ok)
    have "getNumPlugins ?sub = 0 \<longleftrightarrow> getNumPlugins (node_of name nodes) = 0"
      using getNumPlugins_iff[OF n] getNumPlugins_iff[of ?sub] sub n by auto
    then have "getNumPlugins ?sub \<noteq> 0 \<longrightarrow> name \<in> set names"
      using ok(4)[of name] by (auto simp: node_of_def split: option.splits)
    then show ?thesis unfolding entry_ok_simps using ok sub(2) n by (auto simp: smap_find_set split: if_splits)
  qed
  ultimately show ?case by (simp add: parent_plugins_cases fun_eq_iff)
qed simp_all

lemma handlePluginEvent_same [simp]: "reg_same r (handlePluginEvent p event r)"
proof -
  obtain ps root where pp: "parent_plugins (path_listNodes (pl_path p)) (rg_root r) [] = (ps, root)" by fastforce
  have "reg_same r (r\<lparr>rg_root := root\<rparr>)"
    using parent_plugins_keeps[of "path_listNodes (pl_path p)" "rg_root r" "[]"] pp by (simp add: reg_same_def reg_view_def reg_ok_def)
  then show ?thesis using fold_same[of "\<lambda>q. callPluginEventHandler (pl_object q) p event" "r\<lparr>rg_root := root\<rparr>" ps] pp
    by (auto simp: handlePluginEvent_def intro: reg_same_trans)
qed

definition missed_step :: "nat \<Rightarrow> plugin_object \<Rightarrow> string \<Rightarrow> string \<Rightarrow> registry \<Rightarrow> registry" where
  "missed_step fuel handler path subdir r =
     (case path_join path subdir of
        Inl _ \<Rightarrow> r
      | Inr subPath \<Rightarrow>
          (case rg_get subPath r of
             (Inl _, r) \<Rightarrow> missed_events fuel handler subPath r
           | (Inr p, r) \<Rightarrow> missed_events fuel handler subPath (callPluginEventHandler handler p ''add'' r)))"

lemma missed_events_Suc:
  "missed_events (Suc fuel) handler path r =
     fold (missed_step fuel handler path) (fst (rg_list path r)) (snd (rg_list path r))"
  by (simp add: missed_step_def[abs_def] split: prod.split)

declare missed_events.simps(2) [simp del]

lemma missed_events_same [simp]: "reg_same r (missed_events fuel handler path r)"
proof (induction fuel arbitrary: path r)
  case (Suc fuel)
  have step: "reg_same s (missed_step fuel handler path subdir s)" for subdir s
  proof (cases "path_join path subdir")
    case (Inr subPath)
    obtain a t where g: "rg_get subPath s = (a, t)" by fastforce
    have st: "reg_same s t" using rg_get_spec[OF g] by simp
    show ?thesis
    proof (cases a)
      case (Inl e)
      then show ?thesis using Inr g reg_same_trans[OF st Suc] by (simp add: missed_step_def)
    next
      case (Inr p)
      have "reg_same s (callPluginEventHandler handler p ''add'' t)" using reg_same_trans[OF st callPluginEventHandler_same] .
      then show ?thesis using \<open>path_join path subdir = Inr subPath\<close> g Inr reg_same_trans[OF _ Suc] by (simp add: missed_step_def)
    qed
  qed (simp add: missed_step_def)
  show ?case unfolding missed_events_Suc by (rule reg_same_trans[OF rg_list_same]) (rule fold_same, rule step)
qed simp

lemma handleMissed_same [simp]: "reg_same r (handleMissedSubTreeEvents handler path r)"
  by (simp add: handleMissedSubTreeEvents_def)

lemma updatePluginAssociation_keeps [simp]:
  "rg_root (updatePluginAssociation action p r) = rg_root r" "rg_active (updatePluginAssociation action p r) = rg_active r"
  by (simp_all add: updatePluginAssociation_def Let_def)

lemma entry_set_plugin:
  "plugin_at (RegistryEntry p True (re_nodeNamesOrdered e) (re_nodes e)) q = (if q = [] then Some p else plugin_at e q)"
  "plugin_at (RegistryEntry p False (re_nodeNamesOrdered e) (re_nodes e)) q = (if q = [] then None else plugin_at e q)"
  by (cases e; cases q; simp add: plugin_at_Cons)+

lemma entry_set_ok: "entry_ok e \<Longrightarrow> h \<or> p = plugin_null \<Longrightarrow> entry_ok (RegistryEntry p h (re_nodeNamesOrdered e) (re_nodes e))"
  by (cases e) (auto simp: entry_ok_simps)

definition add_act :: "plugin \<Rightarrow> registry_entry \<Rightarrow> bool \<times> registry_entry" where
  "add_act plugin e = (if re_hasPlugin e then (False, e)
     else (True, RegistryEntry plugin True (re_nodeNamesOrdered e) (re_nodes e)))"

lemma at_nodes_add:
  assumes "at_nodes True path (add_act p) e = (b, e')"
  shows "b = (plugin_at e path = None)" "plugin_at e' = (if b then (plugin_at e)(path := Some p) else plugin_at e)"
    "entry_ok e \<Longrightarrow> entry_ok e'"
proof -
  have at: "plugin_at e path = plugin_at (entry_at e path) []" using plugin_at_append[of e path "[]"] by simp
  show b: "b = (plugin_at e path = None)"
    using at_nodes_result[of True path "add_act p" e] assms at by (auto simp: add_act_def entry_plugin)
  have "plugin_at e' = (plugin_at e)(path := plugin_at (snd (add_act p (entry_at e path))) [])"
    using at_nodes_map[of "add_act p" e path True] assms by (auto simp: add_act_def entry_set_plugin)
  then show "plugin_at e' = (if b then (plugin_at e)(path := Some p) else plugin_at e)"
    using b at by (auto simp: add_act_def entry_plugin fun_eq_iff)
  show "entry_ok e \<Longrightarrow> entry_ok e'"
    using at_nodes_ok[of e "add_act p" True path] assms entry_set_ok by (auto simp: add_act_def)
qed

text \<open>The state of \<open>add\<close> before its events.\<close>

definition add_state :: "plugin \<Rightarrow> registry \<Rightarrow> registry" where
  "add_state p r = updatePluginAssociation ''add'' p (r\<lparr>rg_root := snd (at_nodes True (path_listNodes (pl_path p)) (add_act p) (rg_root r))\<rparr>)"

lemma rg_add_cases:
  assumes "p = p0\<lparr>pl_module := rg_active r\<rparr>"
  shows "rg_add p0 r =
     (if reg_view r (path_listNodes (pl_path p0)) = None
      then (handleMissedSubTreeEvents (pl_object p) (pl_path p) (handlePluginEvent p ''add'' (add_state p r)), None)
      else (r\<lparr>rg_root := snd (at_nodes True (path_listNodes (pl_path p)) (add_act p) (rg_root r))\<rparr>, Some PluginRegistryError))"
proof -
  obtain b root where at: "at_nodes True (path_listNodes (pl_path p0)) (add_act p) (rg_root r) = (b, root)" by fastforce
  have "rg_add p0 r = (if b then (handleMissedSubTreeEvents (pl_object p) (pl_path p) (handlePluginEvent p ''add'' (add_state p r)), None)
      else (r\<lparr>rg_root := root\<rparr>, Some PluginRegistryError))"
    using at assms by (simp add: rg_add_def Let_def add_act_def[abs_def] add_state_def)
  then show ?thesis using at_nodes_add(1)[OF at] at assms by (simp add: reg_view_def)
qed

lemma rg_add_spec:
  assumes "rg_add p0 r = (r', e)" "reg_ok r"
  shows "reg_ok r' \<and> rg_active r' = rg_active r
    \<and> e = (if reg_view r (path_listNodes (pl_path p0)) = None then None else Some PluginRegistryError)
    \<and> reg_view r' = (if reg_view r (path_listNodes (pl_path p0)) = None
        then (reg_view r)(path_listNodes (pl_path p0) \<mapsto> p0\<lparr>pl_module := rg_active r\<rparr>) else reg_view r)
    \<and> rg_modulePaths r' = (if reg_view r (path_listNodes (pl_path p0)) = None
        then (rg_modulePaths r)(rg_active r := rg_modulePaths r (rg_active r) @ [pl_path p0]) else rg_modulePaths r)"
proof -
  define p where "p = p0\<lparr>pl_module := rg_active r\<rparr>"
  obtain b root where at: "at_nodes True (path_listNodes (pl_path p0)) (add_act p) (rg_root r) = (b, root)" by fastforce
  note at' = at_nodes_add[OF at]
  show ?thesis
  proof (cases "reg_view r (path_listNodes (pl_path p0)) = None")
    case True
    then have b: "b" using at'(1) by (simp add: reg_view_def)
    have "r' = handleMissedSubTreeEvents (pl_object p) (pl_path p) (handlePluginEvent p ''add'' (add_state p r))" "e = None"
      using assms(1) True rg_add_cases[OF p_def] by simp_all
    then have same: "reg_same (add_state p r) r'" "e = None"
      using reg_same_trans[OF handlePluginEvent_same handleMissed_same] by simp_all
    have "reg_view (add_state p r) = (reg_view r)(path_listNodes (pl_path p0) \<mapsto> p)" "reg_ok (add_state p r)"
      "rg_active (add_state p r) = rg_active r"
      "rg_modulePaths (add_state p r) = (rg_modulePaths r)(rg_active r := rg_modulePaths r (rg_active r) @ [pl_path p0])"
      using at at' b assms(2) by (simp_all add: add_state_def reg_view_def reg_ok_def p_def updatePluginAssociation_def Let_def)
    then show ?thesis using same True by (simp add: reg_same_def p_def)
  next
    case False
    then have "\<not> b" using at'(1) by (simp add: reg_view_def)
    then show ?thesis using False assms at' at rg_add_cases[OF p_def] by (auto simp: reg_view_def reg_ok_def p_def)
  qed
qed

definition remove_act :: "registry_entry \<Rightarrow> plugin result \<times> registry_entry" where
  "remove_act e = (if \<not> re_hasPlugin e then (Inl PluginRegistryError, e)
     else (Inr (re_plugin e), RegistryEntry plugin_null False (re_nodeNamesOrdered e) (re_nodes e)))"

lemma remove_act_view: "plugin_at (snd (remove_act e)) q = (if q = [] then None else plugin_at e q)"
  by (simp add: remove_act_def entry_plugin entry_set_plugin)

lemma at_nodes_remove:
  assumes "at_nodes False path remove_act e = (a, e')"
  shows "a = (case plugin_at e path of None \<Rightarrow> Inl PluginRegistryError | Some p \<Rightarrow> Inr p)"
    "plugin_at e' = (plugin_at e)(path := None)" "entry_ok e \<Longrightarrow> entry_ok e'"
proof -
  have at: "plugin_at e path = plugin_at (entry_at e path) []" using plugin_at_append[of e path "[]"] by simp
  show "a = (case plugin_at e path of None \<Rightarrow> Inl PluginRegistryError | Some p \<Rightarrow> Inr p)"
    using at_nodes_result[of False path remove_act e] assms at by (auto simp: remove_act_def entry_plugin)
  show "plugin_at e' = (plugin_at e)(path := None)"
    using at_nodes_map[of remove_act e path False] assms by (simp add: remove_act_view)
  have "\<forall>x q. plugin_at (snd (remove_act x)) q \<noteq> None \<longrightarrow> plugin_at x q \<noteq> None" by (simp add: remove_act_view)
  then show "entry_ok e \<Longrightarrow> entry_ok e'"
  proof -
    assume "entry_ok e"
    then have "entry_ok (snd (at_nodes False path remove_act e))"
    proof (rule at_nodes_ok)
      show "entry_ok (snd (remove_act x))" if "entry_ok x" for x using entry_set_ok[OF that] that by (simp add: remove_act_def)
    qed (use \<open>\<forall>x q. plugin_at (snd (remove_act x)) q \<noteq> None \<longrightarrow> plugin_at x q \<noteq> None\<close> in blast)
    then show ?thesis using assms by simp
  qed
qed

lemma rg_remove_spec:
  assumes "rg_remove path r = (a, r')" "reg_ok r"
  shows "reg_ok r' \<and> rg_active r' = rg_active r \<and> reg_view r' = (reg_view r)(path_listNodes path := None)
    \<and> a = (case reg_view r (path_listNodes path) of None \<Rightarrow> Inl PluginRegistryError | Some p \<Rightarrow> Inr p)
    \<and> rg_modulePaths r' = (case reg_view r (path_listNodes path) of None \<Rightarrow> rg_modulePaths r
        | Some p \<Rightarrow> (rg_modulePaths r)(pl_module p := remove1 (pl_path p) (rg_modulePaths r (pl_module p))))"
proof -
  obtain b root where at: "at_nodes False (path_listNodes path) remove_act (rg_root r) = (b, root)" by fastforce
  note at' = at_nodes_remove[OF at]
  have run: "rg_remove path r = (case b of Inl e \<Rightarrow> (Inl e, r\<lparr>rg_root := root\<rparr>)
      | Inr p \<Rightarrow> (Inr p, handlePluginEvent p ''remove'' (updatePluginAssociation ''remove'' p (r\<lparr>rg_root := root\<rparr>))))"
    using at by (simp add: rg_remove_def remove_act_def[abs_def] split: sum.split)
  show ?thesis
  proof (cases "reg_view r (path_listNodes path)")
    case None
    then show ?thesis using run assms at' by (auto simp: reg_view_def reg_ok_def)
  next
    case (Some p)
    let ?s = "updatePluginAssociation ''remove'' p (r\<lparr>rg_root := root\<rparr>)"
    have "b = Inr p" using at'(1) Some by (simp add: reg_view_def)
    then have "a = Inr p" "r' = handlePluginEvent p ''remove'' ?s" using run assms(1) by simp_all
    moreover have "reg_same ?s (handlePluginEvent p ''remove'' ?s)" by simp
    moreover have "reg_ok ?s" "reg_view ?s = (reg_view r)(path_listNodes path := None)" "rg_active ?s = rg_active r"
      "rg_modulePaths ?s = (rg_modulePaths r)(pl_module p := remove1 (pl_path p) (rg_modulePaths r (pl_module p)))"
      using at' assms(2) by (simp_all add: reg_view_def reg_ok_def updatePluginAssociation_def Let_def)
    ultimately show ?thesis using Some by (simp add: reg_same_def)
  qed
qed

section \<open>Runs of the registry\<close>

datatype registry_op =
    OpAdd plugin | OpRemove string | OpGet string | OpEmpty string | OpExists string | OpActiveModule string

datatype registry_answer = AnsDone "pothos_error option" | AnsPlugin "plugin result" | AnsBool bool

definition rg_step :: "registry_op \<Rightarrow> registry \<Rightarrow> registry_answer \<times> registry" where
  "rg_step op r =
     (case op of
        OpAdd p \<Rightarrow> (case rg_add p r of (r, e) \<Rightarrow> (AnsDone e, r))
      | OpRemove path \<Rightarrow> (case rg_remove path r of (p, r) \<Rightarrow> (AnsPlugin p, r))
      | OpGet path \<Rightarrow> (case rg_get path r of (p, r) \<Rightarrow> (AnsPlugin p, r))
      | OpEmpty path \<Rightarrow> (case rg_empty path r of (b, r) \<Rightarrow> (AnsBool b, r))
      | OpExists path \<Rightarrow> (case rg_exists path r of (b, r) \<Rightarrow> (AnsBool b, r))
      | OpActiveModule m \<Rightarrow> (AnsDone None, registrySetActiveModuleLoading m r))"

fun rg_run :: "registry_op list \<Rightarrow> registry \<Rightarrow> registry_answer list \<times> registry" where
  "rg_run [] r = ([], r)"
| "rg_run (op # ops) r = (case rg_step op r of (a, r) \<Rightarrow> (case rg_run ops r of (as, r) \<Rightarrow> (a # as, r)))"

text \<open>The specification: a map from node names to plugins and the active module.\<close>

definition spec_step :: "registry_op \<Rightarrow> (string list \<Rightarrow> plugin option) \<times> string \<Rightarrow> registry_answer \<times> (string list \<Rightarrow> plugin option) \<times> string" where
  "spec_step op s = (case s of (A, active) \<Rightarrow>
     (case op of
        OpAdd p \<Rightarrow> (let ns = path_listNodes (pl_path p) in
          if A ns = None then (AnsDone None, A(ns \<mapsto> p\<lparr>pl_module := active\<rparr>), active)
          else (AnsDone (Some PluginRegistryError), A, active))
      | OpRemove path \<Rightarrow> (let ns = path_listNodes path in
          (AnsPlugin (case A ns of None \<Rightarrow> Inl PluginRegistryError | Some p \<Rightarrow> Inr p), A(ns := None), active))
      | OpGet path \<Rightarrow> (AnsPlugin (case A (path_listNodes path) of None \<Rightarrow> Inl PluginRegistryError | Some p \<Rightarrow> Inr p), A, active)
      | OpEmpty path \<Rightarrow> (AnsBool (A (path_listNodes path) = None), A, active)
      | OpExists path \<Rightarrow> (AnsBool (\<exists>q. A (path_listNodes path @ q) \<noteq> None), A, active)
      | OpActiveModule m \<Rightarrow> (AnsDone None, A, m)))"

fun spec_run :: "registry_op list \<Rightarrow> (string list \<Rightarrow> plugin option) \<times> string \<Rightarrow> registry_answer list" where
  "spec_run [] s = []"
| "spec_run (op # ops) s = (case spec_step op s of (a, s) \<Rightarrow> a # spec_run ops s)"

lemma rg_step_refines:
  assumes "reg_ok r" "rg_step op r = (a, r')"
  shows "reg_ok r' \<and> spec_step op (reg_view r, rg_active r) = (a, reg_view r', rg_active r')"
proof (cases op)
  case (OpAdd p)
  obtain s e where run: "rg_add p r = (s, e)" by fastforce
  then show ?thesis using rg_add_spec[OF run assms(1)] assms(2) OpAdd by (auto simp: rg_step_def spec_step_def Let_def)
next
  case (OpRemove path)
  obtain s e where run: "rg_remove path r = (e, s)" by fastforce
  then show ?thesis using rg_remove_spec[OF run assms(1)] assms(2) OpRemove by (auto simp: rg_step_def spec_step_def Let_def)
next
  case (OpGet path)
  obtain s e where run: "rg_get path r = (e, s)" by fastforce
  then show ?thesis using rg_get_spec[OF run] assms OpGet by (simp add: rg_step_def spec_step_def reg_same_def)
next
  case (OpEmpty path)
  obtain s e where run: "rg_empty path r = (e, s)" by fastforce
  then show ?thesis using rg_empty_spec[OF run] assms OpEmpty by (simp add: rg_step_def spec_step_def reg_same_def)
next
  case (OpExists path)
  obtain s e where run: "rg_exists path r = (e, s)" by fastforce
  then show ?thesis using rg_exists_spec[OF assms(1) run] assms OpExists by (simp add: rg_step_def spec_step_def reg_same_def)
next
  case (OpActiveModule m)
  then show ?thesis using assms
    by (auto simp: rg_step_def spec_step_def registrySetActiveModuleLoading_def reg_ok_def reg_view_def)
qed

lemma rg_run_refines: "reg_ok r \<Longrightarrow> fst (rg_run ops r) = spec_run ops (reg_view r, rg_active r)"
proof (induction ops arbitrary: r)
  case (Cons op ops)
  obtain a r' where s: "rg_step op r = (a, r')" by fastforce
  show ?case using rg_step_refines[OF Cons.prems s] Cons.IH[of r'] s by (cases "rg_run ops r'") simp
qed simp

lemma registry_new_ok [simp]: "reg_ok registry_new" "reg_view registry_new = (\<lambda>_. None)" "rg_active registry_new = ''''"
  by (auto simp: reg_ok_def reg_view_def registry_new_def)

text \<open>C11: Any sequence of operations on the registry answers as a map from lists of node names to plugins does:
  a second plugin at a path is refused, and what exists is what has a plugin at or below it.\<close>

theorem registry_refines: "fst (rg_run ops registry_new) = spec_run ops (\<lambda>_. None, '''')"
  using rg_run_refines[of registry_new ops] by simp

section \<open>Listing and modules\<close>

lemma reachable_ok [simp]: "reg_ok (snd (rg_run ops registry_new))"
proof -
  have "reg_ok r \<Longrightarrow> reg_ok (snd (rg_run ops r))" for r
  proof (induction ops arbitrary: r)
    case (Cons op ops)
    obtain a r' where s: "rg_step op r = (a, r')" by fastforce
    show ?case using rg_step_refines[OF Cons.prems s] Cons.IH[of r'] s by (cases "rg_run ops r'") simp
  qed simp
  then show ?thesis by simp
qed

lemma rg_list_names:
  assumes "reg_ok r"
  shows "distinct (fst (rg_list path r)) \<and> set (fst (rg_list path r)) = {n. \<exists>q. reg_view r (path_listNodes path @ n # q) \<noteq> None}"
proof -
  let ?e = "entry_at (rg_root r) (path_listNodes path)"
  obtain plugin hasPlugin names nodes where e: "?e = RegistryEntry plugin hasPlugin names nodes" by (cases ?e)
  have ok: "entry_ok ?e" using assms entry_at_ok by (simp add: reg_ok_def)
  then have nodes: "\<And>name e. smap_find name nodes = Some e \<Longrightarrow> entry_ok e" "distinct names"
    "\<And>name e. smap_find name nodes = Some e \<Longrightarrow> getNumPlugins e \<noteq> 0 \<Longrightarrow> name \<in> set names"
    unfolding e entry_ok_simps by auto
  have n: "entry_ok (node_of name nodes)" for name using nodes(1) by (rule node_of_ok)
  have l: "fst (rg_list path r) = filter (\<lambda>name. getNumPlugins (node_of name nodes) \<noteq> 0) names"
    using at_nodes_result[of False "path_listNodes path" list_nodes "rg_root r"] e by (auto simp: rg_list_def split: prod.split)
  have "getNumPlugins (node_of name nodes) \<noteq> 0 \<longleftrightarrow> (\<exists>q. reg_view r (path_listNodes path @ name # q) \<noteq> None)" for name
    unfolding getNumPlugins_iff[OF n] reg_view_def plugin_at_append e plugin_at_Cons ..
  moreover have "getNumPlugins (node_of name nodes) \<noteq> 0 \<Longrightarrow> name \<in> set names" for name
    using nodes(3)[of name] by (auto simp: node_of_def split: option.splits)
  ultimately show ?thesis unfolding l using nodes(2) by auto
qed

text \<open>In every reachable state, listing a path gives, each once, the names below which there is a plugin.\<close>

theorem registry_list:
  "distinct (fst (rg_list path (snd (rg_run ops registry_new))))
    \<and> set (fst (rg_list path (snd (rg_run ops registry_new))))
      = {n. \<exists>q. reg_view (snd (rg_run ops registry_new)) (path_listNodes path @ n # q) \<noteq> None}"
  by (rule rg_list_names) simp

definition modules_ok :: "registry \<Rightarrow> bool" where
  "modules_ok r \<longleftrightarrow> (\<forall>ns p. reg_view r ns = Some p \<longrightarrow> path_listNodes (pl_path p) = ns)
     \<and> (\<forall>m. distinct (rg_modulePaths r m) \<and> set (rg_modulePaths r m) = {pl_path p |p. \<exists>ns. reg_view r ns = Some p \<and> pl_module p = m})"

lemma modules_same: "reg_same r r' \<Longrightarrow> modules_ok r \<Longrightarrow> modules_ok r'"
  by (simp add: reg_same_def modules_ok_def)

lemma modules_add:
  assumes ok: "modules_ok r" and new: "reg_view r ns = None" "path_listNodes (pl_path p) = ns"
    and r': "reg_view r' = (reg_view r)(ns \<mapsto> p)"
      "rg_modulePaths r' = (rg_modulePaths r)(pl_module p := rg_modulePaths r (pl_module p) @ [pl_path p])"
  shows "modules_ok r'"
proof -
  have nodes: "reg_view r ns = Some q \<Longrightarrow> path_listNodes (pl_path q) = ns" for ns q using ok by (simp add: modules_ok_def)
  have sets: "set (rg_modulePaths r m) = {pl_path q |q. \<exists>ns. reg_view r ns = Some q \<and> pl_module q = m}" "distinct (rg_modulePaths r m)" for m
    using ok by (simp_all add: modules_ok_def)
  have fresh: "pl_path p \<notin> set (rg_modulePaths r m)" for m
    using nodes new by (auto simp: sets)
  have after: "reg_view r' k = Some q \<longleftrightarrow> (k = ns \<and> q = p) \<or> reg_view r k = Some q" for k q using new(1) by (auto simp: r'(1))
  have "set (rg_modulePaths r' m) = {pl_path q |q. \<exists>k. reg_view r' k = Some q \<and> pl_module q = m}" for m
    unfolding after r'(2) using sets(1)[of m] by auto
  moreover have "distinct (rg_modulePaths r' m)" for m using sets(2) fresh by (simp add: r'(2))
  moreover have "reg_view r' k = Some q \<Longrightarrow> path_listNodes (pl_path q) = k" for k q using nodes new(2) unfolding after by blast
  ultimately show ?thesis by (simp add: modules_ok_def)
qed

lemma modules_remove:
  assumes ok: "modules_ok r" and old: "reg_view r ns = Some p"
    and r': "reg_view r' = (reg_view r)(ns := None)"
      "rg_modulePaths r' = (rg_modulePaths r)(pl_module p := remove1 (pl_path p) (rg_modulePaths r (pl_module p)))"
  shows "modules_ok r'"
proof -
  have nodes: "reg_view r ns = Some q \<Longrightarrow> path_listNodes (pl_path q) = ns" for ns q using ok by (simp add: modules_ok_def)
  have sets: "set (rg_modulePaths r m) = {pl_path q |q. \<exists>ns. reg_view r ns = Some q \<and> pl_module q = m}" "distinct (rg_modulePaths r m)" for m
    using ok by (simp_all add: modules_ok_def)
  have after: "reg_view r' k = Some q \<longleftrightarrow> k \<noteq> ns \<and> reg_view r k = Some q" for k q by (auto simp: r'(1))
  have other: "k \<noteq> ns \<longleftrightarrow> pl_path q \<noteq> pl_path p" if "reg_view r k = Some q" for k q
    using nodes[OF that] nodes[OF old] that old by (metis option.inject)
  have "set (rg_modulePaths r' m) = {pl_path q |q. \<exists>k. reg_view r' k = Some q \<and> pl_module q = m}" for m
  proof (cases "m = pl_module p")
    case True
    have e: "set (rg_modulePaths r' m) = set (rg_modulePaths r m) - {pl_path p}" using sets(2) True by (simp add: r'(2))
    show ?thesis
    proof (intro set_eqI iffI)
      fix x assume "x \<in> set (rg_modulePaths r' m)"
      then obtain q k where q: "x = pl_path q" "reg_view r k = Some q" "pl_module q = m" "x \<noteq> pl_path p" unfolding e sets(1) by blast
      then have "reg_view r' k = Some q" unfolding after using other[OF q(2)] by simp
      then show "x \<in> {pl_path q |q. \<exists>k. reg_view r' k = Some q \<and> pl_module q = m}" using q by blast
    next
      fix x assume "x \<in> {pl_path q |q. \<exists>k. reg_view r' k = Some q \<and> pl_module q = m}"
      then obtain q k where q: "x = pl_path q" "reg_view r' k = Some q" "pl_module q = m" by blast
      then have a: "k \<noteq> ns" "reg_view r k = Some q" unfolding after by simp_all
      then have "x \<noteq> pl_path p" using other[OF a(2)] q(1) by simp
      note a = a this
      then show "x \<in> set (rg_modulePaths r' m)" unfolding e sets(1) using q a by blast
    qed
  next
    case False
    then have e: "set (rg_modulePaths r' m) = set (rg_modulePaths r m)" by (simp add: r'(2))
    have "(\<exists>k. reg_view r' k = Some q \<and> pl_module q = m) \<longleftrightarrow> (\<exists>k. reg_view r k = Some q \<and> pl_module q = m)" for q
    proof -
      have "k \<noteq> ns" if "reg_view r k = Some q" "pl_module q = m" for k using that old False by auto
      then show ?thesis unfolding after by blast
    qed
    then show ?thesis unfolding e sets(1) by simp
  qed
  moreover have "distinct (rg_modulePaths r' m)" for m using sets(2) by (simp add: r'(2))
  ultimately show ?thesis using nodes by (simp add: modules_ok_def r'(1))
qed

lemma modules_step: "reg_ok r \<Longrightarrow> modules_ok r \<Longrightarrow> modules_ok (snd (rg_step op r))"
proof (cases op)
  case (OpAdd p)
  assume ok: "reg_ok r" "modules_ok r"
  obtain s e where run: "rg_add p r = (s, e)" by fastforce
  note spec = rg_add_spec[OF run ok(1)]
  show ?thesis
  proof (cases "reg_view r (path_listNodes (pl_path p)) = None")
    case True
    have "modules_ok s" by (rule modules_add[OF ok(2) True, of "p\<lparr>pl_module := rg_active r\<rparr>"]) (use True spec in simp_all)
    then show ?thesis using run OpAdd by (simp add: rg_step_def)
  next
    case False
    then have "reg_view s = reg_view r" "rg_modulePaths s = rg_modulePaths r" using spec unfolding if_not_P[OF False] by simp_all
    then have "modules_ok s" using ok(2) unfolding modules_ok_def by simp
    then show ?thesis using run OpAdd by (simp add: rg_step_def)
  qed
next
  case (OpRemove path)
  assume ok: "reg_ok r" "modules_ok r"
  obtain s e where run: "rg_remove path r = (e, s)" by fastforce
  note spec = rg_remove_spec[OF run ok(1)]
  show ?thesis
  proof (cases "reg_view r (path_listNodes path)")
    case None
    then have "reg_view s = reg_view r" "rg_modulePaths s = rg_modulePaths r" using spec by (auto simp: fun_eq_iff)
    then show ?thesis using run OpRemove ok(2) by (simp add: rg_step_def modules_ok_def)
  next
    case (Some p)
    have "modules_ok s" by (rule modules_remove[OF ok(2) Some]) (use Some spec in simp_all)
    then show ?thesis using run OpRemove by (simp add: rg_step_def)
  qed
next
  case (OpGet path)
  assume "modules_ok r"
  obtain s e where run: "rg_get path r = (e, s)" by fastforce
  then show ?thesis using rg_get_spec[OF run] modules_same \<open>modules_ok r\<close> OpGet by (auto simp: rg_step_def)
next
  case (OpEmpty path)
  assume "modules_ok r"
  obtain s e where run: "rg_empty path r = (e, s)" by fastforce
  then show ?thesis using rg_empty_spec[OF run] modules_same \<open>modules_ok r\<close> OpEmpty by (auto simp: rg_step_def)
next
  case (OpExists path)
  assume ok: "reg_ok r" "modules_ok r"
  obtain s e where run: "rg_exists path r = (e, s)" by fastforce
  then show ?thesis using rg_exists_spec[OF ok(1) run] modules_same ok(2) OpExists by (auto simp: rg_step_def)
next
  case (OpActiveModule m)
  assume "modules_ok r"
  then show ?thesis using OpActiveModule by (simp add: rg_step_def registrySetActiveModuleLoading_def modules_ok_def reg_view_def)
qed

lemma reachable_modules: "modules_ok (snd (rg_run ops registry_new))"
proof -
  have "reg_ok r \<Longrightarrow> modules_ok r \<Longrightarrow> modules_ok (snd (rg_run ops r))" for r
  proof (induction ops arbitrary: r)
    case (Cons op ops)
    obtain a r' where s: "rg_step op r = (a, r')" by fastforce
    show ?case using rg_step_refines[OF Cons.prems(1) s] modules_step[OF Cons.prems, of op] Cons.IH[of r'] s
      by (cases "rg_run ops r'") simp
  qed simp
  moreover have "modules_ok registry_new" by (simp add: modules_ok_def) (simp add: registry_new_def)
  ultimately show ?thesis by simp
qed

text \<open>In every reachable state, the plugin paths of a module are, each once, the paths of the registered
  plugins that were added while the module was loading.\<close>

theorem registry_modules:
  "distinct (getPluginPaths m (snd (rg_run ops registry_new)))
    \<and> set (getPluginPaths m (snd (rg_run ops registry_new)))
      = {pl_path p |p. \<exists>ns. reg_view (snd (rg_run ops registry_new)) ns = Some p \<and> pl_module p = m}"
  using reachable_modules[of ops] by (simp add: modules_ok_def getPluginPaths_def)

section \<open>Events\<close>

definition object_at :: "(string list \<Rightarrow> plugin option) \<Rightarrow> string list \<Rightarrow> plugin_object" where
  "object_at A ns = (case A ns of None \<Rightarrow> PlNull | Some p \<Rightarrow> pl_object p)"

text \<open>The objects above a path, the nearest first; the root is above itself.\<close>

definition parent_objects :: "(string list \<Rightarrow> plugin option) \<Rightarrow> string list \<Rightarrow> plugin_object list" where
  "parent_objects A ns = map (\<lambda>k. object_at A (take k ns)) (rev [0..<max 1 (length ns)])"

definition names_valid :: "registry \<Rightarrow> bool" where
  "names_valid r \<longleftrightarrow> (\<forall>ns. reg_view r ns \<noteq> None \<longrightarrow> list_all name_ok ns)"

lemma object_at_entry: "entry_ok (RegistryEntry plugin hasPlugin names nodes) \<Longrightarrow>
    pl_object plugin = object_at (plugin_at (RegistryEntry plugin hasPlugin names nodes)) []"
  by (auto simp: object_at_def entry_ok_simps plugin_null_def)

lemma object_at_node: "object_at (plugin_at (node_of name nodes)) path
    = object_at (plugin_at (RegistryEntry plugin hasPlugin names nodes)) (name # path)"
  by (simp add: object_at_def plugin_at_Cons)

lemma rev_upt_take: "map (\<lambda>k. f (take k (x # xs))) (rev [0..<Suc n]) = map (\<lambda>k. f (x # take k xs)) (rev [0..<n]) @ [f []]"
proof -
  have "[0..<Suc n] = 0 # map Suc [0..<n]" by (simp add: upt_conv_Cons map_Suc_upt del: upt_Suc)
  then show ?thesis by (simp add: rev_map o_def del: upt_Suc)
qed

lemma parent_plugins_objects:
  "entry_ok e \<Longrightarrow> map pl_object (fst (parent_plugins path e parents)) = parent_objects (plugin_at e) path @ map pl_object parents"
proof (induction path e parents rule: parent_plugins.induct)
  case (1 name "next" path plugin hasPlugin names nodes parents)
  let ?e = "RegistryEntry plugin hasPlugin names nodes"
  have n: "entry_ok (node_of name nodes)" using "1.prems" by (simp add: entry_ok_simps node_of_ok)
  have "parent_objects (plugin_at ?e) (name # next # path) = parent_objects (plugin_at (node_of name nodes)) (next # path) @ [pl_object plugin]"
    using object_at_entry[OF "1.prems"] object_at_node[of name nodes _ plugin hasPlugin names]
      rev_upt_take[of "object_at (plugin_at ?e)" name "next # path" "length (next # path)"]
    by (simp add: parent_objects_def del: upt_Suc take_Suc_Cons)
  then show ?case using "1.IH"[OF n] by (simp add: parent_plugins_cases)
qed (simp_all add: parent_objects_def object_at_entry)

definition handler_calls :: "plugin_object list \<Rightarrow> plugin \<Rightarrow> string \<Rightarrow> (plugin_object \<times> plugin \<times> string) list" where
  "handler_calls hs p event = map (\<lambda>h. (h, p, event)) (filter canObjectHandleEvent hs)"

lemma handlePluginEvent_events:
  assumes "reg_ok r"
  shows "rg_events (handlePluginEvent p event r) = rg_events r @ handler_calls (parent_objects (reg_view r) (path_listNodes (pl_path p))) p event"
proof -
  have calls: "rg_events (fold (\<lambda>q. callPluginEventHandler (pl_object q) p event) ps s)
      = rg_events s @ handler_calls (map pl_object ps) p event" for ps s
    by (induction ps arbitrary: s) (simp_all add: callPluginEventHandler_def handler_calls_def)
  obtain ps root where pp: "parent_plugins (path_listNodes (pl_path p)) (rg_root r) [] = (ps, root)" by fastforce
  then have "map pl_object ps = parent_objects (reg_view r) (path_listNodes (pl_path p))"
    using parent_plugins_objects[of "rg_root r" "path_listNodes (pl_path p)" "[]"] assms by (simp add: reg_ok_def reg_view_def)
  then show ?thesis using calls[of ps "r\<lparr>rg_root := root\<rparr>"] pp by (simp add: handlePluginEvent_def)
qed

lemma plugin_at_depth: "plugin_at e q \<noteq> None \<Longrightarrow> length q < entry_height e"
proof (induction e q rule: plugin_at.induct)
  case (2 plugin hasPlugin names nodes name path)
  then obtain x where x: "smap_find name nodes = Some x" "plugin_at x path \<noteq> None"
    by (auto simp: plugin_at.simps(2) split: option.splits)
  have fold: "m \<le> fold (\<lambda>entry. max (entry_height (snd entry))) ns m
      \<and> (\<forall>entry \<in> set ns. entry_height (snd entry) \<le> fold (\<lambda>entry. max (entry_height (snd entry))) ns m)" for ns m
  proof (induction ns arbitrary: m)
    case (Cons y ns)
    show ?case using Cons.IH[of "max (entry_height (snd y)) m"] by auto
  qed simp
  have "entry_height x \<le> fold (\<lambda>entry. max (entry_height (snd entry))) nodes 0"
    using fold[of 0 nodes] smap_find_Some_in[OF x(1)] by fastforce
  then show ?case using "2.IH"[OF x] by simp
qed simp

text \<open>The events that a new handler is sent: one for every name list below the path, in some order.\<close>

definition adds_for :: "plugin_object \<Rightarrow> (string list \<Rightarrow> plugin option) \<Rightarrow> string list \<Rightarrow> string list set
    \<Rightarrow> (plugin_object \<times> plugin \<times> string) list \<Rightarrow> bool" where
  "adds_for h A ns Q es \<longleftrightarrow> (\<exists>qs. distinct qs \<and> set qs = Q \<and> es = map (\<lambda>q. (h, the (A (ns @ q)), ''add'')) qs)"

lemma adds_for_append: "adds_for h A ns P es \<Longrightarrow> adds_for h A ns Q fs \<Longrightarrow> P \<inter> Q = {} \<Longrightarrow> adds_for h A ns (P \<union> Q) (es @ fs)"
  unfolding adds_for_def
proof (elim exE conjE)
  fix ps qs assume "distinct ps" "set ps = P" "es = map (\<lambda>q. (h, the (A (ns @ q)), ''add'')) ps"
    "distinct qs" "set qs = Q" "fs = map (\<lambda>q. (h, the (A (ns @ q)), ''add'')) qs" "P \<inter> Q = {}"
  then show "\<exists>rs. distinct rs \<and> set rs = P \<union> Q \<and> es @ fs = map (\<lambda>q. (h, the (A (ns @ q)), ''add'')) rs"
    by (intro exI[of _ "ps @ qs"]) simp
qed

lemma adds_for_shift: "adds_for h A (ns @ [n]) Q es \<Longrightarrow> adds_for h A ns ((#) n ` Q) es"
  unfolding adds_for_def
proof (elim exE conjE)
  fix qs assume "distinct qs" "set qs = Q" "es = map (\<lambda>q. (h, the (A ((ns @ [n]) @ q)), ''add'')) qs"
  then show "\<exists>rs. distinct rs \<and> set rs = (#) n ` Q \<and> es = map (\<lambda>q. (h, the (A (ns @ q)), ''add'')) rs"
    by (intro exI[of _ "map ((#) n) qs"]) (simp add: distinct_map)
qed

lemma path_join_names:
  assumes "list_all name_ok ns" "name_ok n" "path = path_of ns \<or> path = [] \<and> ns = []"
  shows "path_join path n = Inr (path_of (ns @ [n]))"
proof -
  have "path @ (if path = ''/'' then '''' else ''/'') @ n = path_of (ns @ [n])"
  proof (cases ns)
    case (Cons m ms)
    have "m \<noteq> []" using assms(1) Cons by (simp add: name_ok_def)
    then show ?thesis using assms(3) Cons by (auto simp: path_of_def)
  qed (use assms(3) in \<open>auto simp: path_of_def\<close>)
  moreover have "validatePathString (path_of (ns @ [n]))" using path_of_valid[of "ns @ [n]"] assms by (auto simp: list_all_iff)
  ultimately show ?thesis by (simp add: path_join_def path_make_def)
qed

lemma same_events [simp]:
  "rg_events (snd (rg_list path r)) = rg_events r" "rg_get path r = (a, r') \<Longrightarrow> rg_events r' = rg_events r"
  by (auto simp: rg_list_def rg_get_def split: prod.splits)

definition below :: "(string list \<Rightarrow> plugin option) \<Rightarrow> string list \<Rightarrow> string list set" where
  "below A ns = {q. q \<noteq> [] \<and> A (ns @ q) \<noteq> None}"

lemma below_split: "below A ns = (\<Union>n \<in> {n. \<exists>q. A (ns @ n # q) \<noteq> None}. (#) n ` ((if A (ns @ [n]) = None then {} else {[]}) \<union> below A (ns @ [n])))"
proof (intro set_eqI iffI)
  fix q assume "q \<in> below A ns"
  then obtain n q' where "q = n # q'" "A (ns @ n # q') \<noteq> None" by (cases q) (auto simp: below_def)
  then show "q \<in> (\<Union>n \<in> {n. \<exists>q. A (ns @ n # q) \<noteq> None}. (#) n ` ((if A (ns @ [n]) = None then {} else {[]}) \<union> below A (ns @ [n])))"
    by (cases q') (force simp: below_def)+
qed (auto simp: below_def split: if_splits)

lemma adds_for_empty [simp]: "adds_for h A ns {} []"
  by (simp add: adds_for_def)

lemma adds_for_one: "A (ns @ q) = Some p \<Longrightarrow> adds_for h A ns {q} [(h, p, ''add'')]"
  unfolding adds_for_def by (intro exI[of _ "[q]"]) simp

lemma missed_step_adds:
  assumes IH: "\<And>r path ns. reg_ok r \<Longrightarrow> names_valid r \<Longrightarrow> list_all name_ok ns \<Longrightarrow> path = path_of ns \<or> path = [] \<and> ns = [] \<Longrightarrow>
        \<forall>q. reg_view r (ns @ q) \<noteq> None \<longrightarrow> length q \<le> fuel \<Longrightarrow>
        \<exists>es. rg_events (missed_events fuel h path r) = rg_events r @ es \<and> adds_for h (reg_view r) ns (below (reg_view r) ns) es"
    and ok: "reg_ok s" "names_valid s" and ns: "list_all name_ok ns" "path = path_of ns \<or> path = [] \<and> ns = []" and n: "name_ok n"
    and depth: "\<forall>q. reg_view s (ns @ q) \<noteq> None \<longrightarrow> length q \<le> Suc fuel" and h: "canObjectHandleEvent h"
  shows "\<exists>es. rg_events (missed_step fuel h path n s) = rg_events s @ es
    \<and> adds_for h (reg_view s) ns ((#) n ` ((if reg_view s (ns @ [n]) = None then {} else {[]}) \<union> below (reg_view s) (ns @ [n]))) es"
proof -
  let ?sub = "path_of (ns @ [n])" and ?A = "reg_view s"
  have join: "path_join path n = Inr ?sub" by (rule path_join_names[OF ns(1) n ns(2)])
  have nodes: "path_listNodes ?sub = ns @ [n]" using ns(1) n listNodes_path_of[of "ns @ [n]"] by (auto simp: list_all_iff)
  obtain a t where g: "rg_get ?sub s = (a, t)" by fastforce
  have st: "reg_same s t" "a = (case ?A (ns @ [n]) of None \<Rightarrow> Inl PluginRegistryError | Some p \<Rightarrow> Inr p)"
    using rg_get_spec[OF g] nodes by simp_all
  have deep: "\<forall>q. ?A ((ns @ [n]) @ q) \<noteq> None \<longrightarrow> length q \<le> fuel"
  proof (intro allI impI)
    fix q assume "?A ((ns @ [n]) @ q) \<noteq> None"
    then show "length q \<le> fuel" using depth[rule_format, of "n # q"] by simp
  qed
  have sub: "\<exists>es. rg_events (missed_events fuel h ?sub u) = rg_events u @ es \<and> adds_for h ?A (ns @ [n]) (below ?A (ns @ [n])) es"
    if u: "reg_same s u" for u
    using IH[of u "ns @ [n]" ?sub] u ok ns(1) n deep by (auto simp: reg_same_def names_valid_def)
  show ?thesis
  proof (cases "?A (ns @ [n])")
    case None
    then have "missed_step fuel h path n s = missed_events fuel h ?sub t" using join g st(2) by (simp add: missed_step_def)
    then show ?thesis using sub[OF st(1)] None adds_for_shift g by fastforce
  next
    case (Some p)
    let ?t = "callPluginEventHandler h p ''add'' t"
    have run: "missed_step fuel h path n s = missed_events fuel h ?sub ?t" using join g st(2) Some by (simp add: missed_step_def)
    obtain es where es: "rg_events (missed_events fuel h ?sub ?t) = rg_events ?t @ es" "adds_for h ?A (ns @ [n]) (below ?A (ns @ [n])) es"
      using sub[of ?t] reg_same_trans[OF st(1) callPluginEventHandler_same] by blast
    have "adds_for h ?A (ns @ [n]) ({[]} \<union> below ?A (ns @ [n])) ([(h, p, ''add'')] @ es)"
      by (rule adds_for_append) (use es(2) Some adds_for_one[of ?A "ns @ [n]" "[]" p h] in \<open>auto simp: below_def\<close>)
    then have "adds_for h ?A ns ((#) n ` ({[]} \<union> below ?A (ns @ [n]))) ((h, p, ''add'') # es)" using adds_for_shift by fastforce
    moreover have "rg_events ?t = rg_events s @ [(h, p, ''add'')]" using h g by (simp add: callPluginEventHandler_def)
    ultimately show ?thesis using run es(1) Some by auto
  qed
qed

lemma missed_step_same: "reg_same s (missed_step fuel h path n s)"
proof (cases "path_join path n")
  case (Inr sub)
  obtain a t where g: "rg_get sub s = (a, t)" by fastforce
  have st: "reg_same s t" using rg_get_spec[OF g] by simp
  show ?thesis using reg_same_trans[OF st missed_events_same] reg_same_trans[OF st reg_same_trans[OF callPluginEventHandler_same missed_events_same]]
    by (cases a) (simp_all add: missed_step_def Inr g)
qed (simp add: missed_step_def)

lemma missed_fold_adds:
  assumes step: "\<And>n s. reg_same r s \<Longrightarrow> n \<in> set names \<Longrightarrow>
      \<exists>es. rg_events (missed_step fuel h path n s) = rg_events s @ es \<and> adds_for h (reg_view r) ns ((#) n ` Q n) es"
    and "distinct names" "reg_same r s"
  shows "\<exists>es. rg_events (fold (missed_step fuel h path) names s) = rg_events s @ es
    \<and> adds_for h (reg_view r) ns (\<Union>n \<in> set names. (#) n ` Q n) es"
  using assms
proof (induction names arbitrary: s)
  case (Cons n names)
  obtain es where es: "rg_events (missed_step fuel h path n s) = rg_events s @ es" "adds_for h (reg_view r) ns ((#) n ` Q n) es"
    using Cons.prems(1)[of s n] Cons.prems(3) by auto
  have "reg_same r (missed_step fuel h path n s)" using reg_same_trans[OF Cons.prems(3) missed_step_same] .
  then obtain fs where fs: "rg_events (fold (missed_step fuel h path) names (missed_step fuel h path n s)) = rg_events s @ es @ fs"
    "adds_for h (reg_view r) ns (\<Union>n \<in> set names. (#) n ` Q n) fs"
    using Cons.IH[of "missed_step fuel h path n s"] Cons.prems(1,2) es(1) by auto
  have "adds_for h (reg_view r) ns ((#) n ` Q n \<union> (\<Union>n \<in> set names. (#) n ` Q n)) (es @ fs)"
    by (rule adds_for_append[OF es(2) fs(2)]) (use Cons.prems(2) in auto)
  then show ?case using fs(1) by auto
qed simp

lemma missed_events_adds:
  assumes "reg_ok r" "names_valid r" "list_all name_ok ns" "path = path_of ns \<or> path = [] \<and> ns = []"
    "\<forall>q. reg_view r (ns @ q) \<noteq> None \<longrightarrow> length q \<le> fuel" and h: "canObjectHandleEvent h"
  shows "\<exists>es. rg_events (missed_events fuel h path r) = rg_events r @ es \<and> adds_for h (reg_view r) ns (below (reg_view r) ns) es"
  using assms
proof (induction fuel arbitrary: r path ns)
  case 0
  then have "below (reg_view r) ns = {}" by (auto simp: below_def)
  then show ?case by simp
next
  case (Suc fuel)
  let ?A = "reg_view r" and ?s = "snd (rg_list path r)" and ?names = "fst (rg_list path r)"
  let ?Q = "\<lambda>n. (if ?A (ns @ [n]) = None then {} else {[]}) \<union> below ?A (ns @ [n])"
  have nodes: "path_listNodes path = ns"
    using Suc.prems(3,4) listNodes_path_of[of ns] by (auto simp: list_all_iff path_listNodes_def tokenize_def)
  have names: "distinct ?names" "set ?names = {n. \<exists>q. ?A (ns @ n # q) \<noteq> None}"
    using rg_list_names[OF Suc.prems(1), of path] nodes by simp_all
  have valid: "name_ok n" if "n \<in> set ?names" for n
    using that Suc.prems(2) unfolding names(2) names_valid_def by fastforce
  have "\<exists>es. rg_events (missed_step fuel h path n s) = rg_events s @ es \<and> adds_for h ?A ns ((#) n ` ?Q n) es"
    if s: "reg_same r s" "n \<in> set ?names" for n s
  proof -
    have v: "reg_view s = ?A" "reg_ok s" "names_valid s" using s(1) Suc.prems(1,2) by (auto simp: reg_same_def names_valid_def)
    show ?thesis using missed_step_adds[OF Suc.IH v(2,3) Suc.prems(3,4) valid[OF s(2)] _ h] Suc.prems(5) h unfolding v(1) by blast
  qed
  then obtain es where es: "rg_events (fold (missed_step fuel h path) ?names ?s) = rg_events ?s @ es"
    "adds_for h ?A ns (\<Union>n \<in> set ?names. (#) n ` ?Q n) es"
    using missed_fold_adds[of r ?names fuel h path ns ?Q ?s] names(1) by auto
  then show ?case unfolding missed_events_Suc below_split[of ?A ns] names(2) by auto
qed

definition op_valid :: "registry_op \<Rightarrow> bool" where
  "op_valid op \<longleftrightarrow> (case op of OpAdd p \<Rightarrow> validatePathString (pl_path p) | _ \<Rightarrow> True)"

lemma valid_listNodes: "validatePathString path \<Longrightarrow> list_all name_ok (path_listNodes path) \<and> (path = path_of (path_listNodes path) \<or> path = [])"
  using valid_path_iff[of path] by (auto simp: path_listNodes_def tokenize_def)

lemma names_valid_step:
  assumes "reg_ok r" "names_valid r" "op_valid op" shows "names_valid (snd (rg_step op r))"
proof -
  obtain a r' where s: "rg_step op r = (a, r')" by fastforce
  have "reg_view r' = fst (snd (spec_step op (reg_view r, rg_active r)))" using rg_step_refines[OF assms(1) s] by simp
  moreover have "fst (snd (spec_step op (reg_view r, rg_active r))) ns \<noteq> None \<longrightarrow> list_all name_ok ns" for ns
  proof (cases op)
    case (OpAdd p)
    have "list_all name_ok (path_listNodes (pl_path p))" using assms(3) OpAdd valid_listNodes by (simp add: op_valid_def)
    then show ?thesis using assms(2) OpAdd by (auto simp: spec_step_def names_valid_def Let_def)
  qed (use assms(2) in \<open>simp_all add: spec_step_def names_valid_def Let_def\<close>)
  ultimately show ?thesis using s by (simp add: names_valid_def)
qed

lemma reachable_names: "list_all op_valid ops \<Longrightarrow> names_valid (snd (rg_run ops registry_new))"
proof -
  have "reg_ok r \<Longrightarrow> names_valid r \<Longrightarrow> list_all op_valid ops \<Longrightarrow> names_valid (snd (rg_run ops r))" for r
  proof (induction ops arbitrary: r)
    case (Cons op ops)
    obtain a r' where s: "rg_step op r = (a, r')" by fastforce
    show ?case using rg_step_refines[OF Cons.prems(1) s] names_valid_step[OF Cons.prems(1,2), of op] Cons.IH[of r'] Cons.prems(3) s
      by (cases "rg_run ops r'") simp
  qed simp
  moreover have "names_valid registry_new" by (simp add: names_valid_def)
  ultimately show "list_all op_valid ops \<Longrightarrow> ?thesis" by simp
qed

lemma updatePluginAssociation_events [simp]: "rg_events (updatePluginAssociation action p r) = rg_events r"
  by (simp add: updatePluginAssociation_def Let_def)

text \<open>C21: A handler plugin that is added to a reachable registry is announced to the handlers above it, the nearest
  first, and is then itself sent one add event for every plugin registered below it, and no other event.\<close>

theorem add_handler_events:
  assumes ops: "list_all op_valid ops" and r: "r = snd (rg_run ops registry_new)" and p: "p = p0\<lparr>pl_module := rg_active r\<rparr>"
    and run: "rg_add p0 r = (r', None)" and path: "validatePathString (pl_path p0)" and h: "canObjectHandleEvent (pl_object p0)"
  shows "\<exists>es. rg_events r' = rg_events r
        @ handler_calls (parent_objects (reg_view r') (path_listNodes (pl_path p0))) p ''add'' @ es
      \<and> adds_for (pl_object p0) (reg_view r') (path_listNodes (pl_path p0)) (below (reg_view r') (path_listNodes (pl_path p0))) es"
proof -
  let ?ns = "path_listNodes (pl_path p0)"
  have ok: "reg_ok r" "names_valid r" using reachable_names[OF ops] by (simp_all add: r)
  have new: "reg_view r ?ns = None" using rg_add_spec[OF run ok(1)] by (auto split: if_splits)
  obtain b root where at: "at_nodes True ?ns (add_act p) (rg_root r) = (b, root)" by fastforce
  have s: "reg_ok (add_state p r)" "reg_view (add_state p r) = (reg_view r)(?ns \<mapsto> p)" "rg_events (add_state p r) = rg_events r"
    using at at_nodes_add[OF at] new ok(1) p by (simp_all add: add_state_def reg_ok_def reg_view_def)
  define t where "t = handlePluginEvent p ''add'' (add_state p r)"
  have st: "reg_same (add_state p r) t" by (simp add: t_def)
  have run': "r' = handleMissedSubTreeEvents (pl_object p) (pl_path p) t" using rg_add_cases[OF p] run new by (simp add: t_def)
  have vt: "reg_view t = (reg_view r)(?ns \<mapsto> p)" "reg_ok t" using st s by (auto simp: reg_same_def)
  have v': "reg_view r' = reg_view t" using handleMissed_same[of t] run' by (simp add: reg_same_def)
  have vn: "list_all name_ok ?ns" "pl_path p0 = path_of ?ns \<or> pl_path p0 = [] \<and> ?ns = []"
    using valid_listNodes[OF path] by (auto simp: path_listNodes_def tokenize_def)
  have nt: "names_valid t" using ok(2) vn(1) vt(1) by (auto simp: names_valid_def)
  have depth: "\<forall>q. reg_view t (?ns @ q) \<noteq> None \<longrightarrow> length q \<le> entry_height (rg_root t)"
    using plugin_at_depth[of "rg_root t"] unfolding reg_view_def by fastforce
  have "\<exists>es. rg_events r' = rg_events t @ es \<and> adds_for (pl_object p0) (reg_view t) ?ns (below (reg_view t) ?ns) es"
    using missed_events_adds[OF vt(2) nt vn depth h] unfolding run' handleMissedSubTreeEvents_def by (simp add: p)
  moreover have "rg_events t = rg_events r @ handler_calls (parent_objects (reg_view t) ?ns) p ''add''"
    using handlePluginEvent_events[OF s(1), of p "''add''"] s vt(1) p by (simp add: t_def)
  ultimately show ?thesis unfolding v' by auto
qed

definition demo_handler :: plugin where
  "demo_handler = \<lparr>pl_path = ''/a'', pl_object = PlCallable True ''void'' [''Pothos::Plugin'', ''std::string''], pl_module = ''''\<rparr>"

definition demo_plugin :: plugin where
  "demo_plugin = \<lparr>pl_path = ''/a/b'', pl_object = PlValue ''int'', pl_module = ''''\<rparr>"

theorem add_handler_events_witness:
  "(pl_object demo_handler, demo_plugin, ''add'') \<in> set (rg_events (fst (rg_add demo_handler (snd (rg_run [OpAdd demo_plugin] registry_new)))))"
proof -
  let ?r = "snd (rg_run [OpAdd demo_plugin] registry_new)"
  have pc: "path_char CHR ''a''" "path_char CHR ''b''" by (simp_all add: path_char_def less_eq_char_def)
  have valid: "validatePathString ''/a''" "validatePathString ''/a/b''"
    using path_of_valid[of "[''a'']"] path_of_valid[of "[''a'', ''b'']"] pc by (simp_all add: path_of_def name_ok_def)
  have nodes: "path_listNodes ''/a'' = [''a'']" "path_listNodes ''/a/b'' = [''a'', ''b'']"
    by (simp_all add: path_listNodes_def tokenize_def)
  obtain s e where add1: "rg_add demo_plugin registry_new = (s, e)" by fastforce
  have s: "?r = s" using add1 by (simp add: rg_step_def)
  note spec1 = rg_add_spec[OF add1 registry_new_ok(1)]
  have v1: "reg_view s = [[''a'', ''b''] \<mapsto> demo_plugin]" "rg_active s = ''''" "reg_ok s"
    using spec1 by (simp_all add: nodes demo_plugin_def)
  obtain r' e' where add2: "rg_add demo_handler s = (r', e')" by fastforce
  note spec2 = rg_add_spec[OF add2 v1(3)]
  have v2: "e' = None" "reg_view r' [''a'', ''b''] = Some demo_plugin" using spec2 v1 by (simp_all add: nodes demo_handler_def)
  have "\<exists>es. rg_events r' = rg_events s
        @ handler_calls (parent_objects (reg_view r') (path_listNodes (pl_path demo_handler))) (demo_handler\<lparr>pl_module := rg_active s\<rparr>) ''add'' @ es
      \<and> adds_for (pl_object demo_handler) (reg_view r') (path_listNodes (pl_path demo_handler))
          (below (reg_view r') (path_listNodes (pl_path demo_handler))) es"
    by (rule add_handler_events[of "[OpAdd demo_plugin]", OF _ s[symmetric] refl])
      (use add2 v2(1) valid in \<open>simp_all add: op_valid_def demo_plugin_def demo_handler_def canObjectHandleEvent_def\<close>)
  moreover have a: "path_listNodes (pl_path demo_handler) = [''a'']" by (simp add: nodes demo_handler_def)
  ultimately obtain es where es: "set es \<subseteq> set (rg_events r')" "adds_for (pl_object demo_handler) (reg_view r') [''a''] (below (reg_view r') [''a'']) es"
    unfolding a by fastforce
  have "[''b''] \<in> below (reg_view r') [''a'']" using v2(2) by (simp add: below_def)
  then have "(pl_object demo_handler, the (reg_view r' ([''a''] @ [''b''])), ''add'') \<in> set es"
    using es(2) unfolding adds_for_def by fastforce
  then show ?thesis using es(1) v2(2) s add2 by auto
qed

section \<open>Divergences\<close>

text \<open>The empty string is accepted as a path although it does not start with the root slash.\<close>

lemma empty_path_accepted: "path_make '''' = Inr ''''"
  by (simp add: path_make_def validatePathString_def tokenize_def)

text \<open>When a module fails to load it stays the active module: a later registration is associated with it.\<close>

lemma failed_load_keeps_active:
  assumes "load (registrySetActiveModuleLoading path r) = (r', Some e)" "rg_active r' = path"
    "reg_view r' (path_listNodes (pl_path p)) = None" "reg_ok r'"
  shows "module_load load path r = (r', Some PluginModuleError)
    \<and> reg_view (fst (rg_add p r')) (path_listNodes (pl_path p)) = Some (p\<lparr>pl_module := path\<rparr>)"
proof -
  obtain s e where run: "rg_add p r' = (s, e)" by fastforce
  show ?thesis using rg_add_spec[OF run assms(4)] assms run by (simp add: module_load_def)
qed

end
