(* ===== verification/ThreadEnvironment.thy ===== *)
theory ThreadEnvironment
  imports Prelude Complex_Main
begin

text \<open>
  The thread pools of pothos-library (lib/Framework/ThreadPool.cpp and ThreadEnvironment.cpp): the check of
  the pool's arguments, and the environment of tasks and threads as a state machine. Calls of
  \<open>registerTask\<close> and \<open>unregisterTask\<close> exclude each other by the registration mutex, so one
  registrar with a program counter stands for them; every thread has a program counter of its own. One
  step is one access to the shared state: the update of the map of tasks (under the handle mutex), the
  copy of the map (which takes the handle mutex), the read of the signature (which ends with its release),
  the bump of the signature, a \<open>test_and_set\<close> or \<open>clear\<close> of a task's flag, the run of a task. The
  result of a task is arbitrary, and its wake function has no effect here. The signature does not wrap.
\<close>

section \<open>Arguments of a pool\<close>

text \<open>A priority is a number or, as \<open>None\<close>, not a number: then both comparisons are false.\<close>

record thread_pool_args =
  pa_numThreads :: usize
  pa_priority :: "rat option"
  pa_affinityMode :: string
  pa_affinity :: "usize list"
  pa_yieldMode :: string

definition pool_args :: "usize \<Rightarrow> thread_pool_args" where
  "pool_args n = \<lparr>pa_numThreads = n, pa_priority = Some 0, pa_affinityMode = '''', pa_affinity = [], pa_yieldMode = ''''\<rparr>"

definition pool_make :: "thread_pool_args \<Rightarrow> thread_pool_args result" where
  "pool_make args =
     (if \<not> (pa_affinityMode args = '''' \<or> pa_affinityMode args = ''ALL'' \<or> pa_affinityMode args = ''CPU'' \<or> pa_affinityMode args = ''NUMA'')
      then Inl ThreadPoolError
      else if \<not> (pa_yieldMode args = '''' \<or> pa_yieldMode args = ''CONDITION'' \<or> pa_yieldMode args = ''HYBRID'' \<or> pa_yieldMode args = ''SPIN'')
      then Inl ThreadPoolError
      else if (case pa_priority args of None \<Rightarrow> False | Some p \<Rightarrow> p > 1 \<or> p < -1) then Inl ThreadPoolError
      else Inr args)"

section \<open>The state\<close>

text \<open>Tasks are known by the identity of their \<open>TaskData\<close>; the maps go from handles to these.\<close>

type_synonym task_map = "(nat \<times> nat) list"

text \<open>The program counters of a thread; every name is the action that comes next. \<open>PRun\<close> has the value of
  \<open>waitOnce\<close>; \<open>PWake\<close> and \<open>PWakeClear\<close> have the tasks still to be looked at.\<close>

datatype tpc =
    PTop
  | PCopy
  | PSignature
  | PIndex
  | PTry
  | PRun bool
  | PWake "nat list"
  | PWakeClear nat "nat list"
  | PClear
  | PDone

text \<open>A thread of the pool has its index, a thread of a single task has its handle. The iterator is a position
  in the local map, whose length is the end.\<close>

record thread =
  th_role :: "nat + nat"
  th_fail :: nat
  th_signature :: nat
  th_tasks :: task_map
  th_it :: nat
  th_waitOnce :: bool
  th_pc :: tpc

datatype rpc =
    RIdle
  | RBump nat
  | RSpawn nat
  | UBump nat nat
  | UJoin nat nat
  | UUnique nat

record tenv =
  te_args :: thread_pool_args
  te_waitMode :: bool
  te_tasks :: task_map
  te_signature :: nat
  te_flag :: "nat \<Rightarrow> bool"
  te_fresh :: nat
  te_lock :: "nat option"
  te_pool :: "nat list"
  te_handleToThread :: task_map
  te_threads :: "nat \<Rightarrow> thread option"
  te_spawned :: nat
  te_rpc :: rpc

definition te_new :: "thread_pool_args \<Rightarrow> tenv" where
  "te_new args = \<lparr>te_args = args, te_waitMode = (pa_yieldMode args \<noteq> ''SPIN''), te_tasks = [], te_signature = 0,
     te_flag = \<lambda>_. False, te_fresh = 0, te_lock = None, te_pool = [], te_handleToThread = [], te_threads = \<lambda>_. None,
     te_spawned = 0, te_rpc = RIdle\<rparr>"

definition isWaitingEnabled :: "tenv \<Rightarrow> bool" where
  "isWaitingEnabled s = te_waitMode s"

definition thread_new :: "nat + nat \<Rightarrow> thread" where
  "thread_new role = \<lparr>th_role = role, th_fail = 0, th_signature = 0, th_tasks = [], th_it = 0, th_waitOnce = False, th_pc = PTop\<rparr>"

definition spawn :: "nat + nat \<Rightarrow> tenv \<Rightarrow> nat \<times> tenv" where
  "spawn role s = (te_spawned s, s\<lparr>te_threads := (te_threads s)(te_spawned s := Some (thread_new role)), te_spawned := te_spawned s + 1\<rparr>)"

definition thread_done :: "nat \<Rightarrow> tenv \<Rightarrow> bool" where
  "thread_done t s \<longleftrightarrow> (case te_threads s t of None \<Rightarrow> True | Some th \<Rightarrow> th_pc th = PDone)"

section \<open>Registration\<close>

text \<open>A call begins with the update of the map, when the handle mutex is free. To unregister an unknown handle
  would dereference a null pointer.\<close>

definition registerTask :: "nat \<Rightarrow> tenv \<Rightarrow> tenv option" where
  "registerTask handle s =
     (if te_rpc s \<noteq> RIdle \<or> te_lock s \<noteq> None then None
      else Some (s\<lparr>te_tasks := smap_set handle (te_fresh s) (te_tasks s), te_flag := (te_flag s)(te_fresh s := False), te_fresh := te_fresh s + 1, te_rpc := RBump handle\<rparr>))"

definition unregisterTask :: "nat \<Rightarrow> tenv \<Rightarrow> tenv option" where
  "unregisterTask handle s =
     (if te_rpc s \<noteq> RIdle \<or> te_lock s \<noteq> None then None
      else case smap_find handle (te_tasks s) of
        None \<Rightarrow> None
      | Some d \<Rightarrow> Some (s\<lparr>te_tasks := smap_erase handle (te_tasks s), te_rpc := UBump handle d\<rparr>))"

text \<open>No thread has the data in its local map (\<open>data.unique()\<close>; a finished thread has dropped its map).\<close>

definition data_unique :: "nat \<Rightarrow> tenv \<Rightarrow> bool" where
  "data_unique d s \<longleftrightarrow> (\<forall>t < te_spawned s. case te_threads s t of None \<Rightarrow> True
     | Some th \<Rightarrow> th_pc th = PDone \<or> d \<notin> snd ` set (th_tasks th))"

definition r_next :: "tenv \<Rightarrow> tenv option" where
  "r_next s =
     (case te_rpc s of
        RIdle \<Rightarrow> None
      | RBump handle \<Rightarrow> Some (s\<lparr>te_signature := te_signature s + 1, te_rpc := RSpawn handle\<rparr>)
      | RSpawn handle \<Rightarrow>
          if pa_numThreads (te_args s) = 0
          then (case spawn (Inr handle) s of
                  (t, s) \<Rightarrow> Some (s\<lparr>te_handleToThread := smap_set handle t (te_handleToThread s), te_rpc := RIdle\<rparr>))
          else if length (te_pool s) < pa_numThreads (te_args s)
          then (case spawn (Inl (length (te_pool s))) s of
                  (t, s) \<Rightarrow> Some (s\<lparr>te_pool := te_pool s @ [t], te_rpc := RIdle\<rparr>))
          else Some (s\<lparr>te_rpc := RIdle\<rparr>)
      | UBump handle d \<Rightarrow> Some (s\<lparr>te_signature := te_signature s + 1, te_rpc := UJoin handle d\<rparr>)
      | UJoin handle d \<Rightarrow>
          if pa_numThreads (te_args s) = 0
          then (case smap_find handle (te_handleToThread s) of
                  None \<Rightarrow> None
                | Some t \<Rightarrow> if thread_done t s
                           then Some (s\<lparr>te_handleToThread := smap_erase handle (te_handleToThread s), te_rpc := UUnique d\<rparr>)
                           else None)
          else if length (te_pool s) > length (te_tasks s)
          then (if thread_done (last (te_pool s)) s
                then Some (s\<lparr>te_pool := take (length (te_tasks s)) (te_pool s), te_rpc := UUnique d\<rparr>)
                else None)
          else Some (s\<lparr>te_rpc := UUnique d\<rparr>)
      | UUnique d \<Rightarrow> if data_unique d s then Some (s\<lparr>te_rpc := RIdle\<rparr>) else None)"

section \<open>Threads\<close>

definition upd_thread :: "nat \<Rightarrow> thread \<Rightarrow> tenv \<Rightarrow> tenv" where
  "upd_thread t th s = s\<lparr>te_threads := (te_threads s)(t := Some th)\<rparr>"

definition set_flag :: "nat \<Rightarrow> bool \<Rightarrow> tenv \<Rightarrow> tenv" where
  "set_flag d b s = s\<lparr>te_flag := (te_flag s)(d := b)\<rparr>"

text \<open>The data of the task at the iterator.\<close>

definition th_data :: "thread \<Rightarrow> nat" where
  "th_data th = snd (th_tasks th ! th_it th)"

definition others :: "thread \<Rightarrow> nat list" where
  "others th = map snd (filter (\<lambda>task. fst task \<noteq> fst (th_tasks th ! th_it th)) (th_tasks th))"

text \<open>The signature check and the local copy, shared by both loops; then the next task.\<close>

definition t_config :: "nat \<Rightarrow> thread \<Rightarrow> tenv \<Rightarrow> tenv option" where
  "t_config t th s =
     (case th_pc th of
        PTop \<Rightarrow> Some (upd_thread t (th\<lparr>th_pc := (if te_signature s \<noteq> th_signature th then PCopy else PIndex)\<rparr>) s)
      | PCopy \<Rightarrow>
          if te_lock s \<noteq> None then None
          else Some (upd_thread t (th\<lparr>th_tasks := te_tasks s, th_it := length (te_tasks s), th_pc := PSignature\<rparr>) (s\<lparr>te_lock := Some t\<rparr>))
      | PSignature \<Rightarrow>
          Some (upd_thread t (th\<lparr>th_signature := te_signature s, th_fail := 0, th_pc := PIndex\<rparr>) (s\<lparr>te_lock := None\<rparr>))
      | _ \<Rightarrow> None)"

text \<open>\<open>result\<close> is what the task returns.\<close>

definition poolProcessLoop :: "nat \<Rightarrow> bool \<Rightarrow> nat \<Rightarrow> thread \<Rightarrow> tenv \<Rightarrow> tenv option" where
  "poolProcessLoop index result t th s =
     (case th_pc th of
        PIndex \<Rightarrow>
          if index \<ge> length (th_tasks th) then Some (upd_thread t (th\<lparr>th_pc := PDone\<rparr>) s)
          else Some (upd_thread t (th\<lparr>th_it := (if th_it th = length (th_tasks th) then 0 else th_it th), th_pc := PTry\<rparr>) s)
      | PTry \<Rightarrow>
          if te_flag s (th_data th)
          then Some (upd_thread t (th\<lparr>th_fail := th_fail th + 1, th_it := th_it th + 1, th_pc := PTop\<rparr>) s)
          else (let waitOnce = (te_waitMode s \<and> th_fail th \<ge> length (th_tasks th)) in
                Some (upd_thread t (th\<lparr>th_waitOnce := waitOnce, th_pc := PRun waitOnce\<rparr>) (set_flag (th_data th) True s)))
      | PRun waitOnce \<Rightarrow>
          if result \<and> te_waitMode s then Some (upd_thread t (th\<lparr>th_fail := 0, th_pc := PWake (others th)\<rparr>) s)
          else Some (upd_thread t (th\<lparr>th_fail := (if result \<or> waitOnce then 0 else th_fail th + 1), th_pc := PClear\<rparr>) s)
      | PWake (d # ds) \<Rightarrow>
          if te_flag s d then Some (upd_thread t (th\<lparr>th_pc := PWake ds\<rparr>) s)
          else Some (upd_thread t (th\<lparr>th_pc := PWakeClear d ds\<rparr>) (set_flag d True s))
      | PWakeClear d ds \<Rightarrow> Some (upd_thread t (th\<lparr>th_pc := PWake ds\<rparr>) (set_flag d False s))
      | PWake [] \<Rightarrow> Some (upd_thread t (th\<lparr>th_pc := PClear\<rparr>) s)
      | PClear \<Rightarrow> Some (upd_thread t (th\<lparr>th_it := th_it th + 1, th_pc := PTop\<rparr>) (set_flag (th_data th) False s))
      | _ \<Rightarrow> t_config t th s)"

text \<open>The position of a handle in the local map, its length when it is not there.\<close>

fun find_it :: "nat \<Rightarrow> task_map \<Rightarrow> nat" where
  "find_it handle [] = 0"
| "find_it handle ((h, d) # tasks) = (if h = handle then 0 else find_it handle tasks + 1)"

definition singleProcessLoop :: "nat \<Rightarrow> nat \<Rightarrow> thread \<Rightarrow> tenv \<Rightarrow> tenv option" where
  "singleProcessLoop handle t th s =
     (case th_pc th of
        PIndex \<Rightarrow>
          if find_it handle (th_tasks th) = length (th_tasks th) then Some (upd_thread t (th\<lparr>th_pc := PDone\<rparr>) s)
          else Some (upd_thread t (th\<lparr>th_it := find_it handle (th_tasks th), th_waitOnce := te_waitMode s, th_pc := PRun (te_waitMode s)\<rparr>) s)
      | PRun waitOnce \<Rightarrow> Some (upd_thread t (th\<lparr>th_pc := PTop\<rparr>) s)
      | _ \<Rightarrow> t_config t th s)"

definition t_next :: "nat \<Rightarrow> bool \<Rightarrow> tenv \<Rightarrow> tenv option" where
  "t_next t result s =
     (case te_threads s t of
        None \<Rightarrow> None
      | Some th \<Rightarrow> (case th_role th of Inl index \<Rightarrow> poolProcessLoop index result t th s
                                 | Inr handle \<Rightarrow> singleProcessLoop handle t th s))"

section \<open>Steps\<close>

text \<open>A handle that is registered is not registered again (it is documented to be unique).\<close>

inductive te_step :: "tenv \<Rightarrow> tenv \<Rightarrow> bool" where
  step_register: "smap_find handle (te_tasks s) = None \<Longrightarrow> registerTask handle s = Some s' \<Longrightarrow> te_step s s'"
| step_unregister: "unregisterTask handle s = Some s' \<Longrightarrow> te_step s s'"
| step_registrar: "r_next s = Some s' \<Longrightarrow> te_step s s'"
| step_thread: "t_next t result s = Some s' \<Longrightarrow> te_step s s'"

inductive te_reach :: "thread_pool_args \<Rightarrow> tenv \<Rightarrow> bool" for args where
  reach_new: "te_reach args (te_new args)"
| reach_step: "te_reach args s \<Longrightarrow> te_step s s' \<Longrightarrow> te_reach args s'"

inductive_cases te_stepE: "te_step s s'"

section \<open>Configuration\<close>

definition pending :: "tenv \<Rightarrow> bool" where
  "pending s \<longleftrightarrow> (case te_rpc s of RBump _ \<Rightarrow> True | UBump _ _ \<Rightarrow> True | _ \<Rightarrow> False)"

text \<open>What holds of a thread: its signature is not ahead, and with the current signature it has the current map.\<close>

definition th_current :: "tenv \<Rightarrow> nat \<Rightarrow> thread \<Rightarrow> bool" where
  "th_current s t th \<longleftrightarrow> th_signature th \<le> te_signature s
     \<and> (th_pc th = PSignature \<longleftrightarrow> te_lock s = Some t)
     \<and> (th_pc th = PSignature \<longrightarrow> th_tasks th = te_tasks s)
     \<and> (th_pc th = PCopy \<longrightarrow> th_signature th < te_signature s)
     \<and> (th_signature th = te_signature s \<and> th_pc th \<noteq> PSignature \<and> \<not> pending s \<longrightarrow> th_tasks th = te_tasks s)"

definition te_current :: "tenv \<Rightarrow> bool" where
  "te_current s \<longleftrightarrow> (\<forall>t th. te_threads s t = Some th \<longrightarrow> th_current s t th)
     \<and> (te_signature s = 0 \<longrightarrow> te_tasks s = [] \<or> pending s)
     \<and> (\<forall>t \<ge> te_spawned s. te_threads s t = None)
     \<and> (\<forall>t. te_lock s = Some t \<longrightarrow> t < te_spawned s)"

lemma upd_thread_simps [simp]:
  "te_threads (upd_thread t th s) = (te_threads s)(t := Some th)" "te_tasks (upd_thread t th s) = te_tasks s"
  "te_signature (upd_thread t th s) = te_signature s" "te_flag (upd_thread t th s) = te_flag s"
  "te_fresh (upd_thread t th s) = te_fresh s" "te_lock (upd_thread t th s) = te_lock s" "te_rpc (upd_thread t th s) = te_rpc s"
  "te_spawned (upd_thread t th s) = te_spawned s" "te_args (upd_thread t th s) = te_args s" "te_pool (upd_thread t th s) = te_pool s"
  "te_waitMode (upd_thread t th s) = te_waitMode s"
  by (simp_all add: upd_thread_def)

lemma set_flag_simps [simp]:
  "te_flag (set_flag d b s) = (te_flag s)(d := b)" "te_threads (set_flag d b s) = te_threads s"
  "te_tasks (set_flag d b s) = te_tasks s" "te_signature (set_flag d b s) = te_signature s"
  "te_fresh (set_flag d b s) = te_fresh s" "te_lock (set_flag d b s) = te_lock s" "te_rpc (set_flag d b s) = te_rpc s"
  "te_spawned (set_flag d b s) = te_spawned s" "te_args (set_flag d b s) = te_args s" "te_pool (set_flag d b s) = te_pool s"
  "te_waitMode (set_flag d b s) = te_waitMode s"
  by (simp_all add: set_flag_def)

lemma pending_upd [simp]: "pending (upd_thread t th s) = pending s" "pending (set_flag d b s) = pending s"
  "pending (s\<lparr>te_lock := l\<rparr>) = pending s"
  by (simp_all add: pending_def)

text \<open>The cases of a step of a thread: what it does to itself, to the flags and to the lock.\<close>

definition same_config :: "thread \<Rightarrow> thread \<Rightarrow> bool" where
  "same_config th th' \<longleftrightarrow> th_role th' = th_role th \<and> th_signature th' = th_signature th \<and> th_tasks th' = th_tasks th
     \<and> th_pc th \<noteq> PSignature \<and> th_pc th' \<noteq> PSignature"

definition moved :: "nat \<Rightarrow> thread \<Rightarrow> tenv \<Rightarrow> tenv \<Rightarrow> bool" where
  "moved t th' s s' \<longleftrightarrow> te_threads s' = (te_threads s)(t := Some th') \<and> te_tasks s' = te_tasks s \<and> te_signature s' = te_signature s
     \<and> te_fresh s' = te_fresh s \<and> te_lock s' = te_lock s \<and> te_rpc s' = te_rpc s \<and> te_spawned s' = te_spawned s
     \<and> te_args s' = te_args s \<and> te_pool s' = te_pool s"

lemma moved_upd [simp]: "moved t th (s\<lparr>te_flag := f\<rparr>) s' = moved t th s s'" "moved t th' s (upd_thread t th s) \<longleftrightarrow> th' = th"
  "moved t th' s (upd_thread t th (set_flag d b s)) \<longleftrightarrow> th' = th"
  by (auto simp: moved_def fun_eq_iff)

lemma t_next_config:
  assumes "t_next t result s = Some s'" "te_threads s t = Some th"
  shows "(\<exists>th'. moved t th' s s' \<and> same_config th th'
        \<and> (th_pc th' = PCopy \<longrightarrow> th_pc th = PTop \<and> te_signature s \<noteq> th_signature th))
    \<or> (\<exists>it. th_pc th = PCopy \<and> te_lock s = None
        \<and> s' = upd_thread t (th\<lparr>th_tasks := te_tasks s, th_it := it, th_pc := PSignature\<rparr>) (s\<lparr>te_lock := Some t\<rparr>))
    \<or> (th_pc th = PSignature
        \<and> s' = upd_thread t (th\<lparr>th_signature := te_signature s, th_fail := 0, th_pc := PIndex\<rparr>) (s\<lparr>te_lock := None\<rparr>))"
proof (cases "th_role th")
  case (Inl index)
  have run: "poolProcessLoop index result t th s = Some s'" using assms Inl by (simp add: t_next_def)
  show ?thesis
  proof (cases "th_pc th")
    case PCopy
    then show ?thesis using run by (auto simp: poolProcessLoop_def t_config_def split: if_splits)
  next
    case PSignature
    then show ?thesis using run by (auto simp: poolProcessLoop_def t_config_def)
  next
    case (PWake ds)
    then show ?thesis using run
      by (cases ds) (auto simp: poolProcessLoop_def same_config_def split: if_splits)
  qed (use run in \<open>auto simp: poolProcessLoop_def t_config_def same_config_def Let_def split: if_splits\<close>)
next
  case (Inr handle)
  have run: "singleProcessLoop handle t th s = Some s'" using assms Inr by (simp add: t_next_def)
  show ?thesis
  proof (cases "th_pc th")
    case PCopy
    then show ?thesis using run by (auto simp: singleProcessLoop_def t_config_def split: if_splits)
  next
    case PSignature
    then show ?thesis using run by (auto simp: singleProcessLoop_def t_config_def)
  qed (use run in \<open>auto simp: singleProcessLoop_def t_config_def same_config_def split: if_splits\<close>)
qed

lemma spawn_simps: "spawn role s = (t, s') \<longleftrightarrow> t = te_spawned s
    \<and> s' = s\<lparr>te_threads := (te_threads s)(te_spawned s := Some (thread_new role)), te_spawned := te_spawned s + 1\<rparr>"
  by (auto simp: spawn_def)

text \<open>The cases of a step of the registrar.\<close>

lemma r_next_cases:
  assumes "r_next s = Some s'"
  obtains (bump) h where "te_rpc s = RBump h" "s' = s\<lparr>te_signature := te_signature s + 1, te_rpc := RSpawn h\<rparr>"
  | (unbump) h d where "te_rpc s = UBump h d" "s' = s\<lparr>te_signature := te_signature s + 1, te_rpc := UJoin h d\<rparr>"
  | (spawn1) h m where "te_rpc s = RSpawn h" "pa_numThreads (te_args s) = 0"
      "s' = s\<lparr>te_threads := (te_threads s)(te_spawned s := Some (thread_new (Inr h))), te_spawned := te_spawned s + 1,
             te_handleToThread := m, te_rpc := RIdle\<rparr>"
  | (spawnN) h where "te_rpc s = RSpawn h" "length (te_pool s) < pa_numThreads (te_args s)"
      "s' = s\<lparr>te_threads := (te_threads s)(te_spawned s := Some (thread_new (Inl (length (te_pool s))))), te_spawned := te_spawned s + 1,
             te_pool := te_pool s @ [te_spawned s], te_rpc := RIdle\<rparr>"
  | (full) h where "te_rpc s = RSpawn h" "length (te_pool s) \<ge> pa_numThreads (te_args s)" "pa_numThreads (te_args s) \<noteq> 0" "s' = s\<lparr>te_rpc := RIdle\<rparr>"
  | (joined1) h d m where "te_rpc s = UJoin h d" "pa_numThreads (te_args s) = 0" "s' = s\<lparr>te_handleToThread := m, te_rpc := UUnique d\<rparr>"
  | (joinedN) h d where "te_rpc s = UJoin h d" "pa_numThreads (te_args s) \<noteq> 0" "length (te_pool s) > length (te_tasks s)"
      "s' = s\<lparr>te_pool := take (length (te_tasks s)) (te_pool s), te_rpc := UUnique d\<rparr>"
  | (kept) h d where "te_rpc s = UJoin h d" "pa_numThreads (te_args s) \<noteq> 0" "length (te_pool s) \<le> length (te_tasks s)" "s' = s\<lparr>te_rpc := UUnique d\<rparr>"
  | (returned) d where "te_rpc s = UUnique d" "data_unique d s" "s' = s\<lparr>te_rpc := RIdle\<rparr>"
proof (cases "te_rpc s")
  case RIdle
  then show ?thesis using assms by (simp add: r_next_def)
next
  case (RBump h)
  show ?thesis by (rule bump[OF RBump]) (use assms RBump in \<open>simp add: r_next_def\<close>)
next
  case (UBump h d)
  show ?thesis by (rule unbump[OF UBump]) (use assms UBump in \<open>simp add: r_next_def\<close>)
next
  case (UUnique d)
  have "data_unique d s" "s' = s\<lparr>te_rpc := RIdle\<rparr>" using assms UUnique by (simp_all add: r_next_def split: if_splits)
  then show ?thesis by (rule returned[OF UUnique])
next
  case (RSpawn h)
  show ?thesis
  proof (cases "pa_numThreads (te_args s) = 0")
    case True
    then show ?thesis using spawn1 assms RSpawn by (auto simp: r_next_def spawn_def)
  next
    case False
    then show ?thesis using spawnN full assms RSpawn by (auto simp: r_next_def spawn_def split: if_splits)
  qed
next
  case (UJoin h d)
  show ?thesis
  proof (cases "pa_numThreads (te_args s) = 0")
    case True
    then show ?thesis using joined1 assms UJoin by (auto simp: r_next_def split: option.splits if_splits)
  next
    case False
    then show ?thesis using joinedN kept assms UJoin by (auto simp: r_next_def split: if_splits)
  qed
qed

lemma te_current_thread:
  assumes inv: "te_current s" and th: "te_threads s t = Some th" and t: "t_next t result s = Some s'"
  shows "te_current s'"
proof -
  have t_old: "t < te_spawned s" using inv th by (metis linorder_not_le option.distinct(1) te_current_def)
  have cur: "th_current s u x" if "te_threads s u = Some x" for u x using inv that by (simp add: te_current_def)
  from t_next_config[OF t th] consider
    (move) th' where "moved t th' s s'" "same_config th th'" "th_pc th' = PCopy \<longrightarrow> th_pc th = PTop \<and> te_signature s \<noteq> th_signature th"
  | (copy) i where "te_lock s = None"
      "s' = upd_thread t (th\<lparr>th_tasks := te_tasks s, th_it := i, th_pc := PSignature\<rparr>) (s\<lparr>te_lock := Some t\<rparr>)" "th_pc th = PCopy"
  | (sign) "th_pc th = PSignature"
      "s' = upd_thread t (th\<lparr>th_signature := te_signature s, th_fail := 0, th_pc := PIndex\<rparr>) (s\<lparr>te_lock := None\<rparr>)"
    by blast
  then show ?thesis
  proof cases
    case move
    have p: "pending s' = pending s" using move(1) by (simp add: moved_def pending_def)
    have "th_current s' u x" if "te_threads s' u = Some x" for u x
      using that move cur[of u x] cur[OF th] p by (cases "u = t") (auto simp: moved_def same_config_def th_current_def)
    then show ?thesis using move(1) inv t_old p by (auto simp: te_current_def moved_def)
  next
    case copy
    have "th_current s' u x" if "te_threads s' u = Some x" for u x
      using that copy cur[of u x] cur[OF th] by (cases "u = t") (auto simp: th_current_def)
    then show ?thesis using copy inv t_old by (auto simp: te_current_def)
  next
    case sign
    have "th_current s' u x" if "te_threads s' u = Some x" for u x
      using that sign cur[of u x] cur[OF th] by (cases "u = t") (auto simp: th_current_def)
    then show ?thesis using sign inv t_old by (auto simp: te_current_def)
  qed
qed

lemma th_current_later:
  "th_current s t th \<Longrightarrow> te_signature s' = te_signature s + 1 \<Longrightarrow> te_lock s' = te_lock s \<Longrightarrow> te_tasks s' = te_tasks s \<Longrightarrow> th_current s' t th"
  by (auto simp: th_current_def)

lemma te_current_registrar:
  assumes inv: "te_current s" and r: "r_next s = Some s'" shows "te_current s'"
proof -
  have new: "th_current s' (te_spawned s) (thread_new role)"
    if "te_signature s' = te_signature s" "te_signature s \<noteq> 0 \<or> te_tasks s' = []" "te_lock s' = te_lock s" for role
    using that inv by (auto simp: th_current_def thread_new_def te_current_def)
  show ?thesis using r
  proof (cases rule: r_next_cases)
    case (bump h)
    then show ?thesis using inv th_current_later[of s _ _ s'] by (simp add: te_current_def)
  next
    case (unbump h d)
    then show ?thesis using inv th_current_later[of s _ _ s'] by (simp add: te_current_def)
  next
    case (spawn1 h m)
    then show ?thesis using inv new[of "Inr h"] by (auto simp: te_current_def th_current_def pending_def)
  next
    case (spawnN h)
    then show ?thesis using inv new[of "Inl (length (te_pool s))"] by (auto simp: te_current_def th_current_def pending_def)
  qed (use inv in \<open>auto simp: te_current_def th_current_def pending_def\<close>)
qed

lemma te_current_step: "te_current s \<Longrightarrow> te_step s s' \<Longrightarrow> te_current s'"
proof (erule te_stepE)
  fix handle assume "te_current s" "registerTask handle s = Some s'"
  then show "te_current s'" by (auto simp: registerTask_def te_current_def th_current_def pending_def split: if_splits)
next
  fix handle assume "te_current s" "unregisterTask handle s = Some s'"
  then show "te_current s'" by (auto simp: unregisterTask_def te_current_def th_current_def pending_def split: if_splits option.splits)
next
  assume "te_current s" "r_next s = Some s'"
  then show "te_current s'" by (rule te_current_registrar)
next
  fix t result assume a: "te_current s" "t_next t result s = Some s'"
  then obtain th where "te_threads s t = Some th" by (auto simp: t_next_def split: option.splits)
  then show "te_current s'" using te_current_thread a by blast
qed

lemma te_current_reach: "te_reach args s \<Longrightarrow> te_current s"
proof (induction rule: te_reach.induct)
  case reach_new
  then show ?case by (simp add: te_current_def te_new_def)
qed (rule te_current_step)

text \<open>A thread never misses a change of the configuration: when its signature is the current one and no registration
  is between the update of the map and the bump of the signature, its local tasks are the registered tasks.\<close>

theorem te_config_current:
  assumes "te_reach args s" "te_threads s t = Some th" "th_signature th = te_signature s" "\<not> pending s" "th_pc th \<noteq> PSignature"
  shows "th_tasks th = te_tasks s"
  using te_current_reach[OF assms(1)] assms(2-) by (auto simp: te_current_def th_current_def)

section \<open>Identities of tasks\<close>

definition active :: "tpc \<Rightarrow> bool" where
  "active p \<longleftrightarrow> (case p of PRun _ \<Rightarrow> True | PWake _ \<Rightarrow> True | PWakeClear _ _ \<Rightarrow> True | PClear \<Rightarrow> True | _ \<Rightarrow> False)"

definition waking :: "tpc \<Rightarrow> nat set" where
  "waking p = (case p of PWake ds \<Rightarrow> set ds | PWakeClear d ds \<Rightarrow> insert d (set ds) | _ \<Rightarrow> {})"

definition ids :: "task_map \<Rightarrow> nat set" where
  "ids m = snd ` set m"

definition th_ok :: "nat \<Rightarrow> thread \<Rightarrow> bool" where
  "th_ok n th \<longleftrightarrow> (\<forall>d \<in> ids (th_tasks th). d < n) \<and> th_it th \<le> length (th_tasks th)
     \<and> (active (th_pc th) \<or> th_pc th = PTry \<longrightarrow> th_it th < length (th_tasks th)) \<and> waking (th_pc th) \<subseteq> ids (th_tasks th)"

text \<open>The data of the task that is being unregistered.\<close>

definition leaving :: "rpc \<Rightarrow> nat option" where
  "leaving p = (case p of UBump h d \<Rightarrow> Some d | UJoin h d \<Rightarrow> Some d | UUnique d \<Rightarrow> Some d | _ \<Rightarrow> None)"

definition te_ids :: "tenv \<Rightarrow> bool" where
  "te_ids s \<longleftrightarrow> distinct (map snd (te_tasks s)) \<and> (\<forall>d \<in> ids (te_tasks s). d < te_fresh s)
     \<and> (\<forall>t th. te_threads s t = Some th \<longrightarrow> th_ok (te_fresh s) th)
     \<and> (\<forall>d. leaving (te_rpc s) = Some d \<longrightarrow> d < te_fresh s \<and> d \<notin> ids (te_tasks s))"

lemma ids_set: "smap_find k m = None \<Longrightarrow> ids (smap_set k d m) = insert d (ids m)"
  unfolding ids_def by (induction k d m rule: smap_set.induct) (auto split: if_splits)

lemma ids_erase: "ids (smap_erase k m) \<subseteq> ids m"
proof -
  have "set (smap_erase k m) \<subseteq> set m" by (induction m) (auto split: if_splits)
  then show ?thesis unfolding ids_def by (rule image_mono)
qed

lemma distinct_ids_set: "smap_find k m = None \<Longrightarrow> d \<notin> ids m \<Longrightarrow> distinct (map snd m) \<Longrightarrow> distinct (map snd (smap_set k d m))"
proof (induction k d m rule: smap_set.induct)
  case (2 k v k' v' m)
  then show ?case using ids_set[of k m v] by (auto simp: ids_def split: if_splits)
qed simp

lemma distinct_ids_erase:
  "distinct (map snd m) \<Longrightarrow> smap_find k m = Some d \<Longrightarrow> distinct (map snd (smap_erase k m)) \<and> d \<notin> ids (smap_erase k m) \<and> d \<in> ids m"
proof (induction m)
  case (Cons x m)
  obtain k' v where x: "x = (k', v)" by (cases x)
  show ?case using Cons ids_erase[of k m] by (auto simp: x ids_def split: if_splits)
qed simp

lemma find_it_le: "find_it h m \<le> length m"
  by (induction h m rule: find_it.induct) auto

lemma others_ids: "set (others th) \<subseteq> ids (th_tasks th)"
  by (auto simp: others_def ids_def)

lemma th_data_ids: "th_it th < length (th_tasks th) \<Longrightarrow> th_data th \<in> ids (th_tasks th)"
  by (simp add: th_data_def ids_def)

text \<open>The effect of a thread's step on what the identities depend on.\<close>

definition stepped :: "nat \<Rightarrow> thread \<Rightarrow> tenv \<Rightarrow> tenv \<Rightarrow> bool" where
  "stepped t th' s s' \<longleftrightarrow> te_threads s' = (te_threads s)(t := Some th') \<and> te_tasks s' = te_tasks s \<and> te_fresh s' = te_fresh s
     \<and> te_rpc s' = te_rpc s \<and> te_args s' = te_args s \<and> te_pool s' = te_pool s"

lemma stepped_upd [simp]: "stepped t th' s (upd_thread t th s) \<longleftrightarrow> th' = th" "stepped t th' s (upd_thread t th (set_flag d b s)) \<longleftrightarrow> th' = th"
  "stepped t th' s (upd_thread t th (s\<lparr>te_lock := l\<rparr>)) \<longleftrightarrow> th' = th"
  by (auto simp: stepped_def fun_eq_iff)

lemmas pc_simps = active_def waking_def th_ok_def

lemma t_next_ids:
  assumes "t_next t result s = Some s'" "te_threads s t = Some th" "th_ok (te_fresh s) th" "\<forall>d \<in> ids (te_tasks s). d < te_fresh s"
  shows "\<exists>th'. stepped t th' s s' \<and> th_ok (te_fresh s) th' \<and> th_role th' = th_role th
    \<and> (\<forall>d \<in> ids (th_tasks th'). d \<in> ids (th_tasks th) \<or> d \<in> ids (te_tasks s))"
proof (cases "th_role th")
  case (Inl index)
  have run: "poolProcessLoop index result t th s = Some s'" using assms(1,2) Inl by (simp add: t_next_def)
  show ?thesis
  proof (cases "th_pc th")
    case PIndex
    then show ?thesis using run assms(3) by (cases "th_it th = length (th_tasks th)") (auto simp: poolProcessLoop_def pc_simps split: if_splits)
  next
    case (PRun w)
    then show ?thesis using run assms(3) others_ids[of th] by (auto simp: poolProcessLoop_def pc_simps split: if_splits)
  next
    case (PWake ds)
    then show ?thesis using run assms(3) by (cases ds) (auto simp: poolProcessLoop_def pc_simps split: if_splits)
  qed (use run assms(3,4) in \<open>auto simp: poolProcessLoop_def t_config_def pc_simps Let_def split: if_splits\<close>)
next
  case (Inr handle)
  have run: "singleProcessLoop handle t th s = Some s'" using assms(1,2) Inr by (simp add: t_next_def)
  show ?thesis
  proof (cases "th_pc th")
    case PIndex
    then show ?thesis using run assms(3) find_it_le[of handle "th_tasks th"]
      by (cases "find_it handle (th_tasks th) = length (th_tasks th)") (auto simp: singleProcessLoop_def pc_simps)
  qed (use run assms(3,4) in \<open>auto simp: singleProcessLoop_def t_config_def pc_simps split: if_splits\<close>)
qed

lemma th_ok_mono: "th_ok n th \<Longrightarrow> n \<le> m \<Longrightarrow> th_ok m th"
  by (fastforce simp: th_ok_def)

lemma th_ok_new [simp]: "th_ok n (thread_new role)"
  by (simp add: pc_simps thread_new_def ids_def)

lemma te_ids_step: "te_ids s \<Longrightarrow> te_step s s' \<Longrightarrow> te_ids s'"
proof (erule te_stepE)
  fix handle assume i: "te_ids s" and f: "smap_find handle (te_tasks s) = None" and run: "registerTask handle s = Some s'"
  have s': "te_tasks s' = smap_set handle (te_fresh s) (te_tasks s)" "te_fresh s' = te_fresh s + 1" "te_threads s' = te_threads s"
    "te_rpc s' = RBump handle" using run by (auto simp: registerTask_def split: if_splits)
  have "te_fresh s \<notin> ids (te_tasks s)" using i by (auto simp: te_ids_def)
  then have "distinct (map snd (te_tasks s'))" using i f distinct_ids_set unfolding s' by (simp add: te_ids_def)
  moreover have "\<forall>d \<in> ids (te_tasks s'). d < te_fresh s'" using i f by (auto simp: s' ids_set te_ids_def)
  moreover have "th_ok (te_fresh s') th" if "te_threads s' t = Some th" for t th
    using i that th_ok_mono[of "te_fresh s" th] by (simp add: s' te_ids_def)
  ultimately show "te_ids s'" by (simp add: te_ids_def s'(4) leaving_def)
next
  fix handle assume i: "te_ids s" and run: "unregisterTask handle s = Some s'"
  then obtain d where d: "smap_find handle (te_tasks s) = Some d"
    and s': "s' = s\<lparr>te_tasks := smap_erase handle (te_tasks s), te_rpc := UBump handle d\<rparr>"
    by (auto simp: unregisterTask_def split: if_splits option.splits)
  have "distinct (map snd (te_tasks s))" "\<forall>d \<in> ids (te_tasks s). d < te_fresh s" using i by (simp_all add: te_ids_def)
  then show "te_ids s'" using i distinct_ids_erase[OF _ d] ids_erase[of handle "te_tasks s"] by (auto simp: s' te_ids_def leaving_def)
next
  assume i: "te_ids s" and run: "r_next s = Some s'"
  then show "te_ids s'" by (cases rule: r_next_cases[OF run]) (auto simp: te_ids_def leaving_def)
next
  fix t result assume i: "te_ids s" and run: "t_next t result s = Some s'"
  obtain th where th: "te_threads s t = Some th" using run by (auto simp: t_next_def split: option.splits)
  then obtain th' where "stepped t th' s s'" "th_ok (te_fresh s) th'"
    using t_next_ids[OF run th] i unfolding te_ids_def by blast
  then show "te_ids s'" using i by (auto simp: te_ids_def stepped_def)
qed

lemma te_ids_reach: "te_reach args s \<Longrightarrow> te_ids s"
proof (induction rule: te_reach.induct)
  case reach_new
  then show ?case by (simp add: te_ids_def te_new_def ids_def leaving_def)
qed (rule te_ids_step)

section \<open>After unregistering\<close>

definition forgotten :: "nat \<Rightarrow> tenv \<Rightarrow> bool" where
  "forgotten d s \<longleftrightarrow> d < te_fresh s \<and> d \<notin> ids (te_tasks s) \<and> leaving (te_rpc s) \<noteq> Some d
     \<and> (\<forall>t th. te_threads s t = Some th \<longrightarrow> th_pc th = PDone \<or> d \<notin> ids (th_tasks th))"

lemma done_stays: "t_next t result s = Some s' \<Longrightarrow> te_threads s t = Some th \<Longrightarrow> th_pc th \<noteq> PDone"
  by (auto simp: t_next_def poolProcessLoop_def singleProcessLoop_def t_config_def split: sum.splits)

lemma forgotten_step: "te_ids s \<Longrightarrow> forgotten d s \<Longrightarrow> te_step s s' \<Longrightarrow> forgotten d s'"
proof (erule te_stepE)
  fix handle assume f: "forgotten d s" and h: "smap_find handle (te_tasks s) = None" and run: "registerTask handle s = Some s'"
  have "te_tasks s' = smap_set handle (te_fresh s) (te_tasks s)" "te_fresh s' = te_fresh s + 1" "te_threads s' = te_threads s"
    "te_rpc s' = RBump handle" using run by (auto simp: registerTask_def split: if_splits)
  then show "forgotten d s'" using f by (simp add: forgotten_def ids_set[OF h] leaving_def)
next
  fix handle assume f: "forgotten d s" and run: "unregisterTask handle s = Some s'" and i: "te_ids s"
  then obtain e where e: "smap_find handle (te_tasks s) = Some e"
    and s': "s' = s\<lparr>te_tasks := smap_erase handle (te_tasks s), te_rpc := UBump handle e\<rparr>"
    by (auto simp: unregisterTask_def split: if_splits option.splits)
  have "e \<in> ids (te_tasks s)" using distinct_ids_erase[OF _ e] i by (simp add: te_ids_def)
  then show "forgotten d s'" using f ids_erase[of handle "te_tasks s"] by (auto simp: s' forgotten_def leaving_def)
next
  assume f: "forgotten d s" and run: "r_next s = Some s'"
  then show "forgotten d s'"
    by (cases rule: r_next_cases[OF run]) (auto simp: forgotten_def leaving_def thread_new_def ids_def)
next
  fix t result assume i: "te_ids s" and f: "forgotten d s" and run: "t_next t result s = Some s'"
  obtain th where th: "te_threads s t = Some th" using run by (auto simp: t_next_def split: option.splits)
  have "th_ok (te_fresh s) th" "\<forall>d \<in> ids (te_tasks s). d < te_fresh s" using i th by (simp_all add: te_ids_def)
  then obtain th' where "stepped t th' s s'" "\<forall>e \<in> ids (th_tasks th'). e \<in> ids (th_tasks th) \<or> e \<in> ids (te_tasks s)"
    using t_next_ids[OF run th] by blast
  then show "forgotten d s'" using f done_stays[OF run th] th by (auto simp: forgotten_def stepped_def)
qed

lemma forgotten_later: "te_step\<^sup>*\<^sup>* s s' \<Longrightarrow> te_ids s \<Longrightarrow> forgotten d s \<Longrightarrow> forgotten d s' \<and> te_ids s'"
  by (induction rule: rtranclp_induct) (auto intro: forgotten_step te_ids_step)

lemma returned_forgotten:
  assumes "te_reach args s" "te_rpc s = UUnique d" "r_next s = Some s'"
  shows "forgotten d s'"
proof -
  have "te_ids s" "te_current s" using te_ids_reach te_current_reach assms(1) by blast+
  then have d: "d < te_fresh s" "d \<notin> ids (te_tasks s)" using assms(2) by (simp_all add: te_ids_def leaving_def)
  have old: "t < te_spawned s" if "te_threads s t = Some th" for t th
    using \<open>te_current s\<close> that by (metis linorder_not_le option.distinct(1) te_current_def)
  have s': "s' = s\<lparr>te_rpc := RIdle\<rparr>" "data_unique d s" using assms(2,3) by (simp_all add: r_next_def split: if_splits)
  have "th_pc th = PDone \<or> d \<notin> ids (th_tasks th)" if th: "te_threads s t = Some th" for t th
    using s'(2)[unfolded data_unique_def, rule_format, OF old[OF th]] th by (simp add: ids_def)
  then show ?thesis using d s'(1) by (simp add: forgotten_def leaving_def)
qed

text \<open>C7: Once the unregistration of a task has returned, no thread runs that task, then or at any time later.\<close>

theorem unregistered_never_runs:
  assumes "te_reach args s" "te_rpc s = UUnique d" "r_next s = Some s1" "te_step\<^sup>*\<^sup>* s1 s2"
    "te_threads s2 t = Some th" "active (th_pc th)"
  shows "th_data th \<noteq> d"
proof -
  have "te_ids s1" using te_ids_step te_ids_reach assms(1) step_registrar[OF assms(3)] by blast
  then have f: "forgotten d s2" "te_ids s2" using forgotten_later[OF assms(4)] returned_forgotten[OF assms(1-3)] by simp_all
  have "th_it th < length (th_tasks th)" using f(2) assms(5,6) by (simp add: te_ids_def th_ok_def)
  then have "th_data th \<in> ids (th_tasks th)" by (rule th_data_ids)
  moreover have "th_pc th \<noteq> PDone" using assms(6) by (auto simp: active_def)
  ultimately show ?thesis using f(1) assms(5) by (auto simp: forgotten_def)
qed

section \<open>Exclusion in a pool\<close>

definition holds :: "thread \<Rightarrow> nat \<Rightarrow> bool" where
  "holds th d \<longleftrightarrow> active (th_pc th) \<and> d = th_data th \<or> (\<exists>ds. th_pc th = PWakeClear d ds)"

definition te_excl :: "tenv \<Rightarrow> bool" where
  "te_excl s \<longleftrightarrow> (\<forall>t th. te_threads s t = Some th \<longrightarrow> (\<exists>index. th_role th = Inl index)
       \<and> (\<forall>d. holds th d \<longrightarrow> te_flag s d)
       \<and> (\<forall>d ds. th_pc th = PWakeClear d ds \<longrightarrow> d \<noteq> th_data th))
     \<and> (\<forall>t u th uh d. te_threads s t = Some th \<longrightarrow> te_threads s u = Some uh \<longrightarrow> holds th d \<longrightarrow> holds uh d \<longrightarrow> t = u)"

lemma holds_less: "th_ok n th \<Longrightarrow> holds th d \<Longrightarrow> d < n"
  unfolding holds_def th_ok_def waking_def using th_data_ids[of th] by (auto split: tpc.splits)

text \<open>What a step of a pool thread does to the flags: nothing, taking a free flag, or clearing a flag that it holds.\<close>

lemma pool_flags:
  assumes "poolProcessLoop index result t th s = Some s'" "th_role th = Inl index"
    "\<forall>d. holds th d \<longrightarrow> te_flag s d" "\<forall>d ds. th_pc th = PWakeClear d ds \<longrightarrow> d \<noteq> th_data th"
  obtains th' where "te_threads s' = (te_threads s)(t := Some th')" "th_role th' = Inl index"
    "\<forall>d ds. th_pc th' = PWakeClear d ds \<longrightarrow> d \<noteq> th_data th'"
    "(te_flag s' = te_flag s \<and> (\<forall>d. holds th' d \<longleftrightarrow> holds th d))
     \<or> (\<exists>d. \<not> te_flag s d \<and> te_flag s' = (te_flag s)(d := True) \<and> (\<forall>e. holds th' e \<longleftrightarrow> holds th e \<or> e = d))
     \<or> (\<exists>d. holds th d \<and> te_flag s' = (te_flag s)(d := False) \<and> (\<forall>e. holds th' e \<longleftrightarrow> holds th e \<and> e \<noteq> d))"
proof (cases "th_pc th")
  case PTop
  show ?thesis by (rule that[of "th\<lparr>th_pc := (if te_signature s \<noteq> th_signature th then PCopy else PIndex)\<rparr>"])
    (use assms PTop in \<open>auto simp: poolProcessLoop_def t_config_def holds_def active_def\<close>)
next
  case PCopy
  show ?thesis by (rule that[of "th\<lparr>th_tasks := te_tasks s, th_it := length (te_tasks s), th_pc := PSignature\<rparr>"])
    (use assms PCopy in \<open>auto simp: poolProcessLoop_def t_config_def holds_def active_def split: if_splits\<close>)
next
  case PSignature
  show ?thesis by (rule that[of "th\<lparr>th_signature := te_signature s, th_fail := 0, th_pc := PIndex\<rparr>"])
    (use assms PSignature in \<open>auto simp: poolProcessLoop_def t_config_def holds_def active_def\<close>)
next
  case PIndex
  show ?thesis
  proof (cases "index \<ge> length (th_tasks th)")
    case True
    show ?thesis by (rule that[of "th\<lparr>th_pc := PDone\<rparr>"])
      (use assms PIndex True in \<open>auto simp: poolProcessLoop_def holds_def active_def\<close>)
  next
    case False
    show ?thesis by (rule that[of "th\<lparr>th_it := (if th_it th = length (th_tasks th) then 0 else th_it th), th_pc := PTry\<rparr>"])
      (use assms PIndex False in \<open>auto simp: poolProcessLoop_def holds_def active_def\<close>)
  qed
next
  case PTry
  show ?thesis
  proof (cases "te_flag s (th_data th)")
    case True
    show ?thesis by (rule that[of "th\<lparr>th_fail := th_fail th + 1, th_it := th_it th + 1, th_pc := PTop\<rparr>"])
      (use assms PTry True in \<open>auto simp: poolProcessLoop_def holds_def active_def\<close>)
  next
    case False
    let ?w = "te_waitMode s \<and> th_fail th \<ge> length (th_tasks th)"
    show ?thesis by (rule that[of "th\<lparr>th_waitOnce := ?w, th_pc := PRun ?w\<rparr>"])
      (use assms PTry False in \<open>auto simp: poolProcessLoop_def Let_def holds_def active_def th_data_def\<close>)
  qed
next
  case (PRun w)
  show ?thesis
  proof (cases "result \<and> te_waitMode s")
    case True
    show ?thesis by (rule that[of "th\<lparr>th_fail := 0, th_pc := PWake (others th)\<rparr>"])
      (use assms PRun True in \<open>auto simp: poolProcessLoop_def holds_def active_def th_data_def\<close>)
  next
    case False
    show ?thesis by (rule that[of "th\<lparr>th_fail := (if result \<or> w then 0 else th_fail th + 1), th_pc := PClear\<rparr>"])
      (use assms PRun False in \<open>auto simp: poolProcessLoop_def holds_def active_def th_data_def\<close>)
  qed
next
  case (PWake ds)
  show ?thesis
  proof (cases ds)
    case Nil
    show ?thesis by (rule that[of "th\<lparr>th_pc := PClear\<rparr>"])
      (use assms PWake Nil in \<open>auto simp: poolProcessLoop_def holds_def active_def th_data_def\<close>)
  next
    case (Cons d ds')
    show ?thesis
    proof (cases "te_flag s d")
      case True
      show ?thesis by (rule that[of "th\<lparr>th_pc := PWake ds'\<rparr>"])
        (use assms PWake Cons True in \<open>auto simp: poolProcessLoop_def holds_def active_def th_data_def\<close>)
    next
      case False
      then have "d \<noteq> th_data th" using assms(3) PWake by (auto simp: holds_def active_def)
      then show ?thesis by (intro that[of "th\<lparr>th_pc := PWakeClear d ds'\<rparr>"])
        (use assms PWake Cons False in \<open>auto simp: poolProcessLoop_def holds_def active_def th_data_def\<close>)
    qed
  qed
next
  case (PWakeClear d ds)
  show ?thesis by (rule that[of "th\<lparr>th_pc := PWake ds\<rparr>"])
    (use assms PWakeClear in \<open>auto simp: poolProcessLoop_def holds_def active_def th_data_def\<close>)
next
  case PClear
  show ?thesis by (rule that[of "th\<lparr>th_it := th_it th + 1, th_pc := PTop\<rparr>"])
    (use assms PClear in \<open>auto simp: poolProcessLoop_def holds_def active_def th_data_def\<close>)
next
  case PDone
  then show ?thesis using assms by (simp add: poolProcessLoop_def t_config_def)
qed

lemma te_excl_thread:
  assumes e: "te_excl s" and run: "t_next t result s = Some s'"
  shows "te_excl s'"
proof -
  obtain th where th: "te_threads s t = Some th" using run by (auto simp: t_next_def split: option.splits)
  have role: "\<exists>i. th_role x = Inl i" and flag: "holds x d \<Longrightarrow> te_flag s d" and own: "th_pc x = PWakeClear d ds \<Longrightarrow> d \<noteq> th_data x"
    if "te_threads s u = Some x" for u x d ds using e that by (auto simp: te_excl_def)
  have excl: "u = v" if "te_threads s u = Some x" "te_threads s v = Some y" "holds x d" "holds y d" for u v x y d
    using e that unfolding te_excl_def by blast
  obtain index where index: "th_role th = Inl index" using role[OF th] by blast
  have "poolProcessLoop index result t th s = Some s'" using run th index by (simp add: t_next_def)
  then obtain th' where th': "te_threads s' = (te_threads s)(t := Some th')" "th_role th' = Inl index"
    "\<forall>d ds. th_pc th' = PWakeClear d ds \<longrightarrow> d \<noteq> th_data th'"
    and fl: "(te_flag s' = te_flag s \<and> (\<forall>d. holds th' d \<longleftrightarrow> holds th d))
     \<or> (\<exists>d. \<not> te_flag s d \<and> te_flag s' = (te_flag s)(d := True) \<and> (\<forall>e. holds th' e \<longleftrightarrow> holds th e \<or> e = d))
     \<or> (\<exists>d. holds th d \<and> te_flag s' = (te_flag s)(d := False) \<and> (\<forall>e. holds th' e \<longleftrightarrow> holds th e \<and> e \<noteq> d))"
    using pool_flags[of index result t th s s'] index flag[OF th] own[OF th] by blast
  have mine: "te_flag s' d" if "holds th' d" for d
    using fl that flag[OF th, of d] by (elim disjE exE conjE) (auto simp: fun_upd_apply)
  have stays: "te_flag s' d" if "te_flag s d" "\<not> holds th d" for d
    using fl that by (elim disjE exE conjE) (auto simp: fun_upd_apply)
  have gained: "holds th d \<or> \<not> te_flag s d" if "holds th' d" for d
    using fl that by (elim disjE exE conjE) auto
  have flag': "te_flag s' d" if x: "te_threads s' u = Some x" "holds x d" for u x d
  proof (cases "u = t")
    case True
    then show ?thesis using x th'(1) mine by simp
  next
    case False
    then have x0: "te_threads s u = Some x" using x th'(1) by simp
    have "\<not> holds th d" using excl[OF x0 th x(2)] False by blast
    then show ?thesis using stays flag[OF x0 x(2)] by blast
  qed
  have other: "\<not> holds th' d" if x: "te_threads s u = Some x" "holds x d" "u \<noteq> t" for u x d
  proof
    assume h: "holds th' d"
    have "\<not> holds th d" using excl[OF x(1) th x(2)] x(3) by blast
    then show False using gained[OF h] flag[OF x(1,2)] by blast
  qed
  have uniq: "u = v" if x: "te_threads s' u = Some x" "te_threads s' v = Some y" "holds x d" "holds y d" for u v x y d
  proof (cases "u = t")
    case True
    then have "x = th'" using x(1) th'(1) by simp
    then have h: "holds th' d" using x(3) by simp
    show ?thesis
    proof (rule ccontr)
      assume "u \<noteq> v"
      then have "v \<noteq> t" "te_threads s v = Some y" using True x(2) th'(1) by simp_all
      then show False using other x(4) h by blast
    qed
  next
    case False
    then have x0: "te_threads s u = Some x" using x(1) th'(1) by simp
    have "v \<noteq> t" using other[OF x0 x(3) False] x(2,4) th'(1) by auto
    then have "te_threads s v = Some y" using x(2) th'(1) by simp
    then show ?thesis using excl[OF x0 _ x(3,4)] by blast
  qed
  have local: "(\<exists>i. th_role x = Inl i) \<and> (\<forall>d ds. th_pc x = PWakeClear d ds \<longrightarrow> d \<noteq> th_data x)" if x: "te_threads s' u = Some x" for u x
  proof (cases "u = t")
    case True
    then have "x = th'" using x th'(1) by simp
    then show ?thesis using th'(2,3) by blast
  next
    case False
    then have "te_threads s u = Some x" using x th'(1) by simp
    then show ?thesis using role own by blast
  qed
  show ?thesis unfolding te_excl_def
  proof (intro conjI allI impI)
    fix u x assume x: "te_threads s' u = Some x"
    show "\<exists>i. th_role x = Inl i" using local[OF x] by blast
    show "te_flag s' d" if "holds x d" for d using flag'[OF x that] .
    show "d \<noteq> th_data x" if "th_pc x = PWakeClear d ds" for d ds using local[OF x] that by blast
  next
    fix u v x y d assume "te_threads s' u = Some x" "te_threads s' v = Some y" "holds x d" "holds y d"
    then show "u = v" by (rule uniq)
  qed
qed

lemma te_excl_flags:
  assumes "te_excl s" "te_threads s' = te_threads s"
    and "\<And>t th d. te_threads s t = Some th \<Longrightarrow> holds th d \<Longrightarrow> te_flag s' d = te_flag s d"
  shows "te_excl s'"
  unfolding te_excl_def
proof (intro conjI allI impI)
  fix t th assume "te_threads s' t = Some th"
  then have t: "te_threads s t = Some th" using assms(2) by simp
  show "\<exists>index. th_role th = Inl index" using assms(1) t unfolding te_excl_def by blast
  show "te_flag s' d" if "holds th d" for d using assms(1) assms(3)[OF t that] t that unfolding te_excl_def by blast
  show "d \<noteq> th_data th" if "th_pc th = PWakeClear d ds" for d ds using assms(1) t that unfolding te_excl_def by blast
next
  fix t u th uh d assume "te_threads s' t = Some th" "te_threads s' u = Some uh" "holds th d" "holds uh d"
  then show "t = u" using assms(1,2) unfolding te_excl_def by metis
qed

lemma te_excl_step:
  assumes e: "te_excl s" and i: "te_ids s" and n: "pa_numThreads (te_args s) \<noteq> 0" and step: "te_step s s'"
  shows "te_excl s' \<and> te_args s' = te_args s"
  using step
proof (rule te_stepE)
  fix handle assume 1: "smap_find handle (te_tasks s) = None" "registerTask handle s = Some s'"
  have s': "te_threads s' = te_threads s" "te_flag s' = (te_flag s)(te_fresh s := False)" "te_args s' = te_args s"
    using 1(2) by (auto simp: registerTask_def split: if_splits)
  have "d \<noteq> te_fresh s" if "te_threads s t = Some th" "holds th d" for t th d
  proof -
    have "th_ok (te_fresh s) th" using i that(1) by (simp add: te_ids_def)
    then show ?thesis using holds_less[OF _ that(2)] by blast
  qed
  then have "te_excl s'" by (intro te_excl_flags[OF e s'(1)]) (auto simp: s'(2))
  then show ?thesis using s'(3) by simp
next
  fix handle assume 2: "unregisterTask handle s = Some s'"
  then have "te_threads s' = te_threads s" "te_flag s' = te_flag s" "te_args s' = te_args s"
    by (auto simp: unregisterTask_def split: if_splits option.splits)
  then show ?thesis using e unfolding te_excl_def by simp
next
  assume 3: "r_next s = Some s'"
  have new: "\<not> holds (thread_new r) d" for r d by (simp add: holds_def thread_new_def active_def)
  show ?thesis using 3
  proof (cases rule: r_next_cases)
    case (spawnN h)
    have "te_excl s'" unfolding te_excl_def
    proof (intro conjI allI impI)
      fix u x assume x: "te_threads s' u = Some x"
      have x': "x = thread_new (Inl (length (te_pool s))) \<or> te_threads s u = Some x" using x spawnN(3) by (auto split: if_splits)
      show "\<exists>i. th_role x = Inl i" using x' e by (auto simp: te_excl_def thread_new_def)
      show "te_flag s' d" if "holds x d" for d using x' e new that spawnN(3) by (auto simp: te_excl_def)
      show "d \<noteq> th_data x" if "th_pc x = PWakeClear d ds" for d ds
        using x'
      proof
        assume "te_threads s u = Some x"
        then show ?thesis using e that unfolding te_excl_def by blast
      qed (use that in \<open>simp add: thread_new_def\<close>)
    next
      fix u v x y d assume a: "te_threads s' u = Some x" "te_threads s' v = Some y" "holds x d" "holds y d"
      then have "te_threads s u = Some x" "te_threads s v = Some y" using new spawnN(3) by (auto split: if_splits)
      then show "u = v" using e a(3,4) unfolding te_excl_def by blast
    qed
    then show ?thesis using spawnN(3) by simp
  qed (use e n in \<open>auto simp: te_excl_def\<close>)
next
  fix t result assume 4: "t_next t result s = Some s'"
  have "te_args s' = te_args s"
  proof -
    obtain th where th: "te_threads s t = Some th" using 4 by (auto simp: t_next_def split: option.splits)
    have "th_ok (te_fresh s) th" "\<forall>d \<in> ids (te_tasks s). d < te_fresh s" using i th by (simp_all add: te_ids_def)
    then show ?thesis using t_next_ids[OF 4 th] by (auto simp: stepped_def)
  qed
  then show ?thesis using te_excl_thread[OF e 4] by simp
qed

lemma te_excl_reach: "te_reach args s \<Longrightarrow> pa_numThreads args \<noteq> 0 \<Longrightarrow> te_excl s \<and> te_args s = args"
proof (induction rule: te_reach.induct)
  case reach_new
  then show ?case by (simp add: te_excl_def te_new_def)
next
  case (reach_step s s')
  then show ?case using te_excl_step te_ids_reach by blast
qed

text \<open>C20: In a pool, at most one thread is inside a task at a time.\<close>

theorem pool_exclusive:
  assumes "te_reach args s" "pa_numThreads args \<noteq> 0"
  shows "\<exists>u. {t. \<exists>th. te_threads s t = Some th \<and> active (th_pc th) \<and> th_data th = d} \<subseteq> {u}"
proof -
  have "t = u" if "te_threads s t = Some th" "active (th_pc th)" "th_data th = d"
    "te_threads s u = Some uh" "active (th_pc uh)" "th_data uh = d" for t u th uh
  proof -
    have "holds th d" "holds uh d" using that by (simp_all add: holds_def)
    then show ?thesis using te_excl_reach[OF assms] that(1,4) unfolding te_excl_def by meson
  qed
  then show ?thesis by blast
qed

section \<open>The size of a pool\<close>

definition pool_size :: "tenv \<Rightarrow> nat" where
  "pool_size s = min (pa_numThreads (te_args s))
     (case te_rpc s of RBump _ \<Rightarrow> length (te_tasks s) - 1 | RSpawn _ \<Rightarrow> length (te_tasks s) - 1
        | UBump _ _ \<Rightarrow> length (te_tasks s) + 1 | UJoin _ _ \<Rightarrow> length (te_tasks s) + 1 | _ \<Rightarrow> length (te_tasks s))"

definition te_sized :: "tenv \<Rightarrow> bool" where
  "te_sized s \<longleftrightarrow> length (te_pool s) = pool_size s
     \<and> ((\<exists>h. te_rpc s = RBump h \<or> te_rpc s = RSpawn h) \<longrightarrow> te_tasks s \<noteq> [])"

lemma smap_set_length: "smap_find k m = None \<Longrightarrow> length (smap_set k v m) = Suc (length m)"
  by (induction k v m rule: smap_set.induct) (auto split: if_splits)

lemma smap_erase_length: "smap_find k m = Some v \<Longrightarrow> Suc (length (smap_erase k m)) = length m"
  by (induction m) (auto split: if_splits)

lemma te_sized_step:
  assumes z: "te_sized s" and i: "te_ids s" and n: "pa_numThreads (te_args s) \<noteq> 0" and step: "te_step s s'"
  shows "te_sized s'"
  using step
proof (rule te_stepE)
  fix handle assume 1: "smap_find handle (te_tasks s) = None" "registerTask handle s = Some s'"
  have s': "te_tasks s' = smap_set handle (te_fresh s) (te_tasks s)" "te_pool s' = te_pool s" "te_args s' = te_args s" "te_rpc s' = RBump handle"
    "te_rpc s = RIdle" using 1(2) by (auto simp: registerTask_def split: if_splits)
  have "length (te_tasks s') = Suc (length (te_tasks s))" using smap_set_length[OF 1(1)] by (simp add: s')
  then show ?thesis using z s' by (auto simp: te_sized_def pool_size_def)
next
  fix handle assume 2: "unregisterTask handle s = Some s'"
  then obtain d where d: "smap_find handle (te_tasks s) = Some d" "te_rpc s = RIdle"
    and s': "s' = s\<lparr>te_tasks := smap_erase handle (te_tasks s), te_rpc := UBump handle d\<rparr>"
    by (auto simp: unregisterTask_def split: if_splits option.splits)
  then show ?thesis using z smap_erase_length[OF d(1)] by (auto simp: te_sized_def pool_size_def)
next
  assume 3: "r_next s = Some s'"
  show ?thesis using 3 by (cases rule: r_next_cases) (use z n in \<open>auto simp: te_sized_def pool_size_def min_def split: if_splits\<close>)
next
  fix t result assume 4: "t_next t result s = Some s'"
  obtain th where th: "te_threads s t = Some th" using 4 by (auto simp: t_next_def split: option.splits)
  have "th_ok (te_fresh s) th" "\<forall>d \<in> ids (te_tasks s). d < te_fresh s" using i th by (simp_all add: te_ids_def)
  then obtain th' where "stepped t th' s s'" using t_next_ids[OF 4 th] by blast
  then have eqs: "te_tasks s' = te_tasks s" "te_rpc s' = te_rpc s" "te_args s' = te_args s" "te_pool s' = te_pool s" by (simp_all add: stepped_def)
  show ?thesis using z unfolding te_sized_def pool_size_def eqs .
qed

lemma te_sized_reach: "te_reach args s \<Longrightarrow> pa_numThreads args \<noteq> 0 \<Longrightarrow> te_sized s"
proof (induction rule: te_reach.induct)
  case reach_new
  then show ?case by (simp add: te_sized_def pool_size_def te_new_def)
next
  case (reach_step s s')
  then show ?case using te_sized_step te_ids_reach te_excl_reach by metis
qed

text \<open>Between registrations a pool has as many threads as it may and as it has tasks for, whichever is less.\<close>

theorem pool_size_min:
  assumes "te_reach args s" "pa_numThreads args \<noteq> 0" "te_rpc s = RIdle"
  shows "length (te_pool s) = min (pa_numThreads args) (length (te_tasks s))"
  using te_sized_reach[OF assms(1,2)] te_excl_reach[OF assms(1,2)] assms(3) by (simp add: te_sized_def pool_size_def)

section \<open>Runs\<close>

datatype te_move = MRegister nat | MUnregister nat | MRegistrar | MThread nat bool

fun te_exec :: "te_move list \<Rightarrow> tenv \<Rightarrow> tenv option" where
  "te_exec [] s = Some s"
| "te_exec (m # ms) s =
     (case (case m of MRegister h \<Rightarrow> if smap_find h (te_tasks s) = None then registerTask h s else None
              | MUnregister h \<Rightarrow> unregisterTask h s
              | MRegistrar \<Rightarrow> r_next s
              | MThread t result \<Rightarrow> t_next t result s) of
        None \<Rightarrow> None
      | Some s \<Rightarrow> te_exec ms s)"

lemma te_exec_steps: "te_exec ms s = Some s' \<Longrightarrow> te_step\<^sup>*\<^sup>* s s'"
proof (induction ms arbitrary: s)
  case (Cons m ms)
  then obtain s1 where s1: "te_step s s1" "te_exec ms s1 = Some s'"
    by (cases m) (auto split: option.splits if_splits intro: te_step.intros)
  then show ?case using Cons.IH converse_rtranclp_into_rtranclp by metis
qed simp

lemma te_reach_steps: "te_step\<^sup>*\<^sup>* s s' \<Longrightarrow> te_reach args s \<Longrightarrow> te_reach args s'"
  by (induction rule: rtranclp_induct) (auto intro: te_reach.intros)

lemma te_exec_reach: "te_exec ms (te_new args) = Some s \<Longrightarrow> te_reach args s"
  using te_reach_steps[OF te_exec_steps] reach_new by blast

text \<open>Two tasks and two threads; thread 0 is inside task 7 with waiting not yet allowed.\<close>

definition demo_moves :: "te_move list" where
  "demo_moves = [MRegister 7, MRegistrar, MRegistrar, MRegister 8, MRegistrar, MRegistrar,
     MThread 0 True, MThread 0 True, MThread 0 True, MThread 0 True, MThread 0 True]"

definition demo_tenv :: tenv where
  "demo_tenv = the (te_exec demo_moves (te_new (pool_args 2)))"

lemmas te_eval = te_new_def pool_args_def registerTask_def unregisterTask_def r_next_def spawn_def thread_new_def t_next_def
  poolProcessLoop_def t_config_def upd_thread_def set_flag_def th_data_def data_unique_def thread_done_def others_def

lemma demo_exec: "te_exec demo_moves (te_new (pool_args 2)) = Some demo_tenv"
  by (simp add: demo_tenv_def demo_moves_def te_eval)

lemma demo_tenv_values: "te_rpc demo_tenv = RIdle" "length (te_tasks demo_tenv) = 2" "te_signature demo_tenv = 2"
  "\<exists>th. te_threads demo_tenv 0 = Some th \<and> th_pc th = PRun False \<and> th_signature th = 2 \<and> th_data th = 0"
  by (simp_all add: demo_tenv_def demo_moves_def te_eval)

theorem te_config_current_witness:
  "\<exists>th. te_threads demo_tenv 0 = Some th \<and> th_tasks th = te_tasks demo_tenv \<and> length (te_tasks demo_tenv) = 2"
proof -
  obtain th where th: "te_threads demo_tenv 0 = Some th" "th_pc th = PRun False" "th_signature th = 2" "th_data th = 0"
    using demo_tenv_values(4) by blast
  have "th_tasks th = te_tasks demo_tenv"
    by (rule te_config_current[OF te_exec_reach[OF demo_exec] th(1)]) (use th demo_tenv_values in \<open>simp_all add: pending_def\<close>)
  then show ?thesis using th demo_tenv_values(2) by blast
qed

theorem pool_exclusive_witness:
  "{t. \<exists>th. te_threads demo_tenv t = Some th \<and> active (th_pc th) \<and> th_data th = 0} = {0}"
proof -
  obtain u where u: "{t. \<exists>th. te_threads demo_tenv t = Some th \<and> active (th_pc th) \<and> th_data th = 0} \<subseteq> {u}"
    using pool_exclusive[OF te_exec_reach[OF demo_exec]] by (auto simp: pool_args_def)
  have "0 \<in> {t. \<exists>th. te_threads demo_tenv t = Some th \<and> active (th_pc th) \<and> th_data th = 0}"
    using demo_tenv_values(4) by (auto simp: active_def)
  then show ?thesis using u by blast
qed

theorem pool_size_min_witness: "length (te_pool demo_tenv) = 2"
  using pool_size_min[OF te_exec_reach[OF demo_exec]] demo_tenv_values by (simp add: pool_args_def)

text \<open>Thread 0 finishes task 7, which is unregistered; the pool shrinks, and thread 0 goes on with task 8.\<close>

definition leave_moves :: "te_move list" where
  "leave_moves = [MThread 0 False, MThread 0 False, MUnregister 7, MRegistrar, MThread 1 False, MThread 1 False, MThread 1 False,
     MThread 1 False, MRegistrar, MThread 0 False, MThread 0 False, MThread 0 False]"

definition demo_leaving :: tenv where
  "demo_leaving = the (te_exec leave_moves demo_tenv)"

definition demo_left :: tenv where
  "demo_left = the (r_next demo_leaving)"

definition demo_after :: tenv where
  "demo_after = the (te_exec [MThread 0 False, MThread 0 False] demo_left)"

lemma leave_exec: "te_exec leave_moves demo_tenv = Some demo_leaving" "te_rpc demo_leaving = UUnique 0"
  "r_next demo_leaving = Some demo_left" "te_exec [MThread 0 False, MThread 0 False] demo_left = Some demo_after"
  "\<exists>th. te_threads demo_after 0 = Some th \<and> active (th_pc th) \<and> th_data th = 1"
  by (simp_all add: demo_leaving_def leave_moves_def demo_left_def demo_after_def demo_tenv_def demo_moves_def te_eval
      active_def less_Suc_eq)

theorem unregistered_never_runs_witness: "\<exists>th. te_threads demo_after 0 = Some th \<and> active (th_pc th) \<and> th_data th \<noteq> 0"
proof -
  obtain th where th: "te_threads demo_after 0 = Some th" "active (th_pc th)" "th_data th = 1" using leave_exec(5) by blast
  have "te_reach (pool_args 2) demo_leaving" using te_reach_steps[OF te_exec_steps[OF leave_exec(1)] te_exec_reach[OF demo_exec]] .
  then have "th_data th \<noteq> 0"
    using unregistered_never_runs[OF _ leave_exec(2,3) te_exec_steps[OF leave_exec(4)] th(1,2)] by blast
  then show ?thesis using th by blast
qed

section \<open>Divergences\<close>

text \<open>A priority that is not a number passes the check of the range.\<close>

lemma nan_priority_accepted: "pool_make ((pool_args n)\<lparr>pa_priority := None\<rparr>) = Inr ((pool_args n)\<lparr>pa_priority := None\<rparr>)"
  by (simp add: pool_make_def pool_args_def)

end
