(* ===== verification/DigitalBlocks.thy ===== *)
theory DigitalBlocks
  imports Prelude
begin

unbundle bit_operations_syntax

text \<open>
  Blocks of pothos-blocks/digital: the linear feedback shift register (lfsr.h) with the scrambler and the
  descrambler, the differential encoder and decoder, the conversions between bits and symbols, bytes to
  symbols, and the preamble correlator. A call of \<open>work\<close> is a function of the block's state, the
  elements of the input buffer and the number of elements of the output buffer; it gives the new state,
  the number of consumed elements and the produced elements. Machine integers are words of their width;
  the shift of a signed value wraps.
\<close>

section \<open>Galois LFSR\<close>

record lfsr =
  lf_data :: "64 word"
  lf_polynomial :: "64 word"
  lf_mask :: "64 word"

fun GLFSR_mask :: "nat \<Rightarrow> 64 word \<Rightarrow> 64 word \<Rightarrow> 64 word \<Rightarrow> 64 word" where
  "GLFSR_mask 0 polynom seed_mask mask0 = mask0"
| "GLFSR_mask (Suc shift) polynom seed_mask mask0 =
     (if polynom AND seed_mask \<noteq> 0 then seed_mask
      else GLFSR_mask shift polynom (signed_drop_bit 1 seed_mask) mask0)"

definition GLFSR_init :: "lfsr \<Rightarrow> 64 word \<Rightarrow> 64 word \<Rightarrow> lfsr" where
  "GLFSR_init l polynom seed_value =
     l\<lparr>lf_polynomial := polynom OR 1, lf_data := seed_value, lf_mask := GLFSR_mask 63 polynom (push_bit 63 1) (lf_mask l)\<rparr>"

definition GLFSR_next :: "lfsr \<Rightarrow> 8 word \<times> lfsr" where
  "GLFSR_next l =
     (let d = push_bit 1 (lf_data l) in
      if d AND lf_mask l \<noteq> 0 then (1, l\<lparr>lf_data := d XOR lf_polynomial l\<rparr>) else (0, l\<lparr>lf_data := d\<rparr>))"

section \<open>Scrambler and descrambler\<close>

datatype scramble_mode = MODE_ADD | MODE_MULT

record scrambler =
  sc_lfsr :: lfsr
  sc_polynom :: "64 word"
  sc_seed_value :: "64 word"
  sc_mode :: scramble_mode
  sc_sync_word :: string
  sc_sync_bits :: "8 word list"

definition sc_setPoly :: "64 word \<Rightarrow> scrambler \<Rightarrow> scrambler" where
  "sc_setPoly p s = s\<lparr>sc_polynom := p, sc_lfsr := GLFSR_init (sc_lfsr s) p (sc_seed_value s)\<rparr>"

definition sc_setSeed :: "64 word \<Rightarrow> scrambler \<Rightarrow> scrambler" where
  "sc_setSeed v s = s\<lparr>sc_seed_value := v, sc_lfsr := GLFSR_init (sc_lfsr s) (sc_polynom s) v\<rparr>"

definition sc_setMode :: "string \<Rightarrow> scrambler \<Rightarrow> scrambler result" where
  "sc_setMode mode s =
     (if mode = ''additive'' then Inr (s\<lparr>sc_mode := MODE_ADD\<rparr>)
      else if mode = ''multiplicative'' then Inr (s\<lparr>sc_mode := MODE_MULT\<rparr>)
      else Inl InvalidArgumentException)"

definition sc_getMode :: "scrambler \<Rightarrow> string" where
  "sc_getMode s = (if sc_mode s = MODE_ADD then ''additive'' else ''multiplicative'')"

fun sync_bits :: "string \<Rightarrow> 8 word list \<Rightarrow> 8 word list \<times> pothos_error option" where
  "sync_bits [] bits = (bits, None)"
| "sync_bits (c # cs) bits =
     (if c = CHR ''0'' then sync_bits cs (bits @ [0])
      else if c = CHR ''1'' then sync_bits cs (bits @ [1])
      else (bits, Some RangeException))"

text \<open>The sync word is stored before it is checked.\<close>

definition sc_setSync :: "string \<Rightarrow> scrambler \<Rightarrow> scrambler \<times> pothos_error option" where
  "sc_setSync sync_word s =
     (let s = s\<lparr>sc_sync_word := sync_word\<rparr> in
      if length sync_word > 64 then (s, Some RangeException)
      else case sync_bits sync_word [] of (bits, e) \<Rightarrow> (s\<lparr>sc_sync_bits := bits\<rparr>, e))"

definition scrambler_new :: scrambler where
  "scrambler_new = sc_setPoly 0x19 \<lparr>sc_lfsr = \<lparr>lf_data = 0, lf_polynomial = 0, lf_mask = 0\<rparr>, sc_polynom = 1, sc_seed_value = 1,
     sc_mode = MODE_MULT, sc_sync_word = '''', sc_sync_bits = []\<rparr>"

text \<open>The additive step is the same for both blocks.\<close>

definition additive_bit_work :: "8 word \<Rightarrow> lfsr \<Rightarrow> 8 word \<times> lfsr" where
  "additive_bit_work i l = (case GLFSR_next l of (ret, l) \<Rightarrow> (i XOR ret, l))"

definition set_bit0 :: "8 word \<Rightarrow> lfsr \<Rightarrow> lfsr" where
  "set_bit0 b l = l\<lparr>lf_data := (lf_data l AND NOT 1) OR ucast b\<rparr>"

definition scr_multiplicative_bit_work :: "8 word \<Rightarrow> lfsr \<Rightarrow> 8 word \<times> lfsr" where
  "scr_multiplicative_bit_work i l = (case GLFSR_next l of (ret, l) \<Rightarrow> (i XOR ret, set_bit0 (i XOR ret) l))"

definition des_multiplicative_bit_work :: "8 word \<Rightarrow> lfsr \<Rightarrow> 8 word \<times> lfsr" where
  "des_multiplicative_bit_work i l = (case GLFSR_next l of (ret, l) \<Rightarrow> (i XOR ret, set_bit0 i l))"

text \<open>A loop over bytes that threads a state.\<close>

fun map_state :: "('a \<Rightarrow> 's \<Rightarrow> 'b \<times> 's) \<Rightarrow> 'a list \<Rightarrow> 's \<Rightarrow> 'b list \<times> 's" where
  "map_state f [] s = ([], s)"
| "map_state f (x # xs) s = (case f x s of (y, s) \<Rightarrow> (case map_state f xs s of (ys, s) \<Rightarrow> (y # ys, s)))"

definition scr_bit :: "scramble_mode \<Rightarrow> 8 word \<Rightarrow> lfsr \<Rightarrow> 8 word \<times> lfsr" where
  "scr_bit mode i = (case mode of MODE_ADD \<Rightarrow> additive_bit_work (i AND 1) | MODE_MULT \<Rightarrow> scr_multiplicative_bit_work (i AND 1))"

definition des_bit :: "scramble_mode \<Rightarrow> 8 word \<Rightarrow> lfsr \<Rightarrow> 8 word \<times> lfsr" where
  "des_bit mode i = (case mode of MODE_ADD \<Rightarrow> additive_bit_work (i AND 1) | MODE_MULT \<Rightarrow> des_multiplicative_bit_work (i AND 1))"

definition scrambler_work :: "8 word list \<Rightarrow> nat \<Rightarrow> scrambler \<Rightarrow> scrambler \<times> nat \<times> 8 word list" where
  "scrambler_work inp outElements s =
     (let n = min (length inp) outElements in
      case map_state (scr_bit (sc_mode s)) (take n inp) (sc_lfsr s) of (out, l) \<Rightarrow> (s\<lparr>sc_lfsr := l\<rparr>, n, out))"

definition descrambler_work :: "8 word list \<Rightarrow> nat \<Rightarrow> scrambler \<Rightarrow> scrambler \<times> nat \<times> 8 word list" where
  "descrambler_work inp outElements s =
     (let n = min (length inp) outElements in
      case map_state (des_bit (sc_mode s)) (take n inp) (sc_lfsr s) of (out, l) \<Rightarrow> (s\<lparr>sc_lfsr := l\<rparr>, n, out))"

section \<open>Differential coding\<close>

text \<open>The sums are of type \<open>uint32_t\<close>; a remainder by zero is undefined.\<close>

record differential =
  df_last :: "8 word"
  df_symbols :: "32 word"

definition differential_new :: differential where
  "differential_new = \<lparr>df_last = 0, df_symbols = 2\<rparr>"

definition df_setSymbols :: "usize \<Rightarrow> differential \<Rightarrow> differential" where
  "df_setSymbols n s = s\<lparr>df_symbols := of_nat n\<rparr>"

definition enc_step :: "32 word \<Rightarrow> 8 word \<Rightarrow> 8 word \<Rightarrow> 8 word \<times> 8 word" where
  "enc_step symbols b lastSent = (let r = ucast ((ucast b + ucast lastSent + symbols) mod symbols) in (r, r))"

definition dec_step :: "32 word \<Rightarrow> 8 word \<Rightarrow> 8 word \<Rightarrow> 8 word \<times> 8 word" where
  "dec_step symbols b lastRecv = (ucast ((ucast b - ucast lastRecv + symbols) mod symbols), b)"

definition df_work :: "(32 word \<Rightarrow> 8 word \<Rightarrow> 8 word \<Rightarrow> 8 word \<times> 8 word) \<Rightarrow> 8 word list \<Rightarrow> nat \<Rightarrow> differential
    \<Rightarrow> (differential \<times> nat \<times> 8 word list) option" where
  "df_work step inBuff outElements s =
     (if length inBuff = 0 then Some (s, 0, [])
      else let len = unat (of_nat (min (length inBuff) outElements) :: 32 word) in
        if len > 0 \<and> df_symbols s = 0 then None
        else case map_state (step (df_symbols s)) (take len inBuff) (df_last s) of
          (out, l) \<Rightarrow> Some (s\<lparr>df_last := l\<rparr>, len, out))"

definition encoder_work :: "8 word list \<Rightarrow> nat \<Rightarrow> differential \<Rightarrow> (differential \<times> nat \<times> 8 word list) option" where
  "encoder_work = df_work enc_step"

definition decoder_work :: "8 word list \<Rightarrow> nat \<Rightarrow> differential \<Rightarrow> (differential \<times> nat \<times> 8 word list) option" where
  "decoder_work = df_work dec_step"

section \<open>Loops with a state\<close>

lemma map_state_append:
  "map_state f (xs @ ys) s = (case map_state f xs s of (as, t) \<Rightarrow> (case map_state f ys t of (bs, u) \<Rightarrow> (as @ bs, u)))"
  by (induction xs arbitrary: s) (auto split: prod.splits)

lemma map_state_length: "length (fst (map_state f xs s)) = length xs"
proof (induction xs arbitrary: s)
  case (Cons x xs)
  show ?case using Cons.IH[of "snd (f x s)"] by (simp add: split_beta)
qed simp

text \<open>A step with an inverse step on the same state is inverted along the whole list.\<close>

lemma map_state_inverse:
  assumes "\<And>x s y t. P s \<Longrightarrow> f x s = (y, t) \<Longrightarrow> g y s = (h x, t) \<and> P t" and "P s" "map_state f xs s = (ys, t)"
  shows "map_state g ys s = (map h xs, t)"
  using assms(2,3)
proof (induction xs arbitrary: s ys)
  case (Cons x xs)
  obtain y u where f: "f x s = (y, u)" by fastforce
  obtain zs v where m: "map_state f xs u = (zs, v)" by fastforce
  have "ys = y # zs" "t = v" using Cons.prems(2) f m by simp_all
  then show ?case using assms(1)[OF Cons.prems(1) f] Cons.IH[of u zs] m by auto
qed simp

section \<open>The register\<close>

text \<open>The seed mask is a signed 64-bit value, so shifting it right keeps its sign bit: the mask that \<open>GLFSR_init\<close>
  leaves for a polynomial of degree \<open>k\<close> has every bit from \<open>k\<close> up.\<close>

lemma signed_shift_mask: "j < 63 \<Longrightarrow> signed_drop_bit 1 (NOT (mask (Suc j)) :: 64 word) = NOT (mask j)"
  by (rule bit_word_eqI) (auto simp: bit_signed_drop_bit_iff bit_not_iff bit_mask_iff)

lemma sc_mode_new: "sc_mode scrambler_new = MODE_MULT"
  by (simp add: scrambler_new_def sc_setPoly_def)

definition degree_at :: "64 word \<Rightarrow> nat \<Rightarrow> bool" where
  "degree_at p k = (1 \<le> k \<and> k < 64 \<and> bit p k \<and> drop_bit (Suc k) p = 0)"

lemma degree_above: "degree_at p k \<Longrightarrow> k < i \<Longrightarrow> \<not> bit p i"
proof -
  assume d: "degree_at p k" and i: "k < i"
  have "bit (drop_bit (Suc k) p) (i - Suc k) = bit p i" using i by (simp add: bit_drop_bit_eq)
  then show ?thesis using d by (simp add: degree_at_def)
qed

lemma GLFSR_mask_degree:
  assumes "degree_at p k" "k \<le> n" "n < 64"
  shows "GLFSR_mask n p (NOT (mask n)) m0 = NOT (mask k)"
  using assms(2,3)
proof (induction n)
  case 0
  then show ?case using assms(1) by (simp add: degree_at_def)
next
  case (Suc n)
  show ?case
  proof (cases "k = Suc n")
    case True
    have "bit (p AND NOT (mask k)) k" using assms(1) by (simp add: bit_and_iff bit_not_iff bit_mask_iff degree_at_def)
    then have "p AND NOT (mask (Suc n)) \<noteq> 0" using True by auto
    then show ?thesis using True by simp
  next
    case False
    have above: "\<not> bit p i" if "Suc n \<le> i" for i using degree_above[OF assms(1), of i] False Suc.prems that by simp
    have "p AND NOT (mask (Suc n)) = 0"
      by (rule bit_word_eqI) (use above in \<open>auto simp: bit_and_iff bit_not_iff bit_mask_iff not_less\<close>)
    then show ?thesis using Suc False signed_shift_mask[of n] by simp
  qed
qed

lemma GLFSR_init_mask: "degree_at p k \<Longrightarrow> lf_mask (GLFSR_init l p v) = NOT (mask k)"
proof -
  assume d: "degree_at p k"
  have e: "push_bit 63 1 = (NOT (mask 63) :: 64 word)" by code_simp
  have "GLFSR_mask 63 p (push_bit 63 1) (lf_mask l) = NOT (mask k)"
    unfolding e by (rule GLFSR_mask_degree[OF d]) (use d in \<open>simp_all add: degree_at_def\<close>)
  then show ?thesis unfolding GLFSR_init_def by simp
qed

lemma sc_lfsr_new: "sc_lfsr scrambler_new = \<lparr>lf_data = 1, lf_polynomial = 0x19, lf_mask = 0xFFFFFFFFFFFFFFF0\<rparr>"
proof -
  have d: "degree_at 0x19 4" by (simp add: degree_at_def)
  have b: "NOT (mask 4) = (0xFFFFFFFFFFFFFFF0 :: 64 word)" by code_simp
  show ?thesis using GLFSR_init_mask[OF d, of "\<lparr>lf_data = 0, lf_polynomial = 0, lf_mask = 0\<rparr>" 1, unfolded b]
    by (simp add: scrambler_new_def sc_setPoly_def GLFSR_init_def)
qed

section \<open>Scrambling and descrambling\<close>

lemma next_ret: "fst (GLFSR_next l) = 0 \<or> fst (GLFSR_next l) = 1"
  by (simp add: GLFSR_next_def Let_def)

lemma bit_cases: "(b :: 8 word) AND 1 = 0 \<or> b AND 1 = 1"
  by (simp add: and_one_eq mod_2_eq_odd)

lemma descramble_bit: "scr_bit mode i l = (y, m) \<Longrightarrow> des_bit mode y l = (i AND 1, m)"
proof (cases "GLFSR_next l")
  case (Pair ret k)
  assume "scr_bit mode i l = (y, m)"
  moreover have "ret = 0 \<or> ret = 1" using next_ret[of l] Pair by simp
  ultimately show ?thesis using Pair bit_cases[of i]
    by (cases mode) (auto simp: scr_bit_def des_bit_def additive_bit_work_def scr_multiplicative_bit_work_def des_multiplicative_bit_work_def)
qed

text \<open>C40: A descrambler in the state in which the scrambler was recovers from its output the low bit of every input
  element, in both modes, and ends in the scrambler's state.\<close>

theorem descramble_scramble:
  assumes "scrambler_work inp outElements s = (s', n, out)"
  shows "descrambler_work out (length out) s = (s', n, map (\<lambda>b. b AND 1) (take n inp))"
proof -
  obtain ys l where m: "map_state (scr_bit (sc_mode s)) (take (min (length inp) outElements) inp) (sc_lfsr s) = (ys, l)" by fastforce
  have n: "n = min (length inp) outElements" "out = ys" "s' = s\<lparr>sc_lfsr := l\<rparr>" using assms m by (auto simp: scrambler_work_def Let_def)
  have len: "length ys = n" using map_state_length[of "scr_bit (sc_mode s)" "take (min (length inp) outElements) inp" "sc_lfsr s"] m n by simp
  have "map_state (des_bit (sc_mode s)) ys (sc_lfsr s) = (map (\<lambda>b. b AND 1) (take n inp), l)"
    by (rule map_state_inverse[where P = "\<lambda>_. True", OF _ _ m[folded n(1)]]) (use descramble_bit in auto)
  then show ?thesis using n len by (simp add: descrambler_work_def Let_def)
qed


theorem descramble_scramble_witness:
  "descrambler_work [1, 0, 1] 3 scrambler_new =
     (fst (scrambler_work [1, 0, 1, 1] 3 scrambler_new), 3, map (\<lambda>b. b AND 1) (take 3 [1, 0, 1, 1]))"
proof -
  have e: "scrambler_work [1, 0, 1, 1] 3 scrambler_new = (fst (scrambler_work [1, 0, 1, 1] 3 scrambler_new), 3, [1, 0, 1])"
    by (simp add: scrambler_work_def sc_lfsr_new sc_mode_new scr_bit_def scr_multiplicative_bit_work_def GLFSR_next_def set_bit0_def
      eval_nat_numeral Let_def)
  show ?thesis using descramble_scramble[OF e] by (simp add: eval_nat_numeral)
qed


text \<open>The documentation of the block calls the mode a multiplicative scrambler, whose descrambler finds the state of the
  scrambler from the received bits. With the default polynomial this descrambler does not: two registers that differ
  in the bit 3 go on to differ in it for ever, and disagree on every output.\<close>

definition off_by_bit3 :: "lfsr \<Rightarrow> lfsr \<Rightarrow> bool" where
  "off_by_bit3 l k = (lf_mask l = 0xFFFFFFFFFFFFFFF0 \<and> lf_polynomial l = 0x19 \<and> unat (lf_data l) < 16 \<and>
     k = l\<lparr>lf_data := lf_data l XOR 8\<rparr>)"

lemma small_word_cases: "unat (w :: 64 word) < 16 \<Longrightarrow> w \<in> set (map word_of_nat [0..<16])"
  by (auto intro!: image_eqI[of _ _ "unat w"])

definition reg19 :: "64 word \<Rightarrow> lfsr" where
  "reg19 d = \<lparr>lf_data = d, lf_polynomial = 0x19, lf_mask = 0xFFFFFFFFFFFFFFF0\<rparr>"

definition differs :: "64 word \<Rightarrow> bool" where
  "differs d = (case (GLFSR_next (reg19 d), GLFSR_next (reg19 (d XOR 8))) of ((r, l), (q, k)) \<Rightarrow>
     q = r XOR 1 \<and> l = reg19 (lf_data l) \<and> k = reg19 (lf_data k) \<and>
     list_all (\<lambda>b. lf_data (set_bit0 b k) = lf_data (set_bit0 b l) XOR 8 \<and> unat (lf_data (set_bit0 b l)) < 16) [0, 1])"

lemma differs_small: "unat d < 16 \<Longrightarrow> differs d"
proof -
  have "list_all differs (map word_of_nat [0..<16])"
    by (simp add: differs_def reg19_def GLFSR_next_def set_bit0_def Let_def upt_rec)
  then show "unat d < 16 \<Longrightarrow> differs d" using small_word_cases by (auto simp: list_all_iff)
qed

lemma off_by_bit3_reg: "off_by_bit3 l k \<longleftrightarrow> (\<exists>d. unat d < 16 \<and> l = reg19 d \<and> k = reg19 (d XOR 8))"
  by (cases l) (auto simp: off_by_bit3_def reg19_def)

lemma set_bit0_reg: "set_bit0 b (reg19 d) = reg19 (lf_data (set_bit0 b (reg19 d)))"
  by (simp add: set_bit0_def reg19_def)

lemma des_bit_off:
  assumes "off_by_bit3 l k" "des_bit MODE_MULT i l = (y, l')"
  shows "\<exists>k'. des_bit MODE_MULT i k = (y XOR 1, k') \<and> off_by_bit3 l' k'"
proof -
  obtain d where d: "unat d < 16" "l = reg19 d" "k = reg19 (d XOR 8)" using assms(1) off_by_bit3_reg by blast
  obtain r l1 q k1 where n: "GLFSR_next l = (r, l1)" "GLFSR_next k = (q, k1)" by fastforce
  let ?b = "i AND 1"
  have t: "q = r XOR 1" "l1 = reg19 (lf_data l1)" "k1 = reg19 (lf_data k1)"
    "lf_data (set_bit0 ?b k1) = lf_data (set_bit0 ?b l1) XOR 8" "unat (lf_data (set_bit0 ?b l1)) < 16"
    using differs_small[OF d(1)] n bit_cases[of i] unfolding d(2,3) differs_def by auto
  have "y = ?b XOR r" "l' = set_bit0 ?b l1" "des_bit MODE_MULT i k = (?b XOR q, set_bit0 ?b k1)"
    using assms(2) n by (auto simp: des_bit_def des_multiplicative_bit_work_def)
  moreover have "off_by_bit3 (set_bit0 ?b l1) (set_bit0 ?b k1)"
    unfolding off_by_bit3_reg by (rule exI[of _ "lf_data (set_bit0 ?b l1)"]) (metis set_bit0_reg t(2-5))
  ultimately show ?thesis using t(1) by (simp add: xor.assoc)
qed

lemma never_synchronises:
  assumes "off_by_bit3 l k" "map_state (des_bit MODE_MULT) xs l = (ys, l')"
  shows "fst (map_state (des_bit MODE_MULT) xs k) = map (\<lambda>y. y XOR 1) ys"
  using assms
proof (induction xs arbitrary: l k ys)
  case (Cons x xs)
  obtain y u where f: "des_bit MODE_MULT x l = (y, u)" by fastforce
  obtain k' where k: "des_bit MODE_MULT x k = (y XOR 1, k')" "off_by_bit3 u k'" using des_bit_off[OF Cons.prems(1) f] by auto
  obtain zs v where m: "map_state (des_bit MODE_MULT) xs u = (zs, v)" by fastforce
  have e: "ys = y # zs" "v = l'" using Cons.prems(2) f m by simp_all
  show ?case using Cons.IH[OF k(2) m[unfolded e(2)]] k(1) e(1) by (simp add: split_beta)
qed simp

section \<open>Differential coding\<close>

lemma byte_less: "unat (b :: 8 word) < 256"
proof -
  have "unat b < 2 ^ LENGTH(8)" by (rule unsigned_less)
  then show ?thesis by simp
qed

lemma unat_wide: "unat (ucast (b :: 8 word) :: 32 word) = unat b"
proof -
  have "unat b < 2 ^ 32" using byte_less[of b] by simp
  then show ?thesis by (simp add: unsigned_ucast_eq take_bit_nat_eq_self)
qed

lemma unat_word32: "m < 2 ^ 32 \<Longrightarrow> unat (word_of_nat m :: 32 word) = m"
  by (simp add: unsigned_of_nat take_bit_nat_eq_self)

lemma unat_word32_less: "unat (w :: 32 word) < 2 ^ 32"
proof -
  have "unat w < 2 ^ LENGTH(32)" by (rule unsigned_less)
  then show ?thesis by simp
qed

lemma unat_word32_le: "unat (word_of_nat m :: 32 word) \<le> m"
  by (simp add: unsigned_of_nat)

lemma enc_value:
  assumes "0 < unat symbols" "unat symbols \<le> 256"
  shows "unat (fst (enc_step symbols b l)) = (unat b + unat l) mod unat symbols"
proof -
  have b: "unat b < 256" "unat l < 256" using byte_less by simp_all
  have e: "unat (ucast b + ucast l + symbols) = unat b + unat l + unat symbols" using b assms by (simp add: unat_word_ariths unat_wide)
  have "(unat b + unat l + unat symbols) mod unat symbols < 256" using assms by (meson le_trans less_le_trans mod_less_divisor)
  then show ?thesis unfolding enc_step_def Let_def by (simp add: unsigned_ucast_eq unat_mod_distrib e take_bit_nat_eq_self)
qed

lemma dec_value:
  assumes "0 < unat symbols" "unat symbols \<le> 256" "unat l < unat symbols"
  shows "unat (fst (dec_step symbols b l)) = (unat b + unat symbols - unat l) mod unat symbols"
proof -
  have b: "unat b < 256" "unat l < 256" using byte_less by simp_all
  have c: "(ucast b - ucast l + symbols :: 32 word) = of_nat (unat b + unat symbols - unat l)"
    using assms(3) by (simp add: of_nat_diff algebra_simps)
  have e: "unat (ucast b - ucast l + symbols) = unat b + unat symbols - unat l"
    unfolding c by (rule unat_word32) (use b assms in simp)
  have "(unat b + unat symbols - unat l) mod unat symbols < 256" using assms by (meson le_trans less_le_trans mod_less_divisor)
  then show ?thesis unfolding dec_step_def by (simp add: unsigned_ucast_eq unat_mod_distrib e take_bit_nat_eq_self)
qed

lemma dec_enc:
  assumes "0 < unat symbols" "unat symbols \<le> 256" "unat l < unat symbols" "enc_step symbols b l = (y, t)"
  shows "dec_step symbols y l = (word_of_nat (unat b mod unat symbols), t) \<and> unat t < unat symbols"
proof -
  have y: "t = y" "unat y = (unat b + unat l) mod unat symbols"
    using assms(4) enc_value[OF assms(1,2), of b l] by (auto simp: enc_step_def Let_def)
  have s: "unat y < unat symbols" using y(2) assms(1) by simp
  have "(unat y + unat symbols - unat l) mod unat symbols = unat b mod unat symbols"
  proof -
    have "(unat y + (unat symbols - unat l)) mod unat symbols = (unat b + unat l + (unat symbols - unat l)) mod unat symbols"
      unfolding y(2) by (rule mod_add_left_eq)
    then show ?thesis using assms(3) by simp
  qed
  then have v: "unat (fst (dec_step symbols y l)) = unat b mod unat symbols" using dec_value[OF assms(1-3), of y] by simp
  have "fst (dec_step symbols y l) = word_of_nat (unat b mod unat symbols)" unfolding v[symmetric] by simp
  moreover have "snd (dec_step symbols y l) = t" using y(1) by (simp add: dec_step_def)
  ultimately show ?thesis using s y(1) by (metis prod.collapse)
qed


text \<open>With between 1 and 256 symbols, the differential decoder in the encoder's state recovers every input symbol, reduced
  modulo the number of symbols, and the two blocks end in the same state.\<close>

theorem decode_encode:
  assumes "0 < unat (df_symbols s)" "unat (df_symbols s) \<le> 256" "unat (df_last s) < unat (df_symbols s)"
    and "encoder_work inp outElements s = Some (s', n, out)"
  shows "decoder_work out (length out) s = Some (s', n, map (\<lambda>b. word_of_nat (unat b mod unat (df_symbols s))) (take n inp))"
proof (cases "n = 0")
  case True
  then have "out = []" "s' = s"
    using assms(4) map_state_length[of "enc_step (df_symbols s)" "take 0 inp" "df_last s"]
    by (auto simp: encoder_work_def df_work_def Let_def split: if_splits prod.splits)
  then show ?thesis using True by (simp add: decoder_work_def df_work_def)
next
  case False
  obtain ys l where m: "map_state (enc_step (df_symbols s)) (take n inp) (df_last s) = (ys, l)" by fastforce
  have n: "n = unat (of_nat (min (length inp) outElements) :: 32 word)" "out = ys" "s' = s\<lparr>df_last := l\<rparr>"
    using assms(4) m False by (auto simp: encoder_work_def df_work_def Let_def split: if_splits prod.splits)
  have le: "n \<le> min (length inp) outElements" unfolding n(1) by (rule unat_word32_le)
  have n32: "n < 2 ^ 32" unfolding n(1) by (rule unat_word32_less)
  have len: "length ys = n" using map_state_length[of "enc_step (df_symbols s)" "take n inp" "df_last s"] m le by simp
  have "map_state (dec_step (df_symbols s)) ys (df_last s) = (map (\<lambda>b. word_of_nat (unat b mod unat (df_symbols s))) (take n inp), l)"
    by (rule map_state_inverse[where P = "\<lambda>l. unat l < unat (df_symbols s)", OF dec_enc[OF assms(1,2)] assms(3) m])
  moreover have "decoder_work out (length out) s =
      (case map_state (dec_step (df_symbols s)) (take n out) (df_last s) of (out, l) \<Rightarrow> Some (s\<lparr>df_last := l\<rparr>, n, out))"
  proof -
    have len': "length out = n" using n(2) len by simp
    have L: "unat (of_nat (min (length out) (length out)) :: 32 word) = n" unfolding len' min.idem by (rule unat_word32[OF n32])
    have "df_symbols s \<noteq> 0" using assms(1) by auto
    then show ?thesis unfolding decoder_work_def df_work_def Let_def L using False len' by auto
  qed
  ultimately show ?thesis unfolding n(2,3) using len by simp
qed

theorem decode_encode_witness:
  "decoder_work [3, 0, 3] 3 \<lparr>df_last = 0, df_symbols = 4\<rparr> = Some (\<lparr>df_last = 3, df_symbols = 4\<rparr>, 3, [3, 1, 3])"
proof -
  have "encoder_work [7, 1, 3] 3 \<lparr>df_last = 0, df_symbols = 4\<rparr> = Some (\<lparr>df_last = 3, df_symbols = 4\<rparr>, 3, [3, 0, 3])"
    by (simp add: encoder_work_def df_work_def enc_step_def Let_def)
  from decode_encode[OF _ _ _ this] show ?thesis by (simp flip: numeral_3_eq_3)
qed

end
