(* ===== verification/SymbolBlocks.thy ===== *)
theory SymbolBlocks
  imports DigitalBlocks
begin

unbundle bit_operations_syntax

text \<open>
  The symbol blocks of pothos-blocks/digital: bits to symbols and symbols to bits, bytes to symbols, the symbol mapper
  and the symbol slicer, and the preamble correlator. The inner loops run over a mask or a bit count as in the code; a
  read past the end of the input buffer, or a loop that does not return, is the value None. A conversion of bits gives
  the whole list of produced elements, so that writing more of them than the output buffer holds is visible.
\<close>

section \<open>Bits and symbols\<close>

record bit_conv =
  bv_msbFirst :: bool
  bv_symbolsMask :: "8 word"
  bv_bitsPerSymbol :: "8 word"

definition bv_new :: bit_conv where
  "bv_new = \<lparr>bv_msbFirst = True, bv_symbolsMask = 0x01, bv_bitsPerSymbol = 1\<rparr>"

definition bv_setSymbols :: "usize \<Rightarrow> bit_conv \<Rightarrow> bit_conv" where
  "bv_setSymbols symbols c =
     (if symbols = 2 then c\<lparr>bv_symbolsMask := 0x01, bv_bitsPerSymbol := 1\<rparr>
      else if symbols = 4 then c\<lparr>bv_symbolsMask := 0x03, bv_bitsPerSymbol := 2\<rparr>
      else if symbols = 8 then c\<lparr>bv_symbolsMask := 0x07, bv_bitsPerSymbol := 3\<rparr>
      else if symbols = 16 then c\<lparr>bv_symbolsMask := 0x0f, bv_bitsPerSymbol := 4\<rparr>
      else if symbols = 32 then c\<lparr>bv_symbolsMask := 0x1f, bv_bitsPerSymbol := 5\<rparr>
      else if symbols = 64 then c\<lparr>bv_symbolsMask := 0x3f, bv_bitsPerSymbol := 6\<rparr>
      else if symbols = 128 then c\<lparr>bv_symbolsMask := 0x7f, bv_bitsPerSymbol := 7\<rparr>
      else if symbols = 256 then c\<lparr>bv_symbolsMask := 0xff, bv_bitsPerSymbol := 8\<rparr>
      else c)"

definition bv_setEndianness :: "string \<Rightarrow> bit_conv \<Rightarrow> bit_conv" where
  "bv_setEndianness type c = c\<lparr>bv_msbFirst := (type \<noteq> ''LSB'')\<rparr>"

definition shift_once :: "bool \<Rightarrow> 8 word \<Rightarrow> 8 word" where
  "shift_once msbFirst symbol = (if msbFirst then push_bit 1 symbol else drop_bit 1 symbol)"

lemma shift_mask_less: "m \<noteq> (0 :: 8 word) \<Longrightarrow> unat (drop_bit (Suc 0) m) < unat m"
proof -
  assume "m \<noteq> 0"
  then have "0 < unat m" by (simp add: unat_gt_0)
  moreover have "unat (drop_bit (Suc 0) m) = unat m div 2" by (simp add: drop_bit_eq_div unat_div_distrib)
  ultimately show ?thesis by simp
qed

function pack_symbol :: "bool \<Rightarrow> 8 word \<Rightarrow> 8 word \<Rightarrow> 8 word list \<Rightarrow> 8 word \<Rightarrow> (8 word \<times> 8 word list) option" where
  "pack_symbol msbFirst sampleBit m inBytes symbol =
     (if m = 0 then Some (symbol, inBytes)
      else case inBytes of
        [] \<Rightarrow> None
      | b # bs \<Rightarrow> pack_symbol msbFirst sampleBit (drop_bit 1 m) bs
                   (shift_once msbFirst symbol OR (if b \<noteq> 0 then sampleBit else 0)))"
  by auto
termination
  by (relation "measure (\<lambda>(_, _, m, _, _). unat m)") (simp_all add: shift_mask_less)

function unpack_symbol :: "bool \<Rightarrow> 8 word \<Rightarrow> 8 word \<Rightarrow> 8 word \<Rightarrow> 8 word list" where
  "unpack_symbol msbFirst sampleBit m symbol =
     (if m = 0 then []
      else (if sampleBit AND symbol \<noteq> 0 then 1 else 0) #
           unpack_symbol msbFirst sampleBit (drop_bit 1 m) (shift_once msbFirst symbol))"
  by auto
termination
  by (relation "measure (\<lambda>(_, _, m, _). unat m)") (simp_all add: shift_mask_less)

declare pack_symbol.simps [simp del] unpack_symbol.simps [simp del]

fun pack_symbols :: "nat \<Rightarrow> bool \<Rightarrow> 8 word \<Rightarrow> 8 word \<Rightarrow> 8 word list \<Rightarrow> (8 word list) option" where
  "pack_symbols 0 msbFirst sampleBit m inBytes = Some []"
| "pack_symbols (Suc n) msbFirst sampleBit m inBytes =
     (case pack_symbol msbFirst sampleBit m inBytes 0 of
        None \<Rightarrow> None
      | Some (symbol, inBytes) \<Rightarrow> map_option ((#) symbol) (pack_symbols n msbFirst sampleBit m inBytes))"

text \<open>The stream part of \<open>work\<close>; the counts are of type \<open>uint32_t\<close>.\<close>

definition bits_to_symbols :: "8 word list \<Rightarrow> nat \<Rightarrow> bit_conv \<Rightarrow> (nat \<times> 8 word list) option" where
  "bits_to_symbols inBuff outElements c =
     (if length inBuff = 0 then Some (0, [])
      else let bps = unat (bv_bitsPerSymbol c);
               symLen = unat (of_nat (min (length inBuff div bps) outElements) :: 32 word);
               sampleBit = (if bv_msbFirst c then 1 else push_bit (bps - 1) 1)
           in map_option (Pair (symLen * bps)) (pack_symbols symLen (bv_msbFirst c) sampleBit (bv_symbolsMask c) inBuff))"

text \<open>The message part: a packet payload is converted as a whole.\<close>

definition bits_to_symbols_payload :: "8 word list \<Rightarrow> bit_conv \<Rightarrow> 8 word list option" where
  "bits_to_symbols_payload payload c =
     (let bps = unat (bv_bitsPerSymbol c); symLen = length payload div bps;
          sampleBit = (if bv_msbFirst c then 1 else push_bit (bps - 1) 1)
      in pack_symbols symLen (bv_msbFirst c) sampleBit (bv_symbolsMask c) payload)"

definition symbols_to_bits :: "8 word list \<Rightarrow> nat \<Rightarrow> bit_conv \<Rightarrow> nat \<times> 8 word list" where
  "symbols_to_bits inBuff outElements c =
     (if length inBuff = 0 then (0, [])
      else let bps = unat (bv_bitsPerSymbol c);
               symLen = unat (of_nat (min (length inBuff) (outElements div bps)) :: 32 word);
               sampleBit = (if bv_msbFirst c then push_bit (bps - 1) 1 else 1)
           in (symLen, concat (map (unpack_symbol (bv_msbFirst c) sampleBit (bv_symbolsMask c)) (take symLen inBuff))))"

section \<open>Symbol mapper and slicer\<close>

text \<open>The element type is a parameter. \<open>log2\<close> of the size is integral exactly for a power of two.\<close>

record 'a mapper =
  mp_map :: "'a list"
  mp_nbits :: nat
  mp_mask :: "8 word"

fun log2_exact :: "nat \<Rightarrow> nat \<Rightarrow> nat option" where
  "log2_exact 0 n = None"
| "log2_exact (Suc fuel) n = (if n = 1 then Some 0 else if even n then map_option Suc (log2_exact fuel (n div 2)) else None)"

definition mapper_setMap :: "'a list \<Rightarrow> 'a mapper \<Rightarrow> 'a mapper result" where
  "mapper_setMap mp s =
     (if length mp = 0 then Inl InvalidArgumentException
      else case log2_exact (length mp) (length mp) of
        None \<Rightarrow> Inl InvalidArgumentException
      | Some nbits \<Rightarrow> Inr (s\<lparr>mp_map := mp, mp_nbits := nbits, mp_mask := of_int (2 ^ nbits - 1)\<rparr>))"

definition mapper_work :: "8 word list \<Rightarrow> nat \<Rightarrow> 'a mapper \<Rightarrow> nat \<times> 'a list" where
  "mapper_work inp outElements s =
     (let N = unat (of_nat (min (length inp) outElements) :: 32 word) in
      (N, map (\<lambda>b. mp_map s ! unat (b AND mp_mask s)) (take N inp)))"

definition slicer_setMap :: "'a list \<Rightarrow> 'a list result" where
  "slicer_setMap mp = (if length mp = 0 then Inl InvalidArgumentException else Inr mp)"

text \<open>The distance and the largest float are parameters of the model; the code compares with \<open><\<close>.\<close>

fun slice_scan :: "('a \<Rightarrow> 'a \<Rightarrow> 'f::linorder) \<Rightarrow> 'a \<Rightarrow> nat \<Rightarrow> 'a list \<Rightarrow> 8 word \<times> 'f \<Rightarrow> 8 word \<times> 'f" where
  "slice_scan dist x j [] mindist = mindist"
| "slice_scan dist x j (p # ps) mindist =
     slice_scan dist x (Suc j) ps (if dist x p < snd mindist then (of_nat j, dist x p) else mindist)"

definition slicer_work :: "('a \<Rightarrow> 'a \<Rightarrow> 'f::linorder) \<Rightarrow> 'f \<Rightarrow> 'a list \<Rightarrow> nat \<Rightarrow> 'a list \<Rightarrow> nat \<times> 8 word list" where
  "slicer_work dist flt_max inp outElements mp =
     (let N = unat (of_nat (min (length inp) outElements) :: 32 word) in
      (N, map (\<lambda>x. fst (slice_scan dist x 0 mp (0, flt_max))) (take N inp)))"


section \<open>Bits of symbols\<close>

lemma mask_shift: "drop_bit 1 (mask (Suc k) :: 8 word) = mask k" if "k < 8"
  by (rule bit_word_eqI) (use that in \<open>auto simp: bit_drop_bit_eq bit_mask_iff\<close>)

lemma mask_not_zero: "mask (Suc k) \<noteq> (0 :: 8 word)"
  by (simp add: mask_eq_0_iff)

lemma bit_step_msb:
  "i < 8 \<Longrightarrow> bit (shift_once True s OR (if b \<noteq> 0 then 1 else 0)) i = (if i = 0 then b \<noteq> 0 else bit s (i - 1))"
  by (cases i) (auto simp only: shift_once_def bit_or_iff bit_push_bit_iff bit_1_iff possible_bit_word if_True not_one_le_zero
      split: if_splits, simp_all)

lemma bit_step_lsb:
  "i < 8 \<Longrightarrow> 0 < k \<Longrightarrow> bit (shift_once False s OR (if b \<noteq> 0 then push_bit (k - 1) 1 else 0)) i = (bit s (Suc i) \<or> (i = k - 1 \<and> b \<noteq> 0))"
  by (auto simp only: shift_once_def bit_or_iff bit_push_bit_iff bit_1_iff bit_drop_bit_eq comp_def possible_bit_word if_False split: if_splits, simp_all)

text \<open>A packed symbol of a block of \<open>k\<close> bits.\<close>

lemma pack_msb:
  "k \<le> 8 \<Longrightarrow> k \<le> length bs \<Longrightarrow>
   \<exists>r. pack_symbol True 1 (mask k) bs symbol = Some (r, drop k bs) \<and>
     (\<forall>i < 8. bit r i = (if i < k then bs ! (k - 1 - i) \<noteq> 0 else bit symbol (i - k)))"
proof (induction k arbitrary: bs symbol)
  case 0
  then show ?case by (subst pack_symbol.simps) simp
next
  case (Suc k)
  obtain b cs where bs: "bs = b # cs" using Suc.prems(2) by (cases bs) auto
  let ?s = "shift_once True symbol OR (if b \<noteq> 0 then 1 else 0)"
  obtain r where r: "pack_symbol True 1 (mask k) cs ?s = Some (r, drop k cs)"
    "\<forall>i < 8. bit r i = (if i < k then cs ! (k - 1 - i) \<noteq> 0 else bit ?s (i - k))"
    using Suc.IH[of cs ?s] Suc.prems bs by auto
  have "pack_symbol True 1 (mask (Suc k)) bs symbol = Some (r, drop (Suc k) bs)"
    by (subst pack_symbol.simps) (use Suc.prems(1) mask_shift[of k] mask_not_zero[of k] r(1) bs in simp)
  moreover have "bit r i = (if i < Suc k then bs ! (Suc k - 1 - i) \<noteq> 0 else bit symbol (i - Suc k))" if "i < 8" for i
  proof (cases "i < k")
    case True
    then have "Suc k - 1 - i = Suc (k - 1 - i)" by simp
    then show ?thesis using r(2) that True bs by simp
  next
    case False
    have "bit r i = (if i - k = 0 then b \<noteq> 0 else bit symbol (i - k - 1))" using r(2) that False bit_step_msb[of "i - k" symbol b] by simp
    then show ?thesis using False bs by (cases "i = k") auto
  qed
  ultimately show ?case by blast
qed

lemma pack_lsb:
  "n \<le> k \<Longrightarrow> k \<le> 8 \<Longrightarrow> 0 < k \<Longrightarrow> n \<le> length bs \<Longrightarrow> (\<forall>i \<ge> k. \<not> bit symbol i) \<Longrightarrow>
   \<exists>r. pack_symbol False (push_bit (k - 1) 1) (mask n) bs symbol = Some (r, drop n bs) \<and>
     (\<forall>i < 8. bit r i = (if k \<le> i then False else if k - n \<le> i then bs ! (i - (k - n)) \<noteq> 0 else bit symbol (i + n)))"
proof (induction n arbitrary: bs symbol)
  case 0
  then show ?case by (subst pack_symbol.simps) simp
next
  case (Suc n)
  obtain b cs where bs: "bs = b # cs" using Suc.prems(4) by (cases bs) auto
  let ?s = "shift_once False symbol OR (if b \<noteq> 0 then push_bit (k - 1) 1 else 0)"
  have s: "bit ?s i = (bit symbol (Suc i) \<or> (i = k - 1 \<and> b \<noteq> 0))" if "i < 8" for i by (rule bit_step_lsb[OF that Suc.prems(3)])
  have s0: "\<forall>i \<ge> k. \<not> bit ?s i"
  proof (intro allI impI)
    fix i assume i: "k \<le> i"
    show "\<not> bit ?s i"
    proof (cases "i < 8")
      case True
      then show ?thesis using s[OF True] i Suc.prems(3,5) by auto
    next
      case False
      then show ?thesis using bit_imp_le_length[of ?s i] by auto
    qed
  qed
  obtain r where r: "pack_symbol False (push_bit (k - 1) 1) (mask n) cs ?s = Some (r, drop n cs)"
    "\<forall>i < 8. bit r i = (if k \<le> i then False else if k - n \<le> i then cs ! (i - (k - n)) \<noteq> 0 else bit ?s (i + n))"
    using Suc.IH[of cs ?s, OF _ _ _ _ s0] Suc.prems bs by (auto simp del: if_False)
  have "pack_symbol False (push_bit (k - 1) 1) (mask (Suc n)) bs symbol = Some (r, drop (Suc n) bs)"
    by (subst pack_symbol.simps) (use Suc.prems(1,2) mask_shift[of n] mask_not_zero[of n] r(1) bs in simp)
  moreover have "bit r i = (if k \<le> i then False else if k - Suc n \<le> i then bs ! (i - (k - Suc n)) \<noteq> 0 else bit symbol (i + Suc n))"
    if "i < 8" for i
  proof -
    consider "k \<le> i" | "i < k" "k - n \<le> i" | "i = k - Suc n" "i < k" "n < k" | "i < k - Suc n" using Suc.prems(1) by linarith
    then show ?thesis
    proof cases
      case 2
      then have "i - (k - Suc n) = Suc (i - (k - n))" "k - Suc n \<le> i" using Suc.prems(1) by linarith+
      then show ?thesis using r(2) that bs 2 by simp
    next
      case 3
      then have "bit r i = bit ?s (i + n)" "i + n = k - 1" using r(2) that by auto
      then have "bit r i = (b \<noteq> 0)" using s[of "k - 1"] Suc.prems(2,3,5) by simp
      then show ?thesis using 3 bs by auto
    next
      case 4
      then have "bit r i = bit ?s (i + n)" "i + n < k - 1" using r(2) that by auto
      then have "bit r i = bit symbol (i + Suc n)" using s[of "i + n"] Suc.prems(2) by simp
      then show ?thesis using 4 by auto
    qed (use r(2) that in auto)
  qed
  ultimately show ?case by blast
qed


lemma sample_test: "(push_bit j 1 AND (w :: 8 word) \<noteq> 0) = bit w j"
proof -
  have "push_bit j 1 AND w = of_bool (bit w j) * 2 ^ j"
    by (rule bit_eqI) (auto simp: bit_and_iff bit_push_bit_iff bit_1_iff bit_simps)
  then show ?thesis using bit_imp_le_length[of w j] by (cases "bit w j") (simp_all add: exp_eq_zero_iff)
qed

definition bit_elem :: "8 word \<Rightarrow> nat \<Rightarrow> 8 word" where
  "bit_elem w i = (if bit w i then 1 else 0)"

lemma bit_elem_nz: "bit_elem w i \<noteq> 0 \<longleftrightarrow> bit w i"
  by (simp add: bit_elem_def)

lemma unpack_msb:
  "n \<le> k \<Longrightarrow> k \<le> 8 \<Longrightarrow> unpack_symbol True (push_bit (k - 1) 1) (mask n) symbol = map (\<lambda>j. bit_elem symbol (k - 1 - j)) [0..<n]"
proof (induction n arbitrary: symbol)
  case 0
  then show ?case by (subst unpack_symbol.simps) simp
next
  case (Suc n)
  have b: "bit_elem (shift_once True symbol) (k - 1 - j) = bit_elem symbol (k - 1 - Suc j)" if "j < n" for j
  proof -
    have "1 \<le> k - 1 - j" "k - 1 - j < 8" "k - 1 - j - 1 = k - 1 - Suc j" using that Suc.prems by linarith+
    then show ?thesis by (simp only: bit_elem_def shift_once_def if_True bit_push_bit_iff possible_bit_word) simp
  qed
  have "unpack_symbol True (push_bit (k - 1) 1) (mask (Suc n)) symbol =
      bit_elem symbol (k - 1) # unpack_symbol True (push_bit (k - 1) 1) (mask n) (shift_once True symbol)"
    by (subst unpack_symbol.simps) (use Suc.prems mask_shift[of n] mask_not_zero[of n] in \<open>simp only: sample_test bit_elem_def; simp\<close>)
  also have "\<dots> = bit_elem symbol (k - 1) # map (\<lambda>j. bit_elem symbol (k - 1 - Suc j)) [0..<n]"
    using Suc.IH[of "shift_once True symbol"] Suc.prems b by simp
  also have "\<dots> = map (\<lambda>j. bit_elem symbol (k - 1 - j)) [0..<Suc n]"
    unfolding upt_conv_Cons[OF zero_less_Suc] map_Suc_upt[symmetric] by simp
  finally show ?case .
qed

lemma unpack_lsb: "n \<le> 8 \<Longrightarrow> unpack_symbol False 1 (mask n) symbol = map (bit_elem symbol) [0..<n]"
proof (induction n arbitrary: symbol)
  case 0
  then show ?case by (subst unpack_symbol.simps) simp
next
  case (Suc n)
  have b: "bit_elem (shift_once False symbol) j = bit_elem symbol (Suc j)" for j
    by (simp add: bit_elem_def shift_once_def bit_drop_bit_eq)
  have t: "((1 :: 8 word) AND symbol \<noteq> 0) = bit symbol 0" using sample_test[of 0 symbol] by simp
  have "unpack_symbol False 1 (mask (Suc n)) symbol = bit_elem symbol 0 # unpack_symbol False 1 (mask n) (shift_once False symbol)"
    by (subst unpack_symbol.simps) (use Suc.prems mask_shift[of n] mask_not_zero[of n] in \<open>simp only: t bit_elem_def; simp\<close>)
  also have "\<dots> = bit_elem symbol 0 # map (\<lambda>j. bit_elem symbol (Suc j)) [0..<n]"
    using Suc.IH[of "shift_once False symbol"] Suc.prems b by simp
  also have "\<dots> = map (bit_elem symbol) [0..<Suc n]"
    unfolding upt_conv_Cons[OF zero_less_Suc] map_Suc_upt[symmetric] by simp
  finally show ?case .
qed


text \<open>The settings that the setters can produce: a mask of \<open>k\<close> bits and the bit count \<open>k\<close>.\<close>

definition conv_ok :: "bit_conv \<Rightarrow> bool" where
  "conv_ok c = (\<exists>k. 1 \<le> k \<and> k \<le> 8 \<and> bv_symbolsMask c = mask k \<and> unat (bv_bitsPerSymbol c) = k)"

lemma conv_ok_new: "conv_ok bv_new"
  unfolding conv_ok_def by (rule exI[of _ 1]) (simp add: bv_new_def)

lemma conv_ok_setSymbols: "conv_ok c \<Longrightarrow> conv_ok (bv_setSymbols n c)"
proof -
  assume c: "conv_ok c"
  have m: "conv_ok (c\<lparr>bv_symbolsMask := mask k, bv_bitsPerSymbol := of_nat k\<rparr>)" if "1 \<le> k" "k \<le> 8" for k
    unfolding conv_ok_def by (rule exI[of _ k]) (use that in \<open>simp add: unsigned_of_nat take_bit_nat_eq_self\<close>)
  have v: "mask 1 = (1 :: 8 word)" "mask 2 = (3 :: 8 word)" "mask 3 = (7 :: 8 word)" "mask 4 = (0xf :: 8 word)"
    "mask 5 = (0x1f :: 8 word)" "mask 6 = (0x3f :: 8 word)" "mask 7 = (0x7f :: 8 word)" "mask 8 = (0xff :: 8 word)"
    by code_simp+
  show ?thesis using c m[of 1] m[of 2] m[of 3] m[of 4] m[of 5] m[of 6] m[of 7] m[of 8] unfolding v bv_setSymbols_def by simp
qed

lemma conv_ok_setEndianness: "conv_ok c \<Longrightarrow> conv_ok (bv_setEndianness e c)"
  by (simp add: conv_ok_def bv_setEndianness_def)

text \<open>A symbol that is unpacked and packed again in the same order loses only the bits above the mask.\<close>

definition pack_sample :: "bit_conv \<Rightarrow> 8 word" where
  "pack_sample c = (if bv_msbFirst c then 1 else push_bit (unat (bv_bitsPerSymbol c) - 1) 1)"

definition unpack_sample :: "bit_conv \<Rightarrow> 8 word" where
  "unpack_sample c = (if bv_msbFirst c then push_bit (unat (bv_bitsPerSymbol c) - 1) 1 else 1)"

abbreviation pack_one :: "bit_conv \<Rightarrow> 8 word list \<Rightarrow> (8 word \<times> 8 word list) option" where
  "pack_one c bs \<equiv> pack_symbol (bv_msbFirst c) (pack_sample c) (bv_symbolsMask c) bs 0"

abbreviation unpack_one :: "bit_conv \<Rightarrow> 8 word \<Rightarrow> 8 word list" where
  "unpack_one c w \<equiv> unpack_symbol (bv_msbFirst c) (unpack_sample c) (bv_symbolsMask c) w"

lemma unpack_one_nth:
  assumes "conv_ok c"
  shows "length (unpack_one c w) = unat (bv_bitsPerSymbol c) \<and> (\<forall>j < unat (bv_bitsPerSymbol c).
    unpack_one c w ! j = bit_elem w (if bv_msbFirst c then unat (bv_bitsPerSymbol c) - 1 - j else j))"
proof -
  let ?k = "unat (bv_bitsPerSymbol c)"
  have k: "1 \<le> ?k" "?k \<le> 8" "bv_symbolsMask c = mask ?k" using assms by (auto simp: conv_ok_def)
  show ?thesis unfolding unpack_sample_def k(3) using unpack_msb[OF order_refl k(2)] unpack_lsb[OF k(2)] by (cases "bv_msbFirst c") simp_all
qed

lemma pack_one_nth:
  assumes "conv_ok c" "unat (bv_bitsPerSymbol c) \<le> length bs"
  shows "\<exists>r. pack_one c bs = Some (r, drop (unat (bv_bitsPerSymbol c)) bs) \<and>
    (\<forall>i < 8. bit r i = (i < unat (bv_bitsPerSymbol c) \<and>
       bs ! (if bv_msbFirst c then unat (bv_bitsPerSymbol c) - 1 - i else i) \<noteq> 0))"
proof -
  let ?k = "unat (bv_bitsPerSymbol c)"
  have k: "1 \<le> ?k" "?k \<le> 8" "bv_symbolsMask c = mask ?k" using assms by (auto simp: conv_ok_def)
  show ?thesis
  proof (cases "bv_msbFirst c")
    case True
    then show ?thesis unfolding pack_sample_def k(3) using pack_msb[OF k(2) assms(2), of 0] by auto
  next
    case False
    have "0 < ?k" using k(1) by simp
    then show ?thesis unfolding pack_sample_def k(3) using False pack_lsb[OF order_refl k(2) _ assms(2), of 0] by auto
  qed
qed

lemma pack_unpack:
  assumes "conv_ok c"
  shows "pack_one c (unpack_one c w @ rest) = Some (w AND bv_symbolsMask c, rest)"
proof -
  let ?k = "unat (bv_bitsPerSymbol c)"
  have k: "bv_symbolsMask c = mask ?k" using assms by (auto simp: conv_ok_def)
  have u: "length (unpack_one c w) = ?k" "\<And>j. j < ?k \<Longrightarrow> unpack_one c w ! j = bit_elem w (if bv_msbFirst c then ?k - 1 - j else j)"
    using unpack_one_nth[OF assms, of w] by blast+
  obtain r where r: "pack_one c (unpack_one c w @ rest) = Some (r, rest)"
    "\<forall>i < 8. bit r i = (i < ?k \<and> (unpack_one c w @ rest) ! (if bv_msbFirst c then ?k - 1 - i else i) \<noteq> 0)"
    using pack_one_nth[OF assms, of "unpack_one c w @ rest"] u(1) by auto
  have "r = w AND bv_symbolsMask c"
  proof (rule bit_word_eqI)
    fix i assume i: "i < LENGTH(8)"
    let ?j = "if bv_msbFirst c then ?k - 1 - i else i"
    have e: "(unpack_one c w @ rest) ! ?j = bit_elem w i" if "i < ?k"
      using that u by (cases "bv_msbFirst c") (simp_all add: nth_append)
    have "bit r i = (i < ?k \<and> (unpack_one c w @ rest) ! ?j \<noteq> 0)" using r(2) i by simp
    also have "\<dots> = (i < ?k \<and> bit w i)" using e by (metis bit_elem_nz)
    also have "\<dots> = bit (w AND bv_symbolsMask c) i" unfolding k using i by (auto simp: bit_and_iff bit_mask_iff)
    finally show "bit r i = bit (w AND bv_symbolsMask c) i" .
  qed
  then show ?thesis using r(1) by simp
qed


text \<open>Packing bits and unpacking the symbol gives the bits back, every non-zero element as a 1.\<close>

lemma unpack_pack:
  assumes "conv_ok c" "unat (bv_bitsPerSymbol c) \<le> length bs" "pack_one c bs = Some (r, rest)"
  shows "unpack_one c r = map (\<lambda>b. if b \<noteq> 0 then 1 else 0) (take (unat (bv_bitsPerSymbol c)) bs) \<and> rest = drop (unat (bv_bitsPerSymbol c)) bs"
proof -
  let ?k = "unat (bv_bitsPerSymbol c)"
  have k8: "?k \<le> 8" using assms(1) by (auto simp: conv_ok_def)
  have r: "rest = drop ?k bs" "\<forall>i < 8. bit r i = (i < ?k \<and> bs ! (if bv_msbFirst c then ?k - 1 - i else i) \<noteq> 0)"
    using pack_one_nth[OF assms(1,2)] assms(3) by auto
  have u: "length (unpack_one c r) = ?k" "\<And>j. j < ?k \<Longrightarrow> unpack_one c r ! j = bit_elem r (if bv_msbFirst c then ?k - 1 - j else j)"
    using unpack_one_nth[OF assms(1), of r] by blast+
  have "unpack_one c r = map (\<lambda>b. if b \<noteq> 0 then 1 else 0) (take ?k bs)"
  proof (rule nth_equalityI)
    show "length (unpack_one c r) = length (map (\<lambda>b. if b \<noteq> 0 then 1 else 0) (take ?k bs))" using u(1) assms(2) by simp
    fix j assume "j < length (unpack_one c r)"
    then have j: "j < ?k" using u(1) by simp
    have i: "?k - 1 - j < 8" "?k - 1 - j < ?k" "?k - 1 - (?k - 1 - j) = j" "j < 8" using j k8 by linarith+
    have "bit r (if bv_msbFirst c then ?k - 1 - j else j) = (bs ! j \<noteq> 0)" using r(2) i j by (cases "bv_msbFirst c") auto
    then show "unpack_one c r ! j = map (\<lambda>b. if b \<noteq> 0 then 1 else 0) (take ?k bs) ! j"
      using u(2)[OF j] j assms(2) by (simp add: bit_elem_def)
  qed
  then show ?thesis using r(1) by simp
qed

lemma pack_symbols_unpack:
  "conv_ok c \<Longrightarrow> pack_symbols (length ws) (bv_msbFirst c) (pack_sample c) (bv_symbolsMask c) (concat (map (unpack_one c) ws)) =
     Some (map (\<lambda>w. w AND bv_symbolsMask c) ws)"
  by (induction ws) (simp_all add: pack_unpack)

lemma pack_symbols_total:
  "conv_ok c \<Longrightarrow> n * unat (bv_bitsPerSymbol c) \<le> length bs \<Longrightarrow>
   \<exists>ws. pack_symbols n (bv_msbFirst c) (pack_sample c) (bv_symbolsMask c) bs = Some ws \<and> length ws = n \<and>
     concat (map (unpack_one c) ws) = map (\<lambda>b. if b \<noteq> 0 then 1 else 0) (take (n * unat (bv_bitsPerSymbol c)) bs)"
proof (induction n arbitrary: bs)
  case (Suc n)
  let ?k = "unat (bv_bitsPerSymbol c)"
  have le: "?k \<le> length bs" "n * ?k \<le> length (drop ?k bs)" using Suc.prems(2) by simp_all
  obtain r where r: "pack_one c bs = Some (r, drop ?k bs)" using pack_one_nth[OF Suc.prems(1) le(1)] by blast
  obtain ws where ws: "pack_symbols n (bv_msbFirst c) (pack_sample c) (bv_symbolsMask c) (drop ?k bs) = Some ws" "length ws = n"
    "concat (map (unpack_one c) ws) = map (\<lambda>b. if b \<noteq> 0 then 1 else 0) (take (n * ?k) (drop ?k bs))"
    using Suc.IH[OF Suc.prems(1) le(2)] by blast
  have "unpack_one c r = map (\<lambda>b. if b \<noteq> 0 then 1 else 0) (take ?k bs)" using unpack_pack[OF Suc.prems(1) le(1) r] by blast
  then show ?case using r ws by (auto simp: take_add)
qed simp

text \<open>In every setting that the setters can produce, packing the bits that the symbols were unpacked to gives each
  symbol back without the bits above the mask, consuming exactly the bits produced.\<close>

theorem symbols_bits_symbols:
  assumes "conv_ok c" "symbols_to_bits inp outElements c = (n, bits)" "0 < n" "n \<le> outSyms" "length inp < 2 ^ 32"
  shows "bits_to_symbols bits outSyms c = Some (length bits, map (\<lambda>w. w AND bv_symbolsMask c) (take n inp))"
proof -
  let ?k = "unat (bv_bitsPerSymbol c)"
  have k: "1 \<le> ?k" using assms(1) by (auto simp: conv_ok_def)
  have n: "n = unat (of_nat (min (length inp) (outElements div ?k)) :: 32 word)" "bits = concat (map (unpack_one c) (take n inp))"
    using assms(2,3) by (auto simp: symbols_to_bits_def unpack_sample_def Let_def split: if_splits)
  have le: "n \<le> length inp" using unat_word32_le[of "min (length inp) (outElements div ?k)"] n(1) by simp
  have len: "length bits = n * ?k" unfolding n(2) using le unpack_one_nth[OF assms(1)] by (simp add: length_concat comp_def sum_list_triv)
  have m: "min (length bits div ?k) outSyms = n" using len k assms(4) by simp
  have s: "unat (of_nat (min (length bits div ?k) outSyms) :: 32 word) = n" unfolding m by (rule unat_word32) (use le assms(5) in simp)
  have "pack_symbols n (bv_msbFirst c) (pack_sample c) (bv_symbolsMask c) bits = Some (map (\<lambda>w. w AND bv_symbolsMask c) (take n inp))"
    using pack_symbols_unpack[OF assms(1), of "take n inp"] le n(2) by simp
  then show ?thesis unfolding bits_to_symbols_def Let_def s using len k assms(3) unfolding pack_sample_def by auto
qed


theorem symbols_bits_symbols_witness:
  "bits_to_symbols [0, 1, 1, 1] 9 (bv_setEndianness ''LSB'' (bv_setSymbols 4 bv_new)) = Some (4, [2, 3])"
proof -
  let ?c = "bv_setEndianness ''LSB'' (bv_setSymbols 4 bv_new)"
  have c: "conv_ok ?c" by (rule conv_ok_setEndianness[OF conv_ok_setSymbols[OF conv_ok_new]])
  have e: "?c = \<lparr>bv_msbFirst = False, bv_symbolsMask = 3, bv_bitsPerSymbol = 2\<rparr>"
    by (simp add: bv_new_def bv_setSymbols_def bv_setEndianness_def)
  have b: "symbols_to_bits [2, 7] 5 ?c = (2, [0, 1, 1, 1])"
    unfolding e by (simp add: symbols_to_bits_def unpack_symbol.simps shift_once_def Let_def)
  show ?thesis using symbols_bits_symbols[OF c b, of 9] by (simp add: e)
qed

text \<open>The payload conversion never reads past the payload, gives one symbol for each whole group of bits and keeps
  the bits.\<close>

lemma payload_bits:
  assumes "conv_ok c"
  shows "\<exists>ws. bits_to_symbols_payload payload c = Some ws \<and> length ws = length payload div unat (bv_bitsPerSymbol c) \<and>
    concat (map (unpack_one c) ws) = map (\<lambda>b. if b \<noteq> 0 then 1 else 0) (take (length ws * unat (bv_bitsPerSymbol c)) payload)"
proof -
  obtain ws where "pack_symbols (length payload div unat (bv_bitsPerSymbol c)) (bv_msbFirst c) (pack_sample c) (bv_symbolsMask c) payload = Some ws"
    "length ws = length payload div unat (bv_bitsPerSymbol c)"
    "concat (map (unpack_one c) ws) =
      map (\<lambda>b. if b \<noteq> 0 then 1 else 0) (take (length payload div unat (bv_bitsPerSymbol c) * unat (bv_bitsPerSymbol c)) payload)"
    using pack_symbols_total[OF assms, of "length payload div unat (bv_bitsPerSymbol c)" payload] by auto
  then show ?thesis by (auto simp: bits_to_symbols_payload_def Let_def pack_sample_def)
qed

section \<open>Mapper and slicer\<close>

lemma log2_exact_power: "log2_exact fuel n = Some k \<Longrightarrow> n = 2 ^ k"
  by (induction fuel arbitrary: n k) (auto split: if_splits)

lemma log2_exact_of_power: "2 ^ k \<le> fuel \<Longrightarrow> log2_exact fuel (2 ^ k) = Some k"
proof (induction fuel arbitrary: k)
  case (Suc fuel)
  show ?case
  proof (cases k)
    case (Suc j)
    have "2 ^ j \<le> fuel" using Suc.prems Suc by (simp add: mult_2)
    then show ?thesis using Suc.IH Suc by simp
  qed simp
qed simp

text \<open>The constructor's map of one element and every later one have a power of two elements, and the mask
  keeps each looked-up index inside the map.\<close>

definition mapper_ok :: "'a mapper \<Rightarrow> bool" where
  "mapper_ok s = (\<exists>k. length (mp_map s) = 2 ^ k \<and> mp_mask s = mask k)"

lemma mapper_setMap_iff: "(\<exists>s'. mapper_setMap mp s = Inr s') = (\<exists>k. length mp = 2 ^ k)"
proof
  assume "\<exists>s'. mapper_setMap mp s = Inr s'"
  then show "\<exists>k. length mp = 2 ^ k" by (auto simp: mapper_setMap_def dest: log2_exact_power split: if_splits option.splits)
next
  assume "\<exists>k. length mp = 2 ^ k"
  then obtain k where k: "length mp = 2 ^ k" by blast
  have "log2_exact (length mp) (length mp) = Some k" unfolding k by (rule log2_exact_of_power) simp
  then show "\<exists>s'. mapper_setMap mp s = Inr s'" using k by (simp add: mapper_setMap_def)
qed

lemma mapper_setMap_ok: "mapper_setMap mp s = Inr s' \<Longrightarrow> mapper_ok s' \<and> mp_map s' = mp"
  by (auto simp: mapper_setMap_def mapper_ok_def mask_eq_exp_minus_1 dest: log2_exact_power split: if_splits option.splits)

lemma mapper_index: "mapper_ok s \<Longrightarrow> unat (b AND mp_mask s) < length (mp_map s)"
proof -
  assume "mapper_ok s"
  then obtain k where k: "length (mp_map s) = 2 ^ k" "mp_mask s = mask k" by (auto simp: mapper_ok_def)
  have "unat (b AND mask k) < 2 ^ k" by (simp add: take_bit_eq_mask[symmetric] unsigned_take_bit_eq)
  then show ?thesis using k by simp
qed


lemma slice_scan_spec:
  "slice_scan dist x j ps (i, d) = (r, e) \<Longrightarrow> e \<le> d \<and> (\<forall>p \<in> set ps. e \<le> dist x p) \<and>
     ((r, e) = (i, d) \<or> (\<exists>m < length ps. r = of_nat (j + m) \<and> e = dist x (ps ! m) \<and> e < d))"
proof (induction ps arbitrary: j i d)
  case (Cons p ps)
  show ?case
  proof (cases "dist x p < d")
    case True
    then have "slice_scan dist x (Suc j) ps (of_nat j, dist x p) = (r, e)" using Cons.prems by simp
    then have I: "e \<le> dist x p" "\<forall>p \<in> set ps. e \<le> dist x p"
      "(r, e) = (of_nat j, dist x p) \<or> (\<exists>m < length ps. r = of_nat (Suc j + m) \<and> e = dist x (ps ! m) \<and> e < dist x p)"
      using Cons.IH by blast+
    have "\<exists>m < length (p # ps). r = of_nat (j + m) \<and> e = dist x ((p # ps) ! m) \<and> e < d"
      using I(3)
    proof
      assume "(r, e) = (of_nat j, dist x p)"
      then show ?thesis using True by (intro exI[of _ 0]) simp
    next
      assume "\<exists>m < length ps. r = of_nat (Suc j + m) \<and> e = dist x (ps ! m) \<and> e < dist x p"
      then obtain m where "m < length ps" "r = of_nat (Suc j + m)" "e = dist x (ps ! m)" "e < dist x p" by blast
      then show ?thesis using True by (intro exI[of _ "Suc m"]) simp
    qed
    then show ?thesis using I True by auto
  next
    case False
    then have "slice_scan dist x (Suc j) ps (i, d) = (r, e)" using Cons.prems by simp
    then have I: "e \<le> d" "\<forall>p \<in> set ps. e \<le> dist x p"
      "(r, e) = (i, d) \<or> (\<exists>m < length ps. r = of_nat (Suc j + m) \<and> e = dist x (ps ! m) \<and> e < d)"
      using Cons.IH by blast+
    have "(r, e) = (i, d) \<or> (\<exists>m < length (p # ps). r = of_nat (j + m) \<and> e = dist x ((p # ps) ! m) \<and> e < d)"
      using I(3)
    proof
      assume "\<exists>m < length ps. r = of_nat (Suc j + m) \<and> e = dist x (ps ! m) \<and> e < d"
      then obtain m where "m < length ps" "r = of_nat (Suc j + m)" "e = dist x (ps ! m)" "e < d" by blast
      then show ?thesis by (intro disjI2 exI[of _ "Suc m"]) simp
    qed blast
    then show ?thesis using I False by auto
  qed
qed simp

text \<open>On a map of at most 256 elements the slicer answers an index whose element has the least distance, as long as one
  distance is below the largest float.\<close>

lemma slice_closest:
  assumes "p \<in> set mp" "dist x p < flt_max" "length mp \<le> 256"
  shows "unat (fst (slice_scan dist x 0 mp (0, flt_max))) < length mp \<and>
    (\<forall>q \<in> set mp. dist x (mp ! unat (fst (slice_scan dist x 0 mp (0, flt_max)))) \<le> dist x q)"
proof -
  obtain r e where s: "slice_scan dist x 0 mp (0, flt_max) = (r, e)" by fastforce
  have I: "\<forall>q \<in> set mp. e \<le> dist x q" "(r, e) = (0, flt_max) \<or> (\<exists>m < length mp. r = of_nat (0 + m) \<and> e = dist x (mp ! m) \<and> e < flt_max)"
    using slice_scan_spec[OF s] by blast+
  have "e \<noteq> flt_max" using I(1) assms(1,2) by auto
  then obtain m where m: "m < length mp" "r = of_nat m" "e = dist x (mp ! m)" using I(2) by auto
  have "unat r = m" unfolding m(2) using m(1) assms(3) by (simp add: unsigned_of_nat take_bit_nat_eq_self)
  then show ?thesis using s m I(1) by simp
qed

text \<open>Where every value is closer to itself than to any other of the map, a slicer with the mapper's map (of at most 256
  distinct values) recovers the low bits of every mapped symbol.\<close>

theorem slicer_inverts_mapper:
  assumes "mapper_ok s" "distinct (mp_map s)" "length (mp_map s) \<le> 256"
    and "\<And>p q. p \<noteq> q \<Longrightarrow> dist p p < dist p q" "\<And>p. dist p p < flt_max"
    and "mapper_work inp outElements s = (n, syms)" "length inp < 2 ^ 32"
  shows "slicer_work dist flt_max syms (length syms) (mp_map s) = (n, map (\<lambda>b. b AND mp_mask s) (take n inp))"
proof -
  have n: "n = unat (of_nat (min (length inp) outElements) :: 32 word)" "syms = map (\<lambda>b. mp_map s ! unat (b AND mp_mask s)) (take n inp)"
    using assms(6) by (auto simp: mapper_work_def Let_def)
  have nm: "n = min (length inp) outElements" unfolding n(1) by (rule unat_word32) (use assms(7) in simp)
  have len: "length syms = n" unfolding n(2) using nm by simp
  have one: "fst (slice_scan dist (mp_map s ! unat (b AND mp_mask s)) 0 (mp_map s) (0, flt_max)) = b AND mp_mask s" for b
  proof -
    let ?i = "unat (b AND mp_mask s)" and ?x = "mp_map s ! unat (b AND mp_mask s)"
    let ?r = "fst (slice_scan dist ?x 0 (mp_map s) (0, flt_max))"
    have i: "?i < length (mp_map s)" by (rule mapper_index[OF assms(1)])
    have c: "unat ?r < length (mp_map s)" "dist ?x (mp_map s ! unat ?r) \<le> dist ?x ?x"
      using slice_closest[where dist = dist and x = ?x, OF nth_mem[OF i] assms(5) assms(3)] nth_mem[OF i] by blast+
    then have "mp_map s ! unat ?r = ?x" using assms(4)[of ?x "mp_map s ! unat ?r"] by force
    then have "unat ?r = ?i" using assms(2) c(1) i by (simp add: nth_eq_iff_index_eq)
    then show ?thesis by (simp add: unsigned_word_eqI)
  qed
  have "unat (of_nat (min (length syms) (length syms)) :: 32 word) = n"
    unfolding min.idem len by (rule unat_word32) (use nm assms(7) in simp)
  then show ?thesis unfolding slicer_work_def Let_def using len n(2) one by (simp add: comp_def)
qed


theorem slicer_inverts_mapper_witness:
  "slicer_work (\<lambda>a b :: int. \<bar>b - a\<bar>) 1000 [-1, 3, 1] 3 [-3, -1, 1, 3] = (3, [1, 3, 2])"
proof -
  let ?s = "\<lparr>mp_map = [-3, -1, 1, 3 :: int], mp_nbits = 2, mp_mask = 3\<rparr>"
  have ok: "mapper_ok ?s" unfolding mapper_ok_def by (rule exI[of _ 2]) (simp add: mask_eq_exp_minus_1)
  have w: "mapper_work [5, 3, 2] 8 ?s = (3, [-1, 3, 1])" by (simp add: mapper_work_def)
  show ?thesis
    using slicer_inverts_mapper[OF ok _ _ _ _ w, of "\<lambda>a b. \<bar>b - a\<bar>" 1000] by (simp flip: numeral_3_eq_3)
qed

section \<open>Bytes to symbols\<close>

datatype bit_order = LSBit | MSBit

record byte_conv =
  by_mod :: "8 word"
  by_mask :: "32 word"
  by_rem :: "32 word"
  by_nb :: "8 word"
  by_order :: bit_order

definition by_new :: byte_conv where
  "by_new = \<lparr>by_mod = 1, by_mask = 1, by_rem = 0, by_nb = 0, by_order = LSBit\<rparr>"

definition by_updateMask :: "byte_conv \<Rightarrow> byte_conv" where
  "by_updateMask s =
     (let m = unat (by_mod s) in
      s\<lparr>by_mask := (case by_order s of MSBit \<Rightarrow> push_bit (32 - m) (push_bit m 1 - 1) | LSBit \<Rightarrow> push_bit m 1 - 1)\<rparr>)"

definition by_setModulus :: "8 word \<Rightarrow> byte_conv \<Rightarrow> byte_conv result" where
  "by_setModulus m s = (if unat m > 8 then Inl InvalidArgumentException else Inr (by_updateMask (s\<lparr>by_mod := m\<rparr>)))"

definition by_getBitOrder :: "byte_conv \<Rightarrow> string" where
  "by_getBitOrder s = (case by_order s of LSBit \<Rightarrow> ''LSBit'' | MSBit \<Rightarrow> ''MSBit'')"

definition by_setBitOrder :: "string \<Rightarrow> byte_conv \<Rightarrow> byte_conv result" where
  "by_setBitOrder order s =
     (if order = ''LSBit'' then Inr (by_updateMask (s\<lparr>by_order := LSBit\<rparr>))
      else if order = ''MSBit'' then Inr (by_updateMask (s\<lparr>by_order := MSBit\<rparr>))
      else Inl InvalidArgumentException)"

text \<open>The bits of one symbol in the LSBit order.\<close>

fun take_bits :: "nat \<Rightarrow> 8 word \<Rightarrow> 32 word \<Rightarrow> 8 word \<times> 32 word" where
  "take_bits 0 out rem = (out, rem)"
| "take_bits (Suc n) out rem = take_bits n (push_bit 1 out OR ucast (rem AND 1)) (drop_bit 1 rem)"

definition emit_symbol :: "byte_conv \<Rightarrow> 8 word \<times> byte_conv" where
  "emit_symbol s = (case by_order s of
     LSBit \<Rightarrow> (case take_bits (unat (by_mod s)) 0 (by_rem s) of (out, r) \<Rightarrow> (out, s\<lparr>by_rem := r, by_nb := by_nb s - by_mod s\<rparr>))
   | MSBit \<Rightarrow> (ucast (drop_bit (32 - unat (by_mod s)) (by_rem s AND by_mask s)),
       s\<lparr>by_rem := push_bit (unat (by_mod s)) (by_rem s), by_nb := by_nb s - by_mod s\<rparr>))"

text \<open>The loop \<open>while (_nb >= _mod)\<close>; it does not return for a modulus of 0.\<close>

partial_function (option) emit_symbols :: "byte_conv \<Rightarrow> (8 word list \<times> byte_conv) option" where
  "emit_symbols s =
     (if by_nb s < by_mod s then Some ([], s)
      else Option.bind (emit_symbols (snd (emit_symbol s))) (\<lambda>(out, t). Some (fst (emit_symbol s) # out, t)))"

definition add_byte :: "8 word \<Rightarrow> byte_conv \<Rightarrow> byte_conv" where
  "add_byte b s =
     (let sh = (case by_order s of LSBit \<Rightarrow> unat (by_nb s) | MSBit \<Rightarrow> 32 - 8 - unat (by_nb s)) in
      s\<lparr>by_rem := by_rem s OR push_bit sh (ucast b), by_nb := by_nb s + 8\<rparr>)"

text \<open>The loop \<open>while (n < N && m < M)\<close>, with the elements \<open>m\<close> written so far.\<close>

fun by_loop :: "8 word list \<Rightarrow> nat \<Rightarrow> nat \<Rightarrow> byte_conv \<Rightarrow> (nat \<times> 8 word list \<times> byte_conv) option" where
  "by_loop [] M m s = Some (0, [], s)"
| "by_loop (b # bs) M m s =
     (if m < M then
        (case emit_symbols (add_byte b s) of None \<Rightarrow> None
         | Some (out, s) \<Rightarrow> map_option (\<lambda>(n, outs, s). (Suc n, out @ outs, s)) (by_loop bs M (m + length out) s))
      else Some (0, [], s))"

definition by_work :: "8 word list \<Rightarrow> nat \<Rightarrow> byte_conv \<Rightarrow> (nat \<times> 8 word list \<times> byte_conv) option" where
  "by_work inp M s = by_loop inp M 0 s"


text \<open>The bits held back, first one first; \<open>rem_bit\<close> reads the register in the bit order.\<close>

definition rem_bit :: "byte_conv \<Rightarrow> nat \<Rightarrow> bool" where
  "rem_bit s i = (case by_order s of LSBit \<Rightarrow> bit (by_rem s) i | MSBit \<Rightarrow> bit (by_rem s) (31 - i))"

definition byte_bit :: "bit_order \<Rightarrow> 8 word \<Rightarrow> nat \<Rightarrow> bool" where
  "byte_bit ord b i = (case ord of LSBit \<Rightarrow> bit b i | MSBit \<Rightarrow> bit b (7 - i))"

definition held_bits :: "byte_conv \<Rightarrow> bool list" where
  "held_bits s = map (rem_bit s) [0..<unat (by_nb s)]"

definition byte_bits :: "bit_order \<Rightarrow> 8 word \<Rightarrow> bool list" where
  "byte_bits ord b = map (byte_bit ord b) [0..<8]"

definition symbol_bits :: "nat \<Rightarrow> 8 word \<Rightarrow> bool list" where
  "symbol_bits m w = map (\<lambda>j. bit w (m - 1 - j)) [0..<m]"

definition by_inv :: "nat \<Rightarrow> byte_conv \<Rightarrow> bool" where
  "by_inv lim s = (1 \<le> unat (by_mod s) \<and> unat (by_mod s) \<le> 8 \<and> unat (by_nb s) < lim \<and>
     (by_order s = MSBit \<longrightarrow> by_mask s = push_bit (32 - unat (by_mod s)) (mask (unat (by_mod s)))) \<and>
     (\<forall>i < 32. unat (by_nb s) \<le> i \<longrightarrow> \<not> rem_bit s i))"

lemma wide_byte_bit: "bit (ucast (b :: 8 word) :: 32 word) i = (i < 8 \<and> bit b i)"
  using bit_imp_le_length[of b i] by (auto simp: bit_ucast_iff)

lemma add_byte_bit:
  assumes "by_inv 8 s" "i < 32"
  shows "rem_bit (add_byte b s) i = (rem_bit s i \<or> (unat (by_nb s) \<le> i \<and> i < unat (by_nb s) + 8 \<and> byte_bit (by_order s) b (i - unat (by_nb s))))"
proof (cases "by_order s")
  case LSBit
  then show ?thesis using assms(2)
    by (auto simp: rem_bit_def byte_bit_def add_byte_def bit_or_iff bit_push_bit_iff wide_byte_bit)
next
  case MSBit
  let ?nb = "unat (by_nb s)"
  have nb: "?nb < 8" using assms(1) by (simp add: by_inv_def)
  have r: "rem_bit (add_byte b s) i = (bit (by_rem s) (31 - i) \<or> (24 - ?nb \<le> 31 - i \<and> 31 - i - (24 - ?nb) < 8 \<and> bit b (31 - i - (24 - ?nb))))"
    using MSBit assms(2) by (auto simp: rem_bit_def add_byte_def bit_or_iff bit_push_bit_iff wide_byte_bit)
  have c: "(24 - ?nb \<le> 31 - i \<and> 31 - i - (24 - ?nb) < 8) = (?nb \<le> i \<and> i < ?nb + 8)" using nb assms(2) by linarith
  have d: "31 - i - (24 - ?nb) = 7 - (i - ?nb)" if "?nb \<le> i" using that nb assms(2) by linarith
  show ?thesis unfolding r using c d MSBit by (auto simp: rem_bit_def byte_bit_def)
qed

lemma add_byte_nb: "by_inv 8 s \<Longrightarrow> unat (by_nb (add_byte b s)) = unat (by_nb s) + 8"
  by (simp add: by_inv_def add_byte_def Let_def unat_word_ariths)

lemma add_byte_same [simp]: "by_mod (add_byte b s) = by_mod s" "by_order (add_byte b s) = by_order s" "by_mask (add_byte b s) = by_mask s"
  by (simp_all add: add_byte_def Let_def)

lemma add_byte_inv: "by_inv 8 s \<Longrightarrow> by_inv 16 (add_byte b s)"
  using add_byte_bit[of s _ b] add_byte_nb[of s b] by (auto simp: by_inv_def)

lemma add_byte_held: "by_inv 8 s \<Longrightarrow> held_bits (add_byte b s) = held_bits s @ byte_bits (by_order s) b"
proof -
  assume s: "by_inv 8 s"
  let ?nb = "unat (by_nb s)"
  have nb: "?nb < 8" using s by (simp add: by_inv_def)
  have z: "\<not> rem_bit s i" if "?nb \<le> i" "i < 32" for i using s that by (simp add: by_inv_def)
  have a: "map (rem_bit (add_byte b s)) [0..<?nb] = map (rem_bit s) [0..<?nb]" using add_byte_bit[OF s, of _ b] nb by simp
  have c: "map (rem_bit (add_byte b s)) [?nb..<?nb + 8] = byte_bits (by_order s) b"
    by (rule nth_equalityI) (use add_byte_bit[OF s, of _ b] nb z in \<open>auto simp: byte_bits_def\<close>)
  have "[0..<?nb + 8] = [0..<?nb] @ [?nb..<?nb + 8]" by (rule upt_add_eq_append) simp
  then show ?thesis unfolding held_bits_def add_byte_nb[OF s] using a c by simp
qed

lemma take_bits_spec:
  "snd (take_bits n out r) = drop_bit n r \<and>
   (\<forall>i < 8. bit (fst (take_bits n out r)) i = (if i < n then bit r (n - 1 - i) else bit out (i - n)))"
proof (induction n arbitrary: out r)
  case (Suc n)
  let ?o = "push_bit 1 out OR ucast (r AND 1) :: 8 word"
  have b: "bit ?o i = (if i = 0 then bit r 0 else bit out (i - 1))" if "i < 8" for i
    using that by (cases i) (auto simp only: bit_or_iff bit_push_bit_iff bit_ucast_iff bit_and_iff bit_1_iff possible_bit_word, simp_all)
  have "bit (fst (take_bits (Suc n) out r)) i = (if i < Suc n then bit r (Suc n - 1 - i) else bit out (i - Suc n))" if i: "i < 8" for i
  proof (cases "i < n")
    case True
    then have "Suc (n - 1 - i) = Suc n - 1 - i" by simp
    then show ?thesis using Suc.IH[of ?o "drop_bit 1 r"] True i by (simp add: bit_drop_bit_eq)
  next
    case False
    then show ?thesis using Suc.IH[of ?o "drop_bit 1 r"] i b[of "i - n"] by (cases "i = n") auto
  qed
  then show ?case using Suc.IH[of ?o "drop_bit 1 r"] by simp
qed simp


lemma emit_same [simp]: "by_mod (snd (emit_symbol s)) = by_mod s" "by_order (snd (emit_symbol s)) = by_order s"
    "by_mask (snd (emit_symbol s)) = by_mask s" "by_nb (snd (emit_symbol s)) = by_nb s - by_mod s"
  by (auto simp: emit_symbol_def split: bit_order.splits prod.splits)

lemma emit_rem:
  assumes "i < 32"
  shows "rem_bit (snd (emit_symbol s)) i = (i + unat (by_mod s) < 32 \<and> rem_bit s (i + unat (by_mod s)))"
proof (cases "by_order s")
  case LSBit
  have "snd (take_bits (unat (by_mod s)) 0 (by_rem s)) = drop_bit (unat (by_mod s)) (by_rem s)" using take_bits_spec by blast
  then show ?thesis using LSBit bit_imp_le_length[of "by_rem s" "i + unat (by_mod s)"]
    by (auto simp: rem_bit_def emit_symbol_def split_beta bit_drop_bit_eq add.commute)
next
  case MSBit
  let ?m = "unat (by_mod s)"
  have "rem_bit (snd (emit_symbol s)) i = (?m \<le> 31 - i \<and> bit (by_rem s) (31 - i - ?m))"
    using MSBit assms by (auto simp: rem_bit_def emit_symbol_def bit_push_bit_iff)
  moreover have "(?m \<le> 31 - i) = (i + ?m < 32)" "31 - i - ?m = 31 - (i + ?m)" using assms by linarith+
  ultimately show ?thesis using MSBit by (simp add: rem_bit_def)
qed

lemma emit_bits:
  assumes "by_inv lim s"
  shows "symbol_bits (unat (by_mod s)) (fst (emit_symbol s)) = map (rem_bit s) [0..<unat (by_mod s)]"
proof -
  let ?m = "unat (by_mod s)"
  have m: "1 \<le> ?m" "?m \<le> 8" using assms by (auto simp: by_inv_def)
  have "bit (fst (emit_symbol s)) (?m - 1 - j) = rem_bit s j" if j: "j < ?m" for j
  proof (cases "by_order s")
    case LSBit
    have "?m - 1 - j < 8" "?m - 1 - j < ?m" "?m - 1 - (?m - 1 - j) = j" using m j by linarith+
    then show ?thesis using LSBit take_bits_spec[of ?m 0 "by_rem s"] by (simp add: rem_bit_def emit_symbol_def split_beta)
  next
    case MSBit
    have e: "32 - ?m + (?m - 1 - j) = 31 - j" "?m - 1 - j < 8" "31 - j < 32" "31 - j - (32 - ?m) < ?m" "32 - ?m \<le> 31 - j"
      using m j by linarith+
    have k: "by_mask s = push_bit (32 - ?m) (mask ?m)" using assms MSBit by (simp add: by_inv_def)
    have "bit (by_mask s) (31 - j)" unfolding k using e(3-5) by (simp only: bit_push_bit_iff bit_mask_iff possible_bit_word) simp
    moreover have "bit (fst (emit_symbol s)) (?m - 1 - j) = bit (by_rem s AND by_mask s) (31 - j)"
      using MSBit e(1,2) by (simp add: emit_symbol_def bit_ucast_iff bit_drop_bit_eq bit_and_iff)
    ultimately show ?thesis using MSBit by (simp add: rem_bit_def bit_and_iff)
  qed
  then show ?thesis by (simp add: symbol_bits_def)
qed

lemma emit_step:
  assumes "by_inv 16 s" "\<not> by_nb s < by_mod s"
  shows "by_inv 16 (snd (emit_symbol s)) \<and> unat (by_nb (snd (emit_symbol s))) = unat (by_nb s) - unat (by_mod s) \<and>
     held_bits s = symbol_bits (unat (by_mod s)) (fst (emit_symbol s)) @ held_bits (snd (emit_symbol s))"
proof -
  let ?m = "unat (by_mod s)" and ?nb = "unat (by_nb s)"
  have m: "1 \<le> ?m" "?m \<le> 8" "?nb < 16" using assms by (auto simp: by_inv_def)
  have le: "?m \<le> ?nb" using assms(2) by (simp add: word_less_nat_alt)
  have nb: "unat (by_nb (snd (emit_symbol s))) = ?nb - ?m" using le by (simp add: unat_sub_if')
  have z: "\<not> rem_bit s i" if "?nb \<le> i" "i < 32" for i using assms(1) that by (simp add: by_inv_def)
  have inv: "by_inv 16 (snd (emit_symbol s))" using assms(1) nb m emit_rem[of _ s] z by (auto simp: by_inv_def)
  have tail: "map (rem_bit (snd (emit_symbol s))) [0..<?nb - ?m] = map (rem_bit s) [?m..<?nb]"
    by (rule nth_equalityI) (use emit_rem[of _ s] m le in \<open>auto simp: add.commute\<close>)
  have "[0..<?nb] = [0..<?m] @ [?m..<?nb]" using upt_add_eq_append[of 0 ?m "?nb - ?m"] le by simp
  then have "held_bits s = symbol_bits ?m (fst (emit_symbol s)) @ held_bits (snd (emit_symbol s))"
    using emit_bits[OF assms(1)] tail nb by (simp add: held_bits_def)
  then show ?thesis using inv nb by blast
qed

lemma emit_symbols_spec:
  "by_inv 16 s \<Longrightarrow> \<exists>out t. emit_symbols s = Some (out, t) \<and> by_inv 8 t \<and> by_mod t = by_mod s \<and> by_order t = by_order s \<and>
     held_bits s = concat (map (symbol_bits (unat (by_mod s))) out) @ held_bits t"
proof (induction "unat (by_nb s)" arbitrary: s rule: less_induct)
  case less
  show ?case
  proof (cases "by_nb s < by_mod s")
    case True
    then have "unat (by_nb s) < unat (by_mod s)" by (simp add: word_less_nat_alt)
    then have "by_inv 8 s" using less.prems by (auto simp: by_inv_def)
    then show ?thesis using True emit_symbols.simps[of s] by simp
  next
    case False
    note e = emit_step[OF less.prems False]
    have "unat (by_nb (snd (emit_symbol s))) < unat (by_nb s)"
      using e less.prems False by (auto simp: by_inv_def word_less_nat_alt)
    then obtain out t where t: "emit_symbols (snd (emit_symbol s)) = Some (out, t)" "by_inv 8 t" "by_mod t = by_mod s" "by_order t = by_order s"
      "held_bits (snd (emit_symbol s)) = concat (map (symbol_bits (unat (by_mod s))) out) @ held_bits t"
      using less.hyps e by (metis emit_same(1,2))
    have "emit_symbols s = Some (fst (emit_symbol s) # out, t)" using emit_symbols.simps[of s] False t(1) by simp
    then show ?thesis using t e by auto
  qed
qed

lemma by_loop_spec:
  "by_inv 8 s \<Longrightarrow> \<exists>n out t. by_loop bs M m s = Some (n, out, t) \<and> n \<le> length bs \<and> by_inv 8 t \<and> by_mod t = by_mod s \<and> by_order t = by_order s \<and>
     held_bits s @ concat (map (byte_bits (by_order s)) (take n bs)) = concat (map (symbol_bits (unat (by_mod s))) out) @ held_bits t"
proof (induction bs arbitrary: m s)
  case (Cons b bs)
  show ?case
  proof (cases "m < M")
    case True
    obtain out u where u: "emit_symbols (add_byte b s) = Some (out, u)" "by_inv 8 u" "by_mod u = by_mod s" "by_order u = by_order s"
      "held_bits (add_byte b s) = concat (map (symbol_bits (unat (by_mod s))) out) @ held_bits u"
      using emit_symbols_spec[OF add_byte_inv[OF Cons.prems], of b] by auto
    obtain n outs t where t: "by_loop bs M (m + length out) u = Some (n, outs, t)" "n \<le> length bs" "by_inv 8 t" "by_mod t = by_mod u" "by_order t = by_order u"
      "held_bits u @ concat (map (byte_bits (by_order u)) (take n bs)) = concat (map (symbol_bits (unat (by_mod u))) outs) @ held_bits t"
      using Cons.IH[OF u(2)] by blast
    have "by_loop (b # bs) M m s = Some (Suc n, out @ outs, t)" using True u(1) t(1) by simp
    moreover have "held_bits s @ concat (map (byte_bits (by_order s)) (take (Suc n) (b # bs))) =
        concat (map (symbol_bits (unat (by_mod s))) (out @ outs)) @ held_bits t"
    proof -
      let ?in = "concat (map (byte_bits (by_order s)) (take n bs))"
      have "held_bits s @ concat (map (byte_bits (by_order s)) (take (Suc n) (b # bs))) = held_bits (add_byte b s) @ ?in"
        unfolding add_byte_held[OF Cons.prems] by simp
      also have "\<dots> = concat (map (symbol_bits (unat (by_mod s))) out) @ (held_bits u @ ?in)" unfolding u(5) by simp
      also have "held_bits u @ ?in = concat (map (symbol_bits (unat (by_mod s))) outs) @ held_bits t" using t(6) unfolding u(3,4) .
      finally show ?thesis by simp
    qed
    ultimately show ?thesis using t u by auto
  next
    case False
    then show ?thesis using Cons.prems by simp
  qed
qed simp


lemma by_inv_setters: "by_setModulus m s = Inr t \<Longrightarrow> 1 \<le> unat m \<Longrightarrow> by_nb s = 0 \<Longrightarrow> by_rem s = 0 \<Longrightarrow> by_inv 8 t"
  by (auto simp: by_setModulus_def by_updateMask_def by_inv_def rem_bit_def mask_eq_exp_minus_1 Let_def split: if_splits bit_order.splits)

text \<open>C36: With a modulus from 1 to 8 and fewer than 8 bits held back, \<open>work\<close> returns and neither loses nor adds a bit: the
  bits held back and those of the consumed bytes, in the bit order, are the bits of the produced symbols followed by
  the bits held back afterwards; the invariant holds again.\<close>

theorem bytes_to_symbols_stream:
  assumes "by_inv 8 s"
  shows "\<exists>n out t. by_work inp M s = Some (n, out, t) \<and> n \<le> length inp \<and> by_inv 8 t \<and> by_mod t = by_mod s \<and> by_order t = by_order s \<and>
     held_bits s @ concat (map (byte_bits (by_order s)) (take n inp)) = concat (map (symbol_bits (unat (by_mod s))) out) @ held_bits t"
  unfolding by_work_def by (rule by_loop_spec[OF assms])

theorem bytes_to_symbols_stream_witness:
  "\<exists>n out t. by_work [0xb1, 0x07] 100 (by_new\<lparr>by_mod := 3, by_mask := 7\<rparr>) = Some (n, out, t) \<and> n \<le> length [0xb1, 0x07 :: 8 word] \<and>
     by_inv 8 t \<and> by_mod t = 3 \<and> by_order t = LSBit \<and>
     [] @ concat (map (byte_bits LSBit) (take n [0xb1, 0x07])) = concat (map (symbol_bits (unat (3 :: 8 word))) out) @ held_bits t"
proof -
  have i: "by_inv 8 (by_new\<lparr>by_mod := 3, by_mask := 7\<rparr>)" by (simp add: by_inv_def by_new_def rem_bit_def)
  have e: "by_order (by_new\<lparr>by_mod := 3, by_mask := 7\<rparr>) = LSBit" "by_mod (by_new\<lparr>by_mod := 3, by_mask := 7\<rparr>) = 3"
    "held_bits (by_new\<lparr>by_mod := 3, by_mask := 7\<rparr>) = []" by (simp_all add: by_new_def held_bits_def)
  show ?thesis using bytes_to_symbols_stream[OF i, of "[0xb1, 0x07]" 100] unfolding e .
qed

text \<open>The inner loop does not look at the room of the output buffer: with one free element and a modulus of 1 it writes eight.\<close>

lemma output_overrun: "map_option (\<lambda>(n, out, t). (n, length out)) (by_work [0xff] 1 by_new) = Some (1, 8)"
  by (simp add: by_work_def by_new_def add_byte_def emit_symbol_def emit_symbols.simps take_bits.simps Let_def)

text \<open>A modulus of 0 is accepted, and \<open>work\<close> does not return on it.\<close>

lemma modulus_zero_accepted: "by_setModulus 0 s = Inr (by_updateMask (s\<lparr>by_mod := 0\<rparr>))"
  by (simp add: by_setModulus_def)

lemma modulus_zero_loops: "by_mod s = 0 \<Longrightarrow> emit_symbols s = None"
proof -
  have "by_mod s \<noteq> 0" if "emit_symbols s = Some r" for s r
    by (rule emit_symbols.raw_induct[where P = "\<lambda>s r. by_mod s \<noteq> 0", OF _ that])
      (auto simp: Option.bind_eq_Some_conv split: if_splits, metis emit_same(1))
  then show "by_mod s = 0 \<Longrightarrow> emit_symbols s = None" by (cases "emit_symbols s") auto
qed


section \<open>Preamble correlator\<close>

record correlator =
  pc_threshold :: int
  pc_label :: string
  pc_preamble :: "8 word list"

definition pc_new :: correlator where
  "pc_new = \<lparr>pc_threshold = 1, pc_label = ''Matched!'', pc_preamble = [1]\<rparr>"

definition pc_setPreamble :: "8 word list \<Rightarrow> correlator \<Rightarrow> correlator result" where
  "pc_setPreamble preamble s = (if preamble = [] then Inl InvalidArgumentException else Inr (s\<lparr>pc_preamble := preamble\<rparr>))"

text \<open>A read past the end of the input is None.\<close>

fun xor_dist :: "8 word list \<Rightarrow> 8 word list \<Rightarrow> int option" where
  "xor_dist [] xs = Some 0"
| "xor_dist (p # ps) [] = None"
| "xor_dist (p # ps) (x # xs) = map_option ((+) (uint (p XOR x))) (xor_dist ps xs)"

fun pc_scan :: "correlator \<Rightarrow> nat \<Rightarrow> nat \<Rightarrow> 8 word list \<Rightarrow> nat list option" where
  "pc_scan s n 0 inp = Some []"
| "pc_scan s n (Suc k) inp =
     (case xor_dist (pc_preamble s) inp of None \<Rightarrow> None
      | Some dist \<Rightarrow> map_option (\<lambda>ls. if dist \<le> pc_threshold s then (n + length (pc_preamble s)) # ls else ls) (pc_scan s (Suc n) k (List.tl inp)))"

text \<open>\<open>work\<close> gives the reserve it asks for, the number of forwarded and consumed elements and the indices of
  the posted labels.\<close>

definition pc_work :: "nat \<Rightarrow> 8 word list \<Rightarrow> correlator \<Rightarrow> (nat \<times> nat \<times> nat list) option" where
  "pc_work minElements inp s =
     (let P = length (pc_preamble s) in
      if minElements \<le> P then Some (P + 1, 0, [])
      else if length inp < P then Some (P + 1, 0, [])
      else map_option (\<lambda>ls. (P + 1, minElements - P, ls)) (pc_scan s 0 (minElements - P) inp))"

text \<open>On streams of 0 and 1 the sum of exclusive ors is the Hamming distance.\<close>

definition hamming :: "8 word list \<Rightarrow> 8 word list \<Rightarrow> nat" where
  "hamming ps xs = length (filter (\<lambda>(p, x). p \<noteq> x) (zip ps xs))"

lemma xor_dist_hamming:
  "set ps \<subseteq> {0, 1} \<Longrightarrow> set xs \<subseteq> {0, 1} \<Longrightarrow> length ps \<le> length xs \<Longrightarrow> xor_dist ps xs = Some (int (hamming ps xs))"
proof (induction ps xs rule: xor_dist.induct)
  case (3 p ps x xs)
  have "uint (p XOR x) = (if p \<noteq> x then 1 else 0)" using 3(2,3) by auto
  then show ?case using 3 by (auto simp: hamming_def)
qed (simp_all add: hamming_def)

lemma pc_scan_hamming:
  assumes "set (pc_preamble s) \<subseteq> {0, 1}"
  shows "set inp \<subseteq> {0, 1} \<Longrightarrow> k + length (pc_preamble s) \<le> Suc (length inp) \<Longrightarrow>
     pc_scan s n k inp = Some (map (\<lambda>i. n + i + length (pc_preamble s))
       (filter (\<lambda>i. int (hamming (pc_preamble s) (drop i inp)) \<le> pc_threshold s) [0..<k]))"
proof (induction k arbitrary: n inp)
  case (Suc k)
  have t: "set (List.tl inp) \<subseteq> {0, 1}" "k + length (pc_preamble s) \<le> Suc (length (List.tl inp))" "length (pc_preamble s) \<le> length inp"
    using Suc.prems by (cases inp; auto)+
  have u: "[0..<Suc k] = 0 # map Suc [0..<k]" by (simp add: upt_conv_Cons map_Suc_upt)
  show ?case unfolding u using Suc.IH[OF t(1,2), of "Suc n"] xor_dist_hamming[OF assms Suc.prems(1) t(3)]
    by (simp add: filter_map comp_def drop_Suc)
qed simp

text \<open>On a stream of 0 and 1, \<open>work\<close> never reads past the input and posts a label for exactly the positions
  whose window has at most the threshold's Hamming distance from the preamble, one preamble length after the window's start.\<close>

theorem correlator_labels:
  assumes "set (pc_preamble s) \<subseteq> {0, 1}" "set inp \<subseteq> {0, 1}" "length (pc_preamble s) < minElements" "minElements \<le> length inp"
  shows "pc_work minElements inp s = Some (length (pc_preamble s) + 1, minElements - length (pc_preamble s),
     map (\<lambda>i. i + length (pc_preamble s)) (filter (\<lambda>i. int (hamming (pc_preamble s) (drop i inp)) \<le> pc_threshold s)
       [0..<minElements - length (pc_preamble s)]))"
  using pc_scan_hamming[OF assms(1,2), of "minElements - length (pc_preamble s)" 0] assms(3,4)
  by (simp add: pc_work_def Let_def)

theorem correlator_labels_witness:
  "pc_work 5 [0, 1, 0, 1, 1] (pc_new\<lparr>pc_preamble := [1, 0], pc_threshold := 0\<rparr>) = Some (3, 3, [3])"
  using correlator_labels[of "pc_new\<lparr>pc_preamble := [1, 0], pc_threshold := 0\<rparr>" "[0, 1, 0, 1, 1]" 5]
  by (simp add: hamming_def upt_rec)

text \<open>On other bytes the sum is not a number of bits: one differing element can count for up to 255.\<close>

lemma xor_dist_not_bits: "xor_dist [1] [0xff] = Some 254"
  by simp

end
