(* ===== verification/PacketBlocks.thy ===== *)
theory PacketBlocks
  imports Ports
begin

unbundle bit_operations_syntax

text \<open>
  The blocks of pothos-blocks/packet: the checked framing of the simple MAC, the stream-to-packet and packet-to-stream
  translators and the label deframer. A block sees its input port as the queue of messages, the labels and the bytes of
  the front buffer; a call of \<open>work\<close> gives what it posts, in order, and the number of consumed bytes. The ports of these
  blocks have the unspecified data type, so the elements of the port are bytes; the data type of the buffer can be larger.
\<close>

section \<open>Packets and posts\<close>

record packet =
  pk_payload :: "byte list"
  pk_size :: usize
  pk_labels :: "label list"

datatype message = MPacket packet | MOther pobject

datatype post = PMessage message | PLabel label | PBuffer "byte list"

section \<open>CRC-8\<close>

fun crc8_bits :: "nat \<Rightarrow> 32 word \<Rightarrow> 32 word" where
  "crc8_bits 0 crc = crc"
| "crc8_bits (Suc i) crc =
     crc8_bits i (push_bit 1 (if crc AND 0x8000 \<noteq> 0 then crc XOR push_bit 3 0x1070 else crc))"

definition crc8_byte :: "byte \<Rightarrow> 32 word \<Rightarrow> 32 word" where
  "crc8_byte data crc = crc8_bits 8 (crc XOR push_bit 8 (ucast data))"

definition Crc8 :: "byte list \<Rightarrow> byte" where
  "Crc8 data = ucast (drop_bit 8 (fold crc8_byte data 0))"

section \<open>Simple MAC\<close>

text \<open>The 16-bit fields of the header in the byte order of the little-endian targets.\<close>

definition hdr_field :: "byte list \<Rightarrow> nat \<Rightarrow> nat" where
  "hdr_field p i = unat (p ! i) + 256 * unat (p ! Suc i)"

definition hdr_crc :: "byte list \<Rightarrow> nat" where "hdr_crc p = hdr_field p 0"
definition hdr_id :: "byte list \<Rightarrow> nat" where "hdr_id p = hdr_field p 2"
definition hdr_bytes :: "byte list \<Rightarrow> nat" where "hdr_bytes p = hdr_field p 6"

text \<open>The header is read before any check of the length, so a payload of less than eight bytes is read past its end: None.
  Otherwise the bytes of the packet afterwards (the check clears the crc field in place) and the length of the
  accepted payload, which starts after the header.\<close>

definition mac_unpack :: "usize \<Rightarrow> byte list \<Rightarrow> (byte list \<times> usize option) option" where
  "mac_unpack mac_id p =
     (if length p < 8 then None
      else if length p < hdr_bytes p then Some (p, None)
      else if hdr_id p \<noteq> mac_id then Some (p, None)
      else let q = p[0 := 0, 1 := 0] in
        if unat (Crc8 (take (hdr_bytes p) q)) \<noteq> hdr_crc p then Some (q, None)
        else Some (q, Some (sub64 (hdr_bytes p) 8)))"

text \<open>\<open>work\<close> takes one message from each input; extracting a packet from another message throws. An accepted payload
  is posted as its address (after the header) and length.\<close>

definition mac_work :: "usize \<Rightarrow> message list \<Rightarrow> message list \<Rightarrow> ((message list \<times> message list \<times> (byte list \<times> usize) list) result) option" where
  "mac_work mac_id phyIn macIn =
     (let phy = (case phyIn of
           [] \<Rightarrow> Some (Inr ([], []))
         | MOther m # ms \<Rightarrow> Some (Inl OtherException)
         | MPacket pk # ms \<Rightarrow> (case mac_unpack mac_id (pk_payload pk) of
             None \<Rightarrow> None
           | Some (q, None) \<Rightarrow> Some (Inr (ms, []))
           | Some (q, Some n) \<Rightarrow> Some (Inr (ms, [(drop 8 q, n)])))) in
      case phy of None \<Rightarrow> None
      | Some (Inl e) \<Rightarrow> Some (Inl e)
      | Some (Inr (phyLeft, posted)) \<Rightarrow>
          (case macIn of
             [] \<Rightarrow> Some (Inr (phyLeft, [], posted))
           | MOther m # ms \<Rightarrow> Some (Inl OtherException)
           | MPacket pk # ms \<Rightarrow> Some (Inr (phyLeft, ms, posted))))"

section \<open>The checksum detects a changed byte\<close>

text \<open>The register holds an 8-bit state in the bits 8 to 15.\<close>

definition emb :: "byte \<Rightarrow> 32 word" where
  "emb s = push_bit 8 (ucast s)"

definition crc_shift :: "byte \<Rightarrow> byte" where
  "crc_shift s = push_bit 1 s XOR (if bit s 7 then 7 else 0)"

lemma bit_emb: "bit (emb s) n \<longleftrightarrow> 8 \<le> n \<and> n < 16 \<and> bit s (n - 8)"
  using bit_imp_le_length[of s "n - 8"] unfolding emb_def by (auto simp: bit_push_bit_iff bit_ucast_iff)

lemma emb_xor: "emb s XOR emb t = emb (s XOR t)"
  by (rule bit_word_eqI) (auto simp: bit_xor_iff bit_emb)

lemma emb_inj: "emb s = emb t \<Longrightarrow> s = t"
proof (rule bit_word_eqI)
  fix n assume e: "emb s = emb t" and n: "n < LENGTH(8)"
  show "bit s n = bit t n" using bit_emb[of s "n + 8"] bit_emb[of t "n + 8"] e n by simp
qed

lemma emb_top: "(emb s AND 0x8000 \<noteq> 0) = bit s 7"
proof -
  have "emb s AND push_bit 15 1 = (if bit s 7 then push_bit 15 1 else 0)"
  proof (rule bit_word_eqI)
    fix n assume "n < LENGTH(32)"
    have l: "bit (push_bit 15 1 :: 32 word) n \<longleftrightarrow> n = 15"
      by (auto simp only: bit_push_bit_iff bit_1_iff possible_bit_word, simp_all)
    show "bit (emb s AND push_bit 15 1) n \<longleftrightarrow> bit (if bit s 7 then push_bit 15 1 else 0 :: 32 word) n"
      using bit_emb[of s 15] unfolding bit_and_iff l by (cases "n = 15"; cases "bit s 7") (simp_all only: l if_True if_False bit_0_eq bot_apply, simp_all)
  qed
  then show ?thesis by (auto split: if_splits)
qed

lemma emb_shift: "push_bit 1 (emb s) = emb (push_bit 1 s) XOR (if bit s 7 then push_bit 16 1 else 0)"
proof (rule bit_word_eqI)
  fix n assume n: "n < LENGTH(32)"
  have l: "bit (push_bit 1 (emb s)) n \<longleftrightarrow> 9 \<le> n \<and> n \<le> 16 \<and> bit s (n - 9)"
    using n by (auto simp: bit_push_bit_iff bit_emb simp del: One_nat_def)
  have r: "bit (emb (push_bit 1 s)) n \<longleftrightarrow> 9 \<le> n \<and> n < 16 \<and> bit s (n - 9)"
    unfolding bit_emb by (auto simp: bit_push_bit_iff simp del: One_nat_def)
  have k: "bit (if bit s 7 then push_bit 16 1 else 0 :: 32 word) n \<longleftrightarrow> bit s 7 \<and> n = 16"
    by (cases "bit s 7") (auto simp only: bit_push_bit_iff bit_1_iff bit_0_eq possible_bit_word if_True if_False bot_apply, simp_all)
  show "bit (push_bit 1 (emb s)) n \<longleftrightarrow> bit (emb (push_bit 1 s) XOR (if bit s 7 then push_bit 16 1 else 0)) n"
    unfolding bit_xor_iff l r k by (cases "n = 16") auto
qed

lemma crc8_one: "push_bit 1 (if emb s AND 0x8000 \<noteq> 0 then emb s XOR push_bit 3 0x1070 else emb s) = emb (crc_shift s)"
proof (cases "bit s 7")
  case True
  have e: "push_bit 16 1 XOR push_bit 1 (push_bit 3 0x1070) = emb 7" by code_simp
  have "push_bit 1 (emb s XOR push_bit 3 0x1070) = (emb (push_bit 1 s) XOR push_bit 16 1) XOR push_bit 1 (push_bit 3 0x1070)"
    unfolding push_bit_xor emb_shift using True by simp
  also have "\<dots> = emb (push_bit 1 s) XOR emb 7" unfolding e[symmetric] by (simp only: xor.assoc)
  finally show ?thesis using True emb_top[of s] by (simp add: emb_xor crc_shift_def)
next
  case False
  then show ?thesis using emb_top[of s] emb_shift[of s] by (simp add: crc_shift_def)
qed

lemma crc8_bits_emb: "crc8_bits n (emb s) = emb ((crc_shift ^^ n) s)"
proof (induction n arbitrary: s)
  case (Suc n)
  show ?case by (simp only: crc8_bits.simps crc8_one Suc.IH funpow_Suc_right comp_apply)
qed simp

definition crc_next :: "byte \<Rightarrow> byte \<Rightarrow> byte" where
  "crc_next b s = (crc_shift ^^ 8) (s XOR b)"

lemma crc8_byte_emb: "crc8_byte b (emb s) = emb (crc_next b s)"
proof -
  have "emb s XOR push_bit 8 (ucast b) = emb (s XOR b)" unfolding emb_xor[symmetric] by (simp only: emb_def)
  then show ?thesis unfolding crc8_byte_def crc_next_def by (simp only: crc8_bits_emb)
qed

lemma Crc8_state: "Crc8 data = fold crc_next data 0"
proof -
  have f: "fold crc8_byte data (emb s) = emb (fold crc_next data s)" for s
    by (induction data arbitrary: s) (simp_all add: crc8_byte_emb)
  have z: "emb 0 = 0" by (simp add: emb_def)
  have "ucast (drop_bit 8 (emb s)) = s" for s
    by (rule bit_word_eqI) (auto simp: bit_ucast_iff bit_drop_bit_eq bit_emb)
  then show ?thesis unfolding Crc8_def using f[of 0] by (simp add: z)
qed

text \<open>A shift can be undone, so two registers that differ never meet again under the same bytes.\<close>

lemma crc_shift_inj: "crc_shift s = crc_shift t \<Longrightarrow> s = t"
proof -
  assume e: "crc_shift s = crc_shift t"
  have b: "bit (crc_shift u) 0 = bit u 7" for u
    unfolding crc_shift_def bit_xor_iff bit_push_bit_iff by simp
  have top: "bit s 7 = bit t 7" using b[of s] b[of t] e by simp
  have "(crc_shift u) XOR (if bit u 7 then 7 else 0) = push_bit 1 u" for u by (simp add: crc_shift_def xor.assoc)
  then have p: "push_bit 1 s = push_bit 1 t" using e top by metis
  show "s = t"
  proof (rule bit_word_eqI)
    fix n assume n: "n < LENGTH(8)"
    show "bit s n = bit t n"
    proof (cases "n = 7")
      case False
      have "bit (push_bit 1 u) (Suc n) = bit u n" for u :: byte using n False by (auto simp only: bit_push_bit_iff possible_bit_word, simp_all)
      then show ?thesis using p by metis
    qed (use top in simp)
  qed
qed

lemma crc_next_inj: "crc_next b s = crc_next c t \<Longrightarrow> s XOR b = t XOR c"
proof -
  have "(crc_shift ^^ n) u = (crc_shift ^^ n) v \<Longrightarrow> u = v" for n u v
    by (induction n) (auto dest: crc_shift_inj)
  then show "crc_next b s = crc_next c t \<Longrightarrow> s XOR b = t XOR c" unfolding crc_next_def by blast
qed

lemma xor_right_cancel: "(a :: byte) XOR c = b XOR c \<Longrightarrow> a = b"
proof -
  assume "a XOR c = b XOR c"
  then have "(a XOR c) XOR c = (b XOR c) XOR c" by simp
  then show "a = b" by (simp only: xor.assoc xor_self_eq xor.right_neutral)
qed

lemma fold_crc_inj: "fold crc_next data s = fold crc_next data t \<Longrightarrow> s = t"
proof (induction data arbitrary: s t)
  case (Cons b data)
  then have "crc_next b s = crc_next b t" by simp
  then show ?case using crc_next_inj xor_right_cancel by blast
qed simp

lemma Crc8_one_byte:
  assumes "i < length data" "b \<noteq> data ! i"
  shows "Crc8 (data[i := b]) \<noteq> Crc8 data"
proof
  assume e: "Crc8 (data[i := b]) = Crc8 data"
  let ?s = "fold crc_next (take i data) 0" and ?rest = "drop (Suc i) data"
  have d: "data[i := b] = take i data @ b # ?rest" "data = take i data @ data ! i # ?rest"
    using assms(1) by (simp_all add: upd_conv_take_nth_drop id_take_nth_drop[symmetric])
  have "fold crc_next ?rest (crc_next b ?s) = fold crc_next (data[i := b]) 0" unfolding d(1) by simp
  also have "\<dots> = fold crc_next data 0" using e unfolding Crc8_state .
  also have "\<dots> = fold crc_next ?rest (crc_next (data ! i) ?s)" by (subst (1) d(2)) simp
  finally have "crc_next b ?s = crc_next (data ! i) ?s" by (rule fold_crc_inj)
  then have "?s XOR b = ?s XOR data ! i" by (rule crc_next_inj)
  then have "b = data ! i" using xor_right_cancel[of b ?s "data ! i"] by (simp only: xor.commute)
  then show False using assms(2) by blast
qed


lemma hdr_field_other: "i \<noteq> j \<Longrightarrow> i \<noteq> Suc j \<Longrightarrow> hdr_field (p[i := b]) j = hdr_field p j"
  by (simp add: hdr_field_def)

lemma byte_lt256: "unat (b :: byte) < 256"
proof -
  have "unat b < 2 ^ LENGTH(8)" by (rule unsigned_less)
  then show ?thesis by simp
qed

lemma hdr_field_changed:
  assumes "i = j \<or> i = Suc j" "Suc j < length p" "b \<noteq> p ! i"
  shows "hdr_field (p[i := b]) j \<noteq> hdr_field p j"
proof
  assume "hdr_field (p[i := b]) j = hdr_field p j"
  moreover have "unat b \<noteq> unat (p ! i)" using assms(3) by (meson unsigned_word_eqI)
  ultimately show False using assms(1,2) by (auto simp: hdr_field_def)
qed

lemma mac_rejects_inside:
  assumes "mac_unpack mac_id p = Some (q, Some n)" "i < hdr_bytes p \<or> i < 4" "i \<notin> {6, 7}" "b \<noteq> p ! i"
  shows "\<exists>r. mac_unpack mac_id (p[i := b]) = Some (r, None)"
proof -
  let ?p = "p[i := b]" and ?q = "p[0 := 0, 1 := 0]"
  have ok: "8 \<le> length p" "hdr_bytes p \<le> length p" "hdr_id p = mac_id" "unat (Crc8 (take (hdr_bytes p) ?q)) = hdr_crc p"
    using assms(1) by (auto simp: mac_unpack_def Let_def split: if_splits)
  have bytes: "hdr_bytes ?p = hdr_bytes p" using assms(3) unfolding hdr_bytes_def by (intro hdr_field_other) auto
  consider "i = 2 \<or> i = 3" | "i = 0 \<or> i = 1" | "i \<notin> {0, 1, 2, 3}" "i < hdr_bytes p"
    using assms(2) by (cases "i < 4") (auto simp: less_Suc_eq numeral_eq_Suc)
  then show ?thesis
  proof cases
    case 1
    have "hdr_id ?p \<noteq> hdr_id p" unfolding hdr_id_def by (rule hdr_field_changed) (use 1 ok(1) assms(4) in auto)
    then show ?thesis using ok bytes by (simp add: mac_unpack_def)
  next
    case 2
    have "hdr_crc ?p \<noteq> hdr_crc p" unfolding hdr_crc_def by (rule hdr_field_changed) (use 2 ok(1) assms(4) in auto)
    moreover have "?p[0 := 0, 1 := 0] = ?q" using 2 by (auto simp: list_update_swap)
    moreover have "hdr_id ?p = hdr_id p" unfolding hdr_id_def by (rule hdr_field_other) (use 2 in auto)
    ultimately show ?thesis using ok bytes by (simp add: mac_unpack_def Let_def)
  next
    case 3
    have id: "hdr_id ?p = hdr_id p" "hdr_crc ?p = hdr_crc p"
      using 3 unfolding hdr_id_def hdr_crc_def by (simp_all add: hdr_field_other)
    have clr: "?p[0 := 0, 1 := 0] = ?q[i := b]" using 3 by (simp add: list_update_swap)
    have "?q ! i = p ! i" using 3 by simp
    then have "b \<noteq> take (hdr_bytes p) ?q ! i" using 3 assms(4) by simp
    then have "Crc8 ((take (hdr_bytes p) ?q)[i := b]) \<noteq> Crc8 (take (hdr_bytes p) ?q)"
      using 3 ok(2) by (intro Crc8_one_byte) auto
    then have "Crc8 (take (hdr_bytes p) (?p[0 := 0, 1 := 0])) \<noteq> Crc8 (take (hdr_bytes p) ?q)"
      unfolding clr by (simp add: take_update_swap)
    then have "unat (Crc8 (take (hdr_bytes p) (?p[0 := 0, 1 := 0]))) \<noteq> hdr_crc p"
      using ok(4) by (metis unsigned_word_eqI)
    then show ?thesis using ok id bytes by (simp add: mac_unpack_def Let_def)
  qed
qed

text \<open>The checksum covers the length that the header states: a byte behind it does not matter.\<close>

lemma mac_accepts_behind:
  assumes "mac_unpack mac_id p = Some (q, Some n)" "hdr_bytes p \<le> i" "4 \<le> i" "i \<notin> {6, 7}"
  shows "mac_unpack mac_id (p[i := b]) = Some (q[i := b], Some n)"
proof -
  let ?p = "p[i := b]" and ?q = "p[0 := 0, 1 := 0]"
  have "hdr_bytes ?p = hdr_bytes p" "hdr_id ?p = hdr_id p" "hdr_crc ?p = hdr_crc p"
    using assms(3,4) unfolding hdr_bytes_def hdr_id_def hdr_crc_def by (auto intro!: hdr_field_other)
  moreover have "?p[0 := 0, 1 := 0] = ?q[i := b]" using assms(3) by (simp add: list_update_swap)
  moreover have "take (hdr_bytes p) (?q[i := b]) = take (hdr_bytes p) ?q" using assms(2) by simp
  ultimately show ?thesis using assms(1) by (auto simp: mac_unpack_def Let_def split: if_splits)
qed

text \<open>C33: Of an accepted packet, one byte outside the length field is changed. The MAC rejects the changed packet exactly if the
  byte is in the fields for the checksum and the id (the first four bytes) or lies within the length that the header
  states; a byte behind that length is not protected, and the packet is accepted with the same payload length.\<close>

theorem mac_detects:
  assumes "mac_unpack mac_id p = Some (q, Some n)" "i \<notin> {6, 7}" "b \<noteq> p ! i"
  shows "mac_unpack mac_id (p[i := b]) = Some (q[i := b], Some n) \<and> 4 \<le> i \<and> hdr_bytes p \<le> i \<or>
    (\<exists>r. mac_unpack mac_id (p[i := b]) = Some (r, None)) \<and> (i < 4 \<or> i < hdr_bytes p)"
  using mac_rejects_inside[OF assms(1) _ assms(2,3)] mac_accepts_behind[OF assms(1) _ _ assms(2)] by (meson not_le)

lemma mac_unpack_list:
  "mac_unpack mac_id (c # c' # d # d' # s # s' # n # n' # data) =
     (let bytes = unat n + 256 * unat n'; q = 0 # 0 # d # d' # s # s' # n # n' # data in
      if length q < bytes \<or> unat d + 256 * unat d' \<noteq> mac_id then Some (c # c' # d # d' # s # s' # n # n' # data, None)
      else if unat (Crc8 (take bytes q)) \<noteq> unat c + 256 * unat c' then Some (q, None)
      else Some (q, Some (sub64 bytes 8)))"
  by (simp add: mac_unpack_def hdr_bytes_def hdr_id_def hdr_crc_def hdr_field_def Let_def)

lemma mac_demo: "mac_unpack 0 [58, 0, 0, 0, 0, 0, 9, 0, 0, 33] = Some ([0, 0, 0, 0, 0, 0, 9, 0, 0, 33], Some 1)"
proof -
  have "Crc8 [0, 0, 0, 0, 0, 0, 9, 0, 0] = 58" by code_simp
  then show ?thesis unfolding mac_unpack_list by (simp add: sub64_def SIZE_MOD_def)
qed

theorem mac_detects_witness:
  "(\<exists>r. mac_unpack 0 ([58, 0, 0, 0, 0, 0, 9, 0, 0, 33][8 := 1]) = Some (r, None)) \<and>
   mac_unpack 0 ([58, 0, 0, 0, 0, 0, 9, 0, 0, 33][9 := 1]) = Some ([0, 0, 0, 0, 0, 0, 9, 0, 0, 1], Some 1)"
  using mac_detects[OF mac_demo, of 8 1] mac_detects[OF mac_demo, of 9 1] by (simp add: hdr_bytes_def hdr_field_def)

text \<open>The length field is not checked against the header's size: eight zero bytes are accepted, with a payload length that
  wraps around.\<close>

lemma zero_packet_accepted: "mac_unpack 0 [0, 0, 0, 0, 0, 0, 0, 0] = Some ([0, 0, 0, 0, 0, 0, 0, 0], Some 18446744073709551608)"
  unfolding mac_unpack_list by (simp add: Crc8_state sub64_def SIZE_MOD_def)


section \<open>Stream to packet, packet to stream\<close>

record in_view =
  iv_msgs :: "message list"
  iv_labels :: "label list"
  iv_bytes :: "byte list"
  iv_size :: usize

definition s2p_payload_length :: "usize \<Rightarrow> in_view \<Rightarrow> usize" where
  "s2p_payload_length mtu v =
     (if mtu \<noteq> 0 then min ((mtu div iv_size v) * iv_size v) (length (iv_bytes v)) else length (iv_bytes v))"

text \<open>The labels are taken in order up to the first one past the payload.\<close>

fun s2p_labels :: "usize \<Rightarrow> usize \<Rightarrow> label list \<Rightarrow> label list" where
  "s2p_labels sz elements [] = []"
| "s2p_labels sz elements (l # ls) =
     (let pktLabel = lb_toAdjusted 1 sz l in
      if lb_index pktLabel \<ge> elements then [] else pktLabel # s2p_labels sz elements ls)"

definition s2p_work :: "usize \<Rightarrow> in_view \<Rightarrow> post list \<times> message list \<times> usize" where
  "s2p_work mtu v =
     (let (posts, left) = (case iv_msgs v of [] \<Rightarrow> ([], []) | m # ms \<Rightarrow> ([PMessage m], ms)) in
      if length (iv_bytes v) = 0 then (posts, left, 0)
      else let n = s2p_payload_length mtu v;
               pk = \<lparr>pk_payload = take n (iv_bytes v), pk_size = iv_size v,
                     pk_labels = s2p_labels (iv_size v) (n div iv_size v) (iv_labels v)\<rparr>
           in (posts @ [PMessage (MPacket pk)], left, n))"

definition p2s_work :: "message list \<Rightarrow> post list \<times> message list" where
  "p2s_work msgs = (case msgs of
     [] \<Rightarrow> ([], [])
   | MOther m # ms \<Rightarrow> ([PMessage (MOther m)], ms)
   | MPacket pk # ms \<Rightarrow> (map (\<lambda>l. PLabel (lb_toAdjusted (pk_size pk) 1 l)) (pk_labels pk) @ [PBuffer (pk_payload pk)], ms))"

text \<open>Labels on whole elements of a buffer.\<close>

definition on_elements :: "usize \<Rightarrow> label \<Rightarrow> bool" where
  "on_elements sz l \<longleftrightarrow> sz dvd lb_index l \<and> sz dvd lb_width l \<and> lb_index l < SIZE_MOD \<and> lb_width l < SIZE_MOD"

lemma adjust_back: "0 < sz \<Longrightarrow> on_elements sz l \<Longrightarrow> lb_toAdjusted sz 1 (lb_toAdjusted 1 sz l) = l"
  by (cases l) (simp add: on_elements_def lb_toAdjusted_def mul64_exact)

lemma s2p_labels_back:
  assumes "0 < sz"
  shows "list_all (on_elements sz) ls \<Longrightarrow> map (lb_toAdjusted sz 1) (s2p_labels sz n ls) = takeWhile (\<lambda>l. lb_index l < n * sz) ls"
proof (induction ls)
  case (Cons l ls)
  have i: "lb_index (lb_toAdjusted 1 sz l) = lb_index l div sz"
    using Cons.prems by (simp add: lb_toAdjusted_def on_elements_def mul64_exact)
  have "(n \<le> lb_index l div sz) = (\<not> lb_index l < n * sz)" using assms by (simp add: less_eq_div_iff_mult_less_eq not_less)
  then show ?case using Cons adjust_back[OF assms, of l] i by (simp add: Let_def)
qed simp

text \<open>A packet that is turned back into a stream posts again the consumed bytes of the input buffer and, at their byte
  positions, the labels up to the end of the payload.\<close>

theorem packet_stream_roundtrip:
  assumes "0 < iv_size v" "iv_size v dvd length (iv_bytes v)" "iv_bytes v \<noteq> []" "iv_msgs v = []"
    and "list_all (on_elements (iv_size v)) (iv_labels v)" "s2p_work mtu v = ([PMessage m], left, n)"
  shows "p2s_work [m] = (map PLabel (takeWhile (\<lambda>l. lb_index l < n) (iv_labels v)) @ [PBuffer (take n (iv_bytes v))], [])"
proof -
  let ?sz = "iv_size v"
  have m: "m = MPacket \<lparr>pk_payload = take n (iv_bytes v), pk_size = ?sz, pk_labels = s2p_labels ?sz (n div ?sz) (iv_labels v)\<rparr>"
    and n: "n = s2p_payload_length mtu v"
    using assms(3,4,6) by (auto simp: s2p_work_def Let_def)
  have "?sz dvd n" using assms(2) unfolding n s2p_payload_length_def by (simp add: min_def)
  then have "map (lb_toAdjusted ?sz 1) (s2p_labels ?sz (n div ?sz) (iv_labels v)) = takeWhile (\<lambda>l. lb_index l < n) (iv_labels v)"
    using s2p_labels_back[OF assms(1,5), of "n div ?sz"] by simp
  then have "map (\<lambda>l. PLabel (lb_toAdjusted ?sz 1 l)) (s2p_labels ?sz (n div ?sz) (iv_labels v)) =
      map PLabel (takeWhile (\<lambda>l. lb_index l < n) (iv_labels v))"
    by (metis (no_types, lifting) map_map comp_apply map_eq_conv)
  then show ?thesis unfolding m by (simp add: p2s_work_def)
qed

definition demo_view :: in_view where
  "demo_view = \<lparr>iv_msgs = [], iv_labels = [lb_new ''a'' ObNull 2 2, lb_new ''b'' ObNull 4 2], iv_bytes = [1, 2, 3, 4, 5, 6], iv_size = 2\<rparr>"

theorem packet_stream_roundtrip_witness:
  "p2s_work [MPacket \<lparr>pk_payload = [1, 2, 3, 4], pk_size = 2, pk_labels = [lb_new ''a'' ObNull 1 1]\<rparr>] =
     ([PLabel (lb_new ''a'' ObNull 2 2), PBuffer [1, 2, 3, 4]], [])"
proof -
  have w: "s2p_work 5 demo_view =
      ([PMessage (MPacket \<lparr>pk_payload = [1, 2, 3, 4], pk_size = 2, pk_labels = [lb_new ''a'' ObNull 1 1]\<rparr>)], [], 4)"
    by (simp add: s2p_work_def demo_view_def s2p_payload_length_def lb_toAdjusted_def lb_new_def mul64_def SIZE_MOD_def)
  have o: "list_all (on_elements (iv_size demo_view)) (iv_labels demo_view)"
    by (simp add: demo_view_def on_elements_def lb_new_def SIZE_MOD_def)
  show ?thesis using packet_stream_roundtrip[OF _ _ _ _ o w] by (simp add: demo_view_def lb_new_def)
qed

text \<open>An MTU smaller than an element leaves no room: every call posts an empty packet and consumes nothing.\<close>

lemma small_mtu_stalls:
  assumes "0 < mtu" "mtu < iv_size v" "iv_bytes v \<noteq> []" "iv_msgs v = []"
  shows "\<exists>pk. s2p_work mtu v = ([PMessage (MPacket pk)], [], 0) \<and> pk_payload pk = []"
  using assms by (simp add: s2p_work_def s2p_payload_length_def Let_def)


section \<open>Label deframer\<close>

record deframer =
  fr_packetLength :: usize
  fr_frameStartLabel :: string

definition fr_new :: deframer where
  "fr_new = \<lparr>fr_packetLength = 1, fr_frameStartLabel = ''Matched!''\<rparr>"

text \<open>The loop over the labels leaves early to skip to a frame or to wait for more data, or ends with the flag and the
  labels of the packet.\<close>

datatype fr_scan = SkipTo usize | WaitData | ScanEnd bool "label list"

fun fr_loop :: "deframer \<Rightarrow> usize \<Rightarrow> label list \<Rightarrow> bool \<Rightarrow> label list \<Rightarrow> fr_scan" where
  "fr_loop d inLen [] frameFound acc = ScanEnd frameFound acc"
| "fr_loop d inLen (l # ls) frameFound acc =
     (if lb_index l \<ge> inLen then fr_loop d inLen ls frameFound acc
      else if lb_id l \<noteq> fr_frameStartLabel d then
        fr_loop d inLen ls frameFound (if frameFound \<and> lb_index l < fr_packetLength d then acc @ [l] else acc)
      else if lb_index l \<noteq> 0 \<and> \<not> frameFound then SkipTo (lb_index l)
      else if lb_index l = 0 \<and> inLen < fr_packetLength d then WaitData
      else fr_loop d inLen ls (frameFound \<or> lb_index l = 0) acc)"

text \<open>The posted packets, the consumed bytes and the requested reserve.\<close>

definition fr_work :: "deframer \<Rightarrow> in_view \<Rightarrow> post list \<times> usize \<times> usize option" where
  "fr_work d v =
     (if length (iv_bytes v) = 0 then ([], 0, None)
      else let inLen = (length (iv_bytes v) div iv_size v) * iv_size v in
        case fr_loop d inLen (iv_labels v) False [] of
          SkipTo n \<Rightarrow> ([], n, Some (fr_packetLength d))
        | WaitData \<Rightarrow> ([], 0, Some (fr_packetLength d))
        | ScanEnd False ls \<Rightarrow> ([], inLen, None)
        | ScanEnd True ls \<Rightarrow>
            ([PMessage (MPacket \<lparr>pk_payload = take (fr_packetLength d) (iv_bytes v), pk_size = iv_size v, pk_labels = ls\<rparr>)],
             fr_packetLength d, None))"

definition frame_start :: "deframer \<Rightarrow> usize \<Rightarrow> label \<Rightarrow> bool" where
  "frame_start d inLen l \<longleftrightarrow> lb_index l < inLen \<and> lb_id l = fr_frameStartLabel d"

definition frame_label :: "deframer \<Rightarrow> usize \<Rightarrow> label \<Rightarrow> bool" where
  "frame_label d inLen l \<longleftrightarrow> lb_index l < min inLen (fr_packetLength d) \<and> lb_id l \<noteq> fr_frameStartLabel d"

lemma fr_loop_found:
  "fr_packetLength d \<le> inLen \<Longrightarrow> fr_loop d inLen ls True acc = ScanEnd True (acc @ filter (frame_label d inLen) ls)"
  by (induction ls arbitrary: acc) (auto simp: frame_label_def)

lemma fr_loop_search:
  "fr_loop d inLen ls False [] =
     (case dropWhile (\<lambda>l. \<not> frame_start d inLen l) ls of
        [] \<Rightarrow> ScanEnd False []
      | l # rest \<Rightarrow> if lb_index l \<noteq> 0 then SkipTo (lb_index l)
                  else if inLen < fr_packetLength d then WaitData
                  else ScanEnd True (filter (frame_label d inLen) rest))"
  by (induction ls) (auto simp: frame_start_def fr_loop_found)

text \<open>One call of the deframer looks for the first start label inside the buffer: without one it drops the buffer, with
  one further on it skips to it, with one at the front it waits until the whole packet is there and then cuts
  exactly the packet's length, with the other labels that lie inside the packet.\<close>

theorem deframer_cuts:
  "fr_work d v =
     (let inLen = (length (iv_bytes v) div iv_size v) * iv_size v in
      if iv_bytes v = [] then ([], 0, None)
      else case dropWhile (\<lambda>l. \<not> frame_start d inLen l) (iv_labels v) of
        [] \<Rightarrow> ([], inLen, None)
      | l # rest \<Rightarrow>
          if lb_index l \<noteq> 0 then ([], lb_index l, Some (fr_packetLength d))
          else if inLen < fr_packetLength d then ([], 0, Some (fr_packetLength d))
          else ([PMessage (MPacket \<lparr>pk_payload = take (fr_packetLength d) (iv_bytes v), pk_size = iv_size v,
                  pk_labels = filter (frame_label d inLen) rest\<rparr>)], fr_packetLength d, None))"
proof (cases "dropWhile (\<lambda>l. \<not> frame_start d ((length (iv_bytes v) div iv_size v) * iv_size v) l) (iv_labels v)")
  case Nil
  show ?thesis unfolding fr_work_def fr_loop_search Let_def Nil by simp
next
  case (Cons l rest)
  show ?thesis unfolding fr_work_def fr_loop_search Let_def Cons by simp
qed

text \<open>The cut never reads past the buffer.\<close>

lemma deframer_in_range:
  assumes "fr_work d v = (ps, n, r)" "PMessage (MPacket pk) \<in> set ps"
  shows "n = fr_packetLength d \<and> n \<le> length (iv_bytes v) \<and> length (pk_payload pk) = n"
proof -
  have le: "\<not> (length (iv_bytes v) div iv_size v) * iv_size v < k \<Longrightarrow> k \<le> length (iv_bytes v)" for k
    by (meson div_times_less_eq_dividend leI order_trans)
  show ?thesis using assms unfolding fr_work_def fr_loop_search
    by (auto simp: Let_def split: if_splits list.splits dest!: le)
qed

text \<open>A packet length of 0 posts empty packets without consuming anything.\<close>

lemma empty_frames:
  assumes "fr_packetLength d = 0" "iv_size v = 1" "iv_bytes v \<noteq> []" "iv_labels v = [lb_new (fr_frameStartLabel d) ObNull 0 1]"
  shows "\<exists>pk. fr_work d v = ([PMessage (MPacket pk)], 0, None) \<and> pk_payload pk = []"
  using assms by (simp add: fr_work_def lb_new_def Let_def)

end
