(* ===== verification/Callables.thy ===== *)
theory Callables
  imports Prelude "HOL-Library.Word"
begin

unbundle bit_operations_syntax

text \<open>
  Opaque objects, callables and conversions (pothos-library/lib/Callable/Callable.cpp, Object/Convert.cpp,
  Object/Object.cpp). A type is the value of its \<open>hash_code\<close>; an object carries its type and an identifier of the
  contained value; an object that holds an object is \<open>Wrapped\<close>, and the arguments of opaque calls
  are an object that points to an array of objects, strings and sizes. A wrapped C++ function is its argument types,
  its return type and a function on objects that can throw. Converting calls callables and calling converts the
  arguments, so both functions take fuel; running out of it is None.
\<close>

section \<open>Objects and callables\<close>

type_synonym tinfo = "64 word"

datatype obj = NullObj | Val tinfo nat | Wrapped obj | ArgPtr "obj list" | Str string | SizeT nat

datatype obj_error = CallableNullError | CallableArgumentError | ObjectConvertError | CalleeError nat

text \<open>The types that the code names.\<close>

record type_names =
  tn_null :: tinfo
  tn_object :: tinfo
  tn_void :: tinfo
  tn_argptr :: tinfo
  tn_string :: tinfo
  tn_size :: tinfo

fun obj_type :: "type_names \<Rightarrow> obj \<Rightarrow> tinfo" where
  "obj_type T NullObj = tn_null T"
| "obj_type T (Val t v) = t"
| "obj_type T (Wrapped x) = tn_object T"
| "obj_type T (ArgPtr args) = tn_argptr T"
| "obj_type T (Str s) = tn_string T"
| "obj_type T (SizeT n) = tn_size T"

record cimpl =
  ci_args :: "tinfo list"
  ci_ret :: tinfo
  ci_call :: "obj list \<Rightarrow> obj_error + obj"

record callable =
  cl_impl :: "cimpl option"
  cl_bound :: "obj list"

definition impl_type :: "cimpl \<Rightarrow> int \<Rightarrow> tinfo" where
  "impl_type ci argNo = (if 0 \<le> argNo \<and> nat argNo < length (ci_args ci) then ci_args ci ! nat argNo else ci_ret ci)"

definition bound_at :: "callable \<Rightarrow> nat \<Rightarrow> obj" where
  "bound_at c i = (if i < length (cl_bound c) then cl_bound c ! i else NullObj)"

text \<open>\<open>bind\<close> and \<open>unbind\<close>; a null object is no binding.\<close>

definition cl_bind :: "obj \<Rightarrow> nat \<Rightarrow> callable \<Rightarrow> callable" where
  "cl_bind val argNo c =
     (let b = (if length (cl_bound c) \<le> argNo then cl_bound c @ replicate (argNo + 1 - length (cl_bound c)) NullObj else cl_bound c)
      in c\<lparr>cl_bound := b[argNo := val]\<rparr>)"

definition cl_unbind :: "nat \<Rightarrow> callable \<Rightarrow> callable" where
  "cl_unbind argNo c = cl_bind NullObj argNo c"

definition cl_getNumArgs :: "callable \<Rightarrow> obj_error + nat" where
  "cl_getNumArgs c = (case cl_impl c of
     None \<Rightarrow> Inl CallableNullError
   | Some ci \<Rightarrow> Inr (foldl (\<lambda>n i. if cl_bound c ! i \<noteq> NullObj then n - 1 else n) (length (ci_args ci))
       [0..<min (length (ci_args ci)) (length (cl_bound c))]))"

text \<open>The loop that counts the bound arguments before the unbound argument \<open>argNo\<close>.\<close>

fun skip_bound :: "obj list \<Rightarrow> nat \<Rightarrow> int \<Rightarrow> int \<Rightarrow> int" where
  "skip_bound [] i argNo skipped = skipped"
| "skip_bound (b # bs) i argNo skipped =
     (if b \<noteq> NullObj then skip_bound bs (Suc i) argNo (skipped + 1)
      else if int i = argNo + skipped then skipped
      else skip_bound bs (Suc i) argNo skipped)"

definition cl_type :: "callable \<Rightarrow> int \<Rightarrow> obj_error + tinfo" where
  "cl_type c argNo = (case cl_impl c of
     None \<Rightarrow> Inl CallableNullError
   | Some ci \<Rightarrow>
       (if argNo < -1 then Inl CallableArgumentError
        else case cl_getNumArgs c of
          Inl e \<Rightarrow> Inl e
        | Inr n \<Rightarrow>
            (if argNo \<ge> int n then Inl CallableArgumentError
             else if argNo = -1 then Inr (impl_type ci (-1))
             else Inr (impl_type ci (argNo + skip_bound (cl_bound c) 0 argNo 0)))))"

section \<open>Calls\<close>

type_synonym conversion = "obj \<Rightarrow> tinfo \<Rightarrow> (obj_error + obj) option"

text \<open>The loop that combines bound and input arguments and converts each of them; an error of the conversion becomes an
  argument error.\<close>

fun call_args :: "conversion \<Rightarrow> tinfo list \<Rightarrow> obj list \<Rightarrow> obj list \<Rightarrow> (obj_error + obj list) option" where
  "call_args conv [] bound inputs = Some (Inr [])"
| "call_args conv (t # ts) bound inputs =
     (let b = (case bound of [] \<Rightarrow> NullObj | b # _ \<Rightarrow> b);
          rest = (case bound of [] \<Rightarrow> [] | _ # bs \<Rightarrow> bs);
          pick = (if b \<noteq> NullObj then Some (b, inputs) else case inputs of [] \<Rightarrow> None | x # xs \<Rightarrow> Some (x, xs)) in
      case pick of
        None \<Rightarrow> Some (Inl CallableArgumentError)
      | Some (arg, inputs) \<Rightarrow>
          (case conv arg t of
             None \<Rightarrow> None
           | Some (Inl e) \<Rightarrow> Some (Inl (if e = ObjectConvertError then CallableArgumentError else e))
           | Some (Inr a) \<Rightarrow> map_option (map_sum id ((#) a)) (call_args conv ts rest inputs)))"

definition MAX_SUPPORTED_NUM_ARGS :: nat where
  "MAX_SUPPORTED_NUM_ARGS = 13"

definition opaque_with :: "conversion \<Rightarrow> callable \<Rightarrow> obj list \<Rightarrow> (obj_error + obj) option" where
  "opaque_with conv c inputs = (case cl_impl c of
     None \<Rightarrow> Some (Inl CallableNullError)
   | Some ci \<Rightarrow>
       (if length (ci_args ci) > MAX_SUPPORTED_NUM_ARGS then Some (Inl CallableNullError)
        else case call_args conv (ci_args ci) (cl_bound c) inputs of
          None \<Rightarrow> None
        | Some (Inl e) \<Rightarrow> Some (Inl e)
        | Some (Inr args) \<Rightarrow> Some (ci_call ci args)))"

section \<open>The registry of conversions\<close>

text \<open>A plugin holds no object, a callable or an object of another type.\<close>

datatype plug = PlugNull | PlugCall callable | PlugOther

record convert_maps =
  cm_map :: "(tinfo \<times> plug) list"
  cm_io :: "(tinfo \<times> tinfo list) list"

definition poco_hash :: "64 word \<Rightarrow> 64 word" where
  "poco_hash n = n * 2654435761"

definition typesHashCombine :: "tinfo \<Rightarrow> tinfo \<Rightarrow> 64 word" where
  "typesHashCombine inTypeHash outTypeHash = inTypeHash XOR poco_hash outTypeHash"

definition io_types :: "convert_maps \<Rightarrow> tinfo \<Rightarrow> tinfo list" where
  "io_types m t = (case smap_find t (cm_io m) of None \<Rightarrow> [] | Some s \<Rightarrow> s)"

text \<open>An exception (of a null callable) is logged and leaves the maps as they are.\<close>

definition handleConvertPluginEvent :: "type_names \<Rightarrow> plug \<Rightarrow> string \<Rightarrow> convert_maps \<Rightarrow> convert_maps" where
  "handleConvertPluginEvent T plugin event m = (case plugin of
     PlugNull \<Rightarrow> m
   | PlugOther \<Rightarrow> m
   | PlugCall call \<Rightarrow>
       (case (cl_type call (-1), cl_getNumArgs call, cl_type call 0) of
          (Inr outputType, Inr n, inputResult) \<Rightarrow>
            (if outputType = tn_void T \<or> n \<noteq> 1 then m
             else case inputResult of Inl e \<Rightarrow> m
             | Inr inputType \<Rightarrow>
                 let key = typesHashCombine inputType outputType in
                 if event = ''add'' then
                   m\<lparr>cm_map := smap_set key plugin (cm_map m),
                     cm_io := smap_set inputType (insort_insert outputType (io_types m inputType)) (cm_io m)\<rparr>
                 else if event = ''remove'' then
                   m\<lparr>cm_map := smap_set key PlugNull (cm_map m),
                     cm_io := smap_set inputType (remove1 outputType (io_types m inputType)) (cm_io m)\<rparr>
                 else m)
        | _ \<Rightarrow> m))"

section \<open>Conversion\<close>

definition plugin_call :: "(callable \<Rightarrow> obj list \<Rightarrow> (obj_error + obj) option) \<Rightarrow> plug \<Rightarrow> obj \<Rightarrow> (obj_error + obj) option" where
  "plugin_call call p x = (case p of PlugCall c \<Rightarrow> call c [x] | _ \<Rightarrow> Some (Inl ObjectConvertError))"

text \<open>The first intermediate type, in the order of the set, for which both conversions are in the map.\<close>

fun find_interm :: "convert_maps \<Rightarrow> tinfo \<Rightarrow> tinfo \<Rightarrow> tinfo list \<Rightarrow> (plug \<times> plug) option" where
  "find_interm m inT outT [] = None"
| "find_interm m inT outT (h # hs) =
     (case (smap_find (typesHashCombine inT h) (cm_map m), smap_find (typesHashCombine h outT) (cm_map m)) of
        (Some p1, Some p2) \<Rightarrow> Some (p1, p2)
      | _ \<Rightarrow> find_interm m inT outT hs)"

definition both_calls :: "plug \<Rightarrow> plug \<Rightarrow> bool" where
  "both_calls p1 p2 = ((case p1 of PlugCall _ \<Rightarrow> True | _ \<Rightarrow> False) \<and> (case p2 of PlugCall _ \<Rightarrow> True | _ \<Rightarrow> False))"

definition convertObject :: "type_names \<Rightarrow> convert_maps \<Rightarrow> (callable \<Rightarrow> obj list \<Rightarrow> (obj_error + obj) option) \<Rightarrow> conversion" where
  "convertObject T m call x outT =
     (case smap_find (typesHashCombine (obj_type T x) outT) (cm_map m) of
        Some p \<Rightarrow> plugin_call call p x
      | None \<Rightarrow>
          (case find_interm m (obj_type T x) outT (io_types m (obj_type T x)) of
             None \<Rightarrow> Some (Inl ObjectConvertError)
           | Some (p1, p2) \<Rightarrow>
               (if \<not> both_calls p1 p2 then Some (Inl ObjectConvertError)
                else case plugin_call call p1 x of
                  None \<Rightarrow> None
                | Some (Inl e) \<Rightarrow> Some (Inl e)
                | Some (Inr intermediate) \<Rightarrow> plugin_call call p2 intermediate)))"

fun obj_convert :: "type_names \<Rightarrow> convert_maps \<Rightarrow> nat \<Rightarrow> conversion"
and opaqueCall :: "type_names \<Rightarrow> convert_maps \<Rightarrow> nat \<Rightarrow> callable \<Rightarrow> obj list \<Rightarrow> (obj_error + obj) option" where
  "obj_convert T m 0 x t = None"
| "obj_convert T m (Suc n) x t =
     (if obj_type T x = t then Some (Inr x)
      else if t = tn_object T then Some (Inr (Wrapped x))
      else convertObject T m (\<lambda>c args. opaqueCall T m n c args) x t)"
| "opaqueCall T m 0 c args = None"
| "opaqueCall T m (Suc n) c args = opaque_with (\<lambda>x t. obj_convert T m n x t) c args"

definition canConvert :: "type_names \<Rightarrow> convert_maps \<Rightarrow> tinfo \<Rightarrow> tinfo \<Rightarrow> bool" where
  "canConvert T m srcType dstType =
     (srcType = dstType \<or> smap_find (typesHashCombine srcType dstType) (cm_map m) \<noteq> None \<or>
      find_interm m srcType dstType (io_types m srcType) \<noteq> None)"

definition obj_canConvert :: "type_names \<Rightarrow> convert_maps \<Rightarrow> obj \<Rightarrow> tinfo \<Rightarrow> bool" where
  "obj_canConvert T m x t = (t = tn_object T \<or> canConvert T m (obj_type T x) t)"


section \<open>Bound arguments\<close>

definition is_open :: "obj list \<Rightarrow> nat \<Rightarrow> bool" where
  "is_open bound i = (i < length bound \<longrightarrow> bound ! i = NullObj)"

definition open_args :: "obj list \<Rightarrow> nat \<Rightarrow> nat list" where
  "open_args bound n = filter (is_open bound) [0..<n]"

lemma is_open_bound_at: "is_open (cl_bound c) i \<longleftrightarrow> bound_at c i = NullObj"
  by (simp add: is_open_def bound_at_def)

lemma foldl_count: "foldl (\<lambda>n i. if P i then n - 1 else n) (k :: nat) xs = k - length (filter P xs)"
  by (induction xs arbitrary: k) auto

lemma cl_getNumArgs_open:
  assumes "cl_impl c = Some ci"
  shows "cl_getNumArgs c = Inr (length (open_args (cl_bound c) (length (ci_args ci))))"
proof -
  let ?n = "length (ci_args ci)" and ?b = "cl_bound c"
  let ?k = "min ?n (length ?b)"
  have "[0..<?n] = [0..<?k] @ [?k..<?n]" using upt_add_eq_append[of 0 ?k "?n - ?k"] by simp
  moreover have "filter (\<lambda>i. \<not> is_open ?b i) [?k..<?n] = []" by (auto simp: filter_empty_conv is_open_def)
  moreover have "filter (\<lambda>i. \<not> is_open ?b i) [0..<?k] = filter (\<lambda>i. ?b ! i \<noteq> NullObj) [0..<?k]"
    by (rule filter_cong) (auto simp: is_open_def)
  ultimately have "filter (\<lambda>i. \<not> is_open ?b i) [0..<?n] = filter (\<lambda>i. ?b ! i \<noteq> NullObj) [0..<?k]" by simp
  moreover have "length (filter (is_open ?b) [0..<?n]) + length (filter (\<lambda>i. \<not> is_open ?b i) [0..<?n]) = ?n"
    using sum_length_filter_compl[of "is_open ?b" "[0..<?n]"] by simp
  ultimately show ?thesis using assms by (simp add: cl_getNumArgs_def foldl_count open_args_def)
qed

lemma skip_bound_open:
  "argNo + s = int i + int d \<Longrightarrow> d < length (filter (\<lambda>j. j < i + length bs \<longrightarrow> bs ! (j - i) = NullObj) [i..<n]) \<Longrightarrow>
   argNo + skip_bound bs i argNo s = int (filter (\<lambda>j. j < i + length bs \<longrightarrow> bs ! (j - i) = NullObj) [i..<n] ! d)"
proof (induction bs arbitrary: i s d)
  case Nil
  have f: "filter (\<lambda>j. j < i + length [] \<longrightarrow> [] ! (j - i) = NullObj) [i..<n] = [i..<n]" by (rule filter_True) auto
  then show ?case using Nil by (simp add: f)
next
  case (Cons b bs)
  let ?f = "\<lambda>j. j < i + length (b # bs) \<longrightarrow> (b # bs) ! (j - i) = NullObj"
  let ?g = "\<lambda>j. j < Suc i + length bs \<longrightarrow> bs ! (j - Suc i) = NullObj"
  have i: "i < n" using Cons.prems(2) by (cases "i < n") auto
  have g: "filter ?f [Suc i..<n] = filter ?g [Suc i..<n]"
    by (rule filter_cong) (auto simp: nth_Cons' Suc_diff_Suc)
  have u: "filter ?f [i..<n] = (if b = NullObj then i # filter ?g [Suc i..<n] else filter ?g [Suc i..<n])"
    unfolding upt_conv_Cons[OF i] using g by (cases "b = NullObj") auto
  show ?case
  proof (cases "b = NullObj")
    case False
    then show ?thesis using Cons.IH[of "s + 1" "Suc i" d] Cons.prems u by simp
  next
    case True
    show ?thesis
    proof (cases d)
      case 0
      then show ?thesis using True Cons.prems(1) u by simp
    next
      case (Suc d')
      have "d' < length (filter ?g [Suc i..<n])" using Cons.prems(2) u True Suc by simp
      then have "argNo + skip_bound bs (Suc i) argNo s = int (filter ?g [Suc i..<n] ! d')"
        using Cons.IH[of s "Suc i" d'] Cons.prems(1) Suc by simp
      then show ?thesis using True Suc Cons.prems(1) u by simp
    qed
  qed
qed

lemma cl_type_open:
  assumes "cl_impl c = Some ci"
  shows "cl_type c k =
     (let open = open_args (cl_bound c) (length (ci_args ci)) in
      if k = -1 then Inr (ci_ret ci)
      else if 0 \<le> k \<and> nat k < length open then Inr (ci_args ci ! (open ! nat k))
      else Inl CallableArgumentError)"
proof -
  let ?n = "length (ci_args ci)"
  let ?open = "open_args (cl_bound c) ?n"
  have len: "length ?open \<le> ?n" unfolding open_args_def by (metis length_filter_le length_upt diff_zero)
  have skip: "impl_type ci (k + skip_bound (cl_bound c) 0 k 0) = ci_args ci ! (?open ! nat k)" if "0 \<le> k" "nat k < length ?open"
  proof -
    have e: "filter (\<lambda>j. j < 0 + length (cl_bound c) \<longrightarrow> cl_bound c ! (j - 0) = NullObj) [0..<?n] = ?open"
      unfolding open_args_def by (rule filter_cong) (auto simp: is_open_def)
    have "k + skip_bound (cl_bound c) 0 k 0 = int (?open ! nat k)"
      using skip_bound_open[of k 0 0 "nat k" "cl_bound c" ?n] that unfolding e by simp
    moreover have "?open ! nat k < ?n" using nth_mem[OF that(2)] by (auto simp: open_args_def)
    ultimately show ?thesis by (simp add: impl_type_def)
  qed
  consider "k < -1" | "k = -1" | "0 \<le> k" "nat k < length ?open" | "0 \<le> k" "\<not> nat k < length ?open" by linarith
  then show ?thesis
  proof cases
    case 1
    then show ?thesis using assms by (simp add: cl_type_def Let_def)
  next
    case 2
    then show ?thesis using assms cl_getNumArgs_open[OF assms] by (simp add: cl_type_def impl_type_def Let_def)
  next
    case 3
    then show ?thesis using assms cl_getNumArgs_open[OF assms] skip by (auto simp: cl_type_def Let_def)
  next
    case 4
    then show ?thesis using assms cl_getNumArgs_open[OF assms] by (auto simp: cl_type_def Let_def)
  qed
qed

text \<open>The argument types that a callable reports are the types of its unbound arguments, in order, and the index -1 is the
  return type; every other index is an argument error.\<close>

definition demo_impl :: cimpl where
  "demo_impl = \<lparr>ci_args = [10, 20, 30], ci_ret = 40, ci_call = (\<lambda>args. Inr (Val 40 (length args)))\<rparr>"

definition demo_call :: callable where
  "demo_call = cl_bind (Val 20 7) 1 \<lparr>cl_impl = Some demo_impl, cl_bound = []\<rparr>"

section \<open>Calls with bound arguments\<close>

text \<open>The argument list that a call completes: bound arguments at their index, the input arguments in order at the others.\<close>

definition merged_arg :: "obj list \<Rightarrow> obj list \<Rightarrow> nat \<Rightarrow> obj" where
  "merged_arg bound inputs i = (if is_open bound i then inputs ! length (open_args bound i) else bound ! i)"

definition merged_args :: "obj list \<Rightarrow> obj list \<Rightarrow> nat \<Rightarrow> obj list" where
  "merged_args bound inputs n = map (merged_arg bound inputs) [0..<n]"

lemma is_open_Suc: "is_open (b # bs) (Suc i) = is_open bs i" "is_open [] i"
  by (simp_all add: is_open_def)

lemma open_args_Suc:
  "length (open_args bound (Suc n)) = (if is_open bound 0 then 1 else 0) + length (open_args (drop 1 bound) n)"
proof -
  have s: "is_open bound (Suc i) = is_open (drop 1 bound) i" for i by (cases bound) (simp_all add: is_open_Suc)
  have "[0..<Suc n] = 0 # map Suc [0..<n]" by (simp add: upt_conv_Cons map_Suc_upt)
  then show ?thesis unfolding open_args_def by (simp add: filter_map comp_def s)
qed

lemma merged_arg_Suc:
  "merged_arg bound inputs (Suc i) = merged_arg (drop 1 bound) (if is_open bound 0 then drop 1 inputs else inputs) i"
  if ne: "is_open bound 0 \<Longrightarrow> inputs \<noteq> []"
proof -
  have s: "is_open bound (Suc i) = is_open (drop 1 bound) i" by (cases bound) (simp_all add: is_open_Suc)
  show ?thesis
  proof (cases "is_open bound (Suc i)")
    case True
    have k: "length (open_args bound (Suc i)) = (if is_open bound 0 then 1 else 0) + length (open_args (drop 1 bound) i)"
      by (rule open_args_Suc)
    show ?thesis
    proof (cases "is_open bound 0")
      case o: True
      obtain x xs where "inputs = x # xs" using ne[OF o] by (cases inputs) auto
      then show ?thesis using True s k o by (simp add: merged_arg_def)
    qed (use True s k in \<open>simp add: merged_arg_def\<close>)
  next
    case False
    then have "Suc i < length bound" by (simp add: is_open_def)
    then show ?thesis using False s by (cases bound) (simp_all add: merged_arg_def)
  qed
qed

lemma call_args_merged:
  "length (open_args bound (length ts)) \<le> length inputs \<Longrightarrow>
   call_args conv ts bound inputs = call_args conv ts [] (merged_args bound inputs (length ts))"
proof (induction ts arbitrary: bound inputs)
  case (Cons t ts)
  define ins where "ins = (if is_open bound 0 then drop 1 inputs else inputs)"
  have ne: "inputs \<noteq> []" if "is_open bound 0" using Cons.prems that open_args_Suc[of bound "length ts"] by auto
  have len: "length (open_args (drop 1 bound) (length ts)) \<le> length ins"
    using Cons.prems open_args_Suc[of bound "length ts"] unfolding ins_def by (cases "is_open bound 0") auto
  have m: "merged_args bound inputs (length (t # ts)) = merged_arg bound inputs 0 # merged_args (drop 1 bound) ins (length ts)"
    using merged_arg_Suc[OF ne] unfolding ins_def by (simp add: merged_args_def upt_conv_Cons map_Suc_upt[symmetric] comp_def del: upt_Suc)
  have pick: "(let b = (case bound of [] \<Rightarrow> NullObj | b # _ \<Rightarrow> b) in
      if b \<noteq> NullObj then Some (b, inputs) else case inputs of [] \<Rightarrow> None | x # xs \<Rightarrow> Some (x, xs)) = Some (merged_arg bound inputs 0, ins)"
  proof (cases "is_open bound 0")
    case True
    obtain x xs where "inputs = x # xs" using ne[OF True] by (cases inputs) auto
    then show ?thesis using True by (cases bound) (auto simp: ins_def merged_arg_def open_args_def is_open_def Let_def)
  next
    case False
    then show ?thesis by (cases bound) (auto simp: ins_def merged_arg_def is_open_def Let_def)
  qed
  have rest: "(case bound of [] \<Rightarrow> [] | _ # bs \<Rightarrow> bs) = drop 1 bound" by (cases bound) auto
  show ?case unfolding m call_args.simps rest Let_def pick[unfolded Let_def] option.case prod.case list.case Cons.IH[OF len] by (simp del: One_nat_def)
qed simp

text \<open>C29: A call with bound arguments is the call of the unbound callable on the completed argument list: the bound argument at
  each bound index and the input arguments in order at the others, further inputs ignored.\<close>

theorem call_bound:
  assumes "cl_getNumArgs c = Inr k" "k \<le> length inputs" "cl_impl c = Some ci"
  shows "opaque_with conv c inputs = opaque_with conv (c\<lparr>cl_bound := []\<rparr>) (merged_args (cl_bound c) inputs (length (ci_args ci)))"
proof -
  have "length (open_args (cl_bound c) (length (ci_args ci))) \<le> length inputs"
    using assms cl_getNumArgs_open[OF assms(3)] by simp
  then show ?thesis using assms(3) call_args_merged by (simp add: opaque_with_def)
qed

theorem call_bound_witness:
  "opaque_with (\<lambda>x t. Some (Inr x)) demo_call [Val 10 1, Val 30 3, Val 50 5] =
     opaque_with (\<lambda>x t. Some (Inr x)) \<lparr>cl_impl = Some demo_impl, cl_bound = []\<rparr> [Val 10 1, Val 20 7, Val 30 3]"
proof -
  have i: "cl_impl demo_call = Some demo_impl" by (simp add: demo_call_def cl_bind_def Let_def)
  have b: "cl_bound demo_call = [NullObj, Val 20 7]" by (simp add: demo_call_def cl_bind_def Let_def)
  have n: "cl_getNumArgs demo_call = Inr 2"
    by (simp add: cl_getNumArgs_open[OF i] b demo_impl_def open_args_def is_open_def upt_rec numeral_2_eq_2)
  have m: "merged_args (cl_bound demo_call) [Val 10 1, Val 30 3, Val 50 5] (length (ci_args demo_impl)) = [Val 10 1, Val 20 7, Val 30 3]"
    by (simp add: b merged_args_def merged_arg_def open_args_def is_open_def demo_impl_def upt_rec numeral_2_eq_2)
  have u: "demo_call\<lparr>cl_bound := []\<rparr> = \<lparr>cl_impl = Some demo_impl, cl_bound = []\<rparr>" by (simp add: demo_call_def cl_bind_def Let_def)
  show ?thesis using call_bound[OF n _ i, of "[Val 10 1, Val 30 3, Val 50 5]"] unfolding m u by simp
qed


section \<open>Conversions give the requested type\<close>

text \<open>Plugins whose callable returns its declared type, takes a supported number of arguments and whose bound arguments
  have the types of their parameters.\<close>

definition call_ok :: "type_names \<Rightarrow> callable \<Rightarrow> bool" where
  "call_ok T c \<longleftrightarrow> (\<forall>ci. cl_impl c = Some ci \<longrightarrow> length (ci_args ci) \<le> MAX_SUPPORTED_NUM_ARGS
     \<and> (\<forall>args r. ci_call ci args = Inr r \<longrightarrow> obj_type T r = ci_ret ci)
     \<and> (\<forall>i < length (ci_args ci). \<not> is_open (cl_bound c) i \<longrightarrow> obj_type T (cl_bound c ! i) = ci_args ci ! i))"

definition plug_ok :: "type_names \<Rightarrow> plug \<Rightarrow> bool" where
  "plug_ok T p \<longleftrightarrow> (case p of PlugCall c \<Rightarrow> call_ok T c | _ \<Rightarrow> True)"

inductive conv_reach :: "type_names \<Rightarrow> convert_maps \<Rightarrow> bool" for T where
  conv_start: "conv_reach T \<lparr>cm_map = [], cm_io = []\<rparr>"
| conv_event: "conv_reach T m \<Longrightarrow> plug_ok T p \<Longrightarrow> conv_reach T (handleConvertPluginEvent T p event m)"

definition conv_entry :: "type_names \<Rightarrow> 64 word \<Rightarrow> plug \<Rightarrow> bool" where
  "conv_entry T key p \<longleftrightarrow> p = PlugNull \<or> (\<exists>c a b. p = PlugCall c \<and> call_ok T c \<and> cl_getNumArgs c = Inr 1
     \<and> cl_type c 0 = Inr a \<and> cl_type c (-1) = Inr b \<and> key = typesHashCombine a b)"

lemma conv_reach_entry: "conv_reach T m \<Longrightarrow> smap_find key (cm_map m) = Some p \<Longrightarrow> conv_entry T key p"
proof (induction arbitrary: key p rule: conv_reach.induct)
  case (conv_event m q event)
  show ?case
  proof (cases "smap_find key (cm_map m) = Some p")
    case True
    then show ?thesis by (rule conv_event.IH)
  next
    case False
    then show ?thesis using conv_event.prems conv_event.hyps(2)
      by (auto simp: handleConvertPluginEvent_def conv_entry_def plug_ok_def Let_def smap_find_set
        split: plug.splits sum.splits if_splits)
  qed
qed simp

text \<open>No pair of types in question has the key of a registered conversion between other types.\<close>

definition no_clash :: "convert_maps \<Rightarrow> tinfo \<Rightarrow> tinfo \<Rightarrow> bool" where
  "no_clash m s t = list_all (\<lambda>(key, p). case p of
       PlugCall c \<Rightarrow> list_all (\<lambda>a. list_all (\<lambda>b.
         typesHashCombine a b \<noteq> key \<or> (cl_type c 0 = Inr a \<and> cl_type c (-1) = Inr b)) (t # io_types m s)) (s # io_types m s)
     | _ \<Rightarrow> True) (cm_map m)"

lemma no_clash_call:
  assumes "no_clash m s t" "smap_find (typesHashCombine a b) (cm_map m) = Some (PlugCall c)"
    and "a \<in> set (s # io_types m s)" "b \<in> set (t # io_types m s)"
  shows "cl_type c 0 = Inr a \<and> cl_type c (-1) = Inr b"
proof -
  have "(typesHashCombine a b, PlugCall c) \<in> set (cm_map m)" using assms(2) by (metis map_of_SomeD smap_find_map_of)
  then show ?thesis using assms(1,3,4) by (fastforce simp: no_clash_def list_all_iff)
qed

text \<open>A call whose arguments have the exact types needs no conversion.\<close>

lemma call_args_exact:
  "(\<And>x t. P x t \<Longrightarrow> conv x t = Some (Inr x)) \<Longrightarrow> list_all2 P xs ts \<Longrightarrow> call_args conv ts [] xs = Some (Inr xs)"
proof (induction ts arbitrary: xs)
  case (Cons t ts)
  obtain x ys where xs: "xs = x # ys" "P x t" "list_all2 P ys ts" using Cons.prems(2) by (cases xs) auto
  show ?case using Cons.IH[OF Cons.prems(1) xs(3)] Cons.prems(1)[OF xs(2)] by (simp add: xs(1))
qed simp

lemma opaqueCall_one:
  assumes ok: "call_ok T c" "cl_getNumArgs c = Inr 1" "cl_type c 0 = Inr (obj_type T x)" "cl_type c (-1) = Inr b"
  shows "\<exists>res. opaqueCall T m (Suc (Suc n)) c [x] = Some res \<and> (\<forall>r. res = Inr r \<longrightarrow> obj_type T r = b)"
proof -
  obtain ci where ci: "cl_impl c = Some ci" using ok(2) by (auto simp: cl_getNumArgs_def split: option.splits)
  let ?n = "length (ci_args ci)" and ?args = "merged_args (cl_bound c) [x] (length (ci_args ci))"
  have one: "length (open_args (cl_bound c) ?n) = 1" using ok(2) cl_getNumArgs_open[OF ci] by simp
  have ret: "b = ci_ret ci" using ok(4) by (simp add: cl_type_def ci cl_getNumArgs_open[OF ci] impl_type_def)
  have in0: "ci_args ci ! (open_args (cl_bound c) ?n ! 0) = obj_type T x"
  proof -
    have "0 + skip_bound (cl_bound c) 0 0 0 = int (open_args (cl_bound c) ?n ! 0)"
    proof -
      have e: "filter (\<lambda>j. j < 0 + length (cl_bound c) \<longrightarrow> cl_bound c ! (j - 0) = NullObj) [0..<?n] = open_args (cl_bound c) ?n"
        unfolding open_args_def by (rule filter_cong) (auto simp: is_open_def)
      show ?thesis using skip_bound_open[of 0 0 0 0 "cl_bound c" ?n] one unfolding e by simp
    qed
    moreover have "open_args (cl_bound c) ?n ! 0 \<in> set (open_args (cl_bound c) ?n)" using one by (intro nth_mem) simp
    then have "open_args (cl_bound c) ?n ! 0 < ?n" by (auto simp: open_args_def)
    ultimately show ?thesis using ok(3) by (simp add: cl_type_def ci cl_getNumArgs_open[OF ci] one impl_type_def)
  qed
  have all: "list_all2 (\<lambda>y t. obj_type T y = t) ?args (ci_args ci)"
  proof (rule list_all2_all_nthI)
    fix i assume "i < length ?args"
    then have i: "i < ?n" by (simp add: merged_args_def)
    show "obj_type T (?args ! i) = ci_args ci ! i"
    proof (cases "is_open (cl_bound c) i")
      case True
      have "i \<in> set (open_args (cl_bound c) ?n)" using True i by (simp add: open_args_def)
      moreover obtain j where j: "open_args (cl_bound c) ?n = [j]" using one by (auto simp: length_Suc_conv)
      ultimately have ij: "i = j" by simp
      have "open_args (cl_bound c) i = []"
      proof (rule ccontr)
        assume "open_args (cl_bound c) i \<noteq> []"
        then obtain l where "l \<in> set (open_args (cl_bound c) i)" by (metis last_in_set)
        then have "l < i" "l \<in> set (open_args (cl_bound c) ?n)" using i by (auto simp: open_args_def)
        then show False using j ij by simp
      qed
      then show ?thesis using True i in0 j ij by (simp add: merged_args_def merged_arg_def)
    next
      case False
      then show ?thesis using ok(1) ci i by (simp add: call_ok_def merged_args_def merged_arg_def)
    qed
  qed (simp add: merged_args_def)
  have "call_args (\<lambda>x t. obj_convert T m (Suc n) x t) (ci_args ci) (cl_bound c) [x] = Some (Inr ?args)"
    using call_args_merged[of "cl_bound c" "ci_args ci" "[x]"] one
      call_args_exact[OF _ all, of "\<lambda>x t. obj_convert T m (Suc n) x t"] by simp
  then have "opaqueCall T m (Suc (Suc n)) c [x] = Some (ci_call ci ?args)"
    unfolding opaqueCall.simps(2) opaque_with_def ci option.case
    using ci ok(1) by (simp add: call_ok_def not_less del: obj_convert.simps)
  then show ?thesis using ok(1) ci ret by (auto simp: call_ok_def)
qed


lemma plugin_call_typed:
  assumes "conv_reach T m" "no_clash m s t" "smap_find (typesHashCombine (obj_type T x) b) (cm_map m) = Some p"
    and "obj_type T x \<in> set (s # io_types m s)" "b \<in> set (t # io_types m s)"
  shows "\<exists>res. plugin_call (\<lambda>c args. opaqueCall T m (Suc (Suc n)) c args) p x = Some res \<and> (\<forall>r. res = Inr r \<longrightarrow> obj_type T r = b)"
proof -
  have e: "conv_entry T (typesHashCombine (obj_type T x) b) p" by (rule conv_reach_entry[OF assms(1,3)])
  show ?thesis
  proof (cases p)
    case (PlugCall c)
    have t: "cl_type c 0 = Inr (obj_type T x) \<and> cl_type c (-1) = Inr b"
      by (rule no_clash_call[OF assms(2) assms(3)[unfolded PlugCall] assms(4,5)])
    have "call_ok T c" "cl_getNumArgs c = Inr 1" using e PlugCall by (auto simp: conv_entry_def)
    then show ?thesis unfolding PlugCall plugin_call_def plug.case using opaqueCall_one t by blast
  qed (simp_all add: plugin_call_def)
qed

lemma find_interm_Some:
  "find_interm m inT outT hs = Some (p1, p2) \<Longrightarrow>
   \<exists>h \<in> set hs. smap_find (typesHashCombine inT h) (cm_map m) = Some p1 \<and> smap_find (typesHashCombine h outT) (cm_map m) = Some p2"
  by (induction hs) (auto split: option.splits)

text \<open>C27: With conversions registered by events of well-typed callables, and no clash of the type keys in question, three
  units of fuel are enough: a conversion returns, its result has the requested type, and it is a conversion error
  where \<open>canConvert\<close> answers no.\<close>

theorem convert_gives_type:
  assumes "conv_reach T m" "no_clash m (obj_type T x) t"
  shows "\<exists>res. obj_convert T m (Suc (Suc (Suc n))) x t = Some res \<and> (case res of Inl e \<Rightarrow> True | Inr r \<Rightarrow> obj_type T r = t)
     \<and> (obj_canConvert T m x t \<or> res = Inl ObjectConvertError)"
proof -
  let ?s = "obj_type T x" and ?call = "\<lambda>c args. opaqueCall T m (Suc (Suc n)) c args"
  have c: "obj_convert T m (Suc (Suc (Suc n))) x t =
      (if ?s = t then Some (Inr x) else if t = tn_object T then Some (Inr (Wrapped x)) else convertObject T m ?call x t)"
    by (rule obj_convert.simps(2))
  consider "?s = t" | "?s \<noteq> t" "t = tn_object T"
    | (direct) p where "?s \<noteq> t" "t \<noteq> tn_object T" "smap_find (typesHashCombine ?s t) (cm_map m) = Some p"
    | (none) "?s \<noteq> t" "t \<noteq> tn_object T" "smap_find (typesHashCombine ?s t) (cm_map m) = None" "find_interm m ?s t (io_types m ?s) = None"
    | (two) p1 p2 where "?s \<noteq> t" "t \<noteq> tn_object T" "smap_find (typesHashCombine ?s t) (cm_map m) = None"
        "find_interm m ?s t (io_types m ?s) = Some (p1, p2)"
    by (cases "?s = t"; cases "t = tn_object T"; cases "smap_find (typesHashCombine ?s t) (cm_map m)";
        cases "find_interm m ?s t (io_types m ?s)"; auto)
  then show ?thesis
  proof cases
    case direct
    obtain res where res: "plugin_call ?call p x = Some res" "\<forall>r. res = Inr r \<longrightarrow> obj_type T r = t"
      using plugin_call_typed[OF assms direct(3), of n] by auto
    have can: "obj_canConvert T m x t" using direct(3) by (simp add: obj_canConvert_def canConvert_def)
    have "obj_convert T m (Suc (Suc (Suc n))) x t = Some res"
      unfolding c convertObject_def direct(3) option.case res(1) using direct(1,2) by simp
    then show ?thesis using res(2) can by (auto split: sum.splits)
  next
    case none
    then show ?thesis unfolding c convertObject_def by (simp add: obj_canConvert_def canConvert_def)
  next
    case two
    obtain h where h: "h \<in> set (io_types m ?s)" "smap_find (typesHashCombine ?s h) (cm_map m) = Some p1"
      "smap_find (typesHashCombine h t) (cm_map m) = Some p2"
      using find_interm_Some[OF two(4)] by blast
    have can: "obj_canConvert T m x t" using two(4) by (simp add: obj_canConvert_def canConvert_def)
    obtain r1 where r1: "plugin_call ?call p1 x = Some r1" "\<forall>r. r1 = Inr r \<longrightarrow> obj_type T r = h"
      using plugin_call_typed[OF assms h(2), of n] h(1) by auto
    have v: "convertObject T m ?call x t = (if \<not> both_calls p1 p2 then Some (Inl ObjectConvertError)
        else case r1 of Inl e \<Rightarrow> Some (Inl e) | Inr i \<Rightarrow> plugin_call ?call p2 i)"
      unfolding convertObject_def two(3,4) option.case prod.case r1(1) by (cases r1) simp_all
    show ?thesis
    proof (cases r1)
      case (Inl e)
      then show ?thesis unfolding c v using two(1,2) can by simp
    next
      case (Inr i)
      have ti: "obj_type T i = h" using r1(2) Inr by blast
      obtain r2 where r2: "plugin_call ?call p2 i = Some r2" "\<forall>r. r2 = Inr r \<longrightarrow> obj_type T r = t"
        using plugin_call_typed[OF assms(1,2), of i t p2 n] h ti by auto
      have "obj_convert T m (Suc (Suc (Suc n))) x t = Some (if \<not> both_calls p1 p2 then Inl ObjectConvertError else r2)"
        unfolding c v Inr sum.case r2(1) using two(1,2) by simp
      then show ?thesis using can r2(2) by (auto split: sum.splits)
    qed
  qed (unfold c, auto simp: obj_canConvert_def canConvert_def)
qed


definition demo_names :: type_names where
  "demo_names = \<lparr>tn_null = 1, tn_object = 2, tn_void = 3, tn_argptr = 4, tn_string = 5, tn_size = 6\<rparr>"

definition demo_conv :: callable where
  "demo_conv = \<lparr>cl_impl = Some \<lparr>ci_args = [10], ci_ret = 40, ci_call = (\<lambda>args. Inr (Val 40 7))\<rparr>, cl_bound = []\<rparr>"

definition demo_maps :: convert_maps where
  "demo_maps = handleConvertPluginEvent demo_names (PlugCall demo_conv) ''add'' \<lparr>cm_map = [], cm_io = []\<rparr>"

lemma demo_maps_eq: "demo_maps = \<lparr>cm_map = [(typesHashCombine 10 40, PlugCall demo_conv)], cm_io = [(10, [40])]\<rparr>"
  by (simp add: demo_maps_def handleConvertPluginEvent_def demo_names_def demo_conv_def cl_type_def cl_getNumArgs_def impl_type_def
    io_types_def insort_insert_key_def Let_def)

theorem convert_gives_type_witness:
  "\<exists>res. obj_convert demo_names demo_maps 3 (Val 10 5) 40 = Some res \<and> (case res of Inl e \<Rightarrow> True | Inr r \<Rightarrow> obj_type demo_names r = 40)
     \<and> (obj_canConvert demo_names demo_maps (Val 10 5) 40 \<or> res = Inl ObjectConvertError)"
proof -
  have r: "conv_reach demo_names demo_maps" unfolding demo_maps_def
    by (intro conv_event conv_start) (simp add: plug_ok_def call_ok_def demo_conv_def demo_names_def MAX_SUPPORTED_NUM_ARGS_def is_open_def)
  have c: "no_clash demo_maps (obj_type demo_names (Val 10 5)) 40"
    by (simp add: no_clash_def demo_maps_eq io_types_def demo_conv_def cl_type_def cl_getNumArgs_def impl_type_def typesHashCombine_def poco_hash_def)
  show ?thesis using convert_gives_type[OF r c, of 0] by (simp only: numeral_3_eq_3)
qed

text \<open>The comment on the key says that it differs when the types are swapped; it does not when the hash codes differ in their
  highest bit only.\<close>

lemma types_hash_swapped: "typesHashCombine 0x8000000000000000 0 = typesHashCombine 0 0x8000000000000000"
  by (simp add: typesHashCombine_def poco_hash_def)

text \<open>Removing a conversion leaves a null plugin in the map: the object can still be converted, says \<open>canConvert\<close>, while the
  conversion throws without trying an intermediate type.\<close>

lemma removed_conversion_found:
  "\<exists>m. m = handleConvertPluginEvent demo_names (PlugCall demo_conv) ''remove'' demo_maps
     \<and> obj_canConvert demo_names m (Val 10 5) 40 \<and> obj_convert demo_names m 3 (Val 10 5) 40 = Some (Inl ObjectConvertError)"
proof -
  have m: "handleConvertPluginEvent demo_names (PlugCall demo_conv) ''remove'' demo_maps
      = \<lparr>cm_map = [(typesHashCombine 10 40, PlugNull)], cm_io = [(10, [])]\<rparr>"
    unfolding demo_maps_eq by (simp add: handleConvertPluginEvent_def demo_names_def demo_conv_def cl_type_def cl_getNumArgs_def
      impl_type_def io_types_def Let_def)
  show ?thesis unfolding m
    by (simp add: obj_canConvert_def canConvert_def numeral_3_eq_3 convertObject_def plugin_call_def demo_names_def)
qed

end
