(* ===== verification/ManagedClasses.thy ===== *)
theory ManagedClasses
  imports Callables
begin

text \<open>
  Managed classes (pothos-library/lib/Managed/Class.cpp), the map from types to classes (Managed/Registry.cpp) and the
  call of a managed proxy handle (Managed/Builtin/ManagedHandle.cpp), which picks an overload. A null callable has no
  implementation. Calls use the conversions of \<open>Callables\<close> with the fuel of the environment; calls on base classes
  recurse, with fuel as well.
\<close>

section \<open>The class\<close>

datatype managed_error = ManagedClassTypeError | ManagedClassNameError | ManagedClassLookupError
  | ProxyHandleCallError | ProxyExceptionMessage obj_error | ObjError obj_error | AssertionFailed

definition cl_null :: callable where
  "cl_null = \<lparr>cl_impl = None, cl_bound = []\<rparr>"

definition cl_valid :: "callable \<Rightarrow> bool" where
  "cl_valid c = (case cl_impl c of None \<Rightarrow> False | Some _ \<Rightarrow> True)"

definition lift_obj :: "obj_error + 'a \<Rightarrow> managed_error + 'a" where
  "lift_obj = map_sum ObjError id"

fun and_then :: "managed_error + 'a \<Rightarrow> ('a \<Rightarrow> managed_error + 'b) \<Rightarrow> managed_error + 'b" where
  "and_then (Inl e) f = Inl e"
| "and_then (Inr x) f = f x"

record managed_class =
  mc_ref :: callable
  mc_pointer :: callable
  mc_shared :: callable
  mc_bases :: "callable list"
  mc_ctors :: "callable list"
  mc_statics :: "(string \<times> callable list) list"
  mc_methods :: "(string \<times> callable list) list"
  mc_opaqueCtor :: callable
  mc_opaqueStatics :: "(string \<times> callable) list"
  mc_wildStatic :: callable
  mc_opaqueMethods :: "(string \<times> callable) list"
  mc_wildMethod :: callable

definition mc_new :: managed_class where
  "mc_new = \<lparr>mc_ref = cl_null, mc_pointer = cl_null, mc_shared = cl_null, mc_bases = [], mc_ctors = [], mc_statics = [], mc_methods = [],
     mc_opaqueCtor = cl_null, mc_opaqueStatics = [], mc_wildStatic = cl_null, mc_opaqueMethods = [], mc_wildMethod = cl_null\<rparr>"

definition wrapper_type :: "callable \<Rightarrow> managed_error + tinfo" where
  "wrapper_type w = (if cl_valid w then lift_obj (cl_type w 0) else Inl ManagedClassTypeError)"

definition mc_type :: "managed_class \<Rightarrow> managed_error + tinfo" where "mc_type cls = wrapper_type (mc_ref cls)"
definition mc_pointerType :: "managed_class \<Rightarrow> managed_error + tinfo" where "mc_pointerType cls = wrapper_type (mc_pointer cls)"
definition mc_sharedType :: "managed_class \<Rightarrow> managed_error + tinfo" where "mc_sharedType cls = wrapper_type (mc_shared cls)"

text \<open>\<open>ref and ty != ref.type(0)\<close> as the guard of a registration; the update runs where it is false.\<close>

definition unless_mismatch :: "callable \<Rightarrow> obj_error + tinfo \<Rightarrow> 'a \<Rightarrow> managed_error + 'a" where
  "unless_mismatch w ty x =
     (if \<not> cl_valid w then Inr x
      else and_then (lift_obj ty) (\<lambda>t. and_then (lift_obj (cl_type w 0)) (\<lambda>r. if t \<noteq> r then Inl ManagedClassTypeError else Inr x)))"


definition add_to :: "string \<Rightarrow> callable \<Rightarrow> (string \<times> callable list) list \<Rightarrow> (string \<times> callable list) list" where
  "add_to name c m = smap_set name ((case smap_find name m of None \<Rightarrow> [] | Some cs \<Rightarrow> cs) @ [c]) m"

definition registerReferenceToWrapper :: "callable \<Rightarrow> managed_class \<Rightarrow> managed_error + managed_class" where
  "registerReferenceToWrapper w cls = unless_mismatch (mc_ref cls) (cl_type w 0) (cls\<lparr>mc_ref := w\<rparr>)"

definition registerPointerToWrapper :: "callable \<Rightarrow> managed_class \<Rightarrow> managed_error + managed_class" where
  "registerPointerToWrapper w cls = unless_mismatch (mc_pointer cls) (cl_type w 0) (cls\<lparr>mc_pointer := w\<rparr>)"

definition registerSharedToWrapper :: "callable \<Rightarrow> managed_class \<Rightarrow> managed_error + managed_class" where
  "registerSharedToWrapper w cls = unless_mismatch (mc_shared cls) (cl_type w 0) (cls\<lparr>mc_shared := w\<rparr>)"

definition registerToBaseClass :: "callable \<Rightarrow> managed_class \<Rightarrow> managed_error + managed_class" where
  "registerToBaseClass c cls = unless_mismatch (mc_ref cls) (cl_type c 0) (cls\<lparr>mc_bases := mc_bases cls @ [c]\<rparr>)"

definition registerConstructor :: "callable \<Rightarrow> managed_class \<Rightarrow> managed_error + managed_class" where
  "registerConstructor c cls = unless_mismatch (mc_ref cls) (cl_type c (-1)) (cls\<lparr>mc_ctors := mc_ctors cls @ [c]\<rparr>)"

definition registerStaticMethod :: "string \<Rightarrow> callable \<Rightarrow> managed_class \<Rightarrow> managed_error + managed_class" where
  "registerStaticMethod name c cls = Inr (cls\<lparr>mc_statics := add_to name c (mc_statics cls)\<rparr>)"

text \<open>The guard of the methods compares only where the method has an argument.\<close>

definition unless_self_mismatch :: "callable \<Rightarrow> callable \<Rightarrow> 'a \<Rightarrow> managed_error + 'a" where
  "unless_self_mismatch w method x =
     (if \<not> cl_valid w then Inr x
      else and_then (lift_obj (cl_getNumArgs method)) (\<lambda>n. if n > 0 then unless_mismatch w (cl_type method 0) x else Inr x))"

definition registerMethod :: "string \<Rightarrow> callable \<Rightarrow> managed_class \<Rightarrow> managed_error + managed_class" where
  "registerMethod name c cls = unless_self_mismatch (mc_ref cls) c (cls\<lparr>mc_methods := add_to name c (mc_methods cls)\<rparr>)"

text \<open>The checks of the signatures of opaque and wildcard calls: the return type where it matters, the number of arguments
  and the types from an index on, in the order in which the code compares.\<close>

fun types_from :: "callable \<Rightarrow> nat \<Rightarrow> tinfo list \<Rightarrow> managed_error + bool" where
  "types_from c i [] = Inr True"
| "types_from c i (t # ts) = and_then (lift_obj (cl_type c (int i))) (\<lambda>u. if u \<noteq> t then Inr False else types_from c (Suc i) ts)"

definition signature_ok :: "callable \<Rightarrow> tinfo option \<Rightarrow> nat \<Rightarrow> nat \<Rightarrow> tinfo list \<Rightarrow> managed_error + bool" where
  "signature_ok c ret n i ts =
     and_then (case ret of None \<Rightarrow> Inr True | Some r \<Rightarrow> and_then (lift_obj (cl_type c (-1))) (\<lambda>u. Inr (u = r)))
       (\<lambda>ok. if \<not> ok then Inr False
        else and_then (lift_obj (cl_getNumArgs c)) (\<lambda>k. if k \<noteq> n then Inr False else types_from c i ts))"

definition when_signature :: "managed_error + bool \<Rightarrow> 'a \<Rightarrow> managed_error + 'a" where
  "when_signature ok x = and_then ok (\<lambda>b. if b then Inr x else Inl ManagedClassTypeError)"

definition registerOpaqueConstructor :: "type_names \<Rightarrow> callable \<Rightarrow> managed_class \<Rightarrow> managed_error + managed_class" where
  "registerOpaqueConstructor T c cls = and_then (unless_mismatch (mc_ref cls) (cl_type c (-1)) cls)
     (\<lambda>cls. when_signature (signature_ok c None 2 0 [tn_argptr T, tn_size T]) (cls\<lparr>mc_opaqueCtor := c\<rparr>))"

definition registerOpaqueStaticMethod :: "type_names \<Rightarrow> string \<Rightarrow> callable \<Rightarrow> managed_class \<Rightarrow> managed_error + managed_class" where
  "registerOpaqueStaticMethod T name c cls =
     when_signature (signature_ok c (Some (tn_object T)) 2 0 [tn_argptr T, tn_size T])
       (cls\<lparr>mc_opaqueStatics := smap_set name c (mc_opaqueStatics cls)\<rparr>)"

definition registerWildcardStaticMethod :: "type_names \<Rightarrow> callable \<Rightarrow> managed_class \<Rightarrow> managed_error + managed_class" where
  "registerWildcardStaticMethod T c cls =
     when_signature (signature_ok c (Some (tn_object T)) 3 0 [tn_string T, tn_argptr T, tn_size T]) (cls\<lparr>mc_wildStatic := c\<rparr>)"

definition registerOpaqueMethod :: "type_names \<Rightarrow> string \<Rightarrow> callable \<Rightarrow> managed_class \<Rightarrow> managed_error + managed_class" where
  "registerOpaqueMethod T name c cls = and_then (unless_self_mismatch (mc_ref cls) c cls)
     (\<lambda>cls. when_signature (signature_ok c (Some (tn_object T)) 3 1 [tn_argptr T, tn_size T])
       (cls\<lparr>mc_opaqueMethods := smap_set name c (mc_opaqueMethods cls)\<rparr>))"

definition registerWildcardMethod :: "type_names \<Rightarrow> callable \<Rightarrow> managed_class \<Rightarrow> managed_error + managed_class" where
  "registerWildcardMethod T c cls = and_then (unless_self_mismatch (mc_ref cls) c cls)
     (\<lambda>cls. when_signature (signature_ok c (Some (tn_object T)) 4 1 [tn_string T, tn_argptr T, tn_size T]) (cls\<lparr>mc_wildMethod := c\<rparr>))"

section \<open>Lookups\<close>

definition mc_find :: "string \<Rightarrow> (string \<times> 'a) list \<Rightarrow> managed_error + 'a" where
  "mc_find name m = (case smap_find name m of Some x \<Rightarrow> Inr x | None \<Rightarrow> Inl ManagedClassNameError)"

definition getStaticMethods :: "string \<Rightarrow> managed_class \<Rightarrow> managed_error + callable list" where
  "getStaticMethods name cls = mc_find name (mc_statics cls)"

definition getMethods :: "string \<Rightarrow> managed_class \<Rightarrow> managed_error + callable list" where
  "getMethods name cls = mc_find name (mc_methods cls)"

definition getOpaqueStaticMethod :: "string \<Rightarrow> managed_class \<Rightarrow> managed_error + callable" where
  "getOpaqueStaticMethod name cls = mc_find name (mc_opaqueStatics cls)"

definition getOpaqueMethod :: "string \<Rightarrow> managed_class \<Rightarrow> managed_error + callable" where
  "getOpaqueMethod name cls = mc_find name (mc_opaqueMethods cls)"

text \<open>The class map holds a plugin for each type of a class, null after its removal; an exception leaves the entries
  that were stored before it.\<close>

type_synonym class_map = "(tinfo \<times> managed_class option) list"

fun store_types :: "(managed_error + tinfo) list \<Rightarrow> managed_class option \<Rightarrow> class_map \<Rightarrow> class_map" where
  "store_types [] p m = m"
| "store_types (Inl e # ts) p m = m"
| "store_types (Inr t # ts) p m = store_types ts p (smap_set t p m)"

definition handleManagedPluginEvent :: "managed_class option \<Rightarrow> string \<Rightarrow> class_map \<Rightarrow> class_map" where
  "handleManagedPluginEvent plugin event m = (case plugin of
     None \<Rightarrow> m
   | Some reg \<Rightarrow>
       (let types = [mc_type reg, mc_pointerType reg, mc_sharedType reg] in
        if event = ''add'' then store_types types (Some reg) m
        else if event = ''remove'' then store_types types None m else m))"

definition mc_lookup :: "class_map \<Rightarrow> tinfo \<Rightarrow> managed_error + managed_class" where
  "mc_lookup m t = (case smap_find t m of
     None \<Rightarrow> Inl ManagedClassLookupError
   | Some None \<Rightarrow> Inl (ObjError ObjectConvertError)
   | Some (Some cls) \<Rightarrow> Inr cls)"


section \<open>Calls of a managed handle\<close>

text \<open>The handle holds a class or another object. The environment has the registered conversions, the class map and the
  type of proxies; a result of that type is extracted, another result gets a new handle.\<close>

record handle_env =
  he_names :: type_names
  he_convert :: convert_maps
  he_classes :: class_map
  he_proxy :: tinfo
  he_fuel :: nat

datatype receiver = HeldClass managed_class | HeldObject obj

datatype proxy = NewHandle obj | Extracted obj

fun isManagedClass :: "receiver \<Rightarrow> bool" where
  "isManagedClass (HeldClass cls) = True"
| "isManagedClass (HeldObject x) = False"

definition callConstructor :: "receiver \<Rightarrow> string \<Rightarrow> bool" where
  "callConstructor r name = (isManagedClass r \<and> name = ''new'')"

definition env_call :: "handle_env \<Rightarrow> callable \<Rightarrow> obj list \<Rightarrow> (obj_error + obj) option" where
  "env_call E c args = opaqueCall (he_names E) (he_convert E) (he_fuel E) c args"

fun handle_class :: "handle_env \<Rightarrow> receiver \<Rightarrow> managed_error + managed_class" where
  "handle_class E (HeldClass cls) = Inr cls"
| "handle_class E (HeldObject x) = mc_lookup (he_classes E) (obj_type (he_names E) x)"

definition or_default :: "'a \<Rightarrow> managed_error + 'a \<Rightarrow> 'a" where
  "or_default d r = (case r of Inl e \<Rightarrow> d | Inr x \<Rightarrow> x)"

text \<open>The typed overloads, the opaque call and the wildcard call of a name.\<close>

definition handle_calls :: "receiver \<Rightarrow> string \<Rightarrow> managed_class \<Rightarrow> callable list \<times> callable \<times> callable" where
  "handle_calls r name cls =
     (if callConstructor r name then (mc_ctors cls, mc_opaqueCtor cls, cl_null)
      else if isManagedClass r then
        (or_default [] (getStaticMethods name cls), or_default cl_null (getOpaqueStaticMethod name cls), mc_wildStatic cls)
      else (or_default [] (getMethods name cls), or_default cl_null (getOpaqueMethod name cls), mc_wildMethod cls))"

text \<open>The instance of a method call: the object itself or its wrapped reference. No instance fails the assertion.\<close>

definition instance_arg :: "handle_env \<Rightarrow> managed_class \<Rightarrow> obj \<Rightarrow> (managed_error + obj) option" where
  "instance_arg E cls x =
     (let t = obj_type (he_names E) x in
      case mc_type cls of Inl e \<Rightarrow> Some (Inl e)
      | Inr r \<Rightarrow> if t = r then Some (Inr x) else
     (case mc_sharedType cls of Inl e \<Rightarrow> Some (Inl e)
      | Inr s \<Rightarrow> if t = s then map_option lift_obj (env_call E (mc_shared cls) [x]) else
     (case mc_pointerType cls of Inl e \<Rightarrow> Some (Inl e)
      | Inr p \<Rightarrow> if t = p then map_option lift_obj (env_call E (mc_pointer cls) [x])
                 else Some (Inl AssertionFailed))))"

fun self_args :: "handle_env \<Rightarrow> receiver \<Rightarrow> managed_class \<Rightarrow> (managed_error + obj list) option" where
  "self_args E (HeldClass c) cls = Some (Inr [])"
| "self_args E (HeldObject x) cls = map_option (map_sum id (\<lambda>i. [i])) (instance_arg E cls x)"

text \<open>The objects of the arguments; an argument that the environment does not convert is a call error.\<close>

fun local_args :: "(unit + obj) list \<Rightarrow> managed_error + obj list" where
  "local_args [] = Inr []"
| "local_args (Inl u # as) = Inl ProxyHandleCallError"
| "local_args (Inr x # as) = map_sum id ((#) x) (local_args as)"

section \<open>The match\<close>

fun args_convert :: "handle_env \<Rightarrow> callable \<Rightarrow> nat \<Rightarrow> obj list \<Rightarrow> managed_error + bool" where
  "args_convert E c a [] = Inr True"
| "args_convert E c a (x # xs) = and_then (lift_obj (cl_type c (int a)))
     (\<lambda>t. if obj_canConvert (he_names E) (he_convert E) x t then args_convert E c (Suc a) xs else Inr False)"

fun match_calls :: "handle_env \<Rightarrow> obj list \<Rightarrow> callable list \<Rightarrow> callable \<Rightarrow> managed_error + callable" where
  "match_calls E args [] call = Inr call"
| "match_calls E args (c # cs) call = and_then (lift_obj (cl_getNumArgs c))
     (\<lambda>n. if n \<noteq> length args then match_calls E args cs call
           else and_then (args_convert E c 0 args) (\<lambda>ok. match_calls E args cs (if ok then c else call)))"

datatype call_kind = Typed | OpaqueKind | WildcardKind

definition choose_call :: "handle_env \<Rightarrow> obj list \<Rightarrow> callable list \<times> callable \<times> callable \<Rightarrow> managed_error + callable \<times> call_kind" where
  "choose_call E args cs = (case cs of (calls, opq, wild) \<Rightarrow>
     and_then (match_calls E args calls cl_null) (\<lambda>call.
       if cl_valid call then Inr (call, Typed)
       else if cl_valid opq then Inr (opq, OpaqueKind)
       else if cl_valid wild then Inr (wild, WildcardKind)
       else Inr (call, Typed)))"

text \<open>The search of the base classes goes on after a call error only; None is a search that found nothing.\<close>

fun try_bases :: "handle_env \<Rightarrow> (obj \<Rightarrow> (managed_error + proxy) option) \<Rightarrow> obj \<Rightarrow> callable list \<Rightarrow> (managed_error + proxy) option option" where
  "try_bases E again self [] = Some None"
| "try_bases E again self (toBase # bs) = (case env_call E toBase [self] of
     None \<Rightarrow> None
   | Some (Inl e) \<Rightarrow> Some (Some (Inl (ObjError e)))
   | Some (Inr x) \<Rightarrow> (case again x of
       None \<Rightarrow> None
     | Some r \<Rightarrow> if r = Inl ProxyHandleCallError then try_bases E again self bs else Some (Some r)))"

section \<open>The call\<close>

definition meta_args :: "bool \<Rightarrow> call_kind \<Rightarrow> string \<Rightarrow> obj list \<Rightarrow> obj list" where
  "meta_args callMethod k name args = (if k = Typed then args else
     (if callMethod then take 1 args else []) @ (if k = WildcardKind then [Str name] else []) @
     (if callMethod then [ArgPtr (drop 1 args), SizeT (length args - 1)] else [ArgPtr args, SizeT (length args)]))"

definition unwrap_result :: "bool \<Rightarrow> call_kind \<Rightarrow> obj \<Rightarrow> obj_error + obj" where
  "unwrap_result ctor k x = (if k = Typed \<or> ctor then Inr x
     else case x of Wrapped y \<Rightarrow> Inr y | _ \<Rightarrow> Inl ObjectConvertError)"

definition make_call :: "handle_env \<Rightarrow> receiver \<Rightarrow> string \<Rightarrow> obj list \<Rightarrow> callable \<Rightarrow> call_kind \<Rightarrow> (managed_error + proxy) option" where
  "make_call E r name args call k = (case env_call E call (meta_args (\<not> isManagedClass r) k name args) of
     None \<Rightarrow> None
   | Some (Inl e) \<Rightarrow> Some (Inl (ProxyExceptionMessage e))
   | Some (Inr x) \<Rightarrow> (case unwrap_result (callConstructor r name) k x of
       Inl e \<Rightarrow> Some (Inl (ProxyExceptionMessage e))
     | Inr y \<Rightarrow> Some (Inr (if obj_type (he_names E) y = he_proxy E then Extracted y else NewHandle y))))"

definition finish_call :: "handle_env \<Rightarrow> receiver \<Rightarrow> string \<Rightarrow> obj list \<Rightarrow> callable \<Rightarrow> call_kind \<Rightarrow> (managed_error + proxy) option" where
  "finish_call E r name args call k = (if \<not> cl_valid call then Some (Inl ProxyHandleCallError) else make_call E r name args call k)"

text \<open>The fuel bounds the depth of the calls on base classes.\<close>

fun handle_call :: "nat \<Rightarrow> handle_env \<Rightarrow> receiver \<Rightarrow> string \<Rightarrow> (unit + obj) list \<Rightarrow> (managed_error + proxy) option" where
  "handle_call 0 E r name args = None"
| "handle_call (Suc n) E r name args = (case handle_class E r of
     Inl e \<Rightarrow> Some (Inl e)
   | Inr cls \<Rightarrow> (case self_args E r cls of
       None \<Rightarrow> None
     | Some (Inl e) \<Rightarrow> Some (Inl e)
     | Some (Inr self) \<Rightarrow> (case local_args args of
         Inl e \<Rightarrow> Some (Inl e)
       | Inr locals \<Rightarrow> (case choose_call E (self @ locals) (handle_calls r name cls) of
           Inl e \<Rightarrow> Some (Inl e)
         | Inr (call, k) \<Rightarrow>
             (if \<not> isManagedClass r \<and> (\<not> cl_valid call \<or> cl_valid (mc_wildMethod cls)) then
                (case try_bases E (\<lambda>x. handle_call n E (HeldObject x) name (map Inr locals)) (hd self) (mc_bases cls) of
                   None \<Rightarrow> None
                 | Some (Some res) \<Rightarrow> Some res
                 | Some None \<Rightarrow> finish_call E r name (self @ locals) call k)
              else finish_call E r name (self @ locals) call k)))))"

text \<open>\<open>typeToPluginPath\<close>: the letters and digits in lower case, every other character an underscore.\<close>

definition typeToPluginPath :: "string \<Rightarrow> string" where
  "typeToPluginPath s = concat (map (\<lambda>ch.
     if of_char ch \<in> {48..57 :: nat} \<or> of_char ch \<in> {97..122 :: nat} then [ch]
     else if of_char ch \<in> {65..90 :: nat} then [char_of (of_char ch + 32 :: nat)]
     else ''_'') s)"


section \<open>The types of a class\<close>

datatype registration = RegReference callable | RegPointer callable | RegShared callable | RegBase callable
  | RegConstructor callable | RegStatic string callable | RegMethod string callable | RegOpaqueConstructor callable
  | RegOpaqueStatic string callable | RegWildStatic callable | RegOpaqueMethod string callable | RegWildMethod callable

fun apply_registration :: "type_names \<Rightarrow> registration \<Rightarrow> managed_class \<Rightarrow> managed_error + managed_class" where
  "apply_registration T (RegReference c) cls = registerReferenceToWrapper c cls"
| "apply_registration T (RegPointer c) cls = registerPointerToWrapper c cls"
| "apply_registration T (RegShared c) cls = registerSharedToWrapper c cls"
| "apply_registration T (RegBase c) cls = registerToBaseClass c cls"
| "apply_registration T (RegConstructor c) cls = registerConstructor c cls"
| "apply_registration T (RegStatic n c) cls = registerStaticMethod n c cls"
| "apply_registration T (RegMethod n c) cls = registerMethod n c cls"
| "apply_registration T (RegOpaqueConstructor c) cls = registerOpaqueConstructor T c cls"
| "apply_registration T (RegOpaqueStatic n c) cls = registerOpaqueStaticMethod T n c cls"
| "apply_registration T (RegWildStatic c) cls = registerWildcardStaticMethod T c cls"
| "apply_registration T (RegOpaqueMethod n c) cls = registerOpaqueMethod T n c cls"
| "apply_registration T (RegWildMethod c) cls = registerWildcardMethod T c cls"

text \<open>A registration that throws leaves the class as it was.\<close>

definition registrations :: "type_names \<Rightarrow> registration list \<Rightarrow> managed_class \<Rightarrow> managed_class" where
  "registrations T rs cls = foldl (\<lambda>c r. or_default c (apply_registration T r c)) cls rs"

definition self_typed :: "tinfo \<Rightarrow> callable \<Rightarrow> bool" where
  "self_typed t c \<longleftrightarrow> cl_getNumArgs c = Inr 0 \<or> cl_type c 0 = Inr t"

definition wrapped :: "tinfo \<Rightarrow> managed_class \<Rightarrow> bool" where
  "wrapped t cls \<longleftrightarrow> cl_valid (mc_ref cls) \<and> cl_type (mc_ref cls) 0 = Inr t"

definition no_wrapper :: "registration list \<Rightarrow> bool" where
  "no_wrapper rs \<longleftrightarrow> list_all (\<lambda>r. case r of RegReference c \<Rightarrow> False | _ \<Rightarrow> True) rs"

definition methods_of :: "string \<Rightarrow> managed_class \<Rightarrow> callable list" where
  "methods_of name cls = (case smap_find name (mc_methods cls) of None \<Rightarrow> [] | Some cs \<Rightarrow> cs)"

text \<open>The constructors, base converters and methods of a name among the registrations that have the type of the class.\<close>

definition typed_ctors :: "tinfo \<Rightarrow> registration list \<Rightarrow> callable list" where
  "typed_ctors t rs = [c. RegConstructor c \<leftarrow> rs, cl_type c (-1) = Inr t]"

definition typed_bases :: "tinfo \<Rightarrow> registration list \<Rightarrow> callable list" where
  "typed_bases t rs = [c. RegBase c \<leftarrow> rs, cl_type c 0 = Inr t]"

definition typed_methods :: "tinfo \<Rightarrow> string \<Rightarrow> registration list \<Rightarrow> callable list" where
  "typed_methods t name rs = [c. RegMethod n c \<leftarrow> rs, n = name \<and> self_typed t c]"

text \<open>The opaque and wildcard calls of an instance are those of the class before, or have its type.\<close>

definition opaque_typed :: "tinfo \<Rightarrow> managed_class \<Rightarrow> managed_class \<Rightarrow> bool" where
  "opaque_typed t old cls \<longleftrightarrow>
     (mc_opaqueCtor cls = mc_opaqueCtor old \<or> cl_type (mc_opaqueCtor cls) (-1) = Inr t) \<and>
     (mc_wildMethod cls = mc_wildMethod old \<or> self_typed t (mc_wildMethod cls)) \<and>
     (\<forall>(n, c) \<in> set (mc_opaqueMethods cls). (n, c) \<in> set (mc_opaqueMethods old) \<or> self_typed t c)"

lemma lift_obj_Inr [simp]: "lift_obj r = Inr x \<longleftrightarrow> r = Inr x"
  by (cases r) (auto simp: lift_obj_def)

lemma lift_obj_Inr' [simp]: "lift_obj (Inr x) = Inr x" by (simp add: lift_obj_def)

lemma lift_obj_Inl' [simp]: "lift_obj (Inl e) = Inl (ObjError e)" by (simp add: lift_obj_def)

lemma and_then_Inr [simp]: "and_then r f = Inr y \<longleftrightarrow> (\<exists>x. r = Inr x \<and> f x = Inr y)"
  by (cases r) auto

lemma unless_mismatch_Inr:
  assumes "cl_valid w" "cl_type w 0 = Inr t"
  shows "unless_mismatch w ty x = Inr y \<longleftrightarrow> ty = Inr t \<and> x = y"
  using assms by (auto simp: unless_mismatch_def split: if_splits)

lemma unless_self_mismatch_Inr:
  assumes "cl_valid w" "cl_type w 0 = Inr t"
  shows "unless_self_mismatch w c x = Inr y \<longleftrightarrow> (\<exists>n. cl_getNumArgs c = Inr n) \<and> self_typed t c \<and> x = y"
  using assms by (auto simp: unless_self_mismatch_def unless_mismatch_Inr self_typed_def)

lemma when_signature_Inr [simp]: "when_signature ok x = Inr y \<longleftrightarrow> ok = Inr True \<and> x = y"
  by (auto simp: when_signature_def split: if_splits)

lemma smap_set_subset: "set (smap_set k v m) \<subseteq> insert (k, v) (set m)"
  by (induction m) (auto split: if_splits)

lemma methods_of_add: "methods_of n (cls\<lparr>mc_methods := add_to k c (mc_methods cls)\<rparr>) = methods_of n cls @ (if n = k then [c] else [])"
  by (auto simp: methods_of_def add_to_def smap_find_set split: option.splits)

lemma self_typed_args: "self_typed t c \<Longrightarrow> \<exists>n. cl_getNumArgs c = Inr n"
  by (cases "cl_getNumArgs c") (auto simp: self_typed_def cl_type_def split: option.splits)

lemma mismatch_cases:
  assumes "cl_valid w" "cl_type w 0 = Inr t"
  shows "ty = Inr t \<Longrightarrow> unless_mismatch w ty x = Inr x" "ty \<noteq> Inr t \<Longrightarrow> \<exists>e. unless_mismatch w ty x = Inl e"
    and "self_typed t c \<Longrightarrow> unless_self_mismatch w c x = Inr x" "\<not> self_typed t c \<Longrightarrow> \<exists>e. unless_self_mismatch w c x = Inl e"
proof -
  show "ty = Inr t \<Longrightarrow> unless_mismatch w ty x = Inr x" by (simp add: unless_mismatch_Inr[OF assms])
  show "\<exists>e. unless_mismatch w ty x = Inl e" if "ty \<noteq> Inr t"
    using that unless_mismatch_Inr[OF assms, of ty x] by (cases "unless_mismatch w ty x") blast+
  show "unless_self_mismatch w c x = Inr x" if "self_typed t c"
    using that self_typed_args[OF that] by (simp add: unless_self_mismatch_Inr[OF assms])
  show "\<exists>e. unless_self_mismatch w c x = Inl e" if "\<not> self_typed t c"
    using that unless_self_mismatch_Inr[OF assms, of c x] by (cases "unless_self_mismatch w c x") blast+
qed

lemma unless_result: "unless_mismatch w ty x = Inr y \<Longrightarrow> y = x" "unless_self_mismatch w c x = Inr y \<Longrightarrow> y = x"
  by (auto simp: unless_mismatch_def unless_self_mismatch_def split: if_splits)

lemmas register_defs = registerReferenceToWrapper_def registerPointerToWrapper_def registerSharedToWrapper_def
  registerToBaseClass_def registerConstructor_def registerStaticMethod_def registerMethod_def registerOpaqueConstructor_def
  registerOpaqueStaticMethod_def registerWildcardStaticMethod_def registerOpaqueMethod_def registerWildcardMethod_def

lemmas typed_defs = typed_ctors_def typed_bases_def typed_methods_def

lemma or_default_simps [simp]: "or_default d (Inl e) = d" "or_default d (Inr x) = x"
  by (simp_all add: or_default_def)

text \<open>The registrations that do not concern the typed calls or the reference wrapper.\<close>

fun untyped :: "registration \<Rightarrow> bool" where
  "untyped (RegReference c) = False"
| "untyped (RegBase c) = False"
| "untyped (RegConstructor c) = False"
| "untyped (RegMethod n c) = False"
| "untyped _ = True"

lemma untyped_keeps:
  assumes "untyped r" "apply_registration T r cls = Inr y"
  shows "mc_ref y = mc_ref cls" "mc_ctors y = mc_ctors cls" "mc_bases y = mc_bases cls" "mc_methods y = mc_methods cls"
  using assms by (cases r; auto simp: register_defs dest!: unless_result)+

lemma untyped_typed: "untyped r \<Longrightarrow> typed_ctors t [r] = [] \<and> typed_bases t [r] = [] \<and> typed_methods t n [r] = []"
  by (cases r) (simp_all add: typed_defs)

lemma untyped_opaque:
  assumes "untyped r" "apply_registration T r cls = Inr y" "opaque_typed t old cls" "cl_valid (mc_ref cls)" "cl_type (mc_ref cls) 0 = Inr t"
  shows "opaque_typed t old y"
  using assms(1-3)
  by (cases r) (auto simp: register_defs opaque_typed_def unless_mismatch_Inr[OF assms(4,5)] unless_self_mismatch_Inr[OF assms(4,5)]
      dest!: subsetD[OF smap_set_subset] unless_result)

text \<open>One registration of a class with a reference wrapper.\<close>

abbreviation after_registration :: "type_names \<Rightarrow> registration \<Rightarrow> managed_class \<Rightarrow> managed_class" where
  "after_registration T r cls \<equiv> or_default cls (apply_registration T r cls)"

definition step_ok :: "tinfo \<Rightarrow> registration list \<Rightarrow> managed_class \<Rightarrow> managed_class \<Rightarrow> managed_class \<Rightarrow> bool" where
  "step_ok t rs old cls cls' \<longleftrightarrow> wrapped t cls' \<and> mc_ctors cls' = mc_ctors cls @ typed_ctors t rs \<and>
     mc_bases cls' = mc_bases cls @ typed_bases t rs \<and> (\<forall>n. methods_of n cls' = methods_of n cls @ typed_methods t n rs) \<and>
     opaque_typed t old cls'"

lemma registration_step:
  assumes w: "wrapped t cls" and o: "opaque_typed t old cls"
  shows "step_ok t [r] old cls (after_registration T r cls)"
proof -
  have v: "cl_valid (mc_ref cls)" "cl_type (mc_ref cls) 0 = Inr t" using w by (auto simp: wrapped_def)
  have valid: "cl_valid c" if "cl_type c k = Inr t" for c k
    using that by (auto simp: cl_type_def cl_valid_def split: option.splits)
  note m = mismatch_cases[OF v]
  have same: "step_ok t [r] old cls cls" if "typed_ctors t [r] = []" "typed_bases t [r] = []" "\<And>n. typed_methods t n [r] = []"
    using w o that by (simp add: step_ok_def)
  consider (ref) c where "r = RegReference c" | (base) c where "r = RegBase c" | (ctor) c where "r = RegConstructor c"
    | (meth) k c where "r = RegMethod k c" | (other) "untyped r" by (cases r) auto
  then show ?thesis
  proof cases
    case ref
    show ?thesis
    proof (cases "cl_type c 0 = Inr t")
      case True
      then show ?thesis using ref valid[OF True] w o
        by (simp add: m(1) register_defs typed_defs step_ok_def wrapped_def opaque_typed_def methods_of_def)
    next
      case False
      then show ?thesis using ref same m(2)[OF False, of "cls\<lparr>mc_ref := c\<rparr>"] by (auto simp: register_defs typed_defs)
    qed
  next
    case base
    show ?thesis
    proof (cases "cl_type c 0 = Inr t")
      case True
      then show ?thesis using base w o
        by (simp add: m(1) register_defs typed_defs step_ok_def wrapped_def opaque_typed_def methods_of_def)
    next
      case False
      then show ?thesis using base same m(2)[OF False, of "cls\<lparr>mc_bases := mc_bases cls @ [c]\<rparr>"] by (auto simp: register_defs typed_defs)
    qed
  next
    case ctor
    show ?thesis
    proof (cases "cl_type c (-1) = Inr t")
      case True
      then show ?thesis using ctor w o
        by (simp add: m(1) register_defs typed_defs step_ok_def wrapped_def opaque_typed_def methods_of_def)
    next
      case False
      then show ?thesis using ctor same m(2)[OF False, of "cls\<lparr>mc_ctors := mc_ctors cls @ [c]\<rparr>"] by (auto simp: register_defs typed_defs)
    qed
  next
    case meth
    show ?thesis
    proof (cases "self_typed t c")
      case True
      then show ?thesis using meth w o
        by (simp add: m(3) register_defs typed_defs step_ok_def wrapped_def opaque_typed_def methods_of_add)
    next
      case False
      then show ?thesis using meth same m(4)[OF False, of "cls\<lparr>mc_methods := add_to k c (mc_methods cls)\<rparr>"]
        by (auto simp: register_defs typed_defs)
    qed
  next
    case other
    show ?thesis
    proof (cases "apply_registration T r cls")
      case (Inl e)
      then show ?thesis using same untyped_typed[OF other] by simp
    next
      case (Inr y)
      then show ?thesis using untyped_keeps[OF other Inr] untyped_typed[OF other] untyped_opaque[OF other Inr o v] w
        by (simp add: step_ok_def wrapped_def methods_of_def)
    qed
  qed
qed

lemma registrations_append: "registrations T (xs @ ys) cls = registrations T ys (registrations T xs cls)"
  by (simp add: registrations_def)

lemma typed_append: "typed_ctors t (xs @ ys) = typed_ctors t xs @ typed_ctors t ys" "typed_bases t (xs @ ys) = typed_bases t xs @ typed_bases t ys"
  "typed_methods t n (xs @ ys) = typed_methods t n xs @ typed_methods t n ys"
  by (simp_all add: typed_defs)

lemma registrations_ok:
  assumes "wrapped t cls" "opaque_typed t old cls"
  shows "step_ok t rs old cls (registrations T rs cls)"
proof (induction rs rule: rev_induct)
  case Nil
  then show ?case using assms by (simp add: registrations_def step_ok_def typed_defs)
next
  case (snoc r rs)
  then have "step_ok t [r] old (registrations T rs cls) (after_registration T r (registrations T rs cls))"
    by (intro registration_step) (simp_all add: step_ok_def)
  moreover have "registrations T (rs @ [r]) cls = after_registration T r (registrations T rs cls)" by (simp add: registrations_def)
  ultimately show ?case using snoc by (simp add: step_ok_def typed_append)
qed

lemma no_wrapper_step:
  assumes "no_wrapper [r]" "apply_registration T r cls = Inr y"
  shows "mc_ref y = mc_ref cls"
proof (cases "untyped r")
  case True
  then show ?thesis using untyped_keeps(1) assms(2) by blast
next
  case False
  then consider c where "r = RegBase c" | c where "r = RegConstructor c" | n c where "r = RegMethod n c"
    using assms(1) by (cases r) (auto simp: no_wrapper_def)
  then show ?thesis using assms(2) by cases (auto simp: register_defs dest!: unless_result)
qed

lemma no_wrapper_ref: "no_wrapper rs \<Longrightarrow> mc_ref (registrations T rs mc_new) = cl_null"
proof (induction rs rule: rev_induct)
  case (snoc r rs)
  let ?c = "registrations T rs mc_new"
  have "mc_ref ?c = cl_null" "no_wrapper [r]" using snoc by (simp_all add: no_wrapper_def)
  then have "mc_ref (after_registration T r ?c) = cl_null"
    by (cases "apply_registration T r ?c") (simp_all add: no_wrapper_step)
  then show ?case by (simp add: registrations_def)
qed (simp add: registrations_def mc_new_def)

lemma first_wrapper: "mc_ref cls = cl_null \<Longrightarrow> registrations T [RegReference ref] cls = cls\<lparr>mc_ref := ref\<rparr>"
  by (simp add: registrations_def registerReferenceToWrapper_def unless_mismatch_def cl_valid_def cl_null_def)

text \<open>C31: An empty class gets any registrations without a reference wrapper, then a reference wrapper for the type \<open>t\<close>, and then
  any registrations; one that throws leaves the class as it was. Then the class has the type \<open>t\<close>; its constructors, its base
  converters and the overloads of every name are those from before the wrapper, whose types nothing checks, followed in order
  by exactly those registered later that return \<open>t\<close> (constructors) or take it as first argument (base converters, and methods
  unless they have no argument); the opaque and wildcard calls of an instance are those from before or have the type too.\<close>

theorem managed_class_typed:
  assumes "no_wrapper rs1" "cl_type ref 0 = Inr t"
  shows "let old = registrations T rs1 mc_new; cls = registrations T (rs1 @ RegReference ref # rs2) mc_new in
    mc_type cls = Inr t \<and>
    mc_ctors cls = mc_ctors old @ typed_ctors t rs2 \<and>
    mc_bases cls = mc_bases old @ typed_bases t rs2 \<and>
    (\<forall>n. methods_of n cls = methods_of n old @ typed_methods t n rs2) \<and>
    opaque_typed t old cls"
proof -
  let ?old = "registrations T rs1 mc_new"
  let ?c = "?old\<lparr>mc_ref := ref\<rparr>"
  have "registrations T [RegReference ref] ?old = ?c"
    by (rule first_wrapper[OF no_wrapper_ref[OF assms(1)]])
  then have r: "registrations T (rs1 @ RegReference ref # rs2) mc_new = registrations T rs2 ?c"
    using registrations_append[of T "[RegReference ref]" rs2 ?old] by (simp add: registrations_append)
  have "cl_valid ref" using assms(2) by (auto simp: cl_type_def cl_valid_def split: option.splits)
  then have "step_ok t rs2 ?old ?c (registrations T rs2 ?c)"
    using assms(2) by (intro registrations_ok) (auto simp: wrapped_def opaque_typed_def)
  then show ?thesis unfolding r by (simp add: step_ok_def wrapped_def mc_type_def wrapper_type_def methods_of_def)
qed

section \<open>The overload\<close>

text \<open>An overload takes the number of arguments and converts each of them.\<close>

definition takes_args :: "handle_env \<Rightarrow> obj list \<Rightarrow> callable \<Rightarrow> bool" where
  "takes_args E args c \<longleftrightarrow> cl_getNumArgs c = Inr (length args) \<and>
     list_all (\<lambda>a. case cl_type c (int a) of Inl e \<Rightarrow> False | Inr t \<Rightarrow> obj_canConvert (he_names E) (he_convert E) (args ! a) t) [0..<length args]"

lemma args_convert_all:
  assumes "\<And>k. k < a + length xs \<Longrightarrow> \<exists>t. cl_type c (int k) = Inr t"
  shows "args_convert E c a xs = Inr (\<forall>i<length xs. case cl_type c (int (a + i)) of Inl e \<Rightarrow> False
    | Inr t \<Rightarrow> obj_canConvert (he_names E) (he_convert E) (xs ! i) t)"
  using assms
proof (induction xs arbitrary: a)
  case (Cons x xs)
  obtain t where t: "cl_type c (int a) = Inr t" using Cons.prems[of a] by auto
  have "args_convert E c (Suc a) xs = Inr (\<forall>i<length xs. case cl_type c (int (Suc a + i)) of Inl e \<Rightarrow> False
      | Inr t \<Rightarrow> obj_canConvert (he_names E) (he_convert E) (xs ! i) t)"
    by (rule Cons.IH) (use Cons.prems in auto)
  then show ?case using t by (simp add: All_less_Suc2 del: of_nat_Suc of_nat_add cong: sum.case_cong)
qed simp


lemma cl_type_defined:
  assumes "cl_getNumArgs c = Inr n" "k < n"
  shows "\<exists>t. cl_type c (int k) = Inr t"
proof -
  obtain ci where ci: "cl_impl c = Some ci" using assms by (auto simp: cl_getNumArgs_def split: option.splits)
  have "n = length (open_args (cl_bound c) (length (ci_args ci)))" using assms(1) cl_getNumArgs_open[OF ci] by simp
  then show ?thesis using assms(2) by (simp add: cl_type_open[OF ci] Let_def)
qed

lemma args_convert_takes:
  "cl_getNumArgs c = Inr (length args) \<Longrightarrow> args_convert E c 0 args = Inr (takes_args E args c)"
  using args_convert_all[of 0 args c E] cl_type_defined[of c "length args"]
  by (simp add: takes_args_def list_all_iff atLeast0LessThan Ball_def)

lemma match_calls_last:
  "list_all cl_valid cs \<Longrightarrow>
   match_calls E args cs call = Inr (last (call # filter (takes_args E args) cs))"
proof (induction cs arbitrary: call)
  case (Cons c cs)
  obtain n where n: "cl_getNumArgs c = Inr n"
    using Cons.prems by (auto simp: cl_valid_def cl_getNumArgs_def split: option.splits)
  show ?case
  proof (cases "n = length args")
    case True
    then show ?thesis using Cons n args_convert_takes[of c args E] by auto
  next
    case False
    then have "\<not> takes_args E args c" using n by (simp add: takes_args_def)
    then show ?thesis using Cons n False by simp
  qed
qed simp

text \<open>Of several overloads that take the arguments the last registered one is called; the comment of the code announces the best match.\<close>

lemma overload_choice:
  assumes "list_all cl_valid calls"
  shows "choose_call E args (calls, opq, wild) =
     (let takers = filter (takes_args E args) calls in
      if takers \<noteq> [] then Inr (last takers, Typed)
      else if cl_valid opq then Inr (opq, OpaqueKind)
      else if cl_valid wild then Inr (wild, WildcardKind)
      else Inr (cl_null, Typed))"
proof -
  let ?takers = "filter (takes_args E args) calls"
  have "cl_valid (last ?takers)" if "?takers \<noteq> []"
    using last_in_set[OF that] assms by (auto simp: list_all_iff)
  moreover have "\<not> cl_valid cl_null" by (simp add: cl_valid_def cl_null_def)
  ultimately show ?thesis using assms by (auto simp: choose_call_def match_calls_last Let_def)
qed

definition demo_ctor :: "nat \<Rightarrow> callable" where
  "demo_ctor k = \<lparr>cl_impl = Some \<lparr>ci_args = [10], ci_ret = 40, ci_call = (\<lambda>args. Inr (Val 40 k))\<rparr>, cl_bound = []\<rparr>"

definition demo_ref :: callable where
  "demo_ref = \<lparr>cl_impl = Some \<lparr>ci_args = [40], ci_ret = 40, ci_call = (\<lambda>args. Inr (hd args))\<rparr>, cl_bound = []\<rparr>"

definition demo_env :: handle_env where
  "demo_env = \<lparr>he_names = demo_names, he_convert = \<lparr>cm_map = [], cm_io = []\<rparr>, he_classes = [], he_proxy = 90, he_fuel = 3\<rparr>"


definition pair_ctor :: callable where
  "pair_ctor = \<lparr>cl_impl = Some \<lparr>ci_args = [10, 10], ci_ret = 40, ci_call = (\<lambda>args. Inr (hd args))\<rparr>, cl_bound = []\<rparr>"


definition other_ctor :: callable where
  "other_ctor = \<lparr>cl_impl = Some \<lparr>ci_args = [10], ci_ret = 41, ci_call = (\<lambda>args. Inr (hd args))\<rparr>, cl_bound = []\<rparr>"

text \<open>A constructor of another type is accepted before the wrapper, and rejected behind it.\<close>

lemma managed_class_typed_witness:
  "mc_ctors (registrations demo_names ([RegConstructor other_ctor] @ RegReference demo_ref #
       [RegConstructor (demo_ctor 1), RegConstructor other_ctor, RegMethod ''get'' demo_ref]) mc_new) = [other_ctor, demo_ctor 1]"
proof -
  have "typed_ctors 40 [RegConstructor (demo_ctor 1), RegConstructor other_ctor, RegMethod ''get'' demo_ref] = [demo_ctor 1]"
    by (simp add: typed_ctors_def demo_ctor_def other_ctor_def cl_type_def cl_getNumArgs_def impl_type_def)
  moreover have "mc_ctors (registrations demo_names [RegConstructor other_ctor] mc_new) = [other_ctor]"
    by (simp add: registrations_def registerConstructor_def unless_mismatch_def mc_new_def cl_null_def cl_valid_def)
  moreover have "cl_type demo_ref 0 = Inr 40" by (simp add: demo_ref_def cl_type_def cl_getNumArgs_def impl_type_def)
  ultimately show ?thesis
    using managed_class_typed[of "[RegConstructor other_ctor]" demo_ref 40 demo_names
        "[RegConstructor (demo_ctor 1), RegConstructor other_ctor, RegMethod ''get'' demo_ref]"]
    by (simp add: no_wrapper_def Let_def)
qed

section \<open>The class map\<close>

definition class_types :: "managed_class \<Rightarrow> (managed_error + tinfo) list" where
  "class_types cls = [mc_type cls, mc_pointerType cls, mc_sharedType cls]"

definition class_map_ok :: "class_map \<Rightarrow> bool" where
  "class_map_ok m \<longleftrightarrow> list_all (\<lambda>(t, p). case p of None \<Rightarrow> True | Some cls \<Rightarrow> Inr t \<in> set (class_types cls)) m"

lemma store_types_ok:
  assumes "class_map_ok m" "\<And>cls. p = Some cls \<Longrightarrow> set ts \<subseteq> set (class_types cls)"
  shows "class_map_ok (store_types ts p m)"
  using assms
proof (induction ts p m rule: store_types.induct)
  case (3 t ts p m)
  have "class_map_ok (smap_set t p m)"
    unfolding class_map_ok_def list_all_iff
  proof
    fix e
    assume "e \<in> set (smap_set t p m)"
    then have "e = (t, p) \<or> e \<in> set m" using smap_set_subset[of t p m] by auto
    then show "case e of (t, p) \<Rightarrow> case p of None \<Rightarrow> True | Some cls \<Rightarrow> Inr t \<in> set (class_types cls)"
      using "3.prems" by (auto simp: class_map_ok_def list_all_iff split: option.splits)
  qed
  then show ?case using 3 by (auto simp: subset_iff)
qed auto


lemma handlePluginEvent_ok: "class_map_ok m \<Longrightarrow> class_map_ok (handleManagedPluginEvent plugin event m)"
  by (auto simp: handleManagedPluginEvent_def Let_def class_types_def split: option.split intro!: store_types_ok)

lemma class_map_ok_events: "class_map_ok (foldl (\<lambda>m (p, e). handleManagedPluginEvent p e m) [] evs)"
proof -
  have "class_map_ok m \<Longrightarrow> class_map_ok (foldl (\<lambda>m (p, e). handleManagedPluginEvent p e m) m evs)" for m
    by (induction evs arbitrary: m) (auto simp: handlePluginEvent_ok)
  then show ?thesis by (simp add: class_map_ok_def)
qed

lemma mc_lookup_ok: "class_map_ok m \<Longrightarrow> mc_lookup m t = Inr cls \<Longrightarrow> Inr t \<in> set (class_types cls)"
  by (auto simp: mc_lookup_def class_map_ok_def list_all_iff split: option.splits dest!: smap_find_Some_in)

lemma instance_arg_ok:
  assumes "Inr (obj_type (he_names E) x) \<in> set (class_types cls)"
  shows "instance_arg E cls x \<noteq> Some (Inl AssertionFailed)"
proof -
  have l: "lift_obj r \<noteq> Inl AssertionFailed" for r :: "obj_error + obj" by (cases r) (auto simp: lift_obj_def)
  have "lift_obj r \<noteq> Inl AssertionFailed" for r :: "obj_error + tinfo" by (cases r) (auto simp: lift_obj_def)
  then have w: "wrapper_type c \<noteq> Inl AssertionFailed" for c by (simp add: wrapper_type_def)
  show ?thesis using assms l w
    by (auto simp: instance_arg_def class_types_def mc_type_def mc_sharedType_def mc_pointerType_def Let_def split: sum.splits)
qed

text \<open>Whatever classes were added and removed, a method call on an object whose type is in the class map has an instance
  argument: the assertion of the call never fails.\<close>

theorem instance_assertion:
  assumes "he_classes E = foldl (\<lambda>m (p, e). handleManagedPluginEvent p e m) [] evs"
    and "handle_class E (HeldObject x) = Inr cls"
  shows "instance_arg E cls x \<noteq> Some (Inl AssertionFailed)"
  using assms class_map_ok_events[of evs] mc_lookup_ok by (intro instance_arg_ok) auto

definition demo_class :: managed_class where
  "demo_class = mc_new\<lparr>mc_ref := demo_ref\<rparr>"

lemma instance_assertion_witness:
  "instance_arg (demo_env\<lparr>he_classes := [(40, Some demo_class)]\<rparr>) demo_class (Val 40 3) \<noteq> Some (Inl AssertionFailed)"
proof (rule instance_assertion[where evs = "[(Some demo_class, ''add'')]"])
  have "mc_type demo_class = Inr 40" "mc_pointerType demo_class = Inl ManagedClassTypeError"
    by (simp_all add: mc_type_def mc_pointerType_def wrapper_type_def demo_class_def mc_new_def cl_valid_def cl_null_def demo_ref_def
        cl_type_def cl_getNumArgs_def impl_type_def)
  then show "he_classes (demo_env\<lparr>he_classes := [(40, Some demo_class)]\<rparr>)
      = foldl (\<lambda>m (p, e). handleManagedPluginEvent p e m) [] [(Some demo_class, ''add'')]"
    by (simp add: handleManagedPluginEvent_def Let_def)
  show "handle_class (demo_env\<lparr>he_classes := [(40, Some demo_class)]\<rparr>) (HeldObject (Val 40 3)) = Inr demo_class"
    by (simp add: mc_lookup_def)
qed

text \<open>After the removal of a class the lookup of its types fails with a conversion error instead of a lookup error.\<close>

lemma removed_class_lookup:
  assumes "mc_type cls = Inr t"
  shows "mc_lookup (handleManagedPluginEvent (Some cls) ''remove'' m) t = Inl (ObjError ObjectConvertError)"
proof -
  have "smap_find t m' = Some None \<Longrightarrow> smap_find t (store_types ts None m') = Some None" for ts m'
    by (induction ts "None :: managed_class option" m' rule: store_types.induct) (auto simp: smap_find_set)
  then show ?thesis using assms by (simp add: handleManagedPluginEvent_def Let_def mc_lookup_def)
qed

text \<open>A class with neither a call of the name nor a base class rejects the call.\<close>

lemma no_call_rejected:
  assumes "handle_class E (HeldObject x) = Inr cls" "instance_arg E cls x = Some (Inr i)" "local_args args = Inr locals"
    and "getMethods name cls = Inl e" "getOpaqueMethod name cls = Inl e'" "\<not> cl_valid (mc_wildMethod cls)" "mc_bases cls = []"
  shows "handle_call (Suc n) E (HeldObject x) name args = Some (Inl ProxyHandleCallError)"
  using assms by (simp add: handle_calls_def callConstructor_def or_default_def choose_call_def finish_call_def cl_valid_def cl_null_def)


text \<open>Different type names can have the same plugin path.\<close>

lemma type_paths_collide: "typeToPluginPath ''ns::T'' = typeToPluginPath ''ns__T''"
  by code_simp

end
