(* ===== verification/ByteOrder.thy ===== *)
theory ByteOrder
  imports Prelude
begin

unbundle bit_operations_syntax

text \<open>
  Words in network byte order, as the framing of the serializer and of the network endpoints writes and reads them
  (\<^verbatim>\<open>Poco::ByteOrder\<close>): the bytes of a 16-bit and of a 32-bit word, most significant byte first, and the word at
  an index of a list of bytes, counted in words.
\<close>

definition be32 :: "32 word \<Rightarrow> 8 word list" where
  "be32 w = [ucast (drop_bit 24 w), ucast (drop_bit 16 w), ucast (drop_bit 8 w), ucast w]"

definition rd32 :: "8 word list \<Rightarrow> nat \<Rightarrow> 32 word" where
  "rd32 p i = push_bit 24 (ucast (p ! (4 * i))) OR push_bit 16 (ucast (p ! (4 * i + 1)))
     OR push_bit 8 (ucast (p ! (4 * i + 2))) OR ucast (p ! (4 * i + 3))"

definition be16 :: "16 word \<Rightarrow> 8 word list" where
  "be16 w = [ucast (drop_bit 8 w), ucast w]"

definition rd16 :: "8 word list \<Rightarrow> nat \<Rightarrow> 16 word" where
  "rd16 p i = push_bit 8 (ucast (p ! (2 * i))) OR ucast (p ! (2 * i + 1))"

lemma be32_join:
  "push_bit 24 (ucast (ucast (drop_bit 24 w) :: 8 word)) OR push_bit 16 (ucast (ucast (drop_bit 16 w) :: 8 word))
     OR push_bit 8 (ucast (ucast (drop_bit 8 w) :: 8 word)) OR ucast (ucast w :: 8 word) = w" for w :: "32 word"
proof (rule bit_word_eqI)
  fix n assume n: "n < LENGTH(32)"
  then consider "n < 8" | "8 \<le> n" "n < 16" | "16 \<le> n" "n < 24" | "24 \<le> n" "n < 32" by fastforce
  then show "bit (push_bit 24 (ucast (ucast (drop_bit 24 w) :: 8 word)) OR push_bit 16 (ucast (ucast (drop_bit 16 w) :: 8 word))
     OR push_bit 8 (ucast (ucast (drop_bit 8 w) :: 8 word)) OR ucast (ucast w :: 8 word) :: 32 word) n \<longleftrightarrow> bit w n"
    using n by cases (auto simp: bit_or_iff bit_push_bit_iff bit_ucast_iff bit_drop_bit_eq)
qed

lemma rd32_be32:
  assumes "length pre = 4 * k"
  shows "rd32 (pre @ be32 w @ post) k = w"
  using assms by (simp add: rd32_def nth_append be32_def be32_join)

lemma be32_length [simp]: "length (be32 w) = 4"
  by (simp add: be32_def)

lemma be16_join: "push_bit 8 (ucast (ucast (drop_bit 8 w) :: 8 word)) OR ucast (ucast w :: 8 word) = w" for w :: "16 word"
proof (rule bit_word_eqI)
  fix n
  assume "n < LENGTH(16)"
  then show "bit (push_bit 8 (ucast (ucast (drop_bit 8 w) :: 8 word)) OR ucast (ucast w :: 8 word) :: 16 word) n \<longleftrightarrow> bit w n"
    by (cases "n < 8") (auto simp: bit_or_iff bit_push_bit_iff bit_ucast_iff bit_drop_bit_eq)
qed

lemma rd16_be16:
  assumes "length pre = 2 * k"
  shows "rd16 (pre @ be16 w @ post) k = w"
  using assms by (simp add: rd16_def nth_append be16_def be16_join)

lemma be16_length [simp]: "length (be16 w) = 2"
  by (simp add: be16_def)

lemma join_64: "push_bit 32 (ucast (ucast (drop_bit 32 x) :: 32 word)) OR ucast (ucast x :: 32 word) = (x :: 64 word)"
proof (rule bit_word_eqI)
  fix n
  assume "n < LENGTH(64)"
  then show "bit (push_bit 32 (ucast (ucast (drop_bit 32 x) :: 32 word)) OR ucast (ucast x :: 32 word) :: 64 word) n \<longleftrightarrow> bit x n"
    by (cases "n < 32") (auto simp: bit_or_iff bit_push_bit_iff bit_ucast_iff bit_drop_bit_eq)
qed

lemma masked_of_nat:
  assumes "n < 2 ^ k" "k < LENGTH('a)"
  shows "of_nat n AND mask k = (of_nat n :: 'a::len word)"
proof -
  have "n < 2 ^ LENGTH('a)" using assms by (meson less_le_trans nat_less_le one_le_numeral power_increasing)
  then have "unat (take_bit k (of_nat n :: 'a word)) = unat (of_nat n :: 'a word)"
    using assms by (simp add: unsigned_take_bit_eq unsigned_of_nat take_bit_nat_eq_self)
  then show ?thesis by (simp only: flip: take_bit_eq_mask) (rule unsigned_word_eqI)
qed

lemma unat_field: "n < 2 ^ 32 \<Longrightarrow> unat (of_nat n :: 32 word) = n"
  by (simp add: unsigned_of_nat take_bit_nat_eq_self)


lemma ucast_small: "n < 2 ^ 64 \<Longrightarrow> ucast (of_nat n :: 64 word) = (of_nat n :: 32 word)"
  by (simp add: unsigned_of_nat take_bit_nat_eq_self)

end
