(* ===== verification/SerializeBlocks.thy ===== *)
theory SerializeBlocks
  imports Ports ByteOrder
begin

unbundle bit_operations_syntax

text \<open>
  The blocks of pothos-blocks/serialize: the serializer, which packs buffers, labels and messages into a stream of framed
  packets (mVRL), and the deserializer, which searches the stream for frames and posts their contents. Streams are lists of
  bytes. The serialization of objects is a parameter (the archives of the serialization library): \<open>cd_ser\<close> gives the
  bytes and \<open>cd_de\<close> the object, or None for an exception. Memory that is allocated and not written has the contents \<open>mem\<close>,
  and a word that is read outside the accumulated bytes has the value \<open>oob\<close>.
\<close>

section \<open>Frames\<close>

datatype sobj = SLabel label | SOther pobject

record codec =
  cd_ser :: "sobj \<Rightarrow> byte list"
  cd_de :: "byte list \<Rightarrow> sobj option"

text \<open>Adding 3 and clearing the two low bits.\<close>

definition padUp32 :: "usize \<Rightarrow> usize" where
  "padUp32 len = add64 len 3 div 4 * 4"

definition mVRL :: "32 word" where "mVRL = 0x6D56524C"
definition VEND :: "32 word" where "VEND = 0x56454E44"
definition VITA_SID :: "64 word" where "VITA_SID = 0x10000000"
definition VITA_EXT :: "64 word" where "VITA_EXT = 0x20000000"
definition VITA_TSF :: "64 word" where "VITA_TSF = 0x100000"
definition MIN_PKT_BYTES :: nat where "MIN_PKT_BYTES = 20"
definition MAX_PKT_BYTES :: nat where "MAX_PKT_BYTES = 128 * 1024"

section \<open>Serializer\<close>

text \<open>The bytes of a packet from its header on; \<open>mem\<close> is the memory of the buffer, with the payload after the header.\<close>

definition packBuffer :: "64 word \<Rightarrow> nat \<Rightarrow> bool \<Rightarrow> 64 word \<Rightarrow> bool \<Rightarrow> usize \<Rightarrow> (nat \<Rightarrow> byte) \<Rightarrow> byte list" where
  "packBuffer seq sid has_tsf tsf is_ext len mem =
     (let hdr_words32 = (if has_tsf then 6 else 4);
          pkt_bytes = hdr_words32 * 4 + len + 4;
          pkt_words32 = hdr_words32 + padUp32 len div 4 + 1;
          vita_words32 = pkt_words32 - 3 in
      be32 mVRL
      @ be32 (ucast ((push_bit 20 seq AND 0xfff) OR (of_nat pkt_bytes AND 0xfffff)))
      @ be32 (ucast (VITA_SID OR (if is_ext then VITA_EXT else 0) OR (if has_tsf then VITA_TSF else 0)
          OR (push_bit 16 seq AND 0xf) OR (of_nat vita_words32 AND 0xffff)))
      @ be32 (of_nat sid)
      @ (if has_tsf then be32 (ucast (drop_bit 32 tsf)) @ be32 (ucast tsf) else [])
      @ map mem [hdr_words32 * 4..<(pkt_words32 - 1) * 4]
      @ be32 VEND)"

text \<open>The memory of the buffer after the object was copied behind the space for the header.\<close>

definition objectToOffsetBuffer :: "nat \<Rightarrow> byte list \<Rightarrow> (nat \<Rightarrow> byte) \<Rightarrow> nat \<Rightarrow> byte" where
  "objectToOffsetBuffer offset_words32 s mem i =
     (if offset_words32 * 4 \<le> i \<and> i < offset_words32 * 4 + length s then s ! (i - offset_words32 * 4) else mem i)"

text \<open>An input port as the work function sees it. A call takes all of it.\<close>

record ser_input =
  si_msgs :: "sobj list"
  si_labels :: "label list"
  si_total :: "64 word"
  si_buffer :: "byte list"

type_synonym memory_of = "64 word \<Rightarrow> nat \<Rightarrow> byte"

fun ser_msgs :: "codec \<Rightarrow> memory_of \<Rightarrow> nat \<Rightarrow> 64 word \<Rightarrow> sobj list \<Rightarrow> byte list list \<times> 64 word" where
  "ser_msgs cd mem i seq [] = ([], seq)"
| "ser_msgs cd mem i seq (x # xs) =
     (let s = cd_ser cd x;
          pkt = packBuffer seq i False 0 True (length s) (objectToOffsetBuffer 4 s (mem seq));
          (posts, seq') = ser_msgs cd mem i (seq + 1) xs in (pkt # posts, seq'))"

fun ser_labels :: "codec \<Rightarrow> memory_of \<Rightarrow> nat \<Rightarrow> 64 word \<Rightarrow> 64 word \<Rightarrow> label list \<Rightarrow> byte list list \<times> 64 word" where
  "ser_labels cd mem i base seq [] = ([], seq)"
| "ser_labels cd mem i base seq (l # ls) =
     (let s = cd_ser cd (SLabel l);
          pkt = packBuffer seq i True (of_nat (lb_index l) + base) True (length s) (objectToOffsetBuffer 6 s (mem seq));
          (posts, seq') = ser_labels cd mem i base (seq + 1) ls in (pkt # posts, seq'))"

text \<open>A buffer is posted as three chunks: the header, the buffer itself and the last word of the packet.\<close>

definition ser_buffer :: "memory_of \<Rightarrow> nat \<Rightarrow> 64 word \<Rightarrow> 64 word \<Rightarrow> byte list \<Rightarrow> byte list list \<times> 64 word" where
  "ser_buffer mem i base seq buff =
     (if length buff > 0 then
        (let pkt = packBuffer seq i True base False (length buff) (mem seq);
             pkt_words32 = 6 + padUp32 (length buff) div 4 + 1
         in ([take (6 * 4) pkt, buff, take 4 (drop ((pkt_words32 - 1) * 4) pkt)], seq + 1))
      else ([], seq))"

definition ser_port :: "codec \<Rightarrow> memory_of \<Rightarrow> nat \<Rightarrow> 64 word \<Rightarrow> ser_input \<Rightarrow> byte list list \<times> 64 word" where
  "ser_port cd mem i seq p =
     (let (m, seq) = ser_msgs cd mem i seq (si_msgs p);
          (l, seq) = ser_labels cd mem i (si_total p) seq (si_labels p);
          (b, seq) = ser_buffer mem i (si_total p) seq (si_buffer p)
      in (m @ l @ b, seq))"

fun ser_ports :: "codec \<Rightarrow> memory_of \<Rightarrow> nat \<Rightarrow> 64 word list \<Rightarrow> ser_input list \<Rightarrow> byte list list \<times> 64 word list" where
  "ser_ports cd mem i seqs [] = ([], seqs)"
| "ser_ports cd mem i seqs (p # ps) =
     (let (posts, s) = ser_port cd mem i (seqs ! i) p;
          (rest, seqs') = ser_ports cd mem (Suc i) (seqs[i := s]) ps
      in (posts @ rest, seqs'))"

definition ser_work :: "codec \<Rightarrow> memory_of \<Rightarrow> 64 word list \<Rightarrow> ser_input list \<Rightarrow> byte list list \<times> 64 word list" where
  "ser_work cd mem seqs inputs = ser_ports cd mem 0 seqs inputs"

definition ser_activate :: "nat \<Rightarrow> 64 word list \<Rightarrow> 64 word list" where
  "ser_activate n seqs = take n seqs @ replicate (n - length seqs) 0"

section \<open>Deserializer\<close>

definition word_at :: "(byte list \<Rightarrow> 32 word) \<Rightarrow> byte list \<Rightarrow> nat \<Rightarrow> 32 word" where
  "word_at oob p n = (if n = 0 \<or> length p < 4 * n then oob p else rd32 p (n - 1))"

text \<open>The result, whether the packet is a fragment, and its number of bytes.\<close>

definition inspectPacket :: "(byte list \<Rightarrow> 32 word) \<Rightarrow> byte list \<Rightarrow> bool \<times> bool \<times> nat" where
  "inspectPacket oob p =
     (if p ! 0 = 0x6D \<and> p ! 1 = 0x56 \<and> p ! 2 = 0x52 \<and> p ! 3 = 0x4C then
        (let pkt_bytes = unat (rd32 p 1 AND 0xfffff);
             pkt_words32 = padUp32 pkt_bytes div 4;
             isFragment = pkt_bytes > length p in
         if pkt_bytes > MAX_PKT_BYTES then (False, isFragment, pkt_bytes)
         else (isFragment \<or> word_at oob p pkt_words32 = VEND, isFragment, pkt_bytes))
      else (False, True, 0))"

record mvrl =
  vp_seq :: nat
  vp_sid :: nat
  vp_has_tsf :: bool
  vp_tsf :: "64 word"
  vp_ext :: bool
  vp_payload :: "byte list"

text \<open>A payload that ends outside the accumulated bytes is the value None.\<close>

definition unpackBuffer :: "(byte list \<Rightarrow> 32 word) \<Rightarrow> byte list \<Rightarrow> (mvrl result) option" where
  "unpackBuffer oob p =
     (let pkt_bytes = unat (rd32 p 1 AND 0xfffff);
          pkt_words32 = padUp32 pkt_bytes div 4;
          seq12 = drop_bit 20 (rd32 p 1);
          vita_hdr = rd32 p 2;
          vita_words32 = unat (vita_hdr AND 0xffff);
          seq4 = drop_bit 16 vita_hdr AND 0xf;
          has_tsf = (vita_hdr AND 0x100000 \<noteq> 0);
          is_ext = (vita_hdr AND 0x20000000 \<noteq> 0);
          tsf = push_bit 32 (ucast (word_at oob p 5)) OR ucast (word_at oob p 6);
          hdr_words32 = (if has_tsf then 6 else 4);
          len = sub64 (sub64 pkt_bytes (hdr_words32 * 4)) 4 in
      if \<not> pkt_words32 * 4 \<le> length p then Some (Inl OtherException)
      else if vita_words32 \<noteq> sub64 pkt_words32 3 then Some (Inl OtherException)
      else if seq12 AND 0x4 \<noteq> seq4 then Some (Inl OtherException)
      else if vita_hdr AND 0x10000000 = 0 then Some (Inl OtherException)
      else if \<not> list_all (\<lambda>k. vita_hdr AND push_bit k 1 = 0) [30, 27, 26, 23, 22] then Some (Inl OtherException)
      else if hdr_words32 * 4 + len > length p then None
      else Some (Inr \<lparr>vp_seq = unat seq12, vp_sid = unat (rd32 p 3), vp_has_tsf = has_tsf, vp_tsf = tsf, vp_ext = is_ext,
                      vp_payload = take len (drop (hdr_words32 * 4) p)\<rparr>))"

datatype dpost = DBuffer nat "byte list" | DLabel nat label | DMessage nat sobj

definition handlePacket :: "codec \<Rightarrow> (byte list \<Rightarrow> 32 word) \<Rightarrow> nat \<Rightarrow> byte list \<Rightarrow> 64 word \<Rightarrow> ((64 word \<times> dpost) result) option" where
  "handlePacket cd oob outputs p nextIndex = (case unpackBuffer oob p of
     None \<Rightarrow> None
   | Some (Inl e) \<Rightarrow> Some (Inl e)
   | Some (Inr u) \<Rightarrow> Some
       (if vp_sid u \<ge> outputs then Inl RangeException
        else if \<not> vp_ext u then Inr (vp_tsf u + of_nat (length (vp_payload u)), DBuffer (vp_sid u) (vp_payload u))
        else case cd_de cd (vp_payload u) of
          None \<Rightarrow> Inl OtherException
        | Some x \<Rightarrow>
            (if vp_has_tsf u then
               (case x of SLabel l \<Rightarrow> Inr (nextIndex, DLabel (vp_sid u) (l\<lparr>lb_index := unat (vp_tsf u - nextIndex)\<rparr>))
                | SOther y \<Rightarrow> Inl OtherException)
             else Inr (nextIndex, DMessage (vp_sid u) x))))"

lemma unpack_positive:
  assumes "unpackBuffer oob p = Some (Inr u)"
  shows "0 < unat (rd32 p 1 AND 0xfffff)"
proof (rule ccontr)
  assume "\<not> 0 < unat (rd32 p 1 AND 0xfffff)"
  then have z: "unat (rd32 p 1 AND 0xfffff) = 0" by simp
  have "unat (rd32 p 2 AND 0xffff) < 2 ^ LENGTH(32)" by (rule unsigned_less)
  then have "unat (rd32 p 2 AND 0xffff) \<noteq> sub64 (padUp32 0 div 4) 3"
    by (simp add: padUp32_def add64_def sub64_def SIZE_MOD_def)
  then show False using assms unfolding unpackBuffer_def Let_def z by (simp split: if_splits)
qed

lemma drain_decreases:
  assumes "inspectPacket oob p = (True, f, pkt_bytes)" "handlePacket cd oob outputs p n = Some (Inr z)"
  shows "0 < pkt_bytes"
proof -
  obtain u where "unpackBuffer oob p = Some (Inr u)"
    using assms(2) by (auto simp: handlePacket_def split: option.splits sum.splits)
  moreover have "pkt_bytes = unat (rd32 p 1 AND 0xfffff)"
    using assms(1) by (auto simp: inspectPacket_def Let_def split: if_splits)
  ultimately show ?thesis using unpack_positive by metis
qed

text \<open>The search of \<open>work\<close>: an exception leaves the accumulated bytes as they are.\<close>

function drain :: "codec \<Rightarrow> (byte list \<Rightarrow> 32 word) \<Rightarrow> nat \<Rightarrow> byte list \<Rightarrow> 64 word \<Rightarrow>
    (pothos_error option \<times> byte list \<times> 64 word \<times> dpost list) option" where
  "drain cd oob outputs acc nextIndex =
     (if length acc < MIN_PKT_BYTES then Some (None, acc, nextIndex, [])
      else case inspectPacket oob acc of (valid, isFragment, pkt_bytes) \<Rightarrow>
        if valid then
          (if isFragment then Some (None, acc, nextIndex, [])
           else case handlePacket cd oob outputs acc nextIndex of
             None \<Rightarrow> None
           | Some (Inl e) \<Rightarrow> Some (Some e, acc, nextIndex, [])
           | Some (Inr (nextIndex', post)) \<Rightarrow>
               map_option (\<lambda>(e, a, n, posts). (e, a, n, post # posts)) (drain cd oob outputs (drop pkt_bytes acc) nextIndex'))
        else drain cd oob outputs (tl acc) nextIndex)"
  by pat_completeness auto
termination
proof (relation "measure (\<lambda>(cd, oob, outputs, acc, nextIndex). length acc)", simp, goal_cases)
  case prems: 1
  then show ?case
    by (simp add: MIN_PKT_BYTES_def not_less)
       (metis drain_decreases diff_less less_le_trans zero_less_numeral)
next
  case prems: 2
  then show ?case by (simp add: MIN_PKT_BYTES_def)
qed

declare drain.simps [simp del]

record deser =
  ds_acc :: "byte list"
  ds_next :: "64 word"

definition ds_new :: deser where
  "ds_new = \<lparr>ds_acc = [], ds_next = 0\<rparr>"

definition de_work :: "codec \<Rightarrow> (byte list \<Rightarrow> 32 word) \<Rightarrow> nat \<Rightarrow> byte list \<Rightarrow> deser \<Rightarrow> (pothos_error option \<times> deser \<times> dpost list) option" where
  "de_work cd oob outputs buff d =
     map_option (\<lambda>(e, a, n, posts). (e, \<lparr>ds_acc = a, ds_next = n\<rparr>, posts)) (drain cd oob outputs (ds_acc d @ buff) (ds_next d))"


section \<open>The fields of a packet\<close>

lemma seq_fields: "push_bit 20 (seq :: 64 word) AND 0xfff = 0" "push_bit 16 (seq :: 64 word) AND 0xf = 0"
proof -
  have "push_bit 20 seq AND mask 12 = 0" "push_bit 16 seq AND mask 4 = 0"
    by (rule bit_word_eqI, auto simp: bit_and_iff bit_push_bit_iff bit_mask_iff)+
  then show "push_bit 20 seq AND 0xfff = 0" "push_bit 16 seq AND 0xf = 0" by (simp_all add: mask_eq_exp_minus_1)
qed

definition vita :: "bool \<Rightarrow> bool \<Rightarrow> nat \<Rightarrow> 32 word" where
  "vita e t v = (0x10000000 OR (if e then 0x20000000 else 0) OR (if t then 0x100000 else 0)) OR of_nat v"

lemma small_word:
  assumes "v < 2 ^ 16"
  shows "drop_bit 16 (of_nat v :: 32 word) = 0" "of_nat v AND (0xffff :: 32 word) = of_nat v"
    and "16 \<le> k \<Longrightarrow> k < 32 \<Longrightarrow> of_nat v AND push_bit k (1 :: 32 word) = 0"
proof -
  have u: "unat (of_nat v :: 32 word) = v" using assms by (intro unat_field) simp
  have "unat (drop_bit 16 (of_nat v :: 32 word)) = drop_bit 16 v"
    using u assms by (simp add: unsigned_drop_bit_eq take_bit_nat_eq_self)
  then have "unat (drop_bit 16 (of_nat v :: 32 word)) = 0" using assms by (simp add: drop_bit_eq_div)
  then show d: "drop_bit 16 (of_nat v :: 32 word) = 0" by (simp add: unat_eq_0)
  show "of_nat v AND (0xffff :: 32 word) = of_nat v" using masked_of_nat[of v 16, where 'a = 32] assms by (simp add: mask_eq_exp_minus_1)
  show "of_nat v AND push_bit k (1 :: 32 word) = 0" if "16 \<le> k" "k < 32"
  proof -
    have b: "\<not> bit (of_nat v :: 32 word) k"
    proof -
      have "bit (drop_bit 16 (of_nat v :: 32 word)) (k - 16) \<longleftrightarrow> bit (of_nat v :: 32 word) k"
        using that by (simp only: bit_drop_bit_eq o_apply le_add_diff_inverse)
      then show ?thesis unfolding d by simp
    qed
    show ?thesis
    proof (rule bit_word_eqI)
      fix n
      show "bit (of_nat v AND push_bit k (1 :: 32 word)) n \<longleftrightarrow> bit (0 :: 32 word) n"
        using b by (cases "n = k") (simp_all only: bit_and_iff bit_push_bit_iff bit_1_iff bit_0_eq bot_apply, auto)
    qed
  qed
qed

lemma vita_fields:
  assumes "v < 2 ^ 16"
  shows "vita e t v AND 0xffff = of_nat v" "drop_bit 16 (vita e t v) AND 0xf = 0"
    and "vita e t v AND 0x100000 \<noteq> 0 \<longleftrightarrow> t" "vita e t v AND 0x20000000 \<noteq> 0 \<longleftrightarrow> e" "vita e t v AND 0x10000000 \<noteq> 0"
    and "list_all (\<lambda>k. vita e t v AND push_bit k 1 = 0) [30, 27, 26, 23, 22]"
proof -
  note s = small_word[OF assms]
  have k: "of_nat v AND (0x100000 :: 32 word) = 0" "of_nat v AND (0x20000000 :: 32 word) = 0" "of_nat v AND (0x10000000 :: 32 word) = 0"
    using s(3)[of 20] s(3)[of 29] s(3)[of 28] by simp_all
  have l: "of_nat v AND push_bit k (1 :: 32 word) = 0" if "k \<in> {30, 27, 26, 23, 22}" for k
    using that by (intro s(3)) auto
  show "vita e t v AND 0xffff = of_nat v" unfolding vita_def word_ao_dist s(2) by (cases e; cases t) simp_all
  show "drop_bit 16 (vita e t v) AND 0xf = 0" unfolding vita_def drop_bit_or s(1) by (cases e; cases t) simp_all
  show "vita e t v AND 0x100000 \<noteq> 0 \<longleftrightarrow> t" unfolding vita_def word_ao_dist k by (cases e; cases t) simp_all
  show "vita e t v AND 0x20000000 \<noteq> 0 \<longleftrightarrow> e" unfolding vita_def word_ao_dist k by (cases e; cases t) simp_all
  show "vita e t v AND 0x10000000 \<noteq> 0" unfolding vita_def word_ao_dist k by (cases e; cases t) simp_all
  show "list_all (\<lambda>k. vita e t v AND push_bit k 1 = 0) [30, 27, 26, 23, 22]"
    unfolding vita_def word_ao_dist using l[of 30] l[of 27] l[of 26] l[of 23] l[of 22] by (cases e; cases t) simp_all
qed


section \<open>Reading a packet\<close>

definition frame_words :: "bool \<Rightarrow> nat \<Rightarrow> nat" where
  "frame_words t len = (if t then 6 else 4) + (len + 3) div 4 + 1"

definition frame_bytes :: "bool \<Rightarrow> nat \<Rightarrow> nat" where
  "frame_bytes t len = (if t then 24 else 16) + len + 4"

lemma padUp32_exact: "len + 3 < SIZE_MOD \<Longrightarrow> padUp32 len = (len + 3) div 4 * 4"
  by (simp add: padUp32_def add64_exact)

lemma frame_sizes:
  assumes "frame_bytes t len \<le> MAX_PKT_BYTES"
  shows "padUp32 (frame_bytes t len) div 4 = frame_words t len" "padUp32 len div 4 = (len + 3) div 4"
    and "frame_words t len - 3 < 2 ^ 16" "5 \<le> frame_words t len" "frame_bytes t len \<le> 4 * frame_words t len"
    and "4 * frame_words t len < frame_bytes t len + 4" "frame_bytes t len < 2 ^ 20" "frame_words t len < 2 ^ 16"
  using assms by (auto simp: frame_bytes_def frame_words_def MAX_PKT_BYTES_def padUp32_exact SIZE_MOD_def)

lemma packBuffer_form:
  assumes "frame_bytes t len \<le> MAX_PKT_BYTES"
  shows "packBuffer seq sid t tsf e len mem =
     be32 mVRL @ be32 (of_nat (frame_bytes t len)) @ be32 (vita e t (frame_words t len - 3)) @ be32 (of_nat sid)
     @ (if t then be32 (ucast (drop_bit 32 tsf)) @ be32 (ucast tsf) else [])
     @ map mem [(if t then 24 else 16)..<4 * (frame_words t len - 1)] @ be32 VEND"
proof -
  note z = frame_sizes[OF assms]
  have b: "(if t then 6 else 4) * 4 + len + 4 = frame_bytes t len" by (simp add: frame_bytes_def)
  have w: "(if t then 6 else 4) + (len + 3) div 4 + 1 = frame_words t len" by (simp add: frame_words_def)
  have "ucast (of_nat (frame_bytes t len) AND 0xfffff :: 64 word) = (of_nat (frame_bytes t len) :: 32 word)"
    using masked_of_nat[of "frame_bytes t len" 20, where 'a = 64] z(7) by (simp add: mask_eq_exp_minus_1 ucast_small)
  moreover have "ucast (VITA_SID OR (if e then VITA_EXT else 0) OR (if t then VITA_TSF else 0) OR 0 OR
      (of_nat (frame_words t len - 3) AND 0xffff) :: 64 word) = (vita e t (frame_words t len - 3) :: 32 word)"
  proof -
    have "of_nat (frame_words t len - 3) AND 0xffff = (of_nat (frame_words t len - 3) :: 64 word)"
      using masked_of_nat[of "frame_words t len - 3" 16, where 'a = 64] z(3) by (simp add: mask_eq_exp_minus_1)
    moreover have "ucast (of_nat (frame_words t len - 3) :: 64 word) = (of_nat (frame_words t len - 3) :: 32 word)"
      using z(3) by (intro ucast_small) simp
    ultimately show ?thesis
      by (cases e; cases t) (simp_all add: vita_def unsigned_or_eq VITA_SID_def VITA_EXT_def VITA_TSF_def flip: or.assoc)
  qed
  ultimately show ?thesis
    unfolding packBuffer_def Let_def z(2) b w seq_fields by (simp add: mult.commute)
qed


lemma packet_reads:
  assumes b: "frame_bytes t len \<le> MAX_PKT_BYTES" and p: "p = packBuffer seq sid t tsf e len mem @ rest"
  shows "length p = 4 * frame_words t len + length rest"
    and "p ! 0 = 0x6D" "p ! 1 = 0x56" "p ! 2 = 0x52" "p ! 3 = 0x4C"
    and "rd32 p 1 = of_nat (frame_bytes t len)" "rd32 p 2 = vita e t (frame_words t len - 3)" "rd32 p 3 = of_nat sid"
    and "t \<Longrightarrow> rd32 p 4 = ucast (drop_bit 32 tsf)" "t \<Longrightarrow> rd32 p 5 = ucast tsf"
    and "rd32 p (frame_words t len - 1) = VEND"
    and "take len (drop (if t then 24 else 16) p) = map mem [(if t then 24 else 16)..<(if t then 24 else 16) + len]"
proof -
  let ?m = "be32 mVRL" and ?w = "frame_words t len" and ?h = "if t then 24 else 16 :: nat"
  let ?p1 = "be32 (of_nat (frame_bytes t len))" and ?p2 = "be32 (vita e t (frame_words t len - 3))" and ?p3 = "be32 (of_nat sid)"
  let ?ts = "if t then be32 (ucast (drop_bit 32 tsf)) @ be32 (ucast tsf) else []" and ?body = "map mem [?h..<4 * (?w - 1)]"
  note z = frame_sizes[OF b]
  have form: "p = ?m @ ?p1 @ ?p2 @ ?p3 @ ?ts @ ?body @ be32 VEND @ rest"
    unfolding p packBuffer_form[OF b] by (simp only: append_assoc)
  have fit: "?h + len \<le> 4 * (?w - 1)" "?h \<le> 4 * (?w - 1)" using z(5) by (auto simp: frame_bytes_def split: if_splits)
  have hdr: "length (?m @ ?p1 @ ?p2 @ ?p3 @ ?ts) = ?h" by simp
  have body: "length (?m @ ?p1 @ ?p2 @ ?p3 @ ?ts @ ?body) = 4 * (?w - 1)" using fit(2) by auto
  show "length p = 4 * ?w + length rest"
    using body z(4) unfolding form by (simp only: length_append be32_length)
  have m: "?m = [0x6D, 0x56, 0x52, 0x4C]" by (simp add: be32_def mVRL_def)
  show "p ! 0 = 0x6D" "p ! 1 = 0x56" "p ! 2 = 0x52" "p ! 3 = 0x4C"
    unfolding form m by (simp_all only: append.simps nth_Cons_0 nth_Cons_numeral One_nat_def nth_Cons_Suc, simp_all)
  show "rd32 p 1 = of_nat (frame_bytes t len)"
    unfolding form using rd32_be32[of ?m 1] by simp
  show "rd32 p 2 = vita e t (?w - 3)"
    unfolding form using rd32_be32[of "?m @ ?p1" 2] by (simp only: append_assoc) simp
  show "rd32 p 3 = of_nat sid"
    unfolding form using rd32_be32[of "?m @ ?p1 @ ?p2" 3] by (simp only: append_assoc) simp
  show "rd32 p 4 = ucast (drop_bit 32 tsf)" if t
    unfolding form using that rd32_be32[of "?m @ ?p1 @ ?p2 @ ?p3" 4] by (simp only: append_assoc if_True) simp
  show "rd32 p 5 = ucast tsf" if t
    unfolding form using that rd32_be32[of "?m @ ?p1 @ ?p2 @ ?p3 @ be32 (ucast (drop_bit 32 tsf))" 5] by (simp only: append_assoc if_True) simp
  show "rd32 p (?w - 1) = VEND"
    unfolding form using rd32_be32[OF body, of VEND rest] by (simp only: append_assoc)
  have "drop ?h p = ?body @ be32 VEND @ rest"
  proof -
    have "drop (length A) (A @ B) = B" for A B :: "byte list" by simp
    from this[of "?m @ ?p1 @ ?p2 @ ?p3 @ ?ts" "?body @ be32 VEND @ rest"] show ?thesis
      unfolding hdr form by (simp only: append_assoc)
  qed
  moreover have "take len ?body = map mem [?h..<?h + len]"
    using fit by (simp add: take_map del: upt_Suc)
  ultimately show "take len (drop ?h p) = map mem [?h..<?h + len]" using fit(1) by (simp add: take_append)
qed


lemma field_20: "n < 2 ^ 20 \<Longrightarrow> unat (of_nat n AND (0xfffff :: 32 word)) = n"
  using masked_of_nat[of n 20, where 'a = 32] unat_field[of n] by (simp add: mask_eq_exp_minus_1)

lemma inspect_whole:
  assumes b: "frame_bytes t len \<le> MAX_PKT_BYTES" and p: "p = packBuffer seq sid t tsf e len mem @ rest"
  shows "inspectPacket oob p = (True, False, frame_bytes t len)"
proof -
  note r = packet_reads[OF b p] and z = frame_sizes[OF b]
  have "word_at oob p (frame_words t len) = VEND" using r(1,11) z(4) by (simp add: word_at_def)
  moreover have "\<not> length p < frame_bytes t len" using r(1) z(5) by simp
  ultimately show ?thesis unfolding inspectPacket_def Let_def r(2-6) field_20[OF z(7)] z(1) using b by simp
qed

lemma inspect_part:
  assumes b: "frame_bytes t len \<le> MAX_PKT_BYTES" and p: "p = take n (packBuffer seq sid t tsf e len mem @ rest)"
    and n: "20 \<le> n" "n < frame_bytes t len"
  shows "inspectPacket oob p = (True, True, frame_bytes t len)"
proof -
  let ?q = "packBuffer seq sid t tsf e len mem @ rest"
  note r = packet_reads[OF b refl[of ?q]] and z = frame_sizes[OF b]
  have same: "p ! i = ?q ! i" if "i < 20" for i unfolding p using that n(1) by (intro nth_take) simp
  have "rd32 p 1 = rd32 ?q 1" unfolding rd32_def by (simp only: same)
  moreover have "length p = n" using r(1) z(5) n(2) unfolding p by simp
  ultimately show ?thesis
    unfolding inspectPacket_def Let_def using r(2-6) same[of 0] same[of 1] same[of 2] same[of 3] field_20[OF z(7)] b n(2) by simp
qed

lemma unpack_whole:
  assumes b: "frame_bytes t len \<le> MAX_PKT_BYTES" and p: "p = packBuffer seq sid t tsf e len mem @ rest" and sid: "sid < 2 ^ 32"
  obtains x where "unpackBuffer oob p = Some (Inr \<lparr>vp_seq = 0, vp_sid = sid, vp_has_tsf = t, vp_tsf = x, vp_ext = e,
      vp_payload = map mem [(if t then 24 else 16)..<(if t then 24 else 16) + len]\<rparr>)" "t \<Longrightarrow> x = tsf"
proof -
  let ?x = "push_bit 32 (ucast (word_at oob p 5)) OR ucast (word_at oob p 6) :: 64 word"
  note r = packet_reads[OF b p] and z = frame_sizes[OF b] and v = vita_fields[OF frame_sizes(3)[OF b], of e t]
  have "?x = tsf" if t
  proof -
    have "length p \<ge> 24" using r(1) z(5) that by (simp add: frame_bytes_def)
    then show ?thesis using r(9,10) that by (simp add: word_at_def join_64)
  qed
  moreover have "drop_bit 20 (rd32 p 1) = 0"
  proof -
    have "unat (drop_bit 20 (of_nat (frame_bytes t len) :: 32 word)) = drop_bit 20 (frame_bytes t len)"
      using z(7) unat_field[of "frame_bytes t len"] by (simp add: unsigned_drop_bit_eq take_bit_nat_eq_self)
    then show ?thesis unfolding r(6) using z(7) by (simp add: drop_bit_eq_div unat_eq_0)
  qed
  moreover have "unat (vita e t (frame_words t len - 3) AND 0xffff) = sub64 (frame_words t len) 3"
  proof -
    have "sub64 (frame_words t len) 3 = frame_words t len - 3" using z(4,8) by (intro sub64_exact) (simp_all add: SIZE_MOD_def)
    then show ?thesis unfolding v(1) using z(3) by (simp add: unat_field)
  qed
  moreover have "sub64 (sub64 (frame_bytes t len) ((if t then 6 else 4) * 4)) 4 = len"
    using z(7) by (cases t) (simp_all add: frame_bytes_def sub64_exact SIZE_MOD_def)
  moreover have "unat (rd32 p 3) = sid" unfolding r(8) using sid by (rule unat_field)
  moreover have "frame_words t len * 4 \<le> length p" "(if t then 24 else 16) + len \<le> length p"
    using r(1) z(5) by (auto simp: frame_bytes_def split: if_splits)
  moreover have "(if t then 6 else 4) * 4 = (if t then 24 else 16 :: nat)" by simp
  ultimately show ?thesis
    using that[of ?x] v(2-6) r(6,12) unfolding unpackBuffer_def Let_def r(7) by (simp add: field_20[OF z(7)] z(1))
qed


section \<open>A stream of packets\<close>

datatype frame = FMessage sobj | FLabel "64 word" label | FBuffer "64 word" "byte list"

fun frame_tsf :: "frame \<Rightarrow> 64 word option" where
  "frame_tsf (FMessage x) = None"
| "frame_tsf (FLabel i l) = Some i"
| "frame_tsf (FBuffer i b) = Some i"

fun frame_object :: "frame \<Rightarrow> sobj option" where
  "frame_object (FMessage x) = Some x"
| "frame_object (FLabel i l) = Some (SLabel l)"
| "frame_object (FBuffer i b) = None"

definition frame_payload :: "codec \<Rightarrow> frame \<Rightarrow> byte list" where
  "frame_payload cd f = (case frame_object f of Some x \<Rightarrow> cd_ser cd x | None \<Rightarrow> (case f of FBuffer i b \<Rightarrow> b | _ \<Rightarrow> []))"

abbreviation frame_size :: "codec \<Rightarrow> frame \<Rightarrow> nat" where
  "frame_size cd f \<equiv> frame_bytes (frame_tsf f \<noteq> None) (length (frame_payload cd f))"

text \<open>A frame that fits into a packet, with an object that the archive restores.\<close>

definition frame_ok :: "codec \<Rightarrow> frame \<Rightarrow> bool" where
  "frame_ok cd f \<longleftrightarrow> frame_size cd f \<le> MAX_PKT_BYTES \<and>
     (case frame_object f of None \<Rightarrow> True | Some x \<Rightarrow> cd_de cd (cd_ser cd x) = Some x)"

definition is_packet :: "codec \<Rightarrow> nat \<Rightarrow> frame \<Rightarrow> byte list \<Rightarrow> bool" where
  "is_packet cd sid f bs \<longleftrightarrow> (\<exists>seq tsf mem.
     bs = packBuffer seq sid (frame_tsf f \<noteq> None) tsf (frame_object f \<noteq> None) (length (frame_payload cd f)) mem \<and>
     (\<forall>i. frame_tsf f = Some i \<longrightarrow> tsf = i) \<and>
     (let h = (if frame_tsf f \<noteq> None then 24 else 16) in map mem [h..<h + length (frame_payload cd f)] = frame_payload cd f))"

fun frame_post :: "nat \<Rightarrow> 64 word \<Rightarrow> frame \<Rightarrow> dpost" where
  "frame_post sid nextIndex (FMessage x) = DMessage sid x"
| "frame_post sid nextIndex (FLabel i l) = DLabel sid (l\<lparr>lb_index := unat (i - nextIndex)\<rparr>)"
| "frame_post sid nextIndex (FBuffer i b) = DBuffer sid b"

fun frame_next :: "64 word \<Rightarrow> frame \<Rightarrow> 64 word" where
  "frame_next nextIndex (FBuffer i b) = i + of_nat (length b)"
| "frame_next nextIndex _ = nextIndex"

fun frame_posts :: "nat \<Rightarrow> 64 word \<Rightarrow> frame list \<Rightarrow> dpost list" where
  "frame_posts sid nextIndex [] = []"
| "frame_posts sid nextIndex (f # fs) = frame_post sid nextIndex f # frame_posts sid (frame_next nextIndex f) fs"

lemma handle_frame:
  assumes "is_packet cd sid f bs" "frame_ok cd f" "sid < outputs" "sid < 2 ^ 32"
  shows "handlePacket cd oob outputs (bs @ rest) nextIndex = Some (Inr (frame_next nextIndex f, frame_post sid nextIndex f))"
proof -
  obtain seq tsf mem where bs: "bs = packBuffer seq sid (frame_tsf f \<noteq> None) tsf (frame_object f \<noteq> None) (length (frame_payload cd f)) mem"
    and tsf: "\<And>i. frame_tsf f = Some i \<Longrightarrow> tsf = i"
    and pay: "map mem [(if frame_tsf f \<noteq> None then 24 else 16)..<(if frame_tsf f \<noteq> None then 24 else 16) + length (frame_payload cd f)] = frame_payload cd f"
    using assms(1) unfolding is_packet_def Let_def by blast
  have b: "frame_size cd f \<le> MAX_PKT_BYTES" using assms(2) by (simp add: frame_ok_def)
  obtain x where u: "unpackBuffer oob (bs @ rest) = Some (Inr \<lparr>vp_seq = 0, vp_sid = sid, vp_has_tsf = (frame_tsf f \<noteq> None), vp_tsf = x,
      vp_ext = (frame_object f \<noteq> None), vp_payload = frame_payload cd f\<rparr>)" and x: "frame_tsf f \<noteq> None \<Longrightarrow> x = tsf"
    using unpack_whole[OF b, of "bs @ rest" seq sid tsf "frame_object f \<noteq> None" mem rest oob] bs assms(4) unfolding pay by blast
  show ?thesis
    using assms(2,3) x tsf unfolding handlePacket_def u by (cases f) (auto simp: frame_ok_def frame_payload_def)
qed

lemma packet_length:
  assumes "is_packet cd sid f bs" "frame_ok cd f"
  shows "frame_size cd f \<le> length bs" "0x6D \<notin> set (drop (frame_size cd f) bs)" "20 \<le> frame_size cd f"
proof -
  let ?t = "frame_tsf f \<noteq> None" and ?n = "length (frame_payload cd f)"
  have b: "frame_bytes ?t ?n \<le> MAX_PKT_BYTES" using assms(2) by (simp add: frame_ok_def)
  obtain seq tsf mem where bs: "bs = packBuffer seq sid ?t tsf (frame_object f \<noteq> None) ?n mem" using assms(1) unfolding is_packet_def by blast
  note z = frame_sizes[OF b]
  have len: "length bs = 4 * frame_words ?t ?n" using packet_reads(1)[OF b, of bs seq sid tsf "frame_object f \<noteq> None" mem "[]"] bs by simp
  then show "frame_size cd f \<le> length bs" using z(5) by simp
  show "20 \<le> frame_size cd f" by (simp add: frame_bytes_def)
  obtain A where A: "bs = A @ be32 VEND" using bs packBuffer_form[OF b] by (metis append.assoc)
  then have "length A = 4 * frame_words ?t ?n - 4" using len by simp
  then have "length A \<le> frame_size cd f" using z(6) by simp
  then have "drop (frame_size cd f) bs = drop (frame_size cd f - length A) (be32 VEND)" unfolding A by simp
  then have "set (drop (frame_size cd f) bs) \<subseteq> set (be32 VEND)" by (simp add: set_drop_subset)
  moreover have "0x6D \<notin> set (be32 VEND)" by (simp add: be32_def VEND_def)
  ultimately show "0x6D \<notin> set (drop (frame_size cd f) bs)" by blast
qed


lemma drain_skip:
  assumes "20 \<le> length (x # xs)" "x \<noteq> 0x6D"
  shows "drain cd oob outputs (x # xs) n = drain cd oob outputs xs n"
  using assms by (subst drain.simps) (simp add: MIN_PKT_BYTES_def inspectPacket_def)

lemma drain_junk:
  "20 \<le> length r \<Longrightarrow> 0x6D \<notin> set g \<Longrightarrow> drain cd oob outputs (g @ r) n = drain cd oob outputs r n"
  by (induction g) (auto simp: drain_skip)

text \<open>The beginning of a packet waits for more bytes.\<close>

lemma drain_part:
  assumes "is_packet cd sid f bs" "frame_ok cd f" "n < frame_size cd f" "0x6D \<notin> set g"
  shows "\<exists>g'. 0x6D \<notin> set g' \<and> drain cd oob outputs (g @ take n (bs @ rest)) x = Some (None, g' @ take n (bs @ rest), x, [])"
  using assms(4)
proof (induction g)
  case Nil
  let ?p = "take n (bs @ rest)"
  have "drain cd oob outputs ?p x = Some (None, ?p, x, [])"
  proof (cases "length ?p < MIN_PKT_BYTES")
    case True
    then show ?thesis by (subst drain.simps) simp
  next
    case False
    have n: "length ?p = n" using packet_length(1)[OF assms(1,2)] assms(3) by simp
    obtain seq tsf mem where bs: "bs = packBuffer seq sid (frame_tsf f \<noteq> None) tsf (frame_object f \<noteq> None) (length (frame_payload cd f)) mem"
      using assms(1) unfolding is_packet_def by blast
    have "inspectPacket oob ?p = (True, True, frame_size cd f)"
      by (rule inspect_part[where seq = seq and sid = sid and tsf = tsf and e = "frame_object f \<noteq> None" and mem = mem and rest = rest])
         (use assms(2,3) False n bs in \<open>auto simp: frame_ok_def MIN_PKT_BYTES_def\<close>)
    then show ?thesis using False by (subst drain.simps) simp
  qed
  then show ?case by (intro exI[of _ "[]"]) simp
next
  case (Cons a g)
  show ?case
  proof (cases "length ((a # g) @ take n (bs @ rest)) < MIN_PKT_BYTES")
    case True
    then show ?thesis using Cons.prems by (intro exI[of _ "a # g"]) (subst drain.simps, simp)
  next
    case False
    then have "drain cd oob outputs ((a # g) @ take n (bs @ rest)) x = drain cd oob outputs (g @ take n (bs @ rest)) x"
      using Cons.prems by (simp add: drain_skip MIN_PKT_BYTES_def)
    then show ?thesis using Cons by simp
  qed
qed

text \<open>A whole packet is posted.\<close>

lemma drain_whole:
  assumes "is_packet cd sid f bs" "frame_ok cd f" "sid < outputs" "sid < 2 ^ 32" "0x6D \<notin> set g"
  shows "drain cd oob outputs (g @ bs @ rest) x =
     map_option (\<lambda>(e, a, n, posts). (e, a, n, frame_post sid x f # posts))
       (drain cd oob outputs (drop (frame_size cd f) bs @ rest) (frame_next x f))"
proof -
  note l = packet_length[OF assms(1,2)]
  obtain seq tsf mem where bs: "bs = packBuffer seq sid (frame_tsf f \<noteq> None) tsf (frame_object f \<noteq> None) (length (frame_payload cd f)) mem"
    using assms(1) unfolding is_packet_def by blast
  have i: "inspectPacket oob (bs @ rest) = (True, False, frame_size cd f)"
    by (rule inspect_whole[where seq = seq and sid = sid and tsf = tsf and e = "frame_object f \<noteq> None" and mem = mem and rest = rest])
       (use assms(2) bs in \<open>auto simp: frame_ok_def\<close>)
  have "drain cd oob outputs (g @ bs @ rest) x = drain cd oob outputs (bs @ rest) x"
    using l assms(5) by (intro drain_junk) simp_all
  also have "\<dots> = map_option (\<lambda>(e, a, n, posts). (e, a, n, frame_post sid x f # posts))
       (drain cd oob outputs (drop (frame_size cd f) bs @ rest) (frame_next x f))"
    using l by (subst drain.simps) (simp add: MIN_PKT_BYTES_def i handle_frame[OF assms(1-4)])
  finally show ?thesis .
qed

text \<open>The number of packets that are complete in the first \<open>n\<close> bytes, and the positions where a chunk of the stream may end:
  not in the padding that the length of a packet leaves out.\<close>

fun complete :: "byte list list \<Rightarrow> nat \<Rightarrow> nat" where
  "complete [] n = 0"
| "complete (b # bs) n = (if length b \<le> n then Suc (complete bs (n - length b)) else 0)"

fun cut_ok :: "codec \<Rightarrow> frame list \<Rightarrow> byte list list \<Rightarrow> nat \<Rightarrow> bool" where
  "cut_ok cd (f # fs) (b # bs) n =
     (if length b \<le> n then cut_ok cd fs bs (n - length b) else n < frame_size cd f)"
| "cut_ok cd fs bs n = True"

definition frames_next :: "64 word \<Rightarrow> frame list \<Rightarrow> 64 word" where
  "frames_next x fs = foldl frame_next x fs"

lemma drain_frames:
  assumes "list_all2 (is_packet cd sid) fs bss" "list_all (frame_ok cd) fs" "sid < outputs" "sid < 2 ^ 32"
    and "0x6D \<notin> set g" "cut_ok cd fs bss n"
  shows "\<exists>g'. 0x6D \<notin> set g' \<and>
     (let k = complete bss n in
      drain cd oob outputs (g @ take n (concat bss)) x =
        Some (None, g' @ take (n - length (concat (take k bss))) (concat (drop k bss)), frames_next x (take k fs), frame_posts sid x (take k fs)))"
  using assms(1,2,5,6)
proof (induction fs bss arbitrary: g n x rule: list_all2_induct)
  case Nil
  have "\<exists>g'. 0x6D \<notin> set g' \<and> drain cd oob outputs g x = Some (None, g', x, [])" using Nil.prems(2)
  proof (induction g)
    case (Cons a g)
    show ?case
    proof (cases "length (a # g) < MIN_PKT_BYTES")
      case True
      then show ?thesis using Cons.prems by (intro exI[of _ "a # g"]) (subst drain.simps, simp)
    next
      case False
      then show ?thesis using Cons by (simp add: drain_skip MIN_PKT_BYTES_def)
    qed
  qed (subst drain.simps, simp add: MIN_PKT_BYTES_def)
  then show ?case by (simp add: frames_next_def)
next
  case (Cons f fs b bss)
  have ok: "frame_ok cd f" "list_all (frame_ok cd) fs" using Cons.prems(1) by auto
  show ?case
  proof (cases "length b \<le> n")
    case False
    then have n: "n < frame_size cd f" using Cons.prems(3) by simp
    show ?thesis using drain_part[OF Cons.hyps(1) ok(1) n Cons.prems(2), of oob outputs "concat bss" x] False by (simp add: Let_def frames_next_def)
  next
    case True
    let ?g = "drop (frame_size cd f) b"
    obtain g' where g': "0x6D \<notin> set g'" "drain cd oob outputs (?g @ take (n - length b) (concat bss)) (frame_next x f) =
        (let k = complete bss (n - length b) in Some (None, g' @ take (n - length b - length (concat (take k bss))) (concat (drop k bss)),
           frames_next (frame_next x f) (take k fs), frame_posts sid (frame_next x f) (take k fs)))"
      using Cons.IH[OF ok(2) packet_length(2)[OF Cons.hyps(1) ok(1)], of "n - length b" "frame_next x f"] Cons.prems(3) True
      by (auto simp: Let_def)
    have "take n (concat (b # bss)) = b @ take (n - length b) (concat bss)" using True by simp
    then show ?thesis
      using g' drain_whole[OF Cons.hyps(1) ok(1) assms(3,4) Cons.prems(2)] True
      by (intro exI[of _ g']) (simp add: Let_def frames_next_def)
  qed
qed


text \<open>A run of \<open>work\<close> over chunks of the stream: the errors, the state and the posts.\<close>

fun de_run :: "codec \<Rightarrow> (byte list \<Rightarrow> 32 word) \<Rightarrow> nat \<Rightarrow> byte list list \<Rightarrow> deser \<Rightarrow>
    (pothos_error list \<times> deser \<times> dpost list) option" where
  "de_run cd oob outputs [] d = Some ([], d, [])"
| "de_run cd oob outputs (c # cs) d = (case de_work cd oob outputs c d of
     None \<Rightarrow> None
   | Some (e, d', posts) \<Rightarrow>
       map_option (\<lambda>(es, d'', posts'). ((case e of None \<Rightarrow> es | Some x \<Rightarrow> x # es), d'', posts @ posts')) (de_run cd oob outputs cs d'))"

fun cuts_ok :: "codec \<Rightarrow> frame list \<Rightarrow> byte list list \<Rightarrow> nat \<Rightarrow> byte list list \<Rightarrow> bool" where
  "cuts_ok cd fs bss n [] = True"
| "cuts_ok cd fs bss n (c # cs) = (cut_ok cd fs bss (n + length c) \<and> cuts_ok cd fs bss (n + length c) cs)"

lemma complete_le: "length (concat (take (complete bss n) bss)) \<le> n"
  by (induction bss n rule: complete.induct) auto

lemma complete_rest: "complete (drop (complete bss n) bss) (n - length (concat (take (complete bss n) bss))) = 0"
  by (induction bss n rule: complete.induct) auto

lemma complete_all: "complete bss m = 0 \<Longrightarrow> m = length (concat bss) \<Longrightarrow> bss = []"
  by (cases bss) auto

lemma cut_ok_rest:
  "n \<le> n' \<Longrightarrow> cut_ok cd fs bss n' \<Longrightarrow> length fs = length bss \<Longrightarrow>
   cut_ok cd (drop (complete bss n) fs) (drop (complete bss n) bss) (n' - length (concat (take (complete bss n) bss)))"
proof (induction bss n arbitrary: fs n' rule: complete.induct)
  case (2 b bs n)
  obtain f fs' where fs: "fs = f # fs'" using "2.prems"(3) by (cases fs) auto
  show ?case
  proof (cases "length b \<le> n")
    case True
    then show ?thesis using "2.IH"[OF True, of "n' - length b" fs'] "2.prems" unfolding fs by simp
  qed (use "2.prems" fs in simp)
qed simp

lemma cuts_ok_rest:
  "n \<le> n' \<Longrightarrow> cuts_ok cd fs bss n' cs \<Longrightarrow> length fs = length bss \<Longrightarrow>
   cuts_ok cd (drop (complete bss n) fs) (drop (complete bss n) bss) (n' - length (concat (take (complete bss n) bss))) cs"
proof (induction cs arbitrary: n')
  case (Cons c cs)
  have "length (concat (take (complete bss n) bss)) \<le> n'" using complete_le[of bss n] Cons.prems(1) by simp
  then show ?case
    using Cons.IH[of "n' + length c"] Cons.prems cut_ok_rest[of n "n' + length c" cd fs bss] by simp
qed simp

lemma frame_posts_append: "frame_posts sid x (fs @ gs) = frame_posts sid x fs @ frame_posts sid (frames_next x fs) gs"
  by (induction fs arbitrary: x) (simp_all add: frames_next_def)

lemma run_frames:
  assumes "sid < outputs" "sid < 2 ^ 32"
    and "list_all2 (is_packet cd sid) fs bss" "list_all (frame_ok cd) fs" "0x6D \<notin> set g"
    and "complete bss m = 0" "concat cs = drop m (concat bss)" "m \<le> length (concat bss)" "cuts_ok cd fs bss m cs"
  shows "\<exists>d. de_run cd oob outputs cs \<lparr>ds_acc = g @ take m (concat bss), ds_next = x\<rparr> = Some ([], d, frame_posts sid x fs)"
  using assms(3-9)
proof (induction cs arbitrary: fs bss g m x)
  case Nil
  have "drop m (concat bss) = []" using Nil.prems(5) by simp
  then have "m = length (concat bss)" using Nil.prems(6) by (metis drop_eq_Nil le_antisym)
  then have "bss = []" using complete_all[OF Nil.prems(4)] by blast
  then have "fs = []" using Nil.prems(1) by simp
  then show ?case by simp
next
  case (Cons c cs)
  let ?n = "m + length c" and ?S = "concat bss"
  let ?k = "complete bss ?n"
  let ?L = "length (concat (take ?k bss))" and ?D = "concat (drop ?k bss)"
  have len: "length fs = length bss" using Cons.prems(1) by (rule list_all2_lengthD)
  have split: "take m ?S @ c = take ?n ?S"
  proof -
    have "take (length c) (drop m ?S) = c" unfolding Cons.prems(5)[symmetric] by simp
    then show ?thesis by (metis take_add)
  qed
  have rest: "concat cs = drop ?n ?S" unfolding add.commute[of m] drop_drop[symmetric] Cons.prems(5)[symmetric] by simp
  have n: "?n \<le> length ?S" using Cons.prems(5,6) by (metis append_take_drop_id concat.simps(2) length_append length_take min.absorb2 nat_add_left_cancel_le le_add1)
  have S: "?S = concat (take ?k bss) @ ?D" by (metis append_take_drop_id concat_append)
  have L: "?L \<le> ?n" by (rule complete_le)
  obtain g' where g': "0x6D \<notin> set g'" "drain cd oob outputs (g @ take ?n ?S) x =
      Some (None, g' @ take (?n - ?L) ?D, frames_next x (take ?k fs), frame_posts sid x (take ?k fs))"
    using drain_frames[OF Cons.prems(1,2) assms(1,2) Cons.prems(3), of ?n oob x] Cons.prems(7) by (auto simp: Let_def)
  have "concat cs = drop (?n - ?L) ?D" "?n - ?L \<le> length ?D"
    using rest n L unfolding S by simp_all
  moreover have "list_all2 (is_packet cd sid) (drop ?k fs) (drop ?k bss)" "list_all (frame_ok cd) (drop ?k fs)"
    using Cons.prems(1,2) by (simp_all add: list_all2_dropI list_all_iff) (meson in_set_dropD)
  moreover have "cuts_ok cd (drop ?k fs) (drop ?k bss) (?n - ?L) cs"
    using cuts_ok_rest[of ?n ?n cd fs bss cs] Cons.prems(7) len by simp
  ultimately obtain d where "de_run cd oob outputs cs \<lparr>ds_acc = g' @ take (?n - ?L) ?D, ds_next = frames_next x (take ?k fs)\<rparr>
      = Some ([], d, frame_posts sid (frames_next x (take ?k fs)) (drop ?k fs))"
    using Cons.IH[of "drop ?k fs" "drop ?k bss" g' "?n - ?L" "frames_next x (take ?k fs)"] complete_rest[of bss ?n] g'(1) by blast
  then show ?case
    using g'(2) frame_posts_append[of sid x "take ?k fs" "drop ?k fs"] by (simp add: de_work_def split)
qed


section \<open>Calls of the serializer\<close>

text \<open>A call of \<open>work\<close> of a serializer with one input: the messages, the labels and the buffer that it finds.\<close>

type_synonym ser_call = "sobj list \<times> label list \<times> byte list"

fun ser_run :: "codec \<Rightarrow> memory_of \<Rightarrow> 64 word list \<Rightarrow> 64 word \<Rightarrow> ser_call list \<Rightarrow> byte list list" where
  "ser_run cd mem seqs elems [] = []"
| "ser_run cd mem seqs elems ((ms, ls, b) # cs) =
     (let (posts, seqs') = ser_work cd mem seqs [\<lparr>si_msgs = ms, si_labels = ls, si_total = elems, si_buffer = b\<rparr>]
      in posts @ ser_run cd mem seqs' (elems + of_nat (length b)) cs)"

fun call_frames :: "64 word \<Rightarrow> ser_call list \<Rightarrow> frame list" where
  "call_frames elems [] = []"
| "call_frames elems ((ms, ls, b) # cs) =
     map FMessage ms @ map (\<lambda>l. FLabel (of_nat (lb_index l) + elems) l) ls @ (if b = [] then [] else [FBuffer elems b])
     @ call_frames (elems + of_nat (length b)) cs"

fun call_posts :: "ser_call \<Rightarrow> dpost list" where
  "call_posts (ms, ls, b) = map (DMessage 0) ms @ map (DLabel 0) ls @ (if b = [] then [] else [DBuffer 0 b])"

text \<open>What the round trip needs of a call: every packet, header included, has at most \<open>MAX_PKT_BYTES\<close> (128 KiB; the deserializer
  takes a longer one for a broken stream), the archive restores the objects, the indices of the labels are \<open>size_t\<close> values,
  and the length of the buffer is a multiple of four (the packet of another buffer is not accepted: \<open>unaligned_rejected\<close>).\<close>

fun call_ok :: "codec \<Rightarrow> ser_call \<Rightarrow> bool" where
  "call_ok cd (ms, ls, b) =
     (list_all (\<lambda>x. frame_ok cd (FMessage x)) ms \<and>
      list_all (\<lambda>l. frame_ok cd (FLabel 0 l) \<and> lb_index l < SIZE_MOD) ls \<and>
      (4 dvd length b \<and> frame_ok cd (FBuffer 0 b)))"

lemma mem_payload: "map (objectToOffsetBuffer k s mem) [k * 4..<k * 4 + length s] = s"
  by (rule nth_equalityI) (simp_all add: objectToOffsetBuffer_def)

lemma msgs_packets:
  "\<exists>bss. list_all2 (is_packet cd i) (map FMessage ms) bss \<and> concat (fst (ser_msgs cd mem i seq ms)) = concat bss"
proof (induction ms arbitrary: seq)
  case (Cons x xs)
  obtain bss where bss: "list_all2 (is_packet cd i) (map FMessage xs) bss" "concat (fst (ser_msgs cd mem i (seq + 1) xs)) = concat bss"
    using Cons by blast
  let ?s = "cd_ser cd x"
  let ?p = "packBuffer seq i False 0 True (length ?s) (objectToOffsetBuffer 4 ?s (mem seq))"
  have "is_packet cd i (FMessage x) ?p"
    unfolding is_packet_def using mem_payload[of 4 ?s "mem seq"]
    by (intro exI[of _ seq] exI[of _ 0] exI[of _ "objectToOffsetBuffer 4 ?s (mem seq)"]) (simp add: frame_payload_def)
  then show ?case using bss by (intro exI[of _ "?p # bss"]) (simp add: Let_def case_prod_beta)
qed simp

lemma labels_packets:
  "\<exists>bss. list_all2 (is_packet cd i) (map (\<lambda>l. FLabel (of_nat (lb_index l) + elems) l) ls) bss \<and>
     concat (fst (ser_labels cd mem i elems seq ls)) = concat bss"
proof (induction ls arbitrary: seq)
  case (Cons l ls)
  obtain bss where bss: "list_all2 (is_packet cd i) (map (\<lambda>l. FLabel (of_nat (lb_index l) + elems) l) ls) bss"
      "concat (fst (ser_labels cd mem i elems (seq + 1) ls)) = concat bss"
    using Cons by blast
  let ?s = "cd_ser cd (SLabel l)" and ?t = "of_nat (lb_index l) + elems"
  let ?p = "packBuffer seq i True ?t True (length ?s) (objectToOffsetBuffer 6 ?s (mem seq))"
  have "is_packet cd i (FLabel ?t l) ?p"
    unfolding is_packet_def using mem_payload[of 6 ?s "mem seq"]
    by (intro exI[of _ seq] exI[of _ ?t] exI[of _ "objectToOffsetBuffer 6 ?s (mem seq)"]) (simp add: frame_payload_def)
  then show ?case using bss by (intro exI[of _ "?p # bss"]) (simp add: Let_def case_prod_beta)
qed simp

text \<open>The three chunks of a buffer are a packet where the payload needs no padding.\<close>

lemma buffer_packet:
  assumes "4 dvd length b" "frame_ok cd (FBuffer elems b)" "b \<noteq> []"
  shows "is_packet cd i (FBuffer elems b) (concat (fst (ser_buffer mem i elems seq b)))"
proof -
  let ?w = "frame_words True (length b)" and ?mem = "objectToOffsetBuffer 6 b (mem seq)"
  let ?hdr = "be32 mVRL @ be32 (of_nat (frame_bytes True (length b))) @ be32 (vita False True (?w - 3)) @ be32 (of_nat i)
     @ be32 (ucast (drop_bit 32 elems)) @ be32 (ucast elems)"
  have bound: "frame_bytes True (length b) \<le> MAX_PKT_BYTES" using assms(2) by (simp add: frame_ok_def frame_payload_def)
  note form = packBuffer_form[OF bound, of seq i elems False] and z = frame_sizes[OF bound]
  obtain k where k: "length b = 4 * k" using assms(1) by blast
  have w: "4 * (?w - 1) = 24 + length b" unfolding frame_words_def k by simp
  have h: "length ?hdr = 24" by simp
  have "packBuffer seq i True elems False (length b) m = ?hdr @ map m [24..<24 + length b] @ be32 VEND" for m
    unfolding form w by simp
  note p = this
  have q: "(6 + padUp32 (length b) div 4 + 1 - 1) * 4 = 24 + length b" using z(2) k by simp
  have "concat (fst (ser_buffer mem i elems seq b)) = ?hdr @ b @ be32 VEND"
    using assms(3) q unfolding ser_buffer_def Let_def p by (simp add: take_append drop_append)
  also have "\<dots> = packBuffer seq i True elems False (length b) ?mem"
    unfolding p using mem_payload[of 6 b "mem seq"] by simp
  finally show ?thesis
    unfolding is_packet_def using mem_payload[of 6 b "mem seq"]
    by (intro exI[of _ seq] exI[of _ elems] exI[of _ ?mem]) (simp add: frame_payload_def)
qed


lemma frame_ok_tsf:
  "frame_ok cd (FLabel i l) = frame_ok cd (FLabel 0 l)" "frame_ok cd (FBuffer i b) = frame_ok cd (FBuffer 0 b)"
  by (simp_all add: frame_ok_def frame_payload_def)

lemma ser_work_one: "ser_work cd mem seqs [p] = (fst (ser_port cd mem 0 (seqs ! 0) p), seqs[0 := snd (ser_port cd mem 0 (seqs ! 0) p)])"
  by (simp add: ser_work_def case_prod_beta)

lemma port_packets:
  assumes "call_ok cd (ms, ls, b)"
  shows "\<exists>bss. list_all2 (is_packet cd 0) (call_frames elems [(ms, ls, b)]) bss \<and>
     concat (fst (ser_port cd mem 0 seq \<lparr>si_msgs = ms, si_labels = ls, si_total = elems, si_buffer = b\<rparr>)) = concat bss"
proof -
  let ?s1 = "snd (ser_msgs cd mem 0 seq ms)" and ?s2 = "snd (ser_labels cd mem 0 elems (snd (ser_msgs cd mem 0 seq ms)) ls)"
  obtain m where m: "list_all2 (is_packet cd 0) (map FMessage ms) m" "concat (fst (ser_msgs cd mem 0 seq ms)) = concat m"
    using msgs_packets by blast
  obtain l where l: "list_all2 (is_packet cd 0) (map (\<lambda>l. FLabel (of_nat (lb_index l) + elems) l) ls) l"
      "concat (fst (ser_labels cd mem 0 elems ?s1 ls)) = concat l"
    using labels_packets by blast
  have "\<exists>bs. list_all2 (is_packet cd 0) (if b = [] then [] else [FBuffer elems b]) bs \<and> concat (fst (ser_buffer mem 0 elems ?s2 b)) = concat bs"
  proof (cases "b = []")
    case True
    then show ?thesis by (simp add: ser_buffer_def)
  next
    case False
    then show ?thesis
      using buffer_packet[of b cd elems 0 mem ?s2] assms frame_ok_tsf(2)[of cd elems b]
      by (intro exI[of _ "[concat (fst (ser_buffer mem 0 elems ?s2 b))]"]) simp
  qed
  then obtain bs where bs: "list_all2 (is_packet cd 0) (if b = [] then [] else [FBuffer elems b]) bs"
      "concat (fst (ser_buffer mem 0 elems ?s2 b)) = concat bs"
    by blast
  have "concat (fst (ser_port cd mem 0 seq \<lparr>si_msgs = ms, si_labels = ls, si_total = elems, si_buffer = b\<rparr>)) = concat (m @ l @ bs)"
    using m(2) l(2) bs(2) by (simp add: ser_port_def case_prod_beta)
  moreover have "list_all2 (is_packet cd 0) (call_frames elems [(ms, ls, b)]) (m @ l @ bs)"
    unfolding call_frames.simps append_Nil2 by (intro list_all2_appendI m(1) l(1) bs(1))
  ultimately show ?thesis by blast
qed

lemma call_frames_Cons: "call_frames e (c # cs) = call_frames e [c] @ call_frames (e + of_nat (length (snd (snd c)))) cs"
  by (cases c) simp

lemma run_packets:
  assumes "list_all (call_ok cd) calls"
  shows "\<exists>bss. list_all2 (is_packet cd 0) (call_frames elems calls) bss \<and> concat (ser_run cd mem seqs elems calls) = concat bss"
  using assms
proof (induction calls arbitrary: seqs elems)
  case (Cons c calls)
  obtain ms ls b where c: "c = (ms, ls, b)" by (cases c) auto
  obtain s where ser: "ser_run cd mem seqs elems (c # calls) =
      fst (ser_port cd mem 0 (seqs ! 0) \<lparr>si_msgs = ms, si_labels = ls, si_total = elems, si_buffer = b\<rparr>)
      @ ser_run cd mem s (elems + of_nat (length b)) calls"
    by (simp add: c ser_work_one)
  obtain p where p: "list_all2 (is_packet cd 0) (call_frames elems [c]) p"
      "concat (fst (ser_port cd mem 0 (seqs ! 0) \<lparr>si_msgs = ms, si_labels = ls, si_total = elems, si_buffer = b\<rparr>)) = concat p"
    using port_packets[of cd ms ls b elems mem "seqs ! 0"] Cons.prems unfolding c by auto
  obtain q where q: "list_all2 (is_packet cd 0) (call_frames (elems + of_nat (length b)) calls) q"
      "concat (ser_run cd mem s (elems + of_nat (length b)) calls) = concat q"
    using Cons by fastforce
  have "list_all2 (is_packet cd 0) (call_frames elems (c # calls)) (p @ q)"
    unfolding call_frames_Cons[of elems c calls] using list_all2_appendI[OF p(1)] q(1) by (simp add: c)
  then show ?case using p(2) q(2) unfolding ser by (intro exI[of _ "p @ q"]) simp
qed simp

lemma call_frames_ok: "list_all (call_ok cd) calls \<Longrightarrow> list_all (frame_ok cd) (call_frames elems calls)"
proof (induction calls arbitrary: elems)
  case (Cons c calls)
  then show ?case
    by (cases c) (auto simp: list_all_iff intro: frame_ok_tsf[THEN iffD2])
qed simp

lemma msgs_posts: "frame_posts 0 x (map FMessage ms) = map (DMessage 0) ms" "frames_next x (map FMessage ms) = x"
  by (induction ms) (simp_all add: frames_next_def)

lemma labels_posts:
  "list_all (\<lambda>l. lb_index l < SIZE_MOD) ls \<Longrightarrow>
     frame_posts 0 x (map (\<lambda>l. FLabel (of_nat (lb_index l) + x) l) ls) = map (DLabel 0) ls"
  "frames_next x (map (\<lambda>l. FLabel (i l) l) ls) = x"
  by (induction ls) (simp_all add: frames_next_def unsigned_of_nat SIZE_MOD_def take_bit_nat_eq_self)

lemma frames_next_simps: "frames_next x [] = x" "frames_next x (f # fs) = frames_next (frame_next x f) fs"
  by (simp_all add: frames_next_def)

lemma calls_posts:
  "list_all (call_ok cd) calls \<Longrightarrow> frame_posts 0 elems (call_frames elems calls) = concat (map call_posts calls)"
proof (induction calls arbitrary: elems)
  case (Cons c calls)
  obtain ms ls b where c: "c = (ms, ls, b)" by (cases c) auto
  have "list_all (\<lambda>l. lb_index l < SIZE_MOD) ls" using Cons.prems unfolding c by (auto simp: list_all_iff)
  then show ?case
    using Cons unfolding c by (auto simp: frame_posts_append msgs_posts labels_posts frames_next_simps)
qed simp

text \<open>The ends of chunks that avoid the padding, over the frames.\<close>

fun stream_cut :: "codec \<Rightarrow> frame list \<Rightarrow> nat \<Rightarrow> bool" where
  "stream_cut cd [] n = True"
| "stream_cut cd (f # fs) n =
     (let len = 4 * frame_words (frame_tsf f \<noteq> None) (length (frame_payload cd f)) in
      if len \<le> n then stream_cut cd fs (n - len) else n < frame_size cd f)"

fun stream_cuts :: "codec \<Rightarrow> frame list \<Rightarrow> nat \<Rightarrow> byte list list \<Rightarrow> bool" where
  "stream_cuts cd fs n [] = True"
| "stream_cuts cd fs n (c # cs) = (stream_cut cd fs (n + length c) \<and> stream_cuts cd fs (n + length c) cs)"

lemma packet_words:
  assumes "is_packet cd sid f bs" "frame_ok cd f"
  shows "length bs = 4 * frame_words (frame_tsf f \<noteq> None) (length (frame_payload cd f))"
proof -
  have b: "frame_size cd f \<le> MAX_PKT_BYTES" using assms(2) by (simp add: frame_ok_def)
  obtain seq tsf mem where "bs = packBuffer seq sid (frame_tsf f \<noteq> None) tsf (frame_object f \<noteq> None) (length (frame_payload cd f)) mem"
    using assms(1) unfolding is_packet_def by blast
  then show ?thesis using packet_reads(1)[OF b, of bs seq sid tsf "frame_object f \<noteq> None" mem "[]"] by simp
qed

lemma stream_cut_ok:
  "list_all2 (is_packet cd sid) fs bss \<Longrightarrow> list_all (frame_ok cd) fs \<Longrightarrow> stream_cut cd fs n \<Longrightarrow> cut_ok cd fs bss n"
  by (induction fs bss arbitrary: n rule: list_all2_induct) (auto simp: packet_words Let_def split: if_splits)

lemma stream_cuts_ok:
  assumes "list_all2 (is_packet cd sid) fs bss" "list_all (frame_ok cd) fs"
  shows "stream_cuts cd fs n cs \<Longrightarrow> cuts_ok cd fs bss n cs"
  by (induction cs arbitrary: n) (auto intro: stream_cut_ok[OF assms])

text \<open>C17: For a serializer with one input port (the deserializer mixes up the indices of several: \<open>label_wrong_stream\<close>) and calls
  whose buffers have lengths divisible by four, whose packets have at most \<open>MAX_PKT_BYTES\<close> bytes (128 KiB) and whose objects the
  archive restores: whatever the splitting of the stream on its way, as long as no chunk ends in the padding of a packet, the
  deserializer posts the messages, the labels with their indices and the buffers that the serializer found, in order, and
  throws nothing.\<close>

theorem serialize_roundtrip:
  assumes "list_all (call_ok cd) calls" "0 < outputs"
    and "concat chunks = concat (ser_run cd mem seqs 0 calls)" "stream_cuts cd (call_frames 0 calls) 0 chunks"
  shows "\<exists>d. de_run cd oob outputs chunks ds_new = Some ([], d, concat (map call_posts calls))"
proof -
  obtain bss where bss: "list_all2 (is_packet cd 0) (call_frames 0 calls) bss" "concat (ser_run cd mem seqs 0 calls) = concat bss"
    using run_packets[OF assms(1)] by blast
  have ok: "list_all (frame_ok cd) (call_frames 0 calls)" by (rule call_frames_ok[OF assms(1)])
  have "complete bss 0 = 0"
    using bss(1) packet_length(1,3) ok by (cases bss) (auto simp: list_all2_Cons2, fastforce)
  then show ?thesis
    using run_frames[OF assms(2) _ bss(1) ok, of "[]" 0 chunks oob 0] assms(3) bss(2) stream_cuts_ok[OF bss(1) ok assms(4)]
      calls_posts[OF assms(1)] by (simp add: ds_new_def)
qed


definition demo_codec :: codec where
  "demo_codec = \<lparr>cd_ser = (\<lambda>x. case x of SLabel l \<Rightarrow> [8, 8, 8, 8, 8] | _ \<Rightarrow> [7, 7, 7]),
     cd_de = (\<lambda>b. if b = [7, 7, 7] then Some (SOther ObNull) else if b = [8, 8, 8, 8, 8] then Some (SLabel lb_default) else None)\<rparr>"

text \<open>Two calls: a message, a label and a buffer, and then another buffer. The stream of 128 bytes arrives in four chunks, which
  end in the header of the message, in the bytes of the label, and in the last word of the packet of the first buffer.\<close>

definition demo_calls :: "ser_call list" where
  "demo_calls = [([SOther ObNull], [lb_default], [9, 8, 7, 6]), ([], [], [5, 4, 3, 2, 1, 0, 1, 2])]"

definition demo_stream :: "byte list" where
  "demo_stream = concat (ser_run demo_codec (\<lambda>_ _. 0) [0] 0 demo_calls)"

definition demo_chunks :: "byte list list" where
  "demo_chunks = [take 10 demo_stream, take 40 (drop 10 demo_stream), take 40 (drop 50 demo_stream), drop 90 demo_stream]"

lemma serialize_roundtrip_witness:
  "\<exists>d. de_run demo_codec (\<lambda>_. 0) 1 demo_chunks ds_new
     = Some ([], d, [DMessage 0 (SOther ObNull), DLabel 0 lb_default, DBuffer 0 [9, 8, 7, 6], DBuffer 0 [5, 4, 3, 2, 1, 0, 1, 2]])"
proof -
  have len: "length demo_stream = 128"
    by (simp add: demo_stream_def demo_calls_def ser_work_one ser_port_def ser_buffer_def packBuffer_def Let_def padUp32_def add64_def
        SIZE_MOD_def demo_codec_def)
  have "list_all (call_ok demo_codec) demo_calls"
    by (simp add: demo_calls_def frame_ok_def frame_payload_def frame_bytes_def MAX_PKT_BYTES_def demo_codec_def lb_default_def SIZE_MOD_def)
      presburger
  moreover have "stream_cuts demo_codec (call_frames 0 demo_calls) 0 demo_chunks"
    by (simp add: len demo_chunks_def demo_calls_def Let_def frame_payload_def frame_bytes_def frame_words_def demo_codec_def)
  moreover have "concat demo_chunks = demo_stream"
    using append_take_drop_id[of 40 "drop 50 demo_stream"] append_take_drop_id[of 40 "drop 10 demo_stream"]
      append_take_drop_id[of 10 demo_stream] by (simp add: demo_chunks_def)
  ultimately have "\<exists>d. de_run demo_codec (\<lambda>_. 0) 1 demo_chunks ds_new = Some ([], d, concat (map call_posts demo_calls))"
    by (intro serialize_roundtrip[where mem = "\<lambda>_ _. 0" and seqs = "[0]"]) (simp_all add: demo_stream_def[symmetric])
  moreover have "concat (map call_posts demo_calls)
      = [DMessage 0 (SOther ObNull), DLabel 0 lb_default, DBuffer 0 [9, 8, 7, 6], DBuffer 0 [5, 4, 3, 2, 1, 0, 1, 2]]"
    by (simp add: demo_calls_def)
  ultimately show ?thesis by metis
qed

section \<open>Streams that are not restored\<close>

text \<open>The packet of a buffer whose length is not a multiple of four has no padding, but the deserializer looks for the last word
  behind the padding: it does not accept the packet.\<close>

lemma unaligned_rejected:
  assumes "\<not> 4 dvd length b" "frame_bytes True (length b) \<le> MAX_PKT_BYTES" "4 \<le> length rest"
  shows "\<not> fst (inspectPacket oob (concat (fst (ser_buffer mem i elems seq b)) @ rest))"
proof -
  let ?w = "frame_words True (length b)"
  let ?hdr = "be32 mVRL @ be32 (of_nat (frame_bytes True (length b))) @ be32 (vita False True (?w - 3)) @ be32 (of_nat i)
     @ be32 (ucast (drop_bit 32 elems)) @ be32 (ucast elems)"
  let ?p = "?hdr @ b @ be32 VEND @ rest"
  note form = packBuffer_form[OF assms(2), of seq i elems False "mem seq"] and z = frame_sizes[OF assms(2)]
  have b: "b \<noteq> []" using assms(1) by auto
  have pw: "(6 + padUp32 (length b) div 4 + 1 - 1) * 4 = 4 * (?w - 1)" using z(2) by (simp add: frame_words_def)
  have h: "length ?hdr = 24" by simp
  have "24 \<le> 4 * (?w - 1)" by (simp add: frame_words_def)
  then have p: "concat (fst (ser_buffer mem i elems seq b)) @ rest = ?p"
    using b pw unfolding ser_buffer_def Let_def form by (simp add: take_append drop_append)
  define j where "j = 4 * (?w - 1) - (24 + length b)"
  have j: "4 * (?w - 1) = 24 + length b + j" "0 < j" "j < 4"
    using assms(1) unfolding j_def frame_words_def by presburger+
  have "?p ! (4 * (?w - 1)) = be32 VEND ! j"
    using j h by (simp add: nth_append)
  moreover have "be32 VEND ! j \<noteq> 0x56"
    using j(2,3) by (cases j rule: nat.exhaust; simp add: be32_def VEND_def nth_Cons split: nat.split)
  ultimately have first: "?p ! (4 * (?w - 1)) \<noteq> 0x56" by simp
  have "rd32 ?p (?w - 1) \<noteq> VEND"
  proof
    assume e: "rd32 ?p (?w - 1) = VEND"
    have "ucast (drop_bit 24 (rd32 q k)) = q ! (4 * k)" for q k
      by (rule bit_word_eqI) (auto simp: rd32_def bit_ucast_iff bit_drop_bit_eq bit_or_iff bit_push_bit_iff dest: bit_imp_le_length)
    from this[of ?p "?w - 1"] show False using first unfolding e by (simp add: VEND_def)
  qed
  moreover have "4 * ?w \<le> length ?p" using j assms(3) by simp
  ultimately have "word_at oob ?p ?w \<noteq> VEND" using z(4) by (simp add: word_at_def)
  moreover have "rd32 ?p 1 = of_nat (frame_bytes True (length b))" using rd32_be32[of "be32 mVRL" 1] by simp
  moreover have "frame_bytes True (length b) \<le> length ?p" using assms(3) by (simp add: frame_bytes_def)
  ultimately show ?thesis unfolding p inspectPacket_def Let_def by (simp add: field_20[OF z(7)] z(1) del: append.simps)
qed


text \<open>A packet for an output that does not exist stays in front of the accumulated bytes: every further call throws.\<close>

lemma handle_missing:
  assumes "is_packet cd sid f bs" "frame_ok cd f" "outputs \<le> sid" "sid < 2 ^ 32"
  shows "handlePacket cd oob outputs (bs @ rest) x = Some (Inl RangeException)"
proof -
  have b: "frame_size cd f \<le> MAX_PKT_BYTES" using assms(2) by (simp add: frame_ok_def)
  obtain seq tsf mem where bs: "bs = packBuffer seq sid (frame_tsf f \<noteq> None) tsf (frame_object f \<noteq> None) (length (frame_payload cd f)) mem"
    using assms(1) unfolding is_packet_def by blast
  obtain y u where "unpackBuffer oob (bs @ rest) = Some (Inr u)" "vp_sid u = sid"
    using unpack_whole[OF b, of "bs @ rest" seq sid tsf "frame_object f \<noteq> None" mem rest oob] bs assms(4) by (metis mvrl.select_convs(2))
  then show ?thesis using assms(3) by (simp add: handlePacket_def)
qed

text \<open>A packet for an output that the deserializer does not have is never removed: every call of work throws the same exception
  and posts nothing, however much more of the stream arrives.\<close>

theorem deserializer_blocks:
  assumes "is_packet cd sid f bs" "frame_ok cd f" "outputs \<le> sid" "sid < 2 ^ 32"
  shows "\<exists>d. de_run cd oob outputs chunks \<lparr>ds_acc = bs @ rest, ds_next = x\<rparr> = Some (map (\<lambda>_. RangeException) chunks, d, [])"
proof (induction chunks arbitrary: rest)
  case (Cons c chunks)
  have b: "frame_size cd f \<le> MAX_PKT_BYTES" using assms(2) by (simp add: frame_ok_def)
  obtain seq tsf mem where bs: "bs = packBuffer seq sid (frame_tsf f \<noteq> None) tsf (frame_object f \<noteq> None) (length (frame_payload cd f)) mem"
    using assms(1) unfolding is_packet_def by blast
  have "inspectPacket oob (bs @ rest @ c) = (True, False, frame_size cd f)"
    using inspect_whole[OF b, of _ seq sid tsf _ mem "rest @ c"] bs by blast
  moreover have "MIN_PKT_BYTES \<le> length (bs @ rest @ c)"
    using packet_length[OF assms(1,2)] by (simp add: MIN_PKT_BYTES_def)
  ultimately have "drain cd oob outputs (bs @ rest @ c) x = Some (Some RangeException, bs @ rest @ c, x, [])"
    by (subst drain.simps) (simp add: handle_missing[OF assms])
  then show ?case using Cons[of "rest @ c"] by (auto simp: de_work_def)
qed simp

lemma deserializer_blocks_witness:
  "\<exists>d. de_run demo_codec (\<lambda>_. 0) 1 [[1], [2]]
     \<lparr>ds_acc = packBuffer 0 1 False 0 True 3 (objectToOffsetBuffer 4 [7, 7, 7] (\<lambda>_. 0)) @ [], ds_next = 0\<rparr>
   = Some ([RangeException, RangeException], d, [])"
proof -
  have "is_packet demo_codec 1 (FMessage (SOther ObNull)) (packBuffer 0 1 False 0 True 3 (objectToOffsetBuffer 4 [7, 7, 7] (\<lambda>_. 0)))"
    using mem_payload[of 4 "[7, 7, 7]" "\<lambda>_. 0"]
    unfolding is_packet_def
    by (intro exI[of _ 0] exI[of _ 0] exI[of _ "objectToOffsetBuffer 4 [7, 7, 7] (\<lambda>_. 0)"])
       (simp add: frame_payload_def demo_codec_def numeral_3_eq_3)
  then show ?thesis
    using deserializer_blocks[of demo_codec 1 "FMessage (SOther ObNull)" _ 1 "\<lambda>_. 0" "[[1], [2]]" "[]" 0]
    by (simp add: frame_ok_def frame_payload_def frame_bytes_def MAX_PKT_BYTES_def demo_codec_def)
qed

text \<open>The numbers of the packets are shifted out of their fields: every packet has the same header bits.\<close>

lemma sequence_lost: "packBuffer seq sid t tsf e len mem = packBuffer 0 sid t tsf e len mem"
  by (simp only: packBuffer_def seq_fields Let_def)

text \<open>The expected index is shared by the streams: after a buffer of 4 bytes on port 0, a label at index 0 of port 1 gets index 2^64 - 4.\<close>

lemma label_wrong_stream:
  "frame_post 1 (frame_next 0 (FBuffer 0 [1, 2, 3, 4])) (FLabel 0 lb_default) = DLabel 1 (lb_default\<lparr>lb_index := 2 ^ 64 - 4\<rparr>)"
  by simp

end
