(* ===== verification/NetworkEndpoint.thy ===== *)
theory NetworkEndpoint
  imports ByteOrder
begin

unbundle bit_operations_syntax

text \<open>
  The packet protocol of the network blocks (pothos-blocks/network/SocketEndpoint.cpp): the endpoint with its connection
  states, packet counts, partial receives and flow control, over a socket that is a stream of bytes. What the socket
  accepts of a send is the parameter \<open>socket\<close> (the return value of \<open>send\<close> for the offered bytes, at most their number);
  a receive takes bytes from the list \<open>inp\<close> of arrived bytes, and an empty list is a closed connection. Random numbers and
  the time that a loop waits are parameters: a loop runs over the list of what arrives in each of its turns. The socket
  classes themselves (Poco and UDT calls) are not modelled.
\<close>

section \<open>States and headers\<close>

datatype EndpointState = EP_STATE_LISTEN | EP_STATE_SYN_SENT | EP_STATE_SYN_RECEIVED | EP_STATE_ESTABLISHED
  | EP_STATE_FIN_WAIT_1 | EP_STATE_FIN_WAIT_2 | EP_STATE_CLOSE_WAIT | EP_STATE_CLOSING | EP_STATE_LAST_ACK
  | EP_STATE_TIME_WAIT | EP_STATE_CLOSED

definition FlagFin :: "16 word" where "FlagFin = 1"
definition FlagSyn :: "16 word" where "FlagSyn = 2"
definition FlagPsh :: "16 word" where "FlagPsh = 8"
definition FlagAck :: "16 word" where "FlagAck = 16"
definition FlagFlo :: "16 word" where "FlagFlo = 32"

definition PacketHeaderWord :: "32 word" where "PacketHeaderWord = 0x50544853"
definition TypeBuffer :: "16 word" where "TypeBuffer = 0x42"

type_synonym bytes = "8 word list"

record endpoint =
  ep_state :: EndpointState
  ep_lastSent :: "16 word"
  ep_nextRecv :: "16 word"
  ep_bytesLeft :: nat
  ep_lastType :: "16 word"
  ep_lastIndex :: "64 word"
  ep_totalRecv :: "64 word"
  ep_totalSent :: "64 word"
  ep_flowRecv :: "64 word"
  ep_flowSent :: "64 word"

definition ep_new :: "EndpointState \<Rightarrow> endpoint" where
  "ep_new s = \<lparr>ep_state = s, ep_lastSent = 0, ep_nextRecv = 0, ep_bytesLeft = 0, ep_lastType = 0, ep_lastIndex = 0,
     ep_totalRecv = 0, ep_totalSent = 0, ep_flowRecv = 0, ep_flowSent = 0\<rparr>"

definition flowControlWindowBytes :: "64 word" where
  "flowControlWindowBytes = 256 * 1024"

definition ep_isReady :: "endpoint \<Rightarrow> bool" where
  "ep_isReady ep = (ep_state ep = EP_STATE_ESTABLISHED \<and> ep_flowRecv ep + flowControlWindowBytes > ep_totalSent ep)"

definition packet_header :: "16 word \<Rightarrow> 16 word \<Rightarrow> nat \<Rightarrow> 16 word \<Rightarrow> 64 word \<Rightarrow> bytes" where
  "packet_header flags ptype numBytes count index =
     be32 PacketHeaderWord @ be16 flags @ be16 ptype @ be16 (of_nat numBytes) @ be16 count
     @ be32 (ucast (drop_bit 32 index)) @ be32 (ucast index)"

section \<open>Sending\<close>

type_synonym socket = "bytes \<Rightarrow> int"

text \<open>An operation gives an error or a value, the endpoint, and the bytes that the socket took.\<close>

type_synonym 'a endpoint_result = "'a result \<times> endpoint \<times> bytes"

function send_payload :: "socket \<Rightarrow> bytes \<Rightarrow> endpoint \<Rightarrow> unit endpoint_result" where
  "send_payload socket buff ep =
     (if buff = [] then (Inr (), ep, [])
      else let ret = socket buff in
        if ret \<le> 0 then (Inl OtherException, ep, [])
        else let (r, ep', out) = send_payload socket (drop (nat ret) buff) (ep\<lparr>ep_totalSent := ep_totalSent ep + of_int ret\<rparr>)
             in (r, ep', take (nat ret) buff @ out))"
  by pat_completeness auto
termination
  by (relation "measure (\<lambda>(socket, buff, ep). length buff)") auto

declare send_payload.simps [simp del]

definition ep_send :: "socket \<Rightarrow> 16 word \<Rightarrow> 16 word \<Rightarrow> 64 word \<Rightarrow> bytes \<Rightarrow> endpoint \<Rightarrow> unit endpoint_result" where
  "ep_send socket flags ptype index buff ep =
     (let header = packet_header flags ptype (length buff) (ep_lastSent ep) index;
          ret = socket header;
          ep1 = ep\<lparr>ep_lastSent := ep_lastSent ep + 1\<rparr> in
      if ret \<noteq> 20 then (Inl OtherException, ep1, take (nat ret) header)
      else let (r, ep2, out) = send_payload socket buff (ep1\<lparr>ep_totalSent := ep_totalSent ep1 + of_int ret\<rparr>)
           in (r, ep2, header @ out))"

definition send_flags :: "socket \<Rightarrow> 16 word \<Rightarrow> endpoint \<Rightarrow> unit endpoint_result" where
  "send_flags socket flags ep = ep_send socket flags 0 0 [] ep"

text \<open>Sending flags and then taking a new state, which an exception prevents.\<close>

definition send_then :: "socket \<Rightarrow> 16 word \<Rightarrow> EndpointState \<Rightarrow> endpoint \<Rightarrow> unit endpoint_result" where
  "send_then socket flags s ep = (case send_flags socket flags ep of
     (Inl e, ep', out) \<Rightarrow> (Inl e, ep', out)
   | (Inr u, ep', out) \<Rightarrow> (Inr u, ep'\<lparr>ep_state := s\<rparr>, out))"

section \<open>The connection\<close>

definition has_flag :: "16 word \<Rightarrow> 16 word \<Rightarrow> bool" where
  "has_flag flags f = (flags AND f \<noteq> 0)"

definition handleState :: "socket \<Rightarrow> 16 word \<Rightarrow> endpoint \<Rightarrow> unit endpoint_result" where
  "handleState socket flags ep = (case ep_state ep of
     EP_STATE_LISTEN \<Rightarrow>
       if has_flag flags FlagSyn then send_then socket (FlagSyn OR FlagAck) EP_STATE_SYN_RECEIVED ep else (Inr (), ep, [])
   | EP_STATE_SYN_SENT \<Rightarrow>
       if has_flag flags (FlagSyn OR FlagAck) then send_then socket FlagAck EP_STATE_ESTABLISHED ep
       else if has_flag flags FlagSyn then send_then socket (FlagSyn OR FlagAck) EP_STATE_SYN_RECEIVED ep
       else (Inr (), ep, [])
   | EP_STATE_SYN_RECEIVED \<Rightarrow>
       if has_flag flags FlagAck then (Inr (), ep\<lparr>ep_state := EP_STATE_ESTABLISHED\<rparr>, []) else (Inr (), ep, [])
   | EP_STATE_ESTABLISHED \<Rightarrow>
       if has_flag flags FlagFin then send_then socket FlagAck EP_STATE_CLOSE_WAIT ep else (Inr (), ep, [])
   | EP_STATE_FIN_WAIT_1 \<Rightarrow>
       if has_flag flags FlagAck then (Inr (), ep\<lparr>ep_state := EP_STATE_FIN_WAIT_2\<rparr>, [])
       else if has_flag flags FlagFin then send_then socket FlagAck EP_STATE_CLOSING ep
       else (Inr (), ep, [])
   | EP_STATE_FIN_WAIT_2 \<Rightarrow>
       if has_flag flags FlagFin then send_then socket FlagAck EP_STATE_TIME_WAIT ep else (Inr (), ep, [])
   | EP_STATE_CLOSE_WAIT \<Rightarrow> (Inr (), ep, [])
   | EP_STATE_CLOSING \<Rightarrow>
       if has_flag flags FlagAck then (Inr (), ep\<lparr>ep_state := EP_STATE_TIME_WAIT\<rparr>, []) else (Inr (), ep, [])
   | EP_STATE_LAST_ACK \<Rightarrow>
       if has_flag flags FlagAck then (Inr (), ep\<lparr>ep_state := EP_STATE_CLOSED\<rparr>, []) else (Inr (), ep, [])
   | EP_STATE_TIME_WAIT \<Rightarrow> (Inr (), ep, [])
   | EP_STATE_CLOSED \<Rightarrow> (Inr (), ep, []))"

section \<open>Receiving\<close>

text \<open>The number of payload bytes goes into the field of the endpoint as soon as it is read, before the count is checked.\<close>

definition unpackHeader :: "socket \<Rightarrow> bytes \<Rightarrow> endpoint \<Rightarrow> (16 word \<times> 16 word \<times> 64 word) endpoint_result" where
  "unpackHeader socket header ep =
     (if length header < 20 then (Inl OtherException, ep, [])
      else if rd32 header 0 \<noteq> PacketHeaderWord then (Inl OtherException, ep, [])
      else
        let flags = rd16 header 2; ptype = rd16 header 3; recvPacketCount = rd16 header 5;
            index = ucast (rd32 header 4) OR push_bit 32 (ucast (rd32 header 3));
            ep1 = ep\<lparr>ep_bytesLeft := unat (rd16 header 4)\<rparr>;
            ep2 = (if has_flag flags FlagSyn then ep1\<lparr>ep_nextRecv := recvPacketCount\<rparr> else ep1) in
        if recvPacketCount \<noteq> ep_nextRecv ep2 then (Inl OtherException, ep2, [])
        else case handleState socket flags
               (ep2\<lparr>ep_nextRecv := recvPacketCount + 1, ep_lastType := ptype, ep_lastIndex := index\<rparr>) of
            (Inl e, ep3, out) \<Rightarrow> (Inl e, ep3, out)
          | (Inr u, ep3, out) \<Rightarrow> (Inr (flags, ptype, index), ep3, out))"

text \<open>Flow control after a receive.\<close>

definition flow_control :: "socket \<Rightarrow> 16 word \<Rightarrow> 64 word \<Rightarrow> endpoint \<Rightarrow> unit endpoint_result" where
  "flow_control socket flags index ep =
     (let ep1 = (if has_flag flags FlagFlo then ep\<lparr>ep_flowRecv := index\<rparr> else ep) in
      if ep_totalRecv ep1 > ep_flowSent ep1 + flowControlWindowBytes div 8 then
        (case ep_send socket FlagFlo 0 (ep_totalRecv ep1) [] ep1 of
           (Inl e, ep2, out) \<Rightarrow> (Inl e, ep2, out)
         | (Inr u, ep2, out) \<Rightarrow> (Inr u, ep2\<lparr>ep_flowSent := ep_totalRecv ep2\<rparr>, out))
      else (Inr (), ep1, []))"

text \<open>The header, or the type and index of the last packet when bytes of its payload are left. The result has the bytes that
  are left of the input, and the capacity of the buffer, which grows for every type but the buffer type.\<close>

definition recv_header :: "socket \<Rightarrow> nat \<Rightarrow> bytes \<Rightarrow> endpoint \<Rightarrow> (16 word \<times> 16 word \<times> 64 word \<times> nat) endpoint_result \<times> bytes" where
  "recv_header socket cap inp ep =
     (if ep_bytesLeft ep = 0 then
        (let header = take 20 inp; rest = drop 20 inp in
         if header = [] then ((Inl OtherException, ep, []), rest)
         else case unpackHeader socket header (ep\<lparr>ep_totalRecv := ep_totalRecv ep + of_nat (length header)\<rparr>) of
           (Inl e, ep', out) \<Rightarrow> ((Inl e, ep', out), rest)
         | (Inr (flags, ptype, index), ep', out) \<Rightarrow>
             ((Inr (flags, ptype, index, if ptype \<noteq> TypeBuffer \<and> cap < ep_bytesLeft ep' then ep_bytesLeft ep' else cap), ep', out), rest))
      else ((Inr (0, ep_lastType ep, ep_lastIndex ep, cap), ep, []), inp))"

text \<open>\<open>recv\<close>: nothing when the socket is not ready, else the flags, type, index and bytes of a piece of a packet.\<close>

type_synonym piece = "16 word \<times> 16 word \<times> 64 word \<times> bytes"

definition recv_payload :: "socket \<Rightarrow> 16 word \<Rightarrow> 16 word \<Rightarrow> 64 word \<Rightarrow> nat \<Rightarrow> bytes \<Rightarrow> bytes \<Rightarrow> endpoint \<Rightarrow> (piece option) endpoint_result \<times> bytes" where
  "recv_payload socket flags ptype index cap out inp ep =
     (let n = min cap (ep_bytesLeft ep); got = take n inp;
          ep1 = ep\<lparr>ep_totalRecv := ep_totalRecv ep + of_nat (length got)\<rparr> in
      if length inp < n then ((Inl OtherException, ep1, out), [])
      else case flow_control socket flags index (ep1\<lparr>ep_bytesLeft := ep_bytesLeft ep1 - n\<rparr>) of
          (Inl e, ep2, out') \<Rightarrow> ((Inl e, ep2, out @ out'), drop n inp)
        | (Inr u, ep2, out') \<Rightarrow> ((Inr (Some (flags, ptype, index, got)), ep2, out @ out'), drop n inp))"

definition ep_recv :: "socket \<Rightarrow> bool \<Rightarrow> nat \<Rightarrow> bytes \<Rightarrow> endpoint \<Rightarrow> (piece option) endpoint_result \<times> bytes" where
  "ep_recv socket ready cap inp ep =
     (if \<not> ready then ((Inr None, ep, []), inp)
      else case recv_header socket cap inp ep of
        ((Inl e, ep1, out), rest) \<Rightarrow> ((Inl e, ep1, out), rest)
      | ((Inr (flags, ptype, index, cap'), ep1, out), rest) \<Rightarrow> recv_payload socket flags ptype index cap' out rest ep1)"

section \<open>Opening and closing\<close>

text \<open>The receive loop of a handshake: it stops in one of the given states, or when the list of arrivals (the turns until the
  timeout) ends. The socket is ready when bytes have arrived. The buffer is used in all turns, and a receive sets its length
  to what it received.\<close>

fun recv_loop :: "socket \<Rightarrow> (EndpointState \<Rightarrow> bool) \<Rightarrow> nat \<Rightarrow> bytes list \<Rightarrow> bytes \<Rightarrow> endpoint \<Rightarrow> unit endpoint_result \<times> bytes" where
  "recv_loop socket stop cap [] inp ep = ((Inr (), ep, []), inp)"
| "recv_loop socket stop cap (a # arrivals) inp ep =
     (if stop (ep_state ep) then ((Inr (), ep, []), inp)
      else case ep_recv socket (inp @ a \<noteq> []) cap (inp @ a) ep of
        ((Inl e, ep', out), inp') \<Rightarrow> ((Inl e, ep', out), inp')
      | ((Inr p, ep', out), inp') \<Rightarrow>
          (let cap' = (case p of None \<Rightarrow> cap | Some (flags, ptype, index, got) \<Rightarrow> length got);
               ((r, ep'', out'), inp'') = recv_loop socket stop cap' arrivals inp' ep'
           in ((r, ep'', out @ out'), inp'')))"

definition open_start :: "socket \<Rightarrow> 16 word \<Rightarrow> endpoint \<Rightarrow> unit endpoint_result" where
  "open_start socket rand ep =
     (let ep1 = ep\<lparr>ep_lastSent := rand, ep_totalRecv := 0, ep_totalSent := 0, ep_flowRecv := 0, ep_flowSent := 0\<rparr> in
      if ep_state ep1 = EP_STATE_CLOSED then send_then socket FlagSyn EP_STATE_SYN_SENT ep1 else (Inr (), ep1, []))"

definition openComms :: "socket \<Rightarrow> 16 word \<Rightarrow> bytes list \<Rightarrow> endpoint \<Rightarrow> unit endpoint_result \<times> bytes" where
  "openComms socket rand arrivals ep = (case open_start socket rand ep of
     (Inl e, ep1, out) \<Rightarrow> ((Inl e, ep1, out), [])
   | (Inr u, ep1, out) \<Rightarrow>
       (case recv_loop socket (\<lambda>s. s = EP_STATE_ESTABLISHED \<or> s = EP_STATE_CLOSED) 1024 arrivals [] ep1 of
          ((Inl e, ep2, out2), inp) \<Rightarrow> ((Inl e, ep2, out @ out2), inp)
        | ((Inr v, ep2, out2), inp) \<Rightarrow>
            (if ep_state ep2 \<noteq> EP_STATE_ESTABLISHED
             then ((Inl OtherException, ep2\<lparr>ep_state := EP_STATE_CLOSED\<rparr>, out @ out2), inp)
             else ((Inr (), ep2, out @ out2), inp))))"

definition close_start :: "socket \<Rightarrow> endpoint \<Rightarrow> unit endpoint_result" where
  "close_start socket ep = (case ep_state ep of
     EP_STATE_ESTABLISHED \<Rightarrow> send_then socket FlagFin EP_STATE_FIN_WAIT_1 ep
   | EP_STATE_CLOSE_WAIT \<Rightarrow> send_then socket FlagFin EP_STATE_LAST_ACK ep
   | _ \<Rightarrow> (Inr (), ep\<lparr>ep_state := EP_STATE_CLOSED\<rparr>, []))"

definition closeComms :: "socket \<Rightarrow> bytes list \<Rightarrow> bytes \<Rightarrow> endpoint \<Rightarrow> unit endpoint_result \<times> bytes" where
  "closeComms socket arrivals inp ep =
     (if ep_state ep = EP_STATE_CLOSED then ((Inr (), ep, []), inp)
      else case close_start socket ep of
        (Inl e, ep1, out) \<Rightarrow> ((Inl e, ep1, out), inp)
      | (Inr u, ep1, out) \<Rightarrow>
          (case recv_loop socket (\<lambda>s. s = EP_STATE_CLOSED) 1024 arrivals inp ep1 of
             ((Inl e, ep2, out2), inp) \<Rightarrow> ((Inl e, ep2, out @ out2), inp)
           | ((Inr v, ep2, out2), inp) \<Rightarrow>
               (let ep3 = (if ep_state ep2 = EP_STATE_TIME_WAIT then ep2\<lparr>ep_state := EP_STATE_CLOSED\<rparr> else ep2) in
                if ep_state ep3 \<noteq> EP_STATE_CLOSED
                then ((Inl OtherException, ep3\<lparr>ep_state := EP_STATE_CLOSED\<rparr>, out @ out2), inp)
                else ((Inr (), ep3, out @ out2), inp))))"


section \<open>Reliable sockets\<close>

text \<open>The socket takes at least one byte of what is offered, and a header as a whole.\<close>

definition reliable :: "socket \<Rightarrow> bool" where
  "reliable socket \<longleftrightarrow> (\<forall>b. b \<noteq> [] \<longrightarrow> 0 < socket b \<and> socket b \<le> int (length b)) \<and> (\<forall>b. length b = 20 \<longrightarrow> socket b = 20)"

lemma header_length [simp]: "length (packet_header flags ptype n count index) = 20"
  by (simp add: packet_header_def)

lemma send_payload_whole:
  assumes "reliable socket"
  shows "send_payload socket buff ep = (Inr (), ep\<lparr>ep_totalSent := ep_totalSent ep + of_nat (length buff)\<rparr>, buff)"
proof (induction "length buff" arbitrary: buff ep rule: less_induct)
  case less
  show ?case
  proof (cases "buff = []")
    case True
    then show ?thesis by (subst send_payload.simps) simp
  next
    case False
    then have r: "0 < socket buff" "socket buff \<le> int (length buff)" using assms by (auto simp: reliable_def)
    define n where "n = nat (socket buff)"
    have n: "socket buff = int n" "0 < n" "n \<le> length buff" using r unfolding n_def by auto
    then have "length (drop n buff) < length buff" by simp
    note ih = less[OF this]
    have "of_nat n + of_nat (length buff - n) = (of_nat (length buff) :: 64 word)"
      using n(3) by (metis le_add_diff_inverse of_nat_add)
    then show ?thesis using False n by (subst send_payload.simps) (simp add: ih add.assoc)
  qed
qed

lemma ep_send_whole:
  assumes "reliable socket"
  shows "ep_send socket flags ptype index buff ep =
     (Inr (), ep\<lparr>ep_lastSent := ep_lastSent ep + 1, ep_totalSent := ep_totalSent ep + 20 + of_nat (length buff)\<rparr>,
      packet_header flags ptype (length buff) (ep_lastSent ep) index @ buff)"
proof -
  have "socket (packet_header flags ptype (length buff) (ep_lastSent ep) index) = 20"
    using assms by (simp add: reliable_def)
  then show ?thesis by (simp add: ep_send_def Let_def send_payload_whole[OF assms])
qed

section \<open>Packets on the wire\<close>

record wire =
  wi_flags :: "16 word"
  wi_type :: "16 word"
  wi_index :: "64 word"
  wi_count :: "16 word"
  wi_payload :: bytes

definition wire_bytes :: "wire \<Rightarrow> bytes" where
  "wire_bytes p = packet_header (wi_flags p) (wi_type p) (length (wi_payload p)) (wi_count p) (wi_index p) @ wi_payload p"

definition wire_ok :: "wire \<Rightarrow> bool" where
  "wire_ok p \<longleftrightarrow> length (wi_payload p) < 2 ^ 16"

text \<open>The counts of packets on their way from the next count of the receiver to the next count of the sender. A packet with
  the SYN flag sets the count.\<close>

fun in_sync :: "16 word \<Rightarrow> wire list \<Rightarrow> 16 word \<Rightarrow> bool" where
  "in_sync n [] m \<longleftrightarrow> n = m"
| "in_sync n (p # ps) m \<longleftrightarrow> (has_flag (wi_flags p) FlagSyn \<or> wi_count p = n) \<and> in_sync (wi_count p + 1) ps m"

lemma in_sync_append: "in_sync n ps k \<Longrightarrow> in_sync k qs m \<Longrightarrow> in_sync n (ps @ qs) m"
  by (induction ps arbitrary: n) auto

lemma header_fields:
  assumes "n < 2 ^ 16" "h = packet_header flags ptype n count index"
  shows "rd32 h 0 = PacketHeaderWord" "rd16 h 2 = flags" "rd16 h 3 = ptype" "unat (rd16 h 4) = n" "rd16 h 5 = count"
    and "ucast (rd32 h 4) OR push_bit 32 (ucast (rd32 h 3)) = index"
proof -
  let ?w = "be32 PacketHeaderWord" and ?f = "be16 flags" and ?t = "be16 ptype" and ?n = "be16 (of_nat n)" and ?c = "be16 count"
  let ?hi = "be32 (ucast (drop_bit 32 index))" and ?lo = "be32 (ucast index)"
  have h: "h = ?w @ ?f @ ?t @ ?n @ ?c @ ?hi @ ?lo" unfolding assms(2) packet_header_def ..
  show "rd32 h 0 = PacketHeaderWord" unfolding h using rd32_be32[of "[]" 0] by simp
  show "rd16 h 2 = flags" unfolding h using rd16_be16[of ?w 2 flags] by simp
  show "rd16 h 3 = ptype" unfolding h using rd16_be16[of "?w @ ?f" 3 ptype] by simp
  have "rd16 h 4 = of_nat n" unfolding h using rd16_be16[of "?w @ ?f @ ?t" 4 "of_nat n"] by simp
  then show "unat (rd16 h 4) = n" using assms(1) by (simp add: unsigned_of_nat take_bit_nat_eq_self)
  show "rd16 h 5 = count" unfolding h using rd16_be16[of "?w @ ?f @ ?t @ ?n" 5 count] by simp
  have "rd32 h 3 = ucast (drop_bit 32 index)" unfolding h using rd32_be32[of "?w @ ?f @ ?t @ ?n @ ?c" 3] by simp
  moreover have "rd32 h 4 = ucast index" unfolding h using rd32_be32[of "?w @ ?f @ ?t @ ?n @ ?c @ ?hi" 4 "ucast index" "[]"] by simp
  ultimately show "ucast (rd32 h 4) OR push_bit 32 (ucast (rd32 h 3)) = index" by (simp only:) (subst or.commute, rule join_64)
qed


section \<open>Replies\<close>

fun exact :: "16 word \<Rightarrow> wire list \<Rightarrow> 16 word \<Rightarrow> bool" where
  "exact n [] m \<longleftrightarrow> n = m"
| "exact n (p # ps) m \<longleftrightarrow> wi_count p = n \<and> exact (n + 1) ps m"

lemma exact_append: "exact n ps k \<Longrightarrow> exact k qs m \<Longrightarrow> exact n (ps @ qs) m"
  by (induction ps arbitrary: n) auto

lemma exact_in_sync: "exact n ps m \<Longrightarrow> in_sync n ps m"
  by (induction ps arbitrary: n) auto

text \<open>What an endpoint sends while it receives: packets without payload, with consecutive counts; the fields that track the
  incoming stream stay.\<close>

definition replies :: "endpoint \<Rightarrow> endpoint \<Rightarrow> bytes \<Rightarrow> wire list \<Rightarrow> bool" where
  "replies ep ep' out qs \<longleftrightarrow> out = concat (map wire_bytes qs) \<and> list_all (\<lambda>q. wi_payload q = []) qs \<and>
     exact (ep_lastSent ep) qs (ep_lastSent ep') \<and> ep_nextRecv ep' = ep_nextRecv ep \<and> ep_bytesLeft ep' = ep_bytesLeft ep \<and>
     ep_lastType ep' = ep_lastType ep \<and> ep_lastIndex ep' = ep_lastIndex ep \<and> ep_totalRecv ep' = ep_totalRecv ep"

lemma replies_none: "ep_lastSent ep' = ep_lastSent ep \<Longrightarrow> ep_nextRecv ep' = ep_nextRecv ep \<Longrightarrow> ep_bytesLeft ep' = ep_bytesLeft ep \<Longrightarrow>
     ep_lastType ep' = ep_lastType ep \<Longrightarrow> ep_lastIndex ep' = ep_lastIndex ep \<Longrightarrow> ep_totalRecv ep' = ep_totalRecv ep \<Longrightarrow> replies ep ep' [] []"
  by (simp add: replies_def)

lemma replies_trans: "replies a b out qs \<Longrightarrow> replies b c out' qs' \<Longrightarrow> replies a c (out @ out') (qs @ qs')"
  by (auto simp: replies_def exact_append)

definition flag_wire :: "16 word \<Rightarrow> 64 word \<Rightarrow> endpoint \<Rightarrow> wire" where
  "flag_wire flags index ep = \<lparr>wi_flags = flags, wi_type = 0, wi_index = index, wi_count = ep_lastSent ep, wi_payload = []\<rparr>"

lemma send_flag_replies:
  assumes "reliable socket"
  shows "\<exists>ep'. ep_send socket flags 0 index [] ep = (Inr (), ep', wire_bytes (flag_wire flags index ep)) \<and>
     replies ep ep' (wire_bytes (flag_wire flags index ep)) [flag_wire flags index ep] \<and> ep_state ep' = ep_state ep \<and>
     ep_flowSent ep' = ep_flowSent ep"
  by (simp add: ep_send_whole[OF assms] wire_bytes_def flag_wire_def replies_def)

lemma send_then_replies:
  assumes "reliable socket"
  shows "\<exists>ep'. send_then socket flags s ep = (Inr (), ep', wire_bytes (flag_wire flags 0 ep)) \<and>
     replies ep ep' (wire_bytes (flag_wire flags 0 ep)) [flag_wire flags 0 ep] \<and> ep_state ep' = s \<and> ep_flowSent ep' = ep_flowSent ep"
  by (simp add: send_then_def send_flags_def ep_send_whole[OF assms] wire_bytes_def flag_wire_def replies_def)

definition quiet :: "endpoint \<Rightarrow> unit endpoint_result \<Rightarrow> bool" where
  "quiet ep r \<longleftrightarrow> (\<exists>ep' out qs. r = (Inr (), ep', out) \<and> replies ep ep' out qs \<and> ep_flowSent ep' = ep_flowSent ep)"

lemma quiet_then: "reliable socket \<Longrightarrow> quiet ep (send_then socket flags s ep)"
  unfolding quiet_def using send_then_replies by blast

lemma quiet_self: "replies ep ep' [] [] \<Longrightarrow> ep_flowSent ep' = ep_flowSent ep \<Longrightarrow> quiet ep (Inr (), ep', [])"
  unfolding quiet_def by blast

lemma quiet_state: "quiet ep (Inr (), ep\<lparr>ep_state := s\<rparr>, [])" "quiet ep (Inr (), ep, [])"
  by (auto intro!: quiet_self replies_none)

lemma handleState_quiet: "reliable socket \<Longrightarrow> quiet ep (handleState socket flags ep)"
  by (cases "ep_state ep") (simp_all add: handleState_def quiet_then quiet_state)

lemma flow_replies:
  assumes "reliable socket"
  shows "\<exists>ep' out qs. flow_control socket flags index ep = (Inr (), ep', out) \<and> replies ep ep' out qs"
proof -
  let ?ep1 = "if has_flag flags FlagFlo then ep\<lparr>ep_flowRecv := index\<rparr> else ep"
  have e: "replies ep ?ep1 [] []" by (simp add: replies_none)
  show ?thesis
  proof (cases "ep_totalRecv ?ep1 > ep_flowSent ?ep1 + flowControlWindowBytes div 8")
    case True
    obtain ep2 where s: "ep_send socket FlagFlo 0 (ep_totalRecv ?ep1) [] ?ep1 = (Inr (), ep2, wire_bytes (flag_wire FlagFlo (ep_totalRecv ?ep1) ?ep1))"
      "replies ?ep1 ep2 (wire_bytes (flag_wire FlagFlo (ep_totalRecv ?ep1) ?ep1)) [flag_wire FlagFlo (ep_totalRecv ?ep1) ?ep1]"
      using send_flag_replies[OF assms, of FlagFlo "ep_totalRecv ?ep1" ?ep1] by blast
    have "replies ep (ep2\<lparr>ep_flowSent := ep_totalRecv ep2\<rparr>) (wire_bytes (flag_wire FlagFlo (ep_totalRecv ?ep1) ?ep1))
        [flag_wire FlagFlo (ep_totalRecv ?ep1) ?ep1]"
      using replies_trans[OF e s(2)] by (simp add: replies_def)
    then show ?thesis using True s(1) unfolding flow_control_def Let_def by (simp only: if_True prod.case sum.case) blast
  next
    case False
    then show ?thesis using e unfolding flow_control_def Let_def by (simp only: if_False) blast
  qed
qed


section \<open>One direction of a link\<close>

text \<open>The bytes of payloads with the type and index of their packet.\<close>

type_synonym tagged_byte = "16 word \<times> 64 word \<times> 8 word"

definition tagged :: "16 word \<Rightarrow> 64 word \<Rightarrow> bytes \<Rightarrow> tagged_byte list" where
  "tagged t i bs = map (\<lambda>b. (t, i, b)) bs"

definition wire_tags :: "wire \<Rightarrow> tagged_byte list" where
  "wire_tags p = tagged (wi_type p) (wi_index p) (wi_payload p)"

lemma tagged_append: "tagged t i (a @ b) = tagged t i a @ tagged t i b"
  by (simp add: tagged_def)

text \<open>The input of an endpoint is the rest of a payload and whole packets, in sync with the next count \<open>m\<close> of the sender, and
  holds the bytes \<open>ts\<close>.\<close>

definition incoming :: "endpoint \<Rightarrow> bytes \<Rightarrow> 16 word \<Rightarrow> tagged_byte list \<Rightarrow> bool" where
  "incoming ep inp m ts \<longleftrightarrow> (\<exists>rest ps. inp = rest @ concat (map wire_bytes ps) \<and> length rest = ep_bytesLeft ep \<and>
     list_all wire_ok ps \<and> in_sync (ep_nextRecv ep) ps m \<and>
     ts = tagged (ep_lastType ep) (ep_lastIndex ep) rest @ concat (map wire_tags ps))"

lemma incoming_append:
  assumes "incoming ep inp m ts" "in_sync m qs m'" "list_all wire_ok qs"
  shows "incoming ep (inp @ concat (map wire_bytes qs)) m' (ts @ concat (map wire_tags qs))"
proof -
  obtain rest ps where "inp = rest @ concat (map wire_bytes ps)" "length rest = ep_bytesLeft ep" "list_all wire_ok ps"
    "in_sync (ep_nextRecv ep) ps m" "ts = tagged (ep_lastType ep) (ep_lastIndex ep) rest @ concat (map wire_tags ps)"
    using assms(1) unfolding incoming_def by blast
  then show ?thesis
    unfolding incoming_def using assms(2,3) in_sync_append by (intro exI[of _ rest] exI[of _ "ps @ qs"]) auto
qed

lemma recv_payload_incoming:
  assumes "reliable socket" "inp = r @ concat (map wire_bytes ps)" "length r = ep_bytesLeft ep" "list_all wire_ok ps"
    and "in_sync (ep_nextRecv ep) ps m"
  shows "\<exists>got ep' out' qs inp'. recv_payload socket flags (ep_lastType ep) (ep_lastIndex ep) cap out inp ep =
       ((Inr (Some (flags, ep_lastType ep, ep_lastIndex ep, got)), ep', out @ out'), inp') \<and>
     incoming ep' inp' m (tagged (ep_lastType ep) (ep_lastIndex ep) (drop (length got) r) @ concat (map wire_tags ps)) \<and>
     got = take (length got) r \<and> out' = concat (map wire_bytes qs) \<and> list_all (\<lambda>q. wi_payload q = []) qs \<and>
     exact (ep_lastSent ep) qs (ep_lastSent ep')"
proof -
  define n where "n = min cap (ep_bytesLeft ep)"
  define ep1 where "ep1 = ep\<lparr>ep_totalRecv := ep_totalRecv ep + of_nat (length (take n inp)), ep_bytesLeft := ep_bytesLeft ep - n\<rparr>"
  obtain ep2 out' qs where f: "flow_control socket flags (ep_lastIndex ep) ep1 = (Inr (), ep2, out')" "replies ep1 ep2 out' qs"
    using flow_replies[OF assms(1)] by blast
  have n: "n \<le> length r" unfolding n_def using assms(3) by simp
  then have got: "take n inp = take n r" and rest: "drop n inp = drop n r @ concat (map wire_bytes ps)" and len: "\<not> length inp < n"
    unfolding assms(2) by simp_all
  have "recv_payload socket flags (ep_lastType ep) (ep_lastIndex ep) cap out inp ep =
      ((Inr (Some (flags, ep_lastType ep, ep_lastIndex ep, take n r)), ep2, out @ out'), drop n inp)"
    using f(1) len got unfolding recv_payload_def Let_def n_def[symmetric] ep1_def by simp
  moreover have "incoming ep2 (drop n inp) m (tagged (ep_lastType ep) (ep_lastIndex ep) (drop n r) @ concat (map wire_tags ps))"
    unfolding incoming_def using f(2) assms(3-5) n rest
    by (intro exI[of _ "drop n r"] exI[of _ ps]) (auto simp: replies_def ep1_def)
  moreover have "out' = concat (map wire_bytes qs)" "list_all (\<lambda>q. wi_payload q = []) qs" "exact (ep_lastSent ep) qs (ep_lastSent ep2)"
    using f(2) by (auto simp: replies_def ep1_def)
  ultimately show ?thesis using n by (intro exI[of _ "take n r"] exI[of _ ep2] exI[of _ out'] exI[of _ qs] exI[of _ "drop n inp"]) simp
qed


lemma recv_header_new:
  assumes "reliable socket" "inp = concat (map wire_bytes (p # ps))" "ep_bytesLeft ep = 0" "wire_ok p"
    and "has_flag (wi_flags p) FlagSyn \<or> wi_count p = ep_nextRecv ep"
  shows "\<exists>ep' out qs cap'. recv_header socket cap inp ep =
       ((Inr (wi_flags p, wi_type p, wi_index p, cap'), ep', out), wi_payload p @ concat (map wire_bytes ps)) \<and>
     ep_bytesLeft ep' = length (wi_payload p) \<and> ep_nextRecv ep' = wi_count p + 1 \<and> ep_lastType ep' = wi_type p \<and>
     ep_lastIndex ep' = wi_index p \<and> out = concat (map wire_bytes qs) \<and> list_all (\<lambda>q. wi_payload q = []) qs \<and>
     exact (ep_lastSent ep) qs (ep_lastSent ep')"
proof -
  let ?h = "packet_header (wi_flags p) (wi_type p) (length (wi_payload p)) (wi_count p) (wi_index p)"
  have h: "take 20 inp = ?h" "drop 20 inp = wi_payload p @ concat (map wire_bytes ps)"
    unfolding assms(2) by (simp_all add: wire_bytes_def)
  have ne: "?h \<noteq> []" using header_length[of "wi_flags p" "wi_type p" "length (wi_payload p)" "wi_count p" "wi_index p"]
    by (metis list.size(3) zero_neq_numeral)
  note f = header_fields[of "length (wi_payload p)" ?h "wi_flags p" "wi_type p" "wi_count p" "wi_index p", OF _ refl]
  have len: "length (wi_payload p) < 2 ^ 16" using assms(4) by (simp add: wire_ok_def)
  define ep1 where "ep1 = ep\<lparr>ep_totalRecv := ep_totalRecv ep + of_nat 20, ep_bytesLeft := length (wi_payload p),
     ep_nextRecv := wi_count p + 1, ep_lastType := wi_type p, ep_lastIndex := wi_index p\<rparr>"
  obtain ep2 out qs where s: "handleState socket (wi_flags p) ep1 = (Inr (), ep2, out)" "replies ep1 ep2 out qs"
    using handleState_quiet[OF assms(1), of ep1 "wi_flags p"] unfolding quiet_def by blast
  have "unpackHeader socket ?h (ep\<lparr>ep_totalRecv := ep_totalRecv ep + of_nat 20\<rparr>) = (Inr (wi_flags p, wi_type p, wi_index p), ep2, out)"
    using assms(5) s(1) unfolding unpackHeader_def Let_def header_length f[OF len]
    by (cases "has_flag (wi_flags p) FlagSyn") (simp_all add: ep1_def)
  then have "recv_header socket cap inp ep =
      ((Inr (wi_flags p, wi_type p, wi_index p, if wi_type p \<noteq> TypeBuffer \<and> cap < ep_bytesLeft ep2 then ep_bytesLeft ep2 else cap), ep2, out),
       wi_payload p @ concat (map wire_bytes ps))"
    unfolding recv_header_def Let_def h header_length using assms(3) ne by simp
  then show ?thesis
    using s(2) by (intro exI[of _ ep2] exI[of _ out] exI[of _ qs]) (auto simp: replies_def ep1_def)
qed

lemma ep_recv_incoming:
  assumes "reliable socket" "incoming ep inp m ts" "inp \<noteq> []"
  shows "\<exists>flags t i got ep' out qs inp' ts'. ep_recv socket True cap inp ep = ((Inr (Some (flags, t, i, got)), ep', out), inp') \<and>
     incoming ep' inp' m ts' \<and> ts = tagged t i got @ ts' \<and> out = concat (map wire_bytes qs) \<and>
     list_all (\<lambda>q. wi_payload q = []) qs \<and> exact (ep_lastSent ep) qs (ep_lastSent ep')"
proof -
  obtain rest ps where inc: "inp = rest @ concat (map wire_bytes ps)" "length rest = ep_bytesLeft ep" "list_all wire_ok ps"
    "in_sync (ep_nextRecv ep) ps m" "ts = tagged (ep_lastType ep) (ep_lastIndex ep) rest @ concat (map wire_tags ps)"
    using assms(2) unfolding incoming_def by blast
  show ?thesis
  proof (cases "ep_bytesLeft ep = 0")
    case False
    obtain got ep' out' qs inp' where r: "recv_payload socket 0 (ep_lastType ep) (ep_lastIndex ep) cap [] inp ep =
         ((Inr (Some (0, ep_lastType ep, ep_lastIndex ep, got)), ep', [] @ out'), inp')"
      "incoming ep' inp' m (tagged (ep_lastType ep) (ep_lastIndex ep) (drop (length got) rest) @ concat (map wire_tags ps))"
      "got = take (length got) rest" "out' = concat (map wire_bytes qs)" "list_all (\<lambda>q. wi_payload q = []) qs"
      "exact (ep_lastSent ep) qs (ep_lastSent ep')"
      using recv_payload_incoming[OF assms(1) inc(1-4), of 0 cap "[]"] by blast
    have "ts = tagged (ep_lastType ep) (ep_lastIndex ep) got @
        tagged (ep_lastType ep) (ep_lastIndex ep) (drop (length got) rest) @ concat (map wire_tags ps)"
      unfolding inc(5) using r(3) tagged_append by (metis append.assoc append_take_drop_id)
    moreover have "ep_recv socket True cap inp ep = ((Inr (Some (0, ep_lastType ep, ep_lastIndex ep, got)), ep', out'), inp')"
      using False r(1) by (simp add: ep_recv_def recv_header_def)
    ultimately show ?thesis using r(2,4-6) by blast
  next
    case True
    then have rest: "rest = []" using inc(2) by simp
    then obtain p ps' where ps: "ps = p # ps'" using inc(1) assms(3) by (cases ps) auto
    have inp: "inp = concat (map wire_bytes (p # ps'))" using inc(1) rest ps by simp
    have p: "wire_ok p" "has_flag (wi_flags p) FlagSyn \<or> wi_count p = ep_nextRecv ep" "in_sync (wi_count p + 1) ps' m" "list_all wire_ok ps'"
      using inc(3,4) unfolding ps by auto
    obtain ep1 out1 qs1 cap1 where h: "recv_header socket cap inp ep =
         ((Inr (wi_flags p, wi_type p, wi_index p, cap1), ep1, out1), wi_payload p @ concat (map wire_bytes ps'))"
      and e1: "ep_bytesLeft ep1 = length (wi_payload p)" "ep_nextRecv ep1 = wi_count p + 1" "ep_lastType ep1 = wi_type p"
        "ep_lastIndex ep1 = wi_index p" and o1: "out1 = concat (map wire_bytes qs1)" "list_all (\<lambda>q. wi_payload q = []) qs1"
        "exact (ep_lastSent ep) qs1 (ep_lastSent ep1)"
      using recv_header_new[OF assms(1) inp True p(1,2), of cap] by blast
    obtain got ep2 out2 qs2 inp' where r: "recv_payload socket (wi_flags p) (ep_lastType ep1) (ep_lastIndex ep1) cap1 out1
           (wi_payload p @ concat (map wire_bytes ps')) ep1 =
         ((Inr (Some (wi_flags p, ep_lastType ep1, ep_lastIndex ep1, got)), ep2, out1 @ out2), inp')"
      "incoming ep2 inp' m (tagged (ep_lastType ep1) (ep_lastIndex ep1) (drop (length got) (wi_payload p)) @ concat (map wire_tags ps'))"
      "got = take (length got) (wi_payload p)" "out2 = concat (map wire_bytes qs2)" "list_all (\<lambda>q. wi_payload q = []) qs2"
      "exact (ep_lastSent ep1) qs2 (ep_lastSent ep2)"
      using recv_payload_incoming[OF assms(1) refl _ p(4), of "wi_payload p" ep1 m "wi_flags p" cap1 out1] e1 p(3) by metis
    have "ts = tagged (wi_type p) (wi_index p) got @
        tagged (wi_type p) (wi_index p) (drop (length got) (wi_payload p)) @ concat (map wire_tags ps')"
      unfolding inc(5) rest ps using r(3) by (simp add: wire_tags_def tagged_def) (metis append_take_drop_id map_append)
    moreover have "ep_recv socket True cap inp ep = ((Inr (Some (wi_flags p, wi_type p, wi_index p, got)), ep2, out1 @ out2), inp')"
      using h r(1) unfolding ep_recv_def by (simp add: e1)
    moreover have "out1 @ out2 = concat (map wire_bytes (qs1 @ qs2))" "list_all (\<lambda>q. wi_payload q = []) (qs1 @ qs2)"
      "exact (ep_lastSent ep) (qs1 @ qs2) (ep_lastSent ep2)"
      using o1 r(4-6) exact_append by auto
    ultimately show ?thesis using r(2) e1 by metis
  qed
qed


section \<open>Two endpoints\<close>

text \<open>A peer has the arrived bytes, the bytes of payloads that it sent and received (with type and index), and whether it has
  sent anything. Its actions are the start of opening, the sending of a packet when it is ready, a receive when bytes have
  arrived, and the start of closing; the loops of opening and closing are sequences of receives.\<close>

record peer =
  pr_ep :: endpoint
  pr_in :: bytes
  pr_sent :: "tagged_byte list"
  pr_got :: "tagged_byte list"
  pr_talked :: bool

datatype action = DoOpen "16 word" | DoSend "16 word" "64 word" bytes | DoRecv nat | DoClose

text \<open>When an action is taken. An endpoint is opened before it has sent anything, and closed when it is established or waits to
  close. A send is made where \<open>isReady\<close> says so, as the sink does, and has fewer than \<open>2 ^ 16\<close> bytes of payload: the header has
  16 bits for their number, and the code does not check it (\<open>oversized_payload\<close>). A receive is made where bytes have
  arrived, into a buffer of any capacity; the bytes of one action arrive together, so that a header is there as a whole.\<close>

fun allowed :: "action \<Rightarrow> peer \<Rightarrow> bool" where
  "allowed (DoOpen r) p = (\<not> pr_talked p)"
| "allowed (DoSend t i b) p = (ep_isReady (pr_ep p) \<and> length b < 2 ^ 16)"
| "allowed (DoRecv cap) p = (pr_in p \<noteq> [])"
| "allowed DoClose p = (ep_state (pr_ep p) = EP_STATE_ESTABLISHED \<or> ep_state (pr_ep p) = EP_STATE_CLOSE_WAIT)"

fun perform :: "socket \<Rightarrow> action \<Rightarrow> peer \<Rightarrow> bool \<times> peer \<times> bytes" where
  "perform socket (DoOpen r) p = (let (res, ep, out) = open_start socket r (pr_ep p)
     in (\<not> isl res, p\<lparr>pr_ep := ep, pr_talked := pr_talked p \<or> out \<noteq> []\<rparr>, out))"
| "perform socket (DoSend t i b) p = (let (res, ep, out) = ep_send socket FlagPsh t i b (pr_ep p)
     in (\<not> isl res, p\<lparr>pr_ep := ep, pr_sent := pr_sent p @ tagged t i b, pr_talked := pr_talked p \<or> out \<noteq> []\<rparr>, out))"
| "perform socket (DoRecv cap) p = (let ((res, ep, out), inp) = ep_recv socket True cap (pr_in p) (pr_ep p);
       got = (case res of Inr (Some (flags, t, i, b)) \<Rightarrow> tagged t i b | _ \<Rightarrow> [])
     in (\<not> isl res, p\<lparr>pr_ep := ep, pr_in := inp, pr_got := pr_got p @ got, pr_talked := pr_talked p \<or> out \<noteq> []\<rparr>, out))"
| "perform socket DoClose p = (let (res, ep, out) = close_start socket (pr_ep p)
     in (\<not> isl res, p\<lparr>pr_ep := ep, pr_talked := pr_talked p \<or> out \<noteq> []\<rparr>, out))"

record link =
  ln_a :: peer
  ln_b :: peer
  ln_failed :: bool

definition arrive :: "bytes \<Rightarrow> peer \<Rightarrow> peer" where
  "arrive out p = p\<lparr>pr_in := pr_in p @ out\<rparr>"

inductive link_step :: "socket \<Rightarrow> link \<Rightarrow> link \<Rightarrow> bool" for socket where
  step_a: "allowed act (ln_a l) \<Longrightarrow> perform socket act (ln_a l) = (ok, a', out) \<Longrightarrow>
     link_step socket l \<lparr>ln_a = a', ln_b = arrive out (ln_b l), ln_failed = (ln_failed l \<or> \<not> ok)\<rparr>"
| step_b: "allowed act (ln_b l) \<Longrightarrow> perform socket act (ln_b l) = (ok, b', out) \<Longrightarrow>
     link_step socket l \<lparr>ln_a = arrive out (ln_a l), ln_b = b', ln_failed = (ln_failed l \<or> \<not> ok)\<rparr>"

definition peer_new :: "EndpointState \<Rightarrow> peer" where
  "peer_new s = \<lparr>pr_ep = ep_new s, pr_in = [], pr_sent = [], pr_got = [], pr_talked = False\<rparr>"

definition link_start :: link where
  "link_start = \<lparr>ln_a = peer_new EP_STATE_CLOSED, ln_b = peer_new EP_STATE_LISTEN, ln_failed = False\<rparr>"

section \<open>The link stays in sync\<close>

definition dir_ok :: "peer \<Rightarrow> peer \<Rightarrow> bool" where
  "dir_ok x y \<longleftrightarrow> (if pr_talked x
     then \<exists>ts. incoming (pr_ep y) (pr_in y) (ep_lastSent (pr_ep x)) ts \<and> pr_sent x = pr_got y @ ts
     else pr_in y = [] \<and> ep_bytesLeft (pr_ep y) = 0 \<and> pr_sent x = [] \<and> pr_got y = [])"

definition phase_ok :: "peer \<Rightarrow> peer \<Rightarrow> bool" where
  "phase_ok a b \<longleftrightarrow>
     (\<not> pr_talked a \<longrightarrow> \<not> pr_talked b \<and> ep_state (pr_ep a) = EP_STATE_CLOSED) \<and>
     (\<not> pr_talked b \<longrightarrow> ep_state (pr_ep b) = EP_STATE_LISTEN \<and> ep_totalRecv (pr_ep b) = 0 \<and> ep_flowSent (pr_ep b) = 0 \<and>
        (pr_talked a \<longrightarrow> ep_state (pr_ep a) = EP_STATE_SYN_SENT \<and> ep_bytesLeft (pr_ep b) = 0 \<and>
           (\<exists>p. pr_in b = wire_bytes p \<and> has_flag (wi_flags p) FlagSyn \<and> wi_payload p = [])))"

definition link_ok :: "link \<Rightarrow> bool" where
  "link_ok l \<longleftrightarrow> \<not> ln_failed l \<and> dir_ok (ln_a l) (ln_b l) \<and> dir_ok (ln_b l) (ln_a l) \<and> phase_ok (ln_a l) (ln_b l)"

text \<open>What an endpoint receives depends on these fields only.\<close>

lemma incoming_cong:
  "ep_nextRecv ep' = ep_nextRecv ep \<Longrightarrow> ep_bytesLeft ep' = ep_bytesLeft ep \<Longrightarrow> ep_lastType ep' = ep_lastType ep \<Longrightarrow>
   ep_lastIndex ep' = ep_lastIndex ep \<Longrightarrow> incoming ep' inp m ts = incoming ep inp m ts"
  by (simp add: incoming_def)

lemma incoming_send:
  assumes "incoming ep inp m ts" "wi_count w = m" "wire_ok w"
  shows "incoming ep (inp @ wire_bytes w) (m + 1) (ts @ wire_tags w)"
  using incoming_append[OF assms(1), of "[w]" "m + 1"] assms(2,3) by simp

lemma incoming_first:
  assumes "ep_bytesLeft ep = 0" "has_flag (wi_flags w) FlagSyn" "wire_ok w" "wi_payload w = []"
  shows "incoming ep (wire_bytes w) (wi_count w + 1) []"
  unfolding incoming_def using assms by (intro exI[of _ "[]"] exI[of _ "[w]"]) (simp add: tagged_def wire_tags_def)

lemma wire_nonempty [simp]: "wire_bytes w \<noteq> []"
proof -
  have "length (wire_bytes w) \<ge> 20" by (simp add: wire_bytes_def)
  then show ?thesis by auto
qed

lemma empty_wires: "list_all (\<lambda>q. wi_payload q = []) qs \<Longrightarrow> list_all wire_ok qs \<and> concat (map wire_tags qs) = []"
  by (induction qs) (auto simp: wire_ok_def wire_tags_def tagged_def)

lemma syn_flags: "has_flag FlagSyn FlagSyn" "has_flag (FlagSyn OR FlagAck) FlagSyn"
  by (simp_all add: has_flag_def FlagSyn_def FlagAck_def)


lemma send_keeps:
  assumes "pr_talked x" "pr_talked y" "dir_ok x y" "dir_ok y x" "wire_ok w" "wi_count w = ep_lastSent (pr_ep x)"
    and "ep_lastSent ep' = ep_lastSent (pr_ep x) + 1" "ep_nextRecv ep' = ep_nextRecv (pr_ep x)" "ep_bytesLeft ep' = ep_bytesLeft (pr_ep x)"
    and "ep_lastType ep' = ep_lastType (pr_ep x)" "ep_lastIndex ep' = ep_lastIndex (pr_ep x)"
    and "x' = x\<lparr>pr_ep := ep', pr_sent := pr_sent x @ wire_tags w, pr_talked := True\<rparr>"
  shows "dir_ok x' (arrive (wire_bytes w) y) \<and> dir_ok (arrive (wire_bytes w) y) x'"
proof -
  obtain ts where ts: "incoming (pr_ep y) (pr_in y) (ep_lastSent (pr_ep x)) ts" "pr_sent x = pr_got y @ ts"
    using assms(1,3) by (auto simp: dir_ok_def)
  have "incoming (pr_ep y) (pr_in y @ wire_bytes w) (ep_lastSent ep') (ts @ wire_tags w)"
    using incoming_send[OF ts(1) assms(6,5)] assms(7) by simp
  moreover have "\<exists>us. incoming ep' (pr_in x) (ep_lastSent (pr_ep y)) us \<and> pr_sent y = pr_got x @ us"
    using assms(2,4) incoming_cong[OF assms(8-11)] by (simp add: dir_ok_def)
  ultimately show ?thesis using assms(2,12) ts(2) by (auto simp: dir_ok_def arrive_def)
qed

lemma recv_keeps:
  assumes "reliable socket" "pr_talked x" "pr_talked y" "dir_ok x y" "dir_ok y x" "pr_in x \<noteq> []"
    and "perform socket (DoRecv cap) x = (ok, x', out)"
  shows "ok \<and> pr_talked x' \<and> dir_ok x' (arrive out y) \<and> dir_ok (arrive out y) x'"
proof -
  obtain ts where ts: "incoming (pr_ep y) (pr_in y) (ep_lastSent (pr_ep x)) ts" "pr_sent x = pr_got y @ ts"
    using assms(2,4) by (auto simp: dir_ok_def)
  obtain us where us: "incoming (pr_ep x) (pr_in x) (ep_lastSent (pr_ep y)) us" "pr_sent y = pr_got x @ us"
    using assms(3,5) by (auto simp: dir_ok_def)
  obtain flags t i got ep' out' qs inp' us' where r:
      "ep_recv socket True cap (pr_in x) (pr_ep x) = ((Inr (Some (flags, t, i, got)), ep', out'), inp')"
      "incoming ep' inp' (ep_lastSent (pr_ep y)) us'" "us = tagged t i got @ us'" "out' = concat (map wire_bytes qs)"
      "list_all (\<lambda>q. wi_payload q = []) qs" "exact (ep_lastSent (pr_ep x)) qs (ep_lastSent ep')"
    using ep_recv_incoming[OF assms(1) us(1) assms(6), of cap] by blast
  have x': "ok" "out = out'" "x' = x\<lparr>pr_ep := ep', pr_in := inp', pr_got := pr_got x @ tagged t i got, pr_talked := True\<rparr>"
    using assms(2,7) r(1) by auto
  have "incoming (pr_ep y) (pr_in y @ out) (ep_lastSent ep') ts"
    using incoming_append[OF ts(1) exact_in_sync[OF r(6)]] empty_wires[OF r(5)] x'(2) r(4) by simp
  then show ?thesis using x' assms(3) ts(2) us(2) r(2,3) by (auto simp: dir_ok_def arrive_def)
qed

lemma act_talked:
  assumes "reliable socket" "pr_talked x" "pr_talked y" "dir_ok x y" "dir_ok y x" "allowed act x"
    and "perform socket act x = (ok, x', out)"
  shows "ok \<and> pr_talked x' \<and> dir_ok x' (arrive out y) \<and> dir_ok (arrive out y) x'"
proof (cases act)
  case (DoOpen r)
  then show ?thesis using assms(2,6) by simp
next
  case (DoRecv cap)
  then have "pr_in x \<noteq> []" using assms(6) by simp
  from recv_keeps[OF assms(1-5) this assms(7)[unfolded DoRecv]] show ?thesis .
next
  case (DoSend t i b)
  define w where "w = \<lparr>wi_flags = FlagPsh, wi_type = t, wi_index = i, wi_count = ep_lastSent (pr_ep x), wi_payload = b\<rparr>"
  define ep' where "ep' = (pr_ep x)\<lparr>ep_lastSent := ep_lastSent (pr_ep x) + 1, ep_totalSent := ep_totalSent (pr_ep x) + 20 + of_nat (length b)\<rparr>"
  have "ep_send socket FlagPsh t i b (pr_ep x) = (Inr (), ep', wire_bytes w)"
    by (simp add: ep_send_whole[OF assms(1)] w_def wire_bytes_def ep'_def)
  then have x': "ok" "out = wire_bytes w" "x' = x\<lparr>pr_ep := ep', pr_sent := pr_sent x @ wire_tags w, pr_talked := True\<rparr>"
    using assms(2,7) DoSend by (auto simp: wire_tags_def w_def)
  have "wire_ok w" using assms(6) DoSend by (simp add: wire_ok_def w_def)
  then show ?thesis
    using send_keeps[OF assms(2-5) _ _ _ _ _ _ _ x'(3)] x' by (simp add: w_def ep'_def)
next
  case DoClose
  obtain s where s: "close_start socket (pr_ep x) = send_then socket FlagFin s (pr_ep x)"
    using assms(6) DoClose by (auto simp: close_start_def)
  define w where "w = flag_wire FlagFin 0 (pr_ep x)"
  obtain ep' where e: "send_then socket FlagFin s (pr_ep x) = (Inr (), ep', wire_bytes w)" "replies (pr_ep x) ep' (wire_bytes w) [w]"
    using send_then_replies[OF assms(1), of FlagFin s "pr_ep x"] unfolding w_def by blast
  have w: "wire_tags w = []" "wire_ok w" "wi_count w = ep_lastSent (pr_ep x)"
    by (simp_all add: w_def flag_wire_def wire_tags_def tagged_def wire_ok_def)
  have x': "ok" "out = wire_bytes w" "x' = x\<lparr>pr_ep := ep', pr_sent := pr_sent x @ wire_tags w, pr_talked := True\<rparr>"
    using assms(2,7) DoClose s e(1) w(1) by auto
  show ?thesis
    using send_keeps[OF assms(2-5) w(2,3) _ _ _ _ _ x'(3)] x' e(2) w(3) by (simp add: replies_def)
qed


text \<open>The client opens.\<close>

lemma open_keeps:
  assumes "reliable socket" "\<not> pr_talked a" "dir_ok a b" "dir_ok b a" "phase_ok a b"
    and "perform socket (DoOpen r) a = (ok, a', out)"
  shows "ok \<and> dir_ok a' (arrive out b) \<and> dir_ok (arrive out b) a' \<and> phase_ok a' (arrive out b)"
proof -
  define ep1 where "ep1 = (pr_ep a)\<lparr>ep_lastSent := r, ep_totalRecv := 0, ep_totalSent := 0, ep_flowRecv := 0, ep_flowSent := 0\<rparr>"
  define w where "w = flag_wire FlagSyn 0 ep1"
  have b: "\<not> pr_talked b" "ep_state (pr_ep a) = EP_STATE_CLOSED" "ep_state (pr_ep b) = EP_STATE_LISTEN" "ep_totalRecv (pr_ep b) = 0" "ep_flowSent (pr_ep b) = 0"
    using assms(2,5) by (auto simp: phase_ok_def)
  have da: "pr_in b = []" "ep_bytesLeft (pr_ep b) = 0" "pr_sent a = []" "pr_got b = []"
    using assms(2,3) by (auto simp: dir_ok_def)
  have db: "pr_in a = []" "ep_bytesLeft (pr_ep a) = 0" "pr_sent b = []" "pr_got a = []"
    using b(1) assms(4) by (auto simp: dir_ok_def)
  obtain ep' where e: "send_then socket FlagSyn EP_STATE_SYN_SENT ep1 = (Inr (), ep', wire_bytes w)" "replies ep1 ep' (wire_bytes w) [w]"
      "ep_state ep' = EP_STATE_SYN_SENT"
    using send_then_replies[OF assms(1), of FlagSyn EP_STATE_SYN_SENT ep1] unfolding w_def by blast
  have "open_start socket r (pr_ep a) = (Inr (), ep', wire_bytes w)"
    using b(2) e(1) unfolding open_start_def Let_def ep1_def by simp
  then have a': "ok" "out = wire_bytes w" "a' = a\<lparr>pr_ep := ep', pr_talked := True\<rparr>" using assms(6) by auto
  have w: "has_flag (wi_flags w) FlagSyn" "wi_payload w = []" "wire_ok w" "ep_lastSent ep' = wi_count w + 1"
    using e(2) by (simp_all add: w_def flag_wire_def syn_flags wire_ok_def replies_def)
  have "dir_ok a' (arrive out b)"
    using incoming_first[OF da(2) w(1,3,2)] da a' w(4) by (simp add: dir_ok_def arrive_def)
  moreover have "dir_ok (arrive out b) a'" using b(1) db a' e(2) by (simp add: dir_ok_def arrive_def replies_def ep1_def)
  moreover have "phase_ok a' (arrive out b)"
    using b a' e(3) da w(1,2) by (auto simp: phase_ok_def arrive_def)
  ultimately show ?thesis using a'(1) by blast
qed

text \<open>The server answers the first packet.\<close>

lemma listen_answers:
  assumes "reliable socket" "ep_state ep = EP_STATE_LISTEN" "ep_bytesLeft ep = 0" "ep_totalRecv ep = 0" "ep_flowSent ep = 0"
    and "has_flag (wi_flags p) FlagSyn" "wi_payload p = []"
  shows "\<exists>res ep' inp'. ep_recv socket True cap (wire_bytes p) ep = ((res, ep', wire_bytes (flag_wire (FlagSyn OR FlagAck) 0 ep)), inp') \<and>
     ep_lastSent ep' = ep_lastSent ep + 1 \<and> inp' = []"
proof -
  let ?h = "packet_header (wi_flags p) (wi_type p) 0 (wi_count p) (wi_index p)"
  have h: "take 20 (wire_bytes p) = ?h" "drop 20 (wire_bytes p) = []" using assms(7) by (simp_all add: wire_bytes_def)
  have ne: "?h \<noteq> []" using wire_nonempty[of p] assms(7) by (simp add: wire_bytes_def)
  note f = header_fields[of 0 ?h "wi_flags p" "wi_type p" "wi_count p" "wi_index p", OF _ refl]
  define ep1 where "ep1 = ep\<lparr>ep_totalRecv := of_nat 20, ep_bytesLeft := 0, ep_nextRecv := wi_count p + 1, ep_lastType := wi_type p,
     ep_lastIndex := wi_index p\<rparr>"
  define w where "w = flag_wire (FlagSyn OR FlagAck) 0 ep"
  obtain ep2 where s: "send_then socket (FlagSyn OR FlagAck) EP_STATE_SYN_RECEIVED ep1 = (Inr (), ep2, wire_bytes w)"
      "replies ep1 ep2 (wire_bytes w) [w]" "ep_flowSent ep2 = 0"
    using send_then_replies[OF assms(1), of "FlagSyn OR FlagAck" EP_STATE_SYN_RECEIVED ep1] assms(5)
    by (auto simp: w_def flag_wire_def ep1_def)
  have "unpackHeader socket ?h (ep\<lparr>ep_totalRecv := of_nat 20\<rparr>) = (Inr (wi_flags p, wi_type p, wi_index p), ep2, wire_bytes w)"
    using assms(2,6) s(1) unfolding unpackHeader_def Let_def header_length f[OF zero_less_power[OF zero_less_numeral]] handleState_def
    by (simp add: ep1_def)
  then have r: "\<exists>cap'. recv_header socket cap (wire_bytes p) ep = ((Inr (wi_flags p, wi_type p, wi_index p, cap'), ep2, wire_bytes w), [])"
    unfolding recv_header_def Let_def h header_length using assms(3,4) ne by simp
  have "ep_bytesLeft ep2 = 0" "ep_totalRecv ep2 = 20" "ep_lastSent ep2 = ep_lastSent ep + 1"
    using s(2) by (simp_all add: replies_def ep1_def w_def flag_wire_def)
  then show ?thesis
    using r s(3) by (auto simp: ep_recv_def recv_payload_def flow_control_def Let_def flowControlWindowBytes_def w_def)
qed

lemma listen_keeps:
  assumes "reliable socket" "pr_talked a" "\<not> pr_talked b" "dir_ok a b" "dir_ok b a" "phase_ok a b"
    and "perform socket (DoRecv cap) b = (ok, b', out)"
  shows "ok \<and> pr_talked b' \<and> dir_ok b' (arrive out a) \<and> dir_ok (arrive out a) b'"
proof -
  obtain p where p: "pr_in b = wire_bytes p" "has_flag (wi_flags p) FlagSyn" "wi_payload p = []"
    and b: "ep_state (pr_ep b) = EP_STATE_LISTEN" "ep_bytesLeft (pr_ep b) = 0" "ep_totalRecv (pr_ep b) = 0" "ep_flowSent (pr_ep b) = 0"
    using assms(2,3,6) by (auto simp: phase_ok_def)
  have a: "pr_in a = []" "ep_bytesLeft (pr_ep a) = 0" "pr_sent b = []" "pr_got a = []"
    using assms(3,5) by (auto simp: dir_ok_def)
  obtain ts where ts: "incoming (pr_ep b) (pr_in b) (ep_lastSent (pr_ep a)) ts" "pr_sent a = pr_got b @ ts"
    using assms(2,4) by (auto simp: dir_ok_def)
  define w where "w = flag_wire (FlagSyn OR FlagAck) 0 (pr_ep b)"
  obtain flags t i got ep' out' qs inp' ts' where r:
      "ep_recv socket True cap (pr_in b) (pr_ep b) = ((Inr (Some (flags, t, i, got)), ep', out'), inp')"
      "incoming ep' inp' (ep_lastSent (pr_ep a)) ts'" "ts = tagged t i got @ ts'"
    using ep_recv_incoming[OF assms(1) ts(1), of cap] p(1) by auto
  have ow: "out' = wire_bytes w" "ep_lastSent ep' = wi_count w + 1"
    using listen_answers[OF assms(1) b p(2,3), of cap] r(1) p(1) by (auto simp: w_def flag_wire_def)
  have b': "ok" "out = wire_bytes w" "b' = b\<lparr>pr_ep := ep', pr_in := inp', pr_got := pr_got b @ tagged t i got, pr_talked := True\<rparr>"
    using assms(7) r(1) ow(1) by auto
  have "incoming (pr_ep a) (wire_bytes w) (wi_count w + 1) []"
    by (rule incoming_first[OF a(2)]) (simp_all add: w_def flag_wire_def syn_flags wire_ok_def)
  then show ?thesis using b' a ow(2) ts(2) r(2,3) assms(2) by (auto simp: dir_ok_def arrive_def)
qed


lemma server_opens:
  assumes "\<not> pr_talked b" "dir_ok a b" "dir_ok b a" "phase_ok a b" "perform socket (DoOpen r) b = (ok, b', out)"
  shows "ok \<and> dir_ok (arrive out a) b' \<and> dir_ok b' (arrive out a) \<and> phase_ok (arrive out a) b'"
proof -
  define ep' where "ep' = (pr_ep b)\<lparr>ep_lastSent := r, ep_totalRecv := 0, ep_totalSent := 0, ep_flowRecv := 0, ep_flowSent := 0\<rparr>"
  have "ep_state (pr_ep b) = EP_STATE_LISTEN" using assms(1,4) by (simp add: phase_ok_def)
  then have "open_start socket r (pr_ep b) = (Inr (), ep', [])" by (simp add: open_start_def ep'_def)
  then have b': "ok" "out = []" "b' = b\<lparr>pr_ep := ep'\<rparr>" using assms(1,5) by auto
  have "incoming ep' inp m ts = incoming (pr_ep b) inp m ts" for inp m ts
    by (rule incoming_cong) (simp_all add: ep'_def)
  then show ?thesis using assms(1-4) b' by (auto simp: dir_ok_def phase_ok_def arrive_def ep'_def)
qed

lemma link_step_ok:
  assumes "reliable socket" "link_step socket l l'" "link_ok l"
  shows "link_ok l'"
  using assms(2)
proof cases
  case (step_a act ok a' out)
  have l: "dir_ok (ln_a l) (ln_b l)" "dir_ok (ln_b l) (ln_a l)" "phase_ok (ln_a l) (ln_b l)" "\<not> ln_failed l"
    using assms(3) by (auto simp: link_ok_def)
  show ?thesis
  proof (cases "pr_talked (ln_a l)")
    case False
    then have s: "pr_in (ln_a l) = []" "ep_state (pr_ep (ln_a l)) = EP_STATE_CLOSED"
      using l(2,3) by (auto simp: phase_ok_def dir_ok_def)
    then obtain r where "act = DoOpen r" using step_a(2) by (cases act) (auto simp: ep_isReady_def)
    from open_keeps[OF assms(1) False l(1-3) step_a(3)[unfolded this]] show ?thesis
      using step_a(1) l(4) by (simp add: link_ok_def)
  next
    case True
    have tb: "pr_talked (ln_b l)"
    proof (rule ccontr)
      assume n: "\<not> pr_talked (ln_b l)"
      then have "pr_in (ln_a l) = []" "ep_state (pr_ep (ln_a l)) = EP_STATE_SYN_SENT"
        using l(2,3) True by (auto simp: phase_ok_def dir_ok_def)
      then show False using step_a(2) True by (cases act) (auto simp: ep_isReady_def)
    qed
    from act_talked[OF assms(1) True tb l(1,2) step_a(2,3)] show ?thesis
      using step_a(1) l(4) tb by (auto simp: link_ok_def phase_ok_def arrive_def)
  qed
next
  case (step_b act ok b' out)
  have l: "dir_ok (ln_a l) (ln_b l)" "dir_ok (ln_b l) (ln_a l)" "phase_ok (ln_a l) (ln_b l)" "\<not> ln_failed l"
    using assms(3) by (auto simp: link_ok_def)
  show ?thesis
  proof (cases "pr_talked (ln_b l)")
    case True
    then have ta: "pr_talked (ln_a l)" using l(3) by (auto simp: phase_ok_def)
    from act_talked[OF assms(1) True ta l(2,1) step_b(2,3)] show ?thesis
      using step_b(1) l(4) ta by (auto simp: link_ok_def phase_ok_def arrive_def)
  next
    case False
    then have s: "ep_state (pr_ep (ln_b l)) = EP_STATE_LISTEN" using l(3) by (simp add: phase_ok_def)
    then consider (opens) r where "act = DoOpen r" | (receives) cap where "act = DoRecv cap"
      using step_b(2) by (cases act) (auto simp: ep_isReady_def)
    then show ?thesis
    proof cases
      case opens
      from server_opens[OF False l(1-3) step_b(3)[unfolded opens]] show ?thesis
        using step_b(1) l(4) by (simp add: link_ok_def)
    next
      case receives
      have a: "pr_talked (ln_a l)" using step_b(2) l(1) unfolding receives by (auto simp: dir_ok_def split: if_splits)
      from listen_keeps[OF assms(1) a False l(1-3) step_b(3)[unfolded receives]] show ?thesis
        using step_b(1) l(4) a by (auto simp: link_ok_def phase_ok_def arrive_def)
    qed
  qed
qed

lemma link_start_ok: "link_ok link_start"
  by (simp add: link_ok_def link_start_def peer_new_def ep_new_def dir_ok_def phase_ok_def)

text \<open>C15: However two endpoints open, send payloads of fewer than \<open>2 ^ 16\<close> bytes where \<open>isReady\<close> says so, receive where bytes
  have arrived (in pieces of any size) and close, over reliable sockets no receive and no send throws (the counts of packets
  always agree), and the payload bytes that a peer received, with the type and the index of their packets, are those that
  the other peer sent, in order, from the first on. A payload of \<open>2 ^ 16\<close> bytes or more is excluded, since its length does not
  fit the header.\<close>

theorem link_delivers:
  assumes "reliable socket" "(link_step socket)\<^sup>*\<^sup>* link_start l"
  shows "\<not> ln_failed l \<and>
     (\<exists>ts. pr_sent (ln_a l) = pr_got (ln_b l) @ ts) \<and> (\<exists>us. pr_sent (ln_b l) = pr_got (ln_a l) @ us)"
proof -
  have "link_ok l" using assms(2) by (induction rule: rtranclp_induct) (auto simp: link_start_ok intro: link_step_ok[OF assms(1)])
  then show ?thesis by (auto simp: link_ok_def dir_ok_def split: if_splits)
qed


definition all_bytes :: socket where
  "all_bytes b = int (length b)"

lemma all_bytes_reliable: "reliable all_bytes"
  by (simp add: reliable_def all_bytes_def)

text \<open>A run of actions, the first component telling whether the client acts; None where an action is not allowed.\<close>

fun link_run :: "socket \<Rightarrow> (bool \<times> action) list \<Rightarrow> link \<Rightarrow> link option" where
  "link_run socket [] l = Some l"
| "link_run socket ((client, act) # acts) l =
     (if \<not> allowed act (if client then ln_a l else ln_b l) then None
      else let (ok, p, out) = perform socket act (if client then ln_a l else ln_b l) in
        link_run socket acts
          (if client then \<lparr>ln_a = p, ln_b = arrive out (ln_b l), ln_failed = (ln_failed l \<or> \<not> ok)\<rparr>
           else \<lparr>ln_a = arrive out (ln_a l), ln_b = p, ln_failed = (ln_failed l \<or> \<not> ok)\<rparr>))"

lemma link_run_steps: "link_run socket acts l = Some l' \<Longrightarrow> (link_step socket)\<^sup>*\<^sup>* l l'"
proof (induction acts arbitrary: l)
  case (Cons ca acts)
  obtain client act where ca: "ca = (client, act)" by (cases ca)
  obtain ok p out where p: "perform socket act (if client then ln_a l else ln_b l) = (ok, p, out)" by (metis prod_cases3)
  show ?case
  proof (cases client)
    case True
    then have "link_step socket l \<lparr>ln_a = p, ln_b = arrive out (ln_b l), ln_failed = (ln_failed l \<or> \<not> ok)\<rparr>"
      using Cons.prems p unfolding ca by (intro step_a) (auto split: if_splits)
    moreover have "link_run socket acts \<lparr>ln_a = p, ln_b = arrive out (ln_b l), ln_failed = (ln_failed l \<or> \<not> ok)\<rparr> = Some l'"
      using Cons.prems p True unfolding ca by (simp split: if_splits)
    ultimately show ?thesis using Cons.IH by (meson converse_rtranclp_into_rtranclp)
  next
    case False
    then have "link_step socket l \<lparr>ln_a = arrive out (ln_a l), ln_b = p, ln_failed = (ln_failed l \<or> \<not> ok)\<rparr>"
      using Cons.prems p unfolding ca by (intro step_b) (auto split: if_splits)
    moreover have "link_run socket acts \<lparr>ln_a = arrive out (ln_a l), ln_b = p, ln_failed = (ln_failed l \<or> \<not> ok)\<rparr> = Some l'"
      using Cons.prems p False unfolding ca by (simp split: if_splits)
    ultimately show ?thesis using Cons.IH by (meson converse_rtranclp_into_rtranclp)
  qed
qed simp

section \<open>The handshakes\<close>

definition after_header :: "wire \<Rightarrow> endpoint \<Rightarrow> endpoint" where
  "after_header p ep = ep\<lparr>ep_totalRecv := ep_totalRecv ep + 20, ep_bytesLeft := 0, ep_nextRecv := wi_count p + 1,
     ep_lastType := wi_type p, ep_lastIndex := wi_index p\<rparr>"

lemma recv_flag:
  assumes "wi_payload p = []" "ep_bytesLeft ep = 0" "has_flag (wi_flags p) FlagSyn \<or> wi_count p = ep_nextRecv ep"
    and "handleState socket (wi_flags p) (after_header p ep) = (Inr (), ep2, out)" "ep_bytesLeft ep2 = 0"
    and "\<not> has_flag (wi_flags p) FlagFlo" "\<not> ep_totalRecv ep2 > ep_flowSent ep2 + flowControlWindowBytes div 8"
  shows "ep_recv socket True cap (wire_bytes p) ep = ((Inr (Some (wi_flags p, wi_type p, wi_index p, [])), ep2, out), [])"
proof -
  let ?h = "packet_header (wi_flags p) (wi_type p) 0 (wi_count p) (wi_index p)"
  have h: "take 20 (wire_bytes p) = ?h" "drop 20 (wire_bytes p) = []" using assms(1) by (simp_all add: wire_bytes_def)
  have ne: "?h \<noteq> []" using wire_nonempty[of p] assms(1) by (simp add: wire_bytes_def)
  note f = header_fields[of 0 ?h "wi_flags p" "wi_type p" "wi_count p" "wi_index p", OF _ refl]
  have "unpackHeader socket ?h (ep\<lparr>ep_totalRecv := ep_totalRecv ep + of_nat 20\<rparr>) = (Inr (wi_flags p, wi_type p, wi_index p), ep2, out)"
    using assms(3,4) unfolding unpackHeader_def Let_def header_length f[OF zero_less_power[OF zero_less_numeral]]
    by (cases "has_flag (wi_flags p) FlagSyn") (simp_all add: after_header_def)
  then have "\<exists>cap'. recv_header socket cap (wire_bytes p) ep = ((Inr (wi_flags p, wi_type p, wi_index p, cap'), ep2, out), [])"
    unfolding recv_header_def Let_def h header_length using assms(2) ne by simp
  then show ?thesis using assms(5-7) by (auto simp: ep_recv_def recv_payload_def flow_control_def Let_def)
qed


lemma send_then_whole:
  "reliable socket \<Longrightarrow> send_then socket flags s ep =
     (Inr (), ep\<lparr>ep_state := s, ep_lastSent := ep_lastSent ep + 1, ep_totalSent := ep_totalSent ep + 20\<rparr>, wire_bytes (flag_wire flags 0 ep))"
  by (simp add: send_then_def send_flags_def ep_send_whole wire_bytes_def flag_wire_def)

lemmas flag_values = has_flag_def FlagSyn_def FlagAck_def FlagFin_def FlagFlo_def FlagPsh_def

text \<open>A control packet between two endpoints that have exchanged little: the receiver handles its flags.\<close>

lemma perform_control:
  assumes "pr_in p = wire_bytes w" "wi_payload w = []" "ep_bytesLeft (pr_ep p) = 0"
    and "has_flag (wi_flags w) FlagSyn \<or> wi_count w = ep_nextRecv (pr_ep p)"
    and "handleState socket (wi_flags w) (after_header w (pr_ep p)) = (Inr (), ep', out)" "ep_bytesLeft ep' = 0"
    and "\<not> has_flag (wi_flags w) FlagFlo" "\<not> ep_totalRecv ep' > ep_flowSent ep' + flowControlWindowBytes div 8"
  shows "perform socket (DoRecv cap) p = (True, p\<lparr>pr_ep := ep', pr_in := [], pr_talked := pr_talked p \<or> out \<noteq> []\<rparr>, out)"
  using recv_flag[OF assms(2-8)] assms(1) by (simp add: tagged_def)

text \<open>C37: The handshake of opening succeeds for all initial counts: after both have started, the server has received twice and
  the client once, both are established and nothing is on its way.\<close>

theorem open_handshake:
  assumes "reliable socket"
  shows "\<exists>l. link_run socket [(True, DoOpen r1), (False, DoOpen r2), (False, DoRecv c1), (True, DoRecv c2), (False, DoRecv c3)] link_start = Some l \<and>
     ep_state (pr_ep (ln_a l)) = EP_STATE_ESTABLISHED \<and> ep_state (pr_ep (ln_b l)) = EP_STATE_ESTABLISHED \<and>
     pr_in (ln_a l) = [] \<and> pr_in (ln_b l) = []"
proof -
  note s = send_then_whole[OF assms]
  define a0 where "a0 = (ep_new EP_STATE_CLOSED)\<lparr>ep_lastSent := r1\<rparr>"
  define a1 where "a1 = a0\<lparr>ep_state := EP_STATE_SYN_SENT, ep_lastSent := r1 + 1, ep_totalSent := 20\<rparr>"
  define w1 where "w1 = flag_wire FlagSyn 0 a0"
  define pa1 where "pa1 = (peer_new EP_STATE_CLOSED)\<lparr>pr_ep := a1, pr_talked := True\<rparr>"
  have o1: "perform socket (DoOpen r1) (peer_new EP_STATE_CLOSED) = (True, pa1, wire_bytes w1)"
    by (simp add: open_start_def s peer_new_def ep_new_def pa1_def a1_def a0_def w1_def flag_wire_def)
  define b1 where "b1 = (ep_new EP_STATE_LISTEN)\<lparr>ep_lastSent := r2\<rparr>"
  define pb1 where "pb1 = (peer_new EP_STATE_LISTEN)\<lparr>pr_ep := b1, pr_in := wire_bytes w1\<rparr>"
  have o2: "perform socket (DoOpen r2) (arrive (wire_bytes w1) (peer_new EP_STATE_LISTEN)) = (True, pb1, [])"
    by (simp add: open_start_def peer_new_def ep_new_def pb1_def b1_def arrive_def)
  define b2 where "b2 = (after_header w1 b1)\<lparr>ep_state := EP_STATE_SYN_RECEIVED, ep_lastSent := r2 + 1, ep_totalSent := 20\<rparr>"
  define w2 where "w2 = flag_wire (FlagSyn OR FlagAck) 0 (after_header w1 b1)"
  define pb2 where "pb2 = pb1\<lparr>pr_ep := b2, pr_in := [], pr_talked := True\<rparr>"
  have o3: "perform socket (DoRecv c1) pb1 = (True, pb2, wire_bytes w2)"
    by (subst perform_control[where w = w1 and ep' = b2 and out = "wire_bytes w2"])
       (simp_all add: s handleState_def b1_def b2_def pb1_def pb2_def w1_def w2_def flag_wire_def peer_new_def ep_new_def after_header_def
         flag_values flowControlWindowBytes_def)
  define a2 where "a2 = (after_header w2 a1)\<lparr>ep_state := EP_STATE_ESTABLISHED, ep_lastSent := r1 + 2, ep_totalSent := 40\<rparr>"
  define w3 where "w3 = flag_wire FlagAck 0 (after_header w2 a1)"
  define pa2 where "pa2 = pa1\<lparr>pr_ep := a2, pr_in := []\<rparr>"
  have o4: "perform socket (DoRecv c2) (arrive (wire_bytes w2) pa1) = (True, pa2, wire_bytes w3)"
    by (subst perform_control[where w = w2 and ep' = a2 and out = "wire_bytes w3"])
       (simp_all add: s handleState_def a1_def a2_def a0_def pa1_def pa2_def w2_def w3_def flag_wire_def peer_new_def ep_new_def after_header_def
         flag_values flowControlWindowBytes_def arrive_def)
  define b3 where "b3 = (after_header w3 b2)\<lparr>ep_state := EP_STATE_ESTABLISHED\<rparr>"
  define pb3 where "pb3 = pb2\<lparr>pr_ep := b3, pr_in := []\<rparr>"
  have o5: "perform socket (DoRecv c3) (arrive (wire_bytes w3) pb2) = (True, pb3, [])"
    by (subst perform_control[where w = w3 and ep' = b3 and out = "[]"])
       (simp_all add: handleState_def b1_def b2_def b3_def pb1_def pb2_def pb3_def w1_def w3_def a0_def a1_def flag_wire_def peer_new_def ep_new_def
         after_header_def flag_values flowControlWindowBytes_def arrive_def)
  have g: "\<not> pr_talked (peer_new x)" "\<not> pr_talked (arrive o' (peer_new x))" for x o' by (simp_all add: peer_new_def arrive_def)
  have "pr_in pb1 \<noteq> []" "pr_in (arrive (wire_bytes w2) pa1) \<noteq> []" "pr_in (arrive (wire_bytes w3) pb2) \<noteq> []" "arrive [] pa1 = pa1" "arrive [] pa2 = pa2"
    by (simp_all add: pb1_def arrive_def)
  then have "link_run socket [(True, DoOpen r1), (False, DoOpen r2), (False, DoRecv c1), (True, DoRecv c2), (False, DoRecv c3)] link_start
      = Some \<lparr>ln_a = pa2, ln_b = pb3, ln_failed = False\<rparr>"
    using o1 o2 o3 o4 o5 g by (simp add: link_start_def del: perform.simps)
  moreover have "ep_state a2 = EP_STATE_ESTABLISHED" "ep_state b3 = EP_STATE_ESTABLISHED" by (simp_all add: a2_def b3_def)
  ultimately show ?thesis by (simp add: pa2_def pb3_def)
qed


lemma open_handshake_witness:
  "\<exists>l. link_run all_bytes [(True, DoOpen 7), (False, DoOpen 65535), (False, DoRecv 0), (True, DoRecv 0), (False, DoRecv 0)] link_start = Some l \<and>
     ep_state (pr_ep (ln_a l)) = EP_STATE_ESTABLISHED \<and> ep_state (pr_ep (ln_b l)) = EP_STATE_ESTABLISHED \<and>
     pr_in (ln_a l) = [] \<and> pr_in (ln_b l) = []"
  by (rule open_handshake[OF all_bytes_reliable])

text \<open>The handshake, a packet of three bytes that the server receives in part, and a packet of the server to the client.\<close>

definition demo_actions :: "(bool \<times> action) list" where
  "demo_actions = [(True, DoOpen 7), (False, DoOpen 65535), (False, DoRecv 0), (True, DoRecv 0), (False, DoRecv 0),
     (True, DoSend TypeBuffer 9 [10, 20, 30]), (False, DoSend 77 4 [40]), (False, DoRecv 2), (True, DoRecv 0)]"

lemmas endpoint_eval = link_start_def peer_new_def ep_new_def all_bytes_def arrive_def open_start_def send_then_def send_flags_def
  ep_send_def packet_header_def send_payload.simps be32_def be16_def flag_values PacketHeaderWord_def TypeBuffer_def
  ep_recv_def recv_header_def unpackHeader_def Let_def rd32_def rd16_def handleState_def recv_payload_def flow_control_def
  flowControlWindowBytes_def ep_isReady_def tagged_def

lemma demo_link_data:
  "\<exists>l. link_run all_bytes demo_actions link_start = Some l \<and>
     pr_sent (ln_a l) = [(TypeBuffer, 9, 10), (TypeBuffer, 9, 20), (TypeBuffer, 9, 30)] \<and>
     pr_got (ln_b l) = [(TypeBuffer, 9, 10), (TypeBuffer, 9, 20)] \<and>
     pr_sent (ln_b l) = [(77, 4, 40)] \<and> pr_got (ln_a l) = [(77, 4, 40)]"
  unfolding demo_actions_def by (simp add: endpoint_eval)

lemma link_delivers_witness:
  "\<exists>l. link_run all_bytes demo_actions link_start = Some l \<and>
     pr_sent (ln_a l) = [(TypeBuffer, 9, 10), (TypeBuffer, 9, 20), (TypeBuffer, 9, 30)] \<and>
     pr_got (ln_b l) = [(TypeBuffer, 9, 10), (TypeBuffer, 9, 20)] \<and>
     pr_sent (ln_b l) = [(77, 4, 40)] \<and> pr_got (ln_a l) = [(77, 4, 40)] \<and>
     \<not> ln_failed l \<and>
     (\<exists>ts. pr_sent (ln_a l) = pr_got (ln_b l) @ ts) \<and> (\<exists>us. pr_sent (ln_b l) = pr_got (ln_a l) @ us)"
proof -
  obtain l where l: "link_run all_bytes demo_actions link_start = Some l"
    and d: "pr_sent (ln_a l) = [(TypeBuffer, 9, 10), (TypeBuffer, 9, 20), (TypeBuffer, 9, 30)]"
      "pr_got (ln_b l) = [(TypeBuffer, 9, 10), (TypeBuffer, 9, 20)]" "pr_sent (ln_b l) = [(77, 4, 40)]" "pr_got (ln_a l) = [(77, 4, 40)]"
    using demo_link_data by blast
  from link_delivers[OF all_bytes_reliable link_run_steps[OF l]] l d show ?thesis by blast
qed

section \<open>Limits of the protocol\<close>

text \<open>The condition of the first branch covers the second: simultaneous opening never reaches the state that waits for the
  acknowledgement.\<close>

lemma syn_sent_branch:
  "ep_state ep = EP_STATE_SYN_SENT \<Longrightarrow> handleState socket flags ep =
     (if has_flag flags (FlagSyn OR FlagAck) then send_then socket FlagAck EP_STATE_ESTABLISHED ep else (Inr (), ep, []))"
proof -
  assume s: "ep_state ep = EP_STATE_SYN_SENT"
  have "\<not> has_flag flags (FlagSyn OR FlagAck) \<Longrightarrow> \<not> has_flag flags FlagSyn"
    unfolding has_flag_def by (metis (no_types, lifting) bit.conj_disj_distrib or_eq_0_iff)
  then show ?thesis using s by (simp add: handleState_def)
qed

text \<open>A payload of 2^16 bytes is announced as empty.\<close>

lemma oversized_payload:
  assumes "length b = 2 ^ 16"
  shows "rd16 (packet_header flags t (length b) count index) 4 = 0"
proof -
  have "rd16 (packet_header flags t (length b) count index) 4 = of_nat (length b)"
    unfolding packet_header_def
    using rd16_be16[of "be32 PacketHeaderWord @ be16 flags @ be16 t" 4 "of_nat (length b)"] by simp
  also have "\<dots> = 0" unfolding assms by simp
  finally show ?thesis .
qed

text \<open>A receive with an empty buffer in the middle of a buffer packet gives nothing and leaves the endpoint as it was: the loop
  of closing, whose buffer is empty after a control packet, makes no progress until its timeout.\<close>

lemma empty_buffer_stalls:
  assumes "ep_bytesLeft ep > 0" "\<not> ep_totalRecv ep > ep_flowSent ep + flowControlWindowBytes div 8"
  shows "ep_recv socket True 0 inp ep = ((Inr (Some (0, ep_lastType ep, ep_lastIndex ep, [])), ep, []), inp)"
  using assms by (simp add: ep_recv_def recv_header_def recv_payload_def flow_control_def has_flag_def)

lemma closing_stalls:
  assumes "ep_bytesLeft ep > 0" "\<not> ep_totalRecv ep > ep_flowSent ep + flowControlWindowBytes div 8" "\<not> stop (ep_state ep)" "inp \<noteq> []"
  shows "recv_loop socket stop 0 arrivals inp ep = ((Inr (), ep, []), inp @ concat arrivals)"
  using assms
proof (induction arrivals arbitrary: inp)
  case (Cons a arrivals)
  have "ep_recv socket (inp @ a \<noteq> []) 0 (inp @ a) ep = ((Inr (Some (0, ep_lastType ep, ep_lastIndex ep, [])), ep, []), inp @ a)"
    using empty_buffer_stalls[OF Cons.prems(1,2), of socket "inp @ a"] Cons.prems(4) by simp
  then show ?case using Cons.IH[of "inp @ a"] Cons.prems by simp
qed simp

end
