(* ===== verification/NetworkBlocks.thy ===== *)
theory NetworkBlocks
  imports NetworkEndpoint Ports
begin

unbundle bit_operations_syntax

text \<open>
  The network sink and the network source of pothos-blocks/network. A call of the sink's work gives the packets that it asks
  the endpoint to send (type, index and bytes); a call of the source's work takes one receive of its endpoint (theory
  NetworkEndpoint) and gives what it posts. The serialization of objects is a parameter, as in SerializeBlocks; the waiting
  and yielding of the blocks and the polling thread of the sink are not modelled.
\<close>

section \<open>Objects and packets\<close>

record stream_packet =
  np_meta :: pobject
  np_labels :: "label list"
  np_payload :: "byte list"
  np_dtype :: dtype

datatype net_object = NMessage pobject | NPacket stream_packet | NLabel label | NDType dtype

record net_codec =
  nc_ser :: "net_object \<Rightarrow> byte list"
  nc_de :: "byte list \<Rightarrow> net_object option"

definition TypeMessage :: "16 word" where "TypeMessage = 0x4D"
definition TypeLabel :: "16 word" where "TypeLabel = 0x4C"
definition TypeDType :: "16 word" where "TypeDType = 0x44"
definition TypeHeader :: "16 word" where "TypeHeader = 0x48"
definition TypePayload :: "16 word" where "TypePayload = 0x50"

section \<open>The sink\<close>

type_synonym sending = "16 word \<times> 64 word \<times> byte list"

definition updateDType :: "net_codec \<Rightarrow> dtype \<Rightarrow> dtype \<Rightarrow> sending list \<times> dtype" where
  "updateDType nc d lastDtype =
     (if dt_equal lastDtype d then ([], lastDtype) else ([(TypeDType, 0, nc_ser nc (NDType d))], d))"

definition no_payload :: "stream_packet \<Rightarrow> stream_packet" where
  "no_payload p = p\<lparr>np_payload := [], np_dtype := dtype_default\<rparr>"

text \<open>The loop over the messages, from a total \<open>n\<close> of messages popped before: \<open>popMessage\<close> counts the message before it is
  sent, so that the index of a packet is the total with its own message.\<close>

fun sink_messages :: "net_codec \<Rightarrow> 64 word \<Rightarrow> dtype \<Rightarrow> net_object list \<Rightarrow> sending list \<times> dtype" where
  "sink_messages nc n d [] = ([], d)"
| "sink_messages nc n d (NPacket p # ms) =
     (let (upd, d1) = updateDType nc (np_dtype p) d;
          (rest, d2) = sink_messages nc (n + 1) d1 ms
      in ((TypeHeader, n + 1, nc_ser nc (NPacket (no_payload p))) # upd @ (TypePayload, 0, np_payload p) # rest, d2))"
| "sink_messages nc n d (m # ms) =
     (let (rest, d2) = sink_messages nc (n + 1) d ms in ((TypeMessage, n + 1, nc_ser nc m) # rest, d2))"

text \<open>The input port as the sink sees it when work is called: the total of messages popped so far, the messages, the labels, the total of elements, and the front
  buffer with its data type. A call that finds the endpoint not ready does nothing.\<close>

record sink_input =
  sk_totalMessages :: "64 word"
  sk_msgs :: "net_object list"
  sk_labels :: "label list"
  sk_total :: "64 word"
  sk_buffer :: "byte list"
  sk_dtype :: dtype

definition sink_work :: "net_codec \<Rightarrow> bool \<Rightarrow> sink_input \<Rightarrow> dtype \<Rightarrow> sending list \<times> dtype" where
  "sink_work nc ready v d =
     (if \<not> ready then ([], d)
      else
        let (msgs, d1) = sink_messages nc (sk_totalMessages v) d (sk_msgs v);
            labels = map (\<lambda>l. (TypeLabel, of_nat (lb_index l) + sk_total v, nc_ser nc (NLabel l))) (sk_labels v) in
        if length (sk_buffer v) = 0 then (msgs @ labels, d1)
        else let (upd, d2) = updateDType nc (sk_dtype v) d1
             in (msgs @ labels @ upd @ [(TypeBuffer, sk_total v, sk_buffer v)], d2))"

section \<open>The source\<close>

record source =
  so_next :: "64 word"
  so_dtype :: dtype
  so_header :: stream_packet

definition empty_packet :: stream_packet where
  "empty_packet = \<lparr>np_meta = ObNull, np_labels = [], np_payload = [], np_dtype = dtype_default\<rparr>"

definition source_new :: source where
  "source_new = \<lparr>so_next = 0, so_dtype = dtype_default, so_header = empty_packet\<rparr>"

datatype net_post = NpBuffer "byte list" dtype | NpMessage net_object | NpLabel label

text \<open>One call of \<open>work\<close> after a receive. An archive that does not read as an object, or an object of another type, throws.\<close>

definition source_work :: "net_codec \<Rightarrow> 16 word \<Rightarrow> 64 word \<Rightarrow> byte list \<Rightarrow> source \<Rightarrow> (source \<times> net_post list) result" where
  "source_work nc ptype index b s =
     (if ptype = TypeBuffer then Inr (s\<lparr>so_next := index + of_nat (length b)\<rparr>, [NpBuffer b (so_dtype s)])
      else if ptype = TypeMessage then
        (case nc_de nc b of None \<Rightarrow> Inl OtherException | Some m \<Rightarrow> Inr (s, [NpMessage m]))
      else if ptype = TypeHeader then
        (case nc_de nc b of Some (NPacket p) \<Rightarrow> Inr (s\<lparr>so_header := p\<rparr>, []) | _ \<Rightarrow> Inl OtherException)
      else if ptype = TypePayload then
        Inr (s\<lparr>so_header := empty_packet\<rparr>, [NpMessage (NPacket ((so_header s)\<lparr>np_payload := b, np_dtype := so_dtype s\<rparr>))])
      else if ptype = TypeLabel then
        (case nc_de nc b of
           Some (NLabel l) \<Rightarrow> Inr (s, [NpLabel (l\<lparr>lb_index := unat (index - so_next s)\<rparr>)]) | _ \<Rightarrow> Inl OtherException)
      else if ptype = TypeDType then
        (case nc_de nc b of Some (NDType d) \<Rightarrow> Inr (s\<lparr>so_dtype := d\<rparr>, []) | _ \<Rightarrow> Inl OtherException)
      else Inr (s, []))"

fun source_run :: "net_codec \<Rightarrow> sending list \<Rightarrow> source \<Rightarrow> (source \<times> net_post list) result" where
  "source_run nc [] s = Inr (s, [])"
| "source_run nc ((t, i, b) # rs) s = (case source_work nc t i b s of
     Inl e \<Rightarrow> Inl e
   | Inr (s', posts) \<Rightarrow> (case source_run nc rs s' of Inl e \<Rightarrow> Inl e | Inr (s'', posts') \<Rightarrow> Inr (s'', posts @ posts')))"


section \<open>From sink to source\<close>

text \<open>A call of the sink: the messages, the labels and the buffer with its data type. Between the calls the port keeps its
  totals: a call pops all its messages and consumes its whole buffer, whose elements are bytes.\<close>

type_synonym sink_call = "net_object list \<times> label list \<times> byte list \<times> dtype"

fun sink_run :: "net_codec \<Rightarrow> 64 word \<Rightarrow> 64 word \<Rightarrow> dtype \<Rightarrow> sink_call list \<Rightarrow> sending list" where
  "sink_run nc n elems d [] = []"
| "sink_run nc n elems d ((ms, ls, b, dt) # cs) =
     (let (sends, d') = sink_work nc True
        \<lparr>sk_totalMessages = n, sk_msgs = ms, sk_labels = ls, sk_total = elems, sk_buffer = b, sk_dtype = dt\<rparr> d
      in sends @ sink_run nc (n + of_nat (length ms)) (elems + of_nat (length b)) d' cs)"

fun sink_posts :: "sink_call \<Rightarrow> net_post list" where
  "sink_posts (ms, ls, b, dt) = map NpMessage ms @ map NpLabel ls @ (if b = [] then [] else [NpBuffer b dt])"

definition restored :: "net_codec \<Rightarrow> net_object \<Rightarrow> bool" where
  "restored nc x \<longleftrightarrow> nc_de nc (nc_ser nc x) = Some x"

fun message_ok :: "net_codec \<Rightarrow> net_object \<Rightarrow> bool" where
  "message_ok nc (NPacket p) = (restored nc (NPacket (no_payload p)) \<and> restored nc (NDType (np_dtype p)))"
| "message_ok nc m = restored nc m"

fun sink_call_ok :: "net_codec \<Rightarrow> sink_call \<Rightarrow> bool" where
  "sink_call_ok nc (ms, ls, b, dt) = (list_all (message_ok nc) ms \<and>
     list_all (\<lambda>l. restored nc (NLabel l) \<and> lb_index l < SIZE_MOD) ls \<and> restored nc (NDType dt))"

text \<open>A source between packets that knows the data type of the sink.\<close>

definition source_at :: "64 word \<Rightarrow> dtype \<Rightarrow> source" where
  "source_at elems d = \<lparr>so_next = elems, so_dtype = d, so_header = empty_packet\<rparr>"

lemmas packet_types = TypeBuffer_def TypeMessage_def TypeHeader_def TypePayload_def TypeLabel_def TypeDType_def

lemma source_run_append:
  "source_run nc xs s = Inr (s', p) \<Longrightarrow> source_run nc ys s' = Inr (s'', q) \<Longrightarrow> source_run nc (xs @ ys) s = Inr (s'', p @ q)"
proof (induction xs arbitrary: s p)
  case (Cons x xs)
  obtain t i b where x: "x = (t, i, b)" by (cases x) auto
  obtain s1 p1 p2 where w: "source_work nc t i b s = Inr (s1, p1)" "source_run nc xs s1 = Inr (s', p2)" "p = p1 @ p2"
    using Cons.prems(1) unfolding x by (auto split: sum.splits prod.splits)
  from Cons.IH[OF w(2) Cons.prems(2)] show ?case by (simp add: x w)
qed simp

lemma dt_equal_eq: "dt_equal a b \<longleftrightarrow> a = b"
  by (cases a; cases b) (auto simp: dt_equal_def)

lemma update_source:
  assumes "restored nc (NDType d)"
  shows "snd (updateDType nc d e) = d"
    and "source_run nc (fst (updateDType nc d e)) (s\<lparr>so_dtype := e\<rparr>) = Inr (s\<lparr>so_dtype := d\<rparr>, [])"
  using assms by (auto simp: updateDType_def dt_equal_eq source_work_def packet_types restored_def)

lemma messages_source:
  "list_all (message_ok nc) ms \<Longrightarrow>
   source_run nc (fst (sink_messages nc n d ms)) (source_at e d) = Inr (source_at e (snd (sink_messages nc n d ms)), map NpMessage ms)"
proof (induction nc n d ms rule: sink_messages.induct)
  case (2 nc n d p ms)
  obtain upd d1 where u: "updateDType nc (np_dtype p) d = (upd, d1)" by (cases "updateDType nc (np_dtype p) d")
  obtain rest d2 where r: "sink_messages nc (n + 1) d1 ms = (rest, d2)" by (cases "sink_messages nc (n + 1) d1 ms")
  have d1: "d1 = np_dtype p" using update_source(1)[of nc "np_dtype p" d] "2.prems" u by simp
  let ?h = "(source_at e d)\<lparr>so_header := no_payload p\<rparr>"
  have "source_run nc [(TypeHeader, n + 1, nc_ser nc (NPacket (no_payload p)))] (source_at e d) = Inr (?h, [])"
    using "2.prems" by (simp add: source_work_def packet_types restored_def)
  moreover have "source_run nc upd ?h = Inr (?h\<lparr>so_dtype := d1\<rparr>, [])"
    using update_source(2)[of nc "np_dtype p" d ?h] "2.prems" u d1 by (simp add: source_at_def)
  moreover have "source_run nc [(TypePayload, 0, np_payload p)] (?h\<lparr>so_dtype := d1\<rparr>) = Inr (source_at e d1, [NpMessage (NPacket p)])"
    by (simp add: source_work_def packet_types source_at_def d1 no_payload_def)
  moreover have "source_run nc rest (source_at e d1) = Inr (source_at e d2, map NpMessage ms)"
    using "2.IH"[OF u[symmetric] refl] "2.prems" r by simp
  ultimately have "source_run nc ([(TypeHeader, n + 1, nc_ser nc (NPacket (no_payload p)))] @ upd @ [(TypePayload, 0, np_payload p)] @ rest) (source_at e d)
      = Inr (source_at e d2, [] @ [] @ [NpMessage (NPacket p)] @ map NpMessage ms)"
    by (intro source_run_append)
  then show ?case by (simp add: u r)
qed (auto simp: source_at_def source_work_def packet_types restored_def case_prod_beta)

lemma labels_source:
  assumes "list_all (\<lambda>l. restored nc (NLabel l) \<and> lb_index l < SIZE_MOD) ls"
  shows "source_run nc (map (\<lambda>l. (TypeLabel, of_nat (lb_index l) + e, nc_ser nc (NLabel l))) ls) (source_at e d) = Inr (source_at e d, map NpLabel ls)"
  using assms
  by (induction ls) (simp_all add: source_work_def packet_types restored_def source_at_def unsigned_of_nat SIZE_MOD_def take_bit_nat_eq_self)


lemma call_source:
  assumes "sink_call_ok nc (ms, ls, b, dt)"
    and "sink_work nc True \<lparr>sk_totalMessages = n, sk_msgs = ms, sk_labels = ls, sk_total = e, sk_buffer = b, sk_dtype = dt\<rparr> d = (sends, d')"
  shows "source_run nc sends (source_at e d) = Inr (source_at (e + of_nat (length b)) d', sink_posts (ms, ls, b, dt))"
proof -
  obtain msgs d1 where m: "sink_messages nc n d ms = (msgs, d1)" by (cases "sink_messages nc n d ms")
  let ?labels = "map (\<lambda>l. (TypeLabel, of_nat (lb_index l) + e, nc_ser nc (NLabel l))) ls"
  have "source_run nc msgs (source_at e d) = Inr (source_at e d1, map NpMessage ms)"
    using messages_source[of nc ms n d e] assms(1) m by simp
  moreover have "source_run nc ?labels (source_at e d1) = Inr (source_at e d1, map NpLabel ls)"
    using assms(1) by (intro labels_source) simp
  ultimately have ml: "source_run nc (msgs @ ?labels) (source_at e d) = Inr (source_at e d1, map NpMessage ms @ map NpLabel ls)"
    by (rule source_run_append)
  show ?thesis
  proof (cases "b = []")
    case True
    then show ?thesis using ml assms(2) m by (simp add: sink_work_def)
  next
    case False
    obtain upd d2 where u: "updateDType nc dt d1 = (upd, d2)" by (cases "updateDType nc dt d1")
    have d2: "d2 = dt" using update_source(1)[of nc dt d1] assms(1) u by simp
    have "source_run nc upd (source_at e d1) = Inr (source_at e dt, [])"
      using update_source(2)[of nc dt d1 "source_at e d1"] assms(1) u by (simp add: source_at_def)
    moreover have "source_run nc [(TypeBuffer, e, b)] (source_at e dt) = Inr (source_at (e + of_nat (length b)) dt, [NpBuffer b dt])"
      by (simp add: source_work_def source_at_def)
    ultimately have "source_run nc ((msgs @ ?labels) @ upd @ [(TypeBuffer, e, b)]) (source_at e d)
        = Inr (source_at (e + of_nat (length b)) dt, (map NpMessage ms @ map NpLabel ls) @ [] @ [NpBuffer b dt])"
      by (intro source_run_append[OF ml] source_run_append)
    moreover have "sends = msgs @ ?labels @ upd @ [(TypeBuffer, e, b)]" "d' = dt"
      using False assms(2) m u d2 by (auto simp: sink_work_def)
    ultimately show ?thesis using False by simp
  qed
qed

text \<open>The packets that carry a message: a message or the header of a packet. Their indices number the messages.\<close>

definition message_indices :: "sending list \<Rightarrow> 64 word list" where
  "message_indices sends = map (fst \<circ> snd) (filter (\<lambda>x. fst x = TypeMessage \<or> fst x = TypeHeader) sends)"

fun count_from :: "64 word \<Rightarrow> nat \<Rightarrow> 64 word list" where
  "count_from n 0 = []"
| "count_from n (Suc k) = (n + 1) # count_from (n + 1) k"

lemma count_from_append: "count_from n (j + k) = count_from n j @ count_from (n + of_nat j) k"
  by (induction j arbitrary: n) (simp_all add: ac_simps)

lemma message_indices_append [simp]: "message_indices (xs @ ys) = message_indices xs @ message_indices ys"
  by (simp add: message_indices_def)

lemma message_indices_other [simp]:
  "message_indices (fst (updateDType nc d e)) = []" "message_indices [] = []"
  "message_indices (map (\<lambda>l. (TypeLabel, f l, g l)) ls) = []" "message_indices [(TypeBuffer, i, b)] = []"
  by (simp_all add: message_indices_def updateDType_def packet_types filter_empty_conv)

lemma message_indices_sink: "message_indices (fst (sink_messages nc n d ms)) = count_from n (length ms)"
proof (induction nc n d ms rule: sink_messages.induct)
  case (2 nc n d p ms)
  obtain upd d1 where u: "updateDType nc (np_dtype p) d = (upd, d1)" by (cases "updateDType nc (np_dtype p) d")
  have "message_indices upd = []" using message_indices_other(1)[of nc "np_dtype p" d] u by simp
  then show ?case using "2.IH"[OF u[symmetric] refl]
    by (simp add: u case_prod_beta message_indices_def packet_types)
qed (simp_all add: case_prod_beta message_indices_def packet_types)

lemma message_indices_work:
  "message_indices (fst (sink_work nc True v d)) = count_from (sk_totalMessages v) (length (sk_msgs v))"
  by (simp add: sink_work_def case_prod_beta message_indices_sink Let_def)

lemma message_indices_run:
  "message_indices (sink_run nc n e d calls) = count_from n (sum_list (map (length \<circ> fst) calls))"
proof (induction nc n e d calls rule: sink_run.induct)
  case (2 nc n e d ms ls b dt cs)
  obtain sends d' where w: "sink_work nc True \<lparr>sk_totalMessages = n, sk_msgs = ms, sk_labels = ls, sk_total = e, sk_buffer = b, sk_dtype = dt\<rparr> d
      = (sends, d')" by (metis surj_pair)
  show ?case
    using message_indices_work[of nc "\<lparr>sk_totalMessages = n, sk_msgs = ms, sk_labels = ls, sk_total = e, sk_buffer = b, sk_dtype = dt\<rparr>" d]
      "2.IH"[OF w[symmetric] refl] by (simp add: w count_from_append)
qed simp

lemma source_sink_run:
  assumes "list_all (sink_call_ok nc) calls"
  shows "\<exists>s. source_run nc (sink_run nc n e d calls) (source_at e d) = Inr (s, concat (map sink_posts calls))"
  using assms
proof (induction calls arbitrary: n e d)
  case (Cons c calls)
  obtain ms ls b dt where c: "c = (ms, ls, b, dt)" by (cases c) auto
  obtain sends d' where w: "sink_work nc True \<lparr>sk_totalMessages = n, sk_msgs = ms, sk_labels = ls, sk_total = e, sk_buffer = b, sk_dtype = dt\<rparr> d
      = (sends, d')" by (metis surj_pair)
  have "source_run nc sends (source_at e d) = Inr (source_at (e + of_nat (length b)) d', sink_posts c)"
    using call_source[OF _ w] Cons.prems unfolding c by simp
  moreover obtain s where "source_run nc (sink_run nc (n + of_nat (length ms)) (e + of_nat (length b)) d' calls) (source_at (e + of_nat (length b)) d')
      = Inr (s, concat (map sink_posts calls))"
    using Cons by fastforce
  ultimately have "source_run nc (sends @ sink_run nc (n + of_nat (length ms)) (e + of_nat (length b)) d' calls) (source_at e d)
      = Inr (s, sink_posts c @ concat (map sink_posts calls))"
    by (rule source_run_append)
  then show ?case by (auto simp: c w)
qed simp

text \<open>C38: For all sequences of calls of the sink, where the serialization restores what was serialized and every packet that the
  sink sends is received as a whole and in order, the source posts what the sink found, call by call: the messages, packets
  with their payload and data type, the labels with their indices (below \<open>2 ^ 64\<close>), and the buffers with their data type. The
  packets that carry messages are numbered from 1, one by one over all the calls. (A buffer that is received in pieces is not
  covered: \<open>split_buffer_moves_labels\<close>.)\<close>

theorem network_roundtrip:
  assumes "list_all (sink_call_ok nc) calls"
  shows "(\<exists>s. source_run nc (sink_run nc 0 0 dtype_default calls) source_new = Inr (s, concat (map sink_posts calls)))
    \<and> message_indices (sink_run nc 0 0 dtype_default calls) = count_from 0 (sum_list (map (length \<circ> fst) calls))"
proof -
  have "source_new = source_at 0 dtype_default" by (simp add: source_new_def source_at_def)
  with source_sink_run[OF assms] message_indices_run show ?thesis by metis
qed

definition demo_net :: net_codec where
  "demo_net = \<lparr>nc_ser = (\<lambda>x. case x of NMessage m \<Rightarrow> [1] | NLabel l \<Rightarrow> [2] | NDType d \<Rightarrow> [3] | NPacket p \<Rightarrow> [4]),
     nc_de = (\<lambda>b. if b = [1] then Some (NMessage ObNull) else if b = [2] then Some (NLabel lb_default)
        else if b = [3] then Some (NDType (dtype_default\<lparr>dt_dimension := 2\<rparr>)) else Some (NPacket empty_packet))\<rparr>"

definition demo_net_calls :: "sink_call list" where
  "demo_net_calls =
     [([NMessage ObNull, NPacket (empty_packet\<lparr>np_payload := [5, 6], np_dtype := dtype_default\<lparr>dt_dimension := 2\<rparr>\<rparr>)],
        [lb_default], [7, 8, 9], dtype_default\<lparr>dt_dimension := 2\<rparr>),
      ([NMessage ObNull], [lb_default], [10], dtype_default\<lparr>dt_dimension := 2\<rparr>)]"

lemma network_roundtrip_witness:
  "(\<exists>s. source_run demo_net (sink_run demo_net 0 0 dtype_default demo_net_calls) source_new
     = Inr (s, [NpMessage (NMessage ObNull), NpMessage (NPacket (empty_packet\<lparr>np_payload := [5, 6], np_dtype := dtype_default\<lparr>dt_dimension := 2\<rparr>\<rparr>)),
         NpLabel lb_default, NpBuffer [7, 8, 9] (dtype_default\<lparr>dt_dimension := 2\<rparr>),
         NpMessage (NMessage ObNull), NpLabel lb_default, NpBuffer [10] (dtype_default\<lparr>dt_dimension := 2\<rparr>)]))
   \<and> message_indices (sink_run demo_net 0 0 dtype_default demo_net_calls) = [1, 2, 3]"
  using network_roundtrip[of demo_net demo_net_calls]
  by (simp add: demo_net_calls_def restored_def demo_net_def no_payload_def empty_packet_def lb_default_def SIZE_MOD_def)

text \<open>A buffer that arrives in two pieces leaves the expected index at the end of the second piece counted from the start of the
  buffer: a label behind the buffer is moved by the length of the first piece.\<close>

lemma split_buffer_moves_labels:
  assumes "restored nc (NLabel l)" "k \<le> length b"
  shows "source_run nc [(TypeBuffer, e, take k b), (TypeBuffer, e, drop k b), (TypeLabel, of_nat (lb_index l) + (e + of_nat (length b)), nc_ser nc (NLabel l))] s
     = Inr (s\<lparr>so_next := e + of_nat (length b - k)\<rparr>,
         [NpBuffer (take k b) (so_dtype s), NpBuffer (drop k b) (so_dtype s), NpLabel (l\<lparr>lb_index := unat (of_nat (lb_index l + k) :: 64 word)\<rparr>)])"
proof -
  have "of_nat (lb_index l) + (e + of_nat (length b)) - (e + of_nat (length b - k)) = (of_nat (lb_index l + k) :: 64 word)"
    using assms(2) by (simp add: of_nat_diff)
  then show ?thesis using assms(1) by (simp add: source_work_def packet_types restored_def)
qed

end
