(* ===== verification/UtilityBlocks.thy ===== *)
theory UtilityBlocks
  imports PacketBlocks
begin

text \<open>
  Stream blocks of pothos-blocks/utility: delay, gateway, dynamic router, finite release, copier and vector source. A call of
  \<open>work\<close> is a function of the block's state and of its input port (messages, labels and the elements of the front buffer)
  that gives the new state, what it posts in order, and how much it consumes; elements are an arbitrary type. The labels
  of a forwarded buffer are propagated by the framework (theory Worker) and appear only where the block handles them.
\<close>

section \<open>Delay\<close>

record delay =
  dl_delta :: int
  dl_actual :: int

definition delay_new :: delay where
  "delay_new = \<lparr>dl_delta = 0, dl_actual = 0\<rparr>"

definition setDelay :: "int \<Rightarrow> delay \<Rightarrow> delay" where
  "setDelay elements s = s\<lparr>dl_delta := elements\<rparr>"

definition int32 :: "int \<Rightarrow> bool" where
  "int32 x \<longleftrightarrow> - (2 ^ 31) \<le> x \<and> x < 2 ^ 31"

text \<open>The new state, the number of consumed elements and the posted elements; \<open>zero\<close> is the element of zero bytes. A difference
  outside the 32-bit range is undefined in the code: None.\<close>

definition delay_work :: "'e \<Rightarrow> 'e list \<Rightarrow> delay \<Rightarrow> (delay \<times> nat \<times> 'e list) option" where
  "delay_work zero buffer s =
     (if buffer = [] then Some (s, 0, [])
      else let delta = dl_actual s - dl_delta s in
        if \<not> int32 delta \<or> \<not> int32 (- delta) then None
        else if delta < 0 then
          (let numElems = min (length buffer) (nat (- delta)) in Some (s\<lparr>dl_actual := dl_actual s + int numElems\<rparr>, numElems, []))
        else if delta > 0 then Some (s\<lparr>dl_actual := dl_actual s - delta\<rparr>, 0, replicate (nat delta) zero)
        else Some (s, length buffer, buffer))"

text \<open>A run: each call finds a non-empty piece of the rest of the input, of the length that is given (at least one element).\<close>

fun delay_run :: "'e \<Rightarrow> nat list \<Rightarrow> 'e list \<Rightarrow> delay \<Rightarrow> (delay \<times> 'e list \<times> 'e list) option" where
  "delay_run zero [] inp s = Some (s, inp, [])"
| "delay_run zero (n # ns) inp s = (case delay_work zero (take (Suc n) inp) s of
     None \<Rightarrow> None
   | Some (s', k, out) \<Rightarrow> map_option (\<lambda>(s'', rest, outs). (s'', rest, out @ outs)) (delay_run zero ns (drop k inp) s'))"

section \<open>Gateway\<close>

record gateway =
  gw_mode :: string
  gw_forward :: bool
  gw_backup :: bool
  gw_drop :: bool

text \<open>The assignment \<open>_mode = _mode\<close> keeps the old name of the mode.\<close>

definition setMode :: "string \<Rightarrow> gateway \<Rightarrow> gateway" where
  "setMode mode g = g\<lparr>gw_forward := (mode = ''FORWARD''), gw_backup := (mode = ''BACKUP''), gw_drop := (mode = ''DROP'')\<rparr>"

definition gateway_new :: gateway where
  "gateway_new = setMode ''FORWARD'' \<lparr>gw_mode = [], gw_forward = False, gw_backup = False, gw_drop = False\<rparr>"

text \<open>What is left of the port (messages, labels, elements) and what is posted.\<close>

type_synonym 'e port_view = "message list \<times> label list \<times> 'e list"

definition gateway_work :: "gateway \<Rightarrow> 'e port_view \<Rightarrow> 'e port_view \<times> message list \<times> 'e list" where
  "gateway_work g v = (case v of (ms, ls, b) \<Rightarrow>
     if gw_backup g then (v, [], [])
     else if gw_drop g then (([], [], []), [], [])
     else if \<not> gw_forward g then (v, [], [])
     else (([], ls, []), ms, b))"

section \<open>Dynamic router\<close>

text \<open>The ports in order with the destinations; the posts are tagged with the output. A destination that is not an output throws
  after the ports before it were handled.\<close>

datatype 'e route = RMessage message | RLabel label | RBuffer "'e list"

definition router_dest :: "int list \<Rightarrow> nat \<Rightarrow> int" where
  "router_dest dests i = (if i < length dests then dests ! i else -1)"

definition route_port :: "int \<Rightarrow> 'e port_view \<Rightarrow> 'e port_view \<times> (nat \<times> 'e route) list" where
  "route_port dest v = (case v of (ms, ls, b) \<Rightarrow>
     let posts = map RMessage (take 1 ms) @ map RLabel ls @ (if b = [] then [] else [RBuffer b])
     in ((drop 1 ms, [], []), if dest > 0 then map (Pair (nat dest)) posts else []))"

fun router_ports :: "int list \<Rightarrow> nat \<Rightarrow> nat \<Rightarrow> 'e port_view list \<Rightarrow> bool \<times> 'e port_view list \<times> (nat \<times> 'e route) list" where
  "router_ports dests outputs i [] = (True, [], [])"
| "router_ports dests outputs i (v # vs) =
     (let dest = router_dest dests i in
      if dest > 0 \<and> nat dest \<ge> outputs then (False, v # vs, [])
      else let (v', posts) = route_port dest v;
               (ok, vs', rest) = router_ports dests outputs (Suc i) vs
           in (ok, v' # vs', posts @ rest))"

definition router_work :: "int list \<Rightarrow> nat \<Rightarrow> 'e port_view list \<Rightarrow> bool \<times> 'e port_view list \<times> (nat \<times> 'e route) list" where
  "router_work dests outputs vs = router_ports dests outputs 0 vs"

section \<open>Finite release\<close>

record finite_release =
  fn_total :: nat
  fn_left :: nat

definition setTotalElements :: "nat \<Rightarrow> finite_release \<Rightarrow> finite_release" where
  "setTotalElements n s = s\<lparr>fn_total := n, fn_left := n\<rparr>"

definition finite_activate :: "finite_release \<Rightarrow> finite_release" where
  "finite_activate s = s\<lparr>fn_left := fn_total s\<rparr>"

text \<open>The state, the messages left, the forwarded messages, the number of consumed elements and the posted elements.\<close>

definition finite_work :: "message list \<Rightarrow> 'e list \<Rightarrow> finite_release \<Rightarrow> finite_release \<times> message list \<times> message list \<times> nat \<times> 'e list" where
  "finite_work ms buffer s =
     (let forwarded = take (fn_left s) ms; left = fn_left s - length forwarded; elems = min left (length buffer) in
      if elems \<noteq> 0 then (s\<lparr>fn_left := left - elems\<rparr>, drop (fn_left s) ms, forwarded, elems, buffer)
      else (s\<lparr>fn_left := left\<rparr>, drop (fn_left s) ms, forwarded, 0, []))"

section \<open>Copier\<close>

text \<open>The messages left, the forwarded messages, and the copied elements, which are consumed; \<open>room\<close> elements fit the output buffer.\<close>

definition copier_work :: "message list \<Rightarrow> 'e list \<Rightarrow> nat \<Rightarrow> message list \<times> message list \<times> 'e list" where
  "copier_work ms inBuff room = (drop 1 ms, take 1 ms, take (min (length inBuff) room) inBuff)"

section \<open>Vector source\<close>

record 'e vector_source =
  vs_elems :: "'e list"
  vs_pending :: "'e list"
  vs_repeat :: bool
  vs_once :: bool

definition vs_new :: "'e vector_source" where
  "vs_new = \<lparr>vs_elems = [], vs_pending = [], vs_repeat = False, vs_once = False\<rparr>"

text \<open>The conversion to the type of the port (theory BufferConvert) is the parameter \<open>conv\<close>.\<close>

definition vs_setElements :: "('c list \<Rightarrow> 'e list) \<Rightarrow> 'c list \<Rightarrow> 'e vector_source \<Rightarrow> 'e vector_source" where
  "vs_setElements conv elems s = s\<lparr>vs_elems := conv elems, vs_once := False, vs_pending := []\<rparr>"

definition vs_setMode :: "string \<Rightarrow> 'e vector_source \<Rightarrow> ('e vector_source) result" where
  "vs_setMode mode s = (if mode = ''REPEAT'' then Inr (s\<lparr>vs_repeat := True\<rparr>)
     else if mode = ''ONCE'' then Inr (s\<lparr>vs_repeat := False\<rparr>) else Inl OtherException)"

definition vs_activate :: "'e vector_source \<Rightarrow> 'e vector_source" where
  "vs_activate s = s\<lparr>vs_once := False, vs_pending := []\<rparr>"

definition vs_work :: "nat \<Rightarrow> 'e vector_source \<Rightarrow> 'e vector_source \<times> 'e list" where
  "vs_work room s =
     (if \<not> vs_repeat s \<and> vs_once s then (s, [])
      else let pending = (if vs_pending s = [] then vs_elems s else vs_pending s);
               numElems = min (length pending) room;
               rest = drop numElems pending
           in (s\<lparr>vs_pending := rest, vs_once := (if rest = [] then True else vs_once s)\<rparr>, take numElems pending))"

fun vs_run :: "nat list \<Rightarrow> 'e vector_source \<Rightarrow> 'e vector_source \<times> 'e list" where
  "vs_run [] s = (s, [])"
| "vs_run (room # rooms) s = (let (s', out) = vs_work room s; (s'', outs) = vs_run rooms s' in (s'', out @ outs))"


section \<open>The stream of the delay\<close>

lemma delay_drop:
  assumes "dl_actual s \<le> dl_delta s" "int32 (dl_delta s - dl_actual s)" "int32 (dl_actual s - dl_delta s)"
  shows "\<exists>s' c rest. delay_run zero ns inp s = Some (s', rest, drop (nat (dl_delta s - dl_actual s)) c) \<and> inp = c @ rest"
  using assms
proof (induction ns arbitrary: inp s)
  case (Cons n ns)
  show ?case
  proof (cases "inp = []")
    case True
    have w: "delay_work zero (take (Suc n) inp) s = Some (s, 0, [])" using True by (simp add: delay_work_def)
    obtain s' c rest where r: "delay_run zero ns inp s = Some (s', rest, drop (nat (dl_delta s - dl_actual s)) c)" "inp = c @ rest"
      using Cons by blast
    have "delay_run zero (n # ns) inp s = Some (s', rest, drop (nat (dl_delta s - dl_actual s)) c)" by (simp add: w r(1))
    then show ?thesis using r(2) by blast
  next
    case False
    let ?b = "take (Suc n) inp"
    have b: "?b \<noteq> []" using False by simp
    show ?thesis
    proof (cases "dl_actual s = dl_delta s")
      case True
      have w: "delay_work zero ?b s = Some (s, length ?b, ?b)" using b True by (simp add: delay_work_def int32_def)
      obtain s' c rest where r: "delay_run zero ns (drop (length ?b) inp) s = Some (s', rest, drop (nat (dl_delta s - dl_actual s)) c)"
          "drop (length ?b) inp = c @ rest"
        using Cons by blast
      have "inp = ?b @ drop (length ?b) inp" by (metis append_eq_conv_conj append_take_drop_id)
      then have "inp = (?b @ c) @ rest" using r(2) by simp
      moreover have "delay_run zero (n # ns) inp s = Some (s', rest, drop (nat (dl_delta s - dl_actual s)) (?b @ c))"
        using True by (simp only: delay_run.simps w option.case prod.case r(1)) simp
      ultimately show ?thesis by blast
    next
      case d: False
      define k where "k = min (length ?b) (nat (dl_delta s - dl_actual s))"
      let ?s = "s\<lparr>dl_actual := dl_actual s + int k\<rparr>"
      have w: "delay_work zero ?b s = Some (?s, k, [])"
        using b d Cons.prems by (simp add: delay_work_def Let_def k_def)
      have k: "int k \<le> dl_delta s - dl_actual s" "k \<le> length inp"
        unfolding k_def using Cons.prems(1) by (auto simp: min_def)
      obtain s' c rest where r: "delay_run zero ns (drop k inp) ?s = Some (s', rest, drop (nat (dl_delta ?s - dl_actual ?s)) c)"
          "drop k inp = c @ rest"
        using Cons.IH[of ?s "drop k inp"] Cons.prems k(1) by (auto simp: int32_def)
      have "nat (dl_delta s - dl_actual s) = k + nat (dl_delta ?s - dl_actual ?s)" using k(1) by simp
      then have e: "drop (nat (dl_delta s - dl_actual s)) (take k inp @ c) = drop (nat (dl_delta ?s - dl_actual ?s)) c"
        using k(2) by simp
      have "inp = (take k inp @ c) @ rest" using r(2) by (metis append.assoc append_take_drop_id)
      moreover have "delay_run zero (n # ns) inp s = Some (s', rest, drop (nat (dl_delta s - dl_actual s)) (take k inp @ c))"
        unfolding e by (simp only: delay_run.simps w option.case prod.case r(1)) simp
      ultimately show ?thesis by blast
    qed
  qed
qed simp


lemma delay_insert:
  assumes "dl_delta s < dl_actual s" "int32 (dl_delta s - dl_actual s)" "int32 (dl_actual s - dl_delta s)"
  shows "\<exists>s' c rest. delay_run zero ns inp s =
     Some (s', rest, if inp = [] \<or> ns = [] then [] else replicate (nat (dl_actual s - dl_delta s)) zero @ c) \<and> inp = c @ rest"
proof (cases "inp = [] \<or> ns = []")
  case True
  have "delay_run zero ns [] s = Some (s, [], [])"
    by (induction ns) (simp_all add: delay_work_def)
  then show ?thesis using True by (cases ns) auto
next
  case False
  then obtain n ns' where ns: "ns = n # ns'" by (cases ns) auto
  let ?s = "s\<lparr>dl_actual := dl_delta s\<rparr>"
  have w: "delay_work zero (take (Suc n) inp) s = Some (?s, 0, replicate (nat (dl_actual s - dl_delta s)) zero)"
    using False assms by (simp add: delay_work_def Let_def)
  obtain s' c rest where r: "delay_run zero ns' inp ?s = Some (s', rest, drop (nat (dl_delta ?s - dl_actual ?s)) c)" "inp = c @ rest"
    using delay_drop[of ?s zero ns' inp] by (auto simp: int32_def)
  have "delay_run zero ns inp s = Some (s', rest, replicate (nat (dl_actual s - dl_delta s)) zero @ c)"
    unfolding ns using r(1) by (simp only: delay_run.simps w option.case prod.case drop_0 r(1)) simp
  then show ?thesis using False r(2) by auto
qed

text \<open>With a constant setting, and however the input arrives, a positive setting removes that many elements from the front of
  the stream, and a negative setting puts that many zeros before it; everything else is forwarded unchanged.\<close>

theorem delay_stream:
  assumes "int32 d" "int32 (- d)"
  shows "\<exists>s c rest. delay_run zero ns inp (setDelay d delay_new) = Some (s, rest,
       if d \<ge> 0 then drop (nat d) c else if inp = [] \<or> ns = [] then [] else replicate (nat (- d)) zero @ c) \<and> inp = c @ rest"
proof (cases "d \<ge> 0")
  case True
  then show ?thesis using delay_drop[of "setDelay d delay_new" zero ns inp] assms by (simp add: setDelay_def delay_new_def)
next
  case False
  have e: "dl_delta (setDelay d delay_new) = d" "dl_actual (setDelay d delay_new) = 0" by (simp_all add: setDelay_def delay_new_def)
  obtain s c rest where r: "delay_run zero ns inp (setDelay d delay_new)
      = Some (s, rest, if inp = [] \<or> ns = [] then [] else replicate (nat (- d)) zero @ c)" "inp = c @ rest"
    using delay_insert[of "setDelay d delay_new" zero ns inp, unfolded e diff_0 diff_0_right] False assms by (meson not_le)
  show ?thesis by (rule exI[of _ s], rule exI[of _ c], rule exI[of _ rest], rule conjI[OF _ r(2)]) (simp only: r(1) False if_False)
qed

lemma delay_stream_witness:
  "\<exists>s c rest. delay_run (0 :: nat) [1, 1, 1] [1, 2, 3, 4, 5] (setDelay 3 delay_new) = Some (s, rest, drop 3 c) \<and> [1, 2, 3, 4, 5] = c @ rest"
  using delay_stream[of 3 "0 :: nat" "[1, 1, 1]" "[1, 2, 3, 4, 5]"] by (simp add: int32_def)

section \<open>The other blocks\<close>

text \<open>The name of the mode is never set.\<close>

lemma gateway_mode_empty: "gw_mode (foldl (\<lambda>g m. setMode m g) gateway_new modes) = []"
proof -
  have "gw_mode g = [] \<Longrightarrow> gw_mode (foldl (\<lambda>g m. setMode m g) g modes) = []" for g
    by (induction modes arbitrary: g) (auto simp: setMode_def)
  then show ?thesis by (simp add: gateway_new_def setMode_def)
qed

text \<open>The first output of the router receives nothing, whatever the destinations.\<close>

lemma router_output0:
  assumes "router_work dests outputs vs = (ok, vs', posts)"
  shows "list_all (\<lambda>(k, p). 0 < k \<and> k < outputs) posts"
proof -
  have "router_ports dests outputs i vs = (ok, vs', posts) \<Longrightarrow> list_all (\<lambda>(k, p). 0 < k \<and> k < outputs) posts" for i
  proof (induction vs arbitrary: i vs' posts)
    case (Cons v vs)
    show ?case
    proof (cases "router_dest dests i > 0 \<and> nat (router_dest dests i) \<ge> outputs")
      case True
      then show ?thesis using Cons.prems by (simp add: Let_def)
    next
      case False
      obtain ok' ws rest where r: "router_ports dests outputs (Suc i) vs = (ok', ws, rest)" by (metis prod_cases3)
      obtain v' ps where v: "route_port (router_dest dests i) v = (v', ps)" by (metis surj_pair)
      have "list_all (\<lambda>(k, p). 0 < k \<and> k < outputs) ps"
        using v False by (cases v) (auto simp: route_port_def Let_def list_all_iff split: if_splits)
      moreover have "posts = ps @ rest" "ok = ok'" using Cons.prems False r v by (auto simp: Let_def)
      ultimately show ?thesis using Cons.IH r by auto
    qed
  qed simp
  then show ?thesis using assms by (simp add: router_work_def)
qed

text \<open>A buffer longer than the rest of the count is posted as a whole; the part that was not consumed stays at the input.\<close>

lemma finite_release_exceeds:
  assumes "fn_left s = n" "0 < n" "n < length buffer"
  shows "finite_work [] buffer s = (s\<lparr>fn_left := 0\<rparr>, [], [], n, buffer)"
  using assms by (auto simp: finite_work_def Let_def)

section \<open>The stream of the vector source\<close>

lemma vs_once_run:
  assumes "\<not> vs_repeat s" "vs_once s \<or> vs_pending s \<noteq> []"
  shows "snd (vs_run rooms s) = (if vs_once s then [] else take (sum_list rooms) (vs_pending s))"
  using assms
proof (induction rooms arbitrary: s)
  case (Cons room rooms)
  show ?case
  proof (cases "vs_once s")
    case True
    then show ?thesis using Cons by (simp add: vs_work_def case_prod_beta)
  next
    case False
    let ?s = "fst (vs_work room s)"
    have p: "vs_pending s \<noteq> []" using Cons.prems(2) False by simp
    have w: "vs_work room s = (?s, take room (vs_pending s))" "vs_pending ?s = drop room (vs_pending s)" "\<not> vs_repeat ?s"
      "vs_once ?s \<longleftrightarrow> drop room (vs_pending s) = []"
      using False p Cons.prems(1) by (auto simp: vs_work_def Let_def min_def)
    have "snd (vs_run rooms ?s) = take (sum_list rooms) (drop room (vs_pending s))"
      using Cons.IH[of ?s] w(2-4) by (cases "drop room (vs_pending s) = []") auto
    moreover have "snd (vs_run (room # rooms) s) = take room (vs_pending s) @ snd (vs_run rooms ?s)"
      using w(1) by (simp add: case_prod_beta) (metis snd_conv)
    ultimately show ?thesis using False by (simp add: take_add)
  qed
qed simp

lemma take_split:
  "take a p @ take n (drop a p @ t) = take (length (take a p) + min n (length (drop a p @ t))) (p @ t @ z)"
proof -
  have "p @ t @ z = take a p @ (drop a p @ t) @ z" by (metis append.assoc append_take_drop_id)
  moreover have "take (length A + k) (A @ B) = A @ take k B" for A B :: "'a list" and k by simp
  moreover have "take (min n (length B)) (B @ z) = take n B" for B by (simp add: min_def)
  ultimately show ?thesis by metis
qed

lemma vs_repeat_run:
  assumes "vs_repeat s" "vs_elems s \<noteq> []"
  shows "\<exists>n. snd (vs_run rooms s) = take n (vs_pending s @ concat (replicate (length rooms) (vs_elems s)))"
  using assms
proof (induction rooms arbitrary: s)
  case (Cons room rooms)
  let ?p = "if vs_pending s = [] then vs_elems s else vs_pending s" and ?s = "fst (vs_work room s)"
  have w: "snd (vs_work room s) = take room ?p" "vs_pending ?s = drop room ?p" "vs_repeat ?s" "vs_elems ?s = vs_elems s"
    using Cons.prems(1) by (auto simp: vs_work_def Let_def min_def)
  obtain n where n: "snd (vs_run rooms ?s) = take n (drop room ?p @ concat (replicate (length rooms) (vs_elems s)))"
    using Cons.IH[of ?s] w Cons.prems(2) by auto
  let ?all = "vs_pending s @ concat (replicate (length (room # rooms)) (vs_elems s))"
  have all: "?all = ?p @ concat (replicate (length rooms) (vs_elems s)) @ (if vs_pending s = [] then [] else vs_elems s)"
  proof -
    have "xs @ concat (replicate k xs) = concat (replicate k xs) @ xs" for k and xs :: "'a list" by (induction k) auto
    then show ?thesis by simp
  qed
  define t where "t = concat (replicate (length rooms) (vs_elems s))"
  have "snd (vs_run (room # rooms) s) = take room ?p @ take n (drop room ?p @ t)"
    using w(1) n by (simp add: case_prod_beta t_def)
  also have "\<dots> = take (length (take room ?p) + min n (length (drop room ?p @ t))) ?all"
    unfolding all t_def[symmetric] by (rule take_split)
  finally show ?case by blast
qed simp


text \<open>In repeat mode the vector source posts its elements over and over from the first on, whatever the room in the output buffers;
  in the other mode it posts them once.\<close>

theorem vector_source_stream:
  assumes "vs_elems s \<noteq> []"
  shows "if vs_repeat s then \<exists>n. snd (vs_run rooms (vs_activate s)) = take n (concat (replicate (length rooms) (vs_elems s)))
     else snd (vs_run rooms (vs_activate s)) = take (sum_list rooms) (vs_elems s)"
proof (cases "vs_repeat s")
  case True
  then show ?thesis using vs_repeat_run[of "vs_activate s" rooms] assms by (simp add: vs_activate_def)
next
  case False
  show ?thesis
  proof (cases rooms)
    case Nil
    then show ?thesis using False by simp
  next
    case (Cons room rooms')
    let ?s = "(vs_activate s)\<lparr>vs_pending := vs_elems s\<rparr>"
    have "vs_work room (vs_activate s) = vs_work room ?s"
      using assms by (simp add: vs_work_def vs_activate_def Let_def)
    then have "vs_run rooms (vs_activate s) = vs_run rooms ?s" by (simp add: Cons)
    then show ?thesis using vs_once_run[of ?s rooms] False assms by (simp add: vs_activate_def)
  qed
qed

lemma vector_source_stream_witness:
  "snd (vs_run [2, 2, 2] (vs_activate \<lparr>vs_elems = [1, 2, 3 :: nat], vs_pending = [], vs_repeat = False, vs_once = False\<rparr>)) = [1, 2, 3]"
  using vector_source_stream[of "\<lparr>vs_elems = [1, 2, 3 :: nat], vs_pending = [], vs_repeat = False, vs_once = False\<rparr>" "[2, 2, 2]"] by simp

end
