(* ===== verification/NetworkFlows.thy ===== *)
theory NetworkFlows
  imports TopologyCommit
begin

text \<open>
  Flows between processes (lib/Framework/TopologyNetworkFlows.cpp, envTagPort of TopologyImpl.hpp) and the commit of a
  topology over several processes (TopologyCommit.cpp). A flow that crosses processes is cut, and a pair of network blocks
  carries it: the sink in the process of the source port, the source in the process of the destination. One pair serves all
  flows of a port into a process, and a cache keeps the pairs between commits. Calls through proxies into other processes are
  the calls themselves, on one store of workers and topologies.

  The environment is \<open>places\<close>: the process and the node of every object. New objects get the addresses that the parameters
  give: \<open>new_block\<close> for the network block of a flow, \<open>newTopo\<close> for the topology of a process. Futures run in the order in which
  they are made, and the iteration order of a hash map is the order in which its keys first occur.
\<close>

section \<open>Network blocks\<close>

record places =
  pl_process :: "nat \<Rightarrow> string"
  pl_node :: "nat \<Rightarrow> string"
  pl_local :: string

definition process_of :: "places \<Rightarrow> port \<Rightarrow> string" where
  "process_of pl p = pl_process pl (the (po_obj p))"

definition envTagPort :: "places \<Rightarrow> port \<Rightarrow> port \<Rightarrow> port" where
  "envTagPort pl port other = port\<lparr>po_name := po_name port @ ''->'' @ process_of pl other\<rparr>"

text \<open>The call of the block registry in the environment of an object.\<close>

record net_call =
  nc_env :: nat
  nc_path :: string
  nc_uri :: string
  nc_opt :: string

text \<open>The source and the sink. The sink binds and the source connects, unless the sink's node is the local one.\<close>

definition createNetworkFlow :: "places \<Rightarrow> (string \<Rightarrow> string) \<Rightarrow> (flow \<Rightarrow> net_call \<Rightarrow> nat result) \<Rightarrow> (nat \<Rightarrow> string) \<Rightarrow> flow
    \<Rightarrow> (nat \<times> nat) result" where
  "createNetworkFlow pl lookupIp new_block actualPort f =
     (let s = the (po_obj (fl_src f)); d = the (po_obj (fl_dst f));
          swapped = (pl_local pl = pl_node pl s);
          (bindEnv, connEnv) = (if swapped then (d, s) else (s, d));
          (netBindPath, netConnPath) =
            (if swapped then (''/blocks/network_source'', ''/blocks/network_sink'') else (''/blocks/network_sink'', ''/blocks/network_source''));
          bindIp = lookupIp (pl_node pl bindEnv)
      in result_bind (new_block f \<lparr>nc_env = bindEnv, nc_path = netBindPath, nc_uri = ''tcp://'' @ bindIp, nc_opt = ''BIND''\<rparr>) (\<lambda>netBind.
         result_bind (new_block f \<lparr>nc_env = connEnv, nc_path = netConnPath,
                       nc_uri = ''tcp://'' @ bindIp @ '':'' @ actualPort netBind, nc_opt = ''CONNECT''\<rparr>) (\<lambda>netConn.
           Inr (if swapped then (netBind, netConn) else (netConn, netBind)))))"

section \<open>The cache and the flows\<close>

type_synonym netgress_cache = "(port \<times> nat \<times> nat) list"

definition cache_entry :: "port \<Rightarrow> netgress_cache \<Rightarrow> (port \<times> nat \<times> nat) option" where
  "cache_entry k c = find (\<lambda>e. port_eq (fst e) k) c"

definition cache_find :: "port \<Rightarrow> netgress_cache \<Rightarrow> (nat \<times> nat) option" where
  "cache_find k c = map_option snd (cache_entry k c)"

fun cache_set :: "port \<Rightarrow> nat \<times> nat \<Rightarrow> netgress_cache \<Rightarrow> netgress_cache" where
  "cache_set k v [] = [(k, v)]"
| "cache_set k v (e # c) = (if port_eq (fst e) k then (fst e, v) # c else e # cache_set k v c)"

fun group_add :: "port \<Rightarrow> flow \<Rightarrow> (port \<times> flow list) list \<Rightarrow> (port \<times> flow list) list" where
  "group_add k f [] = [(k, [f])]"
| "group_add k f (g # m) = (if port_eq (fst g) k then (fst g, snd g @ [f]) # m else g # group_add k f m)"

definition same_process :: "places \<Rightarrow> flow \<Rightarrow> bool" where
  "same_process pl f \<longleftrightarrow> process_of pl (fl_src f) = process_of pl (fl_dst f)"

definition srcToFlows :: "places \<Rightarrow> flow list \<Rightarrow> (port \<times> flow list) list" where
  "srcToFlows pl flatFlows =
     fold (\<lambda>f. group_add (envTagPort pl (fl_src f) (fl_dst f)) f) (filter (\<lambda>f. \<not> same_process pl f) flatFlows) []"

text \<open>The first error of a future is thrown, with the futures before it already in the cache.\<close>

fun load_futures :: "(flow \<Rightarrow> (nat \<times> nat) result) \<Rightarrow> (port \<times> flow list) list \<Rightarrow> netgress_cache \<Rightarrow> netgress_cache \<times> pothos_error option" where
  "load_futures create [] c = (c, None)"
| "load_futures create (g # gs) c = (case create (hd (snd g)) of
     Inl e \<Rightarrow> (c, Some e)
   | Inr v \<Rightarrow> load_futures create gs (cache_set (fst g) v c))"

definition network_pieces :: "nat \<Rightarrow> netgress_cache \<Rightarrow> port \<times> flow list \<Rightarrow> flow list" where
  "network_pieces self c g = (case cache_find (fst g) c of
     None \<Rightarrow> []
   | Some (netSource, netSink) \<Rightarrow>
       \<lparr>fl_src = fl_src (hd (snd g)), fl_dst = makePort self netSink ''0''\<rparr>
       # map (\<lambda>f. \<lparr>fl_src = makePort self netSource ''0'', fl_dst = fl_dst f\<rparr>) (snd g))"

definition createNetworkFlows :: "places \<Rightarrow> (flow \<Rightarrow> (nat \<times> nat) result) \<Rightarrow> nat \<Rightarrow> flow list \<Rightarrow> netgress_cache
    \<Rightarrow> netgress_cache \<times> flow list result" where
  "createNetworkFlows pl create self flatFlows cache =
     (let groups = srcToFlows pl flatFlows
      in case load_futures create (filter (\<lambda>g. cache_find (fst g) cache = None) groups) cache of
           (cache, Some e) \<Rightarrow> (cache, Inl e)
         | (cache, None) \<Rightarrow> (cache, Inr (filter (same_process pl) flatFlows @ concat (map (network_pieces self cache) groups))))"

section \<open>The commit over processes\<close>

record netgress =
  ng_cache :: netgress_cache
  ng_remotes :: "(string \<times> nat) list"

definition make_remotes :: "places \<Rightarrow> (string \<Rightarrow> nat) \<Rightarrow> flow list \<Rightarrow> net \<times> (string \<times> nat) list \<Rightarrow> net \<times> (string \<times> nat) list" where
  "make_remotes pl newTopo flatFlows =
     fold (\<lambda>obj (n, remotes).
         let upid = pl_process pl (the obj)
         in if smap_find upid remotes \<noteq> None then (n, remotes)
            else (n\<lparr>n_topo := (n_topo n)(newTopo upid := Some tp_new)\<rparr>, smap_set upid (newTopo upid) remotes))
       (getObjSetFromFlowList flatFlows [])"

fun connect_remotes :: "env \<Rightarrow> (flow \<Rightarrow> nat \<times> nat \<times> nat) \<Rightarrow> places \<Rightarrow> (string \<times> nat) list \<Rightarrow> flow list \<Rightarrow> net \<Rightarrow> net \<times> pothos_error option" where
  "connect_remotes env ids pl remotes [] n = (n, None)"
| "connect_remotes env ids pl remotes (f # fs) n =
     (case smap_find (process_of pl (fl_src f)) remotes of
        None \<Rightarrow> (n, Some OtherException)
      | Some u \<Rightarrow> (case ids f of (pidOut, midOut, pidIn) \<Rightarrow>
          (case tp_connect env u (po_obj (fl_src f)) (po_name (fl_src f)) (po_obj (fl_dst f)) (po_name (fl_dst f)) pidOut midOut pidIn n of
             (n, Some e) \<Rightarrow> (n, Some e)
           | (n, None) \<Rightarrow> connect_remotes env ids pl remotes fs n)))"

text \<open>All sub-topologies commit; their errors are collected.\<close>

fun commit_remotes :: "env \<Rightarrow> (port \<Rightarrow> nat) \<Rightarrow> (string \<times> nat) list \<Rightarrow> net \<Rightarrow> net \<times> pothos_error list" where
  "commit_remotes env mgr [] n = (n, [])"
| "commit_remotes env mgr (r # rs) n =
     (case commit_sub env mgr (snd r) n of (n, e) \<Rightarrow>
       (case commit_remotes env mgr rs n of (n, errs) \<Rightarrow> (n, (case e of None \<Rightarrow> errs | Some e \<Rightarrow> e # errs))))"

text \<open>Only the pairs of the flows stay in the cache.\<close>

definition clean_cache :: "places \<Rightarrow> flow list \<Rightarrow> netgress_cache \<Rightarrow> netgress_cache" where
  "clean_cache pl completeFlows cache =
     fold (\<lambda>f c. case cache_entry (envTagPort pl (fl_src f) (fl_dst f)) cache of
         None \<Rightarrow> c | Some (port, v) \<Rightarrow> cache_set port v c) completeFlows []"

definition commit_flows :: "env \<Rightarrow> (bool \<Rightarrow> port \<Rightarrow> nat) \<Rightarrow> places \<Rightarrow> (flow \<Rightarrow> (nat \<times> nat) result) \<Rightarrow> nat \<Rightarrow> flow list \<Rightarrow> world
    \<Rightarrow> netgress_cache \<Rightarrow> netgress_cache \<times> flow list result" where
  "commit_flows env copier pl create self completeFlows w cache =
     (case createNetworkFlows pl create self completeFlows cache of
        (cache, Inl e) \<Rightarrow> (cache, Inl e)
      | (cache, Inr flatFlows) \<Rightarrow> (cache, rectifyDomainFlows env copier self flatFlows w))"

definition tp_commit_net :: "env \<Rightarrow> (bool \<Rightarrow> port \<Rightarrow> nat) \<Rightarrow> (flow \<Rightarrow> nat \<times> nat \<times> nat) \<Rightarrow> (port \<Rightarrow> nat) \<Rightarrow> places
    \<Rightarrow> (flow \<Rightarrow> (nat \<times> nat) result) \<Rightarrow> (string \<Rightarrow> nat) \<Rightarrow> nat \<Rightarrow> nat \<Rightarrow> netgress \<Rightarrow> net \<Rightarrow> (netgress \<times> net \<times> pothos_error option) option" where
  "tp_commit_net env copier ids mgr pl create newTopo fuel self ng n =
     (case squashFlows fuel n (tp_flows (the_topo self n)) of
        None \<Rightarrow> None
      | Some squashedFlows \<Rightarrow>
          (let completeFlows = completePassThroughFlows squashedFlows in
           Some (case commit_flows env copier pl create self completeFlows (n_world n) (ng_cache ng) of
             (cache, Inl e) \<Rightarrow> (ng\<lparr>ng_cache := cache\<rparr>, n, Some e)
           | (cache, Inr flatFlows) \<Rightarrow>
               (let (n, remotes) = make_remotes pl newTopo flatFlows (n, ng_remotes ng);
                    n = fold (\<lambda>r. tp_disconnectAll False (snd r)) remotes n;
                    ng = \<lparr>ng_cache = cache, ng_remotes = remotes\<rparr>
                in case connect_remotes env ids pl remotes flatFlows n of
                     (n, Some e) \<Rightarrow> (ng, n, Some e)
                   | (n, None) \<Rightarrow>
                       (case commit_remotes env mgr remotes n of (n, errs) \<Rightarrow>
                          if errs \<noteq> [] then (ng, n, Some TopologyConnectError)
                          else (ng\<lparr>ng_cache := clean_cache pl completeFlows cache\<rparr>,
                                upd_topo self (\<lambda>t. t\<lparr>tp_activeFlatFlows := flatFlows\<rparr>) n, None))))))"

section \<open>The cache\<close>

lemma port_eq_refl [simp]: "port_eq p p"
  by (simp add: port_eq_def)

lemma cache_find_Nil [simp]: "cache_find k [] = None"
  by (simp add: cache_find_def cache_entry_def)

lemma cache_find_Cons [simp]: "cache_find k (e # c) = (if port_eq (fst e) k then Some (snd e) else cache_find k c)"
  by (simp add: cache_find_def cache_entry_def)

lemma cache_find_set: "cache_find k (cache_set k' v c) = (if port_eq k' k then Some v else cache_find k c)"
  by (induction c) (auto simp: port_eq_def)

lemma cache_find_cong: "port_eq k k' \<Longrightarrow> cache_find k c = cache_find k' c"
  by (induction c) (auto simp: port_eq_def)

lemma cache_find_in: "cache_find k c = Some v \<Longrightarrow> \<exists>e \<in> set c. port_eq (fst e) k \<and> snd e = v"
  by (induction c) (auto split: if_splits)

lemma cache_entry_in: "cache_entry k c = Some e \<Longrightarrow> e \<in> set c \<and> port_eq (fst e) k"
  by (auto simp: cache_entry_def find_Some_iff)

lemma cache_set_elems: "e \<in> set (cache_set k v c) \<Longrightarrow> e \<in> set c \<or> port_eq (fst e) k \<and> snd e = v"
  by (induction c) (auto split: if_splits)

section \<open>Groups of flows\<close>

abbreviation tag :: "places \<Rightarrow> flow \<Rightarrow> port" where
  "tag pl f \<equiv> envTagPort pl (fl_src f) (fl_dst f)"

definition groups_ok :: "places \<Rightarrow> flow list \<Rightarrow> (port \<times> flow list) list \<Rightarrow> bool" where
  "groups_ok pl fs gs \<longleftrightarrow> sorted_wrt (\<lambda>g h. \<not> port_eq (fst g) (fst h)) gs
     \<and> (\<forall>g \<in> set gs. snd g \<noteq> [] \<and> (\<forall>f \<in> set (snd g). f \<in> set fs \<and> port_eq (tag pl f) (fst g)))
     \<and> (\<forall>f \<in> set fs. \<exists>g \<in> set gs. f \<in> set (snd g))"

lemma group_add_keys: "g \<in> set (group_add k f gs) \<Longrightarrow>
    (\<exists>h \<in> set gs. fst g = fst h \<and> (snd g = snd h \<or> port_eq (fst h) k \<and> snd g = snd h @ [f])) \<or> g = (k, [f])"
  by (induction gs) (auto split: if_splits)

lemma group_add_sorted:
  "sorted_wrt (\<lambda>g h. \<not> port_eq (fst g) (fst h)) gs \<Longrightarrow> sorted_wrt (\<lambda>g h. \<not> port_eq (fst g) (fst h)) (group_add k f gs)"
proof (induction gs)
  case (Cons g gs)
  have "\<not> port_eq (fst g) (fst h)" if "h \<in> set (group_add k f gs)" "\<not> port_eq (fst g) k" for h
    using group_add_keys[OF that(1)] that(2) Cons.prems by auto
  then show ?case using Cons by auto
qed simp

lemma group_add_has: "\<exists>g \<in> set (group_add k f gs). f \<in> set (snd g)"
  by (induction gs) auto

lemma group_add_keeps: "g \<in> set gs \<Longrightarrow> \<exists>h \<in> set (group_add k f gs). set (snd g) \<subseteq> set (snd h)"
  by (induction gs) auto

lemma group_add_ok:
  assumes "groups_ok pl fs gs"
  shows "groups_ok pl (fs @ [f]) (group_add (tag pl f) f gs)"
  unfolding groups_ok_def
proof (intro conjI ballI)
  show "sorted_wrt (\<lambda>g h. \<not> port_eq (fst g) (fst h)) (group_add (tag pl f) f gs)"
    using assms group_add_sorted by (simp add: groups_ok_def)
next
  fix g assume "g \<in> set (group_add (tag pl f) f gs)"
  then show "snd g \<noteq> []"
    using group_add_keys[of g "tag pl f" f gs] assms by (auto simp: groups_ok_def)
  fix h assume "h \<in> set (snd g)"
  then show "h \<in> set (fs @ [f])" "port_eq (tag pl h) (fst g)"
    using group_add_keys[of g "tag pl f" f gs] \<open>g \<in> _\<close> assms by (auto simp: groups_ok_def port_eq_def)
next
  fix h assume "h \<in> set (fs @ [f])"
  then consider "h = f" | g where "g \<in> set gs" "h \<in> set (snd g)" using assms by (auto simp: groups_ok_def)
  then show "\<exists>g \<in> set (group_add (tag pl f) f gs). h \<in> set (snd g)"
    using group_add_has group_add_keeps by cases blast+
qed

lemma fold_group_ok:
  "groups_ok pl pre gs \<Longrightarrow> groups_ok pl (pre @ fs) (fold (\<lambda>f. group_add (tag pl f) f) fs gs)"
proof (induction fs arbitrary: pre gs)
  case (Cons f fs)
  show ?case using Cons.IH[OF group_add_ok[OF Cons.prems, of f]] by simp
qed simp

lemma srcToFlows_ok: "groups_ok pl (filter (\<lambda>f. \<not> same_process pl f) fs) (srcToFlows pl fs)"
proof -
  have "groups_ok pl [] []" by (simp add: groups_ok_def)
  from fold_group_ok[OF this] show ?thesis unfolding srcToFlows_def append_Nil .
qed

section \<open>The loaded cache\<close>

lemma load_futures_find:
  "load_futures create gs c = (c', None) \<Longrightarrow> (\<And>g. g \<in> set gs \<Longrightarrow> \<not> port_eq (fst g) k) \<Longrightarrow> cache_find k c' = cache_find k c"
  by (induction gs arbitrary: c) (auto simp: cache_find_set split: sum.splits)

lemma load_futures_new:
  assumes "load_futures create gs c = (c', None)" "g \<in> set gs" "sorted_wrt (\<lambda>g h. \<not> port_eq (fst g) (fst h)) gs"
  shows "cache_find (fst g) c' \<noteq> None"
  using assms
proof (induction gs arbitrary: c)
  case (Cons h gs)
  obtain v where v: "create (hd (snd h)) = Inr v" using Cons.prems(1) by (auto split: sum.splits)
  have run: "load_futures create gs (cache_set (fst h) v c) = (c', None)" using Cons.prems(1) v by simp
  show ?case
  proof (cases "g = h")
    case True
    have "\<And>g'. g' \<in> set gs \<Longrightarrow> \<not> port_eq (fst g') (fst g)" using Cons.prems(3) True by (auto simp: port_eq_def)
    then show ?thesis using load_futures_find[OF run] True by (simp add: cache_find_set)
  next
    case False
    then show ?thesis using Cons.IH[OF run] Cons.prems by auto
  qed
qed simp

lemma load_futures_elems:
  "load_futures create gs c = (c', e) \<Longrightarrow> x \<in> set c' \<Longrightarrow>
     x \<in> set c \<or> (\<exists>g \<in> set gs. port_eq (fst x) (fst g) \<and> create (hd (snd g)) = Inr (snd x))"
proof (induction gs arbitrary: c)
  case (Cons g gs)
  show ?case
  proof (cases "create (hd (snd g))")
    case (Inr v)
    then have "x \<in> set (cache_set (fst g) v c) \<or> (\<exists>g \<in> set gs. port_eq (fst x) (fst g) \<and> create (hd (snd g)) = Inr (snd x))"
      using Cons by auto
    then show ?thesis using cache_set_elems[of x "fst g" v c] Inr by auto
  qed (use Cons.prems in auto)
qed simp

lemma created_groups:
  assumes "createNetworkFlows pl create self fs cache = (cache', Inr net)"
  shows "net = filter (same_process pl) fs @ concat (map (network_pieces self cache') (srcToFlows pl fs))"
    and "g \<in> set (srcToFlows pl fs) \<Longrightarrow> cache_find (fst g) cache' \<noteq> None"
proof -
  let ?new = "filter (\<lambda>g. cache_find (fst g) cache = None) (srcToFlows pl fs)"
  have load: "load_futures create ?new cache = (cache', None)"
    and net: "net = filter (same_process pl) fs @ concat (map (network_pieces self cache') (srcToFlows pl fs))"
    using assms by (auto simp: createNetworkFlows_def Let_def split: prod.splits option.splits)
  show "net = filter (same_process pl) fs @ concat (map (network_pieces self cache') (srcToFlows pl fs))" by (rule net)
  assume g: "g \<in> set (srcToFlows pl fs)"
  have sorted: "sorted_wrt (\<lambda>g h. \<not> port_eq (fst g) (fst h)) (srcToFlows pl fs)"
    using srcToFlows_ok by (simp add: groups_ok_def)
  show "cache_find (fst g) cache' \<noteq> None"
  proof (cases "\<exists>h \<in> set ?new. port_eq (fst h) (fst g)")
    case True
    then obtain h where h: "h \<in> set ?new" "port_eq (fst h) (fst g)" by blast
    then show ?thesis
      using load_futures_new[OF load h(1)] sorted_wrt_filter[OF sorted] cache_find_cong[OF h(2)] by simp
  next
    case False
    then have "cache_find (fst g) cache' = cache_find (fst g) cache" using load_futures_find[OF load] by blast
    moreover have "cache_find (fst g) cache \<noteq> None" 
    proof
      assume "cache_find (fst g) cache = None"
      then have "g \<in> set ?new" using g by simp
      then show False using False port_eq_refl by blast
    qed
    ultimately show ?thesis by simp
  qed
qed

section \<open>Network flows keep the connections\<close>

text \<open>The blocks of the cache are different objects, and none is an end of the flows.\<close>

definition netgress_fresh :: "flow list \<Rightarrow> netgress_cache \<Rightarrow> bool" where
  "netgress_fresh fs c \<longleftrightarrow> distinct (concat (map (\<lambda>e. [fst (snd e), snd (snd e)]) c))
     \<and> (\<forall>e \<in> set c. fst (snd e) \<notin> ends fs \<and> snd (snd e) \<notin> ends fs)"

lemma pair_blocks_inj:
  assumes "distinct (concat (map (\<lambda>e. [fst (snd e), snd (snd e)]) c))" "e \<in> set c" "e' \<in> set c"
    "{fst (snd e), snd (snd e)} \<inter> {fst (snd e'), snd (snd e')} \<noteq> {}"
  shows "e = e' \<and> fst (snd e) \<noteq> snd (snd e)"
  using assms by (induction c) (auto simp: image_iff)

lemma cache_blocks_key:
  assumes "netgress_fresh fs c" "cache_find k c = Some v" "cache_find k' c = Some v'" "{fst v, snd v} \<inter> {fst v', snd v'} \<noteq> {}"
  shows "port_eq k k' \<and> v = v' \<and> fst v \<noteq> snd v"
proof -
  obtain e e' where e: "e \<in> set c" "port_eq (fst e) k" "snd e = v" and e': "e' \<in> set c" "port_eq (fst e') k'" "snd e' = v'"
    using cache_find_in[OF assms(2)] cache_find_in[OF assms(3)] by blast
  have "e = e' \<and> fst (snd e) \<noteq> snd (snd e)"
    using pair_blocks_inj[of c e e'] assms(1,4) e e' by (simp add: netgress_fresh_def)
  then show ?thesis using e e' by (auto simp: port_eq_def)
qed

text \<open>A name of a process has no arrow head, so a tagged name gives back the name of the port and the process.\<close>

lemma arrow_split:
  assumes "a @ ''->'' @ p = b @ ''->'' @ q" "CHR ''>'' \<notin> set p" "CHR ''>'' \<notin> set q"
  shows "a = b \<and> p = q"
proof -
  have tw: "takeWhile (\<lambda>c. c \<noteq> CHR ''>'') (rev (x @ ''->'' @ y)) = rev y" if "CHR ''>'' \<notin> set y" for x y
    using that by simp (subst takeWhile_append2, auto)
  have "rev p = rev q" using tw[OF assms(2), of a] tw[OF assms(3), of b] unfolding assms(1) by (rule trans[OF sym])
  then show ?thesis using assms(1) by simp
qed

lemma tag_eq:
  assumes "port_eq (tag pl f) (tag pl g)" "CHR ''>'' \<notin> set (process_of pl (fl_dst f))" "CHR ''>'' \<notin> set (process_of pl (fl_dst g))"
  shows "port_eq (fl_src f) (fl_src g)"
  using assms arrow_split[of "po_name (fl_src f)" "process_of pl (fl_dst f)"] by (auto simp: port_eq_def envTagPort_def)

lemma network_pieces_iff:
  assumes "cache_find (fst g) c = Some (so, si)"
  shows "has_flow h (network_pieces self c g) \<longleftrightarrow>
     port_eq (fl_src (hd (snd g))) (fl_src h) \<and> port_eq (makePort self si ''0'') (fl_dst h)
     \<or> (\<exists>f \<in> set (snd g). port_eq (makePort self so ''0'') (fl_src h) \<and> port_eq (fl_dst f) (fl_dst h))"
  using assms by (auto simp: network_pieces_def flow_eq_ends has_flow_def)

lemma network_group:
  assumes run: "createNetworkFlows pl create self fs cache = (cache', Inr net)" and fresh: "netgress_fresh fs cache'"
    and names: "\<forall>p \<in> flow_ports fs. CHR ''>'' \<notin> set (process_of pl p)" and g: "g \<in> set (srcToFlows pl fs)"
  obtains so si where "cache_find (fst g) cache' = Some (so, si)" "so \<notin> ends fs" "si \<notin> ends fs" "snd g \<noteq> []"
    "\<And>f. f \<in> set (snd g) \<Longrightarrow> f \<in> set fs \<and> port_eq (tag pl f) (fst g) \<and> port_eq (fl_src f) (fl_src (hd (snd g)))"
proof -
  obtain so si where c: "cache_find (fst g) cache' = Some (so, si)" using created_groups(2)[OF run g] by auto
  obtain e where "e \<in> set cache'" "snd e = (so, si)" using cache_find_in[OF c] by blast
  then have ends: "so \<notin> ends fs" "si \<notin> ends fs" using fresh by (auto simp: netgress_fresh_def)
  have ok: "snd g \<noteq> []" "\<And>f. f \<in> set (snd g) \<Longrightarrow> f \<in> set fs \<and> port_eq (tag pl f) (fst g)"
    using srcToFlows_ok[of pl fs] g by (auto simp: groups_ok_def)
  have "port_eq (fl_src f) (fl_src (hd (snd g)))" if f: "f \<in> set (snd g)" for f
  proof (rule tag_eq[of pl])
    have h: "hd (snd g) \<in> set (snd g)" using ok(1) by simp
    show "port_eq (tag pl f) (tag pl (hd (snd g)))"
      using ok(2)[OF f] ok(2)[OF h] by (meson port_eq_sym port_eq_trans)
    show "CHR ''>'' \<notin> set (process_of pl (fl_dst f))" "CHR ''>'' \<notin> set (process_of pl (fl_dst (hd (snd g))))"
      using ok(2)[OF f] ok(2)[OF h] names by (simp_all add: flow_ports_def)
  qed
  then show ?thesis using that[OF c ends ok(1)] ok(2) by blast
qed

lemma network_has_flow:
  assumes "createNetworkFlows pl create self fs cache = (cache', Inr net)"
  shows "has_flow h net \<longleftrightarrow> has_flow h (filter (same_process pl) fs)
      \<or> (\<exists>g \<in> set (srcToFlows pl fs). has_flow h (network_pieces self cache' g))"
  unfolding created_groups(1)[OF assms] by (auto simp: has_flow_def)

lemma has_flow_filter: "has_flow h (filter P fs) \<Longrightarrow> has_flow h fs"
  by (auto simp: has_flow_def)

lemma cached_not_end: "netgress_fresh fs c \<Longrightarrow> cache_find k c = Some v \<Longrightarrow> fst v \<notin> ends fs \<and> snd v \<notin> ends fs"
  using cache_find_in[of k c v] by (auto simp: netgress_fresh_def)

lemma into_sink:
  assumes run: "createNetworkFlows pl create self fs cache = (cache', Inr net)" and fresh: "netgress_fresh fs cache'"
    and names: "\<forall>p \<in> flow_ports fs. CHR ''>'' \<notin> set (process_of pl p)" and s: "po_uid s \<in> ends fs"
    and v: "cache_find k cache' = Some v" and f: "has_flow \<lparr>fl_src = s, fl_dst = makePort self (snd v) ''0''\<rparr> net"
  shows "\<exists>g \<in> set (srcToFlows pl fs). cache_find (fst g) cache' = Some v \<and> port_eq (fl_src (hd (snd g))) s"
proof -
  have "\<not> has_flow \<lparr>fl_src = s, fl_dst = makePort self (snd v) ''0''\<rparr> (filter (same_process pl) fs)"
    using has_flow_ends[OF has_flow_filter] cached_not_end[OF fresh v] by (fastforce simp: makePort_def)
  then obtain g where g: "g \<in> set (srcToFlows pl fs)" "has_flow \<lparr>fl_src = s, fl_dst = makePort self (snd v) ''0''\<rparr> (network_pieces self cache' g)"
    using f network_has_flow[OF run] by blast
  obtain so si where c: "cache_find (fst g) cache' = Some (so, si)" "so \<notin> ends fs"
    using network_group[OF run fresh names g(1)] by metis
  have p: "port_eq (fl_src (hd (snd g))) s" "si = snd v"
    using g(2) s c(2) unfolding network_pieces_iff[OF c(1)] by (auto simp: port_eq_def makePort_def)
  then have "(so, si) = v" using cache_blocks_key[OF fresh c(1) v] by auto
  then show ?thesis using g(1) c(1) p(1) by blast
qed

lemma from_source:
  assumes run: "createNetworkFlows pl create self fs cache = (cache', Inr net)" and fresh: "netgress_fresh fs cache'"
    and names: "\<forall>p \<in> flow_ports fs. CHR ''>'' \<notin> set (process_of pl p)" and d: "po_uid d \<in> ends fs"
    and v: "cache_find k cache' = Some v" and f: "has_flow \<lparr>fl_src = makePort self (fst v) ''0'', fl_dst = d\<rparr> net"
  shows "\<exists>g \<in> set (srcToFlows pl fs). cache_find (fst g) cache' = Some v \<and> (\<exists>f \<in> set (snd g). port_eq (fl_dst f) d)"
proof -
  have "\<not> has_flow \<lparr>fl_src = makePort self (fst v) ''0'', fl_dst = d\<rparr> (filter (same_process pl) fs)"
    using has_flow_ends[OF has_flow_filter] cached_not_end[OF fresh v] by (fastforce simp: makePort_def)
  then obtain g where g: "g \<in> set (srcToFlows pl fs)" "has_flow \<lparr>fl_src = makePort self (fst v) ''0'', fl_dst = d\<rparr> (network_pieces self cache' g)"
    using f network_has_flow[OF run] by blast
  obtain so si where c: "cache_find (fst g) cache' = Some (so, si)" "si \<notin> ends fs"
    using network_group[OF run fresh names g(1)] by metis
  have p: "\<exists>f \<in> set (snd g). port_eq (fl_dst f) d" "so = fst v"
    using g(2) d c(2) unfolding network_pieces_iff[OF c(1)] by (auto simp: port_eq_def makePort_def)
  then have "(so, si) = v" using cache_blocks_key[OF fresh c(1) v] by auto
  then show ?thesis using g(1) c(1) p(1) by blast
qed

lemma through_pair:
  assumes run: "createNetworkFlows pl create self fs cache = (cache', Inr net)" and fresh: "netgress_fresh fs cache'"
    and names: "\<forall>p \<in> flow_ports fs. CHR ''>'' \<notin> set (process_of pl p)" and s: "po_uid s \<in> ends fs" and d: "po_uid d \<in> ends fs"
    and v: "cache_find k cache' = Some v" and into: "has_flow \<lparr>fl_src = s, fl_dst = makePort self (snd v) ''0''\<rparr> net"
    and out: "has_flow \<lparr>fl_src = makePort self (fst v) ''0'', fl_dst = d\<rparr> net"
  shows "has_flow \<lparr>fl_src = s, fl_dst = d\<rparr> fs"
proof -
  obtain g where g: "g \<in> set (srcToFlows pl fs)" "cache_find (fst g) cache' = Some v" "port_eq (fl_src (hd (snd g))) s"
    using into_sink[OF run fresh names s v into] by blast
  obtain h f where h: "h \<in> set (srcToFlows pl fs)" "cache_find (fst h) cache' = Some v" "f \<in> set (snd h)" "port_eq (fl_dst f) d"
    using from_source[OF run fresh names d v out] by blast
  have hd: "hd (snd g) \<in> set (snd g)" using network_group[OF run fresh names g(1)] by (metis list.set_sel(1))
  have e: "hd (snd g) \<in> set fs" "f \<in> set fs" "port_eq (tag pl (hd (snd g))) (fst g)" "port_eq (tag pl f) (fst h)"
    using network_group[OF run fresh names g(1)] network_group[OF run fresh names h(1)] hd h(3) by metis+
  have "port_eq (fst g) (fst h)" using cache_blocks_key[OF fresh g(2) h(2)] by simp
  then have "port_eq (tag pl (hd (snd g))) (tag pl f)" using e(3,4) by (meson port_eq_sym port_eq_trans)
  then have "port_eq (fl_src (hd (snd g))) (fl_src f)"
    using tag_eq[of pl "hd (snd g)" f] names e(1,2) by (simp add: flow_ports_def)
  then have "port_eq (fl_src f) s" using g(3) by (simp add: port_eq_def)
  then show ?thesis using e(2) h(4) by (auto simp: has_flow_def flow_eq_ends)
qed

lemma pair_back:
  assumes run: "createNetworkFlows pl create self fs cache = (cache', Inr net)" and fresh: "netgress_fresh fs cache'"
    and names: "\<forall>p \<in> flow_ports fs. CHR ''>'' \<notin> set (process_of pl p)"
    and f: "f \<in> set fs" "\<not> same_process pl f" "port_eq (fl_src f) s" "port_eq (fl_dst f) d"
  shows "\<exists>k netSource netSink. cache_find k cache' = Some (netSource, netSink)
           \<and> has_flow \<lparr>fl_src = s, fl_dst = makePort self netSink ''0''\<rparr> net
           \<and> has_flow \<lparr>fl_src = makePort self netSource ''0'', fl_dst = d\<rparr> net"
proof -
  obtain g where g: "g \<in> set (srcToFlows pl fs)" "f \<in> set (snd g)" using srcToFlows_ok[of pl fs] f(1,2) by (auto simp: groups_ok_def)
  obtain so si where c: "cache_find (fst g) cache' = Some (so, si)" "port_eq (fl_src f) (fl_src (hd (snd g)))"
    using network_group[OF run fresh names g(1)] g(2) by metis
  have "has_flow \<lparr>fl_src = s, fl_dst = makePort self si ''0''\<rparr> (network_pieces self cache' g)"
    "has_flow \<lparr>fl_src = makePort self so ''0'', fl_dst = d\<rparr> (network_pieces self cache' g)"
    unfolding network_pieces_iff[OF c(1)] using c(2) f(3,4) g(2) by (auto simp: port_eq_def)
  then show ?thesis using network_has_flow[OF run] g(1) c(1) by blast
qed

text \<open>C24: Two ports are connected by a flow of the topology exactly when they are connected after the cut: directly, or through a
  pair of network blocks.\<close>

theorem network_flows_contract:
  assumes run: "createNetworkFlows pl create self fs cache = (cache', Inr net)"
    and fresh: "netgress_fresh fs cache'"
    and names: "\<forall>p \<in> flow_ports fs. CHR ''>'' \<notin> set (process_of pl p)"
    and s: "po_uid s \<in> ends fs" and d: "po_uid d \<in> ends fs"
  shows "(has_flow \<lparr>fl_src = s, fl_dst = d\<rparr> net
      \<or> (\<exists>k netSource netSink. cache_find k cache' = Some (netSource, netSink)
           \<and> has_flow \<lparr>fl_src = s, fl_dst = makePort self netSink ''0''\<rparr> net
           \<and> has_flow \<lparr>fl_src = makePort self netSource ''0'', fl_dst = d\<rparr> net))
      = has_flow \<lparr>fl_src = s, fl_dst = d\<rparr> fs" (is "(?direct \<or> ?through) = ?flow")
proof
  have "\<not> has_flow \<lparr>fl_src = s, fl_dst = d\<rparr> (network_pieces self cache' g)" if g: "g \<in> set (srcToFlows pl fs)" for g
  proof (rule network_group[OF run fresh names g])
    fix so si assume c: "cache_find (fst g) cache' = Some (so, si)" and e: "so \<notin> ends fs" "si \<notin> ends fs"
    show ?thesis unfolding network_pieces_iff[OF c] using e s d by (auto simp: port_eq_def makePort_def)
  qed
  then have "?direct \<Longrightarrow> ?flow" using network_has_flow[OF run] has_flow_filter by blast
  moreover have "?through \<Longrightarrow> ?flow" using through_pair[OF run fresh names s d] by fastforce
  ultimately show "?direct \<or> ?through \<Longrightarrow> ?flow" by blast
next
  assume ?flow
  then obtain f where f: "f \<in> set fs" "port_eq (fl_src f) s" "port_eq (fl_dst f) d" by (auto simp: has_flow_def flow_eq_ends)
  show "?direct \<or> ?through"
  proof (cases "same_process pl f")
    case True
    then have "has_flow \<lparr>fl_src = s, fl_dst = d\<rparr> (filter (same_process pl) fs)" using f by (auto simp: has_flow_def flow_eq_ends)
    then show ?thesis using network_has_flow[OF run] by blast
  next
    case False
    then show ?thesis using pair_back[OF run fresh names f(1) False f(2,3)] by blast
  qed
qed

text \<open>Block 1 lives in process A, blocks 2 and 3 in process B.\<close>

definition demo_places :: places where
  "demo_places = \<lparr>pl_process = (\<lambda>u. if u \<in> {2, 3, 100} then ''B'' else ''A''), pl_node = (\<lambda>u. if u \<in> {2, 3, 100} then ''nb'' else ''na''),
     pl_local = ''na''\<rparr>"

definition demo_blocks :: "flow \<Rightarrow> net_call \<Rightarrow> nat result" where
  "demo_blocks f c = Inr (if pl_process demo_places (nc_env c) = ''B'' then 100 else 101)"

definition demo_create :: "flow \<Rightarrow> (nat \<times> nat) result" where
  "demo_create = createNetworkFlow demo_places (\<lambda>n. n) demo_blocks (\<lambda>b. ''1'')"

lemmas demo_net_defs = demo_places_def demo_blocks_def demo_create_def createNetworkFlow_def flow_1_to_def makePort_def process_of_def

lemma demo_networks:
  "createNetworkFlows demo_places demo_create 9 [flow_1_to 2, flow_1_to 3] [] =
     ([(makePort 9 1 ''0->B'', 100, 101)],
      Inr [\<lparr>fl_src = makePort 9 1 ''0'', fl_dst = makePort 9 101 ''0''\<rparr>, \<lparr>fl_src = makePort 9 100 ''0'', fl_dst = makePort 9 2 ''0''\<rparr>,
           \<lparr>fl_src = makePort 9 100 ''0'', fl_dst = makePort 9 3 ''0''\<rparr>])"
  by (simp add: createNetworkFlows_def srcToFlows_def same_process_def envTagPort_def port_eq_def network_pieces_def demo_net_defs)

theorem network_flows_contract_witness:
  "\<exists>k netSource netSink. cache_find k [(makePort 9 1 ''0->B'', 100, 101)] = Some (netSource, netSink)
     \<and> has_flow \<lparr>fl_src = makePort 9 1 ''0'', fl_dst = makePort 9 netSink ''0''\<rparr>
         [\<lparr>fl_src = makePort 9 1 ''0'', fl_dst = makePort 9 101 ''0''\<rparr>, \<lparr>fl_src = makePort 9 100 ''0'', fl_dst = makePort 9 2 ''0''\<rparr>,
          \<lparr>fl_src = makePort 9 100 ''0'', fl_dst = makePort 9 3 ''0''\<rparr>]
     \<and> has_flow \<lparr>fl_src = makePort 9 netSource ''0'', fl_dst = makePort 9 3 ''0''\<rparr>
         [\<lparr>fl_src = makePort 9 1 ''0'', fl_dst = makePort 9 101 ''0''\<rparr>, \<lparr>fl_src = makePort 9 100 ''0'', fl_dst = makePort 9 2 ''0''\<rparr>,
          \<lparr>fl_src = makePort 9 100 ''0'', fl_dst = makePort 9 3 ''0''\<rparr>]"
proof -
  have "netgress_fresh [flow_1_to 2, flow_1_to 3] [(makePort 9 1 ''0->B'', 100, 101)]"
    "\<forall>p \<in> flow_ports [flow_1_to 2, flow_1_to 3]. CHR ''>'' \<notin> set (process_of demo_places p)"
    "po_uid (makePort 9 1 ''0'') \<in> ends [flow_1_to 2, flow_1_to 3]" "po_uid (makePort 9 3 ''0'') \<in> ends [flow_1_to 2, flow_1_to 3]"
    by (simp_all add: netgress_fresh_def ends_def flow_ports_def demo_net_defs)
  note c = network_flows_contract[OF demo_networks this]
  have "has_flow \<lparr>fl_src = makePort 9 1 ''0'', fl_dst = makePort 9 3 ''0''\<rparr> [flow_1_to 2, flow_1_to 3]"
    by (simp add: flow_eq_ends flow_1_to_def)
  moreover have "\<not> has_flow \<lparr>fl_src = makePort 9 1 ''0'', fl_dst = makePort 9 3 ''0''\<rparr>
      [\<lparr>fl_src = makePort 9 1 ''0'', fl_dst = makePort 9 101 ''0''\<rparr>, \<lparr>fl_src = makePort 9 100 ''0'', fl_dst = makePort 9 2 ''0''\<rparr>,
       \<lparr>fl_src = makePort 9 100 ''0'', fl_dst = makePort 9 3 ''0''\<rparr>]"
    by (simp add: flow_eq_ends port_eq_def makePort_def)
  ultimately show ?thesis using c by blast
qed

section \<open>Every flow of the commit stays in a process\<close>

text \<open>The pairs of the cache live where their key says.\<close>

definition netgress_placed :: "places \<Rightarrow> nat \<Rightarrow> netgress_cache \<Rightarrow> bool" where
  "netgress_placed pl self c \<longleftrightarrow> (\<forall>e \<in> set c. fst (snd e) \<noteq> self \<and> snd (snd e) \<noteq> self
     \<and> pl_process pl (snd (snd e)) = pl_process pl (po_uid (fst e))
     \<and> (\<exists>name. po_name (fst e) = name @ ''->'' @ pl_process pl (fst (snd e))))"

text \<open>A block lives where it is made.\<close>

definition makes_placed :: "places \<Rightarrow> nat \<Rightarrow> (flow \<Rightarrow> net_call \<Rightarrow> nat result) \<Rightarrow> bool" where
  "makes_placed pl self new_block \<longleftrightarrow>
     (\<forall>f c a. new_block f c = Inr a \<longrightarrow> a \<noteq> self \<and> pl_process pl a = pl_process pl (nc_env c))"

lemma createNetworkFlow_places:
  assumes "createNetworkFlow pl lookupIp new_block actualPort f = Inr (netSource, netSink)" "makes_placed pl self new_block"
  shows "netSource \<noteq> self \<and> netSink \<noteq> self \<and> pl_process pl netSource = process_of pl (fl_dst f)
    \<and> pl_process pl netSink = process_of pl (fl_src f)"
  using assms
  by (auto simp: createNetworkFlow_def Let_def makes_placed_def process_of_def split: if_splits)

text \<open>The paths do not depend on who binds: the sink is made at the source port and the source at the destination.\<close>

lemma createNetworkFlow_calls:
  assumes "createNetworkFlow pl lookupIp new_block actualPort f = Inr (netSource, netSink)"
  shows "(\<exists>uri opt. new_block f \<lparr>nc_env = the (po_obj (fl_src f)), nc_path = ''/blocks/network_sink'', nc_uri = uri, nc_opt = opt\<rparr> = Inr netSink)
    \<and> (\<exists>uri opt. new_block f \<lparr>nc_env = the (po_obj (fl_dst f)), nc_path = ''/blocks/network_source'', nc_uri = uri, nc_opt = opt\<rparr> = Inr netSource)"
  using assms by (auto simp: createNetworkFlow_def Let_def split: if_splits)

lemma netgress_placedD:
  assumes "netgress_placed pl self c" "e \<in> set c"
  obtains name where "fst (snd e) \<noteq> self" "snd (snd e) \<noteq> self" "pl_process pl (snd (snd e)) = pl_process pl (po_uid (fst e))"
    "po_name (fst e) = name @ ''->'' @ pl_process pl (fst (snd e))"
  using assms unfolding netgress_placed_def by blast

lemma netgress_placed_set:
  assumes "netgress_placed pl self c" "fst v \<noteq> self" "snd v \<noteq> self" "pl_process pl (snd v) = pl_process pl (po_uid k)"
    "po_name k = name @ ''->'' @ pl_process pl (fst v)"
  shows "netgress_placed pl self (cache_set k v c)"
  unfolding netgress_placed_def
proof
  fix e assume "e \<in> set (cache_set k v c)"
  then consider "e \<in> set c" | "port_eq (fst e) k" "snd e = v" using cache_set_elems[of e k v c] by blast
  then show "fst (snd e) \<noteq> self \<and> snd (snd e) \<noteq> self \<and> pl_process pl (snd (snd e)) = pl_process pl (po_uid (fst e))
     \<and> (\<exists>name. po_name (fst e) = name @ ''->'' @ pl_process pl (fst (snd e)))"
    using assms by cases (auto simp: netgress_placed_def port_eq_def)
qed

definition objects_ok :: "flow list \<Rightarrow> bool" where
  "objects_ok fs \<longleftrightarrow> (\<forall>f \<in> set fs. po_obj (fl_src f) = Some (po_uid (fl_src f)) \<and> po_obj (fl_dst f) = Some (po_uid (fl_dst f)))"

lemma group_hd:
  assumes "g \<in> set (srcToFlows pl fs)"
  shows "hd (snd g) \<in> set fs" "port_eq (tag pl (hd (snd g))) (fst g)"
  using srcToFlows_ok[of pl fs] assms by (auto simp: groups_ok_def)

lemma load_futures_placed:
  assumes "load_futures (createNetworkFlow pl lookupIp new_block actualPort) gs c = (c', e)" "makes_placed pl self new_block"
    "\<And>g. g \<in> set gs \<Longrightarrow> hd (snd g) \<in> set fs \<and> port_eq (tag pl (hd (snd g))) (fst g)" "objects_ok fs" "netgress_placed pl self c"
  shows "netgress_placed pl self c'"
  using assms(1,3,5)
proof (induction gs arbitrary: c)
  case (Cons g gs)
  let ?f = "hd (snd g)"
  show ?case
  proof (cases "createNetworkFlow pl lookupIp new_block actualPort ?f")
    case (Inr v)
    have places: "fst v \<noteq> self \<and> snd v \<noteq> self \<and> pl_process pl (fst v) = process_of pl (fl_dst ?f) \<and> pl_process pl (snd v) = process_of pl (fl_src ?f)"
      using createNetworkFlow_places[of pl lookupIp new_block actualPort ?f "fst v" "snd v" self] Inr assms(2) by simp
    have f: "?f \<in> set fs" "port_eq (tag pl ?f) (fst g)" using Cons.prems(2)[of g] by simp_all
    have k: "po_uid (fst g) = po_uid (fl_src ?f)" "po_name (fst g) = po_name (fl_src ?f) @ ''->'' @ process_of pl (fl_dst ?f)"
      using f(2) by (simp_all add: port_eq_def envTagPort_def)
    have "netgress_placed pl self (cache_set (fst g) v c)"
      by (rule netgress_placed_set[where name = "po_name (fl_src ?f)"])
        (use places k f(1) assms(4) Cons.prems(3) in \<open>auto simp: objects_ok_def process_of_def\<close>)
    then show ?thesis using Cons.IH[of "cache_set (fst g) v c"] Cons.prems Inr by simp
  qed (use Cons.prems in auto)
qed simp

lemma clean_cache_placed:
  assumes "netgress_placed pl self c"
  shows "netgress_placed pl self (clean_cache pl fs c)"
proof -
  have "netgress_placed pl self d \<Longrightarrow> netgress_placed pl self (fold (\<lambda>f c'. case cache_entry (tag pl f) c of
         None \<Rightarrow> c' | Some (port, v) \<Rightarrow> cache_set port v c') fs d)" for d
  proof (induction fs arbitrary: d)
    case (Cons f fs)
    show ?case
    proof (cases "cache_entry (tag pl f) c")
      case (Some e)
      then have "e \<in> set c" using cache_entry_in by blast
      from netgress_placedD[OF assms this] have "netgress_placed pl self (cache_set (fst e) (snd e) d)"
        using netgress_placed_set[OF Cons.prems] by blast
      then show ?thesis using Cons.IH Some by (simp add: case_prod_beta)
    qed (use Cons in simp)
  qed simp
  note keeps = this
  have "netgress_placed pl self []" by (simp add: netgress_placed_def)
  then show ?thesis unfolding clean_cache_def by (rule keeps)
qed

text \<open>What a flow list has in common before and after the copiers.\<close>

definition flows_local :: "places \<Rightarrow> flow list \<Rightarrow> bool" where
  "flows_local pl fs \<longleftrightarrow> objects_ok fs \<and> list_all (same_process pl) fs"

lemma flows_local_each: "flows_local pl fs \<longleftrightarrow> (\<forall>f \<in> set fs. flows_local pl [f])"
  by (auto simp: flows_local_def objects_ok_def list_all_iff)

lemma network_pieces_local:
  assumes g: "g \<in> set (srcToFlows pl fs)" and c: "netgress_placed pl self cache" and ok: "objects_ok fs"
    and names: "\<forall>u. CHR ''>'' \<notin> set (pl_process pl u)"
  shows "flows_local pl (network_pieces self cache g)"
proof (cases "cache_find (fst g) cache")
  case None
  then show ?thesis by (simp add: network_pieces_def flows_local_def objects_ok_def)
next
  case (Some v)
  obtain so si where v: "v = (so, si)" by (metis surj_pair)
  obtain e where e: "e \<in> set cache" "port_eq (fst e) (fst g)" "snd e = (so, si)" using cache_find_in[OF Some] v by blast
  then have k: "po_uid (fst e) = po_uid (fst g)" "po_name (fst e) = po_name (fst g)" by (simp_all add: port_eq_def)
  obtain name where place: "so \<noteq> self" "si \<noteq> self" "pl_process pl si = pl_process pl (po_uid (fst g))"
    "po_name (fst g) = name @ ''->'' @ pl_process pl so"
    using netgress_placedD[OF c e(1)] unfolding e(3) k fst_conv snd_conv by blast
  have flow: "f \<in> set fs \<and> port_eq (tag pl f) (fst g)" if "f \<in> set (snd g)" for f
    using srcToFlows_ok[of pl fs] g that by (auto simp: groups_ok_def)
  have src: "process_of pl (fl_src (hd (snd g))) = pl_process pl (po_uid (fst g))"
    using group_hd[OF g] ok by (auto simp: port_eq_def envTagPort_def objects_ok_def process_of_def)
  have dst: "process_of pl (fl_dst f) = pl_process pl so" if "f \<in> set (snd g)" for f
  proof -
    have "po_name (fl_src f) @ ''->'' @ process_of pl (fl_dst f) = name @ ''->'' @ pl_process pl so"
      using flow[OF that] place(4) by (simp add: port_eq_def envTagPort_def)
    moreover have "CHR ''>'' \<notin> set (process_of pl (fl_dst f))" using names by (simp add: process_of_def)
    ultimately show ?thesis using arrow_split names by blast
  qed
  have objs: "po_obj (fl_src f) = Some (po_uid (fl_src f))" "po_obj (fl_dst f) = Some (po_uid (fl_dst f))" if "f \<in> set fs" for f
    using ok that by (simp_all add: objects_ok_def)
  have "flows_local pl [\<lparr>fl_src = fl_src (hd (snd g)), fl_dst = makePort self si ''0''\<rparr>]"
    using objs(1)[OF group_hd(1)[OF g]] src place(2,3)
    by (simp add: flows_local_def objects_ok_def same_process_def process_of_def makePort_def)
  moreover have "flows_local pl [\<lparr>fl_src = makePort self so ''0'', fl_dst = fl_dst f\<rparr>]" if "f \<in> set (snd g)" for f
    using objs(2) flow[OF that] dst[OF that] place(1)
    by (simp add: flows_local_def objects_ok_def same_process_def process_of_def makePort_def)
  ultimately have "\<forall>f \<in> set (network_pieces self cache g). flows_local pl [f]" using Some v by (simp add: network_pieces_def)
  then show ?thesis by (rule iffD2[OF flows_local_each])
qed

lemma flows_local_append: "flows_local pl (xs @ ys) \<longleftrightarrow> flows_local pl xs \<and> flows_local pl ys"
  by (auto simp: flows_local_def objects_ok_def)

lemma network_flows_local:
  assumes run: "createNetworkFlows pl (createNetworkFlow pl lookupIp new_block actualPort) self fs cache = (cache', Inr net)"
    and placed: "makes_placed pl self new_block" "netgress_placed pl self cache" and ok: "objects_ok fs"
    and names: "\<forall>u. CHR ''>'' \<notin> set (pl_process pl u)"
  shows "flows_local pl net \<and> netgress_placed pl self cache'"
proof
  obtain gs where gs: "gs = filter (\<lambda>g. cache_find (fst g) cache = None) (srcToFlows pl fs)"
    "load_futures (createNetworkFlow pl lookupIp new_block actualPort) gs cache = (cache', None)"
    using run by (auto simp: createNetworkFlows_def Let_def split: prod.splits option.splits)
  show c: "netgress_placed pl self cache'"
    by (rule load_futures_placed[OF gs(2) placed(1) _ ok placed(2)]) (use group_hd in \<open>auto simp: gs(1)\<close>)
  have pieces: "flows_local pl (concat (map (network_pieces self cache') (srcToFlows pl fs)))"
    using network_pieces_local[OF _ c ok names] by (auto simp: flows_local_def objects_ok_def list_all_iff)
  have "flows_local pl (filter (same_process pl) fs)" using ok by (auto simp: flows_local_def objects_ok_def list_all_iff)
  with pieces show "flows_local pl net" unfolding created_groups(1)[OF run] flows_local_append by blast
qed

text \<open>The copier of a port lives in the process of the port.\<close>

definition copiers_placed :: "places \<Rightarrow> nat \<Rightarrow> (bool \<Rightarrow> port \<Rightarrow> nat) \<Rightarrow> bool" where
  "copiers_placed pl self copier \<longleftrightarrow> (\<forall>b p. copier b p \<noteq> self \<and> pl_process pl (copier b p) = process_of pl p)"

lemma bridge_flows_local:
  assumes "flows_local pl safe" "flows_local pl [f]" "c \<noteq> self" "pl_process pl c = process_of pl (fl_src f)"
  shows "flows_local pl (bridge_flows self c f safe)"
proof -
  have add: "flows_local pl [g] \<Longrightarrow> flows_local pl xs \<Longrightarrow> flows_local pl (add_new_flow g xs)" for g xs
    by (simp add: add_new_flow_def flows_local_append)
  have "flows_local pl [\<lparr>fl_src = fl_src f, fl_dst = makePort self c ''0''\<rparr>]" "flows_local pl [\<lparr>fl_src = makePort self c ''0'', fl_dst = fl_dst f\<rparr>]"
    using assms(2-4) by (auto simp: flows_local_def objects_ok_def same_process_def process_of_def makePort_def)
  then show ?thesis unfolding bridge_flows_def using add assms(1) by blast
qed

lemma rectify_local:
  assumes "rectify_loop env copier self flat w fs safe = Inr r" "flows_local pl fs" "flows_local pl safe" "copiers_placed pl self copier"
  shows "flows_local pl r"
  using assms(1-3)
proof (induction fs arbitrary: safe)
  case (Cons f fs)
  from Cons.prems(1) obtain srcOk dstOk where
    run: "rectify_loop env copier self flat w fs
         (if \<not> dstOk then bridge_flows self (copier True (fl_dst f)) f safe
          else if \<not> srcOk then bridge_flows self (copier False (fl_src f)) f safe
          else safe @ [f]) = Inr r" by auto
  have f: "flows_local pl [f]" "flows_local pl fs" using Cons.prems(2) flows_local_append[of pl "[f]" fs] by simp_all
  then have "process_of pl (fl_dst f) = process_of pl (fl_src f)" by (simp add: flows_local_def same_process_def)
  then have bridge: "flows_local pl (bridge_flows self (copier b p) f safe)" if "p \<in> {fl_src f, fl_dst f}" for b p
    using bridge_flows_local[OF Cons.prems(3) f(1)] assms(4) that by (auto simp: copiers_placed_def)
  have "flows_local pl (if \<not> dstOk then bridge_flows self (copier True (fl_dst f)) f safe
          else if \<not> srcOk then bridge_flows self (copier False (fl_src f)) f safe else safe @ [f])"
    using bridge Cons.prems(3) f(1) by (simp add: flows_local_append)
  then show ?case using Cons.IH[OF run f(2)] by blast
qed simp

text \<open>C28: Both ends of every flow that a commit connects in the topology of a process live in that process, and the pairs in
  the cache stay where their keys say, also after the cache is cleaned.\<close>

theorem commit_flows_local:
  assumes run: "commit_flows env copier pl (createNetworkFlow pl lookupIp new_block actualPort) self completeFlows w cache = (cache', Inr flatFlows)"
    and placed: "makes_placed pl self new_block" "copiers_placed pl self copier" "netgress_placed pl self cache"
    and ok: "objects_ok completeFlows" and names: "\<forall>u. CHR ''>'' \<notin> set (pl_process pl u)"
  shows "list_all (same_process pl) flatFlows \<and> netgress_placed pl self cache'
    \<and> netgress_placed pl self (clean_cache pl completeFlows cache')"
proof -
  obtain net where net: "createNetworkFlows pl (createNetworkFlow pl lookupIp new_block actualPort) self completeFlows cache = (cache', Inr net)"
    "rectifyDomainFlows env copier self net w = Inr flatFlows"
    using run by (auto simp: commit_flows_def split: prod.splits sum.splits)
  have loc: "flows_local pl net" and c: "netgress_placed pl self cache'"
    using network_flows_local[OF net(1) placed(1,3) ok names] by simp_all
  have "flows_local pl flatFlows"
    using rectify_local[OF net(2)[unfolded rectifyDomainFlows_def] loc _ placed(2)] by (simp add: flows_local_def objects_ok_def)
  then show ?thesis using c clean_cache_placed[OF c] by (simp add: flows_local_def)
qed

definition demo_net_world :: world where
  "demo_net_world = commit_world\<lparr>w_worker := (w_worker commit_world)(100 := wa_new\<lparr>wa_out := demo_table 10\<rparr>, 101 := wa_new\<lparr>wa_in := demo_table 20\<rparr>)\<rparr>"

theorem commit_flows_local_witness:
  "list_all (same_process demo_places) [\<lparr>fl_src = makePort 9 1 ''0'', fl_dst = makePort 9 101 ''0''\<rparr>, \<lparr>fl_src = makePort 9 100 ''0'', fl_dst = makePort 9 2 ''0''\<rparr>]
    \<and> \<not> same_process demo_places (flow_1_to 2) \<and> netgress_placed demo_places 9 [(makePort 9 1 ''0->B'', 100, 101)]"
proof -
  let ?copier = "\<lambda>b p. if process_of demo_places p = ''B'' then 100 else 5"
  have run: "commit_flows commit_env ?copier demo_places (createNetworkFlow demo_places (\<lambda>n. n) demo_blocks (\<lambda>b. ''1'')) 9 [flow_1_to 2] demo_net_world []
      = ([(makePort 9 1 ''0->B'', 100, 101)],
         Inr [\<lparr>fl_src = makePort 9 1 ''0'', fl_dst = makePort 9 101 ''0''\<rparr>, \<lparr>fl_src = makePort 9 100 ''0'', fl_dst = makePort 9 2 ''0''\<rparr>])"
    by (simp add: commit_flows_def createNetworkFlows_def srcToFlows_def same_process_def rectifyDomainFlows_def envTagPort_def network_pieces_def
        isDomainCrossingAcceptable_def dsts_of_def srcs_of_def getDomain_def getBufferMode_def port_eq_def blk_input_def
        blk_output_def named_port_def commit_world_def demo_world_def demo_table_def demo_env_def commit_env_def demo_net_world_def
        wa_getOutputBufferMode_def wa_getInputBufferMode_def buffer_mode_def op_new_def ip_new_def wa_new_def demo_net_defs)
  have "makes_placed demo_places 9 demo_blocks" "copiers_placed demo_places 9 ?copier" "netgress_placed demo_places 9 []"
    "objects_ok [flow_1_to 2]" "\<forall>u. CHR ''>'' \<notin> set (pl_process demo_places u)"
    by (auto simp: makes_placed_def copiers_placed_def netgress_placed_def objects_ok_def demo_net_defs)
  from commit_flows_local[OF run this] show ?thesis by (simp add: same_process_def demo_net_defs)
qed

section \<open>The commit in one process\<close>

lemma one_process_flows:
  assumes "pl_process pl = (\<lambda>_. pid)"
  shows "createNetworkFlows pl create self fs cache = (cache, Inr fs)"
proof -
  have same: "same_process pl f" for f using assms by (simp add: same_process_def process_of_def)
  then show ?thesis by (simp add: createNetworkFlows_def srcToFlows_def filter_True)
qed

lemma one_process_connect:
  assumes "pl_process pl = (\<lambda>_. pid)"
  shows "connect_remotes env ids pl [(pid, remote)] fs n = connect_all env ids remote fs n"
  using assms by (induction fs arbitrary: n) (simp_all add: process_of_def split: prod.splits option.splits)

lemma one_process_known:
  assumes "pl_process pl = (\<lambda>_. pid)"
  shows "make_remotes pl newTopo fs (n, [(pid, remote)]) = (n, [(pid, remote)])"
proof -
  have "fold (\<lambda>obj (n, remotes). let upid = pl_process pl (the obj)
         in if smap_find upid remotes \<noteq> None then (n, remotes)
            else (n\<lparr>n_topo := (n_topo n)(newTopo upid := Some tp_new)\<rparr>, smap_set upid (newTopo upid) remotes)) objs (n, [(pid, remote)])
      = (n, [(pid, remote)])" for objs
    using assms by (induction objs) simp_all
  then show ?thesis by (simp add: make_remotes_def)
qed

lemma obj_set_nonempty: "fs \<noteq> [] \<Longrightarrow> getObjSetFromFlowList fs [] \<noteq> []"
proof -
  have keeps: "smap_set k v m \<noteq> []" for k :: nat and v :: "nat option" and m by (cases m) (auto split: if_splits)
  have "m \<noteq> [] \<Longrightarrow> fold (\<lambda>f m. smap_set (po_uid (fl_dst f)) (po_obj (fl_dst f)) (smap_set (po_uid (fl_src f)) (po_obj (fl_src f)) m)) fs m \<noteq> []" for m fs
    by (induction fs arbitrary: m) (simp_all add: keeps)
  from this[OF keeps] show "fs \<noteq> [] \<Longrightarrow> getObjSetFromFlowList fs [] \<noteq> []"
    by (cases fs) (simp_all add: getObjSetFromFlowList_def obj_map_def del: smap_set.simps)
qed

lemma one_process_new:
  assumes "pl_process pl = (\<lambda>_. pid)" "fs \<noteq> []"
  shows "make_remotes pl newTopo fs (n, []) = (n\<lparr>n_topo := (n_topo n)(newTopo pid := Some tp_new)\<rparr>, [(pid, newTopo pid)])"
proof -
  obtain obj objs where o: "getObjSetFromFlowList fs [] = obj # objs" using obj_set_nonempty[OF assms(2)] by (cases "getObjSetFromFlowList fs []") auto
  have "fold (\<lambda>obj (n, remotes). let upid = pl_process pl (the obj)
         in if smap_find upid remotes \<noteq> None then (n, remotes)
            else (n\<lparr>n_topo := (n_topo n)(newTopo upid := Some tp_new)\<rparr>, smap_set upid (newTopo upid) remotes)) objs (m, [(pid, newTopo pid)])
      = (m, [(pid, newTopo pid)])" for m
    using assms(1) by (induction objs) simp_all
  then show ?thesis using assms(1) by (simp add: make_remotes_def o)
qed

lemma no_topology_disconnect:
  assumes "n_topo n remote = None"
  shows "tp_disconnectAll False remote n = n" "upd_topo remote f n = n"
proof -
  have none: "(n_topo n)(remote := None) = n_topo n" using assms by auto
  then show "upd_topo remote f n = n" using assms by (simp add: upd_topo_def)
  show "tp_disconnectAll False remote n = n"
    using assms none by (simp add: tp_disconnectAll_def disconnect_own_def upd_topo_def the_topo_def tp_new_def)
qed

lemma no_topology_commit:
  assumes "n_topo n remote = None"
  shows "commit_sub env mgr remote n = (n, None)"
proof -
  have "topologySubCommit env mgr [] [] w = ([], w, None)" for w
    by (simp add: topologySubCommit_def updateFlows_def throw_errors_def installBufferManagers_def getObjSetFromFlowList_def obj_map_def)
  then show ?thesis
    using assms no_topology_disconnect(2)[OF assms] by (simp add: commit_sub_def the_topo_def tp_new_def upd_topo_def)
qed

text \<open>For blocks of one process the commit over processes is the commit of theory TopologyCommit: the same blocks, the same
  topologies and the same error.\<close>

theorem commit_one_process:
  assumes one: "pl_process pl = (\<lambda>_. pid)" and new: "newTopo pid = remote"
    and remotes: "ng_remotes ng = (if n_topo n remote = None then [] else [(pid, remote)])"
  shows "map_option snd (tp_commit_net env copier ids mgr pl create newTopo fuel self ng n) = tp_commit env copier ids mgr fuel self remote n"
proof (cases "squashFlows fuel n (tp_flows (the_topo self n))")
  case (Some sq)
  let ?complete = "completePassThroughFlows sq"
  show ?thesis
  proof (cases "rectifyDomainFlows env copier self ?complete (n_world n)")
    case (Inl e)
    then show ?thesis using Some by (simp add: tp_commit_net_def tp_commit_def commit_flows_def one_process_flows[OF one] Let_def)
  next
    case (Inr flat)
    have known: "commit_remotes env mgr [(pid, remote)] n' = (case commit_sub env mgr remote n' of (n'', e) \<Rightarrow>
        (n'', (case e of None \<Rightarrow> [] | Some e \<Rightarrow> [e])))" for n' by (simp split: prod.splits)
    show ?thesis
    proof (cases "n_topo n remote = None \<and> flat = []")
      case True
      then show ?thesis using Some Inr remotes no_topology_disconnect[of n remote] no_topology_commit[of n remote]
        by (simp add: tp_commit_net_def tp_commit_def commit_flows_def one_process_flows[OF one] Let_def make_remotes_def
            getObjSetFromFlowList_def obj_map_def)
    next
      case False
      let ?n = "if n_topo n remote = None \<and> flat \<noteq> [] then n\<lparr>n_topo := (n_topo n)(remote := Some tp_new)\<rparr> else n"
      have "make_remotes pl newTopo flat (n, ng_remotes ng) = (?n, [(pid, remote)])"
        using False remotes new one_process_known[OF one] one_process_new[OF one] by auto
      then show ?thesis using Some Inr
        by (simp add: tp_commit_net_def tp_commit_def commit_flows_def one_process_flows[OF one] Let_def one_process_connect[OF one] known
            split: prod.splits option.splits)
    qed
  qed
qed (simp add: tp_commit_net_def tp_commit_def)

theorem commit_one_process_witness:
  "map_option snd (tp_commit_net commit_env demo_copier (\<lambda>_. (50, 51, 52)) (\<lambda>_. 0) (demo_places\<lparr>pl_process := (\<lambda>_. ''A'')\<rparr>) demo_create
       (\<lambda>_. 7) 2 9 \<lparr>ng_cache = [], ng_remotes = []\<rparr>
       \<lparr>n_world = commit_world, n_topo = (\<lambda>_. None)(9 := Some (tp_new\<lparr>tp_flows := [flow_1_to 3]\<rparr>))\<rparr>)
   = tp_commit commit_env demo_copier (\<lambda>_. (50, 51, 52)) (\<lambda>_. 0) 2 9 7
       \<lparr>n_world = commit_world, n_topo = (\<lambda>_. None)(9 := Some (tp_new\<lparr>tp_flows := [flow_1_to 3]\<rparr>))\<rparr>"
  by (rule commit_one_process[where pid = "''A''"]) simp_all

end
