(* ===== verification/RemoteProxy.thy ===== *)
theory RemoteProxy
  imports DType
begin

text \<open>
  Remote proxies (lib/Remote): the server's handler with its table of objects (ServerHandler.cpp), and the environment and
  the handles of the client (RemoteProxy.cpp, RemoteProxyHandle.cpp), which form requests and read replies. The process behind
  the server is the parameter \<open>backend\<close>: the operations of its proxy environments on a state of any type. An exception is its text.
  Requests and replies are maps from names to values; their archives and the encoding of the stream are not modelled, a message
  arrives as it was sent. This theory runs one request at a time; theory RemoteThreads has several threads on one connection.
\<close>

section \<open>The process of the server\<close>

text \<open>A call returns a proxy, throws a message of the callee (ProxyExceptionMessage) or throws any other exception.\<close>

datatype 'p outcome = Returns 'p | Message string | Throws string

record ('w, 'p, 'v) backend =
  be_make :: "string \<Rightarrow> (string \<times> string) list \<Rightarrow> 'w \<Rightarrow> 'w \<times> (string + nat)"
  be_findProxy :: "nat \<Rightarrow> string \<Rightarrow> 'w \<Rightarrow> 'w \<times> (string + 'p)"
  be_toProxy :: "nat \<Rightarrow> 'v \<Rightarrow> 'w \<Rightarrow> 'w \<times> (string + 'p)"
  be_toObject :: "nat \<Rightarrow> 'p \<Rightarrow> 'w \<Rightarrow> 'w \<times> (string + 'v)"
  be_call :: "'p \<Rightarrow> string \<Rightarrow> 'p list \<Rightarrow> 'w \<Rightarrow> 'w \<times> 'p outcome"
  be_compareTo :: "'p \<Rightarrow> 'p \<Rightarrow> 'w \<Rightarrow> 'w \<times> (string + int)"
  be_hashCode :: "'p \<Rightarrow> 'w \<Rightarrow> 'w \<times> (string + nat)"
  be_toString :: "'p \<Rightarrow> 'w \<Rightarrow> 'w \<times> (string + string)"
  be_getClassName :: "'p \<Rightarrow> 'w \<Rightarrow> 'w \<times> (string + string)"

section \<open>Messages\<close>

datatype 'v rvalue = VStr string | VNum nat | VInt int | VObj 'v

type_synonym 'v kwargs = "(string \<times> 'v rvalue) list"

definition kw_at :: "string \<Rightarrow> 'v kwargs \<Rightarrow> string + 'v rvalue" where
  "kw_at k m = (case smap_find k m of None \<Rightarrow> Inl ''out_of_range'' | Some v \<Rightarrow> Inr v)"

fun as_string :: "'v rvalue \<Rightarrow> string + string" where
  "as_string (VStr s) = Inr s"
| "as_string _ = Inl ''extract''"

fun as_size :: "'v rvalue \<Rightarrow> string + nat" where
  "as_size (VNum n) = Inr n"
| "as_size _ = Inl ''convert''"

section \<open>The table of objects\<close>

datatype 'p server_object = ONull | OEnv nat | OProxy 'p

record ('w, 'p) server =
  sv_world :: 'w
  sv_objects :: "(nat \<times> 'p server_object) list"
  sv_lastId :: nat

type_synonym ('w, 'p, 'a) action = "('w, 'p) server \<Rightarrow> ('w, 'p) server \<times> (string + 'a)"

definition act_bind :: "('w, 'p, 'a) action \<Rightarrow> ('a \<Rightarrow> ('w, 'p, 'b) action) \<Rightarrow> ('w, 'p, 'b) action" where
  "act_bind m f s = (case m s of (s, Inl e) \<Rightarrow> (s, Inl e) | (s, Inr a) \<Rightarrow> f a s)"

definition act_lift :: "string + 'a \<Rightarrow> ('w, 'p, 'a) action" where
  "act_lift r s = (s, r)"

definition act_world :: "('w \<Rightarrow> 'w \<times> (string + 'a)) \<Rightarrow> ('w, 'p, 'a) action" where
  "act_world f s = (case f (sv_world s) of (w, r) \<Rightarrow> (s\<lparr>sv_world := w\<rparr>, r))"

definition getNewObjectId :: "'p server_object \<Rightarrow> ('w, 'p, nat) action" where
  "getNewObjectId obj s = (let n = add64 (sv_lastId s) 1 in (s\<lparr>sv_lastId := n, sv_objects := smap_set n obj (sv_objects s)\<rparr>, Inr n))"

text \<open>The access by index makes a null object for an unknown id.\<close>

definition getObjectAtId :: "'v rvalue \<Rightarrow> ('w, 'p, 'p server_object) action" where
  "getObjectAtId v = act_bind (act_lift (as_size v)) (\<lambda>key s.
     case smap_find key (sv_objects s) of
       None \<Rightarrow> (s\<lparr>sv_objects := smap_set key ONull (sv_objects s)\<rparr>, Inr ONull)
     | Some obj \<Rightarrow> (s, Inr obj))"

definition removeObjectAtId :: "'v rvalue \<Rightarrow> ('w, 'p, unit) action" where
  "removeObjectAtId v = act_bind (act_lift (as_size v)) (\<lambda>key s. (s\<lparr>sv_objects := smap_erase key (sv_objects s)\<rparr>, Inr ()))"

fun as_env :: "'p server_object \<Rightarrow> string + nat" where
  "as_env (OEnv e) = Inr e"
| "as_env _ = Inl ''extract''"

fun as_proxy :: "'p server_object \<Rightarrow> string + 'p" where
  "as_proxy (OProxy p) = Inr p"
| "as_proxy _ = Inl ''extract''"

section \<open>The handler\<close>

definition req_env :: "'v kwargs \<Rightarrow> ('w, 'p, nat) action" where
  "req_env req = act_bind (act_bind (act_lift (kw_at ''envID'' req)) getObjectAtId) (act_lift \<circ> as_env)"

definition req_proxy :: "string \<Rightarrow> 'v kwargs \<Rightarrow> ('w, 'p, 'p) action" where
  "req_proxy k req = act_bind (act_bind (act_lift (kw_at k req)) getObjectAtId) (act_lift \<circ> as_proxy)"

definition req_string :: "string \<Rightarrow> 'v kwargs \<Rightarrow> ('w, 'p, string) action" where
  "req_string k req = act_bind (act_lift (kw_at k req)) (act_lift \<circ> as_string)"

text \<open>The arguments under the names 0, 1, ... up to the first that is missing; the fuel is the size of the request.\<close>

fun req_args :: "nat \<Rightarrow> nat \<Rightarrow> 'v kwargs \<Rightarrow> ('w, 'p, 'p list) action" where
  "req_args 0 argNo req = act_lift (Inr [])"
| "req_args (Suc fuel) argNo req = (case smap_find (to_string argNo) req of
     None \<Rightarrow> act_lift (Inr [])
   | Some v \<Rightarrow> act_bind (act_bind (getObjectAtId v) (act_lift \<circ> as_proxy)) (\<lambda>p.
       act_bind (req_args fuel (Suc argNo) req) (\<lambda>ps. act_lift (Inr (p # ps)))))"

definition env_args :: "'v kwargs \<Rightarrow> (string \<times> string) list" where
  "env_args req = concat (map (\<lambda>(k, v). case v of VStr s \<Rightarrow> [(k, s)] | _ \<Rightarrow> []) req)"

definition reply_new :: "string \<Rightarrow> 'p server_object \<Rightarrow> ('w, 'p, 'v kwargs) action" where
  "reply_new k obj = act_bind (getNewObjectId obj) (\<lambda>n. act_lift (Inr [(k, VNum n)]))"

type_synonym server_info = "string \<times> string \<times> string"

text \<open>The fields of the reply and whether the handler is done; \<open>info\<close> holds the
  identities of the process and of the node, and the address of the peer.\<close>

definition run_action :: "('w, 'p, 'v) backend \<Rightarrow> server_info \<Rightarrow> 'v kwargs \<Rightarrow> string \<Rightarrow> ('w, 'p, 'v kwargs \<times> bool) action" where
  "run_action be info req action =
     (let reply = (\<lambda>m. act_bind m (\<lambda>out. act_lift (Inr (out, False)))) in
      if action = ''RemoteProxyEnvironment'' then
        reply (act_bind (req_string ''name'' req) (\<lambda>name.
          act_bind (act_world (be_make be name (env_args req))) (\<lambda>env.
          act_bind (reply_new ''envID'' (OEnv env)) (\<lambda>out.
            act_lift (Inr (out @ (case info of (upid, nodeId, peerAddr) \<Rightarrow>
              [(''upid'', VStr upid), (''nodeId'', VStr nodeId), (''peerAddr'', VStr peerAddr)])))))))
      else if action = ''~RemoteProxyEnvironment'' then
        act_bind (act_bind (act_lift (kw_at ''envID'' req)) removeObjectAtId) (\<lambda>_. act_lift (Inr ([], True)))
      else if action = ''findProxy'' then
        reply (act_bind (req_env req) (\<lambda>env. act_bind (req_string ''name'' req) (\<lambda>name.
          act_bind (act_world (be_findProxy be env name)) (\<lambda>p. reply_new ''handleID'' (OProxy p)))))
      else if action = ''convertObjectToProxy'' then
        reply (act_bind (req_env req) (\<lambda>env. act_bind (act_lift (kw_at ''local'' req)) (\<lambda>v.
          case v of VObj obj \<Rightarrow> act_bind (act_world (be_toProxy be env obj)) (\<lambda>p. reply_new ''handleID'' (OProxy p))
          | _ \<Rightarrow> act_lift (Inl ''convert''))))
      else if action = ''convertProxyToObject'' then
        reply (act_bind (req_env req) (\<lambda>env. act_bind (req_proxy ''handleID'' req) (\<lambda>p.
          act_bind (act_world (be_toObject be env p)) (\<lambda>obj. act_lift (Inr [(''local'', VObj obj)])))))
      else if action = ''~RemoteProxyHandle'' then
        reply (act_bind (act_bind (act_lift (kw_at ''handleID'' req)) removeObjectAtId) (\<lambda>_. act_lift (Inr [])))
      else if action = ''call'' then
        reply (act_bind (req_proxy ''handleID'' req) (\<lambda>p. act_bind (req_args (length req) 0 req) (\<lambda>args.
          act_bind (req_string ''name'' req) (\<lambda>name s.
            case be_call be p name args (sv_world s) of
              (w, Returns q) \<Rightarrow> reply_new ''handleID'' (OProxy q) (s\<lparr>sv_world := w\<rparr>)
            | (w, Message m) \<Rightarrow> (s\<lparr>sv_world := w\<rparr>, Inr [(''message'', VStr m)])
            | (w, Throws e) \<Rightarrow> (s\<lparr>sv_world := w\<rparr>, Inl e)))))
      else if action = ''compareTo'' then
        reply (act_bind (req_proxy ''handleID'' req) (\<lambda>p. act_bind (req_proxy ''otherID'' req) (\<lambda>q.
          act_bind (act_world (be_compareTo be p q)) (\<lambda>r. act_lift (Inr [(''result'', VInt r)])))))
      else if action = ''hashCode'' then
        reply (act_bind (req_proxy ''handleID'' req) (\<lambda>p.
          act_bind (act_world (be_hashCode be p)) (\<lambda>r. act_lift (Inr [(''result'', VNum r)]))))
      else if action = ''toString'' then
        reply (act_bind (req_proxy ''handleID'' req) (\<lambda>p.
          act_bind (act_world (be_toString be p)) (\<lambda>r. act_lift (Inr [(''result'', VStr r)]))))
      else if action = ''getClassName'' then
        reply (act_bind (req_proxy ''handleID'' req) (\<lambda>p.
          act_bind (act_world (be_getClassName be p)) (\<lambda>r. act_lift (Inr [(''result'', VStr r)]))))
      else act_lift (Inl action))"

text \<open>A request without a thread id throws out of the handler: None.\<close>

definition runHandlerOnce :: "('w, 'p, 'v) backend \<Rightarrow> server_info \<Rightarrow> 'v kwargs \<Rightarrow> ('w, 'p) server
    \<Rightarrow> (('w, 'p) server \<times> 'v kwargs \<times> bool) option" where
  "runHandlerOnce be info req s =
     (case smap_find ''tid'' req of
        None \<Rightarrow> None
      | Some tid \<Rightarrow> Some
          (case act_bind (req_string ''action'' req) (run_action be info req) s of
             (s, Inl e) \<Rightarrow> (s, smap_set ''errorMsg'' (VStr e) [(''tid'', tid)], False)
           | (s, Inr (out, done)) \<Rightarrow> (s, fold (\<lambda>(k, v). smap_set k v) out [(''tid'', tid)], done)))"

section \<open>The client\<close>

text \<open>The connection as one side of it sees both: the server, whether its handler still runs, and the flag of the client.\<close>

record ('w, 'p) conn =
  cn_server :: "('w, 'p) server"
  cn_running :: bool
  cn_active :: bool

text \<open>Errors of the client: the stream, a text of the server, a message of the callee, or a reply without the expected field.\<close>

datatype remote_error = StreamError | ServerError string | CalleeMessage string | ReplyError

type_synonym ('w, 'p, 'a) remote = "('w, 'p) conn \<Rightarrow> ('w, 'p) conn \<times> (remote_error + 'a)"

text \<open>One thread sends its request and reads the reply.\<close>

definition transact :: "('w, 'p, 'v) backend \<Rightarrow> server_info \<Rightarrow> nat \<Rightarrow> 'v kwargs \<Rightarrow> ('w, 'p, 'v kwargs) remote" where
  "transact be info tid req c =
     (if \<not> cn_active c then (c, Inl StreamError)
      else if \<not> cn_running c then (c\<lparr>cn_active := False\<rparr>, Inl StreamError)
      else case runHandlerOnce be info (smap_set ''tid'' (VNum tid) req) (cn_server c) of
        None \<Rightarrow> (c\<lparr>cn_running := False, cn_active := False\<rparr>, Inl StreamError)
      | Some (s, reply, done) \<Rightarrow> (c\<lparr>cn_server := s, cn_running := \<not> done\<rparr>, Inr reply))"

definition check_error :: "'v kwargs \<Rightarrow> remote_error option" where
  "check_error reply = (case smap_find ''errorMsg'' reply of
     None \<Rightarrow> None | Some (VStr m) \<Rightarrow> Some (ServerError m) | Some _ \<Rightarrow> Some ReplyError)"

definition get_number :: "string \<Rightarrow> 'v kwargs \<Rightarrow> remote_error + nat" where
  "get_number k reply = (case smap_find k reply of Some (VNum n) \<Rightarrow> Inr n | _ \<Rightarrow> Inl ReplyError)"

definition make_handle :: "('w, 'p) conn \<times> (remote_error + 'v kwargs) \<Rightarrow> ('w, 'p) conn \<times> (remote_error + nat)" where
  "make_handle r = (case r of (c, Inl e) \<Rightarrow> (c, Inl e)
     | (c, Inr reply) \<Rightarrow> (c, (case check_error reply of Some e \<Rightarrow> Inl e | None \<Rightarrow> get_number ''handleID'' reply)))"

definition remote_open :: "('w, 'p, 'v) backend \<Rightarrow> server_info \<Rightarrow> nat \<Rightarrow> string \<Rightarrow> (string \<times> string) list \<Rightarrow> ('w, 'p, nat) remote" where
  "remote_open be info tid name args c =
     (case transact be info tid (smap_set ''name'' (VStr name) (smap_set ''action'' (VStr ''RemoteProxyEnvironment'')
             (fold (\<lambda>(k, s). smap_set k (VStr s)) args []))) c of
        (c, Inl e) \<Rightarrow> (c, Inl e)
      | (c, Inr reply) \<Rightarrow> (c, (case check_error reply of Some e \<Rightarrow> Inl e | None \<Rightarrow> get_number ''envID'' reply)))"

definition remote_close :: "('w, 'p, 'v) backend \<Rightarrow> server_info \<Rightarrow> nat \<Rightarrow> nat \<Rightarrow> ('w, 'p) conn \<Rightarrow> ('w, 'p) conn" where
  "remote_close be info tid env c = fst (transact be info tid [(''action'', VStr ''~RemoteProxyEnvironment''), (''envID'', VNum env)] c)"

definition remote_findProxy :: "('w, 'p, 'v) backend \<Rightarrow> server_info \<Rightarrow> nat \<Rightarrow> nat \<Rightarrow> string \<Rightarrow> ('w, 'p, nat) remote" where
  "remote_findProxy be info tid env name c =
     make_handle (transact be info tid [(''action'', VStr ''findProxy''), (''envID'', VNum env), (''name'', VStr name)] c)"

definition remote_toProxy :: "('w, 'p, 'v) backend \<Rightarrow> server_info \<Rightarrow> nat \<Rightarrow> nat \<Rightarrow> 'v \<Rightarrow> ('w, 'p, nat) remote" where
  "remote_toProxy be info tid env v c =
     make_handle (transact be info tid [(''action'', VStr ''convertObjectToProxy''), (''envID'', VNum env), (''local'', VObj v)] c)"

definition remote_drop :: "('w, 'p, 'v) backend \<Rightarrow> server_info \<Rightarrow> nat \<Rightarrow> nat \<Rightarrow> ('w, 'p) conn \<Rightarrow> ('w, 'p) conn" where
  "remote_drop be info tid h c = fst (transact be info tid [(''action'', VStr ''~RemoteProxyHandle''), (''handleID'', VNum h)] c)"

text \<open>An argument is a handle of the same server, or a proxy of another environment, which converts to a local value or throws.\<close>

datatype 'v argument = Mine nat | Foreign "string + 'v"

definition getHandle :: "('w, 'p, 'v) backend \<Rightarrow> server_info \<Rightarrow> nat \<Rightarrow> nat \<Rightarrow> 'v argument \<Rightarrow> ('w, 'p, nat) remote" where
  "getHandle be info tid env a c = (case a of
     Mine h \<Rightarrow> (c, Inr h)
   | Foreign (Inl e) \<Rightarrow> (c, Inl (ServerError e))
   | Foreign (Inr v) \<Rightarrow> remote_toProxy be info tid env v c)"

definition owned :: "'v argument \<Rightarrow> bool" where
  "owned a = (case a of Mine h \<Rightarrow> False | Foreign r \<Rightarrow> True)"

definition remote_toObject :: "('w, 'p, 'v) backend \<Rightarrow> server_info \<Rightarrow> nat \<Rightarrow> nat \<Rightarrow> nat \<Rightarrow> ('w, 'p, 'v) remote" where
  "remote_toObject be info tid env h c =
     (case transact be info tid [(''action'', VStr ''convertProxyToObject''), (''envID'', VNum env), (''handleID'', VNum h)] c of
        (c, Inl e) \<Rightarrow> (c, Inl e)
      | (c, Inr reply) \<Rightarrow> (c, (case check_error reply of
          Some e \<Rightarrow> Inl e | None \<Rightarrow> (case smap_find ''local'' reply of Some (VObj v) \<Rightarrow> Inr v | _ \<Rightarrow> Inl ReplyError))))"

text \<open>The handle of an argument lives to the end of its turn of the loop: a converted one is released before the call is sent.\<close>

fun call_fields :: "('w, 'p, 'v) backend \<Rightarrow> server_info \<Rightarrow> nat \<Rightarrow> nat \<Rightarrow> nat \<Rightarrow> 'v argument list \<Rightarrow> 'v kwargs \<Rightarrow> ('w, 'p, 'v kwargs) remote" where
  "call_fields be info tid env i [] req c = (c, Inr req)"
| "call_fields be info tid env i (a # as) req c =
     (case getHandle be info tid env a c of
        (c, Inl e) \<Rightarrow> (c, Inl e)
      | (c, Inr h) \<Rightarrow> call_fields be info tid env (Suc i) as (smap_set (to_string i) (VNum h) req)
          (if owned a then remote_drop be info tid h c else c))"

definition remote_call :: "('w, 'p, 'v) backend \<Rightarrow> server_info \<Rightarrow> nat \<Rightarrow> nat \<Rightarrow> nat \<Rightarrow> string \<Rightarrow> 'v argument list \<Rightarrow> ('w, 'p, nat) remote" where
  "remote_call be info tid env h name args c =
     (case call_fields be info tid env 0 args [(''action'', VStr ''call''), (''handleID'', VNum h), (''name'', VStr name)] c of
        (c, Inl e) \<Rightarrow> (c, Inl e)
      | (c, Inr req) \<Rightarrow>
          (case transact be info tid req c of
             (c, Inl e) \<Rightarrow> (c, Inl e)
           | (c, Inr reply) \<Rightarrow> (c, (case check_error reply of Some e \<Rightarrow> Inl e
               | None \<Rightarrow> (case smap_find ''message'' reply of
                   Some (VStr m) \<Rightarrow> Inl (CalleeMessage m) | Some _ \<Rightarrow> Inl ReplyError
                 | None \<Rightarrow> get_number ''handleID'' reply)))))"

definition remote_compareTo :: "('w, 'p, 'v) backend \<Rightarrow> server_info \<Rightarrow> nat \<Rightarrow> nat \<Rightarrow> nat \<Rightarrow> 'v argument \<Rightarrow> ('w, 'p, int) remote" where
  "remote_compareTo be info tid env h a c =
     (case getHandle be info tid env a c of
        (c, Inl e) \<Rightarrow> (c, Inl e)
      | (c, Inr other) \<Rightarrow>
          (case transact be info tid [(''action'', VStr ''compareTo''), (''handleID'', VNum h), (''otherID'', VNum other)] c of
             (c, r) \<Rightarrow> (if owned a then remote_drop be info tid other c else c,
               (case r of Inl e \<Rightarrow> Inl e | Inr reply \<Rightarrow> (case check_error reply of Some e \<Rightarrow> Inl e
                 | None \<Rightarrow> (case smap_find ''result'' reply of Some (VInt r) \<Rightarrow> Inr r | _ \<Rightarrow> Inl ReplyError))))))"

text \<open>The other queries read the result without a look at the error.\<close>

definition query :: "('w, 'p, 'v) backend \<Rightarrow> server_info \<Rightarrow> nat \<Rightarrow> string \<Rightarrow> nat \<Rightarrow> ('w, 'p, 'v rvalue) remote" where
  "query be info tid action h c =
     (case transact be info tid [(''action'', VStr action), (''handleID'', VNum h)] c of
        (c, Inl e) \<Rightarrow> (c, Inl e)
      | (c, Inr reply) \<Rightarrow> (c, (case smap_find ''result'' reply of Some v \<Rightarrow> Inr v | None \<Rightarrow> Inl ReplyError)))"

definition remote_hashCode :: "('w, 'p, 'v) backend \<Rightarrow> server_info \<Rightarrow> nat \<Rightarrow> nat \<Rightarrow> ('w, 'p, nat) remote" where
  "remote_hashCode be info tid h c = (case query be info tid ''hashCode'' h c of
     (c, Inl e) \<Rightarrow> (c, Inl e) | (c, Inr v) \<Rightarrow> (c, (case v of VNum n \<Rightarrow> Inr n | _ \<Rightarrow> Inl ReplyError)))"

definition remote_toString :: "('w, 'p, 'v) backend \<Rightarrow> server_info \<Rightarrow> nat \<Rightarrow> nat \<Rightarrow> ('w, 'p, string) remote" where
  "remote_toString be info tid h c = (case query be info tid ''toString'' h c of
     (c, Inl e) \<Rightarrow> (c, Inl e) | (c, Inr v) \<Rightarrow> (c, (case v of VStr s \<Rightarrow> Inr s | _ \<Rightarrow> Inl ReplyError)))"

definition remote_getClassName :: "('w, 'p, 'v) backend \<Rightarrow> server_info \<Rightarrow> nat \<Rightarrow> nat \<Rightarrow> ('w, 'p, string) remote" where
  "remote_getClassName be info tid h c = (case query be info tid ''getClassName'' h c of
     (c, Inl e) \<Rightarrow> (c, Inl e) | (c, Inr v) \<Rightarrow> (c, (case v of VStr s \<Rightarrow> Inr s | _ \<Rightarrow> Inl ReplyError)))"

section \<open>Programs over proxies\<close>

text \<open>A program makes proxies and works with them by number; what it sees of each step is an observation.\<close>

datatype 'v rop = RFind string | RConvert 'v | RCall nat string "nat list" | RObject nat | RCompare nat nat
  | RHash nat | RString nat | RClass nat | RDrop nat

datatype 'v robs = SeesProxy | SeesValue 'v | SeesInt int | SeesSize nat | SeesString string
  | SeesText string | SeesMessage string | SeesError | SeesNothing

fun see_error :: "remote_error \<Rightarrow> 'v robs" where
  "see_error StreamError = SeesError"
| "see_error (ServerError m) = SeesText m"
| "see_error (CalleeMessage m) = SeesMessage m"
| "see_error ReplyError = SeesError"

text \<open>The program on remote handles.\<close>

definition remote_step :: "('w, 'p, 'v) backend \<Rightarrow> server_info \<Rightarrow> nat \<Rightarrow> nat \<Rightarrow> 'v rop \<Rightarrow> nat option list \<times> ('w, 'p) conn
    \<Rightarrow> 'v robs \<times> nat option list \<times> ('w, 'p) conn" where
  "remote_step be info tid env op st = (case st of (tbl, c) \<Rightarrow>
     let h = (\<lambda>i. the (tbl ! i));
         made = (\<lambda>r. case r of (c, Inl e) \<Rightarrow> (see_error e, tbl, c) | (c, Inr n) \<Rightarrow> (SeesProxy, tbl @ [Some n], c));
         seen = (\<lambda>r. case r of (c, Inl e) \<Rightarrow> (see_error e, tbl, c) | (c, Inr v) \<Rightarrow> (v, tbl, c))
     in case op of
       RFind name \<Rightarrow> made (remote_findProxy be info tid env name c)
     | RConvert v \<Rightarrow> made (remote_toProxy be info tid env v c)
     | RCall i name js \<Rightarrow> made (remote_call be info tid env (h i) name (map (Mine \<circ> h) js) c)
     | RObject i \<Rightarrow> seen (apsnd (map_sum id SeesValue) (remote_toObject be info tid env (h i) c))
     | RCompare i j \<Rightarrow> seen (apsnd (map_sum id SeesInt) (remote_compareTo be info tid env (h i) (Mine (h j)) c))
     | RHash i \<Rightarrow> seen (apsnd (map_sum id SeesSize) (remote_hashCode be info tid (h i) c))
     | RString i \<Rightarrow> seen (apsnd (map_sum id SeesString) (remote_toString be info tid (h i) c))
     | RClass i \<Rightarrow> seen (apsnd (map_sum id SeesString) (remote_getClassName be info tid (h i) c))
     | RDrop i \<Rightarrow> (SeesNothing, tbl[i := None], remote_drop be info tid (h i) c))"

text \<open>The program in the process itself: every exception is seen with its text.\<close>

definition local_step :: "('w, 'p, 'v) backend \<Rightarrow> nat \<Rightarrow> 'v rop \<Rightarrow> 'p option list \<times> 'w \<Rightarrow> 'v robs \<times> 'p option list \<times> 'w" where
  "local_step be e op st = (case st of (tbl, w) \<Rightarrow>
     let p = (\<lambda>i. the (tbl ! i));
         made = (\<lambda>r. case r of (w, Inl m) \<Rightarrow> (SeesText m, tbl, w) | (w, Inr q) \<Rightarrow> (SeesProxy, tbl @ [Some q], w));
         seen = (\<lambda>r. case r of (w, Inl m) \<Rightarrow> (SeesText m, tbl, w) | (w, Inr v) \<Rightarrow> (v, tbl, w))
     in case op of
       RFind name \<Rightarrow> made (be_findProxy be e name w)
     | RConvert v \<Rightarrow> made (be_toProxy be e v w)
     | RCall i name js \<Rightarrow> (case be_call be (p i) name (map p js) w of
           (w, Returns q) \<Rightarrow> (SeesProxy, tbl @ [Some q], w)
         | (w, Message m) \<Rightarrow> (SeesMessage m, tbl, w)
         | (w, Throws m) \<Rightarrow> (SeesText m, tbl, w))
     | RObject i \<Rightarrow> seen (apsnd (map_sum id SeesValue) (be_toObject be e (p i) w))
     | RCompare i j \<Rightarrow> seen (apsnd (map_sum id SeesInt) (be_compareTo be (p i) (p j) w))
     | RHash i \<Rightarrow> seen (apsnd (map_sum id SeesSize) (be_hashCode be (p i) w))
     | RString i \<Rightarrow> seen (apsnd (map_sum id SeesString) (be_toString be (p i) w))
     | RClass i \<Rightarrow> seen (apsnd (map_sum id SeesString) (be_getClassName be (p i) w))
     | RDrop i \<Rightarrow> (SeesNothing, tbl[i := None], w))"

text \<open>The difference between the two: hashCode, toString and getClassName of a remote handle do not look for the text of an
  exception, and fail with an error of the extraction instead.\<close>

fun lost_text :: "'v rop \<Rightarrow> 'v robs \<Rightarrow> 'v robs" where
  "lost_text (RHash _) (SeesText _) = SeesError"
| "lost_text (RString _) (SeesText _) = SeesError"
| "lost_text (RClass _) (SeesText _) = SeesError"
| "lost_text _ x = x"

fun run_steps :: "('op \<Rightarrow> 's \<Rightarrow> 'o \<times> 's) \<Rightarrow> 'op list \<Rightarrow> 's \<Rightarrow> 'o list \<times> 's" where
  "run_steps step [] s = ([], s)"
| "run_steps step (x # xs) s = (case step x s of (y, s) \<Rightarrow> (case run_steps step xs s of (ys, s) \<Rightarrow> (y # ys, s)))"

text \<open>The numbers of a step are proxies that were made and not dropped.\<close>

fun rop_args :: "'v rop \<Rightarrow> nat list" where
  "rop_args (RFind _) = []" | "rop_args (RConvert _) = []" | "rop_args (RCall i _ js) = i # js" | "rop_args (RObject i) = [i]"
| "rop_args (RCompare i j) = [i, j]" | "rop_args (RHash i) = [i]" | "rop_args (RString i) = [i]" | "rop_args (RClass i) = [i]"
| "rop_args (RDrop i) = [i]"

definition rop_ok :: "'p option list \<Rightarrow> 'v rop \<Rightarrow> bool" where
  "rop_ok tbl op \<longleftrightarrow> list_all (\<lambda>i. i < length tbl \<and> tbl ! i \<noteq> None) (rop_args op)"

fun program_ok :: "('w, 'p, 'v) backend \<Rightarrow> nat \<Rightarrow> 'v rop list \<Rightarrow> 'p option list \<times> 'w \<Rightarrow> bool" where
  "program_ok be e [] st = True"
| "program_ok be e (op # ops) st = (rop_ok (fst st) op \<and> program_ok be e ops (snd (local_step be e op st)))"

section \<open>The handler on a table that knows the ids\<close>

lemma act_simps [simp]:
  "act_bind (act_lift (Inr a)) f = f a"
  "act_bind (act_lift (Inl x)) f = act_lift (Inl x)"
  "act_lift r s = (s, r)"
  by (simp_all add: act_bind_def act_lift_def fun_eq_iff)

lemma act_bind_step: "m s = (s', Inr a) \<Longrightarrow> act_bind m f s = f a s'" "m s = (s', Inl x) \<Longrightarrow> act_bind m f s = (s', Inl x)"
  by (simp_all add: act_bind_def)

lemma req_proxy_known:
  assumes "smap_find k req = Some (VNum n)" "smap_find n (sv_objects s) = Some (OProxy q)"
  shows "req_proxy k req s = (s, Inr q)"
  using assms by (simp add: req_proxy_def kw_at_def getObjectAtId_def act_bind_def)

lemma req_env_known:
  assumes "smap_find ''envID'' req = Some (VNum n)" "smap_find n (sv_objects s) = Some (OEnv e)"
  shows "req_env req s = (s, Inr e)"
  using assms by (simp add: req_env_def kw_at_def getObjectAtId_def act_bind_def)

lemma req_string_known: "smap_find k req = Some (VStr v) \<Longrightarrow> req_string k req s = (s, Inr v)"
  by (simp add: req_string_def kw_at_def act_bind_def)

definition new_object :: "'p server_object \<Rightarrow> ('w, 'p) server \<Rightarrow> ('w, 'p) server" where
  "new_object obj s = s\<lparr>sv_lastId := add64 (sv_lastId s) 1, sv_objects := smap_set (add64 (sv_lastId s) 1) obj (sv_objects s)\<rparr>"

lemma reply_new_step: "reply_new k obj s = (new_object obj s, Inr [(k, VNum (add64 (sv_lastId s) 1))])"
  by (simp add: reply_new_def act_bind_def getNewObjectId_def Let_def new_object_def)

lemma act_world_step: "act_world f s = (s\<lparr>sv_world := fst (f (sv_world s))\<rparr>, snd (f (sv_world s)))"
  by (simp add: act_world_def case_prod_beta)

definition ready :: "('w, 'p) conn \<Rightarrow> bool" where
  "ready c \<longleftrightarrow> cn_active c \<and> cn_running c"

lemma transact_ready:
  assumes "ready c" "smap_find ''action'' req = Some (VStr action)"
    "run_action be info (smap_set ''tid'' (VNum tid) req) action (cn_server c) = (s, r)"
  shows "transact be info tid req c = (case r of
      Inl e \<Rightarrow> (c\<lparr>cn_server := s\<rparr>, Inr (smap_set ''errorMsg'' (VStr e) [(''tid'', VNum tid)]))
    | Inr (out, done) \<Rightarrow> (c\<lparr>cn_server := s, cn_running := \<not> done\<rparr>, Inr (fold (\<lambda>(k, v). smap_set k v) out [(''tid'', VNum tid)])))"
proof -
  have "req_string ''action'' (smap_set ''tid'' (VNum tid) req) (cn_server c) = (cn_server c, Inr action)"
    using assms(2) by (intro req_string_known) simp
  moreover have "c\<lparr>cn_server := s, cn_running := True\<rparr> = c\<lparr>cn_server := s\<rparr>" using assms(1) by (cases c) (simp add: ready_def)
  ultimately show ?thesis
    using assms(1,3) by (simp add: ready_def transact_def runHandlerOnce_def act_bind_def split: sum.splits prod.splits)
qed

abbreviation with_world :: "('w, 'p) conn \<Rightarrow> 'w \<Rightarrow> ('w, 'p) conn" where
  "with_world c w \<equiv> c\<lparr>cn_server := (cn_server c)\<lparr>sv_world := w\<rparr>\<rparr>"

abbreviation with_object :: "('w, 'p) conn \<Rightarrow> 'w \<Rightarrow> 'p \<Rightarrow> ('w, 'p) conn" where
  "with_object c w q \<equiv> c\<lparr>cn_server := new_object (OProxy q) ((cn_server c)\<lparr>sv_world := w\<rparr>)\<rparr>"

abbreviation next_id :: "('w, 'p) conn \<Rightarrow> nat" where
  "next_id c \<equiv> add64 (sv_lastId (cn_server c)) 1"

definition replied :: "('w, 'p, 'v kwargs) action \<Rightarrow> ('w, 'p, 'v kwargs \<times> bool) action" where
  "replied m = act_bind m (\<lambda>out. act_lift (Inr (out, False)))"

lemma run_actions:
  "run_action be info req ''findProxy'' = replied (act_bind (req_env req) (\<lambda>env. act_bind (req_string ''name'' req) (\<lambda>name.
          act_bind (act_world (be_findProxy be env name)) (\<lambda>p. reply_new ''handleID'' (OProxy p)))))"
  "run_action be info req ''convertObjectToProxy'' = replied (act_bind (req_env req) (\<lambda>env. act_bind (act_lift (kw_at ''local'' req)) (\<lambda>v.
          case v of VObj obj \<Rightarrow> act_bind (act_world (be_toProxy be env obj)) (\<lambda>p. reply_new ''handleID'' (OProxy p))
          | _ \<Rightarrow> act_lift (Inl ''convert''))))"
  "run_action be info req ''convertProxyToObject'' = replied (act_bind (req_env req) (\<lambda>env. act_bind (req_proxy ''handleID'' req) (\<lambda>p.
          act_bind (act_world (be_toObject be env p)) (\<lambda>obj. act_lift (Inr [(''local'', VObj obj)])))))"
  "run_action be info req ''~RemoteProxyHandle'' =
     replied (act_bind (act_bind (act_lift (kw_at ''handleID'' req)) removeObjectAtId) (\<lambda>_. act_lift (Inr [])))"
  "run_action be info req ''call'' = replied (act_bind (req_proxy ''handleID'' req) (\<lambda>p. act_bind (req_args (length req) 0 req) (\<lambda>args.
          act_bind (req_string ''name'' req) (\<lambda>name s.
            case be_call be p name args (sv_world s) of
              (w, Returns q) \<Rightarrow> reply_new ''handleID'' (OProxy q) (s\<lparr>sv_world := w\<rparr>)
            | (w, Message m) \<Rightarrow> (s\<lparr>sv_world := w\<rparr>, Inr [(''message'', VStr m)])
            | (w, Throws e) \<Rightarrow> (s\<lparr>sv_world := w\<rparr>, Inl e)))))"
  "run_action be info req ''compareTo'' = replied (act_bind (req_proxy ''handleID'' req) (\<lambda>p. act_bind (req_proxy ''otherID'' req) (\<lambda>q.
          act_bind (act_world (be_compareTo be p q)) (\<lambda>r. act_lift (Inr [(''result'', VInt r)])))))"
  "run_action be info req ''hashCode'' = replied (act_bind (req_proxy ''handleID'' req) (\<lambda>p.
          act_bind (act_world (be_hashCode be p)) (\<lambda>r. act_lift (Inr [(''result'', VNum r)]))))"
  "run_action be info req ''toString'' = replied (act_bind (req_proxy ''handleID'' req) (\<lambda>p.
          act_bind (act_world (be_toString be p)) (\<lambda>r. act_lift (Inr [(''result'', VStr r)]))))"
  "run_action be info req ''getClassName'' = replied (act_bind (req_proxy ''handleID'' req) (\<lambda>p.
          act_bind (act_world (be_getClassName be p)) (\<lambda>r. act_lift (Inr [(''result'', VStr r)]))))"
  by (simp_all add: run_action_def Let_def replied_def)

lemma replied_steps:
  "m s = (s', r) \<Longrightarrow> replied m s = (s', map_sum id (\<lambda>out. (out, False)) r)"
  by (cases r) (simp_all add: replied_def act_bind_def)

lemma world_reply:
  "act_bind (act_world f) g s = (case f (sv_world s) of
     (w, Inl m) \<Rightarrow> (s\<lparr>sv_world := w\<rparr>, Inl m) | (w, Inr a) \<Rightarrow> g a (s\<lparr>sv_world := w\<rparr>))"
  by (simp add: act_bind_def act_world_def split: prod.splits sum.splits)

lemma known_binds:
  "smap_find ''envID'' req = Some (VNum n) \<Longrightarrow> smap_find n (sv_objects s) = Some (OEnv e) \<Longrightarrow> act_bind (req_env req) f s = f e s"
  "smap_find k req = Some (VNum n) \<Longrightarrow> smap_find n (sv_objects s) = Some (OProxy q) \<Longrightarrow> act_bind (req_proxy k req) g s = g q s"
  "smap_find k req = Some (VStr v) \<Longrightarrow> act_bind (req_string k req) h s = h v s"
  by (simp_all add: act_bind_def req_env_known req_proxy_known req_string_known)

lemmas reply_steps = make_handle_def check_error_def get_number_def

lemma transact_reply:
  assumes "ready c" "smap_find ''action'' req = Some (VStr action)" "run_action be info (smap_set ''tid'' (VNum tid) req) action = replied m"
  shows "transact be info tid req c = (c\<lparr>cn_server := fst (m (cn_server c))\<rparr>, Inr (case snd (m (cn_server c)) of
      Inl e \<Rightarrow> [(''errorMsg'', VStr e), (''tid'', VNum tid)]
    | Inr out \<Rightarrow> fold (\<lambda>(k, v). smap_set k v) out [(''tid'', VNum tid)]))"
proof -
  obtain s r where m: "m (cn_server c) = (s, r)" by (metis surj_pair)
  have "c\<lparr>cn_server := s, cn_running := True\<rparr> = c\<lparr>cn_server := s\<rparr>" using assms(1) by (cases c) (simp add: ready_def)
  then show ?thesis using transact_ready[OF assms(1,2), of be info tid] assms(3) m by (cases r) (simp_all add: replied_steps)
qed

lemma proxy_reply:
  "act_bind (act_world f) (\<lambda>p. reply_new k (OProxy p)) s = (case f (sv_world s) of
     (w, Inl m) \<Rightarrow> (s\<lparr>sv_world := w\<rparr>, Inl m)
   | (w, Inr p) \<Rightarrow> (new_object (OProxy p) (s\<lparr>sv_world := w\<rparr>), Inr [(k, VNum (add64 (sv_lastId s) 1))]))"
  by (simp add: world_reply reply_new_step split: prod.splits sum.splits)

lemma findProxy_run:
  assumes "ready c" "smap_find env (sv_objects (cn_server c)) = Some (OEnv e)"
  shows "remote_findProxy be info tid env name c = (case be_findProxy be e name (sv_world (cn_server c)) of
      (w, Inl m) \<Rightarrow> (with_world c w, Inl (ServerError m))
    | (w, Inr q) \<Rightarrow> (with_object c w q, Inr (next_id c)))"
proof -
  obtain w r where b: "be_findProxy be e name (sv_world (cn_server c)) = (w, r)" by (metis surj_pair)
  have t: "transact be info tid [(''action'', VStr ''findProxy''), (''envID'', VNum env), (''name'', VStr name)] c = (case r of
      Inl m \<Rightarrow> (with_world c w, Inr [(''errorMsg'', VStr m), (''tid'', VNum tid)])
    | Inr q \<Rightarrow> (with_object c w q, Inr [(''handleID'', VNum (next_id c)), (''tid'', VNum tid)]))"
    by (subst transact_reply[OF assms(1) _ run_actions(1)], simp,
        cases r, simp_all add: known_binds(1)[OF _ assms(2)] known_binds(3) proxy_reply b)
  show ?thesis by (cases r) (simp_all add: remote_findProxy_def reply_steps t b)
qed

lemma toProxy_run:
  assumes "ready c" "smap_find env (sv_objects (cn_server c)) = Some (OEnv e)"
  shows "remote_toProxy be info tid env v c = (case be_toProxy be e v (sv_world (cn_server c)) of
      (w, Inl m) \<Rightarrow> (with_world c w, Inl (ServerError m))
    | (w, Inr q) \<Rightarrow> (with_object c w q, Inr (next_id c)))"
proof -
  obtain w r where b: "be_toProxy be e v (sv_world (cn_server c)) = (w, r)" by (metis surj_pair)
  have t: "transact be info tid [(''action'', VStr ''convertObjectToProxy''), (''envID'', VNum env), (''local'', VObj v)] c = (case r of
      Inl m \<Rightarrow> (with_world c w, Inr [(''errorMsg'', VStr m), (''tid'', VNum tid)])
    | Inr q \<Rightarrow> (with_object c w q, Inr [(''handleID'', VNum (next_id c)), (''tid'', VNum tid)]))"
    by (subst transact_reply[OF assms(1) _ run_actions(2)], simp,
        cases r, simp_all add: known_binds(1)[OF _ assms(2)] kw_at_def proxy_reply b)
  show ?thesis by (cases r) (simp_all add: remote_toProxy_def reply_steps t b)
qed

lemma toObject_run:
  assumes "ready c" "smap_find env (sv_objects (cn_server c)) = Some (OEnv e)" "smap_find h (sv_objects (cn_server c)) = Some (OProxy p)"
  shows "remote_toObject be info tid env h c = (case be_toObject be e p (sv_world (cn_server c)) of
      (w, Inl m) \<Rightarrow> (with_world c w, Inl (ServerError m)) | (w, Inr v) \<Rightarrow> (with_world c w, Inr v))"
proof -
  obtain w r where b: "be_toObject be e p (sv_world (cn_server c)) = (w, r)" by (metis surj_pair)
  have t: "transact be info tid [(''action'', VStr ''convertProxyToObject''), (''envID'', VNum env), (''handleID'', VNum h)] c
    = (with_world c w, Inr (case r of
        Inl m \<Rightarrow> [(''errorMsg'', VStr m), (''tid'', VNum tid)] | Inr v \<Rightarrow> [(''local'', VObj v), (''tid'', VNum tid)]))"
    by (subst transact_reply[OF assms(1) _ run_actions(3)], simp,
        cases r, simp_all add: known_binds(1)[OF _ assms(2)] known_binds(2)[OF _ assms(3)] world_reply b)
  show ?thesis by (cases r) (simp_all add: remote_toObject_def reply_steps t b)
qed

lemma drop_run:
  assumes "ready c"
  shows "remote_drop be info tid h c = c\<lparr>cn_server := (cn_server c)\<lparr>sv_objects := smap_erase h (sv_objects (cn_server c))\<rparr>\<rparr>"
  unfolding remote_drop_def
  by (subst transact_reply[OF assms(1) _ run_actions(4)]) (simp_all add: kw_at_def removeObjectAtId_def act_bind_def)

lemma compareTo_run:
  assumes "ready c" "smap_find h (sv_objects (cn_server c)) = Some (OProxy p)" "smap_find h' (sv_objects (cn_server c)) = Some (OProxy q)"
  shows "remote_compareTo be info tid env h (Mine h') c = (case be_compareTo be p q (sv_world (cn_server c)) of
      (w, Inl m) \<Rightarrow> (with_world c w, Inl (ServerError m)) | (w, Inr v) \<Rightarrow> (with_world c w, Inr v))"
proof -
  obtain w r where b: "be_compareTo be p q (sv_world (cn_server c)) = (w, r)" by (metis surj_pair)
  have t: "transact be info tid [(''action'', VStr ''compareTo''), (''handleID'', VNum h), (''otherID'', VNum h')] c
    = (with_world c w, Inr (case r of
        Inl m \<Rightarrow> [(''errorMsg'', VStr m), (''tid'', VNum tid)] | Inr v \<Rightarrow> [(''result'', VInt v), (''tid'', VNum tid)]))"
    by (subst transact_reply[OF assms(1) _ run_actions(6)], simp,
        cases r, simp_all add: known_binds(2)[OF _ assms(2)] known_binds(2)[OF _ assms(3)] world_reply b)
  show ?thesis by (cases r) (simp_all add: remote_compareTo_def getHandle_def owned_def reply_steps t b)
qed

lemma query_run:
  assumes "ready c" "smap_find h (sv_objects (cn_server c)) = Some (OProxy p)"
    "\<And>req. run_action be info req action = replied (act_bind (req_proxy ''handleID'' req) (\<lambda>p.
       act_bind (act_world (f p)) (\<lambda>r. act_lift (Inr [(''result'', mk r)]))))"
  shows "query be info tid action h c = (case f p (sv_world (cn_server c)) of
      (w, Inl m) \<Rightarrow> (with_world c w, Inl ReplyError) | (w, Inr v) \<Rightarrow> (with_world c w, Inr (mk v)))"
proof -
  obtain w r where b: "f p (sv_world (cn_server c)) = (w, r)" by (metis surj_pair)
  have t: "transact be info tid [(''action'', VStr action), (''handleID'', VNum h)] c
    = (with_world c w, Inr (case r of
        Inl m \<Rightarrow> [(''errorMsg'', VStr m), (''tid'', VNum tid)] | Inr v \<Rightarrow> [(''result'', mk v), (''tid'', VNum tid)]))"
    by (subst transact_reply[OF assms(1) _ assms(3)], simp,
        cases r, simp_all add: known_binds(2)[OF _ assms(2)] world_reply b)
  show ?thesis by (cases r) (simp_all add: query_def t b)
qed

lemmas hashCode_run = query_run[OF _ _ run_actions(7)] and toString_run = query_run[OF _ _ run_actions(8)]
  and getClassName_run = query_run[OF _ _ run_actions(9)]

section \<open>Arguments of a call\<close>

fun arg_fields :: "nat \<Rightarrow> nat list \<Rightarrow> 'v kwargs \<Rightarrow> 'v kwargs" where
  "arg_fields i [] req = req"
| "arg_fields i (h # hs) req = arg_fields (Suc i) hs (smap_set (to_string i) (VNum h) req)"

lemma call_fields_mine: "call_fields be info tid env i (map Mine hs) req c = (c, Inr (arg_fields i hs req))"
  by (induction hs arbitrary: i req) (simp_all add: getHandle_def owned_def)

lemma to_string_inj [simp]: "to_string i = to_string j \<longleftrightarrow> i = j"
  by (metis digits_value_to_string)

lemma arg_fields_other:
  "(\<And>j. k \<noteq> to_string j) \<Longrightarrow> smap_find k (arg_fields i hs req) = smap_find k req"
  by (induction hs arbitrary: i req) simp_all

lemma arg_fields_index:
  "smap_find (to_string j) (arg_fields i hs req) = (if i \<le> j \<and> j < i + length hs then Some (VNum (hs ! (j - i))) else smap_find (to_string j) req)"
proof (induction hs arbitrary: i req)
  case (Cons h hs)
  then show ?case by (cases "j = i") (auto simp: nth_Cons' Suc_diff_Suc)
qed auto

lemma length_smap_set: "length m \<le> length (smap_set k v m)" "smap_find k m = None \<Longrightarrow> length (smap_set k v m) = Suc (length m)"
  by (induction m) auto

lemma arg_fields_length:
  assumes "\<And>j. smap_find (to_string j) req = None"
  shows "length hs \<le> length (arg_fields i hs req)"
proof -
  have "(\<And>j. i \<le> j \<Longrightarrow> smap_find (to_string j) req = None) \<Longrightarrow> length (arg_fields i hs req) = length req + length hs" for req
    by (induction hs arbitrary: i req) (simp_all add: length_smap_set(2))
  from this[OF assms] show ?thesis by simp
qed

lemma not_to_string: "\<exists>c \<in> set k. \<not> is_digit c \<Longrightarrow> k \<noteq> to_string j"
  using to_string_digits[of j] by blast

lemma req_args_known:
  assumes "\<And>j. j < length qs \<Longrightarrow> \<exists>n. smap_find (to_string j) req = Some (VNum n) \<and> smap_find n (sv_objects s) = Some (OProxy (qs ! j))"
    "smap_find (to_string (length qs)) req = None" "k \<le> length qs" "length qs \<le> k + fuel"
  shows "req_args fuel k req s = (s, Inr (drop k qs))"
  using assms(3,4)
proof (induction fuel arbitrary: k)
  case (Suc fuel)
  show ?case
  proof (cases "k = length qs")
    case True
    then show ?thesis using assms(2) by simp
  next
    case False
    then have k: "k < length qs" using Suc.prems by simp
    then obtain n where n: "smap_find (to_string k) req = Some (VNum n)" "smap_find n (sv_objects s) = Some (OProxy (qs ! k))"
      using assms(1) by blast
    have "req_args fuel (Suc k) req s = (s, Inr (drop (Suc k) qs))" using Suc k by simp
    then show ?thesis using n k by (simp add: act_bind_def getObjectAtId_def Cons_nth_drop_Suc)
  qed
qed simp

text \<open>The size of the request is enough fuel for its arguments: their names are different.\<close>

lemma req_args_enough: "(req_args (length req) 0 req :: ('w, 'p, 'p list) action) = req_args (length req + n) 0 req"
proof -
  have keys: "k < length req" if "\<And>j. j \<le> k \<Longrightarrow> smap_find (to_string j) req \<noteq> None" for k
  proof -
    have "to_string ` {..k} \<subseteq> fst ` set req" using that by (auto simp: smap_find_None_iff)
    then have "card (to_string ` {..k}) \<le> card (fst ` set req)" by (intro card_mono) simp_all
    also have "\<dots> \<le> length req" using card_image_le[of "set req" fst] card_length[of req] by simp
    finally show ?thesis by (simp add: card_image inj_on_def)
  qed
  have "(\<And>j. j < k \<Longrightarrow> smap_find (to_string j) req \<noteq> None) \<Longrightarrow> length req \<le> k + fuel \<Longrightarrow>
      (req_args fuel k req :: ('w, 'p, 'p list) action) = req_args (fuel + n) k req" for fuel k
  proof (induction fuel arbitrary: k)
    case 0
    have "smap_find (to_string k) req = None"
    proof (rule ccontr)
      assume "smap_find (to_string k) req \<noteq> None"
      then have "k < length req" using 0(1) by (intro keys) (metis le_neq_implies_less)
      then show False using 0(2) by simp
    qed
    then show ?case by (cases n) simp_all
  next
    case (Suc fuel)
    show ?case
    proof (cases "smap_find (to_string k) req")
      case None
      then show ?thesis by simp
    next
      case (Some v)
      have "(req_args fuel (Suc k) req :: ('w, 'p, 'p list) action) = req_args (fuel + n) (Suc k) req"
      proof (rule Suc.IH)
        show "smap_find (to_string j) req \<noteq> None" if "j < Suc k" for j using that Suc.prems(1) Some by (cases "j = k") auto
        show "length req \<le> Suc k + fuel" using Suc.prems(2) by simp
      qed
      then show ?thesis using Some by (simp only: req_args.simps option.case add_Suc)
    qed
  qed
  note this[of 0 "length req"]
  then show ?thesis by simp
qed

lemma call_run:
  fixes be :: "('w, 'p, 'v) backend"
  assumes r: "ready c" and h: "smap_find h (sv_objects (cn_server c)) = Some (OProxy p)"
    and args: "list_all2 (\<lambda>n q. smap_find n (sv_objects (cn_server c)) = Some (OProxy q)) hs qs"
  shows "remote_call be info tid env h name (map Mine hs) c = (case be_call be p name qs (sv_world (cn_server c)) of
      (w, Returns q) \<Rightarrow> (with_object c w q, Inr (next_id c))
    | (w, Message m) \<Rightarrow> (with_world c w, Inl (CalleeMessage m))
    | (w, Throws m) \<Rightarrow> (with_world c w, Inl (ServerError m)))"
proof -
  let ?base = "[(''action'', VStr ''call''), (''handleID'', VNum h), (''name'', VStr name)] :: 'v kwargs"
  define req where "req = arg_fields 0 hs ?base"
  let ?req = "smap_set ''tid'' (VNum tid) req"
  have other: "smap_find k req = smap_find k ?base" if "\<exists>c \<in> set k. \<not> is_digit c" for k
    unfolding req_def by (rule arg_fields_other) (rule not_to_string[OF that])
  have fields: "smap_find ''action'' req = Some (VStr ''call'')" "smap_find ''handleID'' req = Some (VNum h)" "smap_find ''name'' req = Some (VStr name)"
    by (simp_all add: other is_digit_def)
  have names: "to_string j \<noteq> k" if "k \<in> {''action'', ''handleID'', ''name'', ''tid''}" for j k
    using not_to_string[of k j] that by (auto simp: is_digit_def)
  then have base: "smap_find (to_string j) ?base = None" for j by simp
  have index: "smap_find (to_string j) ?req = (if j < length hs then Some (VNum (hs ! j)) else None)" for j

  proof -
    have "smap_find (to_string j) ?req = smap_find (to_string j) req"
      by (rule smap_find_set_other) (use names[of "''tid''" j] in simp)
    then show ?thesis unfolding req_def arg_fields_index base by simp
  qed
  have len: "length qs \<le> length ?req"
    using order_trans[OF arg_fields_length[OF base, of hs 0, folded req_def] length_smap_set(1)[of req "''tid''" "VNum tid"]]
      list_all2_lengthD[OF args] by simp
  have known: "req_args (length ?req) 0 ?req (cn_server c) = (cn_server c, Inr qs)"
    using req_args_known[of qs ?req "cn_server c" 0 "length ?req"] len index list_all2_lengthD[OF args] list_all2_nthD[OF args]
    by simp
  have args_bind: "act_bind (req_args (length ?req) 0 ?req) f (cn_server c) = f qs (cn_server c)" for f :: "'p list \<Rightarrow> ('w, 'p, 'v kwargs) action"
    by (rule act_bind_step(1)) (rule known)
  obtain w out where b: "be_call be p name qs (sv_world (cn_server c)) = (w, out)" by (metis surj_pair)
  have t: "transact be info tid req c = (case out of
      Returns q \<Rightarrow> (with_object c w q, Inr [(''handleID'', VNum (next_id c)), (''tid'', VNum tid)])
    | Message m \<Rightarrow> (with_world c w, Inr [(''message'', VStr m), (''tid'', VNum tid)])
    | Throws m \<Rightarrow> (with_world c w, Inr [(''errorMsg'', VStr m), (''tid'', VNum tid)]))"
    by (subst transact_reply[OF r fields(1) run_actions(5)], cases out,
        simp_all add: known_binds(2)[OF _ h] known_binds(3) fields args_bind reply_new_step b del: req_args.simps)
  show ?thesis
    by (cases out) (simp_all add: remote_call_def call_fields_mine req_def[symmetric] t b reply_steps)
qed

section \<open>The table and the handles agree\<close>

definition live :: "nat option list \<Rightarrow> nat list" where
  "live tbl = concat (map (\<lambda>x. case x of None \<Rightarrow> [] | Some n \<Rightarrow> [n]) tbl)"

definition knows :: "('w, 'p) server \<Rightarrow> nat option \<Rightarrow> 'p option \<Rightarrow> bool" where
  "knows s i p \<longleftrightarrow> (case i of None \<Rightarrow> p = None | Some n \<Rightarrow> \<exists>q. p = Some q \<and> smap_find n (sv_objects s) = Some (OProxy q))"

text \<open>The table has the environment and the objects of the handles that live, and nothing else.\<close>

definition remote_rel :: "nat \<Rightarrow> nat \<Rightarrow> nat option list \<times> ('w, 'p) conn \<Rightarrow> 'p option list \<times> 'w \<Rightarrow> bool" where
  "remote_rel env e r l \<longleftrightarrow> (case r of (tbl, c) \<Rightarrow> ready c \<and> smap_ok (sv_objects (cn_server c)) \<and> sv_world (cn_server c) = snd l
     \<and> smap_find env (sv_objects (cn_server c)) = Some (OEnv e) \<and> list_all2 (knows (cn_server c)) tbl (fst l)
     \<and> distinct (live tbl) \<and> fst ` set (sv_objects (cn_server c)) = insert env (set (live tbl))
     \<and> (\<forall>n \<in> fst ` set (sv_objects (cn_server c)). n \<le> sv_lastId (cn_server c)))"

lemma live_append [simp]: "live (xs @ ys) = live xs @ live ys"
  by (simp add: live_def)

lemma live_set: "n \<in> set (live tbl) \<longleftrightarrow> Some n \<in> set tbl"
  by (induction tbl) (auto simp: live_def split: option.splits)

lemma live_in: "i < length tbl \<Longrightarrow> tbl ! i = Some n \<Longrightarrow> n \<in> set (live tbl)"
  by (metis live_set nth_mem)

lemma live_update_None: "i < length tbl \<Longrightarrow> tbl ! i = Some n \<Longrightarrow> distinct (live tbl) \<Longrightarrow>
    distinct (live (tbl[i := None])) \<and> set (live (tbl[i := None])) = set (live tbl) - {n}"
proof (induction tbl arbitrary: i)
  case (Cons x tbl)
  then show ?case using live_in[of "i - 1" tbl n] by (cases i) (auto simp: live_def split: option.splits)
qed simp

lemma remote_relD:
  assumes "remote_rel env e (tbl, c) (ptbl, w)"
  shows "ready c" "smap_ok (sv_objects (cn_server c))" "sv_world (cn_server c) = w"
    "smap_find env (sv_objects (cn_server c)) = Some (OEnv e)" "list_all2 (knows (cn_server c)) tbl ptbl" "distinct (live tbl)"
    "fst ` set (sv_objects (cn_server c)) = insert env (set (live tbl))"
    "\<forall>n \<in> fst ` set (sv_objects (cn_server c)). n \<le> sv_lastId (cn_server c)"
  using assms unfolding remote_rel_def prod.case fst_conv snd_conv by blast+

lemma rel_world:
  assumes "remote_rel env e (tbl, c) (ptbl, w)"
  shows "remote_rel env e (tbl, with_world c w') (ptbl, w')"
proof -
  have "knows (cn_server (with_world c w')) = knows (cn_server c)"
    by (auto simp: knows_def fun_eq_iff split: option.split)
  then show ?thesis using assms by (simp add: remote_rel_def ready_def)
qed

lemma rel_known:
  assumes "remote_rel env e (tbl, c) (ptbl, w)" "i < length ptbl" "ptbl ! i \<noteq> None"
  shows "smap_find (the (tbl ! i)) (sv_objects (cn_server c)) = Some (OProxy (the (ptbl ! i)))" "tbl ! i \<noteq> None" "i < length tbl"
proof -
  have l: "list_all2 (knows (cn_server c)) tbl ptbl" by (rule remote_relD(5)[OF assms(1)])
  then show i: "i < length tbl" using assms(2) by (simp add: list_all2_lengthD)
  have "knows (cn_server c) (tbl ! i) (ptbl ! i)" using list_all2_nthD[OF l i] .
  then show "smap_find (the (tbl ! i)) (sv_objects (cn_server c)) = Some (OProxy (the (ptbl ! i)))" "tbl ! i \<noteq> None"
    using assms(3) by (auto simp: knows_def split: option.splits)
qed

lemma rel_new:
  assumes rel: "remote_rel env e (tbl, c) (ptbl, w)" and bound: "Suc (sv_lastId (cn_server c)) < SIZE_MOD"
  shows "remote_rel env e (tbl @ [Some (next_id c)], with_object c w' q) (ptbl @ [Some q], w')"
proof -
  have n: "next_id c = Suc (sv_lastId (cn_server c))" using bound by (simp add: add64_exact)
  let ?objs = "sv_objects (cn_server c)"
  have r: "ready c" "smap_ok ?objs" "smap_find env ?objs = Some (OEnv e)" "list_all2 (knows (cn_server c)) tbl ptbl"
    "distinct (live tbl)" "fst ` set ?objs = insert env (set (live tbl))" "\<forall>k \<in> fst ` set ?objs. k \<le> sv_lastId (cn_server c)"
    using remote_relD[OF rel] by blast+
  have fresh: "next_id c \<notin> fst ` set ?objs" using r(7) unfolding n by fastforce
  then have env: "next_id c \<noteq> env" "next_id c \<notin> set (live tbl)" using r(6) by auto
  have "knows (new_object (OProxy q) ((cn_server c)\<lparr>sv_world := w'\<rparr>)) i p" if "knows (cn_server c) i p" for i p
    using that fresh smap_find_Some_in[of _ ?objs] by (force simp: knows_def new_object_def smap_find_set split: option.splits)
  then have "list_all2 (knows (new_object (OProxy q) ((cn_server c)\<lparr>sv_world := w'\<rparr>))) tbl ptbl"
    using r(4) by (rule list_all2_mono[rotated])
  moreover have "knows (new_object (OProxy q) ((cn_server c)\<lparr>sv_world := w'\<rparr>)) (Some (next_id c)) (Some q)"
    by (simp add: knows_def new_object_def)
  ultimately have k: "list_all2 (knows (new_object (OProxy q) ((cn_server c)\<lparr>sv_world := w'\<rparr>))) (tbl @ [Some (next_id c)]) (ptbl @ [Some q])"
    by (simp add: list_all2_appendI)
  have keys: "fst ` set (smap_set (next_id c) (OProxy q) ?objs) = insert env (set (live (tbl @ [Some (next_id c)])))"
    using r(6) by (auto simp: smap_keys_set live_def)
  have "\<forall>x \<in> set (smap_set (next_id c) (OProxy q) ?objs). fst x \<le> next_id c"
    using r(7) smap_keys_set[of "next_id c" "OProxy q" ?objs] unfolding n by (metis imageI insert_iff le_SucI order_refl)
  then show ?thesis
    using r(1-3,5) env k keys by (simp add: remote_rel_def ready_def new_object_def live_def[of "[Some _]"] smap_find_set)
qed

lemma rel_drop:
  assumes rel: "remote_rel env e (tbl, c) (ptbl, w)" and i: "i < length ptbl" "ptbl ! i \<noteq> None"
  shows "remote_rel env e (tbl[i := None], c\<lparr>cn_server := (cn_server c)\<lparr>sv_objects := smap_erase (the (tbl ! i)) (sv_objects (cn_server c))\<rparr>\<rparr>)
      (ptbl[i := None], w)"
proof -
  let ?objs = "sv_objects (cn_server c)"
  have r: "ready c" "smap_ok ?objs" "sv_world (cn_server c) = w" "smap_find env ?objs = Some (OEnv e)" "list_all2 (knows (cn_server c)) tbl ptbl"
    "distinct (live tbl)" "fst ` set ?objs = insert env (set (live tbl))" "\<forall>k \<in> fst ` set ?objs. k \<le> sv_lastId (cn_server c)"
    using remote_relD[OF rel] by blast+
  obtain n where n: "tbl ! i = Some n" "i < length tbl" "smap_find n ?objs = Some (OProxy (the (ptbl ! i)))" using rel_known[OF rel i] by auto
  have d: "distinct (map fst ?objs)" using r(2) by (simp add: smap_ok_def)
  have env: "env \<noteq> n" using r(4) n(3) by auto
  have lv: "distinct (live (tbl[i := None]))" "set (live (tbl[i := None])) = set (live tbl) - {n}"
    using live_update_None[OF n(2,1) r(6)] by simp_all
  let ?s = "(cn_server c)\<lparr>sv_objects := smap_erase n ?objs\<rparr>"
  have "list_all2 (knows ?s) (tbl[i := None]) (ptbl[i := None])"
    unfolding list_all2_conv_all_nth
  proof (intro conjI allI impI)
    show "length (tbl[i := None]) = length (ptbl[i := None])" using list_all2_lengthD[OF r(5)] by simp
    fix j assume j: "j < length (tbl[i := None])"
    show "knows ?s (tbl[i := None] ! j) (ptbl[i := None] ! j)"
    proof (cases "j = i")
      case True
      then show ?thesis using n(2) i by (simp add: knows_def)
    next
      case False
      then have k: "knows (cn_server c) (tbl ! j) (ptbl ! j)" using list_all2_nthD[OF r(5)] j by simp
      have "tbl ! j \<noteq> Some n"
      proof
        assume "tbl ! j = Some n"
        then have "n \<in> set (live (tbl[i := None]))" using live_in[of j "tbl[i := None]" n] False j by simp
        then show False using lv(2) by simp
      qed
      then show ?thesis using k False d by (auto simp: knows_def smap_find_erase split: option.splits)
    qed
  qed
  moreover have "fst ` set (smap_erase n ?objs) = insert env (set (live (tbl[i := None])))"
    using smap_keys_erase[OF d] r(7) lv(2) env by auto
  moreover have "\<forall>x \<in> set (smap_erase n ?objs). fst x \<le> sv_lastId (cn_server c)"
    using smap_keys_erase[OF d] r(8) by (metis Diff_iff imageI)
  ultimately show ?thesis
    using r(1-4) lv(1) env d n(1) by (simp add: remote_rel_def ready_def smap_find_erase)
qed

section \<open>Remote and local programs agree\<close>

lemma step_simulation:
  assumes rel: "remote_rel env e (tbl, c) (ptbl, w)" and ok: "rop_ok ptbl op" and bound: "Suc (sv_lastId (cn_server c)) < SIZE_MOD"
  shows "fst (remote_step be info tid env op (tbl, c)) = lost_text op (fst (local_step be e op (ptbl, w)))
    \<and> remote_rel env e (snd (remote_step be info tid env op (tbl, c))) (snd (local_step be e op (ptbl, w)))
    \<and> sv_lastId (cn_server (snd (snd (remote_step be info tid env op (tbl, c))))) \<le> Suc (sv_lastId (cn_server c))"
proof -
  have r: "ready c" "sv_world (cn_server c) = w" "smap_find env (sv_objects (cn_server c)) = Some (OEnv e)"
    using remote_relD[OF rel] by blast+
  have known: "i < length ptbl \<Longrightarrow> ptbl ! i \<noteq> None \<Longrightarrow> smap_find (the (tbl ! i)) (sv_objects (cn_server c)) = Some (OProxy (the (ptbl ! i)))" for i
    by (rule rel_known(1)[OF rel])
  have new: "remote_rel env e (tbl @ [Some (next_id c)], with_object c w' q) (ptbl @ [Some q], w')"
    "sv_lastId (cn_server (with_object c w' q)) \<le> Suc (sv_lastId (cn_server c))" for w' q
    using rel_new[OF rel bound] bound by (simp_all add: new_object_def add64_exact)
  have world: "remote_rel env e (tbl, with_world c w') (ptbl, w')" for w' by (rule rel_world[OF rel])
  show ?thesis
  proof (cases op)
    case (RFind name)
    then show ?thesis using new world
      by (simp add: remote_step_def local_step_def Let_def findProxy_run[OF r(1,3)] r(2) split: prod.splits sum.splits)
  next
    case (RConvert v)
    then show ?thesis using new world
      by (simp add: remote_step_def local_step_def Let_def toProxy_run[OF r(1,3)] r(2) split: prod.splits sum.splits)
  next
    case (RCall i name js)
    have args: "list_all2 (\<lambda>n q. smap_find n (sv_objects (cn_server c)) = Some (OProxy q)) (map (\<lambda>j. the (tbl ! j)) js) (map (\<lambda>j. the (ptbl ! j)) js)"
      using ok known RCall by (simp add: rop_ok_def list_all_iff list_all2_conv_all_nth)
    have i: "i < length ptbl" "ptbl ! i \<noteq> None" using ok RCall by (simp_all add: rop_ok_def)
    have m: "map (Mine \<circ> (\<lambda>j. the (tbl ! j))) js = map Mine (map (\<lambda>j. the (tbl ! j)) js)" by simp
    show ?thesis using new world RCall
      by (simp add: remote_step_def local_step_def Let_def m call_run[OF r(1) known[OF i] args] r(2) del: map_map split: prod.splits outcome.splits)
  next
    case (RObject i)
    then have "i < length ptbl" "ptbl ! i \<noteq> None" using ok by (simp_all add: rop_ok_def)
    note run = toObject_run[OF r(1,3) known[OF this]]
    obtain w' v where "be_toObject be e (the (ptbl ! i)) w = (w', v)" by (metis surj_pair)
    then show ?thesis using world RObject
      by (cases v) (simp_all add: run remote_step_def local_step_def Let_def r(2))
  next
    case (RCompare i j)
    then have "i < length ptbl" "ptbl ! i \<noteq> None" "j < length ptbl" "ptbl ! j \<noteq> None" using ok by (simp_all add: rop_ok_def)
    note run = compareTo_run[OF r(1) known[OF this(1,2)] known[OF this(3,4)]]
    obtain w' v where "be_compareTo be (the (ptbl ! i)) (the (ptbl ! j)) w = (w', v)" by (metis surj_pair)
    then show ?thesis using world RCompare
      by (cases v) (simp_all add: run remote_step_def local_step_def Let_def r(2))
  next
    case (RHash i)
    then have "i < length ptbl" "ptbl ! i \<noteq> None" using ok by (simp_all add: rop_ok_def)
    note run = hashCode_run[OF r(1) known[OF this]]
    obtain w' v where "be_hashCode be (the (ptbl ! i)) w = (w', v)" by (metis surj_pair)
    then show ?thesis using world RHash
      by (cases v) (simp_all add: run remote_step_def local_step_def Let_def remote_hashCode_def r(2))
  next
    case (RString i)
    then have "i < length ptbl" "ptbl ! i \<noteq> None" using ok by (simp_all add: rop_ok_def)
    note run = toString_run[OF r(1) known[OF this]]
    obtain w' v where "be_toString be (the (ptbl ! i)) w = (w', v)" by (metis surj_pair)
    then show ?thesis using world RString
      by (cases v) (simp_all add: run remote_step_def local_step_def Let_def remote_toString_def r(2))
  next
    case (RClass i)
    then have "i < length ptbl" "ptbl ! i \<noteq> None" using ok by (simp_all add: rop_ok_def)
    note run = getClassName_run[OF r(1) known[OF this]]
    obtain w' v where "be_getClassName be (the (ptbl ! i)) w = (w', v)" by (metis surj_pair)
    then show ?thesis using world RClass
      by (cases v) (simp_all add: run remote_step_def local_step_def Let_def remote_getClassName_def r(2))
  next
    case (RDrop i)
    then have "i < length ptbl" "ptbl ! i \<noteq> None" using ok by (simp_all add: rop_ok_def)
    from rel_drop[OF rel this] show ?thesis using RDrop
      by (simp add: remote_step_def local_step_def Let_def drop_run[OF r(1)])
  qed
qed

lemma program_simulation:
  assumes "remote_rel env e r l" "program_ok be e ops l" "sv_lastId (cn_server (snd r)) + length ops < SIZE_MOD"
  shows "fst (run_steps (remote_step be info tid env) ops r) = map2 lost_text ops (fst (run_steps (local_step be e) ops l))
    \<and> remote_rel env e (snd (run_steps (remote_step be info tid env) ops r)) (snd (run_steps (local_step be e) ops l))"
  using assms
proof (induction ops arbitrary: r l)
  case (Cons op ops)
  obtain tbl c ptbl w where rl: "r = (tbl, c)" "l = (ptbl, w)" by (metis surj_pair)
  let ?r = "remote_step be info tid env op r" and ?l = "local_step be e op l"
  have s: "fst ?r = lost_text op (fst ?l)" "remote_rel env e (snd ?r) (snd ?l)" "sv_lastId (cn_server (snd (snd ?r))) \<le> Suc (sv_lastId (cn_server (snd r)))"
    using step_simulation[of env e tbl c ptbl w op be info tid] Cons.prems unfolding rl by simp_all
  have "fst (run_steps (remote_step be info tid env) ops (snd ?r)) = map2 lost_text ops (fst (run_steps (local_step be e) ops (snd ?l)))
    \<and> remote_rel env e (snd (run_steps (remote_step be info tid env) ops (snd ?r))) (snd (run_steps (local_step be e) ops (snd ?l)))"
    by (rule Cons.IH[OF s(2)]) (use Cons.prems s(3) in simp_all)
  then show ?case using s(1) by (simp add: case_prod_beta)
qed simp

lemma open_rel:
  fixes be :: "('w, 'p, 'v) backend"
  assumes r: "ready c0" and none: "sv_objects (cn_server c0) = []" and bound: "Suc (sv_lastId (cn_server c0)) < SIZE_MOD"
    and run: "remote_open be info tid name args c0 = (c, Inr env)"
  shows "\<exists>args' e w. be_make be name args' (sv_world (cn_server c0)) = (w, Inr e) \<and> remote_rel env e ([], c) ([], w)
    \<and> sv_lastId (cn_server c) = Suc (sv_lastId (cn_server c0))"
proof -
  define req :: "'v kwargs" where "req = smap_set ''name'' (VStr name) (smap_set ''action'' (VStr ''RemoteProxyEnvironment'')
             (fold (\<lambda>(k, s). smap_set k (VStr s)) args []))"
  let ?req = "smap_set ''tid'' (VNum tid) req" and ?s = "cn_server c0"
  have fields: "smap_find ''action'' req = Some (VStr ''RemoteProxyEnvironment'')" "smap_find ''name'' ?req = Some (VStr name)"
    by (simp_all add: req_def)
  have act: "run_action be info ?req ''RemoteProxyEnvironment'' = replied (act_bind (req_string ''name'' ?req) (\<lambda>name.
          act_bind (act_world (be_make be name (env_args ?req))) (\<lambda>env.
          act_bind (reply_new ''envID'' (OEnv env)) (\<lambda>out.
            act_lift (Inr (out @ (case info of (upid, nodeId, peerAddr) \<Rightarrow>
              [(''upid'', VStr upid), (''nodeId'', VStr nodeId), (''peerAddr'', VStr peerAddr)])))))))"
    by (simp add: run_action_def Let_def replied_def)
  obtain w v where b: "be_make be name (env_args ?req) (sv_world ?s) = (w, v)" by (metis surj_pair)
  obtain upid nodeId peerAddr where i: "info = (upid, nodeId, peerAddr)" by (metis prod_cases3)
  have t: "transact be info tid req c0 = (case v of
      Inl m \<Rightarrow> (with_world c0 w, Inr [(''errorMsg'', VStr m), (''tid'', VNum tid)])
    | Inr e \<Rightarrow> (c0\<lparr>cn_server := new_object (OEnv e) (?s\<lparr>sv_world := w\<rparr>)\<rparr>,
        Inr [(''envID'', VNum (next_id c0)), (''nodeId'', VStr nodeId), (''peerAddr'', VStr peerAddr), (''tid'', VNum tid), (''upid'', VStr upid)]))"
    by (subst transact_reply[OF r fields(1) act], cases v,
        simp_all add: known_binds(3)[OF fields(2)] world_reply act_bind_def[of "reply_new _ _"] reply_new_step b i)
  obtain e where e: "v = Inr e" using run t by (cases v) (simp_all add: remote_open_def req_def[symmetric] reply_steps)
  have c: "c = c0\<lparr>cn_server := new_object (OEnv e) (?s\<lparr>sv_world := w\<rparr>)\<rparr>" "env = Suc (sv_lastId ?s)"
    using run t e bound by (simp_all add: remote_open_def req_def[symmetric] reply_steps add64_exact)
  have "remote_rel env e ([], c) ([], w)"
    using r none bound unfolding c by (simp add: remote_rel_def ready_def new_object_def live_def add64_exact smap_ok_def)
  then show ?thesis using b e bound unfolding c by (auto simp: new_object_def add64_exact)
qed

text \<open>C13: A program that works with the proxies of one remote environment by their handles sees at every step what it sees in the
  server process itself, with one exception: where hashCode, toString or getClassName throws, the text of the exception is lost
  (\<open>lost_text\<close>). It leaves the same state in that process. The server's table then holds the environment and the objects of
  the handles that are left: nothing is lost and nothing stays behind. The arguments of calls and comparisons are handles of the same
  environment; an argument that has to be converted makes every call fail (\<open>foreign_argument_fails\<close>).\<close>

theorem remote_transparent:
  assumes "ready c0" "sv_objects (cn_server c0) = []" "Suc (sv_lastId (cn_server c0) + length ops) < SIZE_MOD"
    and "remote_open be info tid name args c0 = (c, Inr env)"
    and "\<And>args' e w. be_make be name args' (sv_world (cn_server c0)) = (w, Inr e) \<Longrightarrow> program_ok be e ops ([], w)"
  shows "\<exists>args' e w. be_make be name args' (sv_world (cn_server c0)) = (w, Inr e)
    \<and> (case run_steps (remote_step be info tid env) ops ([], c) of (seen, handles, c') \<Rightarrow>
         case run_steps (local_step be e) ops ([], w) of (seen', proxies, w') \<Rightarrow>
           seen = map2 lost_text ops seen' \<and> sv_world (cn_server c') = w'
           \<and> fst ` set (sv_objects (cn_server c')) = insert env (set (live handles)))"
proof -
  obtain args' e w where o: "be_make be name args' (sv_world (cn_server c0)) = (w, Inr e)" "remote_rel env e ([], c) ([], w)"
    "sv_lastId (cn_server c) = Suc (sv_lastId (cn_server c0))"
    using open_rel[OF assms(1,2) _ assms(4)] assms(3) by auto
  have "sv_lastId (cn_server (snd ([], c))) + length ops < SIZE_MOD" using assms(3) o(3) by simp
  from program_simulation[OF o(2) assms(5)[OF o(1)] this, of info tid]
  have s: "fst (run_steps (remote_step be info tid env) ops ([], c)) = map2 lost_text ops (fst (run_steps (local_step be e) ops ([], w)))"
    "remote_rel env e (snd (run_steps (remote_step be info tid env) ops ([], c))) (snd (run_steps (local_step be e) ops ([], w)))"
    by simp_all
  show ?thesis
    by (rule exI[of _ args'], rule exI[of _ e], rule exI[of _ w])
      (use o(1) s remote_relD in \<open>auto simp: case_prod_beta remote_rel_def\<close>)
qed

text \<open>A process whose proxies are numbers and whose state counts the classes that were found.\<close>

definition demo_backend :: "(nat, nat, nat) backend" where
  "demo_backend = \<lparr>be_make = \<lambda>name args w. (w, Inr 0), be_findProxy = \<lambda>e name w. (Suc w, if name = ''A'' then Inr w else Inl ''no class''),
     be_toProxy = \<lambda>e v w. (w, Inr v), be_toObject = \<lambda>e p w. (w, Inr p),
     be_call = \<lambda>p name args w. (w, if name = ''sum'' then Returns (p + sum_list args) else Message ''no call''),
     be_compareTo = \<lambda>p q w. (w, Inr (int p - int q)), be_hashCode = \<lambda>p w. (w, if p = 0 then Inl ''zero'' else Inr p),
     be_toString = \<lambda>p w. (w, Inr ''n''), be_getClassName = \<lambda>p w. (w, Inr ''A'')\<rparr>"

definition demo_conn :: "(nat, nat) conn" where
  "demo_conn = \<lparr>cn_server = \<lparr>sv_world = 0, sv_objects = [], sv_lastId = 0\<rparr>, cn_running = True, cn_active = True\<rparr>"

definition demo_program :: "nat rop list" where
  "demo_program = [RFind ''A'', RConvert 5, RCall 1 ''sum'' [0, 1], RDrop 1, RObject 2, RHash 0, RFind ''B'']"

lemma demo_open: "\<exists>c. remote_open demo_backend (''p'', ''n'', ''a'') 7 ''managed'' [] demo_conn = (c, Inr 1)"
  by (simp add: remote_open_def transact_def runHandlerOnce_def demo_conn_def req_string_def kw_at_def run_action_def Let_def act_bind_def
      act_world_def demo_backend_def reply_new_def getNewObjectId_def add64_exact check_error_def get_number_def SIZE_MOD_def)

theorem remote_transparent_witness:
  "\<exists>c. remote_open demo_backend (''p'', ''n'', ''a'') 7 ''managed'' [] demo_conn = (c, Inr 1)
    \<and> fst (run_steps (remote_step demo_backend (''p'', ''n'', ''a'') 7 1) demo_program ([], c))
        = [SeesProxy, SeesProxy, SeesProxy, SeesNothing, SeesValue 10, SeesError, SeesText ''no class'']"
proof -
  obtain c where c: "remote_open demo_backend (''p'', ''n'', ''a'') 7 ''managed'' [] demo_conn = (c, Inr 1)" using demo_open by blast
  have l: "fst (run_steps (local_step demo_backend 0) demo_program ([], 0))
      = [SeesProxy, SeesProxy, SeesProxy, SeesNothing, SeesValue 10, SeesText ''zero'', SeesText ''no class'']"
    "program_ok demo_backend 0 demo_program ([], 0)"
    by (simp_all add: demo_program_def local_step_def Let_def demo_backend_def rop_ok_def)
  have h: "ready demo_conn" "sv_objects (cn_server demo_conn) = []"
    "Suc (sv_lastId (cn_server demo_conn) + length demo_program) < SIZE_MOD" "sv_world (cn_server demo_conn) = 0"
    by (simp_all add: ready_def demo_conn_def demo_program_def SIZE_MOD_def)
  have "program_ok demo_backend e demo_program ([], w)" if "be_make demo_backend ''managed'' args' (sv_world (cn_server demo_conn)) = (w, Inr e)"
    for args' e w using that l(2) h(4) by (simp add: demo_backend_def)
  note transparent = remote_transparent[OF h(1-3) c, unfolded case_prod_beta, OF this]
  obtain args' e w where m: "be_make demo_backend ''managed'' args' (sv_world (cn_server demo_conn)) = (w, Inr e)"
    and s: "fst (run_steps (remote_step demo_backend (''p'', ''n'', ''a'') 7 1) demo_program ([], c))
      = map (\<lambda>p. lost_text (fst p) (snd p)) (zip demo_program (fst (run_steps (local_step demo_backend e) demo_program ([], w))))"
    by (rule transparent[THEN exE], assumption) blast
  have "e = 0" "w = 0" using m h(4) by (simp_all add: demo_backend_def)
  with s c show ?thesis by (simp add: l(1)) (simp add: demo_program_def)
qed

section \<open>Arguments of other environments\<close>

text \<open>An argument that has to be converted fails every call: its handle is released, and the server removes the object, before the
  request of the call is sent.\<close>

lemma foreign_argument_fails:
  fixes be :: "('w, 'p, 'v) backend"
  assumes r: "ready c" and env: "smap_find env (sv_objects (cn_server c)) = Some (OEnv e)"
    and h: "smap_find h (sv_objects (cn_server c)) = Some (OProxy p)"
    and ids: "smap_ok (sv_objects (cn_server c))" "\<forall>n \<in> fst ` set (sv_objects (cn_server c)). n \<le> sv_lastId (cn_server c)"
      "Suc (sv_lastId (cn_server c)) < SIZE_MOD"
  shows "\<exists>m. snd (remote_call be info tid env h name [Foreign (Inr v)] c) = Inl (ServerError m)"
proof -
  obtain w x where b: "be_toProxy be e v (sv_world (cn_server c)) = (w, x)" by (metis surj_pair)
  show ?thesis
  proof (cases x)
    case (Inl m)
    then show ?thesis using toProxy_run[OF r env, of be info tid v] b by (simp add: remote_call_def getHandle_def)
  next
    case (Inr q)
    let ?s = "new_object (OProxy q) ((cn_server c)\<lparr>sv_world := w\<rparr>)"
    let ?n = "next_id c"
    define c2 where "c2 = c\<lparr>cn_server := ?s\<lparr>sv_objects := smap_erase ?n (sv_objects ?s)\<rparr>\<rparr>"
    have n: "?n = Suc (sv_lastId (cn_server c))" using ids(3) by (simp add: add64_exact)
    have "h \<le> sv_lastId (cn_server c)" using h ids(2) smap_find_Some_in by fastforce
    then have hn: "h \<noteq> ?n" unfolding n by simp
    have "smap_ok (sv_objects ?s)" using ids(1) by (simp add: new_object_def)
    then have d: "distinct (map fst (sv_objects ?s))" by (simp add: smap_ok_def)
    then have gone: "smap_find ?n (sv_objects (cn_server c2)) = None" and h2: "smap_find h (sv_objects (cn_server c2)) = Some (OProxy p)"
      using h hn by (simp_all add: smap_find_erase new_object_def smap_find_set c2_def)
    have r2: "ready (with_object c w q)" "ready c2" using r by (simp_all add: ready_def c2_def)
    let ?req = "[(''0'', VNum ?n), (''action'', VStr ''call''), (''handleID'', VNum h), (''name'', VStr name)] :: 'v kwargs"
    define req where "req = smap_set ''tid'' (VNum tid) ?req"
    have s0: "to_string 0 = ''0''" by code_simp
    have fields: "smap_find ''handleID'' req = Some (VNum h)" "smap_find (to_string 0) req = Some (VNum ?n)"
      by (simp_all add: req_def s0)
    obtain k where k: "length req = Suc k" by (cases req) (simp_all add: req_def)
    have args: "snd (act_bind (req_args (length req) 0 req) f (cn_server c2)) = Inl ''extract''" for f :: "'p list \<Rightarrow> ('w, 'p, 'v kwargs) action"
      unfolding k using gone by (simp add: fields(2) act_bind_def getObjectAtId_def)
    have "snd (transact be info tid ?req c2) = Inr [(''errorMsg'', VStr ''extract''), (''tid'', VNum tid)]"
      by (subst transact_reply[OF r2(2) _ run_actions(5)], simp)
        (simp only: req_def[symmetric] known_binds(2)[OF fields(1) h2] args snd_conv sum.case)
    then obtain c3 where t: "transact be info tid ?req c2 = (c3, Inr [(''errorMsg'', VStr ''extract''), (''tid'', VNum tid)])"
      by (metis prod.collapse)
    have "call_fields be info tid env 0 [Foreign (Inr v)] [(''action'', VStr ''call''), (''handleID'', VNum h), (''name'', VStr name)] c = (c2, Inr ?req)"
      using toProxy_run[OF r env, of be info tid v] b Inr drop_run[OF r2(1), of be info tid ?n] by (simp add: getHandle_def owned_def s0 c2_def)
    then show ?thesis using t by (simp add: remote_call_def check_error_def)
  qed
qed

end
