(* ===== verification/RemoteThreads.thy ===== *)
theory RemoteThreads
  imports Prelude
begin

text \<open>
  Several threads on one remote connection (RemoteProxyEnvironment::transact of lib/Remote/RemoteProxy.cpp). A thread writes its
  request under one mutex. Under the other it looks for its reply in the cache, or else reads the next reply from the stream,
  which it keeps if it is its own and puts into the cache otherwise. Requests and replies are a thread id, the 32-bit hash
  that the parameter \<open>tid\<close> gives, and the number of the request, which stands for the content: the server answers the requests
  of the stream in order, and the reply to a request has its number. Theory RemoteProxy has the contents.
\<close>

section \<open>The steps of a connection\<close>

text \<open>Outside; waiting for the second mutex; holding it, with no reply in the cache; back with a reply.\<close>

datatype trans_pc = TIdle | TWait nat | TRead nat | TGot nat nat

record connection =
  rc_pc :: "nat \<Rightarrow> trans_pc"
  rc_requests :: "(nat \<times> nat) list"
  rc_replies :: "(nat \<times> nat) list"
  rc_tidToReply :: "(nat \<times> nat) list"
  rc_isMutex :: "nat option"
  rc_sent :: nat

definition rc_new :: connection where
  "rc_new = \<lparr>rc_pc = \<lambda>_. TIdle, rc_requests = [], rc_replies = [], rc_tidToReply = [], rc_isMutex = None, rc_sent = 0\<rparr>"

definition send_request :: "(nat \<Rightarrow> nat) \<Rightarrow> nat \<Rightarrow> connection \<Rightarrow> connection" where
  "send_request tid t s = s\<lparr>rc_pc := (rc_pc s)(t := TWait (rc_sent s)), rc_requests := rc_requests s @ [(tid t, rc_sent s)],
     rc_sent := Suc (rc_sent s)\<rparr>"

definition serve :: "connection \<Rightarrow> connection" where
  "serve s = s\<lparr>rc_requests := tl (rc_requests s), rc_replies := rc_replies s @ [hd (rc_requests s)]\<rparr>"

text \<open>The turn of the loop with the mutex: the cache first.\<close>

definition look_up :: "(nat \<Rightarrow> nat) \<Rightarrow> nat \<Rightarrow> nat \<Rightarrow> connection \<Rightarrow> connection" where
  "look_up tid t n s = (case smap_find (tid t) (rc_tidToReply s) of
     Some m \<Rightarrow> s\<lparr>rc_pc := (rc_pc s)(t := TGot n m), rc_tidToReply := smap_erase (tid t) (rc_tidToReply s)\<rparr>
   | None \<Rightarrow> s\<lparr>rc_pc := (rc_pc s)(t := TRead n), rc_isMutex := Some t\<rparr>)"

definition read_reply :: "(nat \<Rightarrow> nat) \<Rightarrow> nat \<Rightarrow> nat \<Rightarrow> connection \<Rightarrow> connection" where
  "read_reply tid t n s = (case hd (rc_replies s) of (replyTid, m) \<Rightarrow>
     let s = s\<lparr>rc_replies := tl (rc_replies s), rc_isMutex := None\<rparr> in
     if replyTid = tid t then s\<lparr>rc_pc := (rc_pc s)(t := TGot n m)\<rparr>
     else s\<lparr>rc_pc := (rc_pc s)(t := TWait n), rc_tidToReply := smap_set replyTid m (rc_tidToReply s)\<rparr>)"

text \<open>The steps that need no new request: of the server, and of the threads that wait.\<close>

inductive work_step :: "(nat \<Rightarrow> nat) \<Rightarrow> connection \<Rightarrow> connection \<Rightarrow> bool" for tid where
  step_serve: "rc_requests s \<noteq> [] \<Longrightarrow> work_step tid s (serve s)"
| step_look: "rc_pc s t = TWait n \<Longrightarrow> rc_isMutex s = None \<Longrightarrow> work_step tid s (look_up tid t n s)"
| step_read: "rc_pc s t = TRead n \<Longrightarrow> rc_replies s \<noteq> [] \<Longrightarrow> work_step tid s (read_reply tid t n s)"

inductive_cases work_stepE: "work_step tid s s'"

inductive rc_reach :: "(nat \<Rightarrow> nat) \<Rightarrow> connection \<Rightarrow> bool" for tid where
  reach_new: "rc_reach tid rc_new"
| reach_send: "rc_reach tid s \<Longrightarrow> rc_pc s t = TIdle \<Longrightarrow> rc_reach tid (send_request tid t s)"
| reach_work: "rc_reach tid s \<Longrightarrow> work_step tid s s' \<Longrightarrow> rc_reach tid s'"
| reach_return: "rc_reach tid s \<Longrightarrow> rc_pc s t = TGot n m \<Longrightarrow> rc_reach tid (s\<lparr>rc_pc := (rc_pc s)(t := TIdle)\<rparr>)"

section \<open>Requests and waiting threads\<close>

definition waits :: "connection \<Rightarrow> nat \<Rightarrow> nat \<Rightarrow> bool" where
  "waits s t n \<longleftrightarrow> rc_pc s t = TWait n \<or> rc_pc s t = TRead n"

definition on_the_way :: "connection \<Rightarrow> (nat \<times> nat) list" where
  "on_the_way s = rc_requests s @ rc_replies s @ rc_tidToReply s"

text \<open>The request of every waiting thread, or its reply, is at one place, and nothing else is on the way.\<close>

definition rc_inv :: "(nat \<Rightarrow> nat) \<Rightarrow> connection \<Rightarrow> bool" where
  "rc_inv tid s \<longleftrightarrow> distinct (map fst (on_the_way s)) \<and> smap_ok (rc_tidToReply s)
     \<and> (\<forall>t n. waits s t n \<longrightarrow> (tid t, n) \<in> set (on_the_way s))
     \<and> (\<forall>x \<in> set (on_the_way s). \<exists>t. tid t = fst x \<and> waits s t (snd x))
     \<and> (\<forall>t n. rc_pc s t = TRead n \<longrightarrow> rc_isMutex s = Some t \<and> smap_find (tid t) (rc_tidToReply s) = None)
     \<and> (\<forall>t. rc_isMutex s = Some t \<longrightarrow> (\<exists>n. rc_pc s t = TRead n))
     \<and> (\<forall>t n m. rc_pc s t = TGot n m \<longrightarrow> m = n)
     \<and> finite {t. rc_pc s t \<noteq> TIdle}"

lemma rc_invD:
  assumes "rc_inv tid s"
  shows "distinct (map fst (on_the_way s))" "smap_ok (rc_tidToReply s)"
    "waits s t n \<Longrightarrow> (tid t, n) \<in> set (on_the_way s)" "x \<in> set (on_the_way s) \<Longrightarrow> \<exists>t. tid t = fst x \<and> waits s t (snd x)"
    "rc_pc s t = TRead n \<Longrightarrow> rc_isMutex s = Some t \<and> smap_find (tid t) (rc_tidToReply s) = None"
    "rc_isMutex s = Some t \<Longrightarrow> \<exists>n. rc_pc s t = TRead n" "rc_pc s t = TGot n m \<Longrightarrow> m = n" "finite {t. rc_pc s t \<noteq> TIdle}"
  using assms unfolding rc_inv_def by blast+

text \<open>With different ids, what is on the way under the id of a waiting thread is its own.\<close>

lemma on_the_way_own:
  assumes "rc_inv tid s" "inj tid" "waits s t n" "(tid t, m) \<in> set (on_the_way s)"
  shows "m = n"
proof -
  obtain u where u: "tid u = tid t" "waits s u m" using rc_invD(4)[OF assms(1,4)] by auto
  have "u = t" using injD[OF assms(2) u(1)] .
  then show ?thesis using u(2) assms(3) by (auto simp: waits_def)
qed

lemma rc_invI:
  assumes "distinct (map fst (on_the_way s))" "smap_ok (rc_tidToReply s)"
    "\<And>t n. waits s t n \<Longrightarrow> (tid t, n) \<in> set (on_the_way s)" "\<And>x. x \<in> set (on_the_way s) \<Longrightarrow> \<exists>t. tid t = fst x \<and> waits s t (snd x)"
    "\<And>t n. rc_pc s t = TRead n \<Longrightarrow> rc_isMutex s = Some t \<and> smap_find (tid t) (rc_tidToReply s) = None"
    "\<And>t. rc_isMutex s = Some t \<Longrightarrow> \<exists>n. rc_pc s t = TRead n" "\<And>t n m. rc_pc s t = TGot n m \<Longrightarrow> m = n" "finite {t. rc_pc s t \<noteq> TIdle}"
  shows "rc_inv tid s"
  using assms unfolding rc_inv_def by blast

lemma waits_upd: "waits (s\<lparr>rc_pc := (rc_pc s)(t := pc)\<rparr>) u n \<longleftrightarrow> (if u = t then pc = TWait n \<or> pc = TRead n else waits s u n)"
  by (simp add: waits_def)

lemma send_inv:
  assumes inv: "rc_inv tid s" and i: "inj tid" and t: "rc_pc s t = TIdle"
  shows "rc_inv tid (send_request tid t s)"
proof -
  have nw: "\<not> waits s t n" for n using t by (simp add: waits_def)
  have fresh: "tid t \<notin> fst ` set (on_the_way s)"
  proof
    assume "tid t \<in> fst ` set (on_the_way s)"
    then obtain m where "(tid t, m) \<in> set (on_the_way s)" by auto
    then obtain u where u: "tid u = tid t" "waits s u m" using rc_invD(4)[OF inv] by fastforce
    then show False using injD[OF i u(1)] nw by simp
  qed
  let ?s = "send_request tid t s"
  have way: "set (on_the_way ?s) = insert (tid t, rc_sent s) (set (on_the_way s))" by (auto simp: on_the_way_def send_request_def)
  have w: "waits ?s u n \<longleftrightarrow> (if u = t then n = rc_sent s else waits s u n)" for u n
    by (auto simp: waits_def send_request_def)
  have d: "distinct (map fst (on_the_way ?s))" using rc_invD(1)[OF inv] fresh by (auto simp: on_the_way_def send_request_def)
  have f: "finite {u. rc_pc ?s u \<noteq> TIdle}"
    by (rule finite_subset[of _ "insert t {u. rc_pc s u \<noteq> TIdle}"]) (auto simp: send_request_def rc_invD(8)[OF inv])
  have b: "\<exists>u. tid u = fst x \<and> waits ?s u (snd x)" if x: "x \<in> set (on_the_way ?s)" for x
  proof (cases "x = (tid t, rc_sent s)")
    case True
    then show ?thesis using w by auto
  next
    case False
    then have "x \<in> set (on_the_way s)" using x unfolding way by simp
    then obtain u where u: "tid u = fst x" "waits s u (snd x)" using rc_invD(4)[OF inv] by blast
    have "u \<noteq> t" using u(2) nw by auto
    then show ?thesis using u by (intro exI[of _ u]) (simp add: w)
  qed
  show ?thesis
  proof (rule rc_invI[OF d _ _ b _ _ _ f])
    show "smap_ok (rc_tidToReply ?s)" using rc_invD(2)[OF inv] by (simp add: send_request_def)
    show "(tid u, n) \<in> set (on_the_way ?s)" if "waits ?s u n" for u n
      using that rc_invD(3)[OF inv] unfolding w way by (auto split: if_splits)
    show "rc_isMutex ?s = Some u \<and> smap_find (tid u) (rc_tidToReply ?s) = None" if "rc_pc ?s u = TRead n" for u n
      using that rc_invD(5)[OF inv, of u n] by (simp add: send_request_def split: if_splits)
    show "\<exists>n. rc_pc ?s u = TRead n" if "rc_isMutex ?s = Some u" for u
      using that rc_invD(6)[OF inv, of u] t by (auto simp: send_request_def)
    show "m = n" if "rc_pc ?s u = TGot n m" for u n m
      using that rc_invD(7)[OF inv, of u n m] by (simp add: send_request_def split: if_splits)
  qed
qed

lemma return_inv:
  assumes inv: "rc_inv tid s" and t: "rc_pc s t = TGot n m"
  shows "rc_inv tid (s\<lparr>rc_pc := (rc_pc s)(t := TIdle)\<rparr>)"
proof -
  let ?s = "s\<lparr>rc_pc := (rc_pc s)(t := TIdle)\<rparr>"
  have w: "waits ?s = waits s" using t by (auto simp: fun_eq_iff waits_def)
  have way: "on_the_way ?s = on_the_way s" by (simp add: on_the_way_def)
  show ?thesis
  proof (rule rc_invI, unfold w way)
    show "finite {u. rc_pc ?s u \<noteq> TIdle}"
      by (rule finite_subset[OF _ rc_invD(8)[OF inv]]) auto
    show "\<exists>n. rc_pc ?s u = TRead n" if "rc_isMutex ?s = Some u" for u
      using that rc_invD(6)[OF inv, of u] t by auto
  qed (use rc_invD[OF inv] in \<open>auto split: if_splits\<close>)
qed

lemma serve_inv:
  assumes inv: "rc_inv tid s" and r: "rc_requests s \<noteq> []"
  shows "rc_inv tid (serve s)"
proof -
  obtain x xs where x: "rc_requests s = x # xs" using r by (cases "rc_requests s") auto
  have w: "waits (serve s) = waits s" by (simp add: fun_eq_iff waits_def serve_def)
  have way: "set (on_the_way (serve s)) = set (on_the_way s)" using x by (auto simp: on_the_way_def serve_def)
  show ?thesis
  proof (rule rc_invI, unfold w way)
    show "distinct (map fst (on_the_way (serve s)))" using rc_invD(1)[OF inv] x by (auto simp: on_the_way_def serve_def)
  qed (use rc_invD[OF inv] in \<open>auto simp: serve_def\<close>)
qed

text \<open>A reply that reaches its thread: what is on the way loses it, and the thread no longer waits.\<close>

lemma got_inv:
  assumes inv: "rc_inv tid s" and i: "inj tid" and t: "waits s t n" and m: "(tid t, m) \<in> set (on_the_way s)"
    and way: "distinct (map fst (on_the_way s'))" "set (on_the_way s') = set (on_the_way s) - {(tid t, m)}" "smap_ok (rc_tidToReply s')"
    and pc: "rc_pc s' = (rc_pc s)(t := TGot n m)" and mutex: "rc_isMutex s' = None" "\<And>u. rc_isMutex s = Some u \<Longrightarrow> u = t"
  shows "rc_inv tid s'"
proof -
  have mn: "m = n" by (rule on_the_way_own[OF inv i t m])
  have w: "waits s' u k \<longleftrightarrow> u \<noteq> t \<and> waits s u k" for u k by (simp add: waits_def pc)
  have noread: "rc_pc s u \<noteq> TRead k" if "u \<noteq> t" for u k
    using rc_invD(5)[OF inv, of u k] mutex(2) that by auto
  show ?thesis
  proof (rule rc_invI)
    show "(tid u, k) \<in> set (on_the_way s')" if "waits s' u k" for u k
    proof -
      have "u \<noteq> t" "(tid u, k) \<in> set (on_the_way s)" using that w rc_invD(3)[OF inv] by simp_all
      then show ?thesis using injD[OF i, of u t] way(2) by auto
    qed
    show "\<exists>u. tid u = fst x \<and> waits s' u (snd x)" if x: "x \<in> set (on_the_way s')" for x
    proof -
      obtain u where u: "tid u = fst x" "waits s u (snd x)" using x way(2) rc_invD(4)[OF inv, of x] by auto
      have "u \<noteq> t"
      proof
        assume "u = t"
        then have "snd x = n" using u(2) t by (auto simp: waits_def)
        then have "x = (tid t, m)" using u(1) \<open>u = t\<close> mn by (cases x) simp
        then show False using x way(2) by simp
      qed
      then show ?thesis using u w by blast
    qed
    show "finite {u. rc_pc s' u \<noteq> TIdle}"
      by (rule finite_subset[of _ "insert t {u. rc_pc s u \<noteq> TIdle}"]) (auto simp: pc rc_invD(8)[OF inv])
    show "rc_isMutex s' = Some u \<and> smap_find (tid u) (rc_tidToReply s') = None" if "rc_pc s' u = TRead k" for u k
      using that noread[of u k] by (simp add: pc split: if_splits)
    show "b = a" if "rc_pc s' u = TGot a b" for u a b
      using that rc_invD(7)[OF inv, of u a b] mn by (simp add: pc split: if_splits)
  qed (use way mutex(1) in simp_all)
qed

lemma distinct_replace: "distinct (xs @ ys) \<Longrightarrow> distinct zs \<Longrightarrow> set zs \<subseteq> set ys \<Longrightarrow> distinct (xs @ zs)"
  by auto

lemma smap_erase_set: "distinct (map fst m) \<Longrightarrow> (k, v) \<in> set m \<Longrightarrow> set (smap_erase k m) = set m - {(k, v)}"
  by (induction m) (auto simp: image_iff)

lemma smap_set_fresh: "smap_find k m = None \<Longrightarrow> set (smap_set k v m) = insert (k, v) (set m)"
  by (induction m) (auto split: if_splits)

lemma look_up_inv:
  assumes inv: "rc_inv tid s" and i: "inj tid" and t: "rc_pc s t = TWait n" and free: "rc_isMutex s = None"
  shows "rc_inv tid (look_up tid t n s)"
proof (cases "smap_find (tid t) (rc_tidToReply s)")
  case None
  let ?s = "look_up tid t n s"
  have s: "?s = s\<lparr>rc_pc := (rc_pc s)(t := TRead n), rc_isMutex := Some t\<rparr>" using None by (simp add: look_up_def)
  have w: "waits ?s = waits s" using t by (auto simp: fun_eq_iff waits_def s)
  have way: "on_the_way ?s = on_the_way s" by (simp add: on_the_way_def s)
  show ?thesis
  proof (rule rc_invI, unfold w way)
    show "finite {u. rc_pc ?s u \<noteq> TIdle}"
      by (rule finite_subset[OF _ rc_invD(8)[OF inv]]) (use t in \<open>auto simp: s split: if_splits\<close>)
    show "rc_isMutex ?s = Some u \<and> smap_find (tid u) (rc_tidToReply ?s) = None" if "rc_pc ?s u = TRead k" for u k
      using that None rc_invD(5)[OF inv, of u k] free by (simp add: s split: if_splits)
    show "\<exists>k. rc_pc ?s u = TRead k" if "rc_isMutex ?s = Some u" for u using that unfolding s by auto
    show "b = a" if "rc_pc ?s u = TGot a b" for u a b
      using that rc_invD(7)[OF inv, of u a b] by (simp add: s split: if_splits)
  qed (use rc_invD[OF inv] in \<open>auto simp: s\<close>)
next
  case (Some m)
  let ?s = "look_up tid t n s"
  have s: "?s = s\<lparr>rc_pc := (rc_pc s)(t := TGot n m), rc_tidToReply := smap_erase (tid t) (rc_tidToReply s)\<rparr>"
    using Some by (simp add: look_up_def)
  have d: "distinct (map fst (rc_tidToReply s))" using rc_invD(2)[OF inv] by (simp add: smap_ok_def)
  have c: "(tid t, m) \<in> set (rc_tidToReply s)" by (rule smap_find_Some_in[OF Some])
  have e: "set (smap_erase (tid t) (rc_tidToReply s)) = set (rc_tidToReply s) - {(tid t, m)}" by (rule smap_erase_set[OF d c])
  have others: "(tid t, m) \<notin> set (rc_requests s)" "(tid t, m) \<notin> set (rc_replies s)"
    using rc_invD(1)[OF inv] c by (force simp: on_the_way_def)+
  show ?thesis
  proof (rule got_inv[OF inv i])
    show "distinct (map fst (on_the_way ?s))"
      using distinct_replace[of "map fst (rc_requests s @ rc_replies s)" "map fst (rc_tidToReply s)" "map fst (smap_erase (tid t) (rc_tidToReply s))"]
        rc_invD(1,2)[OF inv] smap_ok_erase[of "rc_tidToReply s" "tid t"] smap_keys_erase[OF d, of "tid t"]
      by (simp add: on_the_way_def s smap_ok_def)
  qed (use t free c e others rc_invD(2)[OF inv] in \<open>auto simp: waits_def on_the_way_def s\<close>)
qed

lemma read_reply_inv:
  assumes inv: "rc_inv tid s" and i: "inj tid" and t: "rc_pc s t = TRead n" and r: "rc_replies s \<noteq> []"
  shows "rc_inv tid (read_reply tid t n s)"
proof -
  obtain u m xs where x: "rc_replies s = (u, m) # xs" using r by (metis list.exhaust surj_pair)
  have mutex: "rc_isMutex s = Some t" and none: "smap_find (tid t) (rc_tidToReply s) = None" using rc_invD(5)[OF inv t] by simp_all
  have d: "distinct (map fst (rc_requests s @ (u, m) # xs @ rc_tidToReply s))" using rc_invD(1)[OF inv] by (simp add: on_the_way_def x)
  have noread: "v = t" if "rc_pc s v = TRead k" for v k using rc_invD(5)[OF inv that] mutex by simp
  let ?s = "read_reply tid t n s"
  show ?thesis
  proof (cases "u = tid t")
    case True
    have s: "?s = s\<lparr>rc_replies := xs, rc_isMutex := None, rc_pc := (rc_pc s)(t := TGot n m)\<rparr>" using True x by (simp add: read_reply_def Let_def)
    have "(u, m) \<notin> set (rc_requests s)" "(u, m) \<notin> set xs" "(u, m) \<notin> set (rc_tidToReply s)"
      using d by (force simp: image_iff)+
    then have way: "set (on_the_way ?s) = set (on_the_way s) - {(tid t, m)}" using x True by (auto simp: on_the_way_def s)
    show ?thesis
      by (rule got_inv[OF inv i _ _ _ way]) (use t True x mutex rc_invD(2)[OF inv] d in \<open>auto simp: waits_def on_the_way_def s\<close>)
  next
    case False
    have s: "?s = s\<lparr>rc_replies := xs, rc_isMutex := None, rc_pc := (rc_pc s)(t := TWait n), rc_tidToReply := smap_set u m (rc_tidToReply s)\<rparr>"
      using False x by (simp add: read_reply_def Let_def)
    have fresh: "smap_find u (rc_tidToReply s) = None" using d by (auto simp: smap_find_None_iff)
    have way: "set (on_the_way ?s) = set (on_the_way s)" using x smap_set_fresh[OF fresh] by (auto simp: on_the_way_def s)
    have w: "waits ?s = waits s" using t by (auto simp: fun_eq_iff waits_def s)
    show ?thesis
    proof (rule rc_invI, unfold w way)
      have "distinct (map fst (smap_set u m (rc_tidToReply s)))" using smap_ok_set[OF rc_invD(2)[OF inv]] by (simp add: smap_ok_def)
      then show "distinct (map fst (on_the_way ?s))"
        using d smap_keys_set[of u m "rc_tidToReply s"] by (auto simp: on_the_way_def s)
      show "finite {v. rc_pc ?s v \<noteq> TIdle}"
        by (rule finite_subset[OF _ rc_invD(8)[OF inv]]) (use t in \<open>auto simp: s split: if_splits\<close>)
      show "rc_isMutex ?s = Some v \<and> smap_find (tid v) (rc_tidToReply ?s) = None" if "rc_pc ?s v = TRead k" for v k
        using that noread[of v k] by (simp add: s split: if_splits)
      show "b = a" if "rc_pc ?s v = TGot a b" for v a b
        using that rc_invD(7)[OF inv, of v a b] by (simp add: s split: if_splits)
    qed (use rc_invD(2-4)[OF inv] in \<open>auto simp: s\<close>)
  qed
qed

lemma rc_reach_inv: "rc_reach tid s \<Longrightarrow> inj tid \<Longrightarrow> rc_inv tid s"
proof (induction rule: rc_reach.induct)
  case reach_new
  show ?case by (simp add: rc_inv_def rc_new_def on_the_way_def waits_def)
next
  case (reach_send s t)
  then show ?case using send_inv by blast
next
  case (reach_work s s')
  from reach_work(2) show ?case
    by (cases rule: work_stepE) (use reach_work serve_inv look_up_inv read_reply_inv in blast)+
next
  case (reach_return s t n m)
  then show ?case using return_inv by blast
qed

section \<open>Every thread gets its own reply\<close>

definition pending :: "connection \<Rightarrow> nat" where
  "pending s = 3 * length (rc_requests s) + 2 * length (rc_replies s) + card {t. \<exists>n. rc_pc s t = TWait n}"

lemma waiting_card:
  assumes "finite {t. rc_pc s t \<noteq> TIdle}"
  shows "rc_pc s t = TWait n \<Longrightarrow> (\<nexists>k. pc = TWait k) \<Longrightarrow> card {u. \<exists>k. ((rc_pc s)(t := pc)) u = TWait k} < card {u. \<exists>k. rc_pc s u = TWait k}"
    and "rc_pc s t \<noteq> TWait n \<Longrightarrow> card {u. \<exists>k. ((rc_pc s)(t := TWait n)) u = TWait k} \<le> Suc (card {u. \<exists>k. rc_pc s u = TWait k})"
    and "\<nexists>k. pc = TWait k \<Longrightarrow> card {u. \<exists>k. ((rc_pc s)(t := pc)) u = TWait k} \<le> card {u. \<exists>k. rc_pc s u = TWait k}"
proof -
  have fin: "finite {u. \<exists>k. rc_pc s u = TWait k}" by (rule finite_subset[OF _ assms]) auto
  show "rc_pc s t = TWait n \<Longrightarrow> (\<nexists>k. pc = TWait k) \<Longrightarrow> card {u. \<exists>k. ((rc_pc s)(t := pc)) u = TWait k} < card {u. \<exists>k. rc_pc s u = TWait k}"
    by (rule psubset_card_mono[OF fin]) auto
  have "{u. \<exists>k. ((rc_pc s)(t := TWait n)) u = TWait k} \<subseteq> insert t {u. \<exists>k. rc_pc s u = TWait k}" by auto
  then have "card {u. \<exists>k. ((rc_pc s)(t := TWait n)) u = TWait k} \<le> card (insert t {u. \<exists>k. rc_pc s u = TWait k})"
    using fin by (intro card_mono) auto
  also have "\<dots> \<le> Suc (card {u. \<exists>k. rc_pc s u = TWait k})" using fin by (simp add: card_insert_if)
  finally show "card {u. \<exists>k. ((rc_pc s)(t := TWait n)) u = TWait k} \<le> Suc (card {u. \<exists>k. rc_pc s u = TWait k})" .
  show "\<nexists>k. pc = TWait k \<Longrightarrow> card {u. \<exists>k. ((rc_pc s)(t := pc)) u = TWait k} \<le> card {u. \<exists>k. rc_pc s u = TWait k}"
    by (rule card_mono[OF fin]) auto
qed

lemma work_decreases:
  assumes inv: "rc_inv tid s" and step: "work_step tid s s'"
  shows "pending s' < pending s"
  using step
proof (cases rule: work_step.cases[case_names serve look read])
  case serve
  then obtain x xs where "rc_requests s = x # xs" by (cases "rc_requests s") auto
  then show ?thesis using serve(1) by (simp add: pending_def serve_def)
next
  case (look t n)
  then show ?thesis
    using waiting_card(1)[OF rc_invD(8)[OF inv], of t n "TRead n"] waiting_card(1)[OF rc_invD(8)[OF inv], of t n "TGot n _"]
    by (auto simp: pending_def look_up_def split: option.splits)
next
  case (read t n)
  obtain u m xs where x: "rc_replies s = (u, m) # xs" using read(3) by (metis list.exhaust surj_pair)
  show ?thesis
    using waiting_card(2)[OF rc_invD(8)[OF inv], of t n] waiting_card(3)[OF rc_invD(8)[OF inv], of "TGot n m" t] read x
    by (simp add: pending_def read_reply_def Let_def)
qed

lemma work_possible:
  assumes inv: "rc_inv tid s" and w: "waits s t n"
  shows "\<exists>s'. work_step tid s s'"
proof (cases "rc_isMutex s")
  case None
  then have "rc_pc s t = TWait n" using w rc_invD(5)[OF inv, of t n] by (auto simp: waits_def)
  then show ?thesis using step_look None by blast
next
  case (Some u)
  then obtain k where u: "rc_pc s u = TRead k" using rc_invD(6)[OF inv] by blast
  then have "(tid u, k) \<in> set (on_the_way s)" using rc_invD(3)[OF inv, of u k] by (simp add: waits_def)
  moreover have "(tid u, k) \<notin> set (rc_tidToReply s)"
    using rc_invD(5)[OF inv u] by (force simp: smap_find_None_iff)
  ultimately have "rc_requests s \<noteq> [] \<or> rc_replies s \<noteq> []" by (auto simp: on_the_way_def)
  then show ?thesis using step_serve step_read[OF u] by blast
qed

text \<open>C18: Where different threads have different ids, a thread never returns with the reply to another request. While a thread
  waits, the server or a waiting thread can go on, and every such step brings the end nearer: every thread gets its reply.\<close>

theorem transact_own_reply:
  assumes "inj tid" "rc_reach tid s"
  shows "(\<forall>t n m. rc_pc s t = TGot n m \<longrightarrow> m = n)
    \<and> (\<forall>t n. waits s t n \<longrightarrow> (\<exists>s'. work_step tid s s')) \<and> (\<forall>s'. work_step tid s s' \<longrightarrow> pending s' < pending s)"
  using rc_invD(7)[OF rc_reach_inv[OF assms(2,1)]] work_possible[OF rc_reach_inv[OF assms(2,1)]]
    work_decreases[OF rc_reach_inv[OF assms(2,1)]] by blast

text \<open>Two threads send, and each reads the reply of the other.\<close>

definition demo_threads :: connection where
  "demo_threads = read_reply id 5 1 (look_up id 5 1 (serve (serve (send_request id 5 (send_request id 4 rc_new)))))"

lemma demo_threads_reach: "rc_reach id demo_threads"
proof -
  let ?a = "send_request id 4 rc_new"
  let ?b = "send_request id 5 ?a"
  have a: "rc_reach id ?a" by (rule reach_send[OF reach_new]) (simp add: rc_new_def)
  have b: "rc_reach id ?b" by (rule reach_send[OF a]) (simp add: rc_new_def send_request_def)
  have c: "rc_reach id (serve (serve ?b))"
    by (rule reach_work[OF reach_work[OF b step_serve] step_serve]) (simp_all add: rc_new_def send_request_def serve_def)
  have d: "rc_reach id (look_up id 5 1 (serve (serve ?b)))"
    by (rule reach_work[OF c step_look]) (simp_all add: rc_new_def send_request_def serve_def)
  show ?thesis unfolding demo_threads_def
    by (rule reach_work[OF d step_read]) (simp_all add: rc_new_def send_request_def serve_def look_up_def)
qed

theorem transact_own_reply_witness:
  "waits demo_threads 4 0 \<and> smap_find 4 (rc_tidToReply demo_threads) = Some 0
    \<and> (\<exists>s'. work_step id demo_threads s' \<and> pending s' < pending demo_threads)"
proof -
  have w: "waits demo_threads 4 0 \<and> smap_find 4 (rc_tidToReply demo_threads) = Some 0"
    by (simp add: demo_threads_def waits_def rc_new_def send_request_def serve_def look_up_def read_reply_def Let_def)
  then show ?thesis using transact_own_reply[OF inj_on_id demo_threads_reach] by blast
qed

text \<open>Two threads whose ids have the same 32 bits: the second returns with the reply of the first.\<close>

lemma tid_collision_swaps:
  "\<exists>s. rc_reach (\<lambda>_. 7) s \<and> rc_pc s 5 = TGot 1 0"
proof -
  let ?a = "send_request (\<lambda>_. 7) 4 rc_new"
  let ?b = "send_request (\<lambda>_. 7) 5 ?a"
  have a: "rc_reach (\<lambda>_. 7) ?a" by (rule reach_send[OF reach_new]) (simp add: rc_new_def)
  have b: "rc_reach (\<lambda>_. 7) ?b" by (rule reach_send[OF a]) (simp add: rc_new_def send_request_def)
  have c: "rc_reach (\<lambda>_. 7) (serve ?b)" by (rule reach_work[OF b step_serve]) (simp add: rc_new_def send_request_def)
  have d: "rc_reach (\<lambda>_. 7) (look_up (\<lambda>_. 7) 5 1 (serve ?b))"
    by (rule reach_work[OF c step_look]) (simp_all add: rc_new_def send_request_def serve_def)
  have e: "rc_reach (\<lambda>_. 7) (read_reply (\<lambda>_. 7) 5 1 (look_up (\<lambda>_. 7) 5 1 (serve ?b)))"
    by (rule reach_work[OF d step_read]) (simp_all add: rc_new_def send_request_def serve_def look_up_def)
  have "rc_pc (read_reply (\<lambda>_. 7) 5 1 (look_up (\<lambda>_. 7) 5 1 (serve ?b))) 5 = TGot 1 0"
    by (simp add: rc_new_def send_request_def serve_def look_up_def read_reply_def Let_def)
  then show ?thesis using e by blast
qed

end
