(* ===== verification/NumberConversions.thy ===== *)
theory NumberConversions
  imports Prelude
begin

text \<open>
  The checked conversions between integer types (lib/Object/Builtin/ConvertCommonImpl.hpp), with the rules of C++ written out:
  the integral promotions, the common type of a comparison, and the conversion of a value to a type. The widths and the
  signedness of char are those of 64-bit Linux on x86. Conversions from and to floating point and complex types are not modelled.
\<close>

section \<open>Integer types\<close>

datatype int_type = Char | SChar | UChar | SShort | UShort | SInt | UInt | SLong | ULong | SLLong | ULLong

fun ct_bits :: "int_type \<Rightarrow> nat" where
  "ct_bits Char = 8" | "ct_bits SChar = 8" | "ct_bits UChar = 8" | "ct_bits SShort = 16" | "ct_bits UShort = 16"
| "ct_bits SInt = 32" | "ct_bits UInt = 32" | "ct_bits SLong = 64" | "ct_bits ULong = 64" | "ct_bits SLLong = 64" | "ct_bits ULLong = 64"

fun ct_signed :: "int_type \<Rightarrow> bool" where
  "ct_signed UChar = False" | "ct_signed UShort = False" | "ct_signed UInt = False" | "ct_signed ULong = False" | "ct_signed ULLong = False"
| "ct_signed _ = True"

definition ct_max :: "int_type \<Rightarrow> int" where
  "ct_max t = (if ct_signed t then 2 ^ (ct_bits t - 1) - 1 else 2 ^ ct_bits t - 1)"

definition ct_lowest :: "int_type \<Rightarrow> int" where
  "ct_lowest t = (if ct_signed t then - (2 ^ (ct_bits t - 1)) else 0)"

definition fits :: "int_type \<Rightarrow> int \<Rightarrow> bool" where
  "fits t x \<longleftrightarrow> ct_lowest t \<le> x \<and> x \<le> ct_max t"

text \<open>The value of the type that is congruent to the given one.\<close>

definition cast :: "int_type \<Rightarrow> int \<Rightarrow> int" where
  "cast t x = (let m = x mod 2 ^ ct_bits t in if ct_signed t \<and> m \<ge> 2 ^ (ct_bits t - 1) then m - 2 ^ ct_bits t else m)"

fun promote :: "int_type \<Rightarrow> int_type" where
  "promote Char = SInt" | "promote SChar = SInt" | "promote UChar = SInt" | "promote SShort = SInt" | "promote UShort = SInt"
| "promote t = t"

fun rank :: "int_type \<Rightarrow> nat" where
  "rank SLong = 4" | "rank ULong = 4" | "rank SLLong = 5" | "rank ULLong = 5" | "rank _ = 3"

fun make_unsigned :: "int_type \<Rightarrow> int_type" where
  "make_unsigned Char = UChar" | "make_unsigned SChar = UChar" | "make_unsigned SShort = UShort" | "make_unsigned SInt = UInt"
| "make_unsigned SLong = ULong" | "make_unsigned SLLong = ULLong" | "make_unsigned t = t"

fun make_signed :: "int_type \<Rightarrow> int_type" where
  "make_signed Char = SChar" | "make_signed UChar = SChar" | "make_signed UShort = SShort" | "make_signed UInt = SInt"
| "make_signed ULong = SLong" | "make_signed ULLong = SLLong" | "make_signed t = t"

text \<open>The usual arithmetic conversions of two promoted types.\<close>

definition common_type :: "int_type \<Rightarrow> int_type \<Rightarrow> int_type" where
  "common_type a b =
     (let a = promote a; b = promote b in
      if ct_signed a = ct_signed b then (if rank a \<ge> rank b then a else b)
      else let (s, u) = (if ct_signed a then (a, b) else (b, a)) in
        if rank u \<ge> rank s then u else if ct_bits s > ct_bits u then s else make_unsigned s)"

definition less_than :: "int_type \<Rightarrow> int \<Rightarrow> int_type \<Rightarrow> int \<Rightarrow> bool" where
  "less_than a x b y \<longleftrightarrow> (let t = common_type a b in cast t x < cast t y)"

section \<open>The conversion\<close>

definition convertNumCheck :: "int_type \<Rightarrow> int_type \<Rightarrow> int \<Rightarrow> bool" where
  "convertNumCheck inType outType x \<longleftrightarrow>
     \<not> (less_than outType (ct_max outType) inType x
        \<or> ct_signed inType \<and> less_than (make_signed inType) (cast (make_signed inType) x)
            (make_signed outType) (cast (make_signed outType) (ct_lowest outType)))"

text \<open>None is the range exception.\<close>

definition convertNum :: "int_type \<Rightarrow> int_type \<Rightarrow> int \<Rightarrow> int option" where
  "convertNum inType outType x = (if convertNumCheck inType outType x then Some (cast outType x) else None)"

text \<open>A vector is converted element by element; the first element out of range throws.\<close>

fun convertVec :: "int_type \<Rightarrow> int_type \<Rightarrow> int list \<Rightarrow> int list option" where
  "convertVec inType outType [] = Some []"
| "convertVec inType outType (x # xs) =
     (case convertNum inType outType x of None \<Rightarrow> None
      | Some y \<Rightarrow> map_option ((#) y) (convertVec inType outType xs))"

section \<open>The conversion is exact\<close>

lemma cast_fits:
  assumes x: "fits t x"
  shows "cast t x = x"
proof -
  obtain h where h: "2 ^ (ct_bits t - Suc 0) = h" "0 < h" "(2 :: int) ^ ct_bits t = 2 * h" by (cases t) simp_all
  show ?thesis
  proof (cases "0 \<le> x")
    case True
    then have "x < 2 * h" "ct_signed t \<Longrightarrow> x < h" using x h by (auto simp: fits_def ct_max_def split: if_splits)
    then show ?thesis using True by (auto simp: cast_def Let_def h)
  next
    case False
    then have s: "ct_signed t" "- h \<le> x" using x h by (auto simp: fits_def ct_lowest_def split: if_splits)
    have "x mod (2 * h) = (x + 2 * h) mod (2 * h)" by simp
    also have "\<dots> = x + 2 * h" by (rule mod_pos_pos_trivial) (use s False h in auto)
    finally show ?thesis using s by (simp add: cast_def Let_def h)
  qed
qed

lemma less_than_exact: "fits (common_type a b) x \<Longrightarrow> fits (common_type a b) y \<Longrightarrow> less_than a x b y \<longleftrightarrow> x < y"
  by (simp add: less_than_def Let_def cast_fits)

lemma fits_iff: "fits t x \<longleftrightarrow> (case t of
     Char \<Rightarrow> - 128 \<le> x \<and> x \<le> 127 | SChar \<Rightarrow> - 128 \<le> x \<and> x \<le> 127 | UChar \<Rightarrow> 0 \<le> x \<and> x \<le> 255
   | SShort \<Rightarrow> - 32768 \<le> x \<and> x \<le> 32767 | UShort \<Rightarrow> 0 \<le> x \<and> x \<le> 65535
   | SInt \<Rightarrow> - 2147483648 \<le> x \<and> x \<le> 2147483647 | UInt \<Rightarrow> 0 \<le> x \<and> x \<le> 4294967295
   | SLong \<Rightarrow> - 9223372036854775808 \<le> x \<and> x \<le> 9223372036854775807 | ULong \<Rightarrow> 0 \<le> x \<and> x \<le> 18446744073709551615
   | SLLong \<Rightarrow> - 9223372036854775808 \<le> x \<and> x \<le> 9223372036854775807 | ULLong \<Rightarrow> 0 \<le> x \<and> x \<le> 18446744073709551615)"
  by (cases t) (auto simp: fits_def ct_lowest_def ct_max_def)

text \<open>The comparison with the maximum is exact unless a negative value meets an unsigned type.\<close>

lemma max_comparison:
  assumes "fits i x" "\<not> (x < 0 \<and> \<not> ct_signed out)"
  shows "less_than out (ct_max out) i x \<longleftrightarrow> ct_max out < x"
proof (rule less_than_exact)
  show "fits (common_type out i) (ct_max out)"
    by (cases i; cases out) (simp_all add: common_type_def fits_iff ct_max_def)
  show "fits (common_type out i) x"
    using assms by (cases i; cases out) (simp_all add: common_type_def fits_iff)
qed

text \<open>The comparison with the minimum is made in signed types and is always exact.\<close>

lemma lowest_comparison:
  assumes "fits i x" "ct_signed i"
  shows "less_than (make_signed i) (cast (make_signed i) x) (make_signed out) (cast (make_signed out) (ct_lowest out)) \<longleftrightarrow> x < ct_lowest out"
proof -
  have x: "fits (make_signed i) x" using assms by (cases i) (simp_all add: fits_iff)
  have l: "fits (make_signed out) (ct_lowest out)" by (cases out) (simp_all add: fits_iff ct_lowest_def)
  have "fits (common_type (make_signed i) (make_signed out)) x" "fits (common_type (make_signed i) (make_signed out)) (ct_lowest out)"
    using assms by (cases i; cases out; simp add: common_type_def fits_iff ct_lowest_def)+
  then show ?thesis using less_than_exact by (simp add: cast_fits[OF x] cast_fits[OF l])
qed

lemma check_exact:
  assumes "fits i x"
  shows "convertNumCheck i out x \<longleftrightarrow> fits out x"
proof (cases "x < 0 \<and> \<not> ct_signed out")
  case True
  then have "ct_signed i" using assms by (cases i) (auto simp: fits_iff)
  moreover have "x < ct_lowest out" using True by (simp add: ct_lowest_def)
  ultimately show ?thesis using lowest_comparison[OF assms, of out] by (auto simp: convertNumCheck_def fits_def)
next
  case False
  have "ct_signed i \<or> ct_lowest out \<le> x"
    using assms False by (cases i; cases out) (auto simp: fits_iff ct_lowest_def)
  then show ?thesis
    using max_comparison[OF assms False] lowest_comparison[OF assms, of out]
    by (auto simp: convertNumCheck_def fits_def)
qed

text \<open>C39: A conversion between integer types gives the value itself where the target type can hold it, and throws otherwise: no
  pair of types lets a comparison of mixed signs or widths accept a value that changes. A vector throws exactly when one of its
  elements does not fit.\<close>

theorem convert_num_exact:
  assumes "list_all (fits inType) xs"
  shows "convertVec inType outType xs = (if list_all (fits outType) xs then Some xs else None)
    \<and> map (convertNum inType outType) xs = map (\<lambda>x. if fits outType x then Some x else None) xs"
proof -
  have one: "convertNum inType outType x = (if fits outType x then Some x else None)" if "fits inType x" for x
    using check_exact[OF that] cast_fits by (simp add: convertNum_def)
  show ?thesis using assms by (induction xs) (auto simp: one)
qed

theorem convert_num_exact_witness:
  "convertVec SInt UInt [5, -1] = None \<and> convertVec SLLong UChar [0, 255] = Some [0, 255] \<and> convertVec SInt ULLong [-1] = None"
  using convert_num_exact[of SInt "[5, -1]" UInt] convert_num_exact[of SLLong "[0, 255]" UChar] convert_num_exact[of SInt "[-1]" ULLong]
  by (simp add: fits_iff)

end
