(* ===== verification/Spec2Isabelle.thy ===== *)
theory Spec2Isabelle
  imports OrderedQueue DType SharedBuf ManagedBuf BufferAccumulator BufferManagers Ports PortAllocation Worker BlockApi ActorInterface BufferConvert Topology TopologyFlows TopologyCommit PluginRegistry ThreadEnvironment DigitalBlocks SymbolBlocks PacketBlocks Callables ManagedClasses ByteOrder SerializeBlocks NetworkEndpoint NetworkBlocks UtilityBlocks NetworkFlows RemoteProxy RemoteThreads NumberConversions
begin

text \<open>
  A verification library for the core of the Pothos data-flow framework. Pothos runs graphs of processing blocks.
  A block is an actor with input and output ports; the framework gives it buffers, calls its work function when data is
  there, moves buffers, labels and messages along the flows of a topology, and finds every factory, converter and class
  in a tree of plugins. The library follows the C++ code of \<^verbatim>\<open>src/pothos-library\<close> (include and lib) and of
  \<^verbatim>\<open>src/pothos-blocks\<close>; paths below are relative to them, and names in the theories are the names of
  the code where Isabelle allows it.

  \<^bold>\<open>Parts and theories.\<close> The theories are ordered as the code is layered.

  \<^item> Prelude: size_t arithmetic (naturals below 2^64 with explicit wrap-around), exceptions as the left side of a sum,
    std::map as a sorted association list, lemmas on lists and the rule collections.
  \<^item> RingDeque and OrderedQueue (include/Pothos/Util): the ring buffer with its index arithmetic, and the queue that
    reorders. The ring buffer satisfies the locale \<open>deque\<close>, through which its clients use it.
  \<^item> DType (lib/Framework/DType.cpp): data types, the markup parser and the printers.
  \<^item> SharedBuf, ManagedBuf, BufferChunk, BufferAccumulator, BufferManagers (lib/Framework/SharedBuffer.cpp,
    SharedBufferUnix.cpp, ManagedBuffer.cpp, BufferChunk.cpp, BufferAccumulator.cpp, BufferManager.cpp, Builtin): memory as
    a function from addresses to bytes, reference counts, pieces of buffers with a data type, the stream of an input port,
    and the generic and the circular manager, both interpretations of the locale \<open>buffer_manager\<close>.
  \<^item> BufferConvert (BufferConvert.cpp): conversion of the elements of a chunk.
  \<^item> Ports, PortAllocation, Worker, BlockApi (Label.cpp, InputPort.cpp, OutputPort.cpp, WorkerActor.hpp, WorkerActor.cpp,
    WorkerActorPortAllocation.cpp, Block.cpp): a store of ports, managers and workers; posting, consuming, the port tables,
    the work task from preparation to delivery, slot calls and probes. A port posts into whatever satisfies the locale
    \<open>byte_sink\<close>; the accumulator does.
  \<^item> ActorInterface (ActorInterface.hpp): one step per atomic action of the worker and of external callers; exclusion and
    the absence of lost wake-ups are invariants of the reachable states.
  \<^item> ThreadEnvironment (ThreadPool.cpp, ThreadEnvironment.cpp): tasks and threads as a state machine in the same style.
  \<^item> Topology, TopologyFlows, TopologyCommit (Topology.cpp, TopologySquashFlows.cpp, TopologyDomainFlows.cpp,
    TopologyCommit.cpp): connection of ports, flattening of a hierarchy, insertion of copiers between buffer
    domains, and the commit that brings the workers in agreement with the flows. It calls the operations of Worker.
  \<^item> NetworkFlows (TopologyNetworkFlows.cpp, TopologyCommit.cpp): flows between processes, cut and carried by a cached pair of
    network blocks, and the commit over the topologies of all processes; in one process it is the commit of TopologyCommit.
  \<^item> PluginRegistry (lib/Plugin): paths and the registry tree with its handlers and modules.
  \<^item> RemoteProxy, RemoteThreads (lib/Remote): the handler of a server with its table of objects, the handles of a client, and
    the threads that share a connection. NumberConversions (lib/Object/Builtin/ConvertCommonImpl.hpp): checked conversions
    between integer types under the comparison rules of C++.
  \<^item> Callables, ManagedClasses (lib/Callable, lib/Object/Convert.cpp, lib/Managed): bound callables, the conversion of
    opaque objects, classes with overloads and the call of a managed handle, which picks an overload by convertibility.
  \<^item> DigitalBlocks, SymbolBlocks, PacketBlocks, UtilityBlocks (pothos-blocks/digital, packet, utility): the work functions of
    these blocks.
  \<^item> ByteOrder, SerializeBlocks (pothos-blocks/serialize): the framing of messages, labels and buffers into a stream of bytes and
    the search for the frames, however the stream is split.
  \<^item> NetworkEndpoint, NetworkBlocks (pothos-blocks/network): the endpoint protocol with its handshake, sequence numbers and flow
    control over a stream socket, two endpoints as a system with steps, and the blocks that use it.

  \<^bold>\<open>State and operations.\<close> A class is a record with the fields of the class, a method is a function that
  returns the updated record (and an error or a result); a method that changes shared objects is a function of the store
  that holds them. Exceptions are values, also where an operation throws after it has changed its state. Code that runs
  on several threads is an inductive step relation with a program counter per thread and one step per access to shared
  state; its properties are invariants of the reachable states.

  \<^bold>\<open>What the lemmas show.\<close> For each data structure an invariant, its preservation by every operation and a
  refinement of a simple abstract view: a list (RingDeque), a sequence (OrderedQueue), the stream of bytes
  (BufferAccumulator, Ports), a finite map (PluginRegistry). The managers never hand out memory that a client still
  holds and the handle counts are exact. Posting delivers every byte, label and message, in order (Ports, Worker). The
  topology flattens exactly to the connections that its hierarchy expresses, and the commit makes subscriptions
  and activity agree with them. The actor and the pools exclude each other as promised and lose no
  change. A program sees the same through remote handles as in the server, and every thread gets its own reply. Two endpoints
  of a connection stay in step and deliver a prefix of what was sent. Printers and parsers, encoders and decoders round
  trip. The properties of the manifest are the theorems that carry a claim number; every one with a hypothesis is followed by a witness that applies it at a concrete input.

  \<^bold>\<open>Bounds and fuel.\<close> Recursion through probes (BlockApi), sub-topologies (TopologyFlows), the conversions of
  callables (Callables), base classes (ManagedClasses) and the search for missed events (PluginRegistry) is not bounded
  by the code, and takes fuel; None is exhausted fuel. Two units are enough for a probe of a plain call, the
  depth of the hierarchy plus one for the topologies (theorem \<open>squash_returns\<close>), the size of the request for the
  arguments of a remote call (lemma \<open>req_args_enough\<close>), three for a conversion with the converters as plain functions (theorem \<open>convert_gives_type\<close>), and the height of the tree for the registry, which is
  what the model of the call passes. Loops that need not return are partial functions (SymbolBlocks), and that
  they return is a property.

  \<^bold>\<open>Not modelled.\<close> Floating point arithmetic (parameters), clocks and timeouts, log messages and display names,
  thread priorities and affinities, the operating system (results of its calls are arguments), memory order weaker than
  sequential consistency. The archives of objects (boost) and the socket classes (Poco, UDT) are parameters or left
  out, and so are the proxy environments behind a server; calls of proxies into other processes run as calls on one store. Vendored libraries, the graphical tools, the
  bindings to Java, Python, OpenCL and SDR hardware, and tests are outside. The manifest lists every part with its status.
\<close>

end
